(* ===== verification/Prelude.thy ===== *)
theory Prelude
  imports Main "HOL-Library.Word"
begin

text \<open>
  The shared layer of the development.  It holds the result type in which every panic of the Rust
  code is a value, the operations of \<open>std\<close> that the containers use (checked indexing, \<open>resize\<close>,
  \<open>truncate\<close>, \<open>expect\<close>), and the generic lemmas the component theories share.
\<close>

section \<open>Panics as values\<close>

text \<open>
  One constructor per panic message of the sources.  \<open>Diverge\<close> is not a panic: it is the result of a
  modelled loop whose fuel ran out.  Every loop gets at least as much fuel as there are distinct
  loop states, so \<open>Diverge\<close> means that the Rust loop runs forever.
\<close>

datatype panic =
    IndexOutOfBounds
  | LenOverflow
  | Underflow
  | Untracked
  | WrongContainer
  | AbandonedFuture
  | BeyondFrameStack
  | CountExceeded
  | FullForIndexWord
  | IdRange
  | IdNotPresent
  | ValueNotPresent
  | SameList
  | ListLenOverflow
  | NotSequential
  | ProofsRequired
  | WidthFixed
  | ArenaExhausted
  | UnwrapNone
  | NotBitStealing
  | KeyWidth
  | ArithOverflow
  | CursorExhausted
  | EmptyJoin
  | JoinInvariant
  | JoinInvalid
  | SliceLength
  | RemainderByZero
  | DivideByZero
  | MultiplicityOverflow
  | RewriteGuard
  | PositionWidth
  | Diverge

type_synonym 'a res = "panic + 'a"

definition rbind :: "'a res \<Rightarrow> ('a \<Rightarrow> 'b res) \<Rightarrow> 'b res" where
  "rbind m f = (case m of Inl e \<Rightarrow> Inl e | Inr x \<Rightarrow> f x)"

definition rassert :: "bool \<Rightarrow> panic \<Rightarrow> unit res" where
  "rassert b e = (if b then Inr () else Inl e)"

definition expect :: "panic \<Rightarrow> 'a option \<Rightarrow> 'a res" where
  "expect e x = (case x of None \<Rightarrow> Inl e | Some y \<Rightarrow> Inr y)"

named_theorems panic_simps "evaluation of the result monad and of checked accesses"

lemma rbind_Inr [simp, panic_simps]: "rbind (Inr x) f = f x"
  by (simp add: rbind_def)

lemma rbind_Inl [simp, panic_simps]: "rbind (Inl e) f = Inl e"
  by (simp add: rbind_def)

lemma rbind_eq_Inr: "rbind m f = Inr y \<longleftrightarrow> (\<exists>x. m = Inr x \<and> f x = Inr y)"
  by (cases m) simp_all

lemma rbind_eq_InrE [elim]:
  assumes "rbind m f = Inr y"
  obtains x where "m = Inr x" and "f x = Inr y"
  using assms by (auto simp: rbind_eq_Inr)

lemma rbind_assoc: "rbind (rbind m f) g = rbind m (\<lambda>x. rbind (f x) g)"
  by (cases m) simp_all

lemma rbind_Inr_right [simp]: "rbind m Inr = m"
  by (cases m) simp_all

lemma rassert_True [simp, panic_simps]: "b \<Longrightarrow> rassert b e = Inr ()"
  by (simp add: rassert_def)

lemma rassert_False [simp, panic_simps]: "\<not> b \<Longrightarrow> rassert b e = Inl e"
  by (simp add: rassert_def)

lemma rassert_eq_Inr [simp]: "rassert b e = Inr u \<longleftrightarrow> b"
  by (simp add: rassert_def)

lemma expect_Some [simp, panic_simps]: "expect e (Some x) = Inr x"
  by (simp add: expect_def)

lemma expect_None [simp, panic_simps]: "expect e None = Inl e"
  by (simp add: expect_def)

lemma expect_eq_Inr [simp]: "expect e x = Inr y \<longleftrightarrow> x = Some y"
  by (cases x) simp_all

section \<open>Slices and vectors of \<open>std\<close>\<close>

text \<open>\<open>xs[i]\<close> panics out of range; so does an assignment to \<open>xs[i]\<close>.\<close>

definition nth_res :: "'a list \<Rightarrow> nat \<Rightarrow> 'a res" where
  "nth_res xs i = (if i < length xs then Inr (xs ! i) else Inl IndexOutOfBounds)"

definition upd_res :: "'a list \<Rightarrow> nat \<Rightarrow> 'a \<Rightarrow> 'a list res" where
  "upd_res xs i x = (if i < length xs then Inr (xs[i := x]) else Inl IndexOutOfBounds)"

definition vec_resize :: "nat \<Rightarrow> 'a \<Rightarrow> 'a list \<Rightarrow> 'a list" where
  "vec_resize n x xs = take n xs @ replicate (n - length xs) x"

definition div_ceil :: "nat \<Rightarrow> nat \<Rightarrow> nat" where
  "div_ceil n k = (n + k - 1) div k"

text \<open>A loop that collects one value per element; the first panic wins.\<close>

fun rmap :: "('a \<Rightarrow> 'b res) \<Rightarrow> 'a list \<Rightarrow> 'b list res" where
  "rmap f [] = Inr []"
| "rmap f (x # xs) = rbind (f x) (\<lambda>y. rbind (rmap f xs) (\<lambda>ys. Inr (y # ys)))"

lemma rmap_ok: "(\<And>x. x \<in> set xs \<Longrightarrow> f x = Inr (g x)) \<Longrightarrow> rmap f xs = Inr (map g xs)"
  by (induction xs) auto

lemma rmap_all:
  assumes "\<And>x. x \<in> set xs \<Longrightarrow> \<exists>y. f x = Inr y \<and> P x y"
  shows "\<exists>ys. rmap f xs = Inr ys \<and> list_all2 P xs ys"
  using assms
proof (induction xs)
  case (Cons x xs)
  then obtain y ys where "f x = Inr y" "P x y" "rmap f xs = Inr ys" "list_all2 P xs ys" by fastforce
  then show ?case by simp
qed simp

lemma nth_res_in [simp, panic_simps]: "i < length xs \<Longrightarrow> nth_res xs i = Inr (xs ! i)"
  by (simp add: nth_res_def)

lemma nth_res_out [simp, panic_simps]: "length xs \<le> i \<Longrightarrow> nth_res xs i = Inl IndexOutOfBounds"
  by (simp add: nth_res_def)

lemma nth_res_eq_Inr: "nth_res xs i = Inr y \<longleftrightarrow> i < length xs \<and> xs ! i = y"
  by (auto simp: nth_res_def)

lemma upd_res_in [simp, panic_simps]: "i < length xs \<Longrightarrow> upd_res xs i x = Inr (xs[i := x])"
  by (simp add: upd_res_def)

lemma upd_res_eq_Inr: "upd_res xs i x = Inr ys \<longleftrightarrow> i < length xs \<and> ys = xs[i := x]"
  by (auto simp: upd_res_def)

lemma length_vec_resize [simp]: "length (vec_resize n x xs) = n"
  by (simp add: vec_resize_def)

lemma nth_vec_resize:
  "i < n \<Longrightarrow> vec_resize n x xs ! i = (if i < length xs then xs ! i else x)"
  by (auto simp: vec_resize_def nth_append)

lemma div_ceil_64_gt: "i < n \<Longrightarrow> i div 64 < div_ceil n 64"
  unfolding div_ceil_def by linarith

section \<open>Generic list lemmas\<close>

lemma nth_eq_last_snoc: "(xs @ [x]) ! length xs = x"
  by simp

lemma last_nth_Suc: "length xs = Suc k \<Longrightarrow> last xs = xs ! k"
  by (cases xs rule: rev_cases) auto

lemma butlast_conv_take_pred: "butlast xs = take (length xs - 1) xs"
  by (simp add: butlast_conv_take)

lemma take_concat_prefix: "k \<le> length xss \<Longrightarrow> take (length (concat (take k xss))) (concat xss) = concat (take k xss)"
proof -
  assume "k \<le> length xss"
  have "concat xss = concat (take k xss) @ concat (drop k xss)"
    by (metis append_take_drop_id concat_append)
  then show ?thesis by simp
qed

lemma drop_concat_prefix: "drop (length (concat (take k xss))) (concat xss) = concat (drop k xss)"
proof -
  have "concat xss = concat (take k xss) @ concat (drop k xss)"
    by (metis append_take_drop_id concat_append)
  then show ?thesis by simp
qed

end
