(* ===== verification/Index_Like.thy ===== *)
theory Index_Like
  imports Prelude
begin

unbundle bit_operations_syntax

text \<open>
  Index words and dense identifiers: \<open>containers/src/dense_id.rs\<close> (the trait \<open>IndexLike\<close>, its
  checked arithmetic and the \<open>IdFactory\<close>) and \<open>containers/src/id.rs\<close> (the identifier types that
  \<open>define_id7\<close> \dots \<open>define_id63\<close> generate).  The trait is a record of its methods, its documented
  contract is the locale \<open>index_like\<close>, and every implementation in the crate is an interpretation.
  The other components index with \<open>nat\<close> values bounded by \<open>MAX.as_usize()\<close>; the lemmas of the
  locale that speak of \<open>idx_try\<close> justify that view.
\<close>

section \<open>The trait\<close>

record 'i index_ops =
  ix_MIN :: 'i
  ix_MAX :: 'i
  as_usize :: "'i \<Rightarrow> nat"
  try_from_usize :: "nat \<Rightarrow> 'i option"

text \<open>Checked arithmetic of \<open>usize\<close> on a 64-bit target.\<close>

definition usize_checked_add :: "nat \<Rightarrow> nat \<Rightarrow> nat option" where
  "usize_checked_add a b = (if a + b < 2 ^ 64 then Some (a + b) else None)"

definition usize_checked_sub :: "nat \<Rightarrow> nat \<Rightarrow> nat option" where
  "usize_checked_sub a b = (if b \<le> a then Some (a - b) else None)"

definition usize_checked_mul :: "nat \<Rightarrow> nat \<Rightarrow> nat option" where
  "usize_checked_mul a b = (if a * b < 2 ^ 64 then Some (a * b) else None)"

definition checked_add :: "'i index_ops \<Rightarrow> 'i \<Rightarrow> 'i \<Rightarrow> 'i option" where
  "checked_add D a b = Option.bind (usize_checked_add (as_usize D a) (as_usize D b)) (try_from_usize D)"

definition checked_sub :: "'i index_ops \<Rightarrow> 'i \<Rightarrow> 'i \<Rightarrow> 'i option" where
  "checked_sub D a b = Option.bind (usize_checked_sub (as_usize D a) (as_usize D b)) (try_from_usize D)"

definition checked_mul :: "'i index_ops \<Rightarrow> 'i \<Rightarrow> 'i \<Rightarrow> 'i option" where
  "checked_mul D a b = Option.bind (usize_checked_mul (as_usize D a) (as_usize D b)) (try_from_usize D)"

definition checked_incr :: "'i index_ops \<Rightarrow> 'i \<Rightarrow> 'i option" where
  "checked_incr D a = Option.bind (usize_checked_add (as_usize D a) 1) (try_from_usize D)"

definition checked_decr :: "'i index_ops \<Rightarrow> 'i \<Rightarrow> 'i option" where
  "checked_decr D a = Option.bind (usize_checked_sub (as_usize D a) 1) (try_from_usize D)"

definition checked_add_usize :: "'i index_ops \<Rightarrow> 'i \<Rightarrow> nat \<Rightarrow> 'i option" where
  "checked_add_usize D a n = Option.bind (usize_checked_add (as_usize D a) n) (try_from_usize D)"

section \<open>The implementations\<close>

text \<open>\<open>u8\<close>, \<open>u16\<close>, \<open>u32\<close>, \<open>u64\<close>: the width is the type's length.\<close>

definition word_index :: "'w::len word index_ops" where
  "word_index = \<lparr>ix_MIN = 0, ix_MAX = - 1, as_usize = unat,
     try_from_usize = (\<lambda>n. if n < 2 ^ LENGTH('w) then Some (of_nat n) else None)\<rparr>"

definition usize_index :: "64 word index_ops" where
  "usize_index = \<lparr>ix_MIN = 0, ix_MAX = - 1, as_usize = unat,
     try_from_usize = (\<lambda>n. Some (of_nat n))\<rparr>"

text \<open>
  A generated identifier is a word whose most significant bit is reserved for the capture flag:
  \<open>$MASK\<close> covers the other bits and \<open>$CAP\<close> is the reserved one.
\<close>

definition id_mask :: "'w::len word" where
  "id_mask = mask (LENGTH('w) - 1)"

definition id_cap :: "'w::len word" where
  "id_cap = push_bit (LENGTH('w) - 1) 1"

definition id_clean :: "'w::len word \<Rightarrow> bool" where
  "id_clean w \<longleftrightarrow> w \<le> id_mask"

definition id_eq :: "'w::len word \<Rightarrow> 'w word \<Rightarrow> bool" where
  "id_eq a b \<longleftrightarrow> a AND id_mask = b AND id_mask"

definition id_less :: "'w::len word \<Rightarrow> 'w word \<Rightarrow> bool" where
  "id_less a b \<longleftrightarrow> a AND id_mask < b AND id_mask"

definition id_new :: "'w::len word \<Rightarrow> 'w word res" where
  "id_new raw = (if raw \<le> id_mask then Inr raw else Inl IdRange)"

definition id_try_from :: "'w::len word \<Rightarrow> 'w word option" where
  "id_try_from raw = (if raw \<le> id_mask then Some raw else None)"

definition id_index :: "'w::len word index_ops" where
  "id_index = \<lparr>ix_MIN = 0, ix_MAX = id_mask, as_usize = (\<lambda>w. unat (w AND id_mask)),
     try_from_usize = (\<lambda>n. if n \<le> unat (id_mask :: 'w word) then Some (of_nat n) else None)\<rparr>"

definition id_from_usize :: "nat \<Rightarrow> 'w::len word res" where
  "id_from_usize n = expect IdRange (try_from_usize id_index n)"

text \<open>\<open>IdFactory\<close>: the state is the counter \<open>next\<close>.\<close>

record id_factory =
  next_id :: nat

definition id_factory_new :: id_factory where
  "id_factory_new = \<lparr>next_id = 0\<rparr>"

definition try_alloc :: "'i index_ops \<Rightarrow> id_factory \<Rightarrow> 'i option \<times> id_factory" where
  "try_alloc D f = (case try_from_usize D (next_id f) of
      None \<Rightarrow> (None, f)
    | Some i \<Rightarrow> (Some i, f\<lparr>next_id := next_id f + 1\<rparr>))"

definition alloc :: "'i index_ops \<Rightarrow> id_factory \<Rightarrow> ('i \<times> id_factory) res" where
  "alloc D f = (case try_alloc D f of
      (None, _) \<Rightarrow> Inl IdRange
    | (Some i, f') \<Rightarrow> Inr (i, f'))"

text \<open>\<open>n\<close> successful allocations in a row.\<close>

fun alloc_many :: "'i index_ops \<Rightarrow> nat \<Rightarrow> id_factory \<Rightarrow> ('i list \<times> id_factory) res" where
  "alloc_many D 0 f = Inr ([], f)"
| "alloc_many D (Suc n) f = rbind (alloc D f) (\<lambda>(i, f'). rbind (alloc_many D n f')
     (\<lambda>(is, f''). Inr (i # is, f'')))"

section \<open>The contract\<close>

text \<open>
  \<open>clean\<close> separates the values the public constructors build: every word for the primitive
  implementations, the words without the reserved bit for identifiers.  The index view of the other
  components is \<open>idx_try imax\<close>, with \<open>imax\<close> standing for \<open>MAX.as_usize()\<close>.
\<close>

definition idx_try :: "nat \<Rightarrow> nat \<Rightarrow> nat option" where
  "idx_try imax n = (if n \<le> imax then Some n else None)"

text \<open>\<open>MAX\<close> of a 31-bit identifier.\<close>

definition imax31 :: nat where
  "imax31 = 2 ^ 31 - 1"

lemma le_imax31: "n \<le> imax31 \<longleftrightarrow> n < 2 ^ 31"
  by (auto simp: imax31_def)

locale index_like =
  fixes D :: "'i index_ops"
    and clean :: "'i \<Rightarrow> bool"
  assumes MIN_zero: "as_usize D (ix_MIN D) = 0"
    and MIN_clean: "clean (ix_MIN D)"
    and MAX_clean: "clean (ix_MAX D)"
    and MAX_fits: "as_usize D (ix_MAX D) < 2 ^ 64"
    and as_usize_le: "clean x \<Longrightarrow> as_usize D x \<le> as_usize D (ix_MAX D)"
    and as_usize_inj: "clean x \<Longrightarrow> clean y \<Longrightarrow> as_usize D x = as_usize D y \<Longrightarrow> x = y"
    and try_in: "n \<le> as_usize D (ix_MAX D) \<Longrightarrow>
      \<exists>x. try_from_usize D n = Some x \<and> clean x \<and> as_usize D x = n"
    and try_out: "n < 2 ^ 64 \<Longrightarrow> as_usize D (ix_MAX D) < n \<Longrightarrow> try_from_usize D n = None"
begin

abbreviation "imax \<equiv> as_usize D (ix_MAX D)"

lemma try_idx: "n < 2 ^ 64 \<Longrightarrow> map_option (as_usize D) (try_from_usize D n) = idx_try imax n"
  using try_in [of n] try_out [of n] by (cases "n \<le> imax") (auto simp: idx_try_def)

lemma try_as_usize: "clean x \<Longrightarrow> try_from_usize D (as_usize D x) = Some x"
proof -
  assume x: "clean x"
  obtain y where "try_from_usize D (as_usize D x) = Some y" and "clean y" and "as_usize D y = as_usize D x"
    using try_in [OF as_usize_le [OF x]] by blast
  then show ?thesis using as_usize_inj [OF x] by metis
qed

lemma try_clean: "n < 2 ^ 64 \<Longrightarrow> try_from_usize D n = Some x \<Longrightarrow> clean x \<and> as_usize D x = n"
  using try_in [of n] try_out [of n] by (cases "n \<le> imax") auto

lemma clean_lt: "clean x \<Longrightarrow> as_usize D x < 2 ^ 64"
  using as_usize_le [of x] MAX_fits by linarith

lemma checked_add_idx:
  "map_option (as_usize D) (checked_add D a b) = idx_try imax (as_usize D a + as_usize D b)"
  using try_idx [of "as_usize D a + as_usize D b"] MAX_fits
  by (auto simp: checked_add_def usize_checked_add_def idx_try_def)

lemma checked_add_usize_idx:
  "map_option (as_usize D) (checked_add_usize D a n) = idx_try imax (as_usize D a + n)"
  using try_idx [of "as_usize D a + n"] MAX_fits
  by (auto simp: checked_add_usize_def usize_checked_add_def idx_try_def)

lemma checked_mul_idx:
  "map_option (as_usize D) (checked_mul D a b) = idx_try imax (as_usize D a * as_usize D b)"
  using try_idx [of "as_usize D a * as_usize D b"] MAX_fits
  by (auto simp: checked_mul_def usize_checked_mul_def idx_try_def)

lemma checked_incr_idx:
  "map_option (as_usize D) (checked_incr D a) = idx_try imax (as_usize D a + 1)"
  using checked_add_usize_idx [of a 1] by (simp add: checked_incr_def checked_add_usize_def)

lemma checked_sub_idx:
  assumes "clean a"
  shows "map_option (as_usize D) (checked_sub D a b) =
    (if as_usize D b \<le> as_usize D a then Some (as_usize D a - as_usize D b) else None)"
proof (cases "as_usize D b \<le> as_usize D a")
  case True
  have le: "as_usize D a - as_usize D b \<le> imax"
    using as_usize_le [OF assms] by linarith
  with True try_idx [of "as_usize D a - as_usize D b"] clean_lt [OF assms] show ?thesis
    by (simp add: checked_sub_def usize_checked_sub_def idx_try_def)
next
  case False
  then show ?thesis by (simp add: checked_sub_def usize_checked_sub_def)
qed

lemma checked_decr_idx:
  assumes "clean a"
  shows "map_option (as_usize D) (checked_decr D a) =
    (if as_usize D a = 0 then None else Some (as_usize D a - 1))"
proof (cases "as_usize D a = 0")
  case True
  then show ?thesis by (simp add: checked_decr_def usize_checked_sub_def)
next
  case False
  have le: "as_usize D a - 1 \<le> imax"
    using as_usize_le [OF assms] by linarith
  with False try_idx [of "as_usize D a - 1"] clean_lt [OF assms] show ?thesis
    by (simp add: checked_decr_def usize_checked_sub_def idx_try_def)
qed

lemma alloc_many_ids:
  "alloc_many D n f = Inr (is, f') \<Longrightarrow> next_id f + n < 2 ^ 64 \<Longrightarrow>
     map (as_usize D) is = [next_id f ..< next_id f + n] \<and> list_all clean is \<and> next_id f' = next_id f + n"
proof (induction n arbitrary: f "is" f')
  case 0
  then show ?case by simp
next
  case (Suc n)
  from Suc.prems(1) obtain i f1 js where a: "alloc D f = Inr (i, f1)"
    and m: "alloc_many D n f1 = Inr (js, f')" and "is": "is = i # js"
    by (auto elim!: rbind_eq_InrE split: prod.splits)
  from a have t: "try_from_usize D (next_id f) = Some i" and f1: "next_id f1 = next_id f + 1"
    by (auto simp: alloc_def try_alloc_def split: option.splits)
  have i: "clean i \<and> as_usize D i = next_id f"
    using t Suc.prems(2) by (intro try_clean) auto
  have "map (as_usize D) js = [next_id f1 ..< next_id f1 + n] \<and> list_all clean js \<and> next_id f' = next_id f1 + n"
    using Suc.IH [OF m] Suc.prems(2) f1 by simp
  then show ?case using i "is" f1 by (simp add: upt_conv_Cons)
qed

lemma alloc_many_ok:
  "next_id f + n \<le> imax + 1 \<Longrightarrow> \<exists>is f'. alloc_many D n f = Inr (is, f')"
proof (induction n arbitrary: f)
  case (Suc n)
  then obtain i where "try_from_usize D (next_id f) = Some i" using try_in [of "next_id f"] by auto
  moreover have "\<exists>is f'. alloc_many D n (f\<lparr>next_id := next_id f + 1\<rparr>) = Inr (is, f')"
    using Suc.IH [of "f\<lparr>next_id := next_id f + 1\<rparr>"] Suc.prems by simp
  ultimately show ?case by (auto simp: alloc_def try_alloc_def)
qed simp

lemma alloc_many_distinct:
  assumes "alloc_many D n f = Inr (is, f')" and "next_id f + n < 2 ^ 64"
  shows "length is = n \<and> distinct is \<and> list_all clean is"
proof -
  have m: "map (as_usize D) is = [next_id f ..< next_id f + n]" and c: "list_all clean is"
    using alloc_many_ids [OF assms] by auto
  have "distinct (map (as_usize D) is)" using m by simp
  then have "distinct is" by (simp add: distinct_map)
  moreover have "length is = n" using arg_cong [OF m, of length] by simp
  ultimately show ?thesis using c by simp
qed

lemma alloc_exhausted:
  "imax < next_id f \<Longrightarrow> next_id f < 2 ^ 64 \<Longrightarrow> try_alloc D f = (None, f) \<and> alloc D f = Inl IdRange"
  using try_out [of "next_id f"] by (simp add: try_alloc_def alloc_def)

end

section \<open>The implementations keep the contract\<close>

lemma unat_and_id_mask: "unat (w AND id_mask :: 'w::len word) = unat w mod 2 ^ (LENGTH('w) - 1)"
proof -
  have "unat (take_bit (LENGTH('w) - 1) w) = take_bit (LENGTH('w) - 1) (unat w)"
    by (rule unsigned_take_bit_eq)
  then show ?thesis
    by (simp only: id_mask_def take_bit_eq_mask [symmetric] take_bit_eq_mod)
qed

lemma unat_minus_1: "unat (- 1 :: 'w::len word) = 2 ^ LENGTH('w) - 1"
  by (simp add: unsigned_minus_1_eq_mask mask_eq_exp_minus_1)

lemma unat_id_mask: "unat (id_mask :: 'w::len word) = 2 ^ (LENGTH('w) - 1) - 1"
proof -
  have "unat (- 1 AND id_mask :: 'w word) = (2 ^ LENGTH('w) - 1) mod 2 ^ (LENGTH('w) - 1)"
    by (simp only: unat_and_id_mask unat_minus_1)
  also have "\<dots> = take_bit (LENGTH('w) - 1) (mask LENGTH('w) :: nat)"
    by (simp add: take_bit_eq_mod mask_eq_exp_minus_1)
  also have "\<dots> = 2 ^ (LENGTH('w) - 1) - 1"
    unfolding take_bit_of_mask by (simp add: mask_eq_exp_minus_1 min_def)
  finally show ?thesis by simp
qed

lemma id_clean_unat: "id_clean (w :: 'w::len word) \<longleftrightarrow> unat w < 2 ^ (LENGTH('w) - 1)"
proof -
  have "(0::nat) < 2 ^ (LENGTH('w) - 1)" by simp
  then show ?thesis
    unfolding id_clean_def word_le_nat_alt unat_id_mask by linarith
qed

lemma id_clean_and_mask: "id_clean (w AND id_mask)"
  by (simp add: id_clean_unat unat_and_id_mask)

lemma and_id_mask_clean: "id_clean w \<Longrightarrow> w AND id_mask = w"
  unfolding word_unat_eq_iff unat_and_id_mask id_clean_unat by simp

lemma unat_of_nat_less: "n < 2 ^ LENGTH('w::len) \<Longrightarrow> unat (of_nat n :: 'w word) = n"
  by (simp add: unsigned_of_nat take_bit_nat_eq_self)

lemma unat_lt_exp: "unat (w :: 'w::len word) < 2 ^ LENGTH('w)"
  by (rule unsigned_less)

lemma le_exp_minus_1: "n \<le> 2 ^ k - 1 \<longleftrightarrow> n < 2 ^ k" for n :: nat
proof -
  have "(0::nat) < 2 ^ k" by simp
  then show ?thesis by linarith
qed

lemma word_index_like:
  assumes "LENGTH('w::len) \<le> 64"
  shows "index_like (word_index :: 'w word index_ops) (\<lambda>_. True)"
proof -
  have le: "(2::nat) ^ LENGTH('w) \<le> 2 ^ 64"
    using assms by (intro power_increasing) auto
  have mx: "as_usize (word_index :: 'w word index_ops) (ix_MAX word_index) = 2 ^ LENGTH('w) - 1"
    by (simp add: word_index_def unat_minus_1)
  show ?thesis
  proof (unfold_locales, unfold mx le_exp_minus_1)
    have "(0::nat) < 2 ^ LENGTH('w)" by simp
    with le show "(2::nat) ^ LENGTH('w) - 1 < 2 ^ 64" by linarith
    show "try_from_usize (word_index :: 'w word index_ops) n = None"
      if "2 ^ LENGTH('w) - 1 < n" for n
      using that by (simp add: word_index_def)
    show "x = y" if "as_usize word_index x = as_usize word_index y" for x y :: "'w word"
      using that by (simp add: word_index_def word_unat_eq_iff)
  qed (auto simp: word_index_def unat_of_nat_less unat_lt_exp)
qed

lemma usize_index_like: "index_like usize_index (\<lambda>_. True)"
proof -
  have mx: "as_usize usize_index (ix_MAX usize_index) = 2 ^ 64 - 1"
    by (simp add: usize_index_def unat_minus_1)
  have lt: "unat (x :: 64 word) < 2 ^ 64" for x
    using unat_lt_exp [of x] by simp
  have of: "n < 2 ^ 64 \<Longrightarrow> unat (of_nat n :: 64 word) = n" for n
    using unat_of_nat_less [of n, where 'w = 64] by simp
  show ?thesis
  proof (unfold_locales, unfold mx le_exp_minus_1)
    show "\<exists>x. try_from_usize usize_index n = Some x \<and> True \<and> as_usize usize_index x = n" if "n < 2 ^ 64" for n
      using of [OF that] by (simp add: usize_index_def)
    show "x = y" if "as_usize usize_index x = as_usize usize_index y" for x y
      using that by (simp add: usize_index_def word_unat_eq_iff)
    show "as_usize usize_index x < 2 ^ 64" for x
      using lt [of x] by (simp add: usize_index_def)
  qed (auto simp: usize_index_def)
qed

lemma id_index_like:
  assumes "LENGTH('w::len) \<le> 64"
  shows "index_like (id_index :: 'w word index_ops) id_clean"
proof -
  have "(2::nat) ^ (LENGTH('w) - 1) \<le> 2 ^ 64"
    using assms by (intro power_increasing) auto
  moreover have "(0::nat) < 2 ^ (LENGTH('w) - 1)" by simp
  ultimately have le: "(2::nat) ^ (LENGTH('w) - 1) - 1 < 2 ^ 64" by linarith
  have as: "as_usize (id_index :: 'w word index_ops) x = unat x mod 2 ^ (LENGTH('w) - 1)" for x
    by (simp add: id_index_def unat_and_id_mask)
  have cl: "unat (of_nat n :: 'w word) = n" if "n < 2 ^ (LENGTH('w) - 1)" for n
  proof -
    have "(2::nat) ^ (LENGTH('w) - 1) \<le> 2 ^ LENGTH('w)" by (intro power_increasing) auto
    with that show ?thesis by (intro unat_of_nat_less) linarith
  qed
  have mx: "as_usize (id_index :: 'w word index_ops) (ix_MAX id_index) = 2 ^ (LENGTH('w) - 1) - 1"
    unfolding as by (simp add: id_index_def unat_id_mask)
  show ?thesis
  proof (unfold_locales, unfold mx le_exp_minus_1)
    show "(2::nat) ^ (LENGTH('w) - 1) - 1 < 2 ^ 64" by (rule le)
    show "\<exists>x. try_from_usize (id_index :: 'w word index_ops) n = Some x \<and> id_clean x \<and> as_usize id_index x = n"
      if "n < 2 ^ (LENGTH('w) - 1)" for n
      using that cl [OF that] unfolding as id_clean_unat
      by (auto simp: id_index_def unat_id_mask)
    show "try_from_usize (id_index :: 'w word index_ops) n = None" if "2 ^ (LENGTH('w) - 1) - 1 < n" for n
      using that by (simp add: id_index_def unat_id_mask)
    show "as_usize (id_index :: 'w word index_ops) x < 2 ^ (LENGTH('w) - 1)" for x
      by (simp add: as)
    show "x = y" if "id_clean x" and "id_clean y" and "as_usize id_index x = as_usize id_index y"
      for x y :: "'w word"
      using that by (simp add: as id_clean_unat word_unat_eq_iff)
  qed (auto simp: id_clean_unat id_index_def unat_id_mask)
qed

interpretation u8_ix: index_like "word_index :: 8 word index_ops" "\<lambda>_. True"
  by (rule word_index_like) simp

interpretation u16_ix: index_like "word_index :: 16 word index_ops" "\<lambda>_. True"
  by (rule word_index_like) simp

interpretation u32_ix: index_like "word_index :: 32 word index_ops" "\<lambda>_. True"
  by (rule word_index_like) simp

interpretation u64_ix: index_like "word_index :: 64 word index_ops" "\<lambda>_. True"
  by (rule word_index_like) simp

interpretation usize_ix: index_like usize_index "\<lambda>_. True"
  by (rule usize_index_like)

interpretation id7: index_like "id_index :: 8 word index_ops" id_clean
  by (rule id_index_like) simp

interpretation id15: index_like "id_index :: 16 word index_ops" id_clean
  by (rule id_index_like) simp

interpretation id31: index_like "id_index :: 32 word index_ops" id_clean
  by (rule id_index_like) simp

interpretation id63: index_like "id_index :: 64 word index_ops" id_clean
  by (rule id_index_like) simp

section \<open>Properties\<close>

text \<open>
  Identifiers are never handed out twice and never carry the reserved bit.  An \<open>IdFactory\<close> over a
  31-bit identifier serves exactly \<open>2 ^ 31\<close> allocations, all distinct and all below the reserved bit;
  the next one panics instead of wrapping.
\<close>

theorem id31_allocation:
  assumes "n \<le> 2 ^ 31"
  shows "\<exists>is f. alloc_many (id_index :: 32 word index_ops) n id_factory_new = Inr (is, f) \<and>
    length is = n \<and> distinct is \<and> list_all id_clean is \<and> (n = 2 ^ 31 \<longrightarrow> alloc (id_index :: 32 word index_ops) f = Inl IdRange)"
proof -
  have mx: "as_usize (id_index :: 32 word index_ops) (ix_MAX id_index) = 2 ^ 31 - 1"
    by (simp add: id_index_def unat_and_id_mask unat_id_mask)
  obtain "is" f where a: "alloc_many (id_index :: 32 word index_ops) n id_factory_new = Inr (is, f)"
    using id31.alloc_many_ok [of id_factory_new n] mx assms by (auto simp: id_factory_new_def)
  have "next_id f = n" using id31.alloc_many_ids [OF a] assms by (simp add: id_factory_new_def)
  then have "n = 2 ^ 31 \<Longrightarrow> alloc (id_index :: 32 word index_ops) f = Inl IdRange"
    using id31.alloc_exhausted [of f] mx by simp
  with id31.alloc_many_distinct [OF a] a assms show ?thesis by (simp add: id_factory_new_def)
qed

theorem id31_allocation_witness:
  "\<exists>is f. alloc_many (id_index :: 32 word index_ops) 3 id_factory_new = Inr (is, f) \<and> length is = 3 \<and> distinct is"
  using id31_allocation [of 3] by auto

end
