(* ===== verification/Tagged_Repr.thy ===== *)
theory Tagged_Repr
  imports Index_Like
begin

unbundle bit_operations_syntax

text \<open>
  Stored representations that carry one control bit: \<open>containers/src/tagged.rs\<close> (the trait
  \<open>Tagged\<close>, the nullable wrapper \<open>Opt\<close>, \<open>BoolTagged\<close> and \<open>Pair\<close>) and the \<open>Tagged\<close>
  implementation that \<open>containers/src/id.rs\<close> generates for identifiers.  The trait is a record of
  its methods together with the type's \<open>Default\<close>; its contract is the locale \<open>tagged_repr\<close>.
\<close>

section \<open>The trait\<close>

record ('t, 'r) tagged_ops =
  into_repr :: "'t \<Rightarrow> 'r"
  from_repr :: "'r \<Rightarrow> 't"
  tag :: "'r \<Rightarrow> bool"
  set_tag :: "'r \<Rightarrow> 'r"
  clear_tag :: "'r \<Rightarrow> 'r"
  tg_default :: 't

section \<open>\<open>Opt\<close>: a nullable value in the tag bit\<close>

text \<open>\<open>Opt<T>\<close> is a newtype around \<open>T::Repr\<close>; the model works on the wrapped representation.\<close>

definition opt_none :: "('t, 'r) tagged_ops \<Rightarrow> 'r" where
  "opt_none T = set_tag T (into_repr T (tg_default T))"

definition opt_some :: "('t, 'r) tagged_ops \<Rightarrow> 't \<Rightarrow> 'r" where
  "opt_some T v = into_repr T v"

definition opt_get :: "('t, 'r) tagged_ops \<Rightarrow> 'r \<Rightarrow> 't option" where
  "opt_get T r = (if tag T r then None else Some (from_repr T r))"

definition opt_is_none :: "('t, 'r) tagged_ops \<Rightarrow> 'r \<Rightarrow> bool" where
  "opt_is_none T r = tag T r"

definition opt_is_some :: "('t, 'r) tagged_ops \<Rightarrow> 'r \<Rightarrow> bool" where
  "opt_is_some T r = (\<not> tag T r)"

definition opt_get_unchecked :: "('t, 'r) tagged_ops \<Rightarrow> 'r \<Rightarrow> 't" where
  "opt_get_unchecked T r = from_repr T r"

definition opt_set_none :: "('t, 'r) tagged_ops \<Rightarrow> 'r \<Rightarrow> 'r" where
  "opt_set_none T r = set_tag T r"

section \<open>The implementations\<close>

record 't bool_tagged =
  bt_tagged :: bool
  bt_value :: 't

definition bool_tagged_new :: "'t \<Rightarrow> 't bool_tagged" where
  "bool_tagged_new v = \<lparr>bt_tagged = False, bt_value = v\<rparr>"

definition bool_tagged_ops :: "'t \<Rightarrow> ('t, 't bool_tagged) tagged_ops" where
  "bool_tagged_ops d = \<lparr>into_repr = bool_tagged_new, from_repr = bt_value, tag = bt_tagged,
     set_tag = (\<lambda>r. r\<lparr>bt_tagged := True\<rparr>), clear_tag = (\<lambda>r. r\<lparr>bt_tagged := False\<rparr>), tg_default = d\<rparr>"

text \<open>\<open>Pair\<close> and the tuple implementation: the tag lives in the first component.\<close>

definition pair_tagged :: "('a, 'r) tagged_ops \<Rightarrow> 'b \<Rightarrow> ('a \<times> 'b, 'r \<times> 'b) tagged_ops" where
  "pair_tagged A d = \<lparr>into_repr = (\<lambda>(a, b). (into_repr A a, b)), from_repr = (\<lambda>(r, b). (from_repr A r, b)),
     tag = (\<lambda>(r, b). tag A r), set_tag = (\<lambda>(r, b). (set_tag A r, b)),
     clear_tag = (\<lambda>(r, b). (clear_tag A r, b)), tg_default = (tg_default A, d)\<rparr>"

text \<open>
  The bit-stealing implementation of the generated identifiers, first on the words themselves, then
  on their dense indices (the values the containers work with).
\<close>

definition id_tagged :: "('w::len word, 'w word) tagged_ops" where
  "id_tagged = \<lparr>into_repr = (\<lambda>w. w), from_repr = (\<lambda>r. r AND id_mask), tag = (\<lambda>r. r AND id_cap \<noteq> 0),
     set_tag = (\<lambda>r. r OR id_cap), clear_tag = (\<lambda>r. r AND id_mask), tg_default = 0\<rparr>"

definition id_nat_tagged :: "(nat, 'w::len word) tagged_ops" where
  "id_nat_tagged = \<lparr>into_repr = (\<lambda>n. into_repr id_tagged (of_nat n)),
     from_repr = (\<lambda>r. as_usize id_index (from_repr id_tagged r)), tag = tag id_tagged,
     set_tag = set_tag id_tagged, clear_tag = clear_tag id_tagged, tg_default = 0\<rparr>"

definition id_nat_dom :: "'w::len itself \<Rightarrow> nat \<Rightarrow> bool" where
  "id_nat_dom _ n \<longleftrightarrow> n < 2 ^ (LENGTH('w) - 1)"

section \<open>The contract\<close>

text \<open>
  \<open>dom\<close> holds of the values that the type's constructors build.  The capture flag of a stored cell
  never leaks into the value read back, and a freshly stored value is unflagged.
\<close>

locale tagged_repr =
  fixes T :: "('t, 'r) tagged_ops"
    and dom :: "'t \<Rightarrow> bool"
  assumes from_into [simp]: "dom x \<Longrightarrow> from_repr T (into_repr T x) = x"
    and tag_into [simp]: "dom x \<Longrightarrow> \<not> tag T (into_repr T x)"
    and tag_set [simp]: "tag T (set_tag T r)"
    and tag_clear [simp]: "\<not> tag T (clear_tag T r)"
    and from_set [simp]: "from_repr T (set_tag T r) = from_repr T r"
    and from_clear [simp]: "from_repr T (clear_tag T r) = from_repr T r"
    and dom_from [simp]: "dom (from_repr T r)"
    and dom_default [simp]: "dom (tg_default T)"
begin

lemma opt_get_some: "dom x \<Longrightarrow> opt_get T (opt_some T x) = Some x"
  by (simp add: opt_get_def opt_some_def)

lemma opt_get_none: "opt_get T (opt_none T) = None"
  by (simp add: opt_get_def opt_none_def)

lemma opt_set_none_keeps: "opt_get T (opt_set_none T r) = None \<and> opt_get_unchecked T (opt_set_none T r) = opt_get_unchecked T r"
  by (simp add: opt_get_def opt_set_none_def opt_get_unchecked_def)

lemma opt_is_none_iff: "opt_is_none T r \<longleftrightarrow> opt_get T r = None"
  by (simp add: opt_is_none_def opt_get_def)

lemma opt_get_dom: "opt_get T r = Some x \<Longrightarrow> dom x"
  by (auto simp: opt_get_def split: if_splits)

lemma pair: "tagged_repr (pair_tagged T d) (\<lambda>(a, b). dom a)"
  by unfold_locales (auto simp: pair_tagged_def split: prod.splits)

end

section \<open>The implementations keep the contract\<close>

interpretation bt: tagged_repr "bool_tagged_ops d" "\<lambda>_. True" for d :: 't
  by unfold_locales (auto simp: bool_tagged_ops_def bool_tagged_new_def)

lemma tag_id_bit: "r AND id_cap \<noteq> 0 \<longleftrightarrow> bit (r :: 'w::len word) (LENGTH('w) - 1)"
  by (simp add: id_cap_def push_bit_eq_mult and_exp_eq_0_iff_not_bit)

lemma id_clean_bit: "id_clean (w :: 'w::len word) \<longleftrightarrow> \<not> bit w (LENGTH('w) - 1)"
proof
  assume "id_clean w"
  then have "w = w AND id_mask" by (simp add: and_id_mask_clean)
  then have "bit w (LENGTH('w) - 1) = bit (w AND id_mask) (LENGTH('w) - 1)" by simp
  then show "\<not> bit w (LENGTH('w) - 1)"
    by (simp add: id_mask_def bit_and_iff bit_mask_iff)
next
  assume nb: "\<not> bit w (LENGTH('w) - 1)"
  have "w = w AND id_mask"
  proof (rule bit_word_eqI)
    fix n assume "n < LENGTH('w)"
    with nb show "bit w n = bit (w AND id_mask) n"
      by (cases "n = LENGTH('w) - 1") (auto simp: id_mask_def bit_and_iff bit_mask_iff)
  qed
  then show "id_clean w" using id_clean_and_mask [of w] by simp
qed

lemma or_cap_and_mask: "(r OR id_cap) AND id_mask = (r AND id_mask :: 'w::len word)"
  by (rule bit_word_eqI) (auto simp: id_mask_def id_cap_def bit_simps)

lemma id_tagged_repr: "tagged_repr (id_tagged :: ('w::len word, 'w word) tagged_ops) id_clean"
proof
  fix r :: "'w word"
  show "tag id_tagged (set_tag id_tagged r)"
    unfolding id_tagged_def by (simp add: tag_id_bit) (simp add: id_cap_def bit_simps)
  show "\<not> tag id_tagged (clear_tag id_tagged r)"
    using id_clean_and_mask [of r] by (simp add: id_tagged_def tag_id_bit id_clean_bit)
  show "from_repr id_tagged (clear_tag id_tagged r) = from_repr id_tagged r"
    by (simp add: id_tagged_def and.assoc)
  show "id_clean (tg_default (id_tagged :: ('w word, 'w word) tagged_ops))"
    by (simp add: id_tagged_def id_clean_bit)
  show "id_clean (from_repr id_tagged r)"
    by (simp add: id_tagged_def id_clean_and_mask)
qed (auto simp: id_tagged_def tag_id_bit id_clean_bit or_cap_and_mask and_id_mask_clean)

lemma id_of_nat_clean:
  assumes "id_nat_dom TYPE('w::len) n"
  shows "id_clean (of_nat n :: 'w word) \<and> unat (of_nat n :: 'w word) = n"
proof -
  have "(2::nat) ^ (LENGTH('w) - 1) \<le> 2 ^ LENGTH('w)" by (intro power_increasing) auto
  with assms have "n < 2 ^ LENGTH('w)" unfolding id_nat_dom_def by linarith
  then have "unat (of_nat n :: 'w word) = n" by (rule unat_of_nat_less)
  with assms show ?thesis by (simp add: id_clean_unat id_nat_dom_def)
qed

lemma id_nat_tagged_repr:
  "tagged_repr (id_nat_tagged :: (nat, 'w::len word) tagged_ops) (id_nat_dom TYPE('w))"
proof
  note w = id_tagged_repr [where 'w = 'w]
  fix r :: "'w word" and n :: nat
  show "from_repr id_nat_tagged (set_tag id_nat_tagged r) = from_repr id_nat_tagged r"
    using tagged_repr.from_set [OF w, of r] by (simp add: id_nat_tagged_def)
  show "from_repr id_nat_tagged (clear_tag id_nat_tagged r) = from_repr id_nat_tagged r"
    using tagged_repr.from_clear [OF w, of r] by (simp add: id_nat_tagged_def)
  show "tag id_nat_tagged (set_tag id_nat_tagged r)"
    using tagged_repr.tag_set [OF w, of r] by (simp add: id_nat_tagged_def)
  show "\<not> tag id_nat_tagged (clear_tag id_nat_tagged r)"
    using tagged_repr.tag_clear [OF w, of r] by (simp add: id_nat_tagged_def)
  show "id_nat_dom TYPE('w) (from_repr id_nat_tagged r)"
    by (simp add: id_nat_tagged_def id_nat_dom_def id_index_def unat_and_id_mask)
  show "id_nat_dom TYPE('w) (tg_default (id_nat_tagged :: (nat, 'w word) tagged_ops))"
    by (simp add: id_nat_tagged_def id_nat_dom_def)
  assume n: "id_nat_dom TYPE('w) n"
  show "from_repr id_nat_tagged (into_repr id_nat_tagged n :: 'w word) = n"
    using id_of_nat_clean [OF n] by (simp add: id_nat_tagged_def id_tagged_def id_index_def and_id_mask_clean)
  show "\<not> tag id_nat_tagged (into_repr id_nat_tagged n :: 'w word)"
    using id_of_nat_clean [OF n] tagged_repr.tag_into [OF w, of "of_nat n"]
    by (simp add: id_nat_tagged_def)
qed

abbreviation id31 :: "(nat, 32 word) tagged_ops" where "id31 \<equiv> id_nat_tagged"

interpretation id31_t: tagged_repr "id_nat_tagged :: (nat, 32 word) tagged_ops" "id_nat_dom TYPE(32)"
  by (rule id_nat_tagged_repr)

interpretation id63_t: tagged_repr "id_nat_tagged :: (nat, 64 word) tagged_ops" "id_nat_dom TYPE(64)"
  by (rule id_nat_tagged_repr)

interpretation id7_t: tagged_repr "id_nat_tagged :: (nat, 8 word) tagged_ops" "id_nat_dom TYPE(8)"
  by (rule id_nat_tagged_repr)

interpretation id15_t: tagged_repr "id_nat_tagged :: (nat, 16 word) tagged_ops" "id_nat_dom TYPE(16)"
  by (rule id_nat_tagged_repr)

interpretation id31_pair_t: tagged_repr "pair_tagged (id_nat_tagged :: (nat, 32 word) tagged_ops) (0 :: nat)"
  "\<lambda>(a, b). id_nat_dom TYPE(32) a"
  by (rule id31_t.pair)

section \<open>Properties\<close>

text \<open>
  The niche encoding \<open>Opt\<close> of a 31-bit identifier loses nothing: \<open>some\<close> then \<open>get\<close> returns the
  identifier, \<open>none\<close> reads back as \<open>None\<close>, and \<open>set_none\<close> hides the payload without erasing it.
\<close>

theorem opt_id31_roundtrip:
  assumes "n < 2 ^ 31"
  defines "T \<equiv> (id_nat_tagged :: (nat, 32 word) tagged_ops)"
  shows "opt_get T (opt_some T n) = Some n \<and> opt_get T (opt_none T) = None \<and>
    opt_get T (opt_set_none T (opt_some T n)) = None \<and> opt_get_unchecked T (opt_set_none T (opt_some T n)) = n"
  using id31_t.opt_get_some [of n] id31_t.opt_get_none id31_t.opt_set_none_keeps [of "opt_some id_nat_tagged n"]
    id31_t.from_into [of n] assms
  by (simp add: id_nat_dom_def opt_get_unchecked_def opt_some_def)

theorem opt_id31_roundtrip_witness:
  "opt_get (id_nat_tagged :: (nat, 32 word) tagged_ops) (opt_some id_nat_tagged 5) = Some 5"
  using opt_id31_roundtrip [of 5] by simp

end
