(* ===== verification/Diff_Store.thy ===== *)
theory Diff_Store
  imports Tagged_Repr
begin

unbundle bit_operations_syntax

text \<open>
  Storage backends of the semi-persistent vector: \<open>containers/src/diff_store.rs\<close> and the packed
  \<open>containers/src/bitset.rs\<close>.  The trait \<open>DiffStore<T, I, TRACK>\<close> is a record of its methods,
  built per implementation from \<open>TRACK\<close>, the index bound \<open>imax\<close> (\<open>I::MAX.as_usize()\<close>) and
  \<open>T::default()\<close>.  \<open>ParallelStore\<close> keeps the capture flags in a packed bit vector, \<open>InlineStore\<close> in
  the tag bit of each stored representation.  The locale \<open>diff_store\<close> is what the vector relies on.
  \<open>debug_assert\<close>s are release-build no-ops and are not modelled; capacities reported by the allocator
  are arguments of \<open>shrink_if\<close>.
\<close>

section \<open>The trait\<close>

type_synonym 't log = "('t \<times> nat) list"

record ('s, 't) store_ops =
  so_is_empty :: "'s \<Rightarrow> bool"
  so_len :: "'s \<Rightarrow> nat res"
  so_push :: "'t \<Rightarrow> 's \<Rightarrow> 's"
  so_pop :: "'s \<Rightarrow> 't option \<times> 's"
  so_get :: "nat \<Rightarrow> 's \<Rightarrow> 't res"
  so_set_raw :: "nat \<Rightarrow> 't \<Rightarrow> 's \<Rightarrow> 's res"
  so_truncate :: "nat \<Rightarrow> 's \<Rightarrow> 's"
  so_prepare_mark :: "nat \<Rightarrow> 't log \<Rightarrow> 's \<Rightarrow> 's"
  so_capture :: "nat \<Rightarrow> nat \<Rightarrow> 't log \<Rightarrow> 's \<Rightarrow> ('s \<times> 't log) res"
  so_mark_captured :: "nat \<Rightarrow> 's \<Rightarrow> 's res"
  so_restore_entry :: "nat \<Rightarrow> 't \<Rightarrow> nat \<Rightarrow> 's \<Rightarrow> 's"
  so_finish_restore :: "'t log \<Rightarrow> nat \<Rightarrow> 's \<Rightarrow> 's"
  so_resize_default :: "nat \<Rightarrow> 's \<Rightarrow> 's"
  so_shrink_if :: "nat \<times> nat \<Rightarrow> nat \<Rightarrow> nat \<Rightarrow> 's \<Rightarrow> 's"
  so_as_slice :: "'s \<Rightarrow> 't list option"

definition len_res :: "nat \<Rightarrow> 'a list \<Rightarrow> nat res" where
  "len_res imax xs = expect LenOverflow (idx_try imax (length xs))"

section \<open>Packed bits\<close>

text \<open>The shift \<open>1u64 << (i % 64)\<close>.\<close>

definition bit_word :: "nat \<Rightarrow> 64 word" where
  "bit_word i = push_bit (i mod 64) 1"

text \<open>\<open>BitSet\<close> (\<open>bitset.rs\<close>): indexing past the words panics.\<close>

record bitset =
  words :: "64 word list"

definition bitset_new :: "nat \<Rightarrow> bitset" where
  "bitset_new n = \<lparr>words = replicate (div_ceil n 64) 0\<rparr>"

definition bitset_set :: "nat \<Rightarrow> bitset \<Rightarrow> bitset res" where
  "bitset_set i b = rbind (nth_res (words b) (i div 64)) (\<lambda>w.
     Inr (b\<lparr>words := (words b)[i div 64 := w OR bit_word i]\<rparr>))"

definition bitset_clear :: "nat \<Rightarrow> bitset \<Rightarrow> bitset res" where
  "bitset_clear i b = rbind (nth_res (words b) (i div 64)) (\<lambda>w.
     Inr (b\<lparr>words := (words b)[i div 64 := w AND NOT (bit_word i)]\<rparr>))"

definition bitset_test :: "nat \<Rightarrow> bitset \<Rightarrow> bool res" where
  "bitset_test i b = rbind (nth_res (words b) (i div 64)) (\<lambda>w. Inr (w AND bit_word i \<noteq> 0))"

definition bitset_clear_all :: "bitset \<Rightarrow> bitset" where
  "bitset_clear_all b = b\<lparr>words := map (\<lambda>_. 0) (words b)\<rparr>"

section \<open>\<open>ParallelStore\<close>\<close>

record 't parallel_store =
  ps_data :: "'t list"
  ps_captured :: "64 word list"

definition ps_new :: "'t parallel_store" where
  "ps_new = \<lparr>ps_data = [], ps_captured = []\<rparr>"

definition is_bit_set :: "'t parallel_store \<Rightarrow> nat \<Rightarrow> bool" where
  "is_bit_set s i \<longleftrightarrow> i div 64 < length (ps_captured s) \<and> ps_captured s ! (i div 64) AND bit_word i \<noteq> 0"

definition set_bit :: "nat \<Rightarrow> 't parallel_store \<Rightarrow> 't parallel_store" where
  "set_bit i s =
    (let w = i div 64;
         c = (if length (ps_captured s) \<le> w then vec_resize (w + 1) 0 (ps_captured s) else ps_captured s)
     in s\<lparr>ps_captured := c[w := c ! w OR bit_word i]\<rparr>)"

definition ps_push :: "'t \<Rightarrow> 't parallel_store \<Rightarrow> 't parallel_store" where
  "ps_push v s = s\<lparr>ps_data := ps_data s @ [v]\<rparr>"

definition ps_pop :: "'t parallel_store \<Rightarrow> 't option \<times> 't parallel_store" where
  "ps_pop s = (if ps_data s = [] then (None, s)
     else (Some (last (ps_data s)), s\<lparr>ps_data := butlast (ps_data s)\<rparr>))"

definition ps_get :: "nat \<Rightarrow> 't parallel_store \<Rightarrow> 't res" where
  "ps_get i s = nth_res (ps_data s) i"

definition ps_set_raw :: "nat \<Rightarrow> 't \<Rightarrow> 't parallel_store \<Rightarrow> 't parallel_store res" where
  "ps_set_raw i v s = rbind (upd_res (ps_data s) i v) (\<lambda>d. Inr (s\<lparr>ps_data := d\<rparr>))"

definition ps_truncate :: "nat \<Rightarrow> 't parallel_store \<Rightarrow> 't parallel_store" where
  "ps_truncate n s = s\<lparr>ps_data := take n (ps_data s)\<rparr>"

definition ps_prepare_mark :: "bool \<Rightarrow> nat \<Rightarrow> 't log \<Rightarrow> 't parallel_store \<Rightarrow> 't parallel_store" where
  "ps_prepare_mark track saved prev s =
    (if \<not> track then s
     else s\<lparr>ps_captured := vec_resize (div_ceil (length (ps_data s)) 64) 0 (map (\<lambda>_. 0) (ps_captured s))\<rparr>)"

definition ps_capture ::
  "bool \<Rightarrow> nat \<Rightarrow> nat \<Rightarrow> 't log \<Rightarrow> 't parallel_store \<Rightarrow> ('t parallel_store \<times> 't log) res" where
  "ps_capture track i saved log s =
    (if \<not> track then Inr (s, log)
     else if saved \<le> i then Inr (s, log)
     else if \<not> is_bit_set s i then
       rbind (nth_res (ps_data s) i) (\<lambda>v. Inr (set_bit i s, log @ [(v, i)]))
     else Inr (s, log))"

definition ps_mark_captured :: "bool \<Rightarrow> nat \<Rightarrow> 't parallel_store \<Rightarrow> 't parallel_store res" where
  "ps_mark_captured track i s = (if \<not> track then Inr s else Inr (set_bit i s))"

definition ps_resize_default :: "'t \<Rightarrow> nat \<Rightarrow> 't parallel_store \<Rightarrow> 't parallel_store" where
  "ps_resize_default d n s =
    (let s1 = (if n < length (ps_data s)
               then s\<lparr>ps_data := take n (ps_data s), ps_captured := take (div_ceil n 64) (ps_captured s)\<rparr>
               else s)
     in s1\<lparr>ps_data := ps_data s1 @ replicate (n - length (ps_data s1)) d\<rparr>)"

definition ps_restore_entry :: "nat \<Rightarrow> 't \<Rightarrow> nat \<Rightarrow> 't parallel_store \<Rightarrow> 't parallel_store" where
  "ps_restore_entry i v target s =
    (if target \<le> i then s
     else if length (ps_data s) \<le> i then s\<lparr>ps_data := ps_data s @ [v]\<rparr>
     else s\<lparr>ps_data := (ps_data s)[i := v]\<rparr>)"

definition ps_finish_restore :: "bool \<Rightarrow> 't log \<Rightarrow> nat \<Rightarrow> 't parallel_store \<Rightarrow> 't parallel_store" where
  "ps_finish_restore track diffs saved s =
    (if \<not> track then s
     else fold (\<lambda>(_, i) s'. if i < length (ps_data s') then set_bit i s' else s') diffs
       (s\<lparr>ps_captured := map (\<lambda>_. 0) (ps_captured s)\<rparr>))"

text \<open>\<open>caps\<close> are the capacities of \<open>data\<close> before and after \<open>shrink_to\<close>.\<close>

definition ps_shrink_if :: "nat \<times> nat \<Rightarrow> nat \<Rightarrow> nat \<Rightarrow> 't parallel_store \<Rightarrow> 't parallel_store" where
  "ps_shrink_if caps factor headroom s =
    (if factor * length (ps_data s) < fst caps
     then s\<lparr>ps_captured := take (div_ceil (snd caps) 64) (ps_captured s)\<rparr> else s)"

definition parallel_ops :: "bool \<Rightarrow> nat \<Rightarrow> 't \<Rightarrow> ('t parallel_store, 't) store_ops" where
  "parallel_ops track imax d = \<lparr>
     so_is_empty = (\<lambda>s. ps_data s = []),
     so_len = (\<lambda>s. len_res imax (ps_data s)),
     so_push = ps_push, so_pop = ps_pop, so_get = ps_get, so_set_raw = ps_set_raw,
     so_truncate = ps_truncate, so_prepare_mark = ps_prepare_mark track, so_capture = ps_capture track,
     so_mark_captured = ps_mark_captured track, so_restore_entry = ps_restore_entry,
     so_finish_restore = ps_finish_restore track, so_resize_default = ps_resize_default d,
     so_shrink_if = ps_shrink_if, so_as_slice = (\<lambda>s. Some (ps_data s))\<rparr>"

section \<open>\<open>InlineStore\<close>\<close>

record 'r inline_store =
  is_data :: "'r list"

definition is_new :: "'r inline_store" where
  "is_new = \<lparr>is_data = []\<rparr>"

definition is_push :: "('t, 'r) tagged_ops \<Rightarrow> 't \<Rightarrow> 'r inline_store \<Rightarrow> 'r inline_store" where
  "is_push T v s = s\<lparr>is_data := is_data s @ [into_repr T v]\<rparr>"

definition is_pop :: "('t, 'r) tagged_ops \<Rightarrow> 'r inline_store \<Rightarrow> 't option \<times> 'r inline_store" where
  "is_pop T s = (if is_data s = [] then (None, s)
     else (Some (from_repr T (last (is_data s))), s\<lparr>is_data := butlast (is_data s)\<rparr>))"

definition is_get :: "('t, 'r) tagged_ops \<Rightarrow> nat \<Rightarrow> 'r inline_store \<Rightarrow> 't res" where
  "is_get T i s = rbind (nth_res (is_data s) i) (\<lambda>r. Inr (from_repr T r))"

definition is_set_raw :: "('t, 'r) tagged_ops \<Rightarrow> bool \<Rightarrow> nat \<Rightarrow> 't \<Rightarrow> 'r inline_store \<Rightarrow> 'r inline_store res" where
  "is_set_raw T track i v s =
    rbind (nth_res (is_data s) i) (\<lambda>r.
      let was_captured = track \<and> tag T r; r' = into_repr T v
      in Inr (s\<lparr>is_data := (is_data s)[i := (if was_captured then set_tag T r' else r')]\<rparr>))"

definition is_truncate :: "nat \<Rightarrow> 'r inline_store \<Rightarrow> 'r inline_store" where
  "is_truncate n s = s\<lparr>is_data := take n (is_data s)\<rparr>"

definition is_prepare_mark :: "('t, 'r) tagged_ops \<Rightarrow> bool \<Rightarrow> nat \<Rightarrow> 't log \<Rightarrow> 'r inline_store \<Rightarrow> 'r inline_store" where
  "is_prepare_mark T track saved prev s =
    (if \<not> track then s
     else fold (\<lambda>(_, i) s'. if i < length (is_data s')
       then s'\<lparr>is_data := (is_data s')[i := clear_tag T (is_data s' ! i)]\<rparr> else s') prev s)"

definition is_capture ::
  "('t, 'r) tagged_ops \<Rightarrow> bool \<Rightarrow> nat \<Rightarrow> nat \<Rightarrow> 't log \<Rightarrow> 'r inline_store \<Rightarrow> ('r inline_store \<times> 't log) res" where
  "is_capture T track i saved log s =
    (if \<not> track then Inr (s, log)
     else if saved \<le> i then Inr (s, log)
     else rbind (nth_res (is_data s) i) (\<lambda>r.
       if \<not> tag T r then Inr (s\<lparr>is_data := (is_data s)[i := set_tag T r]\<rparr>, log @ [(from_repr T r, i)])
       else Inr (s, log)))"

definition is_mark_captured :: "('t, 'r) tagged_ops \<Rightarrow> bool \<Rightarrow> nat \<Rightarrow> 'r inline_store \<Rightarrow> 'r inline_store res" where
  "is_mark_captured T track i s =
    (if \<not> track then Inr s
     else rbind (nth_res (is_data s) i) (\<lambda>r. Inr (s\<lparr>is_data := (is_data s)[i := set_tag T r]\<rparr>)))"

definition is_resize_default :: "('t, 'r) tagged_ops \<Rightarrow> nat \<Rightarrow> 'r inline_store \<Rightarrow> 'r inline_store" where
  "is_resize_default T n s =
    (let d1 = (if n < length (is_data s) then take n (is_data s) else is_data s)
     in s\<lparr>is_data := d1 @ replicate (n - length d1) (into_repr T (tg_default T))\<rparr>)"

definition is_restore_entry :: "('t, 'r) tagged_ops \<Rightarrow> nat \<Rightarrow> 't \<Rightarrow> nat \<Rightarrow> 'r inline_store \<Rightarrow> 'r inline_store" where
  "is_restore_entry T i v target s =
    (if target \<le> i then s
     else if length (is_data s) \<le> i then s\<lparr>is_data := is_data s @ [into_repr T v]\<rparr>
     else s\<lparr>is_data := (is_data s)[i := into_repr T v]\<rparr>)"

definition is_finish_restore :: "('t, 'r) tagged_ops \<Rightarrow> bool \<Rightarrow> 't log \<Rightarrow> nat \<Rightarrow> 'r inline_store \<Rightarrow> 'r inline_store" where
  "is_finish_restore T track diffs saved s =
    (if \<not> track then s
     else fold (\<lambda>(_, i) s'. if i < length (is_data s')
       then s'\<lparr>is_data := (is_data s')[i := set_tag T (is_data s' ! i)]\<rparr> else s') diffs s)"

text \<open>Shrinking \<open>data\<close> changes its capacity only.\<close>

definition is_shrink_if :: "nat \<times> nat \<Rightarrow> nat \<Rightarrow> nat \<Rightarrow> 'r inline_store \<Rightarrow> 'r inline_store" where
  "is_shrink_if caps factor headroom s = s"

definition inline_ops :: "('t, 'r) tagged_ops \<Rightarrow> bool \<Rightarrow> nat \<Rightarrow> ('r inline_store, 't) store_ops" where
  "inline_ops T track imax = \<lparr>
     so_is_empty = (\<lambda>s. is_data s = []),
     so_len = (\<lambda>s. len_res imax (is_data s)),
     so_push = is_push T, so_pop = is_pop T, so_get = is_get T, so_set_raw = is_set_raw T track,
     so_truncate = is_truncate, so_prepare_mark = is_prepare_mark T track, so_capture = is_capture T track,
     so_mark_captured = is_mark_captured T track, so_restore_entry = is_restore_entry T,
     so_finish_restore = is_finish_restore T track, so_resize_default = is_resize_default T,
     so_shrink_if = is_shrink_if, so_as_slice = (\<lambda>s. None)\<rparr>"

section \<open>The contract\<close>

text \<open>
  \<open>vals\<close> are the stored values, \<open>flag s i\<close> is the capture flag of cell \<open>i\<close>, \<open>stale s i\<close> a flag
  that \<open>finish_restore\<close> would leave in place, \<open>dom\<close> the domain of storable values.
\<close>

definition logged :: "'t log \<Rightarrow> nat set" where
  "logged l = snd ` set l"

lemma logged_simps [simp]:
  "logged [] = {}" "logged (l @ l') = logged l \<union> logged l'" "logged ((x, i) # l) = insert i (logged l)"
  by (auto simp: logged_def)

locale diff_store =
  fixes D :: "('s, 't) store_ops"
    and vals :: "'s \<Rightarrow> 't list"
    and flag stale :: "'s \<Rightarrow> nat \<Rightarrow> bool"
    and dom :: "'t \<Rightarrow> bool"
    and imax :: nat
    and track :: bool
    and dflt :: 't
  assumes len: "so_len D s = len_res imax (vals s)"
    and is_empty: "so_is_empty D s \<longleftrightarrow> vals s = []"
    and dom_vals: "x \<in> set (vals s) \<Longrightarrow> dom x"
    and dom_dflt: "dom dflt"
    and push_vals: "dom x \<Longrightarrow> vals (so_push D x s) = vals s @ [x]"
    and push_flag: "dom x \<Longrightarrow> flag (so_push D x s) i = flag s i"
    and pop_fst: "fst (so_pop D s) = (if vals s = [] then None else Some (last (vals s)))"
    and pop_vals: "vals (snd (so_pop D s)) = butlast (vals s)"
    and pop_flag: "flag (snd (so_pop D s)) i \<Longrightarrow> flag s i"
    and pop_flag_keep: "flag s i \<Longrightarrow> i < length (vals s) - 1 \<Longrightarrow> flag (snd (so_pop D s)) i"
    and get: "so_get D i s = nth_res (vals s) i"
    and set_raw: "dom x \<Longrightarrow> i < length (vals s) \<Longrightarrow>
      \<exists>s'. so_set_raw D i x s = Inr s' \<and> vals s' = (vals s)[i := x] \<and> (track \<longrightarrow> flag s' = flag s)"
    and truncate_vals: "vals (so_truncate D n s) = take n (vals s)"
    and capture: "i < length (vals s) \<Longrightarrow>
      \<exists>s'. so_capture D i n l s =
          Inr (s', if track \<and> i < n \<and> \<not> flag s i then l @ [(vals s ! i, i)] else l) \<and>
        vals s' = vals s \<and> (\<forall>j. flag s' j = (flag s j \<or> track \<and> j = i \<and> i < n))"
    and mark_captured: "i < length (vals s) \<Longrightarrow>
      \<exists>s'. so_mark_captured D i s = Inr s' \<and> vals s' = vals s \<and> (track \<longrightarrow> (\<forall>j. flag s' j = (flag s j \<or> j = i)))"
    and prepare_vals: "vals (so_prepare_mark D n l s) = vals s"
    and prepare_flag: "track \<Longrightarrow> (\<forall>i. flag s i \<longrightarrow> i \<in> logged l) \<Longrightarrow> \<not> flag (so_prepare_mark D n l s) j"
    and shrink_vals: "vals (so_shrink_if D cs f h s) = vals s"
    and shrink_flag: "flag (so_shrink_if D cs f h s) i \<Longrightarrow> flag s i"
    and stale_flag: "stale s i \<Longrightarrow> flag s i"
    and resize_vals: "vals (so_resize_default D n s) = vec_resize n dflt (vals s)"
    and resize_stale: "stale (so_resize_default D n s) i \<Longrightarrow> i < n \<and> stale s i"
    and restore_skip: "n \<le> i \<Longrightarrow> so_restore_entry D i x n s = s"
    and restore_vals: "dom x \<Longrightarrow> i < n \<Longrightarrow> i < length (vals s) \<Longrightarrow>
      vals (so_restore_entry D i x n s) = (vals s)[i := x]"
    and restore_stale: "dom x \<Longrightarrow> i < n \<Longrightarrow> i < length (vals s) \<Longrightarrow>
      stale (so_restore_entry D i x n s) j \<Longrightarrow> stale s j \<and> j \<noteq> i"
    and finish_vals: "vals (so_finish_restore D l n s) = vals s"
    and finish_flag: "track \<Longrightarrow>
      flag (so_finish_restore D l n s) i \<longleftrightarrow> stale s i \<or> i \<in> logged l \<and> i < length (vals s)"

section \<open>Packed bits behave as a set of positions\<close>

lemma and_bit_word: "w AND bit_word i \<noteq> 0 \<longleftrightarrow> bit w (i mod 64)"
  by (simp add: bit_word_def push_bit_eq_mult and_exp_eq_0_iff_not_bit)

lemma bit_bit_word: "bit (bit_word i) n \<longleftrightarrow> n = i mod 64"
proof -
  have "i mod 64 < 64" by simp
  then show ?thesis by (auto simp: bit_word_def bit_simps)
qed

lemma div_mod_eq_iff: "i = j \<longleftrightarrow> i div 64 = j div 64 \<and> i mod 64 = j mod (64 :: nat)"
  by (metis div_mult_mod_eq)

lemma is_bit_set_bit:
  "is_bit_set s i \<longleftrightarrow> i div 64 < length (ps_captured s) \<and> bit (ps_captured s ! (i div 64)) (i mod 64)"
  by (simp add: is_bit_set_def and_bit_word)

lemma set_bit_data [simp]: "ps_data (set_bit i s) = ps_data s"
  by (simp add: set_bit_def Let_def)

lemma is_bit_set_set_bit: "is_bit_set (set_bit i s) j \<longleftrightarrow> j = i \<or> is_bit_set s j"
proof (cases "length (ps_captured s) \<le> i div 64")
  case True
  then show ?thesis
    using div_mod_eq_iff [of j i]
    by (auto simp: is_bit_set_bit set_bit_def Let_def nth_list_update nth_vec_resize bit_or_iff bit_bit_word
        less_Suc_eq_le split: if_splits)
next
  case False
  then show ?thesis
    using div_mod_eq_iff [of j i]
    by (auto simp: is_bit_set_bit set_bit_def Let_def nth_list_update bit_or_iff bit_bit_word)
qed

lemma not_bit_zero_words: "\<not> is_bit_set (s\<lparr>ps_captured := vec_resize n 0 (map (\<lambda>_. 0) xs)\<rparr>) i"
  by (auto simp: is_bit_set_bit nth_vec_resize)

lemma fold_set_bit_data [simp]:
  "ps_data (fold (\<lambda>(_, i) s'. if i < length (ps_data s') then set_bit i s' else s') l s) = ps_data s"
  by (induction l arbitrary: s) (simp_all add: case_prod_beta)

lemma fold_set_bit:
  "is_bit_set (fold (\<lambda>(_, i) s'. if i < length (ps_data s') then set_bit i s' else s') l s) j \<longleftrightarrow>
    is_bit_set s j \<or> j \<in> logged l \<and> j < length (ps_data s)"
proof (induction l arbitrary: s)
  case (Cons e l)
  obtain x i where e: "e = (x, i)" by (cases e)
  show ?case
  proof (cases "i < length (ps_data s)")
    case True
    then show ?thesis using Cons.IH [of "set_bit i s"] e by (auto simp: is_bit_set_set_bit)
  next
    case False
    then show ?thesis using Cons.IH [of s] e by auto
  qed
qed simp

text \<open>\<open>BitSet\<close> is a set of positions below the length it was built for.\<close>

lemma bitset_test_set:
  assumes "i div 64 < length (words b)" and "j div 64 < length (words b)"
  shows "\<exists>b'. bitset_set i b = Inr b' \<and> length (words b') = length (words b) \<and>
    bitset_test j b' = (if j = i then Inr True else bitset_test j b)"
  using assms div_mod_eq_iff [of j i]
  by (auto simp: bitset_set_def bitset_test_def and_bit_word nth_list_update bit_or_iff bit_bit_word)

lemma bitset_test_clear:
  assumes "i div 64 < length (words b)" and "j div 64 < length (words b)"
  shows "\<exists>b'. bitset_clear i b = Inr b' \<and> length (words b') = length (words b) \<and>
    bitset_test j b' = (if j = i then Inr False else bitset_test j b)"
  using assms div_mod_eq_iff [of j i]
  by (auto simp: bitset_clear_def bitset_test_def and_bit_word nth_list_update bit_and_iff bit_not_iff bit_bit_word)

lemma bitset_test_new: "i < n \<Longrightarrow> bitset_test i (bitset_new n) = Inr False"
  using div_ceil_64_gt [of i n] by (simp add: bitset_test_def bitset_new_def and_bit_word)

section \<open>The implementations keep the contract\<close>

lemma parallel_diff_store:
  "diff_store (parallel_ops track imax d) ps_data is_bit_set (\<lambda>_ _. False) (\<lambda>_. True) imax track d"
proof
  fix s :: "'a parallel_store" and i j n :: nat and x :: 'a and l :: "'a log" and cs f h
  let ?D = "parallel_ops track imax d"
  show "is_bit_set (snd (so_pop ?D s)) i \<Longrightarrow> is_bit_set s i"
    and "is_bit_set s i \<Longrightarrow> is_bit_set (snd (so_pop ?D s)) i"
    by (auto simp: parallel_ops_def ps_pop_def is_bit_set_def split: if_splits)
  show "i < length (ps_data s) \<Longrightarrow> \<exists>s'. so_set_raw ?D i x s = Inr s' \<and> ps_data s' = (ps_data s)[i := x] \<and>
      (track \<longrightarrow> is_bit_set s' = is_bit_set s)"
    by (simp add: parallel_ops_def ps_set_raw_def is_bit_set_def fun_eq_iff)
  show "i < length (ps_data s) \<Longrightarrow> \<exists>s'. so_capture ?D i n l s =
      Inr (s', if track \<and> i < n \<and> \<not> is_bit_set s i then l @ [(ps_data s ! i, i)] else l) \<and>
      ps_data s' = ps_data s \<and> (\<forall>j. is_bit_set s' j = (is_bit_set s j \<or> track \<and> j = i \<and> i < n))"
    by (cases "track \<and> i < n \<and> \<not> is_bit_set s i")
       (auto simp: parallel_ops_def ps_capture_def is_bit_set_set_bit)
  show "\<exists>s'. so_mark_captured ?D i s = Inr s' \<and> ps_data s' = ps_data s \<and>
      (track \<longrightarrow> (\<forall>j. is_bit_set s' j = (is_bit_set s j \<or> j = i)))"
    by (auto simp: parallel_ops_def ps_mark_captured_def is_bit_set_set_bit)
  show "is_bit_set (so_shrink_if ?D cs f h s) i \<Longrightarrow> is_bit_set s i"
    by (auto simp: parallel_ops_def ps_shrink_if_def is_bit_set_def split: if_splits)
  show "track \<Longrightarrow> is_bit_set (so_finish_restore ?D l n s) i \<longleftrightarrow> False \<or> i \<in> logged l \<and> i < length (ps_data s)"
    using not_bit_zero_words [where s = s and n = "length (ps_captured s)" and xs = "ps_captured s"]
    by (simp add: parallel_ops_def ps_finish_restore_def fold_set_bit vec_resize_def)
  show "track \<Longrightarrow> \<not> is_bit_set (so_prepare_mark ?D n l s) j"
    by (simp add: parallel_ops_def ps_prepare_mark_def not_bit_zero_words)
  show "ps_data (so_resize_default ?D n s) = vec_resize n d (ps_data s)"
    by (simp add: parallel_ops_def ps_resize_default_def vec_resize_def Let_def)
qed (simp_all add: parallel_ops_def len_res_def ps_push_def ps_pop_def ps_get_def ps_truncate_def
    ps_prepare_mark_def ps_shrink_if_def ps_restore_entry_def ps_finish_restore_def
    is_bit_set_def)

interpretation par: diff_store "parallel_ops track imax d" ps_data is_bit_set "\<lambda>_ _. False" "\<lambda>_. True" imax track d
  for track imax d
  by (rule parallel_diff_store)

text \<open>The flag of an inline cell is the tag of its representation.\<close>

definition is_vals :: "('t, 'r) tagged_ops \<Rightarrow> 'r inline_store \<Rightarrow> 't list" where
  "is_vals T s = map (from_repr T) (is_data s)"

definition is_flag :: "('t, 'r) tagged_ops \<Rightarrow> 'r inline_store \<Rightarrow> nat \<Rightarrow> bool" where
  "is_flag T s i \<longleftrightarrow> i < length (is_data s) \<and> tag T (is_data s ! i)"

context tagged_repr begin

lemma fold_retag_vals:
  assumes "\<And>r. from_repr T (g r) = from_repr T r"
  shows "is_vals T (fold (\<lambda>(_, i) s'. if i < length (is_data s')
      then s'\<lparr>is_data := (is_data s')[i := g (is_data s' ! i)]\<rparr> else s') l s) = is_vals T s"
proof (induction l arbitrary: s)
  case (Cons e l)
  have "map (from_repr T) ((is_data s)[i := g (is_data s ! i)]) = map (from_repr T) (is_data s)" for i
    by (cases "i < length (is_data s)") (simp_all add: map_update assms list_update_same_conv list_update_beyond)
  then have "is_vals T (s\<lparr>is_data := (is_data s)[i := g (is_data s ! i)]\<rparr>) = is_vals T s" for i
    by (simp add: is_vals_def)
  then show ?case using Cons.IH by (cases e) simp
qed simp

lemma fold_retag_length [simp]:
  "length (is_data (fold (\<lambda>(_, i) s'. if i < length (is_data s')
      then s'\<lparr>is_data := (is_data s')[i := g (is_data s' ! i)]\<rparr> else s') l s)) = length (is_data s)"
  by (induction l arbitrary: s) (simp_all add: case_prod_beta)

lemma fold_set_flag:
  "is_flag T (fold (\<lambda>(_, i) s'. if i < length (is_data s')
      then s'\<lparr>is_data := (is_data s')[i := set_tag T (is_data s' ! i)]\<rparr> else s') l s) j \<longleftrightarrow>
   is_flag T s j \<or> j \<in> logged l \<and> j < length (is_data s)"
proof (induction l arbitrary: s)
  case (Cons e l)
  obtain x i where e: "e = (x, i)" by (cases e)
  show ?case
  proof (cases "i < length (is_data s)")
    case True
    then show ?thesis
      using Cons.IH [of "s\<lparr>is_data := (is_data s)[i := set_tag T (is_data s ! i)]\<rparr>"] e
      by (auto simp: is_flag_def nth_list_update)
  next
    case False
    then show ?thesis using Cons.IH [of s] e by auto
  qed
qed simp

lemma fold_clear_flag:
  "is_flag T (fold (\<lambda>(_, i) s'. if i < length (is_data s')
      then s'\<lparr>is_data := (is_data s')[i := clear_tag T (is_data s' ! i)]\<rparr> else s') l s) j \<longleftrightarrow>
   is_flag T s j \<and> j \<notin> logged l"
proof (induction l arbitrary: s)
  case (Cons e l)
  obtain x i where e: "e = (x, i)" by (cases e)
  show ?case
  proof (cases "i < length (is_data s)")
    case True
    then show ?thesis
      using Cons.IH [of "s\<lparr>is_data := (is_data s)[i := clear_tag T (is_data s ! i)]\<rparr>"] e
      by (auto simp: is_flag_def nth_list_update)
  next
    case False
    then show ?thesis using Cons.IH [of s] e by (auto simp: is_flag_def)
  qed
qed simp

lemma inline_diff_store:
  "diff_store (inline_ops T track imax) (is_vals T) (is_flag T) (is_flag T) dom imax track (tg_default T)"
proof
  fix s :: "'r inline_store" and i j n :: nat and x :: 't and l :: "'t log"
  let ?D = "inline_ops T track imax"
  show "x \<in> set (is_vals T s) \<Longrightarrow> dom x" by (auto simp: is_vals_def)
  show "dom x \<Longrightarrow> is_flag T (so_push ?D x s) i = is_flag T s i"
    by (auto simp: inline_ops_def is_push_def is_flag_def nth_append less_Suc_eq)
  show "fst (so_pop ?D s) = (if is_vals T s = [] then None else Some (last (is_vals T s)))"
    by (simp add: inline_ops_def is_pop_def is_vals_def last_map)
  show "is_flag T (snd (so_pop ?D s)) i \<Longrightarrow> is_flag T s i"
    and "is_flag T s i \<Longrightarrow> i < length (is_vals T s) - 1 \<Longrightarrow> is_flag T (snd (so_pop ?D s)) i"
    by (auto simp: inline_ops_def is_pop_def is_flag_def is_vals_def nth_butlast split: if_splits)
  show "so_get ?D i s = nth_res (is_vals T s) i"
    by (cases "i < length (is_data s)") (simp_all add: inline_ops_def is_get_def is_vals_def)
  show "dom x \<Longrightarrow> i < length (is_vals T s) \<Longrightarrow> \<exists>s'. so_set_raw ?D i x s = Inr s' \<and>
      is_vals T s' = (is_vals T s)[i := x] \<and> (track \<longrightarrow> is_flag T s' = is_flag T s)"
    by (auto simp: inline_ops_def is_set_raw_def is_vals_def is_flag_def map_update fun_eq_iff nth_list_update Let_def)
  show "i < length (is_vals T s) \<Longrightarrow> \<exists>s'. so_capture ?D i n l s =
      Inr (s', if track \<and> i < n \<and> \<not> is_flag T s i then l @ [(is_vals T s ! i, i)] else l) \<and>
      is_vals T s' = is_vals T s \<and> (\<forall>j. is_flag T s' j = (is_flag T s j \<or> track \<and> j = i \<and> i < n))"
    by (cases "track \<and> i < n \<and> \<not> is_flag T s i")
       (auto simp: inline_ops_def is_capture_def is_vals_def is_flag_def map_update nth_list_update
          list_update_same_conv)
  show "i < length (is_vals T s) \<Longrightarrow> \<exists>s'. so_mark_captured ?D i s = Inr s' \<and> is_vals T s' = is_vals T s \<and>
      (track \<longrightarrow> (\<forall>j. is_flag T s' j = (is_flag T s j \<or> j = i)))"
    by (auto simp: inline_ops_def is_mark_captured_def is_vals_def is_flag_def map_update nth_list_update
        list_update_same_conv)
  show "is_vals T (so_resize_default ?D n s) = vec_resize n (tg_default T) (is_vals T s)"
    by (simp add: inline_ops_def is_resize_default_def is_vals_def vec_resize_def Let_def take_map)
  show "is_flag T (so_resize_default ?D n s) i \<Longrightarrow> i < n \<and> is_flag T s i"
    by (auto simp: inline_ops_def is_resize_default_def is_flag_def Let_def nth_append split: if_splits)
  show "dom x \<Longrightarrow> i < n \<Longrightarrow> i < length (is_vals T s) \<Longrightarrow>
      is_flag T (so_restore_entry ?D i x n s) j \<Longrightarrow> is_flag T s j \<and> j \<noteq> i"
    by (auto simp: inline_ops_def is_restore_entry_def is_vals_def is_flag_def nth_list_update split: if_splits)
  show "is_vals T (so_prepare_mark ?D n l s) = is_vals T s"
    and "is_vals T (so_finish_restore ?D l n s) = is_vals T s"
    by (simp_all add: inline_ops_def is_prepare_mark_def is_finish_restore_def fold_retag_vals)
  show "track \<Longrightarrow> \<forall>i. is_flag T s i \<longrightarrow> i \<in> logged l \<Longrightarrow> \<not> is_flag T (so_prepare_mark ?D n l s) j"
    by (simp add: inline_ops_def is_prepare_mark_def fold_clear_flag)
  show "track \<Longrightarrow> is_flag T (so_finish_restore ?D l n s) i \<longleftrightarrow>
      is_flag T s i \<or> i \<in> logged l \<and> i < length (is_vals T s)"
    by (simp add: inline_ops_def is_finish_restore_def fold_set_flag is_vals_def)
qed (simp_all add: inline_ops_def len_res_def is_push_def is_pop_def is_truncate_def is_shrink_if_def
    is_restore_entry_def is_vals_def map_update map_butlast take_map)

end

sublocale tagged_repr \<subseteq> inl: diff_store "inline_ops T track imax" "is_vals T" "is_flag T" "is_flag T" dom imax track "tg_default T"
  for track imax
  by (rule inline_diff_store)

end
