(* ===== verification/Token.thy ===== *)
theory Token
  imports Prelude
begin

text \<open>
  Restore tokens and their validation: \<open>containers/src/token.rs\<close>.  A token names a branch of the
  container's fork history and a depth of its frame stack; \<open>ForkHistory::is_valid\<close> walks the
  genealogy from the current branch.  The second half states what a checkpointed container promises
  about tokens (locale \<open>checkpointed\<close>) and proves once, for every container, which of the tokens it
  ever issued \<open>restore\<close> accepts and what it restores.
\<close>

section \<open>Tokens, container identities, fork history\<close>

record vec_token =
  branch_id :: nat
  depth :: nat
  frame_index :: nat
  container_id :: "32 word"

record frame =
  saved_len :: nat
  diff_start :: nat

text \<open>A count that does not fit the \<open>u32\<close> token field is a panic, never a wrapped value.\<close>

definition narrow_count :: "nat \<Rightarrow> nat res" where
  "narrow_count n = (if n < 2 ^ 32 then Inr n else Inl CountExceeded)"

text \<open>
  \<open>ContainerId::new\<close> is \<open>fetch_add(1)\<close> on a process-wide \<open>AtomicU32\<close>: it returns the counter and
  increments it modulo \<open>2 ^ 32\<close>.
\<close>

definition container_id_new :: "32 word \<Rightarrow> 32 word \<times> 32 word" where
  "container_id_new counter = (counter, counter + 1)"

fun container_ids :: "nat \<Rightarrow> 32 word \<Rightarrow> 32 word list" where
  "container_ids 0 c = []"
| "container_ids (Suc n) c = (let (i, c') = container_id_new c in i # container_ids n c')"

record fork_origin =
  parent_branch_id :: nat
  fork_depth :: nat

record fork_history =
  current_branch_id :: nat
  origins :: "fork_origin list"

definition fork_history_new :: fork_history where
  "fork_history_new = \<lparr>current_branch_id = 0, origins = []\<rparr>"

definition current_branch :: "fork_history \<Rightarrow> nat" where
  "current_branch h = current_branch_id h"

definition fork :: "vec_token \<Rightarrow> nat \<Rightarrow> fork_history \<Rightarrow> fork_history res" where
  "fork token current_depth h =
    (let os = origins h @ [\<lparr>parent_branch_id = branch_id token, fork_depth = depth token\<rparr>]
     in rbind (narrow_count (length os)) (\<lambda>b. Inr \<lparr>current_branch_id = b, origins = os\<rparr>))"

text \<open>
  The \<open>while branch != token.branch_id\<close> loop.  A loop state is a branch number; only \<open>0\<close> and the
  numbers up to \<open>origins.len()\<close> pass the indexing, so \<open>origins.len() + 2\<close> iterations are enough
  unless the loop revisits a state.
\<close>

fun is_valid_loop :: "nat \<Rightarrow> fork_origin list \<Rightarrow> vec_token \<Rightarrow> nat \<Rightarrow> nat \<Rightarrow> bool res" where
  "is_valid_loop 0 os token current_depth branch = Inl Diverge"
| "is_valid_loop (Suc fuel) os token current_depth branch =
    (if branch = branch_id token then Inr (depth token \<le> current_depth)
     else if branch = 0 then Inr False
     else rbind (nth_res os (branch - 1)) (\<lambda>origin.
       if parent_branch_id origin = branch_id token then Inr (depth token \<le> fork_depth origin)
       else is_valid_loop fuel os token current_depth (parent_branch_id origin)))"

definition is_valid :: "fork_history \<Rightarrow> vec_token \<Rightarrow> nat \<Rightarrow> bool res" where
  "is_valid h token current_depth =
    (if branch_id token = current_branch_id h then Inr (depth token \<le> current_depth)
     else is_valid_loop (length (origins h) + 2) (origins h) token current_depth (current_branch_id h))"

section \<open>The walk as a function of the genealogy\<close>

text \<open>
  \<open>lim os c b\<close> is the depth up to which the walk from branch \<open>c\<close> accepts the tokens of branch \<open>b\<close>:
  \<open>Some None\<close> on the current branch (no fork in between), \<open>Some (Some d)\<close> when the branch was left
  at depth \<open>d\<close>, \<open>None\<close> when \<open>b\<close> is not an ancestor.
\<close>

function lim :: "fork_origin list \<Rightarrow> nat \<Rightarrow> nat \<Rightarrow> nat option option" where
  "lim os c b =
    (if c = b then Some None
     else if c = 0 \<or> length os < c then None
     else let p = parent_branch_id (os ! (c - 1)) in
       if p < c then (if p = b then Some (Some (fork_depth (os ! (c - 1)))) else lim os p b)
       else None)"
  by pat_completeness auto
termination
  by (relation "measure (\<lambda>(os, c, b). c)") auto

declare lim.simps [simp del]

text \<open>The depth at which a branch starts.\<close>

definition start :: "fork_origin list \<Rightarrow> nat \<Rightarrow> nat" where
  "start os b = (if b = 0 then 0 else fork_depth (os ! (b - 1)))"

text \<open>A branch forks from an older one, at or below the depth where that one starts.\<close>

definition gen_wf :: "fork_origin list \<Rightarrow> bool" where
  "gen_wf os \<longleftrightarrow> (\<forall>b < length os. parent_branch_id (os ! b) \<le> b \<and>
     start os (parent_branch_id (os ! b)) \<le> fork_depth (os ! b))"

definition fork_wf :: "fork_history \<Rightarrow> bool" where
  "fork_wf h \<longleftrightarrow> current_branch_id h = length (origins h) \<and> gen_wf (origins h)"

definition within :: "nat \<Rightarrow> nat option option \<Rightarrow> nat \<Rightarrow> bool" where
  "within d l n = (case l of None \<Rightarrow> False | Some None \<Rightarrow> d \<le> n | Some (Some m) \<Rightarrow> d \<le> m)"

lemma within_on_path: "within d l n \<Longrightarrow> l \<noteq> None"
  by (cases l) (simp_all add: within_def)

lemma fork_wf_new: "fork_wf fork_history_new"
  by (simp add: fork_wf_def gen_wf_def fork_history_new_def)

lemma is_valid_loop_lim:
  assumes par: "\<And>b. b < length os \<Longrightarrow> parent_branch_id (os ! b) \<le> b"
  shows "c \<le> length os \<Longrightarrow> c < fuel \<Longrightarrow> c \<noteq> branch_id t \<Longrightarrow>
    is_valid_loop fuel os t n c = Inr (within (depth t) (lim os c (branch_id t)) n)"
proof (induction fuel arbitrary: c)
  case 0
  then show ?case by simp
next
  case (Suc fuel)
  show ?case
  proof (cases "c = 0")
    case True
    with Suc.prems show ?thesis by (simp add: lim.simps [of os 0] within_def)
  next
    case False
    let ?p = "parent_branch_id (os ! (c - 1))"
    have p: "?p < c" using par [of "c - 1"] False Suc.prems(1) by linarith
    have IH: "?p \<noteq> branch_id t \<Longrightarrow>
        is_valid_loop fuel os t n ?p = Inr (within (depth t) (lim os ?p (branch_id t)) n)"
      using Suc.IH [of ?p] p Suc.prems by simp
    have "lim os c (branch_id t) =
        (if ?p = branch_id t then Some (Some (fork_depth (os ! (c - 1)))) else lim os ?p (branch_id t))"
      using False Suc.prems p by (simp add: lim.simps [of os c] Let_def)
    with False Suc.prems IH show ?thesis by (simp add: within_def)
  qed
qed

lemma is_valid_lim:
  assumes "fork_wf h"
  shows "is_valid h t n = Inr (within (depth t) (lim (origins h) (current_branch_id h) (branch_id t)) n)"
proof (cases "branch_id t = current_branch_id h")
  case True
  then show ?thesis by (simp add: is_valid_def lim.simps [of _ "current_branch_id h"] within_def)
next
  case False
  have "is_valid_loop (length (origins h) + 2) (origins h) t n (current_branch_id h) =
      Inr (within (depth t) (lim (origins h) (current_branch_id h) (branch_id t)) n)"
    using assms False by (intro is_valid_loop_lim) (auto simp: fork_wf_def gen_wf_def)
  with False show ?thesis by (simp add: is_valid_def del: is_valid_loop.simps)
qed

section \<open>Genealogy lemmas\<close>

lemma lim_self [simp]: "lim os c c = Some None"
  by (simp add: lim.simps)

lemma lim_le: "lim os c b \<noteq> None \<Longrightarrow> b \<le> c"
proof (induction c rule: less_induct)
  case (less c)
  then show ?case
    by (subst (asm) (2) lim.simps) (force simp: Let_def split: if_splits)
qed

lemma lim_None_iff_eq: "lim os c b = Some None \<longleftrightarrow> c = b"
proof (induction c rule: less_induct)
  case (less c)
  then show ?case
    using lim_le [of os _ b] by (subst lim.simps) (auto simp: Let_def; force)
qed

lemma lim_step:
  assumes "c \<noteq> b" "c \<noteq> 0" "c \<le> length os" "parent_branch_id (os ! (c - 1)) < c"
  shows "lim os c b = (if parent_branch_id (os ! (c - 1)) = b then Some (Some (fork_depth (os ! (c - 1))))
    else lim os (parent_branch_id (os ! (c - 1))) b)"
  using assms by (subst lim.simps) (simp add: Let_def)

text \<open>Appending an origin changes nothing for the branches that existed before.\<close>

lemma lim_append: "c \<le> length os \<Longrightarrow> lim (os @ [x]) c b = lim os c b"
proof (induction c rule: less_induct)
  case (less c)
  show ?case
  proof (cases "c = b \<or> c = 0")
    case True
    then show ?thesis by (auto simp: lim.simps [of _ c])
  next
    case False
    with less.prems have "c - 1 < length os" by linarith
    then have n: "(os @ [x]) ! (c - Suc 0) = os ! (c - Suc 0)" by (simp add: nth_append)
    show ?thesis
      using False less by (subst (1 2) lim.simps) (auto simp: Let_def n)
  qed
qed

lemma start_append: "b \<le> length os \<Longrightarrow> start (os @ [x]) b = start os b"
  by (auto simp: start_def nth_append)

lemma parent_less:
  assumes gen: "gen_wf os"
  shows "c \<noteq> 0 \<Longrightarrow> c \<le> length os \<Longrightarrow> parent_branch_id (os ! (c - 1)) < c"
  using gen [unfolded gen_wf_def, rule_format, of "c - 1"] by linarith

lemma lim_unfold:
  assumes gen: "gen_wf os"
  shows "c \<noteq> b \<Longrightarrow> c \<noteq> 0 \<Longrightarrow> c \<le> length os \<Longrightarrow>
    lim os c b = (if parent_branch_id (os ! (c - 1)) = b then Some (Some (fork_depth (os ! (c - 1))))
    else lim os (parent_branch_id (os ! (c - 1))) b)"
  by (rule lim_step) (use parent_less [OF gen] in auto)

lemma lim_trans:
  assumes gen: "gen_wf os"
  shows "c \<le> length os \<Longrightarrow> lim os c b \<noteq> None \<Longrightarrow> a \<noteq> b \<Longrightarrow> lim os b a \<noteq> None \<Longrightarrow> lim os c a = lim os b a"
proof (induction c rule: less_induct)
  case (less c)
  show ?case
  proof (cases "c = b")
    case False
    have ab: "a < b" using less.prems(3,4) lim_le [of os b a] by simp
    have bc: "b < c" using False lim_le [OF less.prems(2)] by simp
    let ?p = "parent_branch_id (os ! (c - 1))"
    have p: "?p < c" using parent_less [OF gen] less.prems(1) bc by simp
    have ub: "lim os c b = (if ?p = b then Some (Some (fork_depth (os ! (c - 1)))) else lim os ?p b)"
      using lim_unfold [OF gen] bc less.prems(1) by simp
    have pa: "?p \<noteq> a"
      using ub less.prems(2) ab lim_le [of os ?p b] by (auto split: if_splits)
    have "lim os c a = lim os ?p a"
      using lim_unfold [OF gen, of c a] pa ab bc less.prems(1) by simp
    moreover have "lim os ?p a = lim os b a"
      using less.IH [OF p] p less.prems ub by (cases "?p = b") auto
    ultimately show ?thesis by simp
  qed simp
qed

lemma lim_comparable:
  assumes gen: "gen_wf os"
  shows "c \<le> length os \<Longrightarrow> lim os c a \<noteq> None \<Longrightarrow> lim os c b \<noteq> None \<Longrightarrow> a \<le> b \<Longrightarrow> lim os b a \<noteq> None"
proof (induction c rule: less_induct)
  case (less c)
  show ?case
  proof (cases "c = b \<or> a = b")
    case False
    let ?p = "parent_branch_id (os ! (c - 1))"
    have bc: "b < c" using False lim_le [OF less.prems(3)] by simp
    have ac: "a < c" using bc less.prems(4) by simp
    have p: "?p < c" using parent_less [OF gen] less.prems(1) bc by simp
    have ub: "lim os c b = (if ?p = b then Some (Some (fork_depth (os ! (c - 1)))) else lim os ?p b)"
      and ua: "lim os c a = (if ?p = a then Some (Some (fork_depth (os ! (c - 1)))) else lim os ?p a)"
      using lim_unfold [OF gen] bc ac less.prems(1) by simp_all
    have "?p = a \<Longrightarrow> lim os ?p b = None"
      using lim_le [of os ?p b] False less.prems(4) by force
    then have a': "lim os ?p a \<noteq> None" and b': "lim os ?p b \<noteq> None"
      using ua ub less.prems(2,3) False by (auto split: if_splits)
    show ?thesis using less.IH [OF p _ a' b' less.prems(4)] p less.prems(1) by simp
  qed (use less.prems in auto)
qed

lemma lim_le_start:
  assumes gen: "gen_wf os"
  shows "c \<le> length os \<Longrightarrow> lim os c b = Some (Some l) \<Longrightarrow> l \<le> start os c"
proof (induction c rule: less_induct)
  case (less c)
  have cb: "c \<noteq> b" using less.prems(2) by (auto simp: lim.simps [of os b])
  have c0: "c \<noteq> 0"
  proof
    assume "c = 0"
    with less.prems(2) cb show False by (simp add: lim.simps [of os 0])
  qed
  let ?p = "parent_branch_id (os ! (c - 1))"
  have p: "?p < c" using parent_less [OF gen] less.prems(1) c0 by simp
  have st: "start os c = fork_depth (os ! (c - 1))" using c0 by (simp add: start_def)
  show ?case
  proof (cases "?p = b")
    case True
    then show ?thesis using lim_unfold [OF gen cb c0 less.prems(1)] less.prems(2) st by simp
  next
    case False
    then have "lim os ?p b = Some (Some l)"
      using lim_unfold [OF gen cb c0 less.prems(1)] less.prems(2) by simp
    then have "l \<le> start os ?p" using less.IH [OF p] p less.prems(1) by simp
    also have "\<dots> \<le> fork_depth (os ! (c - 1))" using gen [unfolded gen_wf_def, rule_format, of "c - 1"] c0 less.prems(1) by simp
    finally show ?thesis by (simp add: st)
  qed
qed

text \<open>A branch left at depth \<open>l\<close> has only descendants that start at depth \<open>l\<close> or deeper.\<close>

lemma lim_le_start_between:
  assumes gen: "gen_wf os" and "c \<le> length os" "lim os c a = Some (Some l)" "lim os c b \<noteq> None" "a < b"
  shows "l \<le> start os b"
proof -
  have ba: "lim os b a \<noteq> None" using lim_comparable [OF gen, of c a b] assms by simp
  have "lim os c a = lim os b a" using lim_trans [OF gen assms(2,4) _ ba] assms(5) by simp
  then have "lim os b a = Some (Some l)" using assms(3) by simp
  moreover have "b \<le> length os" using lim_le [OF assms(4)] assms(2) by simp
  ultimately show ?thesis by (intro lim_le_start [OF gen])
qed

lemma fork_wf_gen: "fork_wf h \<Longrightarrow> gen_wf (origins h)"
  by (simp add: fork_wf_def)

section \<open>Which tokens a container accepts\<close>

text \<open>
  Ghost state of a container's lifetime: \<open>bs\<close> lists branch and depth of every token issued so far,
  \<open>st\<close> the number of the token that owns each frame of the stack, \<open>co\<close> the tokens that were
  restored (their frame was popped by their own \<open>restore\<close>).  A token that is neither on the stack nor
  consumed belongs to an abandoned future.
\<close>

definition tok_inv :: "fork_history \<Rightarrow> nat \<Rightarrow> (nat \<times> nat) list \<Rightarrow> nat list \<Rightarrow> nat set \<Rightarrow> bool" where
  "tok_inv h n bs st co \<longleftrightarrow>
    fork_wf h \<and> length st = n \<and> start (origins h) (current_branch_id h) \<le> n \<and>
    (\<forall>d < n. st ! d < length bs \<and> snd (bs ! (st ! d)) = d) \<and>
    (\<forall>k < length bs. fst (bs ! k) \<le> length (origins h) \<and> start (origins h) (fst (bs ! k)) \<le> snd (bs ! k)) \<and>
    distinct bs \<and>
    (\<forall>k < length bs. fst (bs ! k) = current_branch_id h \<longrightarrow> k \<in> set st) \<and>
    (\<forall>k \<in> set st. fst (bs ! k) \<noteq> current_branch_id h \<longrightarrow>
       (\<exists>l. lim (origins h) (current_branch_id h) (fst (bs ! k)) = Some (Some l) \<and> snd (bs ! k) < l)) \<and>
    (\<forall>k < length bs. k \<notin> set st \<longrightarrow> k \<notin> co \<longrightarrow>
       \<not> within (snd (bs ! k)) (lim (origins h) (current_branch_id h) (fst (bs ! k))) n)"

lemma tok_inv_start: "fork_wf h \<Longrightarrow> origins h = [] \<Longrightarrow> tok_inv h 0 [] [] {}"
  by (simp add: tok_inv_def start_def fork_wf_def)

lemma tok_inv_stack:
  assumes "tok_inv h n bs st co" and "k \<in> set st"
  shows "k < length bs" and "snd (bs ! k) < n" and "st ! snd (bs ! k) = k"
proof -
  from assms(2) obtain d where d: "d < length st" and k: "st ! d = k" by (auto simp: in_set_conv_nth)
  with assms(1) have "k < length bs" and "snd (bs ! k) = d" and "length st = n"
    by (auto simp: tok_inv_def)
  with d k show "k < length bs" and "snd (bs ! k) < n" and "st ! snd (bs ! k) = k" by simp_all
qed

lemma tok_inv_mark:
  assumes inv: "tok_inv h n bs st co"
  shows "tok_inv h (Suc n) (bs @ [(current_branch_id h, n)]) (st @ [length bs]) co"
proof -
  let ?c = "current_branch_id h"
  have new: "(?c, n) \<notin> set bs"
  proof
    assume "(?c, n) \<in> set bs"
    then obtain k where k: "k < length bs" "bs ! k = (?c, n)" by (auto simp: in_set_conv_nth)
    with inv have "k \<in> set st" by (auto simp: tok_inv_def)
    from tok_inv_stack(2) [OF inv this] k show False by simp
  qed
  have dead: "\<not> within (snd (bs ! k)) (lim (origins h) ?c (fst (bs ! k))) (Suc n)"
    if "k < length bs" "k \<notin> set st" "k \<notin> co" for k
  proof -
    have "fst (bs ! k) \<noteq> ?c" using inv that by (auto simp: tok_inv_def)
    then have "lim (origins h) ?c (fst (bs ! k)) \<noteq> Some None" using lim_None_iff_eq by metis
    moreover have "\<not> within (snd (bs ! k)) (lim (origins h) ?c (fst (bs ! k))) n"
      using inv that by (auto simp: tok_inv_def)
    ultimately show ?thesis by (auto simp: within_def split: option.splits)
  qed
  have st: "k < length bs" if "k \<in> set st" for k using tok_inv_stack(1) [OF inv that] .
  have cur: "?c = length (origins h)" "start (origins h) ?c \<le> n" "length st = n"
    using inv by (auto simp: tok_inv_def fork_wf_def)
  show ?thesis
    unfolding tok_inv_def
  proof (intro conjI)
    show "\<forall>d<Suc n. (st @ [length bs]) ! d < length (bs @ [(?c, n)]) \<and>
        snd ((bs @ [(?c, n)]) ! ((st @ [length bs]) ! d)) = d"
      using inv cur(3) by (auto simp: tok_inv_def nth_append less_Suc_eq)
    show "\<forall>k<length (bs @ [(?c, n)]). fst ((bs @ [(?c, n)]) ! k) \<le> length (origins h) \<and>
        start (origins h) (fst ((bs @ [(?c, n)]) ! k)) \<le> snd ((bs @ [(?c, n)]) ! k)"
      using inv cur by (auto simp: tok_inv_def nth_append less_Suc_eq)
    show "\<forall>k<length (bs @ [(?c, n)]). fst ((bs @ [(?c, n)]) ! k) = ?c \<longrightarrow> k \<in> set (st @ [length bs])"
      using inv by (auto simp: tok_inv_def nth_append less_Suc_eq)
    show "\<forall>k\<in>set (st @ [length bs]). fst ((bs @ [(?c, n)]) ! k) \<noteq> ?c \<longrightarrow>
        (\<exists>l. lim (origins h) ?c (fst ((bs @ [(?c, n)]) ! k)) = Some (Some l) \<and> snd ((bs @ [(?c, n)]) ! k) < l)"
      using inv st by (auto simp: tok_inv_def nth_append)
    show "\<forall>k<length (bs @ [(?c, n)]). k \<notin> set (st @ [length bs]) \<longrightarrow> k \<notin> co \<longrightarrow>
        \<not> within (snd ((bs @ [(?c, n)]) ! k)) (lim (origins h) ?c (fst ((bs @ [(?c, n)]) ! k))) (Suc n)"
      using dead by (auto simp: nth_append less_Suc_eq)
  qed (use inv new cur in \<open>auto simp: tok_inv_def\<close>)
qed

text \<open>Live tokens pass the walk; abandoned ones do not.\<close>

lemma tok_inv_live:
  assumes "tok_inv h n bs st co" and "k \<in> set st"
  shows "within (snd (bs ! k)) (lim (origins h) (current_branch_id h) (fst (bs ! k))) n"
proof (cases "fst (bs ! k) = current_branch_id h")
  case True
  with tok_inv_stack(2) [OF assms] show ?thesis by (simp add: within_def)
next
  case False
  with assms show ?thesis by (auto simp: tok_inv_def within_def)
qed

lemma tok_inv_dead:
  assumes "tok_inv h n bs st co" and "k < length bs" and "k \<notin> set st" and "k \<notin> co"
  shows "\<not> within (snd (bs ! k)) (lim (origins h) (current_branch_id h) (fst (bs ! k))) n"
  using assms by (auto simp: tok_inv_def)

text \<open>The walk after a restore: from the new branch to the restored token's branch, then as before.\<close>

lemma lim_forked:
  assumes "p \<le> length os" and "b \<le> length os"
  shows "lim (os @ [\<lparr>parent_branch_id = p, fork_depth = d\<rparr>]) (Suc (length os)) b =
    (if p = b then Some (Some d) else lim os p b)"
  using assms lim_step [of "Suc (length os)" b "os @ [\<lparr>parent_branch_id = p, fork_depth = d\<rparr>]"]
  by (simp add: lim_append)

text \<open>
  Seen from a token that the walk accepts, the walk to every other ancestor agrees with the walk from
  the current branch, and descendants of its branch start below it.
\<close>

lemma restored_walk:
  assumes wf: "fork_wf h" and k: "within dk (lim (origins h) (current_branch_id h) bk) n"
  shows "lim (origins h) bk b \<noteq> None \<Longrightarrow> b \<noteq> bk \<Longrightarrow>
      lim (origins h) bk b = lim (origins h) (current_branch_id h) b"
    and "lim (origins h) (current_branch_id h) b \<noteq> None \<Longrightarrow> bk < b \<Longrightarrow> dk \<le> start (origins h) b"
    and "bk \<le> length (origins h)"
    and "lim (origins h) (current_branch_id h) b \<noteq> None \<Longrightarrow> b \<le> bk \<Longrightarrow> lim (origins h) bk b \<noteq> None"
proof -
  note gen = fork_wf_gen [OF wf]
  have c: "current_branch_id h = length (origins h)" using wf by (simp add: fork_wf_def)
  have onk: "lim (origins h) (current_branch_id h) bk \<noteq> None"
    by (rule within_on_path [OF k])
  show "lim (origins h) bk b \<noteq> None \<Longrightarrow> b \<noteq> bk \<Longrightarrow>
      lim (origins h) bk b = lim (origins h) (current_branch_id h) b"
    using lim_trans [OF gen _ onk, of b] c by simp
  show "bk \<le> length (origins h)" using lim_le [OF onk] c by simp
  show "lim (origins h) (current_branch_id h) b \<noteq> None \<Longrightarrow> b \<le> bk \<Longrightarrow> lim (origins h) bk b \<noteq> None"
    using lim_comparable [OF gen _ _ onk, of b] c by simp
  assume onb: "lim (origins h) (current_branch_id h) b \<noteq> None" and lt: "bk < b"
  have "bk \<noteq> current_branch_id h" using lim_le [OF onb] lt by simp
  then obtain l where l: "lim (origins h) (current_branch_id h) bk = Some (Some l)"
    using onk lim_None_iff_eq by (metis option.exhaust)
  with k have "dk \<le> l" by (simp add: within_def)
  also have "l \<le> start (origins h) b"
    using lim_le_start_between [OF gen _ l onb lt] c by simp
  finally show "dk \<le> start (origins h) b" .
qed

definition forked :: "fork_history \<Rightarrow> nat \<Rightarrow> nat \<Rightarrow> fork_history" where
  "forked h b d = \<lparr>current_branch_id = Suc (length (origins h)),
     origins = origins h @ [\<lparr>parent_branch_id = b, fork_depth = d\<rparr>]\<rparr>"

lemma fork_forked:
  "length (origins h) + 1 < 2 ^ 32 \<Longrightarrow> fork t n h = Inr (forked h (branch_id t) (depth t))"
  by (simp add: fork_def narrow_count_def forked_def)

lemma fork_InrD: "fork t n h = Inr h' \<Longrightarrow> h' = forked h (branch_id t) (depth t)"
  by (auto simp: fork_def narrow_count_def forked_def Let_def split: if_splits)

lemma fork_wf_forked:
  assumes "fork_wf h" and "b \<le> length (origins h)" and "start (origins h) b \<le> d"
  shows "fork_wf (forked h b d)"
  using assms by (auto simp: fork_wf_def gen_wf_def forked_def start_append nth_append less_Suc_eq)

lemma tok_inv_tok:
  assumes "tok_inv h n bs st co" and "j < length bs"
  shows "fst (bs ! j) \<le> length (origins h)" and "start (origins h) (fst (bs ! j)) \<le> snd (bs ! j)"
  using assms by (auto simp: tok_inv_def)

lemma tok_inv_wf: "tok_inv h n bs st co \<Longrightarrow> fork_wf h"
  by (simp add: tok_inv_def)

text \<open>The walk of an issued token after token \<open>(bk, dk)\<close> was restored.\<close>

lemma lim_restored:
  assumes inv: "tok_inv h n bs st co" and ok: "within dk (lim (origins h) (current_branch_id h) bk) n"
    and j: "j < length bs"
  shows "lim (origins (forked h bk dk)) (current_branch_id (forked h bk dk)) (fst (bs ! j)) =
    (if bk = fst (bs ! j) then Some (Some dk) else lim (origins h) bk (fst (bs ! j)))"
  using lim_forked restored_walk(3) [OF tok_inv_wf [OF inv] ok] tok_inv_tok(1) [OF inv j]
  by (simp add: forked_def)

lemma restored_live:
  assumes inv: "tok_inv h n bs st co" and ok: "within dk (lim (origins h) (current_branch_id h) bk) n"
    and dn: "dk < n" and j: "j \<in> set (take dk st)"
  shows "\<exists>l. lim (origins (forked h bk dk)) (current_branch_id (forked h bk dk)) (fst (bs ! j)) = Some (Some l) \<and>
    snd (bs ! j) < l"
proof -
  let ?os = "origins h" and ?c = "current_branch_id h"
  note wf = tok_inv_wf [OF inv]
  note walk = restored_walk [OF wf ok]
  have js: "j \<in> set st" using j by (rule in_set_takeD)
  have dj: "snd (bs ! j) < dk"
    using j dn inv by (auto simp: in_set_conv_nth tok_inv_def)
  have jl: "j < length bs" by (rule tok_inv_stack(1) [OF inv js])
  have onj: "lim ?os ?c (fst (bs ! j)) \<noteq> None"
    by (rule within_on_path [OF tok_inv_live [OF inv js]])
  have le: "fst (bs ! j) \<le> bk"
    using walk(2) [OF onj] tok_inv_tok(2) [OF inv jl] dj by force
  have "lim ?os bk (fst (bs ! j)) \<noteq> None" using walk(4) [OF onj le] .
  moreover have "fst (bs ! j) \<noteq> bk \<Longrightarrow> fst (bs ! j) \<noteq> ?c"
    using le walk(3) wf by (simp add: fork_wf_def)
  ultimately show ?thesis
    using lim_restored [OF inv ok jl] walk(1) [of "fst (bs ! j)"] dj inv js by (auto simp: tok_inv_def)
qed

text \<open>A token whose frame is popped by the restore is rejected from then on.\<close>

lemma restored_dead_popped:
  assumes inv: "tok_inv h n bs st co" and k: "k < length bs" "bs ! k = (bk, dk)"
    and ok: "within dk (lim (origins h) (current_branch_id h) bk) n"
    and j: "j \<in> set st" "j \<notin> set (take dk st)" "j \<noteq> k"
  shows "\<not> within (snd (bs ! j)) (lim (origins (forked h bk dk)) (current_branch_id (forked h bk dk)) (fst (bs ! j))) dk"
proof -
  let ?os = "origins h" and ?c = "current_branch_id h"
  note wf = tok_inv_wf [OF inv]
  note jl = tok_inv_stack(1) [OF inv j(1)]
  have ge: "dk \<le> snd (bs ! j)"
  proof (rule ccontr)
    assume "\<not> dk \<le> snd (bs ! j)"
    moreover have "length st = n" using inv by (simp add: tok_inv_def)
    ultimately have "take dk st ! snd (bs ! j) = j" and "snd (bs ! j) < length (take dk st)"
      using tok_inv_stack(2,3) [OF inv j(1)] by simp_all
    then show False using j(2) nth_mem by metis
  qed
  consider (same) "fst (bs ! j) = bk" | (off) "fst (bs ! j) \<noteq> bk" "lim ?os bk (fst (bs ! j)) = None"
    | (below) "fst (bs ! j) \<noteq> bk" "lim ?os bk (fst (bs ! j)) \<noteq> None" by blast
  then show ?thesis
  proof cases
    case same
    have "distinct bs" using inv by (simp add: tok_inv_def)
    then have "bs ! j \<noteq> bs ! k" using jl k(1) j(3) by (simp add: nth_eq_iff_index_eq)
    then have "snd (bs ! j) \<noteq> dk" using same k by (auto simp: prod_eq_iff)
    with ge same lim_restored [OF inv ok jl] show ?thesis by (simp add: within_def)
  next
    case off
    with lim_restored [OF inv ok jl] show ?thesis by (simp add: within_def)
  next
    case below
    then have lt: "fst (bs ! j) < bk" using lim_le [of ?os bk "fst (bs ! j)"] by simp
    then have "fst (bs ! j) \<noteq> ?c" using restored_walk(3) [OF wf ok] wf by (simp add: fork_wf_def)
    then obtain l where l: "lim ?os ?c (fst (bs ! j)) = Some (Some l)" "snd (bs ! j) < l"
      using inv j(1) by (auto simp: tok_inv_def)
    have "l \<le> start ?os bk"
      using lim_le_start_between [OF fork_wf_gen [OF wf] _ l(1) within_on_path [OF ok] lt] wf
      by (simp add: fork_wf_def)
    also have "\<dots> \<le> dk" using tok_inv_tok(2) [OF inv k(1)] k(2) by simp
    finally show ?thesis using l(2) ge by simp
  qed
qed

text \<open>A token of an abandoned future stays rejected.\<close>

lemma restored_dead_old:
  assumes inv: "tok_inv h n bs st co" and ok: "within dk (lim (origins h) (current_branch_id h) bk) n"
    and j: "j < length bs" "j \<notin> set st" "j \<notin> co"
  shows "\<not> within (snd (bs ! j)) (lim (origins (forked h bk dk)) (current_branch_id (forked h bk dk)) (fst (bs ! j))) dk"
proof -
  let ?os = "origins h" and ?c = "current_branch_id h"
  note lim' = lim_restored [OF inv ok j(1)]
  note nv = tok_inv_dead [OF inv j]
  have nc: "fst (bs ! j) \<noteq> ?c" using inv j by (auto simp: tok_inv_def)
  consider (same) "fst (bs ! j) = bk" | (off) "fst (bs ! j) \<noteq> bk" "lim ?os bk (fst (bs ! j)) = None"
    | (below) "fst (bs ! j) \<noteq> bk" "lim ?os bk (fst (bs ! j)) \<noteq> None" by blast
  then show ?thesis
  proof cases
    case same
    then obtain l where "lim ?os ?c bk = Some (Some l)" "dk \<le> l"
      using ok nc lim_None_iff_eq [of ?os ?c bk] by (auto simp: within_def split: option.splits)
    with same nv lim' show ?thesis by (simp add: within_def)
  next
    case off
    with lim' show ?thesis by (simp add: within_def)
  next
    case below
    then have "lim ?os bk (fst (bs ! j)) = lim ?os ?c (fst (bs ! j))"
      using restored_walk(1) [OF tok_inv_wf [OF inv] ok] by simp
    with nv below lim' nc lim_None_iff_eq [of ?os ?c] show ?thesis
      by (auto simp: within_def split: option.splits)
  qed
qed

lemma tok_inv_restore:
  assumes inv: "tok_inv h n bs st co" and k: "k < length bs" and bk: "bs ! k = (bk, dk)"
    and ok: "within dk (lim (origins h) (current_branch_id h) bk) n" and dn: "dk < n"
  shows "tok_inv (forked h bk dk) dk bs (take dk st) (insert k co)"
  unfolding tok_inv_def
proof (intro conjI)
  let ?h = "forked h bk dk"
  show "fork_wf ?h"
    using fork_wf_forked [OF tok_inv_wf [OF inv] restored_walk(3) [OF tok_inv_wf [OF inv] ok]]
      tok_inv_tok(2) [OF inv k] bk by simp
  show "start (origins ?h) (current_branch_id ?h) \<le> dk" by (simp add: forked_def start_def)
  show "\<forall>j<length bs. fst (bs ! j) \<le> length (origins ?h) \<and> start (origins ?h) (fst (bs ! j)) \<le> snd (bs ! j)"
    using tok_inv_tok [OF inv] by (auto simp: forked_def start_append le_SucI)
  show "\<forall>j<length bs. fst (bs ! j) = current_branch_id ?h \<longrightarrow> j \<in> set (take dk st)"
    using tok_inv_tok(1) [OF inv] by (fastforce simp: forked_def)
  show "\<forall>j<length bs. j \<notin> set (take dk st) \<longrightarrow> j \<notin> insert k co \<longrightarrow>
      \<not> within (snd (bs ! j)) (lim (origins ?h) (current_branch_id ?h) (fst (bs ! j))) dk"
  proof (intro allI impI)
    fix j assume "j < length bs" "j \<notin> set (take dk st)" "j \<notin> insert k co"
    then show "\<not> within (snd (bs ! j)) (lim (origins ?h) (current_branch_id ?h) (fst (bs ! j))) dk"
      using restored_dead_popped [OF inv k bk ok, of j] restored_dead_old [OF inv ok, of j] by (cases "j \<in> set st") simp_all
  qed
qed (use inv dn restored_live [OF inv ok dn] in \<open>auto simp: tok_inv_def\<close>)

section \<open>Sessions: everything a program can do with one container\<close>

text \<open>
  A session starts with a fresh container, changes it by any successful update, takes marks, and
  restores any token it was ever given.  \<open>issued\<close> records each token with the contents at its mark,
  \<open>st\<close> the owner of each frame, \<open>co\<close> the tokens already restored.
\<close>

inductive session ::
  "('c \<Rightarrow> bool) \<Rightarrow> ('c \<Rightarrow> 'c \<Rightarrow> bool) \<Rightarrow> ('m \<Rightarrow> 'c \<Rightarrow> ('k \<times> 'c) res) \<Rightarrow> ('k \<Rightarrow> 'c \<Rightarrow> 'c res) \<Rightarrow>
   ('c \<Rightarrow> 'a) \<Rightarrow> ('k \<Rightarrow> nat) \<Rightarrow> 'c \<Rightarrow> ('k \<times> 'a) list \<Rightarrow> nat list \<Rightarrow> nat set \<Rightarrow> bool"
  for fresh upd mk rst view dp where
  fresh: "fresh c \<Longrightarrow> session fresh upd mk rst view dp c [] [] {}"
| update: "session fresh upd mk rst view dp c issued st co \<Longrightarrow> upd c c' \<Longrightarrow>
     session fresh upd mk rst view dp c' issued st co"
| mark: "session fresh upd mk rst view dp c issued st co \<Longrightarrow> mk m c = Inr (t, c') \<Longrightarrow>
     session fresh upd mk rst view dp c' (issued @ [(t, view c)]) (st @ [length issued]) co"
| restore: "session fresh upd mk rst view dp c issued st co \<Longrightarrow> k < length issued \<Longrightarrow>
     rst (fst (issued ! k)) c = Inr c' \<Longrightarrow>
     session fresh upd mk rst view dp c' issued (take (dp (fst (issued ! k))) st) (insert k co)"

text \<open>
  The interface of a checkpointed container.  \<open>rel c snaps\<close> is its representation invariant, with
  \<open>snaps\<close> the contents at the open marks, bottom first; \<open>good c t\<close> says that \<open>t\<close> was issued by \<open>c\<close>;
  \<open>br\<close> and \<open>dp\<close> read branch and depth off a token.
\<close>

locale checkpointed =
  fixes fresh :: "'c \<Rightarrow> bool"
    and upd :: "'c \<Rightarrow> 'c \<Rightarrow> bool"
    and mk :: "'m \<Rightarrow> 'c \<Rightarrow> ('k \<times> 'c) res"
    and rst :: "'k \<Rightarrow> 'c \<Rightarrow> 'c res"
    and view :: "'c \<Rightarrow> 'a"
    and br :: "'k \<Rightarrow> nat"
    and dp :: "'k \<Rightarrow> nat"
    and forks :: "'c \<Rightarrow> fork_history"
    and rel :: "'c \<Rightarrow> 'a list \<Rightarrow> bool"
    and good :: "'c \<Rightarrow> 'k \<Rightarrow> bool"
  assumes fresh_rel: "fresh c \<Longrightarrow> rel c [] \<and> forks c = fork_history_new"
    and upd_rel: "rel c snaps \<Longrightarrow> upd c c' \<Longrightarrow> rel c' snaps \<and> forks c' = forks c"
    and upd_good: "upd c c' \<Longrightarrow> good c t \<Longrightarrow> good c' t"
    and mk_rel: "rel c snaps \<Longrightarrow> mk m c = Inr (t, c') \<Longrightarrow>
        rel c' (snaps @ [view c]) \<and> forks c' = forks c \<and> good c' t \<and>
        br t = current_branch_id (forks c) \<and> dp t = length snaps"
    and mk_good: "mk m c = Inr (t', c') \<Longrightarrow> good c t \<Longrightarrow> good c' t"
    and rst_rel: "rel c snaps \<Longrightarrow> fork_wf (forks c) \<Longrightarrow> good c t \<Longrightarrow> rst t c = Inr c' \<Longrightarrow>
        dp t < length snaps \<and> within (dp t) (lim (origins (forks c)) (current_branch_id (forks c)) (br t)) (length snaps) \<and>
        view c' = snaps ! dp t \<and> rel c' (take (dp t) snaps) \<and> forks c' = forked (forks c) (br t) (dp t)"
    and rst_good: "rst t' c = Inr c' \<Longrightarrow> good c t \<Longrightarrow> good c' t"
    and rst_ok: "rel c snaps \<Longrightarrow> fork_wf (forks c) \<Longrightarrow> good c t \<Longrightarrow> dp t < length snaps \<Longrightarrow>
        within (dp t) (lim (origins (forks c)) (current_branch_id (forks c)) (br t)) (length snaps) \<Longrightarrow>
        length snaps < 2 ^ 32 \<Longrightarrow> length (origins (forks c)) + 1 < 2 ^ 32 \<Longrightarrow> \<exists>c'. rst t c = Inr c'"
begin

abbreviation "sess \<equiv> session fresh upd mk rst view dp"

lemma session_inv:
  "sess c issued st co \<Longrightarrow>
    rel c (map (\<lambda>k. snd (issued ! k)) st) \<and> (\<forall>(t, a) \<in> set issued. good c t) \<and>
    tok_inv (forks c) (length st) (map (\<lambda>(t, a). (br t, dp t)) issued) st co"
proof (induction rule: session.induct)
  case (fresh c)
  then show ?case
    using fresh_rel [of c] tok_inv_start [OF fork_wf_new] by (simp add: fork_history_new_def)
next
  case (update c issued st co c')
  then show ?case using upd_rel upd_good by fastforce
next
  case (mark c issued st co m t c')
  let ?bs = "map (\<lambda>(t, a). (br t, dp t)) issued"
  have IH: "rel c (map (\<lambda>k. snd (issued ! k)) st)" "tok_inv (forks c) (length st) ?bs st co"
    using mark.IH by auto
  note m = mk_rel [OF IH(1) mark.hyps(2)]
  have lt: "k < length issued" if "k \<in> set st" for k
    using tok_inv_stack(1) [OF IH(2) that] by simp
  have "map (\<lambda>k. snd ((issued @ [(t, view c)]) ! k)) st = map (\<lambda>k. snd (issued ! k)) st"
    using lt by (intro map_cong) (auto simp: nth_append)
  then have "rel c' (map (\<lambda>k. snd ((issued @ [(t, view c)]) ! k)) (st @ [length issued]))"
    using m by (simp del: map_eq_conv)
  moreover have "tok_inv (forks c) (Suc (length st)) (?bs @ [(current_branch_id (forks c), length st)])
      (st @ [length ?bs]) co"
    using tok_inv_mark [OF IH(2)] .
  ultimately show ?case
    using m mark.IH mk_good [OF mark.hyps(2)] by auto
next
  case (restore c issued st co k c')
  let ?bs = "map (\<lambda>(t, a). (br t, dp t)) issued" and ?t = "fst (issued ! k)"
  have IH: "rel c (map (\<lambda>k. snd (issued ! k)) st)" "tok_inv (forks c) (length st) ?bs st co"
    using restore.IH by auto
  have wf: "fork_wf (forks c)" using IH(2) by (simp add: tok_inv_def)
  have g: "good c ?t" using restore.IH restore.hyps(2) nth_mem [OF restore.hyps(2)]
    by (auto simp: case_prod_beta)
  note r = rst_rel [OF IH(1) wf g restore.hyps(3)]
  have "tok_inv (forked (forks c) (br ?t) (dp ?t)) (dp ?t) ?bs (take (dp ?t) st) (insert k co)"
    using restore.hyps(2) r by (intro tok_inv_restore [OF IH(2)]) (auto simp: case_prod_beta)
  moreover have "length (take (dp ?t) st) = dp ?t" using r by simp
  ultimately show ?case
    using r restore.IH rst_good [OF restore.hyps(3)] by (auto simp: take_map)
qed

text \<open>A live token restores the contents at its mark, whatever happened since.\<close>

lemma live_token_restores:
  assumes s: "sess c issued st co" and k: "k \<in> set st"
    and sz: "length st < 2 ^ 32" "length (origins (forks c)) + 1 < 2 ^ 32"
  shows "\<exists>c'. rst (fst (issued ! k)) c = Inr c' \<and> view c' = snd (issued ! k)"
proof -
  let ?bs = "map (\<lambda>(t, a). (br t, dp t)) issued" and ?t = "fst (issued ! k)"
  note I = session_inv [OF s]
  have inv: "tok_inv (forks c) (length st) ?bs st co" and rel: "rel c (map (\<lambda>k. snd (issued ! k)) st)"
    using I by auto
  note stk = tok_inv_stack [OF inv k]
  have kl: "k < length issued" using stk(1) by simp
  have b: "?bs ! k = (br ?t, dp ?t)" using kl by (simp add: case_prod_beta)
  have wf: "fork_wf (forks c)" using inv by (simp add: tok_inv_def)
  have g: "good c ?t" using I nth_mem [OF kl] by (auto simp: case_prod_beta)
  have lt: "dp ?t < length st" and own: "st ! dp ?t = k" using stk b by simp_all
  have w: "within (dp ?t) (lim (origins (forks c)) (current_branch_id (forks c)) (br ?t)) (length st)"
    using tok_inv_live [OF inv k] b by simp
  obtain c' where c': "rst ?t c = Inr c'"
    using rst_ok [OF rel wf g] lt w sz by auto
  have "view c' = map (\<lambda>k. snd (issued ! k)) st ! dp ?t"
    using rst_rel [OF rel wf g c'] by simp
  then show ?thesis using c' lt own by simp
qed

text \<open>
  An issued token that \<open>restore\<close> accepts is live, unless it was itself restored before; then \<open>restore\<close>
  gives back the contents at its mark.
\<close>

lemma accepted_token_live:
  assumes s: "sess c issued st co" and k: "k < length issued" "k \<notin> co"
    and r: "rst (fst (issued ! k)) c = Inr c'"
  shows "k \<in> set st \<and> view c' = snd (issued ! k)"
proof -
  let ?bs = "map (\<lambda>(t, a). (br t, dp t)) issued" and ?t = "fst (issued ! k)"
  note I = session_inv [OF s]
  have inv: "tok_inv (forks c) (length st) ?bs st co" and rel: "rel c (map (\<lambda>k. snd (issued ! k)) st)"
    using I by auto
  have b: "?bs ! k = (br ?t, dp ?t)" using k by (simp add: case_prod_beta)
  have wf: "fork_wf (forks c)" using inv by (simp add: tok_inv_def)
  have g: "good c ?t" using I nth_mem [OF k(1)] by (auto simp: case_prod_beta)
  note a = rst_rel [OF rel wf g r]
  have st: "k \<in> set st"
    using tok_inv_dead [OF inv, of k] k b a by auto
  moreover have "st ! dp ?t = k" using tok_inv_stack(3) [OF inv st] b by simp
  ultimately show ?thesis using a by simp
qed

lemma upds_rel: "upd\<^sup>*\<^sup>* c c' \<Longrightarrow> rel c snaps \<Longrightarrow> rel c' snaps \<and> forks c' = forks c"
  by (induction rule: rtranclp_induct) (use upd_rel in force)+

lemma upds_good: "upd\<^sup>*\<^sup>* c c' \<Longrightarrow> good c t \<Longrightarrow> good c' t"
  by (induction rule: rtranclp_induct) (use upd_good in blast)+

text \<open>
  A restored token is accepted again as soon as a new mark has taken its depth, and then gives back the contents at the
  new mark.
\<close>

lemma restored_token_accepted_again:
  assumes s: "sess c issued st co" and k: "k < length issued" and r: "rst (fst (issued ! k)) c = Inr c1"
    and u: "upd\<^sup>*\<^sup>* c1 c2" and m: "mk m c2 = Inr (t', c3)" and u': "upd\<^sup>*\<^sup>* c3 c4"
    and sz: "length st < 2 ^ 32" "length (origins (forks c)) + 2 < 2 ^ 32"
  shows "\<exists>c5. rst (fst (issued ! k)) c4 = Inr c5 \<and> view c5 = view c2"
proof -
  let ?t = "fst (issued ! k)"
  note I = session_inv [OF s]
  have rel: "rel c (map (\<lambda>k. snd (issued ! k)) st)" and wf: "fork_wf (forks c)" using I by (auto simp: tok_inv_def)
  have g: "good c ?t" using I nth_mem [OF k] by (auto simp: case_prod_beta)
  let ?snaps = "take (dp ?t) (map (\<lambda>k. snd (issued ! k)) st)" and ?h = "forked (forks c) (br ?t) (dp ?t)"
  have a: "dp ?t < length st" "rel c1 ?snaps" "forks c1 = ?h"
    "within (dp ?t) (lim (origins (forks c)) (current_branch_id (forks c)) (br ?t)) (length st)"
    using rst_rel [OF rel wf g r] by simp_all
  have "rel c2 ?snaps" "forks c2 = ?h" using upds_rel [OF u a(2)] a(3) by simp_all
  with mk_rel [OF this(1) m] have "rel c3 (?snaps @ [view c2])" "forks c3 = ?h" by simp_all
  with upds_rel [OF u' this(1)] have c4: "rel c4 (?snaps @ [view c2])" "forks c4 = ?h" by simp_all
  have g4: "good c4 ?t" using upds_good [OF u' mk_good [OF m upds_good [OF u rst_good [OF r g]]]] .
  have wf4: "fork_wf (forks c4)"
    using session_inv [OF session.restore [OF s k r]] a(3) c4(2) by (auto simp: tok_inv_def)
  have "lim (origins ?h) (current_branch_id ?h) (br ?t) = Some (Some (dp ?t))"
    using lim_forked [of "br ?t" "origins (forks c)" "br ?t"] restored_walk(3) [OF wf a(4)] by (simp add: forked_def)
  then have w: "within (dp ?t) (lim (origins (forks c4)) (current_branch_id (forks c4)) (br ?t)) (length (?snaps @ [view c2]))"
    unfolding c4(2) by (simp add: within_def)
  obtain c5 where c5: "rst ?t c4 = Inr c5"
    using rst_ok [OF c4(1) wf4 g4 _ w] a(1) sz c4(2) by (auto simp: forked_def)
  have "view c5 = (?snaps @ [view c2]) ! dp ?t" using rst_rel [OF c4(1) wf4 g4 c5] by blast
  then show ?thesis using c5 a(1) by (simp add: nth_append)
qed

end

section \<open>Properties\<close>

lemma container_ids_nth: "i < n \<Longrightarrow> container_ids n c ! i = c + of_nat i"
  by (induction n arbitrary: c i) (auto simp: container_id_new_def nth_Cons split: nat.splits)

lemma length_container_ids [simp]: "length (container_ids n c) = n"
  by (induction n arbitrary: c) (simp_all add: container_id_new_def)

lemma of_nat_word32_inj:
  assumes "i < 2 ^ 32" and "j < 2 ^ 32" and "(of_nat i :: 32 word) = of_nat j"
  shows "i = j"
proof -
  have "unat (of_nat i :: 32 word) = unat (of_nat j :: 32 word)" using assms(3) by simp
  then show ?thesis using assms(1,2) by (simp add: unsigned_of_nat take_bit_nat_eq_self)
qed

text \<open>
  C34: container identities are unique for the first \<open>2 ^ 32\<close> containers of a process and repeat from
  then on, because the counter wraps.
\<close>

theorem container_ids_unique_until_wrap:
  assumes "n \<le> 2 ^ 32"
  shows "distinct (container_ids n c) \<and> container_ids (2 ^ 32 + 1) c ! (2 ^ 32) = container_ids (2 ^ 32 + 1) c ! 0"
proof
  show "distinct (container_ids n c)"
    unfolding distinct_conv_nth
  proof (intro allI impI)
    fix i j assume "i < length (container_ids n c)" "j < length (container_ids n c)" "i \<noteq> j"
    with assms of_nat_word32_inj [of i j] show "container_ids n c ! i \<noteq> container_ids n c ! j"
      by (auto simp: container_ids_nth)
  qed
  have "(of_nat (2 ^ 32) :: 32 word) = 0" by simp
  then show "container_ids (2 ^ 32 + 1) c ! (2 ^ 32) = container_ids (2 ^ 32 + 1) c ! 0"
    by (subst (1 2) container_ids_nth) simp_all
qed

theorem container_ids_unique_until_wrap_witness: "distinct (container_ids 5 7)"
  using container_ids_unique_until_wrap [of 5 7] by simp

end
