(* ===== verification/Semi_Vec.thy ===== *)
theory Semi_Vec
  imports Diff_Store Token
begin

text \<open>
  The semi-persistent vector: \<open>containers/src/vec.rs\<close>.  A vector is a store, a diff log of
  overwritten values, a stack of frames and a fork history; \<open>mark\<close> opens a frame in the log and
  \<open>restore\<close> replays the log backwards.  The configuration record carries the type parameters
  \<open>S\<close>, \<open>TRACK\<close> and \<open>I\<close>.  The invariant \<open>vec_rel\<close> relates a vector to the contents at its open
  marks; the locale \<open>semi_vec\<close> proves the operations against the \<open>diff_store\<close> contract, so each
  fact holds for both storage backends.
\<close>

section \<open>The operations\<close>

datatype shrink_policy = Never | IfOverallocated nat nat

text \<open>
  A policy together with the capacities that the allocator reports for the store's buffer before and
  after reclamation.
\<close>

type_synonym shrink = "shrink_policy \<times> nat \<times> nat"

record ('s, 't) vec_cfg =
  vc_ops :: "('s, 't) store_ops"
  vc_track :: bool
  vc_imax :: nat

text \<open>\<open>VecP\<close> and \<open>VecI\<close>: the two storage layouts.\<close>

definition vecp_cfg :: "bool \<Rightarrow> nat \<Rightarrow> 't \<Rightarrow> ('t parallel_store, 't) vec_cfg" where
  "vecp_cfg track imax d = \<lparr>vc_ops = parallel_ops track imax d, vc_track = track, vc_imax = imax\<rparr>"

definition veci_cfg :: "('t, 'r) tagged_ops \<Rightarrow> bool \<Rightarrow> nat \<Rightarrow> ('r inline_store, 't) vec_cfg" where
  "veci_cfg T track imax = \<lparr>vc_ops = inline_ops T track imax, vc_track = track, vc_imax = imax\<rparr>"

record ('s, 't) vec =
  v_store :: 's
  v_log :: "'t log"
  v_frames :: "frame list"
  v_active :: nat
  v_forks :: fork_history
  v_id :: "32 word"

definition slice_from :: "'a list \<Rightarrow> nat \<Rightarrow> 'a list res" where
  "slice_from xs n = (if n \<le> length xs then Inr (drop n xs) else Inl IndexOutOfBounds)"

text \<open>The constructor draws the container identity from the process-wide counter.\<close>

definition vec_with_store :: "'s \<Rightarrow> 32 word \<Rightarrow> ('s, 't) vec \<times> 32 word" where
  "vec_with_store s counter =
    (let (i, counter') = container_id_new counter
     in (\<lparr>v_store = s, v_log = [], v_frames = [], v_active = 0, v_forks = fork_history_new, v_id = i\<rparr>, counter'))"

definition vecp_new :: "32 word \<Rightarrow> ('t parallel_store, 't) vec \<times> 32 word" where
  "vecp_new counter = vec_with_store ps_new counter"

definition veci_new :: "32 word \<Rightarrow> ('r inline_store, 't) vec \<times> 32 word" where
  "veci_new counter = vec_with_store is_new counter"

definition vec_len :: "('s, 't) vec_cfg \<Rightarrow> ('s, 't) vec \<Rightarrow> nat res" where
  "vec_len C v = so_len (vc_ops C) (v_store v)"

text \<open>
  Fuel for a loop whose states are positions of a vector: one more than there are positions that an
  access can pass (an access beyond the index word is not expressible).
\<close>

definition vec_fuel :: "('s, 't) vec_cfg \<Rightarrow> ('s, 't) vec \<Rightarrow> nat" where
  "vec_fuel C v = Suc (Suc (case vec_len C v of Inr n \<Rightarrow> n | Inl _ \<Rightarrow> vc_imax C))"

definition vec_is_empty :: "('s, 't) vec_cfg \<Rightarrow> ('s, 't) vec \<Rightarrow> bool res" where
  "vec_is_empty C v = rbind (so_len (vc_ops C) (v_store v)) (\<lambda>n. Inr (n = 0))"

definition vec_push :: "('s, 't) vec_cfg \<Rightarrow> 't \<Rightarrow> ('s, 't) vec \<Rightarrow> ('s, 't) vec res" where
  "vec_push C x v =
    rbind (so_len (vc_ops C) (v_store v)) (\<lambda>old_len.
    let s = so_push (vc_ops C) x (v_store v);
        reentered = (vc_track C \<and> v_frames v \<noteq> [] \<and> old_len < v_active v)
    in if reentered
       then rbind (so_mark_captured (vc_ops C) old_len s) (\<lambda>s'. Inr (v\<lparr>v_store := s'\<rparr>))
       else Inr (v\<lparr>v_store := s\<rparr>))"

text \<open>The conditional first-write-wins capture shared by \<open>pop\<close> and \<open>set\<close>.\<close>

definition vec_capture :: "('s, 't) vec_cfg \<Rightarrow> nat \<Rightarrow> ('s, 't) vec \<Rightarrow> ('s, 't) vec res" where
  "vec_capture C i v =
    (if vc_track C \<and> v_frames v \<noteq> []
     then rbind (so_capture (vc_ops C) i (v_active v) (v_log v) (v_store v))
       (\<lambda>(s, l). Inr (v\<lparr>v_store := s, v_log := l\<rparr>))
     else Inr v)"

definition vec_pop :: "('s, 't) vec_cfg \<Rightarrow> ('s, 't) vec \<Rightarrow> ('t option \<times> ('s, 't) vec) res" where
  "vec_pop C v =
    rbind (vec_is_empty C v) (\<lambda>e.
    if e then Inr (None, v)
    else rbind (so_len (vc_ops C) (v_store v)) (\<lambda>n.
      rbind (expect Underflow (idx_try (vc_imax C) (n - 1))) (\<lambda>i.
      rbind (so_get (vc_ops C) i (v_store v)) (\<lambda>value.
      rbind (vec_capture C i v) (\<lambda>v1.
      Inr (Some value, v1\<lparr>v_store := snd (so_pop (vc_ops C) (v_store v1))\<rparr>))))))"

definition vec_set :: "('s, 't) vec_cfg \<Rightarrow> nat \<Rightarrow> 't \<Rightarrow> ('s, 't) vec \<Rightarrow> ('s, 't) vec res" where
  "vec_set C i x v =
    rbind (so_len (vc_ops C) (v_store v)) (\<lambda>n.
    rbind (rassert (i < n) IndexOutOfBounds) (\<lambda>_.
    rbind (vec_capture C i v) (\<lambda>v1.
    rbind (so_set_raw (vc_ops C) i x (v_store v1)) (\<lambda>s. Inr (v1\<lparr>v_store := s\<rparr>)))))"

definition vec_get :: "('s, 't) vec_cfg \<Rightarrow> nat \<Rightarrow> ('s, 't) vec \<Rightarrow> 't res" where
  "vec_get C i v = so_get (vc_ops C) i (v_store v)"

definition vec_as_slice :: "('s, 't) vec_cfg \<Rightarrow> ('s, 't) vec \<Rightarrow> 't list option" where
  "vec_as_slice C v = so_as_slice (vc_ops C) (v_store v)"

text \<open>Reclaiming the capacity of the diff log does not change its contents.\<close>

definition vec_maybe_shrink :: "('s, 't) vec_cfg \<Rightarrow> shrink \<Rightarrow> ('s, 't) vec \<Rightarrow> ('s, 't) vec" where
  "vec_maybe_shrink C sh v = (case sh of
      (Never, _) \<Rightarrow> v
    | (IfOverallocated factor headroom, caps) \<Rightarrow>
        v\<lparr>v_store := so_shrink_if (vc_ops C) caps factor headroom (v_store v)\<rparr>)"

definition vec_mark :: "('s, 't) vec_cfg \<Rightarrow> shrink \<Rightarrow> ('s, 't) vec \<Rightarrow> (vec_token \<times> ('s, 't) vec) res" where
  "vec_mark C sh v0 =
    rbind (rassert (vc_track C) Untracked) (\<lambda>_.
    let v = vec_maybe_shrink C sh v0 in
    rbind (so_len (vc_ops C) (v_store v)) (\<lambda>saved.
    let dstart = (if v_frames v = [] then 0 else diff_start (last (v_frames v))) in
    rbind (slice_from (v_log v) dstart) (\<lambda>prev.
    let s = so_prepare_mark (vc_ops C) saved prev (v_store v) in
    rbind (narrow_count (length (v_frames v))) (\<lambda>d.
    Inr (\<lparr>branch_id = current_branch (v_forks v), depth = d, frame_index = d, container_id = v_id v\<rparr>,
         v\<lparr>v_store := s, v_frames := v_frames v @ [\<lparr>saved_len = saved, diff_start = length (v_log v)\<rparr>],
           v_active := saved\<rparr>)))))"

definition vec_restore :: "('s, 't) vec_cfg \<Rightarrow> vec_token \<Rightarrow> ('s, 't) vec \<Rightarrow> ('s, 't) vec res" where
  "vec_restore C token v =
    rbind (rassert (vc_track C) Untracked) (\<lambda>_.
    rbind (rassert (container_id token = v_id v) WrongContainer) (\<lambda>_.
    rbind (narrow_count (length (v_frames v))) (\<lambda>d.
    rbind (is_valid (v_forks v) token d) (\<lambda>ok.
    rbind (rassert ok AbandonedFuture) (\<lambda>_.
    let target = frame_index token in
    rbind (rassert (target < length (v_frames v)) BeyondFrameStack) (\<lambda>_.
    rbind (nth_res (v_frames v) target) (\<lambda>f.
    let s1 = so_resize_default (vc_ops C) (saved_len f) (v_store v);
        s2 = foldr (\<lambda>(old, i) s. so_restore_entry (vc_ops C) i old (saved_len f) s) (drop (diff_start f) (v_log v)) s1;
        l = take (diff_start f) (v_log v);
        fs = take target (v_frames v);
        surviving_start = (if 0 < target then diff_start (fs ! (target - 1)) else 0);
        surviving_saved = (if 0 < target then saved_len (fs ! (target - 1)) else 0)
    in rbind (slice_from l surviving_start) (\<lambda>diffs.
    let s3 = so_finish_restore (vc_ops C) diffs surviving_saved s2;
        active = (if fs = [] then 0 else saved_len (last fs))
    in rbind (narrow_count (length fs)) (\<lambda>d'.
    rbind (fork token d' (v_forks v)) (\<lambda>h.
    Inr (v\<lparr>v_store := s3, v_log := l, v_frames := fs, v_active := active, v_forks := h\<rparr>)))))))))))"

definition vec_depth :: "('s, 't) vec \<Rightarrow> nat" where
  "vec_depth v = length (v_frames v)"

definition vec_is_valid_token :: "('s, 't) vec_cfg \<Rightarrow> vec_token \<Rightarrow> ('s, 't) vec \<Rightarrow> bool res" where
  "vec_is_valid_token C token v =
    (if vc_track C \<and> container_id token = v_id v
     then rbind (narrow_count (length (v_frames v))) (is_valid (v_forks v) token)
     else Inr False)"

definition vec_diff_log_len :: "('s, 't) vec \<Rightarrow> nat" where
  "vec_diff_log_len v = length (v_log v)"

text \<open>\<open>View\<close> and its iterator.\<close>

record 's vec_view =
  vw_store :: 's
  vw_len :: nat

definition vec_view_of :: "('s, 't) vec_cfg \<Rightarrow> ('s, 't) vec \<Rightarrow> 's vec_view res" where
  "vec_view_of C v = rbind (so_len (vc_ops C) (v_store v)) (\<lambda>n. Inr \<lparr>vw_store = v_store v, vw_len = n\<rparr>)"

definition view_get :: "('s, 't) vec_cfg \<Rightarrow> nat \<Rightarrow> 's vec_view \<Rightarrow> 't res" where
  "view_get C i w = so_get (vc_ops C) i (vw_store w)"

record 's view_iter =
  vi_store :: 's
  vi_pos :: nat
  vi_len :: nat

definition view_iter_of :: "'s vec_view \<Rightarrow> 's view_iter" where
  "view_iter_of w = \<lparr>vi_store = vw_store w, vi_pos = 0, vi_len = vw_len w\<rparr>"

definition view_next :: "('s, 't) vec_cfg \<Rightarrow> 's view_iter \<Rightarrow> ('t option \<times> 's view_iter) res" where
  "view_next C it =
    (if vi_len it \<le> vi_pos it then Inr (None, it)
     else rbind (expect LenOverflow (idx_try (vc_imax C) (vi_pos it))) (\<lambda>i.
       rbind (so_get (vc_ops C) i (vi_store it)) (\<lambda>x. Inr (Some x, it\<lparr>vi_pos := vi_pos it + 1\<rparr>))))"

text \<open>The \<open>for\<close> loop over a view: it calls \<open>next\<close> until it returns \<open>None\<close>.\<close>

function view_collect :: "('s, 't) vec_cfg \<Rightarrow> 's view_iter \<Rightarrow> 't list res" where
  "view_collect C it =
    (case view_next C it of
       Inl e \<Rightarrow> Inl e
     | Inr (None, _) \<Rightarrow> Inr []
     | Inr (Some x, it') \<Rightarrow> rbind (view_collect C it') (\<lambda>xs. Inr (x # xs)))"
  by pat_completeness auto
termination
  by (relation "measure (\<lambda>(C, it). vi_len it - vi_pos it)")
     (auto simp: view_next_def elim!: rbind_eq_InrE split: if_splits)

declare view_collect.simps [simp del]

section \<open>Undo segments\<close>

text \<open>
  \<open>undoes seg A B\<close>: the log segment \<open>seg\<close> leads from the contents \<open>B\<close> back to \<open>A\<close>.  Each cell of
  \<open>A\<close> is logged at most once, with its value in \<open>A\<close>; the cells not logged are unchanged in \<open>B\<close>.
\<close>

definition undoes :: "'t log \<Rightarrow> 't list \<Rightarrow> 't list \<Rightarrow> bool" where
  "undoes seg A B \<longleftrightarrow> distinct (map snd seg) \<and>
    (\<forall>(x, i) \<in> set seg. i < length A \<and> x = A ! i) \<and>
    (\<forall>i < length A. i \<notin> logged seg \<longrightarrow> i < length B \<and> B ! i = A ! i)"

lemma undoes_refl: "undoes [] A A"
  by (simp add: undoes_def)

lemma undoes_length: "undoes seg A B \<Longrightarrow> length seg \<le> length A"
proof -
  assume u: "undoes seg A B"
  then have "set (map snd seg) \<subseteq> {..<length A}" by (auto simp: undoes_def)
  then have "card (set (map snd seg)) \<le> card {..<length A}" by (intro card_mono) auto
  moreover have "card (set (map snd seg)) = length (map snd seg)"
    using u by (intro distinct_card) (simp add: undoes_def)
  ultimately show ?thesis by simp
qed

lemma undoes_append: "undoes seg A B \<Longrightarrow> undoes seg A (B @ [x])"
  by (auto simp: undoes_def nth_append)

lemma undoes_update:
  assumes "undoes seg A B" and "length A \<le> i \<or> i \<in> logged seg"
  shows "undoes seg A (B[i := x])"
  unfolding undoes_def
proof (intro conjI allI impI)
  fix j assume j: "j < length A" "j \<notin> logged seg"
  with assms have "j < length B" "B ! j = A ! j" "j \<noteq> i" by (auto simp: undoes_def)
  then show "j < length (B[i := x])" and "B[i := x] ! j = A ! j" by simp_all
qed (use assms in \<open>auto simp: undoes_def\<close>)

lemma undoes_butlast:
  assumes "undoes seg A B" and "length A \<le> length B - 1 \<or> length B - 1 \<in> logged seg"
  shows "undoes seg A (butlast B)"
  unfolding undoes_def
proof (intro conjI allI impI)
  fix i assume i: "i < length A" "i \<notin> logged seg"
  then have "i < length B" "B ! i = A ! i" using assms(1) by (auto simp: undoes_def)
  moreover have "i \<noteq> length B - 1" using assms(2) i by auto
  ultimately show "i < length (butlast B)" and "butlast B ! i = A ! i"
    by (auto simp: nth_butlast)
qed (use assms in \<open>auto simp: undoes_def\<close>)

lemma undoes_capture:
  assumes "undoes seg A B" and "i < length A" and "i \<notin> logged seg"
  shows "undoes (seg @ [(B ! i, i)]) A B"
  using assms by (auto simp: undoes_def logged_def)

text \<open>The backward replay on plain lists.\<close>

definition replay :: "nat \<Rightarrow> 't log \<Rightarrow> 't list \<Rightarrow> 't list" where
  "replay n l base = foldr (\<lambda>(x, i) ys. if i < n then ys[i := x] else ys) l base"

lemma length_replay [simp]: "length (replay n l base) = length base"
  by (induction l) (auto simp: replay_def)

lemma replay_append: "replay n (l @ l') base = replay n l (replay n l' base)"
  by (simp add: replay_def)

lemma nth_replay:
  assumes "distinct (map snd l)" and "i < n" and "i < length base"
  shows "replay n l base ! i = (case map_of (map (\<lambda>(x, j). (j, x)) l) i of None \<Rightarrow> base ! i | Some x \<Rightarrow> x)"
  using assms(1)
proof (induction l)
  case Nil
  then show ?case by (simp add: replay_def)
next
  case (Cons e l)
  obtain x j where e: "e = (x, j)" by (cases e)
  have "replay n (e # l) base = (if j < n then (replay n l base)[j := x] else replay n l base)"
    by (simp add: replay_def e)
  with Cons e assms(2,3) show ?case by (auto simp: nth_list_update)
qed

lemma replay_undoes:
  assumes u: "undoes seg A B" and n: "length base = n"
    and agree: "\<forall>i < n. i < length B \<longrightarrow> base ! i = B ! i"
  shows "\<forall>i < n. i < length A \<longrightarrow> replay n seg base ! i = A ! i"
proof (intro allI impI)
  fix i assume i: "i < n" "i < length A"
  have d: "distinct (map snd seg)" using u by (simp add: undoes_def)
  note r = nth_replay [OF d i(1), of base]
  show "replay n seg base ! i = A ! i"
  proof (cases "map_of (map (\<lambda>(x, j). (j, x)) seg) i")
    case None
    then have "i \<notin> logged seg" by (force simp: map_of_eq_None_iff logged_def)
    with u i have "i < length B" "B ! i = A ! i" by (auto simp: undoes_def)
    with None r n i agree show ?thesis by simp
  next
    case (Some x)
    then have "(x, i) \<in> set seg" by (auto dest!: map_of_SomeD)
    with u have "x = A ! i" by (auto simp: undoes_def)
    with Some r n i show ?thesis by simp
  qed
qed

text \<open>Replaying the segments above a mark reproduces the contents at that mark.\<close>

lemma replay_chain:
  assumes "length base = n" and "length segs = length snaps"
    and "\<forall>k < length snaps. undoes (segs ! k) (snaps ! k) ((snaps @ [cur]) ! Suc k)"
    and "\<forall>i < n. i < length cur \<longrightarrow> base ! i = cur ! i"
  shows "\<forall>i < n. i < length (hd (snaps @ [cur])) \<longrightarrow> replay n (concat segs) base ! i = hd (snaps @ [cur]) ! i"
  using assms(2,3)
proof (induction snaps arbitrary: segs)
  case Nil
  then show ?case using assms(4) by (simp add: replay_def)
next
  case (Cons a snaps)
  then obtain seg segs' where segs: "segs = seg # segs'" and len: "length segs' = length snaps"
    by (cases segs) auto
  have u: "undoes seg a (hd (snaps @ [cur]))"
    using Cons.prems(2) segs by (cases snaps) (auto dest: spec [of _ 0])
  have "\<forall>k < length snaps. undoes (segs' ! k) (snaps ! k) ((snaps @ [cur]) ! Suc k)"
    using Cons.prems(2) segs by (auto dest: spec [of _ "Suc _"])
  then have IH: "\<forall>i < n. i < length (hd (snaps @ [cur])) \<longrightarrow>
      replay n (concat segs') base ! i = hd (snaps @ [cur]) ! i"
    using Cons.IH [OF len] by blast
  show ?case
    using replay_undoes [OF u _ IH] assms(1) segs by (simp add: replay_append)
qed

section \<open>The invariant\<close>

text \<open>
  \<open>vec_rel\<close>: the log splits into one segment per frame, each undoing the changes between two
  consecutive snapshots; the frame records the length of its snapshot and where its segment starts;
  the capture flags are exactly the cells of the top segment.
\<close>

definition top_seg :: "'t log list \<Rightarrow> 't log" where
  "top_seg segs = (if segs = [] then [] else last segs)"

definition flags_ok :: "('s \<Rightarrow> nat \<Rightarrow> bool) \<Rightarrow> ('s \<Rightarrow> 't list) \<Rightarrow> 's \<Rightarrow> 't log \<Rightarrow> bool" where
  "flags_ok flag vals s seg \<longleftrightarrow>
    (\<forall>i. flag s i \<longrightarrow> i \<in> logged seg) \<and> (\<forall>i \<in> logged seg. i < length (vals s) \<longrightarrow> flag s i)"

definition vec_segs ::
  "('s, 't) vec_cfg \<Rightarrow> ('s \<Rightarrow> 't list) \<Rightarrow> ('s \<Rightarrow> nat \<Rightarrow> bool) \<Rightarrow> ('t \<Rightarrow> bool) \<Rightarrow> ('s, 't) vec \<Rightarrow> 't list list \<Rightarrow> 't log list \<Rightarrow> bool" where
  "vec_segs C vals flag okv v snaps segs \<longleftrightarrow>
    length segs = length snaps \<and> length (v_frames v) = length snaps \<and> v_log v = concat segs \<and>
    (snaps \<noteq> [] \<longrightarrow> vc_track C) \<and>
    (\<forall>k < length snaps. v_frames v ! k = \<lparr>saved_len = length (snaps ! k), diff_start = length (concat (take k segs))\<rparr>) \<and>
    (\<forall>k < length snaps. undoes (segs ! k) (snaps ! k) ((snaps @ [vals (v_store v)]) ! Suc k)) \<and>
    v_active v = (if snaps = [] then 0 else length (last snaps)) \<and>
    (vc_track C \<longrightarrow> flags_ok flag vals (v_store v) (top_seg segs)) \<and>
    (\<forall>(x, i) \<in> set (v_log v). okv x)"

definition vec_rel ::
  "('s, 't) vec_cfg \<Rightarrow> ('s \<Rightarrow> 't list) \<Rightarrow> ('s \<Rightarrow> nat \<Rightarrow> bool) \<Rightarrow> ('t \<Rightarrow> bool) \<Rightarrow> ('s, 't) vec \<Rightarrow> 't list list \<Rightarrow> bool" where
  "vec_rel C vals flag okv v snaps \<longleftrightarrow> (\<exists>segs. vec_segs C vals flag okv v snaps segs)"

text \<open>The contents of a vector.\<close>

abbreviation cont :: "('s \<Rightarrow> 't list) \<Rightarrow> ('s, 't) vec \<Rightarrow> 't list" where
  "cont vals v \<equiv> vals (v_store v)"

lemma vec_segs_chain:
  "vec_segs C vals flag okv v snaps segs \<Longrightarrow> k < length snaps \<Longrightarrow>
    undoes (segs ! k) (snaps ! k) ((snaps @ [cont vals v]) ! Suc k)"
  unfolding vec_segs_def by blast

lemma vec_segs_top:
  assumes "vec_segs C vals flag okv v snaps segs" and "snaps \<noteq> []"
  shows "undoes (top_seg segs) (last snaps) (cont vals v)"
    and "v_active v = length (last snaps)" and "segs \<noteq> []" and "vc_track C"
proof -
  obtain n where n: "length snaps = Suc n" using assms(2) by (cases snaps) auto
  have len: "length segs = Suc n" using assms(1) n by (simp add: vec_segs_def)
  have "undoes (segs ! n) (snaps ! n) ((snaps @ [cont vals v]) ! Suc n)"
    using assms(1) n by (simp add: vec_segs_def)
  moreover have "top_seg segs = segs ! n" and "last snaps = snaps ! n"
    using n len assms(2) by (auto simp: top_seg_def last_conv_nth)
  ultimately show "undoes (top_seg segs) (last snaps) (cont vals v)"
    using n by (simp add: nth_append)
qed (use assms in \<open>auto simp: vec_segs_def\<close>)

text \<open>Changing the store only: the lower segments do not see the current contents.\<close>

lemma vec_segs_store:
  assumes r: "vec_segs C vals flag okv v snaps segs"
    and u: "snaps \<noteq> [] \<Longrightarrow> undoes (top_seg segs) (last snaps) (vals s)"
    and f: "vc_track C \<Longrightarrow> flags_ok flag vals s (top_seg segs)"
  shows "vec_segs C vals flag okv (v\<lparr>v_store := s\<rparr>) snaps segs"
proof -
  have "undoes (segs ! k) (snaps ! k) ((snaps @ [vals s]) ! Suc k)" if k: "k < length snaps" for k
  proof (cases "Suc k < length snaps")
    case True
    then have "(snaps @ [vals s]) ! Suc k = (snaps @ [cont vals v]) ! Suc k" by (simp add: nth_append)
    then show ?thesis using vec_segs_chain [OF r k] by simp
  next
    case False
    with k have "Suc k = length snaps" by simp
    moreover have "segs \<noteq> []" and "snaps \<noteq> []" using r k by (auto simp: vec_segs_def)
    moreover have "segs ! k = top_seg segs" and "snaps ! k = last snaps"
      using calculation r by (simp_all add: top_seg_def last_nth_Suc [of _ k] vec_segs_def)
    ultimately show ?thesis using u by (simp add: nth_append)
  qed
  with r f show ?thesis by (auto simp: vec_segs_def)
qed

text \<open>Logging one more cell in the top segment.\<close>

lemma vec_segs_log:
  assumes r: "vec_segs C vals flag okv v snaps segs" and ne: "snaps \<noteq> []"
    and x: "okv (cont vals v ! i)" and i: "i < length (last snaps)" "i \<notin> logged (top_seg segs)"
    and s: "vals s = cont vals v" and f: "flags_ok flag vals s (top_seg segs @ [(cont vals v ! i, i)])"
  shows "vec_segs C vals flag okv (v\<lparr>v_store := s, v_log := v_log v @ [(cont vals v ! i, i)]\<rparr>) snaps
    (butlast segs @ [top_seg segs @ [(cont vals v ! i, i)]])"
proof -
  let ?e = "(cont vals v ! i, i)" and ?segs = "butlast segs @ [top_seg segs @ [(cont vals v ! i, i)]]"
  note top = vec_segs_top [OF r ne]
  have seg: "segs = butlast segs @ [top_seg segs]" using top(3) by (simp add: top_seg_def)
  have len: "length segs = length snaps" using r by (simp add: vec_segs_def)
  have lb: "length (butlast segs) = length snaps - 1" using len by simp
  have pre: "take k ?segs = take k segs" if "k < length snaps" for k
    using that lb by (subst (2) seg) simp
  have u: "undoes (top_seg segs @ [?e]) (last snaps) (cont vals v)"
    using undoes_capture [OF top(1) i] .
  have ch: "undoes (?segs ! k) (snaps ! k) ((snaps @ [vals s]) ! Suc k)" if k: "k < length snaps" for k
  proof (cases "Suc k < length snaps")
    case True
    then have "k < length (butlast segs)" using lb by simp
    then have "?segs ! k = segs ! k" by (simp add: nth_append nth_butlast)
    moreover have "(snaps @ [vals s]) ! Suc k = (snaps @ [cont vals v]) ! Suc k"
      using True by (simp add: nth_append)
    ultimately show ?thesis using vec_segs_chain [OF r k] by simp
  next
    case False
    with k have "length snaps = Suc k" by simp
    moreover have "?segs ! k = top_seg segs @ [?e]" and "snaps ! k = last snaps"
      using calculation lb ne by (simp_all add: nth_append last_nth_Suc [of _ k])
    ultimately show ?thesis using u s by (simp add: nth_append)
  qed
  have "concat segs = concat (butlast segs) @ top_seg segs" by (subst seg) simp
  then have "v_log v @ [?e] = concat ?segs" using r by (simp add: vec_segs_def)
  with r len pre ch ne x f show ?thesis by (auto simp: vec_segs_def top_seg_def)
qed

section \<open>The operations against the contract\<close>

lemma len_res_ok [simp]: "length xs \<le> imax \<Longrightarrow> len_res imax xs = Inr (length xs)"
  by (simp add: len_res_def idx_try_def)

lemma len_res_overflow [simp]: "imax < length xs \<Longrightarrow> len_res imax xs = Inl LenOverflow"
  by (simp add: len_res_def idx_try_def)

lemma undoes_logged: "undoes seg A B \<Longrightarrow> i \<in> logged seg \<Longrightarrow> i < length A"
  by (auto simp: undoes_def logged_def)

lemma undoes_gone: "undoes seg A B \<Longrightarrow> length B \<le> i \<Longrightarrow> i < length A \<Longrightarrow> i \<in> logged seg"
  by (auto simp: undoes_def)

lemma vec_segs_no_marks:
  "vec_segs C vals flag okv v [] segs \<longleftrightarrow>
    segs = [] \<and> v_frames v = [] \<and> v_log v = [] \<and> v_active v = 0 \<and> (vc_track C \<longrightarrow> (\<forall>i. \<not> flag (v_store v) i))"
  by (auto simp: vec_segs_def flags_ok_def top_seg_def)

lemma vec_segs_frames: "vec_segs C vals flag okv v snaps segs \<Longrightarrow> v_frames v = [] \<longleftrightarrow> snaps = []"
  by (auto simp: vec_segs_def)

text \<open>The store handed to \<open>with_store\<close> by the constructors has no flag set.\<close>

lemma vec_with_store_rel:
  "(\<And>i. \<not> flag s i) \<Longrightarrow> vec_rel C vals flag okv (fst (vec_with_store s counter)) []"
  by (simp add: vec_rel_def vec_segs_no_marks vec_with_store_def container_id_new_def Let_def)

locale semi_vec = diff_store "vc_ops C" vals flag stale dom "vc_imax C" "vc_track C" dflt
  for C :: "('s, 't) vec_cfg" and vals flag stale dom dflt
begin

abbreviation "segs_of \<equiv> vec_segs C vals flag dom"
abbreviation "rel \<equiv> vec_rel C vals flag dom"
abbreviation "kept v v' \<equiv> v_forks v' = v_forks v \<and> v_id v' = v_id v"

lemma vec_len_val: "vec_len C v = len_res (vc_imax C) (cont vals v)"
  by (simp add: vec_len_def len)

lemma vec_fuel_gt: "n \<le> length (cont vals v) \<Longrightarrow> length (cont vals v) \<le> vc_imax C \<Longrightarrow> n < vec_fuel C v"
  by (simp add: vec_fuel_def vec_len_val)

lemma vec_is_empty_val: "length (cont vals v) \<le> vc_imax C \<Longrightarrow> vec_is_empty C v = Inr (cont vals v = [])"
  by (simp add: vec_is_empty_def len)

lemma vec_get_val: "vec_get C i v = nth_res (cont vals v) i"
  by (simp add: vec_get_def get)

lemma push_overflow: "vc_imax C < length (cont vals v) \<Longrightarrow> vec_push C x v = Inl LenOverflow"
  by (simp add: vec_push_def len)

lemma push_segs:
  assumes r: "segs_of v snaps segs" and sz: "length (cont vals v) \<le> vc_imax C" and x: "dom x"
  shows "\<exists>s. vec_push C x v = Inr (v\<lparr>v_store := s\<rparr>) \<and> vals s = cont vals v @ [x] \<and>
    segs_of (v\<lparr>v_store := s\<rparr>) snaps segs"
proof -
  let ?n = "length (cont vals v)" and ?s = "so_push (vc_ops C) x (v_store v)"
  have v: "vals ?s = cont vals v @ [x]" using push_vals x by simp
  have u: "undoes (top_seg segs) (last snaps) (cont vals v @ [x])" if "snaps \<noteq> []"
    using vec_segs_top(1) [OF r that] by (rule undoes_append)
  show ?thesis
  proof (cases "vc_track C \<and> v_frames v \<noteq> [] \<and> ?n < v_active v")
    case True
    then have ne: "snaps \<noteq> []" using vec_segs_frames [OF r] by simp
    obtain s where s: "so_mark_captured (vc_ops C) ?n ?s = Inr s" "vals s = vals ?s"
        "\<forall>j. flag s j = (flag ?s j \<or> j = ?n)"
      using mark_captured [of ?n ?s] v True by auto
    have "?n \<in> logged (top_seg segs)"
      using undoes_gone [OF vec_segs_top(1) [OF r ne]] vec_segs_top(2) [OF r ne] True by simp
    then have "flags_ok flag vals s (top_seg segs)"
      using r True s v push_flag x by (auto simp: vec_segs_def flags_ok_def less_Suc_eq)
    then have "segs_of (v\<lparr>v_store := s\<rparr>) snaps segs"
      using vec_segs_store [OF r] u s v by simp
    moreover have "vec_push C x v = Inr (v\<lparr>v_store := s\<rparr>)"
      using s True sz by (simp add: vec_push_def len)
    ultimately show ?thesis using s(2) v by auto
  next
    case False
    have "\<not> ?n < length (last snaps)" if "snaps \<noteq> []"
      using False vec_segs_top(2,4) [OF r that] vec_segs_frames [OF r] that by simp
    then have "flags_ok flag vals ?s (top_seg segs)" if "vc_track C"
      using r that v push_flag x undoes_logged [OF vec_segs_top(1) [OF r]]
      by (cases "snaps = []") (force simp: vec_segs_def flags_ok_def less_Suc_eq top_seg_def)+
    then have "segs_of (v\<lparr>v_store := ?s\<rparr>) snaps segs"
      using vec_segs_store [OF r] u v by simp
    with v False sz show ?thesis by (auto simp: vec_push_def len)
  qed
qed

lemma push_spec:
  assumes "rel v snaps" and "length (cont vals v) \<le> vc_imax C" and "dom x"
  shows "\<exists>v'. vec_push C x v = Inr v' \<and> cont vals v' = cont vals v @ [x] \<and> rel v' snaps \<and> kept v v'"
  using assms push_segs unfolding vec_rel_def by fastforce

text \<open>After a capture the cell may be overwritten: it is logged or lies above the saved length.\<close>

lemma capture_segs:
  assumes r: "segs_of v snaps segs" and i: "i < length (cont vals v)"
  shows "\<exists>v' segs'. vec_capture C i v = Inr v' \<and> cont vals v' = cont vals v \<and> kept v v' \<and>
    segs_of v' snaps segs' \<and> (snaps \<noteq> [] \<longrightarrow> length (last snaps) \<le> i \<or> i \<in> logged (top_seg segs'))"
proof (cases "vc_track C \<and> v_frames v \<noteq> []")
  case False
  then have "snaps = []" using vec_segs_frames [OF r] vec_segs_top(4) [OF r] by auto
  with False r show ?thesis by (auto simp: vec_capture_def)
next
  case True
  then have ne: "snaps \<noteq> []" using vec_segs_frames [OF r] by simp
  note top = vec_segs_top [OF r ne]
  let ?fresh = "i < length (last snaps) \<and> \<not> flag (v_store v) i"
  obtain s where s: "so_capture (vc_ops C) i (v_active v) (v_log v) (v_store v) =
        Inr (s, if ?fresh then v_log v @ [(cont vals v ! i, i)] else v_log v)"
      "vals s = cont vals v" "\<forall>j. flag s j = (flag (v_store v) j \<or> j = i \<and> i < length (last snaps))"
    using capture [OF i, of "v_active v" "v_log v"] True top(2) by auto
  have fl: "flags_ok flag vals (v_store v) (top_seg segs)" using r True by (simp add: vec_segs_def)
  show ?thesis
  proof (cases ?fresh)
    case fresh: True
    have nl: "i \<notin> logged (top_seg segs)" using fl fresh i by (auto simp: flags_ok_def)
    have "flags_ok flag vals s (top_seg segs @ [(cont vals v ! i, i)])"
      using fl s fresh by (auto simp: flags_ok_def)
    then have "segs_of (v\<lparr>v_store := s, v_log := v_log v @ [(cont vals v ! i, i)]\<rparr>) snaps
        (butlast segs @ [top_seg segs @ [(cont vals v ! i, i)]])"
      using fresh nl s dom_vals [OF nth_mem [OF i]] by (intro vec_segs_log [OF r ne]) auto
    moreover have "vec_capture C i v = Inr (v\<lparr>v_store := s, v_log := v_log v @ [(cont vals v ! i, i)]\<rparr>)"
      using s(1) fresh True by (simp add: vec_capture_def)
    ultimately show ?thesis
      using s(2) by (intro exI [of _ "v\<lparr>v_store := s, v_log := v_log v @ [(cont vals v ! i, i)]\<rparr>"]
        exI [of _ "butlast segs @ [top_seg segs @ [(cont vals v ! i, i)]]"]) (simp add: top_seg_def)
  next
    case old: False
    then have l: "length (last snaps) \<le> i \<or> i \<in> logged (top_seg segs)"
      using fl by (auto simp: flags_ok_def)
    have "flags_ok flag vals s (top_seg segs)"
      using fl s old by (auto simp: flags_ok_def)
    then have "segs_of (v\<lparr>v_store := s\<rparr>) snaps segs"
      using vec_segs_store [OF r] top(1) s by simp
    moreover have "vec_capture C i v = Inr (v\<lparr>v_store := s\<rparr>)"
      using s(1) old True by (auto simp: vec_capture_def)
    ultimately show ?thesis
      using s(2) l by (intro exI [of _ "v\<lparr>v_store := s\<rparr>"] exI [of _ segs]) simp
  qed
qed

lemma pop_empty: "cont vals v = [] \<Longrightarrow> vec_pop C v = Inr (None, v)"
  by (simp add: vec_pop_def vec_is_empty_val)

lemma pop_spec:
  assumes r: "rel v snaps" and sz: "length (cont vals v) \<le> vc_imax C" and ne: "cont vals v \<noteq> []"
  shows "\<exists>v'. vec_pop C v = Inr (Some (last (cont vals v)), v') \<and> cont vals v' = butlast (cont vals v) \<and>
    rel v' snaps \<and> kept v v'"
proof -
  let ?i = "length (cont vals v) - 1"
  obtain segs where "segs_of v snaps segs" using r by (auto simp: vec_rel_def)
  then obtain v1 segs' where v1: "vec_capture C ?i v = Inr v1" "cont vals v1 = cont vals v" "kept v v1"
      "segs_of v1 snaps segs'" "snaps \<noteq> [] \<Longrightarrow> length (last snaps) \<le> ?i \<or> ?i \<in> logged (top_seg segs')"
    using capture_segs [of v snaps segs ?i] ne by auto
  let ?s = "snd (so_pop (vc_ops C) (v_store v1))"
  have v: "vals ?s = butlast (cont vals v)" using pop_vals v1(2) by simp
  have "undoes (top_seg segs') (last snaps) (vals ?s)" if "snaps \<noteq> []"
    using undoes_butlast [OF vec_segs_top(1) [OF v1(4) that]] v1(2,5) that v by auto
  moreover have "flags_ok flag vals ?s (top_seg segs')" if "vc_track C"
  proof -
    have "flags_ok flag vals (v_store v1) (top_seg segs')" using v1(4) that by (simp add: vec_segs_def)
    moreover have "i < length (vals ?s) \<longleftrightarrow> i < length (cont vals v1) - 1" for i using v v1(2) by simp
    ultimately show ?thesis
      unfolding flags_ok_def by (meson diff_le_self less_le_trans pop_flag pop_flag_keep)
  qed
  ultimately have "segs_of (v1\<lparr>v_store := ?s\<rparr>) snaps segs'"
    by (intro vec_segs_store [OF v1(4)])
  moreover have "vec_pop C v = Inr (Some (last (cont vals v)), v1\<lparr>v_store := ?s\<rparr>)"
    using v1(1) ne sz by (simp add: vec_pop_def vec_is_empty_val len get last_conv_nth idx_try_def)
  ultimately show ?thesis using v1(3) v unfolding vec_rel_def by auto
qed

lemma set_out_of_bounds:
  "length (cont vals v) \<le> i \<Longrightarrow> length (cont vals v) \<le> vc_imax C \<Longrightarrow> vec_set C i x v = Inl IndexOutOfBounds"
  by (simp add: vec_set_def len)

lemma set_spec:
  assumes r: "rel v snaps" and sz: "length (cont vals v) \<le> vc_imax C"
    and i: "i < length (cont vals v)" and x: "dom x"
  shows "\<exists>v'. vec_set C i x v = Inr v' \<and> cont vals v' = (cont vals v)[i := x] \<and> rel v' snaps \<and> kept v v'"
proof -
  obtain segs where "segs_of v snaps segs" using r by (auto simp: vec_rel_def)
  then obtain v1 segs' where v1: "vec_capture C i v = Inr v1" "cont vals v1 = cont vals v" "kept v v1"
      "segs_of v1 snaps segs'" "snaps \<noteq> [] \<Longrightarrow> length (last snaps) \<le> i \<or> i \<in> logged (top_seg segs')"
    using capture_segs [of v snaps segs i] i by auto
  obtain s where s: "so_set_raw (vc_ops C) i x (v_store v1) = Inr s" "vals s = (cont vals v)[i := x]"
      "vc_track C \<Longrightarrow> flag s = flag (v_store v1)"
    using set_raw [OF x, of i "v_store v1"] v1(2) i by auto
  have "undoes (top_seg segs') (last snaps) (vals s)" if "snaps \<noteq> []"
    using undoes_update [OF vec_segs_top(1) [OF v1(4) that] v1(5) [OF that]] v1(2) s(2) by simp
  moreover have "flags_ok flag vals s (top_seg segs')" if "vc_track C"
    using v1(2,4) that s by (simp add: vec_segs_def flags_ok_def)
  ultimately have "segs_of (v1\<lparr>v_store := s\<rparr>) snaps segs'"
    by (intro vec_segs_store [OF v1(4)])
  moreover have "vec_set C i x v = Inr (v1\<lparr>v_store := s\<rparr>)"
    using v1(1) s(1) i sz by (simp add: vec_set_def len)
  ultimately show ?thesis using v1(3) s(2) unfolding vec_rel_def by auto
qed

text \<open>Reclaiming capacity keeps the contents and sets no flag.\<close>

lemma maybe_shrink:
  "\<exists>s. vec_maybe_shrink C sh v = v\<lparr>v_store := s\<rparr> \<and> vals s = cont vals v \<and> (\<forall>i. flag s i \<longrightarrow> flag (v_store v) i)"
proof -
  obtain p caps where sh: "sh = (p, caps)" by (cases sh)
  show ?thesis
  proof (cases p)
    case Never
    then show ?thesis using sh by (intro exI [of _ "v_store v"]) (simp add: vec_maybe_shrink_def)
  next
    case (IfOverallocated f h)
    then show ?thesis
      using sh shrink_vals shrink_flag
      by (intro exI [of _ "so_shrink_if (vc_ops C) caps f h (v_store v)"]) (auto simp: vec_maybe_shrink_def)
  qed
qed

lemma segs_last_start:
  assumes "segs_of v snaps segs"
  shows "slice_from (v_log v) (if v_frames v = [] then 0 else diff_start (last (v_frames v))) = Inr (top_seg segs)"
proof (cases "snaps = []")
  case True
  with assms show ?thesis by (auto simp: vec_segs_def top_seg_def slice_from_def)
next
  case False
  then obtain n where n: "length snaps = Suc n" by (cases snaps) auto
  have f: "last (v_frames v) = v_frames v ! n" and len: "length segs = Suc n" and fr: "v_frames v \<noteq> []"
    and st: "diff_start (v_frames v ! n) = length (concat (take n segs))"
    and lg: "v_log v = concat segs"
    using assms n by (auto simp: vec_segs_def last_nth_Suc)
  have "drop n segs = [top_seg segs]"
    using len by (cases segs rule: rev_cases) (auto simp: top_seg_def)
  moreover have "concat segs = concat (take n segs) @ concat (drop n segs)"
    by (metis append_take_drop_id concat_append)
  ultimately show ?thesis by (simp add: slice_from_def f fr st lg)
qed

lemma mark_segs:
  assumes r: "segs_of v snaps segs" and s: "vals s = cont vals v" and t: "vc_track C" and f: "\<forall>i. \<not> flag s i"
  shows "segs_of (v\<lparr>v_store := s, v_frames := v_frames v @ [\<lparr>saved_len = length (cont vals v), diff_start = length (v_log v)\<rparr>],
    v_active := length (cont vals v)\<rparr>) (snaps @ [cont vals v]) (segs @ [[]])"
proof -
  let ?w = "cont vals v"
  have len: "length segs = length snaps" "length (v_frames v) = length snaps"
    using r by (auto simp: vec_segs_def)
  have ch: "undoes ((segs @ [[]]) ! k) ((snaps @ [?w]) ! k) (((snaps @ [?w]) @ [vals s]) ! Suc k)"
    if k: "k < length (snaps @ [?w])" for k
  proof (cases "k = length snaps")
    case True
    then show ?thesis using len s undoes_refl by (simp add: nth_append)
  next
    case False
    with k have k': "k < length snaps" by simp
    then have "((snaps @ [?w]) @ [vals s]) ! Suc k = (snaps @ [?w]) ! Suc k" by (simp add: nth_append)
    then show ?thesis using vec_segs_chain [OF r k'] k' len by (simp add: nth_append)
  qed
  have fr: "(v_frames v @ [\<lparr>saved_len = length ?w, diff_start = length (v_log v)\<rparr>]) ! k =
      \<lparr>saved_len = length ((snaps @ [?w]) ! k), diff_start = length (concat (take k (segs @ [[]])))\<rparr>"
    if "k < length (snaps @ [?w])" for k
    using that r len by (cases "k = length snaps") (auto simp: vec_segs_def nth_append)
  have "flags_ok flag vals s []" using f by (simp add: flags_ok_def)
  then show ?thesis using r len ch fr t by (auto simp: vec_segs_def top_seg_def)
qed

lemma mark_spec:
  assumes r: "rel v snaps" and sz: "length (cont vals v) \<le> vc_imax C" and t: "vc_track C"
    and d: "length snaps < 2 ^ 32"
  shows "\<exists>v'. vec_mark C sh v = Inr (\<lparr>branch_id = current_branch_id (v_forks v), depth = length snaps,
      frame_index = length snaps, container_id = v_id v\<rparr>, v') \<and>
    cont vals v' = cont vals v \<and> rel v' (snaps @ [cont vals v]) \<and> kept v v'"
proof -
  obtain segs where segs: "segs_of v snaps segs" using r by (auto simp: vec_rel_def)
  have n: "length (v_frames v) = length snaps" using segs by (simp add: vec_segs_def)
  obtain s where s: "vec_maybe_shrink C sh v = v\<lparr>v_store := s\<rparr>" "vals s = cont vals v"
      "\<forall>i. flag s i \<longrightarrow> flag (v_store v) i"
    using maybe_shrink by blast
  let ?s = "so_prepare_mark (vc_ops C) (length (cont vals v)) (top_seg segs) s"
  let ?v = "v\<lparr>v_store := ?s, v_frames := v_frames v @ [\<lparr>saved_len = length (cont vals v), diff_start = length (v_log v)\<rparr>],
    v_active := length (cont vals v)\<rparr>"
  have "\<forall>i. flag s i \<longrightarrow> i \<in> logged (top_seg segs)"
    using s(3) segs t by (auto simp: vec_segs_def flags_ok_def)
  then have "\<forall>i. \<not> flag ?s i" using prepare_flag t by blast
  then have "segs_of ?v (snaps @ [cont vals v]) (segs @ [[]])"
    using mark_segs [OF segs] s(2) t prepare_vals by simp
  moreover have "vec_mark C sh v = Inr (\<lparr>branch_id = current_branch_id (v_forks v), depth = length snaps,
      frame_index = length snaps, container_id = v_id v\<rparr>, ?v)"
    using t s(1,2) sz d n segs_last_start [OF segs]
    by (cases "v_frames v = []") (simp_all add: vec_mark_def len narrow_count_def current_branch_def)
  ultimately show ?thesis
    using s(2) prepare_vals by (intro exI [of _ ?v]) (auto simp: vec_rel_def)
qed

lemma mark_untracked: "\<not> vc_track C \<Longrightarrow> vec_mark C sh v = Inl Untracked"
  by (simp add: vec_mark_def)

text \<open>The replay loop of \<open>restore\<close>, on the values and on the flags it leaves behind.\<close>

lemma restore_loop:
  assumes "\<forall>(x, i) \<in> set l. dom x" and "length (vals s) = n"
  shows "vals (foldr (\<lambda>(old, i) s. so_restore_entry (vc_ops C) i old n s) l s) = replay n l (vals s) \<and>
    (\<forall>j. stale (foldr (\<lambda>(old, i) s. so_restore_entry (vc_ops C) i old n s) l s) j \<longrightarrow>
      stale s j \<and> (j < n \<longrightarrow> j \<notin> logged l))"
  using assms(1)
proof (induction l)
  case Nil
  then show ?case by (simp add: replay_def)
next
  case (Cons e l)
  obtain x i where e: "e = (x, i)" by (cases e)
  let ?s = "foldr (\<lambda>(old, i) s. so_restore_entry (vc_ops C) i old n s) l s"
  have IH: "vals ?s = replay n l (vals s)" "\<forall>j. stale ?s j \<longrightarrow> stale s j \<and> (j < n \<longrightarrow> j \<notin> logged l)"
    and x: "dom x"
    using Cons e by auto
  show ?case
  proof (cases "i < n")
    case True
    have i: "i < length (vals ?s)" using IH(1) assms(2) True by simp
    have "vals (so_restore_entry (vc_ops C) i x n ?s) = replay n (e # l) (vals s)"
      using restore_vals [OF x True i] IH(1) e True by (simp add: replay_def)
    moreover have "stale s j \<and> (j < n \<longrightarrow> j \<notin> logged (e # l))"
      if "stale (so_restore_entry (vc_ops C) i x n ?s) j" for j
      using restore_stale [OF x True i that] IH(2) e by simp
    ultimately show ?thesis using e by simp
  next
    case False
    then have "so_restore_entry (vc_ops C) i x n ?s = ?s" by (intro restore_skip) simp
    then show ?thesis using IH e False by (auto simp: replay_def)
  qed
qed

lemma restored_contents:
  assumes r: "segs_of v snaps segs" and k: "k < length snaps"
  shows "replay (length (snaps ! k)) (concat (drop k segs)) (vec_resize (length (snaps ! k)) dflt (cont vals v)) = snaps ! k"
proof (rule nth_equalityI)
  let ?n = "length (snaps ! k)" and ?b = "vec_resize (length (snaps ! k)) dflt (cont vals v)"
  have "\<forall>j < length (drop k snaps). undoes (drop k segs ! j) (drop k snaps ! j) ((drop k snaps @ [cont vals v]) ! Suc j)"
  proof (intro allI impI)
    fix j assume j: "j < length (drop k snaps)"
    then have kj: "k + j < length snaps" by simp
    have "(drop k snaps @ [cont vals v]) ! Suc j = (snaps @ [cont vals v]) ! Suc (k + j)"
      using kj by (auto simp: nth_append)
    then show "undoes (drop k segs ! j) (drop k snaps ! j) ((drop k snaps @ [cont vals v]) ! Suc j)"
      using vec_segs_chain [OF r kj] r j by (auto simp: vec_segs_def)
  qed
  then have "\<forall>i < ?n. i < length (hd (drop k snaps @ [cont vals v])) \<longrightarrow>
      replay ?n (concat (drop k segs)) ?b ! i = hd (drop k snaps @ [cont vals v]) ! i"
    using r by (intro replay_chain) (auto simp: vec_segs_def nth_vec_resize)
  moreover have "hd (drop k snaps @ [cont vals v]) = snaps ! k"
    using k by (simp add: hd_append hd_drop_conv_nth)
  ultimately show "replay ?n (concat (drop k segs)) ?b ! i = snaps ! k ! i"
    if "i < length (replay ?n (concat (drop k segs)) ?b)" for i
    using that by simp
qed simp

lemma restore_segs:
  assumes r: "segs_of v snaps segs" and k: "k < length snaps"
    and s: "vals s = snaps ! k" and f: "\<forall>i. flag s i \<longleftrightarrow> i \<in> logged (top_seg (take k segs)) \<and> i < length (vals s)"
  shows "segs_of (v\<lparr>v_store := s, v_log := concat (take k segs), v_frames := take k (v_frames v),
    v_active := (if k = 0 then 0 else length (snaps ! (k - 1))), v_forks := h\<rparr>) (take k snaps) (take k segs)"
proof -
  have len: "length segs = length snaps" "length (v_frames v) = length snaps"
    using r by (auto simp: vec_segs_def)
  have "undoes (take k segs ! j) (take k snaps ! j) ((take k snaps @ [vals s]) ! Suc j)" if j: "j < k" for j
  proof -
    have "(take k snaps @ [vals s]) ! Suc j = (snaps @ [cont vals v]) ! Suc j"
      using j k s by (cases "Suc j = k") (auto simp: nth_append)
    then show ?thesis using vec_segs_chain [OF r, of j] j k by simp
  qed
  moreover have "\<forall>e \<in> set (concat (take k segs)). case e of (x, i) \<Rightarrow> dom x"
    using r by (fastforce simp: vec_segs_def dest: in_set_takeD)
  moreover have "last (take k snaps) = snaps ! (k - 1)" if "k \<noteq> 0"
    using that k by (intro trans [OF last_nth_Suc [of _ "k - 1"]]) auto
  moreover have "flags_ok flag vals s (top_seg (take k segs))" using f by (auto simp: flags_ok_def)
  ultimately show ?thesis
    using r k len by (auto simp: vec_segs_def min_def)
qed

text \<open>What survives below frame \<open>k\<close>: the slice of the log that re-flags the cells of the new top frame.\<close>

lemma surviving_slice:
  assumes r: "segs_of v snaps segs" and k: "k < length snaps"
  shows "slice_from (concat (take k segs)) (if 0 < k then diff_start (take k (v_frames v) ! (k - 1)) else 0) =
    Inr (top_seg (take k segs))"
proof (cases k)
  case 0
  then show ?thesis by (simp add: slice_from_def top_seg_def)
next
  case (Suc m)
  have len: "length segs = length snaps" and st: "diff_start (v_frames v ! m) = length (concat (take m segs))"
    using r k Suc by (auto simp: vec_segs_def)
  have "take k segs = take m segs @ [segs ! m]" using k len Suc by (simp add: take_Suc_conv_app_nth)
  then show ?thesis using st Suc by (simp add: slice_from_def top_seg_def)
qed

lemma restored_store:
  assumes r: "segs_of v snaps segs" and k: "k < length snaps"
  defines "n \<equiv> length (snaps ! k)"
  defines "s2 \<equiv> foldr (\<lambda>(old, i) s. so_restore_entry (vc_ops C) i old n s) (concat (drop k segs))
    (so_resize_default (vc_ops C) n (v_store v))"
  shows "vals s2 = snaps ! k" and "\<not> stale s2 j"
proof -
  let ?s1 = "so_resize_default (vc_ops C) n (v_store v)"
  have t: "vc_track C" and len: "length segs = length snaps" using r k by (auto simp: vec_segs_def)
  have v1: "vals ?s1 = vec_resize n dflt (cont vals v)" by (rule resize_vals)
  have "\<forall>(x, i) \<in> set (concat (drop k segs)). dom x"
    using r by (fastforce simp: vec_segs_def dest: in_set_dropD)
  note loop = restore_loop [OF this, of ?s1 n]
  show "vals s2 = snaps ! k"
    using loop v1 restored_contents [OF r k] by (simp add: s2_def n_def)
  show "\<not> stale s2 j"
  proof
    assume "stale s2 j"
    then have st: "stale ?s1 j" and nl: "j < n \<Longrightarrow> j \<notin> logged (concat (drop k segs))"
      using loop v1 by (auto simp: s2_def)
    have jn: "j < n" and "flag (v_store v) j" using resize_stale [OF st] stale_flag by auto
    then have "j \<in> logged (top_seg segs)" using r t by (auto simp: vec_segs_def flags_ok_def)
    moreover have "top_seg segs \<in> set (drop k segs)"
      using k len by (metis drop_eq_Nil last_drop last_in_set list.size(3) not_le top_seg_def not_less_zero)
    ultimately show False using nl [OF jn] by (auto simp: logged_def)
  qed
qed

lemma restore_spec:
  assumes r: "rel v snaps" and t: "vc_track C" "container_id t = v_id v"
    and w: "is_valid (v_forks v) t (length snaps) = Inr True" and k: "frame_index t < length snaps"
    and sz: "length snaps < 2 ^ 32" "length (origins (v_forks v)) + 1 < 2 ^ 32"
  shows "\<exists>v'. vec_restore C t v = Inr v' \<and> cont vals v' = snaps ! frame_index t \<and>
    rel v' (take (frame_index t) snaps) \<and> v_forks v' = forked (v_forks v) (branch_id t) (depth t) \<and> v_id v' = v_id v"
proof -
  obtain segs where segs: "segs_of v snaps segs" using r by (auto simp: vec_rel_def)
  let ?k = "frame_index t" let ?n = "length (snaps ! ?k)"
  let ?s2 = "foldr (\<lambda>(old, i) s. so_restore_entry (vc_ops C) i old ?n s) (concat (drop ?k segs))
    (so_resize_default (vc_ops C) ?n (v_store v))"
  let ?sv = "if 0 < ?k then saved_len (take ?k (v_frames v) ! (?k - 1)) else 0"
  let ?s3 = "so_finish_restore (vc_ops C) (top_seg (take ?k segs)) ?sv ?s2"
  let ?h = "forked (v_forks v) (branch_id t) (depth t)"
  let ?v = "v\<lparr>v_store := ?s3, v_log := concat (take ?k segs), v_frames := take ?k (v_frames v),
    v_active := (if ?k = 0 then 0 else length (snaps ! (?k - 1))), v_forks := ?h\<rparr>"
  note st = restored_store [OF segs k]
  have n: "length (v_frames v) = length snaps" "length segs = length snaps" "v_log v = concat segs"
    using segs by (auto simp: vec_segs_def)
  have f: "v_frames v ! j = \<lparr>saved_len = length (snaps ! j), diff_start = length (concat (take j segs))\<rparr>"
    if "j < length snaps" for j using segs that by (simp add: vec_segs_def)
  have act: "(if take ?k (v_frames v) = [] then 0 else saved_len (last (take ?k (v_frames v)))) =
      (if ?k = 0 then 0 else length (snaps ! (?k - 1)))"
    using k n f by (cases ?k) (auto simp: last_nth_Suc min_def)
  have "segs_of ?v (take ?k snaps) (take ?k segs)"
    using st finish_vals finish_flag [OF t(1)] by (intro restore_segs [OF segs k]) simp_all
  moreover have "vec_restore C t v = Inr ?v"
    unfolding vec_restore_def Let_def act
    using t w k sz n f [OF k] surviving_slice [OF segs k] fork_forked [OF sz(2), of t "frame_index t"]
    by (simp add: narrow_count_def take_concat_prefix drop_concat_prefix)
  ultimately show ?thesis
    using st(1) finish_vals by (intro exI [of _ ?v]) (auto simp: vec_rel_def)
qed

lemma restore_only:
  assumes "rel v snaps" and "vec_restore C t v = Inr v'"
  shows "vc_track C" and "container_id t = v_id v" and "is_valid (v_forks v) t (length snaps) = Inr True"
    and "frame_index t < length snaps" and "length snaps < 2 ^ 32" and "length (origins (v_forks v)) + 1 < 2 ^ 32"
proof -
  have "length (v_frames v) = length snaps" using assms(1) by (auto simp: vec_rel_def vec_segs_def)
  then show "vc_track C" and "container_id t = v_id v" and "is_valid (v_forks v) t (length snaps) = Inr True"
    and "frame_index t < length snaps" and "length snaps < 2 ^ 32" and "length (origins (v_forks v)) + 1 < 2 ^ 32"
    using assms(2) by (auto simp: vec_restore_def fork_def narrow_count_def Let_def elim!: rbind_eq_InrE split: if_splits)
qed

lemma restore_errors:
  assumes "rel v snaps" and "fork_wf (v_forks v)" and "length snaps < 2 ^ 32"
  shows "\<not> vc_track C \<Longrightarrow> vec_restore C t v = Inl Untracked"
    and "vc_track C \<Longrightarrow> container_id t \<noteq> v_id v \<Longrightarrow> vec_restore C t v = Inl WrongContainer"
    and "vc_track C \<Longrightarrow> container_id t = v_id v \<Longrightarrow> is_valid (v_forks v) t (length snaps) = Inr False \<Longrightarrow>
      vec_restore C t v = Inl AbandonedFuture"
    and "vc_track C \<Longrightarrow> container_id t = v_id v \<Longrightarrow> is_valid (v_forks v) t (length snaps) = Inr True \<Longrightarrow>
      length snaps \<le> frame_index t \<Longrightarrow> vec_restore C t v = Inl BeyondFrameStack"
proof -
  have "length (v_frames v) = length snaps" using assms(1) by (auto simp: vec_rel_def vec_segs_def)
  with assms(3) show "\<not> vc_track C \<Longrightarrow> vec_restore C t v = Inl Untracked"
    and "vc_track C \<Longrightarrow> container_id t \<noteq> v_id v \<Longrightarrow> vec_restore C t v = Inl WrongContainer"
    and "vc_track C \<Longrightarrow> container_id t = v_id v \<Longrightarrow> is_valid (v_forks v) t (length snaps) = Inr False \<Longrightarrow>
      vec_restore C t v = Inl AbandonedFuture"
    and "vc_track C \<Longrightarrow> container_id t = v_id v \<Longrightarrow> is_valid (v_forks v) t (length snaps) = Inr True \<Longrightarrow>
      length snaps \<le> frame_index t \<Longrightarrow> vec_restore C t v = Inl BeyondFrameStack"
    by (simp_all add: vec_restore_def narrow_count_def Let_def)
qed

lemma mark_only:
  assumes "rel v snaps" and "vec_mark C sh v = Inr (t, v')"
  shows "vc_track C" and "length (cont vals v) \<le> vc_imax C" and "length snaps < 2 ^ 32"
proof -
  have n: "length (v_frames v) = length snaps" using assms(1) by (auto simp: vec_rel_def vec_segs_def)
  obtain s where s: "vec_maybe_shrink C sh v = v\<lparr>v_store := s\<rparr>" "vals s = cont vals v"
    using maybe_shrink by blast
  show t: "vc_track C" using assms(2) mark_untracked by (cases "vc_track C") auto
  show "length (cont vals v) \<le> vc_imax C"
    using assms(2) t s by (cases "length (cont vals v) \<le> vc_imax C") (simp_all add: vec_mark_def len)
  show "length snaps < 2 ^ 32"
    using assms(2) s n by (auto simp: vec_mark_def narrow_count_def Let_def elim!: rbind_eq_InrE split: if_splits)
qed

lemma log_bound:
  assumes "rel v snaps"
  shows "vec_diff_log_len v \<le> sum_list (map length snaps)"
proof -
  obtain segs where r: "segs_of v snaps segs" using assms by (auto simp: vec_rel_def)
  then have len: "length segs = length snaps" and l: "v_log v = concat segs" by (auto simp: vec_segs_def)
  have "length (segs ! k) \<le> length (snaps ! k)" if "k < length snaps" for k
    using undoes_length [OF vec_segs_chain [OF r that]] .
  then have "sum_list (map length segs) \<le> sum_list (map length snaps)"
    using len by (auto simp: sum_list_sum_nth intro: sum_mono)
  then show ?thesis by (simp add: vec_diff_log_len_def l length_concat)
qed

text \<open>Iterating over the view of a vector yields its contents.\<close>

lemma view_collect_from:
  assumes "vi_len it = length (vals (vi_store it))" and "vi_len it \<le> vc_imax C" and "vi_pos it \<le> vi_len it"
  shows "view_collect C it = Inr (drop (vi_pos it) (vals (vi_store it)))"
  using assms
proof (induction "vi_len it - vi_pos it" arbitrary: it)
  case 0
  then show ?case by (subst view_collect.simps) (simp add: view_next_def)
next
  case (Suc n)
  then have lt: "vi_pos it < length (vals (vi_store it))" by simp
  let ?it = "it\<lparr>vi_pos := vi_pos it + 1\<rparr>"
  have "view_collect C ?it = Inr (drop (vi_pos it + 1) (vals (vi_store it)))"
    using Suc.hyps(1) [of ?it] Suc.hyps(2) Suc.prems lt by simp
  then show ?case
    using lt Suc.prems by (subst view_collect.simps) (simp add: view_next_def get idx_try_def Cons_nth_drop_Suc)
qed

lemma view_contents:
  assumes "length (cont vals v) \<le> vc_imax C"
  shows "rbind (vec_view_of C v) (\<lambda>w. view_collect C (view_iter_of w)) = Inr (cont vals v)"
  using assms view_collect_from [of "view_iter_of \<lparr>vw_store = v_store v, vw_len = length (cont vals v)\<rparr>"]
  by (simp add: vec_view_of_def len view_iter_of_def)

end

section \<open>The vector as a checkpointed container\<close>

definition vec_fresh :: "('s \<Rightarrow> nat \<Rightarrow> bool) \<Rightarrow> ('s, 't) vec \<Rightarrow> bool" where
  "vec_fresh flag v \<longleftrightarrow> (\<exists>s counter. (\<forall>i. \<not> flag s i) \<and> v = fst (vec_with_store s counter))"

text \<open>Any successful \<open>push\<close>, \<open>pop\<close> or \<open>set\<close>.\<close>

inductive vec_upd :: "('s, 't) vec_cfg \<Rightarrow> ('t \<Rightarrow> bool) \<Rightarrow> ('s, 't) vec \<Rightarrow> ('s, 't) vec \<Rightarrow> bool" for C okv where
  push: "okv x \<Longrightarrow> vec_push C x v = Inr v' \<Longrightarrow> vec_upd C okv v v'"
| pop: "vec_pop C v = Inr (x, v') \<Longrightarrow> vec_upd C okv v v'"
| set: "okv x \<Longrightarrow> vec_set C i x v = Inr v' \<Longrightarrow> vec_upd C okv v v'"

definition vec_good :: "('s, 't) vec \<Rightarrow> vec_token \<Rightarrow> bool" where
  "vec_good v t \<longleftrightarrow> container_id t = v_id v \<and> frame_index t = depth t"

context semi_vec begin

lemma upd_fits: "vec_upd C dom v v' \<Longrightarrow> length (cont vals v) \<le> vc_imax C"
  by (cases "length (cont vals v) \<le> vc_imax C")
     (auto simp: vec_push_def vec_pop_def vec_set_def vec_is_empty_def len elim: vec_upd.cases)

lemma upd_spec:
  assumes r: "rel v snaps" and u: "vec_upd C dom v v'"
  shows "rel v' snaps \<and> kept v v'"
  using u
proof cases
  case (push x)
  then show ?thesis using push_spec [OF r upd_fits [OF u]] by fastforce
next
  case (pop x)
  then show ?thesis using pop_spec [OF r upd_fits [OF u]] pop_empty [of v] r by (cases "cont vals v = []") fastforce+
next
  case (set x i)
  have "i < length (cont vals v)"
    using set(2) set_out_of_bounds [of v i x] upd_fits [OF u] by (cases "i < length (cont vals v)") auto
  then show ?thesis using set_spec [OF r upd_fits [OF u]] set by fastforce
qed

text \<open>What a successful call did to the contents.\<close>

lemma push_Inr:
  assumes "rel v snaps" and "dom x" and "vec_push C x v = Inr v'"
  shows "vec_upd C dom v v'" and "cont vals v' = cont vals v @ [x]" and "length (cont vals v) \<le> vc_imax C"
proof -
  show u: "vec_upd C dom v v'" using assms by (intro vec_upd.push)
  show "length (cont vals v) \<le> vc_imax C" by (rule upd_fits [OF u])
  with push_spec [OF assms(1) _ assms(2)] assms(3) show "cont vals v' = cont vals v @ [x]" by auto
qed

lemma pop_Inr:
  assumes "rel v snaps" and "vec_pop C v = Inr (x, v')"
  shows "vec_upd C dom v v'" and "cont vals v' = butlast (cont vals v)"
    and "x = (if cont vals v = [] then None else Some (last (cont vals v)))"
proof -
  show u: "vec_upd C dom v v'" using assms(2) by (rule vec_upd.pop)
  show "cont vals v' = butlast (cont vals v)" and "x = (if cont vals v = [] then None else Some (last (cont vals v)))"
    using pop_spec [OF assms(1) upd_fits [OF u]] pop_empty [of v] assms(2) by (cases "cont vals v = []"; auto)+
qed

lemma set_Inr:
  assumes "rel v snaps" and "dom x" and "vec_set C i x v = Inr v'"
  shows "vec_upd C dom v v'" and "cont vals v' = (cont vals v)[i := x]" and "i < length (cont vals v)"
proof -
  show u: "vec_upd C dom v v'" using assms by (intro vec_upd.set)
  show i: "i < length (cont vals v)"
    using assms(3) set_out_of_bounds [of v i x] upd_fits [OF u] by (cases "i < length (cont vals v)") auto
  with set_spec [OF assms(1) upd_fits [OF u] i assms(2)] assms(3) show "cont vals v' = (cont vals v)[i := x]" by auto
qed

lemma upds:
  "dom x \<Longrightarrow> vec_push C x v = Inr v' \<Longrightarrow> (vec_upd C dom)\<^sup>*\<^sup>* v v'"
  "dom x \<Longrightarrow> vec_set C i x v = Inr v' \<Longrightarrow> (vec_upd C dom)\<^sup>*\<^sup>* v v'"
  "vec_pop C v = Inr (y, v') \<Longrightarrow> (vec_upd C dom)\<^sup>*\<^sup>* v v'"
  by (blast intro: r_into_rtranclp vec_upd.intros)+

lemmas push_rel = upd_spec [OF _ push_Inr(1), THEN conjunct1]
lemmas pop_rel = upd_spec [OF _ pop_Inr(1), THEN conjunct1]
lemmas set_rel = upd_spec [OF _ set_Inr(1), THEN conjunct1]

lemma get_Inr: "vec_get C i v = Inr x \<longleftrightarrow> i < length (cont vals v) \<and> x = cont vals v ! i"
  by (auto simp: vec_get_val nth_res_eq_Inr)

lemma vec_len_Inr: "vec_len C v = Inr n \<longleftrightarrow> n = length (cont vals v) \<and> n \<le> vc_imax C"
  by (auto simp: vec_len_val len_res_def idx_try_def)

lemma get_dom: "i < length (cont vals v) \<Longrightarrow> dom (cont vals v ! i)"
  by (rule dom_vals [OF nth_mem])

end

lemma vec_upd_id: "vec_upd C okv v v' \<Longrightarrow> v_id v' = v_id v"
  by (induction rule: vec_upd.induct)
     (auto simp: vec_push_def vec_pop_def vec_set_def vec_capture_def Let_def elim!: rbind_eq_InrE split: if_splits)

lemma vec_mark_id: "vec_mark C sh v = Inr (t, v') \<Longrightarrow> v_id v' = v_id v"
  by (auto simp: vec_mark_def vec_maybe_shrink_def Let_def elim!: rbind_eq_InrE
      split: if_splits prod.splits shrink_policy.splits)

lemma vec_restore_id: "vec_restore C t v = Inr v' \<Longrightarrow> v_id v' = v_id v"
  by (auto simp: vec_restore_def Let_def elim!: rbind_eq_InrE)

lemma vec_ids:
  "vec_push C x v = Inr v' \<Longrightarrow> v_id v' = v_id v" "vec_set C i x v = Inr v' \<Longrightarrow> v_id v' = v_id v"
  "vec_pop C v = Inr (y, v') \<Longrightarrow> v_id v' = v_id v"
proof -
  show "vec_push C x v = Inr v' \<Longrightarrow> v_id v' = v_id v" by (rule vec_upd_id [OF vec_upd.push [where okv = "\<lambda>_. True"]]) simp_all
  show "vec_set C i x v = Inr v' \<Longrightarrow> v_id v' = v_id v" by (rule vec_upd_id [OF vec_upd.set [where okv = "\<lambda>_. True"]]) simp_all
  show "vec_pop C v = Inr (y, v') \<Longrightarrow> v_id v' = v_id v" by (rule vec_upd_id [OF vec_upd.pop [where okv = "\<lambda>_. True"]])
qed

context semi_vec begin

lemma mark_cont:
  assumes "vec_mark C sh v = Inr (t, v')"
  shows "cont vals v' = cont vals v"
proof -
  obtain s where "vec_maybe_shrink C sh v = v\<lparr>v_store := s\<rparr>" "vals s = cont vals v" using maybe_shrink by blast
  then show ?thesis using assms prepare_vals by (auto simp: vec_mark_def Let_def elim!: rbind_eq_InrE)
qed

end

sublocale semi_vec \<subseteq> ck: checkpointed "vec_fresh flag" "vec_upd C dom" "vec_mark C" "vec_restore C"
  "\<lambda>v. vals (v_store v)" branch_id depth v_forks "vec_rel C vals flag dom" vec_good
proof
  fix v v' :: "('s, 't) vec" and snaps t t' m
  show "vec_fresh flag v \<Longrightarrow> rel v [] \<and> v_forks v = fork_history_new"
    using vec_with_store_rel [of flag _ C vals dom]
    by (auto simp: vec_fresh_def) (simp add: vec_with_store_def container_id_new_def)
  show "rel v snaps \<Longrightarrow> vec_upd C dom v v' \<Longrightarrow> rel v' snaps \<and> v_forks v' = v_forks v"
    using upd_spec by blast
  show "vec_upd C dom v v' \<Longrightarrow> vec_good v t \<Longrightarrow> vec_good v' t"
    by (simp add: vec_good_def vec_upd_id)
  show "rel v snaps \<Longrightarrow> vec_mark C m v = Inr (t, v') \<Longrightarrow> rel v' (snaps @ [cont vals v]) \<and> v_forks v' = v_forks v \<and>
      vec_good v' t \<and> branch_id t = current_branch_id (v_forks v) \<and> depth t = length snaps"
    using mark_spec [of v snaps m] mark_only [of v snaps m t v'] by (auto simp: vec_good_def)
  show "vec_mark C m v = Inr (t', v') \<Longrightarrow> vec_good v t \<Longrightarrow> vec_good v' t"
    by (simp add: vec_good_def vec_mark_id)
  show "vec_restore C t' v = Inr v' \<Longrightarrow> vec_good v t \<Longrightarrow> vec_good v' t"
    by (simp add: vec_good_def vec_restore_id)
  assume r: "rel v snaps" and wf: "fork_wf (v_forks v)" and g: "vec_good v t"
  show "depth t < length snaps \<and>
      within (depth t) (lim (origins (v_forks v)) (current_branch_id (v_forks v)) (branch_id t)) (length snaps) \<and>
      cont vals v' = snaps ! depth t \<and> rel v' (take (depth t) snaps) \<and>
      v_forks v' = forked (v_forks v) (branch_id t) (depth t)" if ok: "vec_restore C t v = Inr v'"
    using restore_spec [OF r restore_only [OF r ok]] restore_only(3,4) [OF r ok] g ok is_valid_lim [OF wf, of t "length snaps"]
    by (auto simp: vec_good_def)
  show "depth t < length snaps \<Longrightarrow>
      within (depth t) (lim (origins (v_forks v)) (current_branch_id (v_forks v)) (branch_id t)) (length snaps) \<Longrightarrow>
      length snaps < 2 ^ 32 \<Longrightarrow> length (origins (v_forks v)) + 1 < 2 ^ 32 \<Longrightarrow> \<exists>v'. vec_restore C t v = Inr v'"
    using restore_spec [OF r, of t] g is_valid_lim [OF wf, of t "length snaps"] r
    by (cases "snaps = []") (auto simp: vec_good_def vec_rel_def vec_segs_def)
qed

lemma vecp_new_fresh: "vec_fresh is_bit_set (fst (vecp_new counter))"
  unfolding vec_fresh_def vecp_new_def
  by (intro exI [of _ ps_new] exI [of _ counter]) (simp add: is_bit_set_def ps_new_def)

lemma veci_new_fresh: "vec_fresh (is_flag T) (fst (veci_new counter))"
  unfolding vec_fresh_def veci_new_def
  by (intro exI [of _ is_new] exI [of _ counter]) (simp add: is_flag_def is_new_def)

interpretation vecp: semi_vec "vecp_cfg track imax d" ps_data is_bit_set "\<lambda>_ _. False" "\<lambda>_. True" d
  for track imax d
  by (simp add: semi_vec_def vecp_cfg_def parallel_diff_store)

sublocale tagged_repr \<subseteq> veci: semi_vec "veci_cfg T track imax" "is_vals T" "is_flag T" "is_flag T" dom "tg_default T"
  for track imax
  by (simp add: semi_vec_def veci_cfg_def inline_diff_store)

text \<open>Both steps as facts that are usable outside of the locales.\<close>

context semi_vec begin

lemma is_checkpointed: "checkpointed (vec_fresh flag) (vec_upd C dom) (vec_mark C) (vec_restore C)
  (\<lambda>v. vals (v_store v)) branch_id depth v_forks (vec_rel C vals flag dom) vec_good"
  by unfold_locales

end

context tagged_repr begin

lemma veci_semi_vec: "semi_vec (veci_cfg T track imax) (is_vals T) (is_flag T) (is_flag T) dom (tg_default T)"
  by unfold_locales

end

end
