(* ===== verification/Vec_Refine.thy ===== *)
theory Vec_Refine
  imports Semi_Vec
begin

text \<open>
  The abstract specification of the semi-persistent vector, and the refinement: \<open>avec\<close> is the current
  contents with a stack of full copies, one per open mark.  Every operation of
  \<open>containers/src/vec.rs\<close> agrees with the specification on its result, its panic and the state it
  leaves, over both storage layouts, hence the two layouts are observationally equal.
\<close>

section \<open>Specification\<close>

record 't avec =
  a_cur :: "'t list"
  a_snaps :: "'t list list"
  a_forks :: fork_history
  a_id :: "32 word"

definition spec_push :: "nat \<Rightarrow> 't \<Rightarrow> 't avec \<Rightarrow> 't avec res" where
  "spec_push imax x a = (if imax < length (a_cur a) then Inl LenOverflow else Inr (a\<lparr>a_cur := a_cur a @ [x]\<rparr>))"

definition spec_pop :: "nat \<Rightarrow> 't avec \<Rightarrow> ('t option \<times> 't avec) res" where
  "spec_pop imax a =
    (if imax < length (a_cur a) then Inl LenOverflow
     else if a_cur a = [] then Inr (None, a)
     else Inr (Some (last (a_cur a)), a\<lparr>a_cur := butlast (a_cur a)\<rparr>))"

definition spec_set :: "nat \<Rightarrow> nat \<Rightarrow> 't \<Rightarrow> 't avec \<Rightarrow> 't avec res" where
  "spec_set imax i x a =
    (if imax < length (a_cur a) then Inl LenOverflow
     else if length (a_cur a) \<le> i then Inl IndexOutOfBounds
     else Inr (a\<lparr>a_cur := (a_cur a)[i := x]\<rparr>))"

definition spec_mark :: "bool \<Rightarrow> nat \<Rightarrow> 't avec \<Rightarrow> (vec_token \<times> 't avec) res" where
  "spec_mark track imax a =
    (if \<not> track then Inl Untracked
     else if imax < length (a_cur a) then Inl LenOverflow
     else if 2 ^ 32 \<le> length (a_snaps a) then Inl CountExceeded
     else Inr (\<lparr>branch_id = current_branch_id (a_forks a), depth = length (a_snaps a),
                frame_index = length (a_snaps a), container_id = a_id a\<rparr>,
               a\<lparr>a_snaps := a_snaps a @ [a_cur a]\<rparr>))"

definition spec_restore :: "bool \<Rightarrow> vec_token \<Rightarrow> 't avec \<Rightarrow> 't avec res" where
  "spec_restore track t a =
    (if \<not> track then Inl Untracked
     else if container_id t \<noteq> a_id a then Inl WrongContainer
     else if 2 ^ 32 \<le> length (a_snaps a) then Inl CountExceeded
     else rbind (is_valid (a_forks a) t (length (a_snaps a))) (\<lambda>ok.
       if \<not> ok then Inl AbandonedFuture
       else if length (a_snaps a) \<le> frame_index t then Inl BeyondFrameStack
       else rbind (fork t (frame_index t) (a_forks a)) (\<lambda>h.
         Inr (a\<lparr>a_cur := a_snaps a ! frame_index t, a_snaps := take (frame_index t) (a_snaps a), a_forks := h\<rparr>))))"

section \<open>Refinement\<close>

definition vec_abs :: "('s, 't) vec_cfg \<Rightarrow> ('s \<Rightarrow> 't list) \<Rightarrow> ('s \<Rightarrow> nat \<Rightarrow> bool) \<Rightarrow> ('t \<Rightarrow> bool) \<Rightarrow> ('s, 't) vec \<Rightarrow> 't avec \<Rightarrow> bool" where
  "vec_abs C vals flag okv v a \<longleftrightarrow> vec_rel C vals flag okv v (a_snaps a) \<and>
    a_cur a = cont vals v \<and> a_forks a = v_forks v \<and> a_id a = v_id v"

definition agree :: "('a \<Rightarrow> 'b \<Rightarrow> bool) \<Rightarrow> 'a res \<Rightarrow> 'b res \<Rightarrow> bool" where
  "agree R = rel_sum (=) R"

lemma agree_Inr [simp]: "agree R (Inr x) (Inr y) = R x y"
  by (simp add: agree_def)

lemma agree_Inl [simp]: "agree R (Inl d) (Inl e) = (d = e)"
  by (simp add: agree_def)

lemma agree_mixed [simp]: "\<not> agree R (Inl e) (Inr y)" "\<not> agree R (Inr x) (Inl e)"
  by (simp_all add: agree_def)

lemma is_valid_total: "fork_wf h \<Longrightarrow> \<exists>b. is_valid h t n = Inr b"
  by (simp add: is_valid_lim)

context semi_vec begin

abbreviation "absv \<equiv> vec_abs C vals flag dom"

lemma push_refines:
  assumes a: "absv v a" and x: "dom x"
  shows "agree absv (vec_push C x v) (spec_push (vc_imax C) x a)"
proof (cases "length (cont vals v) \<le> vc_imax C")
  case True
  then obtain v' where "vec_push C x v = Inr v'" "cont vals v' = cont vals v @ [x]" "rel v' (a_snaps a)" "kept v v'"
    using push_spec [of v "a_snaps a" x] a x by (auto simp: vec_abs_def)
  with a True show ?thesis by (simp add: spec_push_def vec_abs_def)
next
  case False
  with a show ?thesis by (simp add: spec_push_def vec_abs_def push_overflow)
qed

lemma pop_refines:
  assumes a: "absv v a"
  shows "agree (\<lambda>(x, v') (y, a'). x = y \<and> absv v' a') (vec_pop C v) (spec_pop (vc_imax C) a)"
proof -
  consider (over) "vc_imax C < length (cont vals v)" | (empty) "cont vals v = []"
    | (ok) "cont vals v \<noteq> []" "length (cont vals v) \<le> vc_imax C" by fastforce
  then show ?thesis
  proof cases
    case over
    with a show ?thesis by (simp add: spec_pop_def vec_abs_def vec_pop_def vec_is_empty_def len)
  next
    case empty
    with a show ?thesis by (simp add: spec_pop_def vec_abs_def pop_empty)
  next
    case ok
    then obtain v' where "vec_pop C v = Inr (Some (last (cont vals v)), v')"
        "cont vals v' = butlast (cont vals v)" "rel v' (a_snaps a)" "kept v v'"
      using pop_spec [of v "a_snaps a"] a by (auto simp: vec_abs_def)
    with a ok show ?thesis by (simp add: spec_pop_def vec_abs_def)
  qed
qed

lemma set_refines:
  assumes a: "absv v a" and x: "dom x"
  shows "agree absv (vec_set C i x v) (spec_set (vc_imax C) i x a)"
proof -
  consider (over) "vc_imax C < length (cont vals v)"
    | (oob) "length (cont vals v) \<le> i" "length (cont vals v) \<le> vc_imax C"
    | (ok) "i < length (cont vals v)" "length (cont vals v) \<le> vc_imax C" by fastforce
  then show ?thesis
  proof cases
    case over
    with a show ?thesis by (simp add: spec_set_def vec_abs_def vec_set_def len)
  next
    case oob
    with a show ?thesis by (simp add: spec_set_def vec_abs_def set_out_of_bounds)
  next
    case ok
    then obtain v' where "vec_set C i x v = Inr v'" "cont vals v' = (cont vals v)[i := x]"
        "rel v' (a_snaps a)" "kept v v'"
      using set_spec [of v "a_snaps a" i x] a x by (auto simp: vec_abs_def)
    with a ok show ?thesis by (simp add: spec_set_def vec_abs_def)
  qed
qed

lemma mark_refines:
  assumes a: "absv v a"
  shows "agree (\<lambda>(t, v') (t', a'). t = t' \<and> absv v' a') (vec_mark C sh v) (spec_mark (vc_track C) (vc_imax C) a)"
proof -
  have r: "rel v (a_snaps a)" and n: "length (v_frames v) = length (a_snaps a)"
    using a by (auto simp: vec_abs_def vec_rel_def vec_segs_def)
  obtain s where s: "vec_maybe_shrink C sh v = v\<lparr>v_store := s\<rparr>" "vals s = cont vals v"
    using maybe_shrink by blast
  obtain segs where segs: "segs_of v (a_snaps a) segs" using r by (auto simp: vec_rel_def)
  consider (untracked) "\<not> vc_track C" | (over) "vc_track C" "vc_imax C < length (cont vals v)"
    | (deep) "vc_track C" "length (cont vals v) \<le> vc_imax C" "2 ^ 32 \<le> length (a_snaps a)"
    | (ok) "vc_track C" "length (cont vals v) \<le> vc_imax C" "length (a_snaps a) < 2 ^ 32" by linarith
  then show ?thesis
  proof cases
    case untracked
    then show ?thesis by (simp add: spec_mark_def mark_untracked)
  next
    case over
    with a s show ?thesis by (simp add: spec_mark_def vec_abs_def vec_mark_def len)
  next
    case deep
    with a s n segs_last_start [OF segs] show ?thesis
      by (cases "v_frames v = []") (simp_all add: spec_mark_def vec_abs_def vec_mark_def len narrow_count_def)
  next
    case ok
    with a mark_spec [OF r ok(2,1,3), of sh] show ?thesis by (auto simp: spec_mark_def vec_abs_def)
  qed
qed

lemma restore_refines:
  assumes a: "absv v a" and wf: "fork_wf (v_forks v)"
  shows "agree absv (vec_restore C t v) (spec_restore (vc_track C) t a)"
proof -
  have r: "rel v (a_snaps a)" and n: "length (v_frames v) = length (a_snaps a)"
    using a by (auto simp: vec_abs_def vec_rel_def vec_segs_def)
  obtain b where b: "is_valid (v_forks v) t (length (a_snaps a)) = Inr b" using is_valid_total [OF wf] by blast
  consider (deep) "2 ^ 32 \<le> length (a_snaps a)"
    | (early) "length (a_snaps a) < 2 ^ 32" "\<not> vc_track C \<or> container_id t \<noteq> v_id v \<or> \<not> b \<or> length (a_snaps a) \<le> frame_index t"
    | (full) "vc_track C" "container_id t = v_id v" "b" "frame_index t < length (a_snaps a)"
        "length (a_snaps a) < 2 ^ 32" "2 ^ 32 \<le> length (origins (v_forks v)) + 1"
    | (ok) "vc_track C" "container_id t = v_id v" "b" "frame_index t < length (a_snaps a)"
        "length (a_snaps a) < 2 ^ 32" "length (origins (v_forks v)) + 1 < 2 ^ 32" by linarith
  then show ?thesis
  proof cases
    case deep
    with a n show ?thesis
      by (cases "vc_track C"; cases "container_id t = v_id v")
         (simp_all add: spec_restore_def vec_restore_def vec_abs_def narrow_count_def)
  next
    case early
    with a b restore_errors [OF r wf early(1), of t] show ?thesis
      by (cases "vc_track C"; cases "container_id t = v_id v"; cases b) (simp_all add: spec_restore_def vec_abs_def)
  next
    case full
    then have fk: "fork t d (v_forks v) = Inl CountExceeded" for d by (simp add: fork_def narrow_count_def)
    obtain segs where segs: "segs_of v (a_snaps a) segs" using r by (auto simp: vec_rel_def)
    have "v_frames v ! frame_index t = \<lparr>saved_len = length (a_snaps a ! frame_index t),
        diff_start = length (concat (take (frame_index t) segs))\<rparr>" "v_log v = concat segs" "length segs = length (a_snaps a)"
      using segs full by (auto simp: vec_segs_def)
    with a b fk full n surviving_slice [OF segs full(4)] show ?thesis
      by (simp add: spec_restore_def vec_restore_def vec_abs_def narrow_count_def Let_def take_concat_prefix)
  next
    case ok
    with a b restore_spec [OF r ok(1,2) _ ok(4,5,6)] fork_forked [OF ok(6)] show ?thesis
      by (auto simp: spec_restore_def vec_abs_def)
  qed
qed

end

section \<open>Programs over a vector\<close>

text \<open>
  A client program: a list of calls, \<open>CRestore k\<close> restoring the \<open>k\<close>-th token it was given.  A run
  yields what the calls returned and the final state, or the panic that ended it.
\<close>

datatype 't vec_cmd = CPush 't | CPop | CSet nat 't | CGet nat | CLen | CMark shrink | CRestore nat

datatype 't vec_out = OUnit | OPopped "'t option" | OVal 't | OLen nat | OToken vec_token

fun vec_step :: "('s, 't) vec_cfg \<Rightarrow> 't vec_cmd \<Rightarrow> ('s, 't) vec \<times> vec_token list \<Rightarrow>
    ('t vec_out \<times> ('s, 't) vec \<times> vec_token list) res" where
  "vec_step C (CPush x) (v, ts) = rbind (vec_push C x v) (\<lambda>v'. Inr (OUnit, v', ts))"
| "vec_step C CPop (v, ts) = rbind (vec_pop C v) (\<lambda>(x, v'). Inr (OPopped x, v', ts))"
| "vec_step C (CSet i x) (v, ts) = rbind (vec_set C i x v) (\<lambda>v'. Inr (OUnit, v', ts))"
| "vec_step C (CGet i) (v, ts) = rbind (vec_get C i v) (\<lambda>x. Inr (OVal x, v, ts))"
| "vec_step C CLen (v, ts) = rbind (vec_len C v) (\<lambda>n. Inr (OLen n, v, ts))"
| "vec_step C (CMark sh) (v, ts) = rbind (vec_mark C sh v) (\<lambda>(t, v'). Inr (OToken t, v', ts @ [t]))"
| "vec_step C (CRestore k) (v, ts) =
    rbind (nth_res ts k) (\<lambda>t. rbind (vec_restore C t v) (\<lambda>v'. Inr (OUnit, v', ts)))"

fun spec_step :: "bool \<Rightarrow> nat \<Rightarrow> 't vec_cmd \<Rightarrow> 't avec \<times> vec_token list \<Rightarrow> ('t vec_out \<times> 't avec \<times> vec_token list) res" where
  "spec_step track imax (CPush x) (a, ts) = rbind (spec_push imax x a) (\<lambda>a'. Inr (OUnit, a', ts))"
| "spec_step track imax CPop (a, ts) = rbind (spec_pop imax a) (\<lambda>(x, a'). Inr (OPopped x, a', ts))"
| "spec_step track imax (CSet i x) (a, ts) = rbind (spec_set imax i x a) (\<lambda>a'. Inr (OUnit, a', ts))"
| "spec_step track imax (CGet i) (a, ts) = rbind (nth_res (a_cur a) i) (\<lambda>x. Inr (OVal x, a, ts))"
| "spec_step track imax CLen (a, ts) = rbind (len_res imax (a_cur a)) (\<lambda>n. Inr (OLen n, a, ts))"
| "spec_step track imax (CMark sh) (a, ts) = rbind (spec_mark track imax a) (\<lambda>(t, a'). Inr (OToken t, a', ts @ [t]))"
| "spec_step track imax (CRestore k) (a, ts) =
    rbind (nth_res ts k) (\<lambda>t. rbind (spec_restore track t a) (\<lambda>a'. Inr (OUnit, a', ts)))"

fun run :: "('c \<Rightarrow> 's \<Rightarrow> ('o \<times> 's) res) \<Rightarrow> 'c list \<Rightarrow> 's \<Rightarrow> 'o list \<times> 's res" where
  "run step [] s = ([], Inr s)"
| "run step (c # cs) s = (case step c s of
      Inl e \<Rightarrow> ([], Inl e)
    | Inr (out, s') \<Rightarrow> (let (outs, r) = run step cs s' in (out # outs, r)))"

definition cmd_vals :: "'t vec_cmd \<Rightarrow> 't set" where
  "cmd_vals c = (case c of CPush x \<Rightarrow> {x} | CSet i x \<Rightarrow> {x} | _ \<Rightarrow> {})"

text \<open>The tokens a program holds were issued by its vector.\<close>

definition toks_ok :: "'t avec \<Rightarrow> vec_token list \<Rightarrow> bool" where
  "toks_ok a ts \<longleftrightarrow> fork_wf (a_forks a) \<and>
    start (origins (a_forks a)) (current_branch_id (a_forks a)) \<le> length (a_snaps a) \<and>
    (\<forall>t \<in> set ts. branch_id t \<le> length (origins (a_forks a)) \<and>
       start (origins (a_forks a)) (branch_id t) \<le> depth t \<and> frame_index t = depth t)"

lemma toks_ok_restore:
  assumes ok: "toks_ok a ts" and t: "t \<in> set ts" and r: "spec_restore track t a = Inr a'"
  shows "toks_ok a' ts"
proof -
  have a': "a_forks a' = forked (a_forks a) (branch_id t) (depth t)" "a_snaps a' = take (frame_index t) (a_snaps a)"
    "frame_index t < length (a_snaps a)"
    using r by (auto simp: spec_restore_def dest!: fork_InrD elim!: rbind_eq_InrE split: if_splits)
  have "fork_wf (a_forks a')" using fork_wf_forked ok t a' by (simp add: toks_ok_def)
  then show ?thesis using ok t a' by (auto simp: toks_ok_def forked_def start_append start_def le_SucI nth_append)
qed

lemma toks_ok_step:
  assumes "toks_ok a ts" and "spec_step track imax c (a, ts) = Inr (out, a', ts')"
  shows "toks_ok a' ts'"
proof (cases c)
  case (CMark sh)
  with assms show ?thesis
    by (auto simp: spec_mark_def toks_ok_def fork_wf_def le_SucI split: if_splits)
next
  case (CRestore k)
  then have ts: "ts' = ts" and k: "k < length ts" "spec_restore track (ts ! k) a = Inr a'"
    using assms(2) by (auto simp: nth_res_eq_Inr elim!: rbind_eq_InrE)
  show ?thesis using toks_ok_restore [OF assms(1) nth_mem [OF k(1)] k(2)] ts by simp
qed (use assms in \<open>auto simp: spec_push_def spec_pop_def spec_set_def toks_ok_def elim!: rbind_eq_InrE split: if_splits\<close>)

lemma agree_rbind:
  assumes "agree R m n" and "\<And>x y. R x y \<Longrightarrow> agree S (f x) (g y)"
  shows "agree S (rbind m f) (rbind n g)"
  using assms by (cases m; cases n) simp_all

context semi_vec begin

lemma step_refines:
  assumes a: "absv v a" and ok: "toks_ok a ts" and x: "\<forall>x \<in> cmd_vals c. dom x"
  shows "agree (\<lambda>(out, v', ts') (out', a', ts''). out = out' \<and> absv v' a' \<and> ts' = ts'')
    (vec_step C c (v, ts)) (spec_step (vc_track C) (vc_imax C) c (a, ts))"
proof (cases c)
  case (CRestore k)
  have wf: "fork_wf (v_forks v)" using a ok by (simp add: vec_abs_def toks_ok_def)
  show ?thesis
    using CRestore restore_refines [OF a wf]
    by (cases "k < length ts") (auto intro!: agree_rbind [where R = absv])
next
  case (CGet i)
  then show ?thesis using a by (auto simp: vec_get_val vec_abs_def nth_res_def)
next
  case CLen
  then show ?thesis using a by (auto simp: vec_len_val vec_abs_def len_res_def idx_try_def)
next
  case (CPush y)
  then show ?thesis using push_refines [OF a] x by (auto simp: cmd_vals_def intro!: agree_rbind)
next
  case CPop
  then show ?thesis using pop_refines [OF a] by (auto elim!: agree_rbind)
next
  case (CSet i y)
  then show ?thesis using set_refines [OF a] x by (auto simp: cmd_vals_def intro!: agree_rbind)
next
  case (CMark sh)
  then show ?thesis using mark_refines [OF a, of sh] by (auto elim!: agree_rbind)
qed

lemma run_refines:
  assumes "absv v a" and "toks_ok a ts" and "\<forall>c \<in> set cs. \<forall>x \<in> cmd_vals c. dom x"
  shows "fst (run (vec_step C) cs (v, ts)) = fst (run (spec_step (vc_track C) (vc_imax C)) cs (a, ts)) \<and>
    agree (\<lambda>(v', ts') (a', ts''). absv v' a' \<and> ts' = ts'')
      (snd (run (vec_step C) cs (v, ts))) (snd (run (spec_step (vc_track C) (vc_imax C)) cs (a, ts)))"
  using assms
proof (induction cs arbitrary: v a ts)
  case (Cons c cs)
  have st: "agree (\<lambda>(out, v', ts') (out', a', ts''). out = out' \<and> absv v' a' \<and> ts' = ts'')
    (vec_step C c (v, ts)) (spec_step (vc_track C) (vc_imax C) c (a, ts))"
    using Cons.prems by (intro step_refines) auto
  show ?case
  proof (cases "spec_step (vc_track C) (vc_imax C) c (a, ts)")
    case (Inl e)
    with st show ?thesis by (cases "vec_step C c (v, ts)") auto
  next
    case (Inr y)
    obtain out a' ts' where y: "y = (out, a', ts')" by (cases y)
    then obtain v' where v': "vec_step C c (v, ts) = Inr (out, v', ts')" "absv v' a'"
      using st Inr by (cases "vec_step C c (v, ts)") auto
    have "toks_ok a' ts'" using toks_ok_step Cons.prems(2) Inr y by blast
    then show ?thesis
      using Cons.IH [OF v'(2), of ts'] Cons.prems(3) v'(1) Inr y by (simp add: case_prod_beta)
  qed
qed simp

end

text \<open>The specification's state for a new vector.\<close>

definition avec_new :: "32 word \<Rightarrow> 't avec" where
  "avec_new counter = \<lparr>a_cur = [], a_snaps = [], a_forks = fork_history_new, a_id = counter\<rparr>"

lemma toks_ok_new: "toks_ok (avec_new counter) []"
  by (simp add: toks_ok_def avec_new_def fork_wf_new start_def) (simp add: fork_history_new_def)

lemma vecp_new_abs: "vec_abs (vecp_cfg track imax d) ps_data is_bit_set (\<lambda>_. True) (fst (vecp_new counter)) (avec_new counter)"
  using vecp.ck.fresh_rel [OF vecp_new_fresh]
  by (simp add: vec_abs_def avec_new_def) (simp add: vecp_new_def vec_with_store_def container_id_new_def ps_new_def)

lemma veci_new_abs:
  assumes "tagged_repr T okv"
  shows "vec_abs (veci_cfg T track imax) (is_vals T) (is_flag T) okv (fst (veci_new counter)) (avec_new counter)"
  using checkpointed.fresh_rel [OF semi_vec.is_checkpointed [OF tagged_repr.veci_semi_vec [OF assms]] veci_new_fresh]
  by (simp add: vec_abs_def avec_new_def) (simp add: veci_new_def vec_with_store_def container_id_new_def is_new_def is_vals_def)

lemma agree_join:
  assumes "agree R m n" and "agree S k n" and "\<And>x y z. R x z \<Longrightarrow> S y z \<Longrightarrow> Q x y"
  shows "agree Q m k"
  using assms by (cases m; cases k; cases n) simp_all

lemma agree_mono: "agree R m n \<Longrightarrow> (\<And>x y. R x y \<Longrightarrow> Q x y) \<Longrightarrow> agree Q m n"
  by (cases m; cases n) simp_all

lemma vecp_run:
  fixes track imax d cs counter
  defines "r \<equiv> run (vec_step (vecp_cfg track imax d)) cs (fst (vecp_new counter), [])"
    and "r' \<equiv> run (spec_step track imax) cs (avec_new counter, [])"
  shows "fst r = fst r' \<and> agree (\<lambda>(v, ts) (a, ts'). ps_data (v_store v) = a_cur a \<and> ts = ts') (snd r) (snd r')"
proof -
  let ?C = "vecp_cfg track imax d"
  have C: "vc_track ?C = track" "vc_imax ?C = imax" by (simp_all add: vecp_cfg_def)
  have "fst r = fst r' \<and>
      agree (\<lambda>(v, ts) (a, ts'). vec_abs ?C ps_data is_bit_set (\<lambda>_. True) v a \<and> ts = ts') (snd r) (snd r')"
    using vecp.run_refines [OF vecp_new_abs [of track imax d counter] toks_ok_new, of cs]
    unfolding r_def r'_def C by simp
  then show ?thesis by (auto simp: vec_abs_def elim!: agree_mono)
qed

lemma veci_run:
  fixes track imax counter
  assumes T: "tagged_repr T okv" and cs: "\<forall>c \<in> set cs. \<forall>x \<in> cmd_vals c. okv x"
  defines "r \<equiv> run (vec_step (veci_cfg T track imax)) cs (fst (veci_new counter), [])"
    and "r' \<equiv> run (spec_step track imax) cs (avec_new counter, [])"
  shows "fst r = fst r' \<and> agree (\<lambda>(v, ts) (a, ts'). is_vals T (v_store v) = a_cur a \<and> ts = ts') (snd r) (snd r')"
proof -
  let ?C = "veci_cfg T track imax"
  have C: "vc_track ?C = track" "vc_imax ?C = imax" by (simp_all add: veci_cfg_def)
  have "fst r = fst r' \<and>
      agree (\<lambda>(v, ts) (a, ts'). vec_abs ?C (is_vals T) (is_flag T) okv v a \<and> ts = ts') (snd r) (snd r')"
    using semi_vec.run_refines [OF tagged_repr.veci_semi_vec [OF T] veci_new_abs [OF T, of track imax counter] toks_ok_new cs]
    unfolding r_def r'_def C by simp
  then show ?thesis by (auto simp: vec_abs_def elim!: agree_mono)
qed

section \<open>Properties of the vector\<close>

text \<open>Everything a program can do with one vector.\<close>

abbreviation vecp_session :: "bool \<Rightarrow> nat \<Rightarrow> 't \<Rightarrow> ('t parallel_store, 't) vec \<Rightarrow> (vec_token \<times> 't list) list \<Rightarrow> nat list \<Rightarrow> nat set \<Rightarrow> bool" where
  "vecp_session track imax d \<equiv> session (vec_fresh is_bit_set) (vec_upd (vecp_cfg track imax d) (\<lambda>_. True))
    (vec_mark (vecp_cfg track imax d)) (vec_restore (vecp_cfg track imax d)) (\<lambda>v. ps_data (v_store v)) depth"

abbreviation veci_session :: "('t, 'r) tagged_ops \<Rightarrow> ('t \<Rightarrow> bool) \<Rightarrow> bool \<Rightarrow> nat \<Rightarrow> ('r inline_store, 't) vec \<Rightarrow> (vec_token \<times> 't list) list \<Rightarrow> nat list \<Rightarrow> nat set \<Rightarrow> bool" where
  "veci_session T okv track imax \<equiv> session (vec_fresh (is_flag T)) (vec_upd (veci_cfg T track imax) okv)
    (vec_mark (veci_cfg T track imax)) (vec_restore (veci_cfg T track imax)) (\<lambda>v. is_vals T (v_store v)) depth"

abbreviation "vp8 \<equiv> vecp_cfg True 255 (0 :: nat)"
abbreviation "no_shrink \<equiv> (Never, 0, 0) :: shrink"

lemmas vecp_eval = vecp_cfg_def parallel_ops_def ps_push_def ps_pop_def ps_get_def ps_set_raw_def
  ps_prepare_mark_def ps_capture_def ps_mark_captured_def ps_restore_entry_def ps_finish_restore_def
  ps_resize_default_def ps_shrink_if_def ps_new_def vecp_new_def vec_with_store_def container_id_new_def
  vec_push_def vec_pop_def vec_set_def vec_get_def vec_capture_def vec_mark_def vec_restore_def
  vec_maybe_shrink_def vec_is_empty_def vec_len_def len_res_def idx_try_def narrow_count_def slice_from_def
  fork_history_new_def current_branch_def is_valid_def fork_def

lemma new_contents:
  "ps_data (v_store (fst (vecp_new counter))) = []" "is_vals T (v_store (fst (veci_new counter))) = []"
  by (simp_all add: vecp_eval veci_new_def is_new_def is_vals_def)

text \<open>A program that marks the empty vector and pushes a value, as a session.\<close>

lemma vecp_demo:
  obtains t v v' where "vec_mark vp8 no_shrink (fst (vecp_new 0)) = Inr (t, v)" and "vec_push vp8 7 v = Inr v'"
    and "vecp_session True 255 0 v' [(t, [])] [0] {}" and "v_forks v' = fork_history_new"
    and "t = \<lparr>branch_id = 0, depth = 0, frame_index = 0, container_id = 0\<rparr>" and "ps_data (v_store v') = [7]"
proof -
  obtain t v where m: "vec_mark vp8 no_shrink (fst (vecp_new 0)) = Inr (t, v)" and v: "v_forks v = fork_history_new"
    and t: "t = \<lparr>branch_id = 0, depth = 0, frame_index = 0, container_id = 0\<rparr>"
    by (simp add: vecp_eval vec_resize_def div_ceil_def)
  obtain v' where p: "vec_push vp8 7 v = Inr v'" and v': "v_forks v' = v_forks v" and d: "ps_data (v_store v') = [7]"
    using m by (auto simp: vecp_eval vec_resize_def div_ceil_def is_bit_set_def)
  have s0: "vecp_session True 255 (0 :: nat) (fst (vecp_new 0)) [] [] {}" by (intro session.fresh vecp_new_fresh)
  have "vecp_session True 255 0 v [(t, [])] [0] {}" using session.mark [OF s0, OF m] by (simp add: new_contents)
  from session.update [OF this vec_upd.push [OF _ p]] have "vecp_session True 255 0 v' [(t, [])] [0] {}" by simp
  with m p v v' t d show ?thesis by (intro that) simp_all
qed

text \<open>
  C1: a live token restores exactly the contents at its mark.  Whatever a program did with a \<open>VecP\<close>
  since (pushes, pops, overwrites, nested marks, restores of other tokens), \<open>restore\<close> of a token whose
  frame is on the stack succeeds and gives back the contents at that mark.
\<close>

theorem vecp_live_token_restores:
  assumes "vecp_session track imax d v issued st co" and "k \<in> set st"
    and "length st < 2 ^ 32" and "length (origins (v_forks v)) + 1 < 2 ^ 32"
  shows "\<exists>v'. vec_restore (vecp_cfg track imax d) (fst (issued ! k)) v = Inr v' \<and>
    ps_data (v_store v') = snd (issued ! k)"
  using vecp.ck.live_token_restores [OF assms] .

theorem vecp_live_token_restores_witness:
  "\<exists>t v v' w. vec_mark vp8 no_shrink (fst (vecp_new 0)) = Inr (t, v) \<and> vec_push vp8 7 v = Inr v' \<and>
    vec_restore vp8 t v' = Inr w \<and> ps_data (v_store w) = []"
proof -
  obtain t v v' where d: "vec_mark vp8 no_shrink (fst (vecp_new 0)) = Inr (t, v)" "vec_push vp8 7 v = Inr v'"
    "vecp_session True 255 0 v' [(t, [])] [0] {}" "v_forks v' = fork_history_new" by (rule vecp_demo)
  with vecp_live_token_restores [OF d(3), of 0] show ?thesis by (simp add: fork_history_new_def)
qed

text \<open>
  C2: \<open>restore\<close> accepts no abandoned future.  If \<open>restore\<close> accepts a token that was issued by this
  \<open>VecP\<close> and never restored before, its frame is on the stack and the contents are those at its mark.
\<close>

theorem vecp_accepted_token_is_live:
  assumes "vecp_session track imax d v issued st co" and "k < length issued" and "k \<notin> co"
    and "vec_restore (vecp_cfg track imax d) (fst (issued ! k)) v = Inr v'"
  shows "k \<in> set st \<and> ps_data (v_store v') = snd (issued ! k)"
  using vecp.ck.accepted_token_live [OF assms] .

theorem vecp_accepted_token_is_live_witness:
  "\<exists>t v v' w. vec_mark vp8 no_shrink (fst (vecp_new 0)) = Inr (t, v) \<and> vec_push vp8 7 v = Inr v' \<and>
    vec_restore vp8 t v' = Inr w \<and> ps_data (v_store w) = []"
proof -
  obtain t v v' where d: "vec_mark vp8 no_shrink (fst (vecp_new 0)) = Inr (t, v)" "vec_push vp8 7 v = Inr v'"
    "vecp_session True 255 0 v' [(t, [])] [0] {}" "v_forks v' = fork_history_new" by (rule vecp_demo)
  obtain w where w: "vec_restore vp8 t v' = Inr w"
    using vecp.ck.live_token_restores [OF d(3), of 0] d(4) by (auto simp: fork_history_new_def)
  with d vecp_accepted_token_is_live [OF d(3), of 0 w] show ?thesis by auto
qed

text \<open>
  The same for the inline layout: over every \<open>Tagged\<close> type, a live token of a \<open>VecI\<close> restores
  the contents at its mark.
\<close>

theorem veci_live_token_restores:
  assumes "tagged_repr T okv" and "veci_session T okv track imax v issued st co" and "k \<in> set st"
    and "length st < 2 ^ 32" and "length (origins (v_forks v)) + 1 < 2 ^ 32"
  shows "\<exists>v'. vec_restore (veci_cfg T track imax) (fst (issued ! k)) v = Inr v' \<and>
    is_vals T (v_store v') = snd (issued ! k)"
  using checkpointed.live_token_restores
    [OF semi_vec.is_checkpointed [OF tagged_repr.veci_semi_vec [OF assms(1)]] assms(2-5)] .

theorem veci_live_token_restores_witness:
  "\<exists>t v w. vec_mark (veci_cfg (bool_tagged_ops (0 :: nat)) True 255) no_shrink (fst (veci_new 0)) = Inr (t, v) \<and>
    vec_restore (veci_cfg (bool_tagged_ops 0) True 255) t v = Inr w \<and> is_vals (bool_tagged_ops 0) (v_store w) = []"
proof -
  let ?T = "bool_tagged_ops (0 :: nat)" let ?v0 = "fst (veci_new 0)"
  obtain t v where m: "vec_mark (veci_cfg ?T True 255) no_shrink ?v0 = Inr (t, v)" and f: "v_forks v = fork_history_new"
    by (simp add: veci_cfg_def inline_ops_def is_new_def veci_new_def is_prepare_mark_def vecp_eval)
  have s0: "veci_session ?T (\<lambda>_. True) True 255 ?v0 [] [] {}" by (intro session.fresh veci_new_fresh)
  have "veci_session ?T (\<lambda>_. True) True 255 v [(t, [])] [0] {}" using session.mark [OF s0, OF m] by (simp add: new_contents)
  from veci_live_token_restores [OF bt.tagged_repr_axioms this, of 0] m f show ?thesis
    by (simp add: fork_history_new_def)
qed

text \<open>
  C3: the \<open>VecP\<close> refines the specification that keeps a full copy of the contents per open mark: every
  program gets the same answers, the same tokens, the same panic and the same final contents.
\<close>

theorem vecp_refines_copies:
  "fst (run (vec_step (vecp_cfg track imax d)) cs (fst (vecp_new counter), [])) =
     fst (run (spec_step track imax) cs (avec_new counter, [])) \<and>
   agree (\<lambda>(v, ts) (a, ts'). ps_data (v_store v) = a_cur a \<and> ts = ts')
     (snd (run (vec_step (vecp_cfg track imax d)) cs (fst (vecp_new counter), [])))
     (snd (run (spec_step track imax) cs (avec_new counter, [])))"
  by (rule vecp_run)

text \<open>
  C4: the parallel and the inline layout are observationally equal: over storable values, every program
  gets from a \<open>VecI\<close> what it gets from a \<open>VecP\<close>.
\<close>

theorem layouts_observationally_equal:
  assumes "tagged_repr T okv" and "\<forall>c \<in> set cs. \<forall>x \<in> cmd_vals c. okv x"
  shows "fst (run (vec_step (veci_cfg T track imax)) cs (fst (veci_new counter), [])) =
     fst (run (vec_step (vecp_cfg track imax d)) cs (fst (vecp_new counter), [])) \<and>
   agree (\<lambda>(v, ts) (w, ts'). is_vals T (v_store v) = ps_data (v_store w) \<and> ts = ts')
     (snd (run (vec_step (veci_cfg T track imax)) cs (fst (veci_new counter), [])))
     (snd (run (vec_step (vecp_cfg track imax d)) cs (fst (vecp_new counter), [])))"
  using veci_run [OF assms, of track imax counter] vecp_run [of track imax d cs counter]
    agree_join [where Q = "\<lambda>(v, ts) (w, ts'). is_vals T (v_store v) = ps_data (v_store w) \<and> ts = ts'",
      OF veci_run [OF assms, of track imax counter, THEN conjunct2] vecp_run [of track imax d cs counter, THEN conjunct2]]
  by auto

theorem layouts_observationally_equal_witness:
  "fst (run (vec_step (veci_cfg (id_nat_tagged :: (nat, 32 word) tagged_ops) True 255))
      [CPush 3, CMark (Never, 0, 0), CSet 0 4, CRestore 0, CGet 0] (fst (veci_new 0), [])) =
   fst (run (vec_step (vecp_cfg True 255 0))
      [CPush 3, CMark (Never, 0, 0), CSet 0 4, CRestore 0, CGet 0] (fst (vecp_new 0), []))"
  using layouts_observationally_equal [OF id31_t.tagged_repr_axioms,
      of "[CPush 3, CMark (Never, 0, 0), CSet 0 4, CRestore 0, CGet 0]" True 255 0 0]
  by (simp add: cmd_vals_def id_nat_dom_def)

text \<open>
  Memory of the undo log is bounded: the log of a vector holds at most one entry per element of the
  contents at each open mark, however many writes happened.
\<close>

theorem vecp_diff_log_bounded:
  assumes "vecp_session track imax d v issued st co"
  shows "vec_diff_log_len v \<le> (\<Sum>k \<leftarrow> st. length (snd (issued ! k)))"
  using vecp.log_bound vecp.ck.session_inv [OF assms] by (fastforce simp: comp_def)

theorem vecp_diff_log_bounded_witness:
  "\<exists>t v v'. vec_mark vp8 no_shrink (fst (vecp_new 0)) = Inr (t, v) \<and> vec_push vp8 7 v = Inr v' \<and> vec_diff_log_len v' \<le> 0"
proof -
  obtain t v v' where d: "vec_mark vp8 no_shrink (fst (vecp_new 0)) = Inr (t, v)" "vec_push vp8 7 v = Inr v'"
    "vecp_session True 255 0 v' [(t, [])] [0] {}" by (rule vecp_demo)
  with vecp_diff_log_bounded [OF d(3)] show ?thesis by simp
qed

text \<open>
  C33: a token that was itself restored is not always rejected.  Restore any token of a \<open>VecP\<close>, go on with any updates,
  take a mark, and go on with any updates: as long as the counters of marks and forks do not overflow, a second \<open>restore\<close> of
  the same token is accepted, and it gives back the contents at the new mark, whatever the contents at its own mark were.
  \<open>is_valid\<close> compares \<open>token.depth <= origin.fork_depth\<close>.
\<close>

theorem consumed_token_accepted:
  assumes "vecp_session track imax d v issued st co" and "k < length issued"
    and "vec_restore (vecp_cfg track imax d) (fst (issued ! k)) v = Inr v1"
    and "(vec_upd (vecp_cfg track imax d) (\<lambda>_. True))\<^sup>*\<^sup>* v1 v2" and "vec_mark (vecp_cfg track imax d) sh v2 = Inr (t', v3)"
    and "(vec_upd (vecp_cfg track imax d) (\<lambda>_. True))\<^sup>*\<^sup>* v3 v4"
    and "length st < 2 ^ 32" and "length (origins (v_forks v)) + 2 < 2 ^ 32"
  shows "\<exists>v5. vec_restore (vecp_cfg track imax d) (fst (issued ! k)) v4 = Inr v5 \<and> ps_data (v_store v5) = ps_data (v_store v2)"
  using vecp.ck.restored_token_accepted_again [OF assms] .

lemma restored_trace:
  "rbind (vec_mark vp8 no_shrink (fst (vecp_new 0))) (\<lambda>(t, v). rbind (vec_push vp8 7 v) (\<lambda>w. rbind (vec_restore vp8 t w) (\<lambda>v1.
   rbind (vec_push vp8 5 v1) (\<lambda>v2. rbind (vec_mark vp8 no_shrink v2) (\<lambda>(t', v3). Inr (ps_data (v_store v1), ps_data (v_store v2))))))) =
   Inr ([], [5])"
  by (simp add: vecp_eval vec_resize_def div_ceil_def is_bit_set_def)

theorem consumed_token_accepted_witness:
  "\<exists>t v w v1 v2 t' v3 v5. vec_mark vp8 no_shrink (fst (vecp_new 0)) = Inr (t, v) \<and> vec_push vp8 7 v = Inr w \<and> vec_restore vp8 t w = Inr v1 \<and>
    vec_push vp8 5 v1 = Inr v2 \<and> vec_mark vp8 no_shrink v2 = Inr (t', v3) \<and>
    vec_restore vp8 t v3 = Inr v5 \<and> ps_data (v_store v1) = [] \<and> ps_data (v_store v5) = [5]"
proof -
  obtain t v w where d: "vec_mark vp8 no_shrink (fst (vecp_new 0)) = Inr (t, v)" "vec_push vp8 7 v = Inr w"
    "vecp_session True 255 0 w [(t, [])] [0] {}" "v_forks w = fork_history_new" by (rule vecp_demo)
  obtain v1 v2 t' v3 where e: "vec_restore vp8 t w = Inr v1" "vec_push vp8 5 v1 = Inr v2" "vec_mark vp8 no_shrink v2 = Inr (t', v3)"
    "ps_data (v_store v1) = []" "ps_data (v_store v2) = [5]"
    using restored_trace unfolding d(1,2) rbind_Inr prod.case by (auto elim!: rbind_eq_InrE)
  have u: "(vec_upd vp8 (\<lambda>_. True))\<^sup>*\<^sup>* v1 v2" by (rule r_into_rtranclp, rule vec_upd.push [OF _ e(2)]) simp
  have "\<exists>v5. vec_restore vp8 t v3 = Inr v5 \<and> ps_data (v_store v5) = [5]"
    using consumed_token_accepted [OF d(3), of 0 v1 v2 no_shrink t' v3 v3] e u d(4) by (simp add: fork_history_new_def)
  then show ?thesis using d e by blast
qed

end
