(* ===== verification/Append_Only.thy ===== *)
theory Append_Only
  imports Index_Like Token
begin

text \<open>
  The push-only vector, \<open>containers/src/append_only_vec.rs\<close>: \<open>mark\<close> saves the length, \<open>restore\<close>
  truncates to it.  The parameters are \<open>TRACK\<close> and \<open>imax\<close>, the largest value of the index word; the
  shrink policy of \<open>mark\<close> changes the capacity of the buffer only.
\<close>

section \<open>The operations\<close>

record 't aov =
  av_data :: "'t list"
  av_frames :: "nat list"
  av_forks :: fork_history
  av_id :: "32 word"

definition aov_new :: "32 word \<Rightarrow> 't aov \<times> 32 word" where
  "aov_new counter =
    (let (i, counter') = container_id_new counter
     in (\<lparr>av_data = [], av_frames = [], av_forks = fork_history_new, av_id = i\<rparr>, counter'))"

definition aov_push :: "nat \<Rightarrow> 't \<Rightarrow> 't aov \<Rightarrow> (nat \<times> 't aov) res" where
  "aov_push imax x v =
    rbind (expect FullForIndexWord (idx_try imax (length (av_data v)))) (\<lambda>idx.
    rbind (rassert (idx_try imax (idx + 1) \<noteq> None) FullForIndexWord) (\<lambda>_.
    Inr (idx, v\<lparr>av_data := av_data v @ [x]\<rparr>)))"

definition aov_get :: "nat \<Rightarrow> 't aov \<Rightarrow> 't res" where
  "aov_get i v = nth_res (av_data v) i"

definition aov_len :: "nat \<Rightarrow> 't aov \<Rightarrow> nat res" where
  "aov_len imax v = expect LenOverflow (idx_try imax (length (av_data v)))"

definition aov_as_slice :: "'t aov \<Rightarrow> 't list" where
  "aov_as_slice v = av_data v"

definition aov_is_empty :: "'t aov \<Rightarrow> bool" where
  "aov_is_empty v = (av_data v = [])"

definition aov_mark :: "bool \<Rightarrow> nat \<Rightarrow> 't aov \<Rightarrow> (vec_token \<times> 't aov) res" where
  "aov_mark track imax v =
    rbind (rassert track Untracked) (\<lambda>_.
    rbind (narrow_count (length (av_frames v))) (\<lambda>d.
    rbind (aov_len imax v) (\<lambda>saved.
    Inr (\<lparr>branch_id = current_branch (av_forks v), depth = d, frame_index = d, container_id = av_id v\<rparr>,
         v\<lparr>av_frames := av_frames v @ [saved]\<rparr>))))"

definition aov_validate_token :: "vec_token \<Rightarrow> 't aov \<Rightarrow> unit res" where
  "aov_validate_token token v =
    rbind (rassert (container_id token = av_id v) WrongContainer) (\<lambda>_.
    rbind (narrow_count (length (av_frames v))) (\<lambda>d.
    rbind (is_valid (av_forks v) token d) (\<lambda>ok.
    rbind (rassert ok AbandonedFuture) (\<lambda>_.
    rassert (frame_index token < length (av_frames v)) BeyondFrameStack))))"

definition aov_restore :: "bool \<Rightarrow> vec_token \<Rightarrow> 't aov \<Rightarrow> 't aov res" where
  "aov_restore track token v =
    rbind (rassert track Untracked) (\<lambda>_.
    rbind (aov_validate_token token v) (\<lambda>_.
    let target = frame_index token in
    rbind (nth_res (av_frames v) target) (\<lambda>saved.
    let fs = take target (av_frames v) in
    rbind (narrow_count (length fs)) (\<lambda>d.
    rbind (fork token d (av_forks v)) (\<lambda>h.
    Inr (v\<lparr>av_data := take saved (av_data v), av_frames := fs, av_forks := h\<rparr>))))))"

definition aov_depth :: "'t aov \<Rightarrow> nat" where
  "aov_depth v = length (av_frames v)"

definition aov_is_valid_token :: "bool \<Rightarrow> vec_token \<Rightarrow> 't aov \<Rightarrow> bool res" where
  "aov_is_valid_token track token v =
    (if track \<and> container_id token = av_id v
     then rbind (narrow_count (length (av_frames v))) (is_valid (av_forks v) token)
     else Inr False)"

section \<open>The invariant\<close>

text \<open>Every snapshot is a prefix of the next one and of the data; the length stays below the index bound.\<close>

definition aov_rel :: "bool \<Rightarrow> nat \<Rightarrow> 't aov \<Rightarrow> 't list list \<Rightarrow> bool" where
  "aov_rel track imax v snaps \<longleftrightarrow>
    av_frames v = map length snaps \<and> sorted (map length snaps) \<and>
    (\<forall>s \<in> set snaps. length s \<le> length (av_data v) \<and> s = take (length s) (av_data v)) \<and>
    (snaps \<noteq> [] \<longrightarrow> track) \<and> length (av_data v) \<le> imax"

lemma aov_new_rel: "aov_rel track imax (fst (aov_new counter)) []"
  by (simp add: aov_rel_def aov_new_def container_id_new_def)

lemma aov_push_ok:
  "length (av_data v) < imax \<Longrightarrow> aov_push imax x v = Inr (length (av_data v), v\<lparr>av_data := av_data v @ [x]\<rparr>)"
  by (simp add: aov_push_def idx_try_def)

lemma aov_push_full: "imax \<le> length (av_data v) \<Longrightarrow> aov_push imax x v = Inl FullForIndexWord"
  by (cases "length (av_data v) = imax") (simp_all add: aov_push_def idx_try_def)

lemma aov_push_rel:
  assumes "aov_rel track imax v snaps" and "length (av_data v) < imax"
  shows "aov_rel track imax (v\<lparr>av_data := av_data v @ [x]\<rparr>) snaps"
  using assms by (auto simp: aov_rel_def)

lemma aov_mark_ok:
  assumes "aov_rel track imax v snaps" and "track" and "length snaps < 2 ^ 32"
  shows "aov_mark track imax v = Inr (\<lparr>branch_id = current_branch_id (av_forks v), depth = length snaps,
      frame_index = length snaps, container_id = av_id v\<rparr>, v\<lparr>av_frames := av_frames v @ [length (av_data v)]\<rparr>)"
  using assms by (simp add: aov_mark_def aov_rel_def aov_len_def idx_try_def narrow_count_def current_branch_def)

lemma aov_mark_only:
  assumes "aov_rel track imax v snaps" and "aov_mark track imax v = Inr r"
  shows "track" and "length snaps < 2 ^ 32"
  using assms by (auto simp: aov_mark_def aov_rel_def narrow_count_def elim!: rbind_eq_InrE split: if_splits)

lemma aov_mark_rel:
  assumes "aov_rel track imax v snaps" and "track"
  shows "aov_rel track imax (v\<lparr>av_frames := av_frames v @ [length (av_data v)]\<rparr>) (snaps @ [av_data v])"
  using assms by (auto simp: aov_rel_def sorted_append)

lemma aov_restore_only:
  assumes "aov_rel track imax v snaps" and "aov_restore track t v = Inr v'"
  shows "track" and "container_id t = av_id v" and "is_valid (av_forks v) t (length snaps) = Inr True"
    and "frame_index t < length snaps" and "length snaps < 2 ^ 32" and "length (origins (av_forks v)) + 1 < 2 ^ 32"
  using assms
  by (auto simp: aov_restore_def aov_validate_token_def aov_rel_def fork_def narrow_count_def Let_def
      elim!: rbind_eq_InrE split: if_splits)

lemma aov_restore_ok:
  assumes r: "aov_rel track imax v snaps" and t: "track" "container_id t = av_id v"
    and w: "is_valid (av_forks v) t (length snaps) = Inr True" and k: "frame_index t < length snaps"
    and sz: "length snaps < 2 ^ 32" "length (origins (av_forks v)) + 1 < 2 ^ 32"
  shows "aov_restore track t v = Inr (v\<lparr>av_data := snaps ! frame_index t, av_frames := take (frame_index t) (av_frames v),
    av_forks := forked (av_forks v) (branch_id t) (depth t)\<rparr>)"
proof -
  have "take (length (snaps ! frame_index t)) (av_data v) = snaps ! frame_index t"
    using r nth_mem [OF k] by (auto simp: aov_rel_def)
  then show ?thesis
    using assms fork_forked [OF sz(2), of t "frame_index t"]
    by (simp add: aov_restore_def aov_validate_token_def aov_rel_def narrow_count_def Let_def)
qed

lemma aov_restore_rel:
  assumes r: "aov_rel track imax v snaps" and k: "k < length snaps"
  shows "aov_rel track imax (v\<lparr>av_data := snaps ! k, av_frames := take k (av_frames v), av_forks := h\<rparr>) (take k snaps)"
proof -
  have pre: "length s \<le> length (snaps ! k) \<and> s = take (length s) (snaps ! k)" if s: "s \<in> set (take k snaps)" for s
  proof -
    obtain j where j: "j < k" "s = snaps ! j" using s k by (auto simp: in_set_conv_nth)
    have "length s \<le> length (snaps ! k)"
      using r j k sorted_nth_mono [of "map length snaps" j k] by (simp add: aov_rel_def)
    moreover have "s = take (length s) (av_data v)" and "snaps ! k = take (length (snaps ! k)) (av_data v)"
      using r j k nth_mem [of j snaps] nth_mem [of k snaps] unfolding aov_rel_def by (simp, force)+
    ultimately show ?thesis by (metis min.absorb1 take_take)
  qed
  have "length (snaps ! k) \<le> imax" using r nth_mem [OF k] by (force simp: aov_rel_def)
  moreover have "sorted (take k (map length snaps))" using r by (intro sorted_wrt_take) (simp add: aov_rel_def)
  ultimately show ?thesis using r pre k by (auto simp: aov_rel_def take_map)
qed

section \<open>The vector as a checkpointed container\<close>

definition aov_fresh :: "'t aov \<Rightarrow> bool" where
  "aov_fresh v \<longleftrightarrow> (\<exists>counter. v = fst (aov_new counter))"

definition aov_upd :: "nat \<Rightarrow> 't aov \<Rightarrow> 't aov \<Rightarrow> bool" where
  "aov_upd imax v v' \<longleftrightarrow> (\<exists>x i. aov_push imax x v = Inr (i, v'))"

definition aov_good :: "'t aov \<Rightarrow> vec_token \<Rightarrow> bool" where
  "aov_good v t \<longleftrightarrow> container_id t = av_id v \<and> frame_index t = depth t"

lemma aov_upd_iff: "aov_upd imax v v' \<longleftrightarrow> length (av_data v) < imax \<and> (\<exists>x. v' = v\<lparr>av_data := av_data v @ [x]\<rparr>)"
  by (cases "length (av_data v) < imax") (auto simp: aov_upd_def aov_push_ok aov_push_full not_less)

lemma aov_checkpointed:
  "checkpointed aov_fresh (aov_upd imax) (\<lambda>sh :: unit. aov_mark track imax) (aov_restore track) av_data
    branch_id depth av_forks (aov_rel track imax) aov_good"
proof
  fix v v' :: "'t aov" and snaps t t' and m :: unit
  show "aov_fresh v \<Longrightarrow> aov_rel track imax v [] \<and> av_forks v = fork_history_new"
    using aov_new_rel by (auto simp: aov_fresh_def) (simp add: aov_new_def container_id_new_def)
  show "aov_rel track imax v snaps \<Longrightarrow> aov_upd imax v v' \<Longrightarrow> aov_rel track imax v' snaps \<and> av_forks v' = av_forks v"
    using aov_push_rel by (auto simp: aov_upd_iff)
  show "aov_upd imax v v' \<Longrightarrow> aov_good v t \<Longrightarrow> aov_good v' t"
    by (auto simp: aov_upd_iff aov_good_def)
  show "aov_rel track imax v snaps \<Longrightarrow> aov_mark track imax v = Inr (t, v') \<Longrightarrow>
      aov_rel track imax v' (snaps @ [av_data v]) \<and> av_forks v' = av_forks v \<and> aov_good v' t \<and>
      branch_id t = current_branch_id (av_forks v) \<and> depth t = length snaps"
    using aov_mark_ok [of track imax v snaps] aov_mark_only [of track imax v snaps "(t, v')"] aov_mark_rel [of track imax v snaps]
    by (auto simp: aov_good_def)
  show "aov_mark track imax v = Inr (t', v') \<Longrightarrow> aov_good v t \<Longrightarrow> aov_good v' t"
    by (auto simp: aov_mark_def aov_good_def elim!: rbind_eq_InrE)
  show "aov_restore track t' v = Inr v' \<Longrightarrow> aov_good v t \<Longrightarrow> aov_good v' t"
    by (auto simp: aov_restore_def aov_good_def Let_def elim!: rbind_eq_InrE)
  assume r: "aov_rel track imax v snaps" and wf: "fork_wf (av_forks v)" and g: "aov_good v t"
  show "depth t < length snaps \<and>
      within (depth t) (lim (origins (av_forks v)) (current_branch_id (av_forks v)) (branch_id t)) (length snaps) \<and>
      av_data v' = snaps ! depth t \<and> aov_rel track imax v' (take (depth t) snaps) \<and>
      av_forks v' = forked (av_forks v) (branch_id t) (depth t)" if ok: "aov_restore track t v = Inr v'"
    using aov_restore_ok [OF r aov_restore_only [OF r ok]] aov_restore_only(3,4) [OF r ok] aov_restore_rel [OF r] g ok
      is_valid_lim [OF wf, of t "length snaps"]
    by (auto simp: aov_good_def)
  show "depth t < length snaps \<Longrightarrow>
      within (depth t) (lim (origins (av_forks v)) (current_branch_id (av_forks v)) (branch_id t)) (length snaps) \<Longrightarrow>
      length snaps < 2 ^ 32 \<Longrightarrow> length (origins (av_forks v)) + 1 < 2 ^ 32 \<Longrightarrow> \<exists>v'. aov_restore track t v = Inr v'"
    using aov_restore_ok [OF r, of t] g is_valid_lim [OF wf, of t "length snaps"] r
    by (cases "snaps = []") (auto simp: aov_good_def aov_rel_def)
qed

interpretation aov: checkpointed aov_fresh "aov_upd imax" "\<lambda>sh :: unit. aov_mark track imax" "aov_restore track" av_data
    branch_id depth av_forks "aov_rel track imax" aov_good for imax track
  by (rule aov_checkpointed)

section \<open>Properties\<close>

abbreviation aov_session :: "bool \<Rightarrow> nat \<Rightarrow> 't aov \<Rightarrow> (vec_token \<times> 't list) list \<Rightarrow> nat list \<Rightarrow> nat set \<Rightarrow> bool" where
  "aov_session track imax \<equiv> session aov_fresh (aov_upd imax) (\<lambda>sh :: unit. aov_mark track imax) (aov_restore track) av_data depth"

lemma aov_demo: "aov_session True 255 (\<lparr>av_data = [7 :: nat], av_frames = [0], av_forks = fork_history_new, av_id = 0\<rparr>)
    [(\<lparr>branch_id = 0, depth = 0, frame_index = 0, container_id = 0\<rparr>, [])] [0] {}"
proof -
  let ?v0 = "\<lparr>av_data = [] :: nat list, av_frames = [], av_forks = fork_history_new, av_id = 0\<rparr>"
  let ?t = "\<lparr>branch_id = 0, depth = 0, frame_index = 0, container_id = 0\<rparr>"
  have s0: "aov_session True 255 ?v0 [] [] {}"
    by (intro session.fresh) (auto simp: aov_fresh_def aov_new_def container_id_new_def intro: exI [of _ 0])
  have m: "aov_mark True 255 ?v0 = Inr (?t, ?v0\<lparr>av_frames := [0]\<rparr>)"
    by (simp add: aov_mark_def aov_len_def idx_try_def narrow_count_def current_branch_def fork_history_new_def)
  have s1: "aov_session True 255 (?v0\<lparr>av_frames := [0]\<rparr>) [(?t, [])] [0] {}"
    using session.mark [OF s0, OF m] by simp
  show ?thesis using session.update [OF s1, of "?v0\<lparr>av_frames := [0], av_data := [7]\<rparr>"] by (simp add: aov_upd_iff)
qed

text \<open>
  A live token of an \<open>AppendOnlyVec\<close> restores exactly the contents at its mark, and an accepted
  token that was never restored before is live.
\<close>

theorem aov_restore_exact:
  assumes "aov_session track imax v issued st co" and "k < length issued" and "k \<notin> co"
    and "length st < 2 ^ 32" and "length (origins (av_forks v)) + 1 < 2 ^ 32"
  shows "(\<exists>v'. aov_restore track (fst (issued ! k)) v = Inr v') = (k \<in> set st) \<and>
    (\<forall>v'. aov_restore track (fst (issued ! k)) v = Inr v' \<longrightarrow> av_data v' = snd (issued ! k))"
  using aov.live_token_restores [OF assms(1) _ assms(4,5)] aov.accepted_token_live [OF assms(1-3)] by blast

theorem aov_restore_exact_witness:
  "\<exists>v'. aov_restore True \<lparr>branch_id = 0, depth = 0, frame_index = 0, container_id = 0\<rparr>
     \<lparr>av_data = [7 :: nat], av_frames = [0], av_forks = fork_history_new, av_id = 0\<rparr> = Inr v' \<and> av_data v' = []"
  using aov_restore_exact [OF aov_demo, of 0] by (auto simp: fork_history_new_def)

text \<open>
  \<open>AppendOnlyVec\<close> never leaves its index word: \<open>push\<close> refuses the element whose successor length
  would not be representable, so \<open>len()\<close> never panics on any reachable vector.
\<close>

theorem aov_len_never_panics:
  assumes "aov_session track imax v issued st co"
  shows "aov_len imax v = Inr (length (av_data v)) \<and>
    aov_push imax x v = (if length (av_data v) < imax then Inr (length (av_data v), v\<lparr>av_data := av_data v @ [x]\<rparr>)
      else Inl FullForIndexWord)"
  using aov.session_inv [OF assms]
  by (auto simp: aov_rel_def aov_len_def idx_try_def aov_push_ok aov_push_full)

theorem aov_len_never_panics_witness:
  "aov_len 255 \<lparr>av_data = [7 :: nat], av_frames = [0], av_forks = fork_history_new, av_id = 0\<rparr> = Inr 1"
  using aov_len_never_panics [OF aov_demo] by simp

end
