(* ===== verification/Sp_Map.thy ===== *)
theory Sp_Map
  imports Append_Only "HOL-Library.AList"
begin

text \<open>
  The semi-persistent map, \<open>containers/src/map.rs\<close>: an append-only log of entries, the source of
  truth, and a transient hash index from keys to log positions that \<open>restore\<close> rebuilds.  The hash
  table is \<open>hashbrown::HashMap\<close>, a third-party package: it is a record \<open>H\<close> of the methods that the code
  calls, and the locale \<open>hash_index\<close> states the documented behaviour of those methods.
\<close>

section \<open>The hash table\<close>

record ('m, 'k) hash_ops =
  hm_new :: 'm
  hm_insert :: "'k \<Rightarrow> nat \<Rightarrow> 'm \<Rightarrow> 'm"
  hm_get :: "'k \<Rightarrow> 'm \<Rightarrow> nat option"
  hm_clear :: "'m \<Rightarrow> 'm"
  hm_len :: "'m \<Rightarrow> nat"

locale hash_index =
  fixes H :: "('m, 'k) hash_ops"
  assumes get_new: "hm_get H k (hm_new H) = None"
    and get_insert: "hm_get H k (hm_insert H k' i m) = (if k = k' then Some i else hm_get H k m)"
    and get_clear: "hm_get H k (hm_clear H m) = None"
    and len_keys: "hm_len H m = card {k. hm_get H k m \<noteq> None}"
    and finite_keys: "finite {k. hm_get H k m \<noteq> None}"

section \<open>The operations\<close>

record ('m, 'k, 'v) sp_map =
  m_log :: "('k \<times> 'v) aov"
  m_index :: 'm

definition map_new :: "('m, 'k) hash_ops \<Rightarrow> 32 word \<Rightarrow> ('m, 'k, 'v) sp_map \<times> 32 word" where
  "map_new H counter = (let (l, counter') = aov_new counter in (\<lparr>m_log = l, m_index = hm_new H\<rparr>, counter'))"

definition map_insert :: "('m, 'k) hash_ops \<Rightarrow> nat \<Rightarrow> 'k \<Rightarrow> 'v \<Rightarrow> ('m, 'k, 'v) sp_map \<Rightarrow> (nat \<times> ('m, 'k, 'v) sp_map) res" where
  "map_insert H imax key val m =
    rbind (aov_push imax (key, val) (m_log m)) (\<lambda>(i, l).
    Inr (i, m\<lparr>m_log := l, m_index := hm_insert H key i (m_index m)\<rparr>))"

definition map_id_of :: "('m, 'k) hash_ops \<Rightarrow> 'k \<Rightarrow> ('m, 'k, 'v) sp_map \<Rightarrow> nat option" where
  "map_id_of H key m = hm_get H key (m_index m)"

definition map_get :: "nat \<Rightarrow> ('m, 'k, 'v) sp_map \<Rightarrow> 'v res" where
  "map_get idx m = rbind (aov_get idx (m_log m)) (\<lambda>e. Inr (snd e))"

definition map_key :: "nat \<Rightarrow> ('m, 'k, 'v) sp_map \<Rightarrow> 'k res" where
  "map_key idx m = rbind (aov_get idx (m_log m)) (\<lambda>e. Inr (fst e))"

definition map_get_by_key :: "('m, 'k) hash_ops \<Rightarrow> 'k \<Rightarrow> ('m, 'k, 'v) sp_map \<Rightarrow> 'v option res" where
  "map_get_by_key H key m = (case map_id_of H key m of
      None \<Rightarrow> Inr None
    | Some i \<Rightarrow> rbind (map_get i m) (\<lambda>v. Inr (Some v)))"

definition map_len :: "('m, 'k) hash_ops \<Rightarrow> ('m, 'k, 'v) sp_map \<Rightarrow> nat" where
  "map_len H m = hm_len H (m_index m)"

definition map_log_len :: "nat \<Rightarrow> ('m, 'k, 'v) sp_map \<Rightarrow> nat res" where
  "map_log_len imax m = aov_len imax (m_log m)"

definition map_is_empty :: "('m, 'k) hash_ops \<Rightarrow> ('m, 'k, 'v) sp_map \<Rightarrow> bool" where
  "map_is_empty H m = (hm_len H (m_index m) = 0)"

definition map_contains_key :: "('m, 'k) hash_ops \<Rightarrow> 'k \<Rightarrow> ('m, 'k, 'v) sp_map \<Rightarrow> bool" where
  "map_contains_key H key m = (hm_get H key (m_index m) \<noteq> None)"

definition map_mark :: "bool \<Rightarrow> nat \<Rightarrow> ('m, 'k, 'v) sp_map \<Rightarrow> (vec_token \<times> ('m, 'k, 'v) sp_map) res" where
  "map_mark track imax m = rbind (aov_mark track imax (m_log m)) (\<lambda>(t, l). Inr (t, m\<lparr>m_log := l\<rparr>))"

text \<open>The loop of \<open>rebuild_index\<close>, from position \<open>i\<close> of the surviving log.\<close>

fun rebuild_loop :: "('m, 'k) hash_ops \<Rightarrow> nat \<Rightarrow> nat \<Rightarrow> ('k \<times> 'v) list \<Rightarrow> 'm \<Rightarrow> 'm res" where
  "rebuild_loop H imax i [] ix = Inr ix"
| "rebuild_loop H imax i ((k, _) # es) ix =
    rbind (expect LenOverflow (idx_try imax i)) (\<lambda>pos. rebuild_loop H imax (i + 1) es (hm_insert H k pos ix))"

definition rebuild_index :: "('m, 'k) hash_ops \<Rightarrow> nat \<Rightarrow> ('m, 'k, 'v) sp_map \<Rightarrow> ('m, 'k, 'v) sp_map res" where
  "rebuild_index H imax m =
    rbind (rebuild_loop H imax 0 (av_data (m_log m)) (hm_clear H (m_index m))) (\<lambda>ix. Inr (m\<lparr>m_index := ix\<rparr>))"

definition map_restore :: "('m, 'k) hash_ops \<Rightarrow> bool \<Rightarrow> nat \<Rightarrow> vec_token \<Rightarrow> ('m, 'k, 'v) sp_map \<Rightarrow> ('m, 'k, 'v) sp_map res" where
  "map_restore H track imax token m =
    rbind (aov_restore track token (m_log m)) (\<lambda>l. rebuild_index H imax (m\<lparr>m_log := l\<rparr>))"

definition map_depth :: "('m, 'k, 'v) sp_map \<Rightarrow> nat" where
  "map_depth m = aov_depth (m_log m)"

definition map_is_valid_token :: "bool \<Rightarrow> vec_token \<Rightarrow> ('m, 'k, 'v) sp_map \<Rightarrow> bool res" where
  "map_is_valid_token track token m = aov_is_valid_token track token (m_log m)"

section \<open>The index is the log, read backwards\<close>

text \<open>The last position of a key in the log.\<close>

fun last_pos :: "nat \<Rightarrow> ('k \<times> 'v) list \<Rightarrow> 'k \<Rightarrow> nat option" where
  "last_pos i [] k = None"
| "last_pos i (e # es) k = (case last_pos (i + 1) es k of Some j \<Rightarrow> Some j | None \<Rightarrow> if fst e = k then Some i else None)"

lemma last_pos_snoc: "last_pos i (es @ [e]) k = (if fst e = k then Some (i + length es) else last_pos i es k)"
  by (induction es arbitrary: i) auto

lemma last_pos_SomeD: "last_pos i es k = Some j \<Longrightarrow> i \<le> j \<and> j < i + length es \<and> fst (es ! (j - i)) = k"
proof (induction es arbitrary: i)
  case (Cons e es)
  then show ?case
    by (cases "last_pos (i + 1) es k") (fastforce split: if_splits dest: Cons.IH simp: nth_Cons')+
qed simp

lemma last_pos_eq_None: "last_pos i es k = None \<longleftrightarrow> k \<notin> fst ` set es"
proof (induction es arbitrary: i)
  case (Cons e es)
  show ?case using Cons.IH [of "i + 1"] by (cases "last_pos (i + 1) es k") auto
qed simp

text \<open>The value at the last position is the last entry's value for the key.\<close>

lemma last_pos_value: "last_pos i es k = Some j \<Longrightarrow> map_of (rev es) k = Some (snd (es ! (j - i)))"
proof (induction es arbitrary: i j rule: rev_induct)
  case (snoc e es)
  show ?case
  proof (cases "fst e = k")
    case True
    with snoc.prems show ?thesis by (auto simp: last_pos_snoc nth_append)
  next
    case False
    then have l: "last_pos i es k = Some j" using snoc.prems by (simp add: last_pos_snoc)
    then show ?thesis using snoc.IH [OF l] last_pos_SomeD [OF l] False by (cases e) (auto simp: nth_append)
  qed
qed simp

context hash_index begin

lemma rebuild_loop_get:
  assumes "i + length es \<le> imax + 1"
  shows "\<exists>ix'. rebuild_loop H imax i es ix = Inr ix' \<and>
    (\<forall>k. hm_get H k ix' = (case last_pos i es k of Some j \<Rightarrow> Some j | None \<Rightarrow> hm_get H k ix))"
  using assms
proof (induction es arbitrary: i ix)
  case (Cons e es)
  obtain k v where e: "e = (k, v)" by (cases e)
  obtain ix' where ix': "rebuild_loop H imax (i + 1) es (hm_insert H k i ix) = Inr ix'"
      "\<forall>k'. hm_get H k' ix' = (case last_pos (i + 1) es k' of Some j \<Rightarrow> Some j | None \<Rightarrow> hm_get H k' (hm_insert H k i ix))"
    using Cons.IH [of "i + 1" "hm_insert H k i ix"] Cons.prems by auto
  show ?case using ix' e Cons.prems by (auto simp: idx_try_def get_insert split: option.splits)
qed simp

lemma rebuild_index_get:
  assumes "length (av_data (m_log m)) \<le> imax"
  shows "\<exists>ix'. rebuild_index H imax m = Inr (m\<lparr>m_index := ix'\<rparr>) \<and>
    (\<lambda>k. hm_get H k ix') = last_pos 0 (av_data (m_log m))"
proof -
  obtain ix where "rebuild_loop H imax 0 (av_data (m_log m)) (hm_clear H (m_index m)) = Inr ix"
    and ix: "\<forall>k. hm_get H k ix = (case last_pos 0 (av_data (m_log m)) k of Some j \<Rightarrow> Some j
        | None \<Rightarrow> hm_get H k (hm_clear H (m_index m)))"
    using rebuild_loop_get [of 0 "av_data (m_log m)" imax "hm_clear H (m_index m)"] assms by auto
  then have "rebuild_index H imax m = Inr (m\<lparr>m_index := ix\<rparr>)" by (simp add: rebuild_index_def)
  moreover have "(\<lambda>k. hm_get H k ix) = last_pos 0 (av_data (m_log m))"
    using ix by (auto simp: fun_eq_iff get_clear split: option.splits)
  ultimately show ?thesis by blast
qed

end

section \<open>The map as a checkpointed container\<close>

text \<open>What a client observes: the log and where the index finds each key.\<close>

definition map_view :: "('m, 'k) hash_ops \<Rightarrow> ('m, 'k, 'v) sp_map \<Rightarrow> ('k \<times> 'v) list \<times> ('k \<Rightarrow> nat option)" where
  "map_view H m = (av_data (m_log m), \<lambda>k. hm_get H k (m_index m))"

definition log_view :: "('k \<times> 'v) list \<Rightarrow> ('k \<times> 'v) list \<times> ('k \<Rightarrow> nat option)" where
  "log_view es = (es, last_pos 0 es)"

definition map_rel ::
  "('m, 'k) hash_ops \<Rightarrow> bool \<Rightarrow> nat \<Rightarrow> ('m, 'k, 'v) sp_map \<Rightarrow> (('k \<times> 'v) list \<times> ('k \<Rightarrow> nat option)) list \<Rightarrow> bool" where
  "map_rel H track imax m snaps \<longleftrightarrow>
    aov_rel track imax (m_log m) (map fst snaps) \<and> set snaps \<subseteq> range log_view \<and>
    map_view H m = log_view (av_data (m_log m))"

definition map_fresh :: "('m, 'k) hash_ops \<Rightarrow> ('m, 'k, 'v) sp_map \<Rightarrow> bool" where
  "map_fresh H m \<longleftrightarrow> (\<exists>counter. m = fst (map_new H counter))"

definition map_upd :: "('m, 'k) hash_ops \<Rightarrow> nat \<Rightarrow> ('m, 'k, 'v) sp_map \<Rightarrow> ('m, 'k, 'v) sp_map \<Rightarrow> bool" where
  "map_upd H imax m m' \<longleftrightarrow> (\<exists>k v i. map_insert H imax k v m = Inr (i, m'))"

lemma map_fst_log_view:
  assumes "set snaps \<subseteq> range log_view" and "k < length snaps"
  shows "snaps ! k = log_view (map fst snaps ! k)"
proof -
  have "snaps ! k \<in> range log_view" using assms nth_mem by blast
  then show ?thesis using assms(2) by (auto simp: log_view_def)
qed

context hash_index begin

lemma insert_upd:
  assumes "map_insert H imax k v m = Inr (i, m')"
  shows "aov_upd imax (m_log m) (m_log m')" and "av_data (m_log m') = av_data (m_log m) @ [(k, v)]"
    and "m_index m' = hm_insert H k (length (av_data (m_log m))) (m_index m)" and "i = length (av_data (m_log m))"
    and "av_forks (m_log m') = av_forks (m_log m)" and "av_id (m_log m') = av_id (m_log m)"
  using assms
  by (cases "length (av_data (m_log m)) < imax";
      fastforce simp: map_insert_def aov_push_ok aov_push_full not_less aov_upd_iff)+

lemma insert_rel:
  assumes r: "map_rel H track imax m snaps" and i: "map_insert H imax k v m = Inr (i, m')"
  shows "map_rel H track imax m' snaps"
proof -
  have "aov_rel track imax (m_log m') (map fst snaps)"
    using aov.upd_rel [OF _ insert_upd(1) [OF i]] r by (auto simp: map_rel_def)
  moreover have "map_view H m' = log_view (av_data (m_log m'))"
    using r insert_upd(2,3) [OF i]
    by (auto simp: map_rel_def map_view_def log_view_def last_pos_snoc get_insert fun_eq_iff)
  ultimately show ?thesis using r by (simp add: map_rel_def)
qed

lemma restore_unfold:
  assumes r: "map_rel H track imax m snaps" and l: "aov_restore track t (m_log m) = Inr l"
    and len: "length (av_data l) \<le> imax"
  shows "\<exists>m'. map_restore H track imax t m = Inr m' \<and> m_log m' = l \<and> map_view H m' = log_view (av_data l)"
  using rebuild_index_get [of "m\<lparr>m_log := l\<rparr>" imax] l len
  by (auto simp: map_restore_def map_view_def log_view_def)

lemma map_checkpointed:
  "checkpointed (map_fresh H) (map_upd H imax) (\<lambda>sh :: unit. map_mark track imax) (map_restore H track imax) (map_view H)
    branch_id depth (\<lambda>m. av_forks (m_log m)) (map_rel H track imax) (\<lambda>m. aov_good (m_log m))"
proof
  fix m m' :: "('m, 'k, 'v) sp_map" and snaps t t' and sh :: unit
  show "map_fresh H m \<Longrightarrow> map_rel H track imax m [] \<and> av_forks (m_log m) = fork_history_new"
    by (auto simp: map_fresh_def map_new_def map_rel_def aov_rel_def aov_new_def container_id_new_def
        map_view_def log_view_def get_new)
  show "map_rel H track imax m snaps \<Longrightarrow> map_upd H imax m m' \<Longrightarrow>
      map_rel H track imax m' snaps \<and> av_forks (m_log m') = av_forks (m_log m)"
    using insert_rel insert_upd(5) by (fastforce simp: map_upd_def)
  show "map_upd H imax m m' \<Longrightarrow> aov_good (m_log m) t \<Longrightarrow> aov_good (m_log m') t"
    using insert_upd(6) by (fastforce simp: map_upd_def aov_good_def)
  show "map_mark track imax m = Inr (t', m') \<Longrightarrow> aov_good (m_log m) t \<Longrightarrow> aov_good (m_log m') t"
    using aov.mk_good by (fastforce simp: map_mark_def elim!: rbind_eq_InrE)
  show "map_restore H track imax t' m = Inr m' \<Longrightarrow> aov_good (m_log m) t \<Longrightarrow> aov_good (m_log m') t"
    using aov.rst_good by (fastforce simp: map_restore_def rebuild_index_def elim!: rbind_eq_InrE)
  assume r: "map_rel H track imax m snaps"
  have ar: "aov_rel track imax (m_log m) (map fst snaps)" using r by (simp add: map_rel_def)
  show "map_rel H track imax m' (snaps @ [map_view H m]) \<and> av_forks (m_log m') = av_forks (m_log m) \<and>
      aov_good (m_log m') t \<and> branch_id t = current_branch_id (av_forks (m_log m)) \<and> depth t = length snaps"
    if mk: "map_mark track imax m = Inr (t, m')"
  proof -
    obtain l where l: "aov_mark track imax (m_log m) = Inr (t, l)" "m' = m\<lparr>m_log := l\<rparr>"
      using mk by (auto simp: map_mark_def elim!: rbind_eq_InrE)
    moreover have "av_data l = av_data (m_log m)" using l(1) by (auto simp: aov_mark_def elim!: rbind_eq_InrE)
    ultimately show ?thesis
      using aov.mk_rel [OF ar l(1)] r by (simp add: map_rel_def map_view_def log_view_def)
  qed
  assume wf: "fork_wf (av_forks (m_log m))" and g: "aov_good (m_log m) t"
  have fit: "\<exists>m'. map_restore H track imax t m = Inr m' \<and> m_log m' = l \<and> map_view H m' = log_view (av_data l)"
    if "aov_restore track t (m_log m) = Inr l" for l
  proof -
    have "aov_rel track imax l (take (depth t) (map fst snaps))" using aov.rst_rel [OF ar wf g that] by blast
    then have "length (av_data l) \<le> imax" by (simp add: aov_rel_def)
    then show ?thesis by (rule restore_unfold [OF r that])
  qed
  show "depth t < length snaps \<and>
      within (depth t) (lim (origins (av_forks (m_log m))) (current_branch_id (av_forks (m_log m))) (branch_id t)) (length snaps) \<and>
      map_view H m' = snaps ! depth t \<and> map_rel H track imax m' (take (depth t) snaps) \<and>
      av_forks (m_log m') = forked (av_forks (m_log m)) (branch_id t) (depth t)"
    if ok: "map_restore H track imax t m = Inr m'"
  proof -
    obtain l where l: "aov_restore track t (m_log m) = Inr l" using ok by (auto simp: map_restore_def elim!: rbind_eq_InrE)
    note a = aov.rst_rel [OF ar wf g l]
    have m': "m_log m' = l" "map_view H m' = log_view (av_data l)" using fit [OF l] ok by auto
    have "map_view H m' = log_view (map fst snaps ! depth t)" using m'(2) a by presburger
    also have "\<dots> = snaps ! depth t"
      using a r by (intro map_fst_log_view [symmetric]) (simp_all add: map_rel_def)
    finally have v: "map_view H m' = snaps ! depth t" .
    have "map_rel H track imax m' (take (depth t) snaps)"
      using a r m' set_take_subset [of "depth t" snaps] unfolding map_rel_def by (auto simp: take_map)
    then show ?thesis using a v m'(1) by auto
  qed
  assume "depth t < length snaps"
    and "within (depth t) (lim (origins (av_forks (m_log m))) (current_branch_id (av_forks (m_log m))) (branch_id t)) (length snaps)"
    and "length snaps < 2 ^ 32" and "length (origins (av_forks (m_log m))) + 1 < 2 ^ 32"
  then obtain l where "aov_restore track t (m_log m) = Inr l" using aov.rst_ok [OF ar wf g] by auto
  then show "\<exists>m'. map_restore H track imax t m = Inr m'" using fit by blast
qed

text \<open>A lookup returns the value of the last entry of the log for the key.\<close>

lemma get_by_key_val:
  assumes "map_rel H track imax m snaps"
  shows "map_get_by_key H k m = Inr (map_of (rev (av_data (m_log m))) k)"
proof -
  have ix: "hm_get H k (m_index m) = last_pos 0 (av_data (m_log m)) k"
    using assms by (auto simp: map_rel_def map_view_def log_view_def fun_eq_iff)
  show ?thesis
  proof (cases "last_pos 0 (av_data (m_log m)) k")
    case None
    then have "map_of (rev (av_data (m_log m))) k = None"
      by (simp add: last_pos_eq_None map_of_eq_None_iff)
    with None ix show ?thesis by (simp add: map_get_by_key_def map_id_of_def)
  next
    case (Some j)
    with ix last_pos_SomeD [OF Some] last_pos_value [OF Some] show ?thesis
      by (simp add: map_get_by_key_def map_id_of_def map_get_def aov_get_def)
  qed
qed

lemma len_val:
  assumes "map_rel H track imax m snaps"
  shows "map_len H m = card (fst ` set (av_data (m_log m)))"
proof -
  have "hm_get H k (m_index m) = last_pos 0 (av_data (m_log m)) k" for k
    using assms by (simp add: map_rel_def map_view_def log_view_def fun_eq_iff)
  then have "{k. hm_get H k (m_index m) \<noteq> None} = fst ` set (av_data (m_log m))"
    by (simp add: last_pos_eq_None)
  then show ?thesis by (simp add: map_len_def len_keys)
qed

end

text \<open>An association list meets the documented behaviour.\<close>

definition alist_ops :: "(('k \<times> nat) list, 'k) hash_ops" where
  "alist_ops = \<lparr>hm_new = [], hm_insert = AList.update, hm_get = (\<lambda>k m. map_of m k), hm_clear = (\<lambda>_. []),
     hm_len = (\<lambda>m. length (remdups (map fst m)))\<rparr>"

interpretation alist: hash_index alist_ops
proof
  fix m :: "('k \<times> nat) list"
  have keys: "{k. map_of m k \<noteq> None} = set (map fst m)" by (auto simp: map_of_eq_None_iff dom_map_of_conv_image_fst [symmetric])
  show "hm_len alist_ops m = card {k. hm_get alist_ops k m \<noteq> None}"
    using keys by (simp add: alist_ops_def length_remdups_card_conv)
  show "finite {k. hm_get alist_ops k m \<noteq> None}" using keys by (simp add: alist_ops_def)
qed (simp_all add: alist_ops_def update_conv')

section \<open>Properties\<close>

abbreviation map_session ::
  "('m, 'k) hash_ops \<Rightarrow> bool \<Rightarrow> nat \<Rightarrow> ('m, 'k, 'v) sp_map \<Rightarrow>
   (vec_token \<times> ('k \<times> 'v) list \<times> ('k \<Rightarrow> nat option)) list \<Rightarrow> nat list \<Rightarrow> nat set \<Rightarrow> bool" where
  "map_session H track imax \<equiv> session (map_fresh H) (map_upd H imax) (\<lambda>sh :: unit. map_mark track imax)
    (map_restore H track imax) (map_view H) depth"

abbreviation "map_demo0 \<equiv> fst (map_new alist_ops 0) :: ((nat \<times> nat) list, nat, nat) sp_map"

lemma map_demo:
  obtains t m m' i where "map_mark True 255 map_demo0 = Inr (t, m)" and "map_insert alist_ops 255 1 9 m = Inr (i, m')"
    and "map_session alist_ops True 255 m' [(t, map_view alist_ops map_demo0)] [0] {}"
    and "av_forks (m_log m') = fork_history_new" and "av_data (m_log m') = [(1, 9)]"
proof -
  have s0: "map_session alist_ops True 255 map_demo0 [] [] {}"
    by (intro session.fresh) (auto simp: map_fresh_def)
  obtain t m where m: "map_mark True 255 map_demo0 = Inr (t, m)" "av_data (m_log m) = []"
      "av_forks (m_log m) = fork_history_new"
    by (simp add: map_mark_def map_new_def aov_new_def container_id_new_def aov_mark_def aov_len_def idx_try_def narrow_count_def)
  obtain m' where m': "map_insert alist_ops 255 1 9 m = Inr (0, m')" "av_data (m_log m') = [(1, 9)]"
      "av_forks (m_log m') = fork_history_new"
    using m by (auto simp: map_insert_def aov_push_ok)
  have s1: "map_session alist_ops True 255 m [(t, map_view alist_ops map_demo0)] [0] {}"
    using session.mark [OF s0, OF m(1)] by simp
  have "map_upd alist_ops 255 m m'" using m'(1) by (auto simp: map_upd_def)
  with session.update [OF s1] m m' show ?thesis by (intro that)
qed

text \<open>
  a live token of a \<open>Map\<close> restores the log and the index at its mark, and an accepted token that
  was never restored before is live: after the rebuild every key is found where it was found at the mark.
\<close>

theorem map_restore_exact:
  assumes "hash_index H" and "map_session H track imax m issued st co" and "k < length issued" and "k \<notin> co"
    and "length st < 2 ^ 32" and "length (origins (av_forks (m_log m))) + 1 < 2 ^ 32"
  shows "(\<exists>m'. map_restore H track imax (fst (issued ! k)) m = Inr m') = (k \<in> set st) \<and>
    (\<forall>m'. map_restore H track imax (fst (issued ! k)) m = Inr m' \<longrightarrow> map_view H m' = snd (issued ! k))"
  using checkpointed.live_token_restores [OF hash_index.map_checkpointed [OF assms(1)] assms(2) _ assms(5,6)]
    checkpointed.accepted_token_live [OF hash_index.map_checkpointed [OF assms(1)] assms(2-4)] by blast

theorem map_restore_exact_witness:
  "\<exists>t m i m' w. map_mark True 255 map_demo0 = Inr (t, m) \<and> map_insert alist_ops 255 1 9 m = Inr (i, m') \<and>
     map_restore alist_ops True 255 t m' = Inr w \<and> map_view alist_ops w = map_view alist_ops map_demo0"
proof -
  obtain t m m' i where d: "map_mark True 255 map_demo0 = Inr (t, m)" "map_insert alist_ops 255 1 9 m = Inr (i, m')"
    "map_session alist_ops True 255 m' [(t, map_view alist_ops map_demo0)] [0] {}"
    "av_forks (m_log m') = fork_history_new" by (rule map_demo)
  have "(\<exists>w. map_restore alist_ops True 255 t m' = Inr w) \<and>
      (\<forall>w. map_restore alist_ops True 255 t m' = Inr w \<longrightarrow> map_view alist_ops w = map_view alist_ops map_demo0)"
    using map_restore_exact [OF alist.hash_index_axioms d(3), of 0] d(4) by (simp add: fork_history_new_def)
  with d(1,2) show ?thesis by blast
qed

text \<open>
  C32: a \<open>Map\<close> answers as a map: in every reachable state \<open>get_by_key\<close> returns the value inserted last
  for the key (and never panics on a dangling position), and \<open>len\<close> counts the distinct keys.
\<close>

theorem map_lookup_last_insert:
  assumes "hash_index H" and "map_session H track imax m issued st co"
  shows "map_get_by_key H k m = Inr (map_of (rev (av_data (m_log m))) k) \<and>
    map_len H m = card (fst ` set (av_data (m_log m)))"
  using checkpointed.session_inv [OF hash_index.map_checkpointed [OF assms(1)] assms(2)]
    hash_index.get_by_key_val [OF assms(1)] hash_index.len_val [OF assms(1)] by blast

theorem map_lookup_last_insert_witness:
  "\<exists>t m i m'. map_mark True 255 map_demo0 = Inr (t, m) \<and> map_insert alist_ops 255 1 9 m = Inr (i, m') \<and>
     map_get_by_key alist_ops 1 m' = Inr (Some 9) \<and> map_len alist_ops m' = 1"
proof -
  obtain t m m' i where d: "map_mark True 255 map_demo0 = Inr (t, m)" "map_insert alist_ops 255 1 9 m = Inr (i, m')"
    "map_session alist_ops True 255 m' [(t, map_view alist_ops map_demo0)] [0] {}" "av_data (m_log m') = [(1, 9)]"
    by (rule map_demo)
  with map_lookup_last_insert [OF alist.hash_index_axioms d(3), of 1] show ?thesis by auto
qed

end
