(* ===== verification/Lockstep.thy ===== *)
theory Lockstep
  imports Token
begin

text \<open>
  Composite containers.  \<open>SparseSet\<close>, \<open>List\<close>, \<open>UnionFind\<close> and \<open>EClasses\<close> hold several
  checkpointed parts that are marked and restored together.  A pair of checkpointed parts driven in
  lockstep is checkpointed (\<open>pair_checkpointed\<close>), and so is any container that drives such a part and
  keeps an invariant on its contents (locale \<open>composite\<close>).
\<close>

section \<open>Two parts in lockstep\<close>

definition pair_mk :: "('m \<Rightarrow> 'c \<Rightarrow> ('k \<times> 'c) res) \<Rightarrow> ('n \<Rightarrow> 'd \<Rightarrow> ('l \<times> 'd) res) \<Rightarrow>
    'm \<times> 'n \<Rightarrow> 'c \<times> 'd \<Rightarrow> (('k \<times> 'l) \<times> 'c \<times> 'd) res" where
  "pair_mk mk1 mk2 m c = rbind (mk1 (fst m) (fst c)) (\<lambda>(t, c1). rbind (mk2 (snd m) (snd c)) (\<lambda>(u, c2). Inr ((t, u), c1, c2)))"

definition pair_rst :: "('k \<Rightarrow> 'c \<Rightarrow> 'c res) \<Rightarrow> ('l \<Rightarrow> 'd \<Rightarrow> 'd res) \<Rightarrow> 'k \<times> 'l \<Rightarrow> 'c \<times> 'd \<Rightarrow> ('c \<times> 'd) res" where
  "pair_rst rst1 rst2 t c = rbind (rst1 (fst t) (fst c)) (\<lambda>c1. rbind (rst2 (snd t) (snd c)) (\<lambda>c2. Inr (c1, c2)))"

definition pair_upd :: "('c \<Rightarrow> 'c \<Rightarrow> bool) \<Rightarrow> ('d \<Rightarrow> 'd \<Rightarrow> bool) \<Rightarrow> 'c \<times> 'd \<Rightarrow> 'c \<times> 'd \<Rightarrow> bool" where
  "pair_upd upd1 upd2 c c' \<longleftrightarrow> upd1\<^sup>*\<^sup>* (fst c) (fst c') \<and> upd2\<^sup>*\<^sup>* (snd c) (snd c')"

definition pair_rel :: "('c \<Rightarrow> 'a list \<Rightarrow> bool) \<Rightarrow> ('d \<Rightarrow> 'b list \<Rightarrow> bool) \<Rightarrow> ('c \<Rightarrow> fork_history) \<Rightarrow> ('d \<Rightarrow> fork_history) \<Rightarrow>
    'c \<times> 'd \<Rightarrow> ('a \<times> 'b) list \<Rightarrow> bool" where
  "pair_rel rel1 rel2 forks1 forks2 c snaps \<longleftrightarrow>
    rel1 (fst c) (map fst snaps) \<and> rel2 (snd c) (map snd snaps) \<and> forks1 (fst c) = forks2 (snd c)"

definition pair_good :: "('c \<Rightarrow> 'k \<Rightarrow> bool) \<Rightarrow> ('d \<Rightarrow> 'l \<Rightarrow> bool) \<Rightarrow> ('k \<Rightarrow> nat) \<Rightarrow> ('k \<Rightarrow> nat) \<Rightarrow> ('l \<Rightarrow> nat) \<Rightarrow> ('l \<Rightarrow> nat) \<Rightarrow>
    'c \<times> 'd \<Rightarrow> 'k \<times> 'l \<Rightarrow> bool" where
  "pair_good good1 good2 br1 dp1 br2 dp2 c t \<longleftrightarrow>
    good1 (fst c) (fst t) \<and> good2 (snd c) (snd t) \<and> br1 (fst t) = br2 (snd t) \<and> dp1 (fst t) = dp2 (snd t)"

lemma pair_updI: "upd1\<^sup>*\<^sup>* a a' \<Longrightarrow> upd2\<^sup>*\<^sup>* b b' \<Longrightarrow> (pair_upd upd1 upd2)\<^sup>*\<^sup>* (a, b) (a', b')"
  by (intro r_into_rtranclp) (simp add: pair_upd_def)

lemma pair_rst_eq_Inr:
  "pair_rst rst1 rst2 t c = Inr c' \<longleftrightarrow> rst1 (fst t) (fst c) = Inr (fst c') \<and> rst2 (snd t) (snd c) = Inr (snd c')"
  by (cases c') (auto simp: pair_rst_def rbind_eq_Inr)

lemma pair_mk_eq_Inr:
  "pair_mk mk1 mk2 m c = Inr (t, c') \<longleftrightarrow>
    mk1 (fst m) (fst c) = Inr (fst t, fst c') \<and> mk2 (snd m) (snd c) = Inr (snd t, snd c')"
  by (cases t; cases c') (auto simp: pair_mk_def rbind_eq_Inr)

lemma pair_checkpointed:
  assumes c1: "checkpointed fresh1 upd1 mk1 rst1 view1 br1 dp1 forks1 rel1 good1"
    and c2: "checkpointed fresh2 upd2 mk2 rst2 view2 br2 dp2 forks2 rel2 good2"
  shows "checkpointed (\<lambda>c. fresh1 (fst c) \<and> fresh2 (snd c)) (pair_upd upd1 upd2) (pair_mk mk1 mk2) (pair_rst rst1 rst2)
    (\<lambda>c. (view1 (fst c), view2 (snd c))) (\<lambda>t. br1 (fst t)) (\<lambda>t. dp1 (fst t)) (\<lambda>c. forks1 (fst c))
    (pair_rel rel1 rel2 forks1 forks2) (pair_good good1 good2 br1 dp1 br2 dp2)"
    (is "checkpointed ?fresh ?upd ?mk ?rst ?view ?br ?dp ?forks ?rel ?good")
proof
  fix c c' snaps t t' m
  show "?fresh c \<Longrightarrow> ?rel c [] \<and> ?forks c = fork_history_new"
    using checkpointed.fresh_rel [OF c1] checkpointed.fresh_rel [OF c2] by (simp add: pair_rel_def)
  show "?rel c snaps \<Longrightarrow> ?upd c c' \<Longrightarrow> ?rel c' snaps \<and> ?forks c' = ?forks c"
    unfolding pair_rel_def pair_upd_def using checkpointed.upds_rel [OF c1] checkpointed.upds_rel [OF c2] by metis
  show "?upd c c' \<Longrightarrow> ?good c t \<Longrightarrow> ?good c' t"
    using checkpointed.upds_good [OF c1] checkpointed.upds_good [OF c2] by (auto simp: pair_good_def pair_upd_def)
  show "?mk m c = Inr (t', c') \<Longrightarrow> ?good c t \<Longrightarrow> ?good c' t"
    using checkpointed.mk_good [OF c1] checkpointed.mk_good [OF c2] by (auto simp: pair_good_def pair_mk_eq_Inr)
  show "?rst t' c = Inr c' \<Longrightarrow> ?good c t \<Longrightarrow> ?good c' t"
    using checkpointed.rst_good [OF c1] checkpointed.rst_good [OF c2] by (auto simp: pair_good_def pair_rst_eq_Inr)
  assume r: "?rel c snaps"
  then have r1: "rel1 (fst c) (map fst snaps)" and r2: "rel2 (snd c) (map snd snaps)"
    and fk: "forks1 (fst c) = forks2 (snd c)" by (auto simp: pair_rel_def)
  show "?rel c' (snaps @ [?view c]) \<and> ?forks c' = ?forks c \<and> ?good c' t \<and>
      ?br t = current_branch_id (?forks c) \<and> ?dp t = length snaps" if mk: "?mk m c = Inr (t, c')"
    using checkpointed.mk_rel [OF c1 r1] checkpointed.mk_rel [OF c2 r2] mk fk
    by (auto simp: pair_mk_eq_Inr pair_rel_def pair_good_def)
  assume wf: "fork_wf (?forks c)" and g: "?good c t"
  then have wf2: "fork_wf (forks2 (snd c))" and g1: "good1 (fst c) (fst t)" and g2: "good2 (snd c) (snd t)"
    and tok: "br1 (fst t) = br2 (snd t)" "dp1 (fst t) = dp2 (snd t)" using fk by (auto simp: pair_good_def)
  show "?dp t < length snaps \<and>
      within (?dp t) (lim (origins (?forks c)) (current_branch_id (?forks c)) (?br t)) (length snaps) \<and>
      ?view c' = snaps ! ?dp t \<and> ?rel c' (take (?dp t) snaps) \<and> ?forks c' = forked (?forks c) (?br t) (?dp t)"
    if ok: "?rst t c = Inr c'"
    using checkpointed.rst_rel [OF c1 r1 wf g1] checkpointed.rst_rel [OF c2 r2 wf2 g2] ok tok fk
    by (auto simp: pair_rst_eq_Inr pair_rel_def take_map prod_eq_iff)
  assume "?dp t < length snaps"
    and "within (?dp t) (lim (origins (?forks c)) (current_branch_id (?forks c)) (?br t)) (length snaps)"
    and "length snaps < 2 ^ 32" and "length (origins (?forks c)) + 1 < 2 ^ 32"
  then have "\<exists>x. rst1 (fst t) (fst c) = Inr x" and "\<exists>y. rst2 (snd t) (snd c) = Inr y"
    using checkpointed.rst_ok [OF c1 r1 wf g1] checkpointed.rst_ok [OF c2 r2 wf2 g2] fk tok by auto
  then show "\<exists>c'. ?rst t c = Inr c'" by (auto simp: pair_rst_eq_Inr)
qed

section \<open>A part and an optional part in lockstep\<close>

text \<open>
  \<open>UnionFind\<close> holds some of its vectors behind an \<open>Option\<close> that is fixed at construction.  A restore
  whose token lacks the optional token leaves the optional part alone, as the code's \<open>if let\<close> does.
\<close>

definition opt_mk :: "('m \<Rightarrow> 'c \<Rightarrow> ('k \<times> 'c) res) \<Rightarrow> ('n \<Rightarrow> 'd \<Rightarrow> ('l \<times> 'd) res) \<Rightarrow>
    'm \<times> 'n \<Rightarrow> 'c \<times> 'd option \<Rightarrow> (('k \<times> 'l option) \<times> 'c \<times> 'd option) res" where
  "opt_mk mk1 mk2 m c = rbind (mk1 (fst m) (fst c)) (\<lambda>(t, c1). case snd c of
      None \<Rightarrow> Inr ((t, None), c1, None)
    | Some d \<Rightarrow> rbind (mk2 (snd m) d) (\<lambda>(u, c2). Inr ((t, Some u), c1, Some c2)))"

definition opt_rst :: "('k \<Rightarrow> 'c \<Rightarrow> 'c res) \<Rightarrow> ('l \<Rightarrow> 'd \<Rightarrow> 'd res) \<Rightarrow>
    'k \<times> 'l option \<Rightarrow> 'c \<times> 'd option \<Rightarrow> ('c \<times> 'd option) res" where
  "opt_rst rst1 rst2 t c = rbind (rst1 (fst t) (fst c)) (\<lambda>c1. case (snd c, snd t) of
      (Some d, Some u) \<Rightarrow> rbind (rst2 u d) (\<lambda>c2. Inr (c1, Some c2))
    | _ \<Rightarrow> Inr (c1, snd c))"

definition opt_upd :: "('c \<Rightarrow> 'c \<Rightarrow> bool) \<Rightarrow> ('d \<Rightarrow> 'd \<Rightarrow> bool) \<Rightarrow> 'c \<times> 'd option \<Rightarrow> 'c \<times> 'd option \<Rightarrow> bool" where
  "opt_upd upd1 upd2 c c' \<longleftrightarrow> upd1\<^sup>*\<^sup>* (fst c) (fst c') \<and> rel_option upd2\<^sup>*\<^sup>* (snd c) (snd c')"

definition opt_rel :: "('c \<Rightarrow> 'a list \<Rightarrow> bool) \<Rightarrow> ('d \<Rightarrow> 'b list \<Rightarrow> bool) \<Rightarrow> ('c \<Rightarrow> fork_history) \<Rightarrow> ('d \<Rightarrow> fork_history) \<Rightarrow>
    'c \<times> 'd option \<Rightarrow> ('a \<times> 'b option) list \<Rightarrow> bool" where
  "opt_rel rel1 rel2 forks1 forks2 c snaps \<longleftrightarrow> rel1 (fst c) (map fst snaps) \<and> (case snd c of
      None \<Rightarrow> map snd snaps = map (\<lambda>_. None) snaps
    | Some d \<Rightarrow> (\<exists>sn. map snd snaps = map Some sn \<and> rel2 d sn) \<and> forks1 (fst c) = forks2 d)"

definition opt_good :: "('c \<Rightarrow> 'k \<Rightarrow> bool) \<Rightarrow> ('d \<Rightarrow> 'l \<Rightarrow> bool) \<Rightarrow> ('k \<Rightarrow> nat) \<Rightarrow> ('k \<Rightarrow> nat) \<Rightarrow> ('l \<Rightarrow> nat) \<Rightarrow> ('l \<Rightarrow> nat) \<Rightarrow>
    'c \<times> 'd option \<Rightarrow> 'k \<times> 'l option \<Rightarrow> bool" where
  "opt_good good1 good2 br1 dp1 br2 dp2 c t \<longleftrightarrow>
    good1 (fst c) (fst t) \<and> rel_option (\<lambda>d u. good2 d u \<and> br1 (fst t) = br2 u \<and> dp1 (fst t) = dp2 u) (snd c) (snd t)"

lemma opt_updI: "upd1\<^sup>*\<^sup>* a a' \<Longrightarrow> rel_option upd2\<^sup>*\<^sup>* b b' \<Longrightarrow> (opt_upd upd1 upd2)\<^sup>*\<^sup>* (a, b) (a', b')"
  by (intro r_into_rtranclp) (simp add: opt_upd_def)

lemma rel_option_trans: "rel_option r\<^sup>*\<^sup>* a b \<Longrightarrow> rel_option r\<^sup>*\<^sup>* b c \<Longrightarrow> rel_option r\<^sup>*\<^sup>* a c"
  by (cases a; cases b; cases c) (auto elim: rtranclp_trans)

lemma opt_mk_eq_Inr:
  "opt_mk mk1 mk2 m c = Inr (t, c') \<longleftrightarrow> mk1 (fst m) (fst c) = Inr (fst t, fst c') \<and>
    (case snd c of None \<Rightarrow> snd t = None \<and> snd c' = None
      | Some d \<Rightarrow> \<exists>u d'. snd t = Some u \<and> snd c' = Some d' \<and> mk2 (snd m) d = Inr (u, d'))"
  by (cases t; cases c') (auto simp: opt_mk_def rbind_eq_Inr split: option.splits)

lemma opt_rst_eq_Inr:
  "opt_rst rst1 rst2 t c = Inr c' \<longleftrightarrow> rst1 (fst t) (fst c) = Inr (fst c') \<and>
    (case (snd c, snd t) of (Some d, Some u) \<Rightarrow> \<exists>d'. snd c' = Some d' \<and> rst2 u d = Inr d' | _ \<Rightarrow> snd c' = snd c)"
  by (cases c') (auto simp: opt_rst_def rbind_eq_Inr split: option.splits)

lemma optional_checkpointed:
  assumes c1: "checkpointed fresh1 upd1 mk1 rst1 view1 br1 dp1 forks1 rel1 good1"
    and c2: "checkpointed fresh2 upd2 mk2 rst2 view2 br2 dp2 forks2 rel2 good2"
  shows "checkpointed (\<lambda>c. fresh1 (fst c) \<and> pred_option fresh2 (snd c)) (opt_upd upd1 upd2) (opt_mk mk1 mk2) (opt_rst rst1 rst2)
    (\<lambda>c. (view1 (fst c), map_option view2 (snd c))) (\<lambda>t. br1 (fst t)) (\<lambda>t. dp1 (fst t)) (\<lambda>c. forks1 (fst c))
    (opt_rel rel1 rel2 forks1 forks2) (opt_good good1 good2 br1 dp1 br2 dp2)"
    (is "checkpointed ?fresh ?upd ?mk ?rst ?view ?br ?dp ?forks ?rel ?good")
proof
  fix c c' snaps t t' m
  show "?fresh c \<Longrightarrow> ?rel c [] \<and> ?forks c = fork_history_new"
    using checkpointed.fresh_rel [OF c1] checkpointed.fresh_rel [OF c2]
    by (cases "snd c") (auto simp: opt_rel_def)
  show "?rel c snaps \<Longrightarrow> ?upd c c' \<Longrightarrow> ?rel c' snaps \<and> ?forks c' = ?forks c"
    using checkpointed.upds_rel [OF c1, of "fst c" "fst c'"] checkpointed.upds_rel [OF c2]
    by (cases "snd c"; cases "snd c'") (auto simp: opt_rel_def opt_upd_def)
  show "?upd c c' \<Longrightarrow> ?good c t \<Longrightarrow> ?good c' t"
    using checkpointed.upds_good [OF c1] checkpointed.upds_good [OF c2]
    by (cases "snd c"; cases "snd c'"; cases "snd t") (auto simp: opt_good_def opt_upd_def)
  show "?mk m c = Inr (t', c') \<Longrightarrow> ?good c t \<Longrightarrow> ?good c' t"
    using checkpointed.mk_good [OF c1] checkpointed.mk_good [OF c2]
    by (cases "snd c"; cases "snd t") (auto simp: opt_good_def opt_mk_eq_Inr)
  show "?rst t' c = Inr c' \<Longrightarrow> ?good c t \<Longrightarrow> ?good c' t"
    using checkpointed.rst_good [OF c1] checkpointed.rst_good [OF c2]
    by (cases "snd c"; cases "snd t"; cases "snd t'") (auto simp: opt_good_def opt_rst_eq_Inr)
  assume r: "?rel c snaps"
  then have r1: "rel1 (fst c) (map fst snaps)" by (simp add: opt_rel_def)
  show "?rel c' (snaps @ [?view c]) \<and> ?forks c' = ?forks c \<and> ?good c' t \<and>
      ?br t = current_branch_id (?forks c) \<and> ?dp t = length snaps" if mk: "?mk m c = Inr (t, c')"
  proof (cases "snd c")
    case None
    then show ?thesis using checkpointed.mk_rel [OF c1 r1] mk r by (auto simp: opt_mk_eq_Inr opt_rel_def opt_good_def)
  next
    case (Some d)
    then obtain sn where sn: "map snd snaps = map Some sn" "rel2 d sn" and fk: "forks1 (fst c) = forks2 d"
      using r by (auto simp: opt_rel_def)
    have "length sn = length snaps" using sn(1) by (metis length_map)
    moreover obtain u d' where u: "snd t = Some u" "snd c' = Some d'" "mk2 (snd m) d = Inr (u, d')"
      using mk Some by (auto simp: opt_mk_eq_Inr)
    moreover have "\<exists>sn'. map snd (snaps @ [?view c]) = map Some sn' \<and> rel2 d' sn'"
      using sn Some checkpointed.mk_rel [OF c2 sn(2) u(3)] by (intro exI [of _ "sn @ [view2 d]"]) simp
    ultimately show ?thesis
      using checkpointed.mk_rel [OF c1 r1] checkpointed.mk_rel [OF c2 sn(2) u(3)] mk fk Some
      by (simp add: opt_mk_eq_Inr opt_rel_def opt_good_def)
  qed
  assume wf: "fork_wf (?forks c)" and g: "?good c t"
  then have g1: "good1 (fst c) (fst t)" by (simp add: opt_good_def)
  show "?dp t < length snaps \<and>
      within (?dp t) (lim (origins (?forks c)) (current_branch_id (?forks c)) (?br t)) (length snaps) \<and>
      ?view c' = snaps ! ?dp t \<and> ?rel c' (take (?dp t) snaps) \<and> ?forks c' = forked (?forks c) (?br t) (?dp t)"
    if ok: "?rst t c = Inr c'"
  proof (cases "snd c")
    case None
    have "snd (snaps ! k) = None" if "k < length snaps" for k
      using r None that by (auto simp: opt_rel_def map_eq_conv)
    then show ?thesis
      using checkpointed.rst_rel [OF c1 r1 wf g1] ok r None
      by (auto simp: opt_rst_eq_Inr opt_rel_def take_map prod_eq_iff dest: in_set_takeD)
  next
    case (Some d)
    then obtain sn u where sn: "map snd snaps = map Some sn" "rel2 d sn" and fk: "forks1 (fst c) = forks2 d"
      and u: "snd t = Some u" "good2 d u" "br1 (fst t) = br2 u" "dp1 (fst t) = dp2 u"
      using r g by (auto simp: opt_rel_def opt_good_def option_rel_Some1)
    obtain d' where d': "rst2 u d = Inr d'" "snd c' = Some d'" using ok Some u by (auto simp: opt_rst_eq_Inr)
    have len: "length sn = length snaps" using sn(1) by (metis length_map)
    have "snd (snaps ! k) = Some (sn ! k)" if "k < length snaps" for k
      using sn(1) that len by (metis nth_map)
    moreover have "map snd (take k snaps) = map Some (take k sn)" for k using sn(1) by (metis take_map)
    ultimately show ?thesis
      using checkpointed.rst_rel [OF c1 r1 wf g1] checkpointed.rst_rel [OF c2 sn(2) _ u(2) d'(1)] ok fk wf u d' len Some
      by (auto simp: opt_rst_eq_Inr opt_rel_def take_map prod_eq_iff)
  qed
  assume dp: "?dp t < length snaps"
    and lm: "within (?dp t) (lim (origins (?forks c)) (current_branch_id (?forks c)) (?br t)) (length snaps)"
    and sz: "length snaps < 2 ^ 32" "length (origins (?forks c)) + 1 < 2 ^ 32"
  obtain x where x: "rst1 (fst t) (fst c) = Inr x" using checkpointed.rst_ok [OF c1 r1 wf g1] dp lm sz by auto
  show "\<exists>c'. ?rst t c = Inr c'"
  proof (cases "snd c")
    case None
    then show ?thesis using x by (auto simp: opt_rst_eq_Inr)
  next
    case (Some d)
    then obtain sn u where sn: "map snd snaps = map Some sn" "rel2 d sn" and fk: "forks1 (fst c) = forks2 d"
      and u: "snd t = Some u" "good2 d u" "br1 (fst t) = br2 u" "dp1 (fst t) = dp2 u"
      using r g by (auto simp: opt_rel_def opt_good_def option_rel_Some1)
    have "length sn = length snaps" using sn(1) by (metis length_map)
    then obtain y where "rst2 u d = Inr y" using checkpointed.rst_ok [OF c2 sn(2) _ u(2)] dp lm sz fk u wf by auto
    then show ?thesis using x Some u by (auto simp: opt_rst_eq_Inr intro!: exI [of _ "(x, Some y)"])
  qed
qed

section \<open>A container over a checkpointed part\<close>

text \<open>
  \<open>p\<close> projects the container to its part and \<open>tk\<close> its tokens to the part's tokens; \<open>Q\<close> is an
  invariant on the part's contents that every update keeps; \<open>f\<close> is what the container shows of them.
\<close>

locale composite = part: checkpointed fresh0 upd0 mk0 rst0 view0 br0 dp0 forks0 rel0 good0
  for fresh0 :: "'p \<Rightarrow> bool" and upd0 and mk0 :: "'n \<Rightarrow> 'p \<Rightarrow> ('l \<times> 'p) res" and rst0
    and view0 :: "'p \<Rightarrow> 'b" and br0 dp0 forks0 rel0 good0 +
  fixes fresh :: "'c \<Rightarrow> bool"
    and upd :: "'c \<Rightarrow> 'c \<Rightarrow> bool"
    and mk :: "'m \<Rightarrow> 'c \<Rightarrow> ('k \<times> 'c) res"
    and rst :: "'k \<Rightarrow> 'c \<Rightarrow> 'c res"
    and p :: "'c \<Rightarrow> 'p"
    and tk :: "'k \<Rightarrow> 'l"
    and Q :: "'b \<Rightarrow> bool"
    and f :: "'b \<Rightarrow> 'a"
  assumes fresh_part: "fresh c \<Longrightarrow> fresh0 (p c) \<and> Q (view0 (p c))"
    and upd_part: "rel0 (p c) s \<Longrightarrow> Q (view0 (p c)) \<Longrightarrow> upd c c' \<Longrightarrow> upd0\<^sup>*\<^sup>* (p c) (p c') \<and> Q (view0 (p c'))"
    and upd_good: "upd c c' \<Longrightarrow> good0 (p c) u \<Longrightarrow> good0 (p c') u"
    and mk_part: "mk m c = Inr (t, c') \<Longrightarrow> \<exists>n. mk0 n (p c) = Inr (tk t, p c') \<and> view0 (p c') = view0 (p c)"
    and rst_part: "rst t c = Inr c' \<Longrightarrow> rst0 (tk t) (p c) = Inr (p c')"
    and rst_total: "rst0 (tk t) (p c) = Inr x \<Longrightarrow> \<exists>c'. rst t c = Inr c'"
begin

definition crel :: "'c \<Rightarrow> 'a list \<Rightarrow> bool" where
  "crel c snaps \<longleftrightarrow> (\<exists>s. snaps = map f s \<and> rel0 (p c) s \<and> Q (view0 (p c)) \<and> (\<forall>x \<in> set s. Q x))"

lemma composite_checkpointed:
  "checkpointed fresh upd mk rst (\<lambda>c. f (view0 (p c))) (\<lambda>t. br0 (tk t)) (\<lambda>t. dp0 (tk t)) (\<lambda>c. forks0 (p c)) crel
    (\<lambda>c t. good0 (p c) (tk t))"
proof
  fix c c' snaps t t' m
  show "fresh c \<Longrightarrow> crel c [] \<and> forks0 (p c) = fork_history_new"
    using fresh_part [of c] part.fresh_rel [of "p c"] by (auto simp: crel_def)
  show "upd c c' \<Longrightarrow> good0 (p c) (tk t) \<Longrightarrow> good0 (p c') (tk t)" by (rule upd_good)
  show "mk m c = Inr (t', c') \<Longrightarrow> good0 (p c) (tk t) \<Longrightarrow> good0 (p c') (tk t)"
    using mk_part part.mk_good by blast
  show "rst t' c = Inr c' \<Longrightarrow> good0 (p c) (tk t) \<Longrightarrow> good0 (p c') (tk t)"
    using rst_part part.rst_good by blast
  assume "crel c snaps"
  then obtain s where s: "snaps = map f s" and r: "rel0 (p c) s" and q: "Q (view0 (p c))" "\<forall>x \<in> set s. Q x"
    by (auto simp: crel_def)
  show "upd c c' \<Longrightarrow> crel c' snaps \<and> forks0 (p c') = forks0 (p c)"
    using upd_part [OF r q(1)] part.upds_rel r q(2) s unfolding crel_def by metis
  show "crel c' (snaps @ [f (view0 (p c))]) \<and> forks0 (p c') = forks0 (p c) \<and> good0 (p c') (tk t) \<and>
      br0 (tk t) = current_branch_id (forks0 (p c)) \<and> dp0 (tk t) = length snaps" if mk: "mk m c = Inr (t, c')"
  proof -
    obtain n where n: "mk0 n (p c) = Inr (tk t, p c')" "view0 (p c') = view0 (p c)" using mk_part [OF mk] by blast
    have "crel c' (snaps @ [f (view0 (p c))])"
      using part.mk_rel [OF r n(1)] n(2) q s unfolding crel_def by (intro exI [of _ "s @ [view0 (p c)]"]) auto
    then show ?thesis using part.mk_rel [OF r n(1)] s by simp
  qed
  assume wf: "fork_wf (forks0 (p c))" and g: "good0 (p c) (tk t)"
  show "dp0 (tk t) < length snaps \<and>
      within (dp0 (tk t)) (lim (origins (forks0 (p c))) (current_branch_id (forks0 (p c))) (br0 (tk t))) (length snaps) \<and>
      f (view0 (p c')) = snaps ! dp0 (tk t) \<and> crel c' (take (dp0 (tk t)) snaps) \<and>
      forks0 (p c') = forked (forks0 (p c)) (br0 (tk t)) (dp0 (tk t))" if ok: "rst t c = Inr c'"
  proof -
    note a = part.rst_rel [OF r wf g rst_part [OF ok]]
    have "Q (view0 (p c'))" using a q(2) nth_mem [of "dp0 (tk t)" s] by simp
    then have "crel c' (take (dp0 (tk t)) snaps)"
      using a q(2) s unfolding crel_def
      by (intro exI [of _ "take (dp0 (tk t)) s"]) (auto simp: take_map dest: in_set_takeD)
    with a s show ?thesis by auto
  qed
  assume "dp0 (tk t) < length snaps"
    and "within (dp0 (tk t)) (lim (origins (forks0 (p c))) (current_branch_id (forks0 (p c))) (br0 (tk t))) (length snaps)"
    and "length snaps < 2 ^ 32" and "length (origins (forks0 (p c))) + 1 < 2 ^ 32"
  then obtain x where "rst0 (tk t) (p c) = Inr x" using part.rst_ok [OF r wf g] s by auto
  then show "\<exists>c'. rst t c = Inr c'" by (rule rst_total)
qed

lemma crel_Q: "crel c snaps \<Longrightarrow> Q (view0 (p c))"
  by (auto simp: crel_def)

end

end
