(* ===== verification/Sparse_Set.thy ===== *)
theory Sparse_Set
  imports Semi_Vec Lockstep
begin

text \<open>
  The sparse set with stable identifiers, \<open>containers/src/sparse_set.rs\<close>: packed values, the position
  of each identifier and the identifier at each position, in three semi-persistent vectors that are
  marked and restored together.  Removed identifiers stay behind the packed part and are recycled.
\<close>

section \<open>The operations\<close>

record ('s, 't, 'r) ss_cfg =
  sc_dense :: "('s, 't) vec_cfg"
  sc_idx :: "('r inline_store, nat) vec_cfg"

record ('s, 't, 'r) sparse_set =
  ss_dense :: "('s, 't) vec"
  ss_sparse :: "('r inline_store, nat) vec"
  ss_indices :: "('r inline_store, nat) vec"

record ss_token =
  st_dense :: vec_token
  st_sparse :: vec_token
  st_indices :: vec_token

definition ss_with_store :: "'s \<Rightarrow> 32 word \<Rightarrow> ('s, 't, 'r) sparse_set \<times> 32 word" where
  "ss_with_store s c0 =
    (let (d, c1) = vec_with_store s c0; (sp, c2) = veci_new c1; (ix, c3) = veci_new c2
     in (\<lparr>ss_dense = d, ss_sparse = sp, ss_indices = ix\<rparr>, c3))"

definition ss_len :: "('s, 't, 'r) ss_cfg \<Rightarrow> ('s, 't, 'r) sparse_set \<Rightarrow> nat res" where
  "ss_len S c = vec_len (sc_dense S) (ss_dense c)"

definition ss_is_empty :: "('s, 't, 'r) ss_cfg \<Rightarrow> ('s, 't, 'r) sparse_set \<Rightarrow> bool res" where
  "ss_is_empty S c = vec_is_empty (sc_dense S) (ss_dense c)"

definition ss_add :: "('s, 't, 'r) ss_cfg \<Rightarrow> 't \<Rightarrow> ('s, 't, 'r) sparse_set \<Rightarrow> (nat \<times> ('s, 't, 'r) sparse_set) res" where
  "ss_add S value c =
    rbind (vec_len (sc_dense S) (ss_dense c)) (\<lambda>pos.
    rbind (vec_push (sc_dense S) value (ss_dense c)) (\<lambda>d.
    rbind (vec_len (sc_idx S) (ss_sparse c)) (\<lambda>n.
    if pos < n
    then rbind (vec_get (sc_idx S) pos (ss_indices c)) (\<lambda>recycled.
         rbind (vec_set (sc_idx S) recycled pos (ss_sparse c)) (\<lambda>sp.
         Inr (recycled, c\<lparr>ss_dense := d, ss_sparse := sp\<rparr>)))
    else rbind (vec_push (sc_idx S) pos (ss_sparse c)) (\<lambda>sp.
         rbind (vec_push (sc_idx S) pos (ss_indices c)) (\<lambda>ix.
         Inr (pos, c\<lparr>ss_dense := d, ss_sparse := sp, ss_indices := ix\<rparr>))))))"

definition ss_contains :: "('s, 't, 'r) ss_cfg \<Rightarrow> nat \<Rightarrow> ('s, 't, 'r) sparse_set \<Rightarrow> bool res" where
  "ss_contains S i c =
    rbind (vec_len (sc_idx S) (ss_sparse c)) (\<lambda>n.
    if n \<le> i then Inr False
    else rbind (vec_get (sc_idx S) i (ss_sparse c)) (\<lambda>pos.
      rbind (vec_len (sc_dense S) (ss_dense c)) (\<lambda>m.
      if pos < m then rbind (vec_get (sc_idx S) pos (ss_indices c)) (\<lambda>j. Inr (j = i)) else Inr False)))"

definition ss_remove_inner :: "('s, 't, 'r) ss_cfg \<Rightarrow> nat \<Rightarrow> ('s, 't, 'r) sparse_set \<Rightarrow> ('s, 't, 'r) sparse_set res" where
  "ss_remove_inner S i c =
    rbind (vec_get (sc_idx S) i (ss_sparse c)) (\<lambda>pos.
    rbind (vec_len (sc_dense S) (ss_dense c)) (\<lambda>n.
    rbind (rassert (0 < n) Underflow) (\<lambda>_.
    rbind (expect Underflow (idx_try (vc_imax (sc_dense S)) (n - 1))) (\<lambda>last_pos.
    rbind (if pos \<noteq> last_pos
           then rbind (vec_get (sc_idx S) last_pos (ss_indices c)) (\<lambda>last_id.
                rbind (vec_get (sc_dense S) last_pos (ss_dense c)) (\<lambda>last_val.
                rbind (vec_set (sc_dense S) pos last_val (ss_dense c)) (\<lambda>d.
                rbind (vec_set (sc_idx S) pos last_id (ss_indices c)) (\<lambda>ix.
                rbind (vec_set (sc_idx S) last_pos i ix) (\<lambda>ix'.
                rbind (vec_set (sc_idx S) last_id pos (ss_sparse c)) (\<lambda>sp.
                Inr (c\<lparr>ss_dense := d, ss_sparse := sp, ss_indices := ix'\<rparr>)))))))
           else Inr c) (\<lambda>c1.
    rbind (vec_pop (sc_dense S) (ss_dense c1)) (\<lambda>(_, d).
    Inr (c1\<lparr>ss_dense := d\<rparr>)))))))"

definition ss_remove :: "('s, 't, 'r) ss_cfg \<Rightarrow> nat \<Rightarrow> ('s, 't, 'r) sparse_set \<Rightarrow> ('s, 't, 'r) sparse_set res" where
  "ss_remove S i c = rbind (ss_contains S i c) (\<lambda>b. rbind (rassert b IdNotPresent) (\<lambda>_. ss_remove_inner S i c))"

text \<open>The scan of \<open>remove_value\<close> over the positions still to visit.\<close>

fun ss_scan :: "('s, 't, 'r) ss_cfg \<Rightarrow> 't \<Rightarrow> nat list \<Rightarrow> ('s, 't, 'r) sparse_set \<Rightarrow> ('s, 't, 'r) sparse_set res" where
  "ss_scan S value [] c = Inl ValueNotPresent"
| "ss_scan S value (i # is) c =
    rbind (expect LenOverflow (idx_try (vc_imax (sc_dense S)) i)) (\<lambda>idx.
    rbind (vec_get (sc_dense S) idx (ss_dense c)) (\<lambda>x.
    if x = value then rbind (vec_get (sc_idx S) idx (ss_indices c)) (\<lambda>id. ss_remove_inner S id c)
    else ss_scan S value is c))"

definition ss_remove_value :: "('s, 't, 'r) ss_cfg \<Rightarrow> 't \<Rightarrow> ('s, 't, 'r) sparse_set \<Rightarrow> ('s, 't, 'r) sparse_set res" where
  "ss_remove_value S value c = rbind (vec_len (sc_dense S) (ss_dense c)) (\<lambda>n. ss_scan S value [0 ..< n] c)"

definition ss_get :: "('s, 't, 'r) ss_cfg \<Rightarrow> nat \<Rightarrow> ('s, 't, 'r) sparse_set \<Rightarrow> 't res" where
  "ss_get S i c = rbind (ss_contains S i c) (\<lambda>b. rbind (rassert b IdNotPresent) (\<lambda>_.
     rbind (vec_get (sc_idx S) i (ss_sparse c)) (\<lambda>pos. vec_get (sc_dense S) pos (ss_dense c))))"

definition ss_set :: "('s, 't, 'r) ss_cfg \<Rightarrow> nat \<Rightarrow> 't \<Rightarrow> ('s, 't, 'r) sparse_set \<Rightarrow> ('s, 't, 'r) sparse_set res" where
  "ss_set S i value c = rbind (ss_contains S i c) (\<lambda>b. rbind (rassert b IdNotPresent) (\<lambda>_.
     rbind (vec_get (sc_idx S) i (ss_sparse c)) (\<lambda>pos.
     rbind (vec_set (sc_dense S) pos value (ss_dense c)) (\<lambda>d. Inr (c\<lparr>ss_dense := d\<rparr>)))))"

text \<open>The capacities that the allocator reports differ per vector, so each gets its own.\<close>

definition ss_mark :: "('s, 't, 'r) ss_cfg \<Rightarrow> shrink \<times> shrink \<times> shrink \<Rightarrow> ('s, 't, 'r) sparse_set \<Rightarrow> (ss_token \<times> ('s, 't, 'r) sparse_set) res" where
  "ss_mark S sh c = (case sh of (sh1, sh2, sh3) \<Rightarrow>
    rbind (vec_mark (sc_dense S) sh1 (ss_dense c)) (\<lambda>(t, d).
    rbind (vec_mark (sc_idx S) sh2 (ss_sparse c)) (\<lambda>(u, sp).
    rbind (vec_mark (sc_idx S) sh3 (ss_indices c)) (\<lambda>(w, ix).
    Inr (\<lparr>st_dense = t, st_sparse = u, st_indices = w\<rparr>, \<lparr>ss_dense = d, ss_sparse = sp, ss_indices = ix\<rparr>)))))"

definition ss_restore :: "('s, 't, 'r) ss_cfg \<Rightarrow> ss_token \<Rightarrow> ('s, 't, 'r) sparse_set \<Rightarrow> ('s, 't, 'r) sparse_set res" where
  "ss_restore S token c =
    rbind (vec_restore (sc_dense S) (st_dense token) (ss_dense c)) (\<lambda>d.
    rbind (vec_restore (sc_idx S) (st_sparse token) (ss_sparse c)) (\<lambda>sp.
    rbind (vec_restore (sc_idx S) (st_indices token) (ss_indices c)) (\<lambda>ix.
    Inr \<lparr>ss_dense = d, ss_sparse = sp, ss_indices = ix\<rparr>)))"

section \<open>The invariant, on the contents\<close>

type_synonym 't ss_lists = "'t list \<times> nat list \<times> nat list"

text \<open>
  \<open>ix\<close> lists every identifier once; the first \<open>length d\<close> are live, and \<open>sp\<close> knows their position.
\<close>

definition ss_inv :: "'t ss_lists \<Rightarrow> bool" where
  "ss_inv v = (case v of (d, sp, ix) \<Rightarrow>
    length sp = length ix \<and> length d \<le> length ix \<and> distinct ix \<and> set ix = {..< length ix} \<and>
    (\<forall>i < length d. sp ! (ix ! i) = i))"

text \<open>The set as a finite map from identifiers to values.\<close>

definition ss_lookup :: "'t ss_lists \<Rightarrow> nat \<Rightarrow> 't option" where
  "ss_lookup v = (case v of (d, sp, ix) \<Rightarrow> map_of (zip ix d))"

definition ss_present :: "nat \<Rightarrow> 't ss_lists \<Rightarrow> bool" where
  "ss_present i v = (case v of (d, sp, ix) \<Rightarrow> i < length sp \<and> sp ! i < length d \<and> ix ! (sp ! i) = i)"

definition add_lists :: "'t \<Rightarrow> 't ss_lists \<Rightarrow> nat \<times> 't ss_lists" where
  "add_lists x v = (case v of (d, sp, ix) \<Rightarrow>
    if length d < length sp then (ix ! length d, d @ [x], sp[ix ! length d := length d], ix)
    else (length d, d @ [x], sp @ [length d], ix @ [length d]))"

definition remove_lists :: "nat \<Rightarrow> 't ss_lists \<Rightarrow> 't ss_lists" where
  "remove_lists i v = (case v of (d, sp, ix) \<Rightarrow>
    let pos = sp ! i; l = length d - 1 in
    if pos \<noteq> l then (butlast (d[pos := d ! l]), sp[ix ! l := pos], ix[pos := ix ! l, l := i])
    else (butlast d, sp, ix))"

lemma ss_inv_ix:
  assumes "ss_inv (d, sp, ix)" and "i < length ix"
  shows "ix ! i < length sp"
proof -
  have "ix ! i \<in> {..< length ix}" using assms nth_mem [of i ix] by (simp add: ss_inv_def)
  then show ?thesis using assms(1) by (simp add: ss_inv_def)
qed

lemma ss_lookup_Some:
  assumes "ss_inv (d, sp, ix)"
  shows "ss_lookup (d, sp, ix) k = Some x \<longleftrightarrow> (\<exists>i < length d. ix ! i = k \<and> d ! i = x)"
proof -
  have le: "length d \<le> length ix" and dist: "distinct ix" using assms by (auto simp: ss_inv_def)
  have "ss_lookup (d, sp, ix) k = Some x \<longleftrightarrow> (k, x) \<in> set (zip ix d)"
    unfolding ss_lookup_def using dist by (simp add: map_of_eq_Some_iff map_fst_zip_take)
  also have "\<dots> \<longleftrightarrow> (\<exists>i < length d. ix ! i = k \<and> d ! i = x)" using le by (auto simp: set_zip)
  finally show ?thesis .
qed

lemma ss_present_iff:
  assumes "ss_inv (d, sp, ix)"
  shows "ss_present i (d, sp, ix) \<longleftrightarrow> ss_lookup (d, sp, ix) i \<noteq> None"
proof
  assume "ss_present i (d, sp, ix)"
  then have "ss_lookup (d, sp, ix) i = Some (d ! (sp ! i))"
    using ss_lookup_Some [OF assms] by (auto simp: ss_present_def)
  then show "ss_lookup (d, sp, ix) i \<noteq> None" by simp
next
  assume "ss_lookup (d, sp, ix) i \<noteq> None"
  then obtain j where j: "j < length d" "ix ! j = i" using ss_lookup_Some [OF assms] by (metis option.exhaust)
  moreover have "j < length ix" and "sp ! (ix ! j) = j" using assms j by (auto simp: ss_inv_def)
  ultimately show "ss_present i (d, sp, ix)" using ss_inv_ix [OF assms, of j] by (auto simp: ss_present_def)
qed

lemma ss_lookup_present: "ss_inv (d, sp, ix) \<Longrightarrow> ss_present i (d, sp, ix) \<Longrightarrow> ss_lookup (d, sp, ix) i = Some (d ! (sp ! i))"
  by (auto simp: ss_lookup_Some ss_present_def)


text \<open>Two states with the same look-ups.\<close>

lemma ss_lookup_eqI:
  assumes "\<And>x. ss_lookup v k = Some x \<longleftrightarrow> g = Some x"
  shows "ss_lookup v k = g"
  using assms by (cases g; cases "ss_lookup v k") auto

lemma ex_less_snoc:
  "(\<exists>j < length (d @ [x]). A j = k \<and> (d @ [x]) ! j = y) \<longleftrightarrow>
    (\<exists>j < length d. A j = k \<and> d ! j = y) \<or> (A (length d) = k \<and> x = y)"
proof -
  have "(\<exists>j < length (d @ [x]). A j = k \<and> (d @ [x]) ! j = y) \<longleftrightarrow>
      (\<exists>j < length d. A j = k \<and> (d @ [x]) ! j = y) \<or> (A (length d) = k \<and> x = y)"
    by (auto simp: less_Suc_eq)
  also have "(\<exists>j < length d. A j = k \<and> (d @ [x]) ! j = y) \<longleftrightarrow> (\<exists>j < length d. A j = k \<and> d ! j = y)"
    by (intro ex_cong1) (auto simp: nth_append)
  finally show ?thesis .
qed

lemma ex_less_last: "0 < n \<Longrightarrow> (\<exists>j < n. P j) \<longleftrightarrow> (\<exists>j < n - 1. P j) \<or> P (n - 1)" for n :: nat
  by (cases n) (auto simp: less_Suc_eq)

lemma add_lists_recycled:
  assumes inv: "ss_inv (d, sp, ix)" and lt: "length d < length sp"
  defines "i \<equiv> ix ! length d"
  shows "ss_inv (d @ [x], sp[i := length d], ix)" and "ss_lookup (d, sp, ix) i = None"
    and "ss_lookup (d @ [x], sp[i := length d], ix) = (ss_lookup (d, sp, ix))(i \<mapsto> x)"
proof -
  have lix: "length d < length ix" and dist: "distinct ix" using inv lt by (auto simp: ss_inv_def)
  have other: "i \<noteq> ix ! j" if "j < length d" for j
    using dist that lix unfolding i_def by (simp add: nth_eq_iff_index_eq)
  have i: "i < length sp" unfolding i_def by (rule ss_inv_ix [OF inv lix])
  show inv': "ss_inv (d @ [x], sp[i := length d], ix)"
    using inv lix other i by (auto simp: ss_inv_def less_Suc_eq i_def [symmetric])
  have none: "ss_lookup (d, sp, ix) i \<noteq> Some y" for y using ss_lookup_Some [OF inv] other by auto
  then show "ss_lookup (d, sp, ix) i = None" by (metis option.exhaust)
  show "ss_lookup (d @ [x], sp[i := length d], ix) = (ss_lookup (d, sp, ix))(i \<mapsto> x)"
  proof (rule ext, rule ss_lookup_eqI)
    show "ss_lookup (d @ [x], sp[i := length d], ix) k = Some y \<longleftrightarrow> ((ss_lookup (d, sp, ix))(i \<mapsto> x)) k = Some y" for k y
      unfolding ss_lookup_Some [OF inv'] ex_less_snoc i_def [symmetric] fun_upd_apply
      using ss_lookup_Some [OF inv, of k y] other by auto
  qed
qed

lemma add_lists_new:
  assumes inv: "ss_inv (d, sp, ix)" and ge: "\<not> length d < length sp"
  shows "ss_inv (d @ [x], sp @ [length d], ix @ [length d])" and "ss_lookup (d, sp, ix) (length d) = None"
    and "ss_lookup (d @ [x], sp @ [length d], ix @ [length d]) = (ss_lookup (d, sp, ix))(length d \<mapsto> x)"
proof -
  have len: "length ix = length d" "length sp = length d" using inv ge by (auto simp: ss_inv_def)
  have lt: "ix ! j < length d" if "j < length d" for j using ss_inv_ix [OF inv, of j] that len by simp
  have notin: "length d \<notin> set ix" using inv len by (simp add: ss_inv_def)
  show inv': "ss_inv (d @ [x], sp @ [length d], ix @ [length d])"
    using inv len notin lt by (auto simp: ss_inv_def less_Suc_eq nth_append lessThan_Suc)
  have "ss_lookup (d, sp, ix) (length d) \<noteq> Some y" for y using ss_lookup_Some [OF inv] lt by fastforce
  then show "ss_lookup (d, sp, ix) (length d) = None" by (metis option.exhaust)
  show "ss_lookup (d @ [x], sp @ [length d], ix @ [length d]) = (ss_lookup (d, sp, ix))(length d \<mapsto> x)"
  proof (rule ext, rule ss_lookup_eqI)
    show "ss_lookup (d @ [x], sp @ [length d], ix @ [length d]) k = Some y \<longleftrightarrow>
        ((ss_lookup (d, sp, ix))(length d \<mapsto> x)) k = Some y" for k y
    proof -
      have ix: "(ix @ [length d]) ! j = ix ! j" if "j < length d" for j using that len by (simp add: nth_append)
      have "(ix @ [length d]) ! length d = length d" using len by (simp add: nth_append)
      moreover have "(\<exists>j < length d. (ix @ [length d]) ! j = k \<and> d ! j = y) \<longleftrightarrow> ss_lookup (d, sp, ix) k = Some y"
        unfolding ss_lookup_Some [OF inv] using ix by (intro ex_cong1) auto
      moreover have "ss_lookup (d, sp, ix) (length d) \<noteq> Some y"
        using ss_lookup_Some [OF inv] lt by (auto simp: nat_neq_iff)
      ultimately show ?thesis unfolding ss_lookup_Some [OF inv'] ex_less_snoc fun_upd_apply by auto
    qed
  qed
qed

lemma add_lists_spec:
  assumes inv: "ss_inv v" and a: "add_lists x v = (i, v')"
  shows "ss_inv v'" and "ss_lookup v i = None" and "ss_lookup v' = (ss_lookup v)(i \<mapsto> x)"
proof -
  obtain d sp ix where v: "v = (d, sp, ix)" by (cases v)
  show "ss_inv v'" and "ss_lookup v i = None" and "ss_lookup v' = (ss_lookup v)(i \<mapsto> x)"
    using a inv add_lists_recycled [of d sp ix] add_lists_new [of d sp ix]
    by (cases "length d < length sp"; simp add: v add_lists_def; blast)+
qed

lemma remove_lists_last:
  assumes inv: "ss_inv (d, sp, ix)" and p: "ss_present i (d, sp, ix)" and l: "sp ! i = length d - 1"
  shows "ss_inv (butlast d, sp, ix)" and "ss_lookup (butlast d, sp, ix) = (ss_lookup (d, sp, ix))(i := None)"
proof -
  have ixl: "ix ! (length d - 1) = i" and ne: "d \<noteq> []" using p l by (auto simp: ss_present_def)
  show inv': "ss_inv (butlast d, sp, ix)" using inv by (auto simp: ss_inv_def)
  have other: "ix ! j \<noteq> i" if "j < length d - 1" for j
    using inv that ixl by (auto simp: ss_inv_def nth_eq_iff_index_eq)
  show "ss_lookup (butlast d, sp, ix) = (ss_lookup (d, sp, ix))(i := None)"
  proof (rule ext, rule ss_lookup_eqI)
    fix k y
    have "(\<exists>j < length d. ix ! j = k \<and> d ! j = y) \<longleftrightarrow>
        (\<exists>j < length d - 1. ix ! j = k \<and> d ! j = y) \<or> (i = k \<and> d ! (length d - 1) = y)"
      using ex_less_last [of "length d" "\<lambda>j. ix ! j = k \<and> d ! j = y"] ne ixl by simp
    moreover have "butlast d ! j = d ! j" if "j < length d - 1" for j using that by (simp add: nth_butlast)
    ultimately show "ss_lookup (butlast d, sp, ix) k = Some y \<longleftrightarrow> ((ss_lookup (d, sp, ix))(i := None)) k = Some y"
      unfolding ss_lookup_Some [OF inv'] using ss_lookup_Some [OF inv, of k y] other by auto
  qed
qed

lemma remove_lists_swap:
  assumes inv: "ss_inv (d, sp, ix)" and p: "ss_present i (d, sp, ix)"
  defines "pos \<equiv> sp ! i" and "l \<equiv> length d - 1"
  assumes ne: "pos \<noteq> l"
  defines "d' \<equiv> butlast (d[pos := d ! l])" and "sp' \<equiv> sp[ix ! l := pos]" and "ix' \<equiv> ix[pos := ix ! l, l := i]"
  shows "ss_inv (d', sp', ix')" and "ss_lookup (d', sp', ix') = (ss_lookup (d, sp, ix))(i := None)"
proof -
  have pos: "pos < l" and ixp: "ix ! pos = i" and ld: "l < length d"
    using p ne by (auto simp: ss_present_def pos_def l_def)
  have lix: "l < length ix" "pos < length ix" using inv ld pos by (auto simp: ss_inv_def)
  have dist: "distinct ix" using inv by (simp add: ss_inv_def)
  have lid: "ix ! l < length sp" by (rule ss_inv_ix [OF inv lix(1)])
  have ix': "distinct ix'" "set ix' = set ix" "length ix' = length ix"
    using distinct_swap [of pos ix l] set_swap [of pos ix l] dist lix ixp by (simp_all add: ix'_def)
  have len: "length d' = l" using ld by (simp add: d'_def l_def)
  have nth: "ix' ! j = (if j = pos then ix ! l else ix ! j)" "d' ! j = (if j = pos then d ! l else d ! j)"
    if "j < l" for j
    using that lix pos ld by (auto simp: ix'_def d'_def nth_butlast l_def nth_list_update)
  have "sp' ! (ix' ! j) = j" if j: "j < l" for j
  proof (cases "j = pos")
    case True
    then show ?thesis using nth(1) [OF j] lid by (simp add: sp'_def)
  next
    case False
    have "ix ! j \<noteq> ix ! l" using dist j lix by (simp add: nth_eq_iff_index_eq)
    then show ?thesis using False nth(1) [OF j] inv j ld by (auto simp: sp'_def ss_inv_def)
  qed
  then show inv': "ss_inv (d', sp', ix')"
    using inv ix' len lix by (simp add: ss_inv_def sp'_def)
  have other: "ix ! j \<noteq> i" if "j < length d" "j \<noteq> pos" for j
    using dist that lix ixp inv by (auto simp: ss_inv_def nth_eq_iff_index_eq)
  show "ss_lookup (d', sp', ix') = (ss_lookup (d, sp, ix))(i := None)"
  proof (rule ext, rule ss_lookup_eqI)
    fix k y
    have "(\<exists>j < l. ix' ! j = k \<and> d' ! j = y) \<longleftrightarrow> k \<noteq> i \<and> (\<exists>j < length d. ix ! j = k \<and> d ! j = y)"
    proof
      assume "\<exists>j < l. ix' ! j = k \<and> d' ! j = y"
      then obtain j where j: "j < l" "ix' ! j = k" "d' ! j = y" by blast
      show "k \<noteq> i \<and> (\<exists>j < length d. ix ! j = k \<and> d ! j = y)"
      proof (cases "j = pos")
        case True
        then show ?thesis using j nth [OF j(1)] other [of l] pos ld by (auto intro: exI [of _ l])
      next
        case False
        then show ?thesis using j nth [OF j(1)] other [of j] ld by (auto intro: exI [of _ j])
      qed
    next
      assume "k \<noteq> i \<and> (\<exists>j < length d. ix ! j = k \<and> d ! j = y)"
      then obtain j where j: "k \<noteq> i" "j < length d" "ix ! j = k" "d ! j = y" by blast
      then have "j \<noteq> pos" using ixp by auto
      show "\<exists>j < l. ix' ! j = k \<and> d' ! j = y"
      proof (cases "j = l")
        case True
        then show ?thesis using j nth [OF pos] pos by (intro exI [of _ pos]) simp
      next
        case False
        then have "j < l" using j(2) by (simp add: l_def)
        then show ?thesis using j nth [of j] \<open>j \<noteq> pos\<close> by (intro exI [of _ j]) simp
      qed
    qed
    then show "ss_lookup (d', sp', ix') k = Some y \<longleftrightarrow> ((ss_lookup (d, sp, ix))(i := None)) k = Some y"
      using ss_lookup_Some [OF inv'] ss_lookup_Some [OF inv] len by auto
  qed
qed

lemma remove_lists_spec:
  assumes inv: "ss_inv v" and p: "ss_present i v"
  shows "ss_inv (remove_lists i v)" and "ss_lookup (remove_lists i v) = (ss_lookup v)(i := None)"
proof -
  obtain d sp ix where v: "v = (d, sp, ix)" by (cases v)
  show "ss_inv (remove_lists i v)" and "ss_lookup (remove_lists i v) = (ss_lookup v)(i := None)"
    using inv p remove_lists_last [of d sp ix i] remove_lists_swap [of d sp ix i]
    by (cases "sp ! i = length d - 1"; simp add: v remove_lists_def Let_def)+
qed

lemma set_lists_spec:
  assumes inv: "ss_inv (d, sp, ix)" and p: "ss_present i (d, sp, ix)"
  shows "ss_inv (d[sp ! i := x], sp, ix)" and "ss_lookup (d[sp ! i := x], sp, ix) = (ss_lookup (d, sp, ix))(i \<mapsto> x)"
proof -
  let ?p = "sp ! i"
  have pos: "?p < length d" "ix ! ?p = i" using p by (auto simp: ss_present_def)
  show inv': "ss_inv (d[?p := x], sp, ix)" using inv by (simp add: ss_inv_def)
  have other: "ix ! j \<noteq> i" if "j < length d" "j \<noteq> ?p" for j
    using inv that pos by (auto simp: ss_inv_def nth_eq_iff_index_eq)
  show "ss_lookup (d[?p := x], sp, ix) = (ss_lookup (d, sp, ix))(i \<mapsto> x)"
  proof (rule ext, rule ss_lookup_eqI)
    show "ss_lookup (d[?p := x], sp, ix) k = Some y \<longleftrightarrow> ((ss_lookup (d, sp, ix))(i \<mapsto> x)) k = Some y" for k y
      using ss_lookup_Some [OF inv'] ss_lookup_Some [OF inv] other pos
      by (auto simp: nth_list_update) metis+
  qed
qed

section \<open>The operations on the vectors\<close>

definition ss_part :: "('s, 't, 'r) sparse_set \<Rightarrow> ('s, 't) vec \<times> ('r inline_store, nat) vec \<times> ('r inline_store, nat) vec" where
  "ss_part c = (ss_dense c, ss_sparse c, ss_indices c)"

definition ss_tok :: "ss_token \<Rightarrow> vec_token \<times> vec_token \<times> vec_token" where
  "ss_tok t = (st_dense t, st_sparse t, st_indices t)"

definition ss_contents :: "('s \<Rightarrow> 't list) \<Rightarrow> ('r inline_store \<Rightarrow> nat list) \<Rightarrow> ('s, 't, 'r) sparse_set \<Rightarrow> 't ss_lists" where
  "ss_contents vals ivals c = (vals (v_store (ss_dense c)), ivals (v_store (ss_sparse c)), ivals (v_store (ss_indices c)))"

inductive ss_upd :: "('s, 't, 'r) ss_cfg \<Rightarrow> ('t \<Rightarrow> bool) \<Rightarrow> ('s, 't, 'r) sparse_set \<Rightarrow> ('s, 't, 'r) sparse_set \<Rightarrow> bool" for S okv where
  add: "okv x \<Longrightarrow> ss_add S x c = Inr (i, c') \<Longrightarrow> ss_upd S okv c c'"
| remove: "ss_remove S i c = Inr c' \<Longrightarrow> ss_upd S okv c c'"
| remove_value: "ss_remove_value S x c = Inr c' \<Longrightarrow> ss_upd S okv c c'"
| set: "okv x \<Longrightarrow> ss_set S i x c = Inr c' \<Longrightarrow> ss_upd S okv c c'"

locale sparse_ops =
  dense: semi_vec "sc_dense S" vals flag stale dom dflt + idx: semi_vec "sc_idx S" ivals iflag istale idom idflt
  for S :: "('s, 't, 'r) ss_cfg" and vals flag stale dom dflt ivals iflag istale idom idflt +
  assumes same_imax: "vc_imax (sc_idx S) = vc_imax (sc_dense S)"
    and idx_fits: "n \<le> vc_imax (sc_dense S) \<Longrightarrow> idom n"
    and idx_new: "ivals is_new = []" "\<not> iflag is_new i"
begin

abbreviation "slists \<equiv> ss_contents vals ivals"

definition srels :: "('s, 't, 'r) sparse_set \<Rightarrow> bool" where
  "srels c \<longleftrightarrow> (\<exists>a. dense.rel (ss_dense c) a) \<and> (\<exists>a. idx.rel (ss_sparse c) a) \<and> (\<exists>a. idx.rel (ss_indices c) a)"

definition supd :: "('s, 't, 'r) sparse_set \<Rightarrow> ('s, 't, 'r) sparse_set \<Rightarrow> bool" where
  "supd c c' \<longleftrightarrow> (vec_upd (sc_dense S) dom)\<^sup>*\<^sup>* (ss_dense c) (ss_dense c') \<and>
    (vec_upd (sc_idx S) idom)\<^sup>*\<^sup>* (ss_sparse c) (ss_sparse c') \<and>
    (vec_upd (sc_idx S) idom)\<^sup>*\<^sup>* (ss_indices c) (ss_indices c')"

lemma add_Inr:
  assumes r: "srels c" and x: "dom x" and a: "ss_add S x c = Inr (i, c')"
  shows "supd c c' \<and> add_lists x (slists c) = (i, slists c')"
proof -
  obtain sd sp si where rd: "dense.rel (ss_dense c) sd" and rs: "idx.rel (ss_sparse c) sp" and ri: "idx.rel (ss_indices c) si"
    using r by (auto simp: srels_def)
  let ?n = "length (vals (v_store (ss_dense c)))"
  have n: "?n \<le> vc_imax (sc_dense S)"
    using a by (auto simp: ss_add_def dense.vec_len_Inr elim!: rbind_eq_InrE)
  note fit = idx_fits [OF n]
  show ?thesis
  proof (cases "?n < length (ivals (v_store (ss_sparse c)))")
    case True
    then obtain d sp' where d: "vec_push (sc_dense S) x (ss_dense c) = Inr d"
      and sp': "vec_set (sc_idx S) i ?n (ss_sparse c) = Inr sp'"
      and i: "i = ivals (v_store (ss_indices c)) ! ?n" and c': "c' = c\<lparr>ss_dense := d, ss_sparse := sp'\<rparr>"
      using a by (auto simp: ss_add_def dense.vec_len_Inr idx.vec_len_Inr idx.get_Inr elim!: rbind_eq_InrE)
    show ?thesis
      using True dense.push_Inr(2) [OF rd x d] idx.set_Inr(2) [OF rs fit sp'] dense.upds(1) [OF x d]
        idx.upds(2) [OF fit sp'] i c' by (simp add: ss_contents_def add_lists_def supd_def)
  next
    case False
    then obtain d sp' ix where d: "vec_push (sc_dense S) x (ss_dense c) = Inr d"
      and sp': "vec_push (sc_idx S) ?n (ss_sparse c) = Inr sp'" and ix: "vec_push (sc_idx S) ?n (ss_indices c) = Inr ix"
      and i: "i = ?n" and c': "c' = c\<lparr>ss_dense := d, ss_sparse := sp', ss_indices := ix\<rparr>"
      using a by (auto simp: ss_add_def dense.vec_len_Inr idx.vec_len_Inr elim!: rbind_eq_InrE)
    show ?thesis
      using False dense.push_Inr(2) [OF rd x d] idx.push_Inr(2) [OF rs fit sp'] idx.push_Inr(2) [OF ri fit ix]
        dense.upds(1) [OF x d] idx.upds(1) [OF fit sp'] idx.upds(1) [OF fit ix] i c'
      by (simp add: ss_contents_def add_lists_def supd_def)
  qed
qed

lemma add_ok:
  assumes r: "srels c" and inv: "ss_inv (slists c)" and x: "dom x"
    and sz: "length (ivals (v_store (ss_indices c))) \<le> vc_imax (sc_dense S)"
  shows "\<exists>i c'. ss_add S x c = Inr (i, c')"
proof -
  obtain sd sp si where rd: "dense.rel (ss_dense c) sd" and rs: "idx.rel (ss_sparse c) sp" and ri: "idx.rel (ss_indices c) si"
    using r by (auto simp: srels_def)
  let ?d = "vals (v_store (ss_dense c))" and ?sp = "ivals (v_store (ss_sparse c))" and ?ix = "ivals (v_store (ss_indices c))"
  have len: "length ?sp = length ?ix" "length ?d \<le> length ?ix" using inv by (auto simp: ss_inv_def ss_contents_def)
  have szs: "length ?d \<le> vc_imax (sc_dense S)" "length ?ix \<le> vc_imax (sc_idx S)" "length ?sp \<le> vc_imax (sc_idx S)"
    using sz len same_imax by simp_all
  note fit = idx_fits [OF szs(1)]
  obtain d where d: "vec_push (sc_dense S) x (ss_dense c) = Inr d" using dense.push_spec [OF rd szs(1) x] by blast
  show ?thesis
  proof (cases "length ?d < length ?sp")
    case True
    then have "?ix ! length ?d < length ?sp"
      using ss_inv_ix [of ?d ?sp ?ix "length ?d"] inv len by (simp add: ss_contents_def)
    then obtain sp' where "vec_set (sc_idx S) (?ix ! length ?d) (length ?d) (ss_sparse c) = Inr sp'"
      using idx.set_spec [OF rs szs(3) _ fit] by blast
    with True d szs len show ?thesis by (simp add: ss_add_def dense.vec_len_val idx.vec_len_val idx.vec_get_val)
  next
    case False
    obtain sp' ix' where "vec_push (sc_idx S) (length ?d) (ss_sparse c) = Inr sp'"
      "vec_push (sc_idx S) (length ?d) (ss_indices c) = Inr ix'"
      using idx.push_spec [OF rs szs(3) fit] idx.push_spec [OF ri szs(2) fit] by blast
    with False d szs show ?thesis by (simp add: ss_add_def dense.vec_len_val idx.vec_len_val)
  qed
qed

lemma contains_val:
  assumes "length (ivals (v_store (ss_sparse c))) \<le> vc_imax (sc_dense S)"
    and "length (vals (v_store (ss_dense c))) \<le> length (ivals (v_store (ss_indices c)))"
    and "length (ivals (v_store (ss_indices c))) \<le> vc_imax (sc_dense S)"
  shows "ss_contains S i c = Inr (ss_present i (slists c))"
  using assms
  by (auto simp: ss_contains_def idx.vec_len_val dense.vec_len_val idx.vec_get_val ss_present_def ss_contents_def same_imax)

lemma contains_Inr:
  assumes inv: "ss_inv (slists c)" and b: "ss_contains S i c = Inr b"
  shows "b = ss_present i (slists c)"
proof -
  have len: "length (ivals (v_store (ss_sparse c))) = length (ivals (v_store (ss_indices c)))"
    "length (vals (v_store (ss_dense c))) \<le> length (ivals (v_store (ss_indices c)))"
    using inv by (auto simp: ss_inv_def ss_contents_def)
  have "length (ivals (v_store (ss_sparse c))) \<le> vc_imax (sc_dense S)"
    using b by (auto simp: ss_contains_def idx.vec_len_Inr same_imax elim!: rbind_eq_InrE)
  with contains_val [of c i] len b show ?thesis by simp
qed

text \<open>The branch of \<open>remove_inner\<close> that moves the last element into the hole.\<close>

lemma swap_Inr:
  assumes rd: "dense.rel d sd" and rs: "idx.rel sp ss" and ri: "idx.rel ix si" and i: "idom i"
    and pos: "idom pos" and l: "l < length (vals (v_store d))" "l < length (ivals (v_store ix))"
    and sd: "vec_set (sc_dense S) pos (vals (v_store d) ! l) d = Inr d'"
    and si: "vec_set (sc_idx S) pos (ivals (v_store ix) ! l) ix = Inr ix1" "vec_set (sc_idx S) l i ix1 = Inr ix'"
    and sp: "vec_set (sc_idx S) (ivals (v_store ix) ! l) pos sp = Inr sp'"
  shows "(vec_upd (sc_dense S) dom)\<^sup>*\<^sup>* d d'" and "(vec_upd (sc_idx S) idom)\<^sup>*\<^sup>* sp sp'" and "(vec_upd (sc_idx S) idom)\<^sup>*\<^sup>* ix ix'"
    and "vals (v_store d') = (vals (v_store d))[pos := vals (v_store d) ! l]"
    and "ivals (v_store sp') = (ivals (v_store sp))[ivals (v_store ix) ! l := pos]"
    and "ivals (v_store ix') = (ivals (v_store ix))[pos := ivals (v_store ix) ! l, l := i]"
    and "dense.rel d' sd"
proof -
  note D = dense.set_Inr [OF rd dense.get_dom [OF l(1)] sd]
  note X1 = idx.set_Inr [OF ri idx.get_dom [OF l(2)] si(1)]
  note X2 = idx.set_Inr [OF idx.set_rel [OF ri ri idx.get_dom [OF l(2)] si(1)] i si(2)]
  note P = idx.set_Inr [OF rs pos sp]
  show "(vec_upd (sc_idx S) idom)\<^sup>*\<^sup>* ix ix'" using X1(1) X2(1) by (meson converse_rtranclp_into_rtranclp r_into_rtranclp)
  show "dense.rel d' sd" by (rule dense.set_rel [OF rd rd dense.get_dom [OF l(1)] sd])
  show "(vec_upd (sc_dense S) dom)\<^sup>*\<^sup>* d d'" and "(vec_upd (sc_idx S) idom)\<^sup>*\<^sup>* sp sp'"
    using D(1) P(1) by auto
qed (fact dense.set_Inr(2) [OF rd dense.get_dom [OF l(1)] sd] idx.set_Inr(2) [OF rs pos sp]
  | simp add: idx.set_Inr(2) [OF ri idx.get_dom [OF l(2)] si(1)]
      idx.set_Inr(2) [OF idx.set_rel [OF ri ri idx.get_dom [OF l(2)] si(1)] i si(2)])+

lemma remove_inner_Inr:
  assumes r: "srels c" and inv: "ss_inv (slists c)" and p: "ss_present i (slists c)" and a: "ss_remove_inner S i c = Inr c'"
  shows "supd c c' \<and> slists c' = remove_lists i (slists c)"
proof -
  obtain sd ss si where rd: "dense.rel (ss_dense c) sd" and rs: "idx.rel (ss_sparse c) ss" and ri: "idx.rel (ss_indices c) si"
    using r by (auto simp: srels_def)
  let ?d = "vals (v_store (ss_dense c))" and ?sp = "ivals (v_store (ss_sparse c))" and ?ix = "ivals (v_store (ss_indices c))"
  let ?pos = "?sp ! i" and ?l = "length ?d - 1"
  have pp: "i < length ?sp" "?pos < length ?d" "?ix ! ?pos = i" and le: "length ?d \<le> length ?ix"
    using p inv by (auto simp: ss_present_def ss_contents_def ss_inv_def)
  have l: "?l < length ?d" "?l < length ?ix" using pp le by linarith+
  have di: "idom i" using idx.get_dom [of ?pos "ss_indices c"] pp le by simp
  have dp: "idom ?pos" using idx.get_dom [OF pp(1)] .
  show ?thesis
  proof (cases "?pos = ?l")
    case True
    then obtain d x where d: "vec_pop (sc_dense S) (ss_dense c) = Inr (x, d)" and c': "c' = c\<lparr>ss_dense := d\<rparr>"
      using a pp by (auto simp: ss_remove_inner_def idx.get_Inr dense.vec_len_Inr idx_try_def elim!: rbind_eq_InrE split: if_splits)
    show ?thesis
      using True dense.pop_Inr(2) [OF rd d] dense.upds(3) [OF d] c'
      by (simp add: ss_contents_def remove_lists_def supd_def Let_def)
  next
    case False
    then obtain d1 x d ix1 ix' sp' where st: "vec_set (sc_dense S) ?pos (?d ! ?l) (ss_dense c) = Inr d1"
        "vec_set (sc_idx S) ?pos (?ix ! ?l) (ss_indices c) = Inr ix1" "vec_set (sc_idx S) ?l i ix1 = Inr ix'"
        "vec_set (sc_idx S) (?ix ! ?l) ?pos (ss_sparse c) = Inr sp'"
      and d: "vec_pop (sc_dense S) d1 = Inr (x, d)" and c': "c' = c\<lparr>ss_dense := d, ss_sparse := sp', ss_indices := ix'\<rparr>"
      using a pp by (auto simp: ss_remove_inner_def idx.get_Inr dense.get_Inr dense.vec_len_Inr idx_try_def elim!: rbind_eq_InrE split: if_splits)
    note sw = swap_Inr [OF rd rs ri di dp l st]
    show ?thesis
      using False dense.pop_Inr(2) [OF sw(7) d] sw(1-6) dense.upds(3) [OF d] c'
      by (simp add: ss_contents_def remove_lists_def supd_def Let_def)
  qed
qed

lemma remove_inner_ok:
  assumes r: "srels c" and inv: "ss_inv (slists c)" and p: "ss_present i (slists c)"
    and sz: "length (ivals (v_store (ss_indices c))) \<le> vc_imax (sc_dense S)"
  shows "\<exists>c'. ss_remove_inner S i c = Inr c'"
proof -
  obtain sd ss si where rd: "dense.rel (ss_dense c) sd" and rs: "idx.rel (ss_sparse c) ss" and ri: "idx.rel (ss_indices c) si"
    using r by (auto simp: srels_def)
  let ?d = "vals (v_store (ss_dense c))" and ?sp = "ivals (v_store (ss_sparse c))" and ?ix = "ivals (v_store (ss_indices c))"
  let ?pos = "?sp ! i" and ?l = "length ?d - 1"
  have pp: "i < length ?sp" "?pos < length ?d" "?ix ! ?pos = i" and le: "length ?d \<le> length ?ix" "length ?sp = length ?ix"
    using p inv by (auto simp: ss_present_def ss_contents_def ss_inv_def)
  have l: "?l < length ?d" "?l < length ?ix" "?pos < length ?ix" using pp le by linarith+
  have szs: "length ?d \<le> vc_imax (sc_dense S)" "length ?ix \<le> vc_imax (sc_idx S)" "length ?sp \<le> vc_imax (sc_idx S)"
    using sz le same_imax by simp_all
  have lid: "?ix ! ?l < length ?sp" using ss_inv_ix [of ?d ?sp ?ix ?l] inv l by (simp add: ss_contents_def)
  have di: "idom i" using idx.get_dom [OF l(3)] pp by simp
  obtain d1 where d1: "vec_set (sc_dense S) ?pos (?d ! ?l) (ss_dense c) = Inr d1" "vals (v_store d1) = ?d[?pos := ?d ! ?l]"
      "dense.rel d1 sd"
    using dense.set_spec [OF rd szs(1) pp(2) dense.get_dom [OF l(1)]] by blast
  obtain ix1 where ix1: "vec_set (sc_idx S) ?pos (?ix ! ?l) (ss_indices c) = Inr ix1" "ivals (v_store ix1) = ?ix[?pos := ?ix ! ?l]"
      "idx.rel ix1 si"
    using idx.set_spec [OF ri szs(2) l(3) idx.get_dom [OF l(2)]] by blast
  obtain ix' where ix': "vec_set (sc_idx S) ?l i ix1 = Inr ix'"
    using idx.set_spec [OF ix1(3) _ _ di, of ?l] ix1(2) szs(2) l(2) by auto
  obtain sp' where sp': "vec_set (sc_idx S) (?ix ! ?l) ?pos (ss_sparse c) = Inr sp'"
    using idx.set_spec [OF rs szs(3) lid idx.get_dom [OF pp(1)]] by blast
  have pop: "\<exists>x d. vec_pop (sc_dense S) v = Inr (x, d)" if "dense.rel v sd" "length (vals (v_store v)) = length ?d" for v
    using dense.pop_spec [OF that(1)] that(2) szs(1) l(1) by (cases "vals (v_store v) = []") auto
  have "?d \<noteq> []" using pp(2) by auto
  then show ?thesis
    using d1 ix1(1) ix' sp' pop [OF rd] pop [OF d1(3)] szs(1) l pp
    by (cases "?pos = ?l") (auto simp: ss_remove_inner_def idx.vec_get_val dense.vec_get_val dense.vec_len_val idx_try_def)
qed

lemma scan_Inr:
  assumes r: "srels c" and inv: "ss_inv (slists c)"
  shows "ss_scan S x is c = Inr c' \<Longrightarrow> set is \<subseteq> {..< length (vals (v_store (ss_dense c)))} \<Longrightarrow>
    \<exists>i. ss_lookup (slists c) i = Some x \<and> supd c c' \<and> slists c' = remove_lists i (slists c)"
proof (induction "is")
  case (Cons j "is")
  let ?d = "vals (v_store (ss_dense c))" and ?sp = "ivals (v_store (ss_sparse c))" and ?ix = "ivals (v_store (ss_indices c))"
  have j: "j < length ?d" "j < length ?ix" and inv': "ss_inv (?d, ?sp, ?ix)"
    using Cons.prems(2) inv by (auto simp: ss_contents_def ss_inv_def)
  show ?case
  proof (cases "?d ! j = x")
    case True
    then have a: "ss_remove_inner S (?ix ! j) c = Inr c'"
      using Cons.prems j by (auto simp: dense.get_Inr idx.get_Inr idx_try_def elim!: rbind_eq_InrE split: if_splits)
    have "ss_lookup (slists c) (?ix ! j) = Some x" using ss_lookup_Some [OF inv'] True j by (auto simp: ss_contents_def)
    moreover from this have "ss_present (?ix ! j) (slists c)" using ss_present_iff [OF inv'] by (simp add: ss_contents_def)
    ultimately show ?thesis using remove_inner_Inr [OF r inv _ a] by blast
  next
    case False
    then have "ss_scan S x is c = Inr c'"
      using Cons.prems j by (auto simp: dense.get_Inr idx_try_def elim!: rbind_eq_InrE split: if_splits)
    with Cons show ?thesis by simp
  qed
qed simp

lemma set_Inr:
  assumes r: "srels c" and inv: "ss_inv (slists c)" and x: "dom x" and a: "ss_set S i x c = Inr c'"
  shows "ss_present i (slists c)" and "supd c c'"
    and "slists c' = ((fst (slists c))[fst (snd (slists c)) ! i := x], snd (slists c))"
proof -
  obtain sd where rd: "dense.rel (ss_dense c) sd" using r by (auto simp: srels_def)
  obtain b where b: "ss_contains S i c = Inr b" "b" using a by (auto simp: ss_set_def elim!: rbind_eq_InrE)
  show p: "ss_present i (slists c)" using contains_Inr [OF inv b(1)] b(2) by simp
  let ?pos = "ivals (v_store (ss_sparse c)) ! i"
  obtain d where d: "vec_set (sc_dense S) ?pos x (ss_dense c) = Inr d" and c': "c' = c\<lparr>ss_dense := d\<rparr>"
    using a b by (auto simp: ss_set_def idx.get_Inr elim!: rbind_eq_InrE)
  show "supd c c'" and "slists c' = ((fst (slists c))[fst (snd (slists c)) ! i := x], snd (slists c))"
    using dense.set_Inr(2) [OF rd x d] dense.upds(2) [OF x d] c' by (simp_all add: supd_def ss_contents_def)
qed

lemma remove_Inr:
  assumes r: "srels c" and inv: "ss_inv (slists c)" and a: "ss_remove S i c = Inr c'"
  shows "ss_present i (slists c)" and "supd c c'" and "slists c' = remove_lists i (slists c)"
proof -
  obtain b where b: "ss_contains S i c = Inr b" "b" "ss_remove_inner S i c = Inr c'"
    using a by (auto simp: ss_remove_def elim!: rbind_eq_InrE)
  show p: "ss_present i (slists c)" using contains_Inr [OF inv b(1)] b(2) by simp
  show "supd c c'" and "slists c' = remove_lists i (slists c)" using remove_inner_Inr [OF r inv p b(3)] by auto
qed

lemma upd_keeps:
  assumes "srels c" and "ss_inv (slists c)" and "ss_upd S dom c c'"
  shows "supd c c' \<and> ss_inv (slists c')"
  using assms(3)
proof cases
  case (add x i)
  then show ?thesis using add_Inr [OF assms(1)] add_lists_spec(1) [OF assms(2), of x i] by auto
next
  case (remove i)
  then show ?thesis using remove_Inr [OF assms(1,2)] remove_lists_spec(1) [OF assms(2)] by metis
next
  case (remove_value x)
  then obtain n where "ss_scan S x [0 ..< n] c = Inr c'" "n = length (vals (v_store (ss_dense c)))"
    by (auto simp: ss_remove_value_def dense.vec_len_Inr elim!: rbind_eq_InrE)
  then obtain i where "ss_lookup (slists c) i = Some x" "supd c c'" "slists c' = remove_lists i (slists c)"
    using scan_Inr [OF assms(1,2)] by (fastforce simp: atLeast0LessThan)
  moreover have "ss_present i (slists c)"
    using ss_present_iff [of "fst (slists c)" "fst (snd (slists c))" "snd (snd (slists c))" i] assms(2) calculation by simp
  ultimately show ?thesis using remove_lists_spec(1) [OF assms(2)] by simp
next
  case (set x i)
  note s = set_Inr [OF assms(1,2) set]
  show ?thesis
    using s set_lists_spec(1) [of "fst (slists c)" "fst (snd (slists c))" "snd (snd (slists c))" i x] assms(2) by simp
qed

end

section \<open>The set as a checkpointed container\<close>

definition ss_fresh :: "('s \<Rightarrow> 't list) \<Rightarrow> ('s \<Rightarrow> nat \<Rightarrow> bool) \<Rightarrow> ('s, 't, 'r) sparse_set \<Rightarrow> bool" where
  "ss_fresh vals flag c \<longleftrightarrow> (\<exists>s counter. vals s = [] \<and> (\<forall>i. \<not> flag s i) \<and> c = fst (ss_with_store s counter))"

lemma ss_upd_ids:
  assumes "ss_upd S okv c c'"
  shows "v_id (ss_dense c') = v_id (ss_dense c) \<and> v_id (ss_sparse c') = v_id (ss_sparse c) \<and>
    v_id (ss_indices c') = v_id (ss_indices c)"
proof -
  have inner: "v_id (ss_dense c') = v_id (ss_dense c) \<and> v_id (ss_sparse c') = v_id (ss_sparse c) \<and>
      v_id (ss_indices c') = v_id (ss_indices c)" if "ss_remove_inner S i c = Inr c'" for i c c'
    using that by (auto simp: ss_remove_inner_def vec_ids elim!: rbind_eq_InrE split: if_splits)
  have scan: "\<exists>i. ss_remove_inner S i c = Inr c'" if "ss_scan S x is c = Inr c'" for x "is" c c'
    using that by (induction "is") (auto elim!: rbind_eq_InrE split: if_splits)
  show ?thesis
    using assms
  proof cases
    case (remove_value x)
    then show ?thesis using scan inner by (fastforce simp: ss_remove_value_def elim!: rbind_eq_InrE)
  qed (auto simp: ss_add_def ss_remove_def ss_set_def vec_ids inner elim!: rbind_eq_InrE split: if_splits)
qed

context sparse_ops begin

lemma is_composite: "composite
  (\<lambda>c. vec_fresh flag (fst c) \<and> vec_fresh iflag (fst (snd c)) \<and> vec_fresh iflag (snd (snd c)))
  (pair_upd (vec_upd (sc_dense S) dom) (pair_upd (vec_upd (sc_idx S) idom) (vec_upd (sc_idx S) idom)))
  (pair_mk (vec_mark (sc_dense S)) (pair_mk (vec_mark (sc_idx S)) (vec_mark (sc_idx S))))
  (pair_rst (vec_restore (sc_dense S)) (pair_rst (vec_restore (sc_idx S)) (vec_restore (sc_idx S))))
  (\<lambda>c. (vals (v_store (fst c)), ivals (v_store (fst (snd c))), ivals (v_store (snd (snd c)))))
  (\<lambda>t. branch_id (fst t)) (\<lambda>t. depth (fst t)) (\<lambda>c. v_forks (fst c))
  (pair_rel (vec_rel (sc_dense S) vals flag dom) (pair_rel (vec_rel (sc_idx S) ivals iflag idom) (vec_rel (sc_idx S) ivals iflag idom) v_forks v_forks)
    v_forks (\<lambda>c. v_forks (fst c)))
  (pair_good vec_good (pair_good vec_good vec_good branch_id depth branch_id depth) branch_id depth
    (\<lambda>t. branch_id (fst t)) (\<lambda>t. depth (fst t)))
  (ss_fresh vals flag) (ss_upd S dom) (ss_mark S) (ss_restore S) ss_part ss_tok ss_inv"
  (is "composite ?F ?U ?M ?R ?V ?br ?dp ?fk ?rel ?good _ _ _ _ _ _ _")
proof (intro composite.intro composite_axioms.intro)
  show "checkpointed ?F ?U ?M ?R ?V ?br ?dp ?fk ?rel ?good"
    by (intro pair_checkpointed dense.is_checkpointed idx.is_checkpointed)
  fix c c' and s and t sh and u and x
  show "ss_fresh vals flag c \<Longrightarrow> ?F (ss_part c) \<and> ss_inv (?V (ss_part c))"
    using idx_new
    by (auto simp: ss_fresh_def ss_with_store_def veci_new_def ss_part_def vec_fresh_def ss_inv_def
        vec_with_store_def container_id_new_def Let_def)
  show "ss_upd S dom c c' \<Longrightarrow> ?good (ss_part c) u \<Longrightarrow> ?good (ss_part c') u"
    using ss_upd_ids [of S dom c c'] by (simp add: pair_good_def ss_part_def vec_good_def)
  show "?U\<^sup>*\<^sup>* (ss_part c) (ss_part c') \<and> ss_inv (?V (ss_part c'))"
    if "?rel (ss_part c) s" "ss_inv (?V (ss_part c))" "ss_upd S dom c c'"
  proof -
    have "srels c" using that(1) by (auto simp: srels_def ss_part_def pair_rel_def)
    then have "supd c c' \<and> ss_inv (slists c')" using upd_keeps that(2,3) by (simp add: ss_contents_def ss_part_def)
    then show ?thesis by (auto simp: supd_def ss_contents_def ss_part_def intro!: pair_updI)
  qed
  show "ss_mark S sh c = Inr (t, c') \<Longrightarrow> \<exists>n. ?M n (ss_part c) = Inr (ss_tok t, ss_part c') \<and> ?V (ss_part c') = ?V (ss_part c)"
    by (intro exI [of _ sh]) (auto simp: ss_mark_def pair_mk_eq_Inr ss_part_def ss_tok_def dense.mark_cont idx.mark_cont elim!: rbind_eq_InrE split: prod.splits)
  show "ss_restore S t c = Inr c' \<Longrightarrow> ?R (ss_tok t) (ss_part c) = Inr (ss_part c')"
    by (auto simp: ss_restore_def pair_rst_eq_Inr ss_part_def ss_tok_def elim!: rbind_eq_InrE)
  show "?R (ss_tok t) (ss_part c) = Inr x \<Longrightarrow> \<exists>c'. ss_restore S t c = Inr c'"
    by (auto simp: ss_restore_def pair_rst_eq_Inr ss_part_def ss_tok_def)
qed

end

sublocale sparse_ops \<subseteq> cmp: composite
  "\<lambda>c. vec_fresh flag (fst c) \<and> vec_fresh iflag (fst (snd c)) \<and> vec_fresh iflag (snd (snd c))"
  "pair_upd (vec_upd (sc_dense S) dom) (pair_upd (vec_upd (sc_idx S) idom) (vec_upd (sc_idx S) idom))"
  "pair_mk (vec_mark (sc_dense S)) (pair_mk (vec_mark (sc_idx S)) (vec_mark (sc_idx S)))"
  "pair_rst (vec_restore (sc_dense S)) (pair_rst (vec_restore (sc_idx S)) (vec_restore (sc_idx S)))"
  "\<lambda>c. (vals (v_store (fst c)), ivals (v_store (fst (snd c))), ivals (v_store (snd (snd c))))"
  "\<lambda>t. branch_id (fst t)"
  "\<lambda>t. depth (fst t)"
  "\<lambda>c. v_forks (fst c)"
  "pair_rel (vec_rel (sc_dense S) vals flag dom) (pair_rel (vec_rel (sc_idx S) ivals iflag idom) (vec_rel (sc_idx S) ivals iflag idom) v_forks v_forks) v_forks (\<lambda>c. v_forks (fst c))"
  "pair_good vec_good (pair_good vec_good vec_good branch_id depth branch_id depth) branch_id depth (\<lambda>t. branch_id (fst t)) (\<lambda>t. depth (fst t))"
  "ss_fresh vals flag" "ss_upd S dom" "ss_mark S" "ss_restore S" ss_part ss_tok ss_inv "\<lambda>v. v"
  by (rule is_composite)

context sparse_ops begin

lemma crel_srels: "cmp.crel c snaps \<Longrightarrow> srels c \<and> ss_inv (slists c)"
  by (auto simp: cmp.crel_def srels_def pair_rel_def ss_part_def ss_contents_def)

lemma set_checkpointed:
  "checkpointed (ss_fresh vals flag) (ss_upd S dom) (ss_mark S) (ss_restore S) slists
    (\<lambda>t. branch_id (st_dense t)) (\<lambda>t. depth (st_dense t)) (\<lambda>c. v_forks (ss_dense c)) cmp.crel
    (\<lambda>c t. pair_good vec_good (pair_good vec_good vec_good branch_id depth branch_id depth) branch_id depth
      (\<lambda>t. branch_id (fst t)) (\<lambda>t. depth (fst t)) (ss_part c) (ss_tok t))"
  using cmp.composite_checkpointed by (simp add: ss_part_def ss_tok_def ss_contents_def [abs_def])

end

text \<open>Sets over a parallel dense vector and 31-bit identifiers.\<close>

definition ssp_cfg :: "(nat, 'r) tagged_ops \<Rightarrow> bool \<Rightarrow> nat \<Rightarrow> 't \<Rightarrow> ('t parallel_store, 't, 'r) ss_cfg" where
  "ssp_cfg T track imax d = \<lparr>sc_dense = vecp_cfg track imax d, sc_idx = veci_cfg T track imax\<rparr>"

abbreviation ss31_cfg :: "bool \<Rightarrow> 't \<Rightarrow> ('t parallel_store, 't, 32 word) ss_cfg" where
  "ss31_cfg track d \<equiv> ssp_cfg (id_nat_tagged :: (nat, 32 word) tagged_ops) track imax31 d"

interpretation ss31: sparse_ops "ss31_cfg track d" ps_data is_bit_set "\<lambda>_ _. False" "\<lambda>_. True" d
  "is_vals (id_nat_tagged :: (nat, 32 word) tagged_ops)" "is_flag (id_nat_tagged :: (nat, 32 word) tagged_ops)"
  "is_flag (id_nat_tagged :: (nat, 32 word) tagged_ops)" "id_nat_dom TYPE(32)" "tg_default (id_nat_tagged :: (nat, 32 word) tagged_ops)"
  for track d
proof (intro sparse_ops.intro sparse_ops_axioms.intro)
  show "semi_vec (sc_dense (ss31_cfg track d)) ps_data is_bit_set (\<lambda>_ _. False) (\<lambda>_. True) d"
    using vecp.semi_vec_axioms by (simp add: ssp_cfg_def)
  show "semi_vec (sc_idx (ss31_cfg track d)) (is_vals id_nat_tagged) (is_flag id_nat_tagged) (is_flag id_nat_tagged)
      (id_nat_dom TYPE(32)) (tg_default (id_nat_tagged :: (nat, 32 word) tagged_ops))"
    unfolding ssp_cfg_def ss_cfg.simps by (rule id31_t.veci_semi_vec)
qed (simp_all add: ssp_cfg_def vecp_cfg_def veci_cfg_def id_nat_dom_def le_imax31 is_vals_def is_flag_def is_new_def)

section \<open>Properties\<close>

abbreviation ss31_contents :: "('t parallel_store, 't, 32 word) sparse_set \<Rightarrow> 't ss_lists" where
  "ss31_contents \<equiv> ss_contents ps_data (is_vals (id_nat_tagged :: (nat, 32 word) tagged_ops))"

abbreviation ss31_session ::
  "bool \<Rightarrow> 't \<Rightarrow> ('t parallel_store, 't, 32 word) sparse_set \<Rightarrow> (ss_token \<times> 't ss_lists) list \<Rightarrow> nat list \<Rightarrow> nat set \<Rightarrow> bool" where
  "ss31_session track d \<equiv> session (ss_fresh ps_data is_bit_set) (ss_upd (ss31_cfg track d) (\<lambda>_. True))
    (ss_mark (ss31_cfg track d)) (ss_restore (ss31_cfg track d)) ss31_contents (\<lambda>t. depth (st_dense t))"

lemma ss31_session_inv:
  assumes "ss31_session track d c issued st co"
  shows "ss31.srels track d c \<and> ss_inv (ss31_contents c)"
  by (rule ss31.crel_srels [OF checkpointed.session_inv [OF ss31.set_checkpointed assms, THEN conjunct1]])

text \<open>A new set; a set with one mark; the identifier of the first element.\<close>

abbreviation "ss31_new \<equiv> fst (ss_with_store ps_new 0) :: (nat parallel_store, nat, 32 word) sparse_set"

lemma ss31_demo0: "ss31_session True 0 ss31_new [] [] {}"
  by (intro session.fresh) (auto simp: ss_fresh_def ps_new_def is_bit_set_def intro!: exI [of _ ps_new] exI [of _ 0])

lemma ss_contents_new: "ss_contents ps_data (is_vals T) (fst (ss_with_store ps_new counter)) = ([], [], [])"
    "ss_lookup ([], [], []) = Map.empty"
  by (simp_all add: ss_contents_def ss_with_store_def veci_new_def vec_with_store_def container_id_new_def
      is_vals_def is_new_def ps_new_def ss_lookup_def)

lemma ss31_demo1:
  obtains t c where "ss_mark (ss31_cfg True 0) ((Never, 0, 0), (Never, 0, 0), (Never, 0, 0)) ss31_new = Inr (t, c)"
    and "ss31_session True 0 c [(t, ([], [], []))] [0] {}" and "v_forks (ss_dense c) = fork_history_new"
proof -
  obtain t c where m: "ss_mark (ss31_cfg True 0) ((Never, 0, 0), (Never, 0, 0), (Never, 0, 0)) ss31_new = Inr (t, c)"
    and f: "v_forks (ss_dense c) = fork_history_new"
    by (simp add: ss_mark_def ss_with_store_def ssp_cfg_def vecp_cfg_def veci_cfg_def parallel_ops_def inline_ops_def
        veci_new_def vec_with_store_def container_id_new_def vec_mark_def vec_maybe_shrink_def len_res_def idx_try_def
        ps_new_def is_new_def slice_from_def narrow_count_def)
  have "ss31_session True 0 c [(t, ([], [], []))] [0] {}"
    using session.mark [OF ss31_demo0, OF m] by (simp add: ss_contents_new)
  with m f show ?thesis by (intro that)
qed

text \<open>
  A live token of a \<open>SparseSet\<close> restores values, positions and identifiers at its mark, and an
  accepted token that was never restored before is live.
\<close>

theorem sparse_set_restore_exact:
  assumes "ss31_session track d c issued st co" and "k < length issued" and "k \<notin> co"
    and "length st < 2 ^ 32" and "length (origins (v_forks (ss_dense c))) + 1 < 2 ^ 32"
  shows "(\<exists>c'. ss_restore (ss31_cfg track d) (fst (issued ! k)) c = Inr c') = (k \<in> set st) \<and>
    (\<forall>c'. ss_restore (ss31_cfg track d) (fst (issued ! k)) c = Inr c' \<longrightarrow> ss31_contents c' = snd (issued ! k))"
  using checkpointed.live_token_restores [OF ss31.set_checkpointed assms(1) _ assms(4,5)]
    checkpointed.accepted_token_live [OF ss31.set_checkpointed assms(1-3)] by blast

theorem sparse_set_restore_exact_witness:
  "\<exists>t c w. ss_mark (ss31_cfg True 0) ((Never, 0, 0), (Never, 0, 0), (Never, 0, 0)) ss31_new = Inr (t, c) \<and>
    ss_restore (ss31_cfg True 0) t c = Inr w \<and> ss31_contents w = ([], [], [])"
proof -
  obtain t c where d: "ss_mark (ss31_cfg True 0) ((Never, 0, 0), (Never, 0, 0), (Never, 0, 0)) ss31_new = Inr (t, c)"
    "ss31_session True 0 c [(t, ([], [], []))] [0] {}" "v_forks (ss_dense c) = fork_history_new" by (rule ss31_demo1)
  from sparse_set_restore_exact [OF d(2), of 0] d show ?thesis by (auto simp: fork_history_new_def)
qed

text \<open>
  Identifiers are stable.  Below the capacity of the index word, \<open>add\<close> returns an identifier that
  was not in use and maps it to the value, and every other identifier keeps its value.
\<close>

theorem sparse_set_add:
  assumes "ss31_session track d c issued st co" and "length (snd (snd (ss31_contents c))) < 2 ^ 31"
  shows "\<exists>i c'. ss_add (ss31_cfg track d) x c = Inr (i, c') \<and> ss_lookup (ss31_contents c) i = None \<and>
    ss_lookup (ss31_contents c') = (ss_lookup (ss31_contents c))(i \<mapsto> x)"
proof -
  have inv: "ss31.srels track d c" "ss_inv (ss31_contents c)" using ss31_session_inv [OF assms(1)] by auto
  have cfg: "vc_imax (sc_dense (ss31_cfg track d)) = imax31" by (simp add: ssp_cfg_def vecp_cfg_def)
  obtain i c' where a: "ss_add (ss31_cfg track d) x c = Inr (i, c')"
    using ss31.add_ok [OF inv, of x] assms(2) cfg by (auto simp: ss_contents_def le_imax31)
  have "add_lists x (ss31_contents c) = (i, ss31_contents c')" using ss31.add_Inr [OF inv(1) _ a] by simp
  from add_lists_spec(2,3) [OF inv(2) this] a show ?thesis by blast
qed

theorem sparse_set_add_witness:
  "\<exists>i c'. ss_add (ss31_cfg True (0 :: nat)) 7 (fst (ss_with_store ps_new 0)) = Inr (i, c') \<and>
    ss_lookup (ss31_contents c') = [i \<mapsto> 7]"
  using sparse_set_add [OF ss31_demo0, of 7] by (auto simp: ss_contents_new)

text \<open>
  C30: \<open>remove\<close> takes exactly one identifier out: the others keep their values although the last element
  moves into the hole; \<open>get\<close> agrees with the map, and an absent identifier panics in both.
\<close>

theorem sparse_set_remove_get:
  assumes "ss31_session track d c issued st co" and "length (snd (snd (ss31_contents c))) < 2 ^ 31"
  shows "case ss_lookup (ss31_contents c) i of
      None \<Rightarrow> ss_remove (ss31_cfg track d) i c = Inl IdNotPresent \<and> ss_get (ss31_cfg track d) i c = Inl IdNotPresent
    | Some x \<Rightarrow> ss_get (ss31_cfg track d) i c = Inr x \<and>
        (\<exists>c'. ss_remove (ss31_cfg track d) i c = Inr c' \<and>
          ss_lookup (ss31_contents c') = (ss_lookup (ss31_contents c))(i := None))"
proof -
  let ?S = "ss31_cfg track d"
  have r: "ss31.srels track d c" and inv: "ss_inv (ss31_contents c)" using ss31_session_inv [OF assms(1)] by auto
  obtain dd sp ix where v: "ss31_contents c = (dd, sp, ix)" by (cases "ss31_contents c")
  then have cont: "dd = ps_data (v_store (ss_dense c))" "sp = is_vals id_nat_tagged (v_store (ss_sparse c))"
    "ix = is_vals id_nat_tagged (v_store (ss_indices c))" by (auto simp: ss_contents_def)
  have sz: "length ix \<le> vc_imax (sc_dense ?S)" using assms(2) v by (simp add: ssp_cfg_def vecp_cfg_def le_imax31)
  have con: "ss_contains ?S i c = Inr (ss_present i (dd, sp, ix))"
    using ss31.contains_val [of c track d i] inv sz v cont by (simp add: ss_inv_def ss_contents_def)
  have pres: "ss_present i (dd, sp, ix) \<longleftrightarrow> ss_lookup (dd, sp, ix) i \<noteq> None" using ss_present_iff inv v by metis
  show ?thesis
  proof (cases "ss_lookup (dd, sp, ix) i")
    case None
    then show ?thesis using con pres v by (simp add: ss_remove_def ss_get_def)
  next
    case (Some x)
    then have p: "ss_present i (dd, sp, ix)" and x: "x = dd ! (sp ! i)"
      using pres ss_lookup_present [of dd sp ix i] inv v by auto
    have g: "ss_get ?S i c = Inr x"
      using con p x cont by (simp add: ss_get_def ss31.idx.vec_get_val ss31.dense.vec_get_val ss_present_def)
    obtain c' where c': "ss_remove_inner ?S i c = Inr c'"
      using ss31.remove_inner_ok [OF r inv] p v sz cont by auto
    then have "ss_lookup (ss31_contents c') = (ss_lookup (ss31_contents c))(i := None)"
      using ss31.remove_inner_Inr [OF r inv _ c'] remove_lists_spec(2) [OF inv] p v by auto
    with Some g c' con p v show ?thesis by (simp add: ss_remove_def)
  qed
qed

theorem sparse_set_remove_get_witness:
  "\<exists>i c c'. ss_add (ss31_cfg True 0) 7 ss31_new = Inr (i, c) \<and> ss_get (ss31_cfg True 0) i c = Inr 7 \<and>
    ss_remove (ss31_cfg True 0) i c = Inr c' \<and> ss_lookup (ss31_contents c') i = None"
proof -
  have cfg: "vc_imax (sc_dense (ss31_cfg True (0 :: nat))) = imax31" by (simp add: ssp_cfg_def vecp_cfg_def)
  note inv = ss31_session_inv [OF ss31_demo0]
  have e: "ss31_contents ss31_new = ([], [], [])" by (rule ss_contents_new)
  obtain i c where a: "ss_add (ss31_cfg True 0) 7 ss31_new = Inr (i, c)"
    using ss31.add_ok [OF conjunct1 [OF inv] conjunct2 [OF inv], of 7] e by (auto simp: ss_contents_def cfg le_imax31)
  have s: "ss31_session True 0 c [] [] {}" using session.update [OF ss31_demo0 ss_upd.add [OF _ a]] by simp
  have al: "add_lists 7 ([], [], []) = (i, ss31_contents c)"
    using ss31.add_Inr [OF conjunct1 [OF inv] _ a] by (simp add: ss_contents_new)
  then have c: "ss31_contents c = ([7], [0], [0])" "i = 0" by (simp_all add: add_lists_def)
  then have "ss_lookup (ss31_contents c) i = Some 7" "length (snd (snd (ss31_contents c))) < 2 ^ 31"
    by (simp_all add: ss_lookup_def)
  from this sparse_set_remove_get [OF s this(2), of i] a show ?thesis by auto
qed

end
