(* ===== verification/List_Arena.thy ===== *)
theory List_Arena
  imports Semi_Vec Lockstep
begin

text \<open>
  Arena-backed singly-linked lists, \<open>containers/src/list.rs\<close>: a vector of headers and a vector of
  nodes, both inline, marked and restored together.  The record \<open>N\<close> of tag operations is the node
  identifier's; \<open>next\<close> and \<open>head\<close> are kept in the niche encoding \<open>Opt<N>\<close>, as the code keeps them.
  The size diagnostics \<open>tracking_bytes\<close> and \<open>total_bytes\<close> are not modelled.
\<close>

section \<open>Nodes and headers\<close>

record ('t, 'n) list_node =
  ln_payload :: 't
  ln_next :: 'n

record 'n list_head =
  lh_head :: 'n
  lh_tail :: nat
  lh_len :: nat

definition list_head_empty :: "(nat, 'n) tagged_ops \<Rightarrow> 'n list_head" where
  "list_head_empty N = \<lparr>lh_head = opt_none N, lh_tail = tg_default N, lh_len = 0\<rparr>"

definition head_is_empty :: "(nat, 'n) tagged_ops \<Rightarrow> 'n list_head \<Rightarrow> bool" where
  "head_is_empty N h = tag N (lh_head h)"

definition node_tagged :: "('t, 'r) tagged_ops \<Rightarrow> (nat, 'n) tagged_ops \<Rightarrow> (('t, 'n) list_node, 'r \<times> 'n) tagged_ops" where
  "node_tagged T N = \<lparr>
     into_repr = (\<lambda>x. (into_repr T (ln_payload x), ln_next x)),
     from_repr = (\<lambda>r. \<lparr>ln_payload = from_repr T (fst r), ln_next = snd r\<rparr>),
     tag = (\<lambda>r. tag T (fst r)),
     set_tag = (\<lambda>r. (set_tag T (fst r), snd r)),
     clear_tag = (\<lambda>r. (clear_tag T (fst r), snd r)),
     tg_default = \<lparr>ln_payload = tg_default T, ln_next = opt_none N\<rparr>\<rparr>"

definition head_tagged :: "(nat, 'n) tagged_ops \<Rightarrow> ('n list_head, 'n \<times> 'n \<times> nat) tagged_ops" where
  "head_tagged N = \<lparr>
     into_repr = (\<lambda>h. (into_repr N (lh_tail h), lh_head h, lh_len h)),
     from_repr = (\<lambda>r. \<lparr>lh_head = fst (snd r), lh_tail = from_repr N (fst r), lh_len = snd (snd r)\<rparr>),
     tag = (\<lambda>r. tag N (fst r)),
     set_tag = (\<lambda>r. (set_tag N (fst r), snd r)),
     clear_tag = (\<lambda>r. (clear_tag N (fst r), snd r)),
     tg_default = list_head_empty N\<rparr>"

context tagged_repr begin

lemma node_tagged_repr: "tagged_repr (node_tagged T N) (\<lambda>x. dom (ln_payload x))"
  by unfold_locales (auto simp: node_tagged_def)

end

lemma head_tagged_repr:
  assumes "tagged_repr N ndom"
  shows "tagged_repr (head_tagged N) (\<lambda>h. ndom (lh_tail h))"
  using assms unfolding tagged_repr_def by (auto simp: head_tagged_def list_head_empty_def)

section \<open>The operations\<close>

text \<open>\<open>lmax\<close> and \<open>nmax\<close> are the largest list and node identifiers.\<close>

record ('r, 't, 'n) la_cfg =
  lc_heads :: "(('n \<times> 'n \<times> nat) inline_store, 'n list_head) vec_cfg"
  lc_nodes :: "(('r \<times> 'n) inline_store, ('t, 'n) list_node) vec_cfg"
  lc_id :: "(nat, 'n) tagged_ops"
  lc_lmax :: nat
  lc_nmax :: nat

record ('r, 't, 'n) list_arena =
  la_heads :: "(('n \<times> 'n \<times> nat) inline_store, 'n list_head) vec"
  la_nodes :: "(('r \<times> 'n) inline_store, ('t, 'n) list_node) vec"

record la_token =
  lt_heads :: vec_token
  lt_nodes :: vec_token

definition la_new :: "32 word \<Rightarrow> ('r, 't, 'n) list_arena \<times> 32 word" where
  "la_new c0 = (let (hs, c1) = veci_new c0; (ns, c2) = veci_new c1 in (\<lparr>la_heads = hs, la_nodes = ns\<rparr>, c2))"

definition la_grown :: "('r, 't, 'n) la_cfg \<Rightarrow> nat \<Rightarrow> nat res" where
  "la_grown A n = expect ListLenOverflow (idx_try (vc_imax (lc_nodes A)) (n + 1))"

definition la_new_list :: "('r, 't, 'n) la_cfg \<Rightarrow> ('r, 't, 'n) list_arena \<Rightarrow> (nat \<times> ('r, 't, 'n) list_arena) res" where
  "la_new_list A a =
    rbind (vec_len (lc_heads A) (la_heads a)) (\<lambda>n.
    rbind (expect IdRange (idx_try (lc_lmax A) n)) (\<lambda>i.
    rbind (vec_push (lc_heads A) (list_head_empty (lc_id A)) (la_heads a)) (\<lambda>hs.
    Inr (i, a\<lparr>la_heads := hs\<rparr>))))"

definition la_prepend :: "('r, 't, 'n) la_cfg \<Rightarrow> nat \<Rightarrow> 't \<Rightarrow> ('r, 't, 'n) list_arena \<Rightarrow> ('r, 't, 'n) list_arena res" where
  "la_prepend A l payload a =
    rbind (vec_get (lc_heads A) l (la_heads a)) (\<lambda>h.
    let was_empty = head_is_empty (lc_id A) h in
    rbind (vec_len (lc_nodes A) (la_nodes a)) (\<lambda>n.
    rbind (expect IdRange (idx_try (lc_nmax A) n)) (\<lambda>slot.
    rbind (vec_push (lc_nodes A) \<lparr>ln_payload = payload, ln_next = lh_head h\<rparr> (la_nodes a)) (\<lambda>ns.
    let h1 = h\<lparr>lh_head := opt_some (lc_id A) slot\<rparr>;
        h2 = (if was_empty then h1\<lparr>lh_tail := slot\<rparr> else h1)
    in rbind (la_grown A (lh_len h2)) (\<lambda>m.
    rbind (vec_set (lc_heads A) l (h2\<lparr>lh_len := m\<rparr>) (la_heads a)) (\<lambda>hs.
    Inr \<lparr>la_heads = hs, la_nodes = ns\<rparr>))))))"

definition la_append :: "('r, 't, 'n) la_cfg \<Rightarrow> nat \<Rightarrow> 't \<Rightarrow> ('r, 't, 'n) list_arena \<Rightarrow> ('r, 't, 'n) list_arena res" where
  "la_append A l payload a =
    rbind (vec_get (lc_heads A) l (la_heads a)) (\<lambda>h.
    rbind (vec_len (lc_nodes A) (la_nodes a)) (\<lambda>n.
    rbind (expect IdRange (idx_try (lc_nmax A) n)) (\<lambda>slot.
    rbind (vec_push (lc_nodes A) \<lparr>ln_payload = payload, ln_next = opt_none (lc_id A)\<rparr> (la_nodes a)) (\<lambda>ns.
    rbind (if head_is_empty (lc_id A) h then Inr (h\<lparr>lh_head := opt_some (lc_id A) slot\<rparr>, ns)
           else rbind (vec_get (lc_nodes A) (lh_tail h) ns) (\<lambda>tail_node.
                rbind (vec_set (lc_nodes A) (lh_tail h) (tail_node\<lparr>ln_next := opt_some (lc_id A) slot\<rparr>) ns) (\<lambda>ns'.
                Inr (h, ns')))) (\<lambda>(h1, ns1).
    let h2 = h1\<lparr>lh_tail := slot\<rparr>
    in rbind (la_grown A (lh_len h2)) (\<lambda>m.
    rbind (vec_set (lc_heads A) l (h2\<lparr>lh_len := m\<rparr>) (la_heads a)) (\<lambda>hs.
    Inr \<lparr>la_heads = hs, la_nodes = ns1\<rparr>)))))))"

definition la_splice :: "('r, 't, 'n) la_cfg \<Rightarrow> nat \<Rightarrow> nat \<Rightarrow> ('r, 't, 'n) list_arena \<Rightarrow> ('r, 't, 'n) list_arena res" where
  "la_splice A dst src a =
    rbind (rassert (dst \<noteq> src) SameList) (\<lambda>_.
    rbind (vec_get (lc_heads A) src (la_heads a)) (\<lambda>src_h.
    if head_is_empty (lc_id A) src_h then Inr a
    else rbind (vec_get (lc_heads A) dst (la_heads a)) (\<lambda>dst_h.
      rbind (if head_is_empty (lc_id A) dst_h
             then Inr (dst_h\<lparr>lh_head := lh_head src_h, lh_tail := lh_tail src_h\<rparr>, la_nodes a)
             else rbind (vec_get (lc_nodes A) (lh_tail dst_h) (la_nodes a)) (\<lambda>tail_node.
                  rbind (vec_set (lc_nodes A) (lh_tail dst_h) (tail_node\<lparr>ln_next := lh_head src_h\<rparr>) (la_nodes a)) (\<lambda>ns.
                  Inr (dst_h\<lparr>lh_tail := lh_tail src_h\<rparr>, ns)))) (\<lambda>(h1, ns1).
      rbind (expect ListLenOverflow (idx_try (vc_imax (lc_nodes A)) (lh_len h1 + lh_len src_h))) (\<lambda>m.
      rbind (vec_set (lc_heads A) dst (h1\<lparr>lh_len := m\<rparr>) (la_heads a)) (\<lambda>hs.
      rbind (vec_set (lc_heads A) src (list_head_empty (lc_id A)) hs) (\<lambda>hs'.
      Inr \<lparr>la_heads = hs', la_nodes = ns1\<rparr>)))))))"

definition la_is_empty :: "('r, 't, 'n) la_cfg \<Rightarrow> nat \<Rightarrow> ('r, 't, 'n) list_arena \<Rightarrow> bool res" where
  "la_is_empty A l a = rbind (vec_get (lc_heads A) l (la_heads a)) (\<lambda>h. Inr (head_is_empty (lc_id A) h))"

definition la_len :: "('r, 't, 'n) la_cfg \<Rightarrow> nat \<Rightarrow> ('r, 't, 'n) list_arena \<Rightarrow> nat res" where
  "la_len A l a = rbind (vec_get (lc_heads A) l (la_heads a)) (\<lambda>h. Inr (lh_len h))"

text \<open>
  \<open>ListIter\<close> borrows the node vector and keeps the current link.  Collecting it follows the links; a
  chain visits each node once, so the fuel of the node vector is enough unless the links cycle.
\<close>

definition la_next :: "('r, 't, 'n) la_cfg \<Rightarrow> ('r, 't, 'n) list_arena \<Rightarrow> 'n \<Rightarrow> ('t \<times> 'n) option res" where
  "la_next A a current = (case opt_get (lc_id A) current of
      None \<Rightarrow> Inr None
    | Some n \<Rightarrow> rbind (vec_get (lc_nodes A) n (la_nodes a)) (\<lambda>node. Inr (Some (ln_payload node, ln_next node))))"

fun la_collect :: "nat \<Rightarrow> ('r, 't, 'n) la_cfg \<Rightarrow> ('r, 't, 'n) list_arena \<Rightarrow> 'n \<Rightarrow> 't list res" where
  "la_collect 0 A a current = Inl Diverge"
| "la_collect (Suc fuel) A a current =
    rbind (la_next A a current) (\<lambda>r. case r of None \<Rightarrow> Inr []
      | Some (x, next) \<Rightarrow> rbind (la_collect fuel A a next) (\<lambda>xs. Inr (x # xs)))"

definition la_iter :: "('r, 't, 'n) la_cfg \<Rightarrow> nat \<Rightarrow> ('r, 't, 'n) list_arena \<Rightarrow> 't list res" where
  "la_iter A l a =
    rbind (vec_get (lc_heads A) l (la_heads a)) (\<lambda>h.
    la_collect (vec_fuel (lc_nodes A) (la_nodes a)) A a (lh_head h))"

definition la_mark :: "('r, 't, 'n) la_cfg \<Rightarrow> shrink \<times> shrink \<Rightarrow> ('r, 't, 'n) list_arena \<Rightarrow> (la_token \<times> ('r, 't, 'n) list_arena) res" where
  "la_mark A sh a =
    rbind (vec_mark (lc_heads A) (fst sh) (la_heads a)) (\<lambda>(t, hs).
    rbind (vec_mark (lc_nodes A) (snd sh) (la_nodes a)) (\<lambda>(u, ns).
    Inr (\<lparr>lt_heads = t, lt_nodes = u\<rparr>, \<lparr>la_heads = hs, la_nodes = ns\<rparr>)))"

definition la_restore :: "('r, 't, 'n) la_cfg \<Rightarrow> la_token \<Rightarrow> ('r, 't, 'n) list_arena \<Rightarrow> ('r, 't, 'n) list_arena res" where
  "la_restore A token a =
    rbind (vec_restore (lc_heads A) (lt_heads token) (la_heads a)) (\<lambda>hs.
    rbind (vec_restore (lc_nodes A) (lt_nodes token) (la_nodes a)) (\<lambda>ns.
    Inr \<lparr>la_heads = hs, la_nodes = ns\<rparr>))"

section \<open>Chains\<close>

type_synonym ('t, 'n) la_lists = "'n list_head list \<times> ('t, 'n) list_node list"

text \<open>\<open>path N ns r c\<close>: following the links from \<open>r\<close> visits exactly the nodes \<open>c\<close>.\<close>

fun path :: "(nat, 'n) tagged_ops \<Rightarrow> ('t, 'n) list_node list \<Rightarrow> 'n \<Rightarrow> nat list \<Rightarrow> bool" where
  "path N ns r [] \<longleftrightarrow> opt_get N r = None"
| "path N ns r (n # c) \<longleftrightarrow> opt_get N r = Some n \<and> n < length ns \<and> path N ns (ln_next (ns ! n)) c"

definition is_chain :: "(nat, 'n) tagged_ops \<Rightarrow> ('t, 'n) list_node list \<Rightarrow> 'n list_head \<Rightarrow> nat list \<Rightarrow> bool" where
  "is_chain N ns h c \<longleftrightarrow> path N ns (lh_head h) c \<and> (c \<noteq> [] \<longrightarrow> lh_tail h = last c) \<and> lh_len h = length c \<and> distinct c"

text \<open>\<open>chains\<close>: one chain per header, pairwise disjoint.\<close>

definition chains :: "(nat, 'n) tagged_ops \<Rightarrow> ('t, 'n) la_lists \<Rightarrow> nat list list \<Rightarrow> bool" where
  "chains N v chs \<longleftrightarrow> length chs = length (fst v) \<and> (\<forall>l < length chs. is_chain N (snd v) (fst v ! l) (chs ! l)) \<and>
    (\<forall>l < length chs. \<forall>m < length chs. l \<noteq> m \<longrightarrow> set (chs ! l) \<inter> set (chs ! m) = {})"

definition la_inv :: "(nat, 'n) tagged_ops \<Rightarrow> ('t, 'n) la_lists \<Rightarrow> bool" where
  "la_inv N v \<longleftrightarrow> (\<exists>chs. chains N v chs)"

text \<open>The lists that the arena represents.\<close>

definition la_repr :: "(nat, 'n) tagged_ops \<Rightarrow> ('t, 'n) la_lists \<Rightarrow> 't list list \<Rightarrow> bool" where
  "la_repr N v ls \<longleftrightarrow> (\<exists>chs. chains N v chs \<and> ls = map (map (\<lambda>n. ln_payload (snd v ! n))) chs)"

lemma path_bound: "path N ns r c \<Longrightarrow> set c \<subseteq> {..< length ns}"
  by (induction c arbitrary: r) auto

lemma path_snoc: "path N ns r c \<Longrightarrow> path N (ns @ [x]) r c"
  by (induction c arbitrary: r) (auto simp: nth_append)

lemma path_other: "path N ns r c \<Longrightarrow> j \<notin> set c \<Longrightarrow> path N (ns[j := x]) r c"
  by (induction c arbitrary: r) auto

lemma path_link:
  assumes "path N ns r c" and "c \<noteq> []" and "distinct c" and "path N ns r2 c2" and "last c \<notin> set c2"
  shows "path N (ns[last c := (ns ! last c)\<lparr>ln_next := r2\<rparr>]) r (c @ c2)"
  using assms
proof (induction c arbitrary: r)
  case (Cons n c)
  let ?ns = "ns[last (n # c) := (ns ! last (n # c))\<lparr>ln_next := r2\<rparr>]"
  show ?case
  proof (cases "c = []")
    case True
    then show ?thesis using Cons.prems by (auto intro: path_other)
  next
    case False
    then have "n \<noteq> last c" using Cons.prems(3) by auto
    then show ?thesis using Cons.IH [of "ln_next (ns ! n)"] Cons.prems False by auto
  qed
qed simp

lemma path_empty: "path N ns r c \<Longrightarrow> c = [] \<longleftrightarrow> tag N r"
  by (cases c) (auto simp: opt_get_def split: if_splits)

lemma path_length: "path N ns r c \<Longrightarrow> distinct c \<Longrightarrow> length c \<le> length ns"
proof -
  assume p: "path N ns r c" and d: "distinct c"
  have "card (set c) \<le> card {..< length ns}" using path_bound [OF p] by (intro card_mono) auto
  then show ?thesis using distinct_card [OF d] by simp
qed

section \<open>The operations on headers and nodes\<close>

lemma chain_snoc: "is_chain N ns h c \<Longrightarrow> is_chain N (ns @ [x]) h c"
  by (auto simp: is_chain_def path_snoc)

lemma chain_other: "is_chain N ns h c \<Longrightarrow> j \<notin> set c \<Longrightarrow> is_chain N (ns[j := x]) h c"
  by (auto simp: is_chain_def path_other)

lemma chain_empty: "is_chain N ns h c \<Longrightarrow> c = [] \<longleftrightarrow> head_is_empty N h"
  unfolding is_chain_def head_is_empty_def using path_empty by metis

lemma chains_nth: "chains N (hs, ns) chs \<Longrightarrow> l < length hs \<Longrightarrow> is_chain N ns (hs ! l) (chs ! l)"
  by (simp add: chains_def)

lemma chains_bound: "chains N (hs, ns) chs \<Longrightarrow> l < length hs \<Longrightarrow> set (chs ! l) \<subseteq> {..< length ns}"
  using path_bound by (fastforce dest!: chains_nth simp: is_chain_def)

lemma chains_disjoint:
  "chains N (hs, ns) chs \<Longrightarrow> l < length hs \<Longrightarrow> m < length hs \<Longrightarrow> l \<noteq> m \<Longrightarrow> n \<in> set (chs ! l) \<Longrightarrow> n \<notin> set (chs ! m)"
  unfolding chains_def by (simp add: disjoint_iff)

lemma chains_upd:
  assumes c: "chains N (hs, ns) chs" and l: "l < length hs" and new: "is_chain N ns' h' c'"
    and others: "\<And>m. m < length hs \<Longrightarrow> m \<noteq> l \<Longrightarrow> is_chain N ns' (hs ! m) (chs ! m)"
    and disj: "\<And>m. m < length hs \<Longrightarrow> m \<noteq> l \<Longrightarrow> set c' \<inter> set (chs ! m) = {}"
  shows "chains N (hs[l := h'], ns') (chs[l := c'])"
  using assms by (auto simp: chains_def nth_list_update; blast)

definition payloads :: "('t, 'n) list_node list \<Rightarrow> nat list \<Rightarrow> 't list" where
  "payloads ns = map (\<lambda>n. ln_payload (ns ! n))"

lemma payloads_cong:
  "set c \<subseteq> {..< length ns} \<Longrightarrow> (\<And>n. n < length ns \<Longrightarrow> ln_payload (ns' ! n) = ln_payload (ns ! n)) \<Longrightarrow> payloads ns' c = payloads ns c"
  by (auto simp: payloads_def)

lemma la_repr_eq: "la_repr N (hs, ns) ls \<longleftrightarrow> (\<exists>chs. chains N (hs, ns) chs \<and> ls = map (payloads ns) chs)"
  by (simp add: la_repr_def payloads_def)

text \<open>Replacing the chain of one list, when no payload of the old nodes changes.\<close>

lemma repr_upd:
  assumes c: "chains N (hs, ns) chs" and c': "chains N (hs', ns') (chs[l := c'])"
    and pl: "\<And>n. n < length ns \<Longrightarrow> ln_payload (ns' ! n) = ln_payload (ns ! n)"
  shows "la_repr N (hs', ns') ((map (payloads ns) chs)[l := payloads ns' c'])"
proof -
  have "payloads ns' c = payloads ns c" if "c \<in> set chs" for c
    using that payloads_cong [OF _ pl] chains_bound [OF c] c by (auto simp: in_set_conv_nth chains_def)
  then have "map (payloads ns') (chs[l := c']) = (map (payloads ns) chs)[l := payloads ns' c']"
    by (metis map_cong map_update)
  with c' show ?thesis unfolding la_repr_eq by metis
qed

lemma repr_new_list:
  assumes r: "la_repr N (hs, ns) ls" and e: "opt_get N (opt_none N) = None"
  shows "la_repr N (hs @ [list_head_empty N], ns) (ls @ [[]])"
proof -
  obtain chs where c: "chains N (hs, ns) chs" and ls: "ls = map (payloads ns) chs" using r by (auto simp: la_repr_eq)
  have "is_chain N ns (list_head_empty N) []" using e by (simp add: is_chain_def list_head_empty_def)
  then have "chains N (hs @ [list_head_empty N], ns) (chs @ [[]])"
    using c by (auto simp: chains_def nth_append less_Suc_eq)
  then show ?thesis unfolding la_repr_eq using ls by (intro exI [of _ "chs @ [[]]"]) (simp add: payloads_def)
qed

lemma repr_prepend:
  assumes r: "la_repr N (hs, ns) ls" and l: "l < length hs" and s: "opt_get N s = Some (length ns)"
  defines "h \<equiv> hs ! l"
  shows "la_repr N (hs[l := h\<lparr>lh_head := s, lh_tail := (if head_is_empty N h then length ns else lh_tail h), lh_len := lh_len h + 1\<rparr>],
    ns @ [\<lparr>ln_payload = x, ln_next = lh_head h\<rparr>]) (ls[l := x # ls ! l])"
    (is "la_repr N (hs[l := ?h], ?ns) _")
proof -
  obtain chs where c: "chains N (hs, ns) chs" and ls: "ls = map (payloads ns) chs" using r by (auto simp: la_repr_eq)
  let ?c = "chs ! l"
  have ch: "is_chain N ns h ?c" unfolding h_def by (rule chains_nth [OF c l])
  have nw: "length ns \<notin> set (chs ! m)" if "m < length hs" for m using chains_bound [OF c that] by auto
  have "is_chain N ?ns ?h (length ns # ?c)"
    using ch s nw [OF l] chain_empty [OF ch] by (auto simp: is_chain_def intro: path_snoc)
  then have "chains N (hs[l := ?h], ?ns) (chs[l := length ns # ?c])"
    using nw chains_disjoint [OF c l] by (intro chains_upd [OF c l]) (auto intro: chain_snoc chains_nth [OF c])
  from repr_upd [OF c this] have "la_repr N (hs[l := ?h], ?ns) (ls[l := payloads ?ns (length ns # ?c)])"
    using ls by (simp add: nth_append)
  moreover have "payloads ?ns (length ns # ?c) = x # ls ! l"
    using chains_bound [OF c l] c l ls by (auto simp: payloads_def nth_append chains_def subset_iff)
  ultimately show ?thesis by simp
qed

lemma repr_append_empty:
  assumes r: "la_repr N (hs, ns) ls" and l: "l < length hs" and s: "opt_get N s = Some (length ns)"
    and e: "opt_get N (opt_none N) = None" and em: "head_is_empty N (hs ! l)"
  shows "la_repr N (hs[l := (hs ! l)\<lparr>lh_head := s, lh_tail := length ns, lh_len := lh_len (hs ! l) + 1\<rparr>],
    ns @ [\<lparr>ln_payload = x, ln_next = opt_none N\<rparr>]) (ls[l := ls ! l @ [x]])"
    (is "la_repr N (hs[l := ?h], ?ns) _")
proof -
  obtain chs where c: "chains N (hs, ns) chs" and ls: "ls = map (payloads ns) chs" using r by (auto simp: la_repr_eq)
  have ch: "is_chain N ns (hs ! l) (chs ! l)" by (rule chains_nth [OF c l])
  have ce: "chs ! l = []" using chain_empty [OF ch] em by simp
  have nw: "length ns \<notin> set (chs ! m)" if "m < length hs" for m using chains_bound [OF c that] by auto
  have "is_chain N ?ns ?h [length ns]" using ch ce s e by (auto simp: is_chain_def)
  then have "chains N (hs[l := ?h], ?ns) (chs[l := [length ns]])"
    using nw by (intro chains_upd [OF c l]) (auto intro: chain_snoc chains_nth [OF c])
  from repr_upd [OF c this] have "la_repr N (hs[l := ?h], ?ns) (ls[l := payloads ?ns [length ns]])"
    using ls by (simp add: nth_append)
  moreover have "ls ! l = []" using ce ls c l by (simp add: chains_def payloads_def)
  ultimately show ?thesis by (simp add: payloads_def)
qed

text \<open>Linking a chain behind the tail of another: the common part of \<open>append\<close> and \<open>splice\<close>.\<close>

lemma chain_link:
  assumes c1: "is_chain N ns h1 c1" "c1 \<noteq> []" and p2: "path N ns r2 c2" and d2: "distinct c2" "set c1 \<inter> set c2 = {}"
  shows "is_chain N (ns[lh_tail h1 := (ns ! lh_tail h1)\<lparr>ln_next := r2\<rparr>])
    (h1\<lparr>lh_tail := last (c1 @ c2), lh_len := lh_len h1 + length c2\<rparr>) (c1 @ c2)"
proof -
  have t: "lh_tail h1 = last c1" and p: "path N ns (lh_head h1) c1" "distinct c1" using c1 by (auto simp: is_chain_def)
  have "last c1 \<notin> set c2" using d2(2) c1(2) by (meson disjoint_iff last_in_set)
  from path_link [OF p(1) c1(2) p(2) p2 this] t c1 d2 show ?thesis by (auto simp: is_chain_def)
qed

lemma repr_append:
  fixes x :: 't
  assumes r: "la_repr N (hs, ns) ls" and l: "l < length hs" and s: "opt_get N s = Some (length ns)"
    and e: "opt_get N (opt_none N) = None" and ne: "\<not> head_is_empty N (hs ! l)"
  defines "h \<equiv> hs ! l" and "ns1 \<equiv> ns @ [\<lparr>ln_payload = x, ln_next = opt_none N\<rparr>]"
  shows "la_repr N (hs[l := h\<lparr>lh_tail := length ns, lh_len := lh_len h + 1\<rparr>],
    ns1[lh_tail h := (ns1 ! lh_tail h)\<lparr>ln_next := s\<rparr>]) (ls[l := ls ! l @ [x]])" and "lh_tail h < length ns"
proof -
  obtain chs where c: "chains N (hs, ns) chs" and ls: "ls = map (payloads ns) chs" using r by (auto simp: la_repr_eq)
  let ?c = "chs ! l" and ?ns = "ns1[lh_tail h := (ns1 ! lh_tail h)\<lparr>ln_next := s\<rparr>]"
  let ?h = "h\<lparr>lh_tail := length ns, lh_len := lh_len h + 1\<rparr>"
  have ch: "is_chain N ns h ?c" unfolding h_def by (rule chains_nth [OF c l])
  have cne: "?c \<noteq> []" using chain_empty [OF ch] ne by (simp add: h_def)
  have nw: "length ns \<notin> set (chs ! m)" if "m < length hs" for m using chains_bound [OF c that] by auto
  have tl: "lh_tail h \<in> set ?c" using ch cne by (simp add: is_chain_def)
  then show tb: "lh_tail h < length ns" using chains_bound [OF c l] by auto
  have "path N ns1 s [length ns]" using s e by (simp add: ns1_def)
  from chain_link [OF chain_snoc [OF ch] cne this [unfolded ns1_def]] nw [OF l]
  have new: "is_chain N ?ns ?h (?c @ [length ns])" by (simp add: ns1_def)
  have "chains N (hs[l := ?h], ?ns) (chs[l := ?c @ [length ns]])"
  proof (rule chains_upd [OF c l new])
    fix m assume m: "m < length hs" "m \<noteq> l"
    show "is_chain N ?ns (hs ! m) (chs ! m)"
      using chains_disjoint [OF c l m(1) _ tl] m chains_nth [OF c m(1)]
      by (auto simp: ns1_def intro!: chain_other chain_snoc)
    show "set (?c @ [length ns]) \<inter> set (chs ! m) = {}" using chains_disjoint [OF c l m(1)] m nw [OF m(1)] by auto
  qed
  moreover have pl: "ln_payload (?ns ! n) = ln_payload (ns1 ! n)" for n using tb by (cases "n = lh_tail h") (auto simp: ns1_def)
  ultimately have "la_repr N (hs[l := ?h], ?ns) (ls[l := payloads ?ns (?c @ [length ns])])"
    using repr_upd [OF c] ls pl by (simp add: ns1_def nth_append)
  moreover have "payloads ?ns (?c @ [length ns]) = ls ! l @ [x]"
    using chains_bound [OF c l] c l ls pl by (auto simp: payloads_def ns1_def nth_append chains_def subset_iff)
  ultimately show "la_repr N (hs[l := ?h], ?ns) (ls[l := ls ! l @ [x]])" by simp
qed

lemma repr_splice:
  fixes hs :: "'n list_head list" and ns :: "('t, 'n) list_node list"
  assumes r: "la_repr N (hs, ns) ls" and l: "dst < length hs" "src < length hs" "dst \<noteq> src"
    and e: "opt_get N (opt_none N) = None" and ne: "\<not> head_is_empty N (hs ! src)"
  defines "dh \<equiv> hs ! dst" and "sh \<equiv> hs ! src"
  defines "ns1 \<equiv> (if head_is_empty N dh then ns else ns[lh_tail dh := (ns ! lh_tail dh)\<lparr>ln_next := lh_head sh\<rparr>])"
    and "dh1 \<equiv> (if head_is_empty N dh then dh\<lparr>lh_head := lh_head sh, lh_tail := lh_tail sh\<rparr> else dh\<lparr>lh_tail := lh_tail sh\<rparr>)"
  shows "la_repr N (hs[dst := dh1\<lparr>lh_len := lh_len dh1 + lh_len sh\<rparr>, src := list_head_empty N], ns1)
      (ls[dst := ls ! dst @ ls ! src, src := []])"
    and "\<not> head_is_empty N dh \<Longrightarrow> lh_tail dh < length ns"
proof -
  obtain chs where c: "chains N (hs, ns) chs" and ls: "ls = map (payloads ns) chs" using r by (auto simp: la_repr_eq)
  let ?d = "chs ! dst" and ?s = "chs ! src" and ?h = "dh1\<lparr>lh_len := lh_len dh1 + lh_len sh\<rparr>"
  have cd: "is_chain N ns dh ?d" and cs: "is_chain N ns sh ?s"
    unfolding dh_def sh_def using chains_nth [OF c] l by auto
  have sne: "?s \<noteq> []" using chain_empty [OF cs] ne by (simp add: sh_def)
  have dis: "set ?d \<inter> set ?s = {}" using chains_disjoint [OF c l] by auto
  have tl: "lh_tail dh \<in> set ?d" if "\<not> head_is_empty N dh" using cd chain_empty [OF cd] that by (simp add: is_chain_def)
  then show tb: "lh_tail dh < length ns" if "\<not> head_is_empty N dh" using that chains_bound [OF c l(1)] by auto
  have lc: "length chs = length hs" using c by (simp add: chains_def)
  have new: "is_chain N ns1 ?h (?d @ ?s)"
  proof (cases "head_is_empty N dh")
    case True
    then have "?d = []" using chain_empty [OF cd] by simp
    then show ?thesis using True cd cs sne by (simp add: ns1_def dh1_def is_chain_def)
  next
    case False
    then have "?d \<noteq> []" using chain_empty [OF cd] by simp
    from chain_link [OF cd this, of "lh_head sh" ?s] cs dis False sne show ?thesis
      by (simp add: ns1_def dh1_def is_chain_def)
  qed
  have oth: "is_chain N ns1 (hs ! m) (chs ! m)" if m: "m < length hs" "m \<noteq> dst" for m
  proof (cases "head_is_empty N dh")
    case False
    then have "lh_tail dh \<notin> set (chs ! m)" using chains_disjoint [OF c l(1) m(1)] m(2) tl by auto
    then show ?thesis using False chain_other chains_nth [OF c m(1)] by (simp add: ns1_def)
  qed (use chains_nth [OF c m(1)] in \<open>simp add: ns1_def\<close>)
  have emp: "is_chain N ns1 (list_head_empty N) []" using e by (simp add: is_chain_def list_head_empty_def)
  have "is_chain N ns (list_head_empty N) []" using e by (simp add: is_chain_def list_head_empty_def)
  then have c1: "chains N (hs[src := list_head_empty N], ns) (chs[src := []])"
    using chains_nth [OF c] by (intro chains_upd [OF c l(2)]) auto
  have "chains N (hs[src := list_head_empty N, dst := ?h], ns1) (chs[src := [], dst := ?d @ ?s])"
  proof (rule chains_upd [OF c1 _ new])
    fix m assume m: "m < length (hs[src := list_head_empty N])" "m \<noteq> dst"
    then show "is_chain N ns1 (hs[src := list_head_empty N] ! m) (chs[src := []] ! m)"
      using oth emp lc by (cases "m = src") auto
    show "set (?d @ ?s) \<inter> set (chs[src := []] ! m) = {}"
      using chains_disjoint [OF c l(1)] chains_disjoint [OF c l(2)] m lc by (cases "m = src") auto
  qed (use l in simp)
  then have "chains N (hs[dst := ?h, src := list_head_empty N], ns1) (chs[dst := ?d @ ?s, src := []])"
    using l(3) by (simp add: list_update_swap)
  moreover have "ln_payload (ns1 ! n) = ln_payload (ns ! n)" for n
    using tb by (cases "n = lh_tail dh") (auto simp: ns1_def)
  then have "payloads ns1 = payloads ns" by (auto simp: payloads_def)
  ultimately show "la_repr N (hs[dst := ?h, src := list_head_empty N], ns1) (ls[dst := ls ! dst @ ls ! src, src := []])"
    unfolding la_repr_eq using ls l lc
    by (intro exI [of _ "chs[dst := ?d @ ?s, src := []]"]) (simp add: map_update, simp add: payloads_def)
qed

lemma repr_inv: "la_repr N v ls \<Longrightarrow> la_inv N v"
  by (auto simp: la_repr_def la_inv_def)

lemma inv_repr: "la_inv N v \<Longrightarrow> \<exists>ls. la_repr N v ls"
  by (auto simp: la_repr_def la_inv_def)

lemma repr_length: "la_repr N (hs, ns) ls \<Longrightarrow> length ls = length hs"
  by (auto simp: la_repr_def chains_def)

lemma repr_len: "la_repr N (hs, ns) ls \<Longrightarrow> l < length hs \<Longrightarrow> lh_len (hs ! l) = length (ls ! l)"
  by (auto simp: la_repr_def chains_def is_chain_def)

lemma repr_empty: "la_repr N (hs, ns) ls \<Longrightarrow> l < length hs \<Longrightarrow> head_is_empty N (hs ! l) \<longleftrightarrow> ls ! l = []"
  using chain_empty by (fastforce simp: la_repr_def chains_def)

lemma repr_len_nodes: "la_repr N (hs, ns) ls \<Longrightarrow> l < length hs \<Longrightarrow> length (ls ! l) \<le> length ns"
  using path_length by (fastforce simp: la_repr_def chains_def is_chain_def)

section \<open>The operations on the vectors\<close>

definition la_contents :: "(('n \<times> 'n \<times> nat) inline_store \<Rightarrow> 'n list_head list) \<Rightarrow> (('r \<times> 'n) inline_store \<Rightarrow> ('t, 'n) list_node list) \<Rightarrow>
    ('r, 't, 'n) list_arena \<Rightarrow> ('t, 'n) la_lists" where
  "la_contents hvals nvals a = (hvals (v_store (la_heads a)), nvals (v_store (la_nodes a)))"

inductive la_upd :: "('r, 't, 'n) la_cfg \<Rightarrow> ('t \<Rightarrow> bool) \<Rightarrow> ('r, 't, 'n) list_arena \<Rightarrow> ('r, 't, 'n) list_arena \<Rightarrow> bool" for A okv where
  new_list: "la_new_list A a = Inr (i, a') \<Longrightarrow> la_upd A okv a a'"
| prepend: "okv x \<Longrightarrow> la_prepend A l x a = Inr a' \<Longrightarrow> la_upd A okv a a'"
| append: "okv x \<Longrightarrow> la_append A l x a = Inr a' \<Longrightarrow> la_upd A okv a a'"
| splice: "la_splice A dst src a = Inr a' \<Longrightarrow> la_upd A okv a a'"

locale arena_ops =
  heads: semi_vec "lc_heads A" hvals hflag hstale "\<lambda>h. ndom (lh_tail h)" hdflt +
  nodes: semi_vec "lc_nodes A" nvals nflag nstale "\<lambda>x. tdom (ln_payload x)" ndflt +
  nid: tagged_repr "lc_id A" ndom
  for A :: "('r, 't, 'n) la_cfg" and hvals hflag hstale hdflt nvals nflag nstale tdom ndflt ndom +
  assumes id_fits: "n \<le> lc_nmax A \<Longrightarrow> ndom n"
    and new_store: "hvals is_new = []" "nvals is_new = []" "\<not> hflag is_new i" "\<not> nflag is_new i"
begin

abbreviation "alists \<equiv> la_contents hvals nvals"
abbreviation "H a \<equiv> hvals (v_store (la_heads a))"
abbreviation "M a \<equiv> nvals (v_store (la_nodes a))"

definition arels :: "('r, 't, 'n) list_arena \<Rightarrow> bool" where
  "arels a \<longleftrightarrow> (\<exists>s. heads.rel (la_heads a) s) \<and> (\<exists>s. nodes.rel (la_nodes a) s)"

definition aupd :: "('r, 't, 'n) list_arena \<Rightarrow> ('r, 't, 'n) list_arena \<Rightarrow> bool" where
  "aupd a a' \<longleftrightarrow> (vec_upd (lc_heads A) (\<lambda>h. ndom (lh_tail h)))\<^sup>*\<^sup>* (la_heads a) (la_heads a') \<and>
    (vec_upd (lc_nodes A) (\<lambda>x. tdom (ln_payload x)))\<^sup>*\<^sup>* (la_nodes a) (la_nodes a')"

lemma empty_dom: "ndom (lh_tail (list_head_empty (lc_id A)))"
  by (simp add: list_head_empty_def)

lemma some_slot: "n \<le> lc_nmax A \<Longrightarrow> opt_get (lc_id A) (opt_some (lc_id A) n) = Some n"
  using nid.opt_get_some id_fits by simp

lemma new_list_Inr:
  assumes r: "arels a" and v: "la_repr (lc_id A) (alists a) ls" and a: "la_new_list A a = Inr (i, a')"
  shows "aupd a a' \<and> i = length ls \<and> la_repr (lc_id A) (alists a') (ls @ [[]]) \<and> length (M a') \<le> Suc (length (M a))"
proof -
  obtain sh where rh: "heads.rel (la_heads a) sh" using r by (auto simp: arels_def)
  obtain hs where hs: "vec_push (lc_heads A) (list_head_empty (lc_id A)) (la_heads a) = Inr hs"
    and a': "a' = a\<lparr>la_heads := hs\<rparr>" and i: "i = length (H a)"
    using a by (auto simp: la_new_list_def heads.vec_len_Inr idx_try_def elim!: rbind_eq_InrE split: if_splits)
  note p = heads.push_Inr(2) [OF rh empty_dom hs]
  show ?thesis
    using repr_new_list [OF _ nid.opt_get_none, of "H a" "M a" ls] v p a' i repr_length [of "lc_id A" "H a" "M a" ls]
      heads.upds(1) [OF empty_dom hs]
    by (simp add: la_contents_def aupd_def)
qed

lemma prepend_Inr:
  assumes r: "arels a" and v: "la_repr (lc_id A) (alists a) ls" and x: "tdom x" and a: "la_prepend A l x a = Inr a'"
  shows "aupd a a' \<and> l < length ls \<and> la_repr (lc_id A) (alists a') (ls[l := x # ls ! l]) \<and> length (M a') \<le> Suc (length (M a))"
proof -
  obtain sh sn where rh: "heads.rel (la_heads a) sh" and rn: "nodes.rel (la_nodes a) sn" using r by (auto simp: arels_def)
  let ?h = "H a ! l" and ?n = "length (M a)"
  let ?h' = "?h\<lparr>lh_head := opt_some (lc_id A) ?n, lh_tail := (if head_is_empty (lc_id A) ?h then ?n else lh_tail ?h), lh_len := lh_len ?h + 1\<rparr>"
  let ?x = "\<lparr>ln_payload = x, ln_next = lh_head ?h\<rparr>"
  obtain hs ns where l: "l < length (H a)" and n: "?n \<le> lc_nmax A"
    and ns: "vec_push (lc_nodes A) ?x (la_nodes a) = Inr ns"
    and hs: "vec_set (lc_heads A) l ?h' (la_heads a) = Inr hs" and a': "a' = \<lparr>la_heads = hs, la_nodes = ns\<rparr>"
    using a by (auto simp: la_prepend_def la_grown_def heads.get_Inr nodes.vec_len_Inr idx_try_def Let_def
        elim!: rbind_eq_InrE split: if_splits)
  have dx: "tdom (ln_payload ?x)" using x by simp
  have dh: "ndom (lh_tail ?h')" using heads.get_dom [OF l] id_fits [OF n] by simp
  show ?thesis
    using repr_prepend [OF v [unfolded la_contents_def] l some_slot [OF n], of x]
      nodes.push_Inr(2) [OF rn dx ns] heads.set_Inr(2) [OF rh dh hs] nodes.upds(1) [OF dx ns] heads.upds(2) [OF dh hs]
      a' l repr_length [OF v [unfolded la_contents_def]]
    by (simp add: la_contents_def aupd_def)
qed

lemma append_Inr:
  assumes r: "arels a" and v: "la_repr (lc_id A) (alists a) ls" and x: "tdom x" and a: "la_append A l x a = Inr a'"
  shows "aupd a a' \<and> l < length ls \<and> la_repr (lc_id A) (alists a') (ls[l := ls ! l @ [x]]) \<and> length (M a') \<le> Suc (length (M a))"
proof -
  obtain sh sn where rh: "heads.rel (la_heads a) sh" and rn: "nodes.rel (la_nodes a) sn" using r by (auto simp: arels_def)
  let ?h = "H a ! l" and ?n = "length (M a)" and ?N = "lc_id A"
  let ?x = "\<lparr>ln_payload = x, ln_next = opt_none ?N\<rparr>"
  have dx: "tdom (ln_payload ?x)" using x by simp
  obtain ns where l: "l < length (H a)" and n: "?n \<le> lc_nmax A" and ns: "vec_push (lc_nodes A) ?x (la_nodes a) = Inr ns"
    using a by (auto simp: la_append_def heads.get_Inr nodes.vec_len_Inr idx_try_def Let_def elim!: rbind_eq_InrE split: if_splits)
  have cns: "nvals (v_store ns) = M a @ [?x]" by (rule nodes.push_Inr(2) [OF rn dx ns])
  note v' = v [unfolded la_contents_def] and len = repr_length [OF v [unfolded la_contents_def]]
  show ?thesis
  proof (cases "head_is_empty ?N ?h")
    case True
    let ?h' = "?h\<lparr>lh_head := opt_some ?N ?n, lh_tail := ?n, lh_len := lh_len ?h + 1\<rparr>"
    obtain hs where hs: "vec_set (lc_heads A) l ?h' (la_heads a) = Inr hs" and a': "a' = \<lparr>la_heads = hs, la_nodes = ns\<rparr>"
      using a True ns n by (auto simp: la_append_def la_grown_def heads.get_Inr nodes.vec_len_Inr idx_try_def Let_def
          elim!: rbind_eq_InrE split: if_splits)
    have dh: "ndom (lh_tail ?h')" using id_fits [OF n] by simp
    show ?thesis
      using repr_append_empty [OF v' l some_slot [OF n] nid.opt_get_none True, of x] cns heads.set_Inr(2) [OF rh dh hs]
        nodes.upds(1) [OF dx ns] heads.upds(2) [OF dh hs] a' l len
      by (simp add: la_contents_def aupd_def)
  next
    case False
    let ?h' = "?h\<lparr>lh_tail := ?n, lh_len := lh_len ?h + 1\<rparr>" and ?t = "lh_tail ?h"
    let ?y = "((M a @ [?x]) ! ?t)\<lparr>ln_next := opt_some ?N ?n\<rparr>"
    obtain hs ns' where ns': "vec_set (lc_nodes A) ?t ?y ns = Inr ns'"
      and hs: "vec_set (lc_heads A) l ?h' (la_heads a) = Inr hs" and a': "a' = \<lparr>la_heads = hs, la_nodes = ns'\<rparr>"
      using a False ns n cns by (auto simp: la_append_def la_grown_def heads.get_Inr nodes.get_Inr nodes.vec_len_Inr idx_try_def Let_def
          elim!: rbind_eq_InrE split: if_splits)
    note R = repr_append(1) [OF v' l some_slot [OF n] nid.opt_get_none False, of x]
      repr_append(2) [OF v' l some_slot [OF n] nid.opt_get_none False]
    have dh: "ndom (lh_tail ?h')" using id_fits [OF n] by simp
    have dy: "tdom (ln_payload ?y)" using nodes.get_dom [of ?t ns] R(2) cns by simp
    have "nvals (v_store ns') = (M a @ [?x])[?t := ?y]"
      using nodes.set_Inr(2) [OF nodes.push_rel [OF rn rn dx ns] dy ns'] cns by simp
    moreover have "(vec_upd (lc_nodes A) (\<lambda>x. tdom (ln_payload x)))\<^sup>*\<^sup>* (la_nodes a) ns'"
      using nodes.upds(1) [OF dx ns] nodes.upds(2) [OF dy ns'] by (rule rtranclp_trans)
    ultimately show ?thesis
      using R(1) heads.set_Inr(2) [OF rh dh hs] heads.upds(2) [OF dh hs] a' l len
      by (simp add: la_contents_def aupd_def)
  qed
qed

text \<open>The two header writes at the end of \<open>splice\<close>.\<close>

lemma splice_heads:
  assumes rh: "heads.rel hs sh" and d: "ndom (lh_tail h)" and s1: "vec_set (lc_heads A) dst h hs = Inr hs1"
    and s2: "vec_set (lc_heads A) src (list_head_empty (lc_id A)) hs1 = Inr hs2"
  shows "hvals (v_store hs2) = (hvals (v_store hs))[dst := h, src := list_head_empty (lc_id A)]"
    and "(vec_upd (lc_heads A) (\<lambda>h. ndom (lh_tail h)))\<^sup>*\<^sup>* hs hs2" and "dst < length (hvals (v_store hs))"
proof -
  note r1 = heads.set_rel [OF rh rh d s1]
  show "hvals (v_store hs2) = (hvals (v_store hs))[dst := h, src := list_head_empty (lc_id A)]"
    using heads.set_Inr(2) [OF rh d s1] heads.set_Inr(2) [OF r1 empty_dom s2] by simp
  show "(vec_upd (lc_heads A) (\<lambda>h. ndom (lh_tail h)))\<^sup>*\<^sup>* hs hs2"
    using heads.upds(2) [OF d s1] heads.upds(2) [OF empty_dom s2] by (rule rtranclp_trans)
  show "dst < length (hvals (v_store hs))" by (rule heads.set_Inr(3) [OF rh d s1])
qed

lemma splice_Inr:
  assumes r: "arels a" and v: "la_repr (lc_id A) (alists a) ls" and a: "la_splice A dst src a = Inr a'"
  shows "aupd a a' \<and> dst \<noteq> src \<and> src < length ls \<and> length (M a') = length (M a) \<and>
    (if ls ! src = [] then a' = a else dst < length ls \<and> la_repr (lc_id A) (alists a') (ls[dst := ls ! dst @ ls ! src, src := []]))"
proof -
  obtain sh sn where rh: "heads.rel (la_heads a) sh" and rn: "nodes.rel (la_nodes a) sn" using r by (auto simp: arels_def)
  let ?N = "lc_id A" and ?d = "H a ! dst" and ?s = "H a ! src"
  note v' = v [unfolded la_contents_def] and len = repr_length [OF v [unfolded la_contents_def]]
  have ne: "dst \<noteq> src" and src: "src < length (H a)"
    using a by (auto simp: la_splice_def heads.get_Inr elim!: rbind_eq_InrE)
  have emp: "head_is_empty ?N ?s \<longleftrightarrow> ls ! src = []" by (rule repr_empty [OF v' src])
  show ?thesis
  proof (cases "head_is_empty ?N ?s")
    case True
    then have "a' = a" using a by (auto simp: la_splice_def heads.get_Inr elim!: rbind_eq_InrE)
    then show ?thesis using True emp ne src len by (simp add: aupd_def)
  next
    case False
    let ?h1 = "if head_is_empty ?N ?d then ?d\<lparr>lh_head := lh_head ?s, lh_tail := lh_tail ?s\<rparr> else ?d\<lparr>lh_tail := lh_tail ?s\<rparr>"
    let ?h = "?h1\<lparr>lh_len := lh_len ?h1 + lh_len ?s\<rparr>"
    let ?y = "(M a ! lh_tail ?d)\<lparr>ln_next := lh_head ?s\<rparr>"
    have dst: "dst < length (H a)" using a False by (auto simp: la_splice_def heads.get_Inr elim!: rbind_eq_InrE split: if_splits)
    note R = repr_splice(1) [OF v' dst src ne nid.opt_get_none False]
    note R2 = repr_splice(2) [OF v' dst src ne nid.opt_get_none False]
    obtain hs hs' ns where hs: "vec_set (lc_heads A) dst ?h (la_heads a) = Inr hs"
      "vec_set (lc_heads A) src (list_head_empty ?N) hs = Inr hs'" and a': "a' = \<lparr>la_heads = hs', la_nodes = ns\<rparr>"
      and ns: "if head_is_empty ?N ?d then ns = la_nodes a else vec_set (lc_nodes A) (lh_tail ?d) ?y (la_nodes a) = Inr ns"
      using a False by (auto simp: la_splice_def heads.get_Inr nodes.get_Inr idx_try_def elim!: rbind_eq_InrE split: if_splits)
    have "ndom (lh_tail ?h)" using heads.get_dom [OF src] by simp
    note sp = splice_heads [OF rh this hs]
    have dy: "tdom (ln_payload ?y)" if "\<not> head_is_empty ?N ?d" using nodes.get_dom [OF R2 [OF that]] by simp
    have cn: "nvals (v_store ns) = (if head_is_empty ?N ?d then M a else (M a)[lh_tail ?d := ?y])"
      using ns nodes.set_Inr(2) [OF rn dy] by (auto split: if_splits)
    have un: "(vec_upd (lc_nodes A) (\<lambda>x. tdom (ln_payload x)))\<^sup>*\<^sup>* (la_nodes a) ns"
      using ns nodes.upds(2) [OF dy] by (auto split: if_splits)
    have "la_repr ?N (alists a') (ls[dst := ls ! dst @ ls ! src, src := []])"
      using R sp(1) cn a' by (simp add: la_contents_def)
    then show ?thesis using False emp ne src dst len un sp(2) a' cn by (simp add: aupd_def)
  qed
qed

lemma upd_keeps:
  assumes r: "arels a" and v: "la_inv (lc_id A) (alists a)" and u: "la_upd A tdom a a'"
  shows "aupd a a' \<and> la_inv (lc_id A) (alists a')"
proof -
  obtain ls where ls: "la_repr (lc_id A) (alists a) ls" using inv_repr [OF v] by blast
  from u show ?thesis
  proof cases
    case (new_list i)
    then show ?thesis using new_list_Inr [OF r ls] repr_inv by blast
  next
    case (prepend x l)
    then show ?thesis using prepend_Inr [OF r ls] repr_inv by blast
  next
    case (append x l)
    then show ?thesis using append_Inr [OF r ls] repr_inv by blast
  next
    case (splice dst src)
    note sp = splice_Inr [OF r ls splice]
    show ?thesis
    proof (cases "ls ! src = []")
      case True
      with sp v show ?thesis by auto
    next
      case False
      with sp repr_inv show ?thesis by (simp add: la_contents_def) blast
    qed
  qed
qed

text \<open>Iteration yields the represented list.\<close>

lemma collect_path:
  assumes "path (lc_id A) (M a) r c" and "length c < fuel"
  shows "la_collect fuel A a r = Inr (payloads (M a) c)"
  using assms
proof (induction c arbitrary: r fuel)
  case Nil
  then show ?case by (cases fuel) (auto simp: la_next_def payloads_def)
next
  case (Cons n c)
  then obtain f where f: "fuel = Suc f" by (cases fuel) auto
  have "la_collect f A a (ln_next (M a ! n)) = Inr (payloads (M a) c)" using Cons f by simp
  then show ?case using Cons.prems f by (auto simp: la_next_def nodes.vec_get_val payloads_def)
qed

lemma iter_val:
  assumes v: "la_repr (lc_id A) (alists a) ls" and l: "l < length ls" and n: "length (M a) \<le> vc_imax (lc_nodes A)"
  shows "la_iter A l a = Inr (ls ! l)" and "la_len A l a = Inr (length (ls ! l))"
proof -
  obtain chs where c: "chains (lc_id A) (H a, M a) chs" and ls: "ls = map (payloads (M a)) chs"
    using v by (auto simp: la_repr_eq la_contents_def)
  have lh: "l < length (H a)" "l < length chs" using l ls c by (auto simp: chains_def)
  have ch: "is_chain (lc_id A) (M a) (H a ! l) (chs ! l)" by (rule chains_nth [OF c lh(1)])
  then have "length (chs ! l) \<le> length (M a)" using path_length by (auto simp: is_chain_def)
  then show "la_iter A l a = Inr (ls ! l)"
    using ch lh n ls collect_path [of a "lh_head (H a ! l)" "chs ! l"] nodes.vec_fuel_gt
    by (simp add: la_iter_def heads.vec_get_val is_chain_def del: la_collect.simps)
  show "la_len A l a = Inr (length (ls ! l))"
    using ch lh ls by (simp add: la_len_def heads.vec_get_val is_chain_def payloads_def)
qed

text \<open>Below the capacity of the words nothing panics.\<close>

lemma chain_facts:
  assumes v: "la_repr (lc_id A) (alists a) ls" and l: "l < length (H a)"
  shows "lh_len (H a ! l) \<le> length (M a)" and "\<not> head_is_empty (lc_id A) (H a ! l) \<Longrightarrow> lh_tail (H a ! l) < length (M a)"
    and "lh_len (H a ! l) = length (ls ! l)"
proof -
  obtain chs where c: "chains (lc_id A) (H a, M a) chs" and ls: "ls = map (payloads (M a)) chs"
    using v by (auto simp: la_repr_eq la_contents_def)
  have ch: "is_chain (lc_id A) (M a) (H a ! l) (chs ! l)" by (rule chains_nth [OF c l])
  then show "lh_len (H a ! l) \<le> length (M a)" using path_length by (auto simp: is_chain_def)
  show "lh_len (H a ! l) = length (ls ! l)" using ch ls l c by (simp add: is_chain_def payloads_def chains_def)
  assume "\<not> head_is_empty (lc_id A) (H a ! l)"
  then have "chs ! l \<noteq> []" using chain_empty [OF ch] by simp
  then have "last (chs ! l) \<in> {..< length (M a)}" using chains_bound [OF c l] last_in_set by blast
  then show "lh_tail (H a ! l) < length (M a)" using ch \<open>chs ! l \<noteq> []\<close> by (simp add: is_chain_def)
qed

lemma new_list_ok:
  assumes r: "arels a" and sz: "length (H a) \<le> lc_lmax A" "length (H a) \<le> vc_imax (lc_heads A)"
  shows "\<exists>a'. la_new_list A a = Inr (length (H a), a')"
proof -
  obtain sh where "heads.rel (la_heads a) sh" using r by (auto simp: arels_def)
  then obtain hs where "vec_push (lc_heads A) (list_head_empty (lc_id A)) (la_heads a) = Inr hs"
    using heads.push_spec [OF _ sz(2) empty_dom] by blast
  then show ?thesis using sz by (simp add: la_new_list_def heads.vec_len_val idx_try_def)
qed

lemma prepend_ok:
  assumes r: "arels a" and v: "la_repr (lc_id A) (alists a) ls" and x: "tdom x" and l: "l < length (H a)"
    and sz: "length (M a) \<le> lc_nmax A" "length (M a) < vc_imax (lc_nodes A)" "length (H a) \<le> vc_imax (lc_heads A)"
  shows "\<exists>a'. la_prepend A l x a = Inr a'"
proof -
  obtain sh sn where rh: "heads.rel (la_heads a) sh" and rn: "nodes.rel (la_nodes a) sn" using r by (auto simp: arels_def)
  let ?h = "H a ! l" and ?n = "length (M a)"
  let ?h' = "?h\<lparr>lh_head := opt_some (lc_id A) ?n, lh_tail := (if head_is_empty (lc_id A) ?h then ?n else lh_tail ?h), lh_len := lh_len ?h + 1\<rparr>"
  obtain ns where ns: "vec_push (lc_nodes A) \<lparr>ln_payload = x, ln_next = lh_head ?h\<rparr> (la_nodes a) = Inr ns"
    using nodes.push_spec [OF rn less_imp_le [OF sz(2)], of "\<lparr>ln_payload = x, ln_next = lh_head ?h\<rparr>"] x by auto
  have "ndom (lh_tail ?h')" using heads.get_dom [OF l] id_fits [OF sz(1)] by simp
  then obtain hs where "vec_set (lc_heads A) l ?h' (la_heads a) = Inr hs" using heads.set_spec [OF rh sz(3) l] by blast
  then show ?thesis
    using ns sz l chain_facts(1) [OF v l]
    by (auto simp: la_prepend_def la_grown_def heads.vec_get_val nodes.vec_len_val idx_try_def Let_def)
qed

lemma append_ok:
  assumes r: "arels a" and v: "la_repr (lc_id A) (alists a) ls" and x: "tdom x" and l: "l < length (H a)"
    and sz: "length (M a) \<le> lc_nmax A" "length (M a) < vc_imax (lc_nodes A)" "length (H a) \<le> vc_imax (lc_heads A)"
  shows "\<exists>a'. la_append A l x a = Inr a'"
proof -
  obtain sh sn where rh: "heads.rel (la_heads a) sh" and rn: "nodes.rel (la_nodes a) sn" using r by (auto simp: arels_def)
  let ?h = "H a ! l" and ?n = "length (M a)" and ?N = "lc_id A"
  let ?h1 = "if head_is_empty ?N ?h then ?h\<lparr>lh_head := opt_some ?N ?n\<rparr> else ?h"
  let ?x = "\<lparr>ln_payload = x, ln_next = opt_none ?N\<rparr>"
  obtain ns where ns: "vec_push (lc_nodes A) ?x (la_nodes a) = Inr ns" "nvals (v_store ns) = M a @ [?x]" "nodes.rel ns sn"
    using nodes.push_spec [OF rn less_imp_le [OF sz(2)], of ?x] x by fastforce
  have "ndom (lh_tail (?h1\<lparr>lh_tail := ?n, lh_len := lh_len ?h + 1\<rparr>))" using id_fits [OF sz(1)] by simp
  then obtain hs where hs: "vec_set (lc_heads A) l (?h1\<lparr>lh_tail := ?n, lh_len := lh_len ?h + 1\<rparr>) (la_heads a) = Inr hs"
    using heads.set_spec [OF rh sz(3) l] by blast
  have "\<exists>ns'. vec_set (lc_nodes A) (lh_tail ?h) ((nvals (v_store ns) ! lh_tail ?h)\<lparr>ln_next := opt_some ?N ?n\<rparr>) ns = Inr ns'"
    if e: "\<not> head_is_empty ?N ?h"
  proof -
    have t: "lh_tail ?h < length (M a)" by (rule chain_facts(2) [OF v l e])
    have "tdom (ln_payload ((nvals (v_store ns) ! lh_tail ?h)\<lparr>ln_next := opt_some ?N ?n\<rparr>))"
      using nodes.get_dom [of "lh_tail ?h" ns] ns(2) t by simp
    then show ?thesis using nodes.set_spec [OF ns(3), of "lh_tail ?h"] ns(2) t sz(2) by fastforce
  qed
  then show ?thesis
    using ns hs sz l chain_facts(1,2) [OF v l]
    by (cases "head_is_empty ?N ?h")
      (auto simp: la_append_def la_grown_def heads.vec_get_val nodes.vec_get_val nodes.vec_len_val idx_try_def Let_def)
qed

lemma splice_len:
  assumes v: "la_repr (lc_id A) (alists a) ls" and l: "dst < length (H a)" "src < length (H a)" "dst \<noteq> src"
  shows "lh_len (H a ! dst) + lh_len (H a ! src) \<le> length (M a)"
proof -
  obtain chs where c: "chains (lc_id A) (H a, M a) chs" using v by (auto simp: la_repr_eq la_contents_def)
  note ch = chains_nth [OF c l(1)] chains_nth [OF c l(2)]
  have "distinct (chs ! dst @ chs ! src)"
    using ch chains_disjoint [OF c l(1,2,3)] by (auto simp: is_chain_def)
  moreover have "set (chs ! dst @ chs ! src) \<subseteq> {..< length (M a)}" using chains_bound [OF c] l by auto
  ultimately have "length (chs ! dst @ chs ! src) \<le> card {..< length (M a)}"
    by (metis card_mono distinct_card finite_lessThan)
  then show ?thesis using ch by (simp add: is_chain_def)
qed

lemma splice_ok:
  assumes r: "arels a" and v: "la_repr (lc_id A) (alists a) ls" and l: "dst < length (H a)" "src < length (H a)" "dst \<noteq> src"
    and sz: "length (M a) \<le> vc_imax (lc_nodes A)" "length (H a) \<le> vc_imax (lc_heads A)"
  shows "\<exists>a'. la_splice A dst src a = Inr a'"
proof -
  obtain sh sn where rh: "heads.rel (la_heads a) sh" and rn: "nodes.rel (la_nodes a) sn" using r by (auto simp: arels_def)
  let ?d = "H a ! dst" and ?s = "H a ! src" and ?N = "lc_id A"
  let ?h1 = "if head_is_empty ?N ?d then ?d\<lparr>lh_head := lh_head ?s, lh_tail := lh_tail ?s\<rparr> else ?d\<lparr>lh_tail := lh_tail ?s\<rparr>"
  let ?h = "?h1\<lparr>lh_len := lh_len ?d + lh_len ?s\<rparr>" and ?y = "(M a ! lh_tail ?d)\<lparr>ln_next := lh_head ?s\<rparr>"
  have dh: "ndom (lh_tail ?h)" using heads.get_dom [OF l(2)] by simp
  obtain hs where hs: "vec_set (lc_heads A) dst ?h (la_heads a) = Inr hs" "H \<lparr>la_heads = hs, la_nodes = la_nodes a\<rparr> = (H a)[dst := ?h]"
    "heads.rel hs sh"
    using heads.set_spec [OF rh sz(2) l(1) dh] by auto
  obtain hs' where hs': "vec_set (lc_heads A) src (list_head_empty ?N) hs = Inr hs'"
    using heads.set_spec [OF hs(3) _ _ empty_dom, of src] hs(2) sz(2) l(2) by auto
  have "\<exists>ns. vec_set (lc_nodes A) (lh_tail ?d) ?y (la_nodes a) = Inr ns \<and> lh_tail ?d < length (M a)" if e: "\<not> head_is_empty ?N ?d"
  proof -
    note t = chain_facts(2) [OF v l(1) e]
    have "tdom (ln_payload ?y)" using nodes.get_dom [OF t] by simp
    then show ?thesis using nodes.set_spec [OF rn sz(1) t] t by blast
  qed
  then show ?thesis
    using hs(1) hs' l sz splice_len [OF v l]
    by (cases "head_is_empty ?N ?d")
      (auto simp: la_splice_def heads.vec_get_val nodes.vec_get_val idx_try_def)
qed

end

section \<open>Marks and restores\<close>

definition la_part where "la_part a = (la_heads a, la_nodes a)"

definition la_tok where "la_tok t = (lt_heads t, lt_nodes t)"

definition la_fresh :: "('r, 't, 'n) list_arena \<Rightarrow> bool" where
  "la_fresh a \<longleftrightarrow> (\<exists>counter. a = fst (la_new counter))"

lemma la_upd_ids:
  assumes "la_upd A okv a a'"
  shows "v_id (la_heads a') = v_id (la_heads a) \<and> v_id (la_nodes a') = v_id (la_nodes a)"
  using assms
  by cases (auto simp: la_new_list_def la_prepend_def la_append_def la_splice_def Let_def vec_ids
      elim!: rbind_eq_InrE split: if_splits)

context arena_ops begin

lemma is_composite:
  "composite (\<lambda>c. vec_fresh hflag (fst c) \<and> vec_fresh nflag (snd c))
  (pair_upd (vec_upd (lc_heads A) (\<lambda>h. ndom (lh_tail h))) (vec_upd (lc_nodes A) (\<lambda>x. tdom (ln_payload x))))
  (pair_mk (vec_mark (lc_heads A)) (vec_mark (lc_nodes A)))
  (pair_rst (vec_restore (lc_heads A)) (vec_restore (lc_nodes A)))
  (\<lambda>c. (hvals (v_store (fst c)), nvals (v_store (snd c))))
  (\<lambda>t. branch_id (fst t)) (\<lambda>t. depth (fst t)) (\<lambda>c. v_forks (fst c))
  (pair_rel heads.rel nodes.rel v_forks v_forks)
  (pair_good vec_good vec_good branch_id depth branch_id depth)
  la_fresh (la_upd A tdom) (la_mark A) (la_restore A) la_part la_tok (la_inv (lc_id A))"
  (is "composite ?F ?U ?M ?R ?V ?br ?dp ?fk ?rel ?good _ _ _ _ _ _ _")
proof (intro composite.intro composite_axioms.intro)
  show "checkpointed ?F ?U ?M ?R ?V ?br ?dp ?fk ?rel ?good"
    by (intro pair_checkpointed heads.is_checkpointed nodes.is_checkpointed)
  fix c c' and s and t sh and u and x
  show "la_fresh c \<Longrightarrow> ?F (la_part c) \<and> la_inv (lc_id A) (?V (la_part c))"
    using new_store
    by (auto simp: la_fresh_def la_new_def veci_new_def la_part_def vec_fresh_def la_inv_def chains_def
        vec_with_store_def container_id_new_def Let_def)
  show "la_upd A tdom c c' \<Longrightarrow> ?good (la_part c) u \<Longrightarrow> ?good (la_part c') u"
    using la_upd_ids [of A tdom c c'] by (simp add: pair_good_def la_part_def vec_good_def)
  show "?U\<^sup>*\<^sup>* (la_part c) (la_part c') \<and> la_inv (lc_id A) (?V (la_part c'))"
    if "?rel (la_part c) s" "la_inv (lc_id A) (?V (la_part c))" "la_upd A tdom c c'"
  proof -
    have "arels c" using that(1) by (auto simp: arels_def la_part_def pair_rel_def)
    then have "aupd c c' \<and> la_inv (lc_id A) (alists c')" using upd_keeps that(2,3) by (simp add: la_contents_def la_part_def)
    then show ?thesis by (auto simp: aupd_def la_contents_def la_part_def intro!: pair_updI)
  qed
  show "la_mark A sh c = Inr (t, c') \<Longrightarrow> \<exists>n. ?M n (la_part c) = Inr (la_tok t, la_part c') \<and> ?V (la_part c') = ?V (la_part c)"
    by (intro exI [of _ sh]) (auto simp: la_mark_def pair_mk_eq_Inr la_part_def la_tok_def heads.mark_cont nodes.mark_cont elim!: rbind_eq_InrE split: prod.splits)
  show "la_restore A t c = Inr c' \<Longrightarrow> ?R (la_tok t) (la_part c) = Inr (la_part c')"
    by (auto simp: la_restore_def pair_rst_eq_Inr la_part_def la_tok_def elim!: rbind_eq_InrE)
  show "?R (la_tok t) (la_part c) = Inr x \<Longrightarrow> \<exists>c'. la_restore A t c = Inr c'"
    by (auto simp: la_restore_def pair_rst_eq_Inr la_part_def la_tok_def)
qed

end

sublocale arena_ops \<subseteq> cmp: composite
  "\<lambda>c. vec_fresh hflag (fst c) \<and> vec_fresh nflag (snd c)"
  "pair_upd (vec_upd (lc_heads A) (\<lambda>h. ndom (lh_tail h))) (vec_upd (lc_nodes A) (\<lambda>x. tdom (ln_payload x)))"
  "pair_mk (vec_mark (lc_heads A)) (vec_mark (lc_nodes A))"
  "pair_rst (vec_restore (lc_heads A)) (vec_restore (lc_nodes A))"
  "\<lambda>c. (hvals (v_store (fst c)), nvals (v_store (snd c)))"
  "\<lambda>t. branch_id (fst t)"
  "\<lambda>t. depth (fst t)"
  "\<lambda>c. v_forks (fst c)"
  "pair_rel heads.rel nodes.rel v_forks v_forks"
  "pair_good vec_good vec_good branch_id depth branch_id depth"
  la_fresh "la_upd A tdom" "la_mark A" "la_restore A" la_part la_tok "la_inv (lc_id A)" "\<lambda>v. v"
  by (rule is_composite)

context arena_ops begin

lemma crel_arels: "cmp.crel c snaps \<Longrightarrow> arels c \<and> la_inv (lc_id A) (alists c)"
  by (auto simp: cmp.crel_def arels_def pair_rel_def la_part_def la_contents_def)

lemma arena_checkpointed:
  "checkpointed la_fresh (la_upd A tdom) (la_mark A) (la_restore A) alists
    (\<lambda>t. branch_id (lt_heads t)) (\<lambda>t. depth (lt_heads t)) (\<lambda>c. v_forks (la_heads c)) cmp.crel
    (\<lambda>c t. pair_good vec_good vec_good branch_id depth branch_id depth (la_part c) (la_tok t))"
  using cmp.composite_checkpointed by (simp add: la_part_def la_tok_def la_contents_def [abs_def])

end

text \<open>Arenas of payloads with a spare bit, under 31-bit node and list identifiers and a 32-bit index word.\<close>

definition la31_cfg :: "('t, 'r) tagged_ops \<Rightarrow> bool \<Rightarrow> ('r, 't, 32 word) la_cfg" where
  "la31_cfg T track = \<lparr>lc_heads = veci_cfg (head_tagged id31) track (2 ^ 32 - 1),
     lc_nodes = veci_cfg (node_tagged T id31) track (2 ^ 32 - 1), lc_id = id31, lc_lmax = imax31, lc_nmax = imax31\<rparr>"

lemma la31_arena:
  assumes "tagged_repr T tdom"
  shows "arena_ops (la31_cfg T track) (is_vals (head_tagged id31)) (is_flag (head_tagged id31)) (is_flag (head_tagged id31))
    (tg_default (head_tagged id31)) (is_vals (node_tagged T id31)) (is_flag (node_tagged T id31)) (is_flag (node_tagged T id31))
    tdom (tg_default (node_tagged T id31)) (id_nat_dom TYPE(32))"
proof (intro arena_ops.intro arena_ops_axioms.intro)
  show "semi_vec (lc_heads (la31_cfg T track)) (is_vals (head_tagged id31)) (is_flag (head_tagged id31)) (is_flag (head_tagged id31))
      (\<lambda>h. id_nat_dom TYPE(32) (lh_tail h)) (tg_default (head_tagged id31))"
    unfolding la31_cfg_def la_cfg.simps by (rule tagged_repr.veci_semi_vec [OF head_tagged_repr [OF id31_t.tagged_repr_axioms]])
  show "semi_vec (lc_nodes (la31_cfg T track)) (is_vals (node_tagged T id31)) (is_flag (node_tagged T id31)) (is_flag (node_tagged T id31))
      (\<lambda>x. tdom (ln_payload x)) (tg_default (node_tagged T id31))"
    unfolding la31_cfg_def la_cfg.simps by (rule tagged_repr.veci_semi_vec [OF tagged_repr.node_tagged_repr [OF assms]])
  show "tagged_repr (lc_id (la31_cfg T track)) (id_nat_dom TYPE(32))"
    unfolding la31_cfg_def la_cfg.simps by (rule id31_t.tagged_repr_axioms)
qed (simp_all add: la31_cfg_def id_nat_dom_def le_imax31 is_vals_def is_flag_def is_new_def)

interpretation la31: arena_ops "la31_cfg id31 track" "is_vals (head_tagged id31)" "is_flag (head_tagged id31)" "is_flag (head_tagged id31)"
  "tg_default (head_tagged id31)" "is_vals (node_tagged id31 id31)" "is_flag (node_tagged id31 id31)" "is_flag (node_tagged id31 id31)"
  "id_nat_dom TYPE(32)" "tg_default (node_tagged id31 id31)" "id_nat_dom TYPE(32)"
  for track by (rule la31_arena [OF id31_t.tagged_repr_axioms])

section \<open>Properties\<close>

type_synonym arena31 = "(32 word, nat, 32 word) list_arena"

abbreviation la31_contents :: "arena31 \<Rightarrow> (nat, 32 word) la_lists" where
  "la31_contents \<equiv> la_contents (is_vals (head_tagged id31)) (is_vals (node_tagged id31 id31))"

abbreviation la31_session :: "bool \<Rightarrow> arena31 \<Rightarrow> (la_token \<times> (nat, 32 word) la_lists) list \<Rightarrow> nat list \<Rightarrow> nat set \<Rightarrow> bool" where
  "la31_session track \<equiv> session la_fresh (la_upd (la31_cfg id31 track) (id_nat_dom TYPE(32)))
    (la_mark (la31_cfg id31 track)) (la_restore (la31_cfg id31 track)) la31_contents (\<lambda>t. depth (lt_heads t))"

text \<open>What a client reads: every list, iterated from its header.\<close>

definition la31_lists :: "bool \<Rightarrow> arena31 \<Rightarrow> nat list res list" where
  "la31_lists track a = map (\<lambda>l. la_iter (la31_cfg id31 track) l a) [0..<length (fst (la31_contents a))]"

lemma la31_cfg_sel:
  "lc_id (la31_cfg T track) = id31" "lc_lmax (la31_cfg T track) = imax31" "lc_nmax (la31_cfg T track) = imax31"
  "vc_imax (lc_heads (la31_cfg T track)) = 2 ^ 32 - 1" "vc_imax (lc_nodes (la31_cfg T track)) = 2 ^ 32 - 1"
  by (simp_all add: la31_cfg_def veci_cfg_def)

lemma la31_session_inv:
  assumes "la31_session track a issued st co"
  shows "la31.arels track a" and "\<exists>ls. la_repr id31 (la31_contents a) ls"
proof -
  note s = la31.crel_arels [OF checkpointed.session_inv [OF la31.arena_checkpointed assms, THEN conjunct1]]
  show "la31.arels track a" using s by simp
  show "\<exists>ls. la_repr id31 (la31_contents a) ls" using s inv_repr [of id31 "la31_contents a"] by (simp add: la31_cfg_sel)
qed

lemma la31_lists_repr:
  assumes r: "la_repr id31 (la31_contents a) ls" and n: "length (snd (la31_contents a)) < 2 ^ 32"
  shows "la31_lists track a = map Inr ls" and "length (fst (la31_contents a)) = length ls"
    and "l < length ls \<Longrightarrow> la_len (la31_cfg id31 track) l a = Inr (length (ls ! l))"
proof -
  show len: "length (fst (la31_contents a)) = length ls" using repr_length [of id31 _ _ ls] r by (simp add: la_contents_def)
  note it = la31.iter_val [of track a ls, unfolded la31_cfg_sel, OF r]
  show "la31_lists track a = map Inr ls"
    using it(1) n len by (intro nth_equalityI) (auto simp: la31_lists_def la_contents_def)
  show "l < length ls \<Longrightarrow> la_len (la31_cfg id31 track) l a = Inr (length (ls ! l))"
    using it(2) [of l] n by (auto simp: la_contents_def)
qed

lemma la31_session_repr:
  assumes s: "la31_session track a issued st co" and ls: "la31_lists track a = map Inr ls"
    and n: "length (snd (la31_contents a)) < 2 ^ 31"
  shows "la31.arels track a" and "la_repr id31 (la31_contents a) ls"
    and "length (is_vals (head_tagged id31) (v_store (la_heads a))) = length ls"
proof -
  obtain ls' where r: "la_repr id31 (la31_contents a) ls'" using la31_session_inv(2) [OF s] by blast
  have n': "length (snd (la31_contents a)) < 2 ^ 32" using n by simp
  have "ls' = ls" using la31_lists_repr(1) [OF r n', of track] ls by (simp add: inj_map_eq_map)
  with r show "la_repr id31 (la31_contents a) ls" by simp
  then show "length (is_vals (head_tagged id31) (v_store (la_heads a))) = length ls"
    using la31_lists_repr(2) [OF _ n'] by (simp add: la_contents_def)
  show "la31.arels track a" by (rule la31_session_inv(1) [OF s])
qed

text \<open>A new arena, and a new arena with one mark.\<close>

abbreviation la31_new :: arena31 where "la31_new \<equiv> fst (la_new 0)"

lemma la31_demo0: "la31_session True la31_new [] [] {}"
  by (intro session.fresh) (auto simp: la_fresh_def)

lemma la31_contents_new: "la31_contents la31_new = ([], [])"
  by (simp add: la_contents_def la_new_def veci_new_def vec_with_store_def container_id_new_def is_vals_def is_new_def)

lemma la31_demo1:
  obtains t a where "la_mark (la31_cfg id31 True) ((Never, 0, 0), (Never, 0, 0)) la31_new = Inr (t, a)"
    and "la31_session True a [(t, ([], []))] [0] {}" and "v_forks (la_heads a) = fork_history_new"
proof -
  obtain t a where m: "la_mark (la31_cfg id31 True) ((Never, 0, 0), (Never, 0, 0)) la31_new = Inr (t, a)"
    and f: "v_forks (la_heads a) = fork_history_new"
    by (simp add: la_mark_def la31_cfg_def veci_cfg_def inline_ops_def la_new_def
        veci_new_def vec_with_store_def container_id_new_def vec_mark_def vec_maybe_shrink_def len_res_def idx_try_def
        is_new_def slice_from_def narrow_count_def)
  have "la31_session True a [(t, ([], []))] [0] {}" using session.mark [OF la31_demo0, OF m] by (simp add: la31_contents_new)
  with m f show ?thesis by (intro that)
qed

text \<open>
  A live token of a \<open>ListArena\<close> restores every header and node at its mark, and an accepted token
  that was never restored before is live.
\<close>

theorem list_arena_restore_exact:
  assumes "la31_session track a issued st co" and "k < length issued" and "k \<notin> co"
    and "length st < 2 ^ 32" and "length (origins (v_forks (la_heads a))) + 1 < 2 ^ 32"
  shows "(\<exists>a'. la_restore (la31_cfg id31 track) (fst (issued ! k)) a = Inr a') = (k \<in> set st) \<and>
    (\<forall>a'. la_restore (la31_cfg id31 track) (fst (issued ! k)) a = Inr a' \<longrightarrow> la31_contents a' = snd (issued ! k))"
  using checkpointed.live_token_restores [OF la31.arena_checkpointed assms(1) _ assms(4,5)]
    checkpointed.accepted_token_live [OF la31.arena_checkpointed assms(1-3)] by blast

theorem list_arena_restore_exact_witness:
  "\<exists>t a w. la_mark (la31_cfg id31 True) ((Never, 0, 0), (Never, 0, 0)) la31_new = Inr (t, a) \<and>
    la_restore (la31_cfg id31 True) t a = Inr w \<and> la31_contents w = ([], [])"
proof -
  obtain t a where d: "la_mark (la31_cfg id31 True) ((Never, 0, 0), (Never, 0, 0)) la31_new = Inr (t, a)"
    "la31_session True a [(t, ([], []))] [0] {}" "v_forks (la_heads a) = fork_history_new" by (rule la31_demo1)
  from list_arena_restore_exact [OF d(2), of 0] d show ?thesis by (auto simp: fork_history_new_def)
qed

text \<open>
  In every reachable arena the links of each list end: iterating terminates without a panic, and
  the stored count of a list is the number of elements iteration yields.
\<close>

theorem list_arena_iteration_ends:
  assumes "la31_session track a issued st co" and "length (snd (la31_contents a)) < 2 ^ 32"
  shows "\<exists>ls. la31_lists track a = map Inr ls \<and> (\<forall>l < length ls. la_len (la31_cfg id31 track) l a = Inr (length (ls ! l)))"
  using la31_session_inv(2) [OF assms(1)] la31_lists_repr(1,3) [OF _ assms(2)] by blast

text \<open>
  Below the capacity of the identifiers, \<open>new_list\<close>, \<open>prepend\<close> and \<open>append\<close> succeed and act on the
  lists a client reads as the list operations of their names, every other list unchanged.
\<close>

theorem list_arena_push:
  assumes s: "la31_session track a issued st co" and ls: "la31_lists track a = map Inr ls" and x: "x < 2 ^ 31"
    and sz: "length (fst (la31_contents a)) < 2 ^ 31" "length (snd (la31_contents a)) < 2 ^ 31"
  shows "(\<exists>a'. la_new_list (la31_cfg id31 track) a = Inr (length ls, a') \<and> la31_lists track a' = map Inr (ls @ [[]])) \<and>
    (\<forall>l < length ls.
      (\<exists>a'. la_prepend (la31_cfg id31 track) l x a = Inr a' \<and> la31_lists track a' = map Inr (ls[l := x # ls ! l])) \<and>
      (\<exists>a'. la_append (la31_cfg id31 track) l x a = Inr a' \<and> la31_lists track a' = map Inr (ls[l := ls ! l @ [x]])))"
proof (intro conjI allI impI)
  note r = la31_session_repr(1,2) [OF s ls sz(2)] and len = la31_session_repr(3) [OF s ls sz(2)]
  have xd: "id_nat_dom TYPE(32) x" using x by (simp add: id_nat_dom_def)
  note szs = sz [unfolded la_contents_def fst_conv snd_conv]
  note read = la31_lists_repr(1)
  obtain a' where a: "la_new_list (la31_cfg id31 track) a = Inr (length ls, a')"
    using la31.new_list_ok [OF r(1), unfolded la31_cfg_sel] szs len by (auto simp: le_imax31)
  then show "\<exists>a'. la_new_list (la31_cfg id31 track) a = Inr (length ls, a') \<and> la31_lists track a' = map Inr (ls @ [[]])"
    using la31.new_list_Inr [OF r(1) _ a, unfolded la31_cfg_sel, OF r(2)] szs read by (auto simp: la_contents_def)
  fix l assume "l < length ls"
  then have l: "l < length (is_vals (head_tagged id31) (v_store (la_heads a)))" using len by simp
  obtain p where p: "la_prepend (la31_cfg id31 track) l x a = Inr p"
    using la31.prepend_ok [OF r(1) _ xd l, unfolded la31_cfg_sel, OF r(2)] szs by (auto simp: le_imax31)
  then show "\<exists>a'. la_prepend (la31_cfg id31 track) l x a = Inr a' \<and> la31_lists track a' = map Inr (ls[l := x # ls ! l])"
    using la31.prepend_Inr [OF r(1) _ xd p, unfolded la31_cfg_sel, OF r(2)] szs read by (auto simp: la_contents_def)
  obtain q where q: "la_append (la31_cfg id31 track) l x a = Inr q"
    using la31.append_ok [OF r(1) _ xd l, unfolded la31_cfg_sel, OF r(2)] szs by (auto simp: le_imax31)
  then show "\<exists>a'. la_append (la31_cfg id31 track) l x a = Inr a' \<and> la31_lists track a' = map Inr (ls[l := ls ! l @ [x]])"
    using la31.append_Inr [OF r(1) _ xd q, unfolded la31_cfg_sel, OF r(2)] szs read by (auto simp: la_contents_def)
qed

text \<open>
  C31: \<open>splice\<close> moves the whole source list behind the destination list and leaves the source empty;
  splicing a list into itself panics.
\<close>

theorem list_arena_splice:
  assumes s: "la31_session track a issued st co" and ls: "la31_lists track a = map Inr ls"
    and l: "dst < length ls" "src < length ls"
    and sz: "length (fst (la31_contents a)) < 2 ^ 31" "length (snd (la31_contents a)) < 2 ^ 31"
  shows "if dst = src then la_splice (la31_cfg id31 track) dst src a = Inl SameList
    else \<exists>a'. la_splice (la31_cfg id31 track) dst src a = Inr a' \<and>
      la31_lists track a' = map Inr (ls[dst := ls ! dst @ ls ! src, src := []])"
proof (cases "dst = src")
  case False
  note r = la31_session_repr(1,2) [OF s ls sz(2)] and len = la31_session_repr(3) [OF s ls sz(2)]
  note szs = sz [unfolded la_contents_def fst_conv snd_conv]
  have l': "dst < length (is_vals (head_tagged id31) (v_store (la_heads a)))"
    "src < length (is_vals (head_tagged id31) (v_store (la_heads a)))" using l len by simp_all
  obtain a' where a: "la_splice (la31_cfg id31 track) dst src a = Inr a'"
    using la31.splice_ok [OF r(1) _ l' False, unfolded la31_cfg_sel, OF r(2)] szs by auto
  note sp = la31.splice_Inr [OF r(1) _ a, unfolded la31_cfg_sel, OF r(2)]
  have "la_repr id31 (la31_contents a') (ls[dst := ls ! dst @ ls ! src, src := []])"
  proof (cases "ls ! src = []")
    case True
    then have "ls[dst := ls ! dst @ ls ! src, src := []] = ls" using list_update_id [of ls src] by simp
    then show ?thesis using sp r(2) True by auto
  qed (use sp in auto)
  moreover have "length (snd (la31_contents a')) < 2 ^ 32" using sp szs by (simp add: la_contents_def)
  ultimately show ?thesis using a la31_lists_repr(1) [of a'] False by auto
qed (simp add: la_splice_def)

text \<open>Two lists, the first with one element, built by the operations.\<close>

lemma la31_demo_lists:
  obtains a where "la31_session True a [] [] {}" and "la31_lists True a = map Inr [[7], []]"
    and "length (fst (la31_contents a)) < 2 ^ 31" and "length (snd (la31_contents a)) < 2 ^ 31"
proof -
  let ?A = "la31_cfg id31 True" and ?n = "\<lambda>a. length (snd (la31_contents a))"
  have new: "\<exists>a'. la31_session True a' [] [] {} \<and> la_repr id31 (la31_contents a') (ls @ [[]]) \<and> ?n a' \<le> Suc (?n a)"
    if s: "la31_session True a [] [] {}" and r: "la_repr id31 (la31_contents a) ls" and sz: "length ls < 2 ^ 31" for a ls
  proof -
    note w = la31_session_inv(1) [OF s]
    have len: "length (is_vals (head_tagged id31) (v_store (la_heads a))) = length ls"
      using repr_length [of id31 _ _ ls] r by (simp add: la_contents_def)
    obtain a' where a: "la_new_list ?A a = Inr (length ls, a')"
      using la31.new_list_ok [OF w, unfolded la31_cfg_sel] sz len by (auto simp: le_imax31)
    show ?thesis
      using la31.new_list_Inr [OF w _ a, unfolded la31_cfg_sel, OF r] session.update [OF s la_upd.new_list [OF a]]
      by (auto simp: la_contents_def)
  qed
  have "la_repr id31 (la31_contents la31_new) []" by (simp add: la31_contents_new la_repr_def chains_def)
  from new [OF la31_demo0 this] obtain a1 where a1: "la31_session True a1 [] [] {}" "la_repr id31 (la31_contents a1) [[]]" "?n a1 \<le> 1"
    by (auto simp: la31_contents_new)
  from new [OF a1(1,2)] obtain a2 where a2: "la31_session True a2 [] [] {}" "la_repr id31 (la31_contents a2) [[], []]" "?n a2 \<le> 2"
    using a1(3) by fastforce
  note w = la31_session_inv(1) [OF a2(1)]
  have len: "length (is_vals (head_tagged id31) (v_store (la_heads a2))) = 2"
    using repr_length [OF a2(2) [unfolded la_contents_def]] by simp
  have x: "id_nat_dom TYPE(32) 7" by (simp add: id_nat_dom_def)
  obtain a where a: "la_prepend ?A 0 7 a2 = Inr a"
    using la31.prepend_ok [OF w _ x, of _ 0, unfolded la31_cfg_sel, OF a2(2)] a2(3) len by (auto simp: le_imax31 la_contents_def)
  note p = la31.prepend_Inr [OF w _ x a, unfolded la31_cfg_sel, OF a2(2)]
  have r: "la_repr id31 (la31_contents a) [[7], []]" and n: "?n a \<le> 3" using p a2(3) by (simp_all add: la_contents_def)
  have s: "la31_session True a [] [] {}" using session.update [OF a2(1) la_upd.prepend [where okv = "id_nat_dom TYPE(32)", OF x a]] .
  show ?thesis using that [OF s] la31_lists_repr(1,2) [OF r] n by simp
qed

theorem list_arena_iteration_ends_witness:
  "\<exists>a ls. la31_lists True a = map Inr ls \<and> ls = [[7], []] \<and> la_len (la31_cfg id31 True) 0 a = Inr 1"
proof -
  obtain a where a: "la31_session True a [] [] {}" "la31_lists True a = map Inr [[7], []]" "length (snd (la31_contents a)) < 2 ^ 31"
    by (rule la31_demo_lists)
  from list_arena_iteration_ends [OF a(1)] a(2,3) show ?thesis by (fastforce simp: map_eq_Cons_conv)
qed

theorem list_arena_push_witness:
  "\<exists>a b. la_append (la31_cfg id31 True) 0 8 a = Inr b \<and> la31_lists True b = map Inr [[7, 8], []]"
proof -
  obtain a where a: "la31_session True a [] [] {}" "la31_lists True a = map Inr [[7], []]"
    "length (fst (la31_contents a)) < 2 ^ 31" "length (snd (la31_contents a)) < 2 ^ 31" by (rule la31_demo_lists)
  from list_arena_push [OF a(1,2) _ a(3,4), of 8] show ?thesis by fastforce
qed

theorem list_arena_splice_witness:
  "\<exists>a b. la_splice (la31_cfg id31 True) 1 0 a = Inr b \<and> la31_lists True b = map Inr [[], [7]]"
proof -
  obtain a where a: "la31_session True a [] [] {}" "la31_lists True a = map Inr [[7], []]"
    "length (fst (la31_contents a)) < 2 ^ 31" "length (snd (la31_contents a)) < 2 ^ 31" by (rule la31_demo_lists)
  from list_arena_splice [OF a(1,2) _ _ a(3,4), of 1 0] show ?thesis by auto
qed

end
