(* ===== verification/Forest.thy ===== *)
theory Forest
  imports Prelude
begin

text \<open>
  Parent arrays, the data structure of the union-find's representative forest and of its proof
  forest.  A node is a root when it is its own parent.  \<open>rpath\<close> is the path from a node to its root,
  so an array is a forest when every node has one; the lemmas say how the paths change under the
  three updates the code makes: path compression, linking a root below another node, and reversing
  the edges on the path from a node to its root.
\<close>

section \<open>Paths to the root\<close>

inductive rpath :: "nat list \<Rightarrow> nat \<Rightarrow> nat list \<Rightarrow> bool" for p where
  root: "x < length p \<Longrightarrow> p ! x = x \<Longrightarrow> rpath p x [x]"
| step: "x < length p \<Longrightarrow> p ! x \<noteq> x \<Longrightarrow> rpath p (p ! x) xs \<Longrightarrow> rpath p x (x # xs)"

inductive_cases rpathE: "rpath p x xs"
inductive_simps rpath_Cons: "rpath p x (y # ys)"
inductive_simps rpath_Nil [simp]: "rpath p x []"

definition forest :: "nat list \<Rightarrow> bool" where
  "forest p \<longleftrightarrow> (\<forall>x < length p. \<exists>xs. rpath p x xs)"

text \<open>The root of a node: as many steps as there are nodes are enough.\<close>

definition uf_root :: "nat list \<Rightarrow> nat \<Rightarrow> nat" where
  "uf_root p x = ((!) p ^^ length p) x"

lemma rpath_hd: "rpath p x xs \<Longrightarrow> xs \<noteq> [] \<and> hd xs = x"
  by (cases rule: rpath.cases) auto

lemma rpath_det: "rpath p x xs \<Longrightarrow> rpath p x ys \<Longrightarrow> xs = ys"
  by (induction arbitrary: ys rule: rpath.induct) (erule rpathE; simp)+

lemma rpath_bound: "rpath p x xs \<Longrightarrow> set xs \<subseteq> {..< length p}"
  by (induction rule: rpath.induct) auto

lemma rpath_last: "rpath p x xs \<Longrightarrow> last xs < length p \<and> p ! last xs = last xs \<and> last xs \<in> set xs"
  by (induction rule: rpath.induct) (auto dest: rpath_hd)

lemma rpath_suffix: "rpath p x xs \<Longrightarrow> y \<in> set xs \<Longrightarrow> \<exists>ys. rpath p y ys \<and> length ys \<le> length xs \<and> last ys = last xs \<and> set ys \<subseteq> set xs"
proof (induction rule: rpath.induct)
  case (step x xs)
  show ?case
  proof (cases "y = x")
    case True
    then show ?thesis using rpath.step [OF step.hyps] by (intro exI [of _ "x # xs"]) auto
  next
    case False
    then obtain ys where "rpath p y ys \<and> length ys \<le> length xs \<and> last ys = last xs \<and> set ys \<subseteq> set xs"
      using step by auto
    then show ?thesis using rpath_hd [OF step.hyps(3)] by (intro exI [of _ ys]) auto
  qed
qed (auto intro!: exI rpath.root)

lemma rpath_distinct: "rpath p x xs \<Longrightarrow> distinct xs"
proof (induction rule: rpath.induct)
  case (step x xs)
  have "x \<notin> set xs"
  proof
    assume "x \<in> set xs"
    then obtain ys where "rpath p x ys" "length ys \<le> length xs" using rpath_suffix [OF step.hyps(3)] by blast
    then show False using rpath_det [OF rpath.step [OF step.hyps]] by fastforce
  qed
  with step show ?case by simp
qed simp

lemma rpath_length: "rpath p x xs \<Longrightarrow> length xs \<le> length p"
  using rpath_distinct rpath_bound distinct_card card_mono [of "{..< length p}" "set xs"] by fastforce

lemma rpath_root_iff: "rpath p x xs \<Longrightarrow> y \<in> set xs \<Longrightarrow> p ! y = y \<longleftrightarrow> y = last xs"
proof (induction rule: rpath.induct)
  case (step x xs)
  have "x \<noteq> last xs" using step.hyps rpath_last [OF step.hyps(3)] by auto
  with step rpath_hd [OF step.hyps(3)] show ?case by auto
qed auto

lemma funpow_root: "p ! r = r \<Longrightarrow> ((!) p ^^ k) r = r"
  by (induction k) simp_all

lemma rpath_funpow: "rpath p x xs \<Longrightarrow> length xs \<le> Suc k \<Longrightarrow> ((!) p ^^ k) x = last xs"
proof (induction arbitrary: k rule: rpath.induct)
  case (root x)
  then show ?case by (simp add: funpow_root)
next
  case (step x xs)
  then obtain k' where k: "k = Suc k'" "length xs \<le> Suc k'" using rpath_hd [OF step.hyps(3)] by (cases k) auto
  then show ?case using step.IH [of k'] rpath_hd [OF step.hyps(3)] by (simp add: funpow_swap1)
qed

lemma rpath_uf_root: "rpath p x xs \<Longrightarrow> uf_root p x = last xs"
  unfolding uf_root_def using rpath_funpow rpath_length by (meson le_SucI)

lemma forest_rpath:
  assumes "forest p" and "x < length p"
  obtains xs where "rpath p x xs" and "last xs = uf_root p x"
  using assms rpath_uf_root unfolding forest_def by metis

lemma uf_root_bound: "forest p \<Longrightarrow> x < length p \<Longrightarrow> uf_root p x < length p \<and> p ! uf_root p x = uf_root p x"
  by (metis forest_rpath rpath_last)

lemma uf_root_idem: "p ! r = r \<Longrightarrow> uf_root p r = r"
  by (simp add: uf_root_def funpow_root)

section \<open>Updates of the array\<close>

text \<open>
  \<open>moves p p' g\<close>: every path of \<open>p\<close> becomes a path of \<open>p'\<close> whose root is renamed by \<open>g\<close>.
\<close>

definition moves :: "nat list \<Rightarrow> nat list \<Rightarrow> (nat \<Rightarrow> nat) \<Rightarrow> bool" where
  "moves p p' g \<longleftrightarrow> length p' = length p \<and> (\<forall>x xs. rpath p x xs \<longrightarrow> (\<exists>ys. rpath p' x ys \<and> last ys = g (last xs)))"

lemma moves_forest:
  assumes "moves p p' g" and "forest p"
  shows "forest p'" and "x < length p \<Longrightarrow> uf_root p' x = g (uf_root p x)"
proof -
  show "forest p'" using assms unfolding moves_def forest_def by metis
  show "x < length p \<Longrightarrow> uf_root p' x = g (uf_root p x)"
    using assms forest_rpath [of p x] rpath_uf_root [of p'] unfolding moves_def by metis
qed

lemma moves_refl: "moves p p (\<lambda>r. r)"
  by (auto simp: moves_def)

lemma moves_trans: "moves p q g \<Longrightarrow> moves q r h \<Longrightarrow> moves p r (\<lambda>x. h (g x))"
  unfolding moves_def by metis

lemma moves_cong: "moves p q g \<Longrightarrow> (\<And>r. p ! r = r \<Longrightarrow> g r = h r) \<Longrightarrow> moves p q h"
  unfolding moves_def using rpath_last by metis

lemma rpath_other: "rpath p x xs \<Longrightarrow> c \<notin> set xs \<Longrightarrow> rpath (p[c := r]) x xs"
  by (induction rule: rpath.induct) (auto intro: rpath.intros)

text \<open>Path compression.\<close>

lemma moves_compress:
  assumes "rpath p c cs"
  shows "moves p (p[c := last cs]) (\<lambda>r. r)"
proof -
  let ?r = "last cs"
  have l: "?r < length p" "p ! ?r = ?r" using rpath_last [OF assms] by auto
  have c: "c < length p" using assms by (cases rule: rpath.cases) auto
  have root: "rpath (p[c := ?r]) ?r [?r]" using l by (cases "?r = c") (auto intro: rpath.root)
  have "\<exists>ys. rpath (p[c := ?r]) x ys \<and> last ys = last xs" if "rpath p x xs" for x xs
    using that
  proof (induction rule: rpath.induct)
    case (root x)
    have "x = c \<Longrightarrow> ?r = c" using rpath_det [OF assms rpath.root] root.hyps by auto
    then have "p[c := ?r] ! x = x" using root.hyps by (cases "x = c") auto
    then show ?case using root.hyps by (intro exI [of _ "[x]"]) (auto intro: rpath.root)
  next
    case (step x xs)
    then obtain ys where ys: "rpath (p[c := ?r]) (p ! x) ys" "last ys = last xs" by blast
    note xs = rpath_hd [OF step.hyps(3)] and y = rpath_hd [OF ys(1)]
    show ?case
    proof (cases "x = c")
      case True
      have e: "last xs = ?r" using rpath_det [OF assms rpath.step [OF step.hyps, unfolded True]] xs by simp
      have "?r \<noteq> c" using step.hyps True l by auto
      then have "rpath (p[c := ?r]) c [c, ?r]" using c root by (auto intro!: rpath.step)
      then show ?thesis using True e xs by (intro exI [of _ "[c, ?r]"]) simp
    next
      case False
      then show ?thesis using step.hyps ys xs y by (intro exI [of _ "x # ys"]) (auto intro: rpath.step)
    qed
  qed
  then show ?thesis by (simp add: moves_def)
qed

text \<open>Linking the root \<open>b\<close> below a node \<open>a\<close> of another tree.\<close>

lemma moves_link:
  assumes b: "b < length p" "p ! b = b" and a: "rpath p a as" "last as \<noteq> b"
  shows "moves p (p[b := a]) (\<lambda>r. if r = b then last as else r)"
proof -
  have keep: "rpath (p[b := a]) x xs" if "rpath p x xs" "last xs \<noteq> b" for x xs
    by (rule rpath_other [OF that(1)]) (use rpath_root_iff [OF that(1), of b] b that in auto)
  have "a \<noteq> b" using a b rpath_det [OF a(1) rpath.root] by fastforce
  then have bp: "rpath (p[b := a]) b (b # as)" using b keep [OF a] by (intro rpath.step) auto
  have "\<exists>ys. rpath (p[b := a]) x ys \<and> last ys = (if last xs = b then last as else last xs)" if "rpath p x xs" for x xs
    using that
  proof (induction rule: rpath.induct)
    case (root x)
    show ?case
    proof (cases "x = b")
      case True
      then show ?thesis using bp rpath_hd [OF a(1)] by (intro exI [of _ "b # as"]) simp
    next
      case False
      then show ?thesis using root by (intro exI [of _ "[x]"]) (auto intro: rpath.root)
    qed
  next
    case (step x xs)
    then obtain ys where ys: "rpath (p[b := a]) (p ! x) ys" "last ys = (if last xs = b then last as else last xs)" by blast
    have "x \<noteq> b" using step.hyps b by auto
    then show ?case
      using step.hyps ys rpath_hd [OF step.hyps(3)] rpath_hd [OF ys(1)] by (intro exI [of _ "x # ys"]) (auto intro: rpath.step)
  qed
  then show ?thesis by (simp add: moves_def)
qed

text \<open>A new node is its own tree.\<close>

lemma forest_snoc:
  assumes "forest p"
  shows "forest (p @ [length p])" and "x < length p \<Longrightarrow> uf_root (p @ [length p]) x = uf_root p x"
    and "uf_root (p @ [length p]) (length p) = length p"
proof -
  let ?p = "p @ [length p]"
  have keep: "rpath ?p x xs" if "rpath p x xs" for x xs
    using that by (induction rule: rpath.induct) (auto intro!: rpath.intros simp: nth_append)
  show "uf_root ?p (length p) = length p" by (simp add: uf_root_idem)
  show "x < length p \<Longrightarrow> uf_root ?p x = uf_root p x"
    using keep assms by (metis forest_rpath rpath_uf_root)
  have "rpath ?p (length p) [length p]" by (rule rpath.root) simp_all
  then show "forest ?p" using keep assms unfolding forest_def by (metis length_append_singleton less_Suc_eq)
qed

section \<open>Reversing the path to the root\<close>

text \<open>
  \<open>relink\<close> is the loop of \<open>reroot_proof\<close> on the edges of a path, from the root downwards: every edge
  \<open>u \<rightarrow> v\<close> becomes \<open>v \<rightarrow> u\<close> and keeps its label.
\<close>

fun relink :: "(nat \<times> nat) list \<Rightarrow> nat list \<Rightarrow> 'j list \<Rightarrow> nat list \<times> 'j list" where
  "relink [] pp j = (pp, j)"
| "relink ((u, v) # es) pp j = relink es (pp[v := u]) (j[v := j ! u])"

lemma relink_append: "relink (es @ fs) pp j = relink fs (fst (relink es pp j)) (snd (relink es pp j))"
  by (induction es pp j rule: relink.induct) simp_all

lemma relink_path:
  assumes "distinct xs" and "set xs \<subseteq> {..< length pp}" and "length j = length pp"
  defines "r \<equiv> relink (rev (zip xs (tl xs))) pp j"
  shows "length (fst r) = length pp \<and> length (snd r) = length pp \<and>
    (\<forall>i. Suc i < length xs \<longrightarrow> fst r ! (xs ! Suc i) = xs ! i \<and> snd r ! (xs ! Suc i) = j ! (xs ! i)) \<and>
    (\<forall>v. v \<notin> set (tl xs) \<longrightarrow> fst r ! v = pp ! v \<and> snd r ! v = j ! v)"
  using assms(1,2) unfolding r_def
proof (induction xs rule: induct_list012)
  case (3 x y ys)
  let ?r = "relink (rev (zip (y # ys) ys)) pp j"
  have IH: "length (fst ?r) = length pp" "length (snd ?r) = length pp"
    "\<And>i. Suc i < length (y # ys) \<Longrightarrow> fst ?r ! ((y # ys) ! Suc i) = (y # ys) ! i \<and> snd ?r ! ((y # ys) ! Suc i) = j ! ((y # ys) ! i)"
    "\<And>v. v \<notin> set ys \<Longrightarrow> fst ?r ! v = pp ! v \<and> snd ?r ! v = j ! v"
    using 3 by auto
  have r: "relink (rev (zip (x # y # ys) (tl (x # y # ys)))) pp j = ((fst ?r)[y := x], (snd ?r)[y := snd ?r ! x])"
    by (simp add: relink_append)
  have ne: "(y # ys) ! Suc i \<noteq> y" if "Suc i < length (y # ys)" for i using that 3(3) by (auto simp: in_set_conv_nth)
  have "(fst ?r)[y := x] ! ((x # y # ys) ! Suc i) = (x # y # ys) ! i \<and>
      (snd ?r)[y := snd ?r ! x] ! ((x # y # ys) ! Suc i) = j ! ((x # y # ys) ! i)" if i: "Suc i < length (x # y # ys)" for i
  proof (cases i)
    case 0
    then show ?thesis using IH(1,2) IH(4) [of x] 3(3,4) by auto
  next
    case (Suc k)
    then show ?thesis using IH(3) [of k] ne [of k] i by simp
  qed
  then show ?case unfolding r using IH(1,2,4) by auto
qed (use assms(3) in simp_all)

lemma rpath_next: "rpath p x xs \<Longrightarrow> Suc i < length xs \<Longrightarrow> p ! (xs ! i) = xs ! Suc i"
proof (induction arbitrary: i rule: rpath.induct)
  case (step x xs)
  then show ?case using rpath_hd [OF step.hyps(3)] by (cases i) (auto simp: hd_conv_nth)
qed simp

text \<open>The array after \<open>reroot_proof\<close>, characterised by the path it reverses.\<close>

definition rerooted :: "nat list \<Rightarrow> 'j list \<Rightarrow> nat \<Rightarrow> nat list \<Rightarrow> nat list \<Rightarrow> 'j list \<Rightarrow> bool" where
  "rerooted pp j x xs qq j' \<longleftrightarrow> rpath pp x xs \<and> length j = length pp \<and>
    (\<exists>pp'. relink (rev (zip xs (tl xs))) pp j = (pp', j') \<and> qq = pp'[x := x])"

lemma reroot_basic:
  assumes R: "rerooted pp j x xs qq j'"
  shows "distinct xs" "set xs \<subseteq> {..< length pp}" "xs ! 0 = x" "0 < length xs" "x < length pp"
proof -
  have path: "rpath pp x xs" using R by (simp add: rerooted_def)
  show "distinct xs" "set xs \<subseteq> {..< length pp}" by (rule rpath_distinct [OF path], rule rpath_bound [OF path])
  have "xs \<noteq> []" "hd xs = x" using rpath_hd [OF path] by auto
  then show "xs ! 0 = x" "0 < length xs" by (auto simp: hd_conv_nth)
  show "x < length pp" using path by (cases rule: rpath.cases) auto
qed

lemma reroot_relink:
  assumes R: "rerooted pp j x xs qq j'"
  shows "length qq = length pp \<and> length j' = length pp" and "v \<notin> set (tl xs) \<Longrightarrow> v \<noteq> x \<Longrightarrow> qq ! v = pp ! v \<and> j' ! v = j ! v"
    and "Suc i < length xs \<Longrightarrow> j' ! (xs ! Suc i) = j ! (xs ! i)"
    and "Suc i < length xs \<Longrightarrow> xs ! Suc i \<noteq> x \<Longrightarrow> qq ! (xs ! Suc i) = xs ! i"
  using relink_path [OF reroot_basic(1,2) [OF R], of j] R unfolding rerooted_def by auto

lemma reroot_on_path:
  assumes R: "rerooted pp j x xs qq j'" and "Suc i < length xs"
  shows "qq ! (xs ! Suc i) = xs ! i" and "j' ! (xs ! Suc i) = j ! (xs ! i)" and "xs ! Suc i \<noteq> xs ! i"
proof -
  show "xs ! Suc i \<noteq> xs ! i" using assms(2) reroot_basic(1) [OF R] by (simp add: nth_eq_iff_index_eq)
  have "xs ! Suc i \<noteq> x" using assms(2) reroot_basic(1,3,4) [OF R] nth_eq_iff_index_eq [of xs "Suc i" 0] by simp
  then show "qq ! (xs ! Suc i) = xs ! i" and "j' ! (xs ! Suc i) = j ! (xs ! i)"
    using reroot_relink(3,4) [OF R assms(2)] by auto
qed

lemma reroot_at_root:
  assumes R: "rerooted pp j x xs qq j'"
  shows "qq ! x = x"
  using reroot_basic(5) [OF R] reroot_relink(1) [OF R] R by (auto simp: rerooted_def)

lemma reroot_off_path:
  assumes R: "rerooted pp j x xs qq j'" and v: "v \<notin> set xs"
  shows "qq ! v = pp ! v \<and> j' ! v = j ! v"
proof -
  have "v \<noteq> x" "v \<notin> set (tl xs)" using v reroot_basic(3,4) [OF R] nth_mem [of 0 xs] by (auto dest: list.set_sel(2))
  then show ?thesis using reroot_relink(2) [OF R] by blast
qed

lemma reroot_back_path:
  assumes R: "rerooted pp j x xs qq j'"
  shows "i < length xs \<Longrightarrow> rpath qq (xs ! i) (rev (take (Suc i) xs))"
proof (induction i)
  case 0
  then show ?case using reroot_basic [OF R] reroot_at_root [OF R] reroot_relink(1) [OF R] by (cases xs) (auto intro!: rpath.root)
next
  case (Suc i)
  have "xs ! Suc i < length qq" using Suc.prems reroot_basic(2) [OF R] reroot_relink(1) [OF R] nth_mem by fastforce
  then have "rpath qq (xs ! Suc i) (xs ! Suc i # rev (take (Suc i) xs))"
    using Suc reroot_on_path [OF R Suc.prems] by (intro rpath.step) auto
  then show ?case using Suc.prems by (simp add: take_Suc_conv_app_nth)
qed

lemma moves_reroot:
  assumes R: "rerooted pp j x xs qq j'"
  shows "moves pp qq (\<lambda>r. if r = last xs then x else r)"
proof -
  have path: "rpath pp x xs" using R by (simp add: rerooted_def)
  have onp: "\<exists>zs. rpath qq y zs \<and> last zs = x" if "y \<in> set xs" for y
  proof -
    obtain i where i: "i < length xs" "y = xs ! i" using \<open>y \<in> set xs\<close> by (metis in_set_conv_nth)
    have "last (rev (take (Suc i) xs)) = x" using reroot_basic(3,4) [OF R] rpath_hd [OF path] by (simp add: last_rev)
    then show ?thesis using reroot_back_path [OF R i(1)] i(2) by blast
  qed
  have "\<exists>zs. rpath qq y zs \<and> last zs = (if last ys = last xs then x else last ys)" if "rpath pp y ys" for y ys
    using that
  proof (induction rule: rpath.induct)
    case (root y)
    show ?case
    proof (cases "y \<in> set xs")
      case True
      then have "y = last xs" using rpath_root_iff [OF path True] root by simp
      then show ?thesis using onp [OF True] by simp
    next
      case False
      then have "y \<noteq> last xs" using rpath_last [OF path] by auto
      then show ?thesis using False root reroot_off_path [OF R False] reroot_relink(1) [OF R] by (intro exI [of _ "[y]"]) (auto intro!: rpath.root)
    qed
  next
    case (step y ys)
    show ?case
    proof (cases "y \<in> set xs")
      case True
      obtain zs where "rpath pp y zs" "last zs = last xs" using rpath_suffix [OF path True] by blast
      then have "last ys = last xs" using rpath_det [OF rpath.step [OF step.hyps]] rpath_hd [OF step.hyps(3)] by force
      then show ?thesis using onp [OF True] rpath_hd [OF step.hyps(3)] by simp
    next
      case False
      obtain zs where zs: "rpath qq (pp ! y) zs" "last zs = (if last ys = last xs then x else last ys)"
        using step.IH by blast
      then have "rpath qq y (y # zs)" using step.hyps reroot_off_path [OF R False] reroot_relink(1) [OF R] by (intro rpath.step) auto
      then show ?thesis using zs rpath_hd [OF zs(1)] rpath_hd [OF step.hyps(3)] by (intro exI [of _ "y # zs"]) auto
    qed
  qed
  then show ?thesis using reroot_relink(1) [OF R] unfolding moves_def by blast
qed

section \<open>Labelled edges\<close>

text \<open>\<open>uedge\<close> forgets the direction of the edges: it is what a reversal keeps.\<close>

definition has_edge :: "nat list \<Rightarrow> 'j list \<Rightarrow> nat \<Rightarrow> nat \<Rightarrow> 'j \<Rightarrow> bool" where
  "has_edge pp j u v l \<longleftrightarrow> u < length pp \<and> u \<noteq> v \<and> pp ! u = v \<and> j ! u = l"

definition uedge :: "nat list \<Rightarrow> 'j list \<Rightarrow> nat \<Rightarrow> nat \<Rightarrow> 'j \<Rightarrow> bool" where
  "uedge pp j u v l \<longleftrightarrow> has_edge pp j u v l \<or> has_edge pp j v u l"

lemma uedge_sym: "uedge pp j u v l \<longleftrightarrow> uedge pp j v u l"
  by (auto simp: uedge_def)

lemma reroot_edge_forward:
  assumes R: "rerooted pp j x xs qq j'" and e: "has_edge pp j u v l"
  shows "uedge qq j' u v l"
proof -
  have path: "rpath pp x xs" using R by (simp add: rerooted_def)
  show ?thesis
  proof (cases "u \<in> set xs")
    case True
    then obtain i where i: "i < length xs" "u = xs ! i" by (metis in_set_conv_nth)
    have "Suc i < length xs"
    proof (rule ccontr)
      assume "\<not> Suc i < length xs"
      then have "u = last xs" using i by (metis Suc_lessI diff_Suc_1 last_conv_nth length_greater_0_conv reroot_basic(4) [OF R])
      then show False using rpath_last [OF path] e by (auto simp: has_edge_def)
    qed
    then show ?thesis
      using reroot_on_path [OF R, of i] rpath_next [OF path] e i reroot_relink(1) [OF R] reroot_basic(2) [OF R] by (auto simp: has_edge_def uedge_def subset_iff)
  next
    case False
    then show ?thesis using reroot_off_path [OF R] e reroot_relink(1) [OF R] by (auto simp: has_edge_def uedge_def)
  qed
qed

lemma reroot_edge_backward:
  assumes R: "rerooted pp j x xs qq j'" and e: "has_edge qq j' u v l"
  shows "uedge pp j u v l"
proof -
  have path: "rpath pp x xs" using R by (simp add: rerooted_def)
  show ?thesis
  proof (cases "u \<in> set xs")
    case True
    then obtain i where i: "i < length xs" "u = xs ! i" by (metis in_set_conv_nth)
    then obtain k where "i = Suc k" using e reroot_at_root [OF R] reroot_basic(3) [OF R] by (cases i) (auto simp: has_edge_def)
    then show ?thesis
      using reroot_on_path [OF R, of k] rpath_next [OF path, of k] e i reroot_basic(2) [OF R] nth_mem [of k xs] by (auto simp: has_edge_def uedge_def)
  next
    case False
    then show ?thesis using reroot_off_path [OF R] e reroot_relink(1) [OF R] by (auto simp: has_edge_def uedge_def)
  qed
qed

lemma uedge_reroot:
  assumes R: "rerooted pp j x xs qq j'"
  shows "uedge qq j' u v l \<longleftrightarrow> uedge pp j u v l"
  using reroot_edge_forward [OF R] reroot_edge_backward [OF R] unfolding uedge_def by metis


lemma uedge_link:
  assumes "b < length pp" and "pp ! b = b" and "length j = length pp" and "a \<noteq> b"
  shows "uedge (pp[b := a]) (j[b := l]) u v k \<longleftrightarrow> uedge pp j u v k \<or> (u = b \<and> v = a \<and> k = l) \<or> (u = a \<and> v = b \<and> k = l)"
  using assms by (auto simp: uedge_def has_edge_def nth_list_update)

text \<open>A walk along edges that \<open>E\<close> allows, as a list of labelled steps.\<close>

fun walk :: "(nat \<Rightarrow> nat \<Rightarrow> 'j \<Rightarrow> bool) \<Rightarrow> nat \<Rightarrow> (nat \<times> nat \<times> 'j) list \<Rightarrow> nat \<Rightarrow> bool" where
  "walk E a [] b \<longleftrightarrow> a = b"
| "walk E a ((u, v, l) # st) b \<longleftrightarrow> u = a \<and> E u v l \<and> walk E v st b"

lemma walk_append: "walk E a st c \<Longrightarrow> walk E c st' b \<Longrightarrow> walk E a (st @ st') b"
  by (induction E a st c rule: walk.induct) auto

lemma walk_rev:
  "walk E a st b \<Longrightarrow> (\<And>u v l. E u v l \<Longrightarrow> E v u l) \<Longrightarrow> walk E b (rev (map (\<lambda>(u, v, l). (v, u, l)) st)) a"
proof (induction E a st b rule: walk.induct)
  case (2 E a u v l st b)
  then have "walk E b (rev (map (\<lambda>(u, v, l). (v, u, l)) st)) v" "E v u l" "u = a" by auto
  then show ?case by (auto intro: walk_append)
qed simp

text \<open>The labelled steps from a node to a node on its path, read off the array.\<close>

lemma rpath_walk:
  assumes "rpath pp x xs" and "c \<in> set xs"
  shows "walk (uedge pp j) x (map (\<lambda>y. (y, pp ! y, j ! y)) (takeWhile (\<lambda>y. y \<noteq> c) xs)) c"
  using assms
proof (induction rule: rpath.induct)
  case (step x xs)
  then show ?case by (auto simp: uedge_def has_edge_def)
qed simp

end
