(* ===== verification/Union_Find.thy ===== *)
theory Union_Find
  imports Semi_Vec Lockstep Forest
begin

text \<open>
  The union-find, \<open>containers/src/union_find.rs\<close>: a representative forest with path compression, a
  saturating rank per node, and, when \<open>PROOFS\<close> is set, a second forest whose edges are the asserted
  equalities with their justifications.  Identifiers are their dense indices, as in the vectors.
\<close>

section \<open>State\<close>

record ('w, 'j, 'q) uf_cfg =
  uc_parent :: "('w inline_store, nat) vec_cfg"
  uc_rank :: "(8 word bool_tagged inline_store, 8 word) vec_cfg"
  uc_just :: "('q inline_store, 'j) vec_cfg"
  uc_jdflt :: 'j
  uc_track :: bool
  uc_proofs :: bool

record ('w, 'j, 'q) union_find =
  uf_parent :: "('w inline_store, nat) vec"
  uf_rank :: "(8 word bool_tagged inline_store, 8 word) vec"
  uf_pproof :: "('w inline_store, nat) vec option"
  uf_just :: "('q inline_store, 'j) vec option"

record uf_token =
  ut_parent :: vec_token
  ut_rank :: vec_token
  ut_pproof :: "vec_token option"
  ut_just :: "vec_token option"

text \<open>The reusable buffers of proof extraction.\<close>

record 'j proof_buf =
  pb_steps :: "(nat \<times> nat \<times> 'j) list"
  pb_path_a :: "nat list"
  pb_path_b :: "nat list"
  pb_seen :: "nat set"
  pb_rev :: "(nat \<times> nat \<times> 'j) list"
  pb_children_a :: "nat list"
  pb_children_b :: "nat list"
  pb_group_a :: "nat list"
  pb_group_b :: "nat list"

definition proof_buf_new :: "'j proof_buf" where
  "proof_buf_new = \<lparr>pb_steps = [], pb_path_a = [], pb_path_b = [], pb_seen = {}, pb_rev = [],
     pb_children_a = [], pb_children_b = [], pb_group_a = [], pb_group_b = []\<rparr>"

definition proof_buf_clear :: "'j proof_buf \<Rightarrow> 'j proof_buf" where
  "proof_buf_clear buf = buf\<lparr>pb_steps := []\<rparr>"

text \<open>\<open>NoJust\<close>, the empty justification, stored as a flagged zero byte.\<close>

definition nojust_tagged :: "(unit, 8 word bool_tagged) tagged_ops" where
  "nojust_tagged = \<lparr>into_repr = (\<lambda>_. bool_tagged_new 0), from_repr = (\<lambda>_. ()), tag = bt_tagged,
     set_tag = (\<lambda>r. r\<lparr>bt_tagged := True\<rparr>), clear_tag = (\<lambda>r. r\<lparr>bt_tagged := False\<rparr>), tg_default = ()\<rparr>"

definition uf_new :: "bool \<Rightarrow> 32 word \<Rightarrow> ('w, 'j, 'q) union_find \<times> 32 word" where
  "uf_new proofs c0 =
    (let (p, c1) = veci_new c0;
         (r, c2) = veci_new c1;
         (pp, c3) = (if proofs then (let (v, c) = veci_new c2 in (Some v, c)) else (None, c2));
         (j, c4) = (if proofs then (let (v, c) = veci_new c3 in (Some v, c)) else (None, c3))
     in (\<lparr>uf_parent = p, uf_rank = r, uf_pproof = pp, uf_just = j\<rparr>, c4))"

section \<open>The operations\<close>

definition uf_len :: "('w, 'j, 'q) uf_cfg \<Rightarrow> ('w, 'j, 'q) union_find \<Rightarrow> nat res" where
  "uf_len U u = vec_len (uc_parent U) (uf_parent u)"

definition uf_is_empty :: "('w, 'j, 'q) uf_cfg \<Rightarrow> ('w, 'j, 'q) union_find \<Rightarrow> bool res" where
  "uf_is_empty U u = vec_is_empty (uc_parent U) (uf_parent u)"

definition uf_make_set :: "('w, 'j, 'q) uf_cfg \<Rightarrow> nat \<Rightarrow> ('w, 'j, 'q) union_find \<Rightarrow> ('w, 'j, 'q) union_find res" where
  "uf_make_set U i u =
    rbind (uf_len U u) (\<lambda>n.
    rbind (rassert (i = n) NotSequential) (\<lambda>_.
    rbind (vec_push (uc_parent U) i (uf_parent u)) (\<lambda>p.
    rbind (vec_push (uc_rank U) 0 (uf_rank u)) (\<lambda>r.
    rbind (case uf_pproof u of None \<Rightarrow> Inr None
           | Some v \<Rightarrow> rbind (vec_push (uc_parent U) i v) (\<lambda>v'. Inr (Some v'))) (\<lambda>pp.
    rbind (case uf_just u of None \<Rightarrow> Inr None
           | Some v \<Rightarrow> rbind (vec_push (uc_just U) (uc_jdflt U) v) (\<lambda>v'. Inr (Some v'))) (\<lambda>j.
    Inr \<lparr>uf_parent = p, uf_rank = r, uf_pproof = pp, uf_just = j\<rparr>))))))"

text \<open>The walk to the root that \<open>find\<close> and \<open>find_const\<close> share.\<close>

fun uf_root_loop :: "nat \<Rightarrow> ('w inline_store, nat) vec_cfg \<Rightarrow> ('w inline_store, nat) vec \<Rightarrow> nat \<Rightarrow> nat res" where
  "uf_root_loop 0 C v cur = Inl Diverge"
| "uf_root_loop (Suc fuel) C v cur =
    rbind (vec_get C cur v) (\<lambda>p. if p = cur then Inr cur else uf_root_loop fuel C v p)"

fun uf_compress :: "nat \<Rightarrow> ('w inline_store, nat) vec_cfg \<Rightarrow> nat \<Rightarrow> nat \<Rightarrow> ('w inline_store, nat) vec \<Rightarrow> ('w inline_store, nat) vec res" where
  "uf_compress 0 C root cur v = Inl Diverge"
| "uf_compress (Suc fuel) C root cur v =
    (if cur = root then Inr v
     else rbind (vec_get C cur v) (\<lambda>p. rbind (vec_set C cur root v) (\<lambda>v'. uf_compress fuel C root p v')))"

definition uf_find :: "('w, 'j, 'q) uf_cfg \<Rightarrow> nat \<Rightarrow> ('w, 'j, 'q) union_find \<Rightarrow> (nat \<times> ('w, 'j, 'q) union_find) res" where
  "uf_find U x u =
    (let fuel = vec_fuel (uc_parent U) (uf_parent u) in
     rbind (uf_root_loop fuel (uc_parent U) (uf_parent u) x) (\<lambda>root.
     rbind (uf_compress fuel (uc_parent U) root x (uf_parent u)) (\<lambda>p.
     Inr (root, u\<lparr>uf_parent := p\<rparr>))))"

definition uf_find_const :: "('w, 'j, 'q) uf_cfg \<Rightarrow> nat \<Rightarrow> ('w, 'j, 'q) union_find \<Rightarrow> nat res" where
  "uf_find_const U x u = uf_root_loop (vec_fuel (uc_parent U) (uf_parent u)) (uc_parent U) (uf_parent u) x"

fun uf_walk_loop :: "nat \<Rightarrow> ('w inline_store, nat) vec_cfg \<Rightarrow> ('w inline_store, nat) vec \<Rightarrow> nat \<Rightarrow> nat list \<Rightarrow> nat list res" where
  "uf_walk_loop 0 C pp cur path = Inl Diverge"
| "uf_walk_loop (Suc fuel) C pp cur path =
    rbind (vec_get C cur pp) (\<lambda>p. if p = cur then Inr path else uf_walk_loop fuel C pp p (path @ [p]))"

definition uf_walk_to_root :: "('w inline_store, nat) vec_cfg \<Rightarrow> ('w inline_store, nat) vec \<Rightarrow> nat \<Rightarrow> nat list \<Rightarrow> nat list res" where
  "uf_walk_to_root C pp x path = uf_walk_loop (vec_fuel C pp) C pp x (path @ [x])"

text \<open>The \<open>for\<close> loop of \<open>reroot_proof\<close> over the pairs \<open>(path[i], path[i + 1])\<close> in descending order.\<close>

fun uf_reroot_loop :: "('w, 'j, 'q) uf_cfg \<Rightarrow> (nat \<times> nat) list \<Rightarrow> ('w inline_store, nat) vec \<Rightarrow> ('q inline_store, 'j) vec \<Rightarrow>
    (('w inline_store, nat) vec \<times> ('q inline_store, 'j) vec) res" where
  "uf_reroot_loop U [] pp j = Inr (pp, j)"
| "uf_reroot_loop U ((parent, child) # es) pp j =
    rbind (vec_set (uc_parent U) child parent pp) (\<lambda>pp'.
    rbind (vec_get (uc_just U) parent j) (\<lambda>l.
    rbind (vec_set (uc_just U) child l j) (\<lambda>j'.
    uf_reroot_loop U es pp' j')))"

definition uf_reroot_proof :: "('w, 'j, 'q) uf_cfg \<Rightarrow> nat \<Rightarrow> ('w inline_store, nat) vec \<Rightarrow> ('q inline_store, 'j) vec \<Rightarrow>
    (('w inline_store, nat) vec \<times> ('q inline_store, 'j) vec) res" where
  "uf_reroot_proof U x pp j =
    rbind (uf_walk_to_root (uc_parent U) pp x []) (\<lambda>path.
    rbind (uf_reroot_loop U (rev (zip path (tl path))) pp j) (\<lambda>(pp', j').
    rbind (vec_set (uc_parent U) x x pp') (\<lambda>pp''. Inr (pp'', j'))))"

definition uf_record_proof :: "('w, 'j, 'q) uf_cfg \<Rightarrow> nat \<Rightarrow> nat \<Rightarrow> 'j option \<Rightarrow> ('w inline_store, nat) vec \<Rightarrow> ('q inline_store, 'j) vec \<Rightarrow>
    (('w inline_store, nat) vec \<times> ('q inline_store, 'j) vec) res" where
  "uf_record_proof U a b just pp j =
    rbind (uf_reroot_proof U b pp j) (\<lambda>(pp1, j1).
    rbind (vec_set (uc_parent U) b a pp1) (\<lambda>pp2.
    rbind (case just of Some l \<Rightarrow> vec_set (uc_just U) b l j1 | None \<Rightarrow> Inr j1) (\<lambda>j2. Inr (pp2, j2))))"

definition uf_choose :: "bool option \<Rightarrow> nat \<Rightarrow> nat \<Rightarrow> 8 word \<Rightarrow> 8 word \<Rightarrow> nat \<times> nat" where
  "uf_choose prefer_a ra rb rank_a rank_b = (case prefer_a of
      None \<Rightarrow> if rank_b \<le> rank_a then (ra, rb) else (rb, ra)
    | Some True \<Rightarrow> (ra, rb)
    | Some False \<Rightarrow> (rb, ra))"

text \<open>The part of \<open>union_inner\<close> behind the early return, for the roots \<open>ra\<close> and \<open>rb\<close>.\<close>

definition uf_link :: "('w, 'j, 'q) uf_cfg \<Rightarrow> nat \<Rightarrow> nat \<Rightarrow> 'j option \<Rightarrow> bool option \<Rightarrow> nat \<Rightarrow> nat \<Rightarrow> ('w, 'j, 'q) union_find \<Rightarrow>
    ((nat \<times> nat) option \<times> ('w, 'j, 'q) union_find) res" where
  "uf_link U a b just prefer_a ra rb u =
    rbind (vec_get (uc_rank U) ra (uf_rank u)) (\<lambda>rank_a.
    rbind (vec_get (uc_rank U) rb (uf_rank u)) (\<lambda>rank_b.
    let (survivor, absorbed) = uf_choose prefer_a ra rb rank_a rank_b in
    rbind (vec_set (uc_parent U) absorbed survivor (uf_parent u)) (\<lambda>p.
    rbind (vec_get (uc_rank U) survivor (uf_rank u)) (\<lambda>rank_surv.
    rbind (vec_get (uc_rank U) absorbed (uf_rank u)) (\<lambda>rank_abs.
    rbind (if rank_surv \<le> rank_abs \<and> rank_abs < 255 then vec_set (uc_rank U) survivor (rank_abs + 1) (uf_rank u)
           else Inr (uf_rank u)) (\<lambda>rk.
    rbind (case (uf_pproof u, uf_just u) of
             (Some pp, Some j) \<Rightarrow> rbind (uf_record_proof U a b just pp j) (\<lambda>(pp', j'). Inr (Some pp', Some j'))
           | _ \<Rightarrow> Inr (uf_pproof u, uf_just u)) (\<lambda>(pp, j).
    Inr (Some (survivor, absorbed), \<lparr>uf_parent = p, uf_rank = rk, uf_pproof = pp, uf_just = j\<rparr>))))))))"

definition uf_union_inner :: "('w, 'j, 'q) uf_cfg \<Rightarrow> nat \<Rightarrow> nat \<Rightarrow> 'j option \<Rightarrow> bool option \<Rightarrow> ('w, 'j, 'q) union_find \<Rightarrow>
    ((nat \<times> nat) option \<times> ('w, 'j, 'q) union_find) res" where
  "uf_union_inner U a b just prefer_a u =
    rbind (uf_find U a u) (\<lambda>(ra, u1).
    rbind (uf_find U b u1) (\<lambda>(rb, u2).
    if ra = rb then Inr (None, u2) else uf_link U a b just prefer_a ra rb u2))"

definition uf_union :: "('w, 'j, 'q) uf_cfg \<Rightarrow> nat \<Rightarrow> nat \<Rightarrow> ('w, 'j, 'q) union_find \<Rightarrow>
    ((nat \<times> nat) option \<times> ('w, 'j, 'q) union_find) res" where
  "uf_union U a b u = rbind (rassert (\<not> uc_proofs U) ProofsRequired) (\<lambda>_. uf_union_inner U a b None None u)"

definition uf_union_justified :: "('w, 'j, 'q) uf_cfg \<Rightarrow> nat \<Rightarrow> nat \<Rightarrow> 'j \<Rightarrow> ('w, 'j, 'q) union_find \<Rightarrow>
    ((nat \<times> nat) option \<times> ('w, 'j, 'q) union_find) res" where
  "uf_union_justified U a b just u = uf_union_inner U a b (Some just) None u"

definition uf_union_directed :: "('w, 'j, 'q) uf_cfg \<Rightarrow> nat \<Rightarrow> nat \<Rightarrow> bool \<Rightarrow> ('w, 'j, 'q) union_find \<Rightarrow>
    ((nat \<times> nat) option \<times> ('w, 'j, 'q) union_find) res" where
  "uf_union_directed U a b prefer_a u =
    rbind (rassert (\<not> uc_proofs U) ProofsRequired) (\<lambda>_. uf_union_inner U a b None (Some prefer_a) u)"

definition uf_union_justified_directed :: "('w, 'j, 'q) uf_cfg \<Rightarrow> nat \<Rightarrow> nat \<Rightarrow> 'j \<Rightarrow> bool \<Rightarrow> ('w, 'j, 'q) union_find \<Rightarrow>
    ((nat \<times> nat) option \<times> ('w, 'j, 'q) union_find) res" where
  "uf_union_justified_directed U a b just prefer_a u = uf_union_inner U a b (Some just) (Some prefer_a) u"

text \<open>The two \<open>while cur != lca\<close> loops of \<open>explain\<close> collect the edges they follow.\<close>

fun uf_explain_loop :: "nat \<Rightarrow> ('w, 'j, 'q) uf_cfg \<Rightarrow> ('w inline_store, nat) vec \<Rightarrow> ('q inline_store, 'j) vec \<Rightarrow> nat \<Rightarrow> nat \<Rightarrow>
    (nat \<times> nat \<times> 'j) list res" where
  "uf_explain_loop 0 U pp j lca cur = Inl Diverge"
| "uf_explain_loop (Suc fuel) U pp j lca cur =
    (if cur = lca then Inr []
     else rbind (vec_get (uc_parent U) cur pp) (\<lambda>parent.
       rbind (vec_get (uc_just U) cur j) (\<lambda>l.
       rbind (uf_explain_loop fuel U pp j lca parent) (\<lambda>es. Inr ((cur, parent, l) # es)))))"

definition uf_explain :: "('w, 'j, 'q) uf_cfg \<Rightarrow> nat \<Rightarrow> nat \<Rightarrow> 'j proof_buf \<Rightarrow> ('w, 'j, 'q) union_find \<Rightarrow> (bool \<times> 'j proof_buf) res" where
  "uf_explain U a b buf u =
    (if \<not> uc_proofs U then Inr (False, buf)
     else rbind (uf_find_const U a u) (\<lambda>ra.
       rbind (uf_find_const U b u) (\<lambda>rb.
       if ra \<noteq> rb then Inr (False, buf)
       else
         rbind (expect UnwrapNone (uf_pproof u)) (\<lambda>pp.
         rbind (expect UnwrapNone (uf_just u)) (\<lambda>j.
         rbind (uf_walk_to_root (uc_parent U) pp a []) (\<lambda>path_a.
         rbind (uf_walk_to_root (uc_parent U) pp b []) (\<lambda>path_b.
         let seen = fold insert path_a {} in
         rbind (uf_find_const U a u) (\<lambda>r.
         let lca = (case List.find (\<lambda>node. node \<in> seen) path_b of Some node \<Rightarrow> node | None \<Rightarrow> r) in
         rbind (uf_explain_loop (vec_fuel (uc_parent U) pp) U pp j lca a) (\<lambda>up.
         rbind (uf_explain_loop (vec_fuel (uc_parent U) pp) U pp j lca b) (\<lambda>down.
         let rev_start = length (pb_rev buf);
             rev' = pb_rev buf @ map (\<lambda>(cur, parent, l). (parent, cur, l)) down
         in Inr (True, buf\<lparr>pb_path_a := path_a, pb_path_b := path_b, pb_seen := seen,
              pb_steps := pb_steps buf @ up @ rev (drop rev_start rev'), pb_rev := take rev_start rev'\<rparr>)))))))))))"

definition opt_vec_mark :: "('s, 't) vec_cfg \<Rightarrow> shrink \<Rightarrow> ('s, 't) vec option \<Rightarrow> (vec_token option \<times> ('s, 't) vec option) res" where
  "opt_vec_mark C sh vo = (case vo of None \<Rightarrow> Inr (None, None)
    | Some v \<Rightarrow> rbind (vec_mark C sh v) (\<lambda>(t, v'). Inr (Some t, Some v')))"

definition opt_vec_restore :: "('s, 't) vec_cfg \<Rightarrow> vec_token option \<Rightarrow> ('s, 't) vec option \<Rightarrow> ('s, 't) vec option res" where
  "opt_vec_restore C t vo = (case (vo, t) of
      (Some v, Some tok) \<Rightarrow> rbind (vec_restore C tok v) (\<lambda>v'. Inr (Some v'))
    | _ \<Rightarrow> Inr vo)"

definition uf_mark :: "('w, 'j, 'q) uf_cfg \<Rightarrow> ((shrink \<times> shrink) \<times> shrink) \<times> shrink \<Rightarrow> ('w, 'j, 'q) union_find \<Rightarrow>
    (uf_token \<times> ('w, 'j, 'q) union_find) res" where
  "uf_mark U sh u =
    rbind (rassert (uc_track U) Untracked) (\<lambda>_.
    rbind (vec_mark (uc_parent U) (fst (fst (fst sh))) (uf_parent u)) (\<lambda>(t1, p).
    rbind (vec_mark (uc_rank U) (snd (fst (fst sh))) (uf_rank u)) (\<lambda>(t2, r).
    rbind (opt_vec_mark (uc_parent U) (snd (fst sh)) (uf_pproof u)) (\<lambda>(t3, pp).
    rbind (opt_vec_mark (uc_just U) (snd sh) (uf_just u)) (\<lambda>(t4, j).
    Inr (\<lparr>ut_parent = t1, ut_rank = t2, ut_pproof = t3, ut_just = t4\<rparr>,
         \<lparr>uf_parent = p, uf_rank = r, uf_pproof = pp, uf_just = j\<rparr>))))))"

definition uf_restore :: "('w, 'j, 'q) uf_cfg \<Rightarrow> uf_token \<Rightarrow> ('w, 'j, 'q) union_find \<Rightarrow> ('w, 'j, 'q) union_find res" where
  "uf_restore U token u =
    rbind (vec_restore (uc_parent U) (ut_parent token) (uf_parent u)) (\<lambda>p.
    rbind (vec_restore (uc_rank U) (ut_rank token) (uf_rank u)) (\<lambda>r.
    rbind (opt_vec_restore (uc_parent U) (ut_pproof token) (uf_pproof u)) (\<lambda>pp.
    rbind (opt_vec_restore (uc_just U) (ut_just token) (uf_just u)) (\<lambda>j.
    Inr \<lparr>uf_parent = p, uf_rank = r, uf_pproof = pp, uf_just = j\<rparr>))))"

section \<open>The invariant\<close>

type_synonym 'j uf_lists = "((nat list \<times> 8 word list) \<times> nat list option) \<times> 'j list option"

text \<open>
  Both arrays are forests over the same nodes, and two nodes are in the same proof tree exactly when
  they have the same representative.  \<open>cap\<close> is the number of identifiers.
\<close>

definition proof_inv :: "nat list \<Rightarrow> nat list \<Rightarrow> 'j list \<Rightarrow> bool" where
  "proof_inv p pp j \<longleftrightarrow> length pp = length p \<and> length j = length p \<and> forest pp \<and>
    (\<forall>x < length p. \<forall>y < length p. uf_root p x = uf_root p y \<longleftrightarrow> uf_root pp x = uf_root pp y)"

definition uf_inv :: "bool \<Rightarrow> nat \<Rightarrow> 'j uf_lists \<Rightarrow> bool" where
  "uf_inv proofs cap = (\<lambda>(((p, rk), ppo), jo). forest p \<and> length rk = length p \<and> length p \<le> cap \<and>
    (case (ppo, jo) of (None, None) \<Rightarrow> \<not> proofs | (Some pp, Some j) \<Rightarrow> proofs \<and> proof_inv p pp j | _ \<Rightarrow> False))"

text \<open>The roots of the representative forest are renamed consistently, so the classes agree.\<close>

lemma proof_inv_find:
  assumes "proof_inv p pp j" and "moves p p' (\<lambda>r. r)" and "forest p"
  shows "proof_inv p' pp j"
  using assms moves_forest(2) [OF assms(2,3)] by (auto simp: proof_inv_def moves_def)

lemma rename_eq:
  assumes "{s, a} = {r1, r2}"
  shows "(if u = a then s else u) = (if v = a then s else v) \<longleftrightarrow> u = v \<or> (u = r1 \<or> u = r2) \<and> (v = r1 \<or> v = r2)"
  using assms by (auto simp: doubleton_eq_iff)

lemma proof_inv_union:
  assumes inv: "proof_inv p pp j" and p: "forest p" and a: "a < length p" and b: "b < length p"
    and mv: "moves p p' (\<lambda>r. if r = absorbed then survivor else r)"
    and sa: "{survivor, absorbed} = {uf_root p a, uf_root p b}"
    and mpp: "moves pp pp' (\<lambda>r. if r = uf_root pp b then uf_root pp a else r)" and lj: "length j' = length p"
  shows "proof_inv p' pp' j'"
proof -
  have pp: "forest pp" "length pp = length p"
    and cl: "\<And>x y. x < length p \<Longrightarrow> y < length p \<Longrightarrow> uf_root p x = uf_root p y \<longleftrightarrow> uf_root pp x = uf_root pp y"
    using inv by (auto simp: proof_inv_def)
  note m = moves_forest [OF mv p] and mp = moves_forest [OF mpp pp(1)]
  have "uf_root p' x = uf_root p' y \<longleftrightarrow> uf_root pp' x = uf_root pp' y" if x: "x < length p" and y: "y < length p" for x y
  proof -
    have "uf_root p' x = uf_root p' y \<longleftrightarrow> uf_root p x = uf_root p y \<or>
        (uf_root p x = uf_root p a \<or> uf_root p x = uf_root p b) \<and> (uf_root p y = uf_root p a \<or> uf_root p y = uf_root p b)"
      unfolding m(2) [OF x] m(2) [OF y] by (rule rename_eq [OF sa])
    moreover have "uf_root pp' x = uf_root pp' y \<longleftrightarrow> uf_root pp x = uf_root pp y \<or>
        (uf_root pp x = uf_root pp a \<or> uf_root pp x = uf_root pp b) \<and> (uf_root pp y = uf_root pp a \<or> uf_root pp y = uf_root pp b)"
      unfolding mp(2) [OF x [folded pp(2)]] mp(2) [OF y [folded pp(2)]] by (rule rename_eq) simp
    ultimately show ?thesis using cl [OF x y] cl [OF x a] cl [OF x b] cl [OF y a] cl [OF y b] by simp
  qed
  then show ?thesis using mp(1) mv mpp pp lj by (simp add: proof_inv_def moves_def)
qed

lemma proof_inv_snoc:
  assumes inv: "proof_inv p pp j" and p: "forest p"
  shows "proof_inv (p @ [length p]) (pp @ [length p]) (j @ [l])"
proof -
  have pp: "forest pp" "length pp = length p" using inv by (auto simp: proof_inv_def)
  note P = forest_snoc [OF p] and Q = forest_snoc [OF pp(1), unfolded pp(2)]
  have "uf_root (p @ [length p]) x = uf_root (p @ [length p]) y \<longleftrightarrow> uf_root (pp @ [length p]) x = uf_root (pp @ [length p]) y"
    if "x < Suc (length p)" "y < Suc (length p)" for x y
  proof -
    have b: "uf_root p z < length p" "uf_root pp z < length p" if "z < length p" for z
      using uf_root_bound [OF p that] uf_root_bound [OF pp(1)] that pp(2) by auto
    have "x < length p \<or> x = length p" "y < length p \<or> y = length p" using that by linarith+
    then show ?thesis
      using P(2,3) Q(2,3) b [of x] b [of y] inv by (elim disjE) (auto simp: proof_inv_def)
  qed
  then show ?thesis using P(1) Q(1) inv pp by (simp add: proof_inv_def)
qed

section \<open>The operations on their vectors\<close>

context semi_vec begin

definition okv :: "('s, 't) vec \<Rightarrow> bool" where
  "okv v \<longleftrightarrow> (\<exists>s. rel v s)"

lemma set_ok:
  assumes "okv v" and "length (cont vals v) \<le> vc_imax C" and "i < length (cont vals v)" and "dom x"
  shows "\<exists>v'. vec_set C i x v = Inr v' \<and> cont vals v' = (cont vals v)[i := x] \<and> okv v' \<and> (vec_upd C dom)\<^sup>*\<^sup>* v v'"
  using assms set_spec upds(2) [OF assms(4)] unfolding okv_def by meson

lemma push_ok:
  assumes "okv v" and "length (cont vals v) \<le> vc_imax C" and "dom x"
  shows "\<exists>v'. vec_push C x v = Inr v' \<and> cont vals v' = cont vals v @ [x] \<and> okv v' \<and> (vec_upd C dom)\<^sup>*\<^sup>* v v'"
  using assms push_spec upds(1) [OF assms(3)] unfolding okv_def by meson

end

locale uf_ops =
  par: semi_vec "uc_parent U" pvals pflag pstale pdom pd +
  rk: semi_vec "uc_rank U" rvals rflag rstale "\<lambda>_. True" rd +
  js: semi_vec "uc_just U" jvals jflag jstale jdom jd
  for U :: "('w, 'j, 'q) uf_cfg" and pvals pflag pstale pdom pd rvals rflag rstale rd jvals jflag jstale jdom jd +
  fixes cap :: nat
  assumes dom_iff: "pdom n \<longleftrightarrow> n < cap"
    and cap_le: "cap \<le> vc_imax (uc_parent U)" "cap \<le> vc_imax (uc_rank U)" "cap \<le> vc_imax (uc_just U)"
    and jd_dom: "jdom (uc_jdflt U)"
    and new_store: "pvals is_new = []" "rvals is_new = []" "jvals is_new = []"
      "\<not> pflag is_new i" "\<not> rflag is_new i" "\<not> jflag is_new i"
begin

abbreviation "P v \<equiv> pvals (v_store v)"
abbreviation "R v \<equiv> rvals (v_store v)"
abbreviation "J v \<equiv> jvals (v_store v)"
abbreviation "psteps \<equiv> (vec_upd (uc_parent U) pdom)\<^sup>*\<^sup>*"
abbreviation "rsteps \<equiv> (vec_upd (uc_rank U) (\<lambda>_. True))\<^sup>*\<^sup>*"
abbreviation "jsteps \<equiv> (vec_upd (uc_just U) jdom)\<^sup>*\<^sup>*"

lemma root_loop: "rpath (P v) x xs \<Longrightarrow> length xs \<le> fuel \<Longrightarrow> uf_root_loop fuel (uc_parent U) v x = Inr (last xs)"
proof (induction arbitrary: fuel rule: rpath.induct)
  case (root x)
  then show ?case by (cases fuel) (auto simp: par.vec_get_val)
next
  case (step x xs)
  then show ?case using rpath_hd [OF step.hyps(3)] by (cases fuel) (auto simp: par.vec_get_val)
qed

lemma root_loop_out: "length (P v) \<le> x \<Longrightarrow> 0 < fuel \<Longrightarrow> uf_root_loop fuel (uc_parent U) v x = Inl IndexOutOfBounds"
  by (cases fuel) (auto simp: par.vec_get_val)

lemma fuel_path: "rpath (P v) x xs \<Longrightarrow> length (P v) \<le> cap \<Longrightarrow> length xs \<le> vec_fuel (uc_parent U) v"
  using par.vec_fuel_gt [OF rpath_length, of v x xs] cap_le(1) by simp

lemma find_const_val: "rpath (P (uf_parent u)) x xs \<Longrightarrow> length (P (uf_parent u)) \<le> cap \<Longrightarrow> uf_find_const U x u = Inr (last xs)"
  unfolding uf_find_const_def by (intro root_loop fuel_path)

lemma compress_ok:
  assumes "rpath (P v) c cs" and "length cs \<le> fuel" and "par.okv v" and "length (P v) \<le> cap"
  shows "\<exists>v'. uf_compress fuel (uc_parent U) (last cs) c v = Inr v' \<and> par.okv v' \<and> psteps v v' \<and> moves (P v) (P v') (\<lambda>r. r)"
  using assms
proof (induction cs arbitrary: c v fuel rule: list.induct)
  case (Cons a cs)
  then obtain f where f: "fuel = Suc f" by (cases fuel) auto
  from Cons.prems(1) show ?case
  proof (cases rule: rpath.cases)
    case root
    then show ?thesis using f Cons.prems by (auto intro: moves_refl)
  next
    case step
    let ?r = "last cs"
    have ne: "cs \<noteq> []" "last (a # cs) = ?r" using step rpath_hd [of "P v" "P v ! c" cs] by auto
    have c: "a = c" "c < length (P v)" "c \<notin> set cs" "c \<noteq> ?r"
      using step rpath_distinct [OF Cons.prems(1)] rpath_last [of "P v" _ cs] by auto
    have r: "pdom ?r" using rpath_last [OF step(4)] step(1) Cons.prems(4) by (auto simp: dom_iff)
    obtain v1 where v1: "vec_set (uc_parent U) c ?r v = Inr v1" "P v1 = (P v)[c := ?r]" "par.okv v1" "psteps v v1"
      using par.set_ok [OF Cons.prems(3) _ c(2) r] Cons.prems(4) cap_le by auto
    have p1: "rpath (P v1) (P v ! c) cs" unfolding v1(2) by (rule rpath_other) (use step c in auto)
    obtain v' where v': "uf_compress f (uc_parent U) ?r (P v ! c) v1 = Inr v'" "par.okv v'" "psteps v1 v'"
      "moves (P v1) (P v') (\<lambda>r. r)" using Cons.IH [OF p1 _ v1(3)] Cons.prems(2,4) f v1(2) by auto
    have m: "moves (P v) (P v1) (\<lambda>r. r)" using moves_compress [OF Cons.prems(1)] ne v1(2) c by simp
    show ?thesis
      using c ne f v1 v' moves_trans [OF m v'(4)] by (auto simp: par.vec_get_val intro: rtranclp_trans)
  qed
qed simp

lemma find_ok:
  assumes "par.okv (uf_parent u)" and "forest (P (uf_parent u))" and "length (P (uf_parent u)) \<le> cap" and x: "x < length (P (uf_parent u))"
  shows "\<exists>v'. uf_find U x u = Inr (uf_root (P (uf_parent u)) x, u\<lparr>uf_parent := v'\<rparr>) \<and> par.okv v' \<and> psteps (uf_parent u) v' \<and>
    moves (P (uf_parent u)) (P v') (\<lambda>r. r)"
proof -
  obtain xs where xs: "rpath (P (uf_parent u)) x xs" "last xs = uf_root (P (uf_parent u)) x"
    using forest_rpath [OF assms(2) x] by blast
  note fu = fuel_path [OF xs(1) assms(3)]
  from compress_ok [OF xs(1) fu assms(1,3)] root_loop [OF xs(1) fu] xs(2) show ?thesis
    by (auto simp: uf_find_def Let_def)
qed

lemma find_out: "length (P (uf_parent u)) \<le> x \<Longrightarrow> uf_find U x u = Inl IndexOutOfBounds"
  using root_loop_out by (simp add: uf_find_def Let_def vec_fuel_def del: uf_root_loop.simps)

lemma walk_loop: "rpath (P v) x xs \<Longrightarrow> length xs \<le> fuel \<Longrightarrow> uf_walk_loop fuel (uc_parent U) v x path = Inr (path @ tl xs)"
proof (induction arbitrary: fuel path rule: rpath.induct)
  case (root x)
  then show ?case by (cases fuel) (auto simp: par.vec_get_val)
next
  case (step x xs)
  moreover have "P v ! x # tl xs = xs" using rpath_hd [OF step.hyps(3)] by (metis list.collapse)
  ultimately show ?case using rpath_hd [OF step.hyps(3)] by (cases fuel) (auto simp: par.vec_get_val)
qed

lemma walk_to_root_val:
  "rpath (P v) x xs \<Longrightarrow> length (P v) \<le> cap \<Longrightarrow> uf_walk_to_root (uc_parent U) v x [] = Inr xs"
  using walk_loop [OF _ fuel_path, of v x xs] rpath_hd [of "P v" x xs] by (cases xs) (auto simp: uf_walk_to_root_def)

lemma reroot_loop_ok:
  assumes "\<forall>(u, v) \<in> set es. u < length (P pp) \<and> v < length (P pp)" and "length (J j) = length (P pp)" and "length (P pp) \<le> cap"
    and "par.okv pp" and "js.okv j"
  shows "\<exists>pp' j'. uf_reroot_loop U es pp j = Inr (pp', j') \<and> par.okv pp' \<and> js.okv j' \<and> psteps pp pp' \<and> jsteps j j' \<and>
    relink es (P pp) (J j) = (P pp', J j')"
  using assms
proof (induction es arbitrary: pp j)
  case (Cons e es)
  obtain u v where e: "e = (u, v)" by (cases e)
  have uv: "u < length (P pp)" "v < length (P pp)" using Cons.prems(1) e by auto
  have du: "pdom u" using uv(1) Cons.prems(3) by (simp add: dom_iff)
  obtain p1 where p1: "vec_set (uc_parent U) v u pp = Inr p1" "P p1 = (P pp)[v := u]" "par.okv p1" "psteps pp p1"
    using par.set_ok [OF Cons.prems(4) _ uv(2) du] Cons.prems(3) cap_le by auto
  obtain j1 where j1: "vec_set (uc_just U) v (J j ! u) j = Inr j1" "J j1 = (J j)[v := J j ! u]" "js.okv j1" "jsteps j j1"
    using js.set_ok [OF Cons.prems(5), of v "J j ! u"] js.get_dom [of u j] uv Cons.prems(2,3) cap_le by auto
  have "\<forall>(u, v) \<in> set es. u < length (P p1) \<and> v < length (P p1)" using Cons.prems(1) p1(2) by simp
  then obtain p2 j2 where r: "uf_reroot_loop U es p1 j1 = Inr (p2, j2)" "par.okv p2" "js.okv j2" "psteps p1 p2" "jsteps j1 j2"
      "relink es (P p1) (J j1) = (P p2, J j2)"
    using Cons.IH [OF _ _ _ p1(3) j1(3)] Cons.prems(2,3) p1(2) j1(2) by auto
  show ?case
    using e uv p1 j1 r Cons.prems(2)
    by (auto simp: js.vec_get_val intro: rtranclp_trans)
qed simp

lemma reroot_proof_ok:
  assumes xs: "rpath (P pp) x xs" and lj: "length (J j) = length (P pp)" and cap: "length (P pp) \<le> cap"
    and ok: "par.okv pp" "js.okv j"
  shows "\<exists>pp' j'. uf_reroot_proof U x pp j = Inr (pp', j') \<and> par.okv pp' \<and> js.okv j' \<and> psteps pp pp' \<and> jsteps j j' \<and>
    rerooted (P pp) (J j) x xs (P pp') (J j')"
proof -
  have "\<forall>(u, v) \<in> set (rev (zip xs (tl xs))). u < length (P pp) \<and> v < length (P pp)"
    using rpath_bound [OF xs] rpath_hd [OF xs] by (auto 0 3 dest: set_zip_leftD set_zip_rightD list.set_sel(2))
  then obtain p1 j1 where r: "uf_reroot_loop U (rev (zip xs (tl xs))) pp j = Inr (p1, j1)" "par.okv p1" "js.okv j1" "psteps pp p1" "jsteps j j1"
      "relink (rev (zip xs (tl xs))) (P pp) (J j) = (P p1, J j1)" using reroot_loop_ok lj cap ok by blast
  have len: "length (P p1) = length (P pp)" using relink_path [OF rpath_distinct [OF xs] rpath_bound [OF xs] lj] r(6) by simp
  have x: "x < length (P pp)" using xs by (cases rule: rpath.cases) auto
  obtain p2 where p2: "vec_set (uc_parent U) x x p1 = Inr p2" "P p2 = (P p1)[x := x]" "par.okv p2" "psteps p1 p2"
    using par.set_ok [OF r(2), of x x] x len cap cap_le by (auto simp: dom_iff)
  show ?thesis
    using walk_to_root_val [OF xs cap] r p2 xs lj by (auto simp: uf_reroot_proof_def rerooted_def intro: rtranclp_trans)
qed

lemma record_proof_ok:
  assumes as: "rpath (P pp) a as" and bs: "rpath (P pp) b bs" and ne: "last as \<noteq> last bs"
    and lj: "length (J j) = length (P pp)" and cap: "length (P pp) \<le> cap" and ok: "par.okv pp" "js.okv j"
    and dj: "pred_option jdom just"
  shows "\<exists>pp' j'. uf_record_proof U a b just pp j = Inr (pp', j') \<and> par.okv pp' \<and> js.okv j' \<and> psteps pp pp' \<and> jsteps j j' \<and>
    moves (P pp) (P pp') (\<lambda>r. if r = last bs then last as else r) \<and> length (J j') = length (P pp) \<and>
    (\<forall>l u v k. just = Some l \<longrightarrow> uedge (P pp') (J j') u v k \<longleftrightarrow>
      uedge (P pp) (J j) u v k \<or> (u = b \<and> v = a \<and> k = l) \<or> (u = a \<and> v = b \<and> k = l))"
proof -
  obtain p1 j1 where r: "uf_reroot_proof U b pp j = Inr (p1, j1)" "par.okv p1" "js.okv j1" "psteps pp p1" "jsteps j j1"
    and R: "rerooted (P pp) (J j) b bs (P p1) (J j1)" using reroot_proof_ok [OF bs lj cap ok] by blast
  have len: "length (P p1) = length (P pp)" "length (J j1) = length (P pp)" using reroot_relink(1) [OF R] by auto
  have b: "b < length (P p1)" "P p1 ! b = b" using reroot_basic(5) [OF R] reroot_at_root [OF R] len by auto
  have a: "a < length (P pp)" using as by (cases rule: rpath.cases) auto
  have bl: "P pp ! b = b \<Longrightarrow> last bs = b" using rpath_det [OF bs rpath.root] reroot_basic(5) [OF R] by auto
  have lb: "last as \<noteq> b" using ne bl rpath_last [OF as] by auto
  obtain as' where as': "rpath (P p1) a as'" "last as' = last as"
    using moves_reroot [OF R] as ne unfolding moves_def by metis
  have ab: "a \<noteq> b" using rpath_det [OF as] bs ne by auto
  have da: "pdom a" using a cap by (simp add: dom_iff)
  obtain p2 where p2: "vec_set (uc_parent U) b a p1 = Inr p2" "P p2 = (P p1)[b := a]" "par.okv p2" "psteps p1 p2"
    using par.set_ok [OF r(2) _ b(1) da] len cap cap_le by auto
  obtain j2 where j2: "(case just of Some l \<Rightarrow> vec_set (uc_just U) b l j1 | None \<Rightarrow> Inr j1) = Inr j2" "js.okv j2" "jsteps j1 j2"
      "J j2 = (case just of Some l \<Rightarrow> (J j1)[b := l] | None \<Rightarrow> J j1)"
  proof (cases just)
    case (Some l)
    then show ?thesis using js.set_ok [OF r(3), of b l] dj b len cap cap_le that by auto
  qed (use r(3) in \<open>auto intro: that\<close>)
  have "moves (P pp) (P p2) (\<lambda>r. if r = last bs then last as else r)"
  proof (rule moves_cong [OF moves_trans [OF moves_reroot [OF R] moves_link [OF b as'(1)], folded p2(2)]])
    show "last as' \<noteq> b" using as'(2) lb by simp
  qed (use bl as'(2) in auto)
  moreover have "uedge (P p2) (J j2) u v k \<longleftrightarrow>
      uedge (P pp) (J j) u v k \<or> (u = b \<and> v = a \<and> k = l) \<or> (u = a \<and> v = b \<and> k = l)" if "just = Some l" for l u v k
    using uedge_link [OF b, of "J j1" a l u v k] uedge_reroot [OF R] len ab p2(2) j2(4) that by simp
  ultimately show ?thesis
    using r p2 j2 len by (auto simp: uf_record_proof_def intro: rtranclp_trans split: option.splits)
qed

definition uok :: "('w, 'j, 'q) union_find \<Rightarrow> bool" where
  "uok u \<longleftrightarrow> par.okv (uf_parent u) \<and> rk.okv (uf_rank u) \<and> pred_option par.okv (uf_pproof u) \<and> pred_option js.okv (uf_just u)"

definition usteps :: "('w, 'j, 'q) union_find \<Rightarrow> ('w, 'j, 'q) union_find \<Rightarrow> bool" where
  "usteps u u' \<longleftrightarrow> psteps (uf_parent u) (uf_parent u') \<and> rsteps (uf_rank u) (uf_rank u') \<and>
    rel_option psteps (uf_pproof u) (uf_pproof u') \<and> rel_option jsteps (uf_just u) (uf_just u')"

definition uview :: "('w, 'j, 'q) union_find \<Rightarrow> 'j uf_lists" where
  "uview u = (((P (uf_parent u), R (uf_rank u)), map_option P (uf_pproof u)), map_option J (uf_just u))"

abbreviation "uinv \<equiv> uf_inv (uc_proofs U) cap"

lemma usteps_trans: "usteps u v \<Longrightarrow> usteps v w \<Longrightarrow> usteps u w"
  unfolding usteps_def by (meson rtranclp_trans rel_option_trans)

lemma usteps_parent: "psteps (uf_parent u) v \<Longrightarrow> usteps u (u\<lparr>uf_parent := v\<rparr>)"
  by (simp add: usteps_def option.rel_refl)

lemma find_step:
  assumes ok: "uok u" and inv: "uinv (uview u)" and x: "x < length (P (uf_parent u))"
  shows "\<exists>v. uf_find U x u = Inr (uf_root (P (uf_parent u)) x, u\<lparr>uf_parent := v\<rparr>) \<and> uok (u\<lparr>uf_parent := v\<rparr>) \<and>
    usteps u (u\<lparr>uf_parent := v\<rparr>) \<and> uinv (uview (u\<lparr>uf_parent := v\<rparr>)) \<and> moves (P (uf_parent u)) (P v) (\<lambda>r. r)"
proof -
  have f: "forest (P (uf_parent u))" "length (P (uf_parent u)) \<le> cap" "par.okv (uf_parent u)"
    using inv ok by (auto simp: uf_inv_def uview_def uok_def)
  obtain v where v: "uf_find U x u = Inr (uf_root (P (uf_parent u)) x, u\<lparr>uf_parent := v\<rparr>)" "par.okv v" "psteps (uf_parent u) v"
    "moves (P (uf_parent u)) (P v) (\<lambda>r. r)" using find_ok [OF f(3,1,2) x] by blast
  have "length (P v) = length (P (uf_parent u))" using v(4) by (simp add: moves_def)
  then have "uinv (uview (u\<lparr>uf_parent := v\<rparr>))"
    using inv moves_forest(1) [OF v(4) f(1)] proof_inv_find [OF _ v(4) f(1)]
    by (auto simp: uf_inv_def uview_def split: option.splits)
  with v ok show ?thesis using usteps_parent by (auto simp: uok_def)
qed

lemma make_set_ok:
  assumes ok: "uok u" and inv: "uinv (uview u)" and n: "length (P (uf_parent u)) < cap"
  shows "\<exists>u'. uf_make_set U (length (P (uf_parent u))) u = Inr u' \<and> uok u' \<and> usteps u u' \<and> uinv (uview u') \<and>
    P (uf_parent u') = P (uf_parent u) @ [length (P (uf_parent u))]"
proof -
  let ?n = "length (P (uf_parent u))"
  have i: "forest (P (uf_parent u))" "length (R (uf_rank u)) = ?n" and d: "pdom ?n"
    using inv n by (auto simp: uf_inv_def uview_def dom_iff)
  obtain p where p: "vec_push (uc_parent U) ?n (uf_parent u) = Inr p" "P p = P (uf_parent u) @ [?n]" "par.okv p" "psteps (uf_parent u) p"
    using par.push_ok [of "uf_parent u" ?n] ok d n cap_le by (auto simp: uok_def)
  obtain r where r: "vec_push (uc_rank U) 0 (uf_rank u) = Inr r" "R r = R (uf_rank u) @ [0]" "rk.okv r" "rsteps (uf_rank u) r"
    using rk.push_ok [of "uf_rank u" 0] ok i n cap_le by (auto simp: uok_def)
  have len: "vec_len (uc_parent U) (uf_parent u) = Inr ?n" using par.vec_len_val [of "uf_parent u"] n cap_le(1) by simp
  show ?thesis
  proof (cases "uf_pproof u")
    case None
    then have j: "uf_just u = None" using inv by (auto simp: uf_inv_def uview_def split: option.splits)
    let ?u = "\<lparr>uf_parent = p, uf_rank = r, uf_pproof = None, uf_just = None\<rparr> :: ('w, 'j, 'q) union_find"
    have "uf_make_set U ?n u = Inr ?u" using None j p(1) r(1) len by (simp add: uf_make_set_def uf_len_def)
    moreover have "uok ?u" "usteps u ?u" using p r None j ok by (simp_all add: uok_def usteps_def)
    moreover have "uinv (uview ?u)" using p(2) r(2) None j i inv n forest_snoc(1) [OF i(1)] by (simp add: uview_def uf_inv_def)
    ultimately show ?thesis using p(2) by auto
  next
    case (Some pv)
    then obtain jv where j: "uf_just u = Some jv" and pi: "proof_inv (P (uf_parent u)) (P pv) (J jv)" "uc_proofs U"
      using inv by (auto simp: uf_inv_def uview_def split: option.splits)
    have l: "length (P pv) = ?n" "length (J jv) = ?n" "forest (P pv)" using pi by (auto simp: proof_inv_def)
    obtain p2 where p2: "vec_push (uc_parent U) ?n pv = Inr p2" "P p2 = P pv @ [?n]" "par.okv p2" "psteps pv p2"
      using par.push_ok [of pv ?n] ok Some d l n cap_le by (auto simp: uok_def)
    obtain j2 where j2: "vec_push (uc_just U) (uc_jdflt U) jv = Inr j2" "J j2 = J jv @ [uc_jdflt U]" "js.okv j2" "jsteps jv j2"
      using js.push_ok [of jv, OF _ _ jd_dom] ok j l n cap_le by (auto simp: uok_def)
    let ?u = "\<lparr>uf_parent = p, uf_rank = r, uf_pproof = Some p2, uf_just = Some j2\<rparr> :: ('w, 'j, 'q) union_find"
    have "proof_inv (P (uf_parent u) @ [?n]) (P pv @ [?n]) (J jv @ [uc_jdflt U])" by (rule proof_inv_snoc [OF pi(1) i(1)])
    then have "uinv (uview ?u)" using p(2) r(2) p2(2) j2(2) i n pi(2) forest_snoc(1) [OF i(1)] by (simp add: uview_def uf_inv_def)
    moreover have "uf_make_set U ?n u = Inr ?u" using Some j p(1) r(1) p2(1) j2(1) len by (simp add: uf_make_set_def uf_len_def)
    moreover have "uok ?u" "usteps u ?u" using p r p2 j2 Some j ok by (simp_all add: uok_def usteps_def)
    ultimately show ?thesis using p(2) by auto
  qed
qed

lemma choose_cases: "{fst (uf_choose pr ra rb ka kb), snd (uf_choose pr ra rb ka kb)} = {ra, rb}"
  by (auto simp: uf_choose_def split: option.splits bool.splits)

lemma record_step:
  assumes ok: "uok u" and inv: "uinv (uview u)" and ab: "a < length (P (uf_parent u))" "b < length (P (uf_parent u))"
    and ne: "uf_root (P (uf_parent u)) a \<noteq> uf_root (P (uf_parent u)) b" and dj: "pred_option jdom just"
    and mv: "moves (P (uf_parent u)) p' (\<lambda>r. if r = ab then sv else r)" and sa: "{sv, ab} = {uf_root (P (uf_parent u)) a, uf_root (P (uf_parent u)) b}"
    and lr: "length rk' = length p'"
  shows "\<exists>ppo jo. (case (uf_pproof u, uf_just u) of
       (Some pp, Some j) \<Rightarrow> rbind (uf_record_proof U a b just pp j) (\<lambda>(pp', j'). Inr (Some pp', Some j'))
     | _ \<Rightarrow> Inr (uf_pproof u, uf_just u)) = Inr (ppo, jo) \<and>
    pred_option par.okv ppo \<and> pred_option js.okv jo \<and> rel_option psteps (uf_pproof u) ppo \<and> rel_option jsteps (uf_just u) jo \<and>
    uinv (((p', rk'), map_option P ppo), map_option J jo) \<and>
    (\<forall>pp j l x y k. uf_pproof u = Some pp \<longrightarrow> uf_just u = Some j \<longrightarrow> just = Some l \<longrightarrow>
      (uedge (P (the ppo)) (J (the jo)) x y k \<longleftrightarrow> uedge (P pp) (J j) x y k \<or> (x = b \<and> y = a \<and> k = l) \<or> (x = a \<and> y = b \<and> k = l)))"
proof -
  let ?p = "P (uf_parent u)"
  have f: "forest ?p" "length ?p \<le> cap" using inv by (auto simp: uf_inv_def uview_def)
  note f' = moves_forest(1) [OF mv f(1)]
  have l': "length p' = length ?p" using mv by (simp add: moves_def)
  show ?thesis
  proof (cases "uf_pproof u")
    case None
    then have "uf_just u = None" "\<not> uc_proofs U" using inv by (auto simp: uf_inv_def uview_def split: option.splits)
    then show ?thesis using None f f' l' lr by (simp add: uf_inv_def)
  next
    case (Some pp)
    then obtain j where j: "uf_just u = Some j" and pi: "proof_inv ?p (P pp) (J j)" "uc_proofs U"
      using inv by (auto simp: uf_inv_def uview_def split: option.splits)
    have l: "length (P pp) = length ?p" "length (J j) = length (P pp)" "forest (P pp)" "length (P pp) \<le> cap"
      and okk: "par.okv pp" "js.okv j" using pi f ok Some j by (auto simp: proof_inv_def uok_def)
    have nr: "uf_root (P pp) a \<noteq> uf_root (P pp) b" using pi(1) ne ab by (simp add: proof_inv_def)
    obtain as where as: "rpath (P pp) a as" "last as = uf_root (P pp) a" using forest_rpath [OF l(3)] ab(1) l(1) by metis
    obtain bs where bs: "rpath (P pp) b bs" "last bs = uf_root (P pp) b" using forest_rpath [OF l(3)] ab(2) l(1) by metis
    have nl: "last as \<noteq> last bs" using nr as(2) bs(2) by simp
    obtain pp' j' where r: "uf_record_proof U a b just pp j = Inr (pp', j')" "par.okv pp'" "js.okv j'" "psteps pp pp'" "jsteps j j'"
      "moves (P pp) (P pp') (\<lambda>r. if r = last bs then last as else r)" "length (J j') = length (P pp)"
      "\<forall>l u v k. just = Some l \<longrightarrow> uedge (P pp') (J j') u v k \<longleftrightarrow>
        uedge (P pp) (J j) u v k \<or> (u = b \<and> v = a \<and> k = l) \<or> (u = a \<and> v = b \<and> k = l)"
      using record_proof_ok [OF as(1) bs(1) nl l(2,4) okk dj] by blast
    have "proof_inv p' (P pp') (J j')"
      by (rule proof_inv_union [OF pi(1) f(1) ab mv sa r(6) [unfolded as(2) bs(2)]]) (use r(7) l(1) in simp)
    then have "uinv (((p', rk'), Some (P pp')), Some (J j'))" using f f' l' lr pi(2) by (simp add: uf_inv_def)
    then show ?thesis using Some j r by (intro exI [of _ "Some pp'"] exI [of _ "Some j'"]) simp
  qed
qed

text \<open>
  What a union of different classes does: one root is absorbed by the other, and, with proofs, the
  asserted equality becomes an edge of the proof forest and no other edge changes.
\<close>

definition union_post :: "nat \<Rightarrow> nat \<Rightarrow> 'j option \<Rightarrow> bool option \<Rightarrow> nat \<times> nat \<Rightarrow> ('w, 'j, 'q) union_find \<Rightarrow> ('w, 'j, 'q) union_find \<Rightarrow> bool" where
  "union_post a b just pref r u u' \<longleftrightarrow>
    {fst r, snd r} = {uf_root (P (uf_parent u)) a, uf_root (P (uf_parent u)) b} \<and>
    (pref = Some True \<longrightarrow> fst r = uf_root (P (uf_parent u)) a) \<and> (pref = Some False \<longrightarrow> fst r = uf_root (P (uf_parent u)) b) \<and>
    length (P (uf_parent u')) = length (P (uf_parent u)) \<and>
    (\<forall>x < length (P (uf_parent u)). uf_root (P (uf_parent u')) x =
      (if uf_root (P (uf_parent u)) x = snd r then fst r else uf_root (P (uf_parent u)) x)) \<and>
    (\<forall>pp j l x y k. uf_pproof u = Some pp \<longrightarrow> uf_just u = Some j \<longrightarrow> just = Some l \<longrightarrow>
      (uedge (P (the (uf_pproof u'))) (J (the (uf_just u'))) x y k \<longleftrightarrow>
        uedge (P pp) (J j) x y k \<or> (x = b \<and> y = a \<and> k = l) \<or> (x = a \<and> y = b \<and> k = l)))"

lemma link_ok:
  assumes ok: "uok u" and inv: "uinv (uview u)" and ab: "a < length (P (uf_parent u))" "b < length (P (uf_parent u))"
    and ne: "uf_root (P (uf_parent u)) a \<noteq> uf_root (P (uf_parent u)) b" and dj: "pred_option jdom just"
  shows "\<exists>r u'. uf_link U a b just pref (uf_root (P (uf_parent u)) a) (uf_root (P (uf_parent u)) b) u = Inr (Some r, u') \<and>
    uok u' \<and> usteps u u' \<and> uinv (uview u') \<and> union_post a b just pref r u u'"
proof -
  let ?p = "P (uf_parent u)" and ?k = "R (uf_rank u)"
  let ?ra = "uf_root ?p a" and ?rb = "uf_root ?p b"
  have f: "forest ?p" "length ?p \<le> cap" "length ?k = length ?p" using inv by (auto simp: uf_inv_def uview_def)
  have rts: "?ra < length ?p" "?p ! ?ra = ?ra" "?rb < length ?p" "?p ! ?rb = ?rb" using uf_root_bound [OF f(1)] ab by auto
  obtain sv ab where c: "uf_choose pref ?ra ?rb (?k ! ?ra) (?k ! ?rb) = (sv, ab)" by (cases "uf_choose pref ?ra ?rb (?k ! ?ra) (?k ! ?rb)")
  have sa: "{sv, ab} = {?ra, ?rb}" using choose_cases [of pref ?ra ?rb "?k ! ?ra" "?k ! ?rb"] c by simp
  then have rt: "sv < length ?p" "?p ! sv = sv" "ab < length ?p" "?p ! ab = ab" "sv \<noteq> ab"
    using rts ne by (auto simp: doubleton_eq_iff)
  have dsv: "pdom sv" using rt f by (simp add: dom_iff)
  obtain p where p: "vec_set (uc_parent U) ab sv (uf_parent u) = Inr p" "P p = ?p[ab := sv]" "par.okv p" "psteps (uf_parent u) p"
    using par.set_ok [OF _ _ rt(3) dsv] ok f cap_le by (auto simp: uok_def)
  have mv: "moves ?p (P p) (\<lambda>r. if r = ab then sv else r)"
    using moves_link [OF rt(3,4) rpath.root [OF rt(1,2)]] rt(5) p(2) by (simp cong: if_cong)
  obtain k where k: "(if ?k ! sv \<le> ?k ! ab \<and> ?k ! ab < 255 then vec_set (uc_rank U) sv (?k ! ab + 1) (uf_rank u) else Inr (uf_rank u)) = Inr k"
    "rk.okv k" "rsteps (uf_rank u) k" "length (R k) = length ?p"
    using rk.set_ok [of "uf_rank u" sv "?k ! ab + 1"] ok f rt cap_le
    by (cases "?k ! sv \<le> ?k ! ab \<and> ?k ! ab < 255") (auto simp: uok_def)
  have "length (R k) = length (P p)" using k(4) p(2) by simp
  then obtain ppo jo where r:
    "(case (uf_pproof u, uf_just u) of
       (Some pp, Some j) \<Rightarrow> rbind (uf_record_proof U a b just pp j) (\<lambda>(pp', j'). Inr (Some pp', Some j'))
     | _ \<Rightarrow> Inr (uf_pproof u, uf_just u)) = Inr (ppo, jo)"
    "pred_option par.okv ppo" "pred_option js.okv jo" "rel_option psteps (uf_pproof u) ppo" "rel_option jsteps (uf_just u) jo"
    "uinv (((P p, R k), map_option P ppo), map_option J jo)"
    "\<forall>pp j l x y k. uf_pproof u = Some pp \<longrightarrow> uf_just u = Some j \<longrightarrow> just = Some l \<longrightarrow>
      (uedge (P (the ppo)) (J (the jo)) x y k \<longleftrightarrow> uedge (P pp) (J j) x y k \<or> (x = b \<and> y = a \<and> k = l) \<or> (x = a \<and> y = b \<and> k = l))"
    using record_step [OF ok inv assms(3,4) ne dj mv sa] by blast
  let ?u = "\<lparr>uf_parent = p, uf_rank = k, uf_pproof = ppo, uf_just = jo\<rparr> :: ('w, 'j, 'q) union_find"
  have "uf_link U a b just pref ?ra ?rb u = Inr (Some (sv, ab), ?u)"
    using rts rt f c p(1) k(1) r(1) by (simp add: uf_link_def rk.vec_get_val)
  moreover have "uok ?u" "usteps u ?u" "uinv (uview ?u)" using p k r by (simp_all add: uok_def usteps_def uview_def)
  moreover have "union_post a b just pref (sv, ab) u ?u"
    using sa c moves_forest(2) [OF mv f(1)] p(2) r(7) by (auto simp: union_post_def uf_choose_def)
  ultimately show ?thesis by blast
qed

lemma union_ok:
  assumes ok: "uok u" and inv: "uinv (uview u)" and ab: "a < length (P (uf_parent u))" "b < length (P (uf_parent u))"
    and dj: "pred_option jdom just"
  shows "\<exists>r u'. uf_union_inner U a b just pref u = Inr (r, u') \<and> uok u' \<and> usteps u u' \<and> uinv (uview u') \<and>
    (case r of None \<Rightarrow> uf_root (P (uf_parent u)) a = uf_root (P (uf_parent u)) b \<and> uf_pproof u' = uf_pproof u \<and> uf_just u' = uf_just u \<and>
        moves (P (uf_parent u)) (P (uf_parent u')) (\<lambda>r. r)
      | Some r \<Rightarrow> uf_root (P (uf_parent u)) a \<noteq> uf_root (P (uf_parent u)) b \<and> union_post a b just pref r u u')"
proof -
  let ?p = "P (uf_parent u)"
  have f: "forest ?p" using inv by (auto simp: uf_inv_def uview_def)
  obtain v1 where A: "uf_find U a u = Inr (uf_root ?p a, u\<lparr>uf_parent := v1\<rparr>)" "uok (u\<lparr>uf_parent := v1\<rparr>)"
    "usteps u (u\<lparr>uf_parent := v1\<rparr>)" "uinv (uview (u\<lparr>uf_parent := v1\<rparr>))" "moves ?p (P v1) (\<lambda>r. r)"
    using find_step [OF ok inv ab(1)] by blast
  have l1: "length (P v1) = length ?p" using A(5) by (simp add: moves_def)
  note m1 = moves_forest [OF A(5) f]
  obtain v2 where B: "uf_find U b (u\<lparr>uf_parent := v1\<rparr>) = Inr (uf_root (P v1) b, u\<lparr>uf_parent := v2\<rparr>)" "uok (u\<lparr>uf_parent := v2\<rparr>)"
    "usteps (u\<lparr>uf_parent := v1\<rparr>) (u\<lparr>uf_parent := v2\<rparr>)" "uinv (uview (u\<lparr>uf_parent := v2\<rparr>))" "moves (P v1) (P v2) (\<lambda>r. r)"
    using find_step [OF A(2,4), of b] ab(2) l1 by auto
  let ?u2 = "u\<lparr>uf_parent := v2\<rparr>"
  have mv: "moves ?p (P v2) (\<lambda>r. r)" using moves_trans [OF A(5) B(5)] .
  have l2: "length (P v2) = length ?p" using mv by (simp add: moves_def)
  have eq: "uf_root (P v2) x = uf_root ?p x" if "x < length ?p" for x using moves_forest(2) [OF mv f that] .
  have rb: "uf_root (P v1) b = uf_root ?p b" using m1(2) [OF ab(2)] .
  have st: "usteps u ?u2" using usteps_trans [OF A(3) B(3)] .
  show ?thesis
  proof (cases "uf_root ?p a = uf_root ?p b")
    case True
    then show ?thesis using A(1) B rb mv st by (auto simp: uf_union_inner_def)
  next
    case False
    obtain r u' where r: "uf_link U a b just pref (uf_root ?p a) (uf_root ?p b) ?u2 = Inr (Some r, u')" "uok u'" "usteps ?u2 u'"
      "uinv (uview u')" "union_post a b just pref r ?u2 u'"
      using link_ok [OF B(2,4), of a b just pref] False ab l2 eq dj by auto
    have "union_post a b just pref r u u'" using r(5) eq ab l2 by (simp add: union_post_def)
    moreover have "uf_union_inner U a b just pref u = Inr (Some r, u')" using A(1) B(1) rb r(1) False by (simp add: uf_union_inner_def)
    ultimately show ?thesis using r usteps_trans [OF st r(3)] False by (intro exI [of _ "Some r"] exI [of _ u']) simp
  qed
qed

text \<open>Explanations.\<close>

lemma explain_loop:
  assumes "rpath (P pp) x xs" and "c \<in> set xs" and "length xs < fuel" and "length (J j) = length (P pp)"
  shows "uf_explain_loop fuel U pp j c x = Inr (map (\<lambda>y. (y, P pp ! y, J j ! y)) (takeWhile (\<lambda>y. y \<noteq> c) xs))"
  using assms
proof (induction arbitrary: fuel rule: rpath.induct)
  case (root x)
  then show ?case by (cases fuel) auto
next
  case (step x xs)
  then obtain f where f: "fuel = Suc f" by (cases fuel) auto
  show ?case
  proof (cases "x = c")
    case False
    then have "uf_explain_loop f U pp j c (P pp ! x) = Inr (map (\<lambda>y. (y, P pp ! y, J j ! y)) (takeWhile (\<lambda>y. y \<noteq> c) xs))"
      using step f by simp
    then show ?thesis using False f step.hyps step.prems by (simp add: par.vec_get_val js.vec_get_val)
  qed (use f in simp)
qed

text \<open>The edges from \<open>a\<close> up to \<open>c\<close> and from there down to \<open>b\<close>, given the paths of both to the root.\<close>

definition climb :: "nat list \<Rightarrow> 'j list \<Rightarrow> nat \<Rightarrow> nat list \<Rightarrow> (nat \<times> nat \<times> 'j) list" where
  "climb q js c xs = map (\<lambda>y. (y, q ! y, js ! y)) (takeWhile (\<lambda>y. y \<noteq> c) xs)"

definition via :: "nat list \<Rightarrow> 'j list \<Rightarrow> nat \<Rightarrow> nat list \<Rightarrow> nat list \<Rightarrow> (nat \<times> nat \<times> 'j) list" where
  "via q js c as bs = climb q js c as @ rev (map (\<lambda>(u, v, l). (v, u, l)) (climb q js c bs))"

lemma via_walk:
  assumes "rpath q a as" and "rpath q b bs" and "c \<in> set as" and "c \<in> set bs"
  shows "walk (uedge q js) a (via q js c as bs) b"
  unfolding via_def climb_def by (rule walk_append [OF rpath_walk [OF assms(1,3)] walk_rev [OF rpath_walk [OF assms(2,4)]]]) (simp add: uedge_sym)

text \<open>What the invariant says of two nodes in the same class.\<close>

lemma proof_paths:
  assumes inv: "uinv (uview u)" and ab: "a < length (P (uf_parent u))" "b < length (P (uf_parent u))"
    and pp: "uf_pproof u = Some pp" and j: "uf_just u = Some j" and eq: "uf_root (P (uf_parent u)) a = uf_root (P (uf_parent u)) b"
  obtains as bs where "rpath (P pp) a as" and "rpath (P pp) b bs" and "last as = last bs"
    and "length as < vec_fuel (uc_parent U) pp" and "length bs < vec_fuel (uc_parent U) pp"
    and "length (J j) = length (P pp)" and "length (P pp) \<le> cap"
proof -
  let ?p = "P (uf_parent u)" and ?q = "P pp"
  have f: "forest ?p" "length ?p \<le> cap" and pi: "proof_inv ?p ?q (J j)" using inv pp j by (auto simp: uf_inv_def uview_def)
  have q: "forest ?q" "length ?q = length ?p" "length (J j) = length ?q" "length ?q \<le> cap" using pi f by (auto simp: proof_inv_def)
  have rq: "uf_root ?q a = uf_root ?q b" using pi ab eq by (simp add: proof_inv_def)
  obtain as where as: "rpath ?q a as" "last as = uf_root ?q a" using forest_rpath [OF q(1)] ab(1) q(2) by metis
  obtain bs where bs: "rpath ?q b bs" "last bs = uf_root ?q b" using forest_rpath [OF q(1)] ab(2) q(2) by metis
  have "length as < vec_fuel (uc_parent U) pp" "length bs < vec_fuel (uc_parent U) pp"
    using par.vec_fuel_gt [OF rpath_length [OF as(1)]] par.vec_fuel_gt [OF rpath_length [OF bs(1)]] q(4) cap_le(1) by auto
  then show thesis using that as bs rq q by auto
qed

lemma find_const_root:
  assumes "uinv (uview u)" and "x < length (P (uf_parent u))"
  shows "uf_find_const U x u = Inr (uf_root (P (uf_parent u)) x)"
proof -
  have f: "forest (P (uf_parent u))" "length (P (uf_parent u)) \<le> cap" using assms(1) by (auto simp: uf_inv_def uview_def)
  obtain xs where "rpath (P (uf_parent u)) x xs" "last xs = uf_root (P (uf_parent u)) x" using forest_rpath [OF f(1) assms(2)] .
  then show ?thesis using find_const_val f(2) by metis
qed

lemma explain_equal:
  assumes inv: "uinv (uview u)" and hp: "uc_proofs U" and ab: "a < length (P (uf_parent u))" "b < length (P (uf_parent u))"
    and pp: "uf_pproof u = Some pp" and j: "uf_just u = Some j" and eq: "uf_root (P (uf_parent u)) a = uf_root (P (uf_parent u)) b"
  obtains as bs c where "rpath (P pp) a as" and "rpath (P pp) b bs" and "List.find (\<lambda>n. n \<in> set as) bs = Some c"
    and "uf_explain U a b buf u = Inr (True, buf\<lparr>pb_path_a := as, pb_path_b := bs, pb_seen := set as,
        pb_steps := pb_steps buf @ via (P pp) (J j) c as bs, pb_rev := pb_rev buf\<rparr>)"
proof -
  obtain as bs where p: "rpath (P pp) a as" "rpath (P pp) b bs" "last as = last bs"
    "length as < vec_fuel (uc_parent U) pp" "length bs < vec_fuel (uc_parent U) pp" "length (J j) = length (P pp)" "length (P pp) \<le> cap"
    using proof_paths [OF inv ab pp j eq] .
  have "last bs \<in> set as" "last bs \<in> set bs" using rpath_last [OF p(1)] rpath_last [OF p(2)] p(3) by auto
  then obtain c where c: "List.find (\<lambda>n. n \<in> set as) bs = Some c" by (metis find_None_iff not_Some_eq)
  then have cs: "c \<in> set as" "c \<in> set bs" by (auto simp: find_Some_iff)
  have "uf_explain U a b buf u = Inr (True, buf\<lparr>pb_path_a := as, pb_path_b := bs, pb_seen := set as,
      pb_steps := pb_steps buf @ via (P pp) (J j) c as bs, pb_rev := pb_rev buf\<rparr>)"
    using hp find_const_root [OF inv ab(1)] find_const_root [OF inv ab(2)] eq pp j walk_to_root_val [OF p(1,7)] walk_to_root_val [OF p(2,7)] c
      explain_loop [OF p(1) cs(1) p(4,6)] explain_loop [OF p(2) cs(2) p(5,6)]
    by (simp add: uf_explain_def Let_def union_set_fold [symmetric] via_def climb_def del: map_map)
  then show thesis using that p(1,2) c by blast
qed

lemma explain_ok:
  assumes inv: "uinv (uview u)" and hp: "uc_proofs U" and ab: "a < length (P (uf_parent u))" "b < length (P (uf_parent u))"
    and pp: "uf_pproof u = Some pp" and j: "uf_just u = Some j"
  shows "\<exists>r buf'. uf_explain U a b buf u = Inr (r, buf') \<and> pb_rev buf' = pb_rev buf \<and>
    (if uf_root (P (uf_parent u)) a = uf_root (P (uf_parent u)) b
     then r \<and> (\<exists>st. pb_steps buf' = pb_steps buf @ st \<and> walk (uedge (P pp) (J j)) a st b)
     else \<not> r \<and> buf' = buf)"
proof (cases "uf_root (P (uf_parent u)) a = uf_root (P (uf_parent u)) b")
  case False
  then show ?thesis using find_const_root [OF inv ab(1)] find_const_root [OF inv ab(2)] hp by (auto simp: uf_explain_def)
next
  case True
  obtain as bs c where p: "rpath (P pp) a as" "rpath (P pp) b bs" "List.find (\<lambda>n. n \<in> set as) bs = Some c"
    "uf_explain U a b buf u = Inr (True, buf\<lparr>pb_path_a := as, pb_path_b := bs, pb_seen := set as,
        pb_steps := pb_steps buf @ via (P pp) (J j) c as bs, pb_rev := pb_rev buf\<rparr>)"
    using explain_equal [OF inv hp ab pp j True] .
  have "c \<in> set as" "c \<in> set bs" using p(3) by (auto simp: find_Some_iff)
  then show ?thesis using p(4) True via_walk [OF p(1,2)] by auto
qed

end

section \<open>Marks and restores\<close>

inductive uf_upd :: "('w, 'j, 'q) uf_cfg \<Rightarrow> nat \<Rightarrow> ('j \<Rightarrow> bool) \<Rightarrow> ('w, 'j, 'q) union_find \<Rightarrow> ('w, 'j, 'q) union_find \<Rightarrow> bool" for U cap okj where
  make_set: "uf_make_set U i u = Inr u' \<Longrightarrow> i < cap \<Longrightarrow> uf_upd U cap okj u u'"
| find: "uf_find U x u = Inr (r, u') \<Longrightarrow> uf_upd U cap okj u u'"
| union: "uf_union U a b u = Inr (r, u') \<Longrightarrow> uf_upd U cap okj u u'"
| justified: "okj l \<Longrightarrow> uf_union_justified U a b l u = Inr (r, u') \<Longrightarrow> uf_upd U cap okj u u'"
| directed: "uf_union_directed U a b d u = Inr (r, u') \<Longrightarrow> uf_upd U cap okj u u'"
| justified_directed: "okj l \<Longrightarrow> uf_union_justified_directed U a b l d u = Inr (r, u') \<Longrightarrow> uf_upd U cap okj u u'"

text \<open>No operation changes the identity of a vector.\<close>

definition uf_ids :: "('w, 'j, 'q) union_find \<Rightarrow> 32 word \<times> 32 word \<times> 32 word option \<times> 32 word option" where
  "uf_ids u = (v_id (uf_parent u), v_id (uf_rank u), map_option v_id (uf_pproof u), map_option v_id (uf_just u))"

lemma compress_ids: "uf_compress fuel C root cur v = Inr v' \<Longrightarrow> v_id v' = v_id v"
  by (induction fuel C root cur v rule: uf_compress.induct) (auto simp: vec_ids elim!: rbind_eq_InrE split: if_splits)

lemma find_ids: "uf_find U x u = Inr (r, u') \<Longrightarrow> uf_ids u' = uf_ids u"
  by (auto simp: uf_find_def uf_ids_def Let_def compress_ids elim!: rbind_eq_InrE)

lemma reroot_loop_ids: "uf_reroot_loop U es pp j = Inr (pp', j') \<Longrightarrow> v_id pp' = v_id pp \<and> v_id j' = v_id j"
  by (induction U es pp j rule: uf_reroot_loop.induct) (auto simp: vec_ids elim!: rbind_eq_InrE)

lemma record_proof_ids: "uf_record_proof U a b just pp j = Inr (pp', j') \<Longrightarrow> v_id pp' = v_id pp \<and> v_id j' = v_id j"
  by (auto simp: uf_record_proof_def uf_reroot_proof_def vec_ids dest!: reroot_loop_ids elim!: rbind_eq_InrE split: option.splits)

lemma link_ids: "uf_link U a b just pref ra rb u = Inr (r, u') \<Longrightarrow> uf_ids u' = uf_ids u"
  by (auto simp: uf_link_def uf_ids_def vec_ids dest!: record_proof_ids elim!: rbind_eq_InrE split: option.splits if_splits prod.splits)

lemma union_inner_ids: "uf_union_inner U a b just pref u = Inr (r, u') \<Longrightarrow> uf_ids u' = uf_ids u"
  by (auto simp: uf_union_inner_def find_ids link_ids elim!: rbind_eq_InrE split: if_splits)

lemma uf_upd_ids: "uf_upd U cap okj u u' \<Longrightarrow> uf_ids u' = uf_ids u"
proof (induction rule: uf_upd.induct)
  case (make_set i u u')
  then show ?case by (auto simp: uf_make_set_def uf_ids_def vec_ids elim!: rbind_eq_InrE split: option.splits)
next
  case (find x u r u')
  then show ?case by (rule find_ids)
next
  case (union a b u r u')
  then show ?case using union_inner_ids by (auto simp: uf_union_def elim!: rbind_eq_InrE)
next
  case (justified l a b u r u')
  then show ?case using union_inner_ids by (auto simp: uf_union_justified_def)
next
  case (directed a b d u r u')
  then show ?case using union_inner_ids by (auto simp: uf_union_directed_def elim!: rbind_eq_InrE)
next
  case (justified_directed l a b d u r u')
  then show ?case using union_inner_ids by (auto simp: uf_union_justified_directed_def)
qed

definition uf_part where "uf_part u = (((uf_parent u, uf_rank u), uf_pproof u), uf_just u)"

definition uf_tok where "uf_tok t = (((ut_parent t, ut_rank t), ut_pproof t), ut_just t)"

definition uf_fresh :: "bool \<Rightarrow> ('w, 'j, 'q) union_find \<Rightarrow> bool" where
  "uf_fresh proofs u \<longleftrightarrow> (\<exists>counter. u = fst (uf_new proofs counter))"

context uf_ops begin

lemma union_inner_bound:
  assumes "uok u" and "uinv (uview u)" and "uf_union_inner U a b just pref u = Inr r"
  shows "a < length (P (uf_parent u))" and "b < length (P (uf_parent u))"
proof -
  show a: "a < length (P (uf_parent u))" using assms(3) find_out [of u a] by (cases "a < length (P (uf_parent u))") (auto simp: uf_union_inner_def)
  obtain v where v: "uf_find U a u = Inr (uf_root (P (uf_parent u)) a, u\<lparr>uf_parent := v\<rparr>)" "moves (P (uf_parent u)) (P v) (\<lambda>r. r)"
    using find_step [OF assms(1,2) a] by blast
  have "length (P v) = length (P (uf_parent u))" using v(2) by (simp add: moves_def)
  then show "b < length (P (uf_parent u))"
    using assms(3) v(1) find_out [of "u\<lparr>uf_parent := v\<rparr>" b] by (cases "b < length (P (uf_parent u))") (auto simp: uf_union_inner_def)
qed

lemma upd_keeps:
  assumes ok: "uok u" and inv: "uinv (uview u)" and u: "uf_upd U cap jdom u u'"
  shows "usteps u u' \<and> uinv (uview u')"
proof -
  have un: "usteps u u' \<and> uinv (uview u')" if e: "uf_union_inner U a b just pref u = Inr (r, u')" and d: "pred_option jdom just" for a b just pref r
    using union_ok [OF ok inv union_inner_bound [OF ok inv e] d, of pref] e by auto
  from u show ?thesis
  proof cases
    case (make_set i)
    then have n: "i = length (P (uf_parent u))" by (auto simp: uf_make_set_def uf_len_def par.vec_len_Inr elim!: rbind_eq_InrE)
    show ?thesis using make_set_ok [OF ok inv] make_set n by auto
  next
    case (find x r)
    then have "x < length (P (uf_parent u))" using find_out [of u x] by (cases "x < length (P (uf_parent u))") auto
    then show ?thesis using find_step [OF ok inv] find by force
  next
    case (union a b r)
    then show ?thesis by (intro un) (auto simp: uf_union_def elim!: rbind_eq_InrE)
  next
    case (justified l a b r)
    then show ?thesis using un [of a b "Some l" None r] by (simp add: uf_union_justified_def)
  next
    case (directed a b d r)
    then show ?thesis by (intro un) (auto simp: uf_union_directed_def elim!: rbind_eq_InrE)
  next
    case (justified_directed l a b d r)
    then show ?thesis using un [of a b "Some l" "Some d" r] by (simp add: uf_union_justified_directed_def)
  qed
qed

lemma is_composite: "composite
  (\<lambda>c. (((vec_fresh pflag (fst (fst (fst c))) \<and> vec_fresh rflag (snd (fst (fst c)))) \<and> pred_option (vec_fresh pflag) (snd (fst c)))) \<and> pred_option (vec_fresh jflag) (snd c))
  (opt_upd (opt_upd (pair_upd (vec_upd (uc_parent U) pdom) (vec_upd (uc_rank U) (\<lambda>_. True))) (vec_upd (uc_parent U) pdom)) (vec_upd (uc_just U) jdom))
  (opt_mk (opt_mk (pair_mk (vec_mark (uc_parent U)) (vec_mark (uc_rank U))) (vec_mark (uc_parent U))) (vec_mark (uc_just U)))
  (opt_rst (opt_rst (pair_rst (vec_restore (uc_parent U)) (vec_restore (uc_rank U))) (vec_restore (uc_parent U))) (vec_restore (uc_just U)))
  (\<lambda>c. (((P (fst (fst (fst c))), R (snd (fst (fst c)))), map_option P (snd (fst c))), map_option J (snd c)))
  (\<lambda>t. branch_id (fst (fst (fst t)))) (\<lambda>t. depth (fst (fst (fst t)))) (\<lambda>c. v_forks (fst (fst (fst c))))
  (opt_rel (opt_rel (pair_rel par.rel rk.rel v_forks v_forks) par.rel (\<lambda>c. v_forks (fst c)) v_forks) js.rel (\<lambda>c. v_forks (fst (fst c))) v_forks)
  (opt_good (opt_good (pair_good vec_good vec_good branch_id depth branch_id depth) vec_good (\<lambda>t. branch_id (fst t)) (\<lambda>t. depth (fst t)) branch_id depth)
    vec_good (\<lambda>t. branch_id (fst (fst t))) (\<lambda>t. depth (fst (fst t))) branch_id depth)
  (uf_fresh (uc_proofs U)) (uf_upd U cap jdom) (uf_mark U) (uf_restore U) uf_part uf_tok uinv"
  (is "composite ?F ?U ?M ?Rs ?V ?br ?dp ?fk ?rel ?good _ _ _ _ _ _ _")
proof (intro composite.intro composite_axioms.intro)
  show "checkpointed ?F ?U ?M ?Rs ?V ?br ?dp ?fk ?rel ?good"
    using optional_checkpointed [OF optional_checkpointed [OF pair_checkpointed [OF par.is_checkpointed rk.is_checkpointed] par.is_checkpointed] js.is_checkpointed]
    by simp
  fix c c' and s and t sh and u and x
  show "uf_fresh (uc_proofs U) c \<Longrightarrow> ?F (uf_part c) \<and> uinv (?V (uf_part c))"
    using new_store
    by (cases "uc_proofs U") (auto simp: uf_fresh_def uf_new_def veci_new_def uf_part_def vec_fresh_def uf_inv_def proof_inv_def forest_def
        vec_with_store_def container_id_new_def Let_def)
  show "uf_upd U cap jdom c c' \<Longrightarrow> ?good (uf_part c) u \<Longrightarrow> ?good (uf_part c') u"
    using uf_upd_ids [of U cap jdom c c']
    by (cases "uf_pproof c"; cases "uf_pproof c'"; cases "uf_just c"; cases "uf_just c'"; cases "snd u"; cases "snd (fst u)")
      (simp_all add: opt_good_def pair_good_def uf_part_def vec_good_def uf_ids_def)
  show "?U\<^sup>*\<^sup>* (uf_part c) (uf_part c') \<and> uinv (?V (uf_part c'))"
    if "?rel (uf_part c) s" "uinv (?V (uf_part c))" "uf_upd U cap jdom c c'"
  proof -
    have "uok c" using that(1)
      by (cases "uf_pproof c"; cases "uf_just c")
        (auto simp: uok_def uf_part_def opt_rel_def pair_rel_def par.okv_def rk.okv_def js.okv_def)
    then have "usteps c c' \<and> uinv (uview c')" using upd_keeps that(2,3) by (simp add: uview_def uf_part_def)
    then show ?thesis by (auto simp: usteps_def uview_def uf_part_def intro!: opt_updI pair_updI)
  qed
  show "uf_mark U sh c = Inr (t, c') \<Longrightarrow> \<exists>n. ?M n (uf_part c) = Inr (uf_tok t, uf_part c') \<and> ?V (uf_part c') = ?V (uf_part c)"
    by (intro exI [of _ sh])
      (auto simp: uf_mark_def opt_vec_mark_def opt_mk_eq_Inr pair_mk_eq_Inr uf_part_def uf_tok_def par.mark_cont rk.mark_cont js.mark_cont
        elim!: rbind_eq_InrE split: prod.splits option.splits)
  show "uf_restore U t c = Inr c' \<Longrightarrow> ?Rs (uf_tok t) (uf_part c) = Inr (uf_part c')"
    by (auto simp: uf_restore_def opt_vec_restore_def opt_rst_eq_Inr pair_rst_eq_Inr uf_part_def uf_tok_def elim!: rbind_eq_InrE split: option.splits)
  show "?Rs (uf_tok t) (uf_part c) = Inr x \<Longrightarrow> \<exists>c'. uf_restore U t c = Inr c'"
    by (auto simp: uf_restore_def opt_vec_restore_def opt_rst_eq_Inr pair_rst_eq_Inr uf_part_def uf_tok_def split: option.splits)
qed

end

sublocale uf_ops \<subseteq> cmp: composite
  "\<lambda>c. (((vec_fresh pflag (fst (fst (fst c))) \<and> vec_fresh rflag (snd (fst (fst c)))) \<and> pred_option (vec_fresh pflag) (snd (fst c)))) \<and> pred_option (vec_fresh jflag) (snd c)"
  "opt_upd (opt_upd (pair_upd (vec_upd (uc_parent U) pdom) (vec_upd (uc_rank U) (\<lambda>_. True))) (vec_upd (uc_parent U) pdom)) (vec_upd (uc_just U) jdom)"
  "opt_mk (opt_mk (pair_mk (vec_mark (uc_parent U)) (vec_mark (uc_rank U))) (vec_mark (uc_parent U))) (vec_mark (uc_just U))"
  "opt_rst (opt_rst (pair_rst (vec_restore (uc_parent U)) (vec_restore (uc_rank U))) (vec_restore (uc_parent U))) (vec_restore (uc_just U))"
  "\<lambda>c. (((P (fst (fst (fst c))), R (snd (fst (fst c)))), map_option P (snd (fst c))), map_option J (snd c))"
  "\<lambda>t. branch_id (fst (fst (fst t)))" "\<lambda>t. depth (fst (fst (fst t)))" "\<lambda>c. v_forks (fst (fst (fst c)))"
  "opt_rel (opt_rel (pair_rel par.rel rk.rel v_forks v_forks) par.rel (\<lambda>c. v_forks (fst c)) v_forks) js.rel (\<lambda>c. v_forks (fst (fst c))) v_forks"
  "opt_good (opt_good (pair_good vec_good vec_good branch_id depth branch_id depth) vec_good (\<lambda>t. branch_id (fst t)) (\<lambda>t. depth (fst t)) branch_id depth)
    vec_good (\<lambda>t. branch_id (fst (fst t))) (\<lambda>t. depth (fst (fst t))) branch_id depth"
  "uf_fresh (uc_proofs U)" "uf_upd U cap jdom" "uf_mark U" "uf_restore U" uf_part uf_tok uinv "\<lambda>v. v"
  by (rule is_composite)

context uf_ops begin

abbreviation "ugood \<equiv> \<lambda>c t. opt_good (opt_good (pair_good vec_good vec_good branch_id depth branch_id depth) vec_good (\<lambda>t. branch_id (fst t)) (\<lambda>t. depth (fst t)) branch_id depth)
    vec_good (\<lambda>t. branch_id (fst (fst t))) (\<lambda>t. depth (fst (fst t))) branch_id depth (uf_part c) (uf_tok t)"

lemma crel_uok: "cmp.crel c snaps \<Longrightarrow> uok c \<and> uinv (uview c)"
  by (cases "uf_pproof c"; cases "uf_just c")
    (auto simp: cmp.crel_def uok_def uview_def uf_part_def opt_rel_def pair_rel_def par.okv_def rk.okv_def js.okv_def)

lemma uf_checkpointed:
  "checkpointed (uf_fresh (uc_proofs U)) (uf_upd U cap jdom) (uf_mark U) (uf_restore U) uview
    (\<lambda>t. branch_id (ut_parent t)) (\<lambda>t. depth (ut_parent t)) (\<lambda>c. v_forks (uf_parent c)) cmp.crel ugood"
  using cmp.composite_checkpointed by (simp add: uf_part_def uf_tok_def uview_def [abs_def])

end

text \<open>Union-finds over 31-bit identifiers and justifications of any \<open>Tagged\<close> type.\<close>

definition uf31_cfg :: "('j, 'q) tagged_ops \<Rightarrow> bool \<Rightarrow> bool \<Rightarrow> (32 word, 'j, 'q) uf_cfg" where
  "uf31_cfg T track proofs = \<lparr>uc_parent = veci_cfg id31 track (2 ^ 32 - 1), uc_rank = veci_cfg (bool_tagged_ops 0) track (2 ^ 32 - 1),
     uc_just = veci_cfg T track (2 ^ 32 - 1), uc_jdflt = tg_default T, uc_track = track, uc_proofs = proofs\<rparr>"

lemma uf31_ops:
  assumes T: "tagged_repr T jdom"
  shows "uf_ops (uf31_cfg T track proofs) (is_vals id31) (is_flag id31) (is_flag id31) (id_nat_dom TYPE(32)) (tg_default id31)
    (is_vals (bool_tagged_ops 0)) (is_flag (bool_tagged_ops 0)) (is_flag (bool_tagged_ops 0)) (tg_default (bool_tagged_ops 0))
    (is_vals T) (is_flag T) (is_flag T) jdom (tg_default T) (2 ^ 31)"
proof (intro uf_ops.intro uf_ops_axioms.intro)
  show "semi_vec (uc_parent (uf31_cfg T track proofs)) (is_vals id31) (is_flag id31) (is_flag id31) (id_nat_dom TYPE(32)) (tg_default id31)"
    unfolding uf31_cfg_def uf_cfg.simps by (rule id31_t.veci_semi_vec)
  show "semi_vec (uc_rank (uf31_cfg T track proofs)) (is_vals (bool_tagged_ops 0)) (is_flag (bool_tagged_ops 0)) (is_flag (bool_tagged_ops 0))
      (\<lambda>_. True) (tg_default (bool_tagged_ops 0))"
    unfolding uf31_cfg_def uf_cfg.simps by (rule bt.veci_semi_vec)
  show "semi_vec (uc_just (uf31_cfg T track proofs)) (is_vals T) (is_flag T) (is_flag T) jdom (tg_default T)"
    unfolding uf31_cfg_def uf_cfg.simps by (rule tagged_repr.veci_semi_vec [OF T])
  show "jdom (uc_jdflt (uf31_cfg T track proofs))" using tagged_repr.dom_default [OF T] by (simp add: uf31_cfg_def)
qed (simp_all add: uf31_cfg_def veci_cfg_def id_nat_dom_def is_vals_def is_flag_def is_new_def)

interpretation nojust_t: tagged_repr nojust_tagged "\<lambda>_. True"
  by unfold_locales (auto simp: nojust_tagged_def bool_tagged_new_def)

interpretation uf31: uf_ops "uf31_cfg nojust_tagged track proofs" "is_vals id31" "is_flag id31" "is_flag id31" "id_nat_dom TYPE(32)" "tg_default id31"
  "is_vals (bool_tagged_ops 0)" "is_flag (bool_tagged_ops 0)" "is_flag (bool_tagged_ops 0)" "tg_default (bool_tagged_ops 0)"
  "is_vals nojust_tagged" "is_flag nojust_tagged" "is_flag nojust_tagged" "\<lambda>_. True" "tg_default nojust_tagged" "2 ^ 31"
  for track proofs by (rule uf31_ops [OF nojust_t.tagged_repr_axioms])

section \<open>Properties\<close>

abbreviation uf31_parents :: "(32 word, 'j, 'q) union_find \<Rightarrow> nat list" where
  "uf31_parents u \<equiv> is_vals id31 (v_store (uf_parent u))"

text \<open>The representative of a node, and the labelled edges of the proof forest without their direction.\<close>

abbreviation uf31_rep :: "(32 word, 'j, 'q) union_find \<Rightarrow> nat \<Rightarrow> nat" where
  "uf31_rep u \<equiv> uf_root (uf31_parents u)"

abbreviation uf31_edge :: "('j, 'q) tagged_ops \<Rightarrow> (32 word, 'j, 'q) union_find \<Rightarrow> nat \<Rightarrow> nat \<Rightarrow> 'j \<Rightarrow> bool" where
  "uf31_edge T u \<equiv> uedge (is_vals id31 (v_store (the (uf_pproof u)))) (is_vals T (v_store (the (uf_just u))))"

abbreviation uf31_view :: "('j, 'q) tagged_ops \<Rightarrow> (32 word, 'j, 'q) union_find \<Rightarrow> 'j uf_lists" where
  "uf31_view T u \<equiv> (((uf31_parents u, is_vals (bool_tagged_ops 0) (v_store (uf_rank u))),
     map_option (\<lambda>v. is_vals id31 (v_store v)) (uf_pproof u)), map_option (\<lambda>v. is_vals T (v_store v)) (uf_just u))"

abbreviation uf31_session where
  "uf31_session T okj track proofs \<equiv> session (uf_fresh proofs) (uf_upd (uf31_cfg T track proofs) (2 ^ 31) okj)
    (uf_mark (uf31_cfg T track proofs)) (uf_restore (uf31_cfg T track proofs)) (uf31_view T) (\<lambda>t. depth (ut_parent t))"

lemma uf31_view_eq:
  assumes "tagged_repr T okj"
  shows "uf_ops.uview (is_vals id31) (is_vals (bool_tagged_ops 0)) (is_vals T) u = uf31_view T u"
  by (rule uf_ops.uview_def [OF uf31_ops [OF assms]])

lemma uf31_proofs [simp]: "uc_proofs (uf31_cfg T track proofs) = proofs"
  by (simp add: uf31_cfg_def)

lemmas uf31_checkpointed = uf_ops.uf_checkpointed [OF uf31_ops, unfolded uf31_proofs]

lemma uf31_session_inv:
  assumes T: "tagged_repr T okj" and s: "uf31_session T okj track proofs u issued st co"
  shows "uf_ops.uok (uf31_cfg T track proofs) (is_vals id31) (is_flag id31) (id_nat_dom TYPE(32))
      (is_vals (bool_tagged_ops 0)) (is_flag (bool_tagged_ops 0)) (is_vals T) (is_flag T) okj u"
    and "uf_inv proofs (2 ^ 31) (uf31_view T u)"
proof -
  note v = uf31_view_eq [OF T]
  have s': "session (uf_fresh proofs) (uf_upd (uf31_cfg T track proofs) (2 ^ 31) okj) (uf_mark (uf31_cfg T track proofs))
      (uf_restore (uf31_cfg T track proofs)) (uf_ops.uview (is_vals id31) (is_vals (bool_tagged_ops 0)) (is_vals T)) (\<lambda>t. depth (ut_parent t)) u issued st co"
    using s by (simp add: v [abs_def])
  note c = uf_ops.crel_uok [OF uf31_ops [OF T], unfolded uf31_proofs, OF checkpointed.session_inv [OF uf31_checkpointed [OF T] s', THEN conjunct1]]
  show "uf_ops.uok (uf31_cfg T track proofs) (is_vals id31) (is_flag id31) (id_nat_dom TYPE(32))
      (is_vals (bool_tagged_ops 0)) (is_flag (bool_tagged_ops 0)) (is_vals T) (is_flag T) okj u" using c by simp
  show "uf_inv proofs (2 ^ 31) (uf31_view T u)" using c by (simp add: v)
qed

lemma uf31_session_uview:
  assumes "tagged_repr T okj" and "uf31_session T okj track proofs u issued st co"
  shows "session (uf_fresh proofs) (uf_upd (uf31_cfg T track proofs) (2 ^ 31) okj) (uf_mark (uf31_cfg T track proofs))
      (uf_restore (uf31_cfg T track proofs)) (uf_ops.uview (is_vals id31) (is_vals (bool_tagged_ops 0)) (is_vals T)) (\<lambda>t. depth (ut_parent t)) u issued st co"
  using assms(2) by (simp add: uf31_view_eq [OF assms(1), abs_def])

text \<open>
  C8: \<open>find\<close> terminates on every reachable union-find, agrees with \<open>find_const\<close>, returns the root of
  the node's tree, and its path compression changes no representative; an unknown node panics.
\<close>

theorem uf_find_correct:
  assumes T: "tagged_repr T okj" and s: "uf31_session T okj track proofs u issued st co"
  shows "if x < length (uf31_parents u)
    then \<exists>u'. uf_find (uf31_cfg T track proofs) x u = Inr (uf31_rep u x, u') \<and> uf_find_const (uf31_cfg T track proofs) x u = Inr (uf31_rep u x) \<and>
      uf31_parents u ! uf31_rep u x = uf31_rep u x \<and> length (uf31_parents u') = length (uf31_parents u) \<and>
      (\<forall>y < length (uf31_parents u). uf31_rep u' y = uf31_rep u y)
    else uf_find (uf31_cfg T track proofs) x u = Inl IndexOutOfBounds \<and> uf_find_const (uf31_cfg T track proofs) x u = Inl IndexOutOfBounds"
proof (cases "x < length (uf31_parents u)")
  case True
  note inv = uf31_session_inv [OF T s]
  have f: "forest (uf31_parents u)" "length (uf31_parents u) \<le> 2 ^ 31" using inv(2) by (auto simp: uf_inv_def)
  obtain v where v: "uf_find (uf31_cfg T track proofs) x u = Inr (uf31_rep u x, u\<lparr>uf_parent := v\<rparr>)"
    "moves (uf31_parents u) (is_vals id31 (v_store v)) (\<lambda>r. r)"
    using uf_ops.find_step [OF uf31_ops [OF T] inv(1)] inv(2) True by (auto simp: uf31_view_eq [OF T])
  obtain xs where xs: "rpath (uf31_parents u) x xs" "last xs = uf31_rep u x" using forest_rpath [OF f(1) True] .
  have "length (is_vals id31 (v_store v)) = length (uf31_parents u)" using v(2) by (simp add: moves_def)
  then show ?thesis
    using True v(1) uf_root_bound [OF f(1) True] moves_forest(2) [OF v(2) f(1)] xs
      uf_ops.find_const_val [OF uf31_ops [OF T] xs(1) f(2)] by auto
next
  case False
  then show ?thesis
    using uf_ops.find_out [OF uf31_ops [OF T]] uf_ops.root_loop_out [OF uf31_ops [OF T]]
    by (simp add: uf_find_const_def vec_fuel_def del: uf_root_loop.simps)
qed

text \<open>
  C7: a union of two nodes merges their classes and no others: it answers \<open>None\<close> exactly when they
  were already equal, and otherwise names the surviving root, which the caller may choose, and the
  root that every node of its class leaves for the survivor.
\<close>

theorem uf_union_merges:
  assumes T: "tagged_repr T okj" and s: "uf31_session T okj track proofs u issued st co"
    and ab: "a < length (uf31_parents u)" "b < length (uf31_parents u)" and j: "pred_option okj just"
  shows "\<exists>r u'. uf_union_inner (uf31_cfg T track proofs) a b just pref u = Inr (r, u') \<and>
    length (uf31_parents u') = length (uf31_parents u) \<and>
    (case r of
      None \<Rightarrow> uf31_rep u a = uf31_rep u b \<and> (\<forall>x < length (uf31_parents u). uf31_rep u' x = uf31_rep u x)
    | Some (survivor, absorbed) \<Rightarrow> uf31_rep u a \<noteq> uf31_rep u b \<and> {survivor, absorbed} = {uf31_rep u a, uf31_rep u b} \<and>
        (pref = Some True \<longrightarrow> survivor = uf31_rep u a) \<and> (pref = Some False \<longrightarrow> survivor = uf31_rep u b) \<and>
        (\<forall>x < length (uf31_parents u). uf31_rep u' x = (if uf31_rep u x = absorbed then survivor else uf31_rep u x)))"
proof -
  note inv = uf31_session_inv [OF T s]
  have f: "forest (uf31_parents u)" using inv(2) by (auto simp: uf_inv_def)
  from uf_ops.union_ok [OF uf31_ops [OF T] inv(1) _ ab j, of pref] inv(2)
  obtain r u' where r: "uf_union_inner (uf31_cfg T track proofs) a b just pref u = Inr (r, u')"
    "case r of None \<Rightarrow> uf31_rep u a = uf31_rep u b \<and> uf_pproof u' = uf_pproof u \<and> uf_just u' = uf_just u \<and>
        moves (uf31_parents u) (uf31_parents u') (\<lambda>r. r)
      | Some r \<Rightarrow> uf31_rep u a \<noteq> uf31_rep u b \<and> uf_ops.union_post (is_vals id31) (is_vals T) a b just pref r u u'"
    by (auto simp: uf31_view_eq [OF T])
  show ?thesis
  proof (cases r)
    case None
    then have m: "moves (uf31_parents u) (uf31_parents u') (\<lambda>r. r)" using r(2) by simp
    then have "length (uf31_parents u') = length (uf31_parents u)" by (simp add: moves_def)
    then show ?thesis using None r moves_forest(2) [OF m f] by auto
  next
    case (Some q)
    obtain sv ab where q: "q = (sv, ab)" by (cases q)
    have "uf31_rep u a \<noteq> uf31_rep u b" and post: "uf_ops.union_post (is_vals id31) (is_vals T) a b just pref (sv, ab) u u'"
      using Some q r(2) by simp_all
    then show ?thesis
      using Some q r(1) post [unfolded uf_ops.union_post_def [OF uf31_ops [OF T]] fst_conv snd_conv]
      by (intro exI [of _ r] exI [of _ u'] conjI) simp_all
  qed
qed

text \<open>
  C6: with proofs on, a justified union of different classes adds the asserted equality to the proof
  forest and changes no other labelled edge, although it reverses a whole path of the forest.
\<close>

theorem uf_union_records_edge:
  assumes T: "tagged_repr T okj" and s: "uf31_session T okj track True u issued st co"
    and ab: "a < length (uf31_parents u)" "b < length (uf31_parents u)" "uf31_rep u a \<noteq> uf31_rep u b" and l: "okj l"
  shows "\<exists>r u'. uf_union_justified (uf31_cfg T track True) a b l u = Inr (Some r, u') \<and>
    (\<forall>x y k. uf31_edge T u' x y k \<longleftrightarrow> uf31_edge T u x y k \<or> (x, y, k) = (a, b, l) \<or> (x, y, k) = (b, a, l))"
proof -
  note inv = uf31_session_inv [OF T s]
  obtain pp j where pj: "uf_pproof u = Some pp" "uf_just u = Some j" using inv(2) by (auto simp: uf_inv_def split: option.splits)
  from uf_ops.union_ok [OF uf31_ops [OF T] inv(1) _ ab(1,2), of "Some l" None] inv(2) l ab(3)
  obtain r u' where "uf_union_inner (uf31_cfg T track True) a b (Some l) None u = Inr (Some r, u')"
    "uf_ops.union_post (is_vals id31) (is_vals T) a b (Some l) None r u u'"
    by (auto simp: uf31_view_eq [OF T] split: option.splits)
  then show ?thesis using pj by (auto simp: uf_ops.union_post_def [OF uf31_ops [OF T]] uf_union_justified_def)
qed

text \<open>
  C5: \<open>explain\<close> answers \<open>true\<close> exactly for equal nodes, and then appends a chain of asserted equalities
  that leads from the first node to the second; otherwise the buffer is unchanged.
\<close>

theorem uf_explain_correct:
  assumes T: "tagged_repr T okj" and s: "uf31_session T okj track True u issued st co"
    and ab: "a < length (uf31_parents u)" "b < length (uf31_parents u)"
  shows "\<exists>r buf'. uf_explain (uf31_cfg T track True) a b buf u = Inr (r, buf') \<and> r = (uf31_rep u a = uf31_rep u b) \<and>
    (if r then \<exists>st. pb_steps buf' = pb_steps buf @ st \<and> walk (uf31_edge T u) a st b else buf' = buf)"
proof -
  note inv = uf31_session_inv [OF T s]
  obtain pp j where pj: "uf_pproof u = Some pp" "uf_just u = Some j" using inv(2) by (auto simp: uf_inv_def split: option.splits)
  from uf_ops.explain_ok [OF uf31_ops [OF T, where proofs = True] _ _ ab pj, of track buf] inv(2) pj show ?thesis
    by (fastforce simp: uf31_view_eq [OF T] split: if_splits)
qed

text \<open>
  A live token of a \<open>UnionFind\<close> restores both forests, the ranks and the justifications at its
  mark, and an accepted token that was never restored before is live.
\<close>

theorem uf_restore_exact:
  assumes T: "tagged_repr T okj" and s: "uf31_session T okj track proofs u issued st co" and "k < length issued" and "k \<notin> co"
    and "length st < 2 ^ 32" and "length (origins (v_forks (uf_parent u))) + 1 < 2 ^ 32"
  shows "(\<exists>u'. uf_restore (uf31_cfg T track proofs) (fst (issued ! k)) u = Inr u') = (k \<in> set st) \<and>
    (\<forall>u'. uf_restore (uf31_cfg T track proofs) (fst (issued ! k)) u = Inr u' \<longrightarrow> uf31_view T u' = snd (issued ! k))"
  using checkpointed.live_token_restores [OF uf31_checkpointed [OF T] uf31_session_uview [OF T s] _ assms(5,6)]
    checkpointed.accepted_token_live [OF uf31_checkpointed [OF T] uf31_session_uview [OF T s] assms(3,4)]
  unfolding uf31_view_eq [OF T] by blast

text \<open>A new union-find with two nodes, the same after a justified union, and a new one with a mark.\<close>

abbreviation "uf31_unit \<equiv> uf31_session nojust_tagged (\<lambda>_. True) True True"
abbreviation "uf31_ucfg \<equiv> uf31_cfg nojust_tagged True True"
abbreviation uf31_new :: "(32 word, unit, 8 word bool_tagged) union_find" where "uf31_new \<equiv> fst (uf_new True 0)"

lemma uf31_demo0: "uf31_unit uf31_new [] [] {}"
  by (intro session.fresh) (auto simp: uf_fresh_def)

lemma uf31_parents_new: "uf31_parents uf31_new = []"
  by (simp add: uf_new_def veci_new_def vec_with_store_def container_id_new_def is_vals_def is_new_def Let_def)

lemma uf31_demo2:
  obtains u where "uf31_unit u [] [] {}" and "uf31_parents u = [0, 1]"
proof -
  note T = nojust_t.tagged_repr_axioms
  have step: "\<exists>u'. uf31_unit u' [] [] {} \<and> uf31_parents u' = uf31_parents u @ [length (uf31_parents u)]"
    if s: "uf31_unit u [] [] {}" and n: "length (uf31_parents u) < 2 ^ 31" for u
  proof -
    note inv = uf31_session_inv [OF T s]
    obtain u' where u': "uf_make_set uf31_ucfg (length (uf31_parents u)) u = Inr u'"
      "uf31_parents u' = uf31_parents u @ [length (uf31_parents u)]"
      using uf_ops.make_set_ok [OF uf31_ops [OF T] inv(1)] inv(2) n by (auto simp: uf31_view_eq [OF T])
    show ?thesis using session.update [OF s uf_upd.make_set [OF u'(1) n]] u'(2) by blast
  qed
  obtain u1 where "uf31_unit u1 [] [] {}" "uf31_parents u1 = [0]" using step [OF uf31_demo0] uf31_parents_new by auto
  then show ?thesis using step [of u1] that by auto
qed

lemma uf31_roots2: "uf_root [0, Suc 0] 0 = 0" "uf_root [0, Suc 0] (Suc 0) = Suc 0"
  by (simp_all add: uf_root_idem)

theorem uf_find_correct_witness:
  "\<exists>u u'. uf_find uf31_ucfg 1 u = Inr (1, u') \<and> uf31_parents u = [0, 1]"
proof -
  obtain u where u: "uf31_unit u [] [] {}" "uf31_parents u = [0, 1]" by (rule uf31_demo2)
  from uf_find_correct [OF nojust_t.tagged_repr_axioms u(1), of 1] u(2) show ?thesis by (auto simp: uf31_roots2)
qed

theorem uf_union_merges_witness:
  "\<exists>u u' sv ab. uf_union_inner uf31_ucfg 0 1 (Some ()) None u = Inr (Some (sv, ab), u') \<and> uf31_rep u 0 \<noteq> uf31_rep u 1 \<and>
    uf31_rep u' 0 = uf31_rep u' 1"
proof -
  obtain u where u: "uf31_unit u [] [] {}" "uf31_parents u = [0, 1]" by (rule uf31_demo2)
  have ne: "uf31_rep u 0 \<noteq> uf31_rep u 1" using u(2) by (simp add: uf31_roots2)
  obtain sv ab u' where r: "uf_union_inner uf31_ucfg 0 1 (Some ()) None u = Inr (Some (sv, ab), u')"
    "{sv, ab} = {uf31_rep u 0, uf31_rep u 1}" "\<forall>x < 2. uf31_rep u' x = (if uf31_rep u x = ab then sv else uf31_rep u x)"
    using uf_union_merges [OF nojust_t.tagged_repr_axioms u(1), of 0 1 "Some ()" None] u(2) ne
    by (fastforce split: option.splits prod.splits simp: numeral_2_eq_2)
  then have "uf31_rep u' 0 = uf31_rep u' 1" using rename_eq [OF r(2), of "uf31_rep u 0" "uf31_rep u 1"] by simp
  with r ne show ?thesis by blast
qed

theorem uf_union_records_edge_witness:
  "\<exists>u u' r. uf_union_justified uf31_ucfg 0 1 () u = Inr (Some r, u') \<and> uf31_edge nojust_tagged u' 0 1 ()"
proof -
  obtain u where u: "uf31_unit u [] [] {}" "uf31_parents u = [0, 1]" by (rule uf31_demo2)
  from uf_union_records_edge [OF nojust_t.tagged_repr_axioms u(1), of 0 1] u(2) show ?thesis by (auto simp: uf31_roots2)
qed

lemma uf31_demo_joined:
  obtains u where "uf31_unit u [] [] {}" and "length (uf31_parents u) = 2" and "uf31_rep u 0 = uf31_rep u 1"
proof -
  note T = nojust_t.tagged_repr_axioms
  obtain u where u: "uf31_unit u [] [] {}" "uf31_parents u = [0, 1]" by (rule uf31_demo2)
  have ne: "uf31_rep u 0 \<noteq> uf31_rep u 1" using u(2) by (simp add: uf31_roots2)
  obtain r u' where r: "uf_union_inner uf31_ucfg 0 1 (Some ()) None u = Inr (Some r, u')"
    "uf_ops.union_post (is_vals id31) (is_vals nojust_tagged) 0 1 (Some ()) None r u u'"
    using uf_ops.union_ok [OF uf31_ops [OF T] uf31_session_inv(1) [OF T u(1)], of 0 1 "Some ()" None]
      uf31_session_inv(2) [OF T u(1)] u(2) ne by (auto simp: uf31_view_eq [OF T] split: option.splits)
  have p: "{fst r, snd r} = {uf31_rep u 0, uf31_rep u 1}" "length (uf31_parents u') = 2"
    "\<forall>x < 2. uf31_rep u' x = (if uf31_rep u x = snd r then fst r else uf31_rep u x)"
  proof -
    note post = r(2) [unfolded uf_ops.union_post_def [OF uf31_ops [OF T]]]
    show "{fst r, snd r} = {uf31_rep u 0, uf31_rep u 1}" using post by (elim conjE)
    have "length (uf31_parents u') = length (uf31_parents u)" using post by (elim conjE)
    then show "length (uf31_parents u') = 2" using u(2) by simp
    have "\<forall>x < length (uf31_parents u). uf31_rep u' x = (if uf31_rep u x = snd r then fst r else uf31_rep u x)" using post by (elim conjE)
    moreover have "length (uf31_parents u) = 2" using u(2) by simp
    ultimately show "\<forall>x < 2. uf31_rep u' x = (if uf31_rep u x = snd r then fst r else uf31_rep u x)" by metis
  qed
  have "uf31_unit u' [] [] {}"
    using session.update [OF u(1) uf_upd.justified [of "\<lambda>_. True" "()", OF _ r(1) [folded uf_union_justified_def]]] by simp
  moreover have "uf31_rep u' 0 = uf31_rep u' 1" using p(3) rename_eq [OF p(1), of "uf31_rep u 0" "uf31_rep u 1"] by simp
  ultimately show ?thesis using p(2) that by blast
qed

theorem uf_explain_correct_witness:
  "\<exists>u buf. uf_explain uf31_ucfg 0 1 proof_buf_new u = Inr (True, buf) \<and> walk (uf31_edge nojust_tagged u) 0 (pb_steps buf) 1"
proof -
  obtain u where u: "uf31_unit u [] [] {}" "length (uf31_parents u) = 2" "uf31_rep u 0 = uf31_rep u 1" by (rule uf31_demo_joined)
  obtain buf where "uf_explain uf31_ucfg 0 1 proof_buf_new u = Inr (True, buf)"
    "\<exists>st. pb_steps buf = pb_steps proof_buf_new @ st \<and> walk (uf31_edge nojust_tagged u) 0 st 1"
    using uf_explain_correct [OF nojust_t.tagged_repr_axioms u(1), of 0 1 proof_buf_new] u(2,3) by auto
  then show ?thesis by (auto simp: proof_buf_new_def)
qed

theorem uf_restore_exact_witness:
  "\<exists>t u w. uf_mark uf31_ucfg ((((Never, 0, 0), (Never, 0, 0)), (Never, 0, 0)), (Never, 0, 0)) uf31_new = Inr (t, u) \<and>
    uf_restore uf31_ucfg t u = Inr w \<and> uf31_parents w = []"
proof -
  obtain t u where m: "uf_mark uf31_ucfg ((((Never, 0, 0), (Never, 0, 0)), (Never, 0, 0)), (Never, 0, 0)) uf31_new = Inr (t, u)"
    and f: "v_forks (uf_parent u) = fork_history_new"
    by (simp add: uf_mark_def opt_vec_mark_def uf31_cfg_def veci_cfg_def inline_ops_def uf_new_def Let_def
        veci_new_def vec_with_store_def container_id_new_def vec_mark_def vec_maybe_shrink_def len_res_def idx_try_def
        is_new_def slice_from_def narrow_count_def)
  have s: "uf31_unit u [(t, uf31_view nojust_tagged uf31_new)] [0] {}" using session.mark [OF uf31_demo0, OF m] by simp
  from uf_restore_exact [OF nojust_t.tagged_repr_axioms s, of 0] m f show ?thesis
    by (auto simp: fork_history_new_def uf31_parents_new)
qed

end
