(* ===== verification/Lca.thy ===== *)
theory Lca
  imports Union_Find
begin

unbundle bit_operations_syntax

text \<open>
  Lowest common ancestors in the proof forest: \<open>egraph/src/lca.rs\<close>.  The tour of Euler around the forest, with a
  virtual root above all trees, turns a lowest common ancestor into a minimum of depths between two positions;
  neighbouring depths differ by one, so the tour is cut into short blocks whose answers depend on the pattern of
  ups and downs alone, and a sparse table answers for whole blocks.  \<open>lca_table\<close> keeps all depths,
  \<open>lca_table_compact\<close> recovers them from the differences.  At the end stands \<open>explain_with_lca\<close> of the union-find
  (\<open>containers-verus/src/union_find.rs\<close>), which reads the answers.

  Nodes are natural numbers as in the union-find; \<open>C\<close> describes the vector of proof parents, whose index word
  also holds the positions of the tour, and \<open>tmax\<close> is the largest identifier.
\<close>

section \<open>Shared helpers\<close>

text \<open>\<open>usize::BITS - n.leading_zeros()\<close>.\<close>

fun bit_len :: "nat \<Rightarrow> nat" where
  "bit_len n = (if n = 0 then 0 else Suc (bit_len (n div 2)))"

declare bit_len.simps [simp del]

definition as_u16 :: "nat \<Rightarrow> nat" where
  "as_u16 n = n mod 2 ^ 16"

definition tour_pos :: "('s, nat) vec_cfg \<Rightarrow> nat \<Rightarrow> nat res" where
  "tour_pos C pos = expect PositionWidth (idx_try (vc_imax C) pos)"

section \<open>The Euler tour\<close>

record tour =
  tr_euler :: "nat list"
  tr_depth :: "nat list"
  tr_first :: "nat list"
  tr_tree :: "nat list"
  tr_cur :: nat

text \<open>The rows of children; row \<open>n\<close> belongs to the virtual root.\<close>

fun tour_children :: "('s, nat) vec_cfg \<Rightarrow> ('s, nat) vec \<Rightarrow> nat \<Rightarrow> nat list \<Rightarrow> nat list list \<Rightarrow> nat list list res" where
  "tour_children C pp n [] ch = Inr ch"
| "tour_children C pp n (i # is) ch =
    rbind (vec_get C i pp) (\<lambda>p.
    let q = (if p = i then n else p) in
    rbind (nth_res ch q) (\<lambda>row. tour_children C pp n is (ch[q := row @ [i]])))"

text \<open>
  One turn of the loop over the stack of frames \<open>(node, child index, depth)\<close>, the top first: enter the next child
  of the top, or leave the top and visit its parent again.  Zero marks nodes without a position.
\<close>

definition tour_enter :: "('s, nat) vec_cfg \<Rightarrow> nat \<Rightarrow> nat \<Rightarrow> nat \<Rightarrow> nat \<Rightarrow> nat \<Rightarrow> tour \<Rightarrow> tour res" where
  "tour_enter C n node ordinal child cd t =
    (let e = tr_euler t @ [child] in
     rbind (nth_res (tr_first t) child) (\<lambda>f.
     rbind (if f = 0 then rbind (tour_pos C (length e - 1)) (upd_res (tr_first t) child) else Inr (tr_first t)) (\<lambda>fs.
     rbind (if node = n then tour_pos C ordinal else Inr (tr_cur t)) (\<lambda>cur.
     rbind (upd_res (tr_tree t) child cur) (\<lambda>ts.
     Inr \<lparr>tr_euler = e, tr_depth = tr_depth t @ [cd], tr_first = fs, tr_tree = ts, tr_cur = cur\<rparr>)))))"

definition tour_turn :: "('s, nat) vec_cfg \<Rightarrow> nat \<Rightarrow> nat list list \<Rightarrow> nat \<times> nat \<times> nat \<Rightarrow> (nat \<times> nat \<times> nat) list \<Rightarrow> tour \<Rightarrow>
    ((nat \<times> nat \<times> nat) list \<times> tour) res" where
  "tour_turn C n ch = (\<lambda>(node, ci, d) st t.
    rbind (nth_res ch node) (\<lambda>row.
    if ci < length row then
      rbind (expect ArithOverflow (usize_checked_add d 1)) (\<lambda>cd.
      rbind (tour_enter C n node ci (row ! ci) cd t) (\<lambda>t'.
      Inr ((row ! ci, 0, cd) # (node, ci + 1, d) # st, t')))
    else
      (case st of
        [] \<Rightarrow> Inr ([], t)
      | (parent, _, pd) # _ \<Rightarrow> Inr (st, t\<lparr>tr_euler := tr_euler t @ [parent], tr_depth := tr_depth t @ [pd]\<rparr>))))"

fun tour_loop :: "nat \<Rightarrow> ('s, nat) vec_cfg \<Rightarrow> nat \<Rightarrow> nat list list \<Rightarrow> (nat \<times> nat \<times> nat) list \<Rightarrow> tour \<Rightarrow> tour res" where
  "tour_loop 0 C n ch st t = Inl Diverge"
| "tour_loop (Suc fuel) C n ch [] t = Inr t"
| "tour_loop (Suc fuel) C n ch (fr # st) t =
    rbind (tour_turn C n ch fr st t) (\<lambda>(st', t'). tour_loop fuel C n ch st' t')"

text \<open>Every node is entered once and left once, so \<open>2 n + 1\<close> turns empty the stack.\<close>

definition euler_tour :: "('s, nat) vec_cfg \<Rightarrow> nat \<Rightarrow> ('s, nat) vec \<Rightarrow> nat \<Rightarrow> tour res" where
  "euler_tour C tmax pp n =
    rbind (expect IdRange (idx_try tmax n)) (\<lambda>vroot_id.
    rbind (tour_children C pp n [0..<n] (replicate (n + 1) [])) (\<lambda>ch.
    tour_loop (2 * n + 2) C n ch [(n, 0, 0)]
      \<lparr>tr_euler = [vroot_id], tr_depth = [0], tr_first = replicate (n + 1) 0, tr_tree = replicate (n + 1) 0, tr_cur = 0\<rparr>))"

section \<open>Blocks\<close>

record block_decomp =
  bd_size :: nat
  bd_num :: nat
  bd_min :: "nat list"
  bd_type :: "nat list"

text \<open>The loop over one block: position and depth of the first minimum, and the pattern of ascents.\<close>

fun block_scan :: "nat list \<Rightarrow> nat \<Rightarrow> nat list \<Rightarrow> nat \<Rightarrow> nat \<Rightarrow> nat \<Rightarrow> (nat \<times> nat) res" where
  "block_scan ds s [] min_idx min_depth pattern = Inr (min_idx, pattern)"
| "block_scan ds s (i # is) min_idx min_depth pattern =
    rbind (nth_res ds i) (\<lambda>di.
    rbind (if s < i then rbind (nth_res ds (i - 1)) (\<lambda>dp. Inr (dp < di)) else Inr False) (\<lambda>up.
    block_scan ds s is (if di < min_depth then i else min_idx) (if di < min_depth then di else min_depth)
      (if up then pattern OR 2 ^ (i - s - 1) else pattern)))"

definition block_entry :: "('s, nat) vec_cfg \<Rightarrow> nat list \<Rightarrow> nat \<Rightarrow> nat \<Rightarrow> nat \<Rightarrow> (nat \<times> nat) res" where
  "block_entry C ds m sz b =
    (let s = b * sz; e = min (s + sz) m in
     rbind (nth_res ds s) (\<lambda>d.
     rbind (block_scan ds s [s..<e] s d 0) (\<lambda>(min_idx, pattern).
     rbind (tour_pos C min_idx) (\<lambda>pos. Inr (pos, pattern)))))"

definition block_decompose :: "('s, nat) vec_cfg \<Rightarrow> nat list \<Rightarrow> nat \<Rightarrow> block_decomp res" where
  "block_decompose C ds m =
    (let sz = max (bit_len m div 2) 1; num = div_ceil m sz in
     rbind (rmap (block_entry C ds m sz) [0..<num]) (\<lambda>bs.
     Inr \<lparr>bd_size = sz, bd_num = num, bd_min = map fst bs, bd_type = map snd bs\<rparr>))"

definition log_blocks :: "nat \<Rightarrow> nat" where
  "log_blocks num = (if 1 < num then bit_len (num - 1) else 1)"

definition sparse_cell :: "nat list \<Rightarrow> nat list \<Rightarrow> nat \<Rightarrow> nat \<Rightarrow> nat res" where
  "sparse_cell ds prev half i =
    rbind (nth_res prev i) (\<lambda>left.
    rbind (nth_res prev (i + half)) (\<lambda>right.
    rbind (nth_res ds left) (\<lambda>dl.
    rbind (nth_res ds right) (\<lambda>dr. Inr (if dl \<le> dr then left else right)))))"

fun sparse_levels :: "nat list \<Rightarrow> nat \<Rightarrow> nat list \<Rightarrow> nat list list \<Rightarrow> nat list list res" where
  "sparse_levels ds num [] sparse = Inr sparse"
| "sparse_levels ds num (k # ks) sparse =
    rbind (nth_res sparse (k - 1)) (\<lambda>prev.
    rbind (rmap (sparse_cell ds prev (2 ^ (k - 1))) [0..<num - 2 ^ k + 1]) (\<lambda>level.
    sparse_levels ds num ks (sparse @ [level])))"

definition build_sparse_table :: "nat list \<Rightarrow> block_decomp \<Rightarrow> nat list list res" where
  "build_sparse_table ds bd = sparse_levels ds (bd_num bd) [1..<log_blocks (bd_num bd)] [bd_min bd]"

text \<open>The table of one pattern: row \<open>i\<close>, column \<open>j\<close> holds the offset of the minimum between them.\<close>

definition lookup_cell :: "nat list \<Rightarrow> nat \<Rightarrow> nat \<Rightarrow> nat \<Rightarrow> nat \<Rightarrow> nat \<Rightarrow> nat list \<Rightarrow> nat list res" where
  "lookup_cell ds base e bs i j table =
    rbind (nth_res table (i * bs + j - 1)) (\<lambda>prev_min.
    rbind (if base + j < e then rbind (nth_res ds (base + j)) (\<lambda>dj. rbind (nth_res ds (base + prev_min)) (\<lambda>dp. Inr (dj < dp)))
           else Inr False) (\<lambda>less.
    upd_res table (i * bs + j) (as_u16 (if less then j else prev_min))))"

fun lookup_cells :: "nat list \<Rightarrow> nat \<Rightarrow> nat \<Rightarrow> nat \<Rightarrow> nat \<Rightarrow> nat list \<Rightarrow> nat list \<Rightarrow> nat list res" where
  "lookup_cells ds base e bs i [] table = Inr table"
| "lookup_cells ds base e bs i (j # js) table =
    rbind (lookup_cell ds base e bs i j table) (lookup_cells ds base e bs i js)"

fun lookup_rows :: "nat list \<Rightarrow> nat \<Rightarrow> nat \<Rightarrow> nat \<Rightarrow> nat list \<Rightarrow> nat list \<Rightarrow> nat list res" where
  "lookup_rows ds base e bs [] table = Inr table"
| "lookup_rows ds base e bs (i # is) table =
    rbind (upd_res table (i * bs + i) (as_u16 i)) (\<lambda>t.
    rbind (lookup_cells ds base e bs i [i + 1..<bs] t) (lookup_rows ds base e bs is))"

fun lookup_blocks :: "nat list \<Rightarrow> block_decomp \<Rightarrow> nat \<Rightarrow> nat list \<Rightarrow> nat list list \<Rightarrow> nat list list res" where
  "lookup_blocks ds bd m [] block_lookup = Inr block_lookup"
| "lookup_blocks ds bd m (b # bs) block_lookup =
    rbind (nth_res (bd_type bd) b) (\<lambda>bt.
    rbind (nth_res block_lookup bt) (\<lambda>old.
    if old \<noteq> [] then lookup_blocks ds bd m bs block_lookup
    else
      let sz = bd_size bd; base = b * sz; e = min (base + sz) m in
      rbind (lookup_rows ds base e sz [0..<sz] (replicate (sz * sz) 0)) (\<lambda>table.
      lookup_blocks ds bd m bs (block_lookup[bt := table]))))"

definition build_block_lookup :: "nat list \<Rightarrow> block_decomp \<Rightarrow> nat \<Rightarrow> nat list list res" where
  "build_block_lookup ds bd m = lookup_blocks ds bd m [0..<bd_num bd] (replicate (2 ^ (bd_size bd - 1)) [])"

section \<open>Tables with all depths\<close>

record lca_table =
  lt_euler :: "nat list"
  lt_depth :: "nat list"
  lt_first :: "nat list"
  lt_tree :: "nat list"
  lt_n :: nat
  lt_bs :: nat
  lt_sparse :: "nat list list"
  lt_lookup :: "nat list list"
  lt_type :: "nat list"

definition lca_build :: "('s, nat) vec_cfg \<Rightarrow> nat \<Rightarrow> ('s, nat) vec \<Rightarrow> nat \<Rightarrow> lca_table res" where
  "lca_build C tmax pp n =
    (if n = 0 then Inr \<lparr>lt_euler = [], lt_depth = [], lt_first = [], lt_tree = [], lt_n = 0, lt_bs = 1,
        lt_sparse = [], lt_lookup = [], lt_type = []\<rparr>
     else
       rbind (euler_tour C tmax pp n) (\<lambda>t.
       let m = length (tr_euler t) in
       rbind (block_decompose C (tr_depth t) m) (\<lambda>bd.
       rbind (build_sparse_table (tr_depth t) bd) (\<lambda>sparse.
       rbind (build_block_lookup (tr_depth t) bd m) (\<lambda>block_lookup.
       Inr \<lparr>lt_euler = tr_euler t, lt_depth = tr_depth t, lt_first = tr_first t, lt_tree = tr_tree t, lt_n = n,
         lt_bs = bd_size bd, lt_sparse = sparse, lt_lookup = block_lookup, lt_type = bd_type bd\<rparr>)))))"

text \<open>The lookup in the table of a block's pattern, which both kinds of tables have.\<close>

definition in_block_min :: "nat list \<Rightarrow> nat list list \<Rightarrow> nat \<Rightarrow> nat \<Rightarrow> nat \<Rightarrow> nat \<Rightarrow> nat res" where
  "in_block_min types block_lookup bs b i j =
    rbind (nth_res types b) (\<lambda>bt.
    rbind (nth_res block_lookup bt) (\<lambda>table.
    rbind (nth_res table (i * bs + j)) (\<lambda>rel. Inr (b * bs + rel))))"

definition sparse_query :: "lca_table \<Rightarrow> nat \<Rightarrow> nat \<Rightarrow> nat res" where
  "sparse_query T bl br =
    rbind (expect ArithOverflow (usize_checked_sub br bl)) (\<lambda>diff.
    let k = bit_len (diff + 1) - 1 in
    rbind (nth_res (lt_sparse T) k) (\<lambda>level.
    rbind (nth_res level bl) (\<lambda>left.
    rbind (expect ArithOverflow (usize_checked_sub br (2 ^ k))) (\<lambda>q.
    rbind (nth_res level (q + 1)) (\<lambda>right.
    rbind (nth_res (lt_depth T) left) (\<lambda>dl.
    rbind (nth_res (lt_depth T) right) (\<lambda>dr. Inr (if dl \<le> dr then left else right))))))))"

definition rmq :: "lca_table \<Rightarrow> nat \<Rightarrow> nat \<Rightarrow> nat res" where
  "rmq T i j =
    (let bs = lt_bs T; bi = i div bs; bj = j div bs; blk = in_block_min (lt_type T) (lt_lookup T) bs in
     if bi = bj then blk bi (i mod bs) (j mod bs)
     else
       rbind (blk bi (i mod bs) (bs - 1)) (\<lambda>left_min.
       rbind (blk bj 0 (j mod bs)) (\<lambda>right_min.
       rbind (nth_res (lt_depth T) left_min) (\<lambda>dl.
       rbind (nth_res (lt_depth T) right_min) (\<lambda>dr.
       let best = (if dl \<le> dr then left_min else right_min) in
       if bi + 1 < bj then
         rbind (sparse_query T (bi + 1) (bj - 1)) (\<lambda>mid_min.
         rbind (nth_res (lt_depth T) mid_min) (\<lambda>dm.
         rbind (nth_res (lt_depth T) best) (\<lambda>db. Inr (if dm < db then mid_min else best))))
       else Inr best)))))"

definition lca :: "lca_table \<Rightarrow> nat \<Rightarrow> nat \<Rightarrow> nat option res" where
  "lca T a b =
    (if lt_n T \<le> a \<or> lt_n T \<le> b then Inr None
     else
       rbind (nth_res (lt_first T) a) (\<lambda>fa.
       rbind (nth_res (lt_first T) b) (\<lambda>fb.
       if fa = 0 \<or> fb = 0 then Inr None
       else
         rbind (nth_res (lt_tree T) a) (\<lambda>ta.
         rbind (nth_res (lt_tree T) b) (\<lambda>tb.
         if ta \<noteq> tb then Inr None
         else
           rbind (if fa \<le> fb then rmq T fa fb else rmq T fb fa) (\<lambda>idx.
           rbind (nth_res (lt_euler T) idx) (\<lambda>r. Inr (if lt_n T \<le> r then None else Some r))))))))"

section \<open>Tables with differences of depths\<close>

record lca_compact =
  lk_euler :: "nat list"
  lk_delta :: "int list"
  lk_bdepth :: "nat list"
  lk_first :: "nat list"
  lk_tree :: "nat list"
  lk_n :: nat
  lk_bs :: nat
  lk_sparse :: "(nat \<times> nat) list list"
  lk_lookup :: "nat list list"
  lk_type :: "nat list"

definition delta_cell :: "nat list \<Rightarrow> nat \<Rightarrow> int res" where
  "delta_cell ds i =
    rbind (nth_res ds i) (\<lambda>d.
    rbind (nth_res ds (i - 1)) (\<lambda>p. Inr (if p < d then 1 else if d < p then - 1 else 0)))"

definition compact_cell :: "(nat \<times> nat) list \<Rightarrow> nat \<Rightarrow> nat \<Rightarrow> (nat \<times> nat) res" where
  "compact_cell prev half i =
    rbind (nth_res prev i) (\<lambda>left.
    rbind (nth_res prev (i + half)) (\<lambda>right. Inr (if snd left \<le> snd right then left else right)))"

fun compact_levels :: "nat \<Rightarrow> nat list \<Rightarrow> (nat \<times> nat) list list \<Rightarrow> (nat \<times> nat) list list res" where
  "compact_levels num [] sparse = Inr sparse"
| "compact_levels num (k # ks) sparse =
    rbind (nth_res sparse (k - 1)) (\<lambda>prev.
    rbind (rmap (compact_cell prev (2 ^ (k - 1))) [0..<num - 2 ^ k + 1]) (\<lambda>level.
    compact_levels num ks (sparse @ [level])))"

definition compact_build :: "('s, nat) vec_cfg \<Rightarrow> nat \<Rightarrow> ('s, nat) vec \<Rightarrow> nat \<Rightarrow> lca_compact res" where
  "compact_build C tmax pp n =
    (if n = 0 then Inr \<lparr>lk_euler = [], lk_delta = [], lk_bdepth = [], lk_first = [], lk_tree = [], lk_n = 0, lk_bs = 1,
        lk_sparse = [], lk_lookup = [], lk_type = []\<rparr>
     else
       rbind (euler_tour C tmax pp n) (\<lambda>t.
       let ds = tr_depth t; m = length (tr_euler t) in
       rbind (rmap (delta_cell ds) [1..<m]) (\<lambda>delta.
       rbind (block_decompose C ds m) (\<lambda>bd.
       rbind (rmap (\<lambda>b. nth_res ds (b * bd_size bd)) [0..<bd_num bd]) (\<lambda>block_depth.
       rbind (rmap (\<lambda>pos. rbind (nth_res ds pos) (\<lambda>d. Inr (pos, d))) (bd_min bd)) (\<lambda>level0.
       rbind (compact_levels (bd_num bd) [1..<log_blocks (bd_num bd)] [level0]) (\<lambda>sparse.
       rbind (build_block_lookup ds bd m) (\<lambda>block_lookup.
       Inr \<lparr>lk_euler = tr_euler t, lk_delta = delta, lk_bdepth = block_depth, lk_first = tr_first t, lk_tree = tr_tree t,
         lk_n = n, lk_bs = bd_size bd, lk_sparse = sparse, lk_lookup = block_lookup, lk_type = bd_type bd\<rparr>))))))))"

fun depth_sum :: "int list \<Rightarrow> nat list \<Rightarrow> nat \<Rightarrow> nat res" where
  "depth_sum delta [] d = Inr d"
| "depth_sum delta (i # is) d =
    rbind (nth_res delta i) (\<lambda>x.
    rbind (if 0 < x then Inr (d + 1) else expect Underflow (usize_checked_sub d 1)) (depth_sum delta is))"

definition depth_at :: "lca_compact \<Rightarrow> nat \<Rightarrow> nat res" where
  "depth_at T pos =
    (let b = pos div lk_bs T; off = pos mod lk_bs T; s = b * lk_bs T in
     rbind (nth_res (lk_bdepth T) b) (depth_sum (lk_delta T) [s..<s + off]))"

definition compact_query :: "lca_compact \<Rightarrow> nat \<Rightarrow> nat \<Rightarrow> (nat \<times> nat) res" where
  "compact_query T bl br =
    rbind (expect ArithOverflow (usize_checked_sub br bl)) (\<lambda>diff.
    let k = bit_len (diff + 1) - 1 in
    rbind (nth_res (lk_sparse T) k) (\<lambda>level.
    rbind (nth_res level bl) (\<lambda>left.
    rbind (expect ArithOverflow (usize_checked_sub br (2 ^ k))) (\<lambda>q.
    rbind (nth_res level (q + 1)) (\<lambda>right. Inr (if snd left \<le> snd right then left else right))))))"

definition compact_rmq :: "lca_compact \<Rightarrow> nat \<Rightarrow> nat \<Rightarrow> nat res" where
  "compact_rmq T i j =
    (let bs = lk_bs T; bi = i div bs; bj = j div bs; blk = in_block_min (lk_type T) (lk_lookup T) bs in
     if bi = bj then blk bi (i mod bs) (j mod bs)
     else
       rbind (blk bi (i mod bs) (bs - 1)) (\<lambda>left_pos.
       rbind (blk bj 0 (j mod bs)) (\<lambda>right_pos.
       rbind (depth_at T left_pos) (\<lambda>left_d.
       rbind (depth_at T right_pos) (\<lambda>right_d.
       let (best, best_d) = (if left_d \<le> right_d then (left_pos, left_d) else (right_pos, right_d)) in
       if bi + 1 < bj then
         rbind (compact_query T (bi + 1) (bj - 1)) (\<lambda>(mid_pos, mid_d). Inr (if mid_d < best_d then mid_pos else best))
       else Inr best)))))"

definition compact_lca :: "lca_compact \<Rightarrow> nat \<Rightarrow> nat \<Rightarrow> nat option res" where
  "compact_lca T a b =
    (if lk_n T \<le> a \<or> lk_n T \<le> b then Inr None
     else
       rbind (nth_res (lk_first T) a) (\<lambda>fa.
       rbind (nth_res (lk_first T) b) (\<lambda>fb.
       if fa = 0 \<or> fb = 0 then Inr None
       else
         rbind (nth_res (lk_tree T) a) (\<lambda>ta.
         rbind (nth_res (lk_tree T) b) (\<lambda>tb.
         if ta \<noteq> tb then Inr None
         else
           rbind (if fa \<le> fb then compact_rmq T fa fb else compact_rmq T fb fa) (\<lambda>idx.
           rbind (nth_res (lk_euler T) idx) (\<lambda>r. Inr (if lk_n T \<le> r then None else Some r))))))))"

section \<open>Explanations from a given ancestor\<close>

text \<open>
  A loop from a node to the ancestor; \<open>None\<close> when it meets a root first.  The collected edges are dropped then.
\<close>

fun uf_climb :: "nat \<Rightarrow> ('w, 'j, 'q) uf_cfg \<Rightarrow> ('w inline_store, nat) vec \<Rightarrow> ('q inline_store, 'j) vec \<Rightarrow> nat \<Rightarrow> nat \<Rightarrow>
    (nat \<times> nat \<times> 'j) list option res" where
  "uf_climb 0 U pp j anc cur = Inl Diverge"
| "uf_climb (Suc fuel) U pp j anc cur =
    (if cur = anc then Inr (Some [])
     else rbind (vec_get (uc_parent U) cur pp) (\<lambda>parent.
       if parent = cur then Inr None
       else rbind (vec_get (uc_just U) cur j) (\<lambda>l.
         rbind (uf_climb fuel U pp j anc parent) (\<lambda>es. Inr (map_option ((#) (cur, parent, l)) es)))))"

definition uf_explain_from_lca :: "('w, 'j, 'q) uf_cfg \<Rightarrow> nat \<Rightarrow> nat \<Rightarrow> nat \<Rightarrow> 'j proof_buf \<Rightarrow> ('w, 'j, 'q) union_find \<Rightarrow>
    (bool \<times> 'j proof_buf) res" where
  "uf_explain_from_lca U a b anc buf u =
    rbind (expect UnwrapNone (uf_pproof u)) (\<lambda>pp.
    rbind (expect UnwrapNone (uf_just u)) (\<lambda>j.
    rbind (uf_climb (vec_fuel (uc_parent U) pp) U pp j anc a) (\<lambda>ups.
    case ups of
      None \<Rightarrow> Inr (False, buf)
    | Some up \<Rightarrow>
        rbind (uf_climb (vec_fuel (uc_parent U) pp) U pp j anc b) (\<lambda>downs.
        case downs of
          None \<Rightarrow> Inr (False, buf)
        | Some down \<Rightarrow>
            let rev_start = length (pb_rev buf);
                rev' = pb_rev buf @ map (\<lambda>(cur, parent, l). (parent, cur, l)) down
            in Inr (True, buf\<lparr>pb_steps := pb_steps buf @ up @ rev (drop rev_start rev'), pb_rev := take rev_start rev'\<rparr>)))))"

definition uf_explain_with_lca :: "('w, 'j, 'q) uf_cfg \<Rightarrow> nat \<Rightarrow> nat \<Rightarrow> nat \<Rightarrow> 'j proof_buf \<Rightarrow> ('w, 'j, 'q) union_find \<Rightarrow>
    (bool \<times> 'j proof_buf) res" where
  "uf_explain_with_lca U a b anc buf u =
    (if \<not> uc_proofs U then Inr (False, buf)
     else rbind (uf_find_const U a u) (\<lambda>ra.
       rbind (uf_find_const U b u) (\<lambda>rb.
       if ra \<noteq> rb then Inr (False, buf) else uf_explain_from_lca U a b anc buf u)))"

end
