(* ===== verification/Lca_Tour.thy ===== *)
theory Lca_Tour
  imports Lca
begin

text \<open>
  The Euler tour of a forest.  \<open>vpath\<close> is the path from a node to the virtual root; the invariant of the loop says
  that the stack is such a path, that the tour walks along edges, that its depths are the lengths of the paths, and
  that it never returns to a subtree it has left.  What follows for a position of least depth between two others
  is \<open>tour_min\<close>: its node is the lowest common ancestor.
\<close>

section \<open>Paths to the virtual root\<close>

locale rooted =
  fixes p :: "nat list" and n :: nat
  assumes p_forest: "forest p" and p_len: "length p = n"
begin

definition vpar :: "nat \<Rightarrow> nat" where
  "vpar x = (if p ! x = x then n else p ! x)"

definition vpath :: "nat \<Rightarrow> nat list" where
  "vpath x = (if x < n then (THE xs. rpath p x xs) @ [n] else [n])"

definition vdep :: "nat \<Rightarrow> nat" where
  "vdep x = length (vpath x) - 1"

lemma vpath_rpath: "rpath p x xs \<Longrightarrow> vpath x = xs @ [n]"
  using rpath_det [of p x] p_len by (auto simp: vpath_def the_equality elim: rpath.cases)

lemma vpath_n [simp]: "vpath n = [n]"
  by (simp add: vpath_def)

lemma vpath_step: "x < n \<Longrightarrow> vpath x = x # vpath (vpar x)"
proof -
  assume "x < n"
  then obtain xs where xs: "rpath p x xs" using p_forest p_len by (auto simp: forest_def)
  from xs show ?thesis
  proof cases
    case root
    then show ?thesis using vpath_rpath [OF xs] by (simp add: vpar_def)
  next
    case (step ys)
    then show ?thesis using vpath_rpath [OF xs] vpath_rpath [OF step(4)] by (simp add: vpar_def)
  qed
qed

lemma vpar_le: "x < n \<Longrightarrow> vpar x \<le> n"
proof -
  assume "x < n"
  then obtain xs where "rpath p x xs" using p_forest p_len by (auto simp: forest_def)
  then show ?thesis by cases (auto simp: vpar_def p_len dest: rpath_bound rpath_hd elim: rpath.cases)
qed

lemma vpath_nonempty [simp]: "vpath x \<noteq> []"
  by (simp add: vpath_def)

lemma vpath_has_n [simp]: "n \<in> set (vpath x)"
  by (simp add: vpath_def)

lemma vdep_n [simp]: "vdep n = 0"
  by (simp add: vdep_def)

lemma vdep_step: "x < n \<Longrightarrow> vdep x = Suc (vdep (vpar x))"
  by (simp add: vdep_def vpath_step)

lemma length_vpath: "length (vpath x) = Suc (vdep x)"
  by (simp add: vdep_def)

lemma vinduct [consumes 1, case_names root child]:
  assumes "x \<le> n" and "P n" and "\<And>x. x < n \<Longrightarrow> P (vpar x) \<Longrightarrow> P x"
  shows "P x"
  using assms(1)
proof (induction "vdep x" arbitrary: x)
  case 0
  then show ?case using assms(2) vdep_step [of x] by (cases "x = n") auto
next
  case (Suc d)
  then have x: "x < n" by (cases "x = n") auto
  then show ?case using Suc assms(3) vdep_step vpar_le by auto
qed

lemma vpath_self: "x \<le> n \<Longrightarrow> x \<in> set (vpath x)"
  by (cases "x = n") (auto simp: vpath_step)

lemma hd_vpath: "x \<le> n \<Longrightarrow> hd (vpath x) = x"
  by (cases "x = n") (auto simp: vpath_step)

lemma vpath_le: "x \<le> n \<Longrightarrow> set (vpath x) \<subseteq> {..n}"
  by (induction rule: vinduct) (auto simp: vpath_step)

lemma vpath_trans: "x \<le> n \<Longrightarrow> c \<in> set (vpath x) \<Longrightarrow> set (vpath c) \<subseteq> set (vpath x)"
  by (induction rule: vinduct) (auto simp: vpath_step)

lemma vpath_dep: "x \<le> n \<Longrightarrow> c \<in> set (vpath x) \<Longrightarrow> c = x \<or> vdep c < vdep x"
  by (induction rule: vinduct) (auto simp: vpath_step vdep_step)

lemma vpath_par: "x < n \<Longrightarrow> c \<in> set (vpath (vpar x)) \<Longrightarrow> c \<in> set (vpath x)"
  by (simp add: vpath_step)

lemma vpath_not_below: "x < n \<Longrightarrow> x \<notin> set (vpath (vpar x))"
  using vpath_dep [of "vpar x" x] vpar_le [of x] vdep_step [of x] by fastforce

lemma vpath_antisym: "x \<le> n \<Longrightarrow> y \<le> n \<Longrightarrow> x \<in> set (vpath y) \<Longrightarrow> y \<in> set (vpath x) \<Longrightarrow> x = y"
  using vpath_dep [of y x] vpath_dep [of x y] by auto

lemma vpath_distinct: "x \<le> n \<Longrightarrow> distinct (vpath x)"
  by (induction rule: vinduct) (auto simp: vpath_step vpath_not_below)

lemma vdep_bound: "x \<le> n \<Longrightarrow> vdep x \<le> n"
  using card_mono [of "{..n}" "set (vpath x)"] vpath_le [of x] distinct_card [OF vpath_distinct [of x]]
  by (simp add: length_vpath)

lemma root_step: "x < n \<Longrightarrow> uf_root p x = (if vpar x = n then x else uf_root p (vpar x))"
proof -
  assume "x < n"
  then obtain xs where xs: "rpath p x xs" using p_forest p_len by (auto simp: forest_def)
  from xs show ?thesis
  proof cases
    case root
    then show ?thesis by (simp add: vpar_def uf_root_idem)
  next
    case (step ys)
    have "p ! x \<noteq> n" using step(4) p_len by (auto elim: rpath.cases)
    then show ?thesis using step rpath_uf_root [OF xs] rpath_uf_root [OF step(4)] rpath_hd [OF step(4)] by (simp add: vpar_def)
  qed
qed

lemma root_vpath: "x < n \<Longrightarrow> c \<in> set (vpath x) \<Longrightarrow> c \<noteq> n \<Longrightarrow> uf_root p c = uf_root p x"
proof -
  have "x \<le> n \<Longrightarrow> c \<in> set (vpath x) \<Longrightarrow> c \<noteq> n \<Longrightarrow> uf_root p c = uf_root p x" for x
    by (induction rule: vinduct) (auto simp: vpath_step root_step)
  then show "x < n \<Longrightarrow> c \<in> set (vpath x) \<Longrightarrow> c \<noteq> n \<Longrightarrow> uf_root p c = uf_root p x" by simp
qed

text \<open>The rows of children.\<close>

definition rows :: "nat list list" where
  "rows = map (\<lambda>q. filter (\<lambda>i. vpar i = q) [0..<n]) [0..<n + 1]"

lemma rows_simps [simp]: "length rows = n + 1" "q \<le> n \<Longrightarrow> rows ! q = filter (\<lambda>i. vpar i = q) [0..<n]"
  by (simp_all add: rows_def nth_append)

lemma children_loop:
  assumes "\<forall>i < n. vec_get C i pp = Inr (p ! i)" and "set is \<subseteq> {..<n}" and "length ch = n + 1"
  shows "tour_children C pp n is ch = Inr (map (\<lambda>q. ch ! q @ filter (\<lambda>i. vpar i = q) is) [0..<n + 1])"
  using assms(2,3)
proof (induction "is" arbitrary: ch)
  case Nil
  then show ?case using map_nth [of ch] by (simp del: upt_Suc)
next
  case (Cons i "is")
  have q: "(if p ! i = i then n else p ! i) = vpar i" by (simp add: vpar_def)
  have le: "vpar i \<le> n" using Cons.prems vpar_le by simp
  have "tour_children C pp n (i # is) ch = tour_children C pp n is (ch[vpar i := ch ! vpar i @ [i]])"
    using assms(1) Cons.prems le by (simp add: q Let_def)
  also have "\<dots> = Inr (map (\<lambda>q. (ch[vpar i := ch ! vpar i @ [i]]) ! q @ filter (\<lambda>i. vpar i = q) is) [0..<n + 1])"
    using Cons by simp
  finally show ?case using Cons.prems le by (auto simp: nth_list_update)
qed

lemma children_rows:
  assumes "\<forall>i < n. vec_get C i pp = Inr (p ! i)"
  shows "tour_children C pp n [0..<n] (replicate (n + 1) []) = Inr rows"
proof -
  have "tour_children C pp n [0..<n] (replicate (n + 1) []) =
      Inr (map (\<lambda>q. replicate (n + 1) [] ! q @ filter (\<lambda>i. vpar i = q) [0..<n]) [0..<n + 1])"
    by (rule children_loop [OF assms]) auto
  then show ?thesis by (simp add: rows_def del: upt_Suc replicate_Suc cong: map_cong)
qed

section \<open>The tour as a transition system\<close>

text \<open>The nodes on the stack and the tour so far.\<close>

inductive trail :: "nat list \<Rightarrow> nat list \<Rightarrow> bool" where
  begin_root: "trail [n] [n]"
| enter: "trail (x # r) E \<Longrightarrow> y < n \<Longrightarrow> vpar y = x \<Longrightarrow> y \<notin> set E \<Longrightarrow> trail (y # x # r) (E @ [y])"
| leave: "trail (x # z # r) E \<Longrightarrow> \<forall>y < n. vpar y = x \<longrightarrow> y \<in> set E \<Longrightarrow> trail (z # r) (E @ [z])"
| finish: "trail [x] E \<Longrightarrow> \<forall>y < n. vpar y = x \<longrightarrow> y \<in> set E \<Longrightarrow> trail [] E"

lemma vpath_two: "x \<le> n \<Longrightarrow> vpath x = x # z # r \<Longrightarrow> x < n \<and> vpar x = z \<and> z \<le> n \<and> vpath z = z # r"
  using vpath_step [of x] hd_vpath [of "vpar x"] vpar_le [of x] by (cases "x = n") auto

lemma trail_stack: "trail ns E \<Longrightarrow> ns \<noteq> [] \<Longrightarrow> hd ns \<le> n \<and> vpath (hd ns) = ns"
proof (induction rule: trail.induct)
  case (leave x z r E)
  then show ?case using vpath_two [of x z r] by simp
qed (auto simp: vpath_step)

lemma trail_two: "trail (x # z # r) E \<Longrightarrow> x < n \<and> vpar x = z \<and> z \<le> n \<and> vpath z = z # r"
  using trail_stack [of "x # z # r" E] vpath_two [of x z r] by simp

lemma trail_last: "trail ns E \<Longrightarrow> E \<noteq> [] \<and> (ns \<noteq> [] \<longrightarrow> last E = hd ns)"
  by (induction rule: trail.induct) auto

lemma trail_hd: "trail ns E \<Longrightarrow> E ! 0 = n"
proof (induction rule: trail.induct)
  case (enter x r E y)
  then show ?case using trail_last [OF enter.hyps(1)] by (simp add: nth_append)
next
  case (leave x z r E)
  then show ?case using trail_last [OF leave.hyps(1)] by (simp add: nth_append)
qed simp_all

lemma trail_le: "trail ns E \<Longrightarrow> set ns \<subseteq> {..n} \<and> set E \<subseteq> {..n}"
  by (induction rule: trail.induct) auto

lemma trail_par: "trail ns E \<Longrightarrow> y < n \<Longrightarrow> y \<in> set E \<Longrightarrow> vpar y \<in> set E"
proof (induction arbitrary: y rule: trail.induct)
  case (enter x r E y')
  then show ?case using trail_last [OF enter.hyps(1)] last_in_set [of E] by auto
next
  case (leave x z r E)
  have "x \<in> set E" using trail_last [OF leave.hyps(1)] last_in_set [of E] by auto
  then have "z \<in> set E" using trail_two [OF leave.hyps(1)] leave.IH [of x] by auto
  then show ?case using leave by auto
qed auto

lemma trail_up: "trail ns E \<Longrightarrow> x \<le> n \<Longrightarrow> x \<in> set E \<Longrightarrow> set (vpath x) \<subseteq> set E"
proof -
  assume t: "trail ns E"
  show "x \<le> n \<Longrightarrow> x \<in> set E \<Longrightarrow> set (vpath x) \<subseteq> set E"
    by (induction rule: vinduct) (use trail_par [OF t] in \<open>auto simp: vpath_step\<close>)
qed

lemma trail_on_stack: "trail ns E \<Longrightarrow> set ns \<subseteq> set E"
proof (cases "ns = []")
  case False
  assume t: "trail ns E"
  have "hd ns \<in> set E" using trail_last [OF t] False last_in_set [of E] by auto
  then show ?thesis using trail_up [OF t] trail_stack [OF t False] by metis
qed simp

lemma trail_done: "trail ns E \<Longrightarrow> x \<in> set E \<Longrightarrow> x \<notin> set ns \<Longrightarrow> y < n \<Longrightarrow> vpar y = x \<Longrightarrow> y \<in> set E"
proof (induction arbitrary: x y rule: trail.induct)
  case (enter x' r E y')
  then show ?case by (cases "x = y'") auto
next
  case (leave x' z r E)
  then show ?case by (cases "x = x'") auto
next
  case (finish x' E)
  then show ?case by (cases "x = x'") auto
qed simp

text \<open>A subtree that the tour has left is finished.\<close>

lemma trail_below:
  assumes "trail ns E" and "c \<in> set E" and "c \<notin> set ns" and "x \<le> n" and "c \<in> set (vpath x)" and "c \<noteq> n"
  shows "x \<in> set E \<and> x \<notin> set ns"
  using assms(4,5)
proof (induction rule: vinduct)
  case root
  then show ?case using assms(6) by simp
next
  case (child x)
  have keep: "x \<notin> set ns" if "c \<in> set (vpath x)"
  proof
    assume "x \<in> set ns"
    then have "set (vpath x) \<subseteq> set ns" using vpath_trans [of "hd ns" x] trail_stack [OF assms(1)] by force
    then show False using that assms(3) by auto
  qed
  show ?case
  proof (cases "c = x")
    case False
    then have "vpar x \<in> set E \<and> vpar x \<notin> set ns" using child by (simp add: vpath_step)
    then show ?thesis using trail_done [OF assms(1)] child keep by auto
  qed (use assms keep child in auto)
qed

lemma trail_left:
  assumes "trail ns E"
  shows "i < k \<Longrightarrow> k < length E \<Longrightarrow> c \<in> set (vpath (E ! i)) \<Longrightarrow> c \<notin> set (vpath (E ! k)) \<Longrightarrow> c \<notin> set ns"
  using assms
proof (induction arbitrary: i k rule: trail.induct)
  case (enter x r E y)
  show ?case
  proof (cases "k = length E")
    case True
    then have c: "c \<in> set (vpath (E ! i))" "c \<notin> set (vpath y)" "i < length E" using enter.prems by (auto simp: nth_append)
    have "vpath x = x # r" using trail_stack [OF enter.hyps(1)] by simp
    then show ?thesis using c enter.hyps by (auto simp: vpath_step)
  next
    case False
    then have k: "k < length E" "c \<in> set (vpath (E ! i))" "c \<notin> set (vpath (E ! k))" using enter.prems by (auto simp: nth_append)
    then have "c \<notin> set (x # r)" using enter.IH [OF enter.prems(1)] by blast
    moreover have "E ! i \<le> n" using trail_le [OF enter.hyps(1)] k enter.prems(1) by (meson atMost_iff dual_order.strict_trans nth_mem subsetD)
    then have "set (vpath (E ! i)) \<subseteq> set E" using trail_up [OF enter.hyps(1)] k enter.prems(1) by (meson dual_order.strict_trans nth_mem)
    then have "c \<noteq> y" using k enter.hyps by auto
    ultimately show ?thesis by simp
  qed
next
  case (leave x z r E)
  note two = trail_two [OF leave.hyps(1)]
  show ?case
  proof (cases "k = length E")
    case True
    then show ?thesis using two leave.prems by (auto simp: nth_append)
  next
    case False
    then have k: "k < length E" "c \<in> set (vpath (E ! i))" "c \<notin> set (vpath (E ! k))" using leave.prems by (auto simp: nth_append)
    then show ?thesis using leave.IH [OF leave.prems(1)] by auto
  qed
qed auto

lemma trail_contiguous:
  assumes "trail ns E"
  shows "i < k \<Longrightarrow> k < j \<Longrightarrow> j < length E \<Longrightarrow> c \<in> set (vpath (E ! i)) \<Longrightarrow> c \<notin> set (vpath (E ! k)) \<Longrightarrow> c \<notin> set (vpath (E ! j))"
  using assms
proof (induction arbitrary: i k j rule: trail.induct)
  case (enter x r E y)
  show ?case
  proof (cases "j = length E")
    case True
    then have k: "k < length E" "i < length E" "c \<in> set (vpath (E ! i))" "c \<notin> set (vpath (E ! k))" using enter.prems by (auto simp: nth_append)
    have le: "E ! i \<le> n" "E ! i \<in> set E" using trail_le [OF enter.hyps(1)] k by (auto dest: nth_mem)
    have "c \<noteq> n" using k(4) by auto
    then have "\<not> c \<in> set (vpath y)"
      using trail_below [OF enter.hyps(1) _ trail_left [OF enter.hyps(1) enter.prems(1) k(1,3,4)], of y] trail_up [OF enter.hyps(1) le] k(3) enter.hyps by auto
    then show ?thesis using True by (simp add: nth_append)
  qed (use enter in \<open>auto simp: nth_append\<close>)
next
  case (leave x z r E)
  show ?case
  proof (cases "j = length E")
    case True
    then have k: "k < length E" "i < length E" "c \<in> set (vpath (E ! i))" "c \<notin> set (vpath (E ! k))" using leave.prems by (auto simp: nth_append)
    then have "c \<notin> set (z # r)" using trail_left [OF leave.hyps(1) leave.prems(1) k(1,3,4)] by simp
    then show ?thesis using True trail_two [OF leave.hyps(1)] by (simp add: nth_append)
  qed (use leave in \<open>auto simp: nth_append\<close>)
qed auto

lemma trail_adjacent:
  assumes "trail ns E"
  shows "Suc k < length E \<Longrightarrow> E ! Suc k < n \<and> vpar (E ! Suc k) = E ! k \<or> E ! k < n \<and> vpar (E ! k) = E ! Suc k"
  using assms
proof (induction arbitrary: k rule: trail.induct)
  case (enter x r E y)
  have "Suc k = length E \<Longrightarrow> E ! k = x" using trail_last [OF enter.hyps(1)] last_nth_Suc [of E k] by auto
  then show ?case using enter by (cases "Suc k = length E") (auto simp: nth_append)
next
  case (leave x z r E)
  have "Suc k = length E \<Longrightarrow> E ! k = x" using trail_last [OF leave.hyps(1)] last_nth_Suc [of E k] by auto
  then show ?case using leave trail_two [OF leave.hyps(1)] by (cases "Suc k = length E") (auto simp: nth_append)
qed auto

lemma trail_final:
  assumes "trail [] E" and "x \<le> n"
  shows "x \<in> set E"
proof -
  have "E ! 0 \<in> set E" using trail_last [OF assms(1)] by simp
  then have n: "n \<in> set E" using trail_hd [OF assms(1)] by simp
  show ?thesis using assms(2) by (induction rule: vinduct) (use n trail_done [OF assms(1)] in auto)
qed

text \<open>Every node but the virtual root is entered once, and entering and leaving add one position each.\<close>

lemma trail_count: "trail ns E \<Longrightarrow> length E + length ns = 2 * card (set E \<inter> {..<n}) + (if ns = [] then 1 else 2)"
proof (induction rule: trail.induct)
  case (enter x r E y)
  then have "set (E @ [y]) \<inter> {..<n} = insert y (set E \<inter> {..<n})" "y \<notin> set E \<inter> {..<n}" by auto
  then have "card (set (E @ [y]) \<inter> {..<n}) = Suc (card (set E \<inter> {..<n}))" by simp
  then show ?case using enter by simp
next
  case (leave x z r E)
  then have "set (E @ [z]) = set E" using trail_on_stack [OF leave.hyps(1)] by auto
  then show ?case using leave by simp
qed auto

lemma trail_length: "trail ns E \<Longrightarrow> ns \<noteq> [] \<Longrightarrow> length E + length ns \<le> 2 * n + 2"
  using trail_count [of ns E] card_mono [of "{..<n}" "set E \<inter> {..<n}"] by simp

lemma trail_final_length: "trail [] E \<Longrightarrow> length E = 2 * n + 1"
proof -
  assume t: "trail [] E"
  then have "set E \<inter> {..<n} = {..<n}" using trail_final by auto
  then show ?thesis using trail_count [OF t] by simp
qed

section \<open>Positions of least depth\<close>

lemma trail_nth_le: "trail ns E \<Longrightarrow> k < length E \<Longrightarrow> E ! k \<le> n"
  using trail_le nth_mem by blast

lemma step_inside:
  assumes x: "x \<le> n" and c: "c \<in> set (vpath x)" and e: "y < n \<and> vpar y = x \<or> x < n \<and> vpar x = y" and d: "vdep c \<le> vdep y"
  shows "c \<in> set (vpath y)"
proof -
  consider "y < n" "vpar y = x" | "x < n" "vpar x = y" using e by blast
  then show ?thesis
  proof cases
    case 1
    then show ?thesis using c by (simp add: vpath_step)
  next
    case 2
    then have "c \<noteq> x" using d vdep_step [of x] by auto
    then show ?thesis using c 2 by (simp add: vpath_step)
  qed
qed

lemma trail_above:
  assumes t: "trail ns E" and d: "\<And>l. i \<le> l \<Longrightarrow> l \<le> j \<Longrightarrow> vdep (E ! k) \<le> vdep (E ! l)" and b: "i \<le> k" "k \<le> j" "j < length E"
  shows "E ! k \<in> set (vpath (E ! i))" and "E ! k \<in> set (vpath (E ! j))"
proof -
  have r: "k + l \<le> j \<Longrightarrow> E ! k \<in> set (vpath (E ! (k + l)))" for l
  proof (induction l)
    case 0
    then show ?case using vpath_self trail_nth_le [OF t] b by simp
  next
    case (Suc l)
    then have "k + l < length E" using b by simp
    with Suc show ?case
      using step_inside [of "E ! (k + l)" "E ! k" "E ! Suc (k + l)"] trail_nth_le [OF t] trail_adjacent [OF t, of "k + l"] d [of "Suc (k + l)"] b
      by auto
  qed
  have l: "i + l \<le> k \<Longrightarrow> E ! k \<in> set (vpath (E ! (k - l)))" for l
  proof (induction l)
    case 0
    then show ?case using vpath_self trail_nth_le [OF t] b by simp
  next
    case (Suc l)
    define q where "q = k - Suc l"
    have q: "k - l = Suc q" "Suc q < length E" "i \<le> q" "q \<le> j" using Suc.prems b by (auto simp: q_def)
    have "E ! k \<in> set (vpath (E ! Suc q))" using Suc q by simp
    then have "E ! k \<in> set (vpath (E ! q))"
      using step_inside [OF trail_nth_le [OF t q(2)], of "E ! k" "E ! q"] trail_adjacent [OF t q(2)] d [OF q(3,4)] by blast
    then show ?case by (simp add: q_def)
  qed
  show "E ! k \<in> set (vpath (E ! i))" using l [of "k - i"] b by simp
  show "E ! k \<in> set (vpath (E ! j))" using r [of "j - k"] b by simp
qed

lemma tour_min:
  assumes t: "trail ns E" and d: "\<And>l. i \<le> l \<Longrightarrow> l \<le> j \<Longrightarrow> vdep (E ! k) \<le> vdep (E ! l)" and b: "i \<le> k" "k \<le> j" "j < length E"
  shows "set (vpath (E ! k)) = set (vpath (E ! i)) \<inter> set (vpath (E ! j))"
proof
  have "E ! i \<le> n" "E ! j \<le> n" using trail_nth_le [OF t] b by auto
  then show "set (vpath (E ! k)) \<subseteq> set (vpath (E ! i)) \<inter> set (vpath (E ! j))"
    using trail_above [OF assms] vpath_trans by blast
  show "set (vpath (E ! i)) \<inter> set (vpath (E ! j)) \<subseteq> set (vpath (E ! k))"
    using trail_contiguous [OF t, of i k j] b by (metis IntE le_neq_implies_less subsetI)
qed

section \<open>The loop follows the transitions\<close>

definition frame_ok :: "nat list \<Rightarrow> nat \<times> nat \<times> nat \<Rightarrow> bool" where
  "frame_ok E = (\<lambda>(x, ci, d). d = vdep x \<and> ci \<le> length (rows ! x) \<and> (\<forall>i < length (rows ! x). rows ! x ! i \<in> set E \<longleftrightarrow> i < ci))"

text \<open>\<open>first\<close> holds a position of every visited node, \<open>tree_id\<close> the ordinal of its root.\<close>

definition marks_ok :: "tour \<Rightarrow> bool" where
  "marks_ok t \<longleftrightarrow> length (tr_first t) = n + 1 \<and> length (tr_tree t) = n + 1 \<and>
    (\<forall>x < n. if x \<in> set (tr_euler t)
       then tr_first t ! x < length (tr_euler t) \<and> tr_euler t ! (tr_first t ! x) = x \<and>
         tr_tree t ! x < length (rows ! n) \<and> rows ! n ! (tr_tree t ! x) = uf_root p x
       else tr_first t ! x = 0)"

definition tour_ok :: "(nat \<times> nat \<times> nat) list \<Rightarrow> tour \<Rightarrow> bool" where
  "tour_ok st t \<longleftrightarrow> trail (map fst st) (tr_euler t) \<and> tr_depth t = map vdep (tr_euler t) \<and> list_all (frame_ok (tr_euler t)) st \<and>
    marks_ok t \<and> (st \<noteq> [] \<and> fst (hd st) < n \<longrightarrow> tr_cur t < length (rows ! n) \<and> rows ! n ! tr_cur t = uf_root p (fst (hd st)))"

lemma tour_pos_ok: "k \<le> vc_imax C \<Longrightarrow> tour_pos C k = Inr k"
  by (simp add: tour_pos_def idx_try_def)

lemma enter_ok:
  assumes ok: "tour_ok ((x, ci, d) # st) t" and ci: "ci < length (rows ! x)" and bound: "2 * n \<le> vc_imax C"
  shows "\<exists>t'. tour_enter C n x ci (rows ! x ! ci) (Suc d) t = Inr t' \<and> tour_ok ((rows ! x ! ci, 0, Suc d) # (x, Suc ci, d) # st) t' \<and>
    length (tr_euler t') = Suc (length (tr_euler t))"
proof -
  let ?E = "tr_euler t" and ?y = "rows ! x ! ci"
  have t: "trail (x # map fst st) ?E" and D: "tr_depth t = map vdep ?E" and fr: "frame_ok ?E (x, ci, d)" "list_all (frame_ok ?E) st"
    and m: "marks_ok t" and cur: "x < n \<Longrightarrow> tr_cur t < length (rows ! n) \<and> rows ! n ! tr_cur t = uf_root p x"
    using ok by (auto simp: tour_ok_def)
  have x: "x \<le> n" using trail_le [OF t] by simp
  have "?y \<in> set (rows ! x)" using ci by simp
  then have y: "?y < n" "vpar ?y = x" using x by auto
  have new: "?y \<notin> set ?E" using fr(1) ci by (auto simp: frame_ok_def)
  have tr: "trail (?y # x # map fst st) (?E @ [?y])" by (rule trail.enter [OF t y new])
  have len: "length ?E \<le> 2 * n" using trail_length [OF tr] by simp
  have rl: "length (rows ! n) \<le> n" using length_filter_le [of _ "[0..<n]"] by simp
  have first0: "tr_first t ! ?y = 0" "length (tr_first t) = n + 1" "length (tr_tree t) = n + 1" using m y new by (auto simp: marks_ok_def)
  define cur' where "cur' = (if x = n then ci else tr_cur t)"
  have c: "cur' < length (rows ! n)" "rows ! n ! cur' = uf_root p ?y"
    using cur ci x y root_step [of ?y] by (auto simp: cur'_def simp del: rows_simps(2))
  define t' where "t' = \<lparr>tr_euler = ?E @ [?y], tr_depth = tr_depth t @ [Suc d], tr_first = (tr_first t)[?y := length ?E],
    tr_tree = (tr_tree t)[?y := cur'], tr_cur = cur'\<rparr>"
  have pos: "(if x = n then tour_pos C ci else Inr (tr_cur t)) = Inr cur'"
    using ci rl bound by (auto simp: cur'_def tour_pos_ok simp del: rows_simps(2))
  have e: "tour_enter C n x ci ?y (Suc d) t = Inr t'"
    using first0 y(1) len bound pos by (simp add: tour_enter_def t'_def tour_pos_ok Let_def del: rows_simps(2))
  have rd: "distinct (rows ! q)" if "q \<le> n" for q using that by simp
  have f0: "frame_ok (?E @ [?y]) (?y, 0, Suc d)"
  proof -
    have "rows ! ?y ! i \<notin> set (?E @ [?y])" if "i < length (rows ! ?y)" for i
    proof -
      have "rows ! ?y ! i \<in> set (rows ! ?y)" using that by simp
      then have w: "rows ! ?y ! i < n" "vpar (rows ! ?y ! i) = ?y" using y(1) by auto
      have "rows ! ?y ! i \<noteq> ?y" using w vpath_not_below [OF w(1)] vpath_self [of ?y] y(1) by (metis less_imp_le)
      moreover have "rows ! ?y ! i \<notin> set ?E" using new trail_par [OF t w(1)] w(2) by metis
      ultimately show ?thesis by (simp del: rows_simps(2))
    qed
    then show ?thesis using fr(1) y vdep_step [of ?y] by (simp add: frame_ok_def del: rows_simps(2))
  qed
  have f1: "frame_ok (?E @ [?y]) (x, Suc ci, d)"
    using fr(1) ci nth_eq_iff_index_eq [OF rd [OF x]] by (auto simp: frame_ok_def less_Suc_eq simp del: rows_simps(2))
  have nx: "x \<notin> set (map fst st)" using trail_stack [OF t] vpath_distinct [of x] by simp
  have "frame_ok (?E @ [?y]) (q, cq, dq)" if f: "(q, cq, dq) \<in> set st" for q cq dq
  proof -
    have q: "q \<in> set (map fst st)" using f by force
    then have "q \<le> n" "q \<noteq> x" using trail_le [OF t] nx by auto
    then have "rows ! q ! i \<noteq> ?y" if "i < length (rows ! q)" for i using nth_mem [OF that] y by auto
    moreover have "frame_ok ?E (q, cq, dq)" using fr(2) f by (simp add: list_all_iff)
    ultimately show ?thesis by (simp add: frame_ok_def del: rows_simps(2))
  qed
  then have f2: "list_all (frame_ok (?E @ [?y])) st" by (auto simp: list_all_iff)
  have "marks_ok t'" using m c y(1) by (auto simp: marks_ok_def t'_def nth_list_update nth_append simp del: rows_simps(2))
  moreover have "tr_depth t' = map vdep (?E @ [?y])" using D fr(1) vdep_step [of ?y] y by (simp add: t'_def frame_ok_def)
  ultimately have "tour_ok ((?y, 0, Suc d) # (x, Suc ci, d) # st) t'"
    using tr f0 f1 f2 c by (simp add: tour_ok_def t'_def del: rows_simps(2))
  then show ?thesis using e by (auto simp: t'_def)
qed

lemma frame_done:
  assumes "frame_ok E (x, ci, d)" and "x \<le> n" and "\<not> ci < length (rows ! x)"
  shows "\<forall>y < n. vpar y = x \<longrightarrow> y \<in> set E"
proof (intro allI impI)
  fix y assume "y < n" "vpar y = x"
  then have "y \<in> set (rows ! x)" using assms(2) by simp
  then obtain i where "i < length (rows ! x)" "rows ! x ! i = y" by (metis in_set_conv_nth)
  then show "y \<in> set E" using assms(1,3) by (auto simp: frame_ok_def simp del: rows_simps(2))
qed

lemma leave_ok:
  assumes ok: "tour_ok ((x, ci, d) # (z, cz, dz) # st) t" and ci: "\<not> ci < length (rows ! x)"
  shows "tour_ok ((z, cz, dz) # st) (t\<lparr>tr_euler := tr_euler t @ [z], tr_depth := tr_depth t @ [dz]\<rparr>)"
proof -
  let ?E = "tr_euler t"
  have t: "trail (x # z # map fst st) ?E" using ok by (auto simp: tour_ok_def)
  have fin: "\<forall>y < n. vpar y = x \<longrightarrow> y \<in> set ?E" using frame_done [of ?E x ci d] ok ci trail_le [OF t] by (simp add: tour_ok_def del: rows_simps(2))
  have "z \<in> set ?E" using trail_on_stack [OF t] by simp
  then have s: "set (?E @ [z]) = set ?E" by auto
  have "marks_ok t" using ok by (simp add: tour_ok_def)
  then have "marks_ok (t\<lparr>tr_euler := ?E @ [z], tr_depth := tr_depth t @ [dz]\<rparr>)"
    by (auto simp: marks_ok_def nth_append s simp del: rows_simps(2) set_append split: if_splits)
  moreover have "frame_ok (?E @ [z]) = frame_ok ?E" by (auto simp: frame_ok_def s fun_eq_iff simp del: set_append rows_simps(2))
  moreover have "uf_root p x = uf_root p z" if "z < n" using trail_two [OF t] root_step [of x] that by simp
  ultimately show ?thesis
    using ok trail.leave [OF t fin] trail_two [OF t] by (auto simp: tour_ok_def frame_ok_def simp del: rows_simps(2))
qed

lemma turn_ok:
  assumes ok: "tour_ok (fr # st) t" and b: "2 * n \<le> vc_imax C" "vc_imax C < 2 ^ 64"
  shows "\<exists>st' t'. tour_turn C n rows fr st t = Inr (st', t') \<and> tour_ok st' t' \<and> (st' = [] \<or> length (tr_euler t') = Suc (length (tr_euler t)))"
proof -
  obtain x ci d where fr: "fr = (x, ci, d)" by (cases fr)
  have t: "trail (x # map fst st) (tr_euler t)" and fo: "frame_ok (tr_euler t) (x, ci, d)" using ok fr by (auto simp: tour_ok_def)
  have x: "x \<le> n" using trail_le [OF t] by simp
  show ?thesis
  proof (cases "ci < length (rows ! x)")
    case True
    have "d + 1 < 2 ^ 64" using vdep_bound [OF x] fo b True by (simp add: frame_ok_def)
    then show ?thesis
      using enter_ok [OF ok [unfolded fr] True b(1)] True x by (auto simp: tour_turn_def fr usize_checked_add_def simp del: rows_simps(2))
  next
    case False
    note out = tour_turn_def fr
    show ?thesis
    proof (cases st)
      case Nil
      have "trail [] (tr_euler t)" using trail.finish [OF t [unfolded Nil, simplified]] frame_done [OF fo x False] by simp
      then have "tour_ok [] t" using ok by (simp add: tour_ok_def)
      then show ?thesis using Nil False x by (simp add: out del: rows_simps(2))
    next
      case (Cons f st')
      obtain z cz dz where f: "f = (z, cz, dz)" by (cases f)
      show ?thesis using leave_ok [OF ok [unfolded fr Cons f] False] Cons f False x by (simp add: out del: rows_simps(2))
    qed
  qed
qed

lemma loop_ok:
  assumes "tour_ok st t" and "st = [] \<or> 2 * n + 2 - length (tr_euler t) < fuel" and "0 < fuel" and b: "2 * n \<le> vc_imax C" "vc_imax C < 2 ^ 64"
  shows "\<exists>t'. tour_loop fuel C n rows st t = Inr t' \<and> tour_ok [] t'"
  using assms(1-3)
proof (induction fuel arbitrary: st t)
  case (Suc fuel)
  show ?case
  proof (cases st)
    case Nil
    then show ?thesis using Suc by simp
  next
    case (Cons fr st0)
    obtain st' t' where t': "tour_turn C n rows fr st0 t = Inr (st', t')" "tour_ok st' t'" "st' = [] \<or> length (tr_euler t') = Suc (length (tr_euler t))"
      using turn_ok [OF Suc.prems(1) [unfolded Cons] b] by blast
    have "trail (map fst st) (tr_euler t)" "st \<noteq> []" using Suc.prems(1) Cons by (auto simp: tour_ok_def)
    then have "length (tr_euler t) + length st \<le> 2 * n + 2" using trail_length [of "map fst st"] by simp
    then have "length (tr_euler t) < 2 * n + 2" using Cons by simp
    then have "st' = [] \<or> 2 * n + 2 - length (tr_euler t') < fuel" "0 < fuel" using Suc.prems(2) Cons t'(3) by auto
    then show ?thesis using Suc.IH [OF t'(2)] t'(1) Cons by simp
  qed
qed simp

lemma begin_ok: "tour_ok [(n, 0, 0)] \<lparr>tr_euler = [n], tr_depth = [0], tr_first = replicate (n + 1) 0, tr_tree = replicate (n + 1) 0, tr_cur = 0\<rparr>"
proof -
  have "rows ! n ! i < n" if "i < length (rows ! n)" for i using nth_mem [OF that] by simp
  then have "frame_ok [n] (n, 0, 0)" by (fastforce simp: frame_ok_def simp del: rows_simps(2))
  then show ?thesis by (simp add: tour_ok_def marks_ok_def trail.begin_root del: rows_simps(2) replicate_Suc)
qed

lemma euler_tour_ok:
  assumes "\<forall>i < n. vec_get C i pp = Inr (p ! i)" and "n \<le> tmax" and b: "2 * n \<le> vc_imax C" "vc_imax C < 2 ^ 64"
  shows "\<exists>t. euler_tour C tmax pp n = Inr t \<and> trail [] (tr_euler t) \<and> tr_depth t = map vdep (tr_euler t) \<and> marks_ok t"
proof -
  from loop_ok [OF begin_ok _ _ b, of "2 * n + 2"] obtain t where
    "tour_loop (2 * n + 2) C n rows [(n, 0, 0)] \<lparr>tr_euler = [n], tr_depth = [0], tr_first = replicate (n + 1) 0, tr_tree = replicate (n + 1) 0, tr_cur = 0\<rparr> = Inr t"
    "tour_ok [] t" by auto
  then show ?thesis using children_rows [OF assms(1)] assms(2)
    by (auto simp: euler_tour_def idx_try_def tour_ok_def simp del: replicate_Suc)
qed

end

end
