(* ===== verification/Lca_Rmq.thy ===== *)
theory Lca_Rmq
  imports Lca
begin

unbundle bit_operations_syntax

text \<open>
  Minima of a sequence whose neighbours differ by one.  The locale \<open>zigzag\<close> holds what the tables are: the block
  minima and patterns, the sparse table over blocks, and one lookup table per pattern, which serves every block
  with that pattern because blocks with equal patterns have equal differences.
\<close>

section \<open>Positions of minima\<close>

definition min_at :: "nat list \<Rightarrow> nat \<Rightarrow> nat \<Rightarrow> nat \<Rightarrow> bool" where
  "min_at ds i j k \<longleftrightarrow> i \<le> k \<and> k \<le> j \<and> (\<forall>l. i \<le> l \<longrightarrow> l \<le> j \<longrightarrow> ds ! k \<le> ds ! l)"

lemma min_at_self: "min_at ds i i i"
  by (auto simp: min_at_def)

lemma min_at_join:
  assumes "min_at ds i j a" and "min_at ds i' j' b" and "i \<le> i'" and "i' \<le> Suc j" and "j \<le> j'"
  shows "min_at ds i j' (if ds ! a \<le> ds ! b then a else b)" and "min_at ds i j' (if ds ! b < ds ! a then b else a)"
proof -
  have "l \<le> j \<or> i' \<le> l" for l using assms(4) by linarith
  then have m: "ds ! a \<le> ds ! l \<or> ds ! b \<le> ds ! l" if "i \<le> l" "l \<le> j'" for l using that assms(1,2) by (metis min_at_def)
  have le: "i \<le> a" "a \<le> j'" "i \<le> b" "b \<le> j'" using assms by (auto simp: min_at_def)
  then show "min_at ds i j' (if ds ! a \<le> ds ! b then a else b)" "min_at ds i j' (if ds ! b < ds ! a then b else a)"
    using m by (auto simp: min_at_def) (meson le_trans less_imp_le nle_le not_less)+
qed

text \<open>The middle one of three pieces is looked at last.\<close>

lemma min_at_three:
  assumes "min_at ds i j a" and "min_at ds i' j' c" and "min_at ds i'' j'' b" and "i' \<le> Suc j" and "i'' \<le> Suc j'"
    and "i \<le> i'" and "i \<le> i''" and "j \<le> j''" and "j' \<le> j''"
  shows "min_at ds i j'' (if ds ! c < ds ! (if ds ! a \<le> ds ! b then a else b) then c else if ds ! a \<le> ds ! b then a else b)"
proof -
  let ?best = "if ds ! a \<le> ds ! b then a else b"
  have "ds ! a \<le> ds ! l \<or> ds ! c \<le> ds ! l \<or> ds ! b \<le> ds ! l" if "i \<le> l" "l \<le> j''" for l
  proof -
    consider "l \<le> j" | "i' \<le> l" "l \<le> j'" | "i'' \<le> l" using assms(4,5) by linarith
    then show ?thesis using that assms(1-3) by cases (auto simp: min_at_def)
  qed
  then have "ds ! (if ds ! c < ds ! ?best then c else ?best) \<le> ds ! l" if "i \<le> l" "l \<le> j''" for l using that by fastforce
  moreover have "i \<le> a" "a \<le> j''" "i \<le> b" "b \<le> j''" "i \<le> c" "c \<le> j''" using assms by (auto simp: min_at_def)
  ultimately show ?thesis unfolding min_at_def by presburger
qed

lemma rmap_upt:
  assumes "\<And>i. i < k \<Longrightarrow> \<exists>y. f i = Inr y \<and> P i y"
  shows "\<exists>ys. rmap f [0..<k] = Inr ys \<and> length ys = k \<and> (\<forall>i < k. P i (ys ! i))"
  using rmap_all [of "[0..<k]" f P] assms by (fastforce simp: list_all2_conv_all_nth)

lemma bit_len_bounds: "0 < n \<Longrightarrow> 0 < bit_len n \<and> 2 ^ (bit_len n - 1) \<le> n \<and> n < 2 ^ bit_len n"
proof (induction n rule: bit_len.induct)
  case (1 n)
  show ?case
  proof (cases "n div 2 = 0")
    case True
    then show ?thesis using 1(2) by (simp add: bit_len.simps [of n] bit_len.simps [of 0]) 
  next
    case False
    then have d: "0 < bit_len (n div 2)" "2 ^ (bit_len (n div 2) - 1) \<le> n div 2" "n div 2 < 2 ^ bit_len (n div 2)" using 1 by auto
    then obtain k where k: "bit_len (n div 2) = Suc k" by (cases "bit_len (n div 2)") auto
    have "bit_len n = Suc (Suc k)" using 1(2) k by (simp add: bit_len.simps [of n])
    then show ?thesis using d k by auto
  qed
qed

lemma bit_len_le: "n < 2 ^ k \<Longrightarrow> bit_len n \<le> k"
proof (cases "n = 0")
  case False
  assume "n < 2 ^ k"
  then have "(2::nat) ^ (bit_len n - 1) < 2 ^ k" using bit_len_bounds [of n] False by linarith
  then have "bit_len n - 1 < k" by (rule power_less_imp_less_exp [rotated]) simp
  then show ?thesis by simp
qed (simp add: bit_len.simps)

lemma cell_eq: "j < bs \<Longrightarrow> j' < bs \<Longrightarrow> i * bs + j = i' * bs + j' \<longleftrightarrow> i = i' \<and> j = (j' :: nat)"
  by (metis add.commute div_mult_self3 div_less add_0 mod_mult_self3 mod_less less_zeroE mult.commute nat_mult_eq_cancel_disj add_left_cancel)

lemma cell_less: "i < bs \<Longrightarrow> j < bs \<Longrightarrow> i * bs + j < bs * (bs :: nat)"
  using mult_le_mono1 [of "Suc i" bs bs] by simp

section \<open>Blocks of a zigzag\<close>

definition ascents :: "nat list \<Rightarrow> nat \<Rightarrow> nat \<Rightarrow> nat \<Rightarrow> bool" where
  "ascents ds s e pat \<longleftrightarrow> (\<forall>t. bit pat t \<longleftrightarrow> s + t + 1 < e \<and> ds ! (s + t) < ds ! (s + t + 1))"

lemma block_scan_ok:
  assumes "s \<le> k" and "k \<le> e" and "s < e" and "e \<le> length ds" and "min_at ds s (max s (k - 1)) mi" and "md = ds ! mi" and "ascents ds s k pat"
  shows "\<exists>mi' pat'. block_scan ds s [k..<e] mi md pat = Inr (mi', pat') \<and> min_at ds s (e - 1) mi' \<and> ascents ds s e pat'"
  using assms
proof (induction "e - k" arbitrary: k mi md pat)
  case 0
  then show ?case by (auto simp: max_def split: if_splits)
next
  case (Suc d)
  then have k: "k < e" "[k..<e] = k # [Suc k..<e]" by (auto simp: upt_rec)
  have up: "(if s < k then rbind (nth_res ds (k - 1)) (\<lambda>dp. Inr (dp < ds ! k)) else Inr False) = (Inr (s < k \<and> ds ! (k - 1) < ds ! k) :: bool res)"
    using k Suc.prems by simp
  let ?mi = "if ds ! k < md then k else mi" and ?md = "if ds ! k < md then ds ! k else md"
  let ?pat = "if s < k \<and> ds ! (k - 1) < ds ! k then pat OR 2 ^ (k - s - 1) else pat"
  have "k \<le> Suc (max s (k - 1))" "max s (k - 1) \<le> k" using Suc.prems(1) by auto
  then have mi: "min_at ds s (max s (Suc k - 1)) ?mi"
    using min_at_join(2) [OF Suc.prems(5) min_at_self [of ds k] Suc.prems(1)] Suc.prems(1,6) by simp
  have "ascents ds s (Suc k) ?pat"
  proof -
    have "s + t + 1 = k \<longleftrightarrow> s < k \<and> t = k - s - 1" for t using Suc.prems(1) by auto
    then show ?thesis using Suc.prems(7) unfolding ascents_def by (auto simp: bit_or_iff bit_exp_iff less_Suc_eq)
  qed
  moreover have "?md = ds ! ?mi" using Suc.prems(6) by simp
  moreover have "d = e - Suc k" "s \<le> Suc k" "Suc k \<le> e" using Suc(2) Suc.prems(1) k by auto
  ultimately obtain mi' pat' where "block_scan ds s [Suc k..<e] ?mi ?md ?pat = Inr (mi', pat')" "min_at ds s (e - 1) mi'" "ascents ds s e pat'"
    using Suc(1) [of "Suc k" ?mi ?md ?pat] Suc.prems(3,4) mi by blast
  then show ?case using k Suc.prems by (simp only: k(2) block_scan.simps nth_res_in rbind_Inr up) auto
qed

locale zigzag =
  fixes C :: "('s, nat) vec_cfg" and ds :: "nat list"
  assumes steps: "\<And>k. Suc k < length ds \<Longrightarrow> ds ! Suc k = Suc (ds ! k) \<or> ds ! k = Suc (ds ! Suc k)"
    and nonempty: "ds \<noteq> []" and fits: "length ds \<le> Suc (vc_imax C)" "length ds < 2 ^ 64"
begin

abbreviation "m \<equiv> length ds"

definition bsz :: nat where
  "bsz = max (bit_len m div 2) 1"

definition num :: nat where
  "num = div_ceil m bsz"

definition bend :: "nat \<Rightarrow> nat" where
  "bend b = min (b * bsz + bsz) m"

lemma bsz_pos: "0 < bsz" and bsz_small: "bsz < 2 ^ 16"
  using bit_len_le [OF fits(2)] by (auto simp: bsz_def)

lemma num_blocks: "b < num \<longleftrightarrow> b * bsz < m"
proof -
  have "b < (m + bsz - 1) div bsz \<longleftrightarrow> Suc b * bsz \<le> m + bsz - 1" using bsz_pos by (metis Suc_le_eq less_eq_div_iff_mult_less_eq)
  then show ?thesis using bsz_pos nonempty by (auto simp: num_def div_ceil_def)
qed

lemma num_pos: "0 < num"
  using num_blocks [of 0] nonempty by simp

lemma block_of: "i < m \<Longrightarrow> i div bsz < num" "i < m \<Longrightarrow> i < bend (i div bsz)"
proof -
  assume "i < m"
  moreover have "i div bsz * bsz + i mod bsz = i" "i mod bsz < bsz" using bsz_pos by simp_all
  ultimately show "i div bsz < num" "i < bend (i div bsz)" unfolding num_blocks bend_def by linarith+
qed

lemma bend_bounds: "b < num \<Longrightarrow> b * bsz < bend b" "bend b \<le> m" "bend b \<le> b * bsz + bsz"
  using bsz_pos num_blocks [of b] by (auto simp: bend_def)

lemma bend_full: "b < b' \<Longrightarrow> b' < num \<Longrightarrow> bend b = b * bsz + bsz"
  using num_blocks [of b'] mult_le_mono1 [of "Suc b" b' bsz] by (simp add: bend_def)

lemma bend_next: "Suc b < num \<Longrightarrow> bend b = Suc b * bsz"
  using bend_full [of b "Suc b"] by simp

definition bd_ok :: "block_decomp \<Rightarrow> bool" where
  "bd_ok bd \<longleftrightarrow> bd_size bd = bsz \<and> bd_num bd = num \<and> length (bd_min bd) = num \<and> length (bd_type bd) = num \<and>
    (\<forall>b < num. min_at ds (b * bsz) (bend b - 1) (bd_min bd ! b) \<and> ascents ds (b * bsz) (bend b) (bd_type bd ! b))"

lemma block_entry_ok:
  assumes "b < num"
  shows "\<exists>y. block_entry C ds m bsz b = Inr y \<and> min_at ds (b * bsz) (bend b - 1) (fst y) \<and> ascents ds (b * bsz) (bend b) (snd y)"
proof -
  note bb = bend_bounds [of b]
  have "ascents ds (b * bsz) (b * bsz) 0" by (simp add: ascents_def)
  then obtain mi pat where r: "block_scan ds (b * bsz) [b * bsz..<bend b] (b * bsz) (ds ! (b * bsz)) 0 = Inr (mi, pat)"
    "min_at ds (b * bsz) (bend b - 1) mi" "ascents ds (b * bsz) (bend b) pat"
    using block_scan_ok [of "b * bsz" "b * bsz" "bend b" ds "b * bsz" "ds ! (b * bsz)" 0] bb assms min_at_self [of ds "b * bsz"]
    by (auto simp: max_absorb1)
  then have "mi \<le> vc_imax C" using bb assms fits by (auto simp: min_at_def)
  then show ?thesis using r bb assms by (auto simp: block_entry_def Let_def bend_def tour_pos_def idx_try_def)
qed

lemma block_decompose_ok: "\<exists>bd. block_decompose C ds m = Inr bd \<and> bd_ok bd"
proof -
  obtain ys where "rmap (block_entry C ds m bsz) [0..<num] = Inr ys \<and> length ys = num \<and>
    (\<forall>b < num. min_at ds (b * bsz) (bend b - 1) (fst (ys ! b)) \<and> ascents ds (b * bsz) (bend b) (snd (ys ! b)))"
    using rmap_upt [of num "block_entry C ds m bsz" "\<lambda>b y. min_at ds (b * bsz) (bend b - 1) (fst y) \<and> ascents ds (b * bsz) (bend b) (snd y)", OF block_entry_ok]
    by auto
  then show ?thesis by (auto simp: block_decompose_def Let_def bd_ok_def num_def bsz_def [unfolded One_nat_def])
qed

section \<open>The sparse table\<close>

definition level_ok :: "nat \<Rightarrow> nat list \<Rightarrow> bool" where
  "level_ok k level \<longleftrightarrow> length level = num - 2 ^ k + 1 \<and> (\<forall>i. i + 2 ^ k \<le> num \<longrightarrow> min_at ds (i * bsz) (bend (i + 2 ^ k - 1) - 1) (level ! i))"

lemma min_at_bound: "min_at ds i (bend b - 1) k \<Longrightarrow> b < num \<Longrightarrow> k < m"
  using bend_bounds [of b] by (auto simp: min_at_def)

lemma level_join:
  assumes p: "level_ok k prev" and i: "i + 2 ^ Suc k \<le> num"
  shows "i < length prev" "i + 2 ^ k < length prev" "prev ! i < m" "prev ! (i + 2 ^ k) < m"
    "min_at ds (i * bsz) (bend (i + 2 ^ Suc k - 1) - 1) (if ds ! (prev ! i) \<le> ds ! (prev ! (i + 2 ^ k)) then prev ! i else prev ! (i + 2 ^ k))"
proof -
  have l: "min_at ds (i * bsz) (bend (i + 2 ^ k - 1) - 1) (prev ! i)"
    "min_at ds ((i + 2 ^ k) * bsz) (bend (i + 2 ^ Suc k - 1) - 1) (prev ! (i + 2 ^ k))"
    using p i spec [of "\<lambda>i. i + 2 ^ k \<le> num \<longrightarrow> min_at ds (i * bsz) (bend (i + 2 ^ k - 1) - 1) (prev ! i)" "i + 2 ^ k"]
    by (auto simp: level_ok_def mult_2 add.assoc)
  have p2: "(1::nat) \<le> 2 ^ k" by simp
  have lt: "i + 2 ^ k < num" using i p2 by (simp only: power_Suc)
  then have b: "bend (i + 2 ^ k - 1) = (i + 2 ^ k) * bsz" using bend_next [of "i + 2 ^ k - 1"] p2 by (simp add: Suc_diff_le)
  show "i < length prev" "i + 2 ^ k < length prev" using p i p2 by (auto simp: level_ok_def)
  show "prev ! i < m" "prev ! (i + 2 ^ k) < m" using min_at_bound [OF l(1)] min_at_bound [OF l(2)] i lt num_pos by linarith+
  have "(i + 2 ^ k) * bsz < bend (i + 2 ^ Suc k - 1)"
  proof -
    have "i + 2 ^ k \<le> i + 2 ^ Suc k - 1" "i + 2 ^ Suc k - 1 < num" using i p2 num_pos unfolding power_Suc by linarith+
    then show ?thesis using bend_bounds(1) [of "i + 2 ^ Suc k - 1"] mult_le_mono1 [of "i + 2 ^ k" "i + 2 ^ Suc k - 1" bsz] by linarith
  qed
  then show "min_at ds (i * bsz) (bend (i + 2 ^ Suc k - 1) - 1) (if ds ! (prev ! i) \<le> ds ! (prev ! (i + 2 ^ k)) then prev ! i else prev ! (i + 2 ^ k))"
    by (intro min_at_join(1) [OF l]) (use b p2 in auto)
qed

lemma log_blocks_bound: "k < log_blocks num \<Longrightarrow> 2 ^ k \<le> num"
proof -
  assume k: "k < log_blocks num"
  show ?thesis
  proof (cases "1 < num")
    case True
    then have "(2::nat) ^ k \<le> 2 ^ (bit_len (num - 1) - 1)" using k by (intro power_increasing) (auto simp: log_blocks_def)
    then show ?thesis using bit_len_bounds [of "num - 1"] True by linarith
  qed (use k num_pos in \<open>auto simp: log_blocks_def\<close>)
qed

lemma sparse_level_ok:
  assumes p: "level_ok k prev" and k: "Suc k < log_blocks num"
  shows "\<exists>level. rmap (sparse_cell ds prev (2 ^ k)) [0..<num - 2 ^ Suc k + 1] = Inr level \<and> level_ok (Suc k) level"
proof -
  have i: "i + 2 ^ Suc k \<le> num" if "i < num - 2 ^ Suc k + 1" for i using that log_blocks_bound [OF k] by linarith
  have "\<exists>y. sparse_cell ds prev (2 ^ k) i = Inr y \<and> min_at ds (i * bsz) (bend (i + 2 ^ Suc k - 1) - 1) y" if "i < num - 2 ^ Suc k + 1" for i
    using level_join [OF p i [OF that]] by (simp add: sparse_cell_def)
  from rmap_upt [OF this] show ?thesis by (force simp: level_ok_def)
qed

definition sparse_ok :: "nat list list \<Rightarrow> bool" where
  "sparse_ok sparse \<longleftrightarrow> length sparse = log_blocks num \<and> (\<forall>k < length sparse. level_ok k (sparse ! k))"

lemma sparse_levels_ok:
  assumes "0 < k" and "k \<le> log_blocks num" and "length sparse = k" and "\<forall>q < k. level_ok q (sparse ! q)"
  shows "\<exists>r. sparse_levels ds num [k..<log_blocks num] sparse = Inr r \<and> sparse_ok r"
  using assms
proof (induction "log_blocks num - k" arbitrary: k sparse)
  case 0
  then show ?case by (auto simp: sparse_ok_def)
next
  case (Suc d)
  then obtain j where j: "k = Suc j" by (cases k) auto
  have k: "k < log_blocks num" "[k..<log_blocks num] = k # [Suc k..<log_blocks num]" using Suc(2) by (auto simp: upt_rec)
  obtain level where l: "rmap (sparse_cell ds (sparse ! j) (2 ^ j)) [0..<num - 2 ^ Suc j + 1] = Inr level" "level_ok k level"
    using sparse_level_ok [of j "sparse ! j"] Suc.prems k j by auto
  have "\<forall>q < Suc k. level_ok q ((sparse @ [level]) ! q)" using Suc.prems l by (auto simp: nth_append less_Suc_eq)
  then obtain r where "sparse_levels ds num [Suc k..<log_blocks num] (sparse @ [level]) = Inr r" "sparse_ok r"
    using Suc(1) [of "Suc k" "sparse @ [level]"] Suc(2) Suc.prems(3) k(1) by fastforce
  moreover have "sparse_levels ds num [k..<log_blocks num] sparse = sparse_levels ds num [Suc k..<log_blocks num] (sparse @ [level])"
    using l(1) j Suc.prems(3) unfolding k(2) by (simp del: upt_Suc power_Suc)
  ultimately show ?case by simp
qed

lemma build_sparse_ok: "bd_ok bd \<Longrightarrow> \<exists>sparse. build_sparse_table ds bd = Inr sparse \<and> sparse_ok sparse"
proof -
  assume bd: "bd_ok bd"
  have "1 \<le> log_blocks num" using bit_len_bounds [of "num - 1"] by (auto simp: log_blocks_def)
  moreover have "level_ok 0 (bd_min bd)" using bd num_pos by (auto simp: level_ok_def bd_ok_def)
  ultimately show ?thesis using sparse_levels_ok [of 1 "[bd_min bd]"] bd by (simp add: build_sparse_table_def bd_ok_def)
qed

section \<open>Lookup tables\<close>

text \<open>The cells of a table up to column \<open>j\<close> of row \<open>i\<close>, for a block that ends at \<open>e\<close>.\<close>

definition row_ok :: "nat \<Rightarrow> nat \<Rightarrow> nat \<Rightarrow> nat \<Rightarrow> nat list \<Rightarrow> bool" where
  "row_ok base e i j table \<longleftrightarrow> (\<forall>k. i \<le> k \<longrightarrow> k < j \<longrightarrow> base + k < e \<longrightarrow> min_at ds (base + i) (base + k) (base + table ! (i * bsz + k)))"

definition table_ok :: "nat \<Rightarrow> nat \<Rightarrow> nat list \<Rightarrow> bool" where
  "table_ok base e table \<longleftrightarrow> length table = bsz * bsz \<and> (\<forall>i < bsz. row_ok base e i bsz table)"

lemma cells_ok:
  assumes "i < j" and "j \<le> bsz" and "e \<le> m" and "length table = bsz * bsz" and "row_ok base e i j table"
  shows "\<exists>t. lookup_cells ds base e bsz i [j..<bsz] table = Inr t \<and> length t = bsz * bsz \<and> row_ok base e i bsz t \<and>
    (\<forall>q k. q \<noteq> i \<longrightarrow> k < bsz \<longrightarrow> t ! (q * bsz + k) = table ! (q * bsz + k))"
  using assms
proof (induction "bsz - j" arbitrary: j table)
  case 0
  then show ?case by auto
next
  case (Suc d)
  then have j: "j < bsz" "[j..<bsz] = j # [Suc j..<bsz]" by (auto simp: upt_rec)
  obtain j' where j': "j = Suc j'" using Suc.prems by (cases j) auto
  let ?pm = "table ! (i * bsz + j')"
  have i: "i < bsz" using Suc.prems j by simp
  define less where "less = (base + j < e \<and> ds ! (base + j) < ds ! (base + ?pm))"
  define t where "t = table[i * bsz + j := as_u16 (if less then j else ?pm)]"
  have pm: "min_at ds (base + i) (base + j') (base + ?pm)" if "base + j < e" using Suc.prems(5) that Suc.prems(1) j' by (auto simp: row_ok_def)
  then have pb: "base + ?pm \<le> base + j'" if "base + j < e" using that by (auto simp: min_at_def)
  have len: "i * bsz + j < bsz * bsz" using cell_less [OF i j(1)] .
  have cell: "lookup_cell ds base e bsz i j table = Inr t"
  proof -
    have "(if base + j < e then rbind (nth_res ds (base + j)) (\<lambda>dj. rbind (nth_res ds (base + ?pm)) (\<lambda>dp. Inr (dj < dp))) else Inr False) = (Inr less :: bool res)"
      using pb Suc.prems(3) j' by (auto simp: less_def)
    moreover have "nth_res table (i * bsz + j - 1) = Inr ?pm" using len Suc.prems(4) j' by simp
    ultimately show ?thesis using len Suc.prems(4) by (simp only: lookup_cell_def rbind_Inr t_def upd_res_in)
  qed
  have "row_ok base e i (Suc j) t"
    unfolding row_ok_def
  proof (intro allI impI)
    fix k assume k: "i \<le> k" "k < Suc j" "base + k < e"
    show "min_at ds (base + i) (base + k) (base + t ! (i * bsz + k))"
    proof (cases "k = j")
      case True
      have "(if less then j else ?pm) < 2 ^ 16" using True k pb j j' bsz_small by (auto simp: less_def)
      then have "base + t ! (i * bsz + k) = (if ds ! (base + j) < ds ! (base + ?pm) then base + j else base + ?pm)"
        using True k len Suc.prems(4) by (simp add: t_def as_u16_def less_def)
      then show ?thesis using True min_at_join(2) [OF pm min_at_self [of ds "base + j"]] k j' Suc.prems(1) by auto
    next
      case False
      then have "i * bsz + k \<noteq> i * bsz + j" by simp
      then show ?thesis using False k Suc.prems(5) by (auto simp: t_def row_ok_def)
    qed
  qed
  moreover have "length t = bsz * bsz" using Suc.prems(4) by (simp add: t_def)
  ultimately obtain t' where t': "lookup_cells ds base e bsz i [Suc j..<bsz] t = Inr t'" "length t' = bsz * bsz" "row_ok base e i bsz t'"
    "\<forall>q k. q \<noteq> i \<longrightarrow> k < bsz \<longrightarrow> t' ! (q * bsz + k) = t ! (q * bsz + k)"
    using Suc(1) [of "Suc j" t] Suc(2) Suc.prems(1,3) j(1) by fastforce
  have "t ! (q * bsz + k) = table ! (q * bsz + k)" if "q \<noteq> i" "k < bsz" for q k
    using that cell_eq [of k bsz j q i] j by (simp add: t_def)
  then show ?case using t' cell unfolding j(2) by auto
qed

lemma rows_ok:
  assumes "i \<le> bsz" and "e \<le> m" and "length table = bsz * bsz" and "\<forall>q < i. row_ok base e q bsz table"
  shows "\<exists>t. lookup_rows ds base e bsz [i..<bsz] table = Inr t \<and> table_ok base e t"
  using assms
proof (induction "bsz - i" arbitrary: i table)
  case 0
  then show ?case by (auto simp: table_ok_def)
next
  case (Suc d)
  then have i: "i < bsz" "[i..<bsz] = i # [Suc i..<bsz]" by (auto simp: upt_rec)
  let ?t = "table[i * bsz + i := as_u16 i]"
  have len: "i * bsz + i < bsz * bsz" using cell_less [OF i(1) i(1)] .
  have "row_ok base e i (i + 1) ?t"
    using len Suc.prems(3) i bsz_small min_at_self by (auto simp: row_ok_def as_u16_def less_Suc_eq)
  then obtain t where t: "lookup_cells ds base e bsz i [i + 1..<bsz] ?t = Inr t" "length t = bsz * bsz" "row_ok base e i bsz t"
    "\<forall>q k. q \<noteq> i \<longrightarrow> k < bsz \<longrightarrow> t ! (q * bsz + k) = ?t ! (q * bsz + k)"
    using cells_ok [of i "i + 1" e ?t base] Suc.prems i by auto
  have "t ! (q * bsz + k) = table ! (q * bsz + k)" if "q \<noteq> i" "k < bsz" for q k
    using that cell_eq [of k bsz i q i] i t(4) by simp
  then have "\<forall>q < Suc i. row_ok base e q bsz t" using Suc.prems(4) t(3) by (auto simp: row_ok_def less_Suc_eq)
  then obtain t' where "lookup_rows ds base e bsz [Suc i..<bsz] t = Inr t'" "table_ok base e t'"
    using Suc(1) [of "Suc i" t] Suc(2) Suc.prems(2) t(2) i(1) by fastforce
  then show ?case using t(1) len Suc.prems(3) unfolding i(2) by auto
qed

definition lookup_ok :: "block_decomp \<Rightarrow> nat \<Rightarrow> nat list list \<Rightarrow> bool" where
  "lookup_ok bd b lk \<longleftrightarrow> length lk = 2 ^ (bsz - 1) \<and> (\<forall>q < length lk. if lk ! q = [] then \<forall>c < b. bd_type bd ! c \<noteq> q
     else \<exists>c < b. bd_type bd ! c = q \<and> table_ok (c * bsz) (bend c) (lk ! q) \<and> (\<forall>d < c. bd_type bd ! d \<noteq> q))"

lemma pattern_bound: "bd_ok bd \<Longrightarrow> b < num \<Longrightarrow> bd_type bd ! b < 2 ^ (bsz - 1)"
proof -
  assume bd: "bd_ok bd" "b < num"
  then have "ascents ds (b * bsz) (bend b) (bd_type bd ! b)" by (simp add: bd_ok_def)
  then have "bit (bd_type bd ! b) t \<Longrightarrow> t < bsz - 1" for t using bend_bounds(3) [of b] by (auto simp: ascents_def)
  then have "take_bit (bsz - 1) (bd_type bd ! b) = bd_type bd ! b" by (intro bit_eqI) (auto simp: bit_take_bit_iff)
  then show ?thesis by (metis take_bit_nat_less_exp)
qed

lemma lookup_blocks_ok:
  assumes bd: "bd_ok bd" and "b \<le> num" and "lookup_ok bd b lk"
  shows "\<exists>r. lookup_blocks ds bd m [b..<num] lk = Inr r \<and> lookup_ok bd num r"
  using assms(2,3)
proof (induction "num - b" arbitrary: b lk)
  case 0
  then show ?case by auto
next
  case (Suc d)
  then have b: "b < num" "[b..<num] = b # [Suc b..<num]" by (auto simp: upt_rec)
  let ?q = "bd_type bd ! b"
  have q: "?q < length lk" using pattern_bound [OF bd b(1)] Suc.prems(2) by (simp add: lookup_ok_def)
  have bl: "b < length (bd_type bd)" "bd_size bd = bsz" using bd b by (auto simp: bd_ok_def)
  show ?case
  proof (cases "lk ! ?q = []")
    case False
    have "lookup_ok bd (Suc b) lk" using Suc.prems(2) False by (force simp: lookup_ok_def less_Suc_eq)
    then show ?thesis using Suc(1) [of "Suc b" lk] Suc(2) b q bl False by fastforce
  next
    case True
    obtain t where t: "lookup_rows ds (b * bsz) (bend b) bsz [0..<bsz] (replicate (bsz * bsz) 0) = Inr t" "table_ok (b * bsz) (bend b) t"
      using rows_ok [of 0 "bend b" "replicate (bsz * bsz) 0" "b * bsz"] bend_bounds(2) [of b] by auto
    have ne: "t \<noteq> []" using t(2) bsz_pos by (auto simp: table_ok_def)
    have fresh: "\<forall>c < b. bd_type bd ! c \<noteq> ?q" using Suc.prems(2) q True by (auto simp: lookup_ok_def)
    have "lookup_ok bd (Suc b) (lk[?q := t])"
      unfolding lookup_ok_def
    proof (intro conjI allI impI)
      show "length (lk[?q := t]) = 2 ^ (bsz - 1)" using Suc.prems(2) by (simp add: lookup_ok_def)
      fix r assume r: "r < length (lk[?q := t])"
      show "if lk[?q := t] ! r = [] then \<forall>c < Suc b. bd_type bd ! c \<noteq> r
        else \<exists>c < Suc b. bd_type bd ! c = r \<and> table_ok (c * bsz) (bend c) (lk[?q := t] ! r) \<and> (\<forall>d < c. bd_type bd ! d \<noteq> r)"
      proof (cases "r = ?q")
        case True
        then show ?thesis using ne t(2) fresh q by auto
      next
        case False
        then have "lk[?q := t] ! r = lk ! r" by simp
        then show ?thesis using Suc.prems(2) r False unfolding lookup_ok_def by (auto simp: less_Suc_eq split: if_splits)
      qed
    qed
    then obtain r where "lookup_blocks ds bd m [Suc b..<num] (lk[?q := t]) = Inr r" "lookup_ok bd num r"
      using Suc(1) [of "Suc b" "lk[?q := t]"] Suc(2) b(1) by fastforce
    then show ?thesis using True q bl t(1) unfolding b(2) by (auto simp: Let_def bend_def)
  qed
qed

lemma build_lookup_ok:
  assumes bd: "bd_ok bd"
  shows "\<exists>lk. build_block_lookup ds bd m = Inr lk \<and> lookup_ok bd num lk"
proof -
  have "lookup_ok bd 0 (replicate (2 ^ (bsz - 1)) [])" by (simp add: lookup_ok_def)
  then show ?thesis using lookup_blocks_ok [OF bd, of 0] bd by (simp add: build_block_lookup_def bd_ok_def)
qed

text \<open>Blocks with the same pattern rise and fall together.\<close>

lemma same_pattern:
  assumes "ascents ds s e pat" and "ascents ds s0 e0 pat" and "e \<le> m" and "e0 \<le> m"
  shows "s + t < e \<Longrightarrow> s0 + t < e0 \<Longrightarrow> ds ! (s + t) + ds ! s0 = ds ! (s0 + t) + ds ! s"
proof (induction t)
  case (Suc t)
  then have IH: "ds ! (s + t) + ds ! s0 = ds ! (s0 + t) + ds ! s" by simp
  have "ds ! (s + t) < ds ! (s + t + 1) \<longleftrightarrow> ds ! (s0 + t) < ds ! (s0 + t + 1)"
    using assms(1,2) Suc.prems by (auto simp: ascents_def)
  moreover have "ds ! (s + t + 1) = Suc (ds ! (s + t)) \<or> ds ! (s + t) = Suc (ds ! (s + t + 1))"
    "ds ! (s0 + t + 1) = Suc (ds ! (s0 + t)) \<or> ds ! (s0 + t) = Suc (ds ! (s0 + t + 1))"
    using steps [of "s + t"] steps [of "s0 + t"] Suc.prems assms(3,4) by auto
  ultimately show ?case using IH by auto
qed simp

lemma in_block_min_ok:
  assumes bd: "bd_ok bd" and lk: "lookup_ok bd num lk" and b: "b < num" and ij: "i \<le> j" "b * bsz + j < bend b"
  shows "\<exists>k. in_block_min (bd_type bd) lk bsz b i j = Inr k \<and> min_at ds (b * bsz + i) (b * bsz + j) k"
proof -
  let ?q = "bd_type bd ! b"
  have q: "?q < length lk" using pattern_bound [OF bd b] lk by (simp add: lookup_ok_def)
  then have l: "if lk ! ?q = [] then \<forall>c < num. bd_type bd ! c \<noteq> ?q
     else \<exists>c < num. bd_type bd ! c = ?q \<and> table_ok (c * bsz) (bend c) (lk ! ?q) \<and> (\<forall>d < c. bd_type bd ! d \<noteq> ?q)"
    using lk by (simp add: lookup_ok_def)
  then have "lk ! ?q \<noteq> []" using b by metis
  then obtain c where c: "c < num" "bd_type bd ! c = ?q" "table_ok (c * bsz) (bend c) (lk ! ?q)" "\<forall>d < c. bd_type bd ! d \<noteq> ?q"
    using l by auto
  have cb: "c \<le> b" using c(4) not_less by blast
  have j: "j < bsz" using ij bend_bounds(3) [of b] by linarith
  have cj: "c * bsz + j < bend c" using cb ij j bend_full [of c b] b by (cases "c = b") auto
  let ?r = "lk ! ?q ! (i * bsz + j)"
  have m: "min_at ds (c * bsz + i) (c * bsz + j) (c * bsz + ?r)" using c(3) ij j cj by (simp add: table_ok_def row_ok_def)
  have "ascents ds (b * bsz) (bend b) ?q" "ascents ds (c * bsz) (bend c) ?q" using bd b c(1,2) by (auto simp: bd_ok_def)
  note sp = same_pattern [OF this bend_bounds(2) bend_bounds(2)]
  have r: "i \<le> ?r" "?r \<le> j" using m by (auto simp: min_at_def)
  have "ds ! (b * bsz + ?r) \<le> ds ! l" if "b * bsz + i \<le> l" "l \<le> b * bsz + j" for l
  proof -
    define t where "t = l - b * bsz"
    have t: "l = b * bsz + t" "i \<le> t" "t \<le> j" using that by (auto simp: t_def)
    then have "ds ! (c * bsz + ?r) \<le> ds ! (c * bsz + t)" using m by (simp add: min_at_def)
    then show ?thesis using sp [of ?r] sp [of t] r t ij cj by simp
  qed
  then have "min_at ds (b * bsz + i) (b * bsz + j) (b * bsz + ?r)" using r by (simp add: min_at_def)
  moreover have "length (lk ! ?q) = bsz * bsz" "b < length (bd_type bd)" using c(3) bd b by (auto simp: table_ok_def bd_ok_def)
  ultimately show ?thesis using q cell_less [of i bsz j] ij j by (simp add: in_block_min_def)
qed

section \<open>Queries\<close>

definition table_for :: "block_decomp \<Rightarrow> lca_table \<Rightarrow> bool" where
  "table_for bd T \<longleftrightarrow> bd_ok bd \<and> lt_depth T = ds \<and> lt_bs T = bsz \<and> lt_type T = bd_type bd \<and> lookup_ok bd num (lt_lookup T) \<and> sparse_ok (lt_sparse T)"

lemma query_level:
  assumes "0 < bl" and "bl \<le> br" and "Suc br < num"
  obtains k where "bit_len (br - bl + 1) - 1 = k" and "k < log_blocks num" and "2 ^ k \<le> br" and "bl + 2 ^ k \<le> Suc br" and "Suc br \<le> bl + 2 ^ k + 2 ^ k"
proof -
  define k where "k = bit_len (br - bl + 1) - 1"
  have b: "2 ^ k \<le> br - bl + 1" "br - bl + 1 < 2 ^ Suc k" using bit_len_bounds [of "br - bl + 1"] by (auto simp: k_def)
  have "(2::nat) ^ k < 2 ^ bit_len (num - 1)" using b(1) assms bit_len_bounds [of "num - 1"] by linarith
  then have "k < bit_len (num - 1)" by (rule power_less_imp_less_exp [rotated]) simp
  then have "k < log_blocks num" using assms by (simp add: log_blocks_def)
  moreover have "2 ^ k \<le> br" "bl + 2 ^ k \<le> Suc br" using b(1) assms by linarith+
  moreover have "Suc br \<le> bl + 2 ^ k + 2 ^ k" using b(2) assms unfolding power_Suc by linarith
  ultimately show thesis using that [of k] by (simp add: k_def)
qed

lemma sparse_query_ok:
  assumes T: "table_for bd T" and b: "0 < bl" "bl \<le> br" "Suc br < num"
  shows "\<exists>k. sparse_query T bl br = Inr k \<and> min_at ds (bl * bsz) (bend br - 1) k"
proof -
  obtain k where k: "bit_len (br - bl + 1) - 1 = k" "k < log_blocks num" "2 ^ k \<le> br" "bl + 2 ^ k \<le> Suc br" "Suc br \<le> bl + 2 ^ k + 2 ^ k"
    using query_level [OF b] .
  have lv: "level_ok k (lt_sparse T ! k)" "k < length (lt_sparse T)" using T k by (auto simp: table_for_def sparse_ok_def)
  define q where "q = br - 2 ^ k + 1"
  have q: "q + 2 ^ k = Suc br" "bl \<le> q" using k b by (auto simp: q_def)
  let ?l = "lt_sparse T ! k ! bl" and ?r = "lt_sparse T ! k ! q"
  have m: "min_at ds (bl * bsz) (bend (bl + 2 ^ k - 1) - 1) ?l" "min_at ds (q * bsz) (bend br - 1) ?r"
  proof -
    have lk: "min_at ds (i * bsz) (bend (i + 2 ^ k - 1) - 1) (lt_sparse T ! k ! i)" if "i + 2 ^ k \<le> num" for i
      using lv(1) that by (simp add: level_ok_def)
    show "min_at ds (bl * bsz) (bend (bl + 2 ^ k - 1) - 1) ?l" by (rule lk) (use k b in linarith)
    show "min_at ds (q * bsz) (bend br - 1) ?r" using lk [of q] q b by simp
  qed
  have len: "bl < length (lt_sparse T ! k)" "q < length (lt_sparse T ! k)" using lv(1) k b q by (auto simp: level_ok_def)
  have lt: "?l < m" "?r < m" using min_at_bound [OF m(1)] min_at_bound [OF m(2)] k b by auto
  have "min_at ds (bl * bsz) (bend br - 1) (if ds ! ?l \<le> ds ! ?r then ?l else ?r)"
  proof (rule min_at_join(1) [OF m])
    have e: "bend (bl + 2 ^ k - 1) = (bl + 2 ^ k) * bsz" using bend_next [of "bl + 2 ^ k - 1"] k b by (simp add: Suc_diff_le)
    have "q \<le> bl + 2 ^ k" using k q by linarith
    then have "q * bsz \<le> bend (bl + 2 ^ k - 1)" using mult_le_mono1 [of q "bl + 2 ^ k" bsz] e by simp
    then show "q * bsz \<le> Suc (bend (bl + 2 ^ k - 1) - 1)" by simp
    show "bl * bsz \<le> q * bsz" using q by simp
    have "(bl + 2 ^ k) * bsz \<le> bend br" using mult_le_mono1 [of "bl + 2 ^ k" "Suc br" bsz] k bend_next [of br] b by simp
    then show "bend (bl + 2 ^ k - 1) - 1 \<le> bend br - 1" using e by simp
  qed
  moreover have "sparse_query T bl br = Inr (if ds ! ?l \<le> ds ! ?r then ?l else ?r)"
    using T k(1,3) b len lt lv(2) by (simp add: sparse_query_def usize_checked_sub_def table_for_def Let_def q_def)
  ultimately show ?thesis by blast
qed

lemma rmq_ok:
  assumes T: "table_for bd T" and ij: "i \<le> j" "j < m"
  shows "\<exists>k. rmq T i j = Inr k \<and> min_at ds i j k"
proof -
  let ?bi = "i div bsz" and ?bj = "j div bsz"
  have bd: "bd_ok bd" and lk: "lookup_ok bd num (lt_lookup T)" and tb: "lt_bs T = bsz" "lt_type T = bd_type bd" "lt_depth T = ds"
    using T by (auto simp: table_for_def)
  have i: "?bi * bsz + i mod bsz = i" "i mod bsz < bsz" and j: "?bj * bsz + j mod bsz = j" "j mod bsz < bsz" using bsz_pos by auto
  have bl: "?bi \<le> ?bj" using ij by (simp add: div_le_mono)
  have bj: "?bj < num" "j < bend ?bj" using block_of ij by auto
  show ?thesis
  proof (cases "?bi = ?bj")
    case True
    then have "i mod bsz \<le> j mod bsz" using i j ij by (metis add_le_cancel_left)
    then show ?thesis using in_block_min_ok [OF bd lk bj(1), of "i mod bsz" "j mod bsz"] True i j bj tb by (simp add: rmq_def Let_def)
  next
    case False
    then have lt: "?bi < ?bj" using bl by simp
    have full: "bend ?bi = ?bi * bsz + bsz" using bend_full [OF lt bj(1)] .
    obtain l where l: "in_block_min (bd_type bd) (lt_lookup T) bsz ?bi (i mod bsz) (bsz - 1) = Inr l" "min_at ds i (bend ?bi - 1) l"
    proof -
      have "?bi < num" "i mod bsz \<le> bsz - 1" "?bi * bsz + (bsz - 1) < bend ?bi" "?bi * bsz + (bsz - 1) = bend ?bi - 1"
        using lt bj(1) i(2) bsz_pos full by linarith+
      then show thesis using that in_block_min_ok [OF bd lk, of ?bi "i mod bsz" "bsz - 1"] i(1) by auto
    qed
    obtain r where r: "in_block_min (bd_type bd) (lt_lookup T) bsz ?bj 0 (j mod bsz) = Inr r" "min_at ds (?bj * bsz) j r"
      using in_block_min_ok [OF bd lk bj(1), of 0 "j mod bsz"] j bj by auto
    have lr: "l < m" "r < m" using l(2) r(2) ij bend_bounds(2) [of ?bi] bsz_pos full by (auto simp: min_at_def)
    let ?best = "if ds ! l \<le> ds ! r then l else r"
    show ?thesis
    proof (cases "?bi + 1 < ?bj")
      case False
      then have e: "?bj = Suc ?bi" using lt by simp
      have "min_at ds i j ?best"
      proof (rule min_at_join(1) [OF l(2) r(2)])
        show "i \<le> ?bj * bsz" using i full unfolding e mult_Suc by linarith
        show "?bj * bsz \<le> Suc (bend ?bi - 1)" "bend ?bi - 1 \<le> j" using full j unfolding e by auto
      qed
      then show ?thesis using l(1) r(1) lr False lt tb by (simp add: rmq_def Let_def)
    next
      case True
      obtain q where q: "sparse_query T (?bi + 1) (?bj - 1) = Inr q" "min_at ds (Suc ?bi * bsz) (bend (?bj - 1) - 1) q"
      proof -
        have "0 < ?bi + 1" "?bi + 1 \<le> ?bj - 1" "Suc (?bj - 1) < num" using True bj(1) by linarith+
        then show thesis using that sparse_query_ok [OF T, of "?bi + 1" "?bj - 1"] by auto
      qed
      have e: "bend (?bj - 1) = ?bj * bsz" using bend_next [of "?bj - 1"] True bj(1) by simp
      have sb: "Suc ?bi * bsz \<le> ?bj * bsz" "Suc ?bi * bsz < ?bj * bsz" using True bsz_pos by (simp_all del: mult_Suc)
      have qm: "q < m" using min_at_bound [OF q(2)] bj(1) by simp
      have "min_at ds i j (if ds ! q < ds ! ?best then q else ?best)"
        by (rule min_at_three [OF l(2) q(2) r(2)]) (use i j full e sb mult_Suc [of ?bi bsz] in linarith)+
      then show ?thesis using l(1) r(1) q(1) lr qm True tb by (auto simp: rmq_def Let_def split: if_splits)
    qed
  qed
qed

end

end
