(* ===== verification/Lca_Tables.thy ===== *)
theory Lca_Tables
  imports Lca_Tour Lca_Rmq
begin

text \<open>
  The two kinds of tables.  Building either over a forest succeeds, the table with differences gives the answers of
  the table with depths, and the answers are the lowest common ancestors.
\<close>

section \<open>Tables with differences\<close>

context zigzag
begin

abbreviation with_depth :: "nat \<Rightarrow> nat \<times> nat" where
  "with_depth k \<equiv> (k, ds ! k)"

definition compact_for :: "lca_table \<Rightarrow> lca_compact \<Rightarrow> bool" where
  "compact_for T K \<longleftrightarrow> lt_depth T = ds \<and> lk_bs K = bsz \<and> lt_bs T = bsz \<and> lk_type K = lt_type T \<and> lk_lookup K = lt_lookup T \<and>
    lk_sparse K = map (map with_depth) (lt_sparse T) \<and> length (lk_delta K) = m - 1 \<and>
    (\<forall>i < m - 1. 0 < lk_delta K ! i \<longleftrightarrow> ds ! i < ds ! Suc i) \<and> length (lk_bdepth K) = num \<and> (\<forall>b < num. lk_bdepth K ! b = ds ! (b * bsz))"

lemma depth_sum_ok:
  assumes "length delta = m - 1" and "\<forall>i < m - 1. 0 < delta ! i \<longleftrightarrow> ds ! i < ds ! Suc i" and "k \<le> e" and "e < m"
  shows "depth_sum delta [k..<e] (ds ! k) = Inr (ds ! e)"
  using assms(3)
proof (induction "e - k" arbitrary: k)
  case (Suc d)
  then have k: "[k..<e] = k # [Suc k..<e]" "k < e" by (auto simp: upt_rec)
  have "(if 0 < delta ! k then Inr (ds ! k + 1) else expect Underflow (usize_checked_sub (ds ! k) 1)) = Inr (ds ! Suc k)"
    using steps [of k] assms(2,4) k by (auto simp: usize_checked_sub_def)
  then show ?case using Suc k assms(1,4) by simp
qed simp

lemma depth_at_ok:
  assumes "compact_for T K" and "pos < m"
  shows "depth_at K pos = Inr (ds ! pos)"
proof -
  have "pos div bsz < num" using block_of assms(2) by blast
  moreover have "pos div bsz * bsz + pos mod bsz = pos" by simp
  ultimately show ?thesis using assms depth_sum_ok [of "lk_delta K" "pos div bsz * bsz" pos]
    by (simp add: depth_at_def Let_def compact_for_def)
qed

lemma compact_query_eq:
  assumes "compact_for T K" and "sparse_query T bl br = Inr k"
  shows "compact_query K bl br = Inr (with_depth k)"
  using assms by (auto simp: sparse_query_def compact_query_def compact_for_def Let_def nth_res_eq_Inr elim!: rbind_eq_InrE)

lemma compact_rmq_eq:
  assumes K: "compact_for T K" and r: "rmq T i j = Inr k"
  shows "compact_rmq K i j = Inr k"
proof (cases "i div bsz = j div bsz")
  case True
  then show ?thesis using assms by (simp add: rmq_def compact_rmq_def compact_for_def Let_def)
next
  case False
  have t: "lt_bs T = bsz" "lk_bs K = bsz" "lt_depth T = ds" "lk_type K = lt_type T" "lk_lookup K = lt_lookup T" using K by (auto simp: compact_for_def)
  show ?thesis
    using r False unfolding rmq_def compact_rmq_def t Let_def
    by (auto simp: nth_res_eq_Inr depth_at_ok [OF K] compact_query_eq [OF K] elim!: rbind_eq_InrE split: if_splits)
qed

lemma compact_levels_eq:
  "sparse_levels ds N ks sp = Inr r \<Longrightarrow> compact_levels N ks (map (map with_depth) sp) = Inr (map (map with_depth) r)"
proof (induction ks arbitrary: sp)
  case (Cons k ks)
  have cells: "rmap (sparse_cell ds prev h) is = Inr level \<Longrightarrow> rmap (compact_cell (map with_depth prev) h) is = Inr (map with_depth level)" for prev h "is" level
    by (induction "is" arbitrary: level) (auto simp: sparse_cell_def compact_cell_def nth_res_eq_Inr elim!: rbind_eq_InrE)
  from Cons.prems show ?case
    using Cons.IH [of "sp @ [level]" for level] by (fastforce simp: nth_res_eq_Inr simp del: upt_Suc elim!: rbind_eq_InrE dest!: cells)
qed simp

lemma build_tables:
  obtains bd sparse lk where "block_decompose C ds m = Inr bd" and "build_sparse_table ds bd = Inr sparse" and "build_block_lookup ds bd m = Inr lk"
    and "bd_ok bd" and "sparse_ok sparse" and "lookup_ok bd num lk"
  using block_decompose_ok build_sparse_ok build_lookup_ok by blast

lemma compact_parts:
  assumes bd: "bd_ok bd" and sp: "build_sparse_table ds bd = Inr sparse"
  obtains delta bdepth level0 where "rmap (delta_cell ds) [1..<m] = Inr delta"
    and "rmap (\<lambda>b. nth_res ds (b * bd_size bd)) [0..<bd_num bd] = Inr bdepth"
    and "rmap (\<lambda>pos. rbind (nth_res ds pos) (\<lambda>d. Inr (pos, d))) (bd_min bd) = Inr level0"
    and "compact_levels (bd_num bd) [1..<log_blocks (bd_num bd)] [level0] = Inr (map (map with_depth) sparse)"
    and "length delta = m - 1" and "\<forall>i < m - 1. 0 < delta ! i \<longleftrightarrow> ds ! i < ds ! Suc i"
    and "length bdepth = num" and "\<forall>b < num. bdepth ! b = ds ! (b * bsz)"
proof -
  let ?delta = "map (\<lambda>i. if ds ! (i - 1) < ds ! i then 1 else if ds ! i < ds ! (i - 1) then - 1 else 0 :: int) [1..<m]"
  let ?bd = "map (\<lambda>b. ds ! (b * bsz)) [0..<num]"
  have "rmap (delta_cell ds) [1..<m] = Inr ?delta"
    by (rule rmap_ok) (auto simp: delta_cell_def)
  moreover have "rmap (\<lambda>b. nth_res ds (b * bd_size bd)) [0..<bd_num bd] = Inr ?bd"
  proof -
    have "rmap (\<lambda>b. nth_res ds (b * bsz)) [0..<num] = Inr ?bd" by (rule rmap_ok) (simp add: num_blocks)
    then show ?thesis using bd by (simp add: bd_ok_def)
  qed
  moreover have "rmap (\<lambda>pos. rbind (nth_res ds pos) (\<lambda>d. Inr (pos, d))) (bd_min bd) = Inr (map with_depth (bd_min bd))"
  proof (rule rmap_ok)
    fix pos assume "pos \<in> set (bd_min bd)"
    then obtain b where "b < num" "pos = bd_min bd ! b" using bd by (auto simp: in_set_conv_nth bd_ok_def)
    then have "pos < m" using bd min_at_bound by (auto simp: bd_ok_def)
    then show "rbind (nth_res ds pos) (\<lambda>d. Inr (pos, d)) = Inr (with_depth pos)" by simp
  qed
  moreover have "compact_levels (bd_num bd) [1..<log_blocks (bd_num bd)] [map with_depth (bd_min bd)] = Inr (map (map with_depth) sparse)"
    using compact_levels_eq [of "bd_num bd" _ "[bd_min bd]" sparse] sp by (simp add: build_sparse_table_def)
  ultimately show thesis by (rule that) auto
qed

end

section \<open>Lowest common ancestors\<close>

definition ancestor :: "nat list \<Rightarrow> nat \<Rightarrow> nat \<Rightarrow> bool" where
  "ancestor p d x \<longleftrightarrow> (\<exists>xs. rpath p x xs \<and> d \<in> set xs)"

text \<open>The ancestors of \<open>c\<close>, which is one of them, are the common ancestors of \<open>a\<close> and \<open>b\<close>.\<close>

definition lowest_common :: "nat list \<Rightarrow> nat \<Rightarrow> nat \<Rightarrow> nat \<Rightarrow> bool" where
  "lowest_common p a b c \<longleftrightarrow> ancestor p c c \<and> (\<forall>d. ancestor p d c \<longleftrightarrow> ancestor p d a \<and> ancestor p d b)"

context rooted
begin

lemma ancestor_vpath: "x < n \<Longrightarrow> ancestor p d x \<longleftrightarrow> d \<in> set (vpath x) \<and> d \<noteq> n"
proof -
  assume "x < n"
  then obtain xs where xs: "rpath p x xs" using p_forest p_len by (auto simp: forest_def)
  then have "n \<notin> set xs" using rpath_bound [OF xs] p_len by auto
  moreover have "ancestor p d x \<longleftrightarrow> d \<in> set xs" using xs rpath_det by (metis ancestor_def)
  ultimately show ?thesis using vpath_rpath [OF xs] by auto
qed

lemma lowest_root: "lowest_common p a b c \<Longrightarrow> a < n \<Longrightarrow> b < n \<Longrightarrow> uf_root p a = uf_root p b"
proof -
  assume "lowest_common p a b c" and ab: "a < n" "b < n"
  then have "ancestor p c a" "ancestor p c b" by (auto simp: lowest_common_def)
  then have "uf_root p c = uf_root p a" "uf_root p c = uf_root p b" using root_vpath ancestor_vpath ab by blast+
  then show ?thesis by simp
qed

lemma zigzag_tour:
  assumes t: "trail [] E" and "2 * n \<le> vc_imax C" and "vc_imax C < 2 ^ 64 - 1"
  shows "zigzag C (map vdep E)"
proof
  fix k assume "Suc k < length (map vdep E)"
  then show "map vdep E ! Suc k = Suc (map vdep E ! k) \<or> map vdep E ! k = Suc (map vdep E ! Suc k)"
    using trail_adjacent [OF t, of k] vdep_step [of "E ! k"] vdep_step [of "E ! Suc k"] by auto
qed (use trail_final_length [OF t] trail_last [OF t] assms in auto)

definition answer :: "nat \<Rightarrow> nat \<Rightarrow> nat option \<Rightarrow> bool" where
  "answer a b r \<longleftrightarrow> (case r of None \<Rightarrow> \<not> (a < n \<and> b < n \<and> uf_root p a = uf_root p b)
     | Some c \<Rightarrow> a < n \<and> b < n \<and> c < n \<and> lowest_common p a b c)"

lemma answer_min:
  assumes t: "trail [] E" and k: "min_at (map vdep E) i j k" "j < length E" and ab: "{E ! i, E ! j} = {a, b}" "a < n" "b < n"
    and r: "uf_root p a = uf_root p b"
  shows "E ! k < n \<and> lowest_common p a b (E ! k)"
proof -
  have ijk: "i \<le> k" "k \<le> j" using k by (auto simp: min_at_def)
  have d: "vdep (E ! k) \<le> vdep (E ! l)" if "i \<le> l" "l \<le> j" for l using k that ijk by (auto simp: min_at_def)
  have s: "set (vpath (E ! k)) = set (vpath a) \<inter> set (vpath b)"
    using tour_min [OF t d ijk k(2)] ab(1) by (auto simp: doubleton_eq_iff)
  have rt: "ancestor p (uf_root p x) x" if x: "x < n" for x
  proof -
    obtain xs where "rpath p x xs" "last xs = uf_root p x" using forest_rpath [OF p_forest] x p_len by auto
    then show ?thesis using rpath_last by (metis ancestor_def)
  qed
  have "uf_root p a \<in> set (vpath (E ! k))" "uf_root p a \<noteq> n"
    using rt [OF ab(2)] rt [OF ab(3)] r ancestor_vpath [OF ab(2)] ancestor_vpath [OF ab(3)] s by auto
  then have "E ! k \<noteq> n" by (metis empty_iff empty_set set_ConsD vpath_n)
  then have c: "E ! k < n" using trail_nth_le [OF t, of k] ijk k(2) by simp
  then show ?thesis using s ancestor_vpath ab(2,3) vpath_self [of "E ! k"] by (auto simp: lowest_common_def)
qed

text \<open>What the answers depend on.\<close>

lemma lca_answer:
  assumes t: "trail [] (lt_euler T)" and mk: "marks_ok t" and tt: "lt_euler T = tr_euler t" "lt_first T = tr_first t" "lt_tree T = tr_tree t"
    and n: "lt_n T = n" and q: "\<And>i j. i \<le> j \<Longrightarrow> j < length (lt_euler T) \<Longrightarrow> \<exists>k. rmq T i j = Inr k \<and> min_at (map vdep (lt_euler T)) i j k"
  shows "\<exists>r. lca T a b = Inr r \<and> answer a b r"
proof (cases "a < n \<and> b < n")
  case True
  let ?E = "lt_euler T" and ?f = "lt_first T"
  have len: "length ?f = n + 1" "length (lt_tree T) = n + 1" using mk tt by (auto simp: marks_ok_def)
  have m: "?f ! x < length ?E" "?E ! (?f ! x) = x" "lt_tree T ! x < length (rows ! n)" "rows ! n ! (lt_tree T ! x) = uf_root p x" if "x < n" for x
  proof -
    have "tr_first t ! x < length (tr_euler t) \<and> tr_euler t ! (tr_first t ! x) = x \<and> tr_tree t ! x < length (rows ! n) \<and>
        rows ! n ! (tr_tree t ! x) = uf_root p x"
      using mk that trail_final [OF t, of x] tt unfolding marks_ok_def by (metis less_imp_le)
    then show "?f ! x < length ?E" "?E ! (?f ! x) = x" "lt_tree T ! x < length (rows ! n)" "rows ! n ! (lt_tree T ! x) = uf_root p x"
      using tt by auto
  qed
  have nz: "?f ! x \<noteq> 0" if "x < n" for x using m(2) [OF that] trail_hd [OF t] that by (metis less_irrefl)
  have tr: "lt_tree T ! a = lt_tree T ! b \<longleftrightarrow> uf_root p a = uf_root p b"
    using m(3,4) [of a] m(3,4) [of b] True nth_eq_iff_index_eq [of "rows ! n" "lt_tree T ! a" "lt_tree T ! b"]
    by (auto simp del: rows_simps(2)) simp
  show ?thesis
  proof (cases "uf_root p a = uf_root p b")
    case False
    then show ?thesis using True len n nz tr by (auto simp: lca_def answer_def)
  next
    case eq: True
    have "\<exists>k. (if ?f ! a \<le> ?f ! b then rmq T (?f ! a) (?f ! b) else rmq T (?f ! b) (?f ! a)) = Inr k \<and> k < length ?E \<and>
        ?E ! k < n \<and> lowest_common p a b (?E ! k)"
    proof (cases "?f ! a \<le> ?f ! b")
      case le: True
      obtain k where k: "rmq T (?f ! a) (?f ! b) = Inr k" "min_at (map vdep ?E) (?f ! a) (?f ! b) k" using q [OF le] m(1) True by blast
      then show ?thesis using answer_min [OF t k(2) _ _ _ _ eq] m(1) [of a] m(1) [of b] m(2) True le by (auto simp: min_at_def)
    next
      case gt: False
      then obtain k where k: "rmq T (?f ! b) (?f ! a) = Inr k" "min_at (map vdep ?E) (?f ! b) (?f ! a) k" using q [of "?f ! b" "?f ! a"] m(1) True by auto
      then show ?thesis using answer_min [OF t k(2) _ _ _ _ eq] m(1) [of a] m(1) [of b] m(2) True gt by (auto simp: min_at_def)
    qed
    then show ?thesis using True eq len n nz tr by (auto simp: lca_def answer_def)
  qed
qed (auto simp: lca_def answer_def n)

lemma build_ok:
  assumes get: "\<forall>i < n. vec_get C i pp = Inr (p ! i)" and "n \<le> tmax" and b: "2 * n \<le> vc_imax C" "vc_imax C < 2 ^ 64 - 1"
  shows "\<exists>T K. lca_build C tmax pp n = Inr T \<and> compact_build C tmax pp n = Inr K \<and>
    (\<forall>a b. \<exists>r. lca T a b = Inr r \<and> answer a b r \<and> compact_lca K a b = Inr r)"
proof (cases "n = 0")
  case True
  have "answer a b None" for a b unfolding answer_def using True by simp
  then show ?thesis by (simp add: lca_build_def compact_build_def lca_def compact_lca_def True)
next
  case False
  obtain t where t: "euler_tour C tmax pp n = Inr t" "trail [] (tr_euler t)" "tr_depth t = map vdep (tr_euler t)" "marks_ok t"
    using euler_tour_ok [OF get assms(2) b(1)] b(2) by auto
  let ?ds = "map vdep (tr_euler t)"
  note z = zigzag_tour [OF t(2) b]
  obtain bd sparse lk where bs: "block_decompose C ?ds (length ?ds) = Inr bd" "build_sparse_table ?ds bd = Inr sparse"
    "build_block_lookup ?ds bd (length ?ds) = Inr lk" "zigzag.bd_ok ?ds bd" "zigzag.sparse_ok ?ds sparse" "zigzag.lookup_ok ?ds bd (zigzag.num ?ds) lk"
    using zigzag.build_tables [OF z] .
  define T where "T = \<lparr>lt_euler = tr_euler t, lt_depth = ?ds, lt_first = tr_first t, lt_tree = tr_tree t, lt_n = n, lt_bs = bd_size bd,
    lt_sparse = sparse, lt_lookup = lk, lt_type = bd_type bd\<rparr>"
  have lb: "lca_build C tmax pp n = Inr T" using False t(1,3) bs by (simp add: lca_build_def Let_def T_def)
  have bz: "bd_size bd = zigzag.bsz ?ds" using bs(4) by (simp add: zigzag.bd_ok_def [OF z])
  have tf: "zigzag.table_for ?ds bd T" using bs bz by (simp add: zigzag.table_for_def [OF z] T_def)
  obtain delta bdepth level0 where k: "rmap (delta_cell ?ds) [1..<length ?ds] = Inr delta"
    "rmap (\<lambda>b. nth_res ?ds (b * bd_size bd)) [0..<bd_num bd] = Inr bdepth"
    "rmap (\<lambda>pos. rbind (nth_res ?ds pos) (\<lambda>d. Inr (pos, d))) (bd_min bd) = Inr level0"
    "compact_levels (bd_num bd) [1..<log_blocks (bd_num bd)] [level0] = Inr (map (map (\<lambda>k. (k, ?ds ! k))) sparse)"
    "length delta = length ?ds - 1" "\<forall>i < length ?ds - 1. 0 < delta ! i \<longleftrightarrow> ?ds ! i < ?ds ! Suc i"
    "length bdepth = zigzag.num ?ds" "\<forall>b < zigzag.num ?ds. bdepth ! b = ?ds ! (b * zigzag.bsz ?ds)"
    using zigzag.compact_parts [OF z bs(4,2)] .
  define K where "K = \<lparr>lk_euler = tr_euler t, lk_delta = delta, lk_bdepth = bdepth, lk_first = tr_first t, lk_tree = tr_tree t, lk_n = n,
    lk_bs = bd_size bd, lk_sparse = map (map (\<lambda>k. (k, ?ds ! k))) sparse, lk_lookup = lk, lk_type = bd_type bd\<rparr>"
  have cb: "compact_build C tmax pp n = Inr K"
    using False t(1,3) bs(1,3) k(1-4) by (simp add: compact_build_def Let_def K_def del: One_nat_def)
  have cf: "zigzag.compact_for ?ds T K" using k bz by (simp add: zigzag.compact_for_def [OF z] T_def K_def)
  have q: "\<exists>k. rmq T i j = Inr k \<and> min_at ?ds i j k" if "i \<le> j" "j < length (tr_euler t)" for i j
    using zigzag.rmq_ok [OF z tf] that by simp
  have "\<exists>r. lca T a b = Inr r \<and> answer a b r \<and> compact_lca K a b = Inr r" for a b
  proof -
    obtain r where r: "lca T a b = Inr r" "answer a b r" using lca_answer [of T t a b] t(2,4) q by (auto simp: T_def)
    have "lk_n K = lt_n T" "lk_first K = lt_first T" "lk_tree K = lt_tree T" "lk_euler K = lt_euler T" by (auto simp: T_def K_def)
    then have "compact_lca K a b = Inr r"
      using r(1) zigzag.compact_rmq_eq [OF z cf] by (auto simp: lca_def compact_lca_def elim!: rbind_eq_InrE split: if_splits)
    with r show ?thesis by blast
  qed
  then show ?thesis using lb cb by blast
qed

end

end
