(* ===== verification/Lca_Props.thy ===== *)
theory Lca_Props
  imports Lca_Tables
begin

text \<open>
  The tables over the proof forest of a union-find that a client can reach, and the explanations that are read
  from them.
\<close>

section \<open>Explanations from a given ancestor\<close>

lemma rpath_append: "rpath p x (xs @ y # ys) \<Longrightarrow> rpath p y (y # ys)"
proof (induction xs arbitrary: x)
  case Nil
  then show ?case using rpath_hd by fastforce
next
  case (Cons z xs)
  then have "\<exists>w. rpath p w (xs @ y # ys)" by (auto simp: rpath_Cons)
  then show ?case using Cons.IH by blast
qed

text \<open>The first node on one path that is also on the other is the lowest common ancestor.\<close>

lemma find_lowest:
  assumes as: "rpath p a as" and bs: "rpath p b bs" and c: "List.find (\<lambda>n. n \<in> set as) bs = Some c" and l: "lowest_common p a b d"
  shows "d = c"
proof -
  obtain i where i: "i < length bs" "c = bs ! i" "c \<in> set as" "\<forall>k < i. bs ! k \<notin> set as" using c by (auto simp: find_Some_iff)
  have anc: "ancestor p e a \<longleftrightarrow> e \<in> set as" "ancestor p e b \<longleftrightarrow> e \<in> set bs" for e using as bs rpath_det by (metis ancestor_def)+
  have sp: "bs = take i bs @ c # drop (Suc i) bs" using i(1,2) by (simp add: id_take_nth_drop)
  have pc: "rpath p c (c # drop (Suc i) bs)" using rpath_append [of p b "take i bs" c] bs sp by metis
  have "d \<in> set as" "d \<in> set bs" using l anc by (auto simp: lowest_common_def)
  moreover have "set (take i bs) \<inter> set as = {}" using i(1,4) by (auto simp: in_set_conv_nth)
  ultimately have dc: "d \<in> set (c # drop (Suc i) bs)" using sp by (metis Un_iff disjoint_iff set_append)
  obtain ds where ds: "rpath p d ds" "length ds \<le> length (c # drop (Suc i) bs)" using rpath_suffix [OF pc dc] by blast
  have "ancestor p c d" using l anc i by (auto simp: lowest_common_def)
  then have "c \<in> set ds" using ds(1) rpath_det by (metis ancestor_def)
  then show "d = c"
  proof (cases "d = c")
    case False
    obtain cs where "rpath p c cs" "length cs \<le> length ds - 1"
    proof -
      from ds(1) show thesis
      proof cases
        case root
        then show thesis using \<open>c \<in> set ds\<close> False by auto
      next
        case (step xs)
        then have "c \<in> set xs" using \<open>c \<in> set ds\<close> False by auto
        then show thesis using rpath_suffix [OF step(4)] that step(1) by auto
      qed
    qed
    then show ?thesis using rpath_det [OF pc] ds(2) rpath_hd [OF ds(1)] by (cases ds) auto
  qed
qed

context uf_ops
begin

lemma climb_ok:
  assumes "rpath (P pp) x xs" and "length xs < fuel" and "length (J j) = length (P pp)"
  shows "uf_climb fuel U pp j c x = Inr (if c \<in> set xs then Some (climb (P pp) (J j) c xs) else None)"
  using assms
proof (induction arbitrary: fuel rule: rpath.induct)
  case (root x)
  then show ?case by (cases fuel) (auto simp: par.vec_get_val climb_def)
next
  case (step x xs)
  then obtain f where f: "fuel = Suc f" by (cases fuel) auto
  have "uf_climb f U pp j c (P pp ! x) = Inr (if c \<in> set xs then Some (climb (P pp) (J j) c xs) else None)" using step f by simp
  then show ?case using f step.hyps step.prems by (auto simp: par.vec_get_val js.vec_get_val climb_def)
qed

lemma explain_with_lca_ok:
  assumes inv: "uinv (uview u)" and hp: "uc_proofs U" and ab: "a < length (P (uf_parent u))" "b < length (P (uf_parent u))"
    and pp: "uf_pproof u = Some pp" and j: "uf_just u = Some j"
  shows "uf_explain_with_lca U a b c buf u = Inr
    (if uf_root (P (uf_parent u)) a = uf_root (P (uf_parent u)) b \<and> ancestor (P pp) c a \<and> ancestor (P pp) c b
     then (True, buf\<lparr>pb_steps := pb_steps buf @ via (P pp) (J j) c (THE xs. rpath (P pp) a xs) (THE xs. rpath (P pp) b xs)\<rparr>) else (False, buf))"
proof (cases "uf_root (P (uf_parent u)) a = uf_root (P (uf_parent u)) b")
  case False
  then show ?thesis using find_const_root [OF inv ab(1)] find_const_root [OF inv ab(2)] hp by (simp add: uf_explain_with_lca_def)
next
  case True
  obtain as bs where p: "rpath (P pp) a as" "rpath (P pp) b bs" "last as = last bs"
    "length as < vec_fuel (uc_parent U) pp" "length bs < vec_fuel (uc_parent U) pp" "length (J j) = length (P pp)" "length (P pp) \<le> cap"
    using proof_paths [OF inv ab pp j True] .
  have the: "(THE xs. rpath (P pp) a xs) = as" "(THE xs. rpath (P pp) b xs) = bs" using p(1,2) rpath_det by blast+
  have anc: "ancestor (P pp) c a \<longleftrightarrow> c \<in> set as" "ancestor (P pp) c b \<longleftrightarrow> c \<in> set bs" using p(1,2) rpath_det by (metis ancestor_def)+
  show ?thesis
    using True hp pp j find_const_root [OF inv ab(1)] find_const_root [OF inv ab(2)] climb_ok [OF p(1,4,6)] climb_ok [OF p(2,5,6)]
    by (auto simp: uf_explain_with_lca_def uf_explain_from_lca_def the anc via_def Let_def)
qed

end

section \<open>Properties\<close>

abbreviation uf31_pproof :: "(32 word, 'j, 'q) union_find \<Rightarrow> nat list" where
  "uf31_pproof u \<equiv> is_vals id31 (v_store (the (uf_pproof u)))"

abbreviation uf31_lca :: "('j, 'q) tagged_ops \<Rightarrow> bool \<Rightarrow> (32 word, 'j, 'q) union_find \<Rightarrow> lca_table res" where
  "uf31_lca T track u \<equiv> lca_build (uc_parent (uf31_cfg T track True)) imax31 (the (uf_pproof u)) (length (uf31_parents u))"

abbreviation uf31_compact :: "('j, 'q) tagged_ops \<Rightarrow> bool \<Rightarrow> (32 word, 'j, 'q) union_find \<Rightarrow> lca_compact res" where
  "uf31_compact T track u \<equiv> compact_build (uc_parent (uf31_cfg T track True)) imax31 (the (uf_pproof u)) (length (uf31_parents u))"

text \<open>The proof forest of a reachable union-find is a forest over its nodes, with the classes as trees.\<close>

lemma uf31_proof_forest:
  assumes T: "tagged_repr T okj" and s: "uf31_session T okj track True u issued st co"
  obtains pp j where "uf_pproof u = Some pp" and "uf_just u = Some j" and "rooted (uf31_pproof u) (length (uf31_parents u))"
    and "length (uf31_parents u) \<le> 2 ^ 31"
    and "\<forall>x < length (uf31_parents u). \<forall>y < length (uf31_parents u). uf31_rep u x = uf31_rep u y \<longleftrightarrow> uf_root (uf31_pproof u) x = uf_root (uf31_pproof u) y"
proof -
  note inv = uf31_session_inv(2) [OF T s]
  obtain pp j where pj: "uf_pproof u = Some pp" "uf_just u = Some j" using inv by (auto simp: uf_inv_def split: option.splits)
  then show thesis using that [OF pj] inv by (auto simp: uf_inv_def proof_inv_def rooted_def)
qed

lemma uf31_tables:
  assumes T: "tagged_repr T okj" and s: "uf31_session T okj track True u issued st co" and n: "length (uf31_parents u) < 2 ^ 31"
  obtains L K where "uf31_lca T track u = Inr L" and "uf31_compact T track u = Inr K"
    and "\<And>a b. \<exists>r. lca L a b = Inr r \<and> rooted.answer (uf31_pproof u) (length (uf31_parents u)) a b r \<and> compact_lca K a b = Inr r"
proof -
  let ?n = "length (uf31_parents u)" and ?C = "uc_parent (uf31_cfg T track True)"
  obtain pp j where f: "rooted (uf31_pproof u) ?n" using uf31_proof_forest [OF T s] by metis
  have "vec_get ?C i (the (uf_pproof u)) = Inr (uf31_pproof u ! i)" if "i < ?n" for i
    using semi_vec.vec_get_val [OF uf_ops.axioms(1) [OF uf31_ops [OF T]], of track True i "the (uf_pproof u)"] that rooted.p_len [OF f] by simp
  moreover have "?n \<le> imax31" "2 * ?n \<le> vc_imax ?C" "vc_imax ?C < 2 ^ 64 - 1" using n by (simp_all add: le_imax31 uf31_cfg_def veci_cfg_def)
  ultimately show thesis using rooted.build_ok [OF f, of ?C "the (uf_pproof u)" imax31] that by blast
qed

text \<open>
  C9: over the proof forest of every reachable union-find, building the table succeeds unless all identifiers are
  taken, in which case none is left for the virtual root and the build panics; a query answers \<open>None\<close> exactly for
  nodes that are unknown or not equal, and otherwise the lowest common ancestor: the node whose ancestors are the
  common ancestors of the two.
\<close>

theorem lca_table_correct:
  assumes T: "tagged_repr T okj" and s: "uf31_session T okj track True u issued st co"
  shows "if length (uf31_parents u) < 2 ^ 31
    then \<exists>L. uf31_lca T track u = Inr L \<and> (\<forall>a b. \<exists>r. lca L a b = Inr r \<and>
      (case r of
        None \<Rightarrow> \<not> (a < length (uf31_parents u) \<and> b < length (uf31_parents u) \<and> uf31_rep u a = uf31_rep u b)
      | Some c \<Rightarrow> a < length (uf31_parents u) \<and> b < length (uf31_parents u) \<and> uf31_rep u a = uf31_rep u b \<and>
          lowest_common (uf31_pproof u) a b c))
    else uf31_lca T track u = Inl IdRange"
proof (cases "length (uf31_parents u) < 2 ^ 31")
  case True
  obtain pp j where f: "rooted (uf31_pproof u) (length (uf31_parents u))"
    "\<forall>x < length (uf31_parents u). \<forall>y < length (uf31_parents u). uf31_rep u x = uf31_rep u y \<longleftrightarrow> uf_root (uf31_pproof u) x = uf_root (uf31_pproof u) y"
    using uf31_proof_forest [OF T s] by metis
  obtain L where L: "uf31_lca T track u = Inr L" "\<And>a b. \<exists>r. lca L a b = Inr r \<and> rooted.answer (uf31_pproof u) (length (uf31_parents u)) a b r"
    using uf31_tables [OF T s True] by metis
  have "case r of
        None \<Rightarrow> \<not> (a < length (uf31_parents u) \<and> b < length (uf31_parents u) \<and> uf31_rep u a = uf31_rep u b)
      | Some c \<Rightarrow> a < length (uf31_parents u) \<and> b < length (uf31_parents u) \<and> uf31_rep u a = uf31_rep u b \<and> lowest_common (uf31_pproof u) a b c"
    if "rooted.answer (uf31_pproof u) (length (uf31_parents u)) a b r" for a b r
    using that f(2) rooted.lowest_root [OF f(1)] unfolding rooted.answer_def [OF f(1)] by (auto split: option.splits)
  then have "\<forall>a b. \<exists>r. lca L a b = Inr r \<and> (case r of
        None \<Rightarrow> \<not> (a < length (uf31_parents u) \<and> b < length (uf31_parents u) \<and> uf31_rep u a = uf31_rep u b)
      | Some c \<Rightarrow> a < length (uf31_parents u) \<and> b < length (uf31_parents u) \<and> uf31_rep u a = uf31_rep u b \<and> lowest_common (uf31_pproof u) a b c)"
    using L(2) by blast
  then show ?thesis using True L(1) by simp
next
  case False
  then have "0 < length (uf31_parents u)" by (metis gr0I zero_less_numeral zero_less_power)
  then show ?thesis using False by (simp add: lca_build_def euler_tour_def idx_try_def le_imax31)
qed

text \<open>the table that keeps differences instead of depths is built whenever the other one is, and gives the same answers.\<close>

theorem lca_compact_equivalent:
  assumes T: "tagged_repr T okj" and s: "uf31_session T okj track True u issued st co"
  shows "(\<exists>L K. uf31_lca T track u = Inr L \<and> uf31_compact T track u = Inr K \<and> (\<forall>a b. compact_lca K a b = lca L a b)) \<or>
    uf31_lca T track u = Inl IdRange \<and> uf31_compact T track u = Inl IdRange"
proof (cases "length (uf31_parents u) < 2 ^ 31")
  case True
  show ?thesis using uf31_tables [OF T s True] by metis
next
  case False
  then have "0 < length (uf31_parents u)" by (metis gr0I zero_less_numeral zero_less_power)
  then show ?thesis using False by (simp add: lca_build_def compact_build_def euler_tour_def idx_try_def le_imax31)
qed

text \<open>
  \<open>explain_with_lca\<close> checks the ancestor it is given: it answers \<open>true\<close> exactly for equal nodes of which it is a
  common ancestor, and then appends a chain of asserted equalities from the first node to the second; any other
  ancestor, for instance one of an outdated table, leaves the buffer as it was.
\<close>

theorem explain_with_lca_validates:
  assumes T: "tagged_repr T okj" and s: "uf31_session T okj track True u issued st co"
    and ab: "a < length (uf31_parents u)" "b < length (uf31_parents u)"
  shows "\<exists>r buf'. uf_explain_with_lca (uf31_cfg T track True) a b c buf u = Inr (r, buf') \<and>
    r = (uf31_rep u a = uf31_rep u b \<and> ancestor (uf31_pproof u) c a \<and> ancestor (uf31_pproof u) c b) \<and>
    (if r then \<exists>es. pb_steps buf' = pb_steps buf @ es \<and> walk (uf31_edge T u) a es b else buf' = buf)"
proof -
  note inv = uf31_session_inv(2) [OF T s]
  obtain pp j where pj: "uf_pproof u = Some pp" "uf_just u = Some j" using uf31_proof_forest [OF T s] by metis
  note e = uf_ops.explain_with_lca_ok [OF uf31_ops [OF T, where proofs = True] _ _ ab pj, of track c buf]
  let ?ok = "uf31_rep u a = uf31_rep u b \<and> ancestor (uf31_pproof u) c a \<and> ancestor (uf31_pproof u) c b"
  have "walk (uf31_edge T u) a (uf_ops.via (uf31_pproof u) (is_vals T (v_store (the (uf_just u)))) c (THE xs. rpath (uf31_pproof u) a xs) (THE xs. rpath (uf31_pproof u) b xs)) b"
    if ok: ?ok
  proof -
    obtain as bs where p: "rpath (uf31_pproof u) a as" "rpath (uf31_pproof u) b bs" "c \<in> set as" "c \<in> set bs" using ok by (auto simp: ancestor_def)
    then have "(THE xs. rpath (uf31_pproof u) a xs) = as" "(THE xs. rpath (uf31_pproof u) b xs) = bs" using rpath_det by blast+
    then show ?thesis using uf_ops.via_walk [OF uf31_ops [OF T] p] by simp
  qed
  then show ?thesis using e inv pj by (simp add: uf31_view_eq [OF T])
qed

text \<open>
  C10: the batch path and the ordinary one agree: reading the ancestor of two equal nodes from the table and giving
  it to \<open>explain_with_lca\<close> yields the steps of \<open>explain\<close>; the table has no ancestor exactly when \<open>explain\<close> answers \<open>false\<close>.
\<close>

theorem lca_explains:
  assumes T: "tagged_repr T okj" and s: "uf31_session T okj track True u issued st co" and n: "length (uf31_parents u) < 2 ^ 31"
    and ab: "a < length (uf31_parents u)" "b < length (uf31_parents u)"
  shows "\<exists>L r. uf31_lca T track u = Inr L \<and> lca L a b = Inr r \<and>
    (case r of
      None \<Rightarrow> uf_explain (uf31_cfg T track True) a b buf u = Inr (False, buf)
    | Some c \<Rightarrow> \<exists>buf1 buf2. uf_explain (uf31_cfg T track True) a b buf u = Inr (True, buf1) \<and>
        uf_explain_with_lca (uf31_cfg T track True) a b c buf u = Inr (True, buf2) \<and> pb_steps buf2 = pb_steps buf1)"
proof -
  note inv = uf31_session_inv(2) [OF T s]
  have inv': "uf_inv (uc_proofs (uf31_cfg T track True)) (2 ^ 31) (uf_ops.uview (is_vals id31) (is_vals (bool_tagged_ops 0)) (is_vals T) u)"
    using inv by (simp add: uf31_view_eq [OF T])
  note O = uf31_ops [OF T, where proofs = True and track = track]
  obtain pp j where pj: "uf_pproof u = Some pp" "uf_just u = Some j" and f: "rooted (uf31_pproof u) (length (uf31_parents u))"
    and cl: "uf31_rep u a = uf31_rep u b \<longleftrightarrow> uf_root (uf31_pproof u) a = uf_root (uf31_pproof u) b"
    using uf31_proof_forest [OF T s] ab by metis
  obtain L r where L: "uf31_lca T track u = Inr L" "lca L a b = Inr r" "rooted.answer (uf31_pproof u) (length (uf31_parents u)) a b r"
    using uf31_tables [OF T s n] by metis
  show ?thesis
  proof (cases r)
    case None
    then have "uf31_rep u a \<noteq> uf31_rep u b" using L(3) ab cl unfolding rooted.answer_def [OF f] by simp
    then show ?thesis using L None uf_ops.explain_ok [OF O inv' _ ab pj, of buf] by auto
  next
    case (Some c)
    then have c: "lowest_common (uf31_pproof u) a b c" using L(3) unfolding rooted.answer_def [OF f] by simp
    have eq: "uf31_rep u a = uf31_rep u b" using rooted.lowest_root [OF f c] ab cl by simp
    obtain as bs d where p: "rpath (uf31_pproof u) a as" "rpath (uf31_pproof u) b bs" "List.find (\<lambda>n. n \<in> set as) bs = Some d"
      "uf_explain (uf31_cfg T track True) a b buf u = Inr (True, buf\<lparr>pb_path_a := as, pb_path_b := bs, pb_seen := set as,
        pb_steps := pb_steps buf @ uf_ops.via (uf31_pproof u) (is_vals T (v_store j)) d as bs, pb_rev := pb_rev buf\<rparr>)"
      using uf_ops.explain_equal [OF O inv' _ ab pj eq, of buf] pj(1) by auto
    have d: "c = d" using find_lowest [OF p(1-3) c] .
    have "(THE xs. rpath (uf31_pproof u) a xs) = as" "(THE xs. rpath (uf31_pproof u) b xs) = bs" using p(1,2) rpath_det by blast+
    moreover have "ancestor (uf31_pproof u) c a" "ancestor (uf31_pproof u) c b" using c by (auto simp: lowest_common_def)
    ultimately have "uf_explain_with_lca (uf31_cfg T track True) a b c buf u =
        Inr (True, buf\<lparr>pb_steps := pb_steps buf @ uf_ops.via (uf31_pproof u) (is_vals T (v_store j)) c as bs\<rparr>)"
      using uf_ops.explain_with_lca_ok [OF O inv' _ ab pj, of c buf] eq pj by simp
    then show ?thesis using L(1,2) Some p(4) d by simp
  qed
qed

section \<open>Witnesses\<close>

theorem lca_table_correct_witness:
  "\<exists>u L c. uf31_unit u [] [] {} \<and> uf31_lca nojust_tagged True u = Inr L \<and> lca L 0 1 = Inr (Some c) \<and> lca L 0 2 = Inr None \<and>
    lowest_common (uf31_pproof u) 0 1 c"
proof -
  obtain u where u: "uf31_unit u [] [] {}" "length (uf31_parents u) = 2" "uf31_rep u 0 = uf31_rep u 1" by (rule uf31_demo_joined)
  obtain L where L: "uf31_lca nojust_tagged True u = Inr L" "\<And>a b. \<exists>r. lca L a b = Inr r \<and>
      (case r of
        None \<Rightarrow> \<not> (a < 2 \<and> b < 2 \<and> uf31_rep u a = uf31_rep u b)
      | Some c \<Rightarrow> a < 2 \<and> b < 2 \<and> uf31_rep u a = uf31_rep u b \<and> lowest_common (uf31_pproof u) a b c)"
    using lca_table_correct [OF nojust_t.tagged_repr_axioms u(1)] unfolding u(2) by auto
  obtain c where "lca L 0 1 = Inr (Some c)" "lowest_common (uf31_pproof u) 0 1 c" using L(2) [of 0 1] u(3) by (auto split: option.splits)
  moreover have "lca L 0 2 = Inr None" using L(2) [of 0 2] by (auto split: option.splits)
  ultimately show ?thesis using u(1) L(1) by blast
qed

theorem lca_compact_equivalent_witness:
  "\<exists>u L K. uf31_unit u [] [] {} \<and> length (uf31_parents u) = 2 \<and> uf31_lca nojust_tagged True u = Inr L \<and>
    uf31_compact nojust_tagged True u = Inr K \<and> compact_lca K 0 1 = lca L 0 1"
proof -
  obtain u where u: "uf31_unit u [] [] {}" "length (uf31_parents u) = 2" by (rule uf31_demo_joined)
  have "uf31_lca nojust_tagged True u \<noteq> Inl IdRange" using uf31_tables [OF nojust_t.tagged_repr_axioms u(1)] u(2) by fastforce
  then show ?thesis using lca_compact_equivalent [OF nojust_t.tagged_repr_axioms u(1)] u by blast
qed

text \<open>Two joined nodes and their lowest common ancestor.\<close>

lemma uf31_demo_lca:
  obtains u L c where "uf31_unit u [] [] {}" and "length (uf31_parents u) = 2" and "uf31_rep u 0 = uf31_rep u 1"
    and "uf31_lca nojust_tagged True u = Inr L" and "lca L 0 1 = Inr (Some c)" and "lowest_common (uf31_pproof u) 0 1 c"
    and "rooted (uf31_pproof u) 2"
proof -
  note T = nojust_t.tagged_repr_axioms
  obtain u where u: "uf31_unit u [] [] {}" "length (uf31_parents u) = 2" "uf31_rep u 0 = uf31_rep u 1" by (rule uf31_demo_joined)
  have lt: "length (uf31_parents u) < 2 ^ 31" "0 < length (uf31_parents u)" "1 < length (uf31_parents u)" unfolding u(2) by auto
  obtain pp j where f': "rooted (uf31_pproof u) (length (uf31_parents u))" "uf_root (uf31_pproof u) 0 = uf_root (uf31_pproof u) 1"
    using uf31_proof_forest [OF T u(1)] u(3) lt by metis
  have f: "rooted (uf31_pproof u) 2" "uf_root (uf31_pproof u) 0 = uf_root (uf31_pproof u) 1" using f' u(2) by auto
  obtain L r where L: "uf31_lca nojust_tagged True u = Inr L" "lca L 0 1 = Inr r" "rooted.answer (uf31_pproof u) (length (uf31_parents u)) 0 1 r"
    using uf31_tables [OF T u(1) lt(1)] by metis
  have "rooted.answer (uf31_pproof u) 2 0 1 r" using L(3) u(2) by simp
  then obtain c where "r = Some c" "lowest_common (uf31_pproof u) 0 1 c"
    using f(2) unfolding rooted.answer_def [OF f(1)] by (auto split: option.splits)
  then show thesis using that u f(1) L by blast
qed

theorem explain_with_lca_validates_witness:
  "\<exists>u c buf. uf_explain_with_lca uf31_ucfg 0 1 c proof_buf_new u = Inr (True, buf) \<and> walk (uf31_edge nojust_tagged u) 0 (pb_steps buf) 1 \<and>
    uf_explain_with_lca uf31_ucfg 0 1 7 proof_buf_new u = Inr (False, proof_buf_new)"
proof -
  obtain u L c where u: "uf31_unit u [] [] {}" "length (uf31_parents u) = 2" "uf31_rep u 0 = uf31_rep u 1" "lowest_common (uf31_pproof u) 0 1 c"
    "rooted (uf31_pproof u) 2" by (rule uf31_demo_lca)
  note v = explain_with_lca_validates [OF nojust_t.tagged_repr_axioms u(1), of 0 1 _ proof_buf_new, unfolded u(2)]
  have "\<not> ancestor (uf31_pproof u) 7 0" using rooted.p_len [OF u(5)] rpath_bound by (fastforce simp: ancestor_def)
  then have "uf_explain_with_lca uf31_ucfg 0 1 7 proof_buf_new u = Inr (False, proof_buf_new)" using v [of 7] by auto
  moreover have "ancestor (uf31_pproof u) c 0" "ancestor (uf31_pproof u) c 1" using u(4) by (auto simp: lowest_common_def)
  then obtain buf where "uf_explain_with_lca uf31_ucfg 0 1 c proof_buf_new u = Inr (True, buf)" "walk (uf31_edge nojust_tagged u) 0 (pb_steps buf) 1"
    using v [of c] u(3) by (auto simp: proof_buf_new_def)
  ultimately show ?thesis by blast
qed

theorem lca_explains_witness:
  "\<exists>u L c buf1 buf2. uf31_lca nojust_tagged True u = Inr L \<and> lca L 0 1 = Inr (Some c) \<and>
    uf_explain uf31_ucfg 0 1 proof_buf_new u = Inr (True, buf1) \<and>
    uf_explain_with_lca uf31_ucfg 0 1 c proof_buf_new u = Inr (True, buf2) \<and> pb_steps buf2 = pb_steps buf1"
proof -
  obtain u L c where u: "uf31_unit u [] [] {}" "length (uf31_parents u) = 2" "uf31_lca nojust_tagged True u = Inr L" "lca L 0 1 = Inr (Some c)"
    by (rule uf31_demo_lca)
  have lt: "length (uf31_parents u) < 2 ^ 31" "0 < length (uf31_parents u)" "1 < length (uf31_parents u)" unfolding u(2) by auto
  from lca_explains [OF nojust_t.tagged_repr_axioms u(1) lt, of proof_buf_new] u(3,4) show ?thesis by fastforce
qed

end
