(* ===== verification/Ring.thy ===== *)
theory Ring
  imports Forest
begin

text \<open>
  Circular lists in a successor array, as \<open>EClasses\<close> threads the members of a class: \<open>cycle\<close> is a
  closed walk without repetition, and swapping the successors of two nodes on different cycles joins
  them.  \<open>ring_inv\<close> says that the cycle through a node holds exactly the nodes with its representative.
\<close>

fun links :: "nat list \<Rightarrow> nat list \<Rightarrow> bool" where
  "links nx [] \<longleftrightarrow> True"
| "links nx [x] \<longleftrightarrow> True"
| "links nx (x # y # ys) \<longleftrightarrow> nx ! x = y \<and> links nx (y # ys)"

definition cycle :: "nat list \<Rightarrow> nat list \<Rightarrow> bool" where
  "cycle nx xs \<longleftrightarrow> xs \<noteq> [] \<and> distinct xs \<and> set xs \<subseteq> {..< length nx} \<and> links nx (xs @ [hd xs])"

lemma links_split: "links nx (xs @ y # ys) \<longleftrightarrow> links nx (xs @ [y]) \<and> links nx (y # ys)"
  by (induction nx xs rule: links.induct) auto

lemma links_Cons: "links nx (x # ys) \<longleftrightarrow> (ys = [] \<or> nx ! x = hd ys) \<and> links nx ys"
  by (cases ys) auto

lemma links_other: "links nx (xs @ [y]) \<Longrightarrow> s \<notin> set xs \<Longrightarrow> links (nx[s := v]) (xs @ [y])"
proof (induction xs)
  case (Cons x xs)
  then show ?case by (cases xs) auto
qed simp

lemma links_rotate:
  assumes "links nx (x # xs @ y # ys @ [x])"
  shows "links nx (y # ys @ x # xs @ [y])"
proof -
  have "links nx ((x # xs) @ y # (ys @ [x]))" using assms by simp
  from links_split [THEN iffD1, OF this] have "links nx (x # xs @ [y])" "links nx ((y # ys) @ [x])" by simp_all
  then have "links nx ((y # ys) @ x # (xs @ [y]))" by (subst links_split) simp
  then show ?thesis by simp
qed

lemma cycle_rotate:
  assumes "cycle nx (xs @ ys)"
  shows "cycle nx (ys @ xs)"
proof (cases xs)
  case (Cons x xs')
  show ?thesis
  proof (cases ys)
    case (Cons y ys')
    with \<open>xs = x # xs'\<close> assms links_rotate [of nx x xs' y ys'] show ?thesis by (auto simp: cycle_def)
  qed (use assms in simp)
qed (use assms in simp)

text \<open>Exchanging the successors of \<open>s\<close> and \<open>a\<close>.\<close>

lemma cycle_merge:
  assumes s: "cycle nx (s # xs)" and a: "cycle nx (a # ys)" and d: "set (s # xs) \<inter> set (a # ys) = {}"
  shows "cycle (nx[s := nx ! a, a := nx ! s]) (s # ys @ a # xs)"
proof -
  let ?n = "nx[s := nx ! a, a := nx ! s]"
  have b: "s < length nx" "a < length nx" "s \<noteq> a" using s a d by (auto simp: cycle_def)
  have part: "links ?n (u # zs @ [w])" if "links nx (w # zs @ [w])" "?n ! u = nx ! w" "s \<notin> set zs" "a \<notin> set zs" for u w zs
  proof -
    have l: "links nx (zs @ [w])" "nx ! w = hd (zs @ [w])" using that(1) by (auto simp: links_Cons)
    then have "links ?n (zs @ [w])" using that(3,4) by (intro links_other) auto
    then show ?thesis using l(2) that(2) by (simp add: links_Cons)
  qed
  have "links ?n (s # ys @ [a])" using part [of a ys s] a d b by (auto simp: cycle_def)
  moreover have "links ?n (a # xs @ [s])" using part [of s xs a] s d b by (auto simp: cycle_def)
  ultimately have "links ?n ((s # ys) @ a # xs @ [s])" using links_split [of ?n "s # ys" a "xs @ [s]"] by simp
  then show ?thesis using s a d by (auto simp: cycle_def)
qed

lemma cycle_other:
  assumes "cycle nx xs" and "s \<notin> set xs"
  shows "cycle (nx[s := v]) xs"
  using assms links_other [of nx xs "hd xs" s v] by (auto simp: cycle_def)

lemma cycle_length: "cycle nx xs \<Longrightarrow> length xs \<le> length nx"
  using distinct_card [of xs] card_mono [of "{..< length nx}" "set xs"] by (auto simp: cycle_def)

section \<open>Rings and classes\<close>

definition class_of :: "nat list \<Rightarrow> nat \<Rightarrow> nat set" where
  "class_of p x = {y. y < length p \<and> uf_root p y = uf_root p x}"

definition ring_inv :: "nat list \<Rightarrow> nat list \<Rightarrow> bool" where
  "ring_inv p nx \<longleftrightarrow> length nx = length p \<and> (\<forall>x < length p. \<exists>xs. cycle nx (x # xs) \<and> set (x # xs) = class_of p x)"

lemma root_iff: "forest p \<Longrightarrow> x < length p \<Longrightarrow> p ! x = x \<longleftrightarrow> uf_root p x = x"
  using uf_root_bound [of p x] uf_root_idem [of p x] by auto

lemma ring_from:
  assumes "cycle nx xs" and "x \<in> set xs"
  shows "\<exists>ys. cycle nx (x # ys) \<and> set (x # ys) = set xs"
proof -
  obtain us vs where e: "xs = us @ x # vs" using assms(2) by (meson split_list)
  then have "cycle nx ((x # vs) @ us)" using cycle_rotate [of nx us "x # vs"] assms(1) by simp
  then show ?thesis using e by (intro exI [of _ "vs @ us"]) auto
qed

lemma ring_inv_find:
  assumes "ring_inv p nx" and "length p' = length p" and "\<And>x. x < length p \<Longrightarrow> uf_root p' x = uf_root p x"
  shows "ring_inv p' nx"
proof -
  have "class_of p' x = class_of p x" if "x < length p" for x using assms(2,3) that by (auto simp: class_of_def)
  then show ?thesis using assms(1,2) by (simp add: ring_inv_def)
qed

lemma ring_inv_snoc:
  assumes r: "ring_inv p nx" and f: "forest p"
  shows "ring_inv (p @ [length p]) (nx @ [length p])"
proof -
  let ?p = "p @ [length p]" and ?n = "nx @ [length p]"
  have l: "length nx = length p" using r by (simp add: ring_inv_def)
  note s = forest_snoc [OF f]
  have "\<exists>xs. cycle ?n (x # xs) \<and> set (x # xs) = class_of ?p x" if x: "x < Suc (length p)" for x
  proof (cases "x < length p")
    case True
    then obtain xs where xs: "cycle nx (x # xs)" "set (x # xs) = class_of p x" using r by (auto simp: ring_inv_def)
    have "links ?n ys" if "links nx ys" "set ys \<subseteq> {..< length nx}" for ys
      using that by (induction nx ys rule: links.induct) (auto simp: nth_append)
    then have "cycle ?n (x # xs)" using xs(1) by (auto simp: cycle_def)
    moreover have "class_of ?p x = class_of p x"
      using s(2,3) True uf_root_bound [OF f True] by (auto simp: class_of_def less_Suc_eq)
    ultimately show ?thesis using xs(2) by auto
  next
    case False
    then have x': "x = length p" using x by simp
    have "uf_root p y \<noteq> length p" if "y < length p" for y using uf_root_bound [OF f that] by auto
    then have "class_of ?p x = {x}" using x' s(2,3) by (auto simp: class_of_def less_Suc_eq)
    moreover have "cycle ?n [x]" using x' l by (simp add: cycle_def nth_append)
    ultimately show ?thesis by (intro exI [of _ "[]"]) simp
  qed
  then show ?thesis using l by (simp add: ring_inv_def)
qed

lemma ring_inv_merge:
  assumes r: "ring_inv p nx" and sa: "s < length p" "a < length p" "uf_root p s = s" "uf_root p a = a" "s \<noteq> a"
    and len: "length p' = length p" and rt: "\<And>x. x < length p \<Longrightarrow> uf_root p' x = (if uf_root p x = a then s else uf_root p x)"
  shows "ring_inv p' (nx[s := nx ! a, a := nx ! s])"
proof -
  let ?n = "nx[s := nx ! a, a := nx ! s]"
  obtain xs where xs: "cycle nx (s # xs)" "set (s # xs) = class_of p s" using r sa by (auto simp: ring_inv_def)
  obtain ys where ys: "cycle nx (a # ys)" "set (a # ys) = class_of p a" using r sa by (auto simp: ring_inv_def)
  have "set (s # xs) \<inter> set (a # ys) = {}" unfolding xs(2) ys(2) using sa by (auto simp: class_of_def)
  note m = cycle_merge [OF xs(1) ys(1) this]
  have cl: "class_of p' x = class_of p s \<union> class_of p a" if "x \<in> class_of p s \<union> class_of p a" for x
    using that rt len sa by (auto simp: class_of_def)
  have ms: "set (s # ys @ a # xs) = class_of p s \<union> class_of p a" unfolding xs(2) [symmetric] ys(2) [symmetric] by auto
  have "\<exists>zs. cycle ?n (x # zs) \<and> set (x # zs) = class_of p' x" if x: "x < length p" for x
  proof (cases "x \<in> class_of p s \<union> class_of p a")
    case True
    then have "x \<in> set (s # ys @ a # xs)" unfolding ms .
    then show ?thesis using ring_from [OF m, of x] unfolding ms cl [OF True] by simp
  next
    case False
    obtain zs where zs: "cycle nx (x # zs)" "set (x # zs) = class_of p x" using r x by (auto simp: ring_inv_def)
    have "class_of p' x = class_of p x" using False rt len sa x by (auto simp: class_of_def split: if_splits)
    moreover have "s \<notin> set (x # zs)" "a \<notin> set (x # zs)" unfolding zs(2) using False sa x by (auto simp: class_of_def)
    ultimately show ?thesis using zs cycle_other by metis
  qed
  then show ?thesis using r len by (simp add: ring_inv_def)
qed

end
