(* ===== verification/EClasses.thy ===== *)
theory EClasses
  imports Sparse_Set List_Arena Union_Find Ring
begin

text \<open>
  Equivalence classes, \<open>containers/src/eclasses.rs\<close>: a union-find whose classes are also threaded as
  circular lists, with a sparse set of per-class data (the use-list of the class, the row of its minimal
  monomials, the atomic flag), an arena of use-lists and a pool of monomial rows.  The five parts are
  marked and restored together; \<open>min_width\<close> is a plain field that a restore leaves alone.
  \<open>debug_assert!\<close> is absent, as in a release build, and \<open>usize\<close> additions wrap.
\<close>

section \<open>The data\<close>

text \<open>\<open>class_key\<close> is an \<open>Opt\<close>, that is, a raw key representation whose tag means absent.\<close>

record 'k eclass_entry =
  ee_next :: nat
  ee_key :: 'k

definition entry_new :: "(nat, 'k) tagged_ops \<Rightarrow> nat \<Rightarrow> nat \<Rightarrow> 'k eclass_entry" where
  "entry_new K next repr_id = \<lparr>ee_next = next, ee_key = opt_some K repr_id\<rparr>"

definition entry_repr_id :: "(nat, 'k) tagged_ops \<Rightarrow> 'k eclass_entry \<Rightarrow> nat option" where
  "entry_repr_id K e = opt_get K (ee_key e)"

definition entry_repr_id_unchecked :: "(nat, 'k) tagged_ops \<Rightarrow> 'k eclass_entry \<Rightarrow> nat" where
  "entry_repr_id_unchecked K e = opt_get_unchecked K (ee_key e)"

definition entry_set_absent :: "(nat, 'k) tagged_ops \<Rightarrow> 'k eclass_entry \<Rightarrow> 'k eclass_entry" where
  "entry_set_absent K e = e\<lparr>ee_key := opt_set_none K (ee_key e)\<rparr>"

definition entry_tagged :: "(nat, 'w) tagged_ops \<Rightarrow> (nat, 'k) tagged_ops \<Rightarrow> ('k eclass_entry, 'w \<times> 'k) tagged_ops" where
  "entry_tagged T K = \<lparr>
     into_repr = (\<lambda>e. (into_repr T (ee_next e), ee_key e)),
     from_repr = (\<lambda>s. \<lparr>ee_next = from_repr T (fst s), ee_key = snd s\<rparr>),
     tag = (\<lambda>s. tag T (fst s)),
     set_tag = (\<lambda>s. (set_tag T (fst s), snd s)),
     clear_tag = (\<lambda>s. (clear_tag T (fst s), snd s)),
     tg_default = entry_new K (tg_default T) (tg_default K)\<rparr>"

record class_data =
  cd_use_list :: nat
  cd_min_row :: "nat option"
  cd_atomic :: bool

definition class_data_tagged :: "(nat, 'l) tagged_ops \<Rightarrow> (class_data, 'l \<times> nat \<times> bool \<times> bool) tagged_ops" where
  "class_data_tagged L = \<lparr>
     into_repr = (\<lambda>d. let (off, present) = (case cd_min_row d of Some o' \<Rightarrow> (o', True) | None \<Rightarrow> (0, False))
       in (into_repr L (cd_use_list d), off, present, cd_atomic d)),
     from_repr = (\<lambda>(l, off, present, a). \<lparr>cd_use_list = from_repr L l,
       cd_min_row = (if present then Some off else None), cd_atomic = a\<rparr>),
     tag = (\<lambda>r. tag L (fst r)),
     set_tag = (\<lambda>r. (set_tag L (fst r), snd r)),
     clear_tag = (\<lambda>r. (clear_tag L (fst r), snd r)),
     tg_default = \<lparr>cd_use_list = tg_default L, cd_min_row = None, cd_atomic = False\<rparr>\<rparr>"

record merge_info =
  mi_survivor :: nat
  mi_absorbed :: nat
  mi_absorbed_uses :: nat
  mi_absorbed_min_row :: "nat option"
  mi_absorbed_atomic :: bool

text \<open>
  The static parameters: the configurations of the five parts, the operations of the node and key
  types, the largest key, and whether both types steal their top bit.
\<close>

record ('w, 'k, 'l, 'n, 'j, 'q) ec_cfg =
  xc_entries :: "(('w \<times> 'k) inline_store, 'k eclass_entry) vec_cfg"
  xc_reprs :: "(('l \<times> nat \<times> bool \<times> bool) inline_store, class_data, nat bool_tagged) ss_cfg"
  xc_uf :: "('w, 'j, 'q) uf_cfg"
  xc_uses :: "('w, nat, 'n) la_cfg"
  xc_pool :: "('w parallel_store, 'w) vec_cfg"
  xc_node :: "(nat, 'w) tagged_ops"
  xc_key :: "(nat, 'k) tagged_ops"
  xc_kmax :: nat
  xc_stealing :: "bool \<times> bool"

record ('w, 'k, 'l, 'n, 'j, 'q) eclasses =
  ec_entries :: "(('w \<times> 'k) inline_store, 'k eclass_entry) vec"
  ec_reprs :: "(('l \<times> nat \<times> bool \<times> bool) inline_store, class_data, nat bool_tagged) sparse_set"
  ec_uf :: "('w, 'j, 'q) union_find"
  ec_uses :: "('w, nat, 'n) list_arena"
  ec_pool :: "('w parallel_store, 'w) vec"
  ec_width :: nat

record ec_token =
  et_entries :: vec_token
  et_reprs :: ss_token
  et_uf :: uf_token
  et_uses :: la_token
  et_pool :: vec_token

section \<open>The operations\<close>

definition ec_new :: "('w, 'k, 'l, 'n, 'j, 'q) ec_cfg \<Rightarrow> 32 word \<Rightarrow> (('w, 'k, 'l, 'n, 'j, 'q) eclasses \<times> 32 word) res" where
  "ec_new X c0 =
    rbind (rassert (fst (xc_stealing X) \<and> snd (xc_stealing X)) NotBitStealing) (\<lambda>_.
    let (e, c1) = veci_new c0; (r, c2) = ss_with_store is_new c1; (u, c3) = uf_new (uc_proofs (xc_uf X)) c2;
        (a, c4) = la_new c3; (p, c5) = vecp_new c4
    in Inr (\<lparr>ec_entries = e, ec_reprs = r, ec_uf = u, ec_uses = a, ec_pool = p, ec_width = 0\<rparr>, c5))"

definition ec_set_min_width :: "('w, 'k, 'l, 'n, 'j, 'q) ec_cfg \<Rightarrow> nat \<Rightarrow> ('w, 'k, 'l, 'n, 'j, 'q) eclasses \<Rightarrow>
    ('w, 'k, 'l, 'n, 'j, 'q) eclasses res" where
  "ec_set_min_width X width c =
    (if ec_width c = width then Inr c
     else rbind (vec_is_empty (xc_pool X) (ec_pool c)) (\<lambda>e.
       rbind (rassert e WidthFixed) (\<lambda>_. Inr (c\<lparr>ec_width := width\<rparr>))))"

definition ec_min_width :: "('w, 'k, 'l, 'n, 'j, 'q) eclasses \<Rightarrow> nat" where
  "ec_min_width c = ec_width c"

fun ec_push_row :: "('w, 'k, 'l, 'n, 'j, 'q) ec_cfg \<Rightarrow> nat \<Rightarrow> ('w parallel_store, 'w) vec \<Rightarrow> ('w parallel_store, 'w) vec res" where
  "ec_push_row X 0 p = Inr p"
| "ec_push_row X (Suc n) p = rbind (vec_push (xc_pool X) (opt_none (xc_node X)) p) (ec_push_row X n)"

definition ec_ensure_min_row :: "('w, 'k, 'l, 'n, 'j, 'q) ec_cfg \<Rightarrow> nat \<Rightarrow> ('w, 'k, 'l, 'n, 'j, 'q) eclasses \<Rightarrow>
    (nat \<times> ('w, 'k, 'l, 'n, 'j, 'q) eclasses) res" where
  "ec_ensure_min_row X repr_id c =
    rbind (ss_get (xc_reprs X) repr_id (ec_reprs c)) (\<lambda>data. case cd_min_row data of
      Some off \<Rightarrow> Inr (off, c)
    | None \<Rightarrow>
      rbind (vec_len (xc_pool X) (ec_pool c)) (\<lambda>off.
      rbind (ec_push_row X (ec_width c) (ec_pool c)) (\<lambda>p.
      rbind (ss_set (xc_reprs X) repr_id (data\<lparr>cd_min_row := Some off\<rparr>) (ec_reprs c)) (\<lambda>r.
      Inr (off, c\<lparr>ec_pool := p, ec_reprs := r\<rparr>)))))"

definition ec_len :: "('w, 'k, 'l, 'n, 'j, 'q) ec_cfg \<Rightarrow> ('w, 'k, 'l, 'n, 'j, 'q) eclasses \<Rightarrow> nat res" where
  "ec_len X c = vec_len (xc_entries X) (ec_entries c)"

definition ec_is_empty :: "('w, 'k, 'l, 'n, 'j, 'q) ec_cfg \<Rightarrow> ('w, 'k, 'l, 'n, 'j, 'q) eclasses \<Rightarrow> bool res" where
  "ec_is_empty X c = vec_is_empty (xc_entries X) (ec_entries c)"

definition ec_num_classes :: "('w, 'k, 'l, 'n, 'j, 'q) ec_cfg \<Rightarrow> ('w, 'k, 'l, 'n, 'j, 'q) eclasses \<Rightarrow> nat res" where
  "ec_num_classes X c = ss_len (xc_reprs X) (ec_reprs c)"

definition ec_add_singleton :: "('w, 'k, 'l, 'n, 'j, 'q) ec_cfg \<Rightarrow> nat \<Rightarrow> ('w, 'k, 'l, 'n, 'j, 'q) eclasses \<Rightarrow>
    (nat \<times> ('w, 'k, 'l, 'n, 'j, 'q) eclasses) res" where
  "ec_add_singleton X i c =
    rbind (uf_make_set (xc_uf X) i (ec_uf c)) (\<lambda>u.
    rbind (la_new_list (xc_uses X) (ec_uses c)) (\<lambda>(list_id, a).
    rbind (ss_add (xc_reprs X) \<lparr>cd_use_list = list_id, cd_min_row = None, cd_atomic = False\<rparr> (ec_reprs c)) (\<lambda>(raw, r).
    rbind (expect KeyWidth (idx_try (xc_kmax X) raw)) (\<lambda>repr_id.
    rbind (vec_push (xc_entries X) (entry_new (xc_key X) i repr_id) (ec_entries c)) (\<lambda>e.
    Inr (repr_id, c\<lparr>ec_uf := u, ec_uses := a, ec_reprs := r, ec_entries := e\<rparr>))))))"

definition ec_set_atomic :: "('w, 'k, 'l, 'n, 'j, 'q) ec_cfg \<Rightarrow> nat \<Rightarrow> ('w, 'k, 'l, 'n, 'j, 'q) eclasses \<Rightarrow>
    ('w, 'k, 'l, 'n, 'j, 'q) eclasses res" where
  "ec_set_atomic X repr_id c =
    rbind (ss_get (xc_reprs X) repr_id (ec_reprs c)) (\<lambda>data.
    if cd_atomic data then Inr c
    else rbind (ss_set (xc_reprs X) repr_id (data\<lparr>cd_atomic := True\<rparr>) (ec_reprs c)) (\<lambda>r. Inr (c\<lparr>ec_reprs := r\<rparr>)))"

definition ec_add_use :: "('w, 'k, 'l, 'n, 'j, 'q) ec_cfg \<Rightarrow> nat \<Rightarrow> nat \<Rightarrow> ('w, 'k, 'l, 'n, 'j, 'q) eclasses \<Rightarrow>
    ('w, 'k, 'l, 'n, 'j, 'q) eclasses res" where
  "ec_add_use X child_repr parent_node c =
    rbind (ss_get (xc_reprs X) child_repr (ec_reprs c)) (\<lambda>data.
    rbind (la_append (xc_uses X) (cd_use_list data) parent_node (ec_uses c)) (\<lambda>a.
    if cd_atomic data then Inr (c\<lparr>ec_uses := a\<rparr>)
    else rbind (ss_set (xc_reprs X) child_repr (data\<lparr>cd_atomic := True\<rparr>) (ec_reprs c)) (\<lambda>r.
      Inr (c\<lparr>ec_uses := a, ec_reprs := r\<rparr>))))"

definition ec_use_list_id :: "('w, 'k, 'l, 'n, 'j, 'q) ec_cfg \<Rightarrow> nat \<Rightarrow> ('w, 'k, 'l, 'n, 'j, 'q) eclasses \<Rightarrow> nat res" where
  "ec_use_list_id X repr_id c = rbind (ss_get (xc_reprs X) repr_id (ec_reprs c)) (\<lambda>d. Inr (cd_use_list d))"

definition ec_use_list_len :: "('w, 'k, 'l, 'n, 'j, 'q) ec_cfg \<Rightarrow> nat \<Rightarrow> ('w, 'k, 'l, 'n, 'j, 'q) eclasses \<Rightarrow> nat res" where
  "ec_use_list_len X repr_id c =
    rbind (ss_get (xc_reprs X) repr_id (ec_reprs c)) (\<lambda>d. la_len (xc_uses X) (cd_use_list d) (ec_uses c))"

definition usize_add :: "nat \<Rightarrow> nat \<Rightarrow> nat" where
  "usize_add a b = (a + b) mod 2 ^ 64"

definition ec_min_monomial_at_row :: "('w, 'k, 'l, 'n, 'j, 'q) ec_cfg \<Rightarrow> nat option \<Rightarrow> nat \<Rightarrow> ('w, 'k, 'l, 'n, 'j, 'q) eclasses \<Rightarrow> nat option res" where
  "ec_min_monomial_at_row X row col c = (case row of
      None \<Rightarrow> Inr None
    | Some base \<Rightarrow> rbind (vec_get (xc_pool X) (usize_add base col) (ec_pool c)) (\<lambda>r. Inr (opt_get (xc_node X) r)))"

definition ec_min_monomial :: "('w, 'k, 'l, 'n, 'j, 'q) ec_cfg \<Rightarrow> nat \<Rightarrow> nat \<Rightarrow> ('w, 'k, 'l, 'n, 'j, 'q) eclasses \<Rightarrow> nat option res" where
  "ec_min_monomial X repr_id col c =
    rbind (ss_get (xc_reprs X) repr_id (ec_reprs c)) (\<lambda>d. case cd_min_row d of
      None \<Rightarrow> Inr None
    | Some row \<Rightarrow> rbind (vec_get (xc_pool X) (usize_add row col) (ec_pool c)) (\<lambda>r. Inr (opt_get (xc_node X) r)))"

definition ec_atomic :: "('w, 'k, 'l, 'n, 'j, 'q) ec_cfg \<Rightarrow> nat \<Rightarrow> ('w, 'k, 'l, 'n, 'j, 'q) eclasses \<Rightarrow> bool res" where
  "ec_atomic X repr_id c = rbind (ss_get (xc_reprs X) repr_id (ec_reprs c)) (\<lambda>d. Inr (cd_atomic d))"

definition ec_set_min_monomial :: "('w, 'k, 'l, 'n, 'j, 'q) ec_cfg \<Rightarrow> nat \<Rightarrow> nat \<Rightarrow> nat \<Rightarrow> ('w, 'k, 'l, 'n, 'j, 'q) eclasses \<Rightarrow>
    ('w, 'k, 'l, 'n, 'j, 'q) eclasses res" where
  "ec_set_min_monomial X repr_id col node c =
    rbind (ec_ensure_min_row X repr_id c) (\<lambda>(row, c1).
    rbind (vec_set (xc_pool X) (usize_add row col) (opt_some (xc_node X) node) (ec_pool c1)) (\<lambda>p.
    Inr (c1\<lparr>ec_pool := p\<rparr>)))"

definition ec_iter_uses :: "('w, 'k, 'l, 'n, 'j, 'q) ec_cfg \<Rightarrow> nat \<Rightarrow> ('w, 'k, 'l, 'n, 'j, 'q) eclasses \<Rightarrow> nat list res" where
  "ec_iter_uses X repr_id c =
    rbind (ss_get (xc_reprs X) repr_id (ec_reprs c)) (\<lambda>d. la_iter (xc_uses X) (cd_use_list d) (ec_uses c))"

definition ec_splice_uses :: "('w, 'k, 'l, 'n, 'j, 'q) ec_cfg \<Rightarrow> nat \<Rightarrow> nat \<Rightarrow> ('w, 'k, 'l, 'n, 'j, 'q) eclasses \<Rightarrow>
    ('w, 'k, 'l, 'n, 'j, 'q) eclasses res" where
  "ec_splice_uses X survivor_list absorbed_list c =
    rbind (la_splice (xc_uses X) survivor_list absorbed_list (ec_uses c)) (\<lambda>a. Inr (c\<lparr>ec_uses := a\<rparr>))"

definition ec_find :: "('w, 'k, 'l, 'n, 'j, 'q) ec_cfg \<Rightarrow> nat \<Rightarrow> ('w, 'k, 'l, 'n, 'j, 'q) eclasses \<Rightarrow>
    (nat \<times> ('w, 'k, 'l, 'n, 'j, 'q) eclasses) res" where
  "ec_find X x c = rbind (uf_find (xc_uf X) x (ec_uf c)) (\<lambda>(r, u). Inr (r, c\<lparr>ec_uf := u\<rparr>))"

definition ec_find_const :: "('w, 'k, 'l, 'n, 'j, 'q) ec_cfg \<Rightarrow> nat \<Rightarrow> ('w, 'k, 'l, 'n, 'j, 'q) eclasses \<Rightarrow> nat res" where
  "ec_find_const X x c = uf_find_const (xc_uf X) x (ec_uf c)"

definition ec_repr_id :: "('w, 'k, 'l, 'n, 'j, 'q) ec_cfg \<Rightarrow> nat \<Rightarrow> ('w, 'k, 'l, 'n, 'j, 'q) eclasses \<Rightarrow> nat option res" where
  "ec_repr_id X idx c = rbind (vec_get (xc_entries X) idx (ec_entries c)) (\<lambda>e. Inr (entry_repr_id (xc_key X) e))"

subsection \<open>Merging\<close>

definition ec_splice_classes :: "('w, 'k, 'l, 'n, 'j, 'q) ec_cfg \<Rightarrow> nat \<times> nat \<Rightarrow> ('w, 'k, 'l, 'n, 'j, 'q) eclasses \<Rightarrow>
    ('w, 'k, 'l, 'n, 'j, 'q) eclasses res" where
  "ec_splice_classes X sa c = (case sa of (survivor, absorbed) \<Rightarrow>
    rbind (vec_get (xc_entries X) survivor (ec_entries c)) (\<lambda>surv.
    rbind (vec_get (xc_entries X) absorbed (ec_entries c)) (\<lambda>abs.
    let abs_repr = entry_repr_id_unchecked (xc_key X) abs in
    rbind (vec_set (xc_entries X) survivor
        (entry_new (xc_key X) (ee_next abs) (entry_repr_id_unchecked (xc_key X) surv)) (ec_entries c)) (\<lambda>e1.
    rbind (vec_set (xc_entries X) absorbed
        (entry_set_absent (xc_key X) (entry_new (xc_key X) (ee_next surv) abs_repr)) e1) (\<lambda>e2.
    rbind (ss_remove (xc_reprs X) abs_repr (ec_reprs c)) (\<lambda>r.
    Inr (c\<lparr>ec_entries := e2, ec_reprs := r\<rparr>)))))))"

text \<open>The body that the four merges repeat behind their call of the union-find.\<close>

definition ec_merge_tail :: "('w, 'k, 'l, 'n, 'j, 'q) ec_cfg \<Rightarrow> (nat \<times> nat) option \<Rightarrow> ('w, 'k, 'l, 'n, 'j, 'q) eclasses \<Rightarrow>
    (merge_info option \<times> ('w, 'k, 'l, 'n, 'j, 'q) eclasses) res" where
  "ec_merge_tail X r c = (case r of
      None \<Rightarrow> Inr (None, c)
    | Some (survivor, absorbed) \<Rightarrow>
      rbind (vec_get (xc_entries X) absorbed (ec_entries c)) (\<lambda>e.
      rbind (ss_get (xc_reprs X) (entry_repr_id_unchecked (xc_key X) e) (ec_reprs c)) (\<lambda>data.
      rbind (ec_splice_classes X (survivor, absorbed) c) (\<lambda>c'.
      Inr (Some \<lparr>mi_survivor = survivor, mi_absorbed = absorbed, mi_absorbed_uses = cd_use_list data,
          mi_absorbed_min_row = cd_min_row data, mi_absorbed_atomic = cd_atomic data\<rparr>, c')))))"

definition ec_merge :: "('w, 'k, 'l, 'n, 'j, 'q) ec_cfg \<Rightarrow> nat \<Rightarrow> nat \<Rightarrow> ('w, 'k, 'l, 'n, 'j, 'q) eclasses \<Rightarrow>
    (merge_info option \<times> ('w, 'k, 'l, 'n, 'j, 'q) eclasses) res" where
  "ec_merge X a b c = rbind (uf_union (xc_uf X) a b (ec_uf c)) (\<lambda>(r, u). ec_merge_tail X r (c\<lparr>ec_uf := u\<rparr>))"

definition ec_merge_justified :: "('w, 'k, 'l, 'n, 'j, 'q) ec_cfg \<Rightarrow> nat \<Rightarrow> nat \<Rightarrow> 'j \<Rightarrow> ('w, 'k, 'l, 'n, 'j, 'q) eclasses \<Rightarrow>
    (merge_info option \<times> ('w, 'k, 'l, 'n, 'j, 'q) eclasses) res" where
  "ec_merge_justified X a b just c =
    rbind (uf_union_justified (xc_uf X) a b just (ec_uf c)) (\<lambda>(r, u). ec_merge_tail X r (c\<lparr>ec_uf := u\<rparr>))"

definition ec_root_uses :: "('w, 'k, 'l, 'n, 'j, 'q) ec_cfg \<Rightarrow> nat \<Rightarrow> ('w, 'k, 'l, 'n, 'j, 'q) eclasses \<Rightarrow> nat res" where
  "ec_root_uses X r c = rbind (ec_repr_id X r c) (\<lambda>k. case k of None \<Rightarrow> Inr 0 | Some i \<Rightarrow> ec_use_list_len X i c)"

definition ec_prefer_a_by_uses :: "('w, 'k, 'l, 'n, 'j, 'q) ec_cfg \<Rightarrow> nat \<Rightarrow> nat \<Rightarrow> ('w, 'k, 'l, 'n, 'j, 'q) eclasses \<Rightarrow> bool res" where
  "ec_prefer_a_by_uses X a b c =
    rbind (uf_find_const (xc_uf X) a (ec_uf c)) (\<lambda>ra.
    rbind (uf_find_const (xc_uf X) b (ec_uf c)) (\<lambda>rb.
    rbind (ec_root_uses X ra c) (\<lambda>len_a.
    rbind (ec_root_uses X rb c) (\<lambda>len_b. Inr (len_b \<le> len_a)))))"

definition ec_merge_directed :: "('w, 'k, 'l, 'n, 'j, 'q) ec_cfg \<Rightarrow> nat \<Rightarrow> nat \<Rightarrow> ('w, 'k, 'l, 'n, 'j, 'q) eclasses \<Rightarrow>
    (merge_info option \<times> ('w, 'k, 'l, 'n, 'j, 'q) eclasses) res" where
  "ec_merge_directed X a b c =
    rbind (ec_prefer_a_by_uses X a b c) (\<lambda>prefer_a.
    rbind (uf_union_directed (xc_uf X) a b prefer_a (ec_uf c)) (\<lambda>(r, u). ec_merge_tail X r (c\<lparr>ec_uf := u\<rparr>)))"

definition ec_merge_justified_directed :: "('w, 'k, 'l, 'n, 'j, 'q) ec_cfg \<Rightarrow> nat \<Rightarrow> nat \<Rightarrow> 'j \<Rightarrow> ('w, 'k, 'l, 'n, 'j, 'q) eclasses \<Rightarrow>
    (merge_info option \<times> ('w, 'k, 'l, 'n, 'j, 'q) eclasses) res" where
  "ec_merge_justified_directed X a b just c =
    rbind (ec_prefer_a_by_uses X a b c) (\<lambda>prefer_a.
    rbind (uf_union_justified_directed (xc_uf X) a b just prefer_a (ec_uf c)) (\<lambda>(r, u). ec_merge_tail X r (c\<lparr>ec_uf := u\<rparr>)))"

definition ec_explain :: "('w, 'k, 'l, 'n, 'j, 'q) ec_cfg \<Rightarrow> nat \<Rightarrow> nat \<Rightarrow> 'j proof_buf \<Rightarrow> ('w, 'k, 'l, 'n, 'j, 'q) eclasses \<Rightarrow>
    (bool \<times> 'j proof_buf) res" where
  "ec_explain X a b buf c = uf_explain (xc_uf X) a b buf (ec_uf c)"

subsection \<open>Iteration\<close>

record class_iter =
  ci_start :: nat
  ci_current :: nat
  ci_done :: bool

definition ec_iter_class :: "nat \<Rightarrow> class_iter" where
  "ec_iter_class start_idx = \<lparr>ci_start = start_idx, ci_current = start_idx, ci_done = False\<rparr>"

definition class_iter_next :: "('s, 'k eclass_entry) vec_cfg \<Rightarrow> ('s, 'k eclass_entry) vec \<Rightarrow> class_iter \<Rightarrow> (nat option \<times> class_iter) res" where
  "class_iter_next C entries it =
    (if ci_done it then Inr (None, it)
     else rbind (vec_get C (ci_current it) entries) (\<lambda>e.
       let it1 = it\<lparr>ci_current := ee_next e\<rparr>
       in Inr (Some (ci_current it), if ee_next e = ci_start it then it1\<lparr>ci_done := True\<rparr> else it1)))"

text \<open>
  \<open>collect\<close> over the iterator.  A ring through the start has at most as many members as there are
  entries, so the fuel of the entry vector is enough unless the successors never return to the start.
\<close>

fun class_iter_collect :: "nat \<Rightarrow> ('s, 'k eclass_entry) vec_cfg \<Rightarrow> ('s, 'k eclass_entry) vec \<Rightarrow> class_iter \<Rightarrow> nat list res" where
  "class_iter_collect 0 C entries it = Inl Diverge"
| "class_iter_collect (Suc fuel) C entries it =
    rbind (class_iter_next C entries it) (\<lambda>(r, it'). case r of None \<Rightarrow> Inr []
      | Some x \<Rightarrow> rbind (class_iter_collect fuel C entries it') (\<lambda>xs. Inr (x # xs)))"

definition ec_class_members :: "('w, 'k, 'l, 'n, 'j, 'q) ec_cfg \<Rightarrow> nat \<Rightarrow> ('w, 'k, 'l, 'n, 'j, 'q) eclasses \<Rightarrow> nat list res" where
  "ec_class_members X x c =
    class_iter_collect (vec_fuel (xc_entries X) (ec_entries c)) (xc_entries X) (ec_entries c) (ec_iter_class x)"

subsection \<open>Semi-persistence\<close>

text \<open>The capacities that the allocator reports differ per vector, so each part gets its own.\<close>

type_synonym ec_shrink =
  "shrink \<times> (shrink \<times> shrink \<times> shrink) \<times> (((shrink \<times> shrink) \<times> shrink) \<times> shrink) \<times> (shrink \<times> shrink) \<times> shrink"

definition ec_mark :: "('w, 'k, 'l, 'n, 'j, 'q) ec_cfg \<Rightarrow> ec_shrink \<Rightarrow> ('w, 'k, 'l, 'n, 'j, 'q) eclasses \<Rightarrow>
    (ec_token \<times> ('w, 'k, 'l, 'n, 'j, 'q) eclasses) res" where
  "ec_mark X sh c = (case sh of (sh1, sh2, sh3, sh4, sh5) \<Rightarrow>
    rbind (vec_mark (xc_entries X) sh1 (ec_entries c)) (\<lambda>(t1, e).
    rbind (ss_mark (xc_reprs X) sh2 (ec_reprs c)) (\<lambda>(t2, r).
    rbind (uf_mark (xc_uf X) sh3 (ec_uf c)) (\<lambda>(t3, u).
    rbind (la_mark (xc_uses X) sh4 (ec_uses c)) (\<lambda>(t4, a).
    rbind (vec_mark (xc_pool X) sh5 (ec_pool c)) (\<lambda>(t5, p).
    Inr (\<lparr>et_entries = t1, et_reprs = t2, et_uf = t3, et_uses = t4, et_pool = t5\<rparr>,
      c\<lparr>ec_entries := e, ec_reprs := r, ec_uf := u, ec_uses := a, ec_pool := p\<rparr>)))))))"

definition ec_restore :: "('w, 'k, 'l, 'n, 'j, 'q) ec_cfg \<Rightarrow> ec_token \<Rightarrow> ('w, 'k, 'l, 'n, 'j, 'q) eclasses \<Rightarrow>
    ('w, 'k, 'l, 'n, 'j, 'q) eclasses res" where
  "ec_restore X token c =
    rbind (vec_restore (xc_entries X) (et_entries token) (ec_entries c)) (\<lambda>e.
    rbind (ss_restore (xc_reprs X) (et_reprs token) (ec_reprs c)) (\<lambda>r.
    rbind (uf_restore (xc_uf X) (et_uf token) (ec_uf c)) (\<lambda>u.
    rbind (la_restore (xc_uses X) (et_uses token) (ec_uses c)) (\<lambda>a.
    rbind (vec_restore (xc_pool X) (et_pool token) (ec_pool c)) (\<lambda>p.
    Inr (c\<lparr>ec_entries := e, ec_reprs := r, ec_uf := u, ec_uses := a, ec_pool := p\<rparr>))))))"

section \<open>The stored representations\<close>

lemma entry_tagged_repr: "tagged_repr T tdom \<Longrightarrow> tagged_repr (entry_tagged T K) (\<lambda>e. tdom (ee_next e))"
  by unfold_locales (auto simp: entry_tagged_def entry_new_def tagged_repr_def)

lemma class_data_tagged_repr: "tagged_repr L ldom \<Longrightarrow> tagged_repr (class_data_tagged L) (\<lambda>d. ldom (cd_use_list d))"
  by unfold_locales (auto simp: class_data_tagged_def tagged_repr_def Let_def split: option.splits)

end
