(* ===== verification/EClasses_Inv.thy ===== *)
theory EClasses_Inv
  imports EClasses
begin

text \<open>
  The invariant of the equivalence classes and what it gives: the ring through a node is its class, the
  keys of the representatives are the live identifiers of the sparse set, every live class owns its own
  use-list, and a token restores all five parts.
\<close>

section \<open>Sparse sets as maps\<close>

context sparse_ops begin

lemma get_Inr:
  assumes inv: "ss_inv (slists c)" and g: "ss_get S i c = Inr x"
  shows "ss_lookup (slists c) i = Some x"
proof -
  obtain b where b: "ss_contains S i c = Inr b" "b"
    and x: "rbind (vec_get (sc_idx S) i (ss_sparse c)) (\<lambda>pos. vec_get (sc_dense S) pos (ss_dense c)) = Inr x"
    using g by (auto simp: ss_get_def elim!: rbind_eq_InrE)
  have "ss_present i (slists c)" using contains_Inr [OF inv b(1)] b(2) by simp
  then show ?thesis using ss_lookup_present inv x
    by (auto simp: ss_contents_def idx.get_Inr dense.get_Inr elim!: rbind_eq_InrE)
qed

lemma present_ok:
  assumes inv: "ss_inv (slists c)" and l: "ss_lookup (slists c) i = Some x"
    and sz: "length (ivals (v_store (ss_indices c))) \<le> vc_imax (sc_dense S)"
  shows "ss_contains S i c = Inr True" and "ss_present i (slists c)"
proof -
  show p: "ss_present i (slists c)" using inv l by (simp add: ss_contents_def ss_present_iff)
  show "ss_contains S i c = Inr True" using contains_val [of c i] inv sz p by (auto simp: ss_inv_def ss_contents_def)
qed

lemma get_ok:
  assumes inv: "ss_inv (slists c)" and l: "ss_lookup (slists c) i = Some x"
    and sz: "length (ivals (v_store (ss_indices c))) \<le> vc_imax (sc_dense S)"
  shows "ss_get S i c = Inr x"
proof -
  note p = present_ok [OF assms]
  have "x = vals (v_store (ss_dense c)) ! (ivals (v_store (ss_sparse c)) ! i)"
    using inv l p(2) by (simp add: ss_contents_def ss_lookup_present)
  with p show ?thesis by (auto simp: ss_get_def ss_contents_def ss_present_def idx.vec_get_val dense.vec_get_val)
qed

lemma set_ok:
  assumes r: "srels c" and inv: "ss_inv (slists c)" and l: "ss_lookup (slists c) i = Some y" and x: "dom x"
    and sz: "length (ivals (v_store (ss_indices c))) \<le> vc_imax (sc_dense S)"
  shows "\<exists>c'. ss_set S i x c = Inr c'"
proof -
  note p = present_ok [OF inv l sz]
  obtain sd where rd: "dense.rel (ss_dense c) sd" using r by (auto simp: srels_def)
  have "length (vals (v_store (ss_dense c))) \<le> vc_imax (sc_dense S)" using inv sz by (auto simp: ss_inv_def ss_contents_def)
  then obtain d where "vec_set (sc_dense S) (ivals (v_store (ss_sparse c)) ! i) x (ss_dense c) = Inr d"
    using dense.set_spec [OF rd _ _ x] p(2) by (auto simp: ss_present_def ss_contents_def)
  then show ?thesis using p by (auto simp: ss_set_def ss_present_def ss_contents_def idx.vec_get_val)
qed

lemma set_lookup:
  assumes r: "srels c" and inv: "ss_inv (slists c)" and x: "dom x" and a: "ss_set S i x c = Inr c'"
  shows "ss_lookup (slists c') = (ss_lookup (slists c))(i \<mapsto> x)" and "snd (slists c') = snd (slists c)"
proof -
  obtain d sp ix where v: "slists c = (d, sp, ix)" by (cases "slists c")
  note s = set_Inr [OF r inv x a]
  show "ss_lookup (slists c') = (ss_lookup (slists c))(i \<mapsto> x)" using set_lists_spec(2) s inv v by auto
  show "snd (slists c') = snd (slists c)" using s(3) by simp
qed

lemma remove_ok:
  assumes r: "srels c" and inv: "ss_inv (slists c)" and l: "ss_lookup (slists c) i = Some y"
    and sz: "length (ivals (v_store (ss_indices c))) \<le> vc_imax (sc_dense S)"
  shows "\<exists>c'. ss_remove S i c = Inr c' \<and> ss_lookup (slists c') = (ss_lookup (slists c))(i := None) \<and>
    length (snd (snd (slists c'))) = length (snd (snd (slists c)))"
proof -
  note p = present_ok [OF inv l sz]
  obtain c' where c': "ss_remove_inner S i c = Inr c'" using remove_inner_ok [OF r inv p(2) sz] by blast
  then have e: "slists c' = remove_lists i (slists c)" using remove_inner_Inr [OF r inv p(2)] by simp
  show ?thesis using c' p(1) e remove_lists_spec(2) [OF inv p(2)]
    by (auto simp: ss_remove_def remove_lists_def Let_def split: prod.splits)
qed

end

lemma ss_card:
  assumes "ss_inv v"
  shows "card (dom (ss_lookup v)) = length (fst v)"
proof -
  obtain d sp ix where v: "v = (d, sp, ix)" by (cases v)
  have i: "length d \<le> length ix" "distinct ix" using assms v by (auto simp: ss_inv_def)
  have "dom (ss_lookup v) = set (take (length d) ix)"
    using i v by (simp add: ss_lookup_def dom_map_of_conv_image_fst map_fst_zip_take flip: set_map)
  then show ?thesis using i v by (simp add: distinct_card)
qed

lemma add_lists_indices:
  assumes "ss_inv v" and "add_lists x v = (i, v')"
  shows "length (snd (snd v')) \<le> max (length (snd (snd v))) (Suc (card (dom (ss_lookup v))))"
    and "i < length (snd (snd v'))"
proof -
  obtain d sp ix where v: "v = (d, sp, ix)" by (cases v)
  note c = ss_card [OF assms(1)]
  have ixd: "ix ! length d < length ix" if "length d < length sp"
    using that assms(1) v ss_inv_ix [of d sp ix "length d"] by (simp add: ss_inv_def)
  show "length (snd (snd v')) \<le> max (length (snd (snd v))) (Suc (card (dom (ss_lookup v))))"
    using assms c v by (auto simp: add_lists_def ss_inv_def split: if_splits)
  show "i < length (snd (snd v'))" using assms v ixd by (auto simp: add_lists_def ss_inv_def split: if_splits)
qed

context arena_ops begin

lemma len_val:
  assumes v: "la_repr (lc_id A) (alists a) ls" and l: "l < length ls"
  shows "la_len A l a = Inr (length (ls ! l))"
proof -
  obtain chs where c: "chains (lc_id A) (H a, M a) chs" and ls: "ls = map (payloads (M a)) chs"
    using v by (auto simp: la_repr_eq la_contents_def)
  have lh: "l < length (H a)" "l < length chs" using l ls c by (auto simp: chains_def)
  with chains_nth [OF c lh(1)] ls show ?thesis by (simp add: la_len_def heads.vec_get_val is_chain_def payloads_def)
qed

end

section \<open>The invariant, on the contents\<close>

text \<open>
  \<open>es\<close> are the entries, \<open>m\<close> the class data by key, \<open>p\<close> the parents of the union-find and \<open>nl\<close> the number of
  use-lists.
\<close>

definition ec_key :: "32 word eclass_entry list \<Rightarrow> nat \<Rightarrow> nat option" where
  "ec_key es x = entry_repr_id id31 (es ! x)"

definition roots :: "nat list \<Rightarrow> nat set" where
  "roots p = {x. x < length p \<and> uf_root p x = x}"

definition ec_core :: "32 word eclass_entry list \<Rightarrow> (nat \<rightharpoonup> class_data) \<Rightarrow> nat list \<Rightarrow> nat \<Rightarrow> bool" where
  "ec_core es m p nl \<longleftrightarrow> ring_inv p (map ee_next es) \<and>
    (\<forall>x < length p. ec_key es x \<noteq> None \<longleftrightarrow> x \<in> roots p) \<and>
    bij_betw (\<lambda>x. the (ec_key es x)) (roots p) (dom m) \<and>
    nl = length p \<and> (\<forall>d \<in> ran m. cd_use_list d < nl) \<and> inj_on (\<lambda>k. cd_use_list (the (m k))) (dom m)"

lemma ec_key_new: "k < 2 ^ 31 \<Longrightarrow> ec_key (es @ [entry_new id31 n k]) (length es) = Some k"
  using id31_t.opt_get_some [of k] by (simp add: ec_key_def entry_repr_id_def entry_new_def id_nat_dom_def)

lemma ec_core_length: "ec_core es m p nl \<Longrightarrow> length es = length p"
  by (simp add: ec_core_def ring_inv_def)

lemma ec_core_key:
  assumes "ec_core es m p nl" and "x \<in> roots p"
  obtains k d where "ec_key es x = Some k" and "m k = Some d"
proof -
  have "x < length p" using assms(2) by (simp add: roots_def)
  then obtain k where k: "ec_key es x = Some k" using assms by (auto simp: ec_core_def)
  then have "k \<in> dom m" using assms bij_betwE [of "\<lambda>x. the (ec_key es x)" "roots p" "dom m"] by (fastforce simp: ec_core_def)
  with k that show thesis by blast
qed

lemma ec_core_uses: "ec_core es m p nl \<Longrightarrow> m j = Some f \<Longrightarrow> m k = Some e \<Longrightarrow> j \<noteq> k \<Longrightarrow> cd_use_list f \<noteq> cd_use_list e"
  using inj_onD [of "\<lambda>k. cd_use_list (the (m k))" "dom m" j k] by (auto simp: ec_core_def)

lemma ec_core_card: "ec_core es m p nl \<Longrightarrow> card (dom m) = card (roots p)"
  using bij_betw_same_card by (fastforce simp: ec_core_def)

lemma card_roots: "card (roots p) \<le> length p"
  using card_mono [of "{..< length p}" "roots p"] by (auto simp: roots_def)

lemma ec_core_find:
  assumes "ec_core es m p nl" and "length p' = length p" and "\<And>x. x < length p \<Longrightarrow> uf_root p' x = uf_root p x"
  shows "ec_core es m p' nl"
proof -
  have "roots p' = roots p" using assms(2,3) by (auto simp: roots_def)
  then show ?thesis using assms(1,2) ring_inv_find [OF _ assms(2,3)] by (auto simp: ec_core_def)
qed

lemma ec_core_data:
  assumes c: "ec_core es m p nl" and k: "m k = Some d" "cd_use_list d' = cd_use_list d"
  shows "ec_core es (m(k \<mapsto> d')) p nl"
proof -
  have "dom (m(k \<mapsto> d')) = dom m" using k by auto
  moreover have "cd_use_list (the ((m(k \<mapsto> d')) i)) = cd_use_list (the (m i))" for i using k by simp
  moreover have "cd_use_list e < nl" if e: "e \<in> ran (m(k \<mapsto> d'))" for e
  proof -
    have "d \<in> ran m" using k by (auto simp: ran_def)
    then show ?thesis using c e k by (auto simp: ec_core_def ran_def split: if_splits)
  qed
  ultimately show ?thesis using c by (simp add: ec_core_def)
qed

lemma ec_core_snoc:
  assumes c: "ec_core es m p nl" and f: "forest p" and k: "m k = None" "k < 2 ^ 31" and d: "cd_use_list d = nl"
  shows "ec_core (es @ [entry_new id31 (length p) k]) (m(k \<mapsto> d)) (p @ [length p]) (Suc nl)"
proof -
  let ?es = "es @ [entry_new id31 (length p) k]" and ?p = "p @ [length p]"
  note len = ec_core_length [OF c] and s = forest_snoc [OF f]
  have old: "ec_key ?es x = ec_key es x" if "x < length p" for x using that len by (simp add: ec_key_def nth_append)
  have new: "ec_key ?es (length p) = Some k"

    using ec_key_new [OF k(2)] len by metis
  have rt: "roots ?p = insert (length p) (roots p)"
    using s(2,3) by (auto simp: roots_def less_Suc_eq)
  have nr: "length p \<notin> roots p" by (simp add: roots_def)
  have "bij_betw (\<lambda>x. the (ec_key ?es x)) (roots p) (dom m)"
    using c old by (subst bij_betw_cong [where g = "\<lambda>x. the (ec_key es x)"]) (auto simp: roots_def ec_core_def)
  then have "bij_betw (\<lambda>x. the (ec_key ?es x)) (roots p \<union> {length p}) (dom m \<union> {k})"
    using new k(1) nr by (intro bij_betw_combine) (auto simp: bij_betw_def)
  then have b: "bij_betw (\<lambda>x. the (ec_key ?es x)) (roots ?p) (dom (m(k \<mapsto> d)))" using rt by (simp add: Un_commute)
  have lt: "cd_use_list e < nl" if "m i = Some e" for i e using c that by (auto simp: ec_core_def ran_def)
  then have "inj_on (\<lambda>i. cd_use_list (the ((m(k \<mapsto> d)) i))) (dom (m(k \<mapsto> d)))"
    using c d k(1) by (fastforce simp: ec_core_def inj_on_def)
  moreover have "\<forall>e \<in> ran (m(k \<mapsto> d)). cd_use_list e < Suc nl" using lt d by (auto simp: ran_def less_Suc_eq)
  moreover have "ring_inv ?p (map ee_next ?es)" using ring_inv_snoc [OF _ f] c by (simp add: ec_core_def entry_new_def)
  moreover have "\<forall>x < length ?p. ec_key ?es x \<noteq> None \<longleftrightarrow> x \<in> roots ?p"
    using c old new rt by (auto simp: ec_core_def less_Suc_eq)
  ultimately show ?thesis using b c by (simp add: ec_core_def)
qed

text \<open>The splice of two classes: the successors are exchanged and the absorbed key is dropped.\<close>

lemma ec_core_merge:
  assumes c: "ec_core es m p nl" and sa: "s \<in> roots p" "a \<in> roots p" "s \<noteq> a" and ka: "ec_key es a = Some ka"
    and len: "length p' = length p" and rt: "\<And>x. x < length p \<Longrightarrow> uf_root p' x = (if uf_root p x = a then s else uf_root p x)"
    and es': "length es' = length es" "map ee_next es' = (map ee_next es)[s := ee_next (es ! a), a := ee_next (es ! s)]"
    and key: "ec_key es' a = None" "\<And>x. x < length p \<Longrightarrow> x \<noteq> a \<Longrightarrow> ec_key es' x = ec_key es x"
  shows "ec_core es' (m(ka := None)) p' nl"
proof -
  have lt: "s < length p" "a < length p" "uf_root p s = s" "uf_root p a = a" using sa by (auto simp: roots_def)
  have r': "roots p' = roots p - {a}" using rt len lt sa by (auto simp: roots_def split: if_splits)
  have "bij_betw (\<lambda>x. the (ec_key es x)) (roots p - {a}) (dom m - {ka})"
    using bij_betw_DiffI [of "\<lambda>x. the (ec_key es x)" "roots p" "dom m" "{a}" "{ka}"] c sa ka
      ec_core_key [OF c sa(2)] by (force simp: ec_core_def bij_betw_singletonI)
  then have "bij_betw (\<lambda>x. the (ec_key es' x)) (roots p') (dom (m(ka := None)))"
    using key(2) r' by (subst bij_betw_cong [where g = "\<lambda>x. the (ec_key es x)"]) (auto simp: roots_def)
  moreover have "ring_inv p' (map ee_next es')"
    using ring_inv_merge [OF _ lt(1,2,3,4) sa(3) len rt, of "map ee_next es"] c lt es' ec_core_length [OF c]
    by (simp add: ec_core_def)
  moreover have "\<forall>x < length p'. ec_key es' x \<noteq> None \<longleftrightarrow> x \<in> roots p'"
  proof (intro allI impI)
    show "ec_key es' x \<noteq> None \<longleftrightarrow> x \<in> roots p'" if "x < length p'" for x
      using c key r' len that by (cases "x = a") (auto simp: ec_core_def)
  qed
  moreover have "\<forall>d \<in> ran (m(ka := None)). cd_use_list d < nl" using c by (auto simp: ec_core_def ran_def split: if_splits)
  moreover have "inj_on (\<lambda>k. cd_use_list (the ((m(ka := None)) k))) (dom (m(ka := None)))"
    using c by (auto simp: ec_core_def inj_on_def)
  ultimately show ?thesis using c len by (simp add: ec_core_def)
qed

section \<open>31-bit nodes, keys and lists\<close>

definition en31_cfg :: "bool \<Rightarrow> ((32 word \<times> 32 word) inline_store, 32 word eclass_entry) vec_cfg" where
  "en31_cfg track = veci_cfg (entry_tagged id31 id31) track (2 ^ 32 - 1)"

definition rs31_cfg :: "bool \<Rightarrow> ((32 word \<times> nat \<times> bool \<times> bool) inline_store, class_data, nat bool_tagged) ss_cfg" where
  "rs31_cfg track = \<lparr>sc_dense = veci_cfg (class_data_tagged id31) track (2 ^ 32 - 1), sc_idx = veci_cfg (bool_tagged_ops 0) track (2 ^ 32 - 1)\<rparr>"

definition pl31_cfg :: "bool \<Rightarrow> (32 word parallel_store, 32 word) vec_cfg" where
  "pl31_cfg track = vecp_cfg track (2 ^ 64 - 1) (opt_none id31)"

definition ec31_cfg :: "('j, 'q) tagged_ops \<Rightarrow> bool \<Rightarrow> bool \<Rightarrow> (32 word, 32 word, 32 word, 32 word, 'j, 'q) ec_cfg" where
  "ec31_cfg T track proofs = \<lparr>xc_entries = en31_cfg track, xc_reprs = rs31_cfg track,
     xc_uf = uf31_cfg T track proofs, xc_uses = la31_cfg id31 track, xc_pool = pl31_cfg track,
     xc_node = id31, xc_key = id31, xc_kmax = imax31, xc_stealing = (True, True)\<rparr>"

lemma ec31_sel [simp]:
  "xc_entries (ec31_cfg T track proofs) = en31_cfg track" "xc_reprs (ec31_cfg T track proofs) = rs31_cfg track"
  "xc_uf (ec31_cfg T track proofs) = uf31_cfg T track proofs" "xc_uses (ec31_cfg T track proofs) = la31_cfg id31 track"
  "xc_pool (ec31_cfg T track proofs) = pl31_cfg track" "xc_node (ec31_cfg T track proofs) = id31"
  "xc_key (ec31_cfg T track proofs) = id31" "xc_kmax (ec31_cfg T track proofs) = imax31"
  "vc_imax (en31_cfg track) = 2 ^ 32 - 1" "vc_imax (sc_dense (rs31_cfg track)) = 2 ^ 32 - 1"
  "vc_imax (sc_idx (rs31_cfg track)) = 2 ^ 32 - 1" "vc_imax (pl31_cfg track) = 2 ^ 64 - 1"
  by (simp_all add: ec31_cfg_def en31_cfg_def rs31_cfg_def pl31_cfg_def veci_cfg_def vecp_cfg_def)

lemmas en31_repr = entry_tagged_repr [OF id31_t.tagged_repr_axioms, of id31]
lemmas cd31_repr = class_data_tagged_repr [OF id31_t.tagged_repr_axioms]

interpretation en31: semi_vec "en31_cfg track" "is_vals (entry_tagged id31 id31)" "is_flag (entry_tagged id31 id31)" "is_flag (entry_tagged id31 id31)"
  "\<lambda>e. id_nat_dom TYPE(32) (ee_next e)" "tg_default (entry_tagged id31 id31)" for track
  unfolding en31_cfg_def by (rule tagged_repr.veci_semi_vec [OF en31_repr])

interpretation pl31: semi_vec "pl31_cfg track" ps_data is_bit_set "\<lambda>_ _. False" "\<lambda>_. True" "opt_none id31" for track
  unfolding pl31_cfg_def by (rule vecp.semi_vec_axioms)

interpretation rs31: sparse_ops "rs31_cfg track" "is_vals (class_data_tagged id31)" "is_flag (class_data_tagged id31)" "is_flag (class_data_tagged id31)"
  "\<lambda>d. id_nat_dom TYPE(32) (cd_use_list d)" "tg_default (class_data_tagged id31)"
  "is_vals (bool_tagged_ops (0 :: nat))" "is_flag (bool_tagged_ops (0 :: nat))" "is_flag (bool_tagged_ops (0 :: nat))" "\<lambda>_. True" "tg_default (bool_tagged_ops (0 :: nat))"
  for track
proof (intro sparse_ops.intro sparse_ops_axioms.intro)
  show "semi_vec (sc_dense (rs31_cfg track)) (is_vals (class_data_tagged id31)) (is_flag (class_data_tagged id31)) (is_flag (class_data_tagged id31))
      (\<lambda>d. id_nat_dom TYPE(32) (cd_use_list d)) (tg_default (class_data_tagged id31))"
    unfolding rs31_cfg_def ss_cfg.simps by (rule tagged_repr.veci_semi_vec [OF cd31_repr])
  show "semi_vec (sc_idx (rs31_cfg track)) (is_vals (bool_tagged_ops 0)) (is_flag (bool_tagged_ops 0)) (is_flag (bool_tagged_ops 0))
      (\<lambda>_. True) (tg_default (bool_tagged_ops 0))"
    unfolding rs31_cfg_def ss_cfg.simps by (rule bt.veci_semi_vec)
qed (simp_all add: is_vals_def is_flag_def is_new_def)

type_synonym ('j, 'q) ec31 = "(32 word, 32 word, 32 word, 32 word, 'j, 'q) eclasses"

abbreviation ec31_entries :: "('j, 'q) ec31 \<Rightarrow> 32 word eclass_entry list" where
  "ec31_entries c \<equiv> is_vals (entry_tagged id31 id31) (v_store (ec_entries c))"

abbreviation ec31_reprs :: "('j, 'q) ec31 \<Rightarrow> class_data ss_lists" where
  "ec31_reprs c \<equiv> ss_contents (is_vals (class_data_tagged id31)) (is_vals (bool_tagged_ops 0)) (ec_reprs c)"

abbreviation ec31_data :: "('j, 'q) ec31 \<Rightarrow> nat \<rightharpoonup> class_data" where
  "ec31_data c \<equiv> ss_lookup (ec31_reprs c)"

abbreviation ec31_parents :: "('j, 'q) ec31 \<Rightarrow> nat list" where
  "ec31_parents c \<equiv> uf31_parents (ec_uf c)"

abbreviation ec31_nlists :: "('j, 'q) ec31 \<Rightarrow> nat" where
  "ec31_nlists c \<equiv> length (fst (la31_contents (ec_uses c)))"

text \<open>The contents of the five parts, and the invariant on them.\<close>

type_synonym 'j ec_lists = "32 word eclass_entry list \<times> class_data ss_lists \<times> 'j uf_lists \<times> (nat, 32 word) la_lists \<times> 32 word list"

definition ec31_view :: "('j, 'q) tagged_ops \<Rightarrow> ('j, 'q) ec31 \<Rightarrow> 'j ec_lists" where
  "ec31_view T c = (ec31_entries c, ec31_reprs c, uf31_view T (ec_uf c), la31_contents (ec_uses c), ps_data (v_store (ec_pool c)))"

definition ec_inv :: "'j ec_lists \<Rightarrow> bool" where
  "ec_inv v = (case v of (es, sl, (((p, _), _), _), al, _) \<Rightarrow>
    ec_core es (ss_lookup sl) p (length (fst al)) \<and> length (snd (snd sl)) \<le> length p)"

lemma ec_inv_view: "ec_inv (ec31_view T c) \<longleftrightarrow> ec_core (ec31_entries c) (ec31_data c) (ec31_parents c) (ec31_nlists c) \<and>
    length (snd (snd (ec31_reprs c))) \<le> length (ec31_parents c)"
  by (simp add: ec_inv_def ec31_view_def)

lemma la_repr_length: "la_repr N v ls \<Longrightarrow> length ls = length (fst v)"
  by (auto simp: la_repr_def chains_def)

text \<open>What a merge reports and does to the representatives and the class data.\<close>

abbreviation rep :: "('j, 'q) ec31 \<Rightarrow> nat \<Rightarrow> nat" where
  "rep c \<equiv> uf_root (ec31_parents c)"

definition ec_merged :: "nat \<Rightarrow> nat \<Rightarrow> bool option \<Rightarrow> merge_info option \<Rightarrow> ('j, 'q) ec31 \<Rightarrow> ('j, 'q) ec31 \<Rightarrow> bool" where
  "ec_merged a b pref r c c' \<longleftrightarrow> length (ec31_parents c') = length (ec31_parents c) \<and> ec_uses c' = ec_uses c \<and> (case r of
      None \<Rightarrow> rep c a = rep c b \<and> (\<forall>x < length (ec31_parents c). rep c' x = rep c x) \<and> ec31_data c' = ec31_data c
    | Some mi \<Rightarrow> rep c a \<noteq> rep c b \<and> {mi_survivor mi, mi_absorbed mi} = {rep c a, rep c b} \<and>
        (pref = Some True \<longrightarrow> mi_survivor mi = rep c a) \<and> (pref = Some False \<longrightarrow> mi_survivor mi = rep c b) \<and>
        (\<forall>x < length (ec31_parents c). rep c' x = (if rep c x = mi_absorbed mi then mi_survivor mi else rep c x)) \<and>
        (\<exists>k d. ec_key (ec31_entries c) (mi_absorbed mi) = Some k \<and> ec31_data c k = Some d \<and>
          mi_absorbed_uses mi = cd_use_list d \<and> mi_absorbed_min_row mi = cd_min_row d \<and> mi_absorbed_atomic mi = cd_atomic d \<and>
          ec31_data c' = (ec31_data c)(k := None)))"

text \<open>Any successful operation that changes the classes; node identifiers have 31 bits.\<close>

inductive ec_upd :: "(32 word, 32 word, 32 word, 32 word, 'j, 'q) ec_cfg \<Rightarrow> ('j \<Rightarrow> bool) \<Rightarrow> ('j, 'q) ec31 \<Rightarrow> ('j, 'q) ec31 \<Rightarrow> bool" for X okj where
  add_singleton: "i < 2 ^ 31 \<Longrightarrow> ec_add_singleton X i c = Inr (k, c') \<Longrightarrow> ec_upd X okj c c'"
| add_use: "n < 2 ^ 31 \<Longrightarrow> ec_add_use X k n c = Inr c' \<Longrightarrow> ec_upd X okj c c'"
| set_atomic: "ec_set_atomic X k c = Inr c' \<Longrightarrow> ec_upd X okj c c'"
| set_min_width: "ec_set_min_width X w c = Inr c' \<Longrightarrow> ec_upd X okj c c'"
| set_min_monomial: "n < 2 ^ 31 \<Longrightarrow> ec_set_min_monomial X k col n c = Inr c' \<Longrightarrow> ec_upd X okj c c'"
| splice_uses: "ec_splice_uses X l l' c = Inr c' \<Longrightarrow> ec_upd X okj c c'"
| find: "ec_find X x c = Inr (r, c') \<Longrightarrow> ec_upd X okj c c'"
| merge: "ec_merge X a b c = Inr (r, c') \<Longrightarrow> ec_upd X okj c c'"
| merge_justified: "okj j \<Longrightarrow> ec_merge_justified X a b j c = Inr (r, c') \<Longrightarrow> ec_upd X okj c c'"
| merge_directed: "ec_merge_directed X a b c = Inr (r, c') \<Longrightarrow> ec_upd X okj c c'"
| merge_justified_directed: "okj j \<Longrightarrow> ec_merge_justified_directed X a b j c = Inr (r, c') \<Longrightarrow> ec_upd X okj c c'"

text \<open>\<open>T\<close> stores the justifications of the proof edges.\<close>

locale ec_ops = just: tagged_repr T okj for T :: "('j, 'q) tagged_ops" and okj +
  fixes track proofs :: bool

sublocale ec_ops \<subseteq> uf: uf_ops "uf31_cfg T track proofs" "is_vals id31" "is_flag id31" "is_flag id31" "id_nat_dom TYPE(32)" "tg_default id31"
  "is_vals (bool_tagged_ops 0)" "is_flag (bool_tagged_ops 0)" "is_flag (bool_tagged_ops 0)" "tg_default (bool_tagged_ops 0)"
  "is_vals T" "is_flag T" "is_flag T" okj "tg_default T" "2 ^ 31"
  by (rule uf31_ops [OF just.tagged_repr_axioms])

context ec_ops begin

abbreviation "X \<equiv> ec31_cfg T track proofs"
abbreviation "esteps \<equiv> (vec_upd (en31_cfg track) (\<lambda>e. id_nat_dom TYPE(32) (ee_next e)))\<^sup>*\<^sup>*"
abbreviation "rsteps \<equiv> (ss_upd (rs31_cfg track) (\<lambda>d. id_nat_dom TYPE(32) (cd_use_list d)))\<^sup>*\<^sup>*"
abbreviation "fsteps \<equiv> (uf_upd (uf31_cfg T track proofs) (2 ^ 31) okj)\<^sup>*\<^sup>*"
abbreviation "asteps \<equiv> (la_upd (la31_cfg id31 track) (id_nat_dom TYPE(32)))\<^sup>*\<^sup>*"
abbreviation "psteps \<equiv> (vec_upd (pl31_cfg track) (\<lambda>_. True))\<^sup>*\<^sup>*"

definition csteps :: "('j, 'q) ec31 \<Rightarrow> ('j, 'q) ec31 \<Rightarrow> bool" where
  "csteps c c' \<longleftrightarrow> esteps (ec_entries c) (ec_entries c') \<and> rsteps (ec_reprs c) (ec_reprs c') \<and> fsteps (ec_uf c) (ec_uf c') \<and>
    asteps (ec_uses c) (ec_uses c') \<and> psteps (ec_pool c) (ec_pool c')"

lemma csteps_trans: "csteps a b \<Longrightarrow> csteps b c \<Longrightarrow> csteps a c"
  unfolding csteps_def by (meson rtranclp_trans)

lemma data_dom: "ss_get (rs31_cfg track) i r = Inr d \<Longrightarrow> id_nat_dom TYPE(32) (cd_use_list d)"
  using rs31.dense.get_Inr rs31.dense.get_dom by (auto simp: ss_get_def elim!: rbind_eq_InrE)

lemma set_data_steps:
  assumes "ss_get (rs31_cfg track) i r = Inr d" and "ss_set (rs31_cfg track) i d' r = Inr r'" and "cd_use_list d' = cd_use_list d"
  shows "rsteps r r'"
  using ss_upd.set [OF _ assms(2)] data_dom [OF assms(1)] assms(3) by (intro r_into_rtranclp) simp

lemma add_singleton_steps: "i < 2 ^ 31 \<Longrightarrow> ec_add_singleton X i c = Inr (k, c') \<Longrightarrow> csteps c c'"
proof -
  assume i: "i < 2 ^ 31" and a: "ec_add_singleton X i c = Inr (k, c')"
  obtain u l al raw r e where u: "uf_make_set (uf31_cfg T track proofs) i (ec_uf c) = Inr u"
    and l: "la_new_list (la31_cfg id31 track) (ec_uses c) = Inr (l, al)"
    and r: "ss_add (rs31_cfg track) \<lparr>cd_use_list = l, cd_min_row = None, cd_atomic = False\<rparr> (ec_reprs c) = Inr (raw, r)"
    and e: "vec_push (en31_cfg track) (entry_new id31 i k) (ec_entries c) = Inr e"
    and c': "c' = c\<lparr>ec_uf := u, ec_uses := al, ec_reprs := r, ec_entries := e\<rparr>"
    using a by (auto simp: ec_add_singleton_def idx_try_def elim!: rbind_eq_InrE split: if_splits)
  have "l < 2 ^ 31" using l by (auto simp: la_new_list_def la31_cfg_sel idx_try_def le_imax31 elim!: rbind_eq_InrE split: if_splits)
  then show ?thesis
    using i c' ss_upd.add [OF _ r] uf_upd.make_set [OF u] la_upd.new_list [OF l] en31.upds(1) [OF _ e]
    by (auto simp: csteps_def id_nat_dom_def entry_new_def intro!: r_into_rtranclp)
qed

lemma add_use_steps: 
  assumes "n < 2 ^ 31" and "ec_add_use X k n c = Inr c'"
  shows "csteps c c'"
proof -
  obtain d a where d: "ss_get (rs31_cfg track) k (ec_reprs c) = Inr d"
    and a: "la_append (la31_cfg id31 track) (cd_use_list d) n (ec_uses c) = Inr a"
    and c': "(if cd_atomic d then Inr (c\<lparr>ec_uses := a\<rparr>) else rbind (ss_set (xc_reprs X) k (d\<lparr>cd_atomic := True\<rparr>) (ec_reprs c)) (\<lambda>r.
      Inr (c\<lparr>ec_uses := a, ec_reprs := r\<rparr>))) = Inr c'"
    using assms(2) by (auto simp: ec_add_use_def simp del: if_split elim!: rbind_eq_InrE)
  have "la_upd (la31_cfg id31 track) (id_nat_dom TYPE(32)) (ec_uses c) a"
    using assms(1) by (intro la_upd.append [OF _ a]) (simp add: id_nat_dom_def)
  then have st: "asteps (ec_uses c) a" by (rule r_into_rtranclp)
  show ?thesis
  proof (cases "cd_atomic d")
    case True
    then show ?thesis using c' st by (auto simp: csteps_def)
  next
    case False
    then obtain r where r: "ss_set (rs31_cfg track) k (d\<lparr>cd_atomic := True\<rparr>) (ec_reprs c) = Inr r" "c' = c\<lparr>ec_uses := a, ec_reprs := r\<rparr>"
      using c' by (auto elim!: rbind_eq_InrE)
    show ?thesis using set_data_steps [OF d r(1)] r(2) st by (simp add: csteps_def)
  qed
qed

lemma set_atomic_steps: "ec_set_atomic X k c = Inr c' \<Longrightarrow> csteps c c'"
  by (fastforce simp: ec_set_atomic_def csteps_def intro: set_data_steps elim!: rbind_eq_InrE split: if_splits)

lemma push_row_steps: "ec_push_row X n p = Inr p' \<Longrightarrow> psteps p p'"
proof (induction n arbitrary: p)
  case (Suc n)
  then obtain q where q: "vec_push (pl31_cfg track) (opt_none id31) p = Inr q" "ec_push_row X n q = Inr p'"
    by (auto elim!: rbind_eq_InrE)
  show ?case using Suc.IH [OF q(2)] pl31.upds(1) [OF _ q(1)] by simp
qed simp

lemma ensure_steps: "ec_ensure_min_row X k c = Inr (row, c') \<Longrightarrow> csteps c c'"
  by (fastforce simp: ec_ensure_min_row_def csteps_def intro: push_row_steps set_data_steps elim!: rbind_eq_InrE split: option.splits)

lemma set_min_monomial_steps: 
  assumes "ec_set_min_monomial X k col n c = Inr c'"
  shows "csteps c c'"
proof -
  obtain row c1 p where e: "ec_ensure_min_row X k c = Inr (row, c1)"
    and p: "vec_set (pl31_cfg track) (usize_add row col) (opt_some id31 n) (ec_pool c1) = Inr p" "c' = c1\<lparr>ec_pool := p\<rparr>"
    using assms by (auto simp: ec_set_min_monomial_def elim!: rbind_eq_InrE)
  have "csteps c1 c'" using p pl31.upds(2) [OF _ p(1)] by (simp add: csteps_def)
  with ensure_steps [OF e] show ?thesis by (rule csteps_trans)
qed

lemma splice_classes_steps:
  assumes "ec_splice_classes X (s, a) c = Inr c'"
  shows "csteps c c'"
proof -
  obtain es ea e1 e2 r where g: "vec_get (en31_cfg track) s (ec_entries c) = Inr es" "vec_get (en31_cfg track) a (ec_entries c) = Inr ea"
    and e1: "vec_set (en31_cfg track) s (entry_new id31 (ee_next ea) (entry_repr_id_unchecked id31 es)) (ec_entries c) = Inr e1"
    and e2: "vec_set (en31_cfg track) a (entry_set_absent id31 (entry_new id31 (ee_next es) (entry_repr_id_unchecked id31 ea))) e1 = Inr e2"
    and r: "ss_remove (rs31_cfg track) (entry_repr_id_unchecked id31 ea) (ec_reprs c) = Inr r"
    and c': "c' = c\<lparr>ec_entries := e2, ec_reprs := r\<rparr>"
    using assms by (auto simp: ec_splice_classes_def Let_def elim!: rbind_eq_InrE)
  have "id_nat_dom TYPE(32) (ee_next es)" "id_nat_dom TYPE(32) (ee_next ea)" using g en31.get_Inr en31.get_dom by auto
  then have "esteps (ec_entries c) e2"
    using rtranclp_trans [OF en31.upds(2) [OF _ e1] en31.upds(2) [OF _ e2]] by (simp add: entry_new_def entry_set_absent_def)
  then show ?thesis using c' ss_upd.remove [OF r] by (auto simp: csteps_def)
qed

lemma merge_tail_steps: "ec_merge_tail X r c = Inr (mi, c') \<Longrightarrow> csteps c c'"
  by (auto simp: ec_merge_tail_def splice_classes_steps elim!: rbind_eq_InrE split: option.splits) (simp add: csteps_def)

lemma uf_steps: "uf_upd (uf31_cfg T track proofs) (2 ^ 31) okj (ec_uf c) u \<Longrightarrow> csteps c (c\<lparr>ec_uf := u\<rparr>)"
  by (simp add: csteps_def)

lemma upd_steps: "ec_upd X okj c c' \<Longrightarrow> csteps c c'"
proof (induction rule: ec_upd.induct)
  case (set_min_width w c c')
  then show ?case by (auto simp: ec_set_min_width_def csteps_def elim!: rbind_eq_InrE split: if_splits)
next
  case (splice_uses l l' c c')
  then obtain a where a: "la_splice (la31_cfg id31 track) l l' (ec_uses c) = Inr a" "c' = c\<lparr>ec_uses := a\<rparr>"
    by (auto simp: ec_splice_uses_def elim!: rbind_eq_InrE)
  show ?case using r_into_rtranclp [of "la_upd (la31_cfg id31 track) (id_nat_dom TYPE(32))", OF la_upd.splice [OF a(1)]] a(2)
    by (simp add: csteps_def)
next
  case (find x c r c')
  then show ?case by (auto simp: ec_find_def intro!: uf_steps uf_upd.find elim!: rbind_eq_InrE)
next
  case (merge a b c r c')
  then show ?case by (auto simp: ec_merge_def intro: csteps_trans [OF uf_steps [OF uf_upd.union] merge_tail_steps] elim!: rbind_eq_InrE)
next
  case (merge_justified j a b c r c')
  then show ?case by (auto simp: ec_merge_justified_def intro: csteps_trans [OF uf_steps [OF uf_upd.justified] merge_tail_steps] elim!: rbind_eq_InrE)
next
  case (merge_directed a b c r c')
  then show ?case by (auto simp: ec_merge_directed_def intro: csteps_trans [OF uf_steps [OF uf_upd.directed] merge_tail_steps] elim!: rbind_eq_InrE)
next
  case (merge_justified_directed j a b c r c')
  then show ?case by (auto simp: ec_merge_justified_directed_def intro: csteps_trans [OF uf_steps [OF uf_upd.justified_directed] merge_tail_steps] elim!: rbind_eq_InrE)
qed (auto intro: add_singleton_steps add_use_steps set_atomic_steps set_min_monomial_steps)

subsection \<open>Every operation keeps the invariant\<close>

definition ec_rels :: "('j, 'q) ec31 \<Rightarrow> bool" where
  "ec_rels c \<longleftrightarrow> (\<exists>s. en31.rel track (ec_entries c) s) \<and> (rs31.srels track (ec_reprs c) \<and> ss_inv (ec31_reprs c)) \<and>
    (uf.uok (ec_uf c) \<and> uf.uinv (uf.uview (ec_uf c))) \<and>
    (la31.arels track (ec_uses c) \<and> la_inv id31 (la31_contents (ec_uses c))) \<and> (\<exists>s. pl31.rel track (ec_pool c) s)"

abbreviation "einv c \<equiv> ec_inv (ec31_view T c)"

lemma ec_relsD:
  assumes "ec_rels c"
  shows "rs31.srels track (ec_reprs c)" "ss_inv (ec31_reprs c)" "uf.uok (ec_uf c)" "uf.uinv (uf.uview (ec_uf c))"
    "la31.arels track (ec_uses c)" "\<exists>ls. la_repr id31 (la31_contents (ec_uses c)) ls"
    "forest (ec31_parents c)" "length (ec31_parents c) \<le> 2 ^ 31"
  using assms by (auto simp: ec_rels_def la_inv_def la_repr_def uf_inv_def uf.uview_def)

lemma reprs_size:
  assumes "ec_rels c" and "einv c"
  shows "length (is_vals (bool_tagged_ops 0) (v_store (ss_indices (ec_reprs c)))) \<le> vc_imax (sc_dense (rs31_cfg track))"
  using ec_relsD(8) [OF assms(1)] assms(2) by (simp add: ec_inv_view ss_contents_def)

lemma add_singleton_ok:
  assumes r: "ec_rels c" and inv: "einv c" and n: "length (ec31_parents c) < 2 ^ 31" and ls: "la_repr id31 (la31_contents (ec_uses c)) ls"
  shows "\<exists>k c'. ec_add_singleton X (length (ec31_parents c)) c = Inr (k, c') \<and> ec31_data c k = None \<and> einv c' \<and>
    ec31_data c' = (ec31_data c)(k \<mapsto> \<lparr>cd_use_list = length ls, cd_min_row = None, cd_atomic = False\<rparr>) \<and>
    ec31_entries c' = ec31_entries c @ [entry_new id31 (length (ec31_parents c)) k] \<and>
    ec31_parents c' = ec31_parents c @ [length (ec31_parents c)] \<and> la_repr id31 (la31_contents (ec_uses c')) (ls @ [[]]) \<and>
    length (snd (la31_contents (ec_uses c'))) \<le> Suc (length (snd (la31_contents (ec_uses c))))"
proof -
  let ?n = "length (ec31_parents c)"
  note d = ec_relsD [OF r] and sz = reprs_size [OF r inv]
  have core: "ec_core (ec31_entries c) (ec31_data c) (ec31_parents c) (ec31_nlists c)" and ix: "length (snd (snd (ec31_reprs c))) \<le> ?n"
    using inv by (auto simp: ec_inv_view)
  have nl: "ec31_nlists c = ?n" "length ls = ?n" using core la_repr_length [OF ls] by (auto simp: ec_core_def)
  obtain u where u: "uf_make_set (uf31_cfg T track proofs) ?n (ec_uf c) = Inr u" "uf31_parents u = ec31_parents c @ [?n]"
    using uf.make_set_ok [OF d(3,4)] n by auto
  have hl: "length (is_vals (head_tagged id31) (v_store (la_heads (ec_uses c)))) = ?n" using nl(1) by (simp add: la_contents_def)
  obtain a where a: "la_new_list (la31_cfg id31 track) (ec_uses c) = Inr (?n, a)"
    using la31.new_list_ok [OF d(5)] n hl by (auto simp: la31_cfg_sel le_imax31)
  have al: "la_repr id31 (la31_contents a) (ls @ [[]])" "length (snd (la31_contents a)) \<le> Suc (length (snd (la31_contents (ec_uses c))))"
    using la31.new_list_Inr [OF d(5) _ a] ls by (simp_all add: la31_cfg_sel la_contents_def)
  let ?d = "\<lparr>cd_use_list = ?n, cd_min_row = None, cd_atomic = False\<rparr>"
  have dd: "id_nat_dom TYPE(32) (cd_use_list ?d)" using n by (simp add: id_nat_dom_def)
  obtain k rr where k: "ss_add (rs31_cfg track) ?d (ec_reprs c) = Inr (k, rr)" using rs31.add_ok [OF d(1,2) _ sz, of ?d] dd by auto
  have ad: "add_lists ?d (ec31_reprs c) = (k, rs31.slists rr)" using rs31.add_Inr [OF d(1) dd k] by simp
  note sp = add_lists_spec [OF d(2) ad] and si = add_lists_indices [OF d(2) ad]
  have ix': "length (snd (snd (rs31.slists rr))) \<le> Suc ?n"
    using si(1) ix ec_core_card [OF core] card_roots [of "ec31_parents c"] by linarith
  have k31: "k < 2 ^ 31" using si(2) ix' n by linarith
  obtain s where s: "en31.rel track (ec_entries c) s" using r by (auto simp: ec_rels_def)
  have el: "length (ec31_entries c) = ?n" by (rule ec_core_length [OF core])
  obtain e where e: "vec_push (en31_cfg track) (entry_new id31 ?n k) (ec_entries c) = Inr e"
    "is_vals (entry_tagged id31 id31) (v_store e) = ec31_entries c @ [entry_new id31 ?n k]"
    using en31.push_spec [OF s, of "entry_new id31 ?n k"] el n by (auto simp: id_nat_dom_def entry_new_def)
  let ?c = "c\<lparr>ec_uf := u, ec_uses := a, ec_reprs := rr, ec_entries := e\<rparr>"
  have "ec_add_singleton X ?n c = Inr (k, ?c)"
    using u(1) a k e(1) k31 by (simp add: ec_add_singleton_def idx_try_def le_imax31)
  moreover have "einv ?c"
    using ec_core_snoc [OF core d(7) sp(2) k31, of ?d] nl la_repr_length [OF al(1)] ix' e(2) u(2) sp(3)
    by (simp add: ec_inv_view ss_contents_def)
  ultimately show ?thesis using sp e(2) u(2) al nl by (intro exI [of _ k] exI [of _ ?c]) (simp add: ss_contents_def)
qed

lemma set_data_inv:
  assumes r: "ec_rels c" and inv: "einv c" and g: "ss_get (rs31_cfg track) k (ec_reprs c) = Inr d"
    and st: "ss_set (rs31_cfg track) k d' (ec_reprs c) = Inr r'" and u: "cd_use_list d' = cd_use_list d"
  shows "einv (c\<lparr>ec_reprs := r'\<rparr>)"
    and "ss_lookup (rs31.slists r') = (ec31_data c)(k \<mapsto> d')"
proof -
  note d = ec_relsD [OF r]
  have "id_nat_dom TYPE(32) (cd_use_list d')" using data_dom [OF g] u by simp
  note l = rs31.set_lookup [OF d(1,2) this st]
  show "ss_lookup (rs31.slists r') = (ec31_data c)(k \<mapsto> d')" by (rule l)
  show "einv (c\<lparr>ec_reprs := r'\<rparr>)" 
    using inv l ec_core_data [where m = "ec31_data c" and k = k, OF _ rs31.get_Inr [OF d(2) g] u] by (simp add: ec_inv_view)
qed

lemma uses_inv:
  assumes "einv c" and "length (fst (la31_contents a)) = ec31_nlists c"
  shows "einv (c\<lparr>ec_uses := a\<rparr>)"
  using assms by (simp add: ec_inv_view)

lemma add_use_ok:
  assumes r: "ec_rels c" and inv: "einv c" and a: "ec_add_use X k n c = Inr c'" and n: "n < 2 ^ 31"
    and ls: "la_repr id31 (la31_contents (ec_uses c)) ls"
  shows "\<exists>d. ec31_data c k = Some d \<and> cd_use_list d < length ls \<and> einv c' \<and> ec31_data c' = (ec31_data c)(k \<mapsto> d\<lparr>cd_atomic := True\<rparr>) \<and>
    ec_entries c' = ec_entries c \<and> ec_uf c' = ec_uf c \<and>
    la_repr id31 (la31_contents (ec_uses c')) (ls[cd_use_list d := ls ! cd_use_list d @ [n]])"
proof -
  note rd = ec_relsD [OF r]
  obtain d al where d: "ss_get (rs31_cfg track) k (ec_reprs c) = Inr d"
    and al: "la_append (la31_cfg id31 track) (cd_use_list d) n (ec_uses c) = Inr al"
    and c': "(if cd_atomic d then Inr (c\<lparr>ec_uses := al\<rparr>) else rbind (ss_set (xc_reprs X) k (d\<lparr>cd_atomic := True\<rparr>) (ec_reprs c)) (\<lambda>r.
      Inr (c\<lparr>ec_uses := al, ec_reprs := r\<rparr>))) = Inr c'"
    using a by (auto simp: ec_add_use_def simp del: if_split elim!: rbind_eq_InrE)
  have dd: "id_nat_dom TYPE(32) n" using n by (simp add: id_nat_dom_def)
  note ap = la31.append_Inr [OF rd(5) _ dd al, unfolded la31_cfg_sel, OF ls]
  note look = rs31.get_Inr [OF rd(2) d]
  have nl: "length (fst (la31_contents al)) = ec31_nlists c" 
    using la_repr_length [OF ls] la_repr_length [OF ap [THEN conjunct2, THEN conjunct2, THEN conjunct1]] by simp
  show ?thesis
  proof (cases "cd_atomic d")
    case True
    then have "d\<lparr>cd_atomic := True\<rparr> = d" and "c' = c\<lparr>ec_uses := al\<rparr>" using c' by auto
    then show ?thesis using ap look uses_inv [OF inv nl] by (intro exI [of _ d]) (simp add: fun_upd_idem)
  next
    case False
    then obtain rr where rr: "ss_set (rs31_cfg track) k (d\<lparr>cd_atomic := True\<rparr>) (ec_reprs c) = Inr rr" "c' = c\<lparr>ec_uses := al, ec_reprs := rr\<rparr>"
      using c' by (auto elim!: rbind_eq_InrE)
    note s = set_data_inv [OF r inv d rr(1)]
    have "einv c'" using s(1) nl rr(2) by (simp add: ec_inv_view)
    then show ?thesis using s(2) ap look rr(2) by (intro exI [of _ d]) auto
  qed
qed

lemma find_inv:
  assumes r: "ec_rels c" and inv: "einv c" and len: "length (uf31_parents u) = length (ec31_parents c)"
    and rt: "\<And>x. x < length (ec31_parents c) \<Longrightarrow> uf_root (uf31_parents u) x = uf_root (ec31_parents c) x"
  shows "einv (c\<lparr>ec_uf := u\<rparr>)"
  using inv len ec_core_find [OF _ len rt] by (simp add: ec_inv_view)

lemma ensure_inv:
  assumes r: "ec_rels c" and inv: "einv c" and a: "ec_ensure_min_row X k c = Inr (row, c')"
  shows "einv c' \<and> (\<exists>d. ec31_data c k = Some d \<and> ec31_data c' = (ec31_data c)(k \<mapsto> d\<lparr>cd_min_row := Some row\<rparr>)) \<and>
    (\<exists>s. pl31.rel track (ec_pool c') s)"
proof -
  note rd = ec_relsD [OF r]
  obtain d where d: "ss_get (rs31_cfg track) k (ec_reprs c) = Inr d" using a by (auto simp: ec_ensure_min_row_def elim!: rbind_eq_InrE)
  note look = rs31.get_Inr [OF rd(2) d]
  obtain s where s: "pl31.rel track (ec_pool c) s" using r by (auto simp: ec_rels_def)
  then have "pl31.rel track (ec_pool c') s"
    using ensure_steps [OF a] checkpointed.upds_rel [OF pl31.is_checkpointed] by (auto simp: csteps_def)
  moreover have "einv c' \<and> ec31_data c' = (ec31_data c)(k \<mapsto> d\<lparr>cd_min_row := Some row\<rparr>)"
  proof (cases "cd_min_row d")
    case (Some off)
    then have "c' = c" "off = row" using a d by (auto simp: ec_ensure_min_row_def)
    moreover have "d\<lparr>cd_min_row := Some off\<rparr> = d" using Some by simp
    ultimately show ?thesis using inv look by (auto simp: fun_upd_idem)
  next
    case None
    then obtain p rr where rr: "ss_set (rs31_cfg track) k (d\<lparr>cd_min_row := Some row\<rparr>) (ec_reprs c) = Inr rr" "c' = c\<lparr>ec_pool := p, ec_reprs := rr\<rparr>"
      using a d by (auto simp: ec_ensure_min_row_def elim!: rbind_eq_InrE)
    note sd = set_data_inv [OF r inv d rr(1)]
    have "einv c'" using sd(1) rr(2) by (simp add: ec_inv_view)
    then show ?thesis using sd(2) rr(2) by simp
  qed
  ultimately show ?thesis using look by blast
qed

text \<open>The splice behind a union that made \<open>s\<close> the representative of the class of \<open>a\<close>.\<close>

lemma splice_classes_ok:
  assumes r: "ec_rels c" and inv: "einv c" and sa: "s \<in> roots (ec31_parents c)" "a \<in> roots (ec31_parents c)" "s \<noteq> a"
    and len: "length (uf31_parents u) = length (ec31_parents c)"
    and rt: "\<And>x. x < length (ec31_parents c) \<Longrightarrow> uf_root (uf31_parents u) x =
      (if uf_root (ec31_parents c) x = a then s else uf_root (ec31_parents c) x)"
  shows "\<exists>ka d c'. ec_key (ec31_entries c) a = Some ka \<and> ec31_data c ka = Some d \<and>
    ec_merge_tail X (Some (s, a)) (c\<lparr>ec_uf := u\<rparr>) = Inr (Some \<lparr>mi_survivor = s, mi_absorbed = a, mi_absorbed_uses = cd_use_list d,
      mi_absorbed_min_row = cd_min_row d, mi_absorbed_atomic = cd_atomic d\<rparr>, c') \<and> einv c' \<and> ec_uf c' = u \<and> ec_uses c' = ec_uses c \<and>
    ec31_data c' = (ec31_data c)(ka := None)"
proof -
  note rd = ec_relsD [OF r] and sz = reprs_size [OF r inv]
  let ?es = "ec31_entries c"
  have core: "ec_core ?es (ec31_data c) (ec31_parents c) (ec31_nlists c)" and ix: "length (snd (snd (ec31_reprs c))) \<le> length (ec31_parents c)"
    using inv by (auto simp: ec_inv_view)
  have lt: "s < length ?es" "a < length ?es" using sa ec_core_length [OF core] by (auto simp: roots_def)
  obtain ka d where ka: "ec_key ?es a = Some ka" "ec31_data c ka = Some d" by (rule ec_core_key [OF core sa(2)])
  obtain ks where ks: "ec_key ?es s = Some ks" using ec_core_key [OF core sa(1)] by blast
  have un: "entry_repr_id_unchecked id31 (?es ! a) = ka" "entry_repr_id_unchecked id31 (?es ! s) = ks" "ks < 2 ^ 31"
    using ka(1) ks id31_t.dom_from by (auto simp: ec_key_def entry_repr_id_def entry_repr_id_unchecked_def opt_get_def opt_get_unchecked_def id_nat_dom_def split: if_splits)
  obtain sn where sn: "en31.rel track (ec_entries c) sn" using r by (auto simp: ec_rels_def)
  have dm: "id_nat_dom TYPE(32) (ee_next (?es ! s))" "id_nat_dom TYPE(32) (ee_next (?es ! a))"
    using en31.get_dom [OF lt(1)] en31.get_dom [OF lt(2)] by auto
  have l32: "length ?es \<le> vc_imax (en31_cfg track)" using rd(8) ec_core_length [OF core] by simp
  let ?e1 = "entry_new id31 (ee_next (?es ! a)) ks" and ?e2 = "entry_set_absent id31 (entry_new id31 (ee_next (?es ! s)) ka)"
  obtain e1 where e1: "vec_set (en31_cfg track) s ?e1 (ec_entries c) = Inr e1"
    "is_vals (entry_tagged id31 id31) (v_store e1) = ?es[s := ?e1]" "en31.rel track e1 sn"
    using en31.set_spec [OF sn l32 lt(1), of ?e1] dm by (auto simp: entry_new_def)
  obtain e2 where e2: "vec_set (en31_cfg track) a ?e2 e1 = Inr e2"
    "is_vals (entry_tagged id31 id31) (v_store e2) = ?es[s := ?e1, a := ?e2]"
    using en31.set_spec [OF e1(3), of a ?e2] dm l32 lt e1(2) by (auto simp: entry_new_def entry_set_absent_def)
  obtain rr where rr: "ss_remove (rs31_cfg track) ka (ec_reprs c) = Inr rr" "ss_lookup (rs31.slists rr) = (ec31_data c)(ka := None)"
    "length (snd (snd (rs31.slists rr))) = length (snd (snd (ec31_reprs c)))"
    using rs31.remove_ok [OF rd(1,2) ka(2) sz] by blast
  let ?c = "c\<lparr>ec_uf := u, ec_entries := e2, ec_reprs := rr\<rparr>" and ?es' = "?es[s := ?e1, a := ?e2]"
  have "ec_key ?es' a = None" using lt by (simp add: ec_key_def entry_repr_id_def entry_set_absent_def id31_t.opt_set_none_keeps)
  moreover have "ec_key ?es' x = ec_key ?es x" if "x \<noteq> a" for x
    using that lt ks un(3) id31_t.opt_get_some [of ks] by (cases "x = s") (auto simp: ec_key_def entry_repr_id_def entry_new_def id_nat_dom_def)
  moreover have "map ee_next ?es' = (map ee_next ?es)[s := ee_next (?es ! a), a := ee_next (?es ! s)]"
    by (simp add: map_update entry_new_def entry_set_absent_def)
  ultimately have "ec_core ?es' ((ec31_data c)(ka := None)) (uf31_parents u) (ec31_nlists c)"
    using ec_core_merge [OF core sa ka(1) len rt, of ?es'] by simp
  then have "einv ?c" using e2(2) rr(2,3) ix len by (simp add: ec_inv_view)
  moreover have "ss_get (rs31_cfg track) ka (ec_reprs c) = Inr d" by (rule rs31.get_ok [OF rd(2) ka(2) sz])
  ultimately show ?thesis using ka lt un e1(1) e2(1) rr
    by (intro exI [of _ ka] exI [of _ d] exI [of _ ?c]) (simp add: ec_merge_tail_def ec_splice_classes_def en31.vec_get_val Let_def)
qed

lemma merge_ok:
  assumes r: "ec_rels c" and inv: "einv c" and ab: "a < length (ec31_parents c)" "b < length (ec31_parents c)" and j: "pred_option okj just"
  shows "\<exists>s u mi c'. uf_union_inner (uf31_cfg T track proofs) a b just pref (ec_uf c) = Inr (s, u) \<and>
    ec_merge_tail X s (c\<lparr>ec_uf := u\<rparr>) = Inr (mi, c') \<and> einv c' \<and> ec_merged a b pref mi c c'"
proof -
  note rd = ec_relsD [OF r]
  let ?p = "ec31_parents c"
  obtain s u where u: "uf_union_inner (uf31_cfg T track proofs) a b just pref (ec_uf c) = Inr (s, u)"
    and post: "case s of None \<Rightarrow> rep c a = rep c b \<and> uf_pproof u = uf_pproof (ec_uf c) \<and> uf_just u = uf_just (ec_uf c) \<and>
        moves ?p (uf31_parents u) (\<lambda>r. r)
      | Some r \<Rightarrow> rep c a \<noteq> rep c b \<and> uf.union_post a b just pref r (ec_uf c) u"
    using uf.union_ok [OF rd(3,4) ab j, of pref] by blast
  show ?thesis
  proof (cases s)
    case None
    then have mv: "rep c a = rep c b" "moves ?p (uf31_parents u) (\<lambda>r. r)" using post by auto
    have len: "length (uf31_parents u) = length ?p" using mv(2) by (simp add: moves_def)
    have rt: "uf_root (uf31_parents u) x = rep c x" if "x < length ?p" for x using moves_forest(2) [OF mv(2) rd(7) that] .
    have "einv (c\<lparr>ec_uf := u\<rparr>)" by (rule find_inv [OF r inv len rt])
    then show ?thesis using u None mv(1) len rt
      by (intro exI [of _ s] exI [of _ u] exI [of _ None] exI [of _ "c\<lparr>ec_uf := u\<rparr>"]) (simp add: ec_merge_tail_def ec_merged_def)
  next
    case (Some q)
    obtain sv ab' where q: "q = (sv, ab')" by (cases q)
    have ne: "rep c a \<noteq> rep c b" and up: "{sv, ab'} = {rep c a, rep c b}" "pref = Some True \<longrightarrow> sv = rep c a" "pref = Some False \<longrightarrow> sv = rep c b"
      "length (uf31_parents u) = length ?p" "\<And>x. x < length ?p \<Longrightarrow> uf_root (uf31_parents u) x = (if rep c x = ab' then sv else rep c x)"
      using post Some q by (auto simp: uf.union_post_def)
    have rts: "rep c a \<in> roots ?p" "rep c b \<in> roots ?p" using uf_root_bound [OF rd(7)] uf_root_idem ab by (auto simp: roots_def)
    have sa: "sv \<in> roots ?p" "ab' \<in> roots ?p" "sv \<noteq> ab'" using up(1) rts ne by (auto simp: doubleton_eq_iff)
    obtain ka d c' where m: "ec_key (ec31_entries c) ab' = Some ka" "ec31_data c ka = Some d"
      "ec_merge_tail X (Some (sv, ab')) (c\<lparr>ec_uf := u\<rparr>) = Inr (Some \<lparr>mi_survivor = sv, mi_absorbed = ab', mi_absorbed_uses = cd_use_list d,
        mi_absorbed_min_row = cd_min_row d, mi_absorbed_atomic = cd_atomic d\<rparr>, c')" "einv c'" "ec_uf c' = u" "ec_uses c' = ec_uses c"
      "ec31_data c' = (ec31_data c)(ka := None)"
      using splice_classes_ok [OF r inv sa up(4,5)] by blast
    have "ec_merged a b pref (Some \<lparr>mi_survivor = sv, mi_absorbed = ab', mi_absorbed_uses = cd_use_list d,
        mi_absorbed_min_row = cd_min_row d, mi_absorbed_atomic = cd_atomic d\<rparr>) c c'"
      unfolding ec_merged_def option.case merge_info.simps m(5,6) using up ne m(1,2,7) by blast
    with u Some q m(3,4) show ?thesis by blast
  qed
qed

lemma merge_tail_inv:
  assumes r: "ec_rels c" and inv: "einv c" and u: "uf_union_inner (uf31_cfg T track proofs) a b just pref (ec_uf c) = Inr (s, u)"
    and m: "ec_merge_tail X s (c\<lparr>ec_uf := u\<rparr>) = Inr (mi, c')" and j: "pred_option okj just"
  shows "einv c'"
  using merge_ok [OF r inv uf.union_inner_bound [OF ec_relsD(3,4) [OF r] u] j, of pref] u m by auto

lemma upd_inv:
  assumes r: "ec_rels c" and inv: "einv c" and u: "ec_upd X okj c c'"
  shows "einv c'"
  using u
proof cases
  case (add_singleton i k)
  have "i = length (ec31_parents c)"
    using add_singleton(2) by (auto simp: ec_add_singleton_def uf_make_set_def uf_len_def uf.par.vec_len_Inr elim!: rbind_eq_InrE)
  then show ?thesis using add_singleton add_singleton_ok [OF r inv] ec_relsD(6) [OF r] by fastforce
next
  case (add_use n k)
  then show ?thesis using add_use_ok [OF r inv add_use(2,1)] ec_relsD(6) [OF r] by blast
next
  case (set_atomic k)
  then show ?thesis using inv set_data_inv(1) [OF r inv] by (auto simp: ec_set_atomic_def elim!: rbind_eq_InrE split: if_splits)
next
  case (set_min_width w)
  then show ?thesis using inv by (auto simp: ec_set_min_width_def ec_inv_view elim!: rbind_eq_InrE split: if_splits)
next
  case (set_min_monomial n k col)
  then obtain row c1 p where e: "ec_ensure_min_row X k c = Inr (row, c1)" "c' = c1\<lparr>ec_pool := p\<rparr>"
    by (auto simp: ec_set_min_monomial_def elim!: rbind_eq_InrE)
  then show ?thesis using ensure_inv [OF r inv e(1)] by (simp add: ec_inv_view)
next
  case (splice_uses l l')
  then obtain a where a: "la_splice (la31_cfg id31 track) l l' (ec_uses c) = Inr a" "c' = c\<lparr>ec_uses := a\<rparr>"
    by (auto simp: ec_splice_uses_def elim!: rbind_eq_InrE)
  obtain ls where ls: "la_repr id31 (la31_contents (ec_uses c)) ls" using ec_relsD(6) [OF r] by blast
  have "length (fst (la31_contents a)) = ec31_nlists c"
    using la31.splice_Inr [OF ec_relsD(5) [OF r] _ a(1), unfolded la31_cfg_sel, OF ls] la_repr_length [OF ls]
    by (auto simp: la_repr_length [symmetric] split: if_splits)
  then show ?thesis using uses_inv [OF inv] a(2) by simp
next
  case (find x q)
  then obtain v where v: "uf_find (uf31_cfg T track proofs) x (ec_uf c) = Inr (q, v)" "c' = c\<lparr>ec_uf := v\<rparr>"
    by (auto simp: ec_find_def elim!: rbind_eq_InrE)
  have x: "x < length (ec31_parents c)" using v(1) uf.find_out [of "ec_uf c" x] by (cases "x < length (ec31_parents c)") auto
  obtain w where w: "v = (ec_uf c)\<lparr>uf_parent := w\<rparr>" "moves (ec31_parents c) (is_vals id31 (v_store w)) (\<lambda>r. r)"
    using uf.find_step [OF ec_relsD(3,4) [OF r] x] v(1) by auto
  show ?thesis using find_inv [OF r inv, of v] w moves_forest(2) [OF w(2) ec_relsD(7) [OF r]] v(2) by (simp add: moves_def)
next
  case (merge a b q)
  then show ?thesis
    by (auto simp: ec_merge_def uf_union_def intro: merge_tail_inv [OF r inv, where just = None] elim!: rbind_eq_InrE)
next
  case (merge_justified j a b q)
  then show ?thesis
    by (auto simp: ec_merge_justified_def uf_union_justified_def intro: merge_tail_inv [OF r inv, where just = "Some j"] elim!: rbind_eq_InrE)
next
  case (merge_directed a b q)
  then show ?thesis
    by (auto simp: ec_merge_directed_def uf_union_directed_def intro: merge_tail_inv [OF r inv, where just = None] elim!: rbind_eq_InrE)
next
  case (merge_justified_directed j a b q)
  then show ?thesis
    by (auto simp: ec_merge_justified_directed_def uf_union_justified_directed_def intro: merge_tail_inv [OF r inv, where just = "Some j"] elim!: rbind_eq_InrE)
qed

end

section \<open>The five parts in lockstep\<close>

definition ec_part where "ec_part c = (ec_entries c, ec_reprs c, ec_uf c, ec_uses c, ec_pool c)"

definition ec_tok where "ec_tok t = (et_entries t, et_reprs t, et_uf t, et_uses t, et_pool t)"

definition ec_fresh :: "('w, 'k, 'l, 'n, 'j, 'q) ec_cfg \<Rightarrow> ('w, 'k, 'l, 'n, 'j, 'q) eclasses \<Rightarrow> bool" where
  "ec_fresh X c \<longleftrightarrow> (\<exists>counter counter'. ec_new X counter = Inr (c, counter'))"

context ec_ops begin

abbreviation "parts_fresh \<equiv> \<lambda>c. vec_fresh (is_flag (entry_tagged id31 id31)) (fst c) \<and>
  ss_fresh (is_vals (class_data_tagged id31)) (is_flag (class_data_tagged id31)) (fst (snd c)) \<and>
  uf_fresh (uc_proofs (uf31_cfg T track proofs)) (fst (snd (snd c))) \<and> la_fresh (fst (snd (snd (snd c)))) \<and> vec_fresh is_bit_set (snd (snd (snd (snd c))))"

abbreviation "parts_upd \<equiv> pair_upd (vec_upd (en31_cfg track) (\<lambda>e. id_nat_dom TYPE(32) (ee_next e)))
  (pair_upd (ss_upd (rs31_cfg track) (\<lambda>d. id_nat_dom TYPE(32) (cd_use_list d)))
  (pair_upd (uf_upd (uf31_cfg T track proofs) (2 ^ 31) okj)
  (pair_upd (la_upd (la31_cfg id31 track) (id_nat_dom TYPE(32))) (vec_upd (pl31_cfg track) (\<lambda>_. True)))))"

abbreviation "parts_mk \<equiv> pair_mk (vec_mark (en31_cfg track)) (pair_mk (ss_mark (rs31_cfg track)) (pair_mk (uf_mark (uf31_cfg T track proofs))
  (pair_mk (la_mark (la31_cfg id31 track)) (vec_mark (pl31_cfg track)))))"

abbreviation "parts_rst \<equiv> pair_rst (vec_restore (en31_cfg track)) (pair_rst (ss_restore (rs31_cfg track)) (pair_rst (uf_restore (uf31_cfg T track proofs))
  (pair_rst (la_restore (la31_cfg id31 track)) (vec_restore (pl31_cfg track)))))"

abbreviation "parts_view \<equiv> \<lambda>c. (is_vals (entry_tagged id31 id31) (v_store (fst c)), rs31.slists (fst (snd c)), uf.uview (fst (snd (snd c))),
  la31.alists (fst (snd (snd (snd c)))), ps_data (v_store (snd (snd (snd (snd c))))))"

lemma parts_checkpointed:
  obtains rel good where "checkpointed parts_fresh parts_upd parts_mk parts_rst parts_view
      (\<lambda>t. branch_id (fst t)) (\<lambda>t. depth (fst t)) (\<lambda>c. v_forks (fst c)) rel good"
    and "\<And>c s. rel (ec_part c) s \<Longrightarrow> ec_rels c"
proof -
  note C = pair_checkpointed [OF en31.is_checkpointed pair_checkpointed [OF rs31.set_checkpointed
    pair_checkpointed [OF uf.uf_checkpointed pair_checkpointed [OF la31.arena_checkpointed pl31.is_checkpointed]]]]
  show thesis
  proof (rule that [OF C])
    show "ec_rels c" if "pair_rel (en31.rel track) (pair_rel (rs31.cmp.crel track) (pair_rel uf.cmp.crel (pair_rel (la31.cmp.crel track) (pl31.rel track)
        (\<lambda>c. v_forks (la_heads c)) v_forks) (\<lambda>c. v_forks (uf_parent c)) (\<lambda>c. v_forks (la_heads (fst c)))) (\<lambda>c. v_forks (ss_dense c))
        (\<lambda>c. v_forks (uf_parent (fst c)))) v_forks (\<lambda>c. v_forks (ss_dense (fst c))) (ec_part c) s" for c s
      using that rs31.crel_srels uf.crel_uok la31.crel_arels unfolding pair_rel_def ec_part_def ec_rels_def la31_cfg_sel fst_conv snd_conv by blast
  qed
qed

lemma mark_views:
  assumes "ec_mark X sh c = Inr (t, c')"
  shows "ec31_view T c' = ec31_view T c"
proof -
  obtain sh1 sh2 sh3 sh4 sh5 where sh: "sh = (sh1, sh2, sh3, sh4, sh5)" by (cases sh)
  then have m: "vec_mark (en31_cfg track) sh1 (ec_entries c) = Inr (et_entries t, ec_entries c')"
      "ss_mark (rs31_cfg track) sh2 (ec_reprs c) = Inr (et_reprs t, ec_reprs c')"
      "uf_mark (uf31_cfg T track proofs) sh3 (ec_uf c) = Inr (et_uf t, ec_uf c')"
      "la_mark (la31_cfg id31 track) sh4 (ec_uses c) = Inr (et_uses t, ec_uses c')"
      "vec_mark (pl31_cfg track) sh5 (ec_pool c) = Inr (et_pool t, ec_pool c')"
    using assms by (auto simp: ec_mark_def elim!: rbind_eq_InrE)
  have "rs31.slists (ec_reprs c') = rs31.slists (ec_reprs c)"
    using rs31.cmp.mk_part [OF m(2)] by (auto simp: ss_part_def ss_contents_def)
  moreover have "uf31_view T (ec_uf c') = uf31_view T (ec_uf c)"
    using uf.cmp.mk_part [OF m(3)] by (auto simp: uf_part_def)
  moreover have "la31_contents (ec_uses c') = la31_contents (ec_uses c)"
    using la31.cmp.mk_part [OF m(4)] by (auto simp: la_part_def la_contents_def)
  ultimately show ?thesis using en31.mark_cont [OF m(1)] pl31.mark_cont [OF m(5)] by (simp add: ec31_view_def)
qed

lemma fresh_parts:
  assumes "ec_fresh X c"
  shows "vec_fresh (is_flag (entry_tagged id31 id31)) (ec_entries c)"
    and "ss_fresh (is_vals (class_data_tagged id31)) (is_flag (class_data_tagged id31)) (ec_reprs c)"
    and "uf_fresh proofs (ec_uf c)" and "la_fresh (ec_uses c)" and "vec_fresh is_bit_set (ec_pool c)" and "einv c"
proof -
  obtain c0 c1 where n: "ec_new X c0 = Inr (c, c1)" using assms by (auto simp: ec_fresh_def)
  obtain e c2 r c3 u c4 a c5 p where v: "veci_new c0 = (e, c2)" "ss_with_store is_new c2 = (r, c3)" "uf_new proofs c3 = (u, c4)"
    "la_new c4 = (a, c5)" "vecp_new c5 = (p, c1)" "c = \<lparr>ec_entries = e, ec_reprs = r, ec_uf = u, ec_uses = a, ec_pool = p, ec_width = 0\<rparr>"
    using n by (auto simp: ec_new_def Let_def split: prod.splits)
  show "vec_fresh (is_flag (entry_tagged id31 id31)) (ec_entries c)" using veci_new_fresh [of "entry_tagged id31 id31" c0] v by (metis eclasses.select_convs(1) fst_conv)
  show "ss_fresh (is_vals (class_data_tagged id31)) (is_flag (class_data_tagged id31)) (ec_reprs c)"
    unfolding ss_fresh_def using v(2,6) by (intro exI [of _ is_new] exI [of _ c2]) (simp add: is_vals_def is_flag_def is_new_def)
  show "uf_fresh proofs (ec_uf c)" unfolding uf_fresh_def using v(3,6) by (intro exI [of _ c3]) simp
  show "la_fresh (ec_uses c)" unfolding la_fresh_def using v(4,6) by (intro exI [of _ c4]) simp
  show "vec_fresh is_bit_set (ec_pool c)" using vecp_new_fresh [of c5] v by (metis eclasses.select_convs(5) fst_conv)
  have "ec31_entries c = []" "ec31_reprs c = ([], [], [])" "ec31_parents c = []" "ec31_nlists c = 0"
    using v by (auto simp: veci_new_def ss_with_store_def uf_new_def la_new_def vec_with_store_def container_id_new_def Let_def
        is_vals_def is_new_def ss_contents_def la_contents_def split: if_splits)
  then show "einv c" by (simp add: ec_inv_view ec_core_def ring_inv_def roots_def ss_lookup_def bij_betw_def)
qed

lemma ec_checkpointed:
  obtains rel good where "checkpointed (ec_fresh X) (ec_upd X okj) (ec_mark X) (ec_restore X) (ec31_view T)
      (\<lambda>t. branch_id (et_entries t)) (\<lambda>t. depth (et_entries t)) (\<lambda>c. v_forks (ec_entries c)) rel good"
    and "\<And>c s. rel c s \<Longrightarrow> ec_rels c \<and> einv c"
proof -
  obtain rel0 good0 where C: "checkpointed parts_fresh parts_upd parts_mk parts_rst parts_view
      (\<lambda>t. branch_id (fst t)) (\<lambda>t. depth (fst t)) (\<lambda>c. v_forks (fst c)) rel0 good0"
    and R: "\<And>c s. rel0 (ec_part c) s \<Longrightarrow> ec_rels c" using parts_checkpointed by blast
  have V: "parts_view (ec_part c) = ec31_view T c" for c by (simp add: ec_part_def ec31_view_def uf.uview_def)
  have U: "parts_upd\<^sup>*\<^sup>* (ec_part c) (ec_part c')" if "ec_upd X okj c c'" for c c'
    using upd_steps [OF that] unfolding csteps_def ec_part_def by (intro pair_updI) auto
  have comp: "composite parts_fresh parts_upd parts_mk parts_rst parts_view
    (\<lambda>t. branch_id (fst t)) (\<lambda>t. depth (fst t)) (\<lambda>c. v_forks (fst c)) rel0 good0 (ec_fresh X) (ec_upd X okj) (ec_mark X) (ec_restore X) ec_part ec_tok ec_inv"
  proof (intro composite.intro composite_axioms.intro C)
    fix c c' :: "('j, 'q) ec31" and s t u sh x
    show "ec_fresh X c \<Longrightarrow> parts_fresh (ec_part c) \<and> ec_inv (parts_view (ec_part c))" unfolding V using fresh_parts [of c] by (simp add: ec_part_def)
    show "rel0 (ec_part c) s \<Longrightarrow> ec_inv (parts_view (ec_part c)) \<Longrightarrow> ec_upd X okj c c' \<Longrightarrow> parts_upd\<^sup>*\<^sup>* (ec_part c) (ec_part c') \<and> ec_inv (parts_view (ec_part c'))"
      unfolding V using U upd_inv R by blast
    show "ec_upd X okj c c' \<Longrightarrow> good0 (ec_part c) u \<Longrightarrow> good0 (ec_part c') u" using checkpointed.upds_good [OF C U] .
    show "ec_mark X sh c = Inr (t, c') \<Longrightarrow> \<exists>n. parts_mk n (ec_part c) = Inr (ec_tok t, ec_part c') \<and> parts_view (ec_part c') = parts_view (ec_part c)"
      unfolding V by (intro exI [of _ sh]) (simp add: mark_views, auto simp: ec_mark_def pair_mk_eq_Inr ec_part_def ec_tok_def elim!: rbind_eq_InrE split: prod.splits)
    show "ec_restore X t c = Inr c' \<Longrightarrow> parts_rst (ec_tok t) (ec_part c) = Inr (ec_part c')"
      by (auto simp: ec_restore_def pair_rst_eq_Inr ec_part_def ec_tok_def elim!: rbind_eq_InrE)
    show "parts_rst (ec_tok t) (ec_part c) = Inr x \<Longrightarrow> \<exists>c'. ec_restore X t c = Inr c'"
      by (auto simp: ec_restore_def pair_rst_eq_Inr ec_part_def ec_tok_def)
  qed
  note cc = composite.composite_checkpointed [OF comp, of "\<lambda>v. v", unfolded V]
  have p: "fst (ec_part c) = ec_entries c" "fst (ec_tok t) = et_entries t" for c :: "('j, 'q) ec31" and t
    by (simp_all add: ec_part_def ec_tok_def)
  show thesis
  proof (rule that [OF cc [unfolded p]])
    show "ec_rels c \<and> einv c" if "composite.crel parts_view rel0 ec_part ec_inv (\<lambda>v. v) c s" for c s
      using that R composite.crel_def [OF comp] unfolding V by blast
  qed
qed

subsection \<open>Reading\<close>

lemma collect_links:
  assumes "links (map ee_next (ec31_entries c)) (y # ys @ [x])" and "set (y # ys) \<subseteq> {..< length (ec31_entries c)}" and "x \<notin> set ys"
    and "Suc (length ys) < fuel"
  shows "class_iter_collect fuel (en31_cfg track) (ec_entries c) \<lparr>ci_start = x, ci_current = y, ci_done = False\<rparr> = Inr (y # ys)"
  using assms
proof (induction ys arbitrary: y fuel)
  case Nil
  then obtain f where "fuel = Suc (Suc f)" by (metis One_nat_def Suc_lessE less_iff_Suc_add list.size(3))
  then show ?case using Nil by (simp add: class_iter_next_def en31.vec_get_val)
next
  case (Cons z zs)
  then obtain f where f: "fuel = Suc f" "Suc (length zs) < f" by (cases fuel) auto
  have y: "y < length (ec31_entries c)" "ee_next (ec31_entries c ! y) = z" and z: "z \<noteq> x" using Cons.prems by auto
  have "class_iter_collect f (en31_cfg track) (ec_entries c) \<lparr>ci_start = x, ci_current = z, ci_done = False\<rparr> = Inr (z # zs)"
    using Cons.prems f by (intro Cons.IH) auto
  then show ?case using f y z by (simp add: class_iter_next_def en31.vec_get_val)
qed

lemma class_members_val:
  assumes r: "ec_rels c" and inv: "einv c" and x: "x < length (ec31_parents c)"
  shows "\<exists>xs. ec_class_members X x c = Inr xs \<and> distinct xs \<and> set xs = class_of (ec31_parents c) x"
proof -
  have core: "ec_core (ec31_entries c) (ec31_data c) (ec31_parents c) (ec31_nlists c)" using inv by (simp add: ec_inv_view)
  note len = ec_core_length [OF core]
  obtain xs where xs: "cycle (map ee_next (ec31_entries c)) (x # xs)" "set (x # xs) = class_of (ec31_parents c) x"
    using core x by (auto simp: ec_core_def ring_inv_def)
  have "length (x # xs) \<le> length (ec31_entries c)" using cycle_length [OF xs(1)] by simp
  then have "length (x # xs) < vec_fuel (en31_cfg track) (ec_entries c)"
    using ec_relsD(8) [OF r] len by (intro en31.vec_fuel_gt) auto
  then have "ec_class_members X x c = Inr (x # xs)"
    unfolding ec_class_members_def ec_iter_class_def ec31_sel
    using xs(1) by (intro collect_links) (auto simp: cycle_def)
  moreover have "distinct (x # xs)" using xs(1) by (simp add: cycle_def)
  ultimately show ?thesis using xs(2) by (intro exI [of _ "x # xs"]) simp
qed

lemma uf_len_val: "ec_rels c \<Longrightarrow> uf_len (uf31_cfg T track proofs) (ec_uf c) = Inr (length (ec31_parents c))"
  using ec_relsD(8) [of c] uf.cap_le(1) by (simp add: uf_len_def uf.par.vec_len_Inr)

lemma data_val: "ec_rels c \<Longrightarrow> einv c \<Longrightarrow> ec31_data c k = Some d \<Longrightarrow> ss_get (rs31_cfg track) k (ec_reprs c) = Inr d"
  using rs31.get_ok [OF ec_relsD(2) _ reprs_size] by blast

lemma repr_id_val: "x < length (ec31_entries c) \<Longrightarrow> ec_repr_id X x c = Inr (ec_key (ec31_entries c) x)"
  by (simp add: ec_repr_id_def en31.vec_get_val ec_key_def)

lemma find_const_val: "ec_rels c \<Longrightarrow> x < length (ec31_parents c) \<Longrightarrow> ec_find_const X x c = Inr (rep c x)"
  using forest_rpath [OF ec_relsD(7)] uf.find_const_val [of "ec_uf c" x] ec_relsD(8) [of c] unfolding ec_find_const_def by (metis ec31_sel(3))

lemma repr_id_live:
  assumes "ec_rels c" and inv: "einv c" and k: "ec_repr_id X x c = Inr (Some k)"
  shows "\<exists>d. ec31_data c k = Some d"
proof -
  have core: "ec_core (ec31_entries c) (ec31_data c) (ec31_parents c) (ec31_nlists c)" using inv by (simp add: ec_inv_view)
  have x: "x < length (ec31_entries c)" and key: "ec_key (ec31_entries c) x = Some k"
    using k by (auto simp: ec_repr_id_def en31.get_Inr ec_key_def elim!: rbind_eq_InrE)
  then have "x \<in> roots (ec31_parents c)" using core ec_core_length [OF core] by (auto simp: ec_core_def)
  from ec_core_key [OF core this] key show ?thesis by (metis option.sel)
qed

lemma num_classes_val:
  assumes r: "ec_rels c" and inv: "einv c"
  shows "ec_num_classes X c = Inr (card (roots (ec31_parents c)))"
proof -
  have core: "ec_core (ec31_entries c) (ec31_data c) (ec31_parents c) (ec31_nlists c)" using inv by (simp add: ec_inv_view)
  have l: "length (is_vals (class_data_tagged id31) (v_store (ss_dense (ec_reprs c)))) = card (roots (ec31_parents c))"
    using ss_card [OF ec_relsD(2) [OF r]] ec_core_card [OF core] by (simp add: ss_contents_def)
  moreover have "card (roots (ec31_parents c)) \<le> 2 ^ 31" using card_roots [of "ec31_parents c"] ec_relsD(8) [OF r] by linarith
  ultimately show ?thesis by (simp add: ec_num_classes_def ss_len_def rs31.dense.vec_len_val len_res_def idx_try_def)
qed

lemma use_list_len_val:
  assumes r: "ec_rels c" and inv: "einv c" and k: "ec31_data c k = Some d" and ls: "la_repr id31 (la31_contents (ec_uses c)) ls"
  shows "cd_use_list d < length ls" and "ec_use_list_len X k c = Inr (length (ls ! cd_use_list d))"
proof -
  have "d \<in> ran (ec31_data c)" using k by (auto simp: ran_def)
  then show l: "cd_use_list d < length ls" using inv la_repr_length [OF ls] by (auto simp: ec_inv_view ec_core_def)
  have "la_len (la31_cfg id31 track) (cd_use_list d) (ec_uses c) = Inr (length (ls ! cd_use_list d))"
    using la31.len_val [where a = "ec_uses c" and ls = ls] ls l by (simp add: la31_cfg_sel)
  then show "ec_use_list_len X k c = Inr (length (ls ! cd_use_list d))"
    using rs31.get_ok [OF ec_relsD(2) [OF r] k reprs_size [OF r inv]] by (simp add: ec_use_list_len_def)
qed

lemma root_uses_val:
  assumes r: "ec_rels c" and inv: "einv c" and x: "x \<in> roots (ec31_parents c)"
  obtains k n where "ec_repr_id X x c = Inr (Some k)" and "ec_use_list_len X k c = Inr n" and "ec_root_uses X x c = Inr n"
proof -
  have core: "ec_core (ec31_entries c) (ec31_data c) (ec31_parents c) (ec31_nlists c)" using inv by (simp add: ec_inv_view)
  obtain k d where k: "ec_key (ec31_entries c) x = Some k" "ec31_data c k = Some d" by (rule ec_core_key [OF core x])
  obtain ls where ls: "la_repr id31 (la31_contents (ec_uses c)) ls" using ec_relsD(6) [OF r] by blast
  have "ec_repr_id X x c = Inr (Some k)" using repr_id_val [of x c] k(1) x ec_core_length [OF core] by (simp add: roots_def)
  then show thesis using that use_list_len_val(2) [OF r inv k(2) ls] by (simp add: ec_root_uses_def)
qed

lemma rep_roots: "ec_rels c \<Longrightarrow> x < length (ec31_parents c) \<Longrightarrow> rep c x \<in> roots (ec31_parents c)"
  using uf_root_bound [OF ec_relsD(7)] uf_root_idem by (auto simp: roots_def)

text \<open>The larger use-list is preferred; on a tie the class of the first argument.\<close>

lemma prefer_val:
  assumes r: "ec_rels c" and inv: "einv c" and ab: "a < length (ec31_parents c)" "b < length (ec31_parents c)"
  obtains ka kb na nb where "ec_repr_id X (rep c a) c = Inr (Some ka)" "ec_use_list_len X ka c = Inr na"
    "ec_repr_id X (rep c b) c = Inr (Some kb)" "ec_use_list_len X kb c = Inr nb" "ec_prefer_a_by_uses X a b c = Inr (nb \<le> na)"
proof -
  obtain ka na where a: "ec_repr_id X (rep c a) c = Inr (Some ka)" "ec_use_list_len X ka c = Inr na" "ec_root_uses X (rep c a) c = Inr na"
    using root_uses_val [OF r inv rep_roots [OF r ab(1)]] by blast
  obtain kb nb where b: "ec_repr_id X (rep c b) c = Inr (Some kb)" "ec_use_list_len X kb c = Inr nb" "ec_root_uses X (rep c b) c = Inr nb"
    using root_uses_val [OF r inv rep_roots [OF r ab(2)]] by blast
  have "ec_prefer_a_by_uses X a b c = Inr (nb \<le> na)"
    using find_const_val [OF r ab(1)] find_const_val [OF r ab(2)] a(3) b(3) by (simp add: ec_prefer_a_by_uses_def ec_find_const_def)
  with a b that show thesis by blast
qed

lemma iter_uses_val:
  assumes r: "ec_rels c" and inv: "einv c" and k: "ec31_data c k = Some d" and ls: "la_repr id31 (la31_contents (ec_uses c)) ls"
    and sz: "length (snd (la31_contents (ec_uses c))) < 2 ^ 32"
  shows "ec_iter_uses X k c = Inr (ls ! cd_use_list d)"
proof -
  have "la_iter (la31_cfg id31 track) (cd_use_list d) (ec_uses c) = Inr (ls ! cd_use_list d)"
    using la31.iter_val(1) [where a = "ec_uses c" and ls = ls] ls use_list_len_val(1) [OF r inv k ls] sz by (simp add: la31_cfg_sel la_contents_def)
  then show ?thesis using data_val [OF r inv k] by (simp add: ec_iter_uses_def)
qed

lemma add_use_total:
  assumes r: "ec_rels c" and inv: "einv c" and k: "ec31_data c k = Some d" and n: "n < 2 ^ 31"
    and sz: "length (snd (la31_contents (ec_uses c))) < 2 ^ 31"
  shows "\<exists>c'. ec_add_use X k n c = Inr c'"
proof -
  note rd = ec_relsD [OF r]
  obtain ls where ls: "la_repr id31 (la31_contents (ec_uses c)) ls" using rd(6) by blast
  have l: "cd_use_list d < ec31_nlists c" "ec31_nlists c \<le> 2 ^ 31"
    using use_list_len_val(1) [OF r inv k ls] la_repr_length [OF ls] inv rd(8) by (auto simp: ec_inv_view ec_core_def)
  obtain a where a: "la_append (la31_cfg id31 track) (cd_use_list d) n (ec_uses c) = Inr a"
    using la31.append_ok [OF rd(5), of ls n "cd_use_list d"] ls l sz n by (auto simp: la31_cfg_sel la_contents_def id_nat_dom_def le_imax31)
  have "id_nat_dom TYPE(32) (cd_use_list (d\<lparr>cd_atomic := True\<rparr>))" using data_dom [OF data_val [OF r inv k]] by simp
  then obtain rr where "ss_set (rs31_cfg track) k (d\<lparr>cd_atomic := True\<rparr>) (ec_reprs c) = Inr rr"
    using rs31.set_ok [OF rd(1,2) k _ reprs_size [OF r inv]] by blast
  then show ?thesis using data_val [OF r inv k] a by (simp add: ec_add_use_def)
qed

lemma add_use_size:
  assumes r: "ec_rels c" and inv: "einv c" and a: "ec_add_use X k n c = Inr c'" and n: "n < 2 ^ 31"
  shows "length (snd (la31_contents (ec_uses c'))) \<le> Suc (length (snd (la31_contents (ec_uses c))))"
proof -
  obtain l where al: "la_append (la31_cfg id31 track) l n (ec_uses c) = Inr (ec_uses c')"
    using a by (auto simp: ec_add_use_def elim!: rbind_eq_InrE split: if_splits)
  obtain ls where ls: "la_repr id31 (la31_contents (ec_uses c)) ls" using ec_relsD(6) [OF r] by blast
  show ?thesis using la31.append_Inr [OF ec_relsD(5) [OF r] _ _ al, unfolded la31_cfg_sel, OF ls] n by (simp add: la_contents_def id_nat_dom_def)
qed

end

end
