(* ===== verification/EClasses_Props.thy ===== *)
theory EClasses_Props
  imports EClasses_Inv
begin

text \<open>
  The properties of the equivalence classes over 31-bit nodes, for every state that a client can reach
  by the public operations, marks and restores.
\<close>

interpretation ec31_unit: ec_ops nojust_tagged "\<lambda>_. True" track proofs for track proofs
  by (intro ec_ops.intro nojust_t.tagged_repr_axioms)

abbreviation ec31_session where
  "ec31_session T okj track proofs \<equiv> session (ec_fresh (ec31_cfg T track proofs)) (ec_upd (ec31_cfg T track proofs) okj)
    (ec_mark (ec31_cfg T track proofs)) (ec_restore (ec31_cfg T track proofs)) (ec31_view T) (\<lambda>t. depth (et_entries t))"

abbreviation ec31_contract where
  "ec31_contract T okj track proofs \<equiv> checkpointed (ec_fresh (ec31_cfg T track proofs)) (ec_upd (ec31_cfg T track proofs) okj)
    (ec_mark (ec31_cfg T track proofs)) (ec_restore (ec31_cfg T track proofs)) (ec31_view T)
    (\<lambda>t. branch_id (et_entries t)) (\<lambda>t. depth (et_entries t)) (\<lambda>c. v_forks (ec_entries c))"

lemma ec31_checkpointed:
  assumes T: "tagged_repr T okj"
  shows "\<exists>rel good. ec31_contract T okj track proofs rel good \<and> (\<forall>c s. rel c s \<longrightarrow> ec_ops.ec_rels T okj track proofs c \<and> ec_inv (ec31_view T c))"
  using ec_ops.ec_checkpointed [OF ec_ops.intro [OF T]] by metis

lemma ec31_session_inv:
  assumes T: "tagged_repr T okj" and s: "ec31_session T okj track proofs c issued st co"
  shows "ec_ops.ec_rels T okj track proofs c" and "ec_inv (ec31_view T c)"
proof -
  obtain rel good where C: "ec31_contract T okj track proofs rel good"
    and R: "\<forall>c s. rel c s \<longrightarrow> ec_ops.ec_rels T okj track proofs c \<and> ec_inv (ec31_view T c)" using ec31_checkpointed [OF T] by blast
  show "ec_ops.ec_rels T okj track proofs c" and "ec_inv (ec31_view T c)"
    using R checkpointed.session_inv [OF C s, THEN conjunct1] by auto
qed

lemma ec31_core:
  assumes "ec_inv (ec31_view T c)"
  shows "ec_core (ec31_entries c) (ec31_data c) (ec31_parents c) (ec31_nlists c)" and "length (ec31_entries c) = length (ec31_parents c)"
  using assms ec_core_length by (auto simp: ec_inv_view)

text \<open>
  C11: on every reachable state the iteration of a class ends and yields exactly the nodes with the same
  representative, each once; \<open>find_const\<close> returns that representative; exactly the representatives carry
  a class key, no key twice; and \<open>num_classes\<close> counts them.
\<close>

theorem ec_classes_consistent:
  assumes T: "tagged_repr T okj" and s: "ec31_session T okj track proofs c issued st co"
  shows "(\<forall>x < length (ec31_parents c). ec_find_const (ec31_cfg T track proofs) x c = Inr (rep c x) \<and>
      (\<exists>xs. ec_class_members (ec31_cfg T track proofs) x c = Inr xs \<and> distinct xs \<and>
        set xs = {y. y < length (ec31_parents c) \<and> rep c y = rep c x}) \<and>
      (\<exists>k. ec_repr_id (ec31_cfg T track proofs) x c = Inr k \<and> (k \<noteq> None \<longleftrightarrow> rep c x = x))) \<and>
    (\<forall>x y k. ec_repr_id (ec31_cfg T track proofs) x c = Inr (Some k) \<longrightarrow> ec_repr_id (ec31_cfg T track proofs) y c = Inr (Some k) \<longrightarrow> x = y) \<and>
    ec_num_classes (ec31_cfg T track proofs) c = Inr (card {x. x < length (ec31_parents c) \<and> rep c x = x})"
proof -
  note I = ec_ops.intro [OF T] and inv = ec31_session_inv [OF T s]
  note core = ec31_core [OF inv(2)]
  have key: "ec_repr_id (ec31_cfg T track proofs) x c = Inr (ec_key (ec31_entries c) x)" if "x < length (ec31_parents c)" for x
    using ec_ops.repr_id_val [OF I] that core(2) by metis
  have iff: "ec_key (ec31_entries c) x \<noteq> None \<longleftrightarrow> x \<in> roots (ec31_parents c)" if "x < length (ec31_parents c)" for x
    using core(1) that by (simp add: ec_core_def)
  have bound: "x < length (ec31_parents c)" if "ec_repr_id (ec31_cfg T track proofs) x c = Inr k" for x k
    using that core(2) by (auto simp: ec_repr_id_def en31.get_Inr elim!: rbind_eq_InrE)
  have "x = y" if "ec_repr_id (ec31_cfg T track proofs) x c = Inr (Some k)" "ec_repr_id (ec31_cfg T track proofs) y c = Inr (Some k)" for x y k
  proof -
    have "inj_on (\<lambda>x. the (ec_key (ec31_entries c) x)) (roots (ec31_parents c))" using core(1) by (auto simp: ec_core_def bij_betw_def)
    moreover have "ec_key (ec31_entries c) x = Some k" "ec_key (ec31_entries c) y = Some k" using that key bound by fastforce+
    ultimately show ?thesis using iff [OF bound [OF that(1)]] iff [OF bound [OF that(2)]] by (metis inj_onD option.distinct(1) option.sel)
  qed
  moreover have "ec_num_classes (ec31_cfg T track proofs) c = Inr (card {x. x < length (ec31_parents c) \<and> rep c x = x})"
    using ec_ops.num_classes_val [OF I inv] by (simp add: roots_def)
  moreover have "\<exists>xs. ec_class_members (ec31_cfg T track proofs) x c = Inr xs \<and> distinct xs \<and>
        set xs = {y. y < length (ec31_parents c) \<and> rep c y = rep c x}" if "x < length (ec31_parents c)" for x
    using ec_ops.class_members_val [OF I inv that] by (simp add: class_of_def)
  ultimately show ?thesis using ec_ops.find_const_val [OF I inv(1)] key iff by (auto simp: roots_def)
qed

text \<open>
  Below the capacity of the identifiers \<open>add_singleton\<close> of the next node succeeds: the node is a class
  of its own with a key that was not in use, an empty use-list and a cleared atomic flag, and every other
  class is unchanged.  Any other node panics.
\<close>

theorem ec_add_singleton_correct:
  assumes T: "tagged_repr T okj" and s: "ec31_session T okj track proofs c issued st co"
  defines "n \<equiv> length (ec31_parents c)"
  shows "if i \<noteq> n then ec_add_singleton (ec31_cfg T track proofs) i c = Inl NotSequential
    else n < 2 ^ 31 \<longrightarrow> (\<exists>k c'. ec_add_singleton (ec31_cfg T track proofs) i c = Inr (k, c') \<and> ec31_data c k = None \<and>
      ec31_session T okj track proofs c' issued st co \<and> length (ec31_parents c') = Suc n \<and> rep c' n = n \<and> (\<forall>x < n. rep c' x = rep c x) \<and>
      ec_repr_id (ec31_cfg T track proofs) n c' = Inr (Some k) \<and> ec_use_list_len (ec31_cfg T track proofs) k c' = Inr 0 \<and>
      ec_atomic (ec31_cfg T track proofs) k c' = Inr False \<and> (\<forall>j. j \<noteq> k \<longrightarrow> ec31_data c' j = ec31_data c j))"
proof -
  note I = ec_ops.intro [OF T] and inv = ec31_session_inv [OF T s]
  note d = ec_ops.ec_relsD [OF I inv(1)]
  show ?thesis
  proof (cases "i = n")
    case False
    have "uf_len (uf31_cfg T track proofs) (ec_uf c) = Inr n" unfolding n_def by (rule ec_ops.uf_len_val [OF I inv(1)])
    then show ?thesis using False by (simp add: ec_add_singleton_def uf_make_set_def)
  next
    case True
    have "\<exists>k c'. ec_add_singleton (ec31_cfg T track proofs) i c = Inr (k, c') \<and> ec31_data c k = None \<and>
      ec31_session T okj track proofs c' issued st co \<and> length (ec31_parents c') = Suc n \<and> rep c' n = n \<and> (\<forall>x < n. rep c' x = rep c x) \<and>
      ec_repr_id (ec31_cfg T track proofs) n c' = Inr (Some k) \<and> ec_use_list_len (ec31_cfg T track proofs) k c' = Inr 0 \<and>
      ec_atomic (ec31_cfg T track proofs) k c' = Inr False \<and> (\<forall>j. j \<noteq> k \<longrightarrow> ec31_data c' j = ec31_data c j)" if n: "n < 2 ^ 31"
    proof -
      obtain ls where ls: "la_repr id31 (la31_contents (ec_uses c)) ls" using d(6) by blast
      obtain k c' where a: "ec_add_singleton (ec31_cfg T track proofs) n c = Inr (k, c')" "ec31_data c k = None"
        "ec31_data c' = (ec31_data c)(k \<mapsto> \<lparr>cd_use_list = length ls, cd_min_row = None, cd_atomic = False\<rparr>)"
        "ec31_parents c' = ec31_parents c @ [n]" "la_repr id31 (la31_contents (ec_uses c')) (ls @ [[]])"
        "ec31_entries c' = ec31_entries c @ [entry_new id31 n k]"
        using ec_ops.add_singleton_ok [OF I inv n [unfolded n_def] ls] unfolding n_def by blast
      have s': "ec31_session T okj track proofs c' issued st co" using session.update [OF s ec_upd.add_singleton [OF n a(1)]] .
      note inv' = ec31_session_inv [OF T s']
      have dk: "ec31_data c' k = Some \<lparr>cd_use_list = length ls, cd_min_row = None, cd_atomic = False\<rparr>" using a(3) by simp
      have "ec_use_list_len (ec31_cfg T track proofs) k c' = Inr 0"
        using ec_ops.use_list_len_val(2) [OF I inv' dk a(5)] by simp
      moreover have "ec_atomic (ec31_cfg T track proofs) k c' = Inr False"
        using ec_ops.data_val [OF I inv' dk] by (simp add: ec_atomic_def)
      moreover have "ec_repr_id (ec31_cfg T track proofs) n c' = Inr (Some k)"
      proof -
        have "k < 2 ^ 31" using a(1) by (auto simp: ec_add_singleton_def idx_try_def le_imax31 elim!: rbind_eq_InrE split: if_splits)
        then have "ec_key (ec31_entries c') n = Some k" using ec_key_new [of k "ec31_entries c" n] a(6) ec31_core(2) [OF inv(2)] by (simp add: n_def)
        then show ?thesis using ec_ops.repr_id_val [OF I, of n c'] a(6) ec31_core(2) [OF inv(2)] by (simp add: n_def)
      qed
      ultimately show ?thesis using True a s' forest_snoc(2,3) [OF d(7)] unfolding n_def by (intro exI [of _ k] exI [of _ c']) auto
    qed
    then show ?thesis using True by simp
  qed
qed

text \<open>
  Below the capacity of the arena \<open>add_use\<close> on the key of a representative succeeds, appends the
  parent to the use-list of that class and makes it atomic; no other class sees a change in its use-list.
\<close>

theorem ec_add_use_correct:
  assumes T: "tagged_repr T okj" and s: "ec31_session T okj track proofs c issued st co"
    and k: "ec_repr_id (ec31_cfg T track proofs) x c = Inr (Some k)" and n: "n < 2 ^ 31"
    and sz: "length (snd (la31_contents (ec_uses c))) < 2 ^ 31"
  shows "\<exists>c' us. ec_add_use (ec31_cfg T track proofs) k n c = Inr c' \<and> ec31_session T okj track proofs c' issued st co \<and>
    ec_iter_uses (ec31_cfg T track proofs) k c = Inr us \<and> ec_iter_uses (ec31_cfg T track proofs) k c' = Inr (us @ [n]) \<and>
    ec_atomic (ec31_cfg T track proofs) k c' = Inr True \<and>
    (\<forall>y j. ec_repr_id (ec31_cfg T track proofs) y c = Inr (Some j) \<longrightarrow> j \<noteq> k \<longrightarrow>
      ec_iter_uses (ec31_cfg T track proofs) j c' = ec_iter_uses (ec31_cfg T track proofs) j c)"
proof -
  let ?X = "ec31_cfg T track proofs"
  note I = ec_ops.intro [OF T] and inv = ec31_session_inv [OF T s]
  note d = ec_ops.ec_relsD [OF I inv(1)] and core = ec31_core [OF inv(2)]
  have live: "\<exists>e. ec31_data c j = Some e" if "ec_repr_id ?X y c = Inr (Some j)" for y j
    using ec_ops.repr_id_live [OF I inv that] .
  then obtain e where e: "ec31_data c k = Some e" using k by blast
  obtain c' where a: "ec_add_use ?X k n c = Inr c'" using ec_ops.add_use_total [OF I inv e n sz] by blast
  have s': "ec31_session T okj track proofs c' issued st co" using session.update [OF s ec_upd.add_use [OF n a]] .
  note inv' = ec31_session_inv [OF T s']
  obtain ls where ls: "la_repr id31 (la31_contents (ec_uses c)) ls" using d(6) by blast
  let ?l = "cd_use_list e" and ?ls = "ls[cd_use_list e := ls ! cd_use_list e @ [n]]"
  have u: "?l < length ls" "ec31_data c' = (ec31_data c)(k \<mapsto> e\<lparr>cd_atomic := True\<rparr>)" "la_repr id31 (la31_contents (ec_uses c')) ?ls"
    using ec_ops.add_use_ok [OF I inv a n ls] e by auto
  have sz': "length (snd (la31_contents (ec_uses c'))) < 2 ^ 32" using ec_ops.add_use_size [OF I inv a n] sz by simp
  have k': "ec31_data c' k = Some (e\<lparr>cd_atomic := True\<rparr>)" using u(2) by simp
  have "ec_iter_uses ?X k c' = Inr (ls ! ?l @ [n])" using ec_ops.iter_uses_val [OF I inv' k' u(3) sz'] u(1) by simp
  moreover have "ec_iter_uses ?X k c = Inr (ls ! ?l)" using ec_ops.iter_uses_val [OF I inv e ls] sz by simp
  moreover have "ec_atomic ?X k c' = Inr True" using ec_ops.data_val [OF I inv' k'] by (simp add: ec_atomic_def)
  moreover have "ec_iter_uses ?X j c' = ec_iter_uses ?X j c" if j: "ec_repr_id ?X y c = Inr (Some j)" "j \<noteq> k" for y j
  proof -
    obtain f where f: "ec31_data c j = Some f" using live [OF j(1)] by blast
    have "cd_use_list f \<noteq> ?l" by (rule ec_core_uses [OF core(1) f e j(2)])
    then show ?thesis using ec_ops.iter_uses_val [OF I inv f ls] ec_ops.iter_uses_val [OF I inv' _ u(3) sz', of j f] f u(2) j(2) sz by simp
  qed
  ultimately show ?thesis using a s' by (intro exI [of _ c'] exI [of _ "ls ! ?l"] conjI allI impI) auto
qed

text \<open>
  C12: on an instance that tracks proofs \<open>merge\<close> always panics with \<open>ProofsRequired\<close>; without proofs \<open>merge\<close> of two
  known nodes succeeds, and \<open>merge_justified\<close> with a storable justification succeeds on every instance.  Two nodes of one class give \<open>None\<close> and change no class; otherwise one of the two
  representatives survives, every member of the absorbed class gets it, the absorbed class leaves the
  sparse set, and the report carries that class's use-list, row and atomic flag.
\<close>

theorem ec_merge_correct:
  assumes T: "tagged_repr T okj" and s: "ec31_session T okj track proofs c issued st co"
    and ab: "a < length (ec31_parents c)" "b < length (ec31_parents c)" and j: "okj j"
  shows "(if proofs then ec_merge (ec31_cfg T track proofs) a b c = Inl ProofsRequired
      else \<exists>r c'. ec_merge (ec31_cfg T track proofs) a b c = Inr (r, c') \<and> ec31_session T okj track proofs c' issued st co \<and> ec_merged a b None r c c') \<and>
    (\<exists>r c'. ec_merge_justified (ec31_cfg T track proofs) a b j c = Inr (r, c') \<and> ec31_session T okj track proofs c' issued st co \<and> ec_merged a b None r c c')"
proof -
  note m = ec_ops.merge_ok [OF ec_ops.intro [OF T] ec31_session_inv [OF T s] ab]
  let ?X = "ec31_cfg T track proofs"
  have "\<exists>r c'. ec_merge ?X a b c = Inr (r, c') \<and> ec31_session T okj track proofs c' issued st co \<and> ec_merged a b None r c c'" if p: "\<not> proofs"
  proof -
    obtain r c' where r: "ec_merge ?X a b c = Inr (r, c')" "ec_merged a b None r c c'"
      using m [of None None] p by (auto simp: ec_merge_def uf_union_def)
    with session.update [OF s ec_upd.merge [OF r(1)]] show ?thesis by blast
  qed
  moreover have "\<exists>r c'. ec_merge_justified ?X a b j c = Inr (r, c') \<and> ec31_session T okj track proofs c' issued st co \<and> ec_merged a b None r c c'"
  proof -
    obtain r c' where r: "ec_merge_justified ?X a b j c = Inr (r, c')" "ec_merged a b None r c c'"
      using m [of "Some j" None] j by (auto simp: ec_merge_justified_def uf_union_justified_def)
    with session.update [OF s ec_upd.merge_justified [of okj, OF j r(1)]] show ?thesis by blast
  qed
  ultimately show ?thesis by (auto simp: ec_merge_def uf_union_def)
qed

lemma ec_merged_joined:
  assumes "ec_merged a b pref r c c'" and "a < length (ec31_parents c)" "b < length (ec31_parents c)"
  shows "rep c' a = rep c' b"
proof (cases r)
  case None
  then show ?thesis using assms by (simp add: ec_merged_def)
next
  case (Some mi)
  then have sa: "{mi_survivor mi, mi_absorbed mi} = {rep c a, rep c b}"
    and rt: "\<forall>x < length (ec31_parents c). rep c' x = (if rep c x = mi_absorbed mi then mi_survivor mi else rep c x)"
    using assms(1) by (auto simp: ec_merged_def)
  then show ?thesis using rename_eq [OF sa, of "rep c a" "rep c b"] assms(2,3) by simp
qed

text \<open>A directed merge with the use-lists of the two classes before it.\<close>

definition ec_merged_larger :: "(32 word, 32 word, 32 word, 32 word, 'j, 'q) ec_cfg \<Rightarrow> nat \<Rightarrow> nat \<Rightarrow> merge_info option \<Rightarrow> ('j, 'q) ec31 \<Rightarrow> ('j, 'q) ec31 \<Rightarrow> bool" where
  "ec_merged_larger X a b r c c' \<longleftrightarrow> (\<exists>pref. ec_merged a b (Some pref) r c c') \<and>
    (\<forall>mi. r = Some mi \<longrightarrow> (\<exists>ks ka ns na. ec_repr_id X (mi_survivor mi) c = Inr (Some ks) \<and> ec_repr_id X (mi_absorbed mi) c = Inr (Some ka) \<and>
      ec_use_list_len X ks c = Inr ns \<and> ec_use_list_len X ka c = Inr na \<and> na \<le> ns))"

lemma ec_merged_largerI:
  assumes "ec_repr_id X (rep c a) c = Inr (Some ka)" "ec_use_list_len X ka c = Inr na"
    and "ec_repr_id X (rep c b) c = Inr (Some kb)" "ec_use_list_len X kb c = Inr nb" and m: "ec_merged a b (Some (nb \<le> na)) r c c'"
  shows "ec_merged_larger X a b r c c'"
proof -
  have "\<exists>ks k ns n. ec_repr_id X (mi_survivor mi) c = Inr (Some ks) \<and> ec_repr_id X (mi_absorbed mi) c = Inr (Some k) \<and>
      ec_use_list_len X ks c = Inr ns \<and> ec_use_list_len X k c = Inr n \<and> n \<le> ns" if r: "r = Some mi" for mi
  proof (cases "nb \<le> na")
    case True
    then have "mi_survivor mi = rep c a" "mi_absorbed mi = rep c b" using m r by (auto simp: ec_merged_def doubleton_eq_iff)
    then show ?thesis using assms True by auto
  next
    case False
    then have "mi_survivor mi = rep c b" "mi_absorbed mi = rep c a" using m r by (auto simp: ec_merged_def doubleton_eq_iff)
    then show ?thesis using assms False by auto
  qed
  then show ?thesis using m by (auto simp: ec_merged_larger_def)
qed

text \<open>
  The directed merges do the same, and the class that survives is one with at least as many parents
  in its use-list as the class that is absorbed.
\<close>

theorem ec_merge_directed_larger:
  assumes T: "tagged_repr T okj" and s: "ec31_session T okj track proofs c issued st co"
    and ab: "a < length (ec31_parents c)" "b < length (ec31_parents c)" and j: "okj j"
  shows "(if proofs then ec_merge_directed (ec31_cfg T track proofs) a b c = Inl ProofsRequired
      else \<exists>r c'. ec_merge_directed (ec31_cfg T track proofs) a b c = Inr (r, c') \<and> ec_merged_larger (ec31_cfg T track proofs) a b r c c') \<and>
    (\<exists>r c'. ec_merge_justified_directed (ec31_cfg T track proofs) a b j c = Inr (r, c') \<and> ec_merged_larger (ec31_cfg T track proofs) a b r c c')"
proof -
  note I = ec_ops.intro [OF T] and inv = ec31_session_inv [OF T s]
  let ?X = "ec31_cfg T track proofs"
  obtain ka kb na nb where p: "ec_repr_id ?X (rep c a) c = Inr (Some ka)" "ec_use_list_len ?X ka c = Inr na"
    "ec_repr_id ?X (rep c b) c = Inr (Some kb)" "ec_use_list_len ?X kb c = Inr nb" "ec_prefer_a_by_uses ?X a b c = Inr (nb \<le> na)"
    by (rule ec_ops.prefer_val [OF I inv ab])
  note lg = ec_merged_largerI [OF p(1-4)] and m = ec_ops.merge_ok [OF I inv ab, of _ "Some (nb \<le> na)"]
  have "\<exists>r c'. ec_merge_directed ?X a b c = Inr (r, c') \<and> ec_merged_larger ?X a b r c c'" if np: "\<not> proofs"
  proof -
    obtain r c' where "ec_merge_directed ?X a b c = Inr (r, c')" "ec_merged a b (Some (nb \<le> na)) r c c'"
      using m [of None] p(5) np by (auto simp: ec_merge_directed_def uf_union_directed_def)
    then show ?thesis using lg by blast
  qed
  moreover have "\<exists>r c'. ec_merge_justified_directed ?X a b j c = Inr (r, c') \<and> ec_merged_larger ?X a b r c c'"
  proof -
    obtain r c' where "ec_merge_justified_directed ?X a b j c = Inr (r, c')" "ec_merged a b (Some (nb \<le> na)) r c c'"
      using m [of "Some j"] p(5) j by (auto simp: ec_merge_justified_directed_def uf_union_justified_directed_def)
    then show ?thesis using lg by blast
  qed
  moreover have "ec_merge_directed ?X a b c = Inl ProofsRequired" if proofs
    using p(5) that by (simp add: ec_merge_directed_def uf_union_directed_def)
  ultimately show ?thesis by simp
qed

text \<open>
  a live token of \<open>EClasses\<close> restores all five parts to their contents at its mark, and an accepted
  token that was never restored before is live.
\<close>

theorem ec_restore_exact:
  assumes T: "tagged_repr T okj" and s: "ec31_session T okj track proofs c issued st co" and "k < length issued" and "k \<notin> co"
    and "length st < 2 ^ 32" and "length (origins (v_forks (ec_entries c))) + 1 < 2 ^ 32"
  shows "(\<exists>c'. ec_restore (ec31_cfg T track proofs) (fst (issued ! k)) c = Inr c') = (k \<in> set st) \<and>
    (\<forall>c'. ec_restore (ec31_cfg T track proofs) (fst (issued ! k)) c = Inr c' \<longrightarrow> ec31_view T c' = snd (issued ! k))"
proof -
  obtain rel good where C: "ec31_contract T okj track proofs rel good" using ec31_checkpointed [OF T] by blast
  show ?thesis
  proof (intro conjI iffI allI impI)
    show "\<exists>c'. ec_restore (ec31_cfg T track proofs) (fst (issued ! k)) c = Inr c'" if "k \<in> set st"
      using checkpointed.live_token_restores [OF C s that assms(5,6)] by blast
    show "k \<in> set st" if "\<exists>c'. ec_restore (ec31_cfg T track proofs) (fst (issued ! k)) c = Inr c'"
      using that checkpointed.accepted_token_live [OF C s assms(3,4)] by blast
    show "ec31_view T c' = snd (issued ! k)" if "ec_restore (ec31_cfg T track proofs) (fst (issued ! k)) c = Inr c'" for c'
      using checkpointed.accepted_token_live [OF C s assms(3,4) that] by blast
  qed
qed

section \<open>Concrete states\<close>

text \<open>New classes, two singletons, the same two merged, and a mark, on an instance that tracks proofs.\<close>

abbreviation "ec31_ucfg \<equiv> ec31_cfg nojust_tagged True True"
abbreviation "ec31_usession \<equiv> ec31_session nojust_tagged (\<lambda>_. True) True True"
abbreviation "ec31_new \<equiv> fst (projr (ec_new ec31_ucfg 0)) :: (unit, 8 word bool_tagged) ec31"

lemma ec31_demo0: "ec31_usession ec31_new [] [] {}"
proof -
  have "\<exists>r. ec_new ec31_ucfg 0 = Inr r" by (simp add: ec_new_def Let_def ec31_cfg_def split: prod.splits)
  then obtain r where r: "ec_new ec31_ucfg 0 = Inr r" ..
  then have "ec_fresh ec31_ucfg ec31_new" unfolding ec_fresh_def by (intro exI [of _ 0] exI [of _ "snd r"]) simp
  then show ?thesis by (rule session.fresh)
qed

lemma ec31_parents_new: "ec31_parents ec31_new = []" "snd (la31_contents (ec_uses ec31_new)) = []"
  by (simp_all add: ec_new_def uf_new_def la_new_def la_contents_def veci_new_def vec_with_store_def container_id_new_def
      is_vals_def is_new_def Let_def ec31_cfg_def split: prod.splits)

lemma ec31_demo_add:
  assumes s: "ec31_usession c [] [] {}" and n: "length (ec31_parents c) < 2 ^ 31"
  shows "\<exists>c'. ec31_usession c' [] [] {} \<and> ec31_parents c' = ec31_parents c @ [length (ec31_parents c)] \<and>
    length (snd (la31_contents (ec_uses c'))) \<le> Suc (length (snd (la31_contents (ec_uses c))))"
proof -
  note inv = ec31_session_inv [OF nojust_t.tagged_repr_axioms s]
  obtain ls where ls: "la_repr id31 (la31_contents (ec_uses c)) ls" using ec31_unit.ec_relsD(6) [OF inv(1)] by blast
  obtain k c' where c': "ec_add_singleton ec31_ucfg (length (ec31_parents c)) c = Inr (k, c')" "ec31_parents c' = ec31_parents c @ [length (ec31_parents c)]"
    "length (snd (la31_contents (ec_uses c'))) \<le> Suc (length (snd (la31_contents (ec_uses c))))"
    using ec31_unit.add_singleton_ok [OF inv n ls] by blast
  show ?thesis using session.update [OF s ec_upd.add_singleton [OF n c'(1)]] c'(2,3) by blast
qed

lemma ec31_demo2:
  obtains c where "ec31_usession c [] [] {}" and "ec31_parents c = [0, 1]" and "length (snd (la31_contents (ec_uses c))) \<le> 2"
proof -
  obtain c1 where c1: "ec31_usession c1 [] [] {}" "ec31_parents c1 = [0]" "length (snd (la31_contents (ec_uses c1))) \<le> 1"
    using ec31_demo_add [OF ec31_demo0] by (auto simp: ec31_parents_new)
  obtain c2 where "ec31_usession c2 [] [] {}" "ec31_parents c2 = [0, 1]" "length (snd (la31_contents (ec_uses c2))) \<le> 2"
    using ec31_demo_add [OF c1(1)] c1(2,3) by auto
  then show thesis by (rule that)
qed

lemma ec31_demo_merged:
  obtains c where "ec31_usession c [] [] {}" and "length (ec31_parents c) = 2" and "rep c 0 = rep c 1"
proof -
  obtain c where c: "ec31_usession c [] [] {}" "ec31_parents c = [0, 1]" by (rule ec31_demo2) blast
  note inv = ec31_session_inv [OF nojust_t.tagged_repr_axioms c(1)]
  obtain r c' where m: "ec_merge_justified ec31_ucfg 0 1 () c = Inr (r, c')" "ec_merged 0 1 None r c c'"
    using ec31_unit.merge_ok [OF inv, of 0 1 "Some ()" None] c(2) by (auto simp: ec_merge_justified_def uf_union_justified_def)
  have "length (ec31_parents c') = 2" using m(2) c(2) by (simp add: ec_merged_def)
  moreover have "rep c' 0 = rep c' 1" using ec_merged_joined [OF m(2)] c(2) by simp
  ultimately
  show thesis using session.update [OF c(1) ec_upd.merge_justified [of "\<lambda>_. True", OF _ m(1)]] by (intro that) simp_all
qed

theorem ec_classes_consistent_witness:
  "\<exists>c xs. length (ec31_parents c) = 2 \<and> ec_class_members ec31_ucfg 0 c = Inr xs \<and> distinct xs \<and> set xs = {0, 1}"
proof -
  obtain c where c: "ec31_usession c [] [] {}" "length (ec31_parents c) = 2" "rep c 0 = rep c 1" by (rule ec31_demo_merged)
  note h = ec_classes_consistent [OF nojust_t.tagged_repr_axioms c(1), THEN conjunct1, rule_format, of 0]
  obtain xs where xs: "ec_class_members ec31_ucfg 0 c = Inr xs" "distinct xs" "set xs = {y. y < 2 \<and> rep c y = rep c 0}"
    using h [THEN conjunct2, THEN conjunct1] c(2) by auto
  have "{y. y < 2 \<and> rep c y = rep c 0} = {0, 1}" using c(3) by (auto simp: less_2_cases_iff)
  with xs have "set xs = {0, 1}" by simp
  then show ?thesis using xs(1,2) c(2) by (intro exI [of _ c] exI [of _ xs] conjI)
qed

theorem ec_add_singleton_correct_witness:
  "\<exists>k c. ec_add_singleton ec31_ucfg 0 ec31_new = Inr (k, c) \<and> ec_use_list_len ec31_ucfg k c = Inr 0 \<and>
    ec_add_singleton ec31_ucfg 1 ec31_new = Inl NotSequential"
  using ec_add_singleton_correct [OF nojust_t.tagged_repr_axioms ec31_demo0, of 0]
    ec_add_singleton_correct [OF nojust_t.tagged_repr_axioms ec31_demo0, of 1] by (auto simp: ec31_parents_new)

theorem ec_add_use_correct_witness:
  "\<exists>c c' k us. ec_repr_id ec31_ucfg 0 c = Inr (Some k) \<and> ec_add_use ec31_ucfg k 1 c = Inr c' \<and>
    ec_iter_uses ec31_ucfg k c = Inr us \<and> ec_iter_uses ec31_ucfg k c' = Inr (us @ [1])"
proof -
  obtain c where c: "ec31_usession c [] [] {}" "ec31_parents c = [0, 1]" "length (snd (la31_contents (ec_uses c))) \<le> 2" by (rule ec31_demo2)
  note inv = ec31_session_inv [OF nojust_t.tagged_repr_axioms c(1)]
  have "0 \<in> roots (ec31_parents c)" using c(2) by (simp add: roots_def uf31_roots2)
  then obtain k where k: "ec_repr_id ec31_ucfg 0 c = Inr (Some k)" using ec31_unit.root_uses_val [OF inv] by blast
  from ec_add_use_correct [OF nojust_t.tagged_repr_axioms c(1) k, of 1] c(3) k show ?thesis by auto
qed

theorem ec_merge_correct_witness:
  "\<exists>c c' mi. ec31_parents c = [0, 1] \<and> ec_merge_justified ec31_ucfg 0 1 () c = Inr (Some mi, c') \<and> rep c' 0 = rep c' 1"
proof -
  obtain c where c: "ec31_usession c [] [] {}" "ec31_parents c = [0, 1]" by (rule ec31_demo2) blast
  obtain r c' where m: "ec_merge_justified ec31_ucfg 0 1 () c = Inr (r, c')" "ec_merged 0 1 None r c c'"
    using ec_merge_correct [OF nojust_t.tagged_repr_axioms c(1), of 0 1 "()"] c(2) by auto
  have e: "rep c 0 = 0" "rep c 1 = 1" using c(2) by (simp_all add: uf31_roots2)
  then obtain mi where "r = Some mi" using m(2) by (cases r) (simp_all add: ec_merged_def)
  moreover have "rep c' 0 = rep c' 1" using ec_merged_joined [OF m(2)] c(2) by simp
  ultimately show ?thesis using c(2) m(1) by blast
qed

theorem ec_merge_directed_larger_witness:
  "\<exists>c c' r. ec31_parents c = [0, 1] \<and> ec_merge_directed ec31_ucfg 0 1 c = Inl ProofsRequired \<and>
    ec_merge_justified_directed ec31_ucfg 0 1 () c = Inr (r, c') \<and> ec_merged_larger ec31_ucfg 0 1 r c c'"
proof -
  obtain c where c: "ec31_usession c [] [] {}" "ec31_parents c = [0, 1]" by (rule ec31_demo2) blast
  from ec_merge_directed_larger [OF nojust_t.tagged_repr_axioms c(1), of 0 1 "()"] c(2) show ?thesis by auto
qed

abbreviation "never5 \<equiv> ((Never, 0, 0), ((Never, 0, 0), (Never, 0, 0), (Never, 0, 0)),
  ((((Never, 0, 0), (Never, 0, 0)), (Never, 0, 0)), (Never, 0, 0)), ((Never, 0, 0), (Never, 0, 0)), (Never, 0, 0)) :: ec_shrink"

theorem ec_restore_exact_witness:
  "\<exists>t c w. ec_mark ec31_ucfg never5 ec31_new = Inr (t, c) \<and> ec_restore ec31_ucfg t c = Inr w \<and> ec31_parents w = []"
proof -
  obtain t c where m: "ec_mark ec31_ucfg never5 ec31_new = Inr (t, c)" and f: "v_forks (ec_entries c) = fork_history_new"
    by (simp add: ec_mark_def ec_new_def ss_mark_def ss_with_store_def uf_mark_def opt_vec_mark_def la_mark_def la_new_def ec31_cfg_def en31_cfg_def
        rs31_cfg_def pl31_cfg_def uf31_cfg_def la31_cfg_def veci_cfg_def vecp_cfg_def inline_ops_def parallel_ops_def uf_new_def Let_def
        veci_new_def vecp_new_def vec_with_store_def container_id_new_def vec_mark_def vec_maybe_shrink_def len_res_def idx_try_def
        is_new_def ps_new_def slice_from_def narrow_count_def)
  have s: "ec31_usession c [(t, ec31_view nojust_tagged ec31_new)] [0] {}" using session.mark [OF ec31_demo0, OF m] by simp
  have "(\<exists>w. ec_restore ec31_ucfg t c = Inr w) \<and> (\<forall>w. ec_restore ec31_ucfg t c = Inr w \<longrightarrow> ec31_view nojust_tagged w = ec31_view nojust_tagged ec31_new)"
    using ec_restore_exact [OF nojust_t.tagged_repr_axioms s, of 0] f by (simp add: fork_history_new_def)
  then obtain w where w: "ec_restore ec31_ucfg t c = Inr w" "ec31_view nojust_tagged w = ec31_view nojust_tagged ec31_new" by blast
  then have "ec31_parents w = []" using ec31_parents_new by (simp add: ec31_view_def)
  with m w show ?thesis by blast
qed

end
