(* ===== verification/Bplus_Node.thy ===== *)
theory Bplus_Node
  imports Tagged_Repr
begin

unbundle bit_operations_syntax

text \<open>
  The nodes of the B+ tree, \<open>containers/src/bplus.rs\<close>: the slice operations they use, the node structs that
  \<open>define_node!\<close> generates with their \<open>Tagged\<close> implementation, the six layouts of \<open>impl_layout!\<close>, and the two
  search strategies.  Keys and arena indices are the numbers that their words hold; the casts between the
  two are between words of one width.
\<close>

section \<open>Slices of \<open>std\<close>\<close>

text \<open>\<open>&xs[a..b]\<close>, \<open>xs.copy_within(a..b, d)\<close> and \<open>xs[a..b].copy_from_slice(ys)\<close>.\<close>

definition slice_range :: "nat \<Rightarrow> nat \<Rightarrow> 'a list \<Rightarrow> 'a list res" where
  "slice_range a b xs = (if a \<le> b \<and> b \<le> length xs then Inr (take (b - a) (drop a xs)) else Inl IndexOutOfBounds)"

definition copy_within :: "nat \<Rightarrow> nat \<Rightarrow> nat \<Rightarrow> 'a list \<Rightarrow> 'a list res" where
  "copy_within a b d xs =
    (if a \<le> b \<and> b \<le> length xs \<and> d + (b - a) \<le> length xs
     then Inr (take d xs @ take (b - a) (drop a xs) @ drop (d + (b - a)) xs) else Inl IndexOutOfBounds)"

definition copy_into :: "nat \<Rightarrow> nat \<Rightarrow> 'a list \<Rightarrow> 'a list \<Rightarrow> 'a list res" where
  "copy_into a b ys xs =
    (if a \<le> b \<and> b \<le> length xs then (if length ys = b - a then Inr (take a xs @ ys @ drop b xs) else Inl SliceLength)
     else Inl IndexOutOfBounds)"

text \<open>\<open>xs.chunks(n)\<close>; the layouts have no zero capacity.\<close>

function chunks :: "nat \<Rightarrow> 'a list \<Rightarrow> 'a list list" where
  "chunks n xs = (if n = 0 \<or> xs = [] then [] else take n xs # chunks n (drop n xs))"
  by pat_completeness auto

termination chunks
  by (relation "measure (\<lambda>(n, xs). length xs)") auto

declare chunks.simps [simp del]

text \<open>\<open>partition_point\<close> is the bisection of \<open>std\<close>.\<close>

function pp_loop :: "('a \<Rightarrow> bool) \<Rightarrow> 'a list \<Rightarrow> nat \<Rightarrow> nat \<Rightarrow> nat" where
  "pp_loop P xs lo hi =
    (if lo < hi then
       let mid = lo + (hi - lo) div 2 in
       if P (xs ! mid) then pp_loop P xs (mid + 1) hi else pp_loop P xs lo mid
     else lo)"
  by pat_completeness auto

termination pp_loop
  by (relation "measure (\<lambda>(P, xs, lo, hi). hi - lo)") auto

declare pp_loop.simps [simp del]

definition partition_point :: "('a \<Rightarrow> bool) \<Rightarrow> 'a list \<Rightarrow> nat" where
  "partition_point P xs = pp_loop P xs 0 (length xs)"

section \<open>Nodes\<close>

definition FLAG_LEAF :: "8 word" where
  "FLAG_LEAF = 1"

definition FLAG_TAG :: "8 word" where
  "FLAG_TAG = 2"

record bp_node =
  bn_flags :: "8 word"
  bn_count :: nat
  bn_data :: "nat list"
  bn_link :: nat

definition bp_node_default :: "nat \<Rightarrow> bp_node" where
  "bp_node_default data_len = \<lparr>bn_flags = 0, bn_count = 0, bn_data = replicate data_len 0, bn_link = 0\<rparr>"

definition clear_node_tag :: "bp_node \<Rightarrow> bp_node" where
  "clear_node_tag r = r\<lparr>bn_flags := bn_flags r AND NOT FLAG_TAG\<rparr>"

definition bp_node_tagged :: "nat \<Rightarrow> (bp_node, bp_node) tagged_ops" where
  "bp_node_tagged data_len = \<lparr>into_repr = clear_node_tag, from_repr = clear_node_tag,
     tag = (\<lambda>r. bn_flags r AND FLAG_TAG \<noteq> 0), set_tag = (\<lambda>r. r\<lparr>bn_flags := bn_flags r OR FLAG_TAG\<rparr>),
     clear_tag = clear_node_tag, tg_default = bp_node_default data_len\<rparr>"

section \<open>Layouts\<close>

record bp_layout =
  bl_data_len :: nat
  bl_leaf_cap :: nat
  bl_key_cap :: nat
  bl_child_cap :: nat
  bl_max_depth :: nat
  bl_size :: nat
  bl_nil :: nat

definition Layout64U32 :: bp_layout where
  "Layout64U32 = \<lparr>bl_data_len = 14, bl_leaf_cap = 14, bl_key_cap = 7, bl_child_cap = 8, bl_max_depth = 10, bl_size = 64, bl_nil = 2 ^ 32 - 1\<rparr>"

definition Layout128U32 :: bp_layout where
  "Layout128U32 = \<lparr>bl_data_len = 30, bl_leaf_cap = 30, bl_key_cap = 14, bl_child_cap = 15, bl_max_depth = 7, bl_size = 128, bl_nil = 2 ^ 32 - 1\<rparr>"

definition Layout256U32 :: bp_layout where
  "Layout256U32 = \<lparr>bl_data_len = 62, bl_leaf_cap = 62, bl_key_cap = 30, bl_child_cap = 31, bl_max_depth = 6, bl_size = 256, bl_nil = 2 ^ 32 - 1\<rparr>"

definition Layout128U64 :: bp_layout where
  "Layout128U64 = \<lparr>bl_data_len = 14, bl_leaf_cap = 14, bl_key_cap = 6, bl_child_cap = 7, bl_max_depth = 22, bl_size = 128, bl_nil = 2 ^ 64 - 1\<rparr>"

definition Layout256U64 :: bp_layout where
  "Layout256U64 = \<lparr>bl_data_len = 30, bl_leaf_cap = 30, bl_key_cap = 14, bl_child_cap = 15, bl_max_depth = 16, bl_size = 256, bl_nil = 2 ^ 64 - 1\<rparr>"

definition Layout512U64 :: bp_layout where
  "Layout512U64 = \<lparr>bl_data_len = 62, bl_leaf_cap = 62, bl_key_cap = 30, bl_child_cap = 31, bl_max_depth = 12, bl_size = 512, bl_nil = 2 ^ 64 - 1\<rparr>"

definition new_leaf :: "bp_layout \<Rightarrow> bp_node" where
  "new_leaf L = \<lparr>bn_flags = FLAG_LEAF, bn_count = 0, bn_data = replicate (bl_data_len L) 0, bn_link = bl_nil L\<rparr>"

definition new_internal :: "bp_layout \<Rightarrow> bp_node" where
  "new_internal L = \<lparr>bn_flags = 0, bn_count = 0, bn_data = replicate (bl_data_len L) 0, bn_link = 0\<rparr>"

definition is_leaf :: "bp_node \<Rightarrow> bool" where
  "is_leaf n \<longleftrightarrow> bn_flags n AND FLAG_LEAF \<noteq> 0"

text \<open>\<open>c as u8\<close>.\<close>

definition set_count :: "nat \<Rightarrow> bp_node \<Rightarrow> bp_node" where
  "set_count c n = n\<lparr>bn_count := c mod 256\<rparr>"

definition set_link :: "nat \<Rightarrow> bp_node \<Rightarrow> bp_node" where
  "set_link v n = n\<lparr>bn_link := v\<rparr>"

definition internal_child :: "bp_layout \<Rightarrow> nat \<Rightarrow> bp_node \<Rightarrow> nat res" where
  "internal_child L i n = (if i < bl_key_cap L then nth_res (bn_data n) (bl_key_cap L + i) else Inr (bn_link n))"

definition set_internal_child :: "bp_layout \<Rightarrow> nat \<Rightarrow> nat \<Rightarrow> bp_node \<Rightarrow> bp_node res" where
  "set_internal_child L i v n =
    (if i < bl_key_cap L then rbind (upd_res (bn_data n) (bl_key_cap L + i) v) (\<lambda>d. Inr (n\<lparr>bn_data := d\<rparr>))
     else Inr (n\<lparr>bn_link := v\<rparr>))"

section \<open>Search strategies\<close>

record search_ops =
  find_ge :: "nat list \<Rightarrow> nat \<Rightarrow> nat"
  find_gt :: "nat list \<Rightarrow> nat \<Rightarrow> nat"

definition BinarySearch :: search_ops where
  "BinarySearch = \<lparr>find_ge = (\<lambda>keys target. partition_point (\<lambda>k. k < target) keys),
     find_gt = (\<lambda>keys target. partition_point (\<lambda>k. k \<le> target) keys)\<rparr>"

fun count_loop :: "(nat \<Rightarrow> bool) \<Rightarrow> nat \<Rightarrow> nat list \<Rightarrow> nat" where
  "count_loop P n [] = n"
| "count_loop P n (k # ks) = count_loop P (n + (if P k then 1 else 0)) ks"

definition Branchless :: search_ops where
  "Branchless = \<lparr>find_ge = (\<lambda>keys target. count_loop (\<lambda>k. k < target) 0 keys),
     find_gt = (\<lambda>keys target. count_loop (\<lambda>k. k \<le> target) 0 keys)\<rparr>"

text \<open>On ascending keys both find the boundary.\<close>

locale search_kind =
  fixes S :: search_ops
  assumes find_ge_law: "sorted ks \<Longrightarrow> find_ge S ks t = length (takeWhile (\<lambda>k. k < t) ks)"
    and find_gt_law: "sorted ks \<Longrightarrow> find_gt S ks t = length (takeWhile (\<lambda>k. k \<le> t) ks)"

lemma pp_loop_boundary:
  assumes "b \<le> length xs" "lo \<le> b" "b \<le> hi" "hi \<le> length xs" "\<And>i. i < b \<Longrightarrow> P (xs ! i)" "\<And>i. b \<le> i \<Longrightarrow> i < length xs \<Longrightarrow> \<not> P (xs ! i)"
  shows "pp_loop P xs lo hi = b"
  using assms
proof (induction P xs lo hi rule: pp_loop.induct)
  case (1 P xs lo hi)
  let ?mid = "lo + (hi - lo) div 2"
  show ?case
  proof (cases "lo < hi")
    case True
    then have m: "lo \<le> ?mid" "?mid < hi" by linarith+
    have "P (xs ! ?mid) \<longleftrightarrow> ?mid < b" using "1.prems" m by (meson leI order.strict_trans1 order.strict_trans2)
    then show ?thesis using True m "1.IH" "1.prems" by (subst pp_loop.simps) (auto simp: Let_def)
  next
    case False
    then show ?thesis using "1.prems" by (subst pp_loop.simps) auto
  qed
qed

lemma sorted_boundary:
  fixes ks :: "nat list"
  assumes "sorted ks" "\<forall>x y. x \<le> y \<longrightarrow> P y \<longrightarrow> P x" "i < length ks"
  shows "P (ks ! i) \<longleftrightarrow> i < length (takeWhile P ks)"
proof
  show "i < length (takeWhile P ks) \<Longrightarrow> P (ks ! i)" by (metis nth_mem set_takeWhileD takeWhile_nth)
  assume "P (ks ! i)"
  show "i < length (takeWhile P ks)"
  proof (rule ccontr)
    let ?b = "length (takeWhile P ks)"
    assume n: "\<not> i < ?b"
    then have "?b < length ks" using assms(3) by simp
    then have "\<not> P (ks ! ?b)" by (rule nth_length_takeWhile)
    moreover have "ks ! ?b \<le> ks ! i" using n assms(1,3) by (simp add: sorted_nth_mono)
    ultimately show False using assms(2) \<open>P (ks ! i)\<close> by blast
  qed
qed

lemma partition_point_boundary:
  fixes ks :: "nat list"
  assumes "sorted ks" "\<forall>x y. x \<le> y \<longrightarrow> P y \<longrightarrow> P x"
  shows "partition_point P ks = length (takeWhile P ks)"
proof -
  have "i < length ks \<Longrightarrow> P (ks ! i) \<longleftrightarrow> i < length (takeWhile P ks)" for i using sorted_boundary [OF assms] .
  then show ?thesis
    unfolding partition_point_def using length_takeWhile_le [of P ks] by (intro pp_loop_boundary) auto
qed

lemma count_loop_boundary:
  fixes ks :: "nat list"
  assumes "sorted ks" "\<forall>x y. x \<le> y \<longrightarrow> P y \<longrightarrow> P x"
  shows "count_loop P n ks = n + length (takeWhile P ks)"
  using assms(1)
proof (induction ks arbitrary: n)
  case (Cons k ks)
  show ?case
  proof (cases "P k")
    case False
    then have "\<forall>x \<in> set ks. \<not> P x" using Cons.prems assms(2) by auto
    then have "takeWhile P ks = []" by (cases ks) auto
    then show ?thesis using Cons False by simp
  qed (use Cons in simp)
qed simp

interpretation binary: search_kind BinarySearch
  by unfold_locales (auto simp: BinarySearch_def intro!: partition_point_boundary)

interpretation branchless: search_kind Branchless
  by unfold_locales (auto simp: Branchless_def intro!: count_loop_boundary [where n = 0, simplified])

section \<open>Stored nodes\<close>

definition bp_node_dom :: "bp_node \<Rightarrow> bool" where
  "bp_node_dom n \<longleftrightarrow> bn_flags n AND FLAG_TAG = 0"

lemma bp_node_tagged_repr: "tagged_repr (bp_node_tagged dl) bp_node_dom"
proof
  have "f = (f AND FLAG_TAG) OR (f AND NOT FLAG_TAG)" for f by (rule bit_word_eqI) (auto simp: bit_simps)
  then have keep: "f AND NOT FLAG_TAG = f" if "f AND FLAG_TAG = 0" for f using that by (metis or.left_neutral)
  have bit1: "f AND FLAG_TAG = 0 \<longleftrightarrow> \<not> bit f 1" for f :: "8 word"
    using and_exp_eq_0_iff_not_bit [of f 1] by (simp add: FLAG_TAG_def)
  have bits: "\<not> bit (f AND NOT FLAG_TAG) 1" "bit (f OR FLAG_TAG) 1" for f
    by (simp_all add: FLAG_TAG_def bit_simps)
  have or_and: "(f OR FLAG_TAG) AND NOT FLAG_TAG = f AND NOT FLAG_TAG" for f
    by (rule bit_word_eqI) (auto simp: bit_simps)
  fix r x
  show "bp_node_dom x \<Longrightarrow> from_repr (bp_node_tagged dl) (into_repr (bp_node_tagged dl) x) = x"
    using keep by (simp add: bp_node_tagged_def clear_node_tag_def bp_node_dom_def)
  show "bp_node_dom x \<Longrightarrow> \<not> tag (bp_node_tagged dl) (into_repr (bp_node_tagged dl) x)"
    by (simp add: bp_node_tagged_def clear_node_tag_def and.assoc)
  show "tag (bp_node_tagged dl) (set_tag (bp_node_tagged dl) r)"
    using bits by (simp add: bp_node_tagged_def bit1)
  show "\<not> tag (bp_node_tagged dl) (clear_tag (bp_node_tagged dl) r)"
    by (simp add: bp_node_tagged_def clear_node_tag_def and.assoc)
  show "from_repr (bp_node_tagged dl) (set_tag (bp_node_tagged dl) r) = from_repr (bp_node_tagged dl) r"
    using or_and by (simp add: bp_node_tagged_def clear_node_tag_def)
  show "from_repr (bp_node_tagged dl) (clear_tag (bp_node_tagged dl) r) = from_repr (bp_node_tagged dl) r"
    by (simp add: bp_node_tagged_def clear_node_tag_def and.assoc)
  show "bp_node_dom (from_repr (bp_node_tagged dl) r)"
    by (simp add: bp_node_tagged_def clear_node_tag_def bp_node_dom_def and.assoc)
  show "bp_node_dom (tg_default (bp_node_tagged dl))"
    by (simp add: bp_node_tagged_def bp_node_default_def bp_node_dom_def)
qed

end
