(* ===== verification/Cursor.thy ===== *)
theory Cursor
  imports Index_Like
begin

text \<open>
  Seek-and-step cursors over sorted keys: the trait \<open>SortedCursor\<close> (\<open>containers/src/sorted_cursor.rs\<close>) as a
  record of its methods, its contract as two locales, and the slice cursor \<open>SortedVecCursor\<close>
  (\<open>containers-verus/src/sorted_vec_cursor.rs\<close>), whose \<open>seek\<close> gallops and then bisects.  The B+ tree cursor
  implements the same contract.
\<close>

section \<open>The contract\<close>

record ('c, 'k) cursor_ops =
  cu_key :: "'c \<Rightarrow> 'k option res"
  cu_step :: "'c \<Rightarrow> 'c res"
  cu_seek :: "'k \<Rightarrow> 'c \<Rightarrow> 'c res"

text \<open>
  \<open>past\<close> are the keys behind a cursor and \<open>rest\<close> those from its position on; together they are the strictly
  ascending sequence it runs over.  The weak contract promises a seek only from a positioned cursor to a
  target at or after its key, which is all that a leapfrog join asks for; the strong contract promises it
  for every target after the keys already passed, which is what the subtracted side of a difference needs.
\<close>

abbreviation (input) below :: "'k::linorder \<Rightarrow> 'k \<Rightarrow> bool" where
  "below t \<equiv> (\<lambda>x. x < t)"

fun head_opt :: "'k list \<Rightarrow> 'k option" where
  "head_opt [] = None"
| "head_opt (k # ks) = Some k"

locale cursor_base =
  fixes C :: "('c, 'k::linorder) cursor_ops"
    and inv :: "'c \<Rightarrow> bool"
    and past :: "'c \<Rightarrow> 'k list"
    and rest :: "'c \<Rightarrow> 'k list"
  assumes ascending: "inv c \<Longrightarrow> sorted_wrt (<) (past c @ rest c)"
    and key_law: "inv c \<Longrightarrow> cu_key C c = Inr (head_opt (rest c))"
    and step_law: "inv c \<Longrightarrow> \<exists>c'. cu_step C c = Inr c' \<and> inv c' \<and>
      past c' @ rest c' = past c @ rest c \<and> rest c' = tl (rest c)"

locale join_cursor = cursor_base +
  assumes seek_law: "inv c \<Longrightarrow> rest c = k # ks \<Longrightarrow> k \<le> t \<Longrightarrow> \<exists>c'. cu_seek C t c = Inr c' \<and> inv c' \<and>
      past c' @ rest c' = past c @ rest c \<and> rest c' = dropWhile (below t) (rest c)"

locale sorted_cursor = cursor_base +
  assumes seek_any: "inv c \<Longrightarrow> \<forall>x \<in> set (past c). x < t \<Longrightarrow> \<exists>c'. cu_seek C t c = Inr c' \<and> inv c' \<and>
      past c' @ rest c' = past c @ rest c \<and> rest c' = dropWhile (below t) (rest c)"

sublocale sorted_cursor \<subseteq> join_cursor
proof
  fix c k ks t assume "inv c" "rest c = k # ks" "k \<le> t"
  then show "\<exists>c'. cu_seek C t c = Inr c' \<and> inv c' \<and> past c' @ rest c' = past c @ rest c \<and> rest c' = dropWhile (below t) (rest c)"
    using ascending [of c] by (intro seek_any) (auto simp: sorted_wrt_append)
qed

lemma dropWhile_below_ge:
  assumes "sorted_wrt (<) ks" "x \<in> set (dropWhile (below t) ks)"
  shows "t \<le> x"
  using assms by (induction ks) (auto split: if_splits)

lemma set_dropWhile_below: "sorted_wrt (<) ks \<Longrightarrow> set (dropWhile (below t) ks) = {x \<in> set ks. t \<le> x}"
  by (induction ks) auto

lemma dropWhile_below_id: "sorted_wrt (<) (k # ks) \<Longrightarrow> t \<le> k \<Longrightarrow> dropWhile (below t) (k # ks) = k # ks"
  by simp

lemma append_same_tail:
  assumes "a @ b = c @ dropWhile P b"
  shows "c = a @ takeWhile P b"
proof -
  have "a @ takeWhile P b @ dropWhile P b = c @ dropWhile P b" using assms by simp
  then show ?thesis by (metis append.assoc append_same_eq)
qed

context join_cursor
begin

lemma rest_ascending: "inv c \<Longrightarrow> sorted_wrt (<) (rest c)"
  using ascending by (auto simp: sorted_wrt_append)

lemma seek_set:
  assumes "inv c" "rest c = k # ks" "k \<le> t"
  obtains c' where "cu_seek C t c = Inr c'" "inv c'" "set (rest c') = {x \<in> set (rest c). t \<le> x}"
    "length (rest c') \<le> length (rest c)" "k < t \<Longrightarrow> length (rest c') < length (rest c)"
proof -
  obtain c' where c': "cu_seek C t c = Inr c'" "inv c'" "rest c' = dropWhile (below t) (rest c)"
    using seek_law [OF assms] by blast
  have "length (rest c') < length (rest c)" if "k < t"
    using that assms(2) c'(3) length_dropWhile_le [of "below t" ks] by simp
  then show thesis
    using that [OF c'(1,2)] c'(3) rest_ascending [OF assms(1)] by (simp add: set_dropWhile_below length_dropWhile_le)
qed

end

section \<open>The slice cursor\<close>

record 'k svc =
  svc_data :: "'k list"
  svc_pos :: nat

definition svc_new :: "'k list \<Rightarrow> 'k svc" where
  "svc_new data = \<lparr>svc_data = data, svc_pos = 0\<rparr>"

definition svc_is_valid :: "'k svc \<Rightarrow> bool" where
  "svc_is_valid c \<longleftrightarrow> svc_pos c < length (svc_data c)"

definition svc_key :: "'k svc \<Rightarrow> 'k res" where
  "svc_key c = rbind (rassert (svc_pos c < length (svc_data c)) CursorExhausted) (\<lambda>_. nth_res (svc_data c) (svc_pos c))"

definition svc_step_unchecked :: "'k svc \<Rightarrow> 'k svc res" where
  "svc_step_unchecked c =
    rbind (expect ArithOverflow (usize_checked_add (svc_pos c) 1)) (\<lambda>p. Inr (c\<lparr>svc_pos := p\<rparr>))"

text \<open>
  The galloping loop, with \<open>lo\<close> below the target.  An iteration moves \<open>lo\<close> by at least one towards the end, so
  the length of the slice is enough fuel.
\<close>

fun svc_gallop :: "'k::linorder list \<Rightarrow> 'k \<Rightarrow> nat \<Rightarrow> nat \<Rightarrow> nat \<Rightarrow> (nat \<times> nat) res" where
  "svc_gallop data t 0 lo step = Inl Diverge"
| "svc_gallop data t (Suc f) lo step =
    (if step < length data - lo then
       rbind (nth_res data (lo + step)) (\<lambda>x.
       if x < t then
         rbind (expect ArithOverflow (usize_checked_mul step 2)) (\<lambda>step'. svc_gallop data t f (lo + step) step')
       else Inr (lo, step))
     else Inr (lo, step))"

function svc_bisect :: "'k::linorder list \<Rightarrow> 'k \<Rightarrow> nat \<Rightarrow> nat \<Rightarrow> nat res" where
  "svc_bisect data t a b =
    (if a < b then
       let mid = a + (b - a) div 2 in
       if mid < length data then
         (if data ! mid < t then svc_bisect data t (mid + 1) b else svc_bisect data t a mid)
       else Inl IndexOutOfBounds
     else Inr a)"
  by pat_completeness auto

termination svc_bisect
  by (relation "measure (\<lambda>(data, t, a, b). b - a)") auto

declare svc_bisect.simps [simp del]

definition svc_seek :: "'k::linorder \<Rightarrow> 'k svc \<Rightarrow> 'k svc res" where
  "svc_seek target c =
    (let n = length (svc_data c) in
     if svc_pos c \<ge> n then Inr c
     else rbind (nth_res (svc_data c) (svc_pos c)) (\<lambda>k0.
       if \<not> k0 < target then Inr c
       else rbind (svc_gallop (svc_data c) target n (svc_pos c) 1) (\<lambda>(lo, step).
         let hi = if step < n - lo then lo + step else n in
         rbind (svc_bisect (svc_data c) target (lo + 1) hi) (\<lambda>a. Inr (c\<lparr>svc_pos := a\<rparr>)))))"

text \<open>\<open>impl SortedCursor for SortedVecCursor\<close>: the guards that keep the refusals unreachable.\<close>

definition svc_ops :: "('k::linorder svc, 'k) cursor_ops" where
  "svc_ops = \<lparr>cu_key = (\<lambda>c. if svc_is_valid c then rbind (svc_key c) (\<lambda>k. Inr (Some k)) else Inr None),
     cu_step = (\<lambda>c. if svc_is_valid c then svc_step_unchecked c else Inr c),
     cu_seek = svc_seek\<rparr>"

section \<open>The slice cursor meets the strong contract\<close>

text \<open>A Rust slice has at most \<open>isize::MAX\<close> elements, so the doubling never overflows.\<close>

definition svc_inv :: "'k::linorder svc \<Rightarrow> bool" where
  "svc_inv c \<longleftrightarrow> sorted_wrt (<) (svc_data c) \<and> svc_pos c \<le> length (svc_data c) \<and> length (svc_data c) < 2 ^ 63"

definition svc_past :: "'k svc \<Rightarrow> 'k list" where
  "svc_past c = take (svc_pos c) (svc_data c)"

definition svc_rest :: "'k svc \<Rightarrow> 'k list" where
  "svc_rest c = drop (svc_pos c) (svc_data c)"

lemma sorted_below_before:
  "sorted_wrt (<) xs \<Longrightarrow> i \<le> j \<Longrightarrow> j < length xs \<Longrightarrow> xs ! j < t \<Longrightarrow> xs ! i < t" for t :: "'k::linorder"
  by (metis le_eq_less_or_eq less_trans sorted_wrt_nth_less)

lemma svc_gallop_ok:
  assumes "sorted_wrt (<) data" "length data < 2 ^ 63" "lo < length data" "data ! lo < t" "1 \<le> step"
    "step \<le> lo + 1" "length data - lo \<le> fuel"
  shows "\<exists>lo' step'. svc_gallop data t fuel lo step = Inr (lo', step') \<and> lo \<le> lo' \<and> lo' < length data \<and> data ! lo' < t \<and>
    1 \<le> step' \<and> (step' < length data - lo' \<longrightarrow> \<not> data ! (lo' + step') < t)"
  using assms
proof (induction fuel arbitrary: lo step)
  case 0
  then show ?case by simp
next
  case (Suc fuel)
  show ?case
  proof (cases "step < length data - lo \<and> data ! (lo + step) < t")
    case True
    then have "lo + step < length data" by linarith
    moreover from this have "step * 2 < 2 ^ 64" using Suc.prems(2,6) by simp
    moreover have "\<exists>lo' step'. svc_gallop data t fuel (lo + step) (step * 2) = Inr (lo', step') \<and> lo + step \<le> lo' \<and>
        lo' < length data \<and> data ! lo' < t \<and> 1 \<le> step' \<and> (step' < length data - lo' \<longrightarrow> \<not> data ! (lo' + step') < t)"
      using True Suc.prems calculation by (intro Suc.IH) auto
    ultimately show ?thesis
      using True Suc.prems(5) by (fastforce simp: usize_checked_mul_def)
  next
    case False
    then show ?thesis using Suc.prems by (auto simp: nth_res_def)
  qed
qed

lemma svc_bisect_ok:
  assumes "sorted_wrt (<) data" "a \<le> b" "b \<le> length data" "\<And>i. i < a \<Longrightarrow> data ! i < t"
    "b < length data \<Longrightarrow> \<not> data ! b < t"
  shows "\<exists>r. svc_bisect data t a b = Inr r \<and> a \<le> r \<and> r \<le> b \<and> (\<forall>i < r. data ! i < t) \<and> (r < length data \<longrightarrow> \<not> data ! r < t)"
  using assms
proof (induction data t a b rule: svc_bisect.induct)
  case (1 data t a b)
  let ?mid = "a + (b - a) div 2"
  show ?case
  proof (cases "a < b")
    case True
    then have m: "a \<le> ?mid" "?mid < b" "?mid < length data" using "1.prems"(3) by linarith+
    show ?thesis
    proof (cases "data ! ?mid < t")
      case lt: True
      have "\<exists>r. svc_bisect data t (?mid + 1) b = Inr r \<and> ?mid + 1 \<le> r \<and> r \<le> b \<and> (\<forall>i < r. data ! i < t) \<and> (r < length data \<longrightarrow> \<not> data ! r < t)"
        using m lt "1.prems" True
        by (intro "1.IH"(1)) (auto intro: sorted_below_before [of data _ ?mid])
      then show ?thesis using m lt True by (subst svc_bisect.simps) (auto simp: Let_def)
    next
      case ge: False
      have "\<exists>r. svc_bisect data t a ?mid = Inr r \<and> a \<le> r \<and> r \<le> ?mid \<and> (\<forall>i < r. data ! i < t) \<and> (r < length data \<longrightarrow> \<not> data ! r < t)"
        using m ge "1.prems" True by (intro "1.IH"(2)) auto
      then show ?thesis using m ge True by (subst svc_bisect.simps) (force simp: Let_def)
    qed
  next
    case False
    then show ?thesis using "1.prems" by (subst svc_bisect.simps) auto
  qed
qed

lemma drop_dropWhile_below:
  assumes "sorted_wrt (<) xs" "p \<le> r" "r \<le> length xs" "\<forall>i < r. xs ! i < t" "r < length xs \<longrightarrow> \<not> xs ! r < t"
  shows "dropWhile (below t) (drop p xs) = drop r xs"
proof -
  have "takeWhile (below t) (drop p xs) = take (r - p) (drop p xs)"
    using assms by (intro takeWhile_eq_take_P_nth) auto
  then have "dropWhile (below t) (drop p xs) = drop (r - p) (drop p xs)"
    by (metis append_take_drop_id same_append_eq takeWhile_dropWhile_id)
  then show ?thesis using assms(2) by simp
qed

lemma svc_seek_ok:
  assumes i: "svc_inv c" and past: "\<forall>x \<in> set (svc_past c). x < t"
  shows "\<exists>p. svc_seek t c = Inr (c\<lparr>svc_pos := p\<rparr>) \<and> svc_pos c \<le> p \<and> p \<le> length (svc_data c) \<and>
    drop p (svc_data c) = dropWhile (below t) (svc_rest c)"
proof -
  let ?d = "svc_data c" and ?p = "svc_pos c" and ?n = "length (svc_data c)"
  note inv = i [unfolded svc_inv_def]
  show ?thesis
  proof (cases "?p < ?n \<and> ?d ! ?p < t")
    case False
    then have "drop ?p ?d = dropWhile (below t) (drop ?p ?d)"
      using inv by (cases "?p < ?n") (auto simp: Cons_nth_drop_Suc [symmetric])
    moreover have "svc_seek t c = Inr (c\<lparr>svc_pos := ?p\<rparr>)"
      using False by (auto simp: svc_seek_def Let_def)
    ultimately show ?thesis using inv by (intro exI [of _ ?p]) (simp add: svc_rest_def)
  next
    case True
    obtain lo st where g: "svc_gallop ?d t ?n ?p 1 = Inr (lo, st)" "?p \<le> lo" "lo < ?n" "?d ! lo < t" "1 \<le> st"
      "st < ?n - lo \<longrightarrow> \<not> ?d ! (lo + st) < t"
      using svc_gallop_ok [of ?d ?p t 1 ?n] True inv by auto
    define hi where "hi = (if st < ?n - lo then lo + st else ?n)"
    have hi: "lo + 1 \<le> hi" "hi \<le> ?n" "hi < ?n \<Longrightarrow> \<not> ?d ! hi < t" using g by (auto simp: hi_def split: if_splits)
    have lt: "?d ! i < t" if "i < lo + 1" for i
      using sorted_below_before [of ?d i lo t] that g(3,4) inv by simp
    obtain r where r: "svc_bisect ?d t (lo + 1) hi = Inr r" "lo + 1 \<le> r" "r \<le> hi" "\<forall>i < r. ?d ! i < t"
      "r < ?n \<longrightarrow> \<not> ?d ! r < t"
      using svc_bisect_ok [of ?d "lo + 1" hi t] hi lt inv by auto
    have "svc_seek t c = Inr (c\<lparr>svc_pos := r\<rparr>)"
      using True g(1) r(1) by (simp add: svc_seek_def Let_def hi_def)
    moreover have "dropWhile (below t) (drop ?p ?d) = drop r ?d"
      using inv g r hi by (intro drop_dropWhile_below) auto
    ultimately show ?thesis using g r hi by (intro exI [of _ r]) (simp add: svc_rest_def)
  qed
qed

interpretation svc: sorted_cursor svc_ops svc_inv svc_past svc_rest
proof
  fix c :: "'k::linorder svc" and t :: 'k
  show "sorted_wrt (<) (svc_past c @ svc_rest c)" if "svc_inv c"
    using that by (simp add: svc_inv_def svc_past_def svc_rest_def)
  show "cu_key svc_ops c = Inr (head_opt (svc_rest c))" if "svc_inv c"
    using that by (auto simp: svc_ops_def svc_is_valid_def svc_key_def svc_rest_def svc_inv_def Cons_nth_drop_Suc [symmetric])
  show "\<exists>c'. cu_step svc_ops c = Inr c' \<and> svc_inv c' \<and> svc_past c' @ svc_rest c' = svc_past c @ svc_rest c \<and> svc_rest c' = tl (svc_rest c)"
    if "svc_inv c"
    using that by (auto simp: svc_ops_def svc_is_valid_def svc_step_unchecked_def usize_checked_add_def svc_rest_def svc_past_def
        svc_inv_def tl_drop drop_Suc)
  show "\<exists>c'. cu_seek svc_ops t c = Inr c' \<and> svc_inv c' \<and> svc_past c' @ svc_rest c' = svc_past c @ svc_rest c \<and>
      svc_rest c' = dropWhile (below t) (svc_rest c)"
    if "svc_inv c" "\<forall>x \<in> set (svc_past c). x < t"
    using svc_seek_ok [OF that] that by (auto simp: svc_ops_def svc_inv_def svc_rest_def svc_past_def)
qed

lemma svc_new_facts [simp]:
  "svc_rest (svc_new xs) = xs" "svc_past (svc_new xs) = []"
  "svc_inv (svc_new xs) \<longleftrightarrow> sorted_wrt (<) xs \<and> length xs < 2 ^ 63"
  by (simp_all add: svc_new_def svc_rest_def svc_past_def svc_inv_def)

end
