(* ===== verification/Bplus.thy ===== *)
theory Bplus
  imports Bplus_Node Semi_Vec Cursor
begin

text \<open>
  The B+ tree set, \<open>containers/src/bplus.rs\<close>: an arena of nodes in an inline vector and one header in a
  parallel vector, with bulk loading, insertion by splitting along the recorded path, the cursor with its
  seek shortcuts, \<open>mark\<close> and \<open>restore\<close>.  The loops that walk down the tree get as much fuel as the arena has
  nodes; the descent of \<open>insert\<close> writes a 24-slot array and so cannot run longer than that.
\<close>

record bp_header =
  bh_root :: nat
  bh_last_leaf :: nat
  bh_nkeys :: nat

definition bp_header_default :: bp_header where
  "bp_header_default = \<lparr>bh_root = 0, bh_last_leaf = 0, bh_nkeys = 0\<rparr>"

text \<open>\<open>bx_kmax\<close> is the largest key of the identifier type.\<close>

record bp_cfg =
  bx_layout :: bp_layout
  bx_search :: search_ops
  bx_nodes :: "(bp_node inline_store, bp_node) vec_cfg"
  bx_meta :: "(bp_header parallel_store, bp_header) vec_cfg"
  bx_kmax :: nat

record bp_tree =
  bt_nodes :: "(bp_node inline_store, bp_node) vec"
  bt_meta :: "(bp_header parallel_store, bp_header) vec"

record bp_token =
  bk_nodes :: vec_token
  bk_meta :: vec_token

abbreviation "bx_nil B \<equiv> bl_nil (bx_layout B)"

section \<open>Header and nodes\<close>

definition bp_get_header :: "bp_cfg \<Rightarrow> bp_tree \<Rightarrow> bp_header res" where
  "bp_get_header B t = vec_get (bx_meta B) 0 (bt_meta t)"

definition bp_root :: "bp_cfg \<Rightarrow> bp_tree \<Rightarrow> nat res" where
  "bp_root B t = rbind (bp_get_header B t) (\<lambda>h. Inr (bh_root h))"

definition bp_last_leaf :: "bp_cfg \<Rightarrow> bp_tree \<Rightarrow> nat res" where
  "bp_last_leaf B t = rbind (bp_get_header B t) (\<lambda>h. Inr (bh_last_leaf h))"

definition bp_nkeys :: "bp_cfg \<Rightarrow> bp_tree \<Rightarrow> nat res" where
  "bp_nkeys B t = rbind (bp_get_header B t) (\<lambda>h. Inr (bh_nkeys h))"

definition bp_set_header :: "bp_cfg \<Rightarrow> bp_header \<Rightarrow> bp_tree \<Rightarrow> bp_tree res" where
  "bp_set_header B h t = rbind (vec_set (bx_meta B) 0 h (bt_meta t)) (\<lambda>m. Inr (t\<lparr>bt_meta := m\<rparr>))"

definition bp_set_root :: "bp_cfg \<Rightarrow> nat \<Rightarrow> bp_tree \<Rightarrow> bp_tree res" where
  "bp_set_root B v t = rbind (bp_get_header B t) (\<lambda>h. bp_set_header B (h\<lparr>bh_root := v\<rparr>) t)"

definition bp_set_last_leaf :: "bp_cfg \<Rightarrow> nat \<Rightarrow> bp_tree \<Rightarrow> bp_tree res" where
  "bp_set_last_leaf B v t = rbind (bp_get_header B t) (\<lambda>h. bp_set_header B (h\<lparr>bh_last_leaf := v\<rparr>) t)"

definition bp_set_nkeys :: "bp_cfg \<Rightarrow> nat \<Rightarrow> bp_tree \<Rightarrow> bp_tree res" where
  "bp_set_nkeys B v t = rbind (bp_get_header B t) (\<lambda>h. bp_set_header B (h\<lparr>bh_nkeys := v\<rparr>) t)"

definition bp_get_node :: "bp_cfg \<Rightarrow> nat \<Rightarrow> bp_tree \<Rightarrow> bp_node res" where
  "bp_get_node B idx t = vec_get (bx_nodes B) idx (bt_nodes t)"

definition bp_set_node :: "bp_cfg \<Rightarrow> nat \<Rightarrow> bp_node \<Rightarrow> bp_tree \<Rightarrow> bp_tree res" where
  "bp_set_node B idx n t = rbind (vec_set (bx_nodes B) idx n (bt_nodes t)) (\<lambda>v. Inr (t\<lparr>bt_nodes := v\<rparr>))"

definition bp_is_empty :: "bp_cfg \<Rightarrow> bp_tree \<Rightarrow> bool res" where
  "bp_is_empty B t = rbind (bp_nkeys B t) (\<lambda>n. Inr (n = 0))"

definition bp_len :: "bp_cfg \<Rightarrow> bp_tree \<Rightarrow> nat res" where
  "bp_len B t = bp_nkeys B t"

text \<open>\<open>alloc_leaf\<close> and \<open>alloc_internal\<close>.\<close>

definition bp_alloc :: "bp_cfg \<Rightarrow> bp_node \<Rightarrow> bp_tree \<Rightarrow> (nat \<times> bp_tree) res" where
  "bp_alloc B n t =
    rbind (vec_len (bx_nodes B) (bt_nodes t)) (\<lambda>idx.
    rbind (rassert (idx < bx_nil B) ArenaExhausted) (\<lambda>_.
    rbind (vec_push (bx_nodes B) n (bt_nodes t)) (\<lambda>v. Inr (idx, t\<lparr>bt_nodes := v\<rparr>))))"

definition bp_alloc_leaf :: "bp_cfg \<Rightarrow> bp_tree \<Rightarrow> (nat \<times> bp_tree) res" where
  "bp_alloc_leaf B t = bp_alloc B (new_leaf (bx_layout B)) t"

definition bp_alloc_internal :: "bp_cfg \<Rightarrow> bp_tree \<Rightarrow> (nat \<times> bp_tree) res" where
  "bp_alloc_internal B t = bp_alloc B (new_internal (bx_layout B)) t"

fun bp_first_key_word :: "bp_cfg \<Rightarrow> nat \<Rightarrow> nat \<Rightarrow> bp_tree \<Rightarrow> nat res" where
  "bp_first_key_word B 0 idx t = Inl Diverge"
| "bp_first_key_word B (Suc f) idx t =
    rbind (bp_get_node B idx t) (\<lambda>n.
    if is_leaf n then nth_res (bn_data n) 0
    else rbind (internal_child (bx_layout B) 0 n) (\<lambda>c. bp_first_key_word B f c t))"

section \<open>Construction\<close>

text \<open>The two vectors of a new set, before the header is pushed.\<close>

definition bp_vectors :: "32 word \<Rightarrow> bp_tree \<times> 32 word" where
  "bp_vectors counter =
    (let (ns, c1) = veci_new counter; (ms, c2) = vecp_new c1 in (\<lparr>bt_nodes = ns, bt_meta = ms\<rparr>, c2))"

definition bp_push_header :: "bp_cfg \<Rightarrow> bp_tree \<Rightarrow> bp_tree res" where
  "bp_push_header B t =
    rbind (vec_push (bx_meta B) \<lparr>bh_root = bx_nil B, bh_last_leaf = bx_nil B, bh_nkeys = 0\<rparr> (bt_meta t)) (\<lambda>m. Inr (t\<lparr>bt_meta := m\<rparr>))"

text \<open>\<open>new\<close> on the new vectors.\<close>

definition bp_init :: "bp_cfg \<Rightarrow> bp_tree \<Rightarrow> bp_tree res" where
  "bp_init B t0 =
    rbind (bp_push_header B t0) (\<lambda>t.
    rbind (bp_alloc_leaf B t) (\<lambda>(r, t).
    rbind (bp_set_root B r t) (\<lambda>t.
    bp_set_last_leaf B r t)))"

definition bp_new :: "bp_cfg \<Rightarrow> 32 word \<Rightarrow> bp_tree res" where
  "bp_new B counter = bp_init B (fst (bp_vectors counter))"

text \<open>The three loops of \<open>from_sorted\<close>: the leaves, their links, and the levels above them.\<close>

fun bp_build_leaves :: "bp_cfg \<Rightarrow> nat list list \<Rightarrow> bp_tree \<Rightarrow> (nat list \<times> bp_tree) res" where
  "bp_build_leaves B [] t = Inr ([], t)"
| "bp_build_leaves B (chunk # cs) t =
    rbind (bp_alloc_leaf B t) (\<lambda>(idx, t).
    rbind (bp_get_node B idx t) (\<lambda>n.
    rbind (copy_into 0 (length chunk) chunk (bn_data n)) (\<lambda>d.
    rbind (bp_set_node B idx (set_count (length chunk) (n\<lparr>bn_data := d\<rparr>)) t) (\<lambda>t.
    rbind (bp_build_leaves B cs t) (\<lambda>(is, t). Inr (idx # is, t))))))"

fun bp_link_leaves :: "bp_cfg \<Rightarrow> nat list \<Rightarrow> bp_tree \<Rightarrow> bp_tree res" where
  "bp_link_leaves B (a # b # is) t =
    rbind (bp_get_node B a t) (\<lambda>n.
    rbind (bp_set_node B a (set_link b n) t) (\<lambda>t. bp_link_leaves B (b # is) t))"
| "bp_link_leaves B _ t = Inr t"

fun bp_sep_keys :: "bp_cfg \<Rightarrow> bp_tree \<Rightarrow> nat list \<Rightarrow> nat \<Rightarrow> bp_node \<Rightarrow> bp_node res" where
  "bp_sep_keys B t [] k n = Inr n"
| "bp_sep_keys B t (c # cs) k n =
    rbind (bp_first_key_word B (vec_fuel (bx_nodes B) (bt_nodes t)) c t) (\<lambda>w.
    rbind (upd_res (bn_data n) k w) (\<lambda>d. bp_sep_keys B t cs (k + 1) (n\<lparr>bn_data := d\<rparr>)))"

fun bp_write_children :: "bp_layout \<Rightarrow> nat \<Rightarrow> nat list \<Rightarrow> bp_node \<Rightarrow> bp_node res" where
  "bp_write_children L i [] n = Inr n"
| "bp_write_children L i (c # cs) n = rbind (set_internal_child L i c n) (\<lambda>n. bp_write_children L (i + 1) cs n)"

fun bp_build_level :: "bp_cfg \<Rightarrow> nat list list \<Rightarrow> bp_tree \<Rightarrow> (nat list \<times> bp_tree) res" where
  "bp_build_level B [] t = Inr ([], t)"
| "bp_build_level B (chunk # cs) t =
    rbind (bp_alloc_internal B t) (\<lambda>(idx, t).
    rbind (bp_get_node B idx t) (\<lambda>n.
    rbind (bp_sep_keys B t (tl chunk) 0 n) (\<lambda>n.
    rbind (bp_write_children (bx_layout B) 0 chunk (set_count (length chunk - 1) n)) (\<lambda>n.
    rbind (bp_set_node B idx n t) (\<lambda>t.
    rbind (bp_build_level B cs t) (\<lambda>(is, t). Inr (idx # is, t)))))))"

text \<open>A level has fewer nodes than the one below it, so their number is enough fuel.\<close>

fun bp_build_levels :: "bp_cfg \<Rightarrow> nat \<Rightarrow> nat list \<Rightarrow> bp_tree \<Rightarrow> (nat \<times> bp_tree) res" where
  "bp_build_levels B 0 children t = Inl Diverge"
| "bp_build_levels B (Suc f) children t =
    (if length children > 1 then
       rbind (bp_build_level B (chunks (bl_child_cap (bx_layout B)) children) t) (\<lambda>(next_level, t).
       bp_build_levels B f next_level t)
     else rbind (nth_res children 0) (\<lambda>r. Inr (r, t)))"

text \<open>\<open>from_sorted\<close> on the new vectors.  The keys are the raw words; \<open>debug_assert\<close> is not modelled.\<close>

definition bp_build :: "bp_cfg \<Rightarrow> nat list \<Rightarrow> bp_tree \<Rightarrow> bp_tree res" where
  "bp_build B keys t0 =
    (if keys = [] then bp_init B t0
     else
       rbind (bp_push_header B t0) (\<lambda>t.
       rbind (bp_set_nkeys B (length keys) t) (\<lambda>t.
       rbind (bp_build_leaves B (chunks (bl_leaf_cap (bx_layout B)) keys) t) (\<lambda>(leaf_indices, t).
       rbind (bp_link_leaves B leaf_indices t) (\<lambda>t.
       rbind (expect UnwrapNone (if leaf_indices = [] then None else Some (last leaf_indices))) (\<lambda>ll.
       rbind (bp_set_last_leaf B ll t) (\<lambda>t.
       if length leaf_indices = 1 then rbind (nth_res leaf_indices 0) (\<lambda>r. bp_set_root B r t)
       else
         rbind (bp_build_levels B (length leaf_indices) leaf_indices t) (\<lambda>(r, t). bp_set_root B r t))))))))"

definition bp_from_sorted :: "bp_cfg \<Rightarrow> nat list \<Rightarrow> 32 word \<Rightarrow> bp_tree res" where
  "bp_from_sorted B keys counter = bp_build B keys (fst (bp_vectors counter))"

section \<open>Insertion\<close>

text \<open>The keys in use of a node.\<close>

definition bp_keys :: "bp_node \<Rightarrow> nat list res" where
  "bp_keys n = slice_range 0 (bn_count n) (bn_data n)"

text \<open>Appending to the rightmost leaf, when the key is the new maximum and there is room.\<close>

definition bp_insert_fast :: "bp_cfg \<Rightarrow> nat \<Rightarrow> nat \<Rightarrow> bp_tree \<Rightarrow> bp_tree option res" where
  "bp_insert_fast B word ll t =
    rbind (bp_get_node B ll t) (\<lambda>leaf.
    let n = bn_count leaf in
    rbind (if n > 0 \<and> n < bl_leaf_cap (bx_layout B)
           then rbind (nth_res (bn_data leaf) (n - 1)) (\<lambda>x. Inr (word > x)) else Inr False) (\<lambda>append.
    if append then
      rbind (upd_res (bn_data leaf) n word) (\<lambda>d.
      rbind (bp_set_node B ll (set_count (n + 1) (leaf\<lparr>bn_data := d\<rparr>)) t) (\<lambda>t.
      rbind (bp_nkeys B t) (\<lambda>k.
      rbind (expect ArithOverflow (usize_checked_add k 1)) (\<lambda>k.
      rbind (bp_set_nkeys B k t) (\<lambda>t. Inr (Some t))))))
    else Inr None))"

definition MAX_PATH :: nat where
  "MAX_PATH = 24"

fun bp_descend :: "bp_cfg \<Rightarrow> nat \<Rightarrow> nat \<Rightarrow> nat \<Rightarrow> (nat \<times> nat) list \<Rightarrow> nat \<Rightarrow> bp_tree \<Rightarrow> (nat \<times> (nat \<times> nat) list \<times> nat) res" where
  "bp_descend B 0 word idx path dp t = Inl Diverge"
| "bp_descend B (Suc f) word idx path dp t =
    rbind (bp_get_node B idx t) (\<lambda>nd.
    if is_leaf nd then Inr (idx, path, dp)
    else
      rbind (bp_keys nd) (\<lambda>ks.
      let cp = find_gt (bx_search B) ks word in
      rbind (upd_res path dp (idx, cp)) (\<lambda>path.
      rbind (internal_child (bx_layout B) cp nd) (\<lambda>c.
      bp_descend B f word c path (dp + 1) t))))"

text \<open>The key goes into a leaf with room.\<close>

definition bp_leaf_insert :: "nat \<Rightarrow> nat \<Rightarrow> nat \<Rightarrow> bp_node \<Rightarrow> bp_node res" where
  "bp_leaf_insert pos n word leaf =
    rbind (copy_within pos n (pos + 1) (bn_data leaf)) (\<lambda>d.
    rbind (upd_res d pos word) (\<lambda>d. Inr (set_count (n + 1) (leaf\<lparr>bn_data := d\<rparr>))))"

text \<open>A full leaf is split; the key goes into the left or into the new right half.\<close>

definition bp_leaf_split :: "bp_layout \<Rightarrow> nat \<Rightarrow> nat \<Rightarrow> bp_node \<Rightarrow> bp_node \<Rightarrow> (bp_node \<times> bp_node) res" where
  "bp_leaf_split L pos word leaf right =
    (let leaf_cap = bl_leaf_cap L; mid = div_ceil leaf_cap 2; rc = leaf_cap - mid + 1 in
     rbind (slice_range 0 leaf_cap (bn_data leaf)) (\<lambda>old_data.
     if pos < mid then
       rbind (slice_range (mid - 1) leaf_cap old_data) (\<lambda>s.
       rbind (copy_into 0 rc s (bn_data right)) (\<lambda>rd.
       rbind (copy_within pos (mid - 1) (pos + 1) (bn_data leaf)) (\<lambda>d.
       rbind (upd_res d pos word) (\<lambda>d.
       Inr (set_count mid (leaf\<lparr>bn_data := d\<rparr>), set_count rc (right\<lparr>bn_data := rd\<rparr>))))))
     else
       let rpos = pos - mid; tail = leaf_cap - pos in
       rbind (slice_range mid pos old_data) (\<lambda>s.
       rbind (copy_into 0 rpos s (bn_data right)) (\<lambda>rd.
       rbind (upd_res rd rpos word) (\<lambda>rd.
       rbind (slice_range pos leaf_cap old_data) (\<lambda>s'.
       rbind (copy_into (rpos + 1) (rpos + 1 + tail) s' rd) (\<lambda>rd.
       Inr (set_count mid leaf, set_count rc (right\<lparr>bn_data := rd\<rparr>)))))))))"

text \<open>The loop \<open>for i in (cp + 1..=n).rev()\<close> that makes room among the children.\<close>

fun bp_shift_children :: "bp_layout \<Rightarrow> nat \<Rightarrow> nat \<Rightarrow> bp_node \<Rightarrow> bp_node res" where
  "bp_shift_children L cp 0 p = Inr p"
| "bp_shift_children L cp (Suc i) p =
    (if cp < Suc i then
       rbind (internal_child L (Suc i) p) (\<lambda>c.
       rbind (set_internal_child L (Suc i + 1) c p) (\<lambda>p. bp_shift_children L cp i p))
     else Inr p)"

definition bp_node_insert :: "bp_layout \<Rightarrow> nat \<Rightarrow> nat \<Rightarrow> nat \<Rightarrow> nat \<Rightarrow> bp_node \<Rightarrow> bp_node res" where
  "bp_node_insert L cp n pkey pchild p =
    rbind (copy_within cp n (cp + 1) (bn_data p)) (\<lambda>d.
    rbind (upd_res d cp pkey) (\<lambda>d.
    rbind (bp_shift_children L cp n (p\<lparr>bn_data := d\<rparr>)) (\<lambda>p.
    rbind (set_internal_child L (cp + 1) pchild p) (\<lambda>p. Inr (set_count (n + 1) p)))))"

text \<open>The loops that copy children between a node and the buffer.\<close>

fun bp_read_children :: "bp_layout \<Rightarrow> bp_node \<Rightarrow> nat \<Rightarrow> nat list \<Rightarrow> nat list \<Rightarrow> nat list res" where
  "bp_read_children L p off [] cb = Inr cb"
| "bp_read_children L p off (i # is) cb =
    rbind (internal_child L i p) (\<lambda>c. rbind (upd_res cb (i + off) c) (\<lambda>cb. bp_read_children L p off is cb))"

fun bp_put_children :: "bp_layout \<Rightarrow> nat list \<Rightarrow> nat \<Rightarrow> nat list \<Rightarrow> bp_node \<Rightarrow> bp_node res" where
  "bp_put_children L cb off [] p = Inr p"
| "bp_put_children L cb off (i # is) p =
    rbind (nth_res cb (off + i)) (\<lambda>c. rbind (set_internal_child L i c p) (\<lambda>p. bp_put_children L cb off is p))"

text \<open>The buffers \<open>kb\<close> and \<open>cb\<close> of a split: the keys and children with the new ones in place.\<close>

definition bp_split_keys :: "bp_layout \<Rightarrow> nat \<Rightarrow> nat \<Rightarrow> nat \<Rightarrow> bp_node \<Rightarrow> nat list res" where
  "bp_split_keys L cp n pkey p =
    rbind (slice_range 0 cp (bn_data p)) (\<lambda>s.
    rbind (copy_into 0 cp s (replicate (bl_key_cap L + 1) 0)) (\<lambda>kb.
    rbind (upd_res kb cp pkey) (\<lambda>kb.
    rbind (slice_range cp n (bn_data p)) (\<lambda>s. copy_into (cp + 1) (n + 1) s kb))))"

definition bp_split_children :: "bp_layout \<Rightarrow> nat \<Rightarrow> nat \<Rightarrow> nat \<Rightarrow> bp_node \<Rightarrow> nat list res" where
  "bp_split_children L cp n pchild p =
    rbind (bp_read_children L p 0 [0 ..< cp + 1] (replicate (bl_child_cap L + 1) 0)) (\<lambda>cb.
    rbind (upd_res cb (cp + 1) pchild) (\<lambda>cb.
    bp_read_children L p 1 [cp + 1 ..< n + 1] cb))"

text \<open>The loop that carries a split upwards.\<close>

fun bp_propagate :: "bp_cfg \<Rightarrow> (nat \<times> nat) list \<Rightarrow> nat \<Rightarrow> nat \<Rightarrow> nat \<Rightarrow> bp_tree \<Rightarrow> bp_tree res" where
  "bp_propagate B path 0 pkey pchild t =
    rbind (bp_alloc_internal B t) (\<lambda>(new_root, t).
    rbind (bp_get_node B new_root t) (\<lambda>rnode.
    rbind (upd_res (bn_data rnode) 0 pkey) (\<lambda>d.
    rbind (bp_root B t) (\<lambda>root.
    rbind (set_internal_child (bx_layout B) 0 root (set_count 1 (rnode\<lparr>bn_data := d\<rparr>))) (\<lambda>rnode.
    rbind (set_internal_child (bx_layout B) 1 pchild rnode) (\<lambda>rnode.
    rbind (bp_set_node B new_root rnode t) (\<lambda>t. bp_set_root B new_root t)))))))"
| "bp_propagate B path (Suc dp) pkey pchild t =
    rbind (nth_res path dp) (\<lambda>(pidx, cp).
    rbind (bp_get_node B pidx t) (\<lambda>pnode.
    let n = bn_count pnode; L = bx_layout B in
    if n < bl_key_cap L then
      rbind (bp_node_insert L cp n pkey pchild pnode) (\<lambda>pnode. bp_set_node B pidx pnode t)
    else
      let key_cap = bl_key_cap L; imid = key_cap div 2; rk = n - imid in
      rbind (bp_alloc_internal B t) (\<lambda>(new_int, t).
      rbind (bp_split_keys L cp n pkey pnode) (\<lambda>kb.
      rbind (bp_split_children L cp n pchild pnode) (\<lambda>cb.
      rbind (slice_range 0 imid kb) (\<lambda>s.
      rbind (copy_into 0 imid s (bn_data pnode)) (\<lambda>d.
      rbind (bp_put_children L cb 0 [0 ..< imid + 1] (set_count imid (pnode\<lparr>bn_data := d\<rparr>))) (\<lambda>pnode.
      rbind (bp_set_node B pidx pnode t) (\<lambda>t.
      rbind (bp_get_node B new_int t) (\<lambda>rnode.
      rbind (slice_range (imid + 1) (n + 1) kb) (\<lambda>s.
      rbind (copy_into 0 rk s (bn_data rnode)) (\<lambda>d.
      rbind (bp_put_children L cb (imid + 1) [0 ..< rk + 1] (set_count rk (rnode\<lparr>bn_data := d\<rparr>))) (\<lambda>rnode.
      rbind (bp_set_node B new_int rnode t) (\<lambda>t.
      rbind (nth_res kb imid) (\<lambda>pkey.
      bp_propagate B path dp pkey new_int t)))))))))))))))"

definition bp_insert_split :: "bp_cfg \<Rightarrow> nat \<Rightarrow> nat \<Rightarrow> bp_node \<Rightarrow> nat \<Rightarrow> (nat \<times> nat) list \<Rightarrow> nat \<Rightarrow> bp_tree \<Rightarrow> bp_tree res" where
  "bp_insert_split B pos word leaf idx path dp t =
    rbind (bp_alloc_leaf B t) (\<lambda>(new_right, t).
    rbind (bp_get_node B new_right t) (\<lambda>right.
    rbind (bp_leaf_split (bx_layout B) pos word leaf right) (\<lambda>(leaf, right).
    let old_link = bn_link leaf in
    rbind (bp_set_node B idx (set_link new_right leaf) t) (\<lambda>t.
    rbind (bp_set_node B new_right (set_link old_link right) t) (\<lambda>t.
    rbind (if old_link = bx_nil B then bp_set_last_leaf B new_right t else Inr t) (\<lambda>t.
    rbind (bp_get_node B new_right t) (\<lambda>r.
    rbind (nth_res (bn_data r) 0) (\<lambda>pkey.
    bp_propagate B path dp pkey new_right t))))))))"

definition bp_insert_slow :: "bp_cfg \<Rightarrow> nat \<Rightarrow> bp_tree \<Rightarrow> (bool \<times> bp_tree) res" where
  "bp_insert_slow B word t =
    rbind (bp_root B t) (\<lambda>root.
    rbind (bp_descend B (MAX_PATH + 1) word root (replicate MAX_PATH (0, 0)) 0 t) (\<lambda>(idx, path, dp).
    rbind (bp_get_node B idx t) (\<lambda>leaf.
    let n = bn_count leaf in
    rbind (bp_keys leaf) (\<lambda>ks.
    let pos = find_ge (bx_search B) ks word in
    rbind (if pos < n then rbind (nth_res (bn_data leaf) pos) (\<lambda>x. Inr (x = word)) else Inr False) (\<lambda>found.
    if found then Inr (False, t)
    else
      rbind (bp_nkeys B t) (\<lambda>k.
      rbind (expect ArithOverflow (usize_checked_add k 1)) (\<lambda>k.
      rbind (bp_set_nkeys B k t) (\<lambda>t.
      rbind (if n < bl_leaf_cap (bx_layout B)
             then rbind (bp_leaf_insert pos n word leaf) (\<lambda>leaf. bp_set_node B idx leaf t)
             else bp_insert_split B pos word leaf idx path dp t) (\<lambda>t. Inr (True, t))))))))))"

definition bp_insert :: "bp_cfg \<Rightarrow> nat \<Rightarrow> bp_tree \<Rightarrow> (bool \<times> bp_tree) res" where
  "bp_insert B word t =
    rbind (bp_last_leaf B t) (\<lambda>ll.
    rbind (if ll \<noteq> bx_nil B then bp_insert_fast B word ll t else Inr None) (\<lambda>r.
    case r of Some t' \<Rightarrow> Inr (True, t') | None \<Rightarrow> bp_insert_slow B word t))"

section \<open>Cursors\<close>

fun bp_seek_leaf :: "bp_cfg \<Rightarrow> nat \<Rightarrow> nat \<Rightarrow> nat \<Rightarrow> bp_tree \<Rightarrow> (nat \<times> nat) res" where
  "bp_seek_leaf B 0 word idx t = Inl Diverge"
| "bp_seek_leaf B (Suc f) word idx t =
    rbind (bp_get_node B idx t) (\<lambda>n.
    rbind (bp_keys n) (\<lambda>ks.
    if is_leaf n then Inr (idx, find_ge (bx_search B) ks word)
    else rbind (internal_child (bx_layout B) (find_gt (bx_search B) ks word) n) (\<lambda>c. bp_seek_leaf B f word c t)))"

record bp_cursor =
  bc_node :: nat
  bc_pos :: nat

definition bp_cursor_of :: "bp_cfg \<Rightarrow> bp_cursor" where
  "bp_cursor_of B = \<lparr>bc_node = bx_nil B, bc_pos = 0\<rparr>"

text \<open>The shortcuts of \<open>seek\<close>: the current leaf and the next one.\<close>

definition bp_seek_near :: "bp_cfg \<Rightarrow> bp_tree \<Rightarrow> nat \<Rightarrow> bp_cursor \<Rightarrow> bp_cursor option res" where
  "bp_seek_near B t word c =
    (if bc_node c = bx_nil B then Inr None
     else
       rbind (bp_get_node B (bc_node c) t) (\<lambda>cur.
       let n = bn_count cur in
       if n = 0 then Inr None
       else
         rbind (nth_res (bn_data cur) 0) (\<lambda>first.
         rbind (nth_res (bn_data cur) (n - 1)) (\<lambda>last.
         if first \<le> word \<and> word \<le> last then
           rbind (bp_keys cur) (\<lambda>ks. Inr (Some (c\<lparr>bc_pos := find_ge (bx_search B) ks word\<rparr>)))
         else if word > last \<and> bn_link cur \<noteq> bx_nil B then
           rbind (bp_get_node B (bn_link cur) t) (\<lambda>nxt.
           let nn = bn_count nxt in
           if nn = 0 then Inr None
           else
             rbind (nth_res (bn_data nxt) (nn - 1)) (\<lambda>x.
             if word \<le> x then
               rbind (bp_keys nxt) (\<lambda>ks.
               Inr (Some (c\<lparr>bc_pos := find_ge (bx_search B) ks word, bc_node := bn_link cur\<rparr>)))
             else Inr None))
         else Inr None))))"

definition bp_seek :: "bp_cfg \<Rightarrow> bp_tree \<Rightarrow> nat \<Rightarrow> bp_cursor \<Rightarrow> bp_cursor res" where
  "bp_seek B t word c =
    rbind (bp_root B t) (\<lambda>root.
    if root = bx_nil B then Inr c
    else
      rbind (bp_seek_near B t word c) (\<lambda>r.
      case r of Some c' \<Rightarrow> Inr c'
      | None \<Rightarrow>
          rbind (bp_seek_leaf B (vec_fuel (bx_nodes B) (bt_nodes t)) word root t) (\<lambda>(leaf, pos).
          rbind (bp_get_node B leaf t) (\<lambda>n.
          if pos < bn_count n then Inr \<lparr>bc_node = leaf, bc_pos = pos\<rparr>
          else if bn_link n = bx_nil B then Inr (c\<lparr>bc_node := bx_nil B\<rparr>)
          else Inr \<lparr>bc_node = bn_link n, bc_pos = 0\<rparr>))))"

text \<open>\<open>K::from_usize\<close> panics beyond the identifier range.\<close>

definition bp_key :: "bp_cfg \<Rightarrow> bp_tree \<Rightarrow> bp_cursor \<Rightarrow> nat option res" where
  "bp_key B t c =
    (if bc_node c = bx_nil B then Inr None
     else
       rbind (bp_get_node B (bc_node c) t) (\<lambda>n.
       if bc_pos c < bn_count n then
         rbind (nth_res (bn_data n) (bc_pos c)) (\<lambda>w. rbind (expect IdRange (idx_try (bx_kmax B) w)) (\<lambda>k. Inr (Some k)))
       else Inr None))"

definition bp_step :: "bp_cfg \<Rightarrow> bp_tree \<Rightarrow> bp_cursor \<Rightarrow> bp_cursor res" where
  "bp_step B t c =
    (if bc_node c = bx_nil B then Inr c
     else
       rbind (bp_get_node B (bc_node c) t) (\<lambda>n.
       if bc_pos c + 1 \<ge> bn_count n then Inr \<lparr>bc_node = bn_link n, bc_pos = 0\<rparr>
       else Inr (c\<lparr>bc_pos := bc_pos c + 1\<rparr>)))"

definition bp_seek_first :: "bp_cfg \<Rightarrow> bp_tree \<Rightarrow> bp_cursor \<Rightarrow> bp_cursor res" where
  "bp_seek_first B t c = bp_seek B t 0 c"

text \<open>\<open>impl SortedCursor for BPlusCursor\<close>: a cursor holds the tree it borrows.\<close>

definition bp_cursor_ops :: "bp_cfg \<Rightarrow> (bp_tree \<times> bp_cursor, nat) cursor_ops" where
  "bp_cursor_ops B = \<lparr>cu_key = (\<lambda>(t, c). bp_key B t c),
     cu_step = (\<lambda>(t, c). rbind (bp_step B t c) (\<lambda>c. Inr (t, c))),
     cu_seek = (\<lambda>w (t, c). rbind (bp_seek B t w c) (\<lambda>c. Inr (t, c)))\<rparr>"

text \<open>A new cursor moved to the first key, as the clients of the tree open one.\<close>

definition bp_open :: "bp_cfg \<Rightarrow> bp_tree \<Rightarrow> (bp_tree \<times> bp_cursor) res" where
  "bp_open B t = rbind (bp_seek_first B t (bp_cursor_of B)) (\<lambda>c. Inr (t, c))"

section \<open>Marks\<close>

definition bp_mark :: "bp_cfg \<Rightarrow> shrink \<times> shrink \<Rightarrow> bp_tree \<Rightarrow> (bp_token \<times> bp_tree) res" where
  "bp_mark B sh t =
    rbind (vec_mark (bx_nodes B) (fst sh) (bt_nodes t)) (\<lambda>(tn, ns).
    rbind (vec_mark (bx_meta B) (snd sh) (bt_meta t)) (\<lambda>(tm, ms).
    Inr (\<lparr>bk_nodes = tn, bk_meta = tm\<rparr>, \<lparr>bt_nodes = ns, bt_meta = ms\<rparr>)))"

definition bp_restore :: "bp_cfg \<Rightarrow> bp_token \<Rightarrow> bp_tree \<Rightarrow> bp_tree res" where
  "bp_restore B token t =
    rbind (vec_restore (bx_nodes B) (bk_nodes token) (bt_nodes t)) (\<lambda>ns.
    rbind (vec_restore (bx_meta B) (bk_meta token) (bt_meta t)) (\<lambda>ms.
    Inr \<lparr>bt_nodes = ns, bt_meta = ms\<rparr>))"

section \<open>Configurations\<close>

text \<open>The arena index is the word of \<open>NIL\<close>; the header vector has \<open>u32\<close> indices.\<close>

definition bp_cfg_of :: "bp_layout \<Rightarrow> search_ops \<Rightarrow> bool \<Rightarrow> nat \<Rightarrow> bp_cfg" where
  "bp_cfg_of L S track kmax = \<lparr>bx_layout = L, bx_search = S,
     bx_nodes = veci_cfg (bp_node_tagged (bl_data_len L)) track (bl_nil L),
     bx_meta = vecp_cfg track (2 ^ 32 - 1) bp_header_default, bx_kmax = kmax\<rparr>"

end
