(* ===== verification/Bplus_Shape.thy ===== *)
theory Bplus_Shape
  imports Bplus_Node "HOL-Library.Multiset"
begin

text \<open>
  The trees that an arena of nodes represents.  A tree is flattened to one sequence of its keys and
  separators in order; that this sequence ascends is the whole ordering invariant, and it does not see how
  the sequence is cut into nodes, so a split changes nothing.  Frames are the way from a node up to the root.
\<close>

section \<open>Keys and separators in order\<close>

datatype item = Key nat | Sep nat

fun before :: "item \<Rightarrow> item \<Rightarrow> bool" where
  "before (Key x) (Key y) = (x < y)"
| "before (Key x) (Sep k) = (x < k)"
| "before (Sep k) (Key x) = (k \<le> x)"
| "before (Sep k) (Sep l) = (k \<le> l)"

abbreviation ascending :: "item list \<Rightarrow> bool" where
  "ascending \<equiv> sorted_wrt before"

lemma before_trans: "before a b \<Longrightarrow> before b c \<Longrightarrow> before a c"
  by (cases a; cases b; cases c) auto

fun item_keys :: "item list \<Rightarrow> nat list" where
  "item_keys [] = []"
| "item_keys (Key x # is) = x # item_keys is"
| "item_keys (Sep k # is) = item_keys is"

lemma item_keys_append [simp]: "item_keys (is @ js) = item_keys is @ item_keys js"
  by (induction "is" rule: item_keys.induct) auto

lemma item_keys_map [simp]: "item_keys (map Key ks) = ks"
  by (induction ks) auto

lemma item_keys_set: "x \<in> set (item_keys is) \<longleftrightarrow> Key x \<in> set is"
  by (induction "is" rule: item_keys.induct) auto

lemma item_keys_sorted: "ascending is \<Longrightarrow> sorted_wrt (<) (item_keys is)"
  by (induction "is" rule: item_keys.induct) (fastforce simp: item_keys_set)+

lemma ascending_map_Key [simp]: "ascending (map Key ks) \<longleftrightarrow> sorted_wrt (<) ks"
  by (simp add: sorted_wrt_map)

text \<open>Where a key belongs.\<close>

definition fits :: "nat \<Rightarrow> item list \<Rightarrow> item list \<Rightarrow> bool" where
  "fits w P Q \<longleftrightarrow> (\<forall>a \<in> set P. before a (Key w)) \<and> (\<forall>b \<in> set Q. before (Key w) b)"

lemma ascending_insert: "ascending (P @ Q) \<Longrightarrow> fits w P Q \<Longrightarrow> ascending (P @ Key w # Q)"
  by (auto simp: sorted_wrt_append fits_def)

lemma ascending_sep: "ascending (P @ Key k # Q) \<Longrightarrow> ascending (P @ Sep k # Key k # Q)"
  using before_trans [of _ "Key k" "Sep k"]
proof -
  assume a: "ascending (P @ Key k # Q)"
  have "before x (Sep k)" if "before x (Key k)" for x using that by (cases x) auto
  moreover have "before (Sep k) y" if "before (Key k) y" for y using that by (cases y) auto
  ultimately show ?thesis using a by (auto simp: sorted_wrt_append)
qed

lemma fits_snoc_left:
  assumes "ascending (P @ [Key x])" "x < w"
  shows "fits w (P @ [Key x]) []"
  using assms before_trans [of _ "Key x" "Key w"] by (auto simp: fits_def sorted_wrt_append)

section \<open>Trees\<close>

datatype btree = Lf nat "nat list" | Nd nat "nat list" "btree list"

fun rt :: "btree \<Rightarrow> nat" where
  "rt (Lf i ks) = i"
| "rt (Nd i ks cs) = i"

fun idxs :: "btree \<Rightarrow> nat list" where
  "idxs (Lf i ks) = [i]"
| "idxs (Nd i ks cs) = i # concat (map idxs cs)"

definition seps_left :: "nat list \<Rightarrow> item list list \<Rightarrow> item list" where
  "seps_left ks cs = concat (map2 (\<lambda>k c. c @ [Sep k]) ks cs)"

definition seps_right :: "nat list \<Rightarrow> item list list \<Rightarrow> item list" where
  "seps_right ks cs = concat (map2 (\<lambda>k c. Sep k # c) ks cs)"

text \<open>Children and separators interleaved; a node has one child more than separators.\<close>

fun weave :: "nat list \<Rightarrow> item list list \<Rightarrow> item list" where
  "weave ks [] = []"
| "weave ks (c # cs) = c @ seps_right ks cs"

fun items :: "btree \<Rightarrow> item list" where
  "items (Lf i ks) = map Key ks"
| "items (Nd i ks cs) = weave ks (map items cs)"

definition keys :: "btree \<Rightarrow> nat list" where
  "keys t = item_keys (items t)"

fun leaves :: "btree \<Rightarrow> (nat \<times> nat list) list" where
  "leaves (Lf i ks) = [(i, ks)]"
| "leaves (Nd i ks cs) = concat (map leaves cs)"

lemma seps_simps [simp]:
  "seps_left [] [] = []" "seps_right [] [] = []"
  "seps_left (k # ks) (c # cs) = c @ Sep k # seps_left ks cs"
  "seps_right (k # ks) (c # cs) = Sep k # c @ seps_right ks cs"
  by (simp_all add: seps_left_def seps_right_def)

lemma seps_append [simp]:
  "length ks = length cs \<Longrightarrow> seps_left (ks @ ks') (cs @ cs') = seps_left ks cs @ seps_left ks' cs'"
  "length ks = length cs \<Longrightarrow> seps_right (ks @ ks') (cs @ cs') = seps_right ks cs @ seps_right ks' cs'"
  by (simp_all add: seps_left_def seps_right_def)

lemma seps_shift: "length ks = length cs \<Longrightarrow> c @ seps_right ks cs = seps_left ks (butlast (c # cs)) @ last (c # cs)"
  by (induction ks cs arbitrary: c rule: list_induct2) auto

lemma weave_mid:
  assumes "length ka = length As" "length kb = length Bs"
  shows "weave (ka @ kb) (As @ c # Bs) = seps_left ka As @ c @ seps_right kb Bs"
proof (cases As)
  case Nil
  then show ?thesis using assms by simp
next
  case (Cons a As')
  then have "length (butlast ka) = length As'" "ka \<noteq> []" using assms by auto
  have "length ka = length (As' @ [c])" using Cons assms by simp
  then have "weave (ka @ kb) (As @ c # Bs) = a @ seps_right (ka @ kb) ((As' @ [c]) @ Bs)" using Cons by simp
  also have "\<dots> = (a @ seps_right ka (As' @ [c])) @ seps_right kb Bs"
    using \<open>length ka = length (As' @ [c])\<close> by (simp del: append_assoc add: append_assoc [symmetric])
  also have "a @ seps_right ka (As' @ [c]) = seps_left ka As @ c"
    using seps_shift [of ka "As' @ [c]" a] \<open>length ka = length (As' @ [c])\<close> Cons by (simp add: butlast_append)
  finally show ?thesis by simp
qed

text \<open>A split of a node, and a new root, leave the sequence as it is.\<close>

lemma weave_split:
  assumes "length ka + 1 = length As" "length kb + 1 = length Bs"
  shows "weave (ka @ k # kb) (As @ Bs) = weave ka As @ Sep k # weave kb Bs"
proof -
  obtain a As' b Bs' where e: "As = a # As'" "Bs = b # Bs'" "length ka = length As'" "length kb = length Bs'"
    using assms by (cases As; cases Bs) auto
  then show ?thesis by simp
qed

section \<open>Shape\<close>

fun hgt :: "btree \<Rightarrow> nat" where
  "hgt (Lf i ks) = 0"
| "hgt (Nd i ks []) = 1"
| "hgt (Nd i ks (c # cs)) = Suc (hgt c)"

text \<open>Every node has one child more than separators, and the leaves are at one depth \<open>h\<close>.\<close>

fun shaped :: "nat \<Rightarrow> btree \<Rightarrow> bool" where
  "shaped h (Lf i ks) = (h = 0)"
| "shaped h (Nd i ks cs) = (h \<noteq> 0 \<and> length cs = Suc (length ks) \<and> (\<forall>c \<in> set cs. shaped (h - 1) c))"

text \<open>
  How full the nodes are: \<open>lm\<close> keys in a leaf and \<open>km\<close> separators in a node at least, except on the rightmost
  path (\<open>r\<close>), where a leaf has at least one key.  Bulk loading leaves the rightmost path under-full.
\<close>

fun fill :: "nat \<Rightarrow> nat \<Rightarrow> bool \<Rightarrow> btree \<Rightarrow> bool" and fills :: "nat \<Rightarrow> nat \<Rightarrow> bool \<Rightarrow> btree list \<Rightarrow> bool" where
  "fill lm km r (Lf i ks) = (ks \<noteq> [] \<and> (r \<or> lm \<le> length ks))"
| "fill lm km r (Nd i ks cs) = ((r \<or> km \<le> length ks) \<and> fills lm km r cs)"
| "fills lm km r [] = True"
| "fills lm km r [c] = fill lm km r c"
| "fills lm km r (c # d # cs) = (fill lm km False c \<and> fills lm km r (d # cs))"

lemma fills_append:
  "fills lm km r (cs @ ds) \<longleftrightarrow> (if ds = [] then fills lm km r cs else (\<forall>c \<in> set cs. fill lm km False c) \<and> fills lm km r ds)"
  by (induction cs rule: induct_list012) (auto simp: neq_Nil_conv)

lemma fills_False: "fills lm km False cs \<longleftrightarrow> (\<forall>c \<in> set cs. fill lm km False c)"
  by (induction cs rule: induct_list012) auto

lemma fill_mono: "fill lm km False t \<Longrightarrow> fill lm km r t" and fills_mono: "fills lm km False cs \<Longrightarrow> fills lm km r cs"
  by (induction lm km False t and lm km False cs rule: fill_fills.induct) auto

lemma leaves_ne: "shaped h t \<Longrightarrow> leaves t \<noteq> []"
  by (induction h t rule: shaped.induct) (auto simp: Suc_length_conv)

lemma keys_leaves: "shaped h t \<Longrightarrow> keys t = concat (map snd (leaves t))"
proof (induction h t rule: shaped.induct)
  case (2 h i ks cs)
  have kids: "item_keys (items c) = concat (map snd (leaves c))" if "c \<in> set cs" for c
    using 2 that by (simp add: keys_def)
  have w: "item_keys (weave ks ds) = concat (map item_keys ds)" if l: "length ds = Suc (length ks)" for ds
  proof -
    obtain d ds' where d: "ds = d # ds'" "length ks = length ds'" using l by (cases ds) auto
    from d(2) have "item_keys (seps_right ks ds') = concat (map item_keys ds')" by (induction rule: list_induct2) auto
    then show ?thesis using d(1) by simp
  qed
  have "keys (Nd i ks cs) = concat (map (\<lambda>c. item_keys (items c)) cs)"
    using 2(2) w [of "map items cs"] by (simp add: keys_def comp_def)
  also have "\<dots> = concat (map (\<lambda>c. concat (map snd (leaves c))) cs)" using kids by (simp cong: map_cong)
  also have "\<dots> = concat (map snd (leaves (Nd i ks cs)))" by (induction cs) auto
  finally show ?case .
qed (simp add: keys_def)

section \<open>Frames\<close>

datatype frame = Fr nat "nat list" "btree list" "nat list" "btree list"

fun plug :: "frame \<Rightarrow> btree \<Rightarrow> btree" where
  "plug (Fr i ka As kb Bs) t = Nd i (ka @ kb) (As @ t # Bs)"

fun fok :: "frame \<Rightarrow> bool" where
  "fok (Fr i ka As kb Bs) = (length ka = length As \<and> length kb = length Bs)"

fun fidx :: "frame \<Rightarrow> nat" where
  "fidx (Fr i ka As kb Bs) = i"

fun fpos :: "frame \<Rightarrow> nat \<times> nat" where
  "fpos (Fr i ka As kb Bs) = (i, length As)"

fun pre :: "frame \<Rightarrow> item list" where
  "pre (Fr i ka As kb Bs) = seps_left ka (map items As)"

fun post :: "frame \<Rightarrow> item list" where
  "post (Fr i ka As kb Bs) = seps_right kb (map items Bs)"

fun plugs :: "frame list \<Rightarrow> btree \<Rightarrow> btree" where
  "plugs [] t = t"
| "plugs (f # fs) t = plugs fs (plug f t)"

fun pres :: "frame list \<Rightarrow> item list" where
  "pres [] = []"
| "pres (f # fs) = pres fs @ pre f"

fun posts :: "frame list \<Rightarrow> item list" where
  "posts [] = []"
| "posts (f # fs) = post f @ posts fs"

text \<open>Everything of the frames but the hole: the indices, and the leaves before and after.\<close>

fun frame_idxs :: "frame \<Rightarrow> nat list" where
  "frame_idxs (Fr i ka As kb Bs) = i # concat (map idxs As) @ concat (map idxs Bs)"

definition frames_idxs :: "frame list \<Rightarrow> nat list" where
  "frames_idxs fs = concat (map frame_idxs fs)"

fun leaves_before :: "frame list \<Rightarrow> (nat \<times> nat list) list" where
  "leaves_before [] = []"
| "leaves_before (Fr i ka As kb Bs # fs) = leaves_before fs @ concat (map leaves As)"

fun leaves_after :: "frame list \<Rightarrow> (nat \<times> nat list) list" where
  "leaves_after [] = []"
| "leaves_after (Fr i ka As kb Bs # fs) = concat (map leaves Bs) @ leaves_after fs"

lemma plugs_append [simp]: "plugs (fs @ gs) t = plugs gs (plugs fs t)"
  by (induction fs arbitrary: t) auto

lemma pres_append [simp]: "pres (fs @ gs) = pres gs @ pres fs"
  by (induction fs) auto

lemma posts_append [simp]: "posts (fs @ gs) = posts fs @ posts gs"
  by (induction fs) auto

lemma rt_plug [simp]: "rt (plug f t) = fidx f"
  by (cases f) simp

lemma items_plug: "fok f \<Longrightarrow> items (plug f t) = pre f @ items t @ post f"
  by (cases f) (simp add: weave_mid)

lemma items_plugs: "\<forall>f \<in> set fs. fok f \<Longrightarrow> items (plugs fs t) = pres fs @ items t @ posts fs"
  by (induction fs arbitrary: t) (auto simp: items_plug)

lemma leaves_plugs: "leaves (plugs fs t) = leaves_before fs @ leaves t @ leaves_after fs"
proof (induction fs arbitrary: t)
  case (Cons f fs)
  then show ?case by (cases f) simp
qed simp

lemma idxs_plugs: "mset (idxs (plugs fs t)) = mset (frames_idxs fs @ idxs t)"
proof (induction fs arbitrary: t)
  case (Cons f fs)
  then show ?case by (cases f) (simp add: frames_idxs_def ac_simps)
qed (simp add: frames_idxs_def)

section \<open>Representation in an arena\<close>

definition kid :: "bp_layout \<Rightarrow> bp_node \<Rightarrow> nat \<Rightarrow> nat" where
  "kid L n j = (if j < bl_key_cap L then bn_data n ! (bl_key_cap L + j) else bn_link n)"

definition holds :: "bp_layout \<Rightarrow> 8 word \<Rightarrow> nat list \<Rightarrow> bp_node \<Rightarrow> bool" where
  "holds L fl ks n \<longleftrightarrow> bn_flags n = fl \<and> bn_count n = length ks \<and> length (bn_data n) = bl_data_len L \<and>
    take (length ks) (bn_data n) = ks"

definition has_kids :: "bp_layout \<Rightarrow> nat list \<Rightarrow> bp_node \<Rightarrow> bool" where
  "has_kids L cs n \<longleftrightarrow> (\<forall>j < length cs. kid L n j = cs ! j)"

fun repr :: "bp_layout \<Rightarrow> bp_node list \<Rightarrow> btree \<Rightarrow> bool" where
  "repr L ns (Lf i ks) = (i < length ns \<and> holds L FLAG_LEAF ks (ns ! i) \<and> length ks \<le> bl_leaf_cap L)"
| "repr L ns (Nd i ks cs) = (i < length ns \<and> holds L 0 ks (ns ! i) \<and> length ks \<le> bl_key_cap L \<and>
    has_kids L (map rt cs) (ns ! i) \<and> (\<forall>c \<in> set cs. repr L ns c))"

fun frep :: "bp_layout \<Rightarrow> bp_node list \<Rightarrow> frame \<Rightarrow> nat \<Rightarrow> bool" where
  "frep L ns (Fr i ka As kb Bs) h = (i < length ns \<and> holds L 0 (ka @ kb) (ns ! i) \<and> length (ka @ kb) \<le> bl_key_cap L \<and>
    has_kids L (map rt As @ h # map rt Bs) (ns ! i) \<and> (\<forall>c \<in> set As. repr L ns c) \<and> (\<forall>c \<in> set Bs. repr L ns c))"

fun freps :: "bp_layout \<Rightarrow> bp_node list \<Rightarrow> frame list \<Rightarrow> nat \<Rightarrow> bool" where
  "freps L ns [] h = True"
| "freps L ns (f # fs) h = (frep L ns f h \<and> freps L ns fs (fidx f))"

lemma repr_plug: "repr L ns (plug f t) \<longleftrightarrow> frep L ns f (rt t) \<and> repr L ns t"
  by (cases f) auto

lemma repr_plugs: "repr L ns (plugs fs t) \<longleftrightarrow> freps L ns fs (rt t) \<and> repr L ns t"
  by (induction fs arbitrary: t) (auto simp: repr_plug)

lemma freps_append: "freps L ns (fs @ [f]) h \<longleftrightarrow> freps L ns fs h \<and> frep L ns f (if fs = [] then h else fidx (last fs))"
  by (induction fs arbitrary: h) auto

lemma repr_idxs: "repr L ns t \<Longrightarrow> i \<in> set (idxs t) \<Longrightarrow> i < length ns"
  by (induction L ns t rule: repr.induct) auto

lemma frames_idxs_simps [simp]:
  "frames_idxs [] = []" "frames_idxs (f # fs) = frame_idxs f @ frames_idxs fs" "frames_idxs (fs @ gs) = frames_idxs fs @ frames_idxs gs"
  by (simp_all add: frames_idxs_def)

lemma fidx_in [simp]: "fidx f \<in> set (frame_idxs f)"
  by (cases f) simp

lemma leaves_idxs: "p \<in> set (leaves t) \<Longrightarrow> fst p \<in> set (idxs t)"
  by (induction t) auto

lemma leaves_before_idxs: "p \<in> set (leaves_before fs) \<Longrightarrow> fst p \<in> set (frames_idxs fs)"
  by (induction fs rule: leaves_before.induct) (auto dest!: leaves_idxs)

lemma leaves_after_idxs: "p \<in> set (leaves_after fs) \<Longrightarrow> fst p \<in> set (frames_idxs fs)"
  by (induction fs rule: leaves_after.induct) (auto dest!: leaves_idxs)

text \<open>A node that a tree or a frame does not own may be written, and the arena may grow.\<close>

lemma tree_upd: "i \<notin> set (idxs t) \<Longrightarrow> repr L (ns[i := n]) t \<longleftrightarrow> repr L ns t"
  by (induction t) auto

lemma frep_upd: "i \<notin> set (frame_idxs f) \<Longrightarrow> frep L (ns[i := n]) f h \<longleftrightarrow> frep L ns f h"
  by (cases f) (auto simp: tree_upd)

lemma freps_upd: "i \<notin> set (frames_idxs fs) \<Longrightarrow> freps L (ns[i := n]) fs h \<longleftrightarrow> freps L ns fs h"
  by (induction fs arbitrary: h) (auto simp: frep_upd)

lemma repr_grow: "repr L ns t \<Longrightarrow> repr L (ns @ ms) t"
  by (induction L ns t rule: repr.induct) (auto simp: nth_append)

lemma frep_grow: "frep L ns f h \<Longrightarrow> frep L (ns @ ms) f h"
  by (cases f) (auto simp: repr_grow nth_append)

lemma freps_grow: "freps L ns fs h \<Longrightarrow> freps L (ns @ ms) fs h"
  by (induction fs arbitrary: h) (auto simp: frep_grow)

section \<open>The chain of leaves\<close>

fun chain :: "nat \<Rightarrow> (nat \<Rightarrow> nat) \<Rightarrow> nat list \<Rightarrow> bool" where
  "chain nil lk [] = True"
| "chain nil lk [i] = (lk i = nil)"
| "chain nil lk (i # j # is) = (lk i = j \<and> chain nil lk (j # is))"

lemma chain_cong: "(\<And>i. i \<in> set is \<Longrightarrow> lk i = lk' i) \<Longrightarrow> chain nil lk is = chain nil lk' is"
  by (induction "is" rule: induct_list012) auto

lemma chain_split: "chain nil lk (is @ i # js) \<Longrightarrow> lk i = (if js = [] then nil else hd js) \<and> chain nil lk (i # js)"
  by (induction "is" rule: induct_list012) (auto simp: neq_Nil_conv)

lemma chain_insert:
  assumes "chain nil lk (is @ i # js)" "distinct (is @ i # js)" "new \<notin> set (is @ i # js)"
    "lk' i = new" "lk' new = lk i" "\<And>j. j \<noteq> i \<Longrightarrow> j \<noteq> new \<Longrightarrow> lk' j = lk j"
  shows "chain nil lk' (is @ i # new # js)"
  using assms(1-3)
proof (induction "is" rule: induct_list012)
  case 1
  then have "chain nil lk' js \<longleftrightarrow> chain nil lk js" by (intro chain_cong assms(6)) auto
  then show ?case using 1 assms(4,5) by (cases js) auto
next
  case (2 x)
  then have "chain nil lk' js \<longleftrightarrow> chain nil lk js" by (intro chain_cong assms(6)) auto
  then show ?case using 2 assms(4-6) by (cases js) auto
qed (use assms(6) in auto)

section \<open>The way down to a key\<close>

fun chosen :: "nat \<Rightarrow> frame \<Rightarrow> bool" where
  "chosen w (Fr i ka As kb Bs) = (sorted (ka @ kb) \<and> length (takeWhile (\<lambda>k. k \<le> w) (ka @ kb)) = length ka)"

lemma seps_right_sorted: "length ks = length cs \<Longrightarrow> ascending (seps_right ks cs) \<Longrightarrow> sorted ks"
proof (induction ks cs rule: list_induct2)
  case (Cons k ks c cs)
  have sep: "Sep l \<in> set (seps_right ks cs)" if "l \<in> set ks" for l
    using \<open>length ks = length cs\<close> that by (induction ks cs rule: list_induct2) auto
  have "k \<le> l" if "l \<in> set ks" for l
  proof -
    have "\<forall>x \<in> set c \<union> set (seps_right ks cs). before (Sep k) x" using Cons.prems by simp
    then have "before (Sep k) (Sep l)" using sep [OF that] by blast
    then show ?thesis by simp
  qed
  then show ?case using Cons by (auto simp: sorted_wrt_append)
qed simp

lemma node_sorted:
  assumes "ascending (items (Nd i ks cs))" "length cs = Suc (length ks)"
  shows "sorted ks"
proof -
  obtain c cs' where "cs = c # cs'" "length ks = length (map items cs')" using assms(2) by (cases cs) auto
  then show ?thesis using assms(1) seps_right_sorted [of ks "map items cs'"] by (auto simp: sorted_wrt_append)
qed

lemma seps_left_before:
  assumes "length ka = length As" "ascending (seps_left ka As)" "\<forall>k \<in> set ka. k \<le> w" "a \<in> set (seps_left ka As)"
  shows "before a (Key w)"
proof (cases ka rule: rev_cases)
  case Nil
  then show ?thesis using assms by (simp add: seps_left_def)
next
  case (snoc ka' k)
  then obtain As' c where as: "As = As' @ [c]" "length ka' = length As'" using assms(1) by (cases As rule: rev_cases) auto
  then have e: "seps_left ka As = (seps_left ka' As' @ c) @ [Sep k]" using snoc by simp
  have "before a (Sep k) \<or> a = Sep k" using assms(2,4) unfolding e by (auto simp: sorted_wrt_append)
  then show ?thesis using assms(3) snoc before_trans [of a "Sep k" "Key w"] by auto
qed

lemma seps_right_after:
  assumes "length kb = length Bs" "ascending (seps_right kb Bs)" "\<forall>k \<in> set kb. w < k" "b \<in> set (seps_right kb Bs)"
  shows "before (Key w) b"
proof (cases kb)
  case Nil
  then show ?thesis using assms by (simp add: seps_right_def)
next
  case (Cons k kb')
  then obtain c Bs' where bs: "Bs = c # Bs'" using assms(1) by (cases Bs) auto
  have "before (Sep k) b \<or> b = Sep k" using assms(2,4) Cons bs by auto
  then show ?thesis using assms(3) Cons before_trans [of "Key w" "Sep k" b] by auto
qed

lemma way_down:
  assumes "shaped h t" "ascending (items t)"
  shows "\<exists>fs i ks. t = plugs fs (Lf i ks) \<and> length fs = h \<and> (\<forall>f \<in> set fs. fok f \<and> chosen w f) \<and> fits w (pres fs) (posts fs)"
  using assms
proof (induction h t rule: shaped.induct)
  case (1 h i ks)
  then show ?case by (intro exI [of _ "[]"]) (auto simp: fits_def)
next
  case (2 h i ks cs)
  let ?cp = "length (takeWhile (\<lambda>k. k \<le> w) ks)"
  define ka kb As c Bs where "ka = take ?cp ks" and "kb = drop ?cp ks" and "As = take ?cp cs" and "c = cs ! ?cp" and "Bs = drop (Suc ?cp) cs"
  have cp: "?cp \<le> length ks" by (rule length_takeWhile_le)
  have ks: "ks = ka @ kb" and cs: "cs = As @ c # Bs" and len: "length ka = length As" "length kb = length Bs" "length ka = ?cp"
    using cp 2(2) by (auto simp: ka_def kb_def As_def c_def Bs_def id_take_nth_drop [symmetric])
  let ?f = "Fr i ka As kb Bs"
  have srt: "sorted ks" using node_sorted 2 by simp
  have it: "items (Nd i ks cs) = pre ?f @ items c @ post ?f" using items_plug [of ?f c] len ks cs by simp
  have asc: "ascending (pre ?f)" "ascending (items c)" "ascending (post ?f)"
    using "2.prems"(2) unfolding it by (auto simp: sorted_wrt_append)
  obtain fs j ls where c': "c = plugs fs (Lf j ls)" "length fs = h - 1" "\<forall>f \<in> set fs. fok f \<and> chosen w f" "fits w (pres fs) (posts fs)"
    using "2.IH" [of c] "2.prems" asc(2) cs by auto
  have ka: "\<forall>k \<in> set ka. k \<le> w" unfolding ka_def by (metis set_takeWhileD takeWhile_eq_take)
  have kb: "\<forall>k \<in> set kb. w < k"
  proof
    fix k assume "k \<in> set kb"
    then obtain j where j: "j < length ks - ?cp" "k = ks ! (?cp + j)" by (auto simp: kb_def in_set_conv_nth)
    then have "?cp + j < length ks" by linarith
    moreover have "\<not> ks ! ?cp \<le> w" using nth_length_takeWhile [of "\<lambda>k. k \<le> w" ks] calculation by simp
    ultimately show "w < k" using sorted_nth_mono [OF srt, of ?cp "?cp + j"] j(2) by simp
  qed
  have "fits w (pre ?f) (post ?f)"
    using seps_left_before [of ka "map items As" w] seps_right_after [of kb "map items Bs" w] asc len ka kb
    by (auto simp: fits_def)
  then have "fits w (pres (fs @ [?f])) (posts (fs @ [?f]))" using c'(4) by (auto simp: fits_def)
  moreover have "chosen w ?f" "fok ?f" using srt ks len by simp_all
  ultimately show ?case
    using c' "2.prems"(1) ks cs by (intro exI [of _ "fs @ [?f]"] exI [of _ j] exI [of _ ls]) auto
qed

lemma last_leaf:
  assumes "shaped h t"
  shows "\<exists>fs i ks. t = plugs fs (Lf i ks) \<and> length fs = h \<and> (\<forall>f \<in> set fs. fok f) \<and> posts fs = [] \<and> leaves_after fs = []"
  using assms
proof (induction h t rule: shaped.induct)
  case (1 h i ks)
  then show ?case by (intro exI [of _ "[]"]) auto
next
  case (2 h i ks cs)
  obtain As c where cs: "cs = As @ [c]" "length As = length ks" using "2.prems" by (cases cs rule: rev_cases) auto
  obtain fs j ls where c': "c = plugs fs (Lf j ls)" "length fs = h - 1" "\<forall>f \<in> set fs. fok f" "posts fs = []" "leaves_after fs = []"
    using "2.IH" [of c] "2.prems" cs by auto
  have la: "leaves_after (fs @ [Fr i ks As [] []]) = leaves_after fs" by (induction fs rule: leaves_after.induct) auto
  show ?case
    using c' cs la "2.prems" by (intro exI [of _ "fs @ [Fr i ks As [] []]"] exI [of _ j] exI [of _ ls]) auto
qed

end
