(* ===== verification/Bplus_Steps.thy ===== *)
theory Bplus_Steps
  imports Bplus Bplus_Shape
begin

text \<open>
  What the edits of single nodes do: inserting into and splitting leaves and internal nodes, in terms of the
  keys and children that the nodes hold.
\<close>

section \<open>Inserting into a slice\<close>

definition insert_at :: "nat \<Rightarrow> 'a \<Rightarrow> 'a list \<Rightarrow> 'a list" where
  "insert_at pos x xs = take pos xs @ x # drop pos xs"

lemma length_insert_at [simp]: "length (insert_at pos x xs) = Suc (length xs)"
  by (simp add: insert_at_def)

lemma set_insert_at [simp]: "set (insert_at pos x xs) = insert x (set xs)"
  unfolding insert_at_def by (metis Un_insert_right append_take_drop_id list.simps(15) set_append)

lemma insert_at_append: "length As = pos \<Longrightarrow> insert_at pos x (As @ Bs) = As @ x # Bs"
  by (simp add: insert_at_def)

lemma nth_insert_at:
  assumes "pos \<le> length xs" "j \<le> length xs"
  shows "insert_at pos x xs ! j = (if j < pos then xs ! j else if j = pos then x else xs ! (j - 1))"
proof (cases "pos < j")
  case True
  then have "insert_at pos x xs ! j = drop pos xs ! (j - pos - 1)"
    using assms by (simp add: insert_at_def nth_append nth_Cons')
  also have "\<dots> = xs ! (pos + (j - pos - 1))" using assms by (intro nth_drop) simp
  also have "pos + (j - pos - 1) = j - 1" using True by simp
  finally show ?thesis using True by simp
qed (use assms in \<open>auto simp: insert_at_def nth_append\<close>)

lemma take_diff_Cons [simp]: "pos < m \<Longrightarrow> take (m - pos) (x # xs) = x # take (m - Suc pos) xs"
  by (metis Suc_diff_Suc take_Suc_Cons)

lemma drop_diff_Cons [simp]: "pos < m \<Longrightarrow> drop (m - pos) (x # xs) = drop (m - Suc pos) xs"
  by (metis Suc_diff_Suc drop_Suc_Cons)

lemma take_insert_at: "pos < m \<Longrightarrow> pos \<le> length xs \<Longrightarrow> take m (insert_at pos x xs) = take pos xs @ x # take (m - Suc pos) (drop pos xs)"
  by (simp add: insert_at_def min_def)

lemma take_le_eq: "take k xs = take k ys \<Longrightarrow> m \<le> k \<Longrightarrow> take m xs = take m ys"
  by (metis min.absorb1 take_take)

lemma shift_insert:
  assumes "pos \<le> m" "m < length d"
  shows "rbind (copy_within pos m (pos + 1) d) (\<lambda>d. rbind (upd_res d pos w) f) = f (take pos d @ w # drop pos (take m d) @ drop (m + 1) d)"
proof -
  have "copy_within pos m (pos + 1) d = Inr (take (pos + 1) d @ take (m - pos) (drop pos d) @ drop (m + 1) d)"
    using assms by (simp add: copy_within_def)
  moreover have "(take (pos + 1) d @ take (m - pos) (drop pos d) @ drop (m + 1) d)[pos := w] = take pos d @ w # drop pos (take m d) @ drop (m + 1) d"
    using assms by (simp add: take_Suc_conv_app_nth list_update_append drop_take)
  ultimately show ?thesis using assms by simp
qed

lemma take_insert_data:
  assumes "take (length ks) d = ks" "pos \<le> length ks" "length ks < length d"
  shows "take (Suc (length ks)) (take pos d @ w # drop pos (take (length ks) d) @ drop (length ks + 1) d) = insert_at pos w ks"
proof -
  have "take pos d = take pos ks" using assms by (metis min.absorb1 take_take)
  then show ?thesis using assms by (simp add: insert_at_def min_def)
qed

section \<open>Layouts\<close>

locale node_layout =
  fixes L :: bp_layout
  assumes data_fits: "2 * bl_key_cap L \<le> bl_data_len L" "bl_leaf_cap L \<le> bl_data_len L"
    and child_cap: "bl_child_cap L = Suc (bl_key_cap L)"
    and caps_min: "4 \<le> bl_leaf_cap L" "2 \<le> bl_key_cap L"
    and count_fits: "bl_leaf_cap L < 256" "bl_key_cap L < 256"
begin

abbreviation "lcap \<equiv> bl_leaf_cap L"
abbreviation "kcap \<equiv> bl_key_cap L"
abbreviation "dlen \<equiv> bl_data_len L"

lemma holds_count: "length ks \<le> max lcap kcap \<Longrightarrow> holds L fl ks (set_count (length ks) n) \<longleftrightarrow>
    bn_flags n = fl \<and> length (bn_data n) = dlen \<and> take (length ks) (bn_data n) = ks"
  using count_fits by (auto simp: holds_def set_count_def)

lemma holds_link [simp]: "holds L fl ks (set_link v n) \<longleftrightarrow> holds L fl ks n"
  by (simp add: holds_def set_link_def)

lemma keys_of: "holds L fl ks n \<Longrightarrow> length ks \<le> dlen \<Longrightarrow> bp_keys n = Inr ks"
  by (simp add: holds_def bp_keys_def slice_range_def)

lemma data_nth: "holds L fl ks n \<Longrightarrow> j < length ks \<Longrightarrow> length ks \<le> dlen \<Longrightarrow> nth_res (bn_data n) j = Inr (ks ! j)"
  unfolding holds_def by (metis less_le_trans nth_res_in nth_take)

lemma leaf_flag: "holds L FLAG_LEAF ks n \<Longrightarrow> is_leaf n" "holds L 0 ks n \<Longrightarrow> \<not> is_leaf n"
  by (auto simp: holds_def is_leaf_def FLAG_LEAF_def)

lemma flag_dom: "bn_flags n = FLAG_LEAF \<or> bn_flags n = 0 \<Longrightarrow> bp_node_dom n"
  by (auto simp: bp_node_dom_def FLAG_LEAF_def FLAG_TAG_def)

lemma holds_dom: "holds L FLAG_LEAF ks n \<or> holds L 0 ks n \<Longrightarrow> bp_node_dom n"
  by (rule flag_dom) (auto simp: holds_def)

lemma new_nodes:
  "holds L FLAG_LEAF [] (new_leaf L)" "holds L 0 [] (new_internal L)" "bn_link (new_leaf L) = bl_nil L"
  by (simp_all add: holds_def new_leaf_def new_internal_def)

section \<open>Leaves\<close>

lemma leaf_insert_ok:
  assumes h: "holds L fl ks n" and room: "length ks < lcap" and pos: "pos \<le> length ks"
  shows "\<exists>n'. bp_leaf_insert pos (length ks) w n = Inr n' \<and> holds L fl (insert_at pos w ks) n' \<and> bn_link n' = bn_link n"
proof -
  let ?d = "bn_data n"
  have d: "length ?d = dlen" "take (length ks) ?d = ks" using h by (simp_all add: holds_def)
  have l: "length ks < length ?d" using room data_fits(2) d(1) by simp
  let ?d' = "take pos ?d @ w # drop pos (take (length ks) ?d) @ drop (length ks + 1) ?d"
  have e: "bp_leaf_insert pos (length ks) w n = Inr (set_count (length ks + 1) (n\<lparr>bn_data := ?d'\<rparr>))"
    unfolding bp_leaf_insert_def using shift_insert [OF pos l] by simp
  have "holds L fl (insert_at pos w ks) (set_count (length (insert_at pos w ks)) (n\<lparr>bn_data := ?d'\<rparr>))"
    using h room pos l d take_insert_data [OF d(2) pos l] by (subst holds_count) (auto simp: holds_def)
  then show ?thesis using e by (simp add: set_count_def)
qed

lemma leaf_append_ok:
  assumes h: "holds L fl ks n" and room: "length ks < lcap"
  shows "\<exists>d. upd_res (bn_data n) (length ks) w = Inr d \<and> holds L fl (ks @ [w]) (set_count (length ks + 1) (n\<lparr>bn_data := d\<rparr>))"
proof -
  have d: "length (bn_data n) = dlen" "take (length ks) (bn_data n) = ks" using h by (simp_all add: holds_def)
  have l: "length ks < length (bn_data n)" using room data_fits(2) d(1) by simp
  have "holds L fl (ks @ [w]) (set_count (length (ks @ [w])) (n\<lparr>bn_data := (bn_data n)[length ks := w]\<rparr>))"
    using h room l d by (subst holds_count) (auto simp: holds_def take_Suc_conv_app_nth)
  then show ?thesis using l by simp
qed

lemma leaf_split_ok:
  assumes h: "holds L fl ks n" and full: "length ks = lcap" and pos: "pos \<le> lcap"
    and r: "length (bn_data right) = dlen" "bn_flags right = fr"
  defines "mid \<equiv> div_ceil lcap 2"
  shows "\<exists>n' r'. bp_leaf_split L pos w n right = Inr (n', r') \<and> holds L fl (take mid (insert_at pos w ks)) n' \<and>
    holds L fr (drop mid (insert_at pos w ks)) r' \<and> bn_link n' = bn_link n \<and> bn_link r' = bn_link right"
proof -
  let ?d = "bn_data n"
  have d: "length ?d = dlen" "take lcap ?d = ks" "bn_flags n = fl" using h full by (simp_all add: holds_def)
  have mid: "0 < mid" "mid \<le> lcap" "lcap - mid + 1 \<le> lcap" using caps_min by (auto simp: mid_def div_ceil_def)
  have old: "slice_range 0 lcap ?d = Inr ks" using d data_fits(2) by (simp add: slice_range_def)
  have tk: "take m ?d = take m ks" if "m \<le> lcap" for m using d(2) that by (metis min.absorb1 take_take)
  have lens: "length (take mid (insert_at pos w ks)) = mid" "length (drop mid (insert_at pos w ks)) = lcap - mid + 1"
    using mid full by auto
  show ?thesis
  proof (cases "pos < mid")
    case True
    let ?rd = "drop (mid - 1) ks @ drop (lcap - mid + 1) (bn_data right)"
    let ?d' = "take pos ?d @ w # drop pos (take (mid - 1) ?d) @ drop (mid - 1 + 1) ?d"
    have s: "slice_range (mid - 1) lcap ks = Inr (drop (mid - 1) ks)" using mid full by (simp add: slice_range_def)
    have c: "copy_into 0 (lcap - mid + 1) (drop (mid - 1) ks) (bn_data right) = Inr ?rd"
      using mid full r(1) data_fits(2) by (simp add: copy_into_def)
    have sh: "rbind (copy_within pos (mid - 1) (pos + 1) ?d) (\<lambda>d. rbind (upd_res d pos w) f) = f ?d'" for f
      using True mid d(1) data_fits(2) by (intro shift_insert) auto
    have e: "bp_leaf_split L pos w n right = Inr (set_count mid (n\<lparr>bn_data := ?d'\<rparr>), set_count (lcap - mid + 1) (right\<lparr>bn_data := ?rd\<rparr>))"
      unfolding bp_leaf_split_def Let_def mid_def [symmetric] using old s c sh True by simp
    have t1: "take mid ?d' = take mid (insert_at pos w ks)"
      using True mid pos full d(1) data_fits(2) tk [of pos] tk [of "mid - 1"]
      by (simp add: take_insert_at min_def drop_take) (rule impI, linarith)
    have t2: "drop mid (insert_at pos w ks) = drop (mid - 1) ks"
      using True mid pos full by (simp add: insert_at_def)
    have "holds L fl (take mid (insert_at pos w ks)) (set_count mid (n\<lparr>bn_data := ?d'\<rparr>))"
      using holds_count [of "take mid (insert_at pos w ks)" fl "n\<lparr>bn_data := ?d'\<rparr>"] lens t1 d mid True data_fits(2) by auto
    moreover have "holds L fr (drop mid (insert_at pos w ks)) (set_count (lcap - mid + 1) (right\<lparr>bn_data := ?rd\<rparr>))"
      using holds_count [of "drop mid (insert_at pos w ks)" fr "right\<lparr>bn_data := ?rd\<rparr>"] lens t2 r mid full data_fits(2) by auto
    ultimately show ?thesis using e by (simp add: set_count_def)
  next
    case False
    let ?s = "take (pos - mid) (drop mid ks)"
    let ?rd = "?s @ w # drop pos ks @ drop (lcap - mid + 1) (bn_data right)"
    have s: "slice_range mid pos ks = Inr ?s" using False pos full by (simp add: slice_range_def)
    have c: "copy_into 0 (pos - mid) ?s (bn_data right) = Inr (?s @ drop (pos - mid) (bn_data right))"
      using False pos full r(1) data_fits(2) by (simp add: copy_into_def)
    have ls: "length ?s = pos - mid" using False pos full by simp
    have ne: "drop (pos - mid) (bn_data right) = bn_data right ! (pos - mid) # drop (pos - mid + 1) (bn_data right)"
      using pos mid r(1) data_fits(2) False by (simp add: Cons_nth_drop_Suc)
    have u: "upd_res (?s @ drop (pos - mid) (bn_data right)) (pos - mid) w = Inr (?s @ w # drop (pos - mid + 1) (bn_data right))"
      unfolding ne using ls by (simp add: upd_res_def list_update_append)
    have s': "slice_range pos lcap ks = Inr (drop pos ks)" using pos full by (simp add: slice_range_def)
    have c': "copy_into (pos - mid + 1) (pos - mid + 1 + (lcap - pos)) (drop pos ks) (?s @ w # drop (pos - mid + 1) (bn_data right)) = Inr ?rd"
      using ls False pos mid full r(1) data_fits(2) by (simp add: copy_into_def)
    have e: "bp_leaf_split L pos w n right = Inr (set_count mid n, set_count (lcap - mid + 1) (right\<lparr>bn_data := ?rd\<rparr>))"
      unfolding bp_leaf_split_def Let_def mid_def [symmetric] using old s c u s' c' False by simp
    have t1: "take mid (insert_at pos w ks) = take mid ks" using False pos full by (simp add: insert_at_def)
    have t2: "drop mid (insert_at pos w ks) = ?s @ w # drop pos ks"
      using False pos full by (simp add: insert_at_def drop_take)
    have "holds L fl (take mid (insert_at pos w ks)) (set_count mid n)"
      using holds_count [of "take mid (insert_at pos w ks)" fl n] lens t1 tk [of mid] d mid by auto
    moreover have "holds L fr (drop mid (insert_at pos w ks)) (set_count (lcap - mid + 1) (right\<lparr>bn_data := ?rd\<rparr>))"
      using holds_count [of "drop mid (insert_at pos w ks)" fr "right\<lparr>bn_data := ?rd\<rparr>"] lens t2 r ls mid full pos False data_fits(2) by auto
    ultimately show ?thesis using e by (simp add: set_count_def)
  qed
qed

section \<open>Internal nodes\<close>

lemma internal_child_kid: "length (bn_data n) = dlen \<Longrightarrow> j \<le> kcap \<Longrightarrow> internal_child L j n = Inr (kid L n j)"
  using data_fits(1) by (auto simp: internal_child_def kid_def)

lemma kid_has: "has_kids L cs n \<Longrightarrow> j < length cs \<Longrightarrow> kid L n j = cs ! j"
  by (simp add: has_kids_def)

definition put_kid :: "nat \<Rightarrow> nat \<Rightarrow> bp_node \<Rightarrow> bp_node" where
  "put_kid i v n = (if i < kcap then n\<lparr>bn_data := (bn_data n)[kcap + i := v]\<rparr> else n\<lparr>bn_link := v\<rparr>)"

lemma set_child_put: "length (bn_data n) = dlen \<Longrightarrow> set_internal_child L i v n = Inr (put_kid i v n)"
  using data_fits(1) by (auto simp: set_internal_child_def put_kid_def)

lemma put_kid_simps [simp]:
  "length (bn_data (put_kid i v n)) = length (bn_data n)" "bn_flags (put_kid i v n) = bn_flags n"
  "bn_count (put_kid i v n) = bn_count n"
  by (simp_all add: put_kid_def)

lemma kid_put: "length (bn_data n) = dlen \<Longrightarrow> i \<le> kcap \<Longrightarrow> j \<le> kcap \<Longrightarrow> kid L (put_kid i v n) j = (if j = i then v else kid L n j)"
  using data_fits(1) by (auto simp: kid_def put_kid_def)

lemma take_put: "m \<le> kcap \<Longrightarrow> take m (bn_data (put_kid i v n)) = take m (bn_data n)"
  by (simp add: put_kid_def)

lemma holds_put: "length ks \<le> kcap \<Longrightarrow> holds L fl ks (put_kid i v n) \<longleftrightarrow> holds L fl ks n"
  by (simp add: holds_def take_put)

lemma kid_cong:
  "(\<And>i. kcap \<le> i \<Longrightarrow> i < dlen \<Longrightarrow> d ! i = bn_data n ! i) \<Longrightarrow> j \<le> kcap \<Longrightarrow> kid L (n\<lparr>bn_data := d\<rparr>) j = kid L n j"
  using data_fits(1) by (auto simp: kid_def)

lemma kid_count [simp]: "kid L (set_count c n) j = kid L n j"
  by (simp add: kid_def set_count_def)

lemma count_data [simp]:
  "bn_data (set_count c n) = bn_data n" "bn_flags (set_count c n) = bn_flags n" "bn_link (set_count c n) = bn_link n"
  by (simp_all add: set_count_def)

lemma write_children_ok:
  assumes "length (bn_data n) = dlen" "i + length cs \<le> Suc kcap"
  shows "\<exists>n'. bp_write_children L i cs n = Inr n' \<and> length (bn_data n') = dlen \<and> bn_flags n' = bn_flags n \<and> bn_count n' = bn_count n \<and>
    take kcap (bn_data n') = take kcap (bn_data n) \<and>
    (\<forall>j \<le> kcap. kid L n' j = (if i \<le> j \<and> j < i + length cs then cs ! (j - i) else kid L n j))"
  using assms
proof (induction cs arbitrary: i n)
  case (Cons c cs)
  let ?n = "put_kid i c n"
  obtain n' where n': "bp_write_children L (i + 1) cs ?n = Inr n'" "length (bn_data n') = dlen" "bn_flags n' = bn_flags n"
    "bn_count n' = bn_count n" "take kcap (bn_data n') = take kcap (bn_data n)"
    "\<forall>j \<le> kcap. kid L n' j = (if i + 1 \<le> j \<and> j < i + 1 + length cs then cs ! (j - (i + 1)) else kid L ?n j)"
    using Cons.IH [of ?n "i + 1"] Cons.prems take_put [of kcap i c n] by auto
  have "kid L n' j = (if i \<le> j \<and> j < i + length (c # cs) then (c # cs) ! (j - i) else kid L n j)" if "j \<le> kcap" for j
    using n'(6) kid_put [of n i j c] Cons.prems that by (cases "j = i") (auto simp: nth_Cons')
  then show ?case using n' Cons.prems(1) by (auto simp: set_child_put)
qed simp

lemma put_children_ok:
  assumes "length (bn_data n) = dlen" "m \<le> Suc kcap" "off + m \<le> length cb" "k \<le> m"
  shows "\<exists>n'. bp_put_children L cb off [k ..< m] n = Inr n' \<and> length (bn_data n') = dlen \<and> bn_flags n' = bn_flags n \<and>
    bn_count n' = bn_count n \<and> take kcap (bn_data n') = take kcap (bn_data n) \<and>
    (\<forall>j \<le> kcap. kid L n' j = (if k \<le> j \<and> j < m then cb ! (off + j) else kid L n j))"
  using assms
proof (induction "m - k" arbitrary: k n)
  case 0
  then show ?case by simp
next
  case (Suc x)
  then have km: "k < m" and x: "x = m - Suc k" by simp_all
  let ?n = "put_kid k (cb ! (off + k)) n"
  obtain n' where n': "bp_put_children L cb off [Suc k ..< m] ?n = Inr n'" "length (bn_data n') = dlen" "bn_flags n' = bn_flags n"
    "bn_count n' = bn_count n" "take kcap (bn_data n') = take kcap (bn_data n)"
    "\<forall>j \<le> kcap. kid L n' j = (if Suc k \<le> j \<and> j < m then cb ! (off + j) else kid L ?n j)"
    using Suc.hyps(1) [of "Suc k" ?n] x Suc.prems km take_put [of kcap k _ n] by auto
  have "kid L n' j = (if k \<le> j \<and> j < m then cb ! (off + j) else kid L n j)" if "j \<le> kcap" for j
    using n'(6) kid_put [of n k j "cb ! (off + k)"] Suc.prems km that by (cases "j = k") auto
  then show ?case using n' Suc.prems km by (auto simp: set_child_put upt_conv_Cons)
qed

lemma read_children_ok:
  assumes "length (bn_data p) = dlen" "m \<le> Suc kcap" "m + off \<le> length cb" "k \<le> m"
  shows "bp_read_children L p off [k ..< m] cb = Inr (take (k + off) cb @ map (kid L p) [k ..< m] @ drop (m + off) cb)"
  using assms
proof (induction "m - k" arbitrary: k cb)
  case 0
  then show ?case by simp
next
  case (Suc x)
  then have km: "k < m" by simp
  then have "bp_read_children L p off [Suc k ..< m] (cb[k + off := kid L p k]) =
      Inr (take (Suc k + off) (cb[k + off := kid L p k]) @ map (kid L p) [Suc k ..< m] @ drop (m + off) cb)"
    using Suc.hyps(1) [of "Suc k" "cb[k + off := kid L p k]"] Suc.hyps(2) Suc.prems by simp
  then show ?case using km Suc.prems by (simp add: upt_conv_Cons internal_child_kid take_Suc_conv_app_nth)
qed

lemma shift_children_ok:
  assumes "length (bn_data p) = dlen" "n < kcap" "m \<le> n"
  shows "\<exists>p'. bp_shift_children L cp m p = Inr p' \<and> length (bn_data p') = dlen \<and> bn_flags p' = bn_flags p \<and>
    bn_count p' = bn_count p \<and> take kcap (bn_data p') = take kcap (bn_data p) \<and>
    (\<forall>j \<le> kcap. kid L p' j = (if Suc cp < j \<and> j \<le> Suc m then kid L p (j - 1) else kid L p j))"
  using assms
proof (induction m arbitrary: p)
  case 0
  then show ?case by auto
next
  case (Suc m)
  show ?case
  proof (cases "cp < Suc m")
    case True
    let ?p = "put_kid (Suc m + 1) (kid L p (Suc m)) p"
    obtain p' where p': "bp_shift_children L cp m ?p = Inr p'" "length (bn_data p') = dlen" "bn_flags p' = bn_flags p"
      "bn_count p' = bn_count p" "take kcap (bn_data p') = take kcap (bn_data p)"
      "\<forall>j \<le> kcap. kid L p' j = (if Suc cp < j \<and> j \<le> Suc m then kid L ?p (j - 1) else kid L ?p j)"
      using Suc.IH [of ?p] Suc.prems take_put [of kcap "Suc m + 1" _ p] by auto
    have "kid L p' j = (if Suc cp < j \<and> j \<le> Suc (Suc m) then kid L p (j - 1) else kid L p j)" if "j \<le> kcap" for j
      using p'(6) kid_put [of p "Suc m + 1" j] kid_put [of p "Suc m + 1" "j - 1"] Suc.prems that True by auto
    then show ?thesis using True p' Suc.prems by (auto simp: internal_child_kid set_child_put)
  next
    case False
    then show ?thesis using Suc.prems by auto
  qed
qed

lemma node_insert_ok:
  assumes h: "holds L 0 ks p" and k: "has_kids L cs p" and len: "length cs = Suc (length ks)" and room: "length ks < kcap"
    and cp: "cp \<le> length ks"
  shows "\<exists>p'. bp_node_insert L cp (length ks) pk pc p = Inr p' \<and> holds L 0 (insert_at cp pk ks) p' \<and>
    has_kids L (insert_at (Suc cp) pc cs) p'"
proof -
  let ?m = "length ks" and ?d = "bn_data p"
  have d: "length ?d = dlen" "take ?m ?d = ks" using h by (simp_all add: holds_def)
  have l: "?m < length ?d" using room data_fits(1) d(1) by simp
  let ?d' = "take cp ?d @ pk # drop cp (take ?m ?d) @ drop (?m + 1) ?d"
  let ?p = "p\<lparr>bn_data := ?d'\<rparr>"
  have ld: "length ?d' = dlen" using d l cp by simp
  have same: "?d' ! i = ?d ! i" if "kcap \<le> i" "i < dlen" for i
  proof -
    have "?d' = (take cp ?d @ pk # drop cp (take ?m ?d)) @ drop (?m + 1) ?d" by simp
    moreover have "length (take cp ?d @ pk # drop cp (take ?m ?d)) = ?m + 1" using d l cp by simp
    ultimately have "?d' ! i = drop (?m + 1) ?d ! (i - (?m + 1))" using that room by (simp only: nth_append) auto
    then show ?thesis using that room d l by simp
  qed
  obtain q where q: "bp_shift_children L cp ?m ?p = Inr q" "length (bn_data q) = dlen" "bn_flags q = bn_flags p"
    "take kcap (bn_data q) = take kcap ?d'"
    "\<forall>j \<le> kcap. kid L q j = (if Suc cp < j \<and> j \<le> Suc ?m then kid L ?p (j - 1) else kid L ?p j)"
    using shift_children_ok [of ?p ?m ?m cp] ld room by auto
  have kp: "kid L ?p j = kid L p j" if "j \<le> kcap" for j using same that by (intro kid_cong) auto
  let ?q = "put_kid (cp + 1) pc q"
  have e: "bp_node_insert L cp ?m pk pc p = Inr (set_count (?m + 1) ?q)"
    unfolding bp_node_insert_def by (subst shift_insert [OF cp l]) (simp only: q(1) rbind_Inr set_child_put [OF q(2)])
  have "take (Suc ?m) (bn_data q) = take (Suc ?m) ?d'" using room by (intro take_le_eq [OF q(4)]) simp
  then have tk: "take (Suc ?m) (bn_data ?q) = insert_at cp pk ks"
    using take_insert_data [OF d(2) cp l, of pk] room by (simp add: take_put)
  have "holds L 0 (insert_at cp pk ks) (set_count (length (insert_at cp pk ks)) ?q)"
    using tk q h room by (subst holds_count) (auto simp: holds_def)
  moreover have "has_kids L (insert_at (Suc cp) pc cs) (set_count (?m + 1) ?q)"
    unfolding has_kids_def
  proof (intro allI impI)
    fix j assume j: "j < length (insert_at (Suc cp) pc cs)"
    then have jk: "j \<le> kcap" "j \<le> Suc ?m" using len room by auto
    have "kid L ?q j = (if j = Suc cp then pc else if Suc cp < j then kid L p (j - 1) else kid L p j)"
      using kid_put [of q "Suc cp" j pc] q(2,5) jk cp room kp by auto
    also have "\<dots> = insert_at (Suc cp) pc cs ! j"
      using kid_has [OF k] jk len cp by (auto simp: nth_insert_at)
    finally show "kid L (set_count (?m + 1) ?q) j = insert_at (Suc cp) pc cs ! j" by simp
  qed
  ultimately show ?thesis using e by simp
qed

lemma split_keys_ok:
  assumes h: "holds L 0 ks p" and full: "length ks = kcap" and cp: "cp \<le> kcap"
  shows "bp_split_keys L cp kcap pk p = Inr (insert_at cp pk ks)"
proof -
  let ?d = "bn_data p"
  have d: "length ?d = dlen" "take kcap ?d = ks" using h full by (simp_all add: holds_def)
  have s: "slice_range 0 cp ?d = Inr (take cp ks)"
    using d cp data_fits(1) by (auto simp: slice_range_def min_def)
  have c: "copy_into 0 cp (take cp ks) (replicate (kcap + 1) 0) = Inr (take cp ks @ replicate (kcap + 1 - cp) 0)"
    using cp full by (simp add: copy_into_def del: replicate_Suc)
  have r: "replicate (kcap + 1 - cp) (0 :: nat) = 0 # replicate (kcap - cp) 0" using cp by (simp add: Suc_diff_le)
  have u: "upd_res (take cp ks @ replicate (kcap + 1 - cp) 0) cp pk = Inr (take cp ks @ pk # replicate (kcap - cp) 0)"
    unfolding r using cp full by (simp add: upd_res_def list_update_append)
  have s': "slice_range cp kcap ?d = Inr (drop cp ks)"
    using d cp data_fits(1) by (auto simp: slice_range_def drop_take)
  have c': "copy_into (cp + 1) (kcap + 1) (drop cp ks) (take cp ks @ pk # replicate (kcap - cp) 0) = Inr (insert_at cp pk ks)"
    using cp full by (simp add: copy_into_def insert_at_def)
  show ?thesis unfolding bp_split_keys_def using s c u s' c' by simp
qed

lemma split_children_ok:
  assumes h: "length (bn_data p) = dlen" and k: "has_kids L cs p" and len: "length cs = Suc kcap" and cp: "cp \<le> kcap"
  shows "bp_split_children L cp kcap pc p = Inr (insert_at (Suc cp) pc cs)"
proof -
  have kids: "map (kid L p) [a ..< b] = take (b - a) (drop a cs)" if "b \<le> Suc kcap" for a b
    using that len kid_has [OF k] by (intro nth_equalityI) auto
  let ?z = "replicate (bl_child_cap L + 1) (0 :: nat)"
  have r1: "bp_read_children L p 0 [0 ..< cp + 1] ?z = Inr (take (cp + 1) cs @ replicate (kcap + 1 - cp) 0)"
    using read_children_ok [OF h, of "cp + 1" 0 ?z 0] kids [of "cp + 1" 0] cp child_cap
    by (simp add: Suc_diff_le del: replicate_Suc upt_Suc)
  have r: "replicate (kcap + 1 - cp) (0 :: nat) = 0 # replicate (kcap - cp) 0" using cp by (simp add: Suc_diff_le)
  have u: "upd_res (take (cp + 1) cs @ replicate (kcap + 1 - cp) 0) (cp + 1) pc = Inr (take (cp + 1) cs @ pc # replicate (kcap - cp) 0)"
    unfolding r using cp len by (simp add: upd_res_def list_update_append)
  have "bp_read_children L p 1 [cp + 1 ..< kcap + 1] (take (cp + 1) cs @ pc # replicate (kcap - cp) 0) =
      Inr (take (cp + 1) cs @ pc # drop (cp + 1) cs)"
    using read_children_ok [OF h, of "kcap + 1" 1 "take (cp + 1) cs @ pc # replicate (kcap - cp) 0" "cp + 1"] kids [of "kcap + 1" "cp + 1"] cp len
    by simp
  then show ?thesis unfolding bp_split_children_def using r1 u by (simp add: insert_at_def)
qed

text \<open>Both halves of a split node are written by the same steps.\<close>

lemma write_half:
  assumes n: "length (bn_data n) = dlen" "bn_flags n = 0" and ks: "length ks < kcap" and cb: "off + Suc (length ks) \<le> length cb"
  shows "\<exists>d n'. copy_into 0 (length ks) ks (bn_data n) = Inr d \<and>
    bp_put_children L cb off [0 ..< length ks + 1] (set_count (length ks) (n\<lparr>bn_data := d\<rparr>)) = Inr n' \<and>
    holds L 0 ks n' \<and> has_kids L (take (Suc (length ks)) (drop off cb)) n'"
proof -
  let ?d = "ks @ drop (length ks) (bn_data n)" and ?m = "length ks"
  have c: "copy_into 0 ?m ks (bn_data n) = Inr ?d" using n ks data_fits(1) by (simp add: copy_into_def)
  have ld: "length ?d = dlen" using n ks data_fits(1) by simp
  let ?n = "set_count ?m (n\<lparr>bn_data := ?d\<rparr>)"
  obtain n' where n': "bp_put_children L cb off [0 ..< ?m + 1] ?n = Inr n'" "length (bn_data n') = dlen" "bn_flags n' = 0"
    "bn_count n' = bn_count ?n" "take kcap (bn_data n') = take kcap ?d"
    "\<forall>j \<le> kcap. kid L n' j = (if 0 \<le> j \<and> j < ?m + 1 then cb ! (off + j) else kid L ?n j)"
    using put_children_ok [of ?n "?m + 1" off cb 0] ld ks cb n by auto
  have "take ?m (bn_data n') = take ?m ?d" using ks by (intro take_le_eq [OF n'(5)]) simp
  then have "holds L 0 ks n'" using n' ks count_fits by (simp add: holds_def set_count_def)
  moreover have "has_kids L (take (Suc ?m) (drop off cb)) n'" using n'(6) ks cb by (auto simp: has_kids_def)
  ultimately show ?thesis using c n'(1) by blast
qed

end

text \<open>The six layouts.\<close>

lemmas layout_defs = Layout64U32_def Layout128U32_def Layout256U32_def Layout128U64_def Layout256U64_def Layout512U64_def

interpretation l64: node_layout Layout64U32 by unfold_locales (simp_all add: layout_defs)
interpretation l128: node_layout Layout128U32 by unfold_locales (simp_all add: layout_defs)
interpretation l256: node_layout Layout256U32 by unfold_locales (simp_all add: layout_defs)
interpretation l128w: node_layout Layout128U64 by unfold_locales (simp_all add: layout_defs)
interpretation l256w: node_layout Layout256U64 by unfold_locales (simp_all add: layout_defs)
interpretation l512w: node_layout Layout512U64 by unfold_locales (simp_all add: layout_defs)

end
