(* ===== verification/Bplus_Fill.thy ===== *)
theory Bplus_Fill
  imports Bplus_Shape
begin

text \<open>
  Shape and occupancy through frames, and what they bound: the height and the number of nodes of a tree
  by the number of its keys.
\<close>

section \<open>Through frames\<close>

fun fshaped :: "nat \<Rightarrow> frame list \<Rightarrow> bool" where
  "fshaped h [] = True"
| "fshaped h (Fr i ka As kb Bs # fs) = (length ka = length As \<and> length kb = length Bs \<and>
    (\<forall>c \<in> set As. shaped h c) \<and> (\<forall>c \<in> set Bs. shaped h c) \<and> fshaped (Suc h) fs)"

lemma fshaped_fok: "fshaped h fs \<Longrightarrow> f \<in> set fs \<Longrightarrow> fok f"
  by (induction h fs rule: fshaped.induct) auto

lemma shaped_plugs: "shaped h t \<Longrightarrow> fshaped h fs \<Longrightarrow> shaped (h + length fs) (plugs fs t)"
proof (induction h fs arbitrary: t rule: fshaped.induct)
  case (2 h i ka As kb Bs fs)
  have "shaped (Suc h + length fs) (plugs fs (plug (Fr i ka As kb Bs) t))"
    using 2 by (intro "2.IH") auto
  then show ?case by simp
qed simp

lemma plugs_shaped:
  assumes "shaped h (plugs fs t)" "\<forall>f \<in> set fs. fok f"
  shows "\<exists>h'. h = h' + length fs \<and> shaped h' t \<and> fshaped h' fs"
  using assms
proof (induction fs arbitrary: t)
  case (Cons f fs)
  obtain i ka As kb Bs where f: "f = Fr i ka As kb Bs" by (cases f)
  obtain h' where h': "h = h' + length fs" "shaped h' (plug f t)" "fshaped h' fs" using Cons by auto
  then obtain h'' where "h' = Suc h''" using f by (cases h') auto
  then show ?case using h' Cons.prems f by (intro exI [of _ h'']) auto
qed simp

text \<open>Whether the hole of the frames is on the rightmost path.\<close>

fun hole :: "bool \<Rightarrow> frame list \<Rightarrow> bool" where
  "hole r [] = r"
| "hole r (Fr i ka As kb Bs # fs) = (Bs = [] \<and> hole r fs)"

fun ffill :: "nat \<Rightarrow> nat \<Rightarrow> bool \<Rightarrow> frame list \<Rightarrow> bool" where
  "ffill lm km r [] = True"
| "ffill lm km r (Fr i ka As kb Bs # fs) = ((hole r fs \<or> km \<le> length (ka @ kb)) \<and>
    (\<forall>c \<in> set As. fill lm km False c) \<and> fills lm km (hole r fs) Bs \<and> ffill lm km r fs)"

lemma fills_Cons: "fills lm km r (c # cs) \<longleftrightarrow> fill lm km (cs = [] \<and> r) c \<and> fills lm km r cs"
  by (cases cs) auto

lemma fill_plugs: "fill lm km r (plugs fs t) \<longleftrightarrow> ffill lm km r fs \<and> fill lm km (hole r fs) t"
proof (induction fs arbitrary: t)
  case (Cons f fs)
  obtain i ka As kb Bs where f: "f = Fr i ka As kb Bs" by (cases f)
  show ?case using Cons [of "plug f t"] f by (auto simp: fills_append fills_Cons)
qed simp

text \<open>A root that is not a leaf has a separator.\<close>

fun root_key :: "btree \<Rightarrow> bool" where
  "root_key (Lf i ks) = True"
| "root_key (Nd i ks cs) = (ks \<noteq> [])"

lemma root_key_plugs: "fs \<noteq> [] \<Longrightarrow> root_key (plugs fs t) = root_key (plugs fs t')"
proof (induction fs arbitrary: t t')
  case (Cons f fs)
  then show ?case by (cases fs; cases f) auto
qed simp

definition filled :: "nat \<Rightarrow> nat \<Rightarrow> btree \<Rightarrow> bool" where
  "filled lm km t \<longleftrightarrow> (\<exists>i. t = Lf i []) \<or> (fill lm km True t \<and> root_key t)"

section \<open>Counting\<close>

lemma keys_Lf [simp]: "keys (Lf i ks) = ks"
  by (simp add: keys_def)

lemma keys_Nd:
  assumes "shaped h (Nd i ks cs)"
  shows "keys (Nd i ks cs) = concat (map keys cs)"
proof -
  have "map keys cs = map (\<lambda>c. concat (map snd (leaves c))) cs" using assms keys_leaves by auto
  moreover have "concat (map snd (concat (map leaves cs))) = concat (map (\<lambda>c. concat (map snd (leaves c))) cs)"
    by (induction cs) auto
  ultimately show ?thesis using keys_leaves [OF assms] by (simp only: leaves.simps)
qed

lemma sum_list_ge: "\<forall>c \<in> set cs. m \<le> f c \<Longrightarrow> length cs * m \<le> sum_list (map f cs)" for f :: "'c \<Rightarrow> nat"
  by (induction cs) auto

text \<open>A tree of height \<open>h\<close> off the rightmost path has at least \<open>lm (km + 1)\<^sup>h\<close> keys.\<close>

lemma fill_min_keys: "shaped h t \<Longrightarrow> fill lm km False t \<Longrightarrow> lm * Suc km ^ h \<le> length (keys t)"
proof (induction h t rule: shaped.induct)
  case (2 h i ks cs)
  have "\<forall>c \<in> set cs. lm * Suc km ^ (h - 1) \<le> length (keys c)"
    using 2 by (auto simp: fills_False)
  then have "length cs * (lm * Suc km ^ (h - 1)) \<le> length (keys (Nd i ks cs))"
    unfolding keys_Nd [OF "2.prems"(1)] length_concat map_map comp_def by (rule sum_list_ge)
  moreover have "Suc km * (lm * Suc km ^ (h - 1)) \<le> length cs * (lm * Suc km ^ (h - 1))"
    using "2.prems" by (intro mult_le_mono1) auto
  moreover have "lm * Suc km ^ h = Suc km * (lm * Suc km ^ (h - 1))" using "2.prems"(1) by (cases h) (auto simp: algebra_simps)
  ultimately show ?case by simp
qed simp

lemma height_min_keys:
  assumes "shaped h t" "filled lm km t" "0 < h"
  shows "lm * Suc km ^ (h - 1) \<le> length (keys t)"
proof -
  obtain i ks cs where t: "t = Nd i ks cs" using assms(1,3) by (cases t) auto
  then have f: "fills lm km True cs" "ks \<noteq> []" using assms(2) by (auto simp: filled_def)
  moreover have "length cs = Suc (length ks)" using assms(1) t by simp
  ultimately obtain c d cs' where cs: "cs = c # d # cs'" by (cases cs; cases "tl cs") auto
  then have "lm * Suc km ^ (h - 1) \<le> length (keys c)" using f assms(1) t by (intro fill_min_keys) auto
  also have "\<dots> \<le> length (keys t)" using keys_Nd [OF assms(1) [unfolded t]] t cs by simp
  finally show ?thesis .
qed

text \<open>There are fewer nodes than keys, but for the rightmost path.\<close>

lemma fill_nodes: "shaped h t \<Longrightarrow> 2 \<le> lm \<Longrightarrow> 0 < km \<Longrightarrow> fill lm km False t \<Longrightarrow> length (idxs t) < length (keys t)"
proof (induction h t rule: shaped.induct)
  case (2 h i ks cs)
  have lt: "\<forall>c \<in> set cs. Suc (length (idxs c)) \<le> length (keys c)" using 2 by (auto simp: fills_False Suc_le_eq)
  have "sum_list (map (\<lambda>c. length (idxs c)) cs) + length cs \<le> sum_list (map (\<lambda>c. length (keys c)) cs)"
    using lt by (induction cs) auto
  moreover have "2 \<le> length cs" using "2.prems" by auto
  ultimately show ?case by (simp add: keys_Nd [OF "2.prems"(1)] length_concat comp_def)
qed auto

lemma rightmost_nodes:
  "shaped h t \<Longrightarrow> 2 \<le> lm \<Longrightarrow> 0 < km \<Longrightarrow> fill lm km True t \<Longrightarrow> length (idxs t) \<le> length (keys t) + h"
proof (induction h t rule: shaped.induct)
  case (1 h i ks)
  then show ?case by (cases ks) auto
next
  case (2 h i ks cs)
  obtain as c where cs: "cs = as @ [c]" using "2.prems"(1) by (cases cs rule: rev_cases) auto
  have "\<forall>a \<in> set as. length (idxs a) \<le> length (keys a)"
    using 2 cs fill_nodes [of "h - 1" _ lm km] by (auto simp: fills_append intro: less_imp_le)
  then have "sum_list (map (\<lambda>c. length (idxs c)) as) \<le> sum_list (map (\<lambda>c. length (keys c)) as)"
    by (induction as) auto
  moreover have "length (idxs c) \<le> length (keys c) + (h - 1)" using 2 cs by (simp add: fills_append)
  moreover have "length (keys (Nd i ks cs)) = sum_list (map (\<lambda>c. length (keys c)) as) + length (keys c)"
    using keys_Nd [OF "2.prems"(1)] cs by (simp add: length_concat comp_def)
  moreover have "0 < h" using "2.prems"(1) by simp
  ultimately show ?case using cs by (simp add: length_concat comp_def)
qed

lemma filled_nodes:
  assumes "shaped h t" "2 \<le> lm" "0 < km" "filled lm km t"
  shows "length (idxs t) \<le> length (keys t) + h + 1"
  using assms rightmost_nodes [OF assms(1-3)] by (fastforce simp: filled_def)

lemma ascending_keys_bounded:
  fixes ks :: "nat list"
  assumes "sorted_wrt (<) ks" "\<forall>k \<in> set ks. k \<le> m"
  shows "length ks \<le> Suc m"
proof -
  have "distinct ks" using assms(1) by (simp add: strict_sorted_iff)
  then have "length ks = card (set ks)" by (simp add: distinct_card)
  also have "\<dots> \<le> card {..m}" using assms(2) by (intro card_mono) auto
  finally show ?thesis by simp
qed

end
