(* ===== verification/Bplus_Ops.thy ===== *)
theory Bplus_Ops
  imports Bplus_Steps Bplus_Fill
begin

text \<open>
  The operations of the B+ tree on the arena.  \<open>st t0 t ns h\<close> says that \<open>t\<close> was reached from \<open>t0\<close> by updates of
  its two vectors and holds the nodes \<open>ns\<close> and the header \<open>h\<close>; \<open>binv ns h T\<close> that these represent the tree \<open>T\<close>.
\<close>

definition lmin :: "bp_layout \<Rightarrow> nat" where
  "lmin L = bl_leaf_cap L div 2"

definition kmin :: "bp_layout \<Rightarrow> nat" where
  "kmin L = bl_key_cap L div 2"

text \<open>The sequence of keys and separators, the leaves and the indices fit the arena.\<close>

definition body :: "nat \<Rightarrow> nat \<Rightarrow> bp_node list \<Rightarrow> nat list \<Rightarrow> (nat \<times> nat list) list \<Rightarrow> item list \<Rightarrow> bool" where
  "body nil kmax ns is lvs its \<longleftrightarrow> distinct is \<and> length is = length ns \<and>
    chain nil (\<lambda>i. bn_link (ns ! i)) (map fst lvs) \<and> ascending its \<and> (\<forall>k \<in> set (item_keys its). k \<le> kmax)"

definition header_ok :: "bp_header \<Rightarrow> nat \<Rightarrow> (nat \<times> nat list) list \<Rightarrow> item list \<Rightarrow> bool" where
  "header_ok h root lvs its \<longleftrightarrow> h = \<lparr>bh_root = root, bh_last_leaf = fst (last lvs), bh_nkeys = length (item_keys its)\<rparr>"

definition binv :: "bp_layout \<Rightarrow> nat \<Rightarrow> bp_node list \<Rightarrow> bp_header \<Rightarrow> btree \<Rightarrow> bool" where
  "binv L kmax ns h T \<longleftrightarrow> repr L ns T \<and> (\<exists>ht. shaped ht T) \<and> filled (lmin L) (kmin L) T \<and>
    body (bl_nil L) kmax ns (idxs T) (leaves T) (items T) \<and> header_ok h (rt T) (leaves T) (items T)"

text \<open>A tree with a pending right sibling \<open>r\<close> of \<open>l\<close> and its separator \<open>k\<close>, below the frames \<open>fs\<close>.\<close>

definition pend :: "bp_layout \<Rightarrow> nat \<Rightarrow> bp_node list \<Rightarrow> bp_header \<Rightarrow> nat \<Rightarrow> frame list \<Rightarrow> btree \<Rightarrow> nat \<Rightarrow> btree \<Rightarrow> bool" where
  "pend L kmax ns h ht fs l k r \<longleftrightarrow>
    freps L ns fs (rt l) \<and> repr L ns l \<and> repr L ns r \<and> fshaped ht fs \<and> shaped ht l \<and> shaped ht r \<and>
    ffill (lmin L) (kmin L) True fs \<and> fill (lmin L) (kmin L) False l \<and> fill (lmin L) (kmin L) (hole True fs) r \<and>
    (fs \<noteq> [] \<longrightarrow> root_key (plugs fs l)) \<and>
    body (bl_nil L) kmax ns (frames_idxs fs @ idxs l @ idxs r) (leaves_before fs @ leaves l @ leaves r @ leaves_after fs)
      (pres fs @ items l @ Sep k # items r @ posts fs) \<and>
    header_ok h (rt (plugs fs l)) (leaves_before fs @ leaves l @ leaves r @ leaves_after fs)
      (pres fs @ items l @ Sep k # items r @ posts fs)"

lemma body_mset: "mset is = mset js \<Longrightarrow> body nil kmax ns is lvs its \<longleftrightarrow> body nil kmax ns js lvs its"
  unfolding body_def by (metis distinct_count_atmost_1 mset_eq_length set_mset_mset)

lemma rt_plugs: "rt (plugs fs t) = (if fs = [] then rt t else fidx (last fs))"
  by (induction fs arbitrary: t) auto

locale bp_ops =
  node_layout "bx_layout B" + search_kind "bx_search B" +
  nodes: semi_vec "bx_nodes B" nvals nflag nstale bp_node_dom ndflt +
  meta: semi_vec "bx_meta B" hvals hflag hstale "\<lambda>_. True" hdflt
  for B :: bp_cfg and nvals nflag nstale ndflt hvals hflag hstale hdflt +
  assumes nodes_imax: "vc_imax (bx_nodes B) = bx_nil B"
    and meta_imax: "0 < vc_imax (bx_meta B)"
    and keys_few: "Suc (bx_kmax B) < lmin (bx_layout B) * Suc (kmin (bx_layout B)) ^ MAX_PATH"
    and arena_big: "bx_kmax B + 3 * MAX_PATH < bx_nil B"
    and count_usize: "bx_kmax B + 2 < 2 ^ 64"
begin

abbreviation "L \<equiv> bx_layout B"
abbreviation "nds t \<equiv> nvals (v_store (bt_nodes t))"
abbreviation "hds t \<equiv> hvals (v_store (bt_meta t))"

definition brels :: "bp_tree \<Rightarrow> bool" where
  "brels t \<longleftrightarrow> (\<exists>a. nodes.rel (bt_nodes t) a) \<and> (\<exists>a. meta.rel (bt_meta t) a)"

definition bupd :: "bp_tree \<Rightarrow> bp_tree \<Rightarrow> bool" where
  "bupd t t' \<longleftrightarrow> (vec_upd (bx_nodes B) bp_node_dom)\<^sup>*\<^sup>* (bt_nodes t) (bt_nodes t') \<and>
    (vec_upd (bx_meta B) (\<lambda>_. True))\<^sup>*\<^sup>* (bt_meta t) (bt_meta t')"

definition st :: "bp_tree \<Rightarrow> bp_tree \<Rightarrow> bp_node list \<Rightarrow> bp_header \<Rightarrow> bool" where
  "st t0 t ns h \<longleftrightarrow> brels t \<and> bupd t0 t \<and> nds t = ns \<and> hds t = [h]"

section \<open>Single accesses\<close>

lemma st_node: "st t0 t ns h \<Longrightarrow> bp_get_node B i t = nth_res ns i"
  by (simp add: st_def bp_get_node_def nodes.vec_get_val)

lemma st_header: "st t0 t ns h \<Longrightarrow> bp_get_header B t = Inr h"
  by (simp add: st_def bp_get_header_def meta.vec_get_val)

lemma st_heads:
  "st t0 t ns h \<Longrightarrow> bp_root B t = Inr (bh_root h)" "st t0 t ns h \<Longrightarrow> bp_last_leaf B t = Inr (bh_last_leaf h)"
  "st t0 t ns h \<Longrightarrow> bp_nkeys B t = Inr (bh_nkeys h)"
  by (simp_all add: st_header bp_root_def bp_last_leaf_def bp_nkeys_def)

lemma st_set_node:
  assumes "st t0 t ns h" "i < length ns" "length ns \<le> bx_nil B" "bp_node_dom n"
  shows "\<exists>t'. bp_set_node B i n t = Inr t' \<and> st t0 t' (ns[i := n]) h"
proof -
  obtain a where a: "nodes.rel (bt_nodes t) a" using assms(1) by (auto simp: st_def brels_def)
  obtain v where v: "vec_set (bx_nodes B) i n (bt_nodes t) = Inr v" "nvals (v_store v) = ns[i := n]" "nodes.rel v a"
    using nodes.set_spec [OF a, of i n] assms nodes_imax by (auto simp: st_def)
  have "(vec_upd (bx_nodes B) bp_node_dom)\<^sup>*\<^sup>* (bt_nodes t0) v"
    using nodes.upds(2) [OF assms(4) v(1)] assms(1) by (auto simp: st_def bupd_def)
  then show ?thesis using v assms(1) by (auto simp: bp_set_node_def st_def brels_def bupd_def)
qed

lemma st_alloc:
  assumes "st t0 t ns h" "length ns < bx_nil B" "bp_node_dom n"
  shows "\<exists>t'. bp_alloc B n t = Inr (length ns, t') \<and> st t0 t' (ns @ [n]) h"
proof -
  obtain a where a: "nodes.rel (bt_nodes t) a" using assms(1) by (auto simp: st_def brels_def)
  obtain v where v: "vec_push (bx_nodes B) n (bt_nodes t) = Inr v" "nvals (v_store v) = ns @ [n]" "nodes.rel v a"
    using nodes.push_spec [OF a, of n] assms nodes_imax by (auto simp: st_def)
  have "(vec_upd (bx_nodes B) bp_node_dom)\<^sup>*\<^sup>* (bt_nodes t0) v"
    using nodes.upds(1) [OF assms(3) v(1)] assms(1) by (auto simp: st_def bupd_def)
  moreover have "vec_len (bx_nodes B) (bt_nodes t) = Inr (length ns)"
    using assms nodes_imax by (simp add: nodes.vec_len_Inr st_def)
  ultimately show ?thesis using v assms(1,2) by (auto simp: bp_alloc_def st_def brels_def bupd_def)
qed

lemma st_alloc_leaf: "st t0 t ns h \<Longrightarrow> length ns < bx_nil B \<Longrightarrow> \<exists>t'. bp_alloc_leaf B t = Inr (length ns, t') \<and> st t0 t' (ns @ [new_leaf L]) h"
  unfolding bp_alloc_leaf_def using new_nodes holds_dom by (intro st_alloc) blast+

lemma st_alloc_internal: "st t0 t ns h \<Longrightarrow> length ns < bx_nil B \<Longrightarrow> \<exists>t'. bp_alloc_internal B t = Inr (length ns, t') \<and> st t0 t' (ns @ [new_internal L]) h"
  unfolding bp_alloc_internal_def using new_nodes holds_dom by (intro st_alloc) blast+

lemma st_set_header:
  assumes "st t0 t ns h"
  shows "\<exists>t'. bp_set_header B h' t = Inr t' \<and> st t0 t' ns h'"
proof -
  obtain a where a: "meta.rel (bt_meta t) a" using assms(1) by (auto simp: st_def brels_def)
  obtain v where v: "vec_set (bx_meta B) 0 h' (bt_meta t) = Inr v" "hvals (v_store v) = [h']" "meta.rel v a"
    using meta.set_spec [OF a, of 0 h'] assms meta_imax by (auto simp: st_def)
  have "(vec_upd (bx_meta B) (\<lambda>_. True))\<^sup>*\<^sup>* (bt_meta t0) v"
    using meta.upds(2) [OF TrueI v(1)] assms(1) by (auto simp: st_def bupd_def)
  then show ?thesis using v assms(1) by (auto simp: bp_set_header_def st_def brels_def bupd_def)
qed

lemma st_sets:
  assumes "st t0 t ns h"
  shows "\<exists>t'. bp_set_root B v t = Inr t' \<and> st t0 t' ns (h\<lparr>bh_root := v\<rparr>)"
    "\<exists>t'. bp_set_last_leaf B v t = Inr t' \<and> st t0 t' ns (h\<lparr>bh_last_leaf := v\<rparr>)"
    "\<exists>t'. bp_set_nkeys B v t = Inr t' \<and> st t0 t' ns (h\<lparr>bh_nkeys := v\<rparr>)"
  using st_set_header [OF assms] st_header [OF assms]
  by (simp_all add: bp_set_root_def bp_set_last_leaf_def bp_set_nkeys_def)

section \<open>Bounds\<close>

lemma mins: "2 \<le> lmin L" "0 < kmin L"
  using caps_min by (simp_all add: lmin_def kmin_def)

lemma binv_bounds:
  assumes "binv L (bx_kmax B) ns h T" "shaped ht T"
  shows "length (keys T) \<le> Suc (bx_kmax B)" "ht \<le> MAX_PATH" "length ns \<le> bx_kmax B + MAX_PATH + 2"
proof -
  note i = assms(1) [unfolded binv_def body_def]
  show k: "length (keys T) \<le> Suc (bx_kmax B)"
    using i ascending_keys_bounded [of "item_keys (items T)"] item_keys_sorted [of "items T"] by (simp add: keys_def)
  show h: "ht \<le> MAX_PATH"
  proof (rule ccontr)
    assume n: "\<not> ht \<le> MAX_PATH"
    then have "lmin L * Suc (kmin L) ^ MAX_PATH \<le> lmin L * Suc (kmin L) ^ (ht - 1)"
      by (intro mult_le_mono2 power_increasing) auto
    also have "\<dots> \<le> length (keys T)" using n i assms(2) by (intro height_min_keys) auto
    finally show False using k keys_few by simp
  qed
  have "length (idxs T) \<le> length (keys T) + ht + 1" using i assms(2) mins by (intro filled_nodes) auto
  then show "length ns \<le> bx_kmax B + MAX_PATH + 2" using i k h by simp
qed

end

end
