(* ===== verification/Bplus_Insert.thy ===== *)
theory Bplus_Insert
  imports Bplus_Ops
begin

text \<open>Insertion keeps the invariant, never panics and adds exactly the key.\<close>

context bp_ops
begin

section \<open>The way down\<close>

lemma frame_child:
  assumes "frep L ns (Fr i ka As kb Bs) r" "length ka = length As" "length kb = length Bs"
  shows "internal_child L (length ka) (ns ! i) = Inr r"
proof -
  have "holds L 0 (ka @ kb) (ns ! i)" "length (ka @ kb) \<le> kcap" "has_kids L (map rt As @ r # map rt Bs) (ns ! i)"
    using assms by simp_all
  then show ?thesis using internal_child_kid [of "ns ! i" "length ka"] kid_has [of "map rt As @ r # map rt Bs" "ns ! i" "length ka"] assms(2)
    by (simp add: holds_def nth_append)
qed

lemma chosen_pos: "chosen w (Fr i ka As kb Bs) \<Longrightarrow> find_gt (bx_search B) (ka @ kb) w = length ka"
  by (simp add: find_gt_law)

lemma descend_ok:
  assumes "st t0 t ns h" "repr L ns (plugs fs (Lf i ks))" "\<forall>f \<in> set fs. fok f \<and> chosen w f"
    "length fs < fuel" "d + length fs \<le> length path"
  shows "bp_descend B fuel w (rt (plugs fs (Lf i ks))) path d t =
    Inr (i, take d path @ map fpos (rev fs) @ drop (d + length fs) path, d + length fs)"
  using assms(2-)
proof (induction fs arbitrary: fuel d path rule: rev_induct)
  case Nil
  then obtain f where "fuel = Suc f" by (cases fuel) auto
  moreover have "is_leaf (ns ! i)" "i < length ns" using Nil.prems(1) leaf_flag(1) by auto
  ultimately show ?case using st_node [OF assms(1)] by simp
next
  case (snoc f fs)
  obtain fuel' where fl: "fuel = Suc fuel'" using snoc.prems by (cases fuel) auto
  obtain j ka As kb Bs where f: "f = Fr j ka As kb Bs" by (cases f)
  let ?sub = "plugs fs (Lf i ks)"
  have r: "frep L ns f (rt ?sub)" "repr L ns ?sub" using snoc.prems(1) by (simp_all add: repr_plug)
  have n: "j < length ns" "holds L 0 (ka @ kb) (ns ! j)" "length (ka @ kb) \<le> kcap" using r(1) f by simp_all
  have fo: "length ka = length As" "length kb = length Bs" "chosen w f" using snoc.prems(2) f by auto
  have ks: "bp_keys (ns ! j) = Inr (ka @ kb)" using n data_fits by (intro keys_of) auto
  have "bp_descend B fuel' w (rt ?sub) (path[d := fpos f]) (d + 1) t =
      Inr (i, take (d + 1) (path[d := fpos f]) @ map fpos (rev fs) @ drop (d + 1 + length fs) (path[d := fpos f]), d + 1 + length fs)"
    using snoc.prems r(2) fl by (intro snoc.IH) auto
  moreover have "take (d + 1) (path[d := fpos f]) = take d path @ [fpos f]"
    using snoc.prems(4) by (simp add: take_Suc_conv_app_nth)
  moreover have "internal_child L (length ka) (ns ! j) = Inr (rt ?sub)"
    using frame_child r(1) fo(1,2) unfolding f by blast
  moreover have "bp_descend B fuel w (rt (plugs (fs @ [f]) (Lf i ks))) path d t =
      bp_descend B fuel' w (rt ?sub) (path[d := fpos f]) (d + 1) t"
    using fl st_node [OF assms(1), of j] n(1) leaf_flag(2) [OF n(2)] ks chosen_pos [of w j ka As kb Bs] fo
      f snoc.prems(4) \<open>internal_child L (length ka) (ns ! j) = Inr (rt ?sub)\<close> by (simp add: Let_def)
  ultimately show ?case by simp
qed

section \<open>A leaf grows\<close>

lemma plugs_not_leaf: "fs \<noteq> [] \<Longrightarrow> plugs fs t \<noteq> Lf j ks"
proof (induction fs arbitrary: t)
  case (Cons f fs)
  then show ?case by (cases fs; cases f) auto
qed simp

lemma leaf_frame:
  assumes "body nil km ns (idxs (plugs fs (Lf i ks))) lvs its"
  shows "i \<notin> set (frames_idxs fs)"
proof -
  have "distinct (frames_idxs fs @ [i])"
    using assms idxs_plugs [of fs "Lf i ks"] unfolding body_def by (metis distinct_count_atmost_1 idxs.simps(1) set_mset_mset)
  then show ?thesis by simp
qed

lemma leaf_grow:
  assumes b: "binv L (bx_kmax B) ns h (plugs fs (Lf i ks))" and fo: "\<forall>f \<in> set fs. fok f"
    and ks': "ks' = insert_at pos w ks" "length ks < lcap" and n: "holds L FLAG_LEAF ks' n" "bn_link n = bn_link (ns ! i)"
    and asc: "ascending (pres fs @ map Key ks' @ posts fs)" and w: "w \<le> bx_kmax B"
  shows "binv L (bx_kmax B) (ns[i := n]) (h\<lparr>bh_nkeys := Suc (bh_nkeys h)\<rparr>) (plugs fs (Lf i ks'))"
proof -
  note b' = b [unfolded binv_def]
  let ?T = "plugs fs (Lf i ks)" and ?T' = "plugs fs (Lf i ks')"
  have bd: "body (bl_nil L) (bx_kmax B) ns (idxs ?T) (leaves ?T) (items ?T)" using b' by blast
  have ni: "i \<notin> set (frames_idxs fs)" using leaf_frame bd .
  have r: "freps L ns fs i" "i < length ns" using b' by (auto simp: repr_plugs)
  have "length ks' \<le> lcap" using ks' by simp
  then have repr: "repr L (ns[i := n]) ?T'" using r ni n(1) by (simp add: repr_plugs freps_upd)
  obtain ht where ht: "shaped ht ?T" using b' by blast
  obtain h' where h': "shaped h' (Lf i ks)" "fshaped h' fs" using plugs_shaped [OF ht fo] by blast
  then have shp: "shaped (h' + length fs) ?T'" by (intro shaped_plugs) auto
  have ne: "ks' \<noteq> []" using ks'(1) by (simp add: insert_at_def)
  have fil: "filled (lmin L) (kmin L) ?T'"
  proof (cases fs)
    case Nil
    then show ?thesis using ne by (simp add: filled_def)
  next
    case (Cons f fs')
    have "?T \<noteq> Lf j []" for j using plugs_not_leaf [of fs] Cons by simp
    then have "fill (lmin L) (kmin L) True ?T" "root_key ?T" using b' by (auto simp: filled_def)
    moreover have "root_key ?T'" using root_key_plugs [of fs "Lf i ks" "Lf i ks'"] Cons calculation(2) by simp
    moreover have "fill (lmin L) (kmin L) True ?T'"
      using calculation(1) ne ks' unfolding fill_plugs by auto
    ultimately show ?thesis by (simp add: filled_def)
  qed
  have it: "items ?T = pres fs @ map Key ks @ posts fs" "items ?T' = pres fs @ map Key ks' @ posts fs"
    using items_plugs [OF fo] by simp_all
  have lv: "map fst (leaves ?T') = map fst (leaves ?T)" by (simp add: leaves_plugs)
  have "mset (idxs ?T') = mset (idxs ?T)" using idxs_plugs [of fs] by simp
  moreover have "body (bl_nil L) (bx_kmax B) (ns[i := n]) (idxs ?T) (leaves ?T') (items ?T')"
  proof -
    have "chain (bl_nil L) (\<lambda>j. bn_link (ns[i := n] ! j)) (map fst (leaves ?T'))
        \<longleftrightarrow> chain (bl_nil L) (\<lambda>j. bn_link (ns ! j)) (map fst (leaves ?T))"
      unfolding lv using n(2) r(2) by (intro chain_cong) (simp add: nth_list_update)
    then show ?thesis using bd asc w ks'(1) unfolding body_def it by (auto simp: item_keys_set)
  qed
  ultimately have "body (bl_nil L) (bx_kmax B) (ns[i := n]) (idxs ?T') (leaves ?T') (items ?T')"
    using body_mset by metis
  moreover have "header_ok (h\<lparr>bh_nkeys := Suc (bh_nkeys h)\<rparr>) (rt ?T') (leaves ?T') (items ?T')"
  proof -
    have "fst (last (leaves ?T')) = fst (last (leaves ?T))"
      using arg_cong [OF lv, of last] leaves_ne [OF ht] leaves_ne [OF shp] by (simp add: last_map)
    then show ?thesis using b' ks'(1) it by (simp add: header_ok_def rt_plugs)
  qed
  ultimately show ?thesis using repr shp fil unfolding binv_def by blast
qed

section \<open>A split moves up\<close>

lemma pend_room:
  assumes p: "pend L (bx_kmax B) ns h ht (Fr i ka As kb Bs # fs) l k r" and room: "length (ka @ kb) < kcap"
    and n: "holds L 0 (ka @ k # kb) n" "has_kids L (map rt As @ rt l # rt r # map rt Bs) n"
  shows "binv L (bx_kmax B) (ns[i := n]) h (plugs fs (Nd i (ka @ k # kb) (As @ l # r # Bs)))"
proof -
  let ?f = "Fr i ka As kb Bs" and ?N = "Nd i (ka @ k # kb) (As @ l # r # Bs)"
  note p' = p [unfolded pend_def]
  have bd: "body (bl_nil L) (bx_kmax B) ns (frames_idxs (?f # fs) @ idxs l @ idxs r)
      (leaves_before (?f # fs) @ leaves l @ leaves r @ leaves_after (?f # fs))
      (pres (?f # fs) @ items l @ Sep k # items r @ posts (?f # fs))" using p' by blast
  have d: "distinct (frames_idxs (?f # fs) @ idxs l @ idxs r)" using bd by (simp add: body_def)
  have fr: "frep L ns ?f (rt l)" "freps L ns fs i" "repr L ns l" "repr L ns r" using p' by simp_all
  have own: "repr L (ns[i := n]) c" if "c \<in> set As \<or> c \<in> set Bs \<or> c = l \<or> c = r" for c
    using that d fr by (intro tree_upd [THEN iffD2]) auto
  have "repr L (ns[i := n]) ?N" using own n room fr(1) by auto
  moreover have "freps L (ns[i := n]) fs (rt ?N)" using d fr(2) by (subst freps_upd) auto
  ultimately have repr: "repr L (ns[i := n]) (plugs fs ?N)" by (simp only: repr_plugs simp_thms)
  have sh: "fshaped (Suc ht) fs" "shaped (Suc ht) ?N" "length ka = length As" "length kb = length Bs" using p' by auto
  have fok: "\<forall>f \<in> set fs. fok f" using fshaped_fok [OF sh(1)] by blast
  have it: "items (plugs fs ?N) = pres (?f # fs) @ items l @ Sep k # items r @ posts (?f # fs)"
    using items_plugs [OF fok, of ?N] weave_mid [of ka "map items As" "k # kb" "items r # map items Bs" "items l"] sh by simp
  have lv: "leaves (plugs fs ?N) = leaves_before (?f # fs) @ leaves l @ leaves r @ leaves_after (?f # fs)"
    by (simp add: leaves_plugs)
  have "mset (idxs (plugs fs ?N)) = mset (frames_idxs (?f # fs) @ idxs l @ idxs r)"
    using idxs_plugs [of fs ?N] by simp
  moreover have "body (bl_nil L) (bx_kmax B) (ns[i := n]) (frames_idxs (?f # fs) @ idxs l @ idxs r) (leaves (plugs fs ?N)) (items (plugs fs ?N))"
  proof -
    have "i \<noteq> j" if "j \<in> set (map fst (leaves (plugs fs ?N)))" for j
      using that d unfolding lv by (auto dest: leaves_idxs leaves_before_idxs leaves_after_idxs)
    then have "chain (bl_nil L) (\<lambda>j. bn_link (ns[i := n] ! j)) (map fst (leaves (plugs fs ?N)))
        \<longleftrightarrow> chain (bl_nil L) (\<lambda>j. bn_link (ns ! j)) (map fst (leaves (plugs fs ?N)))"
      by (intro chain_cong) auto
    then show ?thesis using bd unfolding body_def it lv by simp
  qed
  ultimately have "body (bl_nil L) (bx_kmax B) (ns[i := n]) (idxs (plugs fs ?N)) (leaves (plugs fs ?N)) (items (plugs fs ?N))"
    using body_mset by metis
  moreover have "header_ok h (rt (plugs fs ?N)) (leaves (plugs fs ?N)) (items (plugs fs ?N))"
  proof -
    have "header_ok h (rt (plugs (?f # fs) l)) (leaves_before (?f # fs) @ leaves l @ leaves r @ leaves_after (?f # fs))
        (pres (?f # fs) @ items l @ Sep k # items r @ posts (?f # fs))" using p' by blast
    moreover have "rt (plugs fs ?N) = rt (plugs (?f # fs) l)" by (simp add: rt_plugs)
    ultimately show ?thesis unfolding it lv by (simp only:)
  qed
  moreover have "filled (lmin L) (kmin L) (plugs fs ?N)"
  proof -
    have "fill (lmin L) (kmin L) (hole True fs) ?N" using p' by (auto simp: fills_append fills_Cons)
    then have "fill (lmin L) (kmin L) True (plugs fs ?N)" using p' by (simp add: fill_plugs)
    moreover have "root_key (plugs fs ?N)"
      using p' root_key_plugs [of fs "plug ?f l" ?N] by (cases "fs = []") auto
    ultimately show ?thesis by (simp add: filled_def)
  qed
  ultimately show ?thesis using repr shaped_plugs [OF sh(2,1)] unfolding binv_def by blast
qed

lemma pend_root:
  assumes p: "pend L (bx_kmax B) ns h ht [] l k r" and n: "holds L 0 [k] n" "has_kids L [rt l, rt r] n"
  shows "binv L (bx_kmax B) (ns @ [n]) (h\<lparr>bh_root := length ns\<rparr>) (Nd (length ns) [k] [l, r])"
proof -
  note p' = p [unfolded pend_def]
  let ?N = "Nd (length ns) [k] [l, r]"
  have rl: "repr L ns l" "repr L ns r" using p' by simp_all
  have "repr L (ns @ [n]) ?N" using rl n caps_min by (auto simp: repr_grow)
  moreover have "shaped (Suc ht) ?N" using p' by simp
  moreover have "filled (lmin L) (kmin L) ?N" using p' by (simp add: filled_def)
  moreover have "body (bl_nil L) (bx_kmax B) (ns @ [n]) (idxs ?N) (leaves ?N) (items ?N)"
  proof -
    have "j < length ns" if "j \<in> set (map fst (leaves l @ leaves r))" for j
      using that rl by (auto dest!: leaves_idxs repr_idxs)
    then have "chain (bl_nil L) (\<lambda>j. bn_link ((ns @ [n]) ! j)) (map fst (leaves l @ leaves r))
        \<longleftrightarrow> chain (bl_nil L) (\<lambda>j. bn_link (ns ! j)) (map fst (leaves l @ leaves r))"
      by (intro chain_cong) (auto simp: nth_append)
    moreover have "length ns \<notin> set (idxs l @ idxs r)" using rl repr_idxs by fastforce
    ultimately show ?thesis using p' unfolding body_def by simp
  qed
  moreover have "header_ok (h\<lparr>bh_root := length ns\<rparr>) (rt ?N) (leaves ?N) (items ?N)" using p' by (simp add: header_ok_def)
  ultimately show ?thesis unfolding binv_def by blast
qed

lemma frep_idxs: "frep L ns f h \<Longrightarrow> j \<in> set (frame_idxs f) \<Longrightarrow> j < length ns"
  by (cases f) (auto dest: repr_idxs)

lemma freps_idxs: "freps L ns fs h \<Longrightarrow> j \<in> set (frames_idxs fs) \<Longrightarrow> j < length ns"
  by (induction fs arbitrary: h) (auto dest: frep_idxs)

text \<open>The node at \<open>i\<close> is no leaf: rewriting it and adding a node keeps the chain.\<close>

lemma body_split:
  assumes b: "body nil km ns is lvs its" and l: "set (map fst lvs) \<subseteq> set is - {i}" and j: "\<forall>j \<in> set is. j < length ns"
  shows "body nil km (ns[i := n] @ [n']) (length ns # is) lvs its"
proof -
  have "chain nil (\<lambda>j. bn_link ((ns[i := n] @ [n']) ! j)) (map fst lvs) \<longleftrightarrow> chain nil (\<lambda>j. bn_link (ns ! j)) (map fst lvs)"
  proof (rule chain_cong)
    fix a assume "a \<in> set (map fst lvs)"
    then have "a \<in> set is" "a \<noteq> i" using l by auto
    then show "bn_link ((ns[i := n] @ [n']) ! a) = bn_link (ns ! a)" using j by (simp add: nth_append)
  qed
  then show ?thesis using b j unfolding body_def by auto
qed

lemma fills_split:
  assumes "fills lm km r (xs @ ys)" "ys \<noteq> []"
  shows "fills lm km False xs" "fills lm km r ys"
  using assms by (simp_all add: fills_append fills_False)

lemma weave_cut:
  assumes "length kk = Suc m" "length cc = Suc (Suc m)" "j \<le> m"
  shows "weave (take j kk) (take (Suc j) cc) @ Sep (kk ! j) # weave (drop (Suc j) kk) (drop (Suc j) cc) = weave kk cc"
proof -
  have "weave (take j kk @ kk ! j # drop (Suc j) kk) (take (Suc j) cc @ drop (Suc j) cc) =
      weave (take j kk) (take (Suc j) cc) @ Sep (kk ! j) # weave (drop (Suc j) kk) (drop (Suc j) cc)"
    using assms by (intro weave_split) auto
  then show ?thesis using assms by (simp add: id_take_nth_drop [symmetric])
qed

lemma items_cut:
  assumes "length kk = Suc m" "length cc = Suc (Suc m)" "j \<le> m"
  shows "items (Nd a (take j kk) (take (Suc j) cc)) @ Sep (kk ! j) # items (Nd b (drop (Suc j) kk) (drop (Suc j) cc)) = weave kk (map items cc)"
  using weave_cut [of kk m "map items cc" j] assms by (simp add: take_map drop_map)

lemma pend_split:
  fixes ka kb :: "nat list" and k :: nat and As Bs :: "btree list" and l r :: btree
  defines "kk \<equiv> ka @ k # kb" and "cc \<equiv> As @ l # r # Bs" and "imid \<equiv> kcap div 2"
  assumes p: "pend L (bx_kmax B) ns h ht (Fr i ka As kb Bs # fs) l k r" and full: "length (ka @ kb) = kcap"
    and n1: "holds L 0 (take imid kk) n1" "has_kids L (map rt (take (Suc imid) cc)) n1"
    and n2: "holds L 0 (drop (Suc imid) kk) n2" "has_kids L (map rt (drop (Suc imid) cc)) n2"
  shows "pend L (bx_kmax B) (ns[i := n1] @ [n2]) h (Suc ht) fs (Nd i (take imid kk) (take (Suc imid) cc)) (kk ! imid)
    (Nd (length ns) (drop (Suc imid) kk) (drop (Suc imid) cc))"
    (is "pend _ _ ?ns _ _ _ ?l _ ?r")
proof -
  let ?f = "Fr i ka As kb Bs" and ?k = "kk ! imid"
  let ?is = "frames_idxs (?f # fs) @ idxs l @ idxs r"
  let ?lvs = "leaves_before (?f # fs) @ leaves l @ leaves r @ leaves_after (?f # fs)"
  let ?its = "pres (?f # fs) @ items l @ Sep k # items r @ posts (?f # fs)"
  note p' = p [unfolded pend_def]
  have bd: "body (bl_nil L) (bx_kmax B) ns ?is ?lvs ?its" using p' by blast
  have d: "distinct ?is" using bd by (simp add: body_def)
  have fr: "frep L ns ?f (rt l)" "freps L ns fs i" "repr L ns l" "repr L ns r" using p' by simp_all
  have sh: "fshaped (Suc ht) fs" "length ka = length As" "length kb = length Bs" "\<forall>c \<in> set cc. shaped ht c" using p' by (auto simp: cc_def)
  have lens: "length kk = Suc kcap" "length cc = Suc (Suc kcap)" using full sh by (auto simp: kk_def cc_def)
  have im: "Suc imid \<le> kcap" "kmin L = imid" "imid \<le> kcap - imid" using caps_min(2) by (auto simp: imid_def kmin_def)
  have inn: "i < length ns" using fr(1) by simp
  have own: "repr L ?ns c" if "c \<in> set cc" for c
  proof -
    have "i \<notin> set (idxs c)" "repr L ns c" using that d fr by (auto simp: cc_def)
    then show ?thesis by (simp add: tree_upd repr_grow)
  qed
  have rl: "repr L ?ns ?l" "repr L ?ns ?r"
    using own n1 n2 inn lens im by (auto simp: nth_append dest: in_set_takeD in_set_dropD)
  have ff: "freps L ?ns fs i" using d fr(2) by (intro freps_grow) (simp add: freps_upd)
  have "items ?l @ Sep ?k # items ?r = weave kk (map items cc)"
    using lens im by (intro items_cut [of _ kcap]) simp_all
  also have "\<dots> = pre ?f @ items l @ Sep k # items r @ post ?f"
    using weave_mid [of ka "map items As" "k # kb" "items r # map items Bs" "items l"] sh by (simp add: kk_def cc_def)
  finally have "(items ?l @ Sep ?k # items ?r) @ posts fs = (pre ?f @ items l @ Sep k # items r @ post ?f) @ posts fs" by simp
  then have it: "pres fs @ items ?l @ Sep ?k # items ?r @ posts fs = ?its" by simp
  have "leaves ?l @ leaves ?r = concat (map leaves cc)"
    unfolding leaves.simps concat_append [symmetric] map_append [symmetric] by simp
  then have "(leaves ?l @ leaves ?r) @ leaves_after fs = concat (map leaves cc) @ leaves_after fs" by simp
  then have lv: "leaves_before fs @ leaves ?l @ leaves ?r @ leaves_after fs = ?lvs" by (simp add: cc_def)
  have "concat (map idxs (take (Suc imid) cc)) @ concat (map idxs (drop (Suc imid) cc)) = concat (map idxs cc)"
    unfolding concat_append [symmetric] map_append [symmetric] by simp
  then have "mset (concat (map idxs (take (Suc imid) cc))) + mset (concat (map idxs (drop (Suc imid) cc))) = mset (concat (map idxs cc))"
    by (metis mset_append)
  then have ix: "mset (length ns # ?is) = mset (frames_idxs fs @ idxs ?l @ idxs ?r)" by (simp add: cc_def ac_simps)
  have "set (map fst ?lvs) \<subseteq> set ?is - {i}"
    using d by (auto dest: leaves_idxs leaves_before_idxs leaves_after_idxs)
  moreover have "\<forall>j \<in> set ?is. j < length ns"
    using fr by (auto dest: repr_idxs freps_idxs)
  ultimately have "body (bl_nil L) (bx_kmax B) ?ns (length ns # ?is) ?lvs ?its" using bd by (intro body_split)
  then have bd': "body (bl_nil L) (bx_kmax B) ?ns (frames_idxs fs @ idxs ?l @ idxs ?r)
      (leaves_before fs @ leaves ?l @ leaves ?r @ leaves_after fs) (pres fs @ items ?l @ Sep ?k # items ?r @ posts fs)"
    unfolding it lv body_mset [OF ix] .
  have "fills (lmin L) (kmin L) (hole True fs) cc" using p' by (auto simp: cc_def fills_append fills_Cons)
  then have "fills (lmin L) (kmin L) (hole True fs) (take (Suc imid) cc @ drop (Suc imid) cc)" by simp
  then have fl: "fills (lmin L) (kmin L) False (take (Suc imid) cc)" "fills (lmin L) (kmin L) (hole True fs) (drop (Suc imid) cc)"
    by (rule fills_split; use lens im in simp)+
  have shr: "shaped (Suc ht) ?l" "shaped (Suc ht) ?r" using sh(4) lens im by (auto dest: in_set_takeD in_set_dropD)
  have rk: "fs \<noteq> [] \<longrightarrow> root_key (plugs fs ?l)" using p' root_key_plugs [of fs "plug ?f l" ?l] by simp
  have hd: "header_ok h (rt (plugs fs ?l)) (leaves_before fs @ leaves ?l @ leaves ?r @ leaves_after fs)
      (pres fs @ items ?l @ Sep ?k # items ?r @ posts fs)"
  proof -
    have "header_ok h (rt (plugs (?f # fs) l)) ?lvs ?its" using p' by blast
    moreover have "rt (plugs fs ?l) = rt (plugs (?f # fs) l)" by (simp add: rt_plugs)
    ultimately show ?thesis unfolding it lv by (simp only:)
  qed
  have "ffill (lmin L) (kmin L) True fs" using p' by simp
  then show ?thesis unfolding pend_def using ff rl sh(1) shr fl lens im rk bd' hd by simp
qed

text \<open>The three ways a pending split is placed.\<close>

lemma propagate_room:
  assumes s: "st t0 t ns h" "length ns \<le> bx_nil B" and f: "frep L ns (Fr i ka As kb Bs) x" "length ka = length As" "length kb = length Bs"
    and room: "length (ka @ kb) < kcap" and path: "nth_res path dp = Inr (i, length ka)"
  shows "\<exists>t' n. bp_propagate B path (Suc dp) k pc t = Inr t' \<and> st t0 t' (ns[i := n]) h \<and> holds L 0 (ka @ k # kb) n \<and>
    has_kids L (map rt As @ x # pc # map rt Bs) n"
proof -
  let ?p = "ns ! i" and ?cs = "map rt As @ x # map rt Bs"
  have p: "i < length ns" "holds L 0 (ka @ kb) ?p" "has_kids L ?cs ?p" using f(1) by simp_all
  have i1: "insert_at (length ka) k (ka @ kb) = ka @ k # kb" by (simp add: insert_at_def)
  have i2: "insert_at (Suc (length ka)) pc ?cs = map rt As @ x # pc # map rt Bs" using f(2) by (simp add: insert_at_def)
  obtain n where n: "bp_node_insert L (length ka) (length (ka @ kb)) k pc ?p = Inr n" "holds L 0 (ka @ k # kb) n"
    "has_kids L (map rt As @ x # pc # map rt Bs) n"
    using node_insert_ok [OF p(2,3), of "length ka" k pc] f room unfolding i1 i2 by auto
  obtain t' where t': "bp_set_node B i n t = Inr t'" "st t0 t' (ns[i := n]) h"
    using st_set_node [OF s(1) p(1) s(2), of n] holds_dom n(2) by blast
  have c: "bn_count ?p = length (ka @ kb)" using p(2) by (simp add: holds_def)
  have "bp_propagate B path (Suc dp) k pc t = Inr t'"
    using path st_node [OF s(1), of i] p(1) c n(1) t'(1) room by simp
  then show ?thesis using t'(2) n by blast
qed

lemma propagate_root:
  assumes s: "st t0 t ns h" "length ns < bx_nil B"
  shows "\<exists>t' n. bp_propagate B path 0 k pc t = Inr t' \<and> st t0 t' (ns @ [n]) (h\<lparr>bh_root := length ns\<rparr>) \<and> holds L 0 [k] n \<and>
    has_kids L [bh_root h, pc] n"
proof -
  let ?new = "new_internal L"
  obtain t1 where t1: "bp_alloc_internal B t = Inr (length ns, t1)" "st t0 t1 (ns @ [?new]) h" using st_alloc_internal [OF s] by blast
  have "(0 :: nat) < lcap" using caps_min by simp
  then obtain d where d: "upd_res (bn_data ?new) 0 k = Inr d" "holds L 0 [k] (set_count 1 (?new\<lparr>bn_data := d\<rparr>))"
    using leaf_append_ok [OF new_nodes(2), of k] by auto
  let ?n1 = "set_count 1 (?new\<lparr>bn_data := d\<rparr>)"
  let ?n2 = "put_kid 0 (bh_root h) ?n1"
  let ?n = "put_kid 1 pc ?n2"
  have l: "length (bn_data ?n1) = dlen" using d(2) by (simp add: holds_def)
  have k1: "Suc 0 \<le> kcap" using caps_min by simp
  have h1: "holds L 0 [k] ?n" using d(2) k1 by (simp add: holds_put)
  have h2: "has_kids L [bh_root h, pc] ?n"
    using kid_put [of ?n2 1 _ pc] kid_put [of ?n1 0 _ "bh_root h"] l k1 by (auto simp: has_kids_def nth_Cons' less_Suc_eq)
  have "length (ns @ [?new]) \<le> bx_nil B" using s(2) by simp
  then obtain t2 where t2: "bp_set_node B (length ns) ?n t1 = Inr t2" "st t0 t2 (ns @ [?n]) h"
    using st_set_node [OF t1(2), of "length ns" ?n] holds_dom h1 by auto
  obtain t3 where t3: "bp_set_root B (length ns) t2 = Inr t3" "st t0 t3 (ns @ [?n]) (h\<lparr>bh_root := length ns\<rparr>)"
    using st_sets(1) [OF t2(2)] by blast
  have e1: "set_internal_child L 0 (bh_root h) ?n1 = Inr ?n2" using l by (rule set_child_put)
  have e2: "set_internal_child L 1 pc ?n2 = Inr ?n" using l by (intro set_child_put) simp
  have "bp_propagate B path 0 k pc t = Inr t3"
    using t1(1) st_node [OF t1(2), of "length ns"] d(1) st_heads(1) [OF t1(2)] e1 e2 t2(1) t3(1) by simp
  then show ?thesis using t3(2) h1 h2 by blast
qed

lemma propagate_split:
  fixes ka kb :: "nat list" and k pc x :: nat and As Bs :: "btree list"
  defines "kk \<equiv> ka @ k # kb" and "cs \<equiv> map rt As @ x # pc # map rt Bs" and "imid \<equiv> kcap div 2"
  assumes s: "st t0 t ns h" "length ns < bx_nil B" and f: "frep L ns (Fr i ka As kb Bs) x" "length ka = length As" "length kb = length Bs"
    and full: "length (ka @ kb) = kcap" and path: "nth_res path dp = Inr (i, length ka)"
  shows "\<exists>t' n1 n2. bp_propagate B path (Suc dp) k pc t = bp_propagate B path dp (kk ! imid) (length ns) t' \<and>
    st t0 t' (ns[i := n1] @ [n2]) h \<and> holds L 0 (take imid kk) n1 \<and> has_kids L (take (Suc imid) cs) n1 \<and>
    holds L 0 (drop (Suc imid) kk) n2 \<and> has_kids L (drop (Suc imid) cs) n2"
proof -
  let ?p = "ns ! i" and ?cs = "map rt As @ x # map rt Bs" and ?new = "new_internal L"
  have p: "i < length ns" "holds L 0 (ka @ kb) ?p" "has_kids L ?cs ?p" using f(1) by simp_all
  have p': "length (bn_data ?p) = dlen" "bn_flags ?p = 0" "bn_count ?p = kcap" using p(2) full by (simp_all add: holds_def)
  have im: "Suc imid \<le> kcap" "0 < imid" using caps_min(2) by (auto simp: imid_def)
  have cp: "length ka \<le> kcap" using full by simp
  have kb: "bp_split_keys L (length ka) kcap k ?p = Inr kk"
    using split_keys_ok [OF p(2) full cp, of k] by (simp add: insert_at_def kk_def)
  have cb: "bp_split_children L (length ka) kcap pc ?p = Inr cs"
    using split_children_ok [OF p'(1) p(3) _ cp, of pc] full f by (simp add: insert_at_def cs_def)
  have lens: "length kk = Suc kcap" "length cs = Suc (Suc kcap)" using full f by (auto simp: kk_def cs_def)
  have sl1: "slice_range 0 imid kk = Inr (take imid kk)" "slice_range (imid + 1) (kcap + 1) kk = Inr (drop (Suc imid) kk)"
    using lens im by (simp_all add: slice_range_def)
  have len1: "length (take imid kk) = imid" "length (drop (Suc imid) kk) = kcap - imid" using lens im by simp_all
  obtain d1 n1 where n1: "copy_into 0 imid (take imid kk) (bn_data ?p) = Inr d1"
    "bp_put_children L cs 0 [0 ..< imid + 1] (set_count imid (?p\<lparr>bn_data := d1\<rparr>)) = Inr n1"
    "holds L 0 (take imid kk) n1" "has_kids L (take (Suc imid) cs) n1"
    using write_half [OF p'(1,2), of "take imid kk" 0 cs] len1(1) lens im by auto
  have new: "length (bn_data ?new) = dlen" "bn_flags ?new = 0" using new_nodes(2) by (simp_all add: holds_def)
  have rest: "take (Suc (kcap - imid)) (drop (Suc imid) cs) = drop (Suc imid) cs" using lens im by simp
  obtain d2 n2 where n2: "copy_into 0 (kcap - imid) (drop (Suc imid) kk) (bn_data ?new) = Inr d2"
    "bp_put_children L cs (imid + 1) [0 ..< kcap - imid + 1] (set_count (kcap - imid) (?new\<lparr>bn_data := d2\<rparr>)) = Inr n2"
    "holds L 0 (drop (Suc imid) kk) n2" "has_kids L (drop (Suc imid) cs) n2"
    using write_half [OF new, of "drop (Suc imid) kk" "imid + 1" cs] len1(2) lens im rest by auto
  obtain t1 where t1: "bp_alloc_internal B t = Inr (length ns, t1)" "st t0 t1 (ns @ [?new]) h" using st_alloc_internal [OF s] by blast
  have room: "length (ns @ [?new]) \<le> bx_nil B" using s(2) by simp
  obtain t2 where t2: "bp_set_node B i n1 t1 = Inr t2" "st t0 t2 (ns[i := n1] @ [?new]) h"
    using st_set_node [OF t1(2) _ room, of i n1] holds_dom n1(3) p(1) by (auto simp: list_update_append)
  have room': "length (ns[i := n1] @ [?new]) \<le> bx_nil B" using s(2) by simp
  obtain t3 where t3: "bp_set_node B (length ns) n2 t2 = Inr t3" "st t0 t3 (ns[i := n1] @ [n2]) h"
    using st_set_node [OF t2(2) _ room', of "length ns" n2] holds_dom n2(3) by (auto simp: list_update_append)
  have g: "bp_get_node B i t = Inr ?p" "bp_get_node B (length ns) t2 = Inr ?new"
    using st_node [OF s(1)] st_node [OF t2(2)] p(1) by (simp_all add: nth_append)
  have "nth_res kk imid = Inr (kk ! imid)" using lens im by simp
  then have "bp_propagate B path (Suc dp) k pc t = bp_propagate B path dp (kk ! imid) (length ns) t3"
    using path g p'(3) t1(1) kb cb sl1 n1(1,2) n2(1,2) t2(1) t3(1)
    unfolding bp_propagate.simps(2) imid_def by (simp add: Let_def del: upt_Suc)
  then show ?thesis using t3(2) n1(3,4) n2(3,4) by blast
qed

lemma propagate_ok:
  assumes "st t0 t ns h" "pend L (bx_kmax B) ns h ht fs l k r" "length ns + length fs < bx_nil B"
    "take (length fs) path = map fpos (rev fs)" "length fs \<le> length path"
  shows "\<exists>t' ns' h' T. bp_propagate B path (length fs) k (rt r) t = Inr t' \<and> st t0 t' ns' h' \<and> binv L (bx_kmax B) ns' h' T \<and>
    items T = pres fs @ items l @ Sep k # items r @ posts fs"
  using assms
proof (induction fs arbitrary: t ns ht l k r)
  case Nil
  have h: "bh_root h = rt l" using Nil.prems(2) by (simp add: pend_def header_ok_def)
  obtain t' n where t': "bp_propagate B path 0 k (rt r) t = Inr t'" "st t0 t' (ns @ [n]) (h\<lparr>bh_root := length ns\<rparr>)" "holds L 0 [k] n"
    "has_kids L [rt l, rt r] n"
    using propagate_root [OF Nil.prems(1), of path k "rt r"] Nil.prems(3) h by auto
  have "binv L (bx_kmax B) (ns @ [n]) (h\<lparr>bh_root := length ns\<rparr>) (Nd (length ns) [k] [l, r])"
    using pend_root [OF Nil.prems(2) t'(3,4)] .
  then show ?case using t'(1,2) by fastforce
next
  case (Cons f fs)
  obtain i ka As kb Bs where f: "f = Fr i ka As kb Bs" by (cases f)
  have p: "frep L ns (Fr i ka As kb Bs) (rt l)" "length ka = length As" "length kb = length Bs"
    using Cons.prems(2) f by (simp_all add: pend_def)
  have tk: "take (Suc (length fs)) path = map fpos (rev fs) @ [fpos f]" using Cons.prems(4) by simp
  have len: "length fs < length path" using Cons.prems(5) by simp
  have "take (length fs) path @ [path ! length fs] = map fpos (rev fs) @ [fpos f]"
    using tk len by (simp add: take_Suc_conv_app_nth)
  then have pt: "take (length fs) path = map fpos (rev fs)" "path ! length fs = (i, length ka)" using f p(2) by auto
  have path: "nth_res path (length fs) = Inr (i, length ka)" using pt(2) len by simp
  have room: "length ns < bx_nil B" using Cons.prems(3) by simp
  show ?case
  proof (cases "length (ka @ kb) < kcap")
    case True
    obtain t' n where t': "bp_propagate B path (Suc (length fs)) k (rt r) t = Inr t'" "st t0 t' (ns[i := n]) h" "holds L 0 (ka @ k # kb) n"
      "has_kids L (map rt As @ rt l # rt r # map rt Bs) n"
      using propagate_room [OF Cons.prems(1) less_imp_le [OF room] p True path, of k "rt r"] by blast
    let ?T = "plugs fs (Nd i (ka @ k # kb) (As @ l # r # Bs))"
    have b: "binv L (bx_kmax B) (ns[i := n]) h ?T" using pend_room [OF Cons.prems(2) [unfolded f] True t'(3,4)] .
    have "\<forall>f \<in> set fs. fok f" using Cons.prems(2) fshaped_fok f by (fastforce simp: pend_def)
    then have "items ?T = pres (f # fs) @ items l @ Sep k # items r @ posts (f # fs)"
      using items_plugs weave_mid [of ka "map items As" "k # kb" "items r # map items Bs" "items l"] p f by simp
    then show ?thesis using t'(1,2) b by fastforce
  next
    case False
    let ?kk = "ka @ k # kb" and ?cc = "As @ l # r # Bs" and ?m = "kcap div 2"
    have full: "length (ka @ kb) = kcap" using False p(1) by simp
    have cs: "map rt As @ rt l # rt r # map rt Bs = map rt ?cc" by simp
    obtain t' n1 n2 where t': "bp_propagate B path (Suc (length fs)) k (rt r) t = bp_propagate B path (length fs) (?kk ! ?m) (length ns) t'"
      "st t0 t' (ns[i := n1] @ [n2]) h" "holds L 0 (take ?m ?kk) n1" "has_kids L (map rt (take (Suc ?m) ?cc)) n1"
      "holds L 0 (drop (Suc ?m) ?kk) n2" "has_kids L (map rt (drop (Suc ?m) ?cc)) n2"
      using propagate_split [OF Cons.prems(1) room p full path, of k "rt r", unfolded cs take_map drop_map] by blast
    let ?l = "Nd i (take ?m ?kk) (take (Suc ?m) ?cc)" and ?r = "Nd (length ns) (drop (Suc ?m) ?kk) (drop (Suc ?m) ?cc)"
    have pd: "pend L (bx_kmax B) (ns[i := n1] @ [n2]) h (Suc ht) fs ?l (?kk ! ?m) ?r"
      using pend_split [OF Cons.prems(2) [unfolded f] full t'(3-6)] .
    have "length (ns[i := n1] @ [n2]) + length fs < bx_nil B" using Cons.prems(3) by simp
    then obtain t'' ns' h' T where T: "bp_propagate B path (length fs) (?kk ! ?m) (length ns) t' = Inr t''" "st t0 t'' ns' h'"
      "binv L (bx_kmax B) ns' h' T" "items T = pres fs @ items ?l @ Sep (?kk ! ?m) # items ?r @ posts fs"
      using Cons.IH [OF t'(2) pd _ pt(1)] len by auto
    have "items ?l @ Sep (?kk ! ?m) # items ?r = weave ?kk (map items ?cc)"
      using full p by (intro items_cut [of _ kcap]) auto
    also have "\<dots> = pre f @ items l @ Sep k # items r @ post f"
      using weave_mid [of ka "map items As" "k # kb" "items r # map items Bs" "items l"] p f by simp
    finally have "pres fs @ (items ?l @ Sep (?kk ! ?m) # items ?r) @ posts fs = pres (f # fs) @ items l @ Sep k # items r @ posts (f # fs)" by simp
    then have "items T = pres (f # fs) @ items l @ Sep k # items r @ posts (f # fs)" using T(4) by simp
    then show ?thesis using T(2,3) t'(1) T(1) by auto
  qed
qed

end

end
