(* ===== verification/Bplus_Set.thy ===== *)
theory Bplus_Set
  imports Bplus_Insert
begin

text \<open>\<open>insert\<close> as a whole: the append to the last leaf, the leaf with room and the leaf that splits.\<close>

lemma leaves_mset: "mset (map fst (leaves t)) \<subseteq># mset (idxs t)"
proof (induction t)
  case (Nd i ks cs)
  then have "mset (concat (map (map fst \<circ> leaves) cs)) \<subseteq># mset (concat (map idxs cs))"
  proof (induction cs)
    case (Cons c cs)
    have "mset (map fst (leaves c)) \<subseteq># mset (idxs c)" using Cons.prems [of c] by simp
    moreover have "mset (concat (map (map fst \<circ> leaves) cs)) \<subseteq># mset (concat (map idxs cs))"
      using Cons.prems by (intro Cons.IH) simp
    ultimately show ?case by (simp add: comp_def subset_mset.add_mono)
  qed simp
  then show ?case by (simp add: map_concat subset_mset.le_add_same_cancel2 subset_mset.order_trans [of _ "mset (concat (map idxs cs))"])
qed simp

lemma leaves_distinct: "distinct (idxs t) \<Longrightarrow> distinct (map fst (leaves t))"
  using leaves_mset [of t] by (metis mset_subset_eq_exists_conv distinct_append ex_mset mset_append mset_eq_imp_distinct_iff)

context bp_ops
begin

section \<open>A leaf splits\<close>

lemma chain_mid:
  assumes "chain nil lk (is @ i # js)" "\<forall>j \<in> set js. j \<noteq> nil"
  shows "lk i = nil \<longleftrightarrow> js = []"
  using chain_split [OF assms(1)] assms(2) by (cases js) auto

lemma binv_ffill:
  assumes "binv L (bx_kmax B) ns h (plugs fs (Lf i ks))"
  shows "ffill (lmin L) (kmin L) True fs" "fs \<noteq> [] \<longrightarrow> root_key (plugs fs t)"
proof -
  have "fs \<noteq> [] \<longrightarrow> fill (lmin L) (kmin L) True (plugs fs (Lf i ks)) \<and> root_key (plugs fs (Lf i ks))"
    using assms plugs_not_leaf [of fs "Lf i ks"] by (auto simp: binv_def filled_def)
  then show "ffill (lmin L) (kmin L) True fs" "fs \<noteq> [] \<longrightarrow> root_key (plugs fs t)"
    using root_key_plugs [of fs t "Lf i ks"] by (cases "fs = []"; simp add: fill_plugs)+
qed

text \<open>The links after the split.\<close>

lemma chain_leaf_split:
  assumes b: "body nil km ns is (lb @ (i, ks) # la) its" and d: "set (map fst (lb @ (i, ks) # la)) \<subseteq> set is" "distinct (map fst (lb @ (i, ks) # la))"
    and j: "\<forall>j \<in> set is. j < length ns" and n: "bn_link n1 = length ns" "bn_link n2 = bn_link (ns ! i)"
  shows "chain nil (\<lambda>j. bn_link ((ns[i := n1] @ [n2]) ! j)) (map fst (lb @ (i, ls) # (length ns, rs) # la))"
proof -
  let ?lk = "\<lambda>j. if j < length ns then bn_link (ns ! j) else 0"
  let ?lk' = "\<lambda>j. if j \<le> length ns then bn_link ((ns[i := n1] @ [n2]) ! j) else 0"
  have i: "i < length ns" using d(1) j by simp
  have lt: "a < length ns" if "a \<in> set (map fst (lb @ (i, ks) # la))" for a using that d(1) j by auto
  have "chain nil ?lk (map fst lb @ i # map fst la) \<longleftrightarrow> chain nil (\<lambda>j. bn_link (ns ! j)) (map fst (lb @ (i, ks) # la))"
    using lt by (subst chain_cong [of _ ?lk]) auto
  then have c: "chain nil ?lk (map fst lb @ i # map fst la)" using b by (simp add: body_def)
  have "chain nil ?lk' (map fst lb @ i # length ns # map fst la)"
  proof (rule chain_insert [OF c])
    show "distinct (map fst lb @ i # map fst la)" using d(2) by simp
    show "length ns \<notin> set (map fst lb @ i # map fst la)" using lt by fastforce
  qed (use n i in \<open>auto simp: nth_append nth_list_update\<close>)
  moreover have "chain nil ?lk' (map fst lb @ i # length ns # map fst la) \<longleftrightarrow>
      chain nil (\<lambda>j. bn_link ((ns[i := n1] @ [n2]) ! j)) (map fst lb @ i # length ns # map fst la)"
    using lt by (intro chain_cong) (auto dest: less_imp_le)
  ultimately show ?thesis by simp
qed

lemma pend_leaf:
  assumes b: "binv L (bx_kmax B) ns h (plugs fs (Lf i ks))" and fo: "\<forall>f \<in> set fs. fok f" and full: "length ks = lcap"
    and ks': "ks' = insert_at pos w ks" and mid: "mid = div_ceil lcap 2" and room: "length ns \<le> bx_nil B"
    and n1: "holds L FLAG_LEAF (take mid ks') n1" "bn_link n1 = length ns"
    and n2: "holds L FLAG_LEAF (drop mid ks') n2" "bn_link n2 = bn_link (ns ! i)"
    and asc: "ascending (pres fs @ map Key ks' @ posts fs)" and w: "w \<le> bx_kmax B"
  shows "pend L (bx_kmax B) (ns[i := n1] @ [n2])
    (h\<lparr>bh_nkeys := Suc (bh_nkeys h), bh_last_leaf := if bn_link (ns ! i) = bx_nil B then length ns else bh_last_leaf h\<rparr>)
    0 fs (Lf i (take mid ks')) (ks' ! mid) (Lf (length ns) (drop mid ks'))"
    (is "pend _ _ ?ns ?h _ _ ?l ?k ?r")
proof -
  note b' = b [unfolded binv_def]
  let ?T = "plugs fs (Lf i ks)"
  let ?lvs = "leaves_before fs @ (i, ks) # leaves_after fs"
  let ?lvs' = "leaves_before fs @ (i, take mid ks') # (length ns, drop mid ks') # leaves_after fs"
  let ?its' = "pres fs @ map Key (take mid ks') @ Sep ?k # map Key (drop mid ks') @ posts fs"
  have lvT: "leaves ?T = ?lvs" by (simp add: leaves_plugs)
  have itT: "items ?T = pres fs @ map Key ks @ posts fs" using items_plugs [OF fo] by simp
  have bd: "body (bl_nil L) (bx_kmax B) ns (idxs ?T) ?lvs (items ?T)" using b' lvT by metis
  have ni: "i \<notin> set (frames_idxs fs)" using leaf_frame [OF bd] .
  have r: "freps L ns fs i" "i < length ns" using b' by (auto simp: repr_plugs)
  have rT: "\<forall>j \<in> set (idxs ?T). j < length ns" using b' repr_idxs by blast
  obtain ht where ht: "shaped ht ?T" using b' by blast
  obtain h' where h': "shaped h' (Lf i ks)" "fshaped h' fs" using plugs_shaped [OF ht fo] by blast
  have sets: "set (map fst ?lvs) \<subseteq> set (idxs ?T)" using leaves_idxs [of _ ?T] lvT by fastforce
  have m: "0 < mid" "mid \<le> lcap" "lmin L \<le> mid" "lmin L \<le> Suc lcap - mid" "length ks' = Suc lcap"
    using caps_min mid full ks' by (auto simp: div_ceil_def lmin_def)
  have "distinct (map fst ?lvs)"
    using leaves_distinct [of ?T] bd lvT by (simp add: body_def)
  then have ch: "chain (bl_nil L) (\<lambda>j. bn_link (?ns ! j)) (map fst ?lvs')"
    using chain_leaf_split [OF bd sets _ rT n1(2) n2(2)] by blast
  have k: "drop mid ks' = ?k # drop (Suc mid) ks'" using m by (simp add: Cons_nth_drop_Suc)
  have "ascending ((pres fs @ map Key (take mid ks')) @ Key ?k # (map Key (drop (Suc mid) ks') @ posts fs))"
  proof -
    have "ks' = take mid ks' @ ?k # drop (Suc mid) ks'" using m by (simp add: id_take_nth_drop)
    then have "map Key ks' = map Key (take mid ks') @ Key ?k # map Key (drop (Suc mid) ks')" by (metis list.simps(9) map_append)
    then show ?thesis using asc by simp
  qed
  then have asc': "ascending ?its'" using ascending_sep unfolding k by fastforce
  have ik: "item_keys ?its' = item_keys (pres fs) @ ks' @ item_keys (posts fs)" by simp
  have ix: "mset (idxs ?T) = mset (frames_idxs fs @ [i])" using idxs_plugs [of fs "Lf i ks"] by simp
  have "body (bl_nil L) (bx_kmax B) ?ns (length ns # idxs ?T) ?lvs' ?its'"
  proof -
    have "\<forall>k \<in> set (item_keys ?its'). k \<le> bx_kmax B" using bd w unfolding ik body_def itT by (auto simp: ks')
    moreover have "distinct (length ns # idxs ?T)" "length (length ns # idxs ?T) = length ?ns" using bd rT by (auto simp: body_def)
    ultimately show ?thesis using ch asc' unfolding body_def by blast
  qed
  moreover have "mset (length ns # idxs ?T) = mset (frames_idxs fs @ idxs ?l @ idxs ?r)" using ix by simp
  ultimately have bd': "body (bl_nil L) (bx_kmax B) ?ns (frames_idxs fs @ idxs ?l @ idxs ?r)
      (leaves_before fs @ leaves ?l @ leaves ?r @ leaves_after fs) (pres fs @ items ?l @ Sep ?k # items ?r @ posts fs)"
    using body_mset by fastforce
  have "bn_link (ns ! i) = bx_nil B \<longleftrightarrow> map fst (leaves_after fs) = []"
  proof (rule chain_mid [of _ "\<lambda>j. bn_link (ns ! j)" "map fst (leaves_before fs)"])
    show "chain (bx_nil B) (\<lambda>j. bn_link (ns ! j)) (map fst (leaves_before fs) @ i # map fst (leaves_after fs))" using bd by (simp add: body_def)
    show "\<forall>j \<in> set (map fst (leaves_after fs)). j \<noteq> bx_nil B"
    proof
      fix j assume "j \<in> set (map fst (leaves_after fs))"
      then have "j \<in> set (map fst ?lvs)" by simp
      then have "j < length ns" using sets rT by blast
      then show "j \<noteq> bx_nil B" using room by simp
    qed
  qed
  then have hd: "header_ok ?h (rt (plugs fs ?l)) (leaves_before fs @ leaves ?l @ leaves ?r @ leaves_after fs)
      (pres fs @ items ?l @ Sep ?k # items ?r @ posts fs)"
    using b' lvT itT full m by (cases "leaves_after fs = []") (auto simp: header_ok_def rt_plugs ks')
  have rp: "repr L ?ns ?l" "repr L ?ns ?r" "freps L ?ns fs i"
    using r n1 n2 m ni by (auto simp: nth_append freps_upd intro!: freps_grow)
  have "fshaped 0 fs" using h' by simp
  moreover have "fill (lmin L) (kmin L) False ?l" "fill (lmin L) (kmin L) (hole True fs) ?r" using m k by auto
  ultimately show ?thesis unfolding pend_def using rp bd' hd binv_ffill [OF b] by simp
qed

section \<open>Insertion\<close>

text \<open>Where the key goes in its leaf.\<close>

lemma leaf_position:
  fixes ks :: "nat list" and w :: nat
  assumes "sorted_wrt (<) ks"
  defines "pos \<equiv> length (takeWhile (\<lambda>k. k < w) ks)"
  shows "find_ge (bx_search B) ks w = pos" "pos \<le> length ks" "pos < length ks \<and> ks ! pos = w \<longleftrightarrow> w \<in> set ks"
    "w \<notin> set ks \<Longrightarrow> \<forall>k \<in> set (take pos ks). k < w" "w \<notin> set ks \<Longrightarrow> \<forall>k \<in> set (drop pos ks). w < k"
proof -
  have s: "sorted ks" using assms(1) by (simp add: strict_sorted_imp_sorted)
  then show "find_ge (bx_search B) ks w = pos" by (simp add: find_ge_law pos_def)
  show le: "pos \<le> length ks" unfolding pos_def by (rule length_takeWhile_le)
  show tk: "\<forall>k \<in> set (take pos ks). k < w" unfolding pos_def by (metis set_takeWhileD takeWhile_eq_take)
  have ge: "w \<le> ks ! j" if "pos \<le> j" "j < length ks" for j
  proof -
    have "\<not> ks ! pos < w" using nth_length_takeWhile [of "\<lambda>k. k < w" ks] that unfolding pos_def by simp
    then show ?thesis using sorted_nth_mono [OF s that] by simp
  qed
  show "pos < length ks \<and> ks ! pos = w \<longleftrightarrow> w \<in> set ks"
  proof
    assume "w \<in> set ks"
    then obtain j where j: "j < length ks" "ks ! j = w" by (auto simp: in_set_conv_nth)
    have "pos \<le> j"
    proof (rule ccontr)
      assume "\<not> pos \<le> j"
      then have "w \<in> set (take pos ks)" using j by (auto simp: in_set_conv_nth)
      then show False using tk by auto
    qed
    then have "w \<le> ks ! pos" "ks ! pos \<le> w" using ge [of pos] sorted_nth_mono [OF s \<open>pos \<le> j\<close> j(1)] j by auto
    then show "pos < length ks \<and> ks ! pos = w" using \<open>pos \<le> j\<close> j(1) by auto
  qed (auto simp: in_set_conv_nth)
  show "\<forall>k \<in> set (drop pos ks). w < k" if "w \<notin> set ks"
  proof
    fix k assume k: "k \<in> set (drop pos ks)"
    then obtain j where "j < length ks - pos" "k = ks ! (pos + j)" by (auto simp: in_set_conv_nth)
    then have "w \<le> k" using ge [of "pos + j"] by simp
    then show "w < k" using that k in_set_dropD [OF k] by (cases "w = k") auto
  qed
qed

lemma leaf_insert_ascending:
  assumes a: "ascending (P @ map Key ks @ Q)" and f: "fits w P Q" and w: "w \<notin> set ks"
  defines "pos \<equiv> length (takeWhile (\<lambda>k. k < w) ks)"
  shows "ascending (P @ map Key (insert_at pos w ks) @ Q)"
proof -
  have s: "sorted_wrt (<) ks" using a by (simp add: sorted_wrt_append)
  have "fits w (P @ map Key (take pos ks)) (map Key (drop pos ks) @ Q)"
  proof -
    have "\<forall>k \<in> set (take pos ks). k < w" "\<forall>k \<in> set (drop pos ks). w < k" unfolding pos_def using leaf_position(4,5) [OF s w] by blast+
    then show ?thesis using f by (auto simp: fits_def)
  qed
  moreover have "map Key (take pos ks) @ map Key (drop pos ks) = map Key ks" unfolding map_append [symmetric] by simp
  then have "(P @ map Key (take pos ks)) @ map Key (drop pos ks) @ Q = P @ map Key ks @ Q" by (metis append.assoc)
  then have "ascending ((P @ map Key (take pos ks)) @ map Key (drop pos ks) @ Q)" using a by (simp only:)
  ultimately show ?thesis using ascending_insert [of "P @ map Key (take pos ks)" "map Key (drop pos ks) @ Q" w]
    by (simp add: insert_at_def)
qed

text \<open>The whole split of a full leaf.\<close>

lemma insert_split_ok:
  assumes s: "st t0 t ns (h\<lparr>bh_nkeys := Suc (bh_nkeys h)\<rparr>)" and b: "binv L (bx_kmax B) ns h (plugs fs (Lf i ks))" and fo: "\<forall>f \<in> set fs. fok f"
    and full: "length ks = lcap" and pos: "pos \<le> length ks" and room: "length ns + length fs + 1 < bx_nil B"
    and path: "take (length fs) path = map fpos (rev fs)" "length fs \<le> length path"
    and asc: "ascending (pres fs @ map Key (insert_at pos w ks) @ posts fs)" and w: "w \<le> bx_kmax B"
  shows "\<exists>t' ns' h' T. bp_insert_split B pos w (ns ! i) i path (length fs) t = Inr t' \<and> st t0 t' ns' h' \<and>
    binv L (bx_kmax B) ns' h' T \<and> item_keys (items T) = item_keys (pres fs @ map Key (insert_at pos w ks) @ posts fs)"
proof -
  let ?h = "h\<lparr>bh_nkeys := Suc (bh_nkeys h)\<rparr>" and ?new = "new_leaf L" and ?ks = "insert_at pos w ks" and ?mid = "div_ceil lcap 2"
  have p: "i < length ns" "holds L FLAG_LEAF ks (ns ! i)" using b by (auto simp: binv_def repr_plugs)
  have new: "length (bn_data ?new) = dlen" "bn_flags ?new = FLAG_LEAF" using new_nodes(1) by (simp_all add: holds_def)
  obtain n1 n2 where n: "bp_leaf_split L pos w (ns ! i) ?new = Inr (n1, n2)" "holds L FLAG_LEAF (take ?mid ?ks) n1"
    "holds L FLAG_LEAF (drop ?mid ?ks) n2" "bn_link n1 = bn_link (ns ! i)"
    using leaf_split_ok [OF p(2) full _ new, of pos w] pos full by auto
  obtain t1 where t1: "bp_alloc_leaf B t = Inr (length ns, t1)" "st t0 t1 (ns @ [?new]) ?h"
    using st_alloc_leaf [OF s] room by auto
  let ?n1 = "set_link (length ns) n1" and ?n2 = "set_link (bn_link (ns ! i)) n2"
  have nl: "holds L FLAG_LEAF (take ?mid ?ks) ?n1" "holds L FLAG_LEAF (drop ?mid ?ks) ?n2" "bn_link ?n1 = length ns" "bn_link ?n2 = bn_link (ns ! i)"
    using n by (simp_all add: set_link_def holds_def)
  have dm: "bp_node_dom ?n1" "bp_node_dom ?n2" using holds_dom nl(1,2) by blast+
  have r1: "length (ns @ [?new]) \<le> bx_nil B" "length (ns[i := ?n1] @ [?new]) \<le> bx_nil B" using room by simp_all
  obtain t2 where t2: "bp_set_node B i ?n1 t1 = Inr t2" "st t0 t2 (ns[i := ?n1] @ [?new]) ?h"
    using st_set_node [OF t1(2) _ r1(1), of i ?n1] dm(1) p(1) by (auto simp: list_update_append)
  obtain t3 where t3: "bp_set_node B (length ns) ?n2 t2 = Inr t3" "st t0 t3 (ns[i := ?n1] @ [?n2]) ?h"
    using st_set_node [OF t2(2) _ r1(2), of "length ns" ?n2] dm(2) by (auto simp: list_update_append)
  let ?h' = "h\<lparr>bh_nkeys := Suc (bh_nkeys h), bh_last_leaf := if bn_link (ns ! i) = bx_nil B then length ns else bh_last_leaf h\<rparr>"
  obtain t4 where t4: "(if bn_link (ns ! i) = bx_nil B then bp_set_last_leaf B (length ns) t3 else Inr t3) = Inr t4"
    "st t0 t4 (ns[i := ?n1] @ [?n2]) ?h'"
  proof (cases "bn_link (ns ! i) = bx_nil B")
    case True
    then show ?thesis using st_sets(2) [OF t3(2), of "length ns"] that by auto
  next
    case False
    then show ?thesis using t3(2) that by simp
  qed
  have pd: "pend L (bx_kmax B) (ns[i := ?n1] @ [?n2]) ?h' 0 fs (Lf i (take ?mid ?ks)) (?ks ! ?mid) (Lf (length ns) (drop ?mid ?ks))"
    using pend_leaf [OF b fo full refl refl _ nl(1,3,2,4) asc w] room by simp
  have "length (ns[i := ?n1] @ [?n2]) + length fs < bx_nil B" using room by simp
  then obtain t' ns' h' T where T: "bp_propagate B path (length fs) (?ks ! ?mid) (length ns) t4 = Inr t'" "st t0 t' ns' h'"
    "binv L (bx_kmax B) ns' h' T" "items T = pres fs @ map Key (take ?mid ?ks) @ Sep (?ks ! ?mid) # map Key (drop ?mid ?ks) @ posts fs"
    using propagate_ok [OF t4(2) pd _ path] by auto
  have m: "?mid < length ?ks" "length (drop ?mid ?ks) \<le> dlen" using full caps_min data_fits(2) by (auto simp: div_ceil_def)
  have g: "bp_get_node B (length ns) t1 = Inr ?new" "bp_get_node B (length ns) t4 = Inr ?n2"
    using st_node [OF t1(2)] st_node [OF t4(2)] by (simp_all add: nth_append)
  have k: "nth_res (bn_data ?n2) 0 = Inr (?ks ! ?mid)" using data_nth [OF nl(2), of 0] m by simp
  have "bp_insert_split B pos w (ns ! i) i path (length fs) t = Inr t'"
    unfolding bp_insert_split_def using t1(1) g n(1,4) t2(1) t3(1) t4(1) k T(1) by (simp add: Let_def)
  moreover have "item_keys (items T) = item_keys (pres fs @ map Key ?ks @ posts fs)"
    using append_take_drop_id [of ?mid ?ks] unfolding T(4) by (simp del: append_take_drop_id flip: append_assoc) simp
  ultimately show ?thesis using T(2,3) by blast
qed

text \<open>The leaf that the descent reaches.\<close>

lemma insert_slow_ok:
  assumes s: "st t0 t ns h" and b: "binv L (bx_kmax B) ns h T" and w: "w \<le> bx_kmax B"
  shows "\<exists>t' ns' h' T'. bp_insert_slow B w t = Inr (w \<notin> set (keys T), t') \<and> st t0 t' ns' h' \<and> binv L (bx_kmax B) ns' h' T' \<and>
    set (keys T') = insert w (set (keys T))"
proof -
  note b' = b [unfolded binv_def]
  obtain ht where ht: "shaped ht T" using b' by blast
  have asc: "ascending (items T)" using b' by (simp add: body_def)
  obtain fs i ks where T: "T = plugs fs (Lf i ks)" "length fs = ht" "\<forall>f \<in> set fs. fok f \<and> chosen w f" "fits w (pres fs) (posts fs)"
    using way_down [OF ht asc] by blast
  have fo: "\<forall>f \<in> set fs. fok f" using T(3) by blast
  have it: "items T = pres fs @ map Key ks @ posts fs" using items_plugs [OF fo] T(1) by simp
  note bnd = binv_bounds [OF b ht]
  let ?path = "map fpos (rev fs) @ drop (length fs) (replicate MAX_PATH (0, 0))" and ?pos = "length (takeWhile (\<lambda>k. k < w) ks)"
  have dsc: "bp_descend B (MAX_PATH + 1) w (bh_root h) (replicate MAX_PATH (0, 0)) 0 t = Inr (i, ?path, length fs)"
    using descend_ok [OF s _ T(3), of i ks "MAX_PATH + 1" 0 "replicate MAX_PATH (0, 0)"] b' T(1,2) bnd(2)
    by (simp add: header_ok_def)
  have lf: "i < length ns" "holds L FLAG_LEAF ks (ns ! i)" "length ks \<le> lcap" using b' T(1) by (auto simp: repr_plugs)
  have ld: "length ks \<le> dlen" using lf(3) data_fits(2) by simp
  have kk: "bp_keys (ns ! i) = Inr ks" "bn_count (ns ! i) = length ks" using keys_of [OF lf(2) ld] lf(2) by (simp_all add: holds_def)
  have srt: "sorted_wrt (<) ks" using asc unfolding it by (simp add: sorted_wrt_append)
  note lp = leaf_position [OF srt, of w]
  have mem: "w \<in> set (keys T) \<longleftrightarrow> w \<in> set ks"
  proof -
    have "Key w \<notin> set (pres fs)" "Key w \<notin> set (posts fs)" using T(4) by (fastforce simp: fits_def)+
    then show ?thesis unfolding keys_def it by (simp add: item_keys_set)
  qed
  have found: "(if ?pos < length ks then rbind (nth_res (bn_data (ns ! i)) ?pos) (\<lambda>x. Inr (x = w)) else Inr False) = (Inr (w \<in> set ks) :: bool res)"
    using data_nth [OF lf(2) _ ld, of ?pos] lp(3) by auto
  have get: "bp_get_node B i t = Inr (ns ! i)" using st_node [OF s, of i] lf(1) by simp
  let ?ins = "\<lambda>t. if length ks < lcap then rbind (bp_leaf_insert ?pos (length ks) w (ns ! i)) (\<lambda>leaf. bp_set_node B i leaf t)
             else bp_insert_split B ?pos w (ns ! i) i ?path (length fs) t"
  have go: "bp_insert_slow B w t = (if w \<in> set ks then Inr (False, t) else
      rbind (bp_nkeys B t) (\<lambda>k. rbind (expect ArithOverflow (usize_checked_add k 1)) (\<lambda>k.
      rbind (bp_set_nkeys B k t) (\<lambda>t. rbind (?ins t) (\<lambda>t. Inr (True, t))))))"
    unfolding bp_insert_slow_def by (simp only: st_heads(1) [OF s] dsc get kk lp(1) found rbind_Inr prod.case Let_def)
  show ?thesis
  proof (cases "w \<in> set ks")
    case True
    then show ?thesis using go mem s b by (intro exI [of _ t] exI [of _ ns] exI [of _ h] exI [of _ T]) auto
  next
    case False
    have cnt: "bh_nkeys h = length (keys T)" using b' by (simp add: header_ok_def keys_def)
    have add: "expect ArithOverflow (usize_checked_add (bh_nkeys h) 1) = Inr (Suc (bh_nkeys h))"
      using bnd(1) count_usize cnt by (simp add: usize_checked_add_def)
    let ?h = "h\<lparr>bh_nkeys := Suc (bh_nkeys h)\<rparr>" and ?ks = "insert_at ?pos w ks"
    obtain t1 where t1: "bp_set_nkeys B (Suc (bh_nkeys h)) t = Inr t1" "st t0 t1 ns ?h" using st_sets(3) [OF s] by blast
    have asc': "ascending (pres fs @ map Key ?ks @ posts fs)"
      using leaf_insert_ascending [OF _ T(4) False] asc it by simp
    have room: "length ns + length fs + 1 < bx_nil B" using bnd T(2) arena_big by (simp add: MAX_PATH_def)
    have "\<exists>t' ns' h' T'. ?ins t1 = Inr t' \<and> st t0 t' ns' h' \<and> binv L (bx_kmax B) ns' h' T' \<and>
        item_keys (items T') = item_keys (pres fs @ map Key ?ks @ posts fs)"
    proof (cases "length ks < lcap")
      case True
      obtain n where n: "bp_leaf_insert ?pos (length ks) w (ns ! i) = Inr n" "holds L FLAG_LEAF ?ks n" "bn_link n = bn_link (ns ! i)"
        using leaf_insert_ok [OF lf(2) True lp(2)] by blast
      have dm: "bp_node_dom n" using holds_dom n(2) by blast
      obtain t2 where t2: "bp_set_node B i n t1 = Inr t2" "st t0 t2 (ns[i := n]) ?h"
        using st_set_node [OF t1(2) lf(1) _ dm] room by auto
      have "binv L (bx_kmax B) (ns[i := n]) ?h (plugs fs (Lf i ?ks))"
        using leaf_grow [OF b [unfolded T(1)] fo refl True n(2,3) asc' w] .
      then show ?thesis using True n(1) t2 items_plugs [OF fo, of "Lf i ?ks"]
        by (intro exI [of _ t2] exI [of _ "ns[i := n]"] exI [of _ ?h] exI [of _ "plugs fs (Lf i ?ks)"]) simp
    next
      case full: False
      have "take (length fs) ?path = map fpos (rev fs)" "length fs \<le> length ?path" by simp_all
      then show ?thesis using insert_split_ok [OF t1(2) b [unfolded T(1)] fo _ lp(2) room _ _ asc' w] full lf(3) by auto
    qed
    then obtain t' ns' h' T' where t': "?ins t1 = Inr t'" "st t0 t' ns' h'" "binv L (bx_kmax B) ns' h' T'"
      "item_keys (items T') = item_keys (pres fs @ map Key ?ks @ posts fs)" by blast
    have "set (keys T') = insert w (set (keys T))" unfolding keys_def t'(4) it by auto
    moreover have "bp_insert_slow B w t = Inr (True, t')"
      using go False st_heads(3) [OF s] add t1(1) t'(1) by simp
    ultimately show ?thesis using False mem t'(2,3) by (intro exI [of _ t'] exI [of _ ns'] exI [of _ h'] exI [of _ T']) simp
  qed
qed

text \<open>The shortcut for a new maximum.\<close>

lemma insert_fast_ok:
  assumes s: "st t0 t ns h" and b: "binv L (bx_kmax B) ns h T" and w: "w \<le> bx_kmax B"
  shows "bp_insert_fast B w (bh_last_leaf h) t = Inr None \<or>
    (\<exists>t' ns' h' T'. bp_insert_fast B w (bh_last_leaf h) t = Inr (Some t') \<and> st t0 t' ns' h' \<and> binv L (bx_kmax B) ns' h' T' \<and>
      w \<notin> set (keys T) \<and> set (keys T') = insert w (set (keys T)))"
proof -
  note b' = b [unfolded binv_def]
  obtain ht where ht: "shaped ht T" using b' by blast
  obtain fs i ks where T: "T = plugs fs (Lf i ks)" "\<forall>f \<in> set fs. fok f" "posts fs = []" "leaves_after fs = []"
    using last_leaf [OF ht] by blast
  have ll: "bh_last_leaf h = i" using b' T by (simp add: header_ok_def leaves_plugs)
  have it: "items T = pres fs @ map Key ks" using items_plugs [OF T(2)] T(1,3) by simp
  have lf: "i < length ns" "holds L FLAG_LEAF ks (ns ! i)" "length ks \<le> lcap" using b' T(1) by (auto simp: repr_plugs)
  have ld: "length ks \<le> dlen" using lf(3) data_fits(2) by simp
  have kk: "bn_count (ns ! i) = length ks" using lf(2) by (simp add: holds_def)
  note bnd = binv_bounds [OF b ht]
  show ?thesis
  proof (cases "0 < length ks \<and> length ks < lcap \<and> ks ! (length ks - 1) < w")
    case True
    then have lst: "ks \<noteq> []" "last ks < w" "length ks < lcap" by (auto simp: last_conv_nth)
    have asc: "ascending (pres fs @ map Key ks)" using b' it by (simp add: body_def)
    have ks: "map Key ks = map Key (butlast ks) @ [Key (last ks)]"
      using lst(1) by (metis append_butlast_last_id list.map(1,2) map_append)
    then have f: "fits w ((pres fs @ map Key (butlast ks)) @ [Key (last ks)]) []" using asc lst(2) by (intro fits_snoc_left) simp_all
    have new: "w \<notin> set (keys T)"
    proof
      assume "w \<in> set (keys T)"
      then have "Key w \<in> set ((pres fs @ map Key (butlast ks)) @ [Key (last ks)])" using it ks by (auto simp: keys_def item_keys_set)
      then have "before (Key w) (Key w)" using f unfolding fits_def by blast
      then show False by simp
    qed
    have asc': "ascending (pres fs @ map Key (ks @ [w]) @ posts fs)" using ascending_insert [OF _ f] asc ks T(3) by simp
    obtain d where d: "upd_res (bn_data (ns ! i)) (length ks) w = Inr d"
      "holds L FLAG_LEAF (ks @ [w]) (set_count (length ks + 1) ((ns ! i)\<lparr>bn_data := d\<rparr>))"
      using leaf_append_ok [OF lf(2) lst(3)] by blast
    let ?n = "set_count (length ks + 1) ((ns ! i)\<lparr>bn_data := d\<rparr>)" and ?h = "h\<lparr>bh_nkeys := Suc (bh_nkeys h)\<rparr>"
    have dm: "bp_node_dom ?n" using holds_dom d(2) by blast
    have room: "length ns \<le> bx_nil B" using bnd arena_big by (simp add: MAX_PATH_def)
    obtain t1 where t1: "bp_set_node B i ?n t = Inr t1" "st t0 t1 (ns[i := ?n]) h" using st_set_node [OF s lf(1) room dm] by blast
    obtain t2 where t2: "bp_set_nkeys B (Suc (bh_nkeys h)) t1 = Inr t2" "st t0 t2 (ns[i := ?n]) ?h" using st_sets(3) [OF t1(2)] by blast
    have cnt: "bh_nkeys h = length (keys T)" using b' by (simp add: header_ok_def keys_def)
    have add: "expect ArithOverflow (usize_checked_add (bh_nkeys h) 1) = Inr (Suc (bh_nkeys h))"
      using bnd(1) count_usize cnt by (simp add: usize_checked_add_def)
    have "binv L (bx_kmax B) (ns[i := ?n]) ?h (plugs fs (Lf i (ks @ [w])))"
      using leaf_grow [OF b [unfolded T(1)] T(2) _ lst(3) d(2) _ asc' w, of "length ks"] by (simp add: insert_at_def set_count_def)
    moreover have "set (keys (plugs fs (Lf i (ks @ [w])))) = insert w (set (keys T))"
      using items_plugs [OF T(2)] it T(3) by (auto simp: keys_def)
    moreover have "bp_insert_fast B w (bh_last_leaf h) t = Inr (Some t2)"
      unfolding bp_insert_fast_def ll using st_node [OF s, of i] lf(1) kk data_nth [OF lf(2) _ ld, of "length ks - 1"] True
        d(1) t1(1) st_heads(3) [OF t1(2)] add t2(1) by (simp add: Let_def)
    ultimately show ?thesis using t2(2) new by blast
  next
    case False
    then have "bp_insert_fast B w (bh_last_leaf h) t = Inr None"
      unfolding bp_insert_fast_def ll using st_node [OF s, of i] lf(1) kk data_nth [OF lf(2) _ ld, of "length ks - 1"] by (auto simp: Let_def)
    then show ?thesis ..
  qed
qed

lemma insert_ok:
  assumes s: "st t0 t ns h" and b: "binv L (bx_kmax B) ns h T" and w: "w \<le> bx_kmax B"
  shows "\<exists>t' ns' h' T'. bp_insert B w t = Inr (w \<notin> set (keys T), t') \<and> st t0 t' ns' h' \<and> binv L (bx_kmax B) ns' h' T' \<and>
    set (keys T') = insert w (set (keys T))"
proof -
  have ll: "bp_last_leaf B t = Inr (bh_last_leaf h)" using st_heads(2) [OF s] .
  consider (slow) "bh_last_leaf h = bx_nil B \<or> bp_insert_fast B w (bh_last_leaf h) t = Inr None"
    | (fast) t' ns' h' T' where "bh_last_leaf h \<noteq> bx_nil B" "bp_insert_fast B w (bh_last_leaf h) t = Inr (Some t')" "st t0 t' ns' h'"
        "binv L (bx_kmax B) ns' h' T'" "w \<notin> set (keys T)" "set (keys T') = insert w (set (keys T))"
    using insert_fast_ok [OF assms] by blast
  then show ?thesis
  proof cases
    case slow
    then have "bp_insert B w t = bp_insert_slow B w t" unfolding bp_insert_def using ll by auto
    then show ?thesis using insert_slow_ok [OF assms] by simp
  next
    case fast
    then have "bp_insert B w t = Inr (True, t')" unfolding bp_insert_def using ll by simp
    then show ?thesis using fast by auto
  qed
qed

end

end
