(* ===== verification/Bplus_Bulk.thy ===== *)
theory Bplus_Bulk
  imports Bplus_Set
begin

text \<open>
  Bulk loading.  A level is a row of trees of one height; its separators are the first keys of the trees but
  the first.  Grouping a row under new nodes leaves its sequence of keys and separators unchanged, so that the
  sequence of the leaves is the sequence of the finished tree.
\<close>

section \<open>Chunks\<close>

lemma chunks_Nil [simp]: "chunks n [] = []"
  by (simp add: chunks.simps)

lemma chunks_ne: "0 < n \<Longrightarrow> xs \<noteq> [] \<Longrightarrow> chunks n xs = take n xs # chunks n (drop n xs)"
  by (subst chunks.simps) simp

lemma chunks_eq_Nil: "0 < n \<Longrightarrow> chunks n xs = [] \<longleftrightarrow> xs = []"
  by (cases "xs = []") (simp_all add: chunks_ne)

lemma concat_chunks: "0 < n \<Longrightarrow> concat (chunks n xs) = xs"
proof (induction n xs rule: chunks.induct)
  case (1 n xs)
  then show ?case by (cases "xs = []") (simp_all add: chunks_ne)
qed

lemma chunks_sizes: "0 < n \<Longrightarrow> c \<in> set (chunks n xs) \<Longrightarrow> c \<noteq> [] \<and> length c \<le> n"
proof (induction n xs rule: chunks.induct)
  case (1 n xs)
  then show ?case by (cases "xs = []") (auto simp: chunks_ne)
qed

lemma chunks_full: "0 < n \<Longrightarrow> c \<in> set (butlast (chunks n xs)) \<Longrightarrow> length c = n"
proof (induction n xs rule: chunks.induct)
  case (1 n xs)
  show ?case
  proof (cases "drop n xs = []")
    case True
    then show ?thesis using 1 by (cases "xs = []") (simp_all add: chunks_ne)
  next
    case False
    then have "xs \<noteq> []" "n < length xs" "chunks n (drop n xs) \<noteq> []" using 1 by (auto simp: chunks_eq_Nil)
    then show ?thesis using 1 by (auto simp: chunks_ne)
  qed
qed

lemma chunks_map: "chunks n (map f xs) = map (map f) (chunks n xs)"
proof (induction n xs rule: chunks.induct)
  case (1 n xs)
  then show ?case by (subst (1 2) chunks.simps) (simp add: take_map drop_map)
qed

lemma chunks_few: "2 < n \<Longrightarrow> 2 * length (chunks n xs) \<le> length xs + (if length xs = 1 then 1 else 0)"
proof (induction n xs rule: chunks.induct)
  case (1 n xs)
  show ?case
  proof (cases "xs = []")
    case False
    then have "2 * length (chunks n (drop n xs)) \<le> length xs - n + (if length xs - n = 1 then 1 else 0)" using 1 by simp
    then show ?thesis using False 1(2) by (cases "length xs"; cases "length xs \<le> n") (auto simp: chunks_ne split: if_splits)
  qed simp
qed

section \<open>Rows\<close>

definition fkey :: "btree \<Rightarrow> nat" where
  "fkey t = hd (keys t)"

definition row :: "btree list \<Rightarrow> item list" where
  "row ts = weave (map fkey (tl ts)) (map items ts)"

definition parent :: "nat \<Rightarrow> btree list \<Rightarrow> btree" where
  "parent i g = Nd i (map fkey (tl g)) g"

lemma row_single [simp]: "row [t] = items t"
  by (simp add: row_def seps_right_def)

lemma row_append:
  assumes "xs \<noteq> []" "ys \<noteq> []"
  shows "row (xs @ ys) = row xs @ Sep (fkey (hd ys)) # row ys"
proof -
  have "map fkey (tl (xs @ ys)) = map fkey (tl xs) @ fkey (hd ys) # map fkey (tl ys)"
    using assms by (cases xs; cases ys) auto
  then show ?thesis using weave_split [of "map fkey (tl xs)" "map items xs" "map fkey (tl ys)" "map items ys" "fkey (hd ys)"] assms
    by (simp add: row_def)
qed

lemma row_Cons: "ts \<noteq> [] \<Longrightarrow> row (t # ts) = items t @ Sep (fkey (hd ts)) # row ts"
  using row_append [of "[t]" ts] by simp

lemma row_groups:
  "list_all2 (\<lambda>t g. g \<noteq> [] \<and> items t = row g \<and> fkey t = fkey (hd g)) ts gs \<Longrightarrow> row ts = row (concat gs)"
proof (induction rule: list_all2_induct)
  case (Cons t ts g gs)
  show ?case
  proof (cases ts)
    case Nil
    then show ?thesis using Cons by simp
  next
    case (Cons t' ts')
    then obtain g' gs' where gs: "gs = g' # gs'" "g' \<noteq> []" "fkey t' = fkey (hd g')"
      using \<open>list_all2 _ ts gs\<close> by (cases gs) auto
    then have "row (t # ts) = items t @ Sep (fkey t') # row ts" using Cons by (simp add: row_Cons)
    also have "\<dots> = row g @ Sep (fkey (hd (concat gs))) # row (concat gs)"
      using Cons.hyps Cons.IH gs by simp
    also have "\<dots> = row (concat (g # gs))" using Cons.hyps gs row_append [of g "concat gs"] by simp
    finally show ?thesis .
  qed
qed simp

lemma fill_keys_ne: "shaped h t \<Longrightarrow> fill lm km r t \<Longrightarrow> keys t \<noteq> []"
proof (induction h t arbitrary: r rule: shaped.induct)
  case (2 h i ks cs)
  obtain c cs' where cs: "cs = c # cs'" using "2.prems"(1) by (cases cs) auto
  have "fill lm km (cs' = [] \<and> r) c" using "2.prems"(2) cs by (cases cs') auto
  then have "keys c \<noteq> []" using 2 cs by auto
  then show ?case using keys_Nd [OF "2.prems"(1)] cs by simp
qed simp

lemma fills_keys_ne: "fills lm km r ts \<Longrightarrow> \<forall>t \<in> set ts. shaped h t \<Longrightarrow> t \<in> set ts \<Longrightarrow> keys t \<noteq> []"
proof (induction ts rule: induct_list012)
  case (3 t u ts)
  then show ?case using fill_keys_ne [of h _ lm km False] by auto
qed (auto dest: fill_keys_ne)

lemma shaped_idxs: "shaped h t \<Longrightarrow> h < length (idxs t)"
proof (induction h t rule: shaped.induct)
  case (2 h i ks cs)
  obtain c cs' where cs: "cs = c # cs'" using "2.prems" by (cases cs) auto
  then have "h - 1 < length (idxs c)" using 2 by simp
  then show ?case using cs "2.prems" by simp
qed simp

lemma parent_props:
  assumes "g \<noteq> []" "\<forall>c \<in> set g. shaped h c" "keys (hd g) \<noteq> []"
  shows "shaped (Suc h) (parent i g)" "items (parent i g) = row g" "fkey (parent i g) = fkey (hd g)"
    "leaves (parent i g) = concat (map leaves g)" "idxs (parent i g) = i # concat (map idxs g)" "rt (parent i g) = i"
proof -
  show s: "shaped (Suc h) (parent i g)" using assms by (cases g) (auto simp: parent_def)
  show "fkey (parent i g) = fkey (hd g)" using keys_Nd [OF s [unfolded parent_def]] assms by (cases g) (auto simp: fkey_def parent_def)
qed (simp_all add: parent_def row_def)

context bp_ops
begin

section \<open>Leaves\<close>

lemma write_leaf:
  assumes "length c \<le> lcap"
  shows "\<exists>d. copy_into 0 (length c) c (bn_data (new_leaf L)) = Inr d \<and>
    holds L FLAG_LEAF c (set_count (length c) ((new_leaf L)\<lparr>bn_data := d\<rparr>))"
proof -
  let ?d = "c @ drop (length c) (bn_data (new_leaf L))"
  have l: "length (bn_data (new_leaf L)) = dlen" "bn_flags (new_leaf L) = FLAG_LEAF" using new_nodes(1) by (simp_all add: holds_def)
  then have "copy_into 0 (length c) c (bn_data (new_leaf L)) = Inr ?d" using assms data_fits(2) by (simp add: copy_into_def)
  moreover have "holds L FLAG_LEAF c (set_count (length c) ((new_leaf L)\<lparr>bn_data := ?d\<rparr>))"
    using l assms data_fits(2) by (subst holds_count) auto
  ultimately show ?thesis by blast
qed

lemma build_leaves_ok:
  assumes "st t0 t ns h" "\<forall>c \<in> set cs. length c \<le> lcap" "length ns + length cs \<le> bx_nil B"
  shows "\<exists>t' ms. bp_build_leaves B cs t = Inr ([length ns ..< length ns + length cs], t') \<and> st t0 t' (ns @ ms) h \<and>
    list_all2 (\<lambda>c m. holds L FLAG_LEAF c m \<and> bn_link m = bx_nil B) cs ms"
  using assms
proof (induction cs arbitrary: t ns)
  case (Cons c cs)
  obtain t1 where t1: "bp_alloc_leaf B t = Inr (length ns, t1)" "st t0 t1 (ns @ [new_leaf L]) h"
    using st_alloc_leaf [OF Cons.prems(1)] Cons.prems(3) by auto
  obtain d where d: "copy_into 0 (length c) c (bn_data (new_leaf L)) = Inr d"
    "holds L FLAG_LEAF c (set_count (length c) ((new_leaf L)\<lparr>bn_data := d\<rparr>))" using write_leaf Cons.prems(2) by auto
  let ?n = "set_count (length c) ((new_leaf L)\<lparr>bn_data := d\<rparr>)"
  have dm: "bp_node_dom ?n" using holds_dom d(2) by blast
  obtain t2 where t2: "bp_set_node B (length ns) ?n t1 = Inr t2" "st t0 t2 (ns @ [?n]) h"
    using st_set_node [OF t1(2) _ _ dm, of "length ns"] Cons.prems(3) by auto
  obtain t' ms where t': "bp_build_leaves B cs t2 = Inr ([Suc (length ns) ..< Suc (length ns) + length cs], t')"
    "st t0 t' ((ns @ [?n]) @ ms) h" "list_all2 (\<lambda>c m. holds L FLAG_LEAF c m \<and> bn_link m = bx_nil B) cs ms"
    using Cons.IH [OF t2(2)] Cons.prems by auto
  have "bp_get_node B (length ns) t1 = Inr (new_leaf L)" using st_node [OF t1(2), of "length ns"] by simp
  then have "bp_build_leaves B (c # cs) t = Inr (length ns # [Suc (length ns) ..< Suc (length ns) + length cs], t')"
    using t1(1) d(1) t2(1) t'(1) by simp
  moreover have "length ns # [Suc (length ns) ..< Suc (length ns) + length cs] = [length ns ..< length ns + length (c # cs)]"
    by (subst (2) upt_conv_Cons) simp_all
  moreover have "list_all2 (\<lambda>c m. holds L FLAG_LEAF c m \<and> bn_link m = bx_nil B) (c # cs) (?n # ms)"
    using t'(3) d(2) new_nodes(3) by (simp add: set_count_def)
  ultimately show ?case using t'(2) by (intro exI [of _ t'] exI [of _ "?n # ms"]) simp
qed simp

lemma link_leaves_ok:
  assumes "st t0 t ns h" "b \<le> length ns" "length ns \<le> bx_nil B" "\<forall>j. a \<le> j \<and> j < b \<longrightarrow> bp_node_dom (ns ! j)"
  shows "\<exists>t' ns'. bp_link_leaves B [a ..< b] t = Inr t' \<and> st t0 t' ns' h \<and> length ns' = length ns \<and>
    (\<forall>j < length ns. ns' ! j = (if a \<le> j \<and> Suc j < b then set_link (Suc j) (ns ! j) else ns ! j))"
  using assms
proof (induction "b - a" arbitrary: a t ns)
  case 0
  then show ?case by (intro exI [of _ t] exI [of _ ns]) auto
next
  case (Suc x)
  show ?case
  proof (cases "Suc a < b")
    case False
    then have "[a ..< b] = [a]" using Suc.hyps(2) by (simp add: upt_conv_Cons)
    then show ?thesis using Suc.prems False by (intro exI [of _ t] exI [of _ ns]) auto
  next
    case True
    let ?n = "set_link (Suc a) (ns ! a)"
    have dm: "bp_node_dom ?n" using Suc.prems(4) True by (simp add: set_link_def bp_node_dom_def)
    obtain t1 where t1: "bp_set_node B a ?n t = Inr t1" "st t0 t1 (ns[a := ?n]) h"
      using st_set_node [OF Suc.prems(1) _ Suc.prems(3) dm, of a] Suc.prems(2) True by auto
    obtain t' ns' where t': "bp_link_leaves B [Suc a ..< b] t1 = Inr t'" "st t0 t' ns' h" "length ns' = length ns"
      "\<forall>j < length ns. ns' ! j = (if Suc a \<le> j \<and> Suc j < b then set_link (Suc j) (ns[a := ?n] ! j) else ns[a := ?n] ! j)"
    proof -
      have x: "x = b - Suc a" using Suc.hyps(2) by simp
      show ?thesis using Suc.hyps(1) [OF x t1(2)] Suc.prems(2-4) that by auto
    qed
    have u: "[a ..< b] = a # Suc a # [Suc (Suc a) ..< b]" "[Suc a ..< b] = Suc a # [Suc (Suc a) ..< b]" using True by (simp_all add: upt_conv_Cons)
    have "bp_get_node B a t = Inr (ns ! a)" using st_node [OF Suc.prems(1), of a] Suc.prems(2) True by simp
    then have "bp_link_leaves B [a ..< b] t = Inr t'" using t1(1) t'(1) unfolding u by simp
    moreover have "ns' ! j = (if a \<le> j \<and> Suc j < b then set_link (Suc j) (ns ! j) else ns ! j)" if "j < length ns" for j
      using t'(4) that True by (cases "j = a") (auto simp: nth_list_update)
    ultimately show ?thesis using t'(2,3) by blast
  qed
qed

section \<open>One level\<close>

lemma first_key_ok:
  assumes "st t0 t ns h" "repr L ns c" "shaped ht c" "fill lm km r c" "ht < fuel"
  shows "bp_first_key_word B fuel (rt c) t = Inr (fkey c)"
  using assms(2-)
proof (induction ht c arbitrary: fuel r rule: shaped.induct)
  case (1 h i ks)
  then obtain f where f: "fuel = Suc f" by (cases fuel) auto
  have "holds L FLAG_LEAF ks (ns ! i)" "i < length ns" "length ks \<le> dlen" using 1 data_fits(2) by auto
  then show ?case using f st_node [OF assms(1), of i] leaf_flag(1) data_nth [of FLAG_LEAF ks "ns ! i" 0] 1
    by (simp add: fkey_def hd_conv_nth)
next
  case (2 h i ks cs)
  obtain f where f: "fuel = Suc f" using "2.prems" by (cases fuel) auto
  obtain c cs' where cs: "cs = c # cs'" using "2.prems"(2) by (cases cs) auto
  have n: "holds L 0 ks (ns ! i)" "i < length ns" "has_kids L (map rt cs) (ns ! i)" using "2.prems"(1) by auto
  have "internal_child L 0 (ns ! i) = Inr (rt c)"
    using internal_child_kid [of "ns ! i" 0] kid_has [OF n(3), of 0] n(1) cs by (simp add: holds_def)
  moreover have fc: "fill lm km (cs' = [] \<and> r) c" using "2.prems"(3) cs by (cases cs') auto
  then have kc: "keys c \<noteq> []" using "2.prems"(2) cs by (intro fill_keys_ne [of "h - 1" c lm km]) auto
  moreover have "fkey (Nd i ks cs) = fkey c" using keys_Nd [OF "2.prems"(2)] cs kc by (simp add: fkey_def)
  moreover have "bp_first_key_word B f (rt c) t = Inr (fkey c)" using "2.IH" [OF _ _ _ fc, of f] "2.prems" f cs by auto
  ultimately show ?case using f n st_node [OF assms(1), of i] leaf_flag(2) [OF n(1)] by simp
qed

text \<open>The children of the nodes to build: complete trees of one height.\<close>

definition kids_ok :: "bp_node list \<Rightarrow> nat \<Rightarrow> btree list \<Rightarrow> bool" where
  "kids_ok ns ht g \<longleftrightarrow> (\<forall>c \<in> set g. repr L ns c \<and> shaped ht c \<and> fill (lmin L) (kmin L) True c)"

lemma sep_keys_ok:
  assumes "st t0 t ns h" "kids_ok ns ht cs" "ht < vec_fuel (bx_nodes B) (bt_nodes t)" "length (bn_data n) = dlen" "k + length cs \<le> kcap"
  shows "\<exists>d. bp_sep_keys B t (map rt cs) k n = Inr (n\<lparr>bn_data := d\<rparr>) \<and> length d = dlen \<and>
    take (k + length cs) d = take k (bn_data n) @ map fkey cs"
  using assms(2-)
proof (induction cs arbitrary: k n)
  case Nil
  then show ?case by (intro exI [of _ "bn_data n"]) simp
next
  case (Cons c cs)
  have w: "bp_first_key_word B (vec_fuel (bx_nodes B) (bt_nodes t)) (rt c) t = Inr (fkey c)"
    using first_key_ok [OF assms(1)] Cons.prems(1,2) by (auto simp: kids_ok_def)
  have k: "k < length (bn_data n)" using Cons.prems(3,4) data_fits(1) by simp
  let ?n = "n\<lparr>bn_data := (bn_data n)[k := fkey c]\<rparr>"
  obtain d where d: "bp_sep_keys B t (map rt cs) (k + 1) ?n = Inr (?n\<lparr>bn_data := d\<rparr>)" "length d = dlen"
    "take (k + 1 + length cs) d = take (k + 1) (bn_data ?n) @ map fkey cs"
    using Cons.IH [of ?n "k + 1"] Cons.prems by (auto simp: kids_ok_def)
  have "take (k + 1) (bn_data ?n) = take k (bn_data n) @ [fkey c]" using k by (simp add: take_Suc_conv_app_nth)
  then show ?case using w k d by (intro exI [of _ d]) simp
qed

lemma build_node:
  assumes s: "st t0 t ns h" and g: "kids_ok ns ht g" "g \<noteq> []" "length g \<le> Suc kcap" and room: "length ns < bx_nil B" and ht: "ht \<le> length ns"
  shows "\<exists>t' n. bp_build_level B (map rt g # cs) t =
      rbind (bp_build_level B cs t') (\<lambda>(is, t). Inr (length ns # is, t)) \<and> st t0 t' (ns @ [n]) h \<and>
      holds L 0 (map fkey (tl g)) n \<and> has_kids L (map rt g) n"
proof -
  let ?new = "new_internal L" and ?ks = "map fkey (tl g)"
  obtain t1 where t1: "bp_alloc_internal B t = Inr (length ns, t1)" "st t0 t1 (ns @ [?new]) h" using st_alloc_internal [OF s room] by blast
  have new: "length (bn_data ?new) = dlen" "bn_flags ?new = 0" using new_nodes(2) by (simp_all add: holds_def)
  have "length ns \<le> length (nds t1)" "length (nds t1) \<le> vc_imax (bx_nodes B)" using t1(2) room nodes_imax by (simp_all add: st_def)
  then have fuel: "ht < vec_fuel (bx_nodes B) (bt_nodes t1)" using ht nodes.vec_fuel_gt [of ht "bt_nodes t1"] by simp
  have kid: "kids_ok (ns @ [?new]) ht (tl g)" using g(1,2) repr_grow by (cases g) (auto simp: kids_ok_def)
  obtain d where d: "bp_sep_keys B t1 (map rt (tl g)) 0 ?new = Inr (?new\<lparr>bn_data := d\<rparr>)" "length d = dlen" "take (length (tl g)) d = ?ks"
  proof -
    have "0 + length (tl g) \<le> kcap" using g(3) by simp
    then show ?thesis using sep_keys_ok [OF t1(2) kid fuel new(1), of 0] that by auto
  qed
  let ?m = "set_count (length ?ks) (?new\<lparr>bn_data := d\<rparr>)"
  have len: "length (map rt g) = Suc (length ?ks)" "length ?ks \<le> kcap" using g(2,3) by (cases g; simp)+
  have hm: "holds L 0 ?ks ?m" using d len(2) new by (subst holds_count) auto
  obtain n where n: "bp_write_children L 0 (map rt g) ?m = Inr n" "length (bn_data n) = dlen" "bn_flags n = bn_flags ?m" "bn_count n = bn_count ?m"
    "take kcap (bn_data n) = take kcap (bn_data ?m)"
    "\<forall>j \<le> kcap. kid L n j = (if 0 \<le> j \<and> j < 0 + length (map rt g) then map rt g ! (j - 0) else kid L ?m j)"
    using write_children_ok [of ?m 0 "map rt g"] d(2) g(3) by auto
  have "take (length ?ks) (bn_data n) = take (length ?ks) (bn_data ?m)" using take_le_eq [OF n(5) len(2)] .
  then have hn: "holds L 0 ?ks n" using hm n(2-4) by (simp add: holds_def)
  have hk: "has_kids L (map rt g) n" using n(6) g(3) by (simp add: has_kids_def)
  have dm: "bp_node_dom n" using holds_dom hn by blast
  obtain t2 where t2: "bp_set_node B (length ns) n t1 = Inr t2" "st t0 t2 (ns @ [n]) h"
    using st_set_node [OF t1(2) _ _ dm, of "length ns"] room by auto
  have "tl (map rt g) = map rt (tl g)" "length (map rt g) - 1 = length ?ks" by (simp_all add: map_tl)
  moreover have "bp_get_node B (length ns) t1 = Inr ?new" using st_node [OF t1(2), of "length ns"] by simp
  ultimately have "bp_build_level B (map rt g # cs) t = rbind (bp_build_level B cs t2) (\<lambda>(is, t). Inr (length ns # is, t))"
    using t1(1) d(1) n(1) t2(1) by simp
  then show ?thesis using t2(2) hn hk by blast
qed

lemma build_level_ok:
  assumes "st t0 t ns h" "\<forall>g \<in> set gs. kids_ok ns ht g \<and> g \<noteq> [] \<and> length g \<le> Suc kcap" "length ns + length gs \<le> bx_nil B" "ht \<le> length ns"
  shows "\<exists>t' ms. bp_build_level B (map (map rt) gs) t = Inr ([length ns ..< length ns + length gs], t') \<and> st t0 t' (ns @ ms) h \<and>
    list_all2 (\<lambda>g m. holds L 0 (map fkey (tl g)) m \<and> has_kids L (map rt g) m) gs ms"
  using assms
proof (induction gs arbitrary: t ns)
  case (Cons g gs)
  obtain t1 n where t1: "bp_build_level B (map rt g # map (map rt) gs) t =
      rbind (bp_build_level B (map (map rt) gs) t1) (\<lambda>(is, t). Inr (length ns # is, t))" "st t0 t1 (ns @ [n]) h"
      "holds L 0 (map fkey (tl g)) n" "has_kids L (map rt g) n"
    using build_node [OF Cons.prems(1), of ht g "map (map rt) gs"] Cons.prems(2-4) by auto
  obtain t' ms where t': "bp_build_level B (map (map rt) gs) t1 = Inr ([Suc (length ns) ..< Suc (length ns) + length gs], t')"
    "st t0 t' ((ns @ [n]) @ ms) h" "list_all2 (\<lambda>g m. holds L 0 (map fkey (tl g)) m \<and> has_kids L (map rt g) m) gs ms"
    using Cons.IH [OF t1(2)] Cons.prems(2-4) repr_grow by (auto simp: kids_ok_def)
  have "length ns # [Suc (length ns) ..< Suc (length ns) + length gs] = [length ns ..< length ns + length (g # gs)]"
    by (subst (2) upt_conv_Cons) simp_all
  then show ?case using t1 t' by (intro exI [of _ t'] exI [of _ "n # ms"]) simp
qed simp

section \<open>All levels\<close>

definition level :: "bp_node list \<Rightarrow> nat \<Rightarrow> btree list \<Rightarrow> bool" where
  "level ns ht ts \<longleftrightarrow> ts \<noteq> [] \<and> (\<forall>t \<in> set ts. repr L ns t \<and> shaped ht t) \<and> fills (lmin L) (kmin L) True ts \<and>
    (\<forall>T. ts = [T] \<longrightarrow> root_key T) \<and> body (bl_nil L) (bx_kmax B) ns (concat (map idxs ts)) (concat (map leaves ts)) (row ts)"

lemma fills_all: "fills lm km True ts \<Longrightarrow> t \<in> set ts \<Longrightarrow> fill lm km True t"
  by (induction ts rule: induct_list012) (auto intro: fill_mono)

lemma fills_groups:
  assumes "fills lm km True (concat gs)" "\<forall>g \<in> set gs. g \<noteq> []" "\<forall>g \<in> set (butlast gs). km < length g" "length is = length gs"
  shows "fills lm km True (map2 parent is gs)"
  using assms
proof (induction gs arbitrary: "is")
  case (Cons g gs)
  obtain i js where is': "is = i # js" "length js = length gs" using Cons.prems(4) by (cases "is") auto
  show ?case
  proof (cases gs)
    case Nil
    then show ?thesis using Cons.prems is' by (simp add: parent_def)
  next
    case (Cons g' gs')
    then have ne: "concat gs \<noteq> []" using Cons.prems(2) by auto
    have f: "\<forall>c \<in> set g. fill lm km False c" "fills lm km True (concat gs)" using Cons.prems(1) ne by (simp_all add: fills_append)
    have "km < length g" using Cons.prems(3) Cons by simp
    then have "fill lm km False (parent i g)" using f(1) by (auto simp: parent_def fills_False)
    moreover have "fills lm km True (map2 parent js gs)" using Cons.IH f(2) Cons.prems is'(2) Cons by simp
    ultimately show ?thesis using is' Cons by (cases js) (simp_all add: fills_Cons)
  qed
qed simp

lemma idxs_groups: "length is = length gs \<Longrightarrow> mset (concat (map idxs (map2 parent is gs))) = mset (is @ concat (map idxs (concat gs)))"
  by (induction "is" gs rule: list_induct2) (auto simp: parent_def)

lemma leaves_groups: "length is = length gs \<Longrightarrow> concat (map leaves (map2 parent is gs)) = concat (map leaves (concat gs))"
  by (induction "is" gs rule: list_induct2) (auto simp: parent_def)

lemma level_step:
  assumes l: "level ns ht ts" "1 < length ts" and gs: "gs = chunks (Suc kcap) ts" and is': "is = [length ns ..< length ns + length gs]"
    and ms: "list_all2 (\<lambda>g m. holds L 0 (map fkey (tl g)) m \<and> has_kids L (map rt g) m) gs ms"
  shows "level (ns @ ms) (Suc ht) (map2 parent is gs)" "row (map2 parent is gs) = row ts" "map rt (map2 parent is gs) = is"
proof -
  note l' = l(1) [unfolded level_def]
  let ?ts = "map2 parent is gs"
  have cc: "concat gs = ts" using concat_chunks gs by blast
  have sz: "\<forall>g \<in> set gs. g \<noteq> [] \<and> length g \<le> Suc kcap" using chunks_sizes gs by blast
  have full: "\<forall>g \<in> set (butlast gs). kmin L < length g"
  proof
    fix g assume "g \<in> set (butlast gs)"
    then have "length g = Suc kcap" using chunks_full [of "Suc kcap" g ts] gs by simp
    then show "kmin L < length g" by (simp add: kmin_def)
  qed
  have len: "length is = length gs" "length ms = length gs" using is' list_all2_lengthD [OF ms] by simp_all
  have in_g: "repr L ns c \<and> shaped ht c \<and> keys c \<noteq> []" if "g \<in> set gs" "c \<in> set g" for g c
    using that l' cc fills_keys_ne [of _ _ True ts ht c] by fastforce
  have pp: "shaped (Suc ht) (parent i g)" "items (parent i g) = row g" "fkey (parent i g) = fkey (hd g)" if "g \<in> set gs" for i g
    using parent_props [of g ht] in_g [OF that] sz that by auto
  have nth: "?ts ! j = parent (length ns + j) (gs ! j)" if "j < length gs" for j using that len is' by simp
  have "list_all2 (\<lambda>t g. g \<noteq> [] \<and> items t = row g \<and> fkey t = fkey (hd g)) ?ts gs"
    using len nth pp sz by (simp add: list_all2_conv_all_nth)
  then show rw: "row ?ts = row ts" using row_groups cc by fastforce
  show "map rt ?ts = is" using len by (intro nth_equalityI) (simp_all add: parent_def)
  have rep: "repr L (ns @ ms) t \<and> shaped (Suc ht) t" if tin: "t \<in> set ?ts" for t
  proof -
    obtain j where j: "j < length gs" "t = parent (length ns + j) (gs ! j)"
    proof -
      obtain j where "j < length ?ts" "?ts ! j = t" using tin unfolding in_set_conv_nth by blast
      then show ?thesis using nth [of j] len(1) that by simp
    qed
    then have g: "gs ! j \<in> set gs" by simp
    have "holds L 0 (map fkey (tl (gs ! j))) (ms ! j)" "has_kids L (map rt (gs ! j)) (ms ! j)" using ms j(1) by (simp_all add: list_all2_conv_all_nth)
    moreover have "length (tl (gs ! j)) \<le> kcap" using sz g by fastforce
    ultimately have "repr L (ns @ ms) t" using j len in_g [OF g] repr_grow by (auto simp: parent_def nth_append)
    then show ?thesis using pp(1) [OF g] j(2) by blast
  qed
  have fil: "fills (lmin L) (kmin L) True ?ts" using fills_groups [OF _ _ full len(1)] l' sz cc by simp
  have root: "root_key T" if T: "?ts = [T]" for T
  proof -
    have "length ?ts = 1" using T by simp
    then obtain g where g: "gs = [g]" using len by (cases gs; cases "tl gs") auto
    then have "2 \<le> length g" using cc l(2) by simp
    then show ?thesis using T g len by (cases "is"; cases g; cases "tl g") (auto simp: parent_def)
  qed
  have lv: "concat (map leaves ?ts) = concat (map leaves ts)" using leaves_groups [OF len(1)] cc by simp
  have ix: "mset (concat (map idxs ?ts)) = mset (is @ concat (map idxs ts))" using idxs_groups [OF len(1)] cc by simp
  have lt: "j < length ns" if "j \<in> set (concat (map idxs ts))" for j using that l' repr_idxs by auto
  have bd: "body (bl_nil L) (bx_kmax B) ns (concat (map idxs ts)) (concat (map leaves ts)) (row ts)" using l' by blast
  have "body (bl_nil L) (bx_kmax B) (ns @ ms) (is @ concat (map idxs ts)) (concat (map leaves ts)) (row ts)"
  proof -
    have "a < length ns" if "a \<in> set (map fst (concat (map leaves ts)))" for a
      using that lt leaves_idxs by fastforce
    then have "chain (bl_nil L) (\<lambda>j. bn_link ((ns @ ms) ! j)) (map fst (concat (map leaves ts))) \<longleftrightarrow>
        chain (bl_nil L) (\<lambda>j. bn_link (ns ! j)) (map fst (concat (map leaves ts)))"
      by (intro chain_cong) (simp add: nth_append)
    moreover have "set is \<inter> set (concat (map idxs ts)) = {}" "distinct is" using lt is' by fastforce+
    ultimately show ?thesis using bd len unfolding body_def by simp
  qed
  then have "body (bl_nil L) (bx_kmax B) (ns @ ms) (concat (map idxs ?ts)) (concat (map leaves ?ts)) (row ?ts)"
    unfolding rw lv body_mset [OF ix] .
  moreover have "?ts \<noteq> []" using cc l' len by (cases gs) auto
  ultimately show "level (ns @ ms) (Suc ht) ?ts" using rep fil root unfolding level_def by blast
qed

lemma level_kids:
  assumes "level ns ht ts"
  shows "kids_ok ns ht ts" "ht < length ns" "\<forall>j \<in> set (concat (map idxs ts)). j < length ns"
proof -
  note l = assms [unfolded level_def]
  show "kids_ok ns ht ts" using l fills_all by (auto simp: kids_ok_def)
  show "\<forall>j \<in> set (concat (map idxs ts)). j < length ns" using l repr_idxs by fastforce
  obtain t ts' where ts: "ts = t # ts'" using l by (cases ts) auto
  have "ht < length (idxs t)" using l ts shaped_idxs by auto
  also have "\<dots> \<le> length (concat (map idxs ts))" using ts by simp
  also have "\<dots> = length ns" using l by (simp add: body_def)
  finally show "ht < length ns" .
qed

lemma build_levels_ok:
  assumes "st t0 t ns h" "level ns ht ts" "length ts \<le> fuel" "length ns + length ts \<le> bx_nil B"
  shows "\<exists>t' ns' T ht'. bp_build_levels B fuel (map rt ts) t = Inr (rt T, t') \<and> st t0 t' ns' h \<and> level ns' ht' [T] \<and>
    items T = row ts \<and> leaves T = concat (map leaves ts)"
  using assms
proof (induction fuel arbitrary: t ns ht ts)
  case 0
  then show ?case by (simp add: level_def)
next
  case (Suc f)
  show ?case
  proof (cases "1 < length ts")
    case False
    then obtain T where "ts = [T]" using Suc.prems(2) by (cases ts; cases "tl ts") (auto simp: level_def)
    then show ?thesis using Suc.prems(1,2) by (intro exI [of _ t] exI [of _ ns] exI [of _ T] exI [of _ ht]) simp
  next
    case True
    let ?gs = "chunks (Suc kcap) ts"
    let ?is = "[length ns ..< length ns + length ?gs]"
    let ?ts = "map2 parent ?is ?gs"
    have few: "2 * length ?gs \<le> length ts" using chunks_few [of "Suc kcap" ts] caps_min(2) True by simp
    have "\<forall>g \<in> set ?gs. kids_ok ns ht g \<and> g \<noteq> [] \<and> length g \<le> Suc kcap"
    proof
      fix g assume g: "g \<in> set ?gs"
      then have "set g \<subseteq> set ts" using concat_chunks [of "Suc kcap" ts] by (metis Union_upper image_eqI set_concat zero_less_Suc)
      then show "kids_ok ns ht g \<and> g \<noteq> [] \<and> length g \<le> Suc kcap"
        using level_kids(1) [OF Suc.prems(2)] chunks_sizes [of "Suc kcap" g ts] g by (auto simp: kids_ok_def)
    qed
    moreover have "length ns + length ?gs \<le> bx_nil B" using few Suc.prems(4) by simp
    ultimately obtain t1 ms where t1: "bp_build_level B (map (map rt) ?gs) t = Inr (?is, t1)" "st t0 t1 (ns @ ms) h"
      "list_all2 (\<lambda>g m. holds L 0 (map fkey (tl g)) m \<and> has_kids L (map rt g) m) ?gs ms"
      using build_level_ok [OF Suc.prems(1)] level_kids(2) [OF Suc.prems(2)] by (meson less_imp_le)
    note ls = level_step [OF Suc.prems(2) True refl refl t1(3)]
    have len: "length ?ts = length ?gs" "length (ns @ ms) = length ns + length ?gs" using list_all2_lengthD [OF t1(3)] by simp_all
    have room: "length ?ts \<le> f" "length (ns @ ms) + length ?ts \<le> bx_nil B" using few len Suc.prems(3,4) True by simp_all
    obtain t' ns' T ht' where T: "bp_build_levels B f (map rt ?ts) t1 = Inr (rt T, t')" "st t0 t' ns' h" "level ns' ht' [T]"
      "items T = row ?ts" "leaves T = concat (map leaves ?ts)"
      using Suc.IH [OF t1(2) ls(1) room] by blast
    have lv: "concat (map leaves ?ts) = concat (map leaves ts)"
      using leaves_groups [of ?is ?gs] concat_chunks [of "Suc kcap" ts] by simp
    have "bp_build_levels B (Suc f) (map rt ts) t = Inr (rt T, t')"
      using True t1(1) T(1) ls(3) by (simp add: child_cap chunks_map)
    then show ?thesis using T(2-5) ls(2) lv by metis
  qed
qed

lemma level_root:
  assumes "level ns ht [T]" "h = \<lparr>bh_root = rt T, bh_last_leaf = fst (last (leaves T)), bh_nkeys = length (keys T)\<rparr>"
  shows "binv L (bx_kmax B) ns h T"
  using assms by (auto simp: level_def binv_def filled_def header_ok_def keys_def)

section \<open>The row of leaves\<close>

lemma row_leaves:
  assumes "\<forall>c \<in> set cs. c \<noteq> []" "length is = length cs" "sorted_wrt (<) (concat cs)"
  shows "ascending (row (map2 Lf is cs)) \<and> item_keys (row (map2 Lf is cs)) = concat cs \<and>
    (cs \<noteq> [] \<longrightarrow> (\<exists>its. row (map2 Lf is cs) = Key (hd (hd cs)) # its))"
  using assms
proof (induction cs arbitrary: "is")
  case Nil
  then show ?case by (simp add: row_def)
next
  case (Cons c cs)
  obtain i js where js: "is = i # js" "length js = length cs" using Cons.prems(2) by (cases "is") auto
  obtain x c' where c: "c = x # c'" using Cons.prems(1) by (cases c) auto
  have srt: "sorted_wrt (<) c" "sorted_wrt (<) (concat cs)" "\<forall>a \<in> set c. \<forall>b \<in> set (concat cs). a < b"
    using Cons.prems(3) by (simp_all add: sorted_wrt_append)
  let ?r = "row (map2 Lf js cs)"
  have ih: "ascending ?r" "item_keys ?r = concat cs" "cs \<noteq> [] \<longrightarrow> (\<exists>its. ?r = Key (hd (hd cs)) # its)"
    using Cons.IH [of js] Cons.prems js srt by auto
  show ?case
  proof (cases cs)
    case Nil
    then show ?thesis using js c srt(1) by simp
  next
    case (Cons d ds)
    obtain y d' where d: "d = y # d'" using Cons.prems(1) Cons by (cases d) auto
    obtain j ks where jk: "js = j # ks" using js(2) Cons by (cases js) auto
    obtain its where its: "?r = Key y # its" using ih(3) Cons d by auto
    have rw: "row (map2 Lf is (c # cs)) = map Key c @ Sep y # Key y # its"
      using row_Cons [of "map2 Lf js cs" "Lf i c"] its js Cons d jk by (simp add: fkey_def)
    have "y \<in> set (concat cs)" using Cons d by simp
    then have "\<forall>a \<in> set c. before (Key a) (Key y)" using srt(3) by fastforce
    then have "before a b" if "a \<in> set (map Key c)" "b \<in> set (Key y # its)" for a b
      using that ih(1) before_trans [of a "Key y" b] unfolding its by auto
    then have "ascending (map Key c @ Key y # its)"
      using ih(1) srt(1) unfolding its sorted_wrt_append by auto
    then have "ascending (map Key c @ Sep y # Key y # its)" by (rule ascending_sep)
    then show ?thesis using rw ih(2) its c by simp
  qed
qed

lemma leaf_row:
  assumes "length is = length cs"
  shows "concat (map idxs (map2 Lf is cs)) = is" "map fst (concat (map leaves (map2 Lf is cs))) = is"
  using assms by (induction "is" cs rule: list_induct2) simp_all

lemma fills_leaves:
  assumes "length is = length cs" "\<forall>c \<in> set cs. c \<noteq> []" "\<forall>c \<in> set (butlast cs). lm \<le> length c"
  shows "fills lm km True (map2 Lf is cs)"
  using assms
proof (induction "is" cs rule: list_induct2)
  case (Cons i js c cs)
  then show ?case by (cases cs; cases js) (auto simp: fills_Cons)
qed simp

lemma leaf_level:
  assumes cs: "cs = chunks lcap ks" "ks \<noteq> []" "sorted_wrt (<) ks" "\<forall>k \<in> set ks. k \<le> bx_kmax B" and n: "length ns = length cs"
    and hold: "\<forall>j < length cs. holds L FLAG_LEAF (cs ! j) (ns ! j)"
    and link: "\<forall>j < length cs. bn_link (ns ! j) = (if Suc j < length cs then Suc j else bx_nil B)"
  shows "level ns 0 (map2 Lf [0 ..< length cs] cs)" "item_keys (row (map2 Lf [0 ..< length cs] cs)) = ks"
proof -
  let ?ts = "map2 Lf [0 ..< length cs] cs"
  have l0: "0 < lcap" using caps_min by simp
  have sz: "\<forall>c \<in> set cs. c \<noteq> [] \<and> length c \<le> lcap" using chunks_sizes [OF l0] cs(1) by blast
  have cc: "concat cs = ks" using concat_chunks [OF l0] cs(1) by simp
  have ne: "cs \<noteq> []" using cs(1,2) l0 by (simp add: chunks_eq_Nil)
  have rl: "ascending (row ?ts)" "item_keys (row ?ts) = ks" using row_leaves [of cs "[0 ..< length cs]"] sz cc cs(3) by simp_all
  then show "item_keys (row ?ts) = ks" by simp
  have ix: "concat (map idxs ?ts) = [0 ..< length cs]" and lv: "map fst (concat (map leaves ?ts)) = [0 ..< length cs]"
    by (rule leaf_row; simp)+
  have "chain (bl_nil L) (\<lambda>j. bn_link (ns ! j)) [a ..< length cs]" for a
  proof (induction "length cs - a" arbitrary: a)
    case (Suc x)
    then have a: "a < length cs" "x = length cs - Suc a" by simp_all
    show ?case using Suc.hyps(1) [OF a(2)] link a(1) by (cases "Suc a < length cs") (auto simp: upt_conv_Cons)
  qed simp
  then have "body (bl_nil L) (bx_kmax B) ns (concat (map idxs ?ts)) (concat (map leaves ?ts)) (row ?ts)"
    unfolding body_def ix lv using rl n cs(4) by simp
  moreover have "repr L ns t \<and> shaped 0 t" if "t \<in> set ?ts" for t
    using that hold sz n by (auto simp: set_zip)
  moreover have "fills (lmin L) (kmin L) True ?ts"
  proof (rule fills_leaves)
    show "\<forall>c \<in> set (butlast cs). lmin L \<le> length c"
    proof
      fix c assume "c \<in> set (butlast cs)"
      then have "length c = lcap" using chunks_full [OF l0, of c ks] cs(1) by simp
      then show "lmin L \<le> length c" by (simp add: lmin_def)
    qed
  qed (use sz in auto)
  moreover have "root_key T" if T: "?ts = [T]" for T
  proof -
    have "T \<in> set ?ts" using T by simp
    then show ?thesis by auto
  qed
  ultimately show "level ns 0 ?ts" using ne unfolding level_def by simp
qed

section \<open>Construction\<close>

definition fresh :: "bp_tree \<Rightarrow> bool" where
  "fresh t \<longleftrightarrow> brels t \<and> nds t = [] \<and> hds t = []"

lemma push_header_ok:
  assumes "fresh t"
  shows "\<exists>t'. bp_push_header B t = Inr t' \<and> st t t' [] \<lparr>bh_root = bx_nil B, bh_last_leaf = bx_nil B, bh_nkeys = 0\<rparr>"
proof -
  let ?h = "\<lparr>bh_root = bx_nil B, bh_last_leaf = bx_nil B, bh_nkeys = 0\<rparr>"
  obtain a where a: "meta.rel (bt_meta t) a" using assms by (auto simp: fresh_def brels_def)
  obtain v where v: "vec_push (bx_meta B) ?h (bt_meta t) = Inr v" "hvals (v_store v) = [?h]" "meta.rel v a"
    using meta.push_spec [OF a, of ?h] assms meta_imax by (auto simp: fresh_def)
  have "(vec_upd (bx_meta B) (\<lambda>_. True))\<^sup>*\<^sup>* (bt_meta t) v" using meta.upds(1) [OF TrueI v(1)] by auto
  then show ?thesis using v assms by (auto simp: bp_push_header_def st_def brels_def bupd_def fresh_def)
qed

lemma init_ok:
  assumes "fresh t"
  shows "\<exists>t' ns h. bp_init B t = Inr t' \<and> st t t' ns h \<and> binv L (bx_kmax B) ns h (Lf 0 [])"
proof -
  obtain t1 where t1: "bp_push_header B t = Inr t1" "st t t1 [] \<lparr>bh_root = bx_nil B, bh_last_leaf = bx_nil B, bh_nkeys = 0\<rparr>"
    using push_header_ok [OF assms] by blast
  obtain t2 where t2: "bp_alloc_leaf B t1 = Inr (0, t2)" "st t t2 [new_leaf L] \<lparr>bh_root = bx_nil B, bh_last_leaf = bx_nil B, bh_nkeys = 0\<rparr>"
    using st_alloc_leaf [OF t1(2)] arena_big by auto
  obtain t3 where t3: "bp_set_root B 0 t2 = Inr t3" "st t t3 [new_leaf L] \<lparr>bh_root = 0, bh_last_leaf = bx_nil B, bh_nkeys = 0\<rparr>"
    using st_sets(1) [OF t2(2), of 0] by auto
  obtain t4 where t4: "bp_set_last_leaf B 0 t3 = Inr t4" "st t t4 [new_leaf L] \<lparr>bh_root = 0, bh_last_leaf = 0, bh_nkeys = 0\<rparr>"
    using st_sets(2) [OF t3(2), of 0] by auto
  have "binv L (bx_kmax B) [new_leaf L] \<lparr>bh_root = 0, bh_last_leaf = 0, bh_nkeys = 0\<rparr> (Lf 0 [])"
    using new_nodes by (auto simp: binv_def filled_def body_def header_ok_def)
  moreover have "bp_init B t = Inr t4" unfolding bp_init_def using t1(1) t2(1) t3(1) t4(1) by simp
  ultimately show ?thesis using t4(2) by blast
qed

lemma few_leaves:
  assumes "sorted_wrt (<) ks" "\<forall>k \<in> set ks. k \<le> bx_kmax B"
  shows "2 * length (chunks lcap ks) \<le> bx_nil B" "length ks \<le> Suc (bx_kmax B)"
proof -
  show k: "length ks \<le> Suc (bx_kmax B)" using ascending_keys_bounded [OF assms] .
  have "2 * length (chunks lcap ks) \<le> Suc (length ks)" using chunks_few [of lcap ks] caps_min by (auto split: if_splits)
  then show "2 * length (chunks lcap ks) \<le> bx_nil B" using k arena_big by (simp add: MAX_PATH_def)
qed

lemma bulk_leaves_ok:
  assumes s: "st t0 t [] h" and ks: "ks \<noteq> []" "sorted_wrt (<) ks" "\<forall>k \<in> set ks. k \<le> bx_kmax B" and cs: "cs = chunks lcap ks"
  shows "\<exists>t1 t2 ns. bp_build_leaves B cs t = Inr ([0 ..< length cs], t1) \<and> bp_link_leaves B [0 ..< length cs] t1 = Inr t2 \<and>
    st t0 t2 ns h \<and> length ns = length cs \<and> level ns 0 (map2 Lf [0 ..< length cs] cs)"
proof -
  have room: "length cs \<le> bx_nil B" using few_leaves(1) [OF ks(2,3)] cs by simp
  have "\<forall>c \<in> set cs. length c \<le> lcap" using chunks_sizes [of lcap] caps_min cs by auto
  then obtain t1 ms where t1: "bp_build_leaves B cs t = Inr ([0 ..< length cs], t1)" "st t0 t1 ms h"
    "list_all2 (\<lambda>c m. holds L FLAG_LEAF c m \<and> bn_link m = bx_nil B) cs ms"
    using build_leaves_ok [OF s, of cs] room by auto
  have len: "length ms = length cs" using list_all2_lengthD [OF t1(3)] by simp
  have m: "holds L FLAG_LEAF (cs ! j) (ms ! j) \<and> bn_link (ms ! j) = bx_nil B" if "j < length cs" for j
    using t1(3) that by (simp add: list_all2_conv_all_nth)
  have dm: "\<forall>j. 0 \<le> j \<and> j < length cs \<longrightarrow> bp_node_dom (ms ! j)" using m holds_dom by blast
  obtain t2 ns where t2: "bp_link_leaves B [0 ..< length cs] t1 = Inr t2" "st t0 t2 ns h" "length ns = length ms"
    "\<forall>j < length ms. ns ! j = (if 0 \<le> j \<and> Suc j < length cs then set_link (Suc j) (ms ! j) else ms ! j)"
    using link_leaves_ok [OF t1(2) _ _ dm] len room by auto
  have "\<forall>j < length cs. holds L FLAG_LEAF (cs ! j) (ns ! j)"
    "\<forall>j < length cs. bn_link (ns ! j) = (if Suc j < length cs then Suc j else bx_nil B)"
    using t2(4) m len by (auto simp: set_link_def holds_def)
  then have "level ns 0 (map2 Lf [0 ..< length cs] cs)" using t2(3) len ks cs by (intro leaf_level) auto
  then show ?thesis using t1(1) t2 len by auto
qed

lemma last_leaf_index: "level ns 0 (map2 Lf [0 ..< length cs] cs) \<Longrightarrow> fst (last (concat (map leaves (map2 Lf [0 ..< length cs] cs)))) = length cs - 1"
proof -
  assume l: "level ns 0 (map2 Lf [0 ..< length cs] cs)"
  let ?lv = "concat (map leaves (map2 Lf [0 ..< length cs] cs))"
  have cs: "cs \<noteq> []" using l by (auto simp: level_def)
  have lv: "map fst ?lv = [0 ..< length cs]" by (rule leaf_row) simp
  then have "?lv \<noteq> []" using cs by (metis length_0_conv list.simps(8) length_upt diff_zero)
  then have "fst (last ?lv) = last (map fst ?lv)" by (simp add: last_map)
  then show ?thesis using lv cs by (metis last_upt length_greater_0_conv)
qed

lemma build_ok:
  assumes f: "fresh t" and ks: "sorted_wrt (<) ks" "\<forall>k \<in> set ks. k \<le> bx_kmax B"
  shows "\<exists>t' ns h T. bp_build B ks t = Inr t' \<and> st t t' ns h \<and> binv L (bx_kmax B) ns h T \<and> keys T = ks"
proof (cases "ks = []")
  case True
  then show ?thesis using init_ok [OF f] by (fastforce simp: bp_build_def)
next
  case False
  let ?cs = "chunks lcap ks" and ?nil = "bx_nil B"
  let ?is = "[0 ..< length ?cs]"
  let ?ts = "map2 Lf ?is ?cs"
  obtain t1 where t1: "bp_push_header B t = Inr t1" "st t t1 [] \<lparr>bh_root = ?nil, bh_last_leaf = ?nil, bh_nkeys = 0\<rparr>"
    using push_header_ok [OF f] by blast
  obtain t2 where t2: "bp_set_nkeys B (length ks) t1 = Inr t2" "st t t2 [] \<lparr>bh_root = ?nil, bh_last_leaf = ?nil, bh_nkeys = length ks\<rparr>"
    using st_sets(3) [OF t1(2), of "length ks"] by auto
  obtain t3 t4 ns where t3: "bp_build_leaves B ?cs t2 = Inr (?is, t3)" "bp_link_leaves B ?is t3 = Inr t4"
    "st t t4 ns \<lparr>bh_root = ?nil, bh_last_leaf = ?nil, bh_nkeys = length ks\<rparr>" "length ns = length ?cs" "level ns 0 ?ts"
    using bulk_leaves_ok [OF t2(2) False ks refl] by blast
  have ne: "?cs \<noteq> []" using False caps_min chunks_eq_Nil [of lcap ks] by auto
  let ?h = "\<lparr>bh_root = ?nil, bh_last_leaf = length ?cs - 1, bh_nkeys = length ks\<rparr>"
  obtain t5 where t5: "bp_set_last_leaf B (length ?cs - 1) t4 = Inr t5" "st t t5 ns ?h" using st_sets(2) [OF t3(3), of "length ?cs - 1"] by auto
  have rt: "map rt ?ts = ?is" by (intro nth_equalityI) simp_all
  have rk: "item_keys (row ?ts) = ks"
    using row_leaves [of ?cs ?is] chunks_sizes [of lcap _ ks] concat_chunks [of lcap ks] caps_min ks(1) by auto
  have room: "length ns + length ?ts \<le> ?nil" using few_leaves(1) [OF ks] t3(4) by simp
  obtain t6 ns' T ht where T: "bp_build_levels B (length ?cs) ?is t5 = Inr (rt T, t6)" "st t t6 ns' ?h" "level ns' ht [T]"
    "items T = row ?ts" "leaves T = concat (map leaves ?ts)"
    using build_levels_ok [OF t5(2) t3(5) _ room, of "length ?cs"] rt by auto
  obtain t7 where t7: "bp_set_root B (rt T) t6 = Inr t7" "st t t7 ns' (?h\<lparr>bh_root := rt T\<rparr>)" using st_sets(1) [OF T(2)] by blast
  have kT: "keys T = ks" using rk T(4) by (simp add: keys_def)
  have "binv L (bx_kmax B) ns' (?h\<lparr>bh_root := rt T\<rparr>) T"
    using last_leaf_index [OF t3(5)] T(5) kT by (intro level_root [OF T(3)]) simp
  moreover have "last ?is = length ?cs - 1" "?is \<noteq> []" using ne by (simp_all add: last_upt)
  moreover have "(if length ?is = 1 then rbind (nth_res ?is 0) (\<lambda>r. bp_set_root B r t5)
      else rbind (bp_build_levels B (length ?is) ?is t5) (\<lambda>(r, t). bp_set_root B r t)) = Inr t7"
  proof (cases "length ?cs = 1")
    case True
    then have "bp_build_levels B (length ?cs) ?is t5 = rbind (nth_res ?is 0) (\<lambda>r. Inr (r, t5))" by simp
    then have "rt T = 0" "t6 = t5" using T(1) True by simp_all
    then show ?thesis using True t7(1) by simp
  next
    case False
    then show ?thesis using T(1) t7(1) by simp
  qed
  ultimately have "bp_build B ks t = Inr t7"
    unfolding bp_build_def using False t1(1) t2(1) t3(1,2) t5(1) by simp
  then show ?thesis using t7(2) \<open>binv _ _ _ _ T\<close> kT by blast
qed

end

end
