(* ===== verification/Bplus_Cursor.thy ===== *)
theory Bplus_Cursor
  imports Bplus_Bulk
begin

text \<open>
  The cursor of the B+ tree meets the strong cursor contract: whatever shortcut \<open>seek\<close> takes, it stands on the
  least key at or after the target.  The keys of a tree are read off the leaves of its arena, since no node is
  ever freed.
\<close>

section \<open>The keys of an arena\<close>

definition elems :: "bp_node list \<Rightarrow> nat set" where
  "elems ns = (\<Union>n \<in> set ns. if is_leaf n then set (take (bn_count n) (bn_data n)) else {})"

lemma leaves_hold: "repr L ns t \<Longrightarrow> (i, ks) \<in> set (leaves t) \<Longrightarrow> i < length ns \<and> holds L FLAG_LEAF ks (ns ! i) \<and> length ks \<le> bl_leaf_cap L"
  by (induction t) auto

lemma idxs_kinds: "repr L ns t \<Longrightarrow> i \<in> set (idxs t) \<Longrightarrow> (\<exists>ks. (i, ks) \<in> set (leaves t)) \<or> \<not> is_leaf (ns ! i)"
proof (induction t)
  case (Nd j ks cs)
  then show ?case by (fastforce simp: holds_def is_leaf_def)
qed simp

lemma repr_elems:
  assumes "repr L ns t" "shaped h t" "set (idxs t) = {..<length ns}"
  shows "elems ns = set (keys t)"
proof -
  have kl: "keys t = concat (map snd (leaves t))" using keys_leaves [OF assms(2)] .
  have sub: "x \<in> elems ns" if "(i, ks) \<in> set (leaves t)" "x \<in> set ks" for i ks x
  proof -
    have h: "i < length ns" "holds L FLAG_LEAF ks (ns ! i)" using leaves_hold [OF assms(1) that(1)] by auto
    then have "is_leaf (ns ! i)" "take (bn_count (ns ! i)) (bn_data (ns ! i)) = ks" by (auto simp: holds_def is_leaf_def FLAG_LEAF_def)
    then show ?thesis using h(1) that(2) unfolding elems_def by (intro UN_I [of "ns ! i"]) auto
  qed
  moreover have "\<exists>i ks. (i, ks) \<in> set (leaves t) \<and> x \<in> set ks" if "x \<in> elems ns" for x
  proof -
    obtain i where i: "i < length ns" "is_leaf (ns ! i)" "x \<in> set (take (bn_count (ns ! i)) (bn_data (ns ! i)))"
    proof -
      obtain n where "n \<in> set ns" "is_leaf n" "x \<in> set (take (bn_count n) (bn_data n))"
        using \<open>x \<in> elems ns\<close> by (auto simp: elems_def split: if_splits)
      then show ?thesis using that unfolding in_set_conv_nth [of n] by blast
    qed
    then obtain ks where ks: "(i, ks) \<in> set (leaves t)" using idxs_kinds [OF assms(1), of i] assms(3) by auto
    then have "holds L FLAG_LEAF ks (ns ! i)" using leaves_hold [OF assms(1)] by blast
    then show ?thesis using ks i(3) by (auto simp: holds_def)
  qed
  ultimately have "elems ns = {x. \<exists>i ks. (i, ks) \<in> set (leaves t) \<and> x \<in> set ks}" by blast
  also have "\<dots> = set (keys t)" unfolding kl by force
  finally show ?thesis .
qed

lemma fill_leaves_ne: "fill lm km r t \<Longrightarrow> (i, ks) \<in> set (leaves t) \<Longrightarrow> ks \<noteq> []"
  and fills_leaves_ne: "fills lm km r cs \<Longrightarrow> (i, ks) \<in> set (concat (map leaves cs)) \<Longrightarrow> ks \<noteq> []"
  by (induction lm km r t and lm km r cs rule: fill_fills.induct) auto

lemma seps_keys:
  "length ks = length cs \<Longrightarrow> item_keys (seps_left ks cs) = concat (map item_keys cs)"
  "length ks = length cs \<Longrightarrow> item_keys (seps_right ks cs) = concat (map item_keys cs)"
  by (induction ks cs rule: list_induct2) auto

lemma leaves_keys: "\<forall>c \<in> set cs. shaped h c \<Longrightarrow> concat (map (item_keys \<circ> items) cs) = concat (map snd (concat (map leaves cs)))"
proof (induction cs)
  case (Cons c cs)
  then show ?case using keys_leaves [of h c] by (simp add: keys_def)
qed simp

lemma frames_keys:
  "fshaped h fs \<Longrightarrow> item_keys (pres fs) = concat (map snd (leaves_before fs)) \<and> item_keys (posts fs) = concat (map snd (leaves_after fs))"
proof (induction h fs rule: fshaped.induct)
  case (2 h i ka As kb Bs fs)
  then show ?case using leaves_keys [of As h] leaves_keys [of Bs h] by (simp add: seps_keys)
qed simp

text \<open>A position among ascending keys.\<close>

lemma place:
  fixes w :: nat
  assumes "sorted_wrt (<) (P @ k # Q)" "\<forall>x \<in> set P. x < w" "w \<le> k"
  shows "filter (\<lambda>x. w \<le> x) (P @ k # Q) = k # Q" "filter (\<lambda>x. k \<le> x) (P @ k # Q) = k # Q" "filter (\<lambda>x. x < k) (P @ k # Q) = P"
proof -
  have "\<forall>x \<in> set P. x < k" "\<forall>x \<in> set Q. k < x" using assms(1) by (auto simp: sorted_wrt_append)
  then have "filter (\<lambda>x. w \<le> x) P = []" "filter (\<lambda>x. w \<le> x) Q = Q" "filter (\<lambda>x. k \<le> x) P = []" "filter (\<lambda>x. k \<le> x) Q = Q"
    "filter (\<lambda>x. x < k) P = P" "filter (\<lambda>x. x < k) Q = []"
    using assms(2,3) by (auto simp: filter_empty_conv filter_id_conv)
  then show "filter (\<lambda>x. w \<le> x) (P @ k # Q) = k # Q" "filter (\<lambda>x. k \<le> x) (P @ k # Q) = k # Q" "filter (\<lambda>x. x < k) (P @ k # Q) = P"
    using assms(3) by auto
qed

lemma filter_dropWhile_below: "sorted_wrt (<) ks \<Longrightarrow> filter (\<lambda>x. w \<le> x) ks = dropWhile (\<lambda>x. x < w) ks" for w :: nat
proof (induction ks)
  case (Cons k ks)
  show ?case
  proof (cases "k < w")
    case True
    then show ?thesis using Cons by simp
  next
    case False
    then have "\<forall>x \<in> set (k # ks). w \<le> x" using Cons.prems by fastforce
    then have "filter (\<lambda>x. w \<le> x) (k # ks) = k # ks" by (simp only: filter_id_conv)
    then show ?thesis using False by simp
  qed
qed simp

lemma last_ge: "sorted_wrt (<) ks \<Longrightarrow> x \<in> set ks \<Longrightarrow> x \<le> last ks" for x :: nat
  by (cases ks rule: rev_cases) (auto simp: sorted_wrt_append)

context bp_ops
begin

section \<open>What a cursor stands on\<close>

definition ckeys :: "bp_tree \<Rightarrow> nat list" where
  "ckeys t = sorted_list_of_set (elems (nds t))"

definition ckey :: "bp_tree \<times> bp_cursor \<Rightarrow> nat" where
  "ckey c = bn_data (nds (fst c) ! bc_node (snd c)) ! bc_pos (snd c)"

definition crest :: "bp_tree \<times> bp_cursor \<Rightarrow> nat list" where
  "crest c = (if bc_node (snd c) = bx_nil B then [] else filter (\<lambda>x. ckey c \<le> x) (ckeys (fst c)))"

definition cpast :: "bp_tree \<times> bp_cursor \<Rightarrow> nat list" where
  "cpast c = (if bc_node (snd c) = bx_nil B then ckeys (fst c) else filter (\<lambda>x. x < ckey c) (ckeys (fst c)))"

definition tree_ok :: "bp_tree \<Rightarrow> btree \<Rightarrow> bool" where
  "tree_ok t T \<longleftrightarrow> (\<exists>h. st t t (nds t) h \<and> binv L (bx_kmax B) (nds t) h T)"

definition cinv :: "bp_tree \<times> bp_cursor \<Rightarrow> bool" where
  "cinv c \<longleftrightarrow> (\<exists>T. tree_ok (fst c) T \<and> (bc_node (snd c) = bx_nil B \<or>
    (\<exists>ks. (bc_node (snd c), ks) \<in> set (leaves T) \<and> bc_pos (snd c) < length ks)))"

lemma binv_elems:
  assumes "binv L (bx_kmax B) ns h T"
  shows "elems ns = set (keys T)" "sorted_list_of_set (elems ns) = keys T" "sorted_wrt (<) (keys T)"
proof -
  note b = assms [unfolded binv_def body_def]
  have "set (idxs T) \<subseteq> {..<length ns}" using b repr_idxs by auto
  moreover have "card (set (idxs T)) = card {..<length ns}" using b distinct_card [of "idxs T"] by simp
  ultimately have "set (idxs T) = {..<length ns}" by (intro card_subset_eq) auto
  then show e: "elems ns = set (keys T)" using b repr_elems by blast
  show s: "sorted_wrt (<) (keys T)" using b item_keys_sorted by (simp add: keys_def)
  then show "sorted_list_of_set (elems ns) = keys T" unfolding e by (simp add: sorted_list_of_set.idem_if_sorted_distinct strict_sorted_iff)
qed

lemma tree_ok_keys: "tree_ok t T \<Longrightarrow> ckeys t = keys T" "tree_ok t T \<Longrightarrow> sorted_wrt (<) (keys T)"
  using binv_elems by (auto simp: tree_ok_def ckeys_def)

text \<open>The leaf a cursor is in, with the leaves around it.\<close>

lemma at_leaf:
  assumes t: "tree_ok t T" and lv: "leaves T = lb @ (i, ks) # la"
  shows "i < length (nds t)" "i \<noteq> bx_nil B" "holds L FLAG_LEAF ks (nds t ! i)" "length ks \<le> dlen"
    "bn_link (nds t ! i) = (if la = [] then bx_nil B else fst (hd la))" "\<forall>(j, js) \<in> set la. js \<noteq> []"
    "keys T = concat (map snd lb) @ ks @ concat (map snd la)"
proof -
  obtain h where h: "st t t (nds t) h" "binv L (bx_kmax B) (nds t) h T" using t by (auto simp: tree_ok_def)
  note b = h(2) [unfolded binv_def]
  obtain ht where ht: "shaped ht T" using b by blast
  have l: "i < length (nds t)" "holds L FLAG_LEAF ks (nds t ! i)" "length ks \<le> lcap"
    using leaves_hold [of L "nds t" T i ks] b lv by auto
  then show "i < length (nds t)" "holds L FLAG_LEAF ks (nds t ! i)" "length ks \<le> dlen" using data_fits(2) by auto
  show "i \<noteq> bx_nil B" using l(1) binv_bounds(3) [OF h(2) ht] arena_big by (simp add: MAX_PATH_def)
  have "chain (bx_nil B) (\<lambda>j. bn_link (nds t ! j)) (map fst lb @ i # map fst la)" using b lv by (simp add: body_def)
  then show "bn_link (nds t ! i) = (if la = [] then bx_nil B else fst (hd la))" using chain_split by (fastforce simp: hd_map)
  show "keys T = concat (map snd lb) @ ks @ concat (map snd la)" using keys_leaves [OF ht] lv by simp
  show "\<forall>(j, js) \<in> set la. js \<noteq> []"
  proof (cases "fill (lmin L) (kmin L) True T")
    case True
    then show ?thesis using fill_leaves_ne [OF True] lv by auto
  next
    case False
    then obtain j where "T = Lf j []" using b by (auto simp: filled_def)
    then show ?thesis using lv by (cases lb) auto
  qed
qed

lemma at_pos:
  assumes t: "tree_ok t T" and lv: "leaves T = lb @ (i, ks) # la" and p: "p < length ks"
  shows "cinv (t, \<lparr>bc_node = i, bc_pos = p\<rparr>)" "ckey (t, \<lparr>bc_node = i, bc_pos = p\<rparr>) = ks ! p"
    "crest (t, \<lparr>bc_node = i, bc_pos = p\<rparr>) = drop p ks @ concat (map snd la)"
    "cpast (t, \<lparr>bc_node = i, bc_pos = p\<rparr>) = concat (map snd lb) @ take p ks"
proof -
  note a = at_leaf [OF t lv]
  let ?c = "(t, \<lparr>bc_node = i, bc_pos = p\<rparr>)"
  show "cinv ?c" using t lv p by (auto simp: cinv_def intro!: exI [of _ T])
  show k: "ckey ?c = ks ! p" using data_nth [OF a(3) p a(4)] by (auto simp: ckey_def nth_res_def split: if_splits)
  have ks: "ks = take p ks @ ks ! p # drop (Suc p) ks" using p by (simp add: id_take_nth_drop)
  then have "keys T = (concat (map snd lb) @ take p ks) @ ks ! p # (drop (Suc p) ks @ concat (map snd la))"
    unfolding a(7) by (metis append.assoc append_Cons)
  then obtain P Q where PQ: "keys T = P @ ks ! p # Q" "P = concat (map snd lb) @ take p ks" "Q = drop (Suc p) ks @ concat (map snd la)" by blast
  then have srt: "sorted_wrt (<) (P @ ks ! p # Q)" using tree_ok_keys(2) [OF t] by simp
  then have "\<forall>x \<in> set P. x < ks ! p" by (simp add: sorted_wrt_append)
  then have "filter (\<lambda>x. ks ! p \<le> x) (keys T) = ks ! p # Q" "filter (\<lambda>x. x < ks ! p) (keys T) = P"
    using place [OF srt, of "ks ! p"] PQ(1) by simp_all
  then show "crest ?c = drop p ks @ concat (map snd la)" "cpast ?c = concat (map snd lb) @ take p ks"
    using k tree_ok_keys(1) [OF t] a(2) p PQ(2,3) by (simp_all add: crest_def cpast_def Cons_nth_drop_Suc flip: append_Cons)
qed

lemma at_end:
  assumes "tree_ok t T" "bc_node c = bx_nil B"
  shows "cinv (t, c)" "crest (t, c) = []" "cpast (t, c) = keys T"
  using assms tree_ok_keys(1) by (auto simp: cinv_def crest_def cpast_def)

text \<open>The next leaf, or the end.\<close>

lemma after_leaf:
  assumes t: "tree_ok t T" and lv: "leaves T = lb @ (i, ks) # la" and c: "c = \<lparr>bc_node = bn_link (nds t ! i), bc_pos = 0\<rparr>"
  shows "cinv (t, c)" "crest (t, c) = concat (map snd la)" "cpast (t, c) = concat (map snd lb) @ ks"
proof -
  note a = at_leaf [OF t lv]
  have "cinv (t, c) \<and> crest (t, c) = concat (map snd la) \<and> cpast (t, c) = concat (map snd lb) @ ks"
  proof (cases la)
    case Nil
    then show ?thesis using at_end [OF t, of c] a(5,7) c by simp
  next
    case (Cons p la')
    obtain j js where p: "p = (j, js)" by (cases p)
    have "leaves T = (lb @ [(i, ks)]) @ (j, js) # la'" using lv Cons p by simp
    moreover have "0 < length js" using a(6) Cons p by auto
    ultimately show ?thesis using at_pos [OF t, of "lb @ [(i, ks)]" j js la' 0] a(5) c Cons p by simp
  qed
  then show "cinv (t, c)" "crest (t, c) = concat (map snd la)" "cpast (t, c) = concat (map snd lb) @ ks" by blast+
qed

lemma cinv_cases:
  assumes "cinv (t, c)"
  obtains (ended) T where "tree_ok t T" "bc_node c = bx_nil B"
    | (at) T lb i ks la p where "tree_ok t T" "leaves T = lb @ (i, ks) # la" "p < length ks" "c = \<lparr>bc_node = i, bc_pos = p\<rparr>"
proof -
  obtain T where T: "tree_ok t T" "bc_node c = bx_nil B \<or> (\<exists>ks. (bc_node c, ks) \<in> set (leaves T) \<and> bc_pos c < length ks)"
    using assms by (auto simp: cinv_def)
  from T(2) show thesis
  proof (elim disjE exE conjE)
    assume "bc_node c = bx_nil B"
    then show thesis using T(1) ended by blast
  next
    fix ks assume ks: "(bc_node c, ks) \<in> set (leaves T)" "bc_pos c < length ks"
    then obtain lb la where "leaves T = lb @ (bc_node c, ks) # la" by (meson split_list)
    then show thesis using at [OF T(1) _ ks(2)] by simp
  qed
qed

lemma tree_node: "tree_ok t T \<Longrightarrow> i < length (nds t) \<Longrightarrow> bp_get_node B i t = Inr (nds t ! i)"
  using st_node by (fastforce simp: tree_ok_def)

section \<open>\<open>key\<close> and \<open>step\<close>\<close>

lemma key_ok:
  assumes "cinv (t, c)"
  shows "bp_key B t c = Inr (head_opt (crest (t, c)))"
  using assms
proof (cases rule: cinv_cases)
  case (ended T)
  then show ?thesis using at_end by (simp add: bp_key_def)
next
  case (at T lb i ks la p)
  note a = at_leaf [OF at(1,2)]
  have "ks ! p \<in> set (keys T)" using a(7) at(3) by simp
  then have "ks ! p \<le> bx_kmax B" using at(1) by (auto simp: tree_ok_def binv_def body_def keys_def)
  then have "idx_try (bx_kmax B) (ks ! p) = Some (ks ! p)" by (simp add: idx_try_def)
  moreover have "bn_count (nds t ! i) = length ks" using a(3) by (simp add: holds_def)
  ultimately have "bp_key B t c = Inr (Some (ks ! p))"
    using a(2) tree_node [OF at(1) a(1)] data_nth [OF a(3) at(3) a(4)] at(3,4) by (simp add: bp_key_def)
  moreover have "crest (t, c) = ks ! p # drop (Suc p) ks @ concat (map snd la)"
    using at_pos(3) [OF at(1-3)] at(3,4) by (simp add: Cons_nth_drop_Suc flip: append_Cons)
  ultimately show ?thesis by simp
qed

lemma step_ok:
  assumes "cinv (t, c)"
  shows "\<exists>c'. bp_step B t c = Inr c' \<and> cinv (t, c') \<and> cpast (t, c') @ crest (t, c') = cpast (t, c) @ crest (t, c) \<and> crest (t, c') = tl (crest (t, c))"
  using assms
proof (cases rule: cinv_cases)
  case (ended T)
  then show ?thesis using at_end assms by (simp add: bp_step_def)
next
  case (at T lb i ks la p)
  note a = at_leaf [OF at(1,2)]
  have cnt: "bn_count (nds t ! i) = length ks" using a(3) by (simp add: holds_def)
  have c: "crest (t, c) = drop p ks @ concat (map snd la)" "cpast (t, c) = concat (map snd lb) @ take p ks"
    using at_pos(3,4) [OF at(1-3)] at(4) by simp_all
  show ?thesis
  proof (cases "p + 1 < length ks")
    case True
    then have "bp_step B t c = Inr \<lparr>bc_node = i, bc_pos = p + 1\<rparr>"
      using a(2) tree_node [OF at(1) a(1)] cnt at(4) by (simp add: bp_step_def)
    moreover have "drop p ks = ks ! p # drop (Suc p) ks" using at(3) by (simp add: Cons_nth_drop_Suc)
    ultimately show ?thesis using at_pos [OF at(1,2) True] c at(3) by (simp add: take_Suc_conv_app_nth)
  next
    case False
    let ?c = "\<lparr>bc_node = bn_link (nds t ! i), bc_pos = 0\<rparr>"
    have "bp_step B t c = Inr ?c" using a(2) tree_node [OF at(1) a(1)] cnt at(4) False by (simp add: bp_step_def)
    moreover have "drop p ks = [ks ! p]" "ks = take p ks @ [ks ! p]"
      using at(3) False Cons_nth_drop_Suc [OF at(3)] id_take_nth_drop [OF at(3)] by simp_all
    ultimately show ?thesis using after_leaf [OF at(1,2), of ?c] c by (intro exI [of _ ?c]) (metis append.assoc append_Cons append_Nil list.sel(3))
  qed
qed

section \<open>\<open>seek\<close>\<close>

lemma seek_leaf_ok:
  assumes "st t0 t ns h" "repr L ns (plugs fs (Lf i ks))" "\<forall>f \<in> set fs. fok f \<and> chosen w f" "length fs < fuel"
  shows "bp_seek_leaf B fuel w (rt (plugs fs (Lf i ks))) t = Inr (i, find_ge (bx_search B) ks w)"
  using assms(2-)
proof (induction fs arbitrary: fuel rule: rev_induct)
  case Nil
  then obtain f where f: "fuel = Suc f" by (cases fuel) auto
  have l: "i < length ns" "holds L FLAG_LEAF ks (ns ! i)" "length ks \<le> dlen" using Nil.prems(1) data_fits(2) by auto
  then show ?case using f st_node [OF assms(1), of i] leaf_flag(1) keys_of [OF l(2,3)] by simp
next
  case (snoc f fs)
  obtain fuel' where fl: "fuel = Suc fuel'" using snoc.prems by (cases fuel) auto
  obtain j ka As kb Bs where f: "f = Fr j ka As kb Bs" by (cases f)
  let ?sub = "plugs fs (Lf i ks)"
  have r: "frep L ns f (rt ?sub)" "repr L ns ?sub" using snoc.prems(1) by (simp_all add: repr_plug)
  have n: "j < length ns" "holds L 0 (ka @ kb) (ns ! j)" "length (ka @ kb) \<le> kcap" using r(1) f by simp_all
  have fo: "length ka = length As" "length kb = length Bs" "chosen w f" using snoc.prems(2) f by auto
  have ks: "bp_keys (ns ! j) = Inr (ka @ kb)" using n data_fits by (intro keys_of) auto
  have ch: "internal_child L (length ka) (ns ! j) = Inr (rt ?sub)" using frame_child r(1) fo(1,2) unfolding f by blast
  have "bp_seek_leaf B fuel w (rt (plugs (fs @ [f]) (Lf i ks))) t = bp_seek_leaf B fuel' w (rt ?sub) t"
    using fl st_node [OF assms(1), of j] n(1) leaf_flag(2) [OF n(2)] ks chosen_pos [of w j ka As kb Bs] fo f ch by simp
  then show ?case using snoc.IH [of fuel'] snoc.prems r(2) fl by simp
qed

lemma find_pos:
  fixes ks :: "nat list" and w :: nat
  assumes "sorted_wrt (<) ks"
  defines "pos \<equiv> find_ge (bx_search B) ks w"
  shows "pos \<le> length ks" "\<forall>k \<in> set (take pos ks). k < w" "pos < length ks \<Longrightarrow> w \<le> ks ! pos" "ks \<noteq> [] \<Longrightarrow> w \<le> last ks \<Longrightarrow> pos < length ks"
proof -
  have p: "pos = length (takeWhile (\<lambda>k. k < w) ks)" unfolding pos_def using assms(1) by (simp add: find_ge_law strict_sorted_imp_sorted)
  show le: "pos \<le> length ks" unfolding p by (rule length_takeWhile_le)
  show tk: "\<forall>k \<in> set (take pos ks). k < w" unfolding p by (metis set_takeWhileD takeWhile_eq_take)
  show "w \<le> ks ! pos" if "pos < length ks" using that nth_length_takeWhile [of "\<lambda>k. k < w" ks] unfolding p by simp
  show "pos < length ks" if "ks \<noteq> []" "w \<le> last ks"
  proof (rule ccontr)
    assume "\<not> pos < length ks"
    then have "last ks < w" using tk last_in_set [OF that(1)] by auto
    then show False using that(2) by simp
  qed
qed

definition seek_done :: "bp_tree \<Rightarrow> nat \<Rightarrow> bp_cursor \<Rightarrow> bool" where
  "seek_done t w c \<longleftrightarrow> cinv (t, c) \<and> cpast (t, c) @ crest (t, c) = ckeys t \<and> crest (t, c) = filter (\<lambda>x. w \<le> x) (ckeys t)"

text \<open>Landing inside a leaf, and just after one.\<close>

lemma land_in:
  assumes t: "tree_ok t T" and lv: "leaves T = lb @ (i, ks) # la" and lt: "\<forall>x \<in> set (concat (map snd lb)). x < w"
    and p: "find_ge (bx_search B) ks w < length ks"
  shows "seek_done t w \<lparr>bc_node = i, bc_pos = find_ge (bx_search B) ks w\<rparr>"
proof -
  let ?p = "find_ge (bx_search B) ks w"
  note a = at_leaf [OF t lv]
  have srt: "sorted_wrt (<) (keys T)" using tree_ok_keys(2) [OF t] .
  then have sks: "sorted_wrt (<) ks" unfolding a(7) by (simp add: sorted_wrt_append)
  note f = find_pos [OF sks, of w]
  have k: "keys T = (concat (map snd lb) @ take ?p ks) @ ks ! ?p # (drop (Suc ?p) ks @ concat (map snd la))"
    unfolding a(7) using id_take_nth_drop [OF p] by (metis append.assoc append_Cons)
  have "\<forall>x \<in> set (concat (map snd lb) @ take ?p ks). x < w" using lt f(2) by (auto simp del: set_concat)
  then have "filter (\<lambda>x. w \<le> x) (keys T) = ks ! ?p # (drop (Suc ?p) ks @ concat (map snd la))"
    using place(1) [of "concat (map snd lb) @ take ?p ks" "ks ! ?p" "drop (Suc ?p) ks @ concat (map snd la)" w] srt f(3) [OF p] unfolding k by blast
  then show ?thesis using at_pos [OF t lv p] p tree_ok_keys(1) [OF t] a(7)
    by (simp add: seek_done_def Cons_nth_drop_Suc flip: append_Cons)
qed

lemma land_after:
  assumes t: "tree_ok t T" and lv: "leaves T = lb @ (i, ks) # la" and lt: "\<forall>x \<in> set (concat (map snd lb) @ ks). x < w"
    and gt: "\<forall>x \<in> set (concat (map snd la)). w \<le> x" and c: "c = \<lparr>bc_node = bn_link (nds t ! i), bc_pos = 0\<rparr>"
  shows "seek_done t w c"
proof -
  note a = at_leaf [OF t lv]
  have "filter (\<lambda>x. w \<le> x) (concat (map snd lb) @ ks) = []" using lt unfolding filter_empty_conv by (meson leD)
  moreover have "filter (\<lambda>x. w \<le> x) (concat (map snd la)) = concat (map snd la)" using gt unfolding filter_id_conv .
  ultimately have "filter (\<lambda>x. w \<le> x) (keys T) = concat (map snd la)" unfolding a(7) append_assoc [symmetric] filter_append by simp
  then show ?thesis using after_leaf [OF t lv c] tree_ok_keys(1) [OF t] a(7) by (simp add: seek_done_def)
qed

lemma seek_near_ok:
  assumes "cinv (t, c)"
  shows "\<exists>r. bp_seek_near B t w c = Inr r \<and> (case r of None \<Rightarrow> True | Some c' \<Rightarrow> seek_done t w c')"
  using assms
proof (cases rule: cinv_cases)
  case (ended T)
  then show ?thesis by (simp add: bp_seek_near_def)
next
  case (at T lb i ks la p)
  note a = at_leaf [OF at(1,2)]
  have cnt: "bn_count (nds t ! i) = length ks" and ne: "ks \<noteq> []" using a(3) at(3) by (auto simp: holds_def)
  have get: "bp_get_node B i t = Inr (nds t ! i)" using tree_node [OF at(1) a(1)] .
  have srt: "sorted_wrt (<) (keys T)" using tree_ok_keys(2) [OF at(1)] .
  have fl: "nth_res (bn_data (nds t ! i)) 0 = Inr (hd ks)" "nth_res (bn_data (nds t ! i)) (length ks - 1) = Inr (last ks)"
    using data_nth [OF a(3) _ a(4)] ne by (simp_all add: hd_conv_nth last_conv_nth)
  have kk: "bp_keys (nds t ! i) = Inr ks" using keys_of [OF a(3,4)] .
  consider (here) "hd ks \<le> w" "w \<le> last ks" | (far) "\<not> (hd ks \<le> w \<and> w \<le> last ks)" "\<not> (last ks < w \<and> bn_link (nds t ! i) \<noteq> bx_nil B)"
    | (right) "last ks < w" "bn_link (nds t ! i) \<noteq> bx_nil B" by linarith
  then show ?thesis
  proof cases
    case here
    have "\<forall>x \<in> set (concat (map snd lb)). x < hd ks"
      using srt ne hd_in_set [of ks] unfolding a(7) by (simp add: sorted_wrt_append del: set_concat)
    then have lt: "\<forall>x \<in> set (concat (map snd lb)). x < w" using here(1) by (meson less_le_trans)
    have sks: "sorted_wrt (<) ks" using srt unfolding a(7) by (simp add: sorted_wrt_append)
    have "seek_done t w \<lparr>bc_node = i, bc_pos = find_ge (bx_search B) ks w\<rparr>"
      using land_in [OF at(1,2) lt find_pos(4) [OF sks ne here(2)]] .
    then show ?thesis using here a(2) get cnt ne fl kk at(4) by (simp add: bp_seek_near_def Let_def)
  next
    case far
    then show ?thesis using a(2) get cnt ne fl at(4) by (auto simp: bp_seek_near_def Let_def)
  next
    case right
    then obtain j js la' where la: "la = (j, js) # la'" using a(5) by (cases la) auto
    have lv: "leaves T = (lb @ [(i, ks)]) @ (j, js) # la'" using at(2) la by simp
    note b = at_leaf [OF at(1) lv]
    have nj: "js \<noteq> []" using a(6) la by auto
    have cj: "bn_count (nds t ! j) = length js" using b(3) by (simp add: holds_def)
    have lj: "nth_res (bn_data (nds t ! j)) (length js - 1) = Inr (last js)" using data_nth [OF b(3) _ b(4)] nj by (simp add: last_conv_nth)
    have link: "bn_link (nds t ! i) = j" "j \<noteq> bx_nil B" using a(5) b(2) la by auto
    have run: "bp_seek_near B t w c = (if w \<le> last js then Inr (Some \<lparr>bc_node = j, bc_pos = find_ge (bx_search B) js w\<rparr>) else Inr None)"
      using right(1) a(2) get cnt ne fl at(4) link tree_node [OF at(1) b(1)] cj nj lj keys_of [OF b(3,4)]
      by (simp add: bp_seek_near_def Let_def)
    have sks: "sorted_wrt (<) ks" "sorted_wrt (<) js" "\<forall>x \<in> set (concat (map snd lb)). x < last ks"
      using srt ne last_in_set [OF ne] unfolding a(7) la by (auto simp: sorted_wrt_append simp del: set_concat)
    then have lt: "\<forall>x \<in> set (concat (map snd (lb @ [(i, ks)]))). x < w"
      using right(1) last_ge [OF sks(1)] by (fastforce simp del: set_concat)
    have "seek_done t w \<lparr>bc_node = j, bc_pos = find_ge (bx_search B) js w\<rparr>" if "w \<le> last js"
      using land_in [OF at(1) lv lt find_pos(4) [OF sks(2) nj that]] .
    then show ?thesis using run by simp
  qed
qed

lemma seek_ok:
  assumes "cinv (t, c)"
  shows "\<exists>c'. bp_seek B t w c = Inr c' \<and> seek_done t w c'"
proof -
  obtain T where T: "tree_ok t T" using assms by (auto simp: cinv_def)
  obtain h where h: "st t t (nds t) h" "binv L (bx_kmax B) (nds t) h T" using T by (auto simp: tree_ok_def)
  note b = h(2) [unfolded binv_def]
  obtain ht where ht: "shaped ht T" using b by blast
  have asc: "ascending (items T)" using b by (simp add: body_def)
  obtain fs i ks where fs: "T = plugs fs (Lf i ks)" "length fs = ht" "\<forall>f \<in> set fs. fok f \<and> chosen w f" "fits w (pres fs) (posts fs)"
    using way_down [OF ht asc] by blast
  have "\<forall>f \<in> set fs. fok f" using fs(3) by blast
  then obtain h' where "fshaped h' fs" using plugs_shaped ht fs(1) by blast
  then have fk: "item_keys (pres fs) = concat (map snd (leaves_before fs))" "item_keys (posts fs) = concat (map snd (leaves_after fs))"
    using frames_keys by blast+
  have lt: "\<forall>x \<in> set (concat (map snd (leaves_before fs))). x < w" "\<forall>x \<in> set (concat (map snd (leaves_after fs))). w \<le> x"
    using fs(4) unfolding fk [symmetric] by (fastforce simp: fits_def item_keys_set)+
  have lv: "leaves T = leaves_before fs @ (i, ks) # leaves_after fs" using fs(1) by (simp add: leaves_plugs)
  note a = at_leaf [OF T lv]
  note bnd = binv_bounds [OF h(2) ht]
  have root: "bp_root B t = Inr (rt T)" using st_heads(1) [OF h(1)] b by (simp add: header_ok_def)
  have "rt T \<in> set (idxs T)" by (cases T) auto
  then have nil: "rt T \<noteq> bx_nil B" using b repr_idxs bnd(3) arena_big by (fastforce simp: MAX_PATH_def)
  have "ht < length (idxs T)" using shaped_idxs [OF ht] .
  then have "ht < vec_fuel (bx_nodes B) (bt_nodes t)"
    using b nodes.vec_fuel_gt [of ht "bt_nodes t"] bnd(3) arena_big nodes_imax by (simp add: body_def MAX_PATH_def)
  then have sl: "bp_seek_leaf B (vec_fuel (bx_nodes B) (bt_nodes t)) w (rt T) t = Inr (i, find_ge (bx_search B) ks w)"
    using seek_leaf_ok [OF h(1) _ fs(3)] b fs(1,2) by simp
  have cnt: "bn_count (nds t ! i) = length ks" using a(3) by (simp add: holds_def)
  have sks: "sorted_wrt (<) ks" using tree_ok_keys(2) [OF T] unfolding a(7) by (simp add: sorted_wrt_append)
  let ?p = "find_ge (bx_search B) ks w"
  obtain r where r: "bp_seek_near B t w c = Inr r" "case r of None \<Rightarrow> True | Some c' \<Rightarrow> seek_done t w c'"
    using seek_near_ok [OF assms] by blast
  show ?thesis
  proof (cases r)
    case (Some c')
    then show ?thesis using r root nil by (simp add: bp_seek_def)
  next
    case None
    then have run: "bp_seek B t w c = (if ?p < length ks then Inr \<lparr>bc_node = i, bc_pos = ?p\<rparr>
        else if bn_link (nds t ! i) = bx_nil B then Inr (c\<lparr>bc_node := bx_nil B\<rparr>)
        else Inr \<lparr>bc_node = bn_link (nds t ! i), bc_pos = 0\<rparr>)"
      using r root nil sl tree_node [OF T a(1)] cnt by (simp add: bp_seek_def)
    show ?thesis
    proof (cases "?p < length ks")
      case True
      then show ?thesis using run land_in [OF T lv lt(1)] by simp
    next
      case False
      then have "\<forall>x \<in> set (concat (map snd (leaves_before fs)) @ ks). x < w"
        using find_pos(1,2) [OF sks, of w] lt(1) by (auto simp del: set_concat)
      note la = land_after [OF T lv this lt(2) refl]
      show ?thesis
      proof (cases "bn_link (nds t ! i) = bx_nil B")
        case True
        have "seek_done t w (c\<lparr>bc_node := bx_nil B\<rparr>)"
          using la at_end [OF T, of "c\<lparr>bc_node := bx_nil B\<rparr>"] at_end [OF T, of "\<lparr>bc_node = bn_link (nds t ! i), bc_pos = 0\<rparr>"] True
            tree_ok_keys(1) [OF T] by (simp add: seek_done_def)
        then show ?thesis using run False True by simp
      next
        case link: False
        then show ?thesis using run False la by simp
      qed
    qed
  qed
qed

end

sublocale bp_ops \<subseteq> cur: sorted_cursor "bp_cursor_ops B" cinv cpast crest
proof
  fix c :: "bp_tree \<times> bp_cursor" and w :: nat
  obtain t d where c: "c = (t, d)" by (cases c)
  assume i: "cinv c"
  then obtain T where T: "tree_ok t T" using c by (auto simp: cinv_def)
  have "cpast (t, d) @ crest (t, d) = ckeys t"
    using i [unfolded c]
  proof (cases rule: cinv_cases)
    case (ended T)
    then show ?thesis using at_end [OF ended] tree_ok_keys(1) [OF ended(1)] by simp
  next
    case (at T lb i ks la p)
    have "ks = take p ks @ drop p ks" by simp
    then show ?thesis using at_pos(3,4) [OF at(1-3)] at_leaf(7) [OF at(1,2)] tree_ok_keys(1) [OF at(1)] at(4) by (metis append.assoc)
  qed
  then have all: "cpast c @ crest c = ckeys t" unfolding c .
  show srt: "sorted_wrt (<) (cpast c @ crest c)" unfolding all using tree_ok_keys [OF T] by simp
  show "cu_key (bp_cursor_ops B) c = Inr (head_opt (crest c))" using key_ok i c by (simp add: bp_cursor_ops_def)
  show "\<exists>c'. cu_step (bp_cursor_ops B) c = Inr c' \<and> cinv c' \<and> cpast c' @ crest c' = cpast c @ crest c \<and> crest c' = tl (crest c)"
    using step_ok [of t d] i c by (auto simp: bp_cursor_ops_def)
  show "\<exists>c'. cu_seek (bp_cursor_ops B) w c = Inr c' \<and> cinv c' \<and> cpast c' @ crest c' = cpast c @ crest c \<and>
      crest c' = dropWhile (below w) (crest c)" if past: "\<forall>x \<in> set (cpast c). x < w"
  proof -
    obtain d' where d': "bp_seek B t w d = Inr d'" "seek_done t w d'" using seek_ok i c by blast
    have "filter (\<lambda>x. w \<le> x) (cpast c @ crest c) = filter (\<lambda>x. w \<le> x) (crest c)" using past by (auto simp: filter_empty_conv)
    also have "\<dots> = dropWhile (below w) (crest c)"
      using srt filter_dropWhile_below [of "crest c" w] by (simp add: sorted_wrt_append)
    finally have "filter (\<lambda>x. w \<le> x) (ckeys t) = dropWhile (below w) (crest c)" unfolding all .
    then show ?thesis using d' all c by (auto simp: bp_cursor_ops_def seek_done_def)
  qed
qed

end
