(* ===== verification/Bplus_Session.thy ===== *)
theory Bplus_Session
  imports Bplus_Cursor Lockstep
begin

text \<open>
  The B+ tree as a checkpointed container: its two vectors in lockstep, started by \<open>new\<close> or \<open>from_sorted\<close> and
  updated by \<open>insert\<close>.  In every state that a session reaches the arena represents a tree.
\<close>

section \<open>A container that is not fresh at the start\<close>

text \<open>
  A session may start from what a constructor made of fresh parts and keep a property of the contents from
  there on.
\<close>

lemma checkpointed_from:
  assumes c: "checkpointed fresh upd mk rst view br dp forks rel good"
    and began: "\<And>c. began c \<Longrightarrow> \<exists>c0. fresh c0 \<and> upd c0 c \<and> P (view c)"
    and moves: "\<And>c c' snaps. rel c snaps \<Longrightarrow> P (view c) \<Longrightarrow> moves c c' \<Longrightarrow> upd c c' \<and> P (view c')"
    and moves_good: "\<And>c c' t. moves c c' \<Longrightarrow> good c t \<Longrightarrow> good c' t"
    and mark: "\<And>m c t c'. mk m c = Inr (t, c') \<Longrightarrow> view c' = view c"
  shows "checkpointed began moves mk rst view br dp forks (\<lambda>c snaps. rel c snaps \<and> P (view c) \<and> (\<forall>s \<in> set snaps. P s)) good"
    (is "checkpointed _ _ _ _ _ _ _ _ ?rel _")
proof
  fix c c' snaps m t t'
  show "?rel c [] \<and> forks c = fork_history_new" if "began c"
  proof -
    obtain c0 where c0: "fresh c0" "upd c0 c" "P (view c)" using began [OF \<open>began c\<close>] by blast
    then show ?thesis using checkpointed.fresh_rel [OF c c0(1)] checkpointed.upd_rel [OF c _ c0(2)] by fastforce
  qed
  show "?rel c' snaps \<and> forks c' = forks c" if "?rel c snaps" "moves c c'"
    using moves [of c snaps c'] checkpointed.upd_rel [OF c, of c snaps c'] that by blast
  show "moves c c' \<Longrightarrow> good c t \<Longrightarrow> good c' t" by (rule moves_good)
  show "mk m c = Inr (t', c') \<Longrightarrow> good c t \<Longrightarrow> good c' t" by (rule checkpointed.mk_good [OF c])
  show "rst t' c = Inr c' \<Longrightarrow> good c t \<Longrightarrow> good c' t" by (rule checkpointed.rst_good [OF c])
  assume r: "?rel c snaps"
  show "?rel c' (snaps @ [view c]) \<and> forks c' = forks c \<and> good c' t \<and> br t = current_branch_id (forks c) \<and> dp t = length snaps"
    if "mk m c = Inr (t, c')"
    using checkpointed.mk_rel [OF c _ that, of snaps] mark [OF that] r by auto
  assume wf: "fork_wf (forks c)" and g: "good c t"
  show "dp t < length snaps \<and> within (dp t) (lim (origins (forks c)) (current_branch_id (forks c)) (br t)) (length snaps) \<and>
      view c' = snaps ! dp t \<and> ?rel c' (take (dp t) snaps) \<and> forks c' = forked (forks c) (br t) (dp t)" if "rst t c = Inr c'"
    using checkpointed.rst_rel [OF c _ wf g that, of snaps] r by (auto dest: in_set_takeD)
  show "\<exists>c'. rst t c = Inr c'" if "dp t < length snaps"
    "within (dp t) (lim (origins (forks c)) (current_branch_id (forks c)) (br t)) (length snaps)"
    "length snaps < 2 ^ 32" "length (origins (forks c)) + 1 < 2 ^ 32"
    using checkpointed.rst_ok [OF c _ wf g] that r by blast
qed

section \<open>Identity of the vectors\<close>

definition bp_ids :: "bp_tree \<Rightarrow> bp_tree \<Rightarrow> bool" where
  "bp_ids t t' \<longleftrightarrow> v_id (bt_nodes t') = v_id (bt_nodes t) \<and> v_id (bt_meta t') = v_id (bt_meta t)"

lemma bp_ids_refl [simp]: "bp_ids t t"
  by (simp add: bp_ids_def)

lemma bp_ids_trans: "bp_ids t t' \<Longrightarrow> bp_ids t' t'' \<Longrightarrow> bp_ids t t''"
  by (simp add: bp_ids_def)

lemma bp_write_ids:
  "bp_set_node B i n t = Inr t' \<Longrightarrow> bp_ids t t'" "bp_alloc B n t = Inr (i, t') \<Longrightarrow> bp_ids t t'"
  "bp_set_root B v t = Inr t' \<Longrightarrow> bp_ids t t'" "bp_set_last_leaf B v t = Inr t' \<Longrightarrow> bp_ids t t'" "bp_set_nkeys B v t = Inr t' \<Longrightarrow> bp_ids t t'"
  by (auto simp: bp_set_node_def bp_alloc_def bp_set_root_def bp_set_last_leaf_def bp_set_nkeys_def bp_set_header_def
      bp_ids_def vec_ids elim!: rbind_eq_InrE)

lemma bp_propagate_ids: "bp_propagate B path dp pkey pchild t = Inr t' \<Longrightarrow> bp_ids t t'"
proof (induction dp arbitrary: pkey pchild t)
  case 0
  then show ?case by (auto simp: bp_alloc_internal_def bp_ids_def elim!: rbind_eq_InrE dest!: bp_write_ids)
next
  case (Suc dp)
  then show ?case
    by (auto simp: bp_alloc_internal_def bp_ids_def Let_def elim!: rbind_eq_InrE dest!: bp_write_ids Suc.IH split: if_splits)
qed

lemma bp_insert_split_ids: "bp_insert_split B pos w leaf idx path dp t = Inr t' \<Longrightarrow> bp_ids t t'"
  by (auto simp: bp_insert_split_def bp_alloc_leaf_def bp_ids_def Let_def simp del: bp_propagate.simps elim!: rbind_eq_InrE
      dest!: bp_write_ids bp_propagate_ids split: if_splits)

lemma bp_insert_slow_ids: "bp_insert_slow B w t = Inr (b, t') \<Longrightarrow> bp_ids t t'"
  by (auto simp: bp_insert_slow_def Let_def bp_ids_def simp del: bp_descend.simps elim!: rbind_eq_InrE
      dest!: bp_write_ids bp_insert_split_ids split: if_splits)

lemma bp_insert_fast_ids: "bp_insert_fast B w ll t = Inr (Some t') \<Longrightarrow> bp_ids t t'"
  by (auto simp: bp_insert_fast_def Let_def bp_ids_def elim!: rbind_eq_InrE dest!: bp_write_ids split: if_splits)

lemma bp_insert_ids: "bp_insert B w t = Inr (b, t') \<Longrightarrow> bp_ids t t'"
  by (auto simp: bp_insert_def elim!: rbind_eq_InrE dest!: bp_insert_slow_ids bp_insert_fast_ids split: if_splits option.splits)

section \<open>Sessions\<close>

definition bp_part :: "bp_tree \<Rightarrow> (bp_node inline_store, bp_node) vec \<times> (bp_header parallel_store, bp_header) vec" where
  "bp_part t = (bt_nodes t, bt_meta t)"

definition bp_tok :: "bp_token \<Rightarrow> vec_token \<times> vec_token" where
  "bp_tok k = (bk_nodes k, bk_meta k)"

inductive bp_upd :: "bp_cfg \<Rightarrow> bp_tree \<Rightarrow> bp_tree \<Rightarrow> bool" for B where
  insert: "w \<le> bx_kmax B \<Longrightarrow> bp_insert B w t = Inr (b, t') \<Longrightarrow> bp_upd B t t'"

text \<open>What a client does with a cursor.\<close>

datatype bp_move = Seek nat | Step

fun bp_run :: "bp_cfg \<Rightarrow> bp_tree \<Rightarrow> bp_move list \<Rightarrow> bp_cursor \<Rightarrow> bp_cursor res" where
  "bp_run B t [] c = Inr c"
| "bp_run B t (Seek w # ms) c = rbind (bp_seek B t w c) (bp_run B t ms)"
| "bp_run B t (Step # ms) c = rbind (bp_step B t c) (bp_run B t ms)"

definition bp_arena :: "bp_cfg \<Rightarrow> bp_node list \<times> bp_header list \<Rightarrow> bool" where
  "bp_arena B v \<longleftrightarrow> (\<exists>h T. snd v = [h] \<and> binv (bx_layout B) (bx_kmax B) (fst v) h T)"

context bp_ops
begin

definition blank :: "bp_tree \<Rightarrow> bool" where
  "blank t \<longleftrightarrow> vec_fresh nflag (bt_nodes t) \<and> vec_fresh hflag (bt_meta t) \<and> nds t = [] \<and> hds t = []"

definition started :: "bp_tree \<Rightarrow> bool" where
  "started t \<longleftrightarrow> (\<exists>t0. blank t0 \<and> (bp_init B t0 = Inr t \<or>
    (\<exists>ks. sorted_wrt (<) ks \<and> (\<forall>k \<in> set ks. k \<le> bx_kmax B) \<and> bp_build B ks t0 = Inr t)))"

lemma blank_fresh: "blank t \<Longrightarrow> fresh t"
  using nodes.ck.fresh_rel meta.ck.fresh_rel by (fastforce simp: blank_def fresh_def brels_def)

lemma is_composite: "composite (\<lambda>c. vec_fresh nflag (fst c) \<and> vec_fresh hflag (snd c))
  (pair_upd (vec_upd (bx_nodes B) bp_node_dom) (vec_upd (bx_meta B) (\<lambda>_. True)))
  (pair_mk (vec_mark (bx_nodes B)) (vec_mark (bx_meta B))) (pair_rst (vec_restore (bx_nodes B)) (vec_restore (bx_meta B)))
  (\<lambda>c. (nvals (v_store (fst c)), hvals (v_store (snd c)))) (\<lambda>t. branch_id (fst t)) (\<lambda>t. depth (fst t)) (\<lambda>c. v_forks (fst c))
  (pair_rel (vec_rel (bx_nodes B) nvals nflag bp_node_dom) (vec_rel (bx_meta B) hvals hflag (\<lambda>_. True)) v_forks v_forks)
  (pair_good vec_good vec_good branch_id depth branch_id depth)
  blank bupd (bp_mark B) (bp_restore B) bp_part bp_tok (\<lambda>_. True)"
  (is "composite ?F ?U ?M ?R ?V ?br ?dp ?fk ?rel ?good _ _ _ _ _ _ _")
proof (intro composite.intro composite_axioms.intro)
  show ck: "checkpointed ?F ?U ?M ?R ?V ?br ?dp ?fk ?rel ?good"
    by (intro pair_checkpointed nodes.is_checkpointed meta.is_checkpointed)
  fix c c' and s and t sh and u and x
  show "blank c \<Longrightarrow> ?F (bp_part c) \<and> True" by (simp add: blank_def bp_part_def)
  have upd: "?U\<^sup>*\<^sup>* (bp_part c) (bp_part c')" if "bupd c c'" for c c'
    using that by (auto simp: bupd_def bp_part_def intro!: pair_updI)
  then show "bupd c c' \<Longrightarrow> ?U\<^sup>*\<^sup>* (bp_part c) (bp_part c') \<and> True" by blast
  show "bupd c c' \<Longrightarrow> ?good (bp_part c) u \<Longrightarrow> ?good (bp_part c') u"
    using checkpointed.upds_good [OF ck upd] by blast
  show "bp_mark B sh c = Inr (t, c') \<Longrightarrow> \<exists>n. ?M n (bp_part c) = Inr (bp_tok t, bp_part c') \<and> ?V (bp_part c') = ?V (bp_part c)"
    by (intro exI [of _ sh]) (auto simp: bp_mark_def pair_mk_eq_Inr bp_part_def bp_tok_def nodes.mark_cont meta.mark_cont elim!: rbind_eq_InrE split: prod.splits)
  show "bp_restore B t c = Inr c' \<Longrightarrow> ?R (bp_tok t) (bp_part c) = Inr (bp_part c')"
    by (auto simp: bp_restore_def pair_rst_eq_Inr bp_part_def bp_tok_def elim!: rbind_eq_InrE)
  show "?R (bp_tok t) (bp_part c) = Inr x \<Longrightarrow> \<exists>c'. bp_restore B t c = Inr c'"
    by (auto simp: bp_restore_def pair_rst_eq_Inr bp_part_def bp_tok_def)
qed

end

sublocale bp_ops \<subseteq> cmp: composite "\<lambda>c. vec_fresh nflag (fst c) \<and> vec_fresh hflag (snd c)"
  "pair_upd (vec_upd (bx_nodes B) bp_node_dom) (vec_upd (bx_meta B) (\<lambda>_. True))"
  "pair_mk (vec_mark (bx_nodes B)) (vec_mark (bx_meta B))" "pair_rst (vec_restore (bx_nodes B)) (vec_restore (bx_meta B))"
  "\<lambda>c. (nvals (v_store (fst c)), hvals (v_store (snd c)))" "\<lambda>t. branch_id (fst t)" "\<lambda>t. depth (fst t)" "\<lambda>c. v_forks (fst c)"
  "pair_rel (vec_rel (bx_nodes B) nvals nflag bp_node_dom) (vec_rel (bx_meta B) hvals hflag (\<lambda>_. True)) v_forks v_forks"
  "pair_good vec_good vec_good branch_id depth branch_id depth"
  blank bupd "bp_mark B" "bp_restore B" bp_part bp_tok "\<lambda>_. True" "\<lambda>v. v"
  by (rule is_composite)

context bp_ops
begin

abbreviation "conts t \<equiv> (nds t, hds t)"

lemma crel_brels: "cmp.crel t snaps \<Longrightarrow> brels t"
  by (auto simp: cmp.crel_def brels_def pair_rel_def bp_part_def)

lemma arena_st: "brels t \<Longrightarrow> bp_arena B (conts t) \<Longrightarrow> \<exists>h T. st t t (nds t) h \<and> binv L (bx_kmax B) (nds t) h T"
  by (auto simp: bp_arena_def st_def bupd_def)

lemma st_arena: "st t0 t ns h \<Longrightarrow> binv L (bx_kmax B) ns h T \<Longrightarrow> bupd t0 t \<and> bp_arena B (conts t)"
  by (auto simp: bp_arena_def st_def)

lemma mark_conts: "bp_mark B sh c = Inr (t, c') \<Longrightarrow> conts c' = conts c"
  using cmp.mk_part [of sh c t c'] by (auto simp: bp_part_def)

lemma tree_checkpointed:
  assumes go: "\<And>t. go t \<Longrightarrow> started t"
  shows "checkpointed go (bp_upd B) (bp_mark B) (bp_restore B) conts
    (\<lambda>t. branch_id (bk_nodes t)) (\<lambda>t. depth (bk_nodes t)) (\<lambda>c. v_forks (bt_nodes c))
    (\<lambda>c snaps. cmp.crel c snaps \<and> bp_arena B (conts c) \<and> (\<forall>s \<in> set snaps. bp_arena B s))
    (\<lambda>c t. pair_good vec_good vec_good branch_id depth branch_id depth (bp_part c) (bp_tok t))"
proof (rule checkpointed_from)
  show "checkpointed blank bupd (bp_mark B) (bp_restore B) conts (\<lambda>t. branch_id (bk_nodes t)) (\<lambda>t. depth (bk_nodes t))
      (\<lambda>c. v_forks (bt_nodes c)) cmp.crel (\<lambda>c t. pair_good vec_good vec_good branch_id depth branch_id depth (bp_part c) (bp_tok t))"
    using cmp.composite_checkpointed by (simp add: bp_part_def bp_tok_def)
  fix c c' and snaps and t and sh
  show "\<exists>c0. blank c0 \<and> bupd c0 c \<and> bp_arena B (conts c)" if strt: "go c"
  proof -
    obtain t0 where t0: "blank t0" "bp_init B t0 = Inr c \<or>
        (\<exists>ks. sorted_wrt (<) ks \<and> (\<forall>k \<in> set ks. k \<le> bx_kmax B) \<and> bp_build B ks t0 = Inr c)"
      using go [OF strt] unfolding started_def by blast
    then obtain ns h T where "st t0 c ns h" "binv L (bx_kmax B) ns h T"
      using init_ok [OF blank_fresh [OF t0(1)]] build_ok [OF blank_fresh [OF t0(1)]] by fastforce
    then show ?thesis using st_arena t0(1) by blast
  qed
  show "bupd c c' \<and> bp_arena B (conts c')" if r: "cmp.crel c snaps" "bp_arena B (conts c)" and u: "bp_upd B c c'"
  proof -
    obtain h T where s: "st c c (nds c) h" "binv L (bx_kmax B) (nds c) h T" using arena_st [OF crel_brels [OF r(1)] r(2)] by blast
    from u obtain w b where w: "w \<le> bx_kmax B" "bp_insert B w c = Inr (b, c')" by cases
    then show ?thesis using insert_ok [OF s w(1)] st_arena by fastforce
  qed
  show "pair_good vec_good vec_good branch_id depth branch_id depth (bp_part c') (bp_tok t)"
    if "bp_upd B c c'" "pair_good vec_good vec_good branch_id depth branch_id depth (bp_part c) (bp_tok t)"
    using that bp_insert_ids by (fastforce simp: bp_upd.simps bp_ids_def pair_good_def vec_good_def bp_part_def)
  show "bp_mark B sh c = Inr (t, c') \<Longrightarrow> conts c' = conts c"
    by (rule mark_conts)
qed

text \<open>The operations on a tree that a session has reached.\<close>

lemma arena_tree: "brels t \<Longrightarrow> bp_arena B (conts t) \<Longrightarrow> \<exists>T. tree_ok t T"
  using arena_st by (fastforce simp: tree_ok_def)

lemma insert_arena:
  assumes "brels t" "bp_arena B (conts t)" "w \<le> bx_kmax B"
  shows "\<exists>t'. bp_insert B w t = Inr (w \<notin> elems (nds t), t') \<and> brels t' \<and> bp_arena B (conts t') \<and> elems (nds t') = insert w (elems (nds t))"
proof -
  obtain h T where s: "st t t (nds t) h" "binv L (bx_kmax B) (nds t) h T" using arena_st assms(1,2) by blast
  obtain t' ns' h' T' where t': "bp_insert B w t = Inr (w \<notin> set (keys T), t')" "st t t' ns' h'" "binv L (bx_kmax B) ns' h' T'"
    "set (keys T') = insert w (set (keys T))" using insert_ok [OF s assms(3)] by blast
  have "nds t' = ns'" "brels t'" using t'(2) by (simp_all add: st_def)
  then show ?thesis using t' st_arena [OF t'(2,3)] binv_elems(1) [OF s(2)] binv_elems(1) [OF t'(3)] by auto
qed

lemma len_arena:
  assumes "brels t" "bp_arena B (conts t)"
  shows "bp_len B t = Inr (card (elems (nds t)))"
proof -
  obtain h T where s: "st t t (nds t) h" "binv L (bx_kmax B) (nds t) h T" using arena_st assms by blast
  have "card (elems (nds t)) = length (keys T)" using binv_elems(1,3) [OF s(2)] by (simp add: distinct_card strict_sorted_iff)
  then show ?thesis using st_heads(3) [OF s(1)] s(2) by (simp add: bp_len_def binv_def header_ok_def keys_def)
qed

lemma build_arena:
  assumes "blank t" "sorted_wrt (<) ks" "\<forall>k \<in> set ks. k \<le> bx_kmax B"
  shows "\<exists>t'. bp_build B ks t = Inr t' \<and> brels t' \<and> bp_arena B (conts t') \<and> elems (nds t') = set ks"
proof -
  obtain t' ns h T where t': "bp_build B ks t = Inr t'" "st t t' ns h" "binv L (bx_kmax B) ns h T" "keys T = ks"
    using build_ok [OF blank_fresh [OF assms(1)] assms(2,3)] by blast
  have "nds t' = ns" "brels t'" using t'(2) by (simp_all add: st_def)
  then show ?thesis using t' st_arena [OF t'(2,3)] binv_elems(1) [OF t'(3)] by auto
qed

lemma shape_arena:
  assumes "brels t" "bp_arena B (conts t)"
  shows "\<exists>h T ht. hds t = [h] \<and> binv L (bx_kmax B) (nds t) h T \<and> shaped ht T \<and> ht \<le> MAX_PATH \<and> length (nds t) \<le> bx_kmax B + MAX_PATH + 2"
proof -
  obtain h T where s: "st t t (nds t) h" "binv L (bx_kmax B) (nds t) h T" using arena_st assms by blast
  moreover obtain ht where "shaped ht T" using s(2) by (auto simp: binv_def)
  ultimately show ?thesis using binv_bounds by (fastforce simp: st_def)
qed

lemma open_arena:
  assumes "brels t" "bp_arena B (conts t)"
  shows "\<exists>c. bp_open B t = Inr c \<and> cinv c \<and> crest c = sorted_list_of_set (elems (nds t))"
proof -
  obtain T where "tree_ok t T" using arena_tree assms by blast
  then have "cinv (t, bp_cursor_of B)" by (auto simp: cinv_def bp_cursor_of_def)
  then obtain c where "bp_seek B t 0 (bp_cursor_of B) = Inr c" "seek_done t 0 c" using seek_ok by blast
  then show ?thesis by (auto simp: bp_open_def bp_seek_first_def seek_done_def ckeys_def)
qed

lemma run_arena: "cinv (t, c) \<Longrightarrow> \<exists>c'. bp_run B t ms c = Inr c' \<and> cinv (t, c')"
proof (induction ms arbitrary: c)
  case (Cons m ms)
  show ?case
  proof (cases m)
    case (Seek w)
    then show ?thesis using seek_ok [OF Cons.prems, of w] Cons.IH by (fastforce simp: seek_done_def)
  next
    case Step
    then show ?thesis using step_ok [OF Cons.prems] Cons.IH by fastforce
  qed
qed simp

lemma seek_arena:
  assumes "brels t" "bp_arena B (conts t)"
  shows "\<exists>c c'. bp_run B t ms (bp_cursor_of B) = Inr c \<and> bp_seek B t w c = Inr c' \<and>
    bp_key B t c' = Inr (head_opt (filter (\<lambda>x. w \<le> x) (sorted_list_of_set (elems (nds t)))))"
proof -
  obtain T where "tree_ok t T" using arena_tree assms by blast
  then have "cinv (t, bp_cursor_of B)" by (auto simp: cinv_def bp_cursor_of_def)
  then obtain c where c: "bp_run B t ms (bp_cursor_of B) = Inr c" "cinv (t, c)" using run_arena by blast
  obtain c' where "bp_seek B t w c = Inr c'" "seek_done t w c'" using seek_ok [OF c(2)] by blast
  then show ?thesis using c(1) key_ok [of t c'] by (simp add: seek_done_def ckeys_def)
qed

lemma mark_arena:
  assumes "cmp.crel t snaps" "bp_arena B (conts t)" "vc_track (bx_nodes B)" "vc_track (bx_meta B)" "length snaps < 2 ^ 32"
  shows "\<exists>k t'. bp_mark B sh t = Inr (k, t')"
proof -
  have r: "nodes.rel (bt_nodes t) (map fst snaps)" "meta.rel (bt_meta t) (map snd snaps)"
    using assms(1) by (auto simp: cmp.crel_def pair_rel_def bp_part_def)
  obtain h T where hT: "hds t = [h]" "length (nds t) \<le> bx_kmax B + MAX_PATH + 2"
    using shape_arena [OF crel_brels [OF assms(1)] assms(2)] by blast
  then have "length (nds t) \<le> vc_imax (bx_nodes B)" "length (hds t) \<le> vc_imax (bx_meta B)"
    using nodes_imax meta_imax arena_big by (simp_all add: MAX_PATH_def)
  then show ?thesis
    using nodes.mark_spec [OF r(1), of "fst sh"] meta.mark_spec [OF r(2), of "snd sh"] assms(3-5) by (auto simp: bp_mark_def)
qed

end

end
