(* ===== verification/Leapfrog.thy ===== *)
theory Leapfrog
  imports Cursor "HOL-Library.Option_ord" "HOL-Library.Multiset"
begin

text \<open>
  The join layer of the e-matcher, \<open>egraph/src/leapfrog.rs\<close>: the combinator \<open>Difference\<close> (\<open>full \<setminus> delta\<close>, used by
  semi-naive evaluation) and \<open>LeapfrogJoin\<close>, the unary leapfrog join of sorted cursors.  Both run over any
  cursor that meets the contract of \<open>Cursor\<close>.  The number of iterations of their loops depends on what the cursors run
  over, so the loops take their fuel as an argument; every result below is for all fuel above a bound.
\<close>

section \<open>\<open>Difference\<close>\<close>

record ('a, 'b) difference =
  df_full :: 'a
  df_delta :: 'b

fun diff_skip :: "('a, 'k::linorder) cursor_ops \<Rightarrow> ('b, 'k) cursor_ops \<Rightarrow> nat \<Rightarrow> ('a, 'b) difference \<Rightarrow> ('a, 'b) difference res" where
  "diff_skip A B 0 d = Inl Diverge"
| "diff_skip A B (Suc f) d =
    rbind (cu_key A (df_full d)) (\<lambda>k. case k of
        None \<Rightarrow> Inr d
      | Some k \<Rightarrow>
          rbind (cu_seek B k (df_delta d)) (\<lambda>delta.
          rbind (cu_key B delta) (\<lambda>k'.
          if k' = Some k then rbind (cu_step A (df_full d)) (\<lambda>full. diff_skip A B f \<lparr>df_full = full, df_delta = delta\<rparr>)
          else Inr (d\<lparr>df_delta := delta\<rparr>))))"

definition diff_new :: "('a, 'k::linorder) cursor_ops \<Rightarrow> ('b, 'k) cursor_ops \<Rightarrow> nat \<Rightarrow> 'a \<Rightarrow> 'b \<Rightarrow> ('a, 'b) difference res" where
  "diff_new A B fuel full delta = diff_skip A B fuel \<lparr>df_full = full, df_delta = delta\<rparr>"

definition diff_step :: "('a, 'k::linorder) cursor_ops \<Rightarrow> ('b, 'k) cursor_ops \<Rightarrow> nat \<Rightarrow> ('a, 'b) difference \<Rightarrow> ('a, 'b) difference res" where
  "diff_step A B fuel d = rbind (cu_step A (df_full d)) (\<lambda>full. diff_skip A B fuel (d\<lparr>df_full := full\<rparr>))"

definition diff_seek :: "('a, 'k::linorder) cursor_ops \<Rightarrow> ('b, 'k) cursor_ops \<Rightarrow> nat \<Rightarrow> 'k \<Rightarrow> ('a, 'b) difference \<Rightarrow> ('a, 'b) difference res" where
  "diff_seek A B fuel target d =
    rbind (cu_seek A target (df_full d)) (\<lambda>full.
    rbind (cu_seek B target (df_delta d)) (\<lambda>delta.
    diff_skip A B fuel \<lparr>df_full = full, df_delta = delta\<rparr>))"

definition diff_ops :: "('a, 'k::linorder) cursor_ops \<Rightarrow> ('b, 'k) cursor_ops \<Rightarrow> nat \<Rightarrow> (('a, 'b) difference, 'k) cursor_ops" where
  "diff_ops A B fuel = \<lparr>cu_key = (\<lambda>d. cu_key A (df_full d)), cu_step = diff_step A B fuel, cu_seek = diff_seek A B fuel\<rparr>"

section \<open>\<open>LeapfrogJoin\<close>\<close>

record 'c leapfrog =
  lf_iters :: "'c list"
  lf_p :: nat
  lf_at_end :: bool

text \<open>The scan \<open>iters.iter().any(|it| it.key().is_none())\<close>, which stops at the first exhausted cursor.\<close>

fun lf_any_exhausted :: "('c, 'k) cursor_ops \<Rightarrow> 'c list \<Rightarrow> bool res" where
  "lf_any_exhausted C [] = Inr False"
| "lf_any_exhausted C (it # its) =
    rbind (cu_key C it) (\<lambda>k. if k = None then Inr True else lf_any_exhausted C its)"

text \<open>The loop of \<open>search\<close>.\<close>

fun lf_loop :: "('c, 'k) cursor_ops \<Rightarrow> nat \<Rightarrow> 'k \<Rightarrow> 'c leapfrog \<Rightarrow> 'c leapfrog res" where
  "lf_loop C 0 max_key j = Inl Diverge"
| "lf_loop C (Suc f) max_key j =
    rbind (nth_res (lf_iters j) (lf_p j)) (\<lambda>it.
    rbind (cu_key C it) (\<lambda>k.
    rbind (expect JoinInvariant k) (\<lambda>min_key.
    if min_key = max_key then Inr j
    else
      rbind (cu_seek C max_key it) (\<lambda>it'.
      rbind (cu_key C it') (\<lambda>k'. case k' of
          None \<Rightarrow> Inr (j\<lparr>lf_iters := (lf_iters j)[lf_p j := it'], lf_at_end := True\<rparr>)
        | Some k' \<Rightarrow> lf_loop C f k' (j\<lparr>lf_iters := (lf_iters j)[lf_p j := it'],
            lf_p := (lf_p j + 1) mod length (lf_iters j)\<rparr>))))))"

definition lf_search :: "('c, 'k) cursor_ops \<Rightarrow> nat \<Rightarrow> 'c leapfrog \<Rightarrow> 'c leapfrog res" where
  "lf_search C fuel j =
    (let k = length (lf_iters j) in
     rbind (nth_res (lf_iters j) ((lf_p j + k - 1) mod k)) (\<lambda>it.
     rbind (cu_key C it) (\<lambda>m.
     rbind (expect JoinInvariant m) (\<lambda>max_key. lf_loop C fuel max_key j))))"

text \<open>
  \<open>sort_unstable_by_key\<close> of \<open>std\<close> fixes no order among equal keys: \<open>srt\<close> is any function that permutes its
  argument and sorts it by key.  By then the scan has evaluated every key without a panic.
\<close>

definition is_sort_by_key :: "(('c \<Rightarrow> 'k::linorder option) \<Rightarrow> 'c list \<Rightarrow> 'c list) \<Rightarrow> bool" where
  "is_sort_by_key srt \<longleftrightarrow> (\<forall>key xs. mset (srt key xs) = mset xs \<and> sorted (map key (srt key xs)))"

definition key_or_none :: "('c, 'k) cursor_ops \<Rightarrow> 'c \<Rightarrow> 'k option" where
  "key_or_none C it = (case cu_key C it of Inl _ \<Rightarrow> None | Inr k \<Rightarrow> k)"

definition lf_new :: "('c, 'k) cursor_ops \<Rightarrow> (('c \<Rightarrow> 'k option) \<Rightarrow> 'c list \<Rightarrow> 'c list) \<Rightarrow> nat \<Rightarrow> 'c list \<Rightarrow> 'c leapfrog res" where
  "lf_new C srt fuel iters =
    rbind (rassert (iters \<noteq> []) EmptyJoin) (\<lambda>_.
    rbind (lf_any_exhausted C iters) (\<lambda>e.
    if e then Inr \<lparr>lf_iters = iters, lf_p = 0, lf_at_end = True\<rparr>
    else lf_search C fuel \<lparr>lf_iters = srt (key_or_none C) iters, lf_p = 0, lf_at_end = False\<rparr>))"

definition lf_is_valid :: "'c leapfrog \<Rightarrow> bool" where
  "lf_is_valid j \<longleftrightarrow> \<not> lf_at_end j"

definition lf_key :: "('c, 'k) cursor_ops \<Rightarrow> 'c leapfrog \<Rightarrow> 'k res" where
  "lf_key C j = rbind (nth_res (lf_iters j) (lf_p j)) (\<lambda>it. rbind (cu_key C it) (expect JoinInvalid))"

definition lf_next :: "('c, 'k) cursor_ops \<Rightarrow> nat \<Rightarrow> 'c leapfrog \<Rightarrow> 'c leapfrog res" where
  "lf_next C fuel j =
    rbind (nth_res (lf_iters j) (lf_p j)) (\<lambda>it.
    rbind (cu_step C it) (\<lambda>it'.
    let j' = j\<lparr>lf_iters := (lf_iters j)[lf_p j := it']\<rparr> in
    rbind (cu_key C it') (\<lambda>k.
    if k = None then Inr (j'\<lparr>lf_at_end := True\<rparr>)
    else lf_search C fuel (j'\<lparr>lf_p := (lf_p j + 1) mod length (lf_iters j)\<rparr>))))"

text \<open>
  The client loop of \<open>leapfrog_join\<close> in the e-matcher; \<open>body\<close> is what it does with a candidate.
\<close>

fun lf_for_each :: "('c, 'k) cursor_ops \<Rightarrow> nat \<Rightarrow> ('k \<Rightarrow> 's \<Rightarrow> 's) \<Rightarrow> nat \<Rightarrow> 'c leapfrog \<Rightarrow> 's \<Rightarrow> 's res" where
  "lf_for_each C fuel body 0 j s = Inl Diverge"
| "lf_for_each C fuel body (Suc n) j s =
    (if lf_is_valid j then
       rbind (lf_key C j) (\<lambda>id.
       rbind (lf_next C fuel j) (\<lambda>j'. lf_for_each C fuel body n j' (body id s)))
     else Inr s)"

definition leapfrog_join :: "('c, 'k) cursor_ops \<Rightarrow> (('c \<Rightarrow> 'k option) \<Rightarrow> 'c list \<Rightarrow> 'c list) \<Rightarrow> nat \<Rightarrow> ('k \<Rightarrow> 's \<Rightarrow> 's) \<Rightarrow> 'c list \<Rightarrow> 's \<Rightarrow> 's res" where
  "leapfrog_join C srt fuel body cursors s = rbind (lf_new C srt fuel cursors) (\<lambda>j. lf_for_each C fuel body fuel j s)"

section \<open>A difference of cursors is a cursor\<close>

text \<open>The whole sequence under a cursor, which no operation changes.\<close>

definition cursor_keys :: "('c \<Rightarrow> 'k list) \<Rightarrow> ('c \<Rightarrow> 'k list) \<Rightarrow> 'c \<Rightarrow> 'k list" where
  "cursor_keys past rest c = past c @ rest c"

definition diff_inv :: "('a \<Rightarrow> bool) \<Rightarrow> ('a \<Rightarrow> 'k::linorder list) \<Rightarrow> ('b \<Rightarrow> bool) \<Rightarrow> ('b \<Rightarrow> 'k list) \<Rightarrow> ('b \<Rightarrow> 'k list) \<Rightarrow> nat \<Rightarrow> ('a, 'b) difference \<Rightarrow> bool" where
  "diff_inv invA restA invB pastB restB fuel d \<longleftrightarrow> invA (df_full d) \<and> invB (df_delta d) \<and>
    length (restA (df_full d)) < fuel \<and>
    (\<forall>x \<in> set (restA (df_full d)). \<forall>y \<in> set (pastB (df_delta d)). y < x) \<and>
    (\<forall>k ks. restA (df_full d) = k # ks \<longrightarrow> k \<notin> set (restB (df_delta d)))"

definition diff_keys :: "('a \<Rightarrow> 'k list) \<Rightarrow> ('b \<Rightarrow> 'k list) \<Rightarrow> ('b \<Rightarrow> 'k list) \<Rightarrow> ('a, 'b) difference \<Rightarrow> 'k list" where
  "diff_keys keysA pastB restB d = filter (\<lambda>x. x \<notin> set (cursor_keys pastB restB (df_delta d))) (keysA (df_full d))"

lemma dropWhile_below_filter: "sorted_wrt (<) ks \<Longrightarrow> dropWhile (below t) ks = filter (\<lambda>x. \<not> x < t) ks" for t :: "'k::linorder"
proof (induction ks)
  case (Cons k ks)
  then have "filter (\<lambda>x. \<not> x < t) ks = ks" if "\<not> k < t"
    using that by (intro filter_True) force
  then show ?case using Cons by simp
qed simp

lemma dropWhile_below_head: "head_opt (dropWhile (below k) ks) = Some k \<longleftrightarrow> k \<in> set ks"
  if "sorted_wrt (<) ks" for k :: "'k::linorder"
  using that by (induction ks) auto

lemma filter_dropWhile_in: "filter (\<lambda>x. x \<notin> D) (dropWhile (\<lambda>x. x \<in> D) ks) = filter (\<lambda>x. x \<notin> D) ks"
  by (induction ks) auto

lemma takeWhile_below_filter: "filter (\<lambda>x. x \<notin> D) (takeWhile (\<lambda>x. x \<in> D) ks) = []"
  by (auto simp: filter_empty_conv dest: set_takeWhileD)

locale cursor_pair = full: join_cursor A invA pastA restA + delta: sorted_cursor B invB pastB restB
  for A :: "('a, 'k::linorder) cursor_ops" and invA pastA restA
    and B :: "('b, 'k) cursor_ops" and invB pastB restB +
  fixes fuel :: nat
begin

lemma skip_ok:
  assumes "invA (df_full d)" "invB (df_delta d)" "length (restA (df_full d)) < f" "length (restA (df_full d)) < fuel"
    "\<forall>x \<in> set (restA (df_full d)). \<forall>y \<in> set (pastB (df_delta d)). y < x"
  shows "\<exists>d'. diff_skip A B f d = Inr d' \<and> diff_inv invA restA invB pastB restB fuel d' \<and>
    cursor_keys pastA restA (df_full d') = cursor_keys pastA restA (df_full d) \<and>
    restA (df_full d') = dropWhile (\<lambda>x. x \<in> set (cursor_keys pastB restB (df_delta d))) (restA (df_full d)) \<and>
    cursor_keys pastB restB (df_delta d') = cursor_keys pastB restB (df_delta d)"
  using assms
proof (induction f arbitrary: d)
  case 0
  then show ?case by simp
next
  case (Suc f)
  note d = Suc.prems
  show ?case
  proof (cases "restA (df_full d)")
    case Nil
    then show ?thesis using d full.key_law [OF d(1)] by (simp add: diff_inv_def)
  next
    case (Cons k ks)
    have key: "cu_key A (df_full d) = Inr (Some k)" using full.key_law [OF d(1)] Cons by simp
    obtain e where e: "cu_seek B k (df_delta d) = Inr e" "invB e" "cursor_keys pastB restB e = cursor_keys pastB restB (df_delta d)"
      "restB e = dropWhile (below k) (restB (df_delta d))"
      using delta.seek_any [OF d(2), of k] d(5) Cons by (auto simp: cursor_keys_def)
    have past: "pastB e = pastB (df_delta d) @ takeWhile (below k) (restB (df_delta d))"
      using e(3,4) append_same_tail unfolding cursor_keys_def by metis
    have sA: "sorted_wrt (<) (k # ks)" using full.rest_ascending [OF d(1)] Cons by simp
    have sB: "sorted_wrt (<) (restB (df_delta d))" using delta.rest_ascending [OF d(2)] .
    have lt: "y < k" if "y \<in> set (pastB e)" for y
      using that past d(5) Cons by (auto dest: set_takeWhileD)
    have keyB: "cu_key B e = Inr (Some k) \<longleftrightarrow> k \<in> set (restB (df_delta d))" "cu_key B e = Inr (head_opt (restB e))"
      using delta.key_law [OF e(2)] e(4) dropWhile_below_head [OF sB] by auto
    have mem: "k \<in> set (cursor_keys pastB restB (df_delta d)) \<longleftrightarrow> k \<in> set (restB (df_delta d))"
      using d(5) Cons by (auto simp: cursor_keys_def)
    show ?thesis
    proof (cases "k \<in> set (restB (df_delta d))")
      case True
      obtain a where a: "cu_step A (df_full d) = Inr a" "invA a" "cursor_keys pastA restA a = cursor_keys pastA restA (df_full d)" "restA a = ks"
        using full.step_law [OF d(1)] Cons by (auto simp: cursor_keys_def)
      have "\<forall>x \<in> set ks. \<forall>y \<in> set (pastB e). y < x" using lt sA by fastforce
      then obtain d' where "diff_skip A B f \<lparr>df_full = a, df_delta = e\<rparr> = Inr d'" "diff_inv invA restA invB pastB restB fuel d'"
        "cursor_keys pastA restA (df_full d') = cursor_keys pastA restA (df_full d)"
        "restA (df_full d') = dropWhile (\<lambda>x. x \<in> set (cursor_keys pastB restB (df_delta d))) ks"
        "cursor_keys pastB restB (df_delta d') = cursor_keys pastB restB (df_delta d)"
        using Suc.IH [of "\<lparr>df_full = a, df_delta = e\<rparr>"] a e d Cons by auto
      then show ?thesis using key e(1) keyB True a(1) mem Cons by simp
    next
      case False
      then have "k \<notin> set (restB e)" using e(4) by (auto dest: set_dropWhileD)
      then have "diff_inv invA restA invB pastB restB fuel (d\<lparr>df_delta := e\<rparr>)"
        using d e lt sA Cons by (auto simp: diff_inv_def dest!: lt)
      then show ?thesis using key e keyB False mem Cons by (auto simp: rbind_def)
    qed
  qed
qed

lemma new_ok:
  assumes "invA a" "invB b" "length (restA a) < fuel" "pastB b = []"
  shows "\<exists>d. diff_new A B fuel a b = Inr d \<and> diff_inv invA restA invB pastB restB fuel d \<and>
    diff_keys restA pastB restB d = filter (\<lambda>x. x \<notin> set (restB b)) (restA a)"
  using skip_ok [of "\<lparr>df_full = a, df_delta = b\<rparr>" fuel] assms
  by (auto simp: diff_new_def diff_keys_def cursor_keys_def [of _ _ b] filter_dropWhile_in)

lemma inv_head:
  assumes "diff_inv invA restA invB pastB restB fuel d" "restA (df_full d) = k # ks"
  shows "k \<notin> set (cursor_keys pastB restB (df_delta d))"
  using assms by (fastforce simp: diff_inv_def cursor_keys_def)

lemma rest_filter_append:
  "cursor_keys pastA restA a = cursor_keys pastA restA a' \<Longrightarrow> filter P (pastA a) @ filter P (restA a) = filter P (pastA a') @ filter P (restA a')"
  by (simp add: cursor_keys_def flip: filter_append)

end

sublocale cursor_pair \<subseteq> diff: join_cursor "diff_ops A B fuel" "diff_inv invA restA invB pastB restB fuel"
    "diff_keys pastA pastB restB" "diff_keys restA pastB restB"
proof
  fix d :: "('a, 'b) difference" and k t :: 'k and ks :: "'k list"
  assume d: "diff_inv invA restA invB pastB restB fuel d"
  let ?D = "set (cursor_keys pastB restB (df_delta d))"
  note i = d [unfolded diff_inv_def]
  have sA: "sorted_wrt (<) (restA (df_full d))" using i full.rest_ascending by blast
  show "sorted_wrt (<) (diff_keys pastA pastB restB d @ diff_keys restA pastB restB d)"
    using full.ascending [of "df_full d"] i by (simp add: diff_keys_def sorted_wrt_filter flip: filter_append)
  have hd: "head_opt (diff_keys restA pastB restB d) = head_opt (restA (df_full d))"
    using inv_head [OF d] by (cases "restA (df_full d)") (auto simp: diff_keys_def)
  then show "cu_key (diff_ops A B fuel) d = Inr (head_opt (diff_keys restA pastB restB d))"
    using full.key_law i by (simp add: diff_ops_def)
  show "\<exists>d'. cu_step (diff_ops A B fuel) d = Inr d' \<and> diff_inv invA restA invB pastB restB fuel d' \<and>
      diff_keys pastA pastB restB d' @ diff_keys restA pastB restB d' = diff_keys pastA pastB restB d @ diff_keys restA pastB restB d \<and>
      diff_keys restA pastB restB d' = tl (diff_keys restA pastB restB d)"
  proof -
    obtain a where a: "cu_step A (df_full d) = Inr a" "invA a" "cursor_keys pastA restA a = cursor_keys pastA restA (df_full d)"
      "restA a = tl (restA (df_full d))"
      using full.step_law [of "df_full d"] i by (auto simp: cursor_keys_def)
    have "\<forall>x \<in> set (restA a). \<forall>y \<in> set (pastB (df_delta d)). y < x" "length (restA a) < fuel"
      using i a(4) by (cases "restA (df_full d)"; force)+
    then obtain d' where d': "diff_skip A B fuel (d\<lparr>df_full := a\<rparr>) = Inr d'" "diff_inv invA restA invB pastB restB fuel d'"
      "cursor_keys pastA restA (df_full d') = cursor_keys pastA restA (df_full d)"
      "restA (df_full d') = dropWhile (\<lambda>x. x \<in> ?D) (restA a)"
      "cursor_keys pastB restB (df_delta d') = cursor_keys pastB restB (df_delta d)"
      using skip_ok [of "d\<lparr>df_full := a\<rparr>" fuel] a i by auto
    have "filter (\<lambda>x. x \<notin> ?D) (restA a) = tl (filter (\<lambda>x. x \<notin> ?D) (restA (df_full d)))"
      using inv_head [OF d] a(4) by (cases "restA (df_full d)") auto
    then show ?thesis using d' a(1) rest_filter_append [OF d'(3), of "\<lambda>x. x \<notin> ?D"]
      by (simp add: diff_ops_def diff_step_def diff_keys_def filter_dropWhile_in)
  qed
  show "\<exists>d'. cu_seek (diff_ops A B fuel) t d = Inr d' \<and> diff_inv invA restA invB pastB restB fuel d' \<and>
      diff_keys pastA pastB restB d' @ diff_keys restA pastB restB d' = diff_keys pastA pastB restB d @ diff_keys restA pastB restB d \<and>
      diff_keys restA pastB restB d' = dropWhile (below t) (diff_keys restA pastB restB d)"
    if rest: "diff_keys restA pastB restB d = k # ks" and kt: "k \<le> t"
  proof -
    obtain ks' where k: "restA (df_full d) = k # ks'" using hd rest by (cases "restA (df_full d)") auto
    obtain a where a: "cu_seek A t (df_full d) = Inr a" "invA a" "cursor_keys pastA restA a = cursor_keys pastA restA (df_full d)"
      "restA a = dropWhile (below t) (restA (df_full d))"
      using full.seek_law [OF _ k kt] i by (auto simp: cursor_keys_def)
    have "\<forall>y \<in> set (pastB (df_delta d)). y < t" using i k kt by force
    then obtain e where e: "cu_seek B t (df_delta d) = Inr e" "invB e" "cursor_keys pastB restB e = cursor_keys pastB restB (df_delta d)"
      "restB e = dropWhile (below t) (restB (df_delta d))"
      using delta.seek_any [of "df_delta d" t] i by (auto simp: cursor_keys_def)
    have past: "pastB e = pastB (df_delta d) @ takeWhile (below t) (restB (df_delta d))"
      using e(3,4) append_same_tail unfolding cursor_keys_def by metis
    have "y < t" if "y \<in> set (pastB e)" for y
      using that past \<open>\<forall>y \<in> set (pastB (df_delta d)). y < t\<close> by (auto dest: set_takeWhileD)
    then have "\<forall>x \<in> set (restA a). \<forall>y \<in> set (pastB e). y < x"
      using a(4) dropWhile_below_ge [OF sA] by (metis less_le_trans)
    moreover have "length (restA a) < fuel" using a(4) i length_dropWhile_le [of "below t" "restA (df_full d)"] by simp
    ultimately have "\<exists>d'. diff_skip A B fuel \<lparr>df_full = a, df_delta = e\<rparr> = Inr d' \<and> diff_inv invA restA invB pastB restB fuel d' \<and>
        cursor_keys pastA restA (df_full d') = cursor_keys pastA restA a \<and>
        restA (df_full d') = dropWhile (\<lambda>x. x \<in> set (cursor_keys pastB restB e)) (restA a) \<and>
        cursor_keys pastB restB (df_delta d') = cursor_keys pastB restB e"
      using skip_ok [of "\<lparr>df_full = a, df_delta = e\<rparr>" fuel] a(2) e(2) by (simp only: difference.select_convs simp_thms)
    then obtain d' where d': "diff_skip A B fuel \<lparr>df_full = a, df_delta = e\<rparr> = Inr d'"
      "diff_inv invA restA invB pastB restB fuel d'"
      "cursor_keys pastA restA (df_full d') = cursor_keys pastA restA (df_full d)"
      "restA (df_full d') = dropWhile (\<lambda>x. x \<in> ?D) (restA a)"
      "cursor_keys pastB restB (df_delta d') = cursor_keys pastB restB (df_delta d)"
      using a(3) e(3) by auto
    have "sorted_wrt (<) (filter (\<lambda>x. x \<notin> ?D) (restA (df_full d)))" using sA by (rule sorted_wrt_filter)
    then have "filter (\<lambda>x. x \<notin> ?D) (restA a) = dropWhile (below t) (filter (\<lambda>x. x \<notin> ?D) (restA (df_full d)))"
      using a(4) sA by (simp add: dropWhile_below_filter conj_commute)
    then show ?thesis using d' a(1) e(1) rest_filter_append [OF d'(3), of "\<lambda>x. x \<notin> ?D"]
      by (simp add: diff_ops_def diff_seek_def diff_keys_def filter_dropWhile_in)
  qed
qed

section \<open>The join computes the intersection\<close>

text \<open>The ring read from position \<open>p\<close>: its first cursor has the least key, its last one the greatest.\<close>

lemma ring_Cons:
  assumes "p < length xs"
  shows "rotate p xs = xs ! p # tl (rotate p xs)"
  using assms by (simp add: rotate_drop_take Cons_nth_drop_Suc [symmetric])

lemma ring_last:
  assumes "p < length xs"
  shows "xs ! ((p + length xs - 1) mod length xs) = last (rotate p xs)"
proof (cases p)
  case 0
  then show ?thesis using assms by (cases xs) (simp_all add: last_conv_nth)
next
  case (Suc q)
  then have "p + length xs - 1 = q + length xs" by simp
  then show ?thesis using Suc assms by (simp add: rotate_drop_take take_Suc_conv_app_nth)
qed

lemma ring_update:
  assumes "p < length xs"
  shows "rotate ((p + 1) mod length xs) (xs[p := x]) = tl (rotate p xs) @ [x]"
proof -
  have "rotate ((p + 1) mod length xs) (xs[p := x]) = rotate1 (rotate p (xs[p := x]))"
    using rotate_conv_mod [of "p + 1" "xs[p := x]"] by simp
  also have "rotate p (xs[p := x]) = x # tl (rotate p xs)"
    using assms by (simp add: rotate_drop_take drop_update_swap Cons_nth_drop_Suc [symmetric])
  finally show ?thesis by simp
qed

lemma sum_list_ring: "sum_list (map f (rotate p xs)) = sum_list (map f xs)" for f :: "'c \<Rightarrow> nat"
  by (metis append_take_drop_id map_append sum_list_append add.commute rotate_drop_take)

lemma mod_length_less: "p < length xs \<Longrightarrow> q mod length xs < length xs"
  by (intro mod_less_divisor) linarith

definition common :: "('c \<Rightarrow> 'k list) \<Rightarrow> 'c list \<Rightarrow> 'k set" where
  "common rest cs = {x. \<forall>c \<in> set cs. x \<in> set (rest c)}"

definition keys_left :: "('c \<Rightarrow> 'k list) \<Rightarrow> 'c list \<Rightarrow> nat" where
  "keys_left rest cs = sum_list (map (\<lambda>c. length (rest c)) cs)"

text \<open>A match: every cursor of the ring stands on \<open>k\<close>.\<close>

definition lf_at :: "('c \<Rightarrow> bool) \<Rightarrow> ('c \<Rightarrow> 'k list) \<Rightarrow> 'k \<Rightarrow> 'c leapfrog \<Rightarrow> bool" where
  "lf_at iv rest k j \<longleftrightarrow> lf_p j < length (lf_iters j) \<and> \<not> lf_at_end j \<and>
    (\<forall>c \<in> set (lf_iters j). iv c \<and> head_opt (rest c) = Some k)"

definition ring_ok :: "('c \<Rightarrow> bool) \<Rightarrow> ('c \<Rightarrow> 'k::linorder list) \<Rightarrow> 'c list \<Rightarrow> bool" where
  "ring_ok iv rest cs \<longleftrightarrow> cs \<noteq> [] \<and> (\<forall>c \<in> set cs. iv c \<and> rest c \<noteq> []) \<and> sorted (map (\<lambda>c. hd (rest c)) cs)"

text \<open>What \<open>search\<close> leaves behind: a match of the same intersection, or the end of an empty one.\<close>

definition search_done :: "('c \<Rightarrow> bool) \<Rightarrow> ('c \<Rightarrow> 'k::linorder list) \<Rightarrow> 'c list \<Rightarrow> 'c leapfrog \<Rightarrow> bool" where
  "search_done iv rest cs j \<longleftrightarrow> keys_left rest (lf_iters j) \<le> keys_left rest cs \<and>
    (if lf_at_end j then common rest cs = {}
     else common rest (lf_iters j) = common rest cs \<and> (\<exists>k. lf_at iv rest k j))"

lemma head_opt_hd: "ks \<noteq> [] \<Longrightarrow> head_opt ks = Some (hd ks)"
  by (cases ks) auto

lemma head_opt_eq_None [simp]: "head_opt ks = None \<longleftrightarrow> ks = []"
  by (cases ks) auto

lemma head_opt_eq_Some: "head_opt ks = Some k \<longleftrightarrow> ks \<noteq> [] \<and> hd ks = k"
  by (cases ks) auto

lemma keys_left_simps [simp]:
  "keys_left rest (c # cs) = length (rest c) + keys_left rest cs"
  "keys_left rest (cs @ ds) = keys_left rest cs + keys_left rest ds"
  "keys_left rest [] = 0"
  "keys_left rest (rotate p cs) = keys_left rest cs"
  by (simp_all add: keys_left_def sum_list_ring)

lemma common_simps [simp]:
  "common rest (c # cs) = (if cs = [] then set (rest c) else set (rest c) \<inter> common rest cs)"
  "cs \<noteq> [] \<Longrightarrow> common rest (cs @ [c]) = common rest cs \<inter> set (rest c)"
  "common rest (rotate p cs) = common rest cs"
  by (auto simp: common_def)

lemma common_cong_set: "set cs = set ds \<Longrightarrow> common rest cs = common rest ds"
  by (simp add: common_def)

lemma finite_common: "cs \<noteq> [] \<Longrightarrow> finite (common rest cs)"
  by (cases cs) auto

lemma sorted_between:
  assumes "sorted ks" "k \<in> set ks"
  shows "hd ks \<le> k" "k \<le> last ks"
  using assms by (cases ks; auto) (use assms in \<open>cases ks rule: rev_cases; auto simp: sorted_append\<close>)

lemma ring_between:
  assumes "ring_ok iv rest cs" "c \<in> set cs"
  shows "hd (rest (hd cs)) \<le> hd (rest c)" "hd (rest c) \<le> hd (rest (last cs))"
  using assms sorted_between [of "map (\<lambda>c. hd (rest c)) cs" "hd (rest c)"]
  by (auto simp: ring_ok_def hd_map last_map)

lemma sorted_map_Some: "sorted (map Some ks) \<longleftrightarrow> sorted ks"
  by (induction ks) auto

lemma sorted_list_of_set_least:
  fixes A :: "'k::linorder set"
  assumes "finite A" "k \<in> A" "\<And>x. x \<in> A \<Longrightarrow> k \<le> x"
  shows "sorted_list_of_set A = k # sorted_list_of_set (A - {k})"
proof -
  have "Min A = k" using assms by (intro Min_eqI) auto
  then show ?thesis using sorted_list_of_set_nonempty [of A] assms(1,2) by auto
qed

context join_cursor
begin

lemma common_ge:
  assumes "ring_ok inv rest cs" "c \<in> set cs" "x \<in> common rest cs"
  shows "hd (rest c) \<le> x"
proof -
  have "x \<in> set (rest c)" "sorted_wrt (<) (rest c)" "rest c \<noteq> []"
    using assms rest_ascending by (auto simp: common_def ring_ok_def)
  then show ?thesis by (cases "rest c") (auto intro: less_imp_le)
qed

text \<open>One round of \<open>search\<close>: the cursor with the least key seeks to the greatest one.\<close>

lemma ring_seek:
  assumes r: "ring_ok inv rest (c # cs)" and m: "m = hd (rest (last (c # cs)))" and ne: "hd (rest c) \<noteq> m"
  shows "\<exists>c'. cu_seek C m c = Inr c' \<and> inv c' \<and> length (rest c') < length (rest c) \<and>
    common rest (cs @ [c']) = common rest (c # cs) \<and> (rest c' \<noteq> [] \<longrightarrow> ring_ok inv rest (cs @ [c']))"
proof -
  obtain k ks where k: "rest c = k # ks" and ic: "inv c" using r by (cases "rest c") (auto simp: ring_ok_def)
  have cs: "cs \<noteq> []" using m ne by auto
  have le: "hd (rest d) \<le> m" if "d \<in> set (c # cs)" for d
    using ring_between(2) [OF r that] m by simp
  have km: "k < m" using le [of c] ne k by simp
  obtain c' where c': "cu_seek C m c = Inr c'" "inv c'" "set (rest c') = {x \<in> set (rest c). m \<le> x}"
    "length (rest c') < length (rest c)"
    using seek_set [OF ic k, of m] km by (metis less_imp_le)
  have "m \<le> x" if "x \<in> common rest (c # cs)" for x
    using common_ge [OF r last_in_set that] m by simp
  then have com: "common rest (cs @ [c']) = common rest (c # cs)" using cs c'(3) by auto
  have "ring_ok inv rest (cs @ [c'])" if "rest c' \<noteq> []"
  proof -
    have "m \<le> hd (rest c')" using c'(3) that by (metis (no_types, lifting) list.set_sel(1) mem_Collect_eq)
    then have "\<forall>d \<in> set cs. hd (rest d) \<le> hd (rest c')" using le by fastforce
    then show ?thesis using r c'(2) that by (auto simp: ring_ok_def sorted_append)
  qed
  then show ?thesis using c' com by blast
qed

lemma loop_ok:
  assumes "lf_p j < length (lf_iters j)" "\<not> lf_at_end j" "ring_ok inv rest (rotate (lf_p j) (lf_iters j))"
    "m = hd (rest (last (rotate (lf_p j) (lf_iters j))))" "keys_left rest (lf_iters j) < fuel"
  shows "\<exists>j'. lf_loop C fuel m j = Inr j' \<and> search_done inv rest (lf_iters j) j'"
  using assms
proof (induction fuel arbitrary: j m)
  case 0
  then show ?case by simp
next
  case (Suc fuel)
  let ?cs = "lf_iters j" and ?p = "lf_p j"
  obtain c cs where ring: "rotate ?p ?cs = c # cs" "?cs ! ?p = c" using ring_Cons [OF Suc.prems(1)] by blast
  have r: "ring_ok inv rest (c # cs)" and m: "m = hd (rest (last (c # cs)))"
    using Suc.prems(3,4) ring by simp_all
  have c: "inv c" "rest c \<noteq> []" using r by (auto simp: ring_ok_def)
  have key: "cu_key C c = Inr (Some (hd (rest c)))" using key_law c head_opt_hd by metis
  have set_ring: "set ?cs = set (c # cs)" using ring(1) by (metis set_rotate)
  have com: "common rest ?cs = common rest (c # cs)" using common_cong_set [OF set_ring] .
  have left: "keys_left rest ?cs = keys_left rest (c # cs)" using ring(1) keys_left_simps(4) by metis
  show ?case
  proof (cases "hd (rest c) = m")
    case True
    have "hd (rest d) = m" if "d \<in> set (c # cs)" for d
      using ring_between [OF r that] m True by (simp del: last.simps)
    then have "lf_at inv rest m j"
      using Suc.prems(1,2) r set_ring by (auto simp: lf_at_def ring_ok_def head_opt_eq_Some)
    then show ?thesis using Suc.prems(1,2) ring(2) key True by (auto simp: search_done_def)
  next
    case False
    obtain c' where c': "cu_seek C m c = Inr c'" "inv c'" "length (rest c') < length (rest c)"
      "common rest (cs @ [c']) = common rest (c # cs)" "rest c' \<noteq> [] \<longrightarrow> ring_ok inv rest (cs @ [c'])"
      using ring_seek [OF r m False] by blast
    have key': "cu_key C c' = Inr (head_opt (rest c'))" using key_law c'(2) .
    let ?cs' = "?cs[?p := c']" and ?p' = "(?p + 1) mod length ?cs"
    have ring': "rotate ?p' ?cs' = cs @ [c']" using ring_update [OF Suc.prems(1), of c'] ring(1) by simp
    have com': "common rest ?cs' = common rest (cs @ [c'])" using ring' common_simps(3) by metis
    have left': "keys_left rest ?cs' = keys_left rest (cs @ [c'])" using ring' keys_left_simps(4) by metis
    show ?thesis
    proof (cases "rest c'")
      case Nil
      then have "common rest (cs @ [c']) = {}" by (auto simp: common_def)
      then have "common rest ?cs = {}" using com c'(4) by simp
      then show ?thesis
        using Suc.prems(1) ring(2) key False c'(1,3) key' Nil left left' by (simp add: search_done_def)
    next
      case (Cons k ks)
      let ?j = "j\<lparr>lf_iters := ?cs', lf_p := ?p'\<rparr>"
      have "\<exists>j'. lf_loop C fuel k ?j = Inr j' \<and> search_done inv rest (lf_iters ?j) j'"
        using Suc.prems ring' c'(3,5) Cons left left' by (intro Suc.IH) (auto simp: mod_length_less)
      then show ?thesis
        using Suc.prems(1) ring(2) key False c'(1,3) key' Cons left left' com com' c'(4) by (fastforce simp: search_done_def)
    qed
  qed
qed

lemma search_ok:
  assumes "lf_p j < length (lf_iters j)" "\<not> lf_at_end j" "ring_ok inv rest (rotate (lf_p j) (lf_iters j))"
    "keys_left rest (lf_iters j) < fuel"
  shows "\<exists>j'. lf_search C fuel j = Inr j' \<and> search_done inv rest (lf_iters j) j'"
proof -
  let ?r = "rotate (lf_p j) (lf_iters j)"
  have "last ?r \<in> set ?r" using assms(3) last_in_set unfolding ring_ok_def by blast
  then have "inv (last ?r)" "rest (last ?r) \<noteq> []" using assms(3) by (auto simp: ring_ok_def)
  then have "cu_key C (last ?r) = Inr (Some (hd (rest (last ?r))))" using key_law head_opt_hd by metis
  moreover have "(lf_p j + length (lf_iters j) - 1) mod length (lf_iters j) < length (lf_iters j)"
    using assms(1) by (rule mod_length_less)
  ultimately have "lf_search C fuel j = lf_loop C fuel (hd (rest (last ?r))) j"
    using ring_last [OF assms(1)] by (simp add: lf_search_def Let_def)
  then show ?thesis using loop_ok [OF assms(1-3) refl assms(4)] by simp
qed

text \<open>At a match the key is the least element of the intersection, and \<open>next\<close> removes exactly it.\<close>

lemma lf_at_least:
  assumes "lf_at inv rest k j"
  shows "k \<in> common rest (lf_iters j)" "x \<in> common rest (lf_iters j) \<Longrightarrow> k \<le> x"
proof -
  have r: "rest c \<noteq> [] \<and> hd (rest c) = k \<and> inv c" if "c \<in> set (lf_iters j)" for c
    using assms that by (auto simp: lf_at_def head_opt_eq_Some)
  then show "k \<in> common rest (lf_iters j)" by (auto simp: common_def intro: hd_in_set)
  obtain c where c: "c \<in> set (lf_iters j)" using assms by (fastforce simp: lf_at_def dest: nth_mem)
  show "k \<le> x" if "x \<in> common rest (lf_iters j)"
  proof -
    have "x \<in> set (rest c)" using that c by (simp add: common_def)
    then show ?thesis using r [OF c] rest_ascending [of c] by (cases "rest c") (auto intro: less_imp_le)
  qed
qed

lemma next_ok:
  assumes at: "lf_at inv rest k j" and fuel: "keys_left rest (lf_iters j) \<le> fuel"
  shows "\<exists>j'. lf_next C fuel j = Inr j' \<and> keys_left rest (lf_iters j') < keys_left rest (lf_iters j) \<and>
    (if lf_at_end j' then common rest (lf_iters j) = {k}
     else common rest (lf_iters j') = common rest (lf_iters j) - {k} \<and> (\<exists>k. lf_at inv rest k j'))"
proof -
  let ?cs = "lf_iters j" and ?p = "lf_p j"
  have p: "?p < length ?cs" and ne: "\<not> lf_at_end j" using at by (simp_all add: lf_at_def)
  obtain c cs where ring: "rotate ?p ?cs = c # cs" "?cs ! ?p = c" using ring_Cons [OF p] by blast
  have set_ring: "set ?cs = set (c # cs)" using ring(1) by (metis set_rotate)
  have mem: "inv d" "rest d \<noteq> []" "hd (rest d) = k" if "d \<in> set (c # cs)" for d
    using at that set_ring by (auto simp: lf_at_def head_opt_eq_Some)
  obtain ks where k: "rest c = k # ks" using mem [of c] by (cases "rest c") auto
  have asc: "\<forall>x \<in> set ks. k < x" using rest_ascending [OF mem(1) [of c]] k by simp
  obtain c' where c': "cu_step C c = Inr c'" "inv c'" "rest c' = ks"
    using step_law [OF mem(1) [of c]] k by auto
  have key': "cu_key C c' = Inr (head_opt ks)" using key_law [OF c'(2)] c'(3) by simp
  let ?cs' = "?cs[?p := c']" and ?p' = "(?p + 1) mod length ?cs"
  have ring': "rotate ?p' ?cs' = cs @ [c']" using ring_update [OF p, of c'] ring(1) by simp
  have com': "common rest ?cs' = common rest (cs @ [c'])" using ring' common_simps(3) by metis
  have com: "common rest ?cs = common rest (c # cs)" using common_cong_set [OF set_ring] .
  have kin: "k \<in> set (rest d)" if "d \<in> set (c # cs)" for d using mem [OF that] hd_in_set by metis
  have left: "keys_left rest ?cs' < keys_left rest ?cs"
    using ring(1) ring' k c'(3) keys_left_simps(4) [of rest ?p ?cs] keys_left_simps(4) [of rest ?p' ?cs'] by simp
  have min: "k \<in> common rest ?cs" using kin com by (auto simp: common_def)
  show ?thesis
  proof (cases ks)
    case Nil
    then have "common rest ?cs = {k}" using min com k by (auto split: if_splits)
    then show ?thesis using p ring(2) c'(1) key' Nil left by (simp add: lf_next_def)
  next
    case (Cons k2 ks2)
    let ?j = "j\<lparr>lf_iters := ?cs', lf_p := ?p'\<rparr>"
    have "map (\<lambda>c. hd (rest c)) cs = replicate (length cs) k"
      using mem by (intro replicate_eqI) auto
    then have "sorted (map (\<lambda>c. hd (rest c)) (cs @ [c']))"
      using asc Cons c'(3) by (auto simp: sorted_append sorted_replicate)
    then have ro: "ring_ok inv rest (cs @ [c'])" using mem c' Cons by (auto simp: ring_ok_def)
    have pj: "lf_p ?j < length (lf_iters ?j)" using p by (simp add: mod_length_less)
    have "\<exists>j'. lf_search C fuel ?j = Inr j' \<and> search_done inv rest ?cs' j'"
      using search_ok [OF pj, of fuel] ro ring' ne left fuel by simp
    then obtain j' where j': "lf_search C fuel ?j = Inr j'" "keys_left rest (lf_iters j') \<le> keys_left rest ?cs'"
      "if lf_at_end j' then common rest ?cs' = {} else common rest (lf_iters j') = common rest ?cs' \<and> (\<exists>k. lf_at inv rest k j')"
      unfolding search_done_def by auto
    have d: "common rest ?cs' = common rest ?cs - {k}"
      using com com' k c'(3) asc kin by (cases "cs = []") auto
    have "common rest ?cs = {k}" if "lf_at_end j'" using j'(3) d min that by auto
    then show ?thesis using p ring(2) c'(1) key' Cons left j' d by (auto simp: lf_next_def)
  qed
qed

lemma for_each_ok:
  assumes "lf_at inv rest k j" "keys_left rest (lf_iters j) < n" "keys_left rest (lf_iters j) \<le> fuel"
  shows "lf_for_each C fuel body n j s = Inr (fold body (sorted_list_of_set (common rest (lf_iters j))) s)"
  using assms
proof (induction n arbitrary: j s k)
  case 0
  then show ?case by simp
next
  case (Suc n)
  let ?cs = "lf_iters j"
  have ne: "?cs \<noteq> []" using Suc.prems(1) by (auto simp: lf_at_def)
  have key: "lf_key C j = Inr k"
    using Suc.prems(1) key_law nth_mem [of "lf_p j" ?cs] by (auto simp: lf_key_def lf_at_def)
  obtain j' where j': "lf_next C fuel j = Inr j'" "keys_left rest (lf_iters j') < keys_left rest ?cs"
    "if lf_at_end j' then common rest ?cs = {k}
     else common rest (lf_iters j') = common rest ?cs - {k} \<and> (\<exists>k. lf_at inv rest k j')"
    using next_ok [OF Suc.prems(1,3)] by blast
  have sl: "sorted_list_of_set (common rest ?cs) = k # sorted_list_of_set (common rest ?cs - {k})"
    using lf_at_least [OF Suc.prems(1)] finite_common [OF ne] by (intro sorted_list_of_set_least) auto
  have v: "lf_is_valid j" using Suc.prems(1) by (simp add: lf_is_valid_def lf_at_def)
  show ?case
  proof (cases "lf_at_end j'")
    case True
    moreover obtain n' where "n = Suc n'" using Suc.prems(2) j'(2) by (cases n) auto
    ultimately show ?thesis using v key j' sl by (simp add: lf_is_valid_def)
  next
    case False
    then obtain k' where "lf_at inv rest k' j'" "common rest (lf_iters j') = common rest ?cs - {k}" using j'(3) by auto
    then show ?thesis using v key j'(1,2) sl Suc.IH [of k' j' "body k s"] Suc.prems(2,3) by simp
  qed
qed

lemma any_exhausted: "\<forall>c \<in> set cs. inv c \<Longrightarrow> lf_any_exhausted C cs = Inr (\<exists>c \<in> set cs. rest c = [])"
  by (induction cs) (auto simp: key_law)

lemma join_ok:
  assumes srt: "is_sort_by_key srt" and cs: "cs \<noteq> []" "\<forall>c \<in> set cs. inv c" and fuel: "keys_left rest cs < fuel"
  shows "leapfrog_join C srt fuel body cs s = Inr (fold body (sorted_list_of_set (common rest cs)) s)"
proof (cases "\<exists>c \<in> set cs. rest c = []")
  case True
  then have "common rest cs = {}" by (force simp: common_def)
  moreover obtain f where "fuel = Suc f" using fuel by (cases fuel) auto
  ultimately show ?thesis
    using True cs any_exhausted [OF cs(2)] by (simp add: leapfrog_join_def lf_new_def lf_is_valid_def)
next
  case False
  let ?cs = "srt (key_or_none C) cs"
  have ms: "mset ?cs = mset cs" and so: "sorted (map (key_or_none C) ?cs)" using srt by (auto simp: is_sort_by_key_def)
  have st: "set ?cs = set cs" using ms by (metis set_mset_mset)
  have key: "key_or_none C c = Some (hd (rest c))" if "c \<in> set cs" for c
    using that False cs key_law [of c] by (simp add: key_or_none_def head_opt_hd)
  then have "map (key_or_none C) ?cs = map Some (map (\<lambda>c. hd (rest c)) ?cs)" using st by simp
  then have "sorted (map (\<lambda>c. hd (rest c)) ?cs)" using so by (simp only: sorted_map_Some)
  then have ro: "ring_ok inv rest ?cs" using False cs st by (auto simp: ring_ok_def)
  have left: "keys_left rest ?cs = keys_left rest cs"
    using arg_cong [OF ms, of "\<lambda>m. sum_mset (image_mset (\<lambda>c. length (rest c)) m)"]
    by (simp add: keys_left_def flip: sum_mset_sum_list)
  have ne: "?cs \<noteq> []" using cs st by auto
  let ?j = "\<lparr>lf_iters = ?cs, lf_p = 0, lf_at_end = False\<rparr>"
  have "\<exists>j'. lf_search C fuel ?j = Inr j' \<and> search_done inv rest ?cs j'"
    using search_ok [of ?j fuel] ro left ne fuel by simp
  then obtain j where j: "lf_search C fuel ?j = Inr j"
    "keys_left rest (lf_iters j) \<le> keys_left rest cs"
    "if lf_at_end j then common rest ?cs = {} else common rest (lf_iters j) = common rest ?cs \<and> (\<exists>k. lf_at inv rest k j)"
    using left unfolding search_done_def by auto
  have new: "leapfrog_join C srt fuel body cs s = lf_for_each C fuel body fuel j s"
    using cs False any_exhausted [OF cs(2)] j(1) by (auto simp: leapfrog_join_def lf_new_def)
  have com: "common rest ?cs = common rest cs" using common_cong_set [OF st] .
  show ?thesis
  proof (cases "lf_at_end j")
    case True
    moreover obtain f where "fuel = Suc f" using fuel by (cases fuel) auto
    ultimately show ?thesis using new j(3) com by (simp add: lf_is_valid_def)
  next
    case e: False
    then obtain k where "lf_at inv rest k j" using j(3) by auto
    then show ?thesis using new for_each_ok [of k j fuel fuel] j e com fuel by simp
  qed
qed

end

section \<open>Joins over slices and over differences of slices\<close>

interpretation svc_diff: cursor_pair svc_ops svc_inv svc_past svc_rest svc_ops svc_inv svc_past svc_rest fuel for fuel
  by unfold_locales

text \<open>Opening a cursor of an atom.\<close>

definition open_difference :: "nat \<Rightarrow> 'k::linorder list \<times> 'k list \<Rightarrow> ('k svc, 'k svc) difference res" where
  "open_difference fuel b = diff_new svc_ops svc_ops fuel (svc_new (fst b)) (svc_new (snd b))"

lemma open_difference_ok:
  assumes "sorted_wrt (<) f" "length f < 2 ^ 63" "sorted_wrt (<) d" "length d < 2 ^ 63" "length f < fuel"
  shows "\<exists>c. open_difference fuel (f, d) = Inr c \<and> diff_inv svc_inv svc_rest svc_inv svc_past svc_rest fuel c \<and>
    diff_keys svc_rest svc_past svc_rest c = filter (\<lambda>x. x \<notin> set d) f"
  using svc_diff.new_ok [of "svc_new f" "svc_new d" fuel] assms by (simp add: open_difference_def)

lemma sort_key_sorts: "is_sort_by_key sort_key"
  by (simp add: is_sort_by_key_def)

lemma keys_left_le:
  "list_all2 (\<lambda>n c. length (rest c) \<le> n) ns cs \<Longrightarrow> keys_left rest cs \<le> sum_list ns"
  by (induction rule: list_all2_induct) auto

text \<open>
  C17: the leapfrog join of sorted slices ends and visits exactly the keys that occur in every slice, each
  once and in ascending order, however the ring orders cursors with equal keys.
\<close>

theorem leapfrog_join_intersects:
  assumes "is_sort_by_key srt" "slices \<noteq> []" "\<forall>d \<in> set slices. sorted_wrt (<) d \<and> length d < 2 ^ 63"
    "sum_list (map length slices) < fuel"
  shows "leapfrog_join svc_ops srt fuel body (map svc_new slices) s =
    Inr (fold body (sorted_list_of_set (\<Inter>d \<in> set slices. set d)) s)"
proof -
  have "keys_left svc_rest (map svc_new slices) = sum_list (map length slices)"
    by (simp add: keys_left_def comp_def)
  moreover have "common svc_rest (map svc_new slices) = (\<Inter>d \<in> set slices. set d)"
    by (auto simp: common_def)
  ultimately show ?thesis
    using svc.join_ok [OF assms(1), of "map svc_new slices" fuel body s] assms by simp
qed

theorem leapfrog_join_intersects_witness:
  "leapfrog_join svc_ops sort_key 100 (\<lambda>x acc. acc @ [x]) (map svc_new [[1, 2, 3, 5, 8, 10], [2, 3, 6, 8, 9, 10], [0, 3, 4, 8, 10, 11 :: nat]]) [] =
    Inr [3, 8, 10]"
proof -
  let ?d = "[[1, 2, 3, 5, 8, 10], [2, 3, 6, 8, 9, 10], [0, 3, 4, 8, 10, 11 :: nat]]"
  have e: "(\<Inter>d \<in> set ?d. set d) = set [3, 8, 10]" by auto
  have l: "sorted_list_of_set (set [3, 8, 10 :: nat]) = [3, 8, 10]" by (simp add: sorted_list_of_set_sort_remdups)
  have "leapfrog_join svc_ops sort_key 100 (\<lambda>x acc. acc @ [x]) (map svc_new ?d) [] =
    Inr (fold (\<lambda>x acc. acc @ [x]) (sorted_list_of_set (\<Inter>d \<in> set ?d. set d)) [])"
    by (rule leapfrog_join_intersects) (simp_all add: sort_key_sorts)
  then show ?thesis unfolding e l by simp
qed

text \<open>
  a semi-naive atom reads \<open>full \<setminus> delta\<close>: the join over differences of slices ends and visits, each once and in
  ascending order, exactly the keys that are in every full slice and in none of the matching delta slices.
\<close>

theorem semi_naive_join_excludes_delta:
  assumes "is_sort_by_key srt" "buckets \<noteq> []"
    "\<forall>(f, d) \<in> set buckets. sorted_wrt (<) f \<and> length f < 2 ^ 63 \<and> sorted_wrt (<) d \<and> length d < 2 ^ 63"
    "sum_list (map (\<lambda>b. length (fst b)) buckets) < fuel"
  shows "rbind (rmap (open_difference fuel) buckets) (\<lambda>cs. leapfrog_join (diff_ops svc_ops svc_ops fuel) srt fuel body cs s) =
    Inr (fold body (sorted_list_of_set (\<Inter>(f, d) \<in> set buckets. set f - set d)) s)"
proof -
  let ?inv = "diff_inv svc_inv svc_rest svc_inv svc_past svc_rest fuel" and ?rest = "diff_keys svc_rest svc_past svc_rest"
  have o: "\<exists>c. open_difference fuel b = Inr c \<and> ?inv c \<and> ?rest c = filter (\<lambda>x. x \<notin> set (snd b)) (fst b)"
    if "b \<in> set buckets" for b
  proof -
    have "length (fst b) \<le> sum_list (map (\<lambda>b. length (fst b)) buckets)"
      using that by (intro member_le_sum_list) auto
    then show ?thesis using open_difference_ok [of "fst b" "snd b" fuel] assms(3,4) that by fastforce
  qed
  obtain cs where cs: "rmap (open_difference fuel) buckets = Inr cs"
    "list_all2 (\<lambda>b c. ?inv c \<and> ?rest c = filter (\<lambda>x. x \<notin> set (snd b)) (fst b)) buckets cs"
    using rmap_all [of buckets "open_difference fuel", OF o] by blast
  have la: "list_all2 (\<lambda>n c. length (?rest c) \<le> n) (map (\<lambda>b. length (fst b)) buckets) cs"
    using cs(2) by (auto simp: list_all2_map1 elim!: list_all2_mono)
  have left: "keys_left ?rest cs < fuel" using keys_left_le [OF la] assms(4) by simp
  have "common ?rest cs = (\<Inter>(f, d) \<in> set buckets. set f - set d)"
    using cs(2) by (induction rule: list_all2_induct) (auto simp: common_def)
  moreover have "\<forall>c \<in> set cs. ?inv c" using cs(2) by (auto simp: list_all2_conv_all_nth in_set_conv_nth)
  moreover have "cs \<noteq> []" using cs(2) assms(2) by auto
  ultimately show ?thesis using svc_diff.diff.join_ok [OF assms(1) _ _ left, where body = body and s = s] cs(1) by simp
qed

theorem semi_naive_join_excludes_delta_witness:
  "rbind (rmap (open_difference 100) [([1, 2, 3, 5, 8 :: nat], [2, 9]), ([2, 3, 5, 8], [8])])
     (\<lambda>cs. leapfrog_join (diff_ops svc_ops svc_ops 100) sort_key 100 (\<lambda>x acc. acc @ [x]) cs []) = Inr [3, 5]"
proof -
  let ?b = "[([1, 2, 3, 5, 8 :: nat], [2, 9]), ([2, 3, 5, 8], [8])]"
  have e: "(\<Inter>(f, d) \<in> set ?b. set f - set d) = set [3, 5]" by auto
  have l: "sorted_list_of_set (set [3, 5 :: nat]) = [3, 5]" by (simp add: sorted_list_of_set_sort_remdups)
  have "rbind (rmap (open_difference 100) ?b)
      (\<lambda>cs. leapfrog_join (diff_ops svc_ops svc_ops 100) sort_key 100 (\<lambda>x acc. acc @ [x]) cs []) =
    Inr (fold (\<lambda>x acc. acc @ [x]) (sorted_list_of_set (\<Inter>(f, d) \<in> set ?b. set f - set d)) [])"
    by (rule semi_naive_join_excludes_delta) (simp_all add: sort_key_sorts)
  then show ?thesis unfolding e l by simp
qed

end
