(* ===== verification/Bplus_Props.thy ===== *)
theory Bplus_Props
  imports Bplus_Session Leapfrog
begin

text \<open>
  The properties of the B+ tree, for the layouts and identifier widths under which the 24-slot path of \<open>insert\<close> is
  long enough: the three 32-bit layouts with 31-bit keys, and \<open>Layout256U64\<close> and \<open>Layout512U64\<close> with 63-bit keys.
\<close>

section \<open>The configurations\<close>

definition bp_supported :: "bp_cfg \<Rightarrow> bool" where
  "bp_supported B \<longleftrightarrow> (\<exists>L S track kmax. B = bp_cfg_of L S track kmax \<and> S \<in> {BinarySearch, Branchless} \<and>
    (L \<in> {Layout64U32, Layout128U32, Layout256U32} \<and> kmax = 2 ^ 31 - 1 \<or> L \<in> {Layout256U64, Layout512U64} \<and> kmax = 2 ^ 63 - 1))"

abbreviation "bp_tagged B \<equiv> bp_node_tagged (bl_data_len (bx_layout B))"

definition bp_contents :: "bp_cfg \<Rightarrow> bp_tree \<Rightarrow> bp_node list \<times> bp_header list" where
  "bp_contents B t = (is_vals (bp_tagged B) (v_store (bt_nodes t)), ps_data (v_store (bt_meta t)))"

definition bp_elements :: "bp_cfg \<Rightarrow> bp_tree \<Rightarrow> nat set" where
  "bp_elements B t = elems (fst (bp_contents B t))"

lemma bp_cfg_ops:
  assumes "node_layout L" "search_kind S" "Suc kmax < lmin L * Suc (kmin L) ^ MAX_PATH" "kmax + 3 * MAX_PATH < bl_nil L" "kmax + 2 < 2 ^ 64"
    and B: "B = bp_cfg_of L S track kmax"
  shows "bp_ops B (is_vals (bp_tagged B)) (is_flag (bp_tagged B)) (is_flag (bp_tagged B)) (tg_default (bp_tagged B))
    ps_data is_bit_set (\<lambda>_ _. False) bp_header_default"
proof (intro bp_ops.intro bp_ops_axioms.intro)
  show "semi_vec (bx_nodes B) (is_vals (bp_tagged B)) (is_flag (bp_tagged B)) (is_flag (bp_tagged B)) bp_node_dom (tg_default (bp_tagged B))"
    using tagged_repr.veci_semi_vec [OF bp_node_tagged_repr] by (simp add: B bp_cfg_of_def)
  show "semi_vec (bx_meta B) ps_data is_bit_set (\<lambda>_ _. False) (\<lambda>_. True) bp_header_default"
    using vecp.semi_vec_axioms by (simp add: B bp_cfg_of_def)
qed (use assms in \<open>simp_all add: bp_cfg_of_def veci_cfg_def vecp_cfg_def\<close>)

lemma search_kinds: "S \<in> {BinarySearch, Branchless} \<Longrightarrow> search_kind S"
  using binary.search_kind_axioms branchless.search_kind_axioms by auto

lemma supported_ops:
  assumes "bp_supported B"
  shows "bp_ops B (is_vals (bp_tagged B)) (is_flag (bp_tagged B)) (is_flag (bp_tagged B)) (tg_default (bp_tagged B))
    ps_data is_bit_set (\<lambda>_ _. False) bp_header_default"
proof -
  obtain L S track kmax where B: "B = bp_cfg_of L S track kmax" "S \<in> {BinarySearch, Branchless}"
    and k: "L \<in> {Layout64U32, Layout128U32, Layout256U32} \<and> kmax = 2 ^ 31 - 1 \<or> L \<in> {Layout256U64, Layout512U64} \<and> kmax = 2 ^ 63 - 1"
    using assms by (auto simp: bp_supported_def)
  have "node_layout L" using k l64.node_layout_axioms l128.node_layout_axioms l256.node_layout_axioms
      l256w.node_layout_axioms l512w.node_layout_axioms by auto
  moreover have "Suc kmax < lmin L * Suc (kmin L) ^ MAX_PATH" "kmax + 3 * MAX_PATH < bl_nil L" "kmax + 2 < 2 ^ 64"
    using k by (auto simp: layout_defs lmin_def kmin_def MAX_PATH_def)
  ultimately show ?thesis using bp_cfg_ops search_kinds B by blast
qed

interpretation bp64: bp_ops "bp_cfg_of Layout64U32 BinarySearch track (2 ^ 31 - 1)"
  "is_vals (bp_tagged (bp_cfg_of Layout64U32 BinarySearch track (2 ^ 31 - 1)))"
  "is_flag (bp_tagged (bp_cfg_of Layout64U32 BinarySearch track (2 ^ 31 - 1)))"
  "is_flag (bp_tagged (bp_cfg_of Layout64U32 BinarySearch track (2 ^ 31 - 1)))"
  "tg_default (bp_tagged (bp_cfg_of Layout64U32 BinarySearch track (2 ^ 31 - 1)))" ps_data is_bit_set "\<lambda>_ _. False" bp_header_default
  for track
  by (rule supported_ops) (auto simp: bp_supported_def)

context bp_ops
begin

lemma tree_join:
  assumes "is_sort_by_key srt" "cs \<noteq> []" "\<forall>c \<in> set cs. cinv c" "keys_left crest cs < fuel"
  shows "leapfrog_join (bp_cursor_ops B) srt fuel visit cs s = Inr (fold visit (sorted_list_of_set (common crest cs)) s)"
  using assms by (rule cur.join_ok)

end

section \<open>Sessions\<close>

definition bp_start :: "bp_cfg \<Rightarrow> bp_tree \<Rightarrow> bool" where
  "bp_start B t \<longleftrightarrow> (\<exists>counter. bp_new B counter = Inr t \<or>
    (\<exists>ks. sorted_wrt (<) ks \<and> (\<forall>k \<in> set ks. k \<le> bx_kmax B) \<and> bp_from_sorted B ks counter = Inr t))"

abbreviation bp_session :: "bp_cfg \<Rightarrow> bp_tree \<Rightarrow> (bp_token \<times> (bp_node list \<times> bp_header list)) list \<Rightarrow> nat list \<Rightarrow> nat set \<Rightarrow> bool" where
  "bp_session B \<equiv> session (bp_start B) (bp_upd B) (bp_mark B) (bp_restore B) (bp_contents B) (\<lambda>t. depth (bk_nodes t))"

lemma vectors_blank:
  assumes "bp_supported B"
  shows "bp_ops.blank (is_vals (bp_tagged B)) (is_flag (bp_tagged B)) ps_data is_bit_set (fst (bp_vectors counter))"
  unfolding bp_ops.blank_def [OF supported_ops [OF assms]]
  by (auto simp: bp_vectors_def veci_new_def vecp_new_def vec_with_store_def container_id_new_def vec_fresh_def Let_def
      is_vals_def is_new_def is_flag_def ps_new_def is_bit_set_def)

lemma start_started:
  assumes "bp_supported B" "bp_start B t"
  shows "bp_ops.started B (is_vals (bp_tagged B)) (is_flag (bp_tagged B)) ps_data is_bit_set t"
  using assms vectors_blank [OF assms(1)] unfolding bp_ops.started_def [OF supported_ops [OF assms(1)]] bp_start_def bp_new_def bp_from_sorted_def
  by blast

lemma bp_checkpointed:
  assumes s: "bp_supported B"
  shows "\<exists>rel good. checkpointed (bp_start B) (bp_upd B) (bp_mark B) (bp_restore B) (bp_contents B)
      (\<lambda>t. branch_id (bk_nodes t)) (\<lambda>t. depth (bk_nodes t)) (\<lambda>c. v_forks (bt_nodes c)) rel good \<and>
    (\<forall>t snaps. rel t snaps \<longrightarrow> bp_ops.brels B (is_vals (bp_tagged B)) (is_flag (bp_tagged B)) ps_data is_bit_set t \<and>
      bp_arena B (bp_contents B t)) \<and>
    (\<forall>t snaps sh. rel t snaps \<longrightarrow> vc_track (bx_nodes B) \<longrightarrow> vc_track (bx_meta B) \<longrightarrow> length snaps < 2 ^ 32 \<longrightarrow>
      (\<exists>k t'. bp_mark B sh t = Inr (k, t')))"
proof -
  note o = supported_ops [OF s]
  note ck = bp_ops.tree_checkpointed [OF o, of "bp_start B", OF start_started [OF s]]
  show ?thesis
    unfolding bp_contents_def [abs_def]
    by (rule exI, rule exI, intro conjI, rule ck) (auto dest: bp_ops.crel_brels [OF o] intro: bp_ops.mark_arena [OF o])
qed

lemma session_arena:
  assumes "bp_supported B" "bp_session B t issued st co"
  shows "bp_ops.brels B (is_vals (bp_tagged B)) (is_flag (bp_tagged B)) ps_data is_bit_set t" "bp_arena B (bp_contents B t)"
  using bp_checkpointed [OF assms(1)] checkpointed.session_inv [OF _ assms(2)] by blast+

lemma session_mark:
  assumes "bp_supported B" "bp_session B t issued st co" "vc_track (bx_nodes B)" "vc_track (bx_meta B)" "length st < 2 ^ 32"
  shows "\<exists>k t'. bp_mark B sh t = Inr (k, t') \<and> bp_session B t' (issued @ [(k, bp_contents B t)]) (st @ [length issued]) co \<and>
    v_forks (bt_nodes t') = v_forks (bt_nodes t) \<and> bp_contents B t' = bp_contents B t"
proof -
  obtain rel good where c: "checkpointed (bp_start B) (bp_upd B) (bp_mark B) (bp_restore B) (bp_contents B)
      (\<lambda>t. branch_id (bk_nodes t)) (\<lambda>t. depth (bk_nodes t)) (\<lambda>c. v_forks (bt_nodes c)) rel good"
    and m: "\<And>t snaps sh. rel t snaps \<Longrightarrow> vc_track (bx_nodes B) \<Longrightarrow> vc_track (bx_meta B) \<Longrightarrow> length snaps < 2 ^ 32 \<Longrightarrow>
      \<exists>k t'. bp_mark B sh t = Inr (k, t')"
    using bp_checkpointed [OF assms(1)] by blast
  let ?snaps = "map (\<lambda>k. snd (issued ! k)) st"
  have r: "rel t ?snaps" using checkpointed.session_inv [OF c assms(2)] by blast
  obtain k t' where k: "bp_mark B sh t = Inr (k, t')" using m [OF r assms(3,4), of sh] assms(5) by auto
  moreover have "bp_contents B t' = bp_contents B t"
    using k bp_ops.mark_conts [OF supported_ops [OF assms(1)]] by (simp add: bp_contents_def)
  ultimately show ?thesis using session.mark [OF assms(2) k] checkpointed.mk_rel [OF c r k] by blast
qed

lemma start_forks:
  assumes "bp_supported B" "bp_start B t"
  shows "v_forks (bt_nodes t) = fork_history_new"
proof -
  obtain rel good where c: "checkpointed (bp_start B) (bp_upd B) (bp_mark B) (bp_restore B) (bp_contents B)
      (\<lambda>t. branch_id (bk_nodes t)) (\<lambda>t. depth (bk_nodes t)) (\<lambda>c. v_forks (bt_nodes c)) rel good"
    using bp_checkpointed [OF assms(1)] by blast
  show ?thesis using checkpointed.fresh_rel [OF c assms(2)] by simp
qed

lemma upd_forks:
  assumes "bp_supported B" "bp_session B t issued st co" "bp_upd B t t'"
  shows "v_forks (bt_nodes t') = v_forks (bt_nodes t)"
proof -
  obtain rel good where c: "checkpointed (bp_start B) (bp_upd B) (bp_mark B) (bp_restore B) (bp_contents B)
      (\<lambda>t. branch_id (bk_nodes t)) (\<lambda>t. depth (bk_nodes t)) (\<lambda>c. v_forks (bt_nodes c)) rel good"
    using bp_checkpointed [OF assms(1)] by blast
  show ?thesis using checkpointed.upd_rel [OF c conjunct1 [OF checkpointed.session_inv [OF c assms(2)]] assms(3)] by simp
qed

lemmas arena_facts = bp_contents_def bp_elements_def

lemma session_insert:
  assumes "bp_supported B" "bp_session B t issued st co" "w \<le> bx_kmax B"
  shows "\<exists>t'. bp_insert B w t = Inr (w \<notin> bp_elements B t, t') \<and> bp_elements B t' = insert w (bp_elements B t)"
  using bp_ops.insert_arena [OF supported_ops [OF assms(1)] session_arena [OF assms(1,2), unfolded bp_contents_def] assms(3)]
  by (auto simp: arena_facts)

lemma session_len:
  assumes "bp_supported B" "bp_session B t issued st co"
  shows "bp_len B t = Inr (card (bp_elements B t))"
  using bp_ops.len_arena [OF supported_ops [OF assms(1)] session_arena [OF assms, unfolded bp_contents_def]] by (simp add: arena_facts)

lemma from_sorted_session:
  assumes "bp_supported B" "sorted_wrt (<) ks" "\<forall>k \<in> set ks. k \<le> bx_kmax B"
  shows "\<exists>t. bp_from_sorted B ks counter = Inr t \<and> bp_elements B t = set ks \<and> bp_session B t [] [] {}"
proof -
  obtain t where t: "bp_from_sorted B ks counter = Inr t" "bp_elements B t = set ks"
    using bp_ops.build_arena [OF supported_ops [OF assms(1)] vectors_blank [OF assms(1)] assms(2,3)] by (auto simp: arena_facts bp_from_sorted_def)
  have "bp_start B t" using t(1) assms(2,3) unfolding bp_start_def by blast
  then have "bp_session B t [] [] {}" by (rule session.fresh)
  then show ?thesis using t by blast
qed

text \<open>A tree of two keys.\<close>

definition bp_demo :: bp_cfg where
  "bp_demo = bp_cfg_of Layout64U32 BinarySearch True (2 ^ 31 - 1)"

lemma demo_supported: "bp_supported bp_demo"
  by (auto simp: bp_supported_def bp_demo_def)

lemma demo_facts [simp]:
  "bx_kmax bp_demo = 2 ^ 31 - 1" "bx_layout bp_demo = Layout64U32" "vc_track (bx_nodes bp_demo)" "vc_track (bx_meta bp_demo)"
  by (simp_all add: bp_demo_def bp_cfg_of_def veci_cfg_def vecp_cfg_def)

lemma demo_tree:
  obtains t where "bp_from_sorted bp_demo [1, 5] 0 = Inr t" "bp_elements bp_demo t = {1, 5}" "bp_session bp_demo t [] [] {}"
    "v_forks (bt_nodes t) = fork_history_new"
proof -
  have s: "sorted_wrt (<) [1, 5 :: nat]" "\<forall>k \<in> set [1, 5]. k \<le> bx_kmax bp_demo" by auto
  obtain t where t: "bp_from_sorted bp_demo [1, 5] 0 = Inr t" "bp_elements bp_demo t = {1, 5}" "bp_session bp_demo t [] [] {}"
    using from_sorted_session [OF demo_supported s] by auto
  moreover have "bp_start bp_demo t" using t(1) s unfolding bp_start_def by blast
  ultimately show ?thesis using that start_forks [OF demo_supported] by blast
qed

section \<open>Properties\<close>

text \<open>
  C13: in every state that construction, insertions, marks and restores reach, \<open>insert\<close> does not panic: it reports
  whether the key is new, adds exactly that key, and \<open>len\<close> is the number of keys.
\<close>

theorem bplus_insert:
  assumes "bp_supported B" and "bp_session B t issued st co" and "w \<le> bx_kmax B"
  shows "\<exists>t'. bp_insert B w t = Inr (w \<notin> bp_elements B t, t') \<and> bp_elements B t' = insert w (bp_elements B t) \<and>
    bp_len B t' = Inr (card (bp_elements B t'))"
proof -
  obtain t' where t': "bp_insert B w t = Inr (w \<notin> bp_elements B t, t')" "bp_elements B t' = insert w (bp_elements B t)"
    using session_insert [OF assms] by blast
  moreover have "bp_session B t' issued st co" using session.update [OF assms(2) bp_upd.insert [OF assms(3) t'(1)]] .
  ultimately show ?thesis using session_len [OF assms(1)] by blast
qed

theorem bplus_insert_witness:
  "\<exists>t t'. bp_from_sorted bp_demo [1, 5] 0 = Inr t \<and> bp_insert bp_demo 3 t = Inr (True, t') \<and> bp_elements bp_demo t' = {1, 3, 5} \<and>
    bp_len bp_demo t' = Inr 3"
proof -
  obtain t where t: "bp_from_sorted bp_demo [1, 5] 0 = Inr t" "bp_elements bp_demo t = {1, 5}" "bp_session bp_demo t [] [] {}"
    using demo_tree by blast
  have "3 \<le> bx_kmax bp_demo" by simp
  then show ?thesis using bplus_insert [OF demo_supported t(3), of 3] t by (auto simp: insert_commute)
qed

text \<open>
  bulk loading a strictly ascending sequence of keys does not panic and gives a set of exactly these keys.
\<close>

theorem bplus_from_sorted:
  assumes "bp_supported B" and "sorted_wrt (<) ks" and "\<forall>k \<in> set ks. k \<le> bx_kmax B"
  shows "\<exists>t. bp_from_sorted B ks counter = Inr t \<and> bp_elements B t = set ks \<and> bp_len B t = Inr (length ks)"
proof -
  obtain t where t: "bp_from_sorted B ks counter = Inr t" "bp_elements B t = set ks" "bp_session B t [] [] {}"
    using from_sorted_session [OF assms] by blast
  moreover have "card (set ks) = length ks" using assms(2) by (simp add: distinct_card strict_sorted_iff)
  ultimately show ?thesis using session_len [OF assms(1) t(3)] by simp
qed

theorem bplus_from_sorted_witness:
  "\<exists>t. bp_from_sorted bp_demo [0, 3, 9, 40] 7 = Inr t \<and> bp_elements bp_demo t = {0, 3, 9, 40} \<and> bp_len bp_demo t = Inr 4"
proof -
  have "length [0, 3, 9, 40 :: nat] = 4" "set [0, 3, 9, 40 :: nat] = {0, 3, 9, 40}" by simp_all
  moreover have "sorted_wrt (<) [0, 3, 9, 40 :: nat]" "\<forall>k \<in> set [0, 3, 9, 40]. k \<le> bx_kmax bp_demo" by simp_all
  ultimately show ?thesis using bplus_from_sorted [OF demo_supported, of "[0, 3, 9, 40]" 7] by metis
qed

text \<open>
  C16: in every reachable state the arena is one balanced tree with linked leaves and ascending keys; its height
  never exceeds the 24 slots of the path, and the arena stays below its capacity.
\<close>

theorem bplus_balanced:
  assumes "bp_supported B" and "bp_session B t issued st co"
  shows "\<exists>h T ht. snd (bp_contents B t) = [h] \<and> binv (bx_layout B) (bx_kmax B) (fst (bp_contents B t)) h T \<and> shaped ht T \<and>
    ht \<le> MAX_PATH \<and> length (fst (bp_contents B t)) \<le> bx_kmax B + MAX_PATH + 2"
  using bp_ops.shape_arena [OF supported_ops [OF assms(1)] session_arena [OF assms, unfolded bp_contents_def]] by (simp add: bp_contents_def)

theorem bplus_balanced_witness:
  "\<exists>t h T ht. bp_from_sorted bp_demo [1, 5] 0 = Inr t \<and> snd (bp_contents bp_demo t) = [h] \<and>
    binv Layout64U32 (2 ^ 31 - 1) (fst (bp_contents bp_demo t)) h T \<and> shaped ht T \<and> ht \<le> 24"
proof -
  obtain t where t: "bp_from_sorted bp_demo [1, 5] 0 = Inr t" "bp_session bp_demo t [] [] {}" using demo_tree by blast
  then show ?thesis using bplus_balanced [OF demo_supported t(2)] unfolding demo_facts MAX_PATH_def by blast
qed

text \<open>
  C15: wherever seeks and steps have left a cursor, \<open>seek\<close> moves it to the least key at or after the target, or to
  the end when there is none, whichever of its shortcuts it takes.
\<close>

theorem bplus_seek:
  assumes "bp_supported B" and "bp_session B t issued st co"
  shows "\<exists>c c'. bp_run B t ms (bp_cursor_of B) = Inr c \<and> bp_seek B t w c = Inr c' \<and>
    bp_key B t c' = Inr (head_opt (filter (\<lambda>x. w \<le> x) (sorted_list_of_set (bp_elements B t))))"
  using bp_ops.seek_arena [OF supported_ops [OF assms(1)] session_arena [OF assms, unfolded bp_contents_def]] by (simp add: arena_facts)

theorem bplus_seek_witness:
  "\<exists>t c c'. bp_from_sorted bp_demo [1, 5] 0 = Inr t \<and> bp_run bp_demo t [Seek 0, Step] (bp_cursor_of bp_demo) = Inr c \<and>
    bp_seek bp_demo t 2 c = Inr c' \<and> bp_key bp_demo t c' = Inr (Some 5)"
proof -
  obtain t where t: "bp_from_sorted bp_demo [1, 5] 0 = Inr t" "bp_elements bp_demo t = {1, 5}" "bp_session bp_demo t [] [] {}"
    using demo_tree by blast
  have "sorted_list_of_set {1, 5 :: nat} = [1, 5]" by (simp add: sorted_list_of_set_nonempty)
  then show ?thesis using bplus_seek [OF demo_supported t(3), of "[Seek 0, Step]" 2] t by auto
qed

text \<open>
  C14: the leapfrog join over cursors of B+ trees ends and visits exactly the keys that are in every tree, each once
  and in ascending order.
\<close>

theorem bplus_join:
  assumes "bp_supported B" and "is_sort_by_key srt" and "ts \<noteq> []"
    and "\<forall>t \<in> set ts. \<exists>issued st co. bp_session B t issued st co"
    and "sum_list (map (\<lambda>t. card (bp_elements B t)) ts) < fuel"
  shows "rbind (rmap (bp_open B) ts) (\<lambda>cs. leapfrog_join (bp_cursor_ops B) srt fuel visit cs s) =
    Inr (fold visit (sorted_list_of_set (\<Inter>t \<in> set ts. bp_elements B t)) s)"
proof -
  note o = supported_ops [OF assms(1)]
  let ?inv = "bp_ops.cinv B (is_vals (bp_tagged B)) (is_flag (bp_tagged B)) ps_data is_bit_set"
  let ?rest = "bp_ops.crest B (is_vals (bp_tagged B))"
  have fin: "finite (bp_elements B t)" for t by (simp add: bp_elements_def elems_def)
  have "\<exists>c. bp_open B t = Inr c \<and> ?inv c \<and> ?rest c = sorted_list_of_set (bp_elements B t)" if "t \<in> set ts" for t
    using bp_ops.open_arena [OF o] session_arena [OF assms(1)] assms(4) that unfolding arena_facts by fastforce
  then obtain cs where cs: "rmap (bp_open B) ts = Inr cs" "list_all2 (\<lambda>t c. ?inv c \<and> ?rest c = sorted_list_of_set (bp_elements B t)) ts cs"
    using rmap_all [of ts "bp_open B" "\<lambda>t c. ?inv c \<and> ?rest c = sorted_list_of_set (bp_elements B t)"] by blast
  have "list_all2 (\<lambda>n c. length (?rest c) \<le> n) (map (\<lambda>t. card (bp_elements B t)) ts) cs"
    using cs(2) by (auto simp: list_all2_map1 elim!: list_all2_mono)
  from keys_left_le [OF this] have left: "keys_left ?rest cs < fuel" using assms(5) by simp
  have "common ?rest cs = (\<Inter>t \<in> set ts. bp_elements B t)"
    using cs(2) fin by (induction rule: list_all2_induct) (auto simp: common_def)
  moreover have "\<forall>c \<in> set cs. ?inv c" using cs(2) by (induction rule: list_all2_induct) auto
  moreover have "cs \<noteq> []" using cs(2) assms(3) by auto
  ultimately show ?thesis
    using bp_ops.tree_join [OF o assms(2) _ _ left, where visit = visit and s = s] cs(1) by simp
qed

theorem bplus_join_witness:
  "\<exists>t t'. bp_from_sorted bp_demo [1, 5] 0 = Inr t \<and> bp_insert bp_demo 3 t = Inr (True, t') \<and>
    rbind (rmap (bp_open bp_demo) [t, t']) (\<lambda>cs. leapfrog_join (bp_cursor_ops bp_demo) sort_key 100 (\<lambda>x acc. acc @ [x]) cs []) = Inr [1, 5]"
proof -
  obtain t where t: "bp_from_sorted bp_demo [1, 5] 0 = Inr t" "bp_elements bp_demo t = {1, 5}" "bp_session bp_demo t [] [] {}"
    using demo_tree by blast
  have k: "3 \<le> bx_kmax bp_demo" by simp
  obtain t' where t': "bp_insert bp_demo 3 t = Inr (True, t')" "bp_elements bp_demo t' = {1, 3, 5}"
    using session_insert [OF demo_supported t(3) k] t(2) by (auto simp: insert_commute)
  have s: "bp_session bp_demo t' [] [] {}" using session.update [OF t(3) bp_upd.insert [OF k t'(1)]] .
  have "{1, 5} \<inter> {1, 3, 5 :: nat} = {1, 5}" by auto
  moreover have "sorted_list_of_set {1, 5 :: nat} = [1, 5]" by (simp add: sorted_list_of_set_nonempty)
  ultimately show ?thesis
    using bplus_join [OF demo_supported sort_key_sorts, of "[t, t']" 100 "\<lambda>x acc. acc @ [x]" "[]"] t t' s by auto
qed

text \<open>
  A live token of a B+ tree restores its arena and header at the mark, and an accepted token that was never
  restored before is live.
\<close>

theorem bplus_restore_exact:
  assumes "bp_supported B" and "bp_session B t issued st co" and "k < length issued" and "k \<notin> co"
    and "length st < 2 ^ 32" and "length (origins (v_forks (bt_nodes t))) + 1 < 2 ^ 32"
  shows "(\<exists>t'. bp_restore B (fst (issued ! k)) t = Inr t') = (k \<in> set st) \<and>
    (\<forall>t'. bp_restore B (fst (issued ! k)) t = Inr t' \<longrightarrow> bp_contents B t' = snd (issued ! k))"
proof -
  obtain rel good where c: "checkpointed (bp_start B) (bp_upd B) (bp_mark B) (bp_restore B) (bp_contents B)
      (\<lambda>t. branch_id (bk_nodes t)) (\<lambda>t. depth (bk_nodes t)) (\<lambda>c. v_forks (bt_nodes c)) rel good"
    using bp_checkpointed [OF assms(1)] by blast
  show ?thesis using checkpointed.live_token_restores [OF c assms(2) _ assms(5,6)] checkpointed.accepted_token_live [OF c assms(2-4)] by blast
qed

theorem bplus_restore_exact_witness:
  "\<exists>t k t1 t2 t3. bp_from_sorted bp_demo [1, 5] 0 = Inr t \<and> bp_mark bp_demo ((Never, 0, 0), (Never, 0, 0)) t = Inr (k, t1) \<and>
    bp_insert bp_demo 3 t1 = Inr (True, t2) \<and> bp_restore bp_demo k t2 = Inr t3 \<and> bp_elements bp_demo t3 = {1, 5}"
proof -
  obtain t where t: "bp_from_sorted bp_demo [1, 5] 0 = Inr t" "bp_elements bp_demo t = {1, 5}" "bp_session bp_demo t [] [] {}"
    "v_forks (bt_nodes t) = fork_history_new" using demo_tree by blast
  have tr: "vc_track (bx_nodes bp_demo)" "vc_track (bx_meta bp_demo)" "3 \<le> bx_kmax bp_demo"
    by simp_all
  obtain k t1 where k: "bp_mark bp_demo ((Never, 0, 0), (Never, 0, 0)) t = Inr (k, t1)" "bp_session bp_demo t1 [(k, bp_contents bp_demo t)] [0] {}"
    "v_forks (bt_nodes t1) = fork_history_new" "bp_contents bp_demo t1 = bp_contents bp_demo t"
    using session_mark [OF demo_supported t(3) tr(1,2), of "((Never, 0, 0), (Never, 0, 0))"] t(4) by auto
  have e1: "bp_elements bp_demo t1 = {1, 5}" using k(4) t(2) by (simp add: bp_elements_def)
  obtain t2 where t2: "bp_insert bp_demo 3 t1 = Inr (True, t2)"
    using session_insert [OF demo_supported k(2) tr(3)] e1 by auto
  have u: "bp_upd bp_demo t1 t2" using bp_upd.insert [OF tr(3) t2] .
  have s: "bp_session bp_demo t2 [(k, bp_contents bp_demo t)] [0] {}" using session.update [OF k(2) u] .
  have "v_forks (bt_nodes t2) = fork_history_new" using upd_forks [OF demo_supported k(2) u] k(3) by simp
  then have f: "length (origins (v_forks (bt_nodes t2))) + 1 < 2 ^ 32" by (simp add: fork_history_new_def)
  have "0 < length [(k, bp_contents bp_demo t)]" "0 \<notin> ({} :: nat set)" "length [0 :: nat] < 2 ^ 32" by simp_all
  from bplus_restore_exact [OF demo_supported s this f]
  obtain t3 where "bp_restore bp_demo k t2 = Inr t3" "bp_contents bp_demo t3 = bp_contents bp_demo t" by auto
  then have "bp_restore bp_demo k t2 = Inr t3 \<and> bp_elements bp_demo t3 = {1, 5}" using t(2) by (simp add: bp_elements_def)
  then show ?thesis using t(1) k(1) t2 by blast
qed

end
