(* ===== verification/Multiplicity.thy ===== *)
theory Multiplicity
  imports Prelude
begin

text \<open>
  Multiplicities of children of multiset nodes, \<open>egraph/src/multiplicity.rs\<close>: the trait \<open>MultiplicityLike\<close> and
  the three widths that \<open>define_multiplicity!\<close> generates.  A multiplicity is a number up to the greatest value
  of its width, \<open>mx\<close>; every operation is checked, so that nothing wraps.
\<close>

section \<open>The widths\<close>

definition mult16_max :: nat where "mult16_max = 2 ^ 16 - 1"
definition mult32_max :: nat where "mult32_max = 2 ^ 32 - 1"
definition mult64_max :: nat where "mult64_max = 2 ^ 64 - 1"

section \<open>The operations\<close>

datatype ordering = Less | Equal | Greater

definition cmp :: "'a::linorder \<Rightarrow> 'a \<Rightarrow> ordering" where
  "cmp x y = (if x < y then Less else if x = y then Equal else Greater)"

fun then_with :: "ordering \<Rightarrow> ordering \<Rightarrow> ordering" where
  "then_with Equal q = q"
| "then_with p q = p"

definition mult_to_u64 :: "nat \<Rightarrow> nat option" where
  "mult_to_u64 m = Some m"

definition mult_cmp_u64 :: "nat \<Rightarrow> nat \<Rightarrow> ordering" where
  "mult_cmp_u64 m n = cmp m n"

definition mult_try_from_u64 :: "nat \<Rightarrow> nat \<Rightarrow> nat option" where
  "mult_try_from_u64 mx n = (if n \<le> mx then Some n else None)"

definition mult_try_from_biguint :: "nat \<Rightarrow> nat \<Rightarrow> nat option" where
  "mult_try_from_biguint mx n = (if n < 2 ^ 64 then mult_try_from_u64 mx n else None)"

definition mult_checked_add :: "nat \<Rightarrow> nat \<Rightarrow> nat \<Rightarrow> nat option" where
  "mult_checked_add mx a b = (if a + b \<le> mx then Some (a + b) else None)"

definition mult_checked_mul :: "nat \<Rightarrow> nat \<Rightarrow> nat \<Rightarrow> nat option" where
  "mult_checked_mul mx a b = (if a * b \<le> mx then Some (a * b) else None)"

definition mult_checked_sub :: "nat \<Rightarrow> nat \<Rightarrow> nat option" where
  "mult_checked_sub a b = (if b \<le> a then Some (a - b) else None)"

definition mult_checked_div :: "nat \<Rightarrow> nat \<Rightarrow> nat option" where
  "mult_checked_div a b = (if b = 0 then None else Some (a div b))"

definition mult_checked_rem :: "nat \<Rightarrow> nat \<Rightarrow> nat option" where
  "mult_checked_rem a b = (if b = 0 then None else Some (a mod b))"

definition mult_saturating_sub :: "nat \<Rightarrow> nat \<Rightarrow> nat" where
  "mult_saturating_sub a b = (if a < b then 0 else a - b)"

text \<open>The remainder by an algebraic order panics for order zero, as \<open>%\<close> does.\<close>

definition mult_rem_order :: "nat \<Rightarrow> nat \<Rightarrow> nat res" where
  "mult_rem_order m n = (if n = 0 then Inl RemainderByZero else Inr (m mod n))"

text \<open>\<open>usize\<close> has 64 bits; a greater count saturates.\<close>

definition mult_to_usize :: "nat \<Rightarrow> nat" where
  "mult_to_usize m = (case mult_to_u64 m of None \<Rightarrow> 2 ^ 64 - 1 | Some v \<Rightarrow> if v < 2 ^ 64 then v else 2 ^ 64 - 1)"

section \<open>Laws\<close>

lemma cmp_simps [simp]:
  "cmp x y = Less \<longleftrightarrow> x < y" "cmp x y = Equal \<longleftrightarrow> x = y" "cmp x y = Greater \<longleftrightarrow> y < x"
  by (auto simp: cmp_def)

lemma cmp_eval [simp]: "x < y \<Longrightarrow> cmp x y = Less" "cmp x x = Equal" "y < x \<Longrightarrow> cmp x y = Greater"
  by simp_all

lemma then_with_eq [simp]:
  "then_with p q = Less \<longleftrightarrow> p = Less \<or> p = Equal \<and> q = Less"
  "then_with p q = Equal \<longleftrightarrow> p = Equal \<and> q = Equal"
  "then_with p q = Greater \<longleftrightarrow> p = Greater \<or> p = Equal \<and> q = Greater"
  by (cases p; simp)+

lemma mult_saturating_sub [simp]: "mult_saturating_sub a b = a - b"
  by (simp add: mult_saturating_sub_def)

lemma mult_rem_order_pos [simp]: "0 < n \<Longrightarrow> mult_rem_order m n = Inr (m mod n)"
  by (simp add: mult_rem_order_def)

lemma checked_add_eq: "mult_checked_add mx a b = Some c \<longleftrightarrow> a + b \<le> mx \<and> c = a + b"
  by (auto simp: mult_checked_add_def)

text \<open>Reading back what a width accepted gives the number; what it rejects does not fit.\<close>

lemma mult_narrow_roundtrip:
  "mult_try_from_u64 mx n = Some m \<Longrightarrow> mult_to_u64 m = Some n"
  "mult_try_from_u64 mx n = None \<longleftrightarrow> mx < n"
  by (auto simp: mult_try_from_u64_def mult_to_u64_def split: if_splits)

end
