(* ===== verification/Monomial.thy ===== *)
theory Monomial
  imports Multiplicity "HOL-Library.Multiset_Order"
begin

text \<open>
  Multiset algebra over canonical child slices, the first half of \<open>egraph/src/multiset.rs\<close>.  A slice of pairs of
  class and multiplicity is canonical when the classes ascend strictly and no multiplicity is zero.  \<open>bag\<close> is the
  multiset it stands for; the merge walks of the source are the operations of multisets on it, and
  \<open>monomial_cmp\<close> is the degree-lexicographic order, compared from the greatest class downwards.
\<close>

type_synonym 'g kids = "('g \<times> nat) list"

section \<open>The merge walks\<close>

text \<open>Each loop runs over two indices that only advance: the arguments are the slices from these indices on.\<close>

fun multiset_disjoint :: "'g::linorder kids \<Rightarrow> 'g kids \<Rightarrow> bool" where
  "multiset_disjoint ((x, m) # a) ((y, n) # b) =
    (case cmp x y of
      Less \<Rightarrow> multiset_disjoint a ((y, n) # b)
    | Greater \<Rightarrow> multiset_disjoint ((x, m) # a) b
    | Equal \<Rightarrow> False)"
| "multiset_disjoint _ _ = True"

fun multiset_subset :: "'g::linorder kids \<Rightarrow> 'g kids \<Rightarrow> bool" where
  "multiset_subset [] b = True"
| "multiset_subset ((x, m) # a) b = (case dropWhile (\<lambda>q. fst q < x) b of
      [] \<Rightarrow> False
    | (y, n) # b' \<Rightarrow> if y \<noteq> x \<or> n < m then False else multiset_subset a b')"

fun multiset_subtract_into :: "'g::linorder kids \<Rightarrow> 'g kids \<Rightarrow> 'g kids" where
  "multiset_subtract_into [] b = []"
| "multiset_subtract_into (p # a) [] = p # multiset_subtract_into a []"
| "multiset_subtract_into ((x, m) # a) ((y, n) # b) =
    (if y < x then multiset_subtract_into ((x, m) # a) b
     else if y = x then
       (if 0 < mult_saturating_sub m n then [(x, mult_saturating_sub m n)] else []) @ multiset_subtract_into a b
     else (x, m) # multiset_subtract_into a ((y, n) # b))"

text \<open>\<open>None\<close> is \<open>Err(MultOverflow)\<close>.\<close>

fun try_multiset_union_into :: "nat \<Rightarrow> 'g::linorder kids \<Rightarrow> 'g kids \<Rightarrow> 'g kids option" where
  "try_multiset_union_into mx ((x, m) # a) ((y, n) # b) =
    (case cmp x y of
      Less \<Rightarrow> map_option (Cons (x, m)) (try_multiset_union_into mx a ((y, n) # b))
    | Greater \<Rightarrow> map_option (Cons (y, n)) (try_multiset_union_into mx ((x, m) # a) b)
    | Equal \<Rightarrow> (case mult_checked_add mx m n of
          None \<Rightarrow> None
        | Some k \<Rightarrow> map_option (Cons (x, k)) (try_multiset_union_into mx a b)))"
| "try_multiset_union_into mx [] b = Some b"
| "try_multiset_union_into mx a [] = Some a"

definition multiset_union_into :: "nat \<Rightarrow> 'g::linorder kids \<Rightarrow> 'g kids \<Rightarrow> 'g kids res" where
  "multiset_union_into mx a b = expect MultiplicityOverflow (try_multiset_union_into mx a b)"

fun multiset_lcm_into :: "'g::linorder kids \<Rightarrow> 'g kids \<Rightarrow> 'g kids" where
  "multiset_lcm_into ((x, m) # a) ((y, n) # b) =
    (case cmp x y of
      Less \<Rightarrow> (x, m) # multiset_lcm_into a ((y, n) # b)
    | Greater \<Rightarrow> (y, n) # multiset_lcm_into ((x, m) # a) b
    | Equal \<Rightarrow> (x, max m n) # multiset_lcm_into a b)"
| "multiset_lcm_into [] b = b"
| "multiset_lcm_into a [] = a"

fun multiset_intersect_into :: "'g::linorder kids \<Rightarrow> 'g kids \<Rightarrow> 'g kids" where
  "multiset_intersect_into ((x, m) # a) ((y, n) # b) =
    (case cmp x y of
      Less \<Rightarrow> multiset_intersect_into a ((y, n) # b)
    | Greater \<Rightarrow> multiset_intersect_into ((x, m) # a) b
    | Equal \<Rightarrow> (x, min m n) # multiset_intersect_into a b)"
| "multiset_intersect_into _ _ = []"

section \<open>Size and order\<close>

text \<open>
  \<open>small_size\<close> sums in \<open>u128\<close>, which fewer than \<open>2 ^ 64\<close> counts of 64 bits cannot exceed; past that, and when
  a count has no \<open>u64\<close> value, the sum is a \<open>BigUint\<close>.
\<close>

definition small_size :: "'g kids \<Rightarrow> nat option" where
  "small_size ms = fold (\<lambda>(_, m) acc. case acc of None \<Rightarrow> None
     | Some s \<Rightarrow> map_option (\<lambda>v. s + v) (mult_to_u64 m)) ms (Some 0)"

definition multiset_size :: "'g kids \<Rightarrow> nat" where
  "multiset_size ms = (case small_size ms of Some n \<Rightarrow> n | None \<Rightarrow> sum_list (map snd ms))"

definition monomial_size_cmp :: "'g kids \<Rightarrow> 'g kids \<Rightarrow> ordering" where
  "monomial_size_cmp a b = (case (small_size a, small_size b) of
      (Some x, Some y) \<Rightarrow> cmp x y
    | _ \<Rightarrow> cmp (multiset_size a) (multiset_size b))"

text \<open>\<open>Iterator::cmp\<close> on pairs: lexicographic, a proper prefix is less.\<close>

fun iter_cmp :: "('g::linorder \<times> nat) list \<Rightarrow> ('g \<times> nat) list \<Rightarrow> ordering" where
  "iter_cmp [] [] = Equal"
| "iter_cmp [] (q # b) = Less"
| "iter_cmp (p # a) [] = Greater"
| "iter_cmp ((x, m) # a) ((y, n) # b) = then_with (then_with (cmp x y) (cmp m n)) (iter_cmp a b)"

definition monomial_cmp :: "'g::linorder kids \<Rightarrow> 'g kids \<Rightarrow> ordering" where
  "monomial_cmp a b = then_with (monomial_size_cmp a b) (iter_cmp (rev a) (rev b))"

section \<open>The multiset of a slice\<close>

definition bag :: "'g kids \<Rightarrow> 'g multiset" where
  "bag ms = sum_list (map (\<lambda>(g, m). replicate_mset m g) ms)"

definition classes :: "'g kids \<Rightarrow> 'g set" where
  "classes ms = fst ` set ms"

definition canonical :: "'g::linorder kids \<Rightarrow> bool" where
  "canonical ms \<longleftrightarrow> sorted_wrt (<) (map fst ms) \<and> (\<forall>m \<in> snd ` set ms. 0 < m)"

lemma bag_simps [simp]:
  "bag [] = {#}" "bag ((g, m) # ms) = replicate_mset m g + bag ms" "bag (a @ b) = bag a + bag b"
  by (simp_all add: bag_def)

lemma classes_simps [simp]:
  "classes [] = {}" "classes ((g, m) # ms) = insert g (classes ms)" "classes (a @ b) = classes a \<union> classes b"
  by (auto simp: classes_def)

lemma finite_classes [simp]: "finite (classes ms)"
  by (simp add: classes_def)

lemma classesI: "(g, m) \<in> set ms \<Longrightarrow> g \<in> classes ms"
  by (force simp: classes_def)

lemma canonical_Nil [simp]: "canonical []"
  by (simp add: canonical_def)

lemma canonical_Cons [simp]:
  "canonical ((g, m) # ms) \<longleftrightarrow> 0 < m \<and> (\<forall>h \<in> classes ms. g < h) \<and> canonical ms"
  by (auto simp: canonical_def classes_def)

lemma set_bag [simp]: "canonical ms \<Longrightarrow> set_mset (bag ms) = classes ms"
  by (induction ms) auto

lemma count_bag_absent [simp]: "g \<notin> classes ms \<Longrightarrow> count (bag ms) g = 0"
  by (induction ms) auto

lemma above_absent: "\<forall>h \<in> classes ms. g < h \<Longrightarrow> f \<le> g \<Longrightarrow> f \<notin> classes ms" for g :: "'g::linorder"
  by (meson not_le)

lemma bag_inject:
  "canonical a \<Longrightarrow> canonical b \<Longrightarrow> bag a = bag b \<Longrightarrow> a = b"
proof (induction a arbitrary: b)
  case Nil
  then show ?case by (cases b) auto
next
  case (Cons p a)
  obtain x m where p: "p = (x, m)" by (cases p)
  from Cons.prems p obtain q b' where b: "b = q # b'" by (cases b) auto
  obtain y n where q: "q = (y, n)" by (cases q)
  have c: "count (bag ((x, m) # a)) g = count (bag ((y, n) # b')) g" for g
    using Cons.prems b p q by simp
  have "classes ((x, m) # a) = classes ((y, n) # b')"
    using Cons.prems b p q set_bag by metis
  then have "x \<in> insert y (classes b')" "y \<in> insert x (classes a)" by auto
  moreover have "\<forall>h \<in> classes a. x < h" "\<forall>h \<in> classes b'. y < h" using Cons.prems b p q by simp_all
  ultimately have "x = y" by (metis insert_iff less_asym)
  moreover have "m = n" using c [of x] Cons.prems b p q \<open>x = y\<close> by (auto simp: above_absent)
  ultimately show ?case using Cons p b q by auto
qed

lemma count_bag_mem: "canonical ms \<Longrightarrow> (g, m) \<in> set ms \<Longrightarrow> count (bag ms) g = m"
proof (induction ms)
  case (Cons p ms)
  then show ?case by (cases p) (auto simp: above_absent dest: classesI)
qed simp

section \<open>The walks are the operations of multisets\<close>

lemma multiset_disjoint_bag:
  "canonical a \<Longrightarrow> canonical b \<Longrightarrow> multiset_disjoint a b \<longleftrightarrow> set_mset (bag a) \<inter> set_mset (bag b) = {}"
  by (induction a b rule: multiset_disjoint.induct) (auto split: ordering.splits)

lemma multiset_subtract_classes: "classes (multiset_subtract_into a b) \<subseteq> classes a"
proof (induction a b rule: multiset_subtract_into.induct)
  case (2 p a)
  then show ?case by (cases p) auto
next
  case (3 x m a y n b)
  then show ?case by auto
qed simp

lemma multiset_subtract_canonical: "canonical a \<Longrightarrow> canonical (multiset_subtract_into a b)"
proof (induction a b rule: multiset_subtract_into.induct)
  case (2 p a)
  then show ?case using multiset_subtract_classes [of a "[]"] by (cases p) auto
next
  case (3 x m a y n b)
  then show ?case
    using multiset_subtract_classes [of a b] multiset_subtract_classes [of a "(y, n) # b"]
    by auto
qed simp

lemma multiset_subtract_bag:
  "canonical a \<Longrightarrow> canonical b \<Longrightarrow> bag (multiset_subtract_into a b) = bag a - bag b"
proof (induction a b rule: multiset_subtract_into.induct)
  case (2 p a)
  then show ?case by (cases p) auto
next
  case (3 x m a y n b)
  have up: "\<forall>h \<in> classes a. x < h" "\<forall>h \<in> classes b. y < h" "canonical a" "canonical b" using "3.prems" by simp_all
  consider "y < x" | "y = x" | "x < y" using less_linear by blast
  then show ?case
  proof cases
    case 1
    then have "y \<notin> classes ((x, m) # a)" using above_absent [OF up(1), of y] by auto
    then have "count (bag ((x, m) # a)) y = 0" by (rule count_bag_absent)
    then show ?thesis using "3.IH"(1) 1 "3.prems" by (simp add: multiset_eq_iff)
  next
    case 2
    then show ?thesis using "3.IH"(2) "3.prems" up above_absent [OF up(1), of x] above_absent [OF up(2), of x]
      by (simp add: multiset_eq_iff)
  next
    case 3
    then have "x \<notin> classes ((y, n) # b)" using above_absent [OF up(2), of x] by auto
    then have "count (bag ((y, n) # b)) x = 0" by (rule count_bag_absent)
    then show ?thesis using "3.IH"(3) 3 "3.prems" by (simp add: multiset_eq_iff)
  qed
qed simp

lemma multiset_subset_bag:
  "canonical a \<Longrightarrow> canonical b \<Longrightarrow> multiset_subset a b \<longleftrightarrow> bag a \<subseteq># bag b"
proof (induction a b rule: multiset_subset.induct)
  case (2 x m a b)
  let ?d = "dropWhile (\<lambda>q. fst q < x) b"
  have split: "b = takeWhile (\<lambda>q. fst q < x) b @ ?d" by simp
  have low: "\<forall>h \<in> classes (takeWhile (\<lambda>q. fst q < x) b). h < x"
    by (auto simp: classes_def dest: set_takeWhileD)
  have cd: "canonical ?d" using "2.prems"(2) split
    by (metis (no_types, lifting) Un_iff canonical_def image_Un map_append set_append sorted_wrt_append)
  have cnt: "count (bag b) g = count (bag ?d) g" if "x \<le> g" for g
  proof -
    have "g \<notin> classes (takeWhile (\<lambda>q. fst q < x) b)" using low that by auto
    moreover have "count (bag b) g = count (bag (takeWhile (\<lambda>q. fst q < x) b)) g + count (bag ?d) g"
      by (metis bag_simps(3) count_union takeWhile_dropWhile_id)
    ultimately show ?thesis by simp
  qed
  have above: "\<forall>h \<in> classes a. x < h" "0 < m" "canonical a" using "2.prems" by simp_all
  show ?case
  proof (cases ?d)
    case Nil
    then have "bag ?d = {#}" by (simp only: bag_simps)
    then have "count (bag b) x = 0" using cnt [of x] by simp
    then have "\<not> bag ((x, m) # a) \<subseteq># bag b" using above by (auto simp: subseteq_mset_def intro!: exI [of _ x])
    then show ?thesis by (simp only: multiset_subset.simps Nil list.case simp_thms)
  next
    case (Cons q b')
    obtain y n where q: "q = (y, n)" by (cases q)
    have xy: "x \<le> y" using Cons q hd_dropWhile [of "\<lambda>q. fst q < x" b] by auto
    have b': "\<forall>h \<in> classes b'. y < h" "canonical b'" using cd Cons q by simp_all
    have sub: "bag ((x, m) # a) \<subseteq># bag b \<longleftrightarrow> m \<le> count (bag ?d) x \<and> bag a \<subseteq># bag ?d"
    proof -
      have "count (bag a) g = 0" if "g \<le> x" for g using above_absent [OF above(1) that] by simp
      then show ?thesis using cnt unfolding subseteq_mset_def
        by (auto simp: all_conj_distrib split: if_splits) (metis le_cases le_zero_eq zero_le)+
    qed
    show ?thesis
    proof (cases "y = x")
      case True
      have "bag a \<subseteq># bag ?d \<longleftrightarrow> bag a \<subseteq># bag b'"
        unfolding subseteq_mset_def using Cons q True above_absent [OF above(1), of x]
        by (auto split: if_splits) (metis count_bag_absent zero_le)
      moreover have "count (bag ?d) x = n" using Cons q True above_absent [OF b'(1), of x] by simp
      ultimately show ?thesis using "2.IH" [of q b'] Cons q True sub above b' by auto
    next
      case False
      then have "count (bag ?d) x = 0" using xy Cons q above_absent [OF b'(1), of x] by simp
      then show ?thesis using Cons q False sub above by simp
    qed
  qed
qed simp

lemma try_multiset_union_Some:
  assumes "try_multiset_union_into mx a b = Some c"
  shows "classes c = classes a \<union> classes b" "bag c = bag a + bag b" "canonical a \<Longrightarrow> canonical b \<Longrightarrow> canonical c"
proof -
  have "classes c = classes a \<union> classes b \<and> bag c = bag a + bag b \<and> (canonical a \<longrightarrow> canonical b \<longrightarrow> canonical c)"
    using assms
  proof (induction mx a b arbitrary: c rule: try_multiset_union_into.induct)
    case (1 mx x m a y n b)
    show ?case
    proof (cases x y rule: linorder_cases)
      case less
      with "1.prems" obtain z where "try_multiset_union_into mx a ((y, n) # b) = Some z" "c = (x, m) # z" by auto
      with "1.IH"(1) [of z] less show ?thesis by auto
    next
      case equal
      with "1.prems" obtain z where "try_multiset_union_into mx a b = Some z" "c = (x, m + n) # z" "m + n \<le> mx"
        by (auto simp: checked_add_eq split: option.splits)
      with "1.IH"(2) [of "m + n" z] equal show ?thesis by (auto simp: mult_checked_add_def multiset_eq_iff)
    next
      case greater
      with "1.prems" obtain z where "try_multiset_union_into mx ((x, m) # a) b = Some z" "c = (y, n) # z" by auto
      with "1.IH"(3) [of z] greater show ?thesis by auto
    qed
  qed auto
  then show "classes c = classes a \<union> classes b" "bag c = bag a + bag b"
    "canonical a \<Longrightarrow> canonical b \<Longrightarrow> canonical c" by blast+
qed

lemma try_multiset_union_None:
  "canonical a \<Longrightarrow> canonical b \<Longrightarrow>
   try_multiset_union_into mx a b = None \<longleftrightarrow> (\<exists>g \<in> classes a \<inter> classes b. mx < count (bag a + bag b) g)"
proof (induction mx a b rule: try_multiset_union_into.induct)
  case (1 mx x m a y n b)
  have up: "\<forall>h \<in> classes a. x < h" "\<forall>h \<in> classes b. y < h" "canonical a" "canonical b" using "1.prems" by simp_all
  have ne: "g \<noteq> x" if "g \<in> classes a" for g using up(1) that by auto
  have ne': "g \<noteq> y" if "g \<in> classes b" for g using up(2) that by auto
  show ?case
  proof (cases x y rule: linorder_cases)
    case less
    then have "x \<notin> classes ((y, n) # b)" using above_absent [OF up(2), of x] by auto
    then show ?thesis using "1.IH"(1) less "1.prems" ne by (auto split: if_splits)
  next
    case greater
    then have "y \<notin> classes ((x, m) # a)" using above_absent [OF up(1), of y] by auto
    then show ?thesis using "1.IH"(3) greater "1.prems" ne' by (auto split: if_splits)
  next
    case equal
    then show ?thesis using "1.IH"(2) equal up ne ne' above_absent [OF up(1), of x] above_absent [OF up(2), of x]
      by (auto simp: mult_checked_add_def split: if_splits)
  qed
qed auto

lemma multiset_lcm_classes: "classes (multiset_lcm_into a b) = classes a \<union> classes b"
  by (induction a b rule: multiset_lcm_into.induct) (auto split: ordering.splits)

lemma multiset_lcm_canonical: "canonical a \<Longrightarrow> canonical b \<Longrightarrow> canonical (multiset_lcm_into a b)"
  by (induction a b rule: multiset_lcm_into.induct)
    (auto split: ordering.splits simp: multiset_lcm_classes)

lemma multiset_lcm_bag:
  "canonical a \<Longrightarrow> canonical b \<Longrightarrow> bag (multiset_lcm_into a b) = bag a \<union># bag b"
proof (induction a b rule: multiset_lcm_into.induct)
  case (1 x m a y n b)
  have up: "\<forall>h \<in> classes a. x < h" "\<forall>h \<in> classes b. y < h" "canonical a" "canonical b" using "1.prems" by simp_all
  show ?case
  proof (cases x y rule: linorder_cases)
    case less
    then have "x \<notin> classes ((y, n) # b)" using above_absent [OF up(2), of x] by auto
    then show ?thesis using "1.IH"(1) less "1.prems" above_absent [OF up(1), of x] by (auto simp: multiset_eq_iff)
  next
    case greater
    then have "y \<notin> classes ((x, m) # a)" using above_absent [OF up(1), of y] by auto
    then show ?thesis using "1.IH"(3) greater "1.prems" above_absent [OF up(2), of y] by (auto simp: multiset_eq_iff)
  next
    case equal
    then show ?thesis using "1.IH"(2) equal up above_absent [OF up(1), of x] above_absent [OF up(2), of x]
      by (auto simp: multiset_eq_iff)
  qed
qed auto

lemma multiset_intersect_classes: "classes (multiset_intersect_into a b) \<subseteq> classes a \<inter> classes b"
  by (induction a b rule: multiset_intersect_into.induct) (auto split: ordering.splits)

lemma multiset_intersect_canonical: "canonical a \<Longrightarrow> canonical b \<Longrightarrow> canonical (multiset_intersect_into a b)"
  by (induction a b rule: multiset_intersect_into.induct)
    (use multiset_intersect_classes in \<open>force split: ordering.splits\<close>)+

lemma multiset_intersect_bag:
  "canonical a \<Longrightarrow> canonical b \<Longrightarrow> bag (multiset_intersect_into a b) = bag a \<inter># bag b"
proof (induction a b rule: multiset_intersect_into.induct)
  case (1 x m a y n b)
  have up: "\<forall>h \<in> classes a. x < h" "\<forall>h \<in> classes b. y < h" "canonical a" "canonical b" using "1.prems" by simp_all
  show ?case
  proof (cases x y rule: linorder_cases)
    case less
    then have "x \<notin> classes ((y, n) # b)" using above_absent [OF up(2), of x] by auto
    then show ?thesis using "1.IH"(1) less "1.prems" by (auto simp: multiset_eq_iff)
  next
    case greater
    then have "y \<notin> classes ((x, m) # a)" using above_absent [OF up(1), of y] by auto
    then show ?thesis using "1.IH"(3) greater "1.prems" by (auto simp: multiset_eq_iff)
  next
    case equal
    then show ?thesis using "1.IH"(2) equal up above_absent [OF up(1), of x] above_absent [OF up(2), of x]
      by (auto simp: multiset_eq_iff)
  qed
qed auto

section \<open>The order is the degree-lexicographic order of multisets\<close>

lemma small_size_eq: "small_size ms = Some (sum_list (map snd ms))"
proof -
  have "fold (\<lambda>(_, m) acc. case acc of None \<Rightarrow> None | Some s \<Rightarrow> map_option (\<lambda>v. s + v) (mult_to_u64 m)) ms (Some k) =
      Some (k + sum_list (map snd ms))" for k
    by (induction ms arbitrary: k) (auto simp: mult_to_u64_def)
  from this [of 0] show ?thesis by (simp add: small_size_def)
qed

lemma size_bag: "size (bag ms) = sum_list (map snd ms)"
  by (induction ms) auto

lemma multiset_size_bag: "multiset_size ms = size (bag ms)"
  by (simp add: multiset_size_def small_size_eq size_bag)

lemma monomial_size_cmp_bag: "monomial_size_cmp a b = cmp (size (bag a)) (size (bag b))"
  by (simp add: monomial_size_cmp_def small_size_eq size_bag)

definition descending :: "'g::linorder kids \<Rightarrow> bool" where
  "descending ms \<longleftrightarrow> canonical (rev ms)"

lemma bag_rev [simp]: "bag (rev ms) = bag ms"
  by (induction ms) (auto simp: add.commute)

lemma canonical_snoc:
  "canonical (ms @ [(g, m)]) \<longleftrightarrow> 0 < m \<and> (\<forall>h \<in> classes ms. h < g) \<and> canonical ms"
  by (auto simp: canonical_def classes_def sorted_wrt_append)

lemma descending_simps [simp]:
  "descending []" "descending ((g, m) # ms) \<longleftrightarrow> 0 < m \<and> (\<forall>h \<in> set_mset (bag ms). h < g) \<and> descending ms"
  using set_bag [of "rev ms"] by (auto simp: descending_def canonical_snoc simp del: set_bag)

lemma lex_greater_class:
  assumes "\<forall>h \<in># A. h < x" "x < y" "0 < n"
  shows "replicate_mset m x + A < replicate_mset n y + B"
  using assms by (intro ex_gt_imp_less_multiset exI [of _ y]) (auto split: if_splits dest: order.strict_trans)

lemma lex_more_copies:
  fixes x :: "'g::linorder"
  assumes "\<forall>h \<in># A. h < x" "m < n"
  shows "replicate_mset m x + A < replicate_mset n x + B"
proof -
  have "replicate_mset n x = replicate_mset m x + replicate_mset (n - m) x"
    using assms(2) by (simp add: multiset_eq_iff)
  moreover have "A < replicate_mset (n - m) x + B"
    using assms by (intro ex_gt_imp_less_multiset exI [of _ x]) auto
  ultimately show ?thesis by (simp add: add.assoc)
qed

lemma iter_cmp_bag: "descending a \<Longrightarrow> descending b \<Longrightarrow> iter_cmp a b = cmp (bag a) (bag b)"
proof (induction a b rule: iter_cmp.induct)
  case (2 q b)
  then show ?case by (cases q) simp
next
  case (3 p a)
  then show ?case by (cases p) simp
next
  case (4 x m a y n b)
  have low: "\<forall>h \<in># bag a. h < x" "\<forall>h \<in># bag b. h < y" "0 < m" "0 < n" using "4.prems" by simp_all
  show ?case
  proof (cases x y rule: linorder_cases)
    case less
    then show ?thesis using lex_greater_class [OF low(1) less low(4), of m "bag b"] by simp
  next
    case greater
    then show ?thesis using lex_greater_class [OF low(2) greater low(3), of n "bag a"] by simp
  next
    case equal
    then show ?thesis using low 4 lex_more_copies [OF low(1), of m n "bag b"] lex_more_copies [OF low(2), of n m "bag a"]
      by (cases m n rule: linorder_cases) (auto simp: cmp_def)
  qed
qed (simp add: cmp_def)

lemma monomial_cmp_bag:
  assumes "canonical a" "canonical b"
  shows "monomial_cmp a b = then_with (cmp (size (bag a)) (size (bag b))) (cmp (bag a) (bag b))"
  using assms iter_cmp_bag [of "rev a" "rev b"]
  by (simp add: monomial_cmp_def monomial_size_cmp_bag descending_def)

definition deg_less :: "'g::linorder multiset \<Rightarrow> 'g multiset \<Rightarrow> bool" where
  "deg_less A B \<longleftrightarrow> size A < size B \<or> size A = size B \<and> A < B"

lemma monomial_cmp_deg_less:
  "canonical a \<Longrightarrow> canonical b \<Longrightarrow> monomial_cmp a b = Less \<longleftrightarrow> deg_less (bag a) (bag b)"
  "canonical a \<Longrightarrow> canonical b \<Longrightarrow> monomial_cmp a b = Greater \<longleftrightarrow> deg_less (bag b) (bag a)"
  by (auto simp: monomial_cmp_bag deg_less_def)

lemma deg_less_add [simp]: "deg_less (A + C) (B + C) \<longleftrightarrow> deg_less A B"
  by (simp add: deg_less_def)

lemma deg_less_subset: "A \<subset># B \<Longrightarrow> deg_less A B"
  by (simp add: deg_less_def mset_subset_size)

lemma deg_less_trans: "deg_less A B \<Longrightarrow> deg_less B C \<Longrightarrow> deg_less A C"
  by (auto simp: deg_less_def)

lemma deg_less_subseteq: "A \<subseteq># B \<Longrightarrow> deg_less B C \<Longrightarrow> deg_less A C"
  by (metis deg_less_subset deg_less_trans subset_mset.le_neq_trans)

lemma wfp_deg_less: "wfp (deg_less :: 'g::wellorder multiset \<Rightarrow> 'g multiset \<Rightarrow> bool)"
proof -
  have "{(A, B). deg_less A B} \<subseteq>
      inv_image (less_than <*lex*> {(A, B). A < B}) (\<lambda>A :: 'g multiset. (size A, A))"
    by (auto simp: deg_less_def)
  then show ?thesis
    using wf_inv_image [OF wf_lex_prod [OF wf_less_than wf_less_multiset]] wf_subset
    unfolding wfp_def by blast
qed

text \<open>Replacing a part by a smaller one makes the whole smaller.\<close>

lemma deg_less_replace: "P \<subseteq># A \<Longrightarrow> deg_less Q P \<Longrightarrow> deg_less (A - P + Q) A"
  by (metis add.commute deg_less_add subset_mset.diff_add)

section \<open>The value of a monomial\<close>

text \<open>What the operator computes in an algebra: the sum over the classes, with their multiplicities.\<close>

definition mvalue :: "('g \<Rightarrow> 'a::comm_monoid_add) \<Rightarrow> 'g multiset \<Rightarrow> 'a" where
  "mvalue v A = sum_mset (image_mset v A)"

lemma mvalue_simps [simp]: "mvalue v {#} = 0" "mvalue v (A + B) = mvalue v A + mvalue v B"
  by (simp_all add: mvalue_def)

lemma mvalue_replace: "P \<subseteq># A \<Longrightarrow> mvalue v P = mvalue v Q \<Longrightarrow> mvalue v (A - P + Q) = mvalue v A"
  by (metis mvalue_simps(2) subset_mset.diff_add)

end
