(* ===== verification/Nf_Rules.thy ===== *)
theory Nf_Rules
  imports Monomial
begin

text \<open>
  Rewriting of monomials by ground rules, the second half of \<open>egraph/src/multiset.rs\<close>: rules, the index over
  their left sides, the search for an applicable rule and the three normalizers (multisets, sets, and counts
  modulo an order).  With rules oriented by \<open>monomial_cmp\<close> every normalizer ends with an irreducible monomial
  that is equal to the given one in every algebra in which the rules hold; the index never changes a result.
\<close>

section \<open>Operations of \<open>std\<close>\<close>

fun position_res :: "('a \<Rightarrow> bool res) \<Rightarrow> 'a list \<Rightarrow> nat option res" where
  "position_res p [] = Inr None"
| "position_res p (x # xs) = rbind (p x) (\<lambda>b.
    if b then Inr (Some 0) else rbind (position_res p xs) (\<lambda>r. Inr (map_option Suc r)))"

definition position :: "('a \<Rightarrow> bool) \<Rightarrow> 'a list \<Rightarrow> nat option" where
  "position p xs = (if \<exists>x \<in> set xs. p x then Some (length (takeWhile (\<lambda>x. \<not> p x) xs)) else None)"

text \<open>
  \<open>binary_search\<close> on a slice that is sorted by the key without duplicates: the position of the one match.
\<close>

definition binary_search_by_key :: "('a \<Rightarrow> 'k) \<Rightarrow> 'a list \<Rightarrow> 'k \<Rightarrow> nat option" where
  "binary_search_by_key f xs y = position (\<lambda>x. f x = y) xs"

definition range_res :: "'a list \<Rightarrow> nat \<Rightarrow> nat \<Rightarrow> 'a list res" where
  "range_res xs s e = (if s \<le> e \<and> e \<le> length xs then Inr (take (e - s) (drop s xs)) else Inl IndexOutOfBounds)"

section \<open>Rules and their index\<close>

record 'g nf_rule =
  nf_lhs :: "'g kids"
  nf_rhs :: "'g kids"

record 'g nf_index =
  ix_keys :: "'g list"
  ix_starts :: "nat list"
  ix_order :: "nat list"
  ix_n_rules :: nat

text \<open>The work meter is a shared cell: the operations return the rule set with the cell's new value.\<close>

record 'g nf_rules =
  nr_rules :: "'g nf_rule list"
  nr_index :: "'g nf_index option"
  nr_work :: "nat option"

definition nr_linear :: "'g nf_rule list \<Rightarrow> 'g nf_rules" where
  "nr_linear rs = \<lparr>nr_rules = rs, nr_index = None, nr_work = None\<rparr>"

definition nr_indexed :: "'g nf_rule list \<Rightarrow> 'g nf_index \<Rightarrow> 'g nf_rules" where
  "nr_indexed rs ix = \<lparr>nr_rules = rs, nr_index = Some ix, nr_work = None\<rparr>"

definition nr_with_work :: "nat \<Rightarrow> 'g nf_rules \<Rightarrow> 'g nf_rules" where
  "nr_with_work w R = R\<lparr>nr_work := Some w\<rparr>"

definition rule_applies_linear :: "'g::linorder nf_rule \<Rightarrow> 'g kids \<Rightarrow> bool" where
  "rule_applies_linear r out = (if nf_lhs r = [] then False else multiset_subset (nf_lhs r) out)"

text \<open>Sorting by key and then by position: sorting by position first, then stably by key.\<close>

definition ix_pairs :: "'g::linorder nf_rule list \<Rightarrow> ('g \<times> nat) list" where
  "ix_pairs rs = sort_key fst (sort_key snd
     (map (\<lambda>(i, r). (fst (hd (nf_lhs r)), i)) (filter (\<lambda>(i, r). nf_lhs r \<noteq> []) (enumerate 0 rs))))"

definition ix_step :: "'g \<times> nat \<Rightarrow> 'g nf_index \<Rightarrow> 'g nf_index" where
  "ix_step p ix = (
    let (k, i) = p;
        ix1 = (if ix_keys ix \<noteq> [] \<and> last (ix_keys ix) = k then ix
               else ix\<lparr>ix_keys := ix_keys ix @ [k], ix_starts := ix_starts ix @ [length (ix_order ix)]\<rparr>);
        order' = ix_order ix1 @ [i]
    in ix1\<lparr>ix_order := order', ix_starts := (ix_starts ix1)[length (ix_starts ix1) - 1 := length order']\<rparr>)"

definition nf_index_rebuild :: "'g::linorder nf_rule list \<Rightarrow> 'g nf_index res" where
  "nf_index_rebuild rs =
    rbind (rassert (length rs < 2 ^ 32) PositionWidth) (\<lambda>_.
      Inr (fold ix_step (ix_pairs rs)
        \<lparr>ix_keys = [], ix_starts = [0], ix_order = [], ix_n_rules = length rs\<rparr>))"

fun ix_gather :: "'g::linorder nf_index \<Rightarrow> 'g kids \<Rightarrow> nat list res" where
  "ix_gather ix [] = Inr []"
| "ix_gather ix (p # out) =
    rbind (case binary_search_by_key id (ix_keys ix) (fst p) of
        None \<Rightarrow> Inr []
      | Some k \<Rightarrow> rbind (nth_res (ix_starts ix) k) (\<lambda>s. rbind (nth_res (ix_starts ix) (k + 1)) (\<lambda>e.
          range_res (ix_order ix) s e))) (\<lambda>xs.
    rbind (ix_gather ix out) (\<lambda>ys. Inr (xs @ ys)))"

definition ix_candidates :: "'g::linorder nf_index \<Rightarrow> 'g kids \<Rightarrow> nat list res" where
  "ix_candidates ix out = rbind (ix_gather ix out) (\<lambda>xs. Inr (sort xs))"

definition charge :: "nat \<Rightarrow> 'g nf_rules \<Rightarrow> 'g nf_rules" where
  "charge tested R = R\<lparr>nr_work := map_option (\<lambda>w. min (w + tested) (2 ^ 64 - 1)) (nr_work R)\<rparr>"

definition find_applicable :: "'g::linorder kids \<Rightarrow> 'g nf_rules \<Rightarrow> ('g nf_rule option \<times> 'g nf_rules) res" where
  "find_applicable out R = (case nr_index R of
      None \<Rightarrow> (case position (\<lambda>r. rule_applies_linear r out) (nr_rules R) of
          Some i \<Rightarrow> rbind (nth_res (nr_rules R) i) (\<lambda>r. Inr (Some r, charge (i + 1) R))
        | None \<Rightarrow> Inr (None, charge (length (nr_rules R)) R))
    | Some ix \<Rightarrow> rbind (ix_candidates ix out) (\<lambda>cands.
        rbind (position_res (\<lambda>i. rbind (nth_res (nr_rules R) i) (\<lambda>r. Inr (multiset_subset (nf_lhs r) out))) cands) (\<lambda>pos.
        case pos of
          Some k \<Rightarrow> rbind (nth_res cands k) (\<lambda>i. rbind (nth_res (nr_rules R) i) (\<lambda>r. Inr (Some r, charge (k + 1) R)))
        | None \<Rightarrow> Inr (None, charge (length cands) R))))"

section \<open>The normalizers\<close>

definition times_contained :: "'g::linorder kids \<Rightarrow> 'g kids \<Rightarrow> nat" where
  "times_contained host part = (
    let q = fold (\<lambda>(g, k) q.
          let own = (case binary_search_by_key fst host g of None \<Rightarrow> 0 | Some i \<Rightarrow> snd (host ! i));
              t = (case mult_checked_div own k of None \<Rightarrow> 0 | Some t \<Rightarrow> t)
          in Some (case q of None \<Rightarrow> t | Some q \<Rightarrow> min q t)) part None
    in case q of Some n \<Rightarrow> if n \<noteq> 0 then n else 1 | None \<Rightarrow> 1)"

fun scaled :: "nat \<Rightarrow> nat \<Rightarrow> 'g kids \<Rightarrow> 'g kids option" where
  "scaled mx q [] = Some []"
| "scaled mx q ((g, k) # ms) = (case mult_checked_mul mx k q of
      None \<Rightarrow> None
    | Some m \<Rightarrow> map_option (Cons (g, m)) (scaled mx q ms))"

definition ms_rewrite :: "nat \<Rightarrow> 'g::linorder nf_rule \<Rightarrow> 'g kids \<Rightarrow> 'g kids option" where
  "ms_rewrite mx r out = (
    let q = times_contained out (nf_lhs r) in
    if q = 1 then try_multiset_union_into mx (multiset_subtract_into out (nf_lhs r)) (nf_rhs r)
    else (case scaled mx q (nf_lhs r) of
        None \<Rightarrow> None
      | Some l \<Rightarrow> (case scaled mx q (nf_rhs r) of
            None \<Rightarrow> None
          | Some s \<Rightarrow> try_multiset_union_into mx (multiset_subtract_into out l) s)))"

text \<open>
  The three loops: the second argument is what the guard leaves, \<open>max_rewrites - rewrites\<close>.  An answer \<open>None\<close> is
  \<open>Err(MultOverflow)\<close>.
\<close>

fun rewrite_loop :: "('g::linorder nf_rule \<Rightarrow> 'g kids \<Rightarrow> 'g kids option res) \<Rightarrow> nat \<Rightarrow> 'g kids \<Rightarrow> 'g nf_rules \<Rightarrow>
    ('g kids option \<times> 'g nf_rules) res" where
  "rewrite_loop f left out R = rbind (find_applicable out R) (\<lambda>(found, R1). case found of
      None \<Rightarrow> Inr (Some out, R1)
    | Some r \<Rightarrow> (case left of
        0 \<Rightarrow> Inl RewriteGuard
      | Suc left' \<Rightarrow> rbind (f r out) (\<lambda>step. case step of
          None \<Rightarrow> Inr (None, R1)
        | Some out1 \<Rightarrow> rewrite_loop f left' out1 R1)))"

declare rewrite_loop.simps [simp del]

definition GUARD_MAX_REWRITES :: nat where
  "GUARD_MAX_REWRITES = 1000000"

definition normalize_ms_into_with_limit ::
    "nat \<Rightarrow> 'g::linorder kids \<Rightarrow> 'g nf_rules \<Rightarrow> nat \<Rightarrow> ('g kids option \<times> 'g nf_rules) res" where
  "normalize_ms_into_with_limit mx ms R limit = rewrite_loop (\<lambda>r out. Inr (ms_rewrite mx r out)) limit ms R"

definition clamp_idempotent :: "'g kids \<Rightarrow> 'g kids" where
  "clamp_idempotent ms = map (\<lambda>(g, m). (g, 1)) ms"

definition plain_rewrite :: "nat \<Rightarrow> 'g::linorder nf_rule \<Rightarrow> 'g kids \<Rightarrow> 'g kids option" where
  "plain_rewrite mx r out = try_multiset_union_into mx (multiset_subtract_into out (nf_lhs r)) (nf_rhs r)"

definition normalize_set_into_with_limit ::
    "nat \<Rightarrow> 'g::linorder kids \<Rightarrow> 'g nf_rules \<Rightarrow> nat \<Rightarrow> ('g kids option \<times> 'g nf_rules) res" where
  "normalize_set_into_with_limit mx ms R limit =
    rewrite_loop (\<lambda>r out. Inr (map_option clamp_idempotent (plain_rewrite mx r out))) limit (clamp_idempotent ms) R"

fun rem_counts :: "nat \<Rightarrow> 'g kids \<Rightarrow> 'g kids res" where
  "rem_counts n [] = Inr []"
| "rem_counts n ((g, m) # ms) = rbind (mult_rem_order m n) (\<lambda>k. rbind (rem_counts n ms) (\<lambda>ks. Inr ((g, k) # ks)))"

definition clamp_nilpotent :: "nat \<Rightarrow> 'g kids \<Rightarrow> 'g kids res" where
  "clamp_nilpotent n ms = rbind (rem_counts n ms) (\<lambda>ks. Inr (filter (\<lambda>p. snd p \<noteq> 0) ks))"

definition nilpotent_rewrite :: "nat \<Rightarrow> nat \<Rightarrow> 'g::linorder nf_rule \<Rightarrow> 'g kids \<Rightarrow> 'g kids option res" where
  "nilpotent_rewrite mx n r out = (case plain_rewrite mx r out of
      None \<Rightarrow> Inr None
    | Some out1 \<Rightarrow> rbind (clamp_nilpotent n out1) (\<lambda>out2. Inr (Some out2)))"

definition normalize_nilpotent_into_with_limit ::
    "nat \<Rightarrow> 'g::linorder kids \<Rightarrow> 'g nf_rules \<Rightarrow> nat \<Rightarrow> nat \<Rightarrow> ('g kids option \<times> 'g nf_rules) res" where
  "normalize_nilpotent_into_with_limit mx ms R n limit =
    rbind (clamp_nilpotent n ms) (\<lambda>out. rewrite_loop (nilpotent_rewrite mx n) limit out R)"

text \<open>The forms with the fixed guard, fallible and panicking, and those that take owned rules.\<close>

definition try_normalize_ms_into :: "nat \<Rightarrow> 'g::linorder kids \<Rightarrow> 'g nf_rules \<Rightarrow> ('g kids option \<times> 'g nf_rules) res" where
  "try_normalize_ms_into mx ms R = normalize_ms_into_with_limit mx ms R GUARD_MAX_REWRITES"

definition try_normalize_set_into :: "nat \<Rightarrow> 'g::linorder kids \<Rightarrow> 'g nf_rules \<Rightarrow> ('g kids option \<times> 'g nf_rules) res" where
  "try_normalize_set_into mx ms R = normalize_set_into_with_limit mx ms R GUARD_MAX_REWRITES"

definition try_normalize_nilpotent_into ::
    "nat \<Rightarrow> 'g::linorder kids \<Rightarrow> 'g nf_rules \<Rightarrow> nat \<Rightarrow> ('g kids option \<times> 'g nf_rules) res" where
  "try_normalize_nilpotent_into mx ms R n = normalize_nilpotent_into_with_limit mx ms R n GUARD_MAX_REWRITES"

definition expect_fits :: "('g kids option \<times> 'g nf_rules) res \<Rightarrow> ('g kids \<times> 'g nf_rules) res" where
  "expect_fits m = rbind m (\<lambda>(out, R). rbind (expect MultiplicityOverflow out) (\<lambda>ms. Inr (ms, R)))"

definition normalize_ms_into :: "nat \<Rightarrow> 'g::linorder kids \<Rightarrow> 'g nf_rules \<Rightarrow> ('g kids \<times> 'g nf_rules) res" where
  "normalize_ms_into mx ms R = expect_fits (try_normalize_ms_into mx ms R)"

definition normalize_set_into :: "nat \<Rightarrow> 'g::linorder kids \<Rightarrow> 'g nf_rules \<Rightarrow> ('g kids \<times> 'g nf_rules) res" where
  "normalize_set_into mx ms R = expect_fits (try_normalize_set_into mx ms R)"

definition normalize_nilpotent_into ::
    "nat \<Rightarrow> 'g::linorder kids \<Rightarrow> 'g nf_rules \<Rightarrow> nat \<Rightarrow> ('g kids \<times> 'g nf_rules) res" where
  "normalize_nilpotent_into mx ms R n = expect_fits (try_normalize_nilpotent_into mx ms R n)"

definition normalize_ms :: "nat \<Rightarrow> 'g::linorder kids \<Rightarrow> 'g nf_rule list \<Rightarrow> 'g kids res" where
  "normalize_ms mx ms rs = rbind (normalize_ms_into mx ms (nr_linear rs)) (\<lambda>(out, _). Inr out)"

definition normalize_set :: "nat \<Rightarrow> 'g::linorder kids \<Rightarrow> 'g nf_rule list \<Rightarrow> 'g kids res" where
  "normalize_set mx ms rs = rbind (normalize_set_into mx ms (nr_linear rs)) (\<lambda>(out, _). Inr out)"

definition normalize_nilpotent :: "nat \<Rightarrow> 'g::linorder kids \<Rightarrow> 'g nf_rule list \<Rightarrow> nat \<Rightarrow> 'g kids res" where
  "normalize_nilpotent mx ms rs n = rbind (normalize_nilpotent_into mx ms (nr_linear rs) n) (\<lambda>(out, _). Inr out)"

section \<open>Searching\<close>

lemma position_res_pure:
  "\<forall>x \<in> set xs. p x = Inr (q x) \<Longrightarrow> position_res p xs = Inr (position q xs)"
  by (induction xs) (auto simp: position_def)

lemma position_None: "position p xs = None \<longleftrightarrow> (\<forall>x \<in> set xs. \<not> p x)"
  by (auto simp: position_def)

lemma position_SomeD:
  assumes "position p xs = Some i"
  shows "i < length xs" "p (xs ! i)" "\<forall>j < i. \<not> p (xs ! j)"
proof -
  from assms have i: "i = length (takeWhile (\<lambda>x. \<not> p x) xs)" and ex: "\<exists>x \<in> set xs. p x"
    by (auto simp: position_def split: if_splits)
  then show lt: "i < length xs"
    by (metis (mono_tags, lifting) length_takeWhile_le order_le_imp_less_or_eq takeWhile_eq_all_conv take_all_iff takeWhile_eq_take)
  then show "p (xs ! i)" using nth_length_takeWhile [of "\<lambda>x. \<not> p x" xs] i by simp
  show "\<forall>j < i. \<not> p (xs ! j)"
    using i by (metis nth_mem set_takeWhileD takeWhile_nth)
qed

lemma binary_search_distinct:
  "distinct (map f xs) \<Longrightarrow> i < length xs \<Longrightarrow> binary_search_by_key f xs (f (xs ! i)) = Some i"
proof -
  assume d: "distinct (map f xs)" and i: "i < length xs"
  then obtain j where j: "binary_search_by_key f xs (f (xs ! i)) = Some j"
    by (cases "binary_search_by_key f xs (f (xs ! i))") (auto simp: binary_search_by_key_def position_None)
  from position_SomeD [OF this [unfolded binary_search_by_key_def]]
  show ?thesis using d i j by (metis length_map nth_eq_iff_index_eq nth_map)
qed

section \<open>The index\<close>

definition ix_inv :: "('g::linorder \<times> nat) list \<Rightarrow> 'g nf_index \<Rightarrow> bool" where
  "ix_inv ps ix \<longleftrightarrow> sorted_wrt (<) (ix_keys ix) \<and> set (ix_keys ix) = fst ` set ps \<and> ix_order ix = map snd ps \<and>
    ix_starts ix = 0 # map (\<lambda>k. length (filter (\<lambda>p. fst p \<le> k) ps)) (ix_keys ix)"

lemma ix_inv_step:
  assumes "ix_inv ps ix" "\<forall>q \<in> set ps. fst q \<le> k"
  shows "ix_inv (ps @ [(k, i)]) (ix_step (k, i) ix)"
proof -
  have inv: "sorted_wrt (<) (ix_keys ix)" "set (ix_keys ix) = fst ` set ps" "ix_order ix = map snd ps"
    "ix_starts ix = 0 # map (\<lambda>k. length (filter (\<lambda>p. fst p \<le> k) ps)) (ix_keys ix)"
    using assms(1) by (auto simp: ix_inv_def)
  have le: "\<forall>x \<in> set (ix_keys ix). x \<le> k" using inv(2) assms(2) by auto
  have all: "filter (\<lambda>p. fst p \<le> k) ps = ps" using assms(2) by (simp add: filter_id_conv)
  show ?thesis
  proof (cases "ix_keys ix \<noteq> [] \<and> last (ix_keys ix) = k")
    case True
    then obtain ks where ks: "ix_keys ix = ks @ [k]" by (metis append_butlast_last_id)
    then have "\<forall>x \<in> set ks. x < k" using inv(1) by (simp add: sorted_wrt_append)
    then have "map (\<lambda>x. length (filter (\<lambda>p. fst p \<le> x) (ps @ [(k, i)]))) ks = map (\<lambda>x. length (filter (\<lambda>p. fst p \<le> x) ps)) ks"
      by auto
    moreover have "k \<in> fst ` set ps" using inv(2) ks by auto
    ultimately show ?thesis using inv ks all
      by (auto simp: ix_inv_def ix_step_def list_update_append insert_absorb)
  next
    case False
    have "x < k" if "x \<in> set (ix_keys ix)" for x
    proof -
      have "x \<noteq> k"
      proof
        assume x: "x = k"
        from that have ne: "ix_keys ix \<noteq> []" by auto
        have "x \<le> last (ix_keys ix)" using inv(1) that
          by (metis append_butlast_last_id less_imp_le list.set_intros(1) ne nle_le rotate1.simps(2) set_ConsD set_rotate1 sorted_wrt_append)
        then show False using False x ne le last_in_set [OF ne] by (metis antisym)
      qed
      then show ?thesis using le that by (simp add: order.strict_iff_order)
    qed
    then have "map (\<lambda>x. length (filter (\<lambda>p. fst p \<le> x) (ps @ [(k, i)]))) (ix_keys ix) = map (\<lambda>x. length (filter (\<lambda>p. fst p \<le> x) ps)) (ix_keys ix)"
      and "sorted_wrt (<) (ix_keys ix @ [k])"
      using inv(1) by (auto simp: sorted_wrt_append) (meson leD)
    then show ?thesis using inv False all by (auto simp: ix_inv_def ix_step_def list_update_append)
  qed
qed

lemma ix_inv_fold:
  "sorted (map fst ps) \<Longrightarrow> ix_inv ps (fold ix_step ps \<lparr>ix_keys = [], ix_starts = [0], ix_order = [], ix_n_rules = n\<rparr>)"
proof (induction ps rule: rev_induct)
  case (snoc p ps)
  then show ?case using ix_inv_step [of ps _ "fst p" "snd p"] by (simp add: sorted_append)
qed (simp add: ix_inv_def)

lemma filter_le_prefix:
  "sorted (map fst ps) \<Longrightarrow> take (length (filter (\<lambda>p. fst p \<le> k) ps)) ps = filter (\<lambda>p. fst p \<le> k) ps"
  for k :: "'g::linorder"
proof (induction ps)
  case (Cons p ps)
  then have "\<not> fst p \<le> k \<Longrightarrow> filter (\<lambda>p. fst p \<le> k) ps = []" by (auto simp: filter_empty_conv)
  then show ?case using Cons by auto
qed simp

lemma filter_slice:
  fixes k :: "'g::linorder"
  assumes "sorted (map fst ps)"
  defines "s \<equiv> length (filter (\<lambda>p. fst p < k) ps)" and "e \<equiv> length (filter (\<lambda>p. fst p \<le> k) ps)"
  shows "take (e - s) (drop s ps) = filter (\<lambda>p. fst p = k) ps" "s \<le> e" "e \<le> length ps"
proof -
  have "filter (\<lambda>p. fst p \<le> k) ps = filter (\<lambda>p. fst p < k) ps @ filter (\<lambda>p. fst p = k) ps"
    using assms(1)
  proof (induction ps)
    case (Cons p ps)
    then have "\<not> fst p < k \<Longrightarrow> filter (\<lambda>p. fst p < k) ps = []" by (auto simp: filter_empty_conv)
    then show ?case using Cons by (auto simp: le_less)
  qed simp
  then have eq: "filter (\<lambda>p. fst p = k) ps = drop s (filter (\<lambda>p. fst p \<le> k) ps)" and "s \<le> e"
    by (simp_all add: s_def e_def)
  moreover have "filter (\<lambda>p. fst p \<le> k) ps = take e ps" using filter_le_prefix [OF assms(1), of k] by (simp add: e_def)
  ultimately show "take (e - s) (drop s ps) = filter (\<lambda>p. fst p = k) ps" "s \<le> e" by (simp_all add: drop_take)
  show "e \<le> length ps" by (simp add: e_def)
qed

lemma ix_inv_slice:
  assumes "ix_inv ps ix" "sorted (map fst ps)" "j < length (ix_keys ix)"
  defines "k \<equiv> ix_keys ix ! j"
  shows "ix_starts ix ! j = length (filter (\<lambda>p. fst p < k) ps)"
    "ix_starts ix ! (j + 1) = length (filter (\<lambda>p. fst p \<le> k) ps)" "j + 1 < length (ix_starts ix)"
proof -
  have inv: "sorted_wrt (<) (ix_keys ix)" "set (ix_keys ix) = fst ` set ps"
    "ix_starts ix = 0 # map (\<lambda>k. length (filter (\<lambda>p. fst p \<le> k) ps)) (ix_keys ix)"
    using assms(1) by (auto simp: ix_inv_def)
  show "j + 1 < length (ix_starts ix)" "ix_starts ix ! (j + 1) = length (filter (\<lambda>p. fst p \<le> k) ps)"
    using inv(3) assms(3) by (simp_all add: k_def)
  show "ix_starts ix ! j = length (filter (\<lambda>p. fst p < k) ps)"
  proof (cases j)
    case 0
    have "\<not> fst p < k" if "p \<in> set ps" for p
    proof -
      have "fst p \<in> set (ix_keys ix)" using inv(2) that by auto
      then obtain m where "m < length (ix_keys ix)" "ix_keys ix ! m = fst p" by (auto simp: in_set_conv_nth)
      then show ?thesis using inv(1) 0 assms(3) unfolding k_def
        by (metis bot_nat_0.not_eq_extremum less_asym sorted_wrt_nth_less)
    qed
    then show ?thesis using 0 inv(3) by (simp add: filter_empty_conv)
  next
    case (Suc i)
    have "fst p \<le> ix_keys ix ! i \<longleftrightarrow> fst p < k" if "p \<in> set ps" for p
    proof -
      have "fst p \<in> set (ix_keys ix)" using inv(2) that by auto
      then obtain m where m: "m < length (ix_keys ix)" "ix_keys ix ! m = fst p" by (auto simp: in_set_conv_nth)
      have "ix_keys ix ! i < k" using inv(1) Suc assms(3) unfolding k_def by (simp add: sorted_wrt_nth_less)
      moreover have "k \<le> fst p" if "i < m" using inv(1) Suc assms(3) m that unfolding k_def
        by (metis Suc_leI le_less sorted_wrt_nth_less)
      moreover have "fst p \<le> ix_keys ix ! i" if "m \<le> i" using inv(1) Suc assms(3) m that
        by (metis Suc_lessD le_less sorted_wrt_nth_less)
      ultimately show ?thesis by (meson le_less_trans not_le)
    qed
    then have "filter (\<lambda>p. fst p \<le> ix_keys ix ! i) ps = filter (\<lambda>p. fst p < k) ps" by (auto intro: filter_cong)
    then show ?thesis using Suc inv(3) assms(3) by simp
  qed
qed

lemma ix_gather_ok:
  assumes "ix_inv ps ix" "sorted (map fst ps)"
  shows "ix_gather ix out = Inr (concat (map (\<lambda>p. map snd (filter (\<lambda>q. fst q = fst p) ps)) out))"
proof (induction out)
  case (Cons p out)
  have keys: "distinct (ix_keys ix)" "set (ix_keys ix) = fst ` set ps" "ix_order ix = map snd ps"
    using assms(1) by (auto simp: ix_inv_def strict_sorted_iff)
  show ?case
  proof (cases "binary_search_by_key id (ix_keys ix) (fst p)")
    case None
    then have "filter (\<lambda>q. fst q = fst p) ps = []" using keys(2) by (auto simp: binary_search_by_key_def position_None filter_empty_conv)
    then show ?thesis using None Cons by simp
  next
    case (Some j)
    from position_SomeD [OF this [unfolded binary_search_by_key_def]]
    have j: "j < length (ix_keys ix)" "ix_keys ix ! j = fst p" by simp_all
    show ?thesis using Some Cons ix_inv_slice [OF assms j(1)] filter_slice [OF assms(2), of "fst p"] j(2) keys(3)
      by (simp add: range_res_def take_map drop_map)
  qed
qed simp

lemma ix_pairs_set:
  "set (ix_pairs rs) = {(fst (hd (nf_lhs (rs ! i))), i) |i. i < length rs \<and> nf_lhs (rs ! i) \<noteq> []}"
  by (force simp: ix_pairs_def in_set_enumerate_eq)

lemma distinct_map_sort: "distinct (map g (sort_key f xs)) \<longleftrightarrow> distinct (map g xs)"
  by (simp add: distinct_map)

lemma ix_pairs_distinct: "distinct (map snd (ix_pairs rs))"
proof -
  have "distinct (map fst (filter (\<lambda>(i, r). nf_lhs r \<noteq> []) (enumerate 0 rs)))"
    by (rule distinct_map_filter) simp
  then have "distinct (map snd (map (\<lambda>(i, r). (fst (hd (nf_lhs r)), i)) (filter (\<lambda>(i, r). nf_lhs r \<noteq> []) (enumerate 0 rs))))"
    by (simp add: comp_def case_prod_beta')
  then show ?thesis unfolding ix_pairs_def distinct_map_sort .
qed

definition first_rule :: "'g::linorder nf_rule list \<Rightarrow> 'g kids \<Rightarrow> 'g nf_rule option" where
  "first_rule rs out = map_option (\<lambda>i. rs ! i) (position (\<lambda>r. rule_applies_linear r out) rs)"

lemma ix_candidates_ok:
  assumes "nf_index_rebuild rs = Inr ix" "canonical out"
  obtains cands where "ix_candidates ix out = Inr cands" "sorted_wrt (<) cands"
    "set cands = {i. i < length rs \<and> nf_lhs (rs ! i) \<noteq> [] \<and> fst (hd (nf_lhs (rs ! i))) \<in> classes out}"
proof -
  have inv: "ix_inv (ix_pairs rs) ix" and srt: "sorted (map fst (ix_pairs rs))"
    using assms(1) ix_inv_fold [of "ix_pairs rs" "length rs"]
    by (auto simp: nf_index_rebuild_def rassert_def ix_pairs_def split: if_splits)
  let ?xs = "concat (map (\<lambda>p. map snd (filter (\<lambda>q. fst q = fst p) (ix_pairs rs))) out)"
  have "distinct (map fst out)" using assms(2) by (auto simp: canonical_def strict_sorted_iff)
  then have "distinct ?xs"
  proof (induction out)
    case (Cons p out)
    have inj: "inj_on snd (set (ix_pairs rs))" using ix_pairs_distinct [of rs] by (simp add: distinct_map)
    then have "distinct (map snd (filter (\<lambda>q. fst q = fst p) (ix_pairs rs)))"
      by (rule_tac distinct_map_filter [OF ix_pairs_distinct])
    moreover have "x \<notin> set (concat (map (\<lambda>p. map snd (filter (\<lambda>q. fst q = fst p) (ix_pairs rs))) out))"
      if "x \<in> snd ` {q \<in> set (ix_pairs rs). fst q = fst p}" for x
    proof
      assume "x \<in> set (concat (map (\<lambda>p. map snd (filter (\<lambda>q. fst q = fst p) (ix_pairs rs))) out))"
      then obtain p' q' where q': "p' \<in> set out" "q' \<in> set (ix_pairs rs)" "fst q' = fst p'" "snd q' = x" by auto
      from that obtain q where "q \<in> set (ix_pairs rs)" "fst q = fst p" "snd q = x" by auto
      then have "q = q'" using inj q' by (auto dest: inj_onD)
      then show False using Cons.prems q' \<open>fst q = fst p\<close> by force
    qed
    ultimately show ?case using Cons by auto
  qed simp
  then have "sorted_wrt (<) (sort ?xs)" by (simp add: strict_sorted_iff)
  moreover have "ix_candidates ix out = Inr (sort ?xs)" by (simp add: ix_candidates_def ix_gather_ok [OF inv srt])
  moreover have "set (sort ?xs) = {i. i < length rs \<and> nf_lhs (rs ! i) \<noteq> [] \<and> fst (hd (nf_lhs (rs ! i))) \<in> classes out}"
  proof -
    have "set ?xs = snd ` {q \<in> set (ix_pairs rs). fst q \<in> classes out}" by (auto simp: classes_def)
    also have "\<dots> = {i. i < length rs \<and> nf_lhs (rs ! i) \<noteq> [] \<and> fst (hd (nf_lhs (rs ! i))) \<in> classes out}"
      unfolding ix_pairs_set by force
    finally show ?thesis by simp
  qed
  ultimately show thesis using that by blast
qed

definition nr_ok :: "'g::linorder nf_rules \<Rightarrow> bool" where
  "nr_ok R \<longleftrightarrow> (\<forall>r \<in> set (nr_rules R). canonical (nf_lhs r) \<and> canonical (nf_rhs r)) \<and>
    (case nr_index R of None \<Rightarrow> True | Some ix \<Rightarrow> nf_index_rebuild (nr_rules R) = Inr ix)"

lemma charge_simps [simp]: "nr_rules (charge t R) = nr_rules R" "nr_index (charge t R) = nr_index R"
  by (simp_all add: charge_def)

lemma nr_ok_charge [simp]: "nr_ok (charge t R) = nr_ok R"
  by (cases "nr_index R") (simp_all add: nr_ok_def)

lemma subset_hd_class:
  assumes "canonical a" "canonical b" "multiset_subset a b" "a \<noteq> []"
  shows "fst (hd a) \<in> classes b"
proof -
  have "fst (hd a) \<in> set_mset (bag a)" using assms(1,4) by (cases a) auto
  then show ?thesis using assms multiset_subset_bag [of a b] set_bag [of b] mset_subset_eqD by metis
qed

lemma find_applicable_ok:
  assumes ok: "nr_ok R" and out: "canonical out"
  shows "\<exists>t. find_applicable out R = Inr (first_rule (nr_rules R) out, charge t R)"
proof (cases "nr_index R")
  case None
  then show ?thesis
    by (auto simp: find_applicable_def first_rule_def split: option.splits dest!: position_SomeD(1))
next
  case (Some ix)
  let ?rs = "nr_rules R"
  have ix: "nf_index_rebuild ?rs = Inr ix" using ok Some by (simp add: nr_ok_def)
  from ix_candidates_ok [OF ix out] obtain cands where c: "ix_candidates ix out = Inr cands" "sorted_wrt (<) cands"
    "set cands = {i. i < length ?rs \<and> nf_lhs (?rs ! i) \<noteq> [] \<and> fst (hd (nf_lhs (?rs ! i))) \<in> classes out}" .
  let ?Q = "\<lambda>i. multiset_subset (nf_lhs (?rs ! i)) out"
  have pos: "position_res (\<lambda>i. rbind (nth_res ?rs i) (\<lambda>r. Inr (multiset_subset (nf_lhs r) out))) cands = Inr (position ?Q cands)"
    using c(3) by (intro position_res_pure) auto
  have app: "rule_applies_linear (?rs ! i) out \<longleftrightarrow> i \<in> set cands \<and> ?Q i" if "i < length ?rs" for i
    using that c(3) ok out subset_hd_class [of "nf_lhs (?rs ! i)" out]
    by (auto simp: rule_applies_linear_def nr_ok_def)
  show ?thesis
  proof (cases "position ?Q cands")
    case None
    then have "\<not> rule_applies_linear (?rs ! i) out" if "i < length ?rs" for i
      using app [OF that] by (auto simp: position_None)
    then have "position (\<lambda>r. rule_applies_linear r out) ?rs = None" by (auto simp: position_None in_set_conv_nth)
    then show ?thesis using None Some c(1) pos by (auto simp: find_applicable_def first_rule_def)
  next
    case k: (Some k)
    note kk = position_SomeD [OF k]
    let ?i = "cands ! k"
    have i: "?i \<in> set cands" "?i < length ?rs" using kk(1) c(3) nth_mem [OF kk(1)] by auto
    have "position (\<lambda>r. rule_applies_linear r out) ?rs = Some ?i"
    proof -
      have "\<exists>j. position (\<lambda>r. rule_applies_linear r out) ?rs = Some j"
        using app [OF i(2)] i kk(2) by (metis nth_mem not_None_eq position_None)
      then obtain j where j: "position (\<lambda>r. rule_applies_linear r out) ?rs = Some j" by blast
      note jj = position_SomeD [OF j]
      have "\<not> ?i < j" using jj(3) app [OF i(2)] i kk(2) by blast
      moreover have "\<not> j < ?i"
      proof
        assume less: "j < ?i"
        have "j \<in> set cands" "?Q j" using app [OF jj(1)] jj(2) by auto
        then obtain m where m: "m < length cands" "cands ! m = j" by (auto simp: in_set_conv_nth)
        then have "m < k" using less c(2) kk(1) by (metis less_asym linorder_neqE_nat sorted_wrt_nth_less)
        then show False using kk(3) m \<open>?Q j\<close> by blast
      qed
      ultimately show ?thesis using j by simp
    qed
    then show ?thesis using k Some c(1) pos kk(1) i by (auto simp: find_applicable_def first_rule_def)
  qed
qed

lemma first_rule_None:
  assumes "\<forall>r \<in> set rs. canonical (nf_lhs r)" "canonical out"
  shows "first_rule rs out = None \<longleftrightarrow> (\<forall>r \<in> set rs. bag (nf_lhs r) = {#} \<or> \<not> bag (nf_lhs r) \<subseteq># bag out)"
proof -
  have "bag (nf_lhs r) = {#} \<longleftrightarrow> nf_lhs r = []" if "r \<in> set rs" for r
    using assms(1) that bag_inject [of "nf_lhs r" "[]"] by auto
  then show ?thesis using assms by (auto simp: first_rule_def position_None rule_applies_linear_def multiset_subset_bag)
qed

lemma first_rule_Some:
  assumes "\<forall>r \<in> set rs. canonical (nf_lhs r)" "canonical out" "first_rule rs out = Some r"
  shows "r \<in> set rs" "bag (nf_lhs r) \<subseteq># bag out" "nf_lhs r \<noteq> []"
proof -
  from assms(3) obtain i where "position (\<lambda>r. rule_applies_linear r out) rs = Some i" "r = rs ! i"
    by (auto simp: first_rule_def)
  from position_SomeD [OF this(1)] this(2)
  show r: "r \<in> set rs" and "bag (nf_lhs r) \<subseteq># bag out" "nf_lhs r \<noteq> []"
    using assms(1,2) by (auto simp: rule_applies_linear_def multiset_subset_bag split: if_splits)
qed

end
