(* ===== verification/Nary_Canon.thy ===== *)
theory Nary_Canon
  imports Nf_Rules
begin

text \<open>
  The normalization of the children of an n-ary node, \<open>egraph/src/nary_canon.rs\<close>, and the canonizers of
  \<open>egraph/src/canon.rs\<close> that call it.  \<open>normalize_by\<close> works in place on any representation of a child with a class
  and a multiplicity: sort, coalesce or deduplicate, drop the unit, reduce the counts modulo an order, cancel
  inverse pairs.
\<close>

section \<open>Laws of an operator\<close>

datatype nary_kind = Assoc | Ac "nat option" | Aci

record ('g, 'o) nary_laws =
  nl_kind :: nary_kind
  nl_unit :: "'g option"
  nl_inverse :: "'o option"

datatype 'g normal = NfNode | NfUnit | NfSingle 'g | NfEmpty | NfOverflow

text \<open>The accessors of a child: \<open>class\<close>, \<open>mult\<close> and \<open>set_mult\<close>.\<close>

record ('t, 'g) kid_ops =
  kd_class :: "'t \<Rightarrow> 'g"
  kd_mult :: "'t \<Rightarrow> nat"
  kd_set_mult :: "nat \<Rightarrow> 't \<Rightarrow> 't"

section \<open>Operations of \<open>std\<close>\<close>

fun dedup_by_key :: "('t \<Rightarrow> 'k) \<Rightarrow> 't list \<Rightarrow> 't list" where
  "dedup_by_key f (x # y # xs) = (if f x = f y then dedup_by_key f (x # xs) else x # dedup_by_key f (y # xs))"
| "dedup_by_key f xs = xs"

section \<open>Normalization\<close>

text \<open>
  The coalescing loop writes in place: \<open>w\<close> is the end of the written part, \<open>r\<close> the position read, and the first
  number how many are left to read.  \<open>None\<close> is the early return on overflow, with the children as they are.
\<close>

fun coalesce_loop :: "nat \<Rightarrow> ('t, 'g) kid_ops \<Rightarrow> nat \<Rightarrow> 't list \<Rightarrow> nat \<Rightarrow> nat \<Rightarrow> 't list \<times> nat option" where
  "coalesce_loop mx K 0 kids w r = (kids, Some w)"
| "coalesce_loop mx K (Suc n) kids w r =
    (if 0 < w \<and> kd_class K (kids ! (w - 1)) = kd_class K (kids ! r) then
       (case mult_checked_add mx (kd_mult K (kids ! (w - 1))) (kd_mult K (kids ! r)) of
          None \<Rightarrow> (kids, None)
        | Some s \<Rightarrow> coalesce_loop mx K n (kids[w - 1 := kd_set_mult K s (kids ! (w - 1))]) w (r + 1))
     else coalesce_loop mx K n (kids[w := kids ! r]) (w + 1) (r + 1))"

fun rem_all :: "('t, 'g) kid_ops \<Rightarrow> nat \<Rightarrow> 't list \<Rightarrow> 't list res" where
  "rem_all K order [] = Inr []"
| "rem_all K order (k # kids) = rbind (mult_rem_order (kd_mult K k) order) (\<lambda>m.
    rbind (rem_all K order kids) (\<lambda>ks. Inr (kd_set_mult K m k # ks)))"

definition cancel_visit :: "('t, 'g::linorder) kid_ops \<Rightarrow> ('g \<Rightarrow> 'g option) \<Rightarrow> nat \<Rightarrow> 't list \<Rightarrow> bool \<Rightarrow> 't list \<times> bool" where
  "cancel_visit K inverse_of i kids changed = (
    let x = kd_class K (kids ! i); xc = kd_mult K (kids ! i) in
    if xc = 0 then (kids, changed)
    else (case inverse_of x of
        None \<Rightarrow> (kids, changed)
      | Some y \<Rightarrow>
          if y = x then
            (if 1 < xc then (kids[i := kd_set_mult K (xc mod 2) (kids ! i)], True) else (kids, changed))
          else (case binary_search_by_key (kd_class K) kids y of
              None \<Rightarrow> (kids, changed)
            | Some j \<Rightarrow>
                let k = min (kd_mult K (kids ! i)) (kd_mult K (kids ! j)) in
                if 0 < k then
                  let mi = mult_saturating_sub (kd_mult K (kids ! i)) k;
                      mj = mult_saturating_sub (kd_mult K (kids ! j)) k;
                      kids1 = kids[i := kd_set_mult K mi (kids ! i)]
                  in (kids1[j := kd_set_mult K mj (kids1 ! j)], True)
                else (kids, changed))))"

fun cancel_loop :: "('t, 'g::linorder) kid_ops \<Rightarrow> ('g \<Rightarrow> 'g option) \<Rightarrow> nat \<Rightarrow> nat \<Rightarrow> 't list \<Rightarrow> bool \<Rightarrow> 't list \<times> bool" where
  "cancel_loop K inverse_of 0 i kids changed = (kids, changed)"
| "cancel_loop K inverse_of (Suc n) i kids changed =
    (case cancel_visit K inverse_of i kids changed of (kids1, changed1) \<Rightarrow>
       cancel_loop K inverse_of n (i + 1) kids1 changed1)"

definition cancel_by :: "('t, 'g::linorder) kid_ops \<Rightarrow> ('g \<Rightarrow> 'g option) \<Rightarrow> 't list \<Rightarrow> 't list \<times> bool" where
  "cancel_by K inverse_of kids = (
    let (kids1, changed) = cancel_loop K inverse_of (length kids) 0 kids False in
    (if changed then filter (\<lambda>p. kd_mult K p \<noteq> 0) kids1 else kids1, changed))"

definition combine_kids :: "nat \<Rightarrow> nary_kind \<Rightarrow> ('t, 'g::linorder) kid_ops \<Rightarrow> 't list \<Rightarrow> 't list \<times> bool" where
  "combine_kids mx kind K kids = (case kind of
      Assoc \<Rightarrow> (kids, True)
    | Aci \<Rightarrow> (map (kd_set_mult K 1) (dedup_by_key (kd_class K) (sort_key (kd_class K) kids)), True)
    | Ac _ \<Rightarrow> (case coalesce_loop mx K (length kids) (sort_key (kd_class K) kids) 0 0 of
          (kids1, None) \<Rightarrow> (kids1, False)
        | (kids1, Some w) \<Rightarrow> (take w kids1, True)))"

definition drop_unit :: "'g option \<Rightarrow> ('t, 'g) kid_ops \<Rightarrow> 't list \<Rightarrow> 't list" where
  "drop_unit unit K kids = (case unit of None \<Rightarrow> kids | Some u \<Rightarrow> filter (\<lambda>k. kd_class K k \<noteq> u) kids)"

definition clamp_kids :: "nat option \<Rightarrow> ('t, 'g) kid_ops \<Rightarrow> 't list \<Rightarrow> 't list res" where
  "clamp_kids nilpotent K kids = (case nilpotent of
      None \<Rightarrow> Inr kids
    | Some order \<Rightarrow> rbind (rem_all K order kids) (\<lambda>ks. Inr (filter (\<lambda>k. kd_mult K k \<noteq> 0) ks)))"

definition cancel_kids :: "'o option \<Rightarrow> ('o \<Rightarrow> 'g \<Rightarrow> 'g option) \<Rightarrow> ('t, 'g::linorder) kid_ops \<Rightarrow> 't list \<Rightarrow> 't list" where
  "cancel_kids io inv_class K kids = (case io of
      None \<Rightarrow> kids
    | Some iv \<Rightarrow> fst (cancel_by K (\<lambda>x. inv_class iv x) kids))"

definition normal_of :: "'g option \<Rightarrow> ('t, 'g) kid_ops \<Rightarrow> 't list \<Rightarrow> 'g normal" where
  "normal_of unit K kids = (case kids of
      [] \<Rightarrow> if unit \<noteq> None then NfUnit else NfEmpty
    | [k] \<Rightarrow> if kd_mult K k = 1 then NfSingle (kd_class K k) else NfNode
    | _ \<Rightarrow> NfNode)"

definition normalize_by :: "nat \<Rightarrow> ('g::linorder, 'o) nary_laws \<Rightarrow> ('t, 'g) kid_ops \<Rightarrow> ('o \<Rightarrow> 'g \<Rightarrow> 'g option) \<Rightarrow> 't list \<Rightarrow>
    ('g normal \<times> 't list) res" where
  "normalize_by mx laws K inv_class kids = (
    let (kids1, fits) = combine_kids mx (nl_kind laws) K kids in
    if \<not> fits then Inr (NfOverflow, kids1)
    else
      let kids2 = drop_unit (nl_unit laws) K kids1 in
      rbind (case nl_kind laws of
          Ac nilpotent \<Rightarrow> rbind (clamp_kids nilpotent K kids2) (\<lambda>kids3. Inr (cancel_kids (nl_inverse laws) inv_class K kids3))
        | _ \<Rightarrow> Inr kids2) (\<lambda>kids4.
      Inr (normal_of (nl_unit laws) K kids4, kids4)))"

definition pair_kid :: "('g \<times> nat, 'g) kid_ops" where
  "pair_kid = \<lparr>kd_class = fst, kd_mult = snd, kd_set_mult = (\<lambda>m k. (fst k, m))\<rparr>"

definition class_kid :: "('g, 'g) kid_ops" where
  "class_kid = \<lparr>kd_class = (\<lambda>g. g), kd_mult = (\<lambda>_. 1), kd_set_mult = (\<lambda>_ g. g)\<rparr>"

definition normalize :: "nat \<Rightarrow> ('g::linorder, 'o) nary_laws \<Rightarrow> ('o \<Rightarrow> 'g \<Rightarrow> 'g option) \<Rightarrow> 'g kids \<Rightarrow> ('g normal \<times> 'g kids) res" where
  "normalize mx laws inv_class kids = normalize_by mx laws pair_kid inv_class kids"

definition cancel_inverse_pairs :: "('g::linorder \<Rightarrow> 'g option) \<Rightarrow> 'g kids \<Rightarrow> 'g kids \<times> bool" where
  "cancel_inverse_pairs inverse_of kids = cancel_by pair_kid inverse_of kids"

section \<open>Canonizers\<close>

definition plain_canonize :: "('g \<Rightarrow> 'g) \<Rightarrow> 'g list \<Rightarrow> 'g list" where
  "plain_canonize fnd children = map fnd children"

definition c_canonize :: "('g::linorder \<Rightarrow> 'g) \<Rightarrow> 'g \<times> 'g \<Rightarrow> 'g \<times> 'g" where
  "c_canonize fnd children = (
    let a = fnd (fst children); b = fnd (snd children) in if b < a then (b, a) else (a, b))"

datatype mset_clamp = ClampNone | ClampNilpotent nat

record 'g canon_mode =
  cm_clamp :: mset_clamp
  cm_unit :: "'g option"

definition canon_plain :: "'g canon_mode" where
  "canon_plain = \<lparr>cm_clamp = ClampNone, cm_unit = None\<rparr>"

text \<open>
  The variadic canonizers append the children of the span \<open>start..end\<close> to the buffer, read through \<open>get\<close>; the
  normalization works on the whole buffer.
\<close>

definition ordered_canonize :: "'g list \<Rightarrow> nat \<Rightarrow> nat \<Rightarrow> (nat \<Rightarrow> 'g) \<Rightarrow> ('g \<Rightarrow> 'g) \<Rightarrow> 'g canon_mode \<Rightarrow> 'g normal \<times> 'g list" where
  "ordered_canonize buf st en get fnd mode = (NfNode, buf @ map (\<lambda>i. fnd (get i)) [st..<en])"

definition mset_canonize :: "nat \<Rightarrow> 'g::linorder kids \<Rightarrow> nat \<Rightarrow> nat \<Rightarrow> (nat \<Rightarrow> 'g \<times> nat) \<Rightarrow> ('g \<Rightarrow> 'g) \<Rightarrow> 'g canon_mode \<Rightarrow>
    ('g normal \<times> 'g kids) res" where
  "mset_canonize mx buf st en get fnd mode =
    normalize_by mx \<lparr>nl_kind = Ac (case cm_clamp mode of ClampNilpotent order \<Rightarrow> Some order | ClampNone \<Rightarrow> None),
        nl_unit = cm_unit mode, nl_inverse = None :: unit option\<rparr> pair_kid (\<lambda>_ _. None)
      (buf @ map (\<lambda>i. case get i of (g, m) \<Rightarrow> (fnd g, m)) [st..<en])"

definition set_canonize :: "'g::linorder list \<Rightarrow> nat \<Rightarrow> nat \<Rightarrow> (nat \<Rightarrow> 'g) \<Rightarrow> ('g \<Rightarrow> 'g) \<Rightarrow> 'g canon_mode \<Rightarrow>
    ('g normal \<times> 'g list) res" where
  "set_canonize buf st en get fnd mode =
    normalize_by mult32_max \<lparr>nl_kind = Aci, nl_unit = cm_unit mode, nl_inverse = None :: unit option\<rparr> class_kid (\<lambda>_ _. None)
      (buf @ map (\<lambda>i. fnd (get i)) [st..<en])"

lemma pair_kid_simps [simp]:
  "kd_class pair_kid = fst" "kd_mult pair_kid = snd" "kd_set_mult pair_kid m k = (fst k, m)"
  by (simp_all add: pair_kid_def)

lemma class_kid_simps [simp]:
  "kd_class class_kid = (\<lambda>g. g)" "kd_mult class_kid k = 1" "kd_set_mult class_kid m k = k"
  by (simp_all add: class_kid_def)

section \<open>Coalescing in place\<close>

text \<open>The loop against a function that appends to the written part.\<close>

fun merge_in :: "nat \<Rightarrow> 'g kids \<Rightarrow> 'g kids \<Rightarrow> 'g kids option" where
  "merge_in mx ms [] = Some ms"
| "merge_in mx ms ((g, m) # ys) =
    (if ms \<noteq> [] \<and> fst (last ms) = g then
       (if snd (last ms) + m \<le> mx then merge_in mx (butlast ms @ [(g, snd (last ms) + m)]) ys else None)
     else merge_in mx (ms @ [(g, m)]) ys)"

lemma coalesce_merge_in:
  "case merge_in mx ms ys of
     Some d \<Rightarrow> \<exists>tail. coalesce_loop mx pair_kid (length ys) (ms @ gap @ ys) (length ms) (length ms + length gap) = (d @ tail, Some (length d))
   | None \<Rightarrow> \<exists>kids. coalesce_loop mx pair_kid (length ys) (ms @ gap @ ys) (length ms) (length ms + length gap) = (kids, None)"
proof (induction mx ms ys arbitrary: gap rule: merge_in.induct)
  case (2 mx ms g m ys)
  have r: "(ms @ gap @ (g, m) # ys) ! (length ms + length gap) = (g, m)" by (simp add: nth_append)
  show ?case
  proof (cases "ms \<noteq> [] \<and> fst (last ms) = g")
    case True
    then obtain as c where ms: "ms = as @ [(g, c)]" by (metis append_butlast_last_id prod.collapse)
    have upd: "(ms @ gap @ (g, m) # ys)[length ms - 1 := (g, c + m)] = (as @ [(g, c + m)]) @ (gap @ [(g, m)]) @ ys"
      using ms by (simp add: list_update_append)
    have last: "(ms @ gap @ (g, m) # ys) ! (length ms - 1) = (g, c)" using ms by (simp add: nth_append)
    have len: "length ms = length (as @ [(g, c + m)])" "length ms + length gap + 1 = length (as @ [(g, c + m)]) + length (gap @ [(g, m)])"
      "0 < length ms" using ms by simp_all
    show ?thesis
    proof (cases "c + m \<le> mx")
      case fits: True
      have "coalesce_loop mx pair_kid (Suc (length ys)) (ms @ gap @ (g, m) # ys) (length ms) (length ms + length gap) =
          coalesce_loop mx pair_kid (length ys) ((as @ [(g, c + m)]) @ (gap @ [(g, m)]) @ ys) (length (as @ [(g, c + m)]))
            (length (as @ [(g, c + m)]) + length (gap @ [(g, m)]))"
        unfolding coalesce_loop.simps pair_kid_simps last r fst_conv snd_conv len(2) [symmetric] upd
        using fits len(1,3) upd by (simp add: mult_checked_add_def)
      moreover have "merge_in mx ms ((g, m) # ys) = merge_in mx (as @ [(g, c + m)]) ys" using ms fits by simp
      moreover have "snd (last ms) + m \<le> mx" "butlast ms @ [(g, snd (last ms) + m)] = as @ [(g, c + m)]" using ms fits by simp_all
      ultimately show ?thesis using "2.IH"(1) [OF True, of "gap @ [(g, m)]"] by (simp only: length_Cons)
    next
      case False
      have "coalesce_loop mx pair_kid (Suc (length ys)) (ms @ gap @ (g, m) # ys) (length ms) (length ms + length gap) =
          (ms @ gap @ (g, m) # ys, None)"
        unfolding coalesce_loop.simps pair_kid_simps last r fst_conv snd_conv
        using False len(3) by (simp add: mult_checked_add_def)
      moreover have "merge_in mx ms ((g, m) # ys) = None" using ms False by simp
      ultimately show ?thesis by (simp only: length_Cons option.case) blast
    qed
  next
    case False
    have c: "\<not> (0 < length ms \<and> fst ((ms @ gap @ (g, m) # ys) ! (length ms - 1)) = g)"
      using False by (cases ms rule: rev_cases) (auto simp: nth_append)
    obtain gap' where gap': "(ms @ gap @ (g, m) # ys)[length ms := (g, m)] = (ms @ [(g, m)]) @ gap' @ ys" "length gap' = length gap"
    proof (cases gap)
      case Nil
      then show ?thesis using that [of "[]"] by (simp add: list_update_append)
    next
      case (Cons h t)
      then show ?thesis using that [of "t @ [(g, m)]"] by (simp add: list_update_append)
    qed
    have "coalesce_loop mx pair_kid (Suc (length ys)) (ms @ gap @ (g, m) # ys) (length ms) (length ms + length gap) =
        coalesce_loop mx pair_kid (length ys) ((ms @ [(g, m)]) @ gap' @ ys) (length (ms @ [(g, m)])) (length (ms @ [(g, m)]) + length gap')"
      using c r gap' by (auto simp del: append_assoc)
    moreover have "merge_in mx ms ((g, m) # ys) = merge_in mx (ms @ [(g, m)]) ys" using False by auto
    ultimately show ?thesis using "2.IH"(2) [OF False, of gap'] by (simp only: length_Cons)
  qed
qed auto

lemma merge_in_ok:
  assumes "canonical ms" "sorted (map fst ys)" "\<forall>g \<in> classes ms. \<forall>h \<in> classes ys. g \<le> h" "\<forall>p \<in> set ys. 0 < snd p \<and> snd p \<le> mx"
    "\<forall>p \<in> set ms. snd p \<le> mx"
  shows "case merge_in mx ms ys of
      Some d \<Rightarrow> canonical d \<and> bag d = bag ms + bag ys \<and> (\<forall>p \<in> set d. snd p \<le> mx)
    | None \<Rightarrow> \<exists>g. mx < count (bag ms + bag ys) g"
  using assms
proof (induction mx ms ys rule: merge_in.induct)
  case (2 mx ms g m ys)
  have up: "\<forall>h \<in> classes ys. g \<le> h" "sorted (map fst ys)" using "2.prems"(2) by (auto simp: classes_def)
  show ?case
  proof (cases "ms \<noteq> [] \<and> fst (last ms) = g")
    case True
    then obtain as c where ms: "ms = as @ [(g, c)]" by (metis append_butlast_last_id prod.collapse)
    then have as: "\<forall>h \<in> classes as. h < g" "canonical as" "0 < c" using "2.prems"(1) by (simp_all add: canonical_snoc)
    have "replicate_mset (c + m) g = replicate_mset c g + replicate_mset m g" by (simp add: multiset_eq_iff)
    then have b: "bag (as @ [(g, c + m)]) + bag ys = bag ms + bag ((g, m) # ys)" using ms by (simp add: ac_simps)
    show ?thesis
    proof (cases "c + m \<le> mx")
      case fits: True
      have "canonical (as @ [(g, c + m)])" using as by (simp add: canonical_snoc)
      moreover have "\<forall>x \<in> classes (as @ [(g, c + m)]). \<forall>h \<in> classes ys. x \<le> h"
        using up as by (auto intro: order.trans dest: order.strict_implies_order)
      moreover have "butlast ms @ [(g, snd (last ms) + m)] = as @ [(g, c + m)]" "snd (last ms) + m \<le> mx" using ms fits by simp_all
      moreover have "\<forall>p \<in> set (as @ [(g, c + m)]). snd p \<le> mx" using "2.prems"(5) ms fits by auto
      moreover have "\<forall>p \<in> set ys. 0 < snd p \<and> snd p \<le> mx" using "2.prems"(4) by simp
      moreover have "merge_in mx ms ((g, m) # ys) = merge_in mx (as @ [(g, c + m)]) ys" using ms fits by simp
      ultimately show ?thesis using "2.IH"(1) [OF True] up(2) by (simp only: b)
    next
      case False
      have "mx < count (bag ms + bag ((g, m) # ys)) g" using False ms by simp
      then show ?thesis using True ms False by auto
    qed
  next
    case False
    have "g \<notin> classes ms"
    proof
      assume g: "g \<in> classes ms"
      then obtain as h c where ms: "ms = as @ [(h, c)]" by (cases ms rule: rev_cases) auto
      then have "\<forall>x \<in> classes as. x < h" "h \<le> g" using "2.prems"(1,3) by (simp_all add: canonical_snoc)
      then show False using g ms False by auto
    qed
    then have "\<forall>h \<in> classes ms. h < g" using "2.prems"(3) by (metis classes_simps(2) insertI1 le_neq_trans)
    then have "canonical (ms @ [(g, m)])" using "2.prems"(1,4) by (simp add: canonical_snoc)
    moreover have "\<forall>x \<in> classes (ms @ [(g, m)]). \<forall>h \<in> classes ys. x \<le> h" using "2.prems"(3) up(1) by auto
    moreover have "\<forall>p \<in> set (ms @ [(g, m)]). snd p \<le> mx" "\<forall>p \<in> set ys. 0 < snd p \<and> snd p \<le> mx" using "2.prems"(4,5) by auto
    moreover have "bag (ms @ [(g, m)]) + bag ys = bag ms + bag ((g, m) # ys)" by (simp add: ac_simps)
    moreover have "merge_in mx ms ((g, m) # ys) = merge_in mx (ms @ [(g, m)]) ys" using False by auto
    ultimately show ?thesis using "2.IH"(2) [OF False] up(2) by (simp only:)
  qed
qed (auto simp: canonical_def)

end
