(* ===== verification/Nf_Props.thy ===== *)
theory Nf_Props
  imports Nf_Rules
begin

text \<open>
  The normalizers of \<open>egraph/src/multiset.rs\<close>: what one rewrite does, that the loops end with an irreducible
  monomial, and that neither the index nor the batching of rewrites changes what is computed.
\<close>

section \<open>Rewriting steps on multisets\<close>

definition monomial :: "nat \<Rightarrow> 'g::linorder kids \<Rightarrow> bool" where
  "monomial mx ms \<longleftrightarrow> canonical ms \<and> (\<forall>m \<in> snd ` set ms. m \<le> mx)"

lemma monomial_iff: "monomial mx ms \<longleftrightarrow> canonical ms \<and> (\<forall>g. count (bag ms) g \<le> mx)"
proof (cases "canonical ms")
  case True
  have "(\<forall>m \<in> snd ` set ms. m \<le> mx) \<longleftrightarrow> (\<forall>g. count (bag ms) g \<le> mx)"
  proof safe
    fix g assume le: "\<forall>m \<in> snd ` set ms. m \<le> mx"
    show "count (bag ms) g \<le> mx"
    proof (cases "g \<in> classes ms")
      case g: True
      then obtain m where "(g, m) \<in> set ms" by (auto simp: classes_def)
      then show ?thesis using le count_bag_mem [OF True] by force
    qed simp
  next
    fix g m assume "\<forall>g. count (bag ms) g \<le> mx" "(g, m) \<in> set ms"
    then show "snd (g, m) \<le> mx" using count_bag_mem [OF True] by fastforce
  qed
  then show ?thesis by (simp add: monomial_def)
qed (simp add: monomial_def)

definition rw :: "'g nf_rule list \<Rightarrow> 'g multiset \<Rightarrow> 'g multiset \<Rightarrow> bool" where
  "rw rs A B \<longleftrightarrow> (\<exists>r \<in> set rs. bag (nf_lhs r) \<noteq> {#} \<and> bag (nf_lhs r) \<subseteq># A \<and> B = A - bag (nf_lhs r) + bag (nf_rhs r))"

definition irreducible :: "'g nf_rule list \<Rightarrow> 'g multiset \<Rightarrow> bool" where
  "irreducible rs A \<longleftrightarrow> (\<forall>r \<in> set rs. bag (nf_lhs r) = {#} \<or> \<not> bag (nf_lhs r) \<subseteq># A)"

text \<open>Rewriting \<open>q\<close> copies at once is \<open>q\<close> single rewrites.\<close>

lemma rw_batch:
  assumes r: "r \<in> set rs" "bag (nf_lhs r) \<noteq> {#}"
  shows "repeat_mset q (bag (nf_lhs r)) \<subseteq># A \<Longrightarrow>
    (rw rs)\<^sup>*\<^sup>* A (A - repeat_mset q (bag (nf_lhs r)) + repeat_mset q (bag (nf_rhs r)))"
proof (induction q arbitrary: A)
  case (Suc q)
  let ?L = "bag (nf_lhs r)" and ?S = "bag (nf_rhs r)"
  have c: "count ?L x + q * count ?L x \<le> count A x" for x using Suc.prems by (simp add: subseteq_mset_def)
  have sub: "?L \<subseteq># A" unfolding subseteq_mset_def using c by (metis add_leD1)
  have rest: "repeat_mset q ?L \<subseteq># A - ?L" unfolding subseteq_mset_def
  proof
    show "count (repeat_mset q ?L) x \<le> count (A - ?L) x" for x using c [of x] by simp
  qed
  have "rw rs A (A - ?L + ?S)" using r sub by (auto simp: rw_def)
  moreover have "repeat_mset q ?L \<subseteq># A - ?L + ?S" using rest by (metis mset_subset_eq_add_left subset_mset.order_trans)
  then have "(rw rs)\<^sup>*\<^sup>* (A - ?L + ?S) (A - ?L + ?S - repeat_mset q ?L + repeat_mset q ?S)" by (rule Suc.IH)
  moreover have "A - ?L + ?S - repeat_mset q ?L + repeat_mset q ?S = A - repeat_mset (Suc q) ?L + repeat_mset (Suc q) ?S"
  proof (rule multiset_eqI)
    fix x
    show "count (A - ?L + ?S - repeat_mset q ?L + repeat_mset q ?S) x = count (A - repeat_mset (Suc q) ?L + repeat_mset (Suc q) ?S) x"
      using c [of x] unfolding count_diff count_union count_repeat_mset mult_Suc by linarith
  qed
  ultimately show ?case by (metis converse_rtranclp_into_rtranclp)
qed simp

lemma rw_deg_less:
  assumes "\<forall>r \<in> set rs. deg_less (bag (nf_rhs r)) (bag (nf_lhs r))" "rw rs A B"
  shows "deg_less B A"
  using assms by (auto simp: rw_def intro: deg_less_replace)

lemma rw_value:
  assumes "\<forall>r \<in> set rs. mvalue v (bag (nf_lhs r)) = mvalue v (bag (nf_rhs r))" "(rw rs)\<^sup>*\<^sup>* A B"
  shows "mvalue v B = mvalue v A"
  using assms(2)
proof (induction rule: rtranclp_induct)
  case (step B C)
  then obtain r where "r \<in> set rs" "bag (nf_lhs r) \<subseteq># B" "C = B - bag (nf_lhs r) + bag (nf_rhs r)"
    by (auto simp: rw_def)
  then have "mvalue v C = mvalue v B" using assms(1) mvalue_replace by metis
  then show ?case using step.IH by simp
qed simp

section \<open>One rewrite\<close>

lemma host_count:
  assumes "canonical host"
  shows "(case binary_search_by_key fst host g of None \<Rightarrow> 0 | Some i \<Rightarrow> snd (host ! i)) = count (bag host) g"
proof (cases "binary_search_by_key fst host g")
  case None
  then have "g \<notin> classes host" by (auto simp: binary_search_by_key_def position_None classes_def)
  then show ?thesis using None by simp
next
  case (Some i)
  from position_SomeD [OF this [unfolded binary_search_by_key_def]]
  have "(g, snd (host ! i)) \<in> set host" by (metis nth_mem prod.collapse)
  then show ?thesis using Some count_bag_mem [OF assms] by simp
qed

definition least_quotient :: "'g multiset \<Rightarrow> 'g \<times> nat \<Rightarrow> nat option \<Rightarrow> nat option" where
  "least_quotient A p q = Some (case q of None \<Rightarrow> count A (fst p) div snd p | Some q \<Rightarrow> min q (count A (fst p) div snd p))"

lemma times_contained_fold:
  assumes "canonical host" "canonical part"
  shows "times_contained host part =
    (case fold (least_quotient (bag host)) part None of Some n \<Rightarrow> if n \<noteq> 0 then n else 1 | None \<Rightarrow> 1)"
proof -
  have "fold (\<lambda>(g, k) q.
          let own = (case binary_search_by_key fst host g of None \<Rightarrow> 0 | Some i \<Rightarrow> snd (host ! i));
              t = (case mult_checked_div own k of None \<Rightarrow> 0 | Some t \<Rightarrow> t)
          in Some (case q of None \<Rightarrow> t | Some q \<Rightarrow> min q t)) part None = fold (least_quotient (bag host)) part None"
    using assms(2) by (intro fold_cong) (auto simp: host_count [OF assms(1)] least_quotient_def mult_checked_div_def fun_eq_iff
        split: option.splits)
  then show ?thesis by (simp add: times_contained_def)
qed

lemma least_quotient_fold:
  "fold (least_quotient A) ps (Some q0) = Some q \<Longrightarrow>
    q \<le> q0 \<and> (\<forall>(g, k) \<in> set ps. q \<le> count A g div k) \<and> (0 < q0 \<and> (\<forall>(g, k) \<in> set ps. 0 < count A g div k) \<longrightarrow> 0 < q)"
  by (induction ps arbitrary: q0) (fastforce simp: least_quotient_def)+

lemma times_contained_ok:
  assumes "canonical host" "canonical part" "bag part \<subseteq># bag host" "part \<noteq> []"
  shows "1 \<le> times_contained host part" "repeat_mset (times_contained host part) (bag part) \<subseteq># bag host"
proof -
  obtain g k ps where p: "part = (g, k) # ps" using assms(4) by (metis list.exhaust surj_pair)
  obtain q where q: "fold (least_quotient (bag host)) part None = Some q"
  proof -
    have "\<exists>q. fold (least_quotient A) ps (Some q0) = Some q" for A :: "'a multiset" and ps q0
      by (induction ps arbitrary: q0) (auto simp: least_quotient_def)
    then show ?thesis using that p by (auto simp: least_quotient_def)
  qed
  have pos: "0 < count (bag host) h div n" if "(h, n) \<in> set part" for h n
  proof -
    have "n = count (bag part) h" using count_bag_mem [OF assms(2) that] by simp
    then have "n \<le> count (bag host) h" using assms(3) by (simp add: mset_subset_eq_count)
    moreover have "0 < n" using assms(2) that by (auto simp: canonical_def)
    ultimately show ?thesis by (simp add: div_greater_zero_iff)
  qed
  have fold: "fold (least_quotient (bag host)) ps (Some (count (bag host) g div k)) = Some q"
    using q p by (simp add: least_quotient_def)
  note lq = least_quotient_fold [OF fold]
  have q0: "0 < q" using lq pos p by auto
  then have t: "times_contained host part = q" by (simp add: times_contained_fold [OF assms(1,2)] q)
  then show "1 \<le> times_contained host part" using q0 by simp
  have le: "q * n \<le> count (bag host) h" if "(h, n) \<in> set part" for h n
  proof -
    have "q \<le> count (bag host) h div n" using lq p that by auto
    then show ?thesis by (metis div_times_less_eq_dividend le_trans mult_le_mono1)
  qed
  show "repeat_mset (times_contained host part) (bag part) \<subseteq># bag host"
    unfolding t subseteq_mset_def
  proof
    fix h
    show "count (repeat_mset q (bag part)) h \<le> count (bag host) h"
    proof (cases "h \<in> classes part")
      case True
      then obtain n where "(h, n) \<in> set part" by (auto simp: classes_def)
      then show ?thesis using le count_bag_mem [OF assms(2)] by fastforce
    qed simp
  qed
qed

lemma scaled_ok:
  assumes "canonical ms" "0 < q"
  shows "case scaled mx q ms of
      Some s \<Rightarrow> canonical s \<and> classes s = classes ms \<and> bag s = repeat_mset q (bag ms)
    | None \<Rightarrow> \<exists>g. mx < q * count (bag ms) g"
  using assms(1)
proof (induction ms)
  case (Cons p ms)
  obtain g k where p: "p = (g, k)" by (cases p)
  have k: "count (bag (p # ms)) g = k" "0 < k" using Cons.prems p by (auto simp: above_absent)
  show ?case
  proof (cases "k * q \<le> mx")
    case True
    show ?thesis
      using Cons p True k assms(2)
      by (auto simp: mult_checked_mul_def multiset_eq_iff algebra_simps split: option.splits)
  next
    case False
    then show ?thesis using p k by (auto simp: mult_checked_mul_def mult.commute intro!: exI [of _ g])
  qed
qed simp

lemma scaled_fits: "scaled mx q ms = Some s \<Longrightarrow> \<forall>p \<in> set s. snd p \<le> mx"
  by (induction ms arbitrary: s) (fastforce simp: mult_checked_mul_def split: option.splits if_splits)+

definition rule_ok :: "nat \<Rightarrow> 'g::linorder nf_rule \<Rightarrow> bool" where
  "rule_ok mx r \<longleftrightarrow> monomial mx (nf_lhs r) \<and> monomial mx (nf_rhs r)"

lemma union_subtract:
  assumes "monomial mx out" "monomial mx s" "canonical l" "bag l \<subseteq># bag out"
  shows "case try_multiset_union_into mx (multiset_subtract_into out l) s of
      Some c \<Rightarrow> monomial mx c \<and> bag c = bag out - bag l + bag s
    | None \<Rightarrow> \<exists>g. mx < count (bag out - bag l + bag s) g"
proof -
  let ?d = "multiset_subtract_into out l"
  have d: "canonical ?d" "bag ?d = bag out - bag l" and cs: "canonical s"
    using assms by (auto simp: monomial_iff multiset_subtract_canonical multiset_subtract_bag)
  show ?thesis
  proof (cases "try_multiset_union_into mx ?d s")
    case None
    then show ?thesis using try_multiset_union_None [OF d(1) cs, of mx] d(2) by auto
  next
    case (Some c)
    note c = try_multiset_union_Some [OF Some]
    have "count (bag c) g \<le> mx" for g
    proof (cases "g \<in> classes ?d \<inter> classes s")
      case True
      then show ?thesis using Some try_multiset_union_None [OF d(1) cs, of mx] c(2) by (auto simp: not_less)
    next
      case False
      have "count (bag out) g \<le> mx" "count (bag s) g \<le> mx" using assms by (auto simp: monomial_iff)
      moreover have "count (bag ?d) g = 0 \<or> count (bag s) g = 0" using False by auto
      ultimately show ?thesis using c(2) d(2) by auto
    qed
    then show ?thesis using Some c d cs by (simp add: monomial_iff)
  qed
qed

lemma plain_rewrite_ok:
  assumes "monomial mx out" "rule_ok mx r" "bag (nf_lhs r) \<subseteq># bag out"
  shows "case plain_rewrite mx r out of
      Some c \<Rightarrow> monomial mx c \<and> bag c = bag out - bag (nf_lhs r) + bag (nf_rhs r)
    | None \<Rightarrow> \<exists>g. mx < count (bag out - bag (nf_lhs r) + bag (nf_rhs r)) g"
  using union_subtract [of mx out "nf_rhs r" "nf_lhs r"] assms
  by (simp add: plain_rewrite_def rule_ok_def monomial_iff)

lemma ms_rewrite_ok:
  assumes out: "monomial mx out" and r: "rule_ok mx r" and sub: "bag (nf_lhs r) \<subseteq># bag out" and ne: "nf_lhs r \<noteq> []"
  shows "\<exists>q. repeat_mset q (bag (nf_lhs r)) \<subseteq># bag out \<and> 0 < q \<and> (
    let B = bag out - repeat_mset q (bag (nf_lhs r)) + repeat_mset q (bag (nf_rhs r)) in
    case ms_rewrite mx r out of Some c \<Rightarrow> monomial mx c \<and> bag c = B | None \<Rightarrow> \<exists>g. mx < count B g)"
proof -
  let ?q = "times_contained out (nf_lhs r)"
  have can: "canonical out" "canonical (nf_lhs r)" "canonical (nf_rhs r)"
    using out r by (auto simp: rule_ok_def monomial_iff)
  note q = times_contained_ok [OF can(1,2) sub ne]
  let ?B = "bag out - repeat_mset ?q (bag (nf_lhs r)) + repeat_mset ?q (bag (nf_rhs r))"
  have "case ms_rewrite mx r out of Some c \<Rightarrow> monomial mx c \<and> bag c = ?B | None \<Rightarrow> \<exists>g. mx < count ?B g"
  proof (cases "?q = 1")
    case True
    then show ?thesis using plain_rewrite_ok [OF out r sub]
      by (cases "plain_rewrite mx r out") (auto simp: ms_rewrite_def plain_rewrite_def)
  next
    case False
    have pos: "0 < ?q" using q(1) by simp
    have "\<exists>l. scaled mx ?q (nf_lhs r) = Some l"
    proof (cases "scaled mx ?q (nf_lhs r)")
      case None
      then obtain g where "mx < ?q * count (bag (nf_lhs r)) g" using scaled_ok [OF can(2) pos, of mx] by auto
      also have "\<dots> \<le> count (bag out) g" using mset_subset_eq_count [OF q(2), of g] by simp
      finally show ?thesis using out by (auto simp: monomial_iff not_less [symmetric])
    qed simp
    then obtain l where l: "scaled mx ?q (nf_lhs r) = Some l" by blast
    have lb: "canonical l" "bag l = repeat_mset ?q (bag (nf_lhs r))" using scaled_ok [OF can(2) pos, of mx] l by auto
    show ?thesis
    proof (cases "scaled mx ?q (nf_rhs r)")
      case None
      then obtain g where "mx < ?q * count (bag (nf_rhs r)) g" using scaled_ok [OF can(3) pos, of mx] by auto
      then have "mx < count ?B g" by simp
      then show ?thesis using None l False by (auto simp: ms_rewrite_def Let_def intro!: exI [of _ g])
    next
      case (Some s)
      have sb: "canonical s" "bag s = repeat_mset ?q (bag (nf_rhs r))" using scaled_ok [OF can(3) pos, of mx] Some by auto
      show ?thesis
      proof (cases "\<forall>g. count (bag s) g \<le> mx")
        case True
        then show ?thesis using union_subtract [of mx out s l] out lb sb q(2) l Some False
          by (cases "try_multiset_union_into mx (multiset_subtract_into out l) s") (auto simp: ms_rewrite_def monomial_iff)
      next
        case over: False
        then obtain g where g: "mx < count (bag s) g" by (auto simp: not_le)
        then have big: "mx < count ?B g" using sb(2) by simp
        show ?thesis
        proof (cases "ms_rewrite mx r out")
          case None
          then show ?thesis using big by auto
        next
          case (Some c)
          have fits: "\<forall>p \<in> set s. snd p \<le> mx" using \<open>scaled mx ?q (nf_rhs r) = Some s\<close> scaled_fits by blast
          have "\<exists>m. (g, m) \<in> set s" using g by (metis classes_def count_bag_absent imageE less_zeroE prod.collapse)
          then show ?thesis using fits g count_bag_mem [OF sb(1)] by force
        qed
      qed
    qed
  qed
  moreover have "0 < ?q" using q(1) by simp
  ultimately show ?thesis using q(2) unfolding Let_def by blast
qed

section \<open>The loop over a contract of one rewrite\<close>

locale rewriter =
  fixes rs :: "'g::linorder nf_rule list"
    and f :: "'g nf_rule \<Rightarrow> 'g kids \<Rightarrow> 'g kids option res"
    and good :: "'g kids \<Rightarrow> bool"
    and rel :: "'g multiset \<Rightarrow> 'g multiset \<Rightarrow> bool"
    and over :: "'g multiset \<Rightarrow> bool"
  assumes rules_canonical: "r \<in> set rs \<Longrightarrow> canonical (nf_lhs r) \<and> canonical (nf_rhs r)"
    and good_canonical: "good out \<Longrightarrow> canonical out"
    and step_law: "good out \<Longrightarrow> r \<in> set rs \<Longrightarrow> nf_lhs r \<noteq> [] \<Longrightarrow> bag (nf_lhs r) \<subseteq># bag out \<Longrightarrow>
      (f r out = Inr None \<and> over (bag out)) \<or> (\<exists>c. f r out = Inr (Some c) \<and> good c \<and> rel (bag out) (bag c))"
begin

lemma rules_lhs: "\<forall>r \<in> set rs. canonical (nf_lhs r)"
  using rules_canonical by blast

lemma loop_unfold:
  assumes "nr_ok R" "nr_rules R = rs" "good out"
  obtains (stop) t where "first_rule rs out = None" "irreducible rs (bag out)"
      "\<And>n. rewrite_loop f n out R = Inr (Some out, charge t R)"
    | (overflow) r t where "first_rule rs out = Some r" "f r out = Inr None" "over (bag out)"
      "rewrite_loop f 0 out R = Inl RewriteGuard" "\<And>n. rewrite_loop f (Suc n) out R = Inr (None, charge t R)"
    | (step) r c t where "first_rule rs out = Some r" "f r out = Inr (Some c)" "good c" "rel (bag out) (bag c)"
      "rewrite_loop f 0 out R = Inl RewriteGuard" "\<And>n. rewrite_loop f (Suc n) out R = rewrite_loop f n c (charge t R)"
proof -
  have can: "canonical out" using assms(3) by (rule good_canonical)
  from find_applicable_ok [OF assms(1) can] obtain t
    where t: "find_applicable out R = Inr (first_rule rs out, charge t R)" using assms(2) by auto
  show thesis
  proof (cases "first_rule rs out")
    case None
    then have "irreducible rs (bag out)" using first_rule_None [OF rules_lhs can] by (simp add: irreducible_def)
    then show thesis using None t by (intro stop) (simp_all add: rewrite_loop.simps)
  next
    case (Some r)
    note r = first_rule_Some [OF rules_lhs can Some]
    from step_law [OF assms(3) r(1,3,2)] show thesis
      using Some t by (elim disjE exE conjE) (auto intro: overflow step simp: rewrite_loop.simps)
  qed
qed

lemma loop_result:
  assumes "nr_ok R" "nr_rules R = rs" "good out"
  shows "case rewrite_loop f n out R of
      Inl e \<Rightarrow> e = RewriteGuard
    | Inr (None, _) \<Rightarrow> \<exists>B. rel\<^sup>*\<^sup>* (bag out) B \<and> over B
    | Inr (Some c, _) \<Rightarrow> good c \<and> rel\<^sup>*\<^sup>* (bag out) (bag c) \<and> irreducible rs (bag c)"
  using assms
proof (induction n arbitrary: out R)
  case 0
  from 0 show ?case by (cases rule: loop_unfold) (use 0 in auto)
next
  case (Suc n)
  from Suc.prems show ?case
  proof (cases rule: loop_unfold)
    case (step r c t)
    from Suc.IH [of "charge t R" c] step Suc.prems show ?thesis
      by (auto split: sum.splits option.splits intro: converse_rtranclp_into_rtranclp)
        (meson converse_rtranclp_into_rtranclp)
  qed (use Suc.prems in auto)
qed

text \<open>The answer does not depend on the index, nor on the work meter.\<close>

lemma loop_same:
  assumes "nr_ok R" "nr_rules R = rs" "nr_ok R'" "nr_rules R' = rs" "good out"
  shows "rbind (rewrite_loop f n out R) (\<lambda>(c, _). Inr c) = rbind (rewrite_loop f n out R') (\<lambda>(c, _). Inr c)"
  using assms
proof (induction n arbitrary: out R R')
  case 0
  from 0(1,2,5) show ?case
    by (cases rule: loop_unfold) (use 0(3,4,5) in \<open>cases rule: loop_unfold; simp\<close>)+
next
  case (Suc n)
  from Suc.prems(1,2,5) show ?case
  proof (cases rule: loop_unfold)
    case stop
    from Suc.prems(3,4,5) show ?thesis by (cases rule: loop_unfold) (use stop in auto)
  next
    case overflow
    from Suc.prems(3,4,5) show ?thesis by (cases rule: loop_unfold) (use overflow in auto)
  next
    case (step r c t)
    from Suc.prems(3,4,5) show ?thesis
    proof (cases rule: loop_unfold)
      case (step r' c' t')
      then show ?thesis using \<open>f r out = Inr (Some c)\<close> \<open>first_rule rs out = Some r\<close> \<open>good c\<close>
          \<open>\<And>n. rewrite_loop f (Suc n) out R = rewrite_loop f n c (charge t R)\<close>
        using Suc.IH [of "charge t R" "charge t' R'" c] Suc.prems by simp
    qed (use step in auto)
  qed
qed

end

locale terminating_rewriter = rewriter rs f good rel over
  for rs :: "'g::wellorder nf_rule list" and f and good and rel and over +
  assumes down: "good out \<Longrightarrow> r \<in> set rs \<Longrightarrow> nf_lhs r \<noteq> [] \<Longrightarrow> bag (nf_lhs r) \<subseteq># bag out \<Longrightarrow>
    f r out = Inr (Some c) \<Longrightarrow> deg_less (bag c) (bag out)"
begin

lemma loop_ends:
  assumes "nr_ok R" "nr_rules R = rs" "good out"
  shows "\<exists>N. \<forall>n \<ge> N. \<exists>x. rewrite_loop f n out R = Inr x"
proof -
  have "\<forall>out R. bag out = A \<longrightarrow> nr_ok R \<longrightarrow> nr_rules R = rs \<longrightarrow> good out \<longrightarrow>
      (\<exists>N. \<forall>n \<ge> N. \<exists>x. rewrite_loop f n out R = Inr x)" for A
  proof (induction A rule: wfp_induct_rule [OF wfp_deg_less])
    case (1 A)
    show ?case
    proof (intro allI impI)
      fix out R assume o: "bag out = A" "nr_ok R" "nr_rules R = rs" "good out"
      from o(2,3,4) show "\<exists>N. \<forall>n \<ge> N. \<exists>x. rewrite_loop f n out R = Inr x"
      proof (cases rule: loop_unfold)
        case (overflow r t)
        have "\<exists>x. rewrite_loop f n out R = Inr x" if "1 \<le> n" for n using overflow(5) [of "n - 1"] that by simp
        then show ?thesis by blast
      next
        case (step r c t)
        have can: "canonical out" using o(4) by (rule good_canonical)
        note r = first_rule_Some [OF rules_lhs can step(1)]
        have "deg_less (bag c) A" using down [OF o(4) r(1,3,2) step(2)] o(1) by simp
        then obtain N where N: "\<forall>n \<ge> N. \<exists>x. rewrite_loop f n c (charge t R) = Inr x"
          using 1 step(3) o(2,3) by (metis charge_simps(1) nr_ok_charge)
        have "\<exists>x. rewrite_loop f n out R = Inr x" if "Suc N \<le> n" for n
          using that N step(6) [of "n - 1"] by (cases n) auto
        then show ?thesis by blast
      qed auto
    qed
  qed
  then show ?thesis using assms by blast
qed

lemma normalizes_within:
  assumes "nr_ok R" "nr_rules R = rs" "good out"
  shows "\<exists>N. \<forall>n. case rewrite_loop f n out R of
      Inl e \<Rightarrow> e = RewriteGuard \<and> n < N
    | Inr (None, _) \<Rightarrow> \<exists>B. rel\<^sup>*\<^sup>* (bag out) B \<and> over B
    | Inr (Some c, _) \<Rightarrow> good c \<and> rel\<^sup>*\<^sup>* (bag out) (bag c) \<and> irreducible rs (bag c)"
proof -
  from loop_ends [OF assms] obtain N where N: "\<forall>n \<ge> N. \<exists>x. rewrite_loop f n out R = Inr x" by blast
  then have "n < N" if "rewrite_loop f n out R = Inl e" for n e using that by (metis Inl_Inr_False linorder_not_less)
  then show ?thesis using loop_result [OF assms] by (intro exI [of _ N]) (fastforce split: sum.splits)
qed

lemma normalizes:
  assumes "nr_ok R" "nr_rules R = rs" "good out"
  shows "\<exists>N. \<forall>n \<ge> N. case rewrite_loop f n out R of
      Inl e \<Rightarrow> False
    | Inr (None, _) \<Rightarrow> \<exists>B. rel\<^sup>*\<^sup>* (bag out) B \<and> over B
    | Inr (Some c, _) \<Rightarrow> good c \<and> rel\<^sup>*\<^sup>* (bag out) (bag c) \<and> irreducible rs (bag c)"
proof -
  from loop_ends [OF assms] obtain N where N: "\<forall>n \<ge> N. \<exists>x. rewrite_loop f n out R = Inr x" by blast
  show ?thesis using N loop_result [OF assms] by (intro exI [of _ N]) (fastforce split: sum.splits)
qed

end

section \<open>The three normalizers\<close>

definition oriented :: "'g::linorder nf_rule \<Rightarrow> bool" where
  "oriented r \<longleftrightarrow> monomial_cmp (nf_lhs r) (nf_rhs r) = Greater"

lemma oriented_deg_less: "rule_ok mx r \<Longrightarrow> oriented r \<Longrightarrow> deg_less (bag (nf_rhs r)) (bag (nf_lhs r))"
  by (simp add: oriented_def rule_ok_def monomial_iff monomial_cmp_deg_less)

lemma deg_less_repeat: "deg_less A B \<Longrightarrow> 0 < q \<Longrightarrow> deg_less (repeat_mset q A) (repeat_mset q B)"
proof (induction q)
  case (Suc q)
  then show ?case
    by (cases "q = 0") (simp_all, metis add.commute deg_less_add deg_less_trans)
qed simp

definition ms_over :: "nat \<Rightarrow> 'g::linorder nf_rule list \<Rightarrow> 'g multiset \<Rightarrow> bool" where
  "ms_over mx rs A \<longleftrightarrow> (\<exists>B g. (rw rs)\<^sup>*\<^sup>* A B \<and> mx < count B g)"

lemma ms_step:
  assumes "r \<in> set rs" "rule_ok mx r" "monomial mx out" "nf_lhs r \<noteq> []" "bag (nf_lhs r) \<subseteq># bag out"
  obtains (over) "ms_rewrite mx r out = None" "ms_over mx rs (bag out)"
    | (fits) c where "ms_rewrite mx r out = Some c" "monomial mx c" "(rw rs)\<^sup>*\<^sup>* (bag out) (bag c)"
      "deg_less (bag (nf_rhs r)) (bag (nf_lhs r)) \<Longrightarrow> deg_less (bag c) (bag out)"
proof -
  have ne: "bag (nf_lhs r) \<noteq> {#}" using assms(2,4) bag_inject [of "nf_lhs r" "[]"] by (auto simp: rule_ok_def monomial_iff)
  from ms_rewrite_ok [OF assms(3,2,5,4)] obtain q where q: "repeat_mset q (bag (nf_lhs r)) \<subseteq># bag out" "0 < q"
    "case ms_rewrite mx r out of
      Some c \<Rightarrow> monomial mx c \<and> bag c = bag out - repeat_mset q (bag (nf_lhs r)) + repeat_mset q (bag (nf_rhs r))
    | None \<Rightarrow> \<exists>g. mx < count (bag out - repeat_mset q (bag (nf_lhs r)) + repeat_mset q (bag (nf_rhs r))) g"
    by (auto simp: Let_def)
  note b = rw_batch [OF assms(1) ne q(1)]
  show thesis
  proof (cases "ms_rewrite mx r out")
    case None
    with q(3) have "\<exists>g. mx < count (bag out - repeat_mset q (bag (nf_lhs r)) + repeat_mset q (bag (nf_rhs r))) g"
      by (simp only: option.case)
    then have "ms_over mx rs (bag out)" using b unfolding ms_over_def by blast
    then show thesis using None by (rule over [rotated])
  next
    case (Some c)
    with q(3) have c: "monomial mx c" "bag c = bag out - repeat_mset q (bag (nf_lhs r)) + repeat_mset q (bag (nf_rhs r))"
      by simp_all
    then show thesis
      using Some b deg_less_replace [OF q(1) deg_less_repeat [OF _ q(2)]] by (intro fits [of c]) (simp_all only:)
  qed
qed

interpretation ms0: rewriter "filter (rule_ok mx) rs" "\<lambda>r out. Inr (ms_rewrite mx r out)" "monomial mx"
    "(rw (filter (rule_ok mx) rs))\<^sup>*\<^sup>*" "ms_over mx (filter (rule_ok mx) rs)"
  for mx :: nat and rs :: "'g::linorder nf_rule list"
proof
  fix out r assume "monomial mx out" "r \<in> set (filter (rule_ok mx) rs)" "nf_lhs r \<noteq> []" "bag (nf_lhs r) \<subseteq># bag out"
  then show "(Inr (ms_rewrite mx r out) = Inr None \<and> ms_over mx (filter (rule_ok mx) rs) (bag out)) \<or>
      (\<exists>c. Inr (ms_rewrite mx r out) = Inr (Some c) \<and> monomial mx c \<and> (rw (filter (rule_ok mx) rs))\<^sup>*\<^sup>* (bag out) (bag c))"
    using ms_step [of r "filter (rule_ok mx) rs" mx out] by auto
qed (auto simp: rule_ok_def monomial_iff)

abbreviation down_rules :: "nat \<Rightarrow> 'g::linorder nf_rule list \<Rightarrow> 'g nf_rule list" where
  "down_rules mx rs \<equiv> filter (\<lambda>r. rule_ok mx r \<and> oriented r) rs"

interpretation ms1: terminating_rewriter "down_rules mx rs" "\<lambda>r out. Inr (ms_rewrite mx r out)" "monomial mx"
    "(rw (down_rules mx rs))\<^sup>*\<^sup>*" "ms_over mx (down_rules mx rs)"
  for mx :: nat and rs :: "'g::wellorder nf_rule list"
proof
  fix out r assume "monomial mx out" "r \<in> set (down_rules mx rs)" "nf_lhs r \<noteq> []" "bag (nf_lhs r) \<subseteq># bag out"
  then show "(Inr (ms_rewrite mx r out) = Inr None \<and> ms_over mx (down_rules mx rs) (bag out)) \<or>
      (\<exists>c. Inr (ms_rewrite mx r out) = Inr (Some c) \<and> monomial mx c \<and> (rw (down_rules mx rs))\<^sup>*\<^sup>* (bag out) (bag c))"
    using ms_step [of r "down_rules mx rs" mx out] by auto
next
  fix out r c assume "monomial mx out" "r \<in> set (down_rules mx rs)" "nf_lhs r \<noteq> []" "bag (nf_lhs r) \<subseteq># bag out"
    "Inr (ms_rewrite mx r out) = Inr (Some c)"
  then show "deg_less (bag c) (bag out)"
    using ms_step [of r "down_rules mx rs" mx out] oriented_deg_less by auto
qed (auto simp: rule_ok_def monomial_iff)

text \<open>Sets: after every rewrite the counts are clamped to one.\<close>

definition squash :: "'g multiset \<Rightarrow> 'g multiset" where
  "squash A = mset_set (set_mset A)"

lemma clamp_idempotent_ok:
  assumes "canonical ms"
  shows "canonical (clamp_idempotent ms)" "bag (clamp_idempotent ms) = squash (bag ms)"
proof -
  have cl: "classes (clamp_idempotent ms) = classes ms" by (force simp: clamp_idempotent_def classes_def)
  show can: "canonical (clamp_idempotent ms)"
    using assms by (auto simp: canonical_def clamp_idempotent_def comp_def case_prod_beta')
  have "count (bag (clamp_idempotent ms)) g = count (squash (bag ms)) g" for g
  proof (cases "g \<in> classes ms")
    case True
    then obtain m where "(g, m) \<in> set ms" by (auto simp: classes_def)
    then have "(g, 1) \<in> set (clamp_idempotent ms)" by (force simp: clamp_idempotent_def)
    then have "count (bag (clamp_idempotent ms)) g = 1" by (rule count_bag_mem [OF can])
    then show ?thesis using True assms by (simp add: squash_def)
  next
    case False
    then show ?thesis using cl assms by (simp add: squash_def)
  qed
  then show "bag (clamp_idempotent ms) = squash (bag ms)" by (rule multiset_eqI)
qed

lemma squash_subset: "squash A \<subseteq># A"
  by (simp add: squash_def subseteq_mset_def count_mset_set' Suc_le_eq)

definition set_rel :: "'g nf_rule list \<Rightarrow> 'g multiset \<Rightarrow> 'g multiset \<Rightarrow> bool" where
  "set_rel rs A B \<longleftrightarrow> (\<exists>C. rw rs A C \<and> B = squash C)"

definition step_over :: "nat \<Rightarrow> 'g nf_rule list \<Rightarrow> 'g multiset \<Rightarrow> bool" where
  "step_over mx rs A \<longleftrightarrow> (\<exists>B g. rw rs A B \<and> mx < count B g)"

definition set_monomial :: "nat \<Rightarrow> 'g::linorder kids \<Rightarrow> bool" where
  "set_monomial mx ms \<longleftrightarrow> monomial mx ms \<and> (\<forall>m \<in> snd ` set ms. m = 1)"

lemma clamp_set_monomial: "monomial mx ms \<Longrightarrow> set_monomial mx (clamp_idempotent ms)"
  using clamp_idempotent_ok(1) [of ms]
  by (force simp: set_monomial_def monomial_def clamp_idempotent_def canonical_def)

lemma plain_step:
  assumes "r \<in> set rs" "rule_ok mx r" "monomial mx out" "nf_lhs r \<noteq> []" "bag (nf_lhs r) \<subseteq># bag out"
  obtains (over) "plain_rewrite mx r out = None" "step_over mx rs (bag out)"
    | (fits) c where "plain_rewrite mx r out = Some c" "monomial mx c" "rw rs (bag out) (bag c)"
      "deg_less (bag (nf_rhs r)) (bag (nf_lhs r)) \<Longrightarrow> deg_less (bag c) (bag out)"
proof -
  have ne: "bag (nf_lhs r) \<noteq> {#}" using assms(2,4) bag_inject [of "nf_lhs r" "[]"] by (auto simp: rule_ok_def monomial_iff)
  let ?B = "bag out - bag (nf_lhs r) + bag (nf_rhs r)"
  have rw: "rw rs (bag out) ?B" using assms(1,5) ne by (auto simp: rw_def)
  show thesis
  proof (cases "plain_rewrite mx r out")
    case None
    then have "\<exists>g. mx < count ?B g" using plain_rewrite_ok [OF assms(3,2,5)] by (simp only: option.case)
    then have "step_over mx rs (bag out)" using rw unfolding step_over_def by blast
    then show thesis using None by (rule over [rotated])
  next
    case (Some c)
    then have c: "monomial mx c" "bag c = ?B" using plain_rewrite_ok [OF assms(3,2,5)] by simp_all
    then show thesis using Some rw deg_less_replace [OF assms(5)] by (intro fits [of c]) (simp_all only:)
  qed
qed

interpretation set0: rewriter "filter (rule_ok mx) rs"
    "\<lambda>r out. Inr (map_option clamp_idempotent (plain_rewrite mx r out))" "set_monomial mx"
    "set_rel (filter (rule_ok mx) rs)" "step_over mx (filter (rule_ok mx) rs)"
  for mx :: nat and rs :: "'g::linorder nf_rule list"
proof
  fix out r assume a: "set_monomial mx out" "r \<in> set (filter (rule_ok mx) rs)" "nf_lhs r \<noteq> []" "bag (nf_lhs r) \<subseteq># bag out"
  then have "rule_ok mx r" "monomial mx out" by (auto simp: set_monomial_def)
  from plain_step [OF a(2) this a(3,4)]
  show "(Inr (map_option clamp_idempotent (plain_rewrite mx r out)) = Inr None \<and> step_over mx (filter (rule_ok mx) rs) (bag out)) \<or>
      (\<exists>c. Inr (map_option clamp_idempotent (plain_rewrite mx r out)) = Inr (Some c) \<and> set_monomial mx c \<and>
        set_rel (filter (rule_ok mx) rs) (bag out) (bag c))"
    by cases (auto simp: set_rel_def clamp_set_monomial clamp_idempotent_ok(2) monomial_def [THEN iffD1])
qed (auto simp: rule_ok_def monomial_iff set_monomial_def)

interpretation set1: terminating_rewriter "down_rules mx rs"
    "\<lambda>r out. Inr (map_option clamp_idempotent (plain_rewrite mx r out))" "set_monomial mx"
    "set_rel (down_rules mx rs)" "step_over mx (down_rules mx rs)"
  for mx :: nat and rs :: "'g::wellorder nf_rule list"
proof
  fix out r assume a: "set_monomial mx out" "r \<in> set (down_rules mx rs)" "nf_lhs r \<noteq> []" "bag (nf_lhs r) \<subseteq># bag out"
  then have r: "rule_ok mx r" "oriented r" and m: "monomial mx out" by (auto simp: set_monomial_def)
  note p = plain_step [OF a(2) r(1) m a(3,4)]
  show "(Inr (map_option clamp_idempotent (plain_rewrite mx r out)) = Inr None \<and> step_over mx (down_rules mx rs) (bag out)) \<or>
      (\<exists>c. Inr (map_option clamp_idempotent (plain_rewrite mx r out)) = Inr (Some c) \<and> set_monomial mx c \<and>
        set_rel (down_rules mx rs) (bag out) (bag c))"
    by (rule p) (auto simp: set_rel_def clamp_set_monomial clamp_idempotent_ok(2) monomial_def [THEN iffD1])
  fix c assume c: "Inr (map_option clamp_idempotent (plain_rewrite mx r out)) = Inr (Some c)"
  show "deg_less (bag c) (bag out)"
    by (rule p) (use c oriented_deg_less [OF r] in \<open>auto simp: clamp_idempotent_ok(2) monomial_def [THEN iffD1]
        intro: deg_less_subseteq [OF squash_subset]\<close>)
qed (auto simp: rule_ok_def monomial_iff set_monomial_def)

text \<open>Counts modulo an order: after every rewrite whole blocks of \<open>n\<close> copies vanish.\<close>

definition blocks :: "nat \<Rightarrow> 'g kids \<Rightarrow> 'g kids" where
  "blocks n ms = map (\<lambda>(g, m). (g, m div n)) ms"

lemma clamp_nilpotent_ok:
  assumes "0 < n" "canonical ms"
  obtains c where "clamp_nilpotent n ms = Inr c" "canonical c" "\<forall>p \<in> set c. snd p < n"
    "bag ms = bag c + repeat_mset n (bag (blocks n ms))"
proof -
  have "\<exists>c. clamp_nilpotent n ms = Inr c \<and> canonical c \<and> classes c \<subseteq> classes ms \<and> (\<forall>p \<in> set c. snd p < n) \<and>
      bag ms = bag c + repeat_mset n (bag (blocks n ms))"
    using assms(2)
  proof (induction ms)
    case (Cons p ms)
    obtain g m where p: "p = (g, m)" by (cases p)
    from Cons p obtain c where c: "clamp_nilpotent n ms = Inr c" "canonical c" "classes c \<subseteq> classes ms"
      "\<forall>p \<in> set c. snd p < n" "bag ms = bag c + repeat_mset n (bag (blocks n ms))" by auto
    let ?c = "(if m mod n = 0 then [] else [(g, m mod n)]) @ c"
    have "clamp_nilpotent n (p # ms) = Inr ?c"
      using c(1) assms(1) p by (auto simp: clamp_nilpotent_def elim!: rbind_eq_InrE)
    moreover have "replicate_mset m g = replicate_mset (m mod n) g + repeat_mset n (replicate_mset (m div n) g)"
      by (simp add: multiset_eq_iff mult.commute)
    then have "bag (p # ms) = bag ?c + repeat_mset n (bag (blocks n (p # ms)))"
      using c(5) p by (auto simp: blocks_def multiset_eq_iff algebra_simps)
    moreover have "canonical ?c" "classes ?c \<subseteq> classes (p # ms)" "\<forall>q \<in> set ?c. snd q < n"
      using c Cons.prems p assms(1) by auto
    ultimately show ?case by blast
  qed (simp add: clamp_nilpotent_def blocks_def)
  then show thesis using that by blast
qed

definition nil_rel :: "'g nf_rule list \<Rightarrow> nat \<Rightarrow> 'g multiset \<Rightarrow> 'g multiset \<Rightarrow> bool" where
  "nil_rel rs n A B \<longleftrightarrow> (\<exists>D. rw rs A (B + repeat_mset n D))"

definition nil_monomial :: "nat \<Rightarrow> nat \<Rightarrow> 'g::linorder kids \<Rightarrow> bool" where
  "nil_monomial mx n ms \<longleftrightarrow> monomial mx ms \<and> (\<forall>p \<in> set ms. snd p < n)"

lemma clamp_nil_monomial:
  assumes "0 < n" "monomial mx ms"
  obtains c D where "clamp_nilpotent n ms = Inr c" "nil_monomial mx n c" "bag ms = bag c + repeat_mset n D"
proof -
  from assms(2) have "canonical ms" by (simp add: monomial_def)
  from clamp_nilpotent_ok [OF assms(1) this] obtain c where c: "clamp_nilpotent n ms = Inr c" "canonical c"
    "\<forall>p \<in> set c. snd p < n" "bag ms = bag c + repeat_mset n (bag (blocks n ms))" .
  have "count (bag c) g \<le> mx" for g
  proof -
    have "count (bag c) g \<le> count (bag ms) g" by (simp add: c(4))
    also have "\<dots> \<le> mx" using assms(2) by (simp add: monomial_iff)
    finally show ?thesis .
  qed
  then have "nil_monomial mx n c" using c by (simp add: nil_monomial_def monomial_iff)
  then show thesis using that c by blast
qed

lemma nilpotent_step:
  assumes "0 < n" "r \<in> set rs" "rule_ok mx r" "nil_monomial mx n out" "nf_lhs r \<noteq> []" "bag (nf_lhs r) \<subseteq># bag out"
  obtains (over) "nilpotent_rewrite mx n r out = Inr None" "step_over mx rs (bag out)"
    | (fits) c where "nilpotent_rewrite mx n r out = Inr (Some c)" "nil_monomial mx n c" "nil_rel rs n (bag out) (bag c)"
      "deg_less (bag (nf_rhs r)) (bag (nf_lhs r)) \<Longrightarrow> deg_less (bag c) (bag out)"
proof -
  have m: "monomial mx out" using assms(4) by (simp add: nil_monomial_def)
  show thesis
  proof (rule plain_step [OF assms(2,3) m assms(5,6)])
    assume "plain_rewrite mx r out = None" "step_over mx rs (bag out)"
    then show thesis by (intro over) (simp_all add: nilpotent_rewrite_def)
  next
    fix d assume d: "plain_rewrite mx r out = Some d" "monomial mx d" "rw rs (bag out) (bag d)"
      "deg_less (bag (nf_rhs r)) (bag (nf_lhs r)) \<Longrightarrow> deg_less (bag d) (bag out)"
    from clamp_nil_monomial [OF assms(1) d(2)] obtain c D
      where c: "clamp_nilpotent n d = Inr c" "nil_monomial mx n c" "bag d = bag c + repeat_mset n D" .
    then show thesis using d
      by (intro fits [of c]) (auto simp: nilpotent_rewrite_def nil_rel_def
          intro: deg_less_subseteq [of "bag c" "bag c + repeat_mset n D"])
  qed
qed

interpretation nil0: rewriter "filter (rule_ok mx) rs" "nilpotent_rewrite mx (Suc n)" "nil_monomial mx (Suc n)"
    "nil_rel (filter (rule_ok mx) rs) (Suc n)" "step_over mx (filter (rule_ok mx) rs)"
  for mx n :: nat and rs :: "'g::linorder nf_rule list"
proof
  fix out r assume a: "nil_monomial mx (Suc n) out" "r \<in> set (filter (rule_ok mx) rs)" "nf_lhs r \<noteq> []" "bag (nf_lhs r) \<subseteq># bag out"
  then have "rule_ok mx r" by simp
  then show "(nilpotent_rewrite mx (Suc n) r out = Inr None \<and> step_over mx (filter (rule_ok mx) rs) (bag out)) \<or>
      (\<exists>c. nilpotent_rewrite mx (Suc n) r out = Inr (Some c) \<and> nil_monomial mx (Suc n) c \<and>
        nil_rel (filter (rule_ok mx) rs) (Suc n) (bag out) (bag c))"
    by (rule nilpotent_step [OF zero_less_Suc a(2) _ a(1,3,4)]) auto
qed (auto simp: rule_ok_def monomial_iff nil_monomial_def)

interpretation nil1: terminating_rewriter "down_rules mx rs" "nilpotent_rewrite mx (Suc n)" "nil_monomial mx (Suc n)"
    "nil_rel (down_rules mx rs) (Suc n)" "step_over mx (down_rules mx rs)"
  for mx n :: nat and rs :: "'g::wellorder nf_rule list"
proof
  fix out r assume a: "nil_monomial mx (Suc n) out" "r \<in> set (down_rules mx rs)" "nf_lhs r \<noteq> []" "bag (nf_lhs r) \<subseteq># bag out"
  then have r: "rule_ok mx r" "oriented r" by auto
  note p = nilpotent_step [OF zero_less_Suc a(2) r(1) a(1,3,4)]
  show "(nilpotent_rewrite mx (Suc n) r out = Inr None \<and> step_over mx (down_rules mx rs) (bag out)) \<or>
      (\<exists>c. nilpotent_rewrite mx (Suc n) r out = Inr (Some c) \<and> nil_monomial mx (Suc n) c \<and>
        nil_rel (down_rules mx rs) (Suc n) (bag out) (bag c))"
    by (rule p) auto
  fix c assume "nilpotent_rewrite mx (Suc n) r out = Inr (Some c)"
  then show "deg_less (bag c) (bag out)"
    using oriented_deg_less [OF r] by (cases rule: p) auto
qed (auto simp: rule_ok_def monomial_iff nil_monomial_def)

section \<open>Values\<close>

lemma mvalue_squash:
  assumes "\<And>x. v x + v x = v x"
  shows "mvalue v (squash A) = mvalue v A"
proof (induction A)
  case (add x A)
  show ?case
  proof (cases "x \<in># A")
    case True
    then obtain B where "A = add_mset x B" by (metis insert_DiffM)
    then have "v x + mvalue v A = mvalue v A" using assms [of x] by (simp add: mvalue_def add.assoc [symmetric])
    then show ?thesis using add True by (simp add: mvalue_def squash_def insert_absorb)
  next
    case False
    then show ?thesis using add by (simp add: mvalue_def squash_def)
  qed
qed (simp add: squash_def)

lemma set_rel_value:
  assumes "\<forall>r \<in> set rs. mvalue v (bag (nf_lhs r)) = mvalue v (bag (nf_rhs r))" "\<And>x. v x + v x = v x"
    "(set_rel rs)\<^sup>*\<^sup>* A B"
  shows "mvalue v B = mvalue v A"
  using assms(3)
proof (induction rule: rtranclp_induct)
  case (step B C)
  then obtain D where D: "rw rs B D" "C = squash D" by (auto simp: set_rel_def)
  then have "mvalue v D = mvalue v B" using rw_value [OF assms(1), of B D] by blast
  then show ?case using step.IH D mvalue_squash [of v D, OF assms(2)] by simp
qed simp

lemma mvalue_blocks:
  assumes "\<And>x. mvalue v (replicate_mset n x) = 0"
  shows "mvalue v (repeat_mset n D) = 0"
proof (induction D)
  case (add x D)
  have "repeat_mset n (add_mset x D) = replicate_mset n x + repeat_mset n D" by (simp add: multiset_eq_iff)
  then show ?case using add assms by simp
qed simp

lemma nil_rel_value:
  assumes "\<forall>r \<in> set rs. mvalue v (bag (nf_lhs r)) = mvalue v (bag (nf_rhs r))" "\<And>x. mvalue v (replicate_mset n x) = 0"
    "(nil_rel rs n)\<^sup>*\<^sup>* A B"
  shows "mvalue v B = mvalue v A"
  using assms(3)
proof (induction rule: rtranclp_induct)
  case (step B C)
  then obtain D where "rw rs B (C + repeat_mset n D)" by (auto simp: nil_rel_def)
  then have "mvalue v (C + repeat_mset n D) = mvalue v B" using rw_value [OF assms(1)] by blast
  then show ?case using step.IH mvalue_blocks [of v n D, OF assms(2)] by simp
qed simp

section \<open>Properties\<close>

lemma answer_mono:
  assumes "case m of Inl e \<Rightarrow> False | Inr (None, _) \<Rightarrow> P | Inr (Some c, _) \<Rightarrow> Q c" "P \<Longrightarrow> P'" "\<And>c. Q c \<Longrightarrow> Q' c"
  shows "case m of Inl e \<Rightarrow> False | Inr (None, _) \<Rightarrow> P' | Inr (Some c, _) \<Rightarrow> Q' c"
  using assms by (auto split: sum.splits option.splits)

lemma filter_all: "\<forall>r \<in> set rs. P r \<Longrightarrow> filter P rs = rs"
  by (simp add: filter_id_conv)

text \<open>
  C18: normalizing a monomial by rules that are oriented by \<open>monomial_cmp\<close>, with or without an index.  For every
  monomial there is a number of rewrites such that a call panics at most with the exhausted guard, and only if its limit is
  below that number.  At every limit a call that does not panic answers with an irreducible canonical monomial that
  single rewrites reach from the given one, or with an overflow that some sequence of rewrites really runs into.
\<close>

theorem ac_normalize_correct:
  fixes ms :: "'g::wellorder kids"
  assumes "\<forall>r \<in> set rs. rule_ok mx r \<and> oriented r" "nr_rules R = rs" "nr_ok R" "monomial mx ms"
  shows "\<exists>N. \<forall>limit. case normalize_ms_into_with_limit mx ms R limit of
      Inl e \<Rightarrow> e = RewriteGuard \<and> limit < N
    | Inr (Some out, _) \<Rightarrow> monomial mx out \<and> (rw rs)\<^sup>*\<^sup>* (bag ms) (bag out) \<and> irreducible rs (bag out)
    | Inr (None, _) \<Rightarrow> \<exists>B g. (rw rs)\<^sup>*\<^sup>* (bag ms) B \<and> mx < count B g"
proof -
  have f: "down_rules mx rs = rs" by (rule filter_all [OF assms(1)])
  have *: "(\<exists>B. (rw rs)\<^sup>*\<^sup>* A B \<and> ms_over mx rs B) \<longleftrightarrow> (\<exists>B g. (rw rs)\<^sup>*\<^sup>* A B \<and> mx < count B g)" for A
    unfolding ms_over_def by (meson rtranclp.rtrancl_refl rtranclp_trans)
  show ?thesis using ms1.normalizes_within [of R mx rs ms] assms(2-4)
    by (simp add: f * normalize_ms_into_with_limit_def case_prod_unfold cong: sum.case_cong option.case_cong)
qed

definition halving :: "nat nf_rule" where
  "halving = \<lparr>nf_lhs = [(2, 2)], nf_rhs = [(3, 1)]\<rparr>"

lemma halving_ok: "rule_ok mult16_max halving" "oriented halving" "monomial mult16_max [(2 :: nat, 5)]" "nr_ok (nr_linear [halving])"
  by (simp_all add: rule_ok_def monomial_def halving_def mult16_max_def oriented_def monomial_cmp_bag nr_ok_def nr_linear_def
      cmp_def)

lemma halving_run:
  "normalize_ms_into_with_limit mult16_max [(2, 5)] (nr_linear [halving]) 1 = Inr (Some [(2, 1), (3, 2)], nr_linear [halving])"
  by (simp add: normalize_ms_into_with_limit_def rewrite_loop.simps find_applicable_def nr_linear_def position_def halving_def
      rule_applies_linear_def ms_rewrite_def times_contained_def binary_search_by_key_def mult_checked_div_def charge_def
      mult_checked_mul_def mult_checked_add_def mult16_max_def)

theorem ac_normalize_correct_witness:
  "normalize_ms_into_with_limit mult16_max [(2, 5)] (nr_linear [halving]) 1 = Inr (Some [(2, 1), (3, 2)], nr_linear [halving]) \<and>
   (\<exists>N. \<forall>limit. case normalize_ms_into_with_limit mult16_max [(2, 5)] (nr_linear [halving]) limit of
      Inl e \<Rightarrow> e = RewriteGuard \<and> limit < N
    | Inr (Some out, _) \<Rightarrow> monomial mult16_max out \<and> (rw [halving])\<^sup>*\<^sup>* (bag [(2, 5)]) (bag out) \<and> irreducible [halving] (bag out)
    | Inr (None, _) \<Rightarrow> \<exists>B g. (rw [halving])\<^sup>*\<^sup>* (bag [(2, 5)]) B \<and> mult16_max < count B g)"
proof
  show "normalize_ms_into_with_limit mult16_max [(2, 5)] (nr_linear [halving]) 1 = Inr (Some [(2, 1), (3, 2)], nr_linear [halving])"
    by (rule halving_run)
  show "\<exists>N. \<forall>limit. case normalize_ms_into_with_limit mult16_max [(2, 5)] (nr_linear [halving]) limit of
      Inl e \<Rightarrow> e = RewriteGuard \<and> limit < N
    | Inr (Some out, _) \<Rightarrow> monomial mult16_max out \<and> (rw [halving])\<^sup>*\<^sup>* (bag [(2, 5)]) (bag out) \<and> irreducible [halving] (bag out)
    | Inr (None, _) \<Rightarrow> \<exists>B g. (rw [halving])\<^sup>*\<^sup>* (bag [(2, 5)]) B \<and> mult16_max < count B g"
    by (rule ac_normalize_correct) (use halving_ok in \<open>auto simp: nr_linear_def\<close>)
qed

text \<open>
  the normalizers of idempotent and of nilpotent operators end as well, the clamp after every rewrite
  included, with an irreducible monomial whose counts are all one, or all below the order.
\<close>

theorem clamped_normalize_correct:
  fixes ms :: "'g::wellorder kids"
  assumes "\<forall>r \<in> set rs. rule_ok mx r \<and> oriented r" "nr_rules R = rs" "nr_ok R" "monomial mx ms" "0 < n"
  shows "\<exists>N. \<forall>limit \<ge> N. (case normalize_set_into_with_limit mx ms R limit of
      Inl _ \<Rightarrow> False
    | Inr (Some out, _) \<Rightarrow> set_monomial mx out \<and> irreducible rs (bag out)
    | Inr (None, _) \<Rightarrow> \<exists>B. (set_rel rs)\<^sup>*\<^sup>* (squash (bag ms)) B \<and> step_over mx rs B) \<and>
    (case normalize_nilpotent_into_with_limit mx ms R n limit of
      Inl _ \<Rightarrow> False
    | Inr (Some out, _) \<Rightarrow> nil_monomial mx n out \<and> irreducible rs (bag out)
    | Inr (None, _) \<Rightarrow> \<exists>A B D. bag ms = A + repeat_mset n D \<and> (nil_rel rs n)\<^sup>*\<^sup>* A B \<and> step_over mx rs B)"
proof -
  have f: "down_rules mx rs = rs" by (rule filter_all [OF assms(1)])
  have can: "canonical ms" using assms(4) by (simp add: monomial_def)
  obtain k where k: "n = Suc k" using assms(5) by (cases n) auto
  from clamp_nil_monomial [OF assms(5,4)] obtain c D
    where c: "clamp_nilpotent n ms = Inr c" "nil_monomial mx n c" "bag ms = bag c + repeat_mset n D" .
  obtain N where N: "case normalize_set_into_with_limit mx ms R limit of
      Inl _ \<Rightarrow> False
    | Inr (Some out, _) \<Rightarrow> set_monomial mx out \<and> irreducible rs (bag out)
    | Inr (None, _) \<Rightarrow> \<exists>B. (set_rel rs)\<^sup>*\<^sup>* (squash (bag ms)) B \<and> step_over mx rs B" if "N \<le> limit" for limit
  proof -
    from set1.normalizes [of R mx rs "clamp_idempotent ms", unfolded f clamp_idempotent_ok [OF can]]
      assms(2-3) clamp_set_monomial [OF assms(4)]
    obtain N where "\<forall>limit \<ge> N. case normalize_set_into_with_limit mx ms R limit of Inl e \<Rightarrow> False
      | Inr (None, _) \<Rightarrow> \<exists>B. (set_rel rs)\<^sup>*\<^sup>* (squash (bag ms)) B \<and> step_over mx rs B
      | Inr (Some c, _) \<Rightarrow> set_monomial mx c \<and> (set_rel rs)\<^sup>*\<^sup>* (squash (bag ms)) (bag c) \<and> irreducible rs (bag c)"
      unfolding normalize_set_into_with_limit_def by blast
    then show ?thesis by (intro that [of N]) (erule allE, erule impE, assumption, erule answer_mono, blast+)
  qed
  obtain M where M: "case normalize_nilpotent_into_with_limit mx ms R n limit of
      Inl _ \<Rightarrow> False
    | Inr (Some out, _) \<Rightarrow> nil_monomial mx n out \<and> irreducible rs (bag out)
    | Inr (None, _) \<Rightarrow> \<exists>A B D. bag ms = A + repeat_mset n D \<and> (nil_rel rs n)\<^sup>*\<^sup>* A B \<and> step_over mx rs B" if "M \<le> limit" for limit
  proof -
    from nil1.normalizes [of R mx rs k c, unfolded f k [symmetric]] assms(2-3) c(2)
    obtain M where "\<forall>limit \<ge> M. case normalize_nilpotent_into_with_limit mx ms R n limit of Inl e \<Rightarrow> False
      | Inr (None, _) \<Rightarrow> \<exists>B. (nil_rel rs n)\<^sup>*\<^sup>* (bag c) B \<and> step_over mx rs B
      | Inr (Some c', _) \<Rightarrow> nil_monomial mx n c' \<and> (nil_rel rs n)\<^sup>*\<^sup>* (bag c) (bag c') \<and> irreducible rs (bag c')"
      unfolding normalize_nilpotent_into_with_limit_def c(1) rbind_Inr by blast
    then show ?thesis using c(3) by (intro that [of M]) (erule allE, erule impE, assumption, erule answer_mono, blast+)
  qed
  show ?thesis by (rule exI [of _ "max N M"]) (use N M in simp)
qed

theorem clamped_normalize_correct_witness:
  "\<exists>N. \<forall>limit \<ge> N. (case normalize_set_into_with_limit mult16_max [(2, 5)] (nr_linear [halving]) limit of
      Inl _ \<Rightarrow> False
    | Inr (Some out, _) \<Rightarrow> set_monomial mult16_max out \<and> irreducible [halving] (bag out)
    | Inr (None, _) \<Rightarrow> \<exists>B. (set_rel [halving])\<^sup>*\<^sup>* (squash (bag [(2, 5)])) B \<and> step_over mult16_max [halving] B) \<and>
    (case normalize_nilpotent_into_with_limit mult16_max [(2, 5)] (nr_linear [halving]) 3 limit of
      Inl _ \<Rightarrow> False
    | Inr (Some out, _) \<Rightarrow> nil_monomial mult16_max 3 out \<and> irreducible [halving] (bag out)
    | Inr (None, _) \<Rightarrow> \<exists>A B D. bag [(2, 5)] = A + repeat_mset 3 D \<and> (nil_rel [halving] 3)\<^sup>*\<^sup>* A B \<and> step_over mult16_max [halving] B)"
  by (rule clamped_normalize_correct) (use halving_ok in \<open>auto simp: nr_linear_def\<close>)

lemma normalize_values:
  fixes v :: "'g::linorder \<Rightarrow> 'a::comm_monoid_add"
  assumes "\<forall>r \<in> set rs. rule_ok mx r \<and> mvalue v (bag (nf_lhs r)) = mvalue v (bag (nf_rhs r))"
    "nr_rules R = rs" "nr_ok R" "monomial mx ms"
  shows "normalize_ms_into_with_limit mx ms R limit = Inr (Some out, R') \<Longrightarrow> mvalue v (bag out) = mvalue v (bag ms)"
    and "(\<And>x. v x + v x = v x) \<Longrightarrow>
      normalize_set_into_with_limit mx ms R limit = Inr (Some out, R') \<Longrightarrow> mvalue v (bag out) = mvalue v (bag ms)"
    and "0 < n \<Longrightarrow> (\<And>x. mvalue v (replicate_mset n x) = 0) \<Longrightarrow>
      normalize_nilpotent_into_with_limit mx ms R n limit = Inr (Some out, R') \<Longrightarrow> mvalue v (bag out) = mvalue v (bag ms)"
proof -
  have f: "filter (rule_ok mx) rs = rs" using assms(1) by (intro filter_all) auto
  have val: "\<forall>r \<in> set rs. mvalue v (bag (nf_lhs r)) = mvalue v (bag (nf_rhs r))" using assms(1) by auto
  have can: "canonical ms" using assms(4) by (simp add: monomial_def)
  show "mvalue v (bag out) = mvalue v (bag ms)" if "normalize_ms_into_with_limit mx ms R limit = Inr (Some out, R')"
    using ms0.loop_result [of R mx rs ms limit] that assms(2-4) f rw_value [OF val]
    by (auto simp: normalize_ms_into_with_limit_def)
  show "mvalue v (bag out) = mvalue v (bag ms)"
    if v: "\<And>x. v x + v x = v x" and n: "normalize_set_into_with_limit mx ms R limit = Inr (Some out, R')"
  proof -
    have "(set_rel rs)\<^sup>*\<^sup>* (squash (bag ms)) (bag out)"
      using set0.loop_result [of R mx rs "clamp_idempotent ms" limit] n assms(2-4) f clamp_set_monomial [of mx ms]
        clamp_idempotent_ok(2) [OF can] by (auto simp: normalize_set_into_with_limit_def)
    then show ?thesis using set_rel_value [OF val v] mvalue_squash [of v "bag ms", OF v] by simp
  qed
  show "mvalue v (bag out) = mvalue v (bag ms)"
    if "0 < n" and v: "\<And>x. mvalue v (replicate_mset n x) = 0"
      and n: "normalize_nilpotent_into_with_limit mx ms R n limit = Inr (Some out, R')"
  proof -
    obtain k where k: "n = Suc k" using \<open>0 < n\<close> by (cases n) auto
    from clamp_nil_monomial [OF \<open>0 < n\<close> assms(4)] obtain c D
      where c: "clamp_nilpotent n ms = Inr c" "nil_monomial mx n c" "bag ms = bag c + repeat_mset n D" .
    have "(nil_rel rs n)\<^sup>*\<^sup>* (bag c) (bag out)"
      using nil0.loop_result [of R mx rs k c limit] n assms(2-4) f c k
      by (auto simp: normalize_nilpotent_into_with_limit_def)
    then show ?thesis using nil_rel_value [OF val v] mvalue_blocks [of v n D, OF v] c(3) by simp
  qed
qed

text \<open>
  C19: normalizing is sound.  In every commutative monoid in which the rules hold, the result of a normalizer
  has the value of the given monomial; for the clamped ones, when in addition \<open>x + x = x\<close>, or \<open>n\<close> copies
  of every element make zero.
\<close>

theorem normalize_preserves_value:
  fixes v :: "'g::linorder \<Rightarrow> 'a::comm_monoid_add"
  assumes "\<forall>r \<in> set rs. rule_ok mx r \<and> mvalue v (bag (nf_lhs r)) = mvalue v (bag (nf_rhs r))"
    "nr_rules R = rs" "nr_ok R" "monomial mx ms"
  shows "(normalize_ms_into_with_limit mx ms R limit = Inr (Some out, R') \<longrightarrow> mvalue v (bag out) = mvalue v (bag ms)) \<and>
    ((\<forall>x. v x + v x = v x) \<longrightarrow>
      normalize_set_into_with_limit mx ms R limit = Inr (Some out, R') \<longrightarrow> mvalue v (bag out) = mvalue v (bag ms)) \<and>
    (0 < n \<longrightarrow> (\<forall>x. mvalue v (replicate_mset n x) = 0) \<longrightarrow>
      normalize_nilpotent_into_with_limit mx ms R n limit = Inr (Some out, R') \<longrightarrow> mvalue v (bag out) = mvalue v (bag ms))"
  using normalize_values [OF assms] by blast

theorem normalize_preserves_value_witness:
  "mvalue (\<lambda>x. x - 1) (bag [(2, 1), (3, 2)]) = mvalue (\<lambda>x :: nat. x - 1 :: nat) (bag [(2, 5)])"
proof -
  have "\<forall>r \<in> set [halving]. rule_ok mult16_max r \<and>
      mvalue (\<lambda>x. x - 1 :: nat) (bag (nf_lhs r)) = mvalue (\<lambda>x. x - 1) (bag (nf_rhs r))"
    using halving_ok by (simp add: halving_def mvalue_def eval_nat_numeral)
  moreover have "nr_rules (nr_linear [halving]) = [halving]" by (simp add: nr_linear_def)
  ultimately show ?thesis
    using normalize_preserves_value [of "[halving]" mult16_max "\<lambda>x. x - 1 :: nat" "nr_linear [halving]" "[(2, 5)]" 1
        "[(2, 1), (3, 2)]" "nr_linear [halving]" 1] halving_ok(3,4) halving_run by blast
qed

text \<open>
  C20: the index is transparent.  For every rule table that fits the 32-bit positions the index is built, and a
  normalizer that consults it gives the answer of the normalizer that scans all rules, panics included.
\<close>

theorem nf_index_transparent:
  fixes ms :: "'g::linorder kids"
  assumes "\<forall>r \<in> set rs. rule_ok mx r" "length rs < 2 ^ 32" "monomial mx ms" "0 < n"
  shows "\<exists>ix. nf_index_rebuild rs = Inr ix \<and>
    rbind (normalize_ms_into_with_limit mx ms (nr_indexed rs ix) limit) (\<lambda>(c, _). Inr c) =
      rbind (normalize_ms_into_with_limit mx ms (nr_linear rs) limit) (\<lambda>(c, _). Inr c) \<and>
    rbind (normalize_set_into_with_limit mx ms (nr_indexed rs ix) limit) (\<lambda>(c, _). Inr c) =
      rbind (normalize_set_into_with_limit mx ms (nr_linear rs) limit) (\<lambda>(c, _). Inr c) \<and>
    rbind (normalize_nilpotent_into_with_limit mx ms (nr_indexed rs ix) n limit) (\<lambda>(c, _). Inr c) =
      rbind (normalize_nilpotent_into_with_limit mx ms (nr_linear rs) n limit) (\<lambda>(c, _). Inr c)"
proof -
  from assms(2) obtain ix where ix: "nf_index_rebuild rs = Inr ix" by (simp add: nf_index_rebuild_def)
  let ?I = "nr_indexed rs ix" and ?L = "nr_linear rs"
  have f: "filter (rule_ok mx) rs = rs" using assms(1) by (rule filter_all)
  have ok: "nr_ok ?I" "nr_ok ?L" "nr_rules ?I = rs" "nr_rules ?L = rs"
    using assms(1) ix by (auto simp: nr_ok_def nr_indexed_def nr_linear_def rule_ok_def monomial_def)
  obtain k where k: "n = Suc k" using assms(4) by (cases n) auto
  from clamp_nil_monomial [OF assms(4,3)] obtain c D
    where c: "clamp_nilpotent n ms = Inr c" "nil_monomial mx n c" "bag ms = bag c + repeat_mset n D" .
  show ?thesis
    using ix ms0.loop_same [of ?I mx rs ?L ms limit, unfolded f, OF ok(1,3,2,4) assms(3)]
      set0.loop_same [of ?I mx rs ?L "clamp_idempotent ms" limit, unfolded f, OF ok(1,3,2,4) clamp_set_monomial [OF assms(3)]]
      nil0.loop_same [of ?I mx rs ?L k c limit, unfolded f k [symmetric], OF ok(1,3,2,4) c(2)]
    by (simp add: normalize_ms_into_with_limit_def normalize_set_into_with_limit_def normalize_nilpotent_into_with_limit_def c(1))
qed

theorem nf_index_transparent_witness:
  "\<exists>ix. nf_index_rebuild [halving] = Inr ix \<and>
    rbind (normalize_ms_into_with_limit mult16_max [(2, 5)] (nr_indexed [halving] ix) 1) (\<lambda>(c, _). Inr c) =
      Inr (Some [(2, 1), (3, 2)])"
  using nf_index_transparent [of "[halving]" mult16_max "[(2, 5)]" 1 1] halving_ok halving_run by auto

text \<open>
  \<open>monomial_cmp\<close> is a total admissible order on canonical monomials: it is antisymmetric, says equal only for
  equal monomials, does not change when the same monomial is added on both sides, and puts a monomial below every
  proper extension of it.
\<close>

theorem monomial_order_admissible:
  assumes "canonical a" "canonical b" "canonical x"
    and "try_multiset_union_into mx a x = Some ax" "try_multiset_union_into mx b x = Some bx"
  shows "monomial_cmp ax bx = monomial_cmp a b \<and> (monomial_cmp a b = Equal \<longleftrightarrow> a = b) \<and>
    (monomial_cmp a b = Greater \<longleftrightarrow> monomial_cmp b a = Less) \<and> (x \<noteq> [] \<longrightarrow> monomial_cmp a ax = Less)"
proof -
  note ax = try_multiset_union_Some(2,3) [OF assms(4)] and bx = try_multiset_union_Some(2,3) [OF assms(5)]
  have can: "canonical ax" "canonical bx" using ax(2) bx(2) assms by auto
  have "monomial_cmp ax bx = monomial_cmp a b" using assms can ax(1) bx(1)
    by (simp add: monomial_cmp_bag cmp_def)
  moreover have "monomial_cmp a b = Equal \<longleftrightarrow> a = b"
    using assms bag_inject [of a b] by (auto simp: monomial_cmp_bag)
  moreover have "monomial_cmp a b = Greater \<longleftrightarrow> monomial_cmp b a = Less"
    using assms by (simp add: monomial_cmp_deg_less)
  moreover have "monomial_cmp a ax = Less" if "x \<noteq> []"
  proof -
    have "bag x \<noteq> {#}" using that assms(3) bag_inject [of x "[]"] by auto
    then have "bag a \<subset># bag ax" using ax(1) by (simp add: subset_mset.less_le)
    then show ?thesis using assms(1) can(1) by (simp add: monomial_cmp_deg_less deg_less_subset)
  qed
  ultimately show ?thesis by blast
qed

theorem monomial_order_admissible_witness:
  "monomial_cmp [(1 :: nat, 1), (2, 2)] [(1, 2), (3, 1)] = monomial_cmp [(2 :: nat, 2)] [(1, 1), (3, 1)] \<and>
   monomial_cmp [(2, 2)] [(1 :: nat, 1), (2, 2)] = Less"
  using monomial_order_admissible [of "[(2 :: nat, 2)]" "[(1, 1), (3, 1)]" "[(1, 1)]" 10 "[(1, 1), (2, 2)]" "[(1, 2), (3, 1)]"]
  by (simp add: mult_checked_add_def cmp_def)

text \<open>
  C21: the merge walks compute the operations of multisets and their results are canonical again; the sum is refused
  exactly when a count of a shared class would not fit the width, and is the sum of multisets otherwise.
\<close>

theorem multiset_algebra_refines:
  assumes "canonical a" "canonical b"
  shows "(multiset_disjoint a b \<longleftrightarrow> set_mset (bag a) \<inter> set_mset (bag b) = {}) \<and>
    (multiset_subset a b \<longleftrightarrow> bag a \<subseteq># bag b) \<and>
    canonical (multiset_subtract_into a b) \<and> bag (multiset_subtract_into a b) = bag a - bag b \<and>
    canonical (multiset_lcm_into a b) \<and> bag (multiset_lcm_into a b) = bag a \<union># bag b \<and>
    canonical (multiset_intersect_into a b) \<and> bag (multiset_intersect_into a b) = bag a \<inter># bag b \<and>
    (case try_multiset_union_into mx a b of
        Some c \<Rightarrow> canonical c \<and> bag c = bag a + bag b \<and> (\<forall>g \<in> set_mset (bag a) \<inter> set_mset (bag b). count (bag a + bag b) g \<le> mx)
      | None \<Rightarrow> \<exists>g \<in> set_mset (bag a) \<inter> set_mset (bag b). mx < count (bag a + bag b) g)"
  using assms try_multiset_union_None [OF assms, of mx] try_multiset_union_Some [of mx a b]
  by (auto simp: multiset_disjoint_bag multiset_subset_bag multiset_subtract_canonical multiset_subtract_bag
      multiset_lcm_canonical multiset_lcm_bag multiset_intersect_canonical multiset_intersect_bag not_less split: option.split)

theorem multiset_algebra_refines_witness:
  "bag (multiset_subtract_into [(1 :: nat, 3), (2, 1)] [(1, 2), (2, 4)]) = {#1, 1, 1, 2#} - {#1, 1, 2, 2, 2, 2#}"
  using multiset_algebra_refines [of "[(1 :: nat, 3), (2, 1)]" "[(1, 2), (2, 4)]"]
  by (simp add: eval_nat_numeral)

end
