(* ===== verification/Nary_Props.thy ===== *)
theory Nary_Props
  imports Nary_Canon Nf_Props
begin

text \<open>
  The properties of the normalization of children: the multiset of the result, that it depends on nothing but the
  multiset of the given children, and that no law changes the value of the term.
\<close>

section \<open>Combining\<close>

definition kids_ok :: "nat \<Rightarrow> 'g kids \<Rightarrow> bool" where
  "kids_ok mx kids \<longleftrightarrow> (\<forall>p \<in> set kids. 0 < snd p \<and> snd p \<le> mx)"

lemma bag_mset: "mset a = mset b \<Longrightarrow> bag a = bag b"
  unfolding bag_def by (metis mset_map sum_mset_sum_list)

lemma bag_sort [simp]: "bag (sort_key f ms) = bag ms"
  by (rule bag_mset) simp

lemma combine_ac:
  assumes "kids_ok mx kids"
  obtains (overflow) out g where "combine_kids mx (Ac nil) pair_kid kids = (out, False)" "mx < count (bag kids) g"
    | (fits) out where "combine_kids mx (Ac nil) pair_kid kids = (out, True)" "monomial mx out" "bag out = bag kids"
proof -
  let ?ys = "sort_key fst kids"
  have srt: "sorted (map fst ?ys)" by simp
  have m: "case merge_in mx [] ?ys of
      Some d \<Rightarrow> canonical d \<and> bag d = bag kids \<and> (\<forall>p \<in> set d. snd p \<le> mx)
    | None \<Rightarrow> \<exists>g. mx < count (bag kids) g"
    using merge_in_ok [of "[]" ?ys mx, unfolded bag_simps bag_sort add_0] assms by (simp add: kids_ok_def)
  note c = coalesce_merge_in [where mx = mx and ms = "[]" and ys = ?ys and gap = "[]"]
  show thesis
  proof (cases "merge_in mx [] ?ys")
    case None
    then obtain g where g: "mx < count (bag kids) g" using m by auto
    have "\<exists>out. coalesce_loop mx pair_kid (length kids) ?ys 0 0 = (out, None)" using c None by simp
    then obtain out where "coalesce_loop mx pair_kid (length kids) ?ys 0 0 = (out, None)" by blast
    then have "combine_kids mx (Ac nil) pair_kid kids = (out, False)" by (simp add: combine_kids_def)
    then show thesis using g by (rule overflow)
  next
    case (Some d)
    have "\<exists>tail. coalesce_loop mx pair_kid (length kids) ?ys 0 0 = (d @ tail, Some (length d))" using c Some by simp
    then obtain tail where "coalesce_loop mx pair_kid (length kids) ?ys 0 0 = (d @ tail, Some (length d))" by blast
    then have "combine_kids mx (Ac nil) pair_kid kids = (d, True)" by (simp add: combine_kids_def)
    moreover have "monomial mx d" "bag d = bag kids" using m Some by (auto simp: monomial_def)
    ultimately show thesis by (rule fits)
  qed
qed

lemma dedup_by_key_ok:
  "sorted (map f xs) \<Longrightarrow> sorted_wrt (<) (map f (dedup_by_key f xs)) \<and> f ` set (dedup_by_key f xs) = f ` set xs \<and>
    set (dedup_by_key f xs) \<subseteq> set xs"
  for f :: "'t \<Rightarrow> 'k::linorder"
proof (induction f xs rule: dedup_by_key.induct)
  case (1 f x y xs)
  show ?case
  proof (cases "f x = f y")
    case True
    then show ?thesis using 1 by auto
  next
    case False
    then have "f x < f y" using "1.prems" by (auto intro: le_neq_trans)
    moreover have "\<forall>z \<in> set xs. f y \<le> f z" using "1.prems" by simp
    ultimately have "\<forall>z \<in> set (dedup_by_key f (y # xs)). f x < f z"
      using 1(2) [OF False] "1.prems" by (auto dest!: subsetD intro: less_le_trans)
    then show ?thesis using False 1(2) [OF False] "1.prems" by auto
  qed
qed auto

lemma combine_aci:
  "combine_kids mx Aci pair_kid kids = (map (\<lambda>g. (g, 1)) (sorted_list_of_set (fst ` set kids)), True)"
  "combine_kids mx Aci class_kid gs = (sorted_list_of_set (set gs), True)"
proof -
  have "map fst (dedup_by_key fst (sort_key fst kids)) = sorted_list_of_set (fst ` set kids)"
    using dedup_by_key_ok [of fst "sort_key fst kids"] by (intro strict_sorted_equal) auto
  then have "map (kd_set_mult pair_kid 1) (dedup_by_key fst (sort_key fst kids)) = map (\<lambda>g. (g, 1)) (sorted_list_of_set (fst ` set kids))"
    by (metis (mono_tags, lifting) comp_apply map_eq_conv map_map pair_kid_simps(3))
  then show "combine_kids mx Aci pair_kid kids = (map (\<lambda>g. (g, 1)) (sorted_list_of_set (fst ` set kids)), True)"
    by (simp add: combine_kids_def)
  have "dedup_by_key (\<lambda>g. g) (sort gs) = sorted_list_of_set (set gs)"
    using dedup_by_key_ok [of "\<lambda>g. g" "sort gs"] by (intro strict_sorted_equal) auto
  moreover have "map (kd_set_mult class_kid 1) gs' = gs'" for gs' :: "'b list" by (simp add: map_idI)
  ultimately show "combine_kids mx Aci class_kid gs = (sorted_list_of_set (set gs), True)"
    by (simp add: combine_kids_def)
qed

section \<open>Unit and order\<close>

definition sans :: "'g option \<Rightarrow> 'g multiset \<Rightarrow> 'g multiset" where
  "sans u A = (case u of None \<Rightarrow> A | Some x \<Rightarrow> filter_mset (\<lambda>g. g \<noteq> x) A)"

lemma bag_filter: "bag (filter (\<lambda>k. P (fst k)) ms) = filter_mset P (bag ms)"
  by (induction ms) (auto simp: multiset_eq_iff)

lemma monomial_filter: "monomial mx ms \<Longrightarrow> monomial mx (filter P ms)"
  by (auto simp: monomial_def canonical_def sorted_wrt_map intro: sorted_wrt_filter)

lemma drop_unit_ok:
  assumes "monomial mx ms"
  shows "monomial mx (drop_unit u pair_kid ms)" "bag (drop_unit u pair_kid ms) = sans u (bag ms)"
  using assms bag_filter [of "\<lambda>g. g \<noteq> _" ms] by (auto simp: drop_unit_def sans_def monomial_filter split: option.splits)

lemma rem_all_pair: "rem_all pair_kid n kids = rem_counts n kids"
  by (induction kids) auto

lemma clamp_kids_pair: "clamp_kids (Some n) pair_kid kids = clamp_nilpotent n kids"
  by (simp add: clamp_kids_def clamp_nilpotent_def rem_all_pair)

section \<open>Cancelling inverse pairs\<close>

text \<open>
  What a visit leaves: the visited child is gone, or has no inverse, or is a single self-inverse, or its inverse is gone.
\<close>

definition settled :: "('g \<Rightarrow> 'g option) \<Rightarrow> 'g kids \<Rightarrow> nat \<Rightarrow> bool" where
  "settled io kids i \<longleftrightarrow> (case io (fst (kids ! i)) of
      None \<Rightarrow> True
    | Some y \<Rightarrow> snd (kids ! i) = 0 \<or>
        (if y = fst (kids ! i) then snd (kids ! i) \<le> 1
         else \<forall>j < length kids. fst (kids ! j) = y \<longrightarrow> snd (kids ! j) = 0))"

definition shrunk :: "'g kids \<Rightarrow> 'g kids \<Rightarrow> bool" where
  "shrunk ks kids \<longleftrightarrow> map fst ks = map fst kids \<and> (\<forall>i < length kids. snd (ks ! i) \<le> snd (kids ! i))"

lemma shrunk_refl [simp]: "shrunk ks ks"
  by (simp add: shrunk_def)

lemma shrunk_length: "shrunk ks kids \<Longrightarrow> length ks = length kids"
  by (metis shrunk_def length_map)

lemma shrunk_trans: "shrunk a b \<Longrightarrow> shrunk b c \<Longrightarrow> shrunk a c"
proof -
  assume s: "shrunk a b" "shrunk b c"
  then have "length b = length c" by (simp add: shrunk_length)
  with s have "map fst a = map fst c" "\<And>i. i < length c \<Longrightarrow> snd (a ! i) \<le> snd (c ! i)"
    by (simp_all add: shrunk_def) (metis order_trans)
  then show ?thesis by (simp add: shrunk_def)
qed

lemma shrunk_update: "i < length kids \<Longrightarrow> m \<le> snd (kids ! i) \<Longrightarrow> shrunk (kids[i := (fst (kids ! i), m)]) kids"
  unfolding shrunk_def using list_update_id [of "map fst kids" i] by (simp add: map_update nth_list_update)

lemma shrunk_fst: "shrunk ks kids \<Longrightarrow> i < length kids \<Longrightarrow> fst (ks ! i) = fst (kids ! i)"
proof -
  assume s: "shrunk ks kids" and i: "i < length kids"
  from s have "map fst ks ! i = map fst kids ! i" by (simp add: shrunk_def)
  then show ?thesis using i shrunk_length [OF s] by simp
qed

lemma settled_shrunk: "shrunk ks kids \<Longrightarrow> i < length kids \<Longrightarrow> settled io kids i \<Longrightarrow> settled io ks i"
proof -
  assume s: "shrunk ks kids" and i: "i < length kids" and st: "settled io kids i"
  have le: "snd (ks ! j) \<le> snd (kids ! j)" if "j < length kids" for j using s that by (simp add: shrunk_def)
  show ?thesis using st shrunk_fst [OF s] i le shrunk_length [OF s]
    by (fastforce simp: settled_def split: option.splits if_splits)
qed

lemma bag_Cons: "bag (p # ms) = replicate_mset (snd p) (fst p) + bag ms"
  by (cases p) simp

lemma bag_split: "i < length kids \<Longrightarrow> bag kids = replicate_mset (snd (kids ! i)) (fst (kids ! i)) + bag (take i kids @ drop (Suc i) kids)"
proof -
  assume "i < length kids"
  then have "kids = take i kids @ kids ! i # drop (Suc i) kids" by (rule id_take_nth_drop)
  then have "bag kids = bag (take i kids @ kids ! i # drop (Suc i) kids)" by simp
  then show ?thesis by (simp only: bag_simps bag_Cons ac_simps)
qed

lemma bag_update:
  assumes "i < length kids" "m \<le> snd (kids ! i)"
  shows "bag kids = bag (kids[i := (fst (kids ! i), m)]) + replicate_mset (snd (kids ! i) - m) (fst (kids ! i))"
proof -
  have "bag (kids[i := (fst (kids ! i), m)]) = replicate_mset m (fst (kids ! i)) + bag (take i kids @ drop (Suc i) kids)"
    using bag_split [of i "kids[i := (fst (kids ! i), m)]"] assms(1) by simp
  then show ?thesis using bag_split [OF assms(1)] assms(2) by (simp add: multiset_eq_iff)
qed

lemma mvalue_even:
  assumes "v x + v x = (0 :: 'a::comm_monoid_add)" "even n"
  shows "mvalue v (replicate_mset n x) = 0"
proof -
  have "mvalue v (replicate_mset (2 * k) x) = 0" for k
    using assms(1) by (induction k) (simp_all add: mvalue_def add.assoc [symmetric])
  then show ?thesis using assms(2) by (auto elim!: evenE)
qed

lemma mvalue_opposite:
  assumes "v x + v y = (0 :: 'a::comm_monoid_add)"
  shows "mvalue v (replicate_mset k x) + mvalue v (replicate_mset k y) = 0"
proof (induction k)
  case (Suc k)
  have "v x + mvalue v (replicate_mset k x) + (v y + mvalue v (replicate_mset k y)) =
      (v x + v y) + (mvalue v (replicate_mset k x) + mvalue v (replicate_mset k y))" by (simp add: ac_simps)
  then show ?case using Suc assms by (simp add: mvalue_def)
qed (simp add: mvalue_def)

lemma cancel_visit_ok:
  assumes i: "i < length kids" and srt: "sorted_wrt (<) (map fst kids)"
    and res: "cancel_visit pair_kid io i kids ch = (ks, ch')"
  shows "shrunk ks kids" "settled io ks i" "\<not> ch' \<Longrightarrow> \<not> ch \<and> ks = kids"
    "\<forall>x y. io x = Some y \<longrightarrow> v x + v y = (0 :: 'a::comm_monoid_add) \<Longrightarrow> mvalue v (bag ks) = mvalue v (bag kids)"
proof -
  let ?x = "fst (kids ! i)" and ?c = "snd (kids ! i)"
  have uniq: "a = b" if "a < length kids" "b < length kids" "fst (kids ! a) = fst (kids ! b)" for a b
    using srt that by (metis (no_types, lifting) length_map nth_eq_iff_index_eq nth_map strict_sorted_iff)
  consider (none) "?c = 0 \<or> io ?x = None" "ks = kids" "ch' = ch"
    | (self) "io ?x = Some ?x" "1 < ?c" "ks = kids[i := (?x, ?c mod 2)]" "ch'"
    | (self1) "io ?x = Some ?x" "?c \<le> 1" "ks = kids" "ch' = ch"
    | (absent) y where "io ?x = Some y" "y \<noteq> ?x" "\<forall>j < length kids. fst (kids ! j) = y \<longrightarrow> snd (kids ! j) = 0" "ks = kids" "ch' = ch"
    | (pair) y j k where "io ?x = Some y" "y \<noteq> ?x" "j < length kids" "fst (kids ! j) = y" "i \<noteq> j"
        "k = min ?c (snd (kids ! j))" "0 < k" "ks = (kids[i := (?x, ?c - k)])[j := (y, snd (kids ! j) - k)]" "ch'"
  proof -
    show thesis
    proof (cases "?c = 0 \<or> io ?x = None")
      case True
      then show thesis using res by (intro none) (auto simp: cancel_visit_def Let_def split: if_splits)
    next
      case False
      then obtain y where y: "io ?x = Some y" "0 < ?c" by auto
      show thesis
      proof (cases "y = ?x")
        case True
        then show thesis using res y self self1 by (auto simp: cancel_visit_def Let_def split: if_splits)
      next
        case ne: False
        show thesis
        proof (cases "binary_search_by_key fst kids y")
          case None
          then have "\<forall>p \<in> set kids. fst p \<noteq> y" by (simp add: binary_search_by_key_def position_None)
          then have "\<forall>j < length kids. fst (kids ! j) = y \<longrightarrow> snd (kids ! j) = 0" using nth_mem by blast
          then show thesis using res y ne None by (intro absent [of y]) (auto simp: cancel_visit_def Let_def)
        next
          case (Some j)
          from position_SomeD [OF this [unfolded binary_search_by_key_def]] have j: "j < length kids" "fst (kids ! j) = y" by auto
          have ij: "i \<noteq> j" using j ne by auto
          show thesis
          proof (cases "0 < min ?c (snd (kids ! j))")
            case True
            then show thesis using res y ne Some j ij
              by (intro pair [of y j "min ?c (snd (kids ! j))"]) (auto simp: cancel_visit_def Let_def)
          next
            case False
            then have "snd (kids ! j) = 0" using y(2) by simp
            then have "\<forall>j' < length kids. fst (kids ! j') = y \<longrightarrow> snd (kids ! j') = 0" using uniq j by metis
            then show thesis using res y ne Some j False by (intro absent [of y]) (auto simp: cancel_visit_def Let_def)
          qed
        qed
      qed
    qed
  qed
  note split = this
  show "\<not> ch \<and> ks = kids" if "\<not> ch'"
    by (cases rule: split) (use that in auto)
  have "shrunk ks kids \<and> settled io ks i \<and>
      ((\<forall>x y. io x = Some y \<longrightarrow> v x + v y = (0 :: 'a)) \<longrightarrow> mvalue v (bag ks) = mvalue v (bag kids))"
  proof (cases rule: split)
    case self
    have "bag kids = bag ks + replicate_mset (?c - ?c mod 2) ?x" using bag_update [OF i, of "?c mod 2"] self(3) by simp
    moreover have "mvalue v (replicate_mset (?c - ?c mod 2) ?x) = 0" if "\<forall>x y. io x = Some y \<longrightarrow> v x + v y = (0 :: 'a)"
      using that self(1) by (intro mvalue_even) auto
    moreover have "shrunk ks kids" using shrunk_update [OF i, of "?c mod 2"] self(3) by simp
    moreover have "settled io ks i" using self(1,3) i by (simp add: settled_def) linarith
    ultimately show ?thesis by simp
  next
    case (pair y j k)
    let ?k1 = "kids[i := (?x, ?c - k)]"
    have j: "?k1 ! j = kids ! j" "j < length ?k1" using pair by simp_all
    have ks: "ks = ?k1[j := (fst (?k1 ! j), snd (?k1 ! j) - k)]" using pair j by simp
    have "bag kids = bag ?k1 + replicate_mset k ?x" using bag_update [OF i, of "?c - k"] pair by simp
    moreover have "bag ?k1 = bag ks + replicate_mset k y" using bag_update [OF j(2), of "snd (?k1 ! j) - k"] pair(4,6) ks j(1) by simp
    ultimately have "mvalue v (bag kids) = mvalue v (bag ks) + (mvalue v (replicate_mset k ?x) + mvalue v (replicate_mset k y))"
      by (simp add: ac_simps)
    moreover have "mvalue v (replicate_mset k ?x) + mvalue v (replicate_mset k y) = 0" if "\<forall>x y. io x = Some y \<longrightarrow> v x + v y = (0 :: 'a)"
      using that pair(1) by (intro mvalue_opposite) auto
    moreover have sh: "shrunk ks kids"
      using shrunk_trans [OF shrunk_update [OF j(2), of "snd (?k1 ! j) - k"] shrunk_update [OF i, of "?c - k"]] ks by simp
    moreover have "settled io ks i"
    proof -
      have fst: "fst (ks ! a) = fst (kids ! a)" "length ks = length kids" if "a < length kids" for a
        using shrunk_fst [OF sh that] shrunk_length [OF sh] by simp_all
      have "snd (ks ! i) = 0 \<or> snd (ks ! j) = 0" using pair i by (auto simp: min_def)
      moreover have "a = j" if "a < length kids" "fst (kids ! a) = y" for a using uniq [OF that(1) pair(3)] that(2) pair(4) by simp
      ultimately show ?thesis using fst i pair(1,2) by (auto simp: settled_def)
    qed
    ultimately show ?thesis by simp
  qed (use i in \<open>auto simp: settled_def split: option.splits\<close>)
  then show "shrunk ks kids" "settled io ks i"
    "\<forall>x y. io x = Some y \<longrightarrow> v x + v y = (0 :: 'a) \<Longrightarrow> mvalue v (bag ks) = mvalue v (bag kids)" by blast+
qed

lemma cancel_loop_ok:
  assumes "i + n = length kids" "sorted_wrt (<) (map fst kids)" "\<forall>a < i. settled io kids a"
    and "cancel_loop pair_kid io n i kids ch = (ks, ch')"
  shows "shrunk ks kids \<and> (\<forall>a < length kids. settled io ks a) \<and> (\<not> ch' \<longrightarrow> \<not> ch \<and> ks = kids) \<and>
    ((\<forall>x y. io x = Some y \<longrightarrow> v x + v y = (0 :: 'a::comm_monoid_add)) \<longrightarrow> mvalue v (bag ks) = mvalue v (bag kids))"
  using assms
proof (induction n arbitrary: i kids ch)
  case (Suc n)
  obtain k1 c1 where visit: "cancel_visit pair_kid io i kids ch = (k1, c1)" by fastforce
  have i: "i < length kids" using Suc.prems(1) by simp
  note v1 = cancel_visit_ok [OF i Suc.prems(2) visit]
  have len: "length k1 = length kids" using shrunk_length [OF v1(1)] .
  have "sorted_wrt (<) (map fst k1)" using v1(1) Suc.prems(2) by (simp add: shrunk_def)
  moreover have "\<forall>a < i + 1. settled io k1 a"
    using v1(2) settled_shrunk [OF v1(1)] Suc.prems(3) i by (auto simp: less_Suc_eq)
  moreover have "cancel_loop pair_kid io n (i + 1) k1 c1 = (ks, ch')" using Suc.prems(4) visit by simp
  ultimately have "shrunk ks k1 \<and> (\<forall>a < length k1. settled io ks a) \<and> (\<not> ch' \<longrightarrow> \<not> c1 \<and> ks = k1) \<and>
    ((\<forall>x y. io x = Some y \<longrightarrow> v x + v y = (0 :: 'a)) \<longrightarrow> mvalue v (bag ks) = mvalue v (bag k1))"
    using Suc.IH [of "i + 1" k1 c1] Suc.prems(1) len by simp
  then show ?case using v1 len shrunk_trans [of ks k1 kids] by auto
qed auto

lemma bag_nonzero: "bag (filter (\<lambda>p. snd p \<noteq> 0) ks) = bag ks"
  by (induction ks) auto

definition no_pairs :: "('g \<Rightarrow> 'g option) \<Rightarrow> 'g kids \<Rightarrow> bool" where
  "no_pairs io ms \<longleftrightarrow> (\<forall>(x, m) \<in> set ms. case io x of
      None \<Rightarrow> True
    | Some y \<Rightarrow> if y = x then m = 1 else y \<notin> classes ms)"

lemma cancel_by_ok:
  assumes "monomial mx ms"
  shows "monomial mx (fst (cancel_by pair_kid io ms))" "no_pairs io (fst (cancel_by pair_kid io ms))"
    "\<forall>x y. io x = Some y \<longrightarrow> v x + v y = (0 :: 'a::comm_monoid_add) \<Longrightarrow>
      mvalue v (bag (fst (cancel_by pair_kid io ms))) = mvalue v (bag ms)"
proof -
  obtain ks ch where loop: "cancel_loop pair_kid io (length ms) 0 ms False = (ks, ch)" by fastforce
  have srt: "sorted_wrt (<) (map fst ms)" and pos: "\<forall>p \<in> set ms. 0 < snd p \<and> snd p \<le> mx"
    using assms by (auto simp: monomial_def canonical_def)
  note l = cancel_loop_ok [of 0 "length ms" ms io False ks ch v, OF _ srt _ loop, simplified]
  let ?out = "filter (\<lambda>p. snd p \<noteq> 0) ks"
  have out: "fst (cancel_by pair_kid io ms) = ?out"
  proof (cases ch)
    case False
    then have "ks = ms" using l by blast
    then have "?out = ks" using pos by (auto simp: filter_id_conv)
    then show ?thesis using loop False by (simp add: cancel_by_def)
  qed (simp add: cancel_by_def loop)
  have sh: "shrunk ks ms" and len: "length ks = length ms" using l shrunk_length by auto
  have srt': "sorted_wrt (<) (map fst ks)" using sh srt by (simp add: shrunk_def)
  have "\<forall>p \<in> set ks. snd p \<le> mx"
  proof
    fix p assume "p \<in> set ks"
    then obtain i where i: "i < length ms" "p = ks ! i" using len by (auto simp: in_set_conv_nth)
    then have "snd p \<le> snd (ms ! i)" using sh by (simp add: shrunk_def)
    also have "\<dots> \<le> mx" using pos i(1) by simp
    finally show "snd p \<le> mx" .
  qed
  then show "monomial mx (fst (cancel_by pair_kid io ms))"
    using srt' sorted_wrt_filter [of "\<lambda>a b. fst a < fst b" ks] by (auto simp: out monomial_def canonical_def sorted_wrt_map)
  show "no_pairs io (fst (cancel_by pair_kid io ms))"
    unfolding out no_pairs_def
  proof (clarify)
    fix x m assume "(x, m) \<in> set ?out"
    then obtain i where i: "i < length ks" "ks ! i = (x, m)" "0 < m" by (auto simp: in_set_conv_nth)
    have st: "settled io ks i" using l i(1) len by simp
    have "y \<notin> classes ?out" if "io x = Some y" "y \<noteq> x" for y
    proof
      assume "y \<in> classes ?out"
      then obtain j where "j < length ks" "fst (ks ! j) = y" "snd (ks ! j) \<noteq> 0" by (auto simp: classes_def in_set_conv_nth)
      then show False using st that i by (auto simp: settled_def)
    qed
    then show "case io x of None \<Rightarrow> True | Some y \<Rightarrow> if y = x then m = 1 else y \<notin> classes ?out"
      using st i by (auto simp: settled_def split: option.splits)
  qed
  show "mvalue v (bag (fst (cancel_by pair_kid io ms))) = mvalue v (bag ms)"
    if "\<forall>x y. io x = Some y \<longrightarrow> v x + v y = (0 :: 'a)"
    using l that unfolding out bag_nonzero by blast
qed

section \<open>The normalization as a whole\<close>

definition ac_count :: "'g option \<Rightarrow> nat option \<Rightarrow> 'g \<Rightarrow> nat \<Rightarrow> nat" where
  "ac_count unit nil g c = (if unit = Some g then 0 else case nil of None \<Rightarrow> c | Some n \<Rightarrow> c mod n)"

lemma clamp_kids_ok:
  assumes "monomial mx ms" "nil \<noteq> Some 0"
  obtains c D where "clamp_kids nil pair_kid ms = Inr c" "monomial mx c"
    "\<And>g. count (bag c) g = (case nil of None \<Rightarrow> count (bag ms) g | Some n \<Rightarrow> count (bag ms) g mod n)"
    "bag ms = bag c + (case nil of None \<Rightarrow> {#} | Some n \<Rightarrow> repeat_mset n D)"
proof (cases nil)
  case None
  then show thesis using assms that [of ms] by (simp add: clamp_kids_def)
next
  case (Some n)
  then have n: "0 < n" using assms(2) by simp
  from clamp_nil_monomial [OF n assms(1)] obtain c D
    where c: "clamp_nilpotent n ms = Inr c" "nil_monomial mx n c" "bag ms = bag c + repeat_mset n D" .
  have "count (bag c) g < n" for g
  proof (cases "g \<in> classes c")
    case True
    then obtain m where "(g, m) \<in> set c" by (auto simp: classes_def)
    then show ?thesis using c(2) count_bag_mem [of c g m] by (auto simp: nil_monomial_def monomial_def)
  qed (use n in simp)
  then have "count (bag c) g = count (bag ms) g mod n" for g by (simp add: c(3))
  then show thesis using that [of c D] c Some by (simp add: clamp_kids_pair nil_monomial_def)
qed

lemma normalize_ac:
  assumes "kids_ok mx kids" "nl_kind laws = Ac nil" "nil \<noteq> Some 0"
  obtains (overflow) g out where "mx < count (bag kids) g" "normalize mx laws ic kids = Inr (NfOverflow, out)"
    | (fits) d c where "monomial mx d" "bag d = bag kids" "clamp_kids nil pair_kid (drop_unit (nl_unit laws) pair_kid d) = Inr c"
      "normalize mx laws ic kids = Inr (normal_of (nl_unit laws) pair_kid (cancel_kids (nl_inverse laws) ic pair_kid c),
        cancel_kids (nl_inverse laws) ic pair_kid c)"
  using assms(1)
proof (cases rule: combine_ac [where nil = nil])
  case (overflow out g)
  then show thesis using that(1) [of g out] assms(2) by (simp add: normalize_def normalize_by_def)
next
  case (fits d)
  from drop_unit_ok(1) [OF fits(2)] have "monomial mx (drop_unit (nl_unit laws) pair_kid d)" .
  from clamp_kids_ok [OF this assms(3)] obtain c
    where c: "clamp_kids nil pair_kid (drop_unit (nl_unit laws) pair_kid d) = Inr c" by blast
  then show thesis using that(2) [of d c] fits assms(2) by (simp add: normalize_def normalize_by_def)
qed

section \<open>Properties\<close>

text \<open>
  C22: the children of a node of an AC operator that declares no inverse are normalized exactly: the result is canonical
  and holds every class with the sum of its multiplicities, reduced modulo the positive order of a nilpotent operator, the
  unit left out; the answer is overflow exactly when some sum does not fit the width.
\<close>

theorem nary_normalize_exact:
  assumes "kids_ok mx kids" "nl_kind laws = Ac nil" "nil \<noteq> Some 0" "nl_inverse laws = None"
  shows "case normalize mx laws ic kids of
      Inl _ \<Rightarrow> False
    | Inr (nf, out) \<Rightarrow> if \<exists>g. mx < count (bag kids) g then nf = NfOverflow
        else nf = normal_of (nl_unit laws) pair_kid out \<and> monomial mx out \<and>
          (\<forall>g. count (bag out) g = ac_count (nl_unit laws) nil g (count (bag kids) g))"
  using assms(1-3)
proof (cases rule: normalize_ac [where ic = ic])
  case (overflow g out)
  then show ?thesis by auto
next
  case (fits d c)
  have nob: "\<not> (\<exists>g. mx < count (bag kids) g)" using fits(1,2) by (auto simp: monomial_iff not_less)
  note du = drop_unit_ok [OF fits(1), of "nl_unit laws"]
  from clamp_kids_ok [OF du(1) assms(3)] fits(3) have c: "monomial mx c"
    "count (bag c) g = (case nil of None \<Rightarrow> count (sans (nl_unit laws) (bag kids)) g
      | Some n \<Rightarrow> count (sans (nl_unit laws) (bag kids)) g mod n)" for g
    unfolding du(2) fits(2) by auto
  have "count (bag c) g = ac_count (nl_unit laws) nil g (count (bag kids) g)" for g
    unfolding c(2) by (auto simp: ac_count_def sans_def split: option.splits)
  then show ?thesis using fits(4) c(1) nob assms(4) by (simp add: cancel_kids_def)
qed

definition xor_laws :: "(nat, unit) nary_laws" where
  "xor_laws = \<lparr>nl_kind = Ac (Some 2), nl_unit = Some 7, nl_inverse = None\<rparr>"

lemma mult32_small: "mult_checked_add mult32_max 1 2 = Some 3" "3 \<le> mult32_max"
  by (simp_all add: mult_checked_add_def mult32_max_def)

lemma xor_run: "normalize mult32_max xor_laws (\<lambda>_ _. None) [(3, 1), (1, 2), (7, 1), (3, 2)] = Inr (NfSingle 3, [(3, 1)])"
  using mult32_small(1)
  by (simp add: normalize_def normalize_by_def combine_kids_def xor_laws_def drop_unit_def
      clamp_kids_def cancel_kids_def normal_of_def)

theorem nary_normalize_exact_witness:
  "NfSingle 3 = normal_of (nl_unit xor_laws) pair_kid [(3, 1)] \<and>
    (\<forall>g. count (bag [(3, 1)]) g = ac_count (nl_unit xor_laws) (Some 2) g (count (bag [(3, 1), (1, 2), (7, 1), (3, 2)]) g))"
proof -
  let ?k = "[(3, 1), (1, 2), (7, 1), (3 :: nat, 2)]"
  have "count (bag ?k) g \<le> 3" for g by simp
  then have "(\<exists>g. mult32_max < count (bag ?k) g) = False" using mult32_small(2) by (meson not_less order_trans)
  moreover have "kids_ok mult32_max ?k" by (simp add: kids_ok_def mult32_max_def)
  moreover have "nl_kind xor_laws = Ac (Some 2)" "nl_inverse xor_laws = None" by (simp_all add: xor_laws_def)
  ultimately show ?thesis
    using nary_normalize_exact [of mult32_max ?k xor_laws "Some 2" "\<lambda>_ _. None", unfolded xor_run sum.case prod.case]
    by (simp only: if_False option.inject zero_neq_numeral [symmetric] not_False_eq_True simp_thms)
qed

text \<open>
  congruent children get the same canonical form.  Unless a count overflows, the normalization of an AC node is
  determined by the multiset of its children, and that of an ACI node by their set, whatever their order and
  grouping, inverse cancellation included.
\<close>

theorem nary_normalize_congruent:
  assumes "kids_ok mx kids" "kids_ok mx kids'"
  shows "(nl_kind laws = Ac nil \<and> bag kids = bag kids' \<and> (\<forall>g. count (bag kids) g \<le> mx) \<longrightarrow>
      normalize mx laws ic kids = normalize mx laws ic kids') \<and>
    (nl_kind laws = Aci \<and> fst ` set kids = fst ` set kids' \<longrightarrow>
      normalize mx laws ic kids = normalize mx laws ic kids')"
proof (intro conjI impI)
  assume ac: "nl_kind laws = Ac nil \<and> bag kids = bag kids' \<and> (\<forall>g. count (bag kids) g \<le> mx)"
  obtain d where d: "combine_kids mx (Ac nil) pair_kid kids = (d, True)" "monomial mx d" "bag d = bag kids"
    using assms(1) by (cases rule: combine_ac [where nil = nil]) (use ac in \<open>auto simp: not_less [symmetric]\<close>)
  obtain d' where d': "combine_kids mx (Ac nil) pair_kid kids' = (d', True)" "monomial mx d'" "bag d' = bag kids'"
    using assms(2) by (cases rule: combine_ac [where nil = nil]) (use ac in \<open>auto simp: not_less [symmetric]\<close>)
  have "d = d'" using d d' ac by (auto simp: monomial_def intro: bag_inject)
  then show "normalize mx laws ic kids = normalize mx laws ic kids'"
    using d(1) d'(1) ac by (simp add: normalize_def normalize_by_def)
next
  assume "nl_kind laws = Aci \<and> fst ` set kids = fst ` set kids'"
  then show "normalize mx laws ic kids = normalize mx laws ic kids'"
    by (simp add: normalize_def normalize_by_def combine_aci)
qed

theorem nary_normalize_congruent_witness:
  "normalize mult32_max xor_laws (\<lambda>_ _. None) [(3, 3), (7, 1), (1, 2)] = Inr (NfSingle 3, [(3, 1)])"
proof -
  let ?k = "[(3, 1), (1, 2), (7, 1), (3 :: nat, 2)]" and ?l = "[(3, 3), (7, 1), (1 :: nat, 2)]"
  have "bag ?k = bag ?l" by (simp add: multiset_eq_iff)
  moreover have "count (bag ?k) g \<le> 3" for g by simp
  then have "\<forall>g. count (bag ?k) g \<le> mult32_max" by (auto simp: mult32_max_def intro: order_trans)
  moreover have "kids_ok mult32_max ?k" "kids_ok mult32_max ?l" by (simp_all add: kids_ok_def mult32_max_def)
  moreover have "nl_kind xor_laws = Ac (Some 2)" by (simp add: xor_laws_def)
  ultimately show ?thesis
    using nary_normalize_congruent [of mult32_max ?k ?l xor_laws "Some 2" "\<lambda>_ _. None"] xor_run by simp
qed

text \<open>
  C23: normalizing the children of an AC node never changes the value of the term, in any commutative monoid in which
  the unit is zero, the copies of a nilpotent order vanish and the inverses that the lookup names are inverses; a
  degenerate answer names a term of that value.  Afterwards no child and its inverse are left together, and a
  self-inverse child occurs once.
\<close>

theorem nary_normalize_sound:
  fixes v :: "'g::linorder \<Rightarrow> 'a::comm_monoid_add"
  assumes "kids_ok mx kids" "nl_kind laws = Ac nil" "nil \<noteq> Some 0"
    and "\<forall>u. nl_unit laws = Some u \<longrightarrow> v u = 0" "\<forall>n x. nil = Some n \<longrightarrow> mvalue v (replicate_mset n x) = 0"
    and "\<forall>iv x y. nl_inverse laws = Some iv \<longrightarrow> ic iv x = Some y \<longrightarrow> v x + v y = 0"
  shows "case normalize mx laws ic kids of
      Inl _ \<Rightarrow> False
    | Inr (NfOverflow, _) \<Rightarrow> \<exists>g. mx < count (bag kids) g
    | Inr (nf, out) \<Rightarrow> monomial mx out \<and> mvalue v (bag out) = mvalue v (bag kids) \<and>
        (nf = NfUnit \<or> nf = NfEmpty \<longrightarrow> mvalue v (bag kids) = 0) \<and> (\<forall>g. nf = NfSingle g \<longrightarrow> mvalue v (bag kids) = v g) \<and>
        (\<forall>iv. nl_inverse laws = Some iv \<longrightarrow> no_pairs (ic iv) out)"
  using assms(1-3)
proof (cases rule: normalize_ac [where ic = ic])
  case (overflow g out)
  then show ?thesis by auto
next
  case (fits d c)
  let ?u = "nl_unit laws" and ?out = "cancel_kids (nl_inverse laws) ic pair_kid c"
  note du = drop_unit_ok [OF fits(1), of ?u]
  have unit: "mvalue v (sans ?u A) = mvalue v A" for A
    using assms(4) by (induction A) (auto simp: sans_def mvalue_def split: option.splits)
  from clamp_kids_ok [OF du(1) assms(3)] fits(3) obtain D where c: "monomial mx c"
    "sans ?u (bag kids) = bag c + (case nil of None \<Rightarrow> {#} | Some n \<Rightarrow> repeat_mset n D)"
    unfolding du(2) fits(2) by auto
  have "mvalue v (bag c) = mvalue v (sans ?u (bag kids))"
    using c(2) mvalue_blocks [of v _ D] assms(5) by (auto split: option.splits)
  then have vc: "mvalue v (bag c) = mvalue v (bag kids)" by (simp add: unit)
  have m: "monomial mx ?out" using c(1) cancel_by_ok(1) [OF c(1)] by (simp add: cancel_kids_def split: option.splits)
  have vo: "mvalue v (bag ?out) = mvalue v (bag kids)"
    using vc cancel_by_ok(3) [OF c(1), of _ v] assms(6) by (auto simp: cancel_kids_def split: option.splits)
  have np: "\<forall>iv. nl_inverse laws = Some iv \<longrightarrow> no_pairs (ic iv) ?out"
    using cancel_by_ok(2) [OF c(1)] by (auto simp: cancel_kids_def)
  have deg: "(nf = NfUnit \<or> nf = NfEmpty \<longrightarrow> mvalue v (bag o') = 0) \<and> (\<forall>g. nf = NfSingle g \<longrightarrow> mvalue v (bag o') = v g) \<and> nf \<noteq> NfOverflow"
    if "nf = normal_of ?u pair_kid o'" for nf o'
    using that by (auto simp: normal_of_def mvalue_def bag_Cons split: list.splits if_splits)
  show ?thesis using fits(4) m vo np deg [OF refl, of ?out] by (auto split: normal.splits)
qed

definition sum_laws :: "(nat, unit) nary_laws" where
  "sum_laws = \<lparr>nl_kind = Ac None, nl_unit = Some 0, nl_inverse = Some ()\<rparr>"

definition sum_inv :: "unit \<Rightarrow> nat \<Rightarrow> nat option" where
  "sum_inv iv x = (if x = 1 then Some 2 else None)"

definition sum_val :: "nat \<Rightarrow> int" where
  "sum_val x = (if x = 1 then 5 else if x = 2 then - 5 else 0)"

theorem nary_normalize_sound_witness:
  "case normalize mult32_max sum_laws sum_inv [(2, 3), (0, 1), (1, 2)] of
      Inl _ \<Rightarrow> False
    | Inr (NfOverflow, _) \<Rightarrow> \<exists>g. mult32_max < count (bag [(2, 3), (0, 1), (1 :: nat, 2)]) g
    | Inr (nf, out) \<Rightarrow> monomial mult32_max out \<and> mvalue sum_val (bag out) = mvalue sum_val (bag [(2, 3), (0, 1), (1, 2)]) \<and>
        (nf = NfUnit \<or> nf = NfEmpty \<longrightarrow> mvalue sum_val (bag [(2, 3), (0, 1), (1, 2)]) = 0) \<and>
        (\<forall>g. nf = NfSingle g \<longrightarrow> mvalue sum_val (bag [(2, 3), (0, 1), (1, 2)]) = sum_val g) \<and>
        (\<forall>iv. nl_inverse sum_laws = Some iv \<longrightarrow> no_pairs (sum_inv iv) out)"
  by (rule nary_normalize_sound)
    (auto simp: kids_ok_def sum_laws_def mult32_max_def sum_val_def sum_inv_def split: if_splits)

text \<open>
  The children of an ACI node become the ascending list of their representatives without the unit: every class
  once, whatever the buffer held and in whatever order the children were stored.
\<close>

theorem set_canonize_exact:
  "set_canonize buf st en get fnd mode =
    (let out = sorted_list_of_set ((set buf \<union> (\<lambda>i. fnd (get i)) ` {st..<en}) - set_option (cm_unit mode))
     in Inr (normal_of (cm_unit mode) class_kid out, out))"
proof -
  let ?S = "set buf \<union> (\<lambda>i. fnd (get i)) ` {st..<en}"
  have "drop_unit u class_kid (sorted_list_of_set ?S) = sorted_list_of_set (?S - set_option u)" for u
  proof (cases u)
    case (Some x)
    have "filter (\<lambda>k. k \<noteq> x) (sorted_list_of_set ?S) = sorted_list_of_set (?S - {x})"
      by (intro strict_sorted_equal) (auto intro!: sorted_wrt_filter)
    then show ?thesis using Some by (simp add: drop_unit_def)
  qed (simp add: drop_unit_def)
  then show ?thesis
    by (simp add: set_canonize_def normalize_by_def combine_aci Let_def image_Un)
qed

text \<open>
  The commutative canonizer sorts the pair of representatives, so two applications have the same canonical form
  exactly when their children are equal in one of the two orders.
\<close>

lemma c_canonize_congruent:
  "c_canonize fnd (a, b) = c_canonize fnd (c, d) \<longleftrightarrow> {fnd a, fnd b} = {fnd c, fnd d}"
  by (auto simp: c_canonize_def Let_def doubleton_eq_iff)

end
