(* ===== verification/Extract.thy ===== *)
theory Extract
  imports Prelude "HOL-Library.Char_ord" "HOL-Library.List_Lexorder"
begin

unbundle bit_operations_syntax

text \<open>
  Extraction of a cheapest term from an e-class: \<open>egraph/src/extract.rs\<close>, with \<open>Term\<close> and its \<open>Display\<close> from
  \<open>ast.rs\<close>.  The extractor reads the e-graph through accessors and never changes it, so the e-graph appears as the
  record \<open>eg_view\<close> of what they answer; multiplicities are their exact values.  Loops whose end is a theorem of its
  own are \<open>partial_function\<close>s: \<open>None\<close> stands for a loop that never ends.
\<close>

section \<open>What the extractor reads\<close>

text \<open>Operators, with the fields that the extractor reads.\<close>

datatype op_kind = OpNormal | OpCommutative | OpA | OpMSet | OpSet | OpLit

record op_info =
  oi_name :: string
  oi_kind :: op_kind
  oi_cost :: nat
  oi_unextractable :: bool

record op_meta =
  om_cost :: nat
  om_unextractable :: bool

text \<open>\<open>co_index\<close> answers \<open>class_of\<close>.\<close>

record colouring =
  co_classes :: "nat list"
  co_members :: "nat list list"
  co_class_colour :: "nat list"
  co_node_colour :: "nat list list"
  co_rounds :: nat
  co_converged :: bool
  co_index :: "nat \<Rightarrow> nat option"

record eg_view =
  ev_len :: nat
  ev_find :: "nat \<Rightarrow> nat"
  ev_op :: "nat \<Rightarrow> nat"
  ev_flags :: "nat \<Rightarrow> 8 word"
  ev_kids :: "nat \<Rightarrow> (nat \<times> nat) list"
  ev_lit :: "nat \<Rightarrow> string option"
  ev_ops :: "op_info list"
  ev_colours :: colouring

definition FLAG_CONGRUENT_DUP :: "8 word" where
  "FLAG_CONGRUENT_DUP = push_bit 3 1"

definition meta_table :: "eg_view \<Rightarrow> op_meta list" where
  "meta_table V = map (\<lambda>i. \<lparr>om_cost = oi_cost i, om_unextractable = oi_unextractable i\<rparr>) (ev_ops V)"

section \<open>Terms\<close>

datatype eterm = TLit string | TApp string "eterm list" | TCounted "eterm" nat

datatype extract_error = AllUnextractable nat "string list" | NoGroundTerm nat

fun show_nat :: "nat \<Rightarrow> string" where
  "show_nat n = (if n < 10 then [char_of (48 + n)] else show_nat (n div 10) @ [char_of (48 + n mod 10)])"

declare show_nat.simps [simp del]

fun term_text :: "eterm \<Rightarrow> string" where
  "term_text (TLit s) = s"
| "term_text (TApp op_name children) = ''('' @ op_name @ concat (map (\<lambda>c. '' '' @ term_text c) children) @ '')''"
| "term_text (TCounted t count) = term_text t @ '':'' @ show_nat count"

section \<open>The fixpoint of costs\<close>

definition usize_max :: nat where
  "usize_max = 2 ^ 64 - 1"

definition sat_add :: "nat \<Rightarrow> nat \<Rightarrow> nat" where
  "sat_add a b = min (a + b) usize_max"

definition sat_mul :: "nat \<Rightarrow> nat \<Rightarrow> nat" where
  "sat_mul a b = min (a * b) usize_max"

text \<open>\<open>UNSET\<close> marks classes without a best node.\<close>

abbreviation UNSET :: nat where
  "UNSET \<equiv> usize_max"

record best =
  b_cost :: "nat list"
  b_height :: "nat list"
  b_node :: "nat list"

text \<open>The colour of every node; the pairs may name nodes beyond the table, which \<open>get_mut\<close> skips.\<close>

definition colour_slots :: "nat \<Rightarrow> colouring \<Rightarrow> nat list" where
  "colour_slots n K = fold (\<lambda>(ms, cs) col. fold (\<lambda>(i, c) col. col[i := c]) (zip ms cs) col)
     (zip (co_members K) (co_node_colour K)) (replicate n (2 ^ 128 - 1))"

text \<open>The closure given to \<open>for_each_child\<close>; \<open>None\<close> when a child has no best node.\<close>

fun scan_kids :: "eg_view \<Rightarrow> best \<Rightarrow> (nat \<times> nat) list \<Rightarrow> nat \<Rightarrow> nat \<Rightarrow> (nat \<times> nat) option res" where
  "scan_kids V B [] sm height = Inr (Some (sm, height))"
| "scan_kids V B ((child, mult) # ks) sm height =
    (let k = ev_find V child in
     rbind (nth_res (b_cost B) k) (\<lambda>c.
     if c = UNSET then Inr None
     else rbind (nth_res (b_height B) k) (\<lambda>h.
       scan_kids V B ks (sat_add sm (sat_mul c (min mult usize_max))) (max height (sat_add h 1)))))"

definition key_less :: "nat \<times> nat \<times> nat \<Rightarrow> nat \<times> nat \<times> nat \<Rightarrow> bool" where
  "key_less = (\<lambda>(a, b, c) (a', b', c'). a < a' \<or> a = a' \<and> (b < b' \<or> b = b' \<and> c < c'))"

text \<open>One turn of the inner loop, with whether it changed the tables.\<close>

definition best_visit :: "eg_view \<Rightarrow> op_meta list \<Rightarrow> nat list \<Rightarrow> nat \<Rightarrow> best \<Rightarrow> (bool \<times> best) res" where
  "best_visit V meta colour i B =
    rbind (nth_res meta (ev_op V i)) (\<lambda>m.
    if om_unextractable m then Inr (False, B)
    else if ev_flags V i AND FLAG_CONGRUENT_DUP \<noteq> 0 then Inr (False, B)
    else
      let slot = ev_find V i in
      rbind (scan_kids V B (ev_kids V i) (om_cost m) 0) (\<lambda>r.
      case r of
        None \<Rightarrow> Inr (False, B)
      | Some (sm, height) \<Rightarrow>
          let cand = min sm (UNSET - 1) in
          rbind (nth_res (b_cost B) slot) (\<lambda>bc.
          rbind (nth_res (b_height B) slot) (\<lambda>bh.
          rbind (nth_res (b_node B) slot) (\<lambda>bn.
          rbind (nth_res colour bn) (\<lambda>cb.
          rbind (nth_res colour i) (\<lambda>ci.
          if key_less (cand, height, ci) (bc, bh, cb)
          then Inr (True, \<lparr>b_cost = (b_cost B)[slot := cand], b_height = (b_height B)[slot := height], b_node = (b_node B)[slot := i]\<rparr>)
          else Inr (False, B))))))))"

fun best_pass :: "eg_view \<Rightarrow> op_meta list \<Rightarrow> nat list \<Rightarrow> nat list \<Rightarrow> bool \<Rightarrow> best \<Rightarrow> (bool \<times> best) res" where
  "best_pass V meta colour [] changed B = Inr (changed, B)"
| "best_pass V meta colour (i # is) changed B =
    rbind (best_visit V meta colour i B) (\<lambda>(ch, B'). best_pass V meta colour is (changed \<or> ch) B')"

partial_function (option) best_loop :: "eg_view \<Rightarrow> op_meta list \<Rightarrow> nat list \<Rightarrow> best \<Rightarrow> best res option" where
  "best_loop V meta colour B =
    (case best_pass V meta colour [0..<ev_len V] False B of
      Inl e \<Rightarrow> Some (Inl e)
    | Inr (changed, B') \<Rightarrow> if changed then best_loop V meta colour B' else Some (Inr B'))"

definition best_members :: "eg_view \<Rightarrow> best res option" where
  "best_members V = best_loop V (meta_table V) (colour_slots (ev_len V) (ev_colours V))
     \<lparr>b_cost = replicate (ev_len V) UNSET, b_height = replicate (ev_len V) UNSET, b_node = replicate (ev_len V) 0\<rparr>"

section \<open>Reconstruction\<close>

definition is_unordered :: "eg_view \<Rightarrow> nat \<Rightarrow> bool res" where
  "is_unordered V i = rbind (nth_res (ev_ops V) (ev_op V i)) (\<lambda>info. Inr (oi_kind info \<in> {OpMSet, OpSet, OpCommutative}))"

text \<open>The order of \<open>Option<Colour>\<close>.\<close>

definition class_colour_key :: "eg_view \<Rightarrow> nat \<Rightarrow> nat" where
  "class_colour_key V c = (case co_index (ev_colours V) (ev_find V c) of
      None \<Rightarrow> 0
    | Some i \<Rightarrow> if i < length (co_class_colour (ev_colours V)) then Suc (co_class_colour (ev_colours V) ! i) else 0)"

definition kids_of :: "eg_view \<Rightarrow> nat \<Rightarrow> (nat \<times> nat) list res" where
  "kids_of V i = (let kids = map (\<lambda>(c, m). (ev_find V c, m)) (ev_kids V i) in
     rbind (is_unordered V i) (\<lambda>u. Inr (if u then sort_key (\<lambda>(k, _). class_colour_key V k) kids else kids)))"

text \<open>The node of a class whose children are built.\<close>

definition build_app :: "eg_view \<Rightarrow> nat \<Rightarrow> (nat \<times> nat) list \<Rightarrow> (nat \<Rightarrow> eterm option) \<Rightarrow> eterm res" where
  "build_app V i kids built =
    (let children = List.map_filter (\<lambda>(k, m). map_option (\<lambda>t. if m = 1 then t else TCounted t m) (built k)) kids in
     rbind (is_unordered V i) (\<lambda>u.
     rbind (nth_res (ev_ops V) (ev_op V i)) (\<lambda>info.
     Inr (TApp (oi_name info) (if u then sort_key term_text children else children)))))"

text \<open>One turn of the loop over the stack, whose top is \<open>(c, expanded)\<close>.\<close>

definition build_turn :: "eg_view \<Rightarrow> nat list \<Rightarrow> nat \<Rightarrow> bool \<Rightarrow> (nat \<times> bool) list \<Rightarrow> (nat \<Rightarrow> eterm option) \<Rightarrow>
    ((nat \<times> bool) list \<times> (nat \<Rightarrow> eterm option)) res" where
  "build_turn V nodes c expanded st built =
    (if built c \<noteq> None then Inr (st, built)
     else rbind (nth_res nodes c) (\<lambda>i.
       case ev_lit V i of
         Some s \<Rightarrow> Inr (st, built(c \<mapsto> TLit s))
       | None \<Rightarrow> rbind (kids_of V i) (\<lambda>kids.
           if \<not> expanded then Inr (map (\<lambda>k. (k, False)) (filter (\<lambda>k. built k = None) (map fst kids)) @ (c, True) # st, built)
           else rbind (build_app V i kids built) (\<lambda>t. Inr (st, built(c \<mapsto> t))))))"

partial_function (option) build_loop :: "eg_view \<Rightarrow> nat list \<Rightarrow> (nat \<times> bool) list \<Rightarrow> (nat \<Rightarrow> eterm option) \<Rightarrow> (nat \<Rightarrow> eterm option) res option" where
  "build_loop V nodes st built =
    (case st of
      [] \<Rightarrow> Some (Inr built)
    | (c, expanded) # st \<Rightarrow> (case build_turn V nodes c expanded st built of
        Inl e \<Rightarrow> Some (Inl e)
      | Inr (st', built') \<Rightarrow> build_loop V nodes st' built'))"

definition reconstruct :: "eg_view \<Rightarrow> nat list \<Rightarrow> nat \<Rightarrow> eterm res option" where
  "reconstruct V nodes repr = map_option (\<lambda>r. rbind r (\<lambda>built. Inr (case built repr of Some t \<Rightarrow> t | None \<Rightarrow> TLit [])))
     (build_loop V nodes [(repr, False)] (\<lambda>_. None))"

section \<open>Extraction\<close>

text \<open>The scan of \<open>diagnose\<close>: the operators seen, whether any node was, and whether all were unextractable.\<close>

fun diagnose_scan :: "eg_view \<Rightarrow> op_meta list \<Rightarrow> nat \<Rightarrow> nat list \<Rightarrow> string list \<Rightarrow> bool \<Rightarrow> bool \<Rightarrow> (string list \<times> bool \<times> bool) res" where
  "diagnose_scan V meta repr [] ops any all_un = Inr (ops, any, all_un)"
| "diagnose_scan V meta repr (i # is) ops any all_un =
    (if ev_find V i \<noteq> repr then diagnose_scan V meta repr is ops any all_un
     else rbind (nth_res meta (ev_op V i)) (\<lambda>m.
       if om_unextractable m then
         rbind (nth_res (ev_ops V) (ev_op V i)) (\<lambda>info.
         diagnose_scan V meta repr is (if oi_name info \<in> set ops then ops else ops @ [oi_name info]) True all_un)
       else diagnose_scan V meta repr is ops True False))"

definition diagnose :: "eg_view \<Rightarrow> op_meta list \<Rightarrow> nat \<Rightarrow> extract_error res" where
  "diagnose V meta repr = rbind (diagnose_scan V meta repr [0..<ev_len V] [] False True) (\<lambda>(ops, any, all_un).
     Inr (if any \<and> all_un then AllUnextractable repr ops else NoGroundTerm repr))"

definition extract_best :: "eg_view \<Rightarrow> nat \<Rightarrow> (extract_error + eterm) res option" where
  "extract_best V root = Option.bind (best_members V) (\<lambda>r.
    case r of
      Inl e \<Rightarrow> Some (Inl e)
    | Inr B \<Rightarrow>
        let repr = ev_find V root in
        (case nth_res (b_cost B) repr of
          Inl e \<Rightarrow> Some (Inl e)
        | Inr c \<Rightarrow>
            if c = UNSET then Some (rbind (diagnose V (meta_table V) repr) (\<lambda>e. Inr (Inl e)))
            else map_option (\<lambda>r. rbind r (\<lambda>t. Inr (Inr t))) (reconstruct V (b_node B) repr)))"

end
