(* ===== verification/Canon_Colour.thy ===== *)
theory Canon_Colour
  imports Extract Multiplicity
begin

unbundle bit_operations_syntax

text \<open>
  Content colours of classes and nodes: \<open>egraph/src/canon_colour.rs\<close>.  The e-graph is read through \<open>eg_view\<close>, as by
  the extractor.  The hash is the third-party function \<open>rapidhash_v3_seeded\<close>: it is the parameter \<open>rapid\<close>, of the
  seed and the bytes.  Bytes and colours are natural numbers, the colours below \<open>2 ^ 128\<close>; text is its bytes.
\<close>

section \<open>Hashing\<close>

type_synonym rapid = "nat \<Rightarrow> nat list \<Rightarrow> 64 word"

definition SEED_HI :: nat where "SEED_HI = 0x5e3a7c01"
definition SEED_LO :: nat where "SEED_LO = 0x9d1f44b2"

definition hash_bytes :: "rapid \<Rightarrow> nat list \<Rightarrow> nat" where
  "hash_bytes rapid bytes =
    (let hi = rapid SEED_HI bytes; lo = rapid SEED_LO bytes in
     unat (push_bit 64 (ucast hi :: 128 word) OR ucast lo))"

definition TAG_SHALLOW :: nat where "TAG_SHALLOW = 0"
definition TAG_MEMBER :: nat where "TAG_MEMBER = 1"
definition TAG_CLASS :: nat where "TAG_CLASS = 2"
definition TAG_NODE :: nat where "TAG_NODE = 3"

text \<open>\<open>to_le_bytes\<close> of a word of \<open>w\<close> bytes.\<close>

definition le_bytes :: "nat \<Rightarrow> nat \<Rightarrow> nat list" where
  "le_bytes w n = map (\<lambda>i. n div 256 ^ i mod 256) [0..<w]"

text \<open>\<open>to_bytes_le\<close> of an unbounded number.\<close>

fun digits_le :: "nat \<Rightarrow> nat list" where
  "digits_le n = (if n < 256 then [n] else n mod 256 # digits_le (n div 256))"

declare digits_le.simps [simp del]

definition push_len :: "nat list \<Rightarrow> nat \<Rightarrow> nat list" where
  "push_len buf n = buf @ le_bytes 8 (if n < 2 ^ 64 then n else 2 ^ 64 - 1)"

definition push_colours :: "nat list \<Rightarrow> nat list \<Rightarrow> nat list" where
  "push_colours buf cs = fold (\<lambda>c b. b @ le_bytes 16 c) cs (push_len buf (length cs))"

section \<open>Counts\<close>

datatype ccount = Small nat | Big nat

definition count_from_big :: "nat \<Rightarrow> ccount" where
  "count_from_big n = (if n < 2 ^ 128 then Small n else Big n)"

definition count_of :: "nat \<Rightarrow> ccount" where
  "count_of m = (case mult_to_u64 m of Some v \<Rightarrow> Small v | None \<Rightarrow> count_from_big m)"

fun count_big :: "ccount \<Rightarrow> nat" where
  "count_big (Small v) = v"
| "count_big (Big b) = b"

fun count_add :: "ccount \<Rightarrow> ccount \<Rightarrow> ccount" where
  "count_add (Small a) (Small b) = (if a + b < 2 ^ 128 then Small (a + b) else count_from_big (a + b))"
| "count_add a b = count_from_big (count_big a + count_big b)"

fun push_count :: "nat list \<Rightarrow> ccount \<Rightarrow> nat list" where
  "push_count buf (Small v) = buf @ le_bytes 16 v"
| "push_count buf (Big b) = (let bytes = digits_le b in push_len (buf @ [0xff]) (length bytes) @ bytes)"

definition push_counted :: "nat list \<Rightarrow> (nat \<times> ccount) list \<Rightarrow> nat list" where
  "push_counted buf cs = fold (\<lambda>(c, m) b. push_count (b @ le_bytes 16 c) m) cs (push_len buf (length cs))"

section \<open>Members\<close>

record cmember =
  cm_id :: nat
  cm_label :: nat
  cm_unordered :: bool
  cm_subsumed :: bool
  cm_kids :: "(nat \<times> ccount) list"

definition FLAG_SUBSUMED :: "8 word" where
  "FLAG_SUBSUMED = push_bit 0 1"

definition label_bytes :: "string \<Rightarrow> nat list" where
  "label_bytes s = map of_char s"

definition read_member :: "rapid \<Rightarrow> eg_view \<Rightarrow> (nat \<Rightarrow> nat option) \<Rightarrow> nat \<Rightarrow> cmember res" where
  "read_member rapid V index i =
    rbind (case ev_lit V i of Some v \<Rightarrow> Inr v | None \<Rightarrow> rbind (nth_res (ev_ops V) (ev_op V i)) (\<lambda>info. Inr (oi_name info))) (\<lambda>label.
    rbind (is_unordered V i) (\<lambda>unordered.
    Inr \<lparr>cm_id = i, cm_label = hash_bytes rapid (label_bytes label), cm_unordered = unordered,
      cm_subsumed = (ev_flags V i AND FLAG_SUBSUMED \<noteq> 0),
      cm_kids = List.map_filter (\<lambda>(child, mult). map_option (\<lambda>k. (k, count_of mult)) (index (ev_find V child))) (ev_kids V i)\<rparr>))"

text \<open>An entry of the ordered map from representatives to members.\<close>

fun class_entry :: "nat \<Rightarrow> nat \<Rightarrow> (nat \<times> nat list) list \<Rightarrow> (nat \<times> nat list) list" where
  "class_entry r i [] = [(r, [i])]"
| "class_entry r i ((s, ids) # m) =
    (if r < s then (r, [i]) # (s, ids) # m else if r = s then (s, ids @ [i]) # m else (s, ids) # class_entry r i m)"

definition by_class :: "eg_view \<Rightarrow> (nat \<times> nat list) list" where
  "by_class V = fold (\<lambda>i m. if ev_flags V i AND FLAG_CONGRUENT_DUP \<noteq> 0 then m else class_entry (ev_find V i) i m) [0..<ev_len V] []"

section \<open>Signatures\<close>

definition class_hash :: "rapid \<Rightarrow> nat list \<Rightarrow> nat" where
  "class_hash rapid sigs = hash_bytes rapid (push_colours [TAG_CLASS] (sort sigs))"

definition shallow_sig :: "rapid \<Rightarrow> cmember \<Rightarrow> nat" where
  "shallow_sig rapid m = hash_bytes rapid
     (push_count ([TAG_SHALLOW] @ le_bytes 16 (cm_label m)) (fold (\<lambda>(_, c) acc. count_add acc c) (cm_kids m) (Small 0)) @ [of_bool (cm_subsumed m)])"

text \<open>\<open>dedup_by\<close> with a closure that adds the count of the later entry to the earlier one.\<close>

fun merge_equal :: "(nat \<times> ccount) list \<Rightarrow> (nat \<times> ccount) list" where
  "merge_equal ((c, m) # (d, k) # xs) = (if d = c then merge_equal ((c, count_add m k) # xs) else (c, m) # merge_equal ((d, k) # xs))"
| "merge_equal xs = xs"

text \<open>
  \<open>sort_unstable_by_key\<close> leaves the order of pairs with equal colours open; their counts are summed, so it does not
  matter (\<open>merge_equal_perm\<close> below).
\<close>

definition coloured_kids :: "cmember \<Rightarrow> nat list \<Rightarrow> (nat \<times> ccount) list res" where
  "coloured_kids m col = rbind (rmap (\<lambda>(k, c). rbind (nth_res col k) (\<lambda>x. Inr (x, c))) (cm_kids m)) (\<lambda>kids.
     Inr (if cm_unordered m then merge_equal (sort_key fst kids) else kids))"

definition member_sig :: "rapid \<Rightarrow> cmember \<Rightarrow> nat list \<Rightarrow> nat \<Rightarrow> nat res" where
  "member_sig rapid m col tag = rbind (coloured_kids m col) (\<lambda>kids.
     Inr (hash_bytes rapid (push_counted ([tag] @ le_bytes 16 (cm_label m)) kids @ [of_bool (cm_subsumed m)])))"

section \<open>Rounds\<close>

definition first_colours :: "rapid \<Rightarrow> cmember list list \<Rightarrow> nat list" where
  "first_colours rapid members = map (\<lambda>ms. class_hash rapid (map (shallow_sig rapid) ms)) members"

definition next_colours :: "rapid \<Rightarrow> cmember list list \<Rightarrow> nat list \<Rightarrow> nat list res" where
  "next_colours rapid members col = rmap (\<lambda>ms. rbind (rmap (\<lambda>m. member_sig rapid m col TAG_MEMBER) ms) (\<lambda>sigs. Inr (class_hash rapid sigs))) members"

text \<open>Block numbers in the order in which the colours are first seen.\<close>

fun partition_loop :: "(nat \<times> nat) list \<Rightarrow> nat list \<Rightarrow> nat list" where
  "partition_loop seen [] = []"
| "partition_loop seen (c # cs) = (let nxt = length seen in
    case map_of seen c of Some b \<Rightarrow> b # partition_loop seen cs | None \<Rightarrow> nxt # partition_loop ((c, nxt) # seen) cs)"

definition colour_partition :: "nat list \<Rightarrow> nat list" where
  "colour_partition col = partition_loop [] col"

text \<open>The loop, with how many rounds are left: the colours, the rounds and whether the partition stopped changing.\<close>

fun refine_loop :: "rapid \<Rightarrow> cmember list list \<Rightarrow> nat \<Rightarrow> nat list \<Rightarrow> nat list \<Rightarrow> nat \<Rightarrow> (nat list \<times> nat \<times> bool) res" where
  "refine_loop rapid members 0 col part rounds = Inr (col, rounds, False)"
| "refine_loop rapid members (Suc left) col part rounds =
    rbind (next_colours rapid members col) (\<lambda>nxt.
    let next_part = colour_partition nxt in
    if next_part = part then Inr (nxt, Suc rounds, True)
    else refine_loop rapid members left nxt next_part (Suc rounds))"

section \<open>The colouring\<close>

definition node_colour :: "rapid \<Rightarrow> nat list \<Rightarrow> nat \<Rightarrow> cmember \<Rightarrow> nat res" where
  "node_colour rapid col ci m =
    rbind (member_sig rapid m col TAG_NODE) (\<lambda>own.
    rbind (nth_res col ci) (\<lambda>c.
    Inr (hash_bytes rapid ([TAG_NODE] @ le_bytes 16 c @ le_bytes 16 own))))"

definition canon_colours :: "rapid \<Rightarrow> eg_view \<Rightarrow> colouring res" where
  "canon_colours rapid V =
    (let entries = by_class V; classes = map fst entries; index = map_of (zip classes [0..<length classes]) in
     rbind (rmap (\<lambda>(_, ids). rmap (read_member rapid V index) (sort ids)) entries) (\<lambda>members.
     let col = first_colours rapid members; bound = sat_add (length classes) 1 in
     rbind (refine_loop rapid members bound col (colour_partition col) 0) (\<lambda>(col, rounds, converged).
     rbind (rmap (\<lambda>(ci, ms). rmap (node_colour rapid col ci) ms) (zip [0..<length members] members)) (\<lambda>nodes.
     Inr \<lparr>co_classes = classes, co_members = map (map cm_id) members, co_class_colour = col, co_node_colour = nodes,
       co_rounds = rounds, co_converged = converged, co_index = index\<rparr>))))"

text \<open>How often every colour occurs, and how many occur more than once.\<close>

fun bump :: "nat \<Rightarrow> (nat \<times> nat) list \<Rightarrow> (nat \<times> nat) list" where
  "bump c [] = [(c, 1)]"
| "bump c ((d, n) # t) = (if c < d then (c, 1) # (d, n) # t else if c = d then (d, n + 1) # t else (d, n) # bump c t)"

definition symmetric_groups :: "colouring \<Rightarrow> nat" where
  "symmetric_groups K = length (filter (\<lambda>(_, n). 1 < n) (fold bump (co_class_colour K) []))"

end
