(* ===== verification/Extract_Inv.thy ===== *)
theory Extract_Inv
  imports Extract
begin

unbundle bit_operations_syntax

text \<open>
  The fixpoint of costs.  The meaning of a class is the set of its derivation trees, made of nodes that may be
  extracted.  The invariant keeps for every class with a best node the tree that was recorded; because entries only
  get smaller in cost and height, no class repeats on a path of such a tree, which bounds its height.  When a pass
  changes nothing, every entry is the least cost of a tree and the best nodes lead to no cycle.
\<close>

section \<open>Derivation trees\<close>

datatype dtree = Nd (nid: nat) (nsubs: "dtree list")

definition node_info :: "eg_view \<Rightarrow> nat \<Rightarrow> op_info" where
  "node_info V i = ev_ops V ! ev_op V i"

definition candidate :: "eg_view \<Rightarrow> nat \<Rightarrow> bool" where
  "candidate V i \<longleftrightarrow> i < ev_len V \<and> \<not> oi_unextractable (node_info V i) \<and> ev_flags V i AND FLAG_CONGRUENT_DUP = 0"

abbreviation kid_classes :: "eg_view \<Rightarrow> nat \<Rightarrow> nat list" where
  "kid_classes V i \<equiv> map (\<lambda>k. ev_find V (fst k)) (ev_kids V i)"

inductive derives :: "eg_view \<Rightarrow> nat \<Rightarrow> dtree \<Rightarrow> bool" for V where
  node: "candidate V i \<Longrightarrow> list_all2 (derives V) (kid_classes V i) ts \<Longrightarrow> derives V (ev_find V i) (Nd i ts)"

inductive_cases derivesE: "derives V c (Nd i ts)"

fun tcost :: "eg_view \<Rightarrow> dtree \<Rightarrow> nat" where
  "tcost V (Nd i ts) = oi_cost (node_info V i) + sum_list (map2 (\<lambda>k c. snd k * c) (ev_kids V i) (map (tcost V) ts))"

fun theight :: "dtree \<Rightarrow> nat" where
  "theight (Nd i ts) = fold max (map (\<lambda>t. Suc (theight t)) ts) 0"

fun subs :: "dtree \<Rightarrow> dtree set" where
  "subs (Nd i ts) = insert (Nd i ts) (\<Union> (subs ` set ts))"

abbreviation tclass :: "eg_view \<Rightarrow> dtree \<Rightarrow> nat" where
  "tclass V t \<equiv> ev_find V (nid t)"

fun nodup :: "eg_view \<Rightarrow> dtree \<Rightarrow> bool" where
  "nodup V (Nd i ts) \<longleftrightarrow> (\<forall>t \<in> set ts. nodup V t \<and> (\<forall>w \<in> subs t. tclass V w \<noteq> ev_find V i))"

text \<open>Costs are counted up to one below \<open>UNSET\<close>.\<close>

definition clamp :: "nat \<Rightarrow> nat" where
  "clamp n = min n (UNSET - 1)"

text \<open>What the accessors of an e-graph promise.\<close>

definition view_ok :: "eg_view \<Rightarrow> bool" where
  "view_ok V \<longleftrightarrow> ev_len V < UNSET \<and> (\<forall>i < ev_len V. ev_find V i < ev_len V \<and> ev_find V (ev_find V i) = ev_find V i \<and>
      ev_op V i < length (ev_ops V) \<and> list_all (\<lambda>k. fst k < ev_len V \<and> 1 \<le> snd k) (ev_kids V i) \<and> (ev_lit V i \<noteq> None \<longrightarrow> ev_kids V i = [])) \<and>
    list_all (\<lambda>info. oi_cost info < 2 ^ 32) (ev_ops V) \<and> list_all (list_all (\<lambda>c. c < 2 ^ 128)) (co_node_colour (ev_colours V))"

lemma view_okD:
  assumes "view_ok V" and "i < ev_len V"
  shows "ev_find V i < ev_len V" "ev_find V (ev_find V i) = ev_find V i" "ev_op V i < length (ev_ops V)"
    "\<And>k. k \<in> set (ev_kids V i) \<Longrightarrow> fst k < ev_len V \<and> 1 \<le> snd k" "oi_cost (node_info V i) < 2 ^ 32"
    "\<And>k. k \<in> set (kid_classes V i) \<Longrightarrow> k < ev_len V"
proof -
  have v: "ev_find V j < ev_len V \<and> ev_find V (ev_find V j) = ev_find V j \<and> ev_op V j < length (ev_ops V) \<and>
      (\<forall>k \<in> set (ev_kids V j). fst k < ev_len V \<and> 1 \<le> snd k)" if "j < ev_len V" for j
    using assms(1) that by (simp add: view_ok_def list_all_iff)
  show "ev_find V i < ev_len V" "ev_find V (ev_find V i) = ev_find V i" "ev_op V i < length (ev_ops V)"
    "\<And>k. k \<in> set (ev_kids V i) \<Longrightarrow> fst k < ev_len V \<and> 1 \<le> snd k" using v [OF assms(2)] by auto
  show "\<And>k. k \<in> set (kid_classes V i) \<Longrightarrow> k < ev_len V" using v assms(2) by auto
  show "oi_cost (node_info V i) < 2 ^ 32" using v [OF assms(2)] assms(1) by (simp add: view_ok_def list_all_iff node_info_def)
qed

lemma derives_class: "derives V c t \<Longrightarrow> c = tclass V t \<and> candidate V (nid t)"
  by (cases rule: derives.cases) auto

lemma derives_kids:
  assumes "derives V c (Nd i ts)"
  shows "candidate V i" "c = ev_find V i" "length ts = length (ev_kids V i)" "\<And>j. j < length ts \<Longrightarrow> derives V (ev_find V (fst (ev_kids V i ! j))) (ts ! j)"
  using assms by (auto elim!: derivesE simp: list_all2_conv_all_nth)

lemma fold_max: "fold max xs (a::nat) = Max (set (a # xs))"
  by (metis Max.set_eq_fold)

lemma theight_sub: "t \<in> set ts \<Longrightarrow> theight t < theight (Nd i ts)"
  by (simp add: fold_max Suc_le_eq [symmetric] Max_ge)

lemma theight_cases: "ts = [] \<and> theight (Nd i ts) = 0 \<or> (\<exists>t \<in> set ts. theight (Nd i ts) = Suc (theight t))"
proof (cases "ts = []")
  case False
  have "Max (set (0 # map (\<lambda>t. Suc (theight t)) ts)) \<in> set (0 # map (\<lambda>t. Suc (theight t)) ts)" by (rule Max_in) auto
  moreover have "Max (set (0 # map (\<lambda>t. Suc (theight t)) ts)) \<noteq> 0" using False by (cases ts) (auto simp: Max_eq_iff)
  ultimately show ?thesis by (auto simp: fold_max)
qed simp

lemma theight_subs: "w \<in> subs t \<Longrightarrow> w = t \<or> theight w < theight t"
proof (induction t)
  case (Nd i ts)
  show ?case
  proof (cases "w = Nd i ts")
    case False
    then obtain t where t: "t \<in> set ts" "w \<in> subs t" using Nd.prems by auto
    then show ?thesis using Nd.IH [OF t] theight_sub [OF t(1), of i] by auto
  qed simp
qed

lemma subs_self [simp]: "t \<in> subs t"
  by (cases t) simp

lemma subs_finite: "finite (subs t)"
  by (induction t) auto

text \<open>A tree in which no class repeats on a path has fewer levels than there are classes.\<close>

lemma nodup_height: "nodup V t \<Longrightarrow> Suc (theight t) \<le> card (tclass V ` subs t)"
proof (induction t)
  case (Nd i ts)
  consider "ts = []" | t where "t \<in> set ts" "theight (Nd i ts) = Suc (theight t)" using theight_cases [of ts i] by auto
  then show ?case
  proof cases
    case 1
    then show ?thesis by simp
  next
    case 2
    have f: "finite (tclass V ` subs (Nd i ts))" using subs_finite by blast
    have "Suc (theight t) \<le> card (tclass V ` subs t)" using Nd 2(1) by simp
    moreover have "ev_find V i \<notin> tclass V ` subs t" using Nd.prems 2(1) by fastforce
    then have "card (insert (ev_find V i) (tclass V ` subs t)) = Suc (card (tclass V ` subs t))" using subs_finite by simp
    moreover have "card (insert (ev_find V i) (tclass V ` subs t)) \<le> card (tclass V ` subs (Nd i ts))"
      by (rule card_mono [OF f]) (use 2(1) in auto)
    ultimately show ?thesis using 2(2) by simp
  qed
qed

lemma derives_subs: "derives V c t \<Longrightarrow> w \<in> subs t \<Longrightarrow> \<exists>d. derives V d w"
proof (induction t arbitrary: c)
  case (Nd i ts)
  show ?case
  proof (cases "w = Nd i ts")
    case False
    then obtain t where t: "t \<in> set ts" "w \<in> subs t" using Nd.prems by auto
    have "\<exists>d. derives V d t" using derives_kids(4) [OF Nd.prems(1)] t(1) by (metis in_set_conv_nth)
    then show ?thesis using Nd.IH t by blast
  qed (use Nd in blast)
qed

lemma derived_height:
  assumes ok: "view_ok V" and "derives V c t" and "nodup V t"
  shows "theight t < ev_len V"
proof -
  have "tclass V ` subs t \<subseteq> {..<ev_len V}"
  proof
    fix x assume "x \<in> tclass V ` subs t"
    then obtain w where w: "w \<in> subs t" "x = tclass V w" by blast
    then have "candidate V (nid w)" using derives_subs [OF assms(2)] derives_class by blast
    then show "x \<in> {..<ev_len V}" using w(2) view_okD(1) [OF ok] by (simp add: candidate_def)
  qed
  then have "card (tclass V ` subs t) \<le> ev_len V" using card_mono [of "{..<ev_len V}"] by fastforce
  then show ?thesis using nodup_height [OF assms(3)] by simp
qed

section \<open>Candidates\<close>

lemma sat_step: "a \<le> UNSET \<Longrightarrow> sat_add a (sat_mul c (min m usize_max)) = min (a + m * c) UNSET"
proof (cases "m \<le> usize_max \<or> c = 0")
  case False
  then have "usize_max \<le> c * usize_max" "usize_max \<le> m * c" using mult_le_mono [of usize_max m 1 c] by auto
  then have "min (c * usize_max) usize_max = usize_max" "min (a + usize_max) usize_max = usize_max" "min (a + m * c) usize_max = usize_max"
    by (simp_all only: min_absorb2 le_add2 trans_le_add2)
  then show ?thesis using False by (simp add: sat_add_def sat_mul_def min_absorb2 del: mult_cancel_right mult_le_cancel2)
qed (auto simp: sat_add_def sat_mul_def min_def mult.commute)

definition kids_cost :: "eg_view \<Rightarrow> (nat \<Rightarrow> nat) \<Rightarrow> (nat \<times> nat) list \<Rightarrow> nat" where
  "kids_cost V c ks = sum_list (map (\<lambda>k. snd k * c (ev_find V (fst k))) ks)"

definition kids_height :: "eg_view \<Rightarrow> (nat \<Rightarrow> nat) \<Rightarrow> (nat \<times> nat) list \<Rightarrow> nat" where
  "kids_height V h ks = fold max (map (\<lambda>k. Suc (h (ev_find V (fst k)))) ks) 0"

lemma scan_kids_ok:
  assumes "\<forall>k \<in> set ks. ev_find V (fst k) < length (b_cost B)" and "length (b_height B) = length (b_cost B)" and "sm \<le> UNSET"
    and h: "\<forall>k \<in> set ks. b_cost B ! ev_find V (fst k) \<noteq> UNSET \<longrightarrow> b_height B ! ev_find V (fst k) < UNSET"
  shows "scan_kids V B ks sm hh = Inr (if \<forall>k \<in> set ks. b_cost B ! ev_find V (fst k) \<noteq> UNSET
     then Some (min (sm + kids_cost V (\<lambda>k. b_cost B ! k) ks) UNSET, fold max (map (\<lambda>k. Suc (b_height B ! ev_find V (fst k))) ks) hh) else None)"
  using assms
proof (induction ks arbitrary: sm hh)
  case Nil
  then show ?case by (simp add: kids_cost_def)
next
  case (Cons k ks)
  obtain c m where k: "k = (c, m)" by (cases k)
  let ?c = "b_cost B ! ev_find V c" and ?h = "b_height B ! ev_find V c"
  have l: "ev_find V c < length (b_cost B)" using Cons.prems(1) k by simp
  show ?case
  proof (cases "?c = UNSET")
    case True
    then show ?thesis using l k by simp
  next
    case False
    have "sat_add ?h 1 = Suc ?h" using Cons.prems(4) False k by (simp add: sat_add_def)
    moreover have "min (min (sm + m * ?c) UNSET + x) UNSET = min (sm + m * ?c + x) UNSET" for x by simp
    ultimately show ?thesis using Cons.IH [of "min (sm + m * ?c) UNSET" "max hh (Suc ?h)"] Cons.prems l k False sat_step [OF Cons.prems(3)]
      by (auto simp: kids_cost_def max.commute add.assoc Let_def)
  qed
qed

text \<open>What a node offers its class.\<close>

definition offer :: "eg_view \<Rightarrow> best \<Rightarrow> nat \<Rightarrow> nat \<times> nat" where
  "offer V B i = (clamp (oi_cost (node_info V i) + kids_cost V (\<lambda>k. b_cost B ! k) (ev_kids V i)), kids_height V (\<lambda>k. b_height B ! k) (ev_kids V i))"

definition open_kids :: "eg_view \<Rightarrow> best \<Rightarrow> nat \<Rightarrow> bool" where
  "open_kids V B i \<longleftrightarrow> (\<forall>k \<in> set (ev_kids V i). b_cost B ! ev_find V (fst k) \<noteq> UNSET)"

text \<open>The entry of a class, with the colour of its best node.\<close>

definition entry :: "best \<Rightarrow> nat list \<Rightarrow> nat \<Rightarrow> nat \<times> nat \<times> nat" where
  "entry B colour s = (b_cost B ! s, b_height B ! s, colour ! (b_node B ! s))"

text \<open>Sizes of the tables.\<close>

definition sized :: "eg_view \<Rightarrow> nat list \<Rightarrow> best \<Rightarrow> bool" where
  "sized V colour B \<longleftrightarrow> length (b_cost B) = ev_len V \<and> length (b_height B) = ev_len V \<and> length (b_node B) = ev_len V \<and>
    length colour = ev_len V \<and> (\<forall>s < ev_len V. b_node B ! s < ev_len V) \<and> (\<forall>s < ev_len V. b_cost B ! s \<noteq> UNSET \<longrightarrow> b_height B ! s < UNSET)"

definition record_best :: "nat \<Rightarrow> nat \<Rightarrow> nat \<times> nat \<Rightarrow> best \<Rightarrow> best" where
  "record_best s i r B = \<lparr>b_cost = (b_cost B)[s := fst r], b_height = (b_height B)[s := snd r], b_node = (b_node B)[s := i]\<rparr>"

lemma visit_eq:
  assumes ok: "view_ok V" and i: "i < ev_len V" and sz: "sized V colour B"
  shows "best_visit V (meta_table V) colour i B = Inr
    (if candidate V i \<and> open_kids V B i \<and> key_less (fst (offer V B i), snd (offer V B i), colour ! i) (entry B colour (ev_find V i))
     then (True, record_best (ev_find V i) i (offer V B i) B) else (False, B))"
proof -
  note v = view_okD [OF ok i]
  have m: "nth_res (meta_table V) (ev_op V i) = Inr \<lparr>om_cost = oi_cost (node_info V i), om_unextractable = oi_unextractable (node_info V i)\<rparr>"
    using v(3) by (simp add: meta_table_def node_info_def)
  have "oi_cost (node_info V i) \<le> UNSET" using v(5) by (simp add: usize_max_def)
  moreover have "\<forall>k \<in> set (ev_kids V i). ev_find V (fst k) < length (b_cost B)" using v(6) sz by (auto simp: sized_def)
  moreover have "length (b_height B) = length (b_cost B)" using sz by (simp add: sized_def)
  moreover have "\<forall>k \<in> set (ev_kids V i). b_cost B ! ev_find V (fst k) \<noteq> UNSET \<longrightarrow> b_height B ! ev_find V (fst k) < UNSET"
    using v(6) sz by (auto simp: sized_def)
  ultimately have s: "scan_kids V B (ev_kids V i) (oi_cost (node_info V i)) 0 = Inr (if open_kids V B i
      then Some (min (oi_cost (node_info V i) + kids_cost V (\<lambda>k. b_cost B ! k) (ev_kids V i)) UNSET, snd (offer V B i)) else None)"
    using scan_kids_ok [of "ev_kids V i" V B "oi_cost (node_info V i)" 0] by (simp add: open_kids_def offer_def kids_height_def)
  have c: "min (min x UNSET) (UNSET - 1) = clamp x" for x by (simp add: clamp_def)
  have f: "ev_find V i < ev_len V" "b_node B ! ev_find V i < ev_len V" using v(1) sz by (auto simp: sized_def)
  show ?thesis
    using m s f i sz c by (auto simp: best_visit_def candidate_def sized_def entry_def record_best_def offer_def Let_def)
qed

section \<open>The invariant\<close>

definition lexle :: "nat \<times> nat \<Rightarrow> nat \<times> nat \<Rightarrow> bool" where
  "lexle = (\<lambda>(a, b) (a', b'). a < a' \<or> a = a' \<and> b \<le> b')"

lemma lexle_refl [simp]: "lexle x x"
  by (auto simp: lexle_def)

lemma lexle_trans: "lexle x y \<Longrightarrow> lexle y z \<Longrightarrow> lexle x z"
  by (auto simp: lexle_def)

definition tkey :: "eg_view \<Rightarrow> dtree \<Rightarrow> nat \<times> nat" where
  "tkey V t = (clamp (tcost V t), theight t)"

abbreviation slot :: "best \<Rightarrow> nat \<Rightarrow> nat \<times> nat" where
  "slot B s \<equiv> (b_cost B ! s, b_height B ! s)"

definition entry_ok :: "eg_view \<Rightarrow> best \<Rightarrow> nat \<Rightarrow> dtree \<Rightarrow> bool" where
  "entry_ok V B s t \<longleftrightarrow> derives V s t \<and> slot B s = tkey V t \<and> b_node B ! s = nid t \<and> nodup V t \<and>
    (\<forall>w \<in> subs t. b_cost B ! tclass V w \<noteq> UNSET \<and> lexle (slot B (tclass V w)) (tkey V w))"

definition best_inv :: "eg_view \<Rightarrow> nat list \<Rightarrow> best \<Rightarrow> bool" where
  "best_inv V colour B \<longleftrightarrow> sized V colour B \<and> (\<forall>s < ev_len V. b_cost B ! s \<noteq> UNSET \<longrightarrow> (\<exists>t. entry_ok V B s t))"

lemma clamp_less: "clamp n < UNSET"
  by (simp add: clamp_def usize_max_def)

lemma clamp_neq [simp]: "clamp n \<noteq> UNSET"
  using clamp_less [of n] by simp

lemma clamp_exact: "clamp a = clamp b \<Longrightarrow> clamp b \<noteq> UNSET - 1 \<Longrightarrow> a = b \<and> clamp b = b"
  by (auto simp: clamp_def min_def split: if_splits)

lemma clamp_mono: "a \<le> b \<Longrightarrow> clamp a \<le> clamp b"
  by (auto simp: clamp_def)

lemma clamp_add_cong: "clamp a = clamp b \<Longrightarrow> clamp (a + c) = clamp (b + c)"
  by (auto simp: clamp_def min_def split: if_splits)

lemma clamp_mult: "1 \<le> m \<Longrightarrow> clamp (a + m * clamp x) = clamp (a + m * x)"
proof (cases "x \<le> UNSET - 1")
  case False
  assume m: "1 \<le> m"
  have "UNSET - 1 \<le> m * (UNSET - 1)" "UNSET - 1 \<le> m * x" using m False mult_le_mono [of 1 m "UNSET - 1" "UNSET - 1"] mult_le_mono [of 1 m "UNSET - 1" x] by auto
  then have "min (a + m * (UNSET - 1)) (UNSET - 1) = UNSET - 1" "min (a + m * x) (UNSET - 1) = UNSET - 1"
    by (simp_all only: min_absorb2 trans_le_add2)
  moreover have "clamp x = UNSET - 1" using False by (simp add: clamp_def)
  ultimately show ?thesis by (simp only: clamp_def)
qed (simp add: clamp_def min_def)

lemma clamp_kids: "\<forall>k \<in> set ks. 1 \<le> snd k \<Longrightarrow> clamp (a + kids_cost V (\<lambda>k. clamp (f k)) ks) = clamp (a + kids_cost V f ks)"
proof (induction ks arbitrary: a)
  case (Cons k ks)
  let ?x = "f (ev_find V (fst k))"
  have "clamp (a + snd k * clamp ?x + kids_cost V (\<lambda>k. clamp (f k)) ks) = clamp (a + snd k * ?x + kids_cost V (\<lambda>k. clamp (f k)) ks)"
    using Cons.prems by (intro clamp_add_cong clamp_mult) simp
  also have "\<dots> = clamp (a + snd k * ?x + kids_cost V f ks)" using Cons by simp
  finally show ?case by (simp add: kids_cost_def add.assoc)
qed (simp add: kids_cost_def)

text \<open>The tree of a node whose children have trees.\<close>

abbreviation grow :: "eg_view \<Rightarrow> (nat \<Rightarrow> dtree) \<Rightarrow> nat \<Rightarrow> dtree" where
  "grow V tr i \<equiv> Nd i (map (\<lambda>k. tr (ev_find V (fst k))) (ev_kids V i))"

lemma tcost_grow: "tcost V (grow V tr i) = oi_cost (node_info V i) + kids_cost V (\<lambda>c. tcost V (tr c)) (ev_kids V i)"
  by (simp add: kids_cost_def map2_map_map map_zip_map2 zip_same_conv_map comp_def cong: map_cong)

lemma theight_grow: "theight (grow V tr i) = kids_height V (\<lambda>c. theight (tr c)) (ev_kids V i)"
  by (simp add: kids_height_def comp_def)

lemma tcost_subs:
  assumes ok: "view_ok V"
  shows "derives V c t \<Longrightarrow> w \<in> subs t \<Longrightarrow> tcost V w \<le> tcost V t"
proof (induction t arbitrary: c)
  case (Nd i ts)
  note k = derives_kids [OF Nd.prems(1)]
  show ?case
  proof (cases "w = Nd i ts")
    case False
    then obtain t where t: "t \<in> set ts" "w \<in> subs t" using Nd.prems(2) by auto
    then obtain j where j: "j < length ts" "t = ts ! j" by (metis in_set_conv_nth)
    have "tcost V w \<le> tcost V t" using Nd.IH [OF t(1) _ t(2)] k(4) [OF j(1)] j(2) by simp
    also have "1 \<le> snd (ev_kids V i ! j)" using view_okD(4) [OF ok, of i] k(1,3) j(1) nth_mem [of j "ev_kids V i"] by (auto simp: candidate_def)
    then have "tcost V t \<le> snd (ev_kids V i ! j) * tcost V (ts ! j)" using j(2) by simp
    also have "\<dots> \<le> sum_list (map2 (\<lambda>k c. snd k * c) (ev_kids V i) (map (tcost V) ts))"
      by (rule elem_le_sum_list [of j "map2 (\<lambda>k c. snd k * c) (ev_kids V i) (map (tcost V) ts)", simplified, THEN order_trans [rotated]])
        (use j k(3) in auto)
    finally show ?thesis by simp
  qed simp
qed

lemma key_less_lexle: "key_less (a, b, c) (a', b', c') \<Longrightarrow> lexle (a, b) (a', b')"
  by (auto simp: key_less_def lexle_def)

lemma record_simps:
  assumes "s < length (b_cost B)" and "length (b_height B) = length (b_cost B)" and "length (b_node B) = length (b_cost B)"
  shows "b_cost (record_best s i r B) ! q = (if q = s then fst r else b_cost B ! q)"
    "b_height (record_best s i r B) ! q = (if q = s then snd r else b_height B ! q)"
    "b_node (record_best s i r B) ! q = (if q = s then i else b_node B ! q)"
  using assms by (auto simp: record_best_def nth_list_update)

lemma visit_inv:
  assumes ok: "view_ok V" and inv: "best_inv V colour B" and i: "candidate V i" "open_kids V B i"
    and less: "key_less (fst (offer V B i), snd (offer V B i), colour ! i) (entry B colour (ev_find V i))"
  shows "best_inv V colour (record_best (ev_find V i) i (offer V B i) B)" and "snd (offer V B i) < UNSET"
proof -
  let ?s = "ev_find V i" and ?B = "record_best (ev_find V i) i (offer V B i) B"
  have il: "i < ev_len V" using i(1) by (simp add: candidate_def)
  note v = view_okD [OF ok il]
  have sz: "sized V colour B" using inv by (simp add: best_inv_def)
  have "\<forall>s. \<exists>t. s < ev_len V \<longrightarrow> b_cost B ! s \<noteq> UNSET \<longrightarrow> entry_ok V B s t" using inv by (auto simp: best_inv_def)
  then obtain tr where tr: "s < ev_len V \<Longrightarrow> b_cost B ! s \<noteq> UNSET \<Longrightarrow> entry_ok V B s (tr s)" for s by metis
  define t where "t = grow V tr i"
  have kid: "entry_ok V B k (tr k)" if "k \<in> set (kid_classes V i)" for k
    using tr [OF v(6) [OF that]] i(2) that by (auto simp: open_kids_def)
  have dt: "derives V ?s t"
    unfolding t_def by (rule derives.node [OF i(1)]) (use kid in \<open>auto simp: list_all2_conv_all_nth entry_ok_def\<close>)
  have key: "tkey V t = offer V B i"
  proof -
    have c: "b_cost B ! k = clamp (tcost V (tr k))" "b_height B ! k = theight (tr k)" if "k \<in> set (kid_classes V i)" for k
      using kid [OF that] by (auto simp: entry_ok_def tkey_def)
    have "kids_cost V (\<lambda>k. b_cost B ! k) (ev_kids V i) = kids_cost V (\<lambda>k. clamp (tcost V (tr k))) (ev_kids V i)"
      unfolding kids_cost_def by (rule arg_cong [where f = sum_list]) (use c in auto)
    moreover have "kids_height V (\<lambda>k. b_height B ! k) (ev_kids V i) = kids_height V (\<lambda>k. theight (tr k)) (ev_kids V i)"
      unfolding kids_height_def by (rule arg_cong [where f = "\<lambda>xs. fold max xs 0"]) (use c in auto)
    ultimately show ?thesis using clamp_kids [of "ev_kids V i" "oi_cost (node_info V i)" V "\<lambda>k. tcost V (tr k)"] v(4)
      by (simp add: offer_def tkey_def t_def tcost_grow theight_grow del: tcost.simps theight.simps)
  qed
  have off: "lexle (offer V B i) (slot B ?s)" using less key_less_lexle by (force simp: entry_def)
  have le: "lexle (slot ?B q) (slot B q)" "b_cost B ! q \<noteq> UNSET \<Longrightarrow> b_cost ?B ! q \<noteq> UNSET" for q
    using off v(1) sz clamp_less by (auto simp: record_simps sized_def offer_def)
  have sub: "\<forall>w \<in> subs (tr k). b_cost B ! tclass V w \<noteq> UNSET \<and> lexle (slot B (tclass V w)) (tkey V w)" if "k \<in> set (kid_classes V i)" for k
    using kid [OF that] by (simp add: entry_ok_def)
  have nd: "nodup V t"
  proof -
    have "tclass V w \<noteq> ?s" if k: "k \<in> set (kid_classes V i)" and w: "w \<in> subs (tr k)" for k w
    proof
      assume e: "tclass V w = ?s"
      have "lexle (slot B ?s) (tkey V w)" using sub [OF k] w e by metis
      then have l: "lexle (tkey V t) (tkey V w)" using off lexle_trans key by metis
      have ws: "w \<in> subs t" and kt: "tr k \<in> set (nsubs t)" using k w by (auto simp: t_def)
      have "theight w \<le> theight (tr k)" using theight_subs [OF w] by auto
      then have "theight w < theight t" using theight_sub [OF kt, of i] by (simp add: t_def)
      moreover have "clamp (tcost V w) \<le> clamp (tcost V t)" using tcost_subs [OF ok dt ws] clamp_mono by blast
      ultimately show False using l by (auto simp: lexle_def tkey_def)
    qed
    then show ?thesis using kid by (auto simp: t_def entry_ok_def)
  qed
  have hb: "theight t < UNSET" using derived_height [OF ok dt nd] ok by (simp add: view_ok_def)
  then show "snd (offer V B i) < UNSET" using key by (simp add: tkey_def prod_eq_iff)
  then have sz': "sized V colour ?B" using sz v(1) il
    by (auto simp: sized_def record_simps) (simp_all add: record_best_def)
  have st: "slot ?B ?s = tkey V t" "b_node ?B ! ?s = nid t" "nid t = i" using key v(1) sz by (auto simp: record_simps sized_def t_def)
  have "b_cost ?B ! tclass V w \<noteq> UNSET \<and> lexle (slot ?B (tclass V w)) (tkey V w)" if "w \<in> subs t" for w
  proof -
    from that consider "w = t" | k where "k \<in> set (kid_classes V i)" "w \<in> subs (tr k)" by (auto simp: t_def)
    then show ?thesis
    proof cases
      case 1
      then show ?thesis using st clamp_less [of "tcost V t"] by (simp add: tkey_def)
    next
      case 2
      then show ?thesis using sub [OF 2(1)] le lexle_trans by blast
    qed
  qed
  then have new: "entry_ok V ?B ?s t" using dt nd st unfolding entry_ok_def by blast
  have "entry_ok V ?B q (tr q)" if q: "q < ev_len V" "q \<noteq> ?s" "b_cost ?B ! q \<noteq> UNSET" for q
  proof -
    have same: "slot ?B q = slot B q" "b_node ?B ! q = b_node B ! q" using q v(1) sz by (auto simp: record_simps sized_def)
    then have "entry_ok V B q (tr q)" using tr q by simp
    then have eq: "derives V q (tr q)" "slot B q = tkey V (tr q)" "b_node B ! q = nid (tr q)" "nodup V (tr q)"
      "\<And>w. w \<in> subs (tr q) \<Longrightarrow> b_cost B ! tclass V w \<noteq> UNSET \<and> lexle (slot B (tclass V w)) (tkey V w)" by (auto simp: entry_ok_def)
    have "b_cost ?B ! tclass V w \<noteq> UNSET \<and> lexle (slot ?B (tclass V w)) (tkey V w)" if "w \<in> subs (tr q)" for w
      using eq(5) [OF that] le lexle_trans by blast
    then show ?thesis using same eq(1-4) unfolding entry_ok_def by simp
  qed
  then show "best_inv V colour ?B" using sz' new unfolding best_inv_def by metis
qed

section \<open>Termination\<close>

definition code :: "nat \<times> nat \<times> nat \<Rightarrow> nat" where
  "code = (\<lambda>(a, b, c). (a * 2 ^ 64 + b) * 2 ^ 128 + c)"

lemma code_less:
  assumes "key_less (a, b, c) (a', b', c')" and "b < 2 ^ 64" and "c < 2 ^ 128"
  shows "code (a, b, c) < code (a', b', c')"
proof -
  have step: "x * N + y < x' * N + y'" if "x < x'" "y < N" for x y x' y' N :: nat
  proof -
    have "x * N + y < Suc x * N" using that(2) by simp
    also have "\<dots> \<le> x' * N" using that(1) by (intro mult_le_mono1) simp
    finally show ?thesis by simp
  qed
  consider "a < a'" | "a = a'" "b < b'" | "a = a'" "b = b'" "c < c'" using assms(1) by (auto simp: key_less_def)
  then show ?thesis unfolding code_def prod.case
  proof cases
    case 1
    then show "(a * 2 ^ 64 + b) * 2 ^ 128 + c < (a' * 2 ^ 64 + b') * 2 ^ 128 + c'" by (intro step [OF step [OF _ assms(2)] assms(3)])
  next
    case 2
    then show "(a * 2 ^ 64 + b) * 2 ^ 128 + c < (a' * 2 ^ 64 + b') * 2 ^ 128 + c'" by (intro step [OF _ assms(3)]) simp
  next
    case 3
    then show "(a * 2 ^ 64 + b) * 2 ^ 128 + c < (a' * 2 ^ 64 + b') * 2 ^ 128 + c'" by simp
  qed
qed

definition weight :: "eg_view \<Rightarrow> nat list \<Rightarrow> best \<Rightarrow> nat" where
  "weight V colour B = (\<Sum>s < ev_len V. code (entry B colour s))"

definition coloured :: "nat list \<Rightarrow> bool" where
  "coloured colour \<longleftrightarrow> list_all (\<lambda>c. c < 2 ^ 128) colour"

lemma visit_ok:
  assumes ok: "view_ok V" and col: "coloured colour" and inv: "best_inv V colour B" and i: "i < ev_len V"
  shows "\<exists>ch B'. best_visit V (meta_table V) colour i B = Inr (ch, B') \<and> best_inv V colour B' \<and>
    (if ch then weight V colour B' < weight V colour B else B' = B)"
proof -
  have sz: "sized V colour B" using inv by (simp add: best_inv_def)
  let ?s = "ev_find V i" and ?B = "record_best (ev_find V i) i (offer V B i) B"
  show ?thesis
  proof (cases "candidate V i \<and> open_kids V B i \<and> key_less (fst (offer V B i), snd (offer V B i), colour ! i) (entry B colour ?s)")
    case True
    note vi = visit_inv [OF ok inv True [THEN conjunct1] True [THEN conjunct2, THEN conjunct1] True [THEN conjunct2, THEN conjunct2]]
    have s: "?s < ev_len V" using view_okD(1) [OF ok i] .
    have e: "entry ?B colour q = (if q = ?s then (fst (offer V B i), snd (offer V B i), colour ! i) else entry B colour q)" for q
      using sz s by (auto simp: entry_def record_simps sized_def)
    have "colour ! i < 2 ^ 128" using col sz i by (simp add: coloured_def list_all_length sized_def)
    moreover have "snd (offer V B i) < 2 ^ 64" using vi(2) by (simp add: usize_max_def)
    ultimately have "code (entry ?B colour ?s) < code (entry B colour ?s)"
      using True code_less by (metis e prod_cases3)
    then have "weight V colour ?B < weight V colour B"
      unfolding weight_def by (intro sum_strict_mono_ex1) (use e s in auto)
    then show ?thesis using visit_eq [OF ok i sz] True vi(1) by (intro exI [of _ True] exI [of _ ?B]) simp
  next
    case False
    then show ?thesis using visit_eq [OF ok i sz] inv by (intro exI [of _ False] exI [of _ B]) (simp only: if_False simp_thms)
  qed
qed

lemma pass_ok:
  assumes ok: "view_ok V" and col: "coloured colour"
  shows "best_inv V colour B \<Longrightarrow> set is \<subseteq> {..<ev_len V} \<Longrightarrow> \<exists>ch B'. best_pass V (meta_table V) colour is changed B = Inr (changed \<or> ch, B') \<and>
    best_inv V colour B' \<and> (if ch then weight V colour B' < weight V colour B
      else B' = B \<and> (\<forall>i \<in> set is. best_visit V (meta_table V) colour i B = Inr (False, B)))"
proof (induction "is" arbitrary: B changed)
  case Nil
  then show ?case by (auto intro: exI [of _ False])
next
  case (Cons i "is")
  obtain c1 B1 where v: "best_visit V (meta_table V) colour i B = Inr (c1, B1)" "best_inv V colour B1"
    "if c1 then weight V colour B1 < weight V colour B else B1 = B"
    using visit_ok [OF ok col Cons.prems(1), of i] Cons.prems(2) by auto
  obtain c2 B2 where p: "best_pass V (meta_table V) colour is (changed \<or> c1) B1 = Inr ((changed \<or> c1) \<or> c2, B2)" "best_inv V colour B2"
    "if c2 then weight V colour B2 < weight V colour B1 else B2 = B1 \<and> (\<forall>i \<in> set is. best_visit V (meta_table V) colour i B1 = Inr (False, B1))"
    using Cons.IH [OF v(2), of "changed \<or> c1"] Cons.prems(2) by auto
  have "best_pass V (meta_table V) colour (i # is) changed B = Inr (changed \<or> (c1 \<or> c2), B2)" using v(1) p(1) by (simp add: disj_assoc)
  moreover have "if c1 \<or> c2 then weight V colour B2 < weight V colour B
      else B2 = B \<and> (\<forall>j \<in> set (i # is). best_visit V (meta_table V) colour j B = Inr (False, B))"
    using v(1,3) p(3) by (auto split: if_splits)
  ultimately show ?case using p(2) by blast
qed

text \<open>The tables at the end: no node makes a better offer.\<close>

definition settled :: "eg_view \<Rightarrow> nat list \<Rightarrow> best \<Rightarrow> bool" where
  "settled V colour B \<longleftrightarrow> best_inv V colour B \<and> (\<forall>i. candidate V i \<longrightarrow> open_kids V B i \<longrightarrow>
     \<not> key_less (fst (offer V B i), snd (offer V B i), colour ! i) (entry B colour (ev_find V i)))"

lemma best_loop_ok:
  assumes ok: "view_ok V" and col: "coloured colour" and "best_inv V colour B"
  shows "\<exists>B'. best_loop V (meta_table V) colour B = Some (Inr B') \<and> settled V colour B'"
  using assms(3)
proof (induction "weight V colour B" arbitrary: B rule: less_induct)
  case less
  have "set [0..<ev_len V] \<subseteq> {..<ev_len V}" by auto
  then obtain ch B' where p: "best_pass V (meta_table V) colour [0..<ev_len V] False B = Inr (ch, B')" "best_inv V colour B'"
    "if ch then weight V colour B' < weight V colour B
      else B' = B \<and> (\<forall>i \<in> set [0..<ev_len V]. best_visit V (meta_table V) colour i B = Inr (False, B))"
    using pass_ok [OF ok col less.prems, of "[0..<ev_len V]" False] by (auto simp del: set_upt)
  show ?case
  proof (cases ch)
    case True
    then have "\<exists>B''. best_loop V (meta_table V) colour B' = Some (Inr B'') \<and> settled V colour B''" using less.hyps p by simp
    then show ?thesis using True p(1) by (subst best_loop.simps) simp
  next
    case False
    have sz: "sized V colour B" using less.prems by (simp add: best_inv_def)
    have "settled V colour B"
      unfolding settled_def
    proof (intro conjI allI impI notI)
      fix i assume i: "candidate V i" "open_kids V B i" "key_less (fst (offer V B i), snd (offer V B i), colour ! i) (entry B colour (ev_find V i))"
      then have "i < ev_len V" by (simp add: candidate_def)
      then show False using visit_eq [OF ok _ sz, of i] i p(3) False by simp
    qed (rule less.prems)
    then show ?thesis using False p by (subst best_loop.simps) simp
  qed
qed

lemma coloured_slots: "view_ok V \<Longrightarrow> coloured (colour_slots (ev_len V) (ev_colours V)) \<and> length (colour_slots (ev_len V) (ev_colours V)) = ev_len V"
proof -
  assume ok: "view_ok V"
  have inner: "list_all (\<lambda>c. c < 2 ^ 128) col \<Longrightarrow> list_all (\<lambda>c. c < 2 ^ 128) cs \<Longrightarrow>
      list_all (\<lambda>c. c < 2 ^ 128) (fold (\<lambda>(i, c) col. col[i := c]) (zip ms cs) col) \<and> length (fold (\<lambda>(i, c) col. col[i := c]) (zip ms cs) col) = length col"
    for ms :: "nat list" and cs col :: "nat list"
  proof (induction ms arbitrary: cs col)
    case (Cons a ms)
    show ?case
    proof (cases cs)
      case (Cons c cs')
      then have "list_all (\<lambda>c. c < 2 ^ 128) (col[a := c])" using Cons.prems by (auto simp: list_all_iff dest!: set_update_subset_insert [THEN subsetD])
      then show ?thesis using Cons Cons.prems(2) Cons.IH [of "col[a := c]" cs'] by simp
    qed (use Cons.prems in simp)
  qed simp
  have "list_all (list_all (\<lambda>c. c < 2 ^ 128)) css \<Longrightarrow> list_all (\<lambda>c. c < 2 ^ 128) col \<Longrightarrow>
      list_all (\<lambda>c. c < 2 ^ 128) (fold (\<lambda>(ms, cs) col. fold (\<lambda>(i, c) col. col[i := c]) (zip ms cs) col) (zip mss css) col) \<and>
      length (fold (\<lambda>(ms, cs) col. fold (\<lambda>(i, c) col. col[i := c]) (zip ms cs) col) (zip mss css) col) = length col"
    for mss :: "nat list list" and css :: "nat list list" and col :: "nat list"
  proof (induction mss arbitrary: css col)
    case (Cons ms mss)
    show ?case
    proof (cases css)
      case (Cons cs css')
      then show ?thesis using Cons.prems Cons.IH [of css' "fold (\<lambda>(i, c) col. col[i := c]) (zip ms cs) col"] inner [of col cs ms] by simp
    qed (use Cons.prems in simp)
  qed simp
  moreover have "list_all (\<lambda>c. c < 2 ^ 128) (replicate (ev_len V) (2 ^ 128 - 1 :: nat))" by (simp add: list_all_iff)
  ultimately show ?thesis using ok by (simp add: coloured_def colour_slots_def view_ok_def)
qed

lemma best_members_ok:
  assumes ok: "view_ok V"
  shows "\<exists>B. best_members V = Some (Inr B) \<and> settled V (colour_slots (ev_len V) (ev_colours V)) B"
proof -
  have "best_inv V (colour_slots (ev_len V) (ev_colours V))
      \<lparr>b_cost = replicate (ev_len V) UNSET, b_height = replicate (ev_len V) UNSET, b_node = replicate (ev_len V) 0\<rparr>"
    using coloured_slots [OF ok] by (auto simp: best_inv_def sized_def)
  then show ?thesis using best_loop_ok [OF ok] coloured_slots [OF ok] by (simp add: best_members_def)
qed

section \<open>What the tables say at the end\<close>

lemma kids_cost_mono: "\<forall>k \<in> set ks. c (ev_find V (fst k)) \<le> d (ev_find V (fst k)) \<Longrightarrow> kids_cost V c ks \<le> kids_cost V d ks"
  unfolding kids_cost_def by (intro sum_list_mono) simp

lemma tcost_kids:
  assumes "length ts = length (ev_kids V i)"
  shows "tcost V (Nd i ts) = oi_cost (node_info V i) + sum_list (map (\<lambda>j. snd (ev_kids V i ! j) * tcost V (ts ! j)) [0..<length ts])"
proof -
  have "map2 (\<lambda>k c. snd k * c) (ev_kids V i) (map (tcost V) ts) = map (\<lambda>j. snd (ev_kids V i ! j) * tcost V (ts ! j)) [0..<length ts]"
    by (rule nth_equalityI) (use assms in auto)
  then show ?thesis by (simp only: tcost.simps)
qed

lemma kids_cost_nth: "kids_cost V c ks = sum_list (map (\<lambda>j. snd (ks ! j) * c (ev_find V (fst (ks ! j)))) [0..<length ks])"
proof -
  have "map (\<lambda>k. snd k * c (ev_find V (fst k))) ks = map (\<lambda>j. snd (ks ! j) * c (ev_find V (fst (ks ! j)))) [0..<length ks]"
    by (rule nth_equalityI) auto
  then show ?thesis by (simp only: kids_cost_def)
qed

text \<open>No derivation tree is cheaper than the entry of its class.\<close>

lemma settled_least:
  assumes ok: "view_ok V" and st: "settled V colour B"
  shows "derives V c t \<Longrightarrow> b_cost B ! c \<noteq> UNSET \<and> b_cost B ! c \<le> clamp (tcost V t)"
proof (induction t arbitrary: c)
  case (Nd i ts)
  note k = derives_kids [OF Nd.prems]
  have il: "i < ev_len V" using k(1) by (simp add: candidate_def)
  have kid: "b_cost B ! ev_find V (fst (ev_kids V i ! j)) \<noteq> UNSET \<and> b_cost B ! ev_find V (fst (ev_kids V i ! j)) \<le> clamp (tcost V (ts ! j))"
    if "j < length ts" for j using Nd.IH [OF nth_mem [OF that] k(4) [OF that]] .
  have op: "open_kids V B i" using kid k(3) unfolding open_kids_def by (metis in_set_conv_nth)
  have "\<not> key_less (fst (offer V B i), snd (offer V B i), colour ! i) (entry B colour (ev_find V i))" using st k(1) op by (simp add: settled_def)
  then have le: "b_cost B ! c \<le> fst (offer V B i)" using k(2) by (auto simp: key_less_def entry_def)
  have "kids_cost V (\<lambda>k. b_cost B ! k) (ev_kids V i) \<le> sum_list (map (\<lambda>j. snd (ev_kids V i ! j) * tcost V (ts ! j)) [0..<length ts])"
    unfolding kids_cost_nth k(3) [symmetric]
    by (intro sum_list_mono mult_le_mono2) (use kid in \<open>auto simp: clamp_def\<close>)
  then have "fst (offer V B i) \<le> clamp (tcost V (Nd i ts))" unfolding tcost_kids [OF k(3)] by (auto simp: offer_def intro!: clamp_mono)
  then have "b_cost B ! c \<le> clamp (tcost V (Nd i ts))" using le by simp
  then show ?case using clamp_less [of "tcost V (Nd i ts)"] by (auto simp del: tcost.simps)
qed

lemma sum_eq_each:
  assumes "sum_list (map f xs) = sum_list (map g xs)" and "\<And>x. x \<in> set xs \<Longrightarrow> f x \<le> (g x :: nat)" and "x \<in> set xs"
  shows "f x = g x"
  using assms
proof (induction xs)
  case (Cons y xs)
  have "sum_list (map f xs) \<le> sum_list (map g xs)" using Cons.prems(2) by (intro sum_list_mono) simp
  then have "f y = g y" "sum_list (map f xs) = sum_list (map g xs)" using Cons.prems(1) Cons.prems(2) [of y] by auto
  then show ?case using Cons by auto
qed simp

text \<open>The best nodes lead from classes to classes of smaller rank.\<close>

definition rank :: "best \<Rightarrow> nat \<Rightarrow> nat" where
  "rank B c = (if b_cost B ! c = UNSET - 1 then UNSET + b_height B ! c else b_height B ! c)"

lemma settled_step:
  assumes ok: "view_ok V" and st: "settled V colour B" and c: "c < ev_len V" "b_cost B ! c \<noteq> UNSET"
  shows "candidate V (b_node B ! c)" and "ev_find V (b_node B ! c) = c" and "open_kids V B (b_node B ! c)"
    and "fst (offer V B (b_node B ! c)) = b_cost B ! c"
    and "\<And>k. k \<in> set (kid_classes V (b_node B ! c)) \<Longrightarrow> rank B k < rank B c"
proof -
  have inv: "best_inv V colour B" and sz: "sized V colour B" using st by (auto simp: settled_def best_inv_def)
  obtain i ts where e: "entry_ok V B c (Nd i ts)" using inv c dtree.exhaust unfolding best_inv_def by metis
  have d: "derives V c (Nd i ts)" and key: "slot B c = tkey V (Nd i ts)" and bn: "b_node B ! c = i"
    and sub: "\<forall>w \<in> subs (Nd i ts). b_cost B ! tclass V w \<noteq> UNSET \<and> lexle (slot B (tclass V w)) (tkey V w)"
    using e by (auto simp: entry_ok_def)
  note k = derives_kids [OF d]
  have il: "i < ev_len V" using k(1) by (simp add: candidate_def)
  have kid: "b_cost B ! ev_find V (fst (ev_kids V i ! j)) \<noteq> UNSET" "lexle (slot B (ev_find V (fst (ev_kids V i ! j)))) (tkey V (ts ! j))"
    if "j < length ts" for j
  proof -
    have "ts ! j \<in> subs (Nd i ts)" using that by (auto intro!: bexI [of _ "ts ! j"])
    moreover have "tclass V (ts ! j) = ev_find V (fst (ev_kids V i ! j))" using derives_class [OF k(4) [OF that]] by simp
    ultimately show "b_cost B ! ev_find V (fst (ev_kids V i ! j)) \<noteq> UNSET" "lexle (slot B (ev_find V (fst (ev_kids V i ! j)))) (tkey V (ts ! j))"
      using sub by metis+
  qed
  show "candidate V (b_node B ! c)" "ev_find V (b_node B ! c) = c" using k(1,2) bn by auto
  have op: "open_kids V B i" using kid(1) k(3) unfolding open_kids_def by (metis in_set_conv_nth)
  then show "open_kids V B (b_node B ! c)" using bn by simp
  have le: "snd (ev_kids V i ! j) * b_cost B ! ev_find V (fst (ev_kids V i ! j)) \<le> snd (ev_kids V i ! j) * tcost V (ts ! j)" if "j < length ts" for j
    using kid(2) [OF that] by (intro mult_le_mono2) (auto simp: lexle_def tkey_def clamp_def)
  have "\<not> key_less (fst (offer V B i), snd (offer V B i), colour ! i) (entry B colour c)" using st k(1,2) op by (simp add: settled_def)
  then have ge: "b_cost B ! c \<le> fst (offer V B i)" by (auto simp: key_less_def entry_def)
  have ec: "b_cost B ! c = clamp (oi_cost (node_info V i) + sum_list (map (\<lambda>j. snd (ev_kids V i ! j) * tcost V (ts ! j)) [0..<length ts]))"
    using key unfolding tkey_def tcost_kids [OF k(3)] by simp
  have ko: "fst (offer V B i) = clamp (oi_cost (node_info V i) + sum_list (map (\<lambda>j. snd (ev_kids V i ! j) * b_cost B ! ev_find V (fst (ev_kids V i ! j))) [0..<length ts]))"
    by (simp add: offer_def kids_cost_nth k(3))
  have sums: "sum_list (map (\<lambda>j. snd (ev_kids V i ! j) * b_cost B ! ev_find V (fst (ev_kids V i ! j))) [0..<length ts])
      \<le> sum_list (map (\<lambda>j. snd (ev_kids V i ! j) * tcost V (ts ! j)) [0..<length ts])"
    by (intro sum_list_mono) (use le in auto)
  then have "fst (offer V B i) \<le> b_cost B ! c" unfolding ec ko by (intro clamp_mono add_left_mono)
  then have off: "fst (offer V B i) = b_cost B ! c" using ge by simp
  then show "fst (offer V B (b_node B ! c)) = b_cost B ! c" using bn by simp
  show "rank B q < rank B c" if q: "q \<in> set (kid_classes V (b_node B ! c))" for q
  proof -
    obtain j where j: "j < length ts" "q = ev_find V (fst (ev_kids V i ! j))" using q bn k(3) by (auto simp: in_set_conv_nth)
    have m1: "1 \<le> snd (ev_kids V i ! j)" using view_okD(4) [OF ok il] j(1) k(3) nth_mem by metis
    have hq: "b_height B ! q < UNSET" using sz kid(1) [OF j(1)] j(2) view_okD(6) [OF ok il] k(3) j(1) unfolding sized_def by fastforce
    have ht: "theight (ts ! j) < b_height B ! c" using theight_sub [of "ts ! j" ts i] j(1) key by (simp add: tkey_def del: theight.simps)
    have lx: "lexle (slot B q) (tkey V (ts ! j))" using kid(2) [OF j(1)] j(2) by simp
    show ?thesis
    proof (cases "b_cost B ! c = UNSET - 1")
      case True
      then show ?thesis
      proof (cases "b_cost B ! q = UNSET - 1")
        case qs: True
        have "clamp (tcost V (ts ! j)) \<le> UNSET - 1" by (simp add: clamp_def)
        then have "b_height B ! q \<le> theight (ts ! j)" using lx qs by (auto simp: lexle_def tkey_def)
        then show ?thesis using True qs ht by (simp add: rank_def)
      qed (use True hq in \<open>simp add: rank_def\<close>)
    next
      case False
      have "oi_cost (node_info V i) + sum_list (map (\<lambda>j. snd (ev_kids V i ! j) * b_cost B ! ev_find V (fst (ev_kids V i ! j))) [0..<length ts]) =
          oi_cost (node_info V i) + sum_list (map (\<lambda>j. snd (ev_kids V i ! j) * tcost V (ts ! j)) [0..<length ts])"
        by (rule clamp_exact [THEN conjunct1]) (simp_all only: ec [symmetric] ko [symmetric] off False not_False_eq_True)
      then have "sum_list (map (\<lambda>j. snd (ev_kids V i ! j) * b_cost B ! ev_find V (fst (ev_kids V i ! j))) [0..<length ts]) =
          sum_list (map (\<lambda>j. snd (ev_kids V i ! j) * tcost V (ts ! j)) [0..<length ts])" by (rule add_left_imp_eq)
      then have "snd (ev_kids V i ! j) * b_cost B ! ev_find V (fst (ev_kids V i ! j)) = snd (ev_kids V i ! j) * tcost V (ts ! j)"
        by (rule sum_eq_each) (use le j(1) in auto)
      then have qc: "b_cost B ! q = tcost V (ts ! j)" using m1 j(2) by simp
      have "b_cost B ! q \<le> snd (ev_kids V i ! j) * tcost V (ts ! j)" using m1 qc by simp
      also have "\<dots> \<le> sum_list (map (\<lambda>j. snd (ev_kids V i ! j) * tcost V (ts ! j)) [0..<length ts])"
        by (rule member_le_sum_list) (use j(1) in auto)
      finally have qs: "b_cost B ! q < UNSET - 1" using ec False by (simp only: clamp_def)
      then have "b_height B ! q \<le> theight (ts ! j)" using lx qc by (auto simp: lexle_def tkey_def clamp_def)
      then show ?thesis using ht False qs by (simp add: rank_def)
    qed
  qed
qed

end
