(* ===== verification/Extract_Props.thy ===== *)
theory Extract_Props
  imports Extract_Inv "HOL-Library.Multiset"
begin

text \<open>
  What extraction promises.  \<open>represents\<close> says which term a derivation tree stands for; the loop of \<open>reconstruct\<close>
  follows the best nodes, whose rank falls from a class to its children, so it ends with the term of a cheapest tree.
\<close>

section \<open>Terms of derivation trees\<close>

definition counted :: "nat \<Rightarrow> eterm \<Rightarrow> eterm" where
  "counted m t = (if m = 1 then t else TCounted t m)"

definition unordered :: "eg_view \<Rightarrow> nat \<Rightarrow> bool" where
  "unordered V i \<longleftrightarrow> oi_kind (node_info V i) \<in> {OpMSet, OpSet, OpCommutative}"

definition arranged :: "eg_view \<Rightarrow> nat \<Rightarrow> eterm list \<Rightarrow> eterm list \<Rightarrow> bool" where
  "arranged V i es cs \<longleftrightarrow> (let xs = map2 (\<lambda>k e. counted (snd k) e) (ev_kids V i) es in
     if unordered V i then mset cs = mset xs \<and> sorted (map term_text cs) else cs = xs)"

inductive represents :: "eg_view \<Rightarrow> dtree \<Rightarrow> eterm \<Rightarrow> bool" for V where
  lit: "ev_lit V i = Some s \<Longrightarrow> represents V (Nd i []) (TLit s)"
| app: "ev_lit V i = None \<Longrightarrow> list_all2 (represents V) ts es \<Longrightarrow> arranged V i es cs \<Longrightarrow>
    represents V (Nd i ts) (TApp (oi_name (node_info V i)) cs)"

section \<open>Trees along the best nodes\<close>

fun along :: "eg_view \<Rightarrow> nat list \<Rightarrow> dtree \<Rightarrow> bool" where
  "along V nodes (Nd i ts) \<longleftrightarrow> nodes ! ev_find V i = i \<and> (\<forall>t \<in> set ts. along V nodes t)"

lemma clamp_sum:
  assumes "\<And>j. j \<in> set js \<Longrightarrow> 1 \<le> f j"
  shows "clamp (a + sum_list (map (\<lambda>j. f j * clamp (g j)) js)) = clamp (a + sum_list (map (\<lambda>j. f j * g j) js))"
proof (cases "\<exists>j \<in> set js. UNSET - 1 < g j")
  case True
  then obtain j where j: "j \<in> set js" "UNSET - 1 < g j" by blast
  then have c: "clamp (g j) = UNSET - 1" by (simp add: clamp_def)
  have "UNSET - 1 \<le> f j * clamp (g j)" using assms [OF j(1)] unfolding c by simp
  also have "\<dots> \<le> sum_list (map (\<lambda>j. f j * clamp (g j)) js)" by (rule member_le_sum_list) (use j(1) in auto)
  finally have l: "UNSET - 1 \<le> sum_list (map (\<lambda>j. f j * clamp (g j)) js)" .
  also have "\<dots> \<le> sum_list (map (\<lambda>j. f j * g j) js)" by (intro sum_list_mono mult_le_mono2) (simp add: clamp_def)
  finally show ?thesis using l by (simp add: clamp_def)
next
  case False
  then have "map (\<lambda>j. f j * clamp (g j)) js = map (\<lambda>j. f j * g j) js" by (intro map_cong refl) (auto simp: clamp_def not_less)
  then show ?thesis by (simp only:)
qed

text \<open>Such a tree costs what the table says.\<close>

lemma along_cost:
  assumes ok: "view_ok V" and st: "settled V colour B"
  shows "derives V c t \<Longrightarrow> along V (b_node B) t \<Longrightarrow> clamp (tcost V t) = b_cost B ! c"
proof (induction t arbitrary: c)
  case (Nd i ts)
  note k = derives_kids [OF Nd.prems(1)]
  have i: "i < ev_len V" using k(1) by (simp add: candidate_def)
  have c: "c < ev_len V" "b_cost B ! c \<noteq> UNSET" "b_node B ! c = i"
    using k(2) view_okD(1) [OF ok i] settled_least [OF ok st Nd.prems(1)] Nd.prems(2) by auto
  have kid: "clamp (tcost V (ts ! j)) = b_cost B ! ev_find V (fst (ev_kids V i ! j))" if "j < length ts" for j
    by (rule Nd.IH [OF nth_mem [OF that] k(4) [OF that]]) (use Nd.prems(2) that in simp)
  have pos: "1 \<le> snd (ev_kids V i ! j)" if "j \<in> set [0..<length ts]" for j using view_okD(4) [OF ok i] that k(3) by (metis atLeastLessThan_upt atLeastLessThan_iff nth_mem)
  have kc: "kids_cost V (\<lambda>k. b_cost B ! k) (ev_kids V i) = sum_list (map (\<lambda>j. snd (ev_kids V i ! j) * clamp (tcost V (ts ! j))) [0..<length ts])"
    unfolding kids_cost_nth k(3) [symmetric] by (intro arg_cong [where f = sum_list] map_cong refl) (simp add: kid)
  have "clamp (tcost V (Nd i ts)) = fst (offer V B i)"
    unfolding tcost_kids [OF k(3)] offer_def fst_conv kc by (rule clamp_sum [OF pos, symmetric])
  then show ?case using settled_step(4) [OF ok st c(1,2)] c(3) by metis
qed

section \<open>The loop of reconstruction\<close>

definition good :: "eg_view \<Rightarrow> nat list \<Rightarrow> (nat \<Rightarrow> eterm option) \<Rightarrow> bool" where
  "good V nodes built \<longleftrightarrow> (\<forall>k e. built k = Some e \<longrightarrow> (\<exists>t. derives V k t \<and> along V nodes t \<and> represents V t e))"

lemma good_upd: "good V nodes built \<Longrightarrow> derives V c t \<Longrightarrow> along V nodes t \<Longrightarrow> represents V t e \<Longrightarrow> good V nodes (built(c \<mapsto> e))"
  by (auto simp: good_def)

lemma kids_of_ok:
  assumes ok: "view_ok V" and i: "i < ev_len V"
  shows "\<exists>kids. kids_of V i = Inr kids \<and> mset kids = mset (map (\<lambda>k. (ev_find V (fst k), snd k)) (ev_kids V i)) \<and>
    (\<not> unordered V i \<longrightarrow> kids = map (\<lambda>k. (ev_find V (fst k), snd k)) (ev_kids V i))"
  using view_okD(3) [OF ok i] by (simp add: kids_of_def is_unordered_def unordered_def node_info_def case_prod_unfold Let_def)

lemma build_app_ok:
  assumes ok: "view_ok V" and i: "i < ev_len V" and b: "\<forall>k \<in> set kids. built (fst k) \<noteq> None"
    and ks: "mset kids = mset (map (\<lambda>k. (ev_find V (fst k), snd k)) (ev_kids V i))"
      "\<not> unordered V i \<longrightarrow> kids = map (\<lambda>k. (ev_find V (fst k), snd k)) (ev_kids V i)"
  shows "\<exists>cs. build_app V i kids built = Inr (TApp (oi_name (node_info V i)) cs) \<and> arranged V i (map (\<lambda>k. the (built k)) (kid_classes V i)) cs"
proof -
  define f where "f = (\<lambda>k. counted (snd k) (the (built (fst k))))"
  have mf: "List.map_filter (\<lambda>(k, m). map_option (\<lambda>t. if m = 1 then t else TCounted t m) (built k)) kids = map f kids"
    using b by (induction kids) (auto simp: map_filter_simps f_def counted_def)
  have mm: "map2 (\<lambda>k e. counted (snd k) e) xs (map (\<lambda>k. the (built k)) (map (\<lambda>k. ev_find V (fst k)) xs)) = map f (map (\<lambda>k. (ev_find V (fst k), snd k)) xs)"
    for xs by (induction xs) (auto simp: f_def)
  have "mset (map f kids) = mset (map f (map (\<lambda>k. (ev_find V (fst k), snd k)) (ev_kids V i)))" using ks(1) by (metis mset_map)
  then have "arranged V i (map (\<lambda>k. the (built k)) (kid_classes V i)) (if unordered V i then sort_key term_text (map f kids) else map f kids)"
    unfolding arranged_def mm Let_def using ks(2) by simp
  moreover have "build_app V i kids built = Inr (TApp (oi_name (node_info V i)) (if unordered V i then sort_key term_text (map f kids) else map f kids))"
    unfolding build_app_def mf using view_okD(3) [OF ok i] by (simp add: is_unordered_def unordered_def node_info_def)
  ultimately show ?thesis by blast
qed

text \<open>Running the loop until the entries pushed for \<open>cs\<close> are gone.\<close>

definition builds :: "eg_view \<Rightarrow> nat list \<Rightarrow> (nat \<times> bool) list \<Rightarrow> (nat \<Rightarrow> eterm option) \<Rightarrow> nat set \<Rightarrow> bool" where
  "builds V nodes xs built cs \<longleftrightarrow> (\<exists>built'. (\<forall>st. build_loop V nodes (xs @ st) built = build_loop V nodes st built') \<and>
     built \<subseteq>\<^sub>m built' \<and> good V nodes built' \<and> cs \<subseteq> dom built')"

lemma buildsD:
  assumes "builds V nodes xs built cs"
  obtains built' where "\<And>st. build_loop V nodes (xs @ st) built = build_loop V nodes st built'" "built \<subseteq>\<^sub>m built'" "good V nodes built'" "cs \<subseteq> dom built'"
  using assms by (auto simp: builds_def)

lemma builds_append:
  assumes "builds V nodes xs built cs" and "\<And>built'. good V nodes built' \<Longrightarrow> built \<subseteq>\<^sub>m built' \<Longrightarrow> cs \<subseteq> dom built' \<Longrightarrow> builds V nodes ys built' ds"
  shows "builds V nodes (xs @ ys) built (cs \<union> ds)"
proof -
  obtain b1 where b1: "\<And>st. build_loop V nodes (xs @ st) built = build_loop V nodes st b1" "built \<subseteq>\<^sub>m b1" "good V nodes b1" "cs \<subseteq> dom b1"
    using assms(1) by (rule buildsD) blast
  obtain b2 where b2: "\<And>st. build_loop V nodes (ys @ st) b1 = build_loop V nodes st b2" "b1 \<subseteq>\<^sub>m b2" "good V nodes b2" "ds \<subseteq> dom b2"
    using assms(2) [OF b1(3,2,4)] by (rule buildsD) blast
  show ?thesis unfolding builds_def
    by (intro exI [of _ b2] conjI allI) (use b1 b2 map_le_trans map_le_implies_dom_le [OF b2(2)] in \<open>simp_all, blast+\<close>)
qed

lemma builds_step:
  assumes "\<And>st. build_turn V nodes c ex st built = Inr (xs @ st, built')" and "built \<subseteq>\<^sub>m built'" and "builds V nodes xs built' cs"
  shows "builds V nodes [(c, ex)] built cs"
proof -
  have "build_loop V nodes ([(c, ex)] @ st) built = build_loop V nodes (xs @ st) built'" for st by (subst build_loop.simps) (simp add: assms(1))
  then show ?thesis using assms(2,3) unfolding builds_def by (metis map_le_trans)
qed

lemma builds_nil: "good V nodes built \<Longrightarrow> cs \<subseteq> dom built \<Longrightarrow> builds V nodes [] built cs"
  unfolding builds_def by (intro exI [of _ built]) simp

lemma builds_list:
  assumes "\<And>k built. k \<in> set ks \<Longrightarrow> good V nodes built \<Longrightarrow> builds V nodes [(k, False)] built {k}" and "good V nodes built"
  shows "builds V nodes (map (\<lambda>k. (k, False)) ks) built (set ks)"
  using assms
proof (induction ks arbitrary: built)
  case Nil
  then show ?case by (simp add: builds_nil)
next
  case (Cons k ks)
  have "builds V nodes ([(k, False)] @ map (\<lambda>k. (k, False)) ks) built ({k} \<union> set ks)"
    by (rule builds_append) (use Cons in auto)
  then show ?case by simp
qed

lemma builds_class:
  assumes ok: "view_ok V" and st: "settled V colour B"
  shows "c < ev_len V \<Longrightarrow> b_cost B ! c \<noteq> UNSET \<Longrightarrow> good V (b_node B) built \<Longrightarrow> builds V (b_node B) [(c, False)] built {c}"
proof (induction "rank B c" arbitrary: c built rule: less_induct)
  case less
  let ?i = "b_node B ! c"
  note s = settled_step [OF ok st less.prems(1,2)]
  have i: "?i < ev_len V" and nodes: "nth_res (b_node B) c = Inr ?i" using s(1) st less.prems(1) by (auto simp: candidate_def settled_def best_inv_def sized_def)
  have turn: "build_turn V (b_node B) c ex st b = Inr (st, b)" if "b c \<noteq> None" for ex st b using that by (simp add: build_turn_def)
  have stay: "builds V (b_node B) [(c, ex)] b {c}" if "good V (b_node B) b" "b c \<noteq> None" for ex b
    by (rule builds_step [where xs = "[]" and built' = b]) (use that turn in \<open>auto intro!: builds_nil\<close>)
  have set_tree: "builds V (b_node B) [(c, ex)] b {c}"
    if "good V (b_node B) b" "b c = None" "\<And>st. build_turn V (b_node B) c ex st b = Inr (st, b(c \<mapsto> e))" "derives V c t" "along V (b_node B) t" "represents V t e" for ex b e t
    by (rule builds_step [where xs = "[]" and built' = "b(c \<mapsto> e)"]) (use that in \<open>auto intro!: builds_nil good_upd simp: map_le_def\<close>)
  show ?case
  proof (cases "built c = None")
    case False
    then show ?thesis using less.prems(3) stay by blast
  next
    case None: True
    show ?thesis
    proof (cases "ev_lit V ?i")
      case (Some x)
      have "ev_kids V ?i = []" using ok i Some by (simp add: view_ok_def)
      then have "derives V (ev_find V ?i) (Nd ?i [])" by (intro derives.node) (use s(1) in auto)
      then show ?thesis using set_tree [OF less.prems(3) None, of False "TLit x" "Nd ?i []"] None nodes Some s(2) represents.lit [OF Some]
        by (simp add: build_turn_def)
    next
      case lit: None
      obtain kids where kids: "kids_of V ?i = Inr kids" "mset kids = mset (map (\<lambda>k. (ev_find V (fst k), snd k)) (ev_kids V ?i))"
        "\<not> unordered V ?i \<longrightarrow> kids = map (\<lambda>k. (ev_find V (fst k), snd k)) (ev_kids V ?i)" using kids_of_ok [OF ok i] by blast
      have sk: "set (map fst kids) = set (kid_classes V ?i)" using mset_eq_setD [OF kids(2)] by (force simp: image_iff)
      have below: "k < ev_len V" "b_cost B ! k \<noteq> UNSET" "rank B k < rank B c" if "k \<in> set (kid_classes V ?i)" for k
        using view_okD(6) [OF ok i that] s(3) s(5) [OF that] that by (auto simp: open_kids_def)
      let ?ks = "filter (\<lambda>k. built k = None) (map fst kids)"
      have l: "builds V (b_node B) (map (\<lambda>k. (k, False)) ?ks) built (set ?ks)"
        by (rule builds_list [OF _ less.prems(3)]) (use less.hyps below sk in auto)
      have "builds V (b_node B) (map (\<lambda>k. (k, False)) ?ks @ [(c, True)]) built (set ?ks \<union> {c})"
      proof (rule builds_append [OF l])
        fix b assume b: "good V (b_node B) b" "built \<subseteq>\<^sub>m b" "set ?ks \<subseteq> dom b"
        show "builds V (b_node B) [(c, True)] b {c}"
        proof (cases "b c = None")
          case True
          have all: "\<forall>k \<in> set (map fst kids). b k \<noteq> None" using b(2,3) by (force simp: map_le_def dom_def)
          then obtain cs where cs: "build_app V ?i kids b = Inr (TApp (oi_name (node_info V ?i)) cs)"
            "arranged V ?i (map (\<lambda>k. the (b k)) (kid_classes V ?i)) cs" using build_app_ok [OF ok i _ kids(2,3), of b] by auto
          have "\<forall>k \<in> set (kid_classes V ?i). \<exists>t. derives V k t \<and> along V (b_node B) t \<and> represents V t (the (b k))"
            using all b(1) unfolding sk good_def by (metis option.collapse)
          then obtain T where T: "\<forall>k \<in> set (kid_classes V ?i). derives V k (T k) \<and> along V (b_node B) (T k) \<and> represents V (T k) (the (b k))" by metis
          let ?t = "Nd ?i (map T (kid_classes V ?i))"
          have "derives V (ev_find V ?i) ?t" by (rule derives.node [OF s(1)]) (use T in \<open>simp add: list_all2_conv_all_nth\<close>)
          moreover have "along V (b_node B) ?t" using T s(2) by simp
          moreover have "represents V ?t (TApp (oi_name (node_info V ?i)) cs)"
            by (rule represents.app [OF lit _ cs(2)]) (use T in \<open>simp add: list_all2_conv_all_nth\<close>)
          ultimately show ?thesis using set_tree [OF b(1) True, of True] cs(1) nodes lit kids(1) True s(2) by (simp add: build_turn_def)
        qed (use b(1) stay in blast)
      qed
      then have "builds V (b_node B) [(c, False)] built (set ?ks \<union> {c})"
        by (rule builds_step [rotated 2]) (use None nodes lit kids(1) in \<open>auto simp: build_turn_def\<close>)
      then show ?thesis by (auto simp: builds_def)
    qed
  qed
qed

lemma reconstruct_ok:
  assumes ok: "view_ok V" and st: "settled V colour B" and c: "c < ev_len V" "b_cost B ! c \<noteq> UNSET"
  shows "\<exists>t e. reconstruct V (b_node B) c = Some (Inr e) \<and> derives V c t \<and> along V (b_node B) t \<and> represents V t e"
proof -
  have "builds V (b_node B) [(c, False)] (\<lambda>_. None) {c}" by (rule builds_class [OF ok st c]) (simp add: good_def)
  then obtain b where b: "\<And>st. build_loop V (b_node B) ([(c, False)] @ st) (\<lambda>_. None) = build_loop V (b_node B) st b" "good V (b_node B) b" "{c} \<subseteq> dom b"
    by (rule buildsD) blast
  obtain e where e: "b c = Some e" using b(3) by auto
  have "build_loop V (b_node B) [] b = Some (Inr b)" by (subst build_loop.simps) simp
  then have "reconstruct V (b_node B) c = Some (Inr e)" using b(1) [of "[]"] e by (simp add: reconstruct_def)
  then show ?thesis using b(2) e by (auto simp: good_def)
qed

section \<open>Failure\<close>

lemma diagnose_scan_ok:
  assumes ok: "view_ok V" and "set is \<subseteq> {..<ev_len V}"
  shows "diagnose_scan V (meta_table V) r is ops any all_un = Inr
     (fold (\<lambda>x ops. if x \<in> set ops then ops else ops @ [x]) (map (\<lambda>i. oi_name (node_info V i)) (filter (\<lambda>i. ev_find V i = r \<and> oi_unextractable (node_info V i)) is)) ops,
      any \<or> (\<exists>i \<in> set is. ev_find V i = r), all_un \<and> (\<forall>i \<in> set is. ev_find V i = r \<longrightarrow> oi_unextractable (node_info V i)))"
  using assms(2)
proof (induction "is" arbitrary: ops any all_un)
  case (Cons i "is")
  then have i: "ev_op V i < length (ev_ops V)" using view_okD(3) [OF ok] by simp
  then show ?case using Cons by (auto simp: meta_table_def node_info_def)
qed simp

lemma fold_once:
  "set (fold (\<lambda>x ops. if x \<in> set ops then ops else ops @ [x]) xs ops) = set ops \<union> set xs \<and>
   (distinct ops \<longrightarrow> distinct (fold (\<lambda>x ops. if x \<in> set ops then ops else ops @ [x]) xs ops))"
  by (induction xs arbitrary: ops) auto

section \<open>Results\<close>

text \<open>
  C25: \<open>best_members\<close> ends on every e-graph, cyclic ones included, and its table is the table of least costs: a class
  is left unset exactly when it has no derivation tree, and otherwise its entry is the least cost of one, counted up to
  one below \<open>UNSET\<close>.
\<close>

theorem best_members_optimal:
  assumes "view_ok V"
  shows "\<exists>B. best_members V = Some (Inr B) \<and> length (b_cost B) = ev_len V \<and> (\<forall>c. c < ev_len V \<longrightarrow>
    (b_cost B ! c = UNSET \<longleftrightarrow> (\<nexists>t. derives V c t)) \<and>
    (\<forall>t. derives V c t \<longrightarrow> b_cost B ! c \<le> clamp (tcost V t)) \<and>
    ((\<exists>t. derives V c t) \<longrightarrow> (\<exists>t. derives V c t \<and> clamp (tcost V t) = b_cost B ! c)))"
proof -
  obtain B where B: "best_members V = Some (Inr B)" "settled V (colour_slots (ev_len V) (ev_colours V)) B"
    using best_members_ok [OF assms] by blast
  note least = settled_least [OF assms B(2)]
  have tree: "\<exists>t. derives V c t \<and> clamp (tcost V t) = b_cost B ! c" if "c < ev_len V" "b_cost B ! c \<noteq> UNSET" for c
    using reconstruct_ok [OF assms B(2) that] along_cost [OF assms B(2)] by blast
  have "length (b_cost B) = ev_len V" using B(2) by (simp add: settled_def best_inv_def sized_def)
  then show ?thesis using B(1) least tree by (intro exI [of _ B]) blast
qed

text \<open>
  C24: when the class of the root has a derivation tree, \<open>extract_best\<close> returns a term of a cheapest one: the term is
  built from the nodes of that tree, with multiplicities kept, the children of ordered operators in place and those of
  unordered operators sorted by their text.
\<close>

theorem extract_best_optimal:
  assumes "view_ok V" and "root < ev_len V" and "derives V (ev_find V root) u"
  shows "\<exists>t e. extract_best V root = Some (Inr (Inr e)) \<and> derives V (ev_find V root) t \<and> represents V t e \<and>
    (\<forall>t'. derives V (ev_find V root) t' \<longrightarrow> clamp (tcost V t) \<le> clamp (tcost V t'))"
proof -
  obtain B where B: "best_members V = Some (Inr B)" "settled V (colour_slots (ev_len V) (ev_colours V)) B"
    using best_members_ok [OF assms(1)] by blast
  have r: "ev_find V root < ev_len V" "length (b_cost B) = ev_len V"
    using view_okD(1) [OF assms(1,2)] B(2) by (auto simp: settled_def best_inv_def sized_def)
  note least = settled_least [OF assms(1) B(2)]
  obtain t e where t: "reconstruct V (b_node B) (ev_find V root) = Some (Inr e)" "derives V (ev_find V root) t" "along V (b_node B) t" "represents V t e"
    using reconstruct_ok [OF assms(1) B(2) r(1)] least [OF assms(3)] by blast
  have "extract_best V root = Some (Inr (Inr e))" using B(1) r t(1) least [OF assms(3)] by (simp add: extract_best_def)
  then show ?thesis using t least along_cost [OF assms(1) B(2) t(2,3)] by metis
qed

text \<open>
  C26: when the class of the root has no derivation tree, \<open>extract_best\<close> says so and why: \<open>AllUnextractable\<close>, with
  the names of the operators once each, exactly when every node of the class has an unextractable operator, and
  \<open>NoGroundTerm\<close> otherwise.
\<close>

theorem extract_best_failure:
  assumes "view_ok V" and "root < ev_len V" and "\<nexists>t. derives V (ev_find V root) t"
  shows "\<exists>err. extract_best V root = Some (Inr (Inl err)) \<and>
    (if \<forall>i < ev_len V. ev_find V i = ev_find V root \<longrightarrow> oi_unextractable (node_info V i)
     then \<exists>ops. err = AllUnextractable (ev_find V root) ops \<and> distinct ops \<and>
       set ops = (\<lambda>i. oi_name (node_info V i)) ` {i. i < ev_len V \<and> ev_find V i = ev_find V root}
     else err = NoGroundTerm (ev_find V root))"
proof -
  let ?r = "ev_find V root"
  let ?un = "\<forall>i < ev_len V. ev_find V i = ?r \<longrightarrow> oi_unextractable (node_info V i)"
  let ?ops = "fold (\<lambda>x ops. if x \<in> set ops then ops else ops @ [x])
    (map (\<lambda>i. oi_name (node_info V i)) (filter (\<lambda>i. ev_find V i = ?r \<and> oi_unextractable (node_info V i)) [0..<ev_len V])) []"
  obtain B where B: "best_members V = Some (Inr B)" "settled V (colour_slots (ev_len V) (ev_colours V)) B"
    using best_members_ok [OF assms(1)] by blast
  have r: "?r < ev_len V" "ev_find V ?r = ?r" "length (b_cost B) = ev_len V"
    using view_okD(1,2) [OF assms(1,2)] B(2) by (auto simp: settled_def best_inv_def sized_def)
  have "b_cost B ! ?r = UNSET" using reconstruct_ok [OF assms(1) B(2) r(1)] assms(3) by blast
  then have e: "extract_best V root = Some (rbind (diagnose V (meta_table V) ?r) (\<lambda>e. Inr (Inl e)))" using B(1) r by (simp add: extract_best_def)
  have any: "\<exists>i \<in> set [0..<ev_len V]. ev_find V i = ?r" using assms(2) by auto
  have un: "(\<forall>i \<in> set [0..<ev_len V]. ev_find V i = ?r \<longrightarrow> oi_unextractable (node_info V i)) \<longleftrightarrow> ?un" by auto
  have d: "diagnose V (meta_table V) ?r = Inr (if ?un then AllUnextractable ?r ?ops else NoGroundTerm ?r)"
    using diagnose_scan_ok [OF assms(1), of "[0..<ev_len V]" ?r "[]" False True] any un
    by (simp only: diagnose_def rbind_Inr prod.case set_upt atLeast0LessThan subset_refl simp_thms)
  have "distinct ?ops" "?un \<Longrightarrow> set ?ops = (\<lambda>i. oi_name (node_info V i)) ` {i. i < ev_len V \<and> ev_find V i = ?r}"
    using fold_once [of "map (\<lambda>i. oi_name (node_info V i)) (filter (\<lambda>i. ev_find V i = ?r \<and> oi_unextractable (node_info V i)) [0..<ev_len V])" "[]"] by auto
  then show ?thesis unfolding e d by (cases ?un) auto
qed

section \<open>An e-graph\<close>

text \<open>
  Class 1 is cyclic: it holds \<open>(g x x)\<close>, an unordered node with \<open>x\<close> counted twice, and \<open>(f c1)\<close>.  Class 3 holds only
  an unextractable node, and class 4 only \<open>(f c4)\<close>.
\<close>

definition cyclic_view :: eg_view where
  "cyclic_view = \<lparr>ev_len = 5, ev_find = (\<lambda>i. [0, 1, 1, 3, 4] ! i), ev_op = (\<lambda>i. [0, 1, 2, 3, 2] ! i), ev_flags = (\<lambda>_. 0),
     ev_kids = (\<lambda>i. [[], [(0, 2)], [(1, 1)], [], [(4, 1)]] ! i), ev_lit = (\<lambda>i. [Some ''x'', None, None, None, None] ! i),
     ev_ops = [\<lparr>oi_name = ''lit'', oi_kind = OpLit, oi_cost = 1, oi_unextractable = False\<rparr>,
       \<lparr>oi_name = ''g'', oi_kind = OpMSet, oi_cost = 1, oi_unextractable = False\<rparr>,
       \<lparr>oi_name = ''f'', oi_kind = OpNormal, oi_cost = 1, oi_unextractable = False\<rparr>,
       \<lparr>oi_name = ''h'', oi_kind = OpNormal, oi_cost = 1, oi_unextractable = True\<rparr>],
     ev_colours = \<lparr>co_classes = [0, 1, 3, 4], co_members = [[0], [1, 2]], co_class_colour = [7, 9], co_node_colour = [[7], [8, 9]], co_rounds = 1, co_converged = True, co_index = (\<lambda>c. if c < 2 then Some c else None)\<rparr>\<rparr>"

lemma cyclic_view_ok: "view_ok cyclic_view"
proof -
  have lt: "(\<forall>i < 5. P i) \<longleftrightarrow> P 0 \<and> P 1 \<and> P 2 \<and> P 3 \<and> P (4 :: nat)" for P by (auto simp: less_Suc_eq numeral_eq_Suc)
  have "ev_len cyclic_view = 5" by (simp add: cyclic_view_def)
  then show ?thesis unfolding view_ok_def by (simp only: lt) (simp add: cyclic_view_def usize_max_def)
qed

lemma cyclic_view_candidates: "candidate cyclic_view i \<longleftrightarrow> i \<in> {0, 1, 2, 4}"
  by (auto simp: candidate_def cyclic_view_def node_info_def less_Suc_eq numeral_eq_Suc)

lemma cyclic_view_tree: "derives cyclic_view 1 (Nd 1 [Nd 0 []])"
proof -
  have "derives cyclic_view (ev_find cyclic_view 0) (Nd 0 [])"
    by (rule derives.node) (simp_all add: cyclic_view_candidates, simp add: cyclic_view_def)
  then have "derives cyclic_view (ev_find cyclic_view 1) (Nd 1 [Nd 0 []])"
    by (intro derives.node) (simp_all add: cyclic_view_candidates, simp add: cyclic_view_def)
  then show ?thesis by (simp add: cyclic_view_def)
qed

lemma cyclic_view_none: "derives cyclic_view c t \<Longrightarrow> c \<noteq> 4"
proof (induction t arbitrary: c)
  case (Nd i ts)
  note k = derives_kids [OF Nd.prems]
  show ?case
  proof
    assume "c = 4"
    then have i: "i = 4" using k(1,2) by (auto simp: cyclic_view_candidates) (auto simp: cyclic_view_def)
    then have "0 < length ts" using k(3) by (simp add: cyclic_view_def)
    then have "ev_find cyclic_view (fst (ev_kids cyclic_view 4 ! 0)) \<noteq> 4" using Nd.IH k(4) [of 0] i nth_mem by blast
    then show False by (simp add: cyclic_view_def)
  qed
qed

theorem best_members_optimal_witness:
  "\<exists>B. best_members cyclic_view = Some (Inr B) \<and> length (b_cost B) = 5 \<and> b_cost B ! 1 \<le> 3 \<and> b_cost B ! 4 = UNSET"
proof -
  obtain B where B: "best_members cyclic_view = Some (Inr B)" "length (b_cost B) = ev_len cyclic_view"
    "\<forall>c. c < ev_len cyclic_view \<longrightarrow> (b_cost B ! c = UNSET \<longleftrightarrow> (\<nexists>t. derives cyclic_view c t)) \<and>
       (\<forall>t. derives cyclic_view c t \<longrightarrow> b_cost B ! c \<le> clamp (tcost cyclic_view t))"
    using best_members_optimal [OF cyclic_view_ok] by blast
  have l: "ev_len cyclic_view = 5" by (simp add: cyclic_view_def)
  have "tcost cyclic_view (Nd 1 [Nd 0 []]) = 3" by (simp add: cyclic_view_def node_info_def)
  moreover have "1 < ev_len cyclic_view" using l by simp
  ultimately have "b_cost B ! 1 \<le> clamp 3" using B(3) cyclic_view_tree by metis
  then have "b_cost B ! 1 \<le> 3" by (simp add: clamp_def)
  moreover have "b_cost B ! 4 = UNSET" using B(3) [rule_format, of 4] l cyclic_view_none by simp blast
  ultimately show ?thesis using B(1,2) l by auto
qed

theorem extract_best_optimal_witness:
  "\<exists>t e. extract_best cyclic_view 2 = Some (Inr (Inr e)) \<and> derives cyclic_view 1 t \<and> represents cyclic_view t e \<and> clamp (tcost cyclic_view t) \<le> clamp 3"
proof -
  have f: "ev_find cyclic_view 2 = 1" "2 < ev_len cyclic_view" by (simp_all add: cyclic_view_def)
  have c: "tcost cyclic_view (Nd 1 [Nd 0 []]) = 3" by (simp add: cyclic_view_def node_info_def)
  show ?thesis using extract_best_optimal [OF cyclic_view_ok f(2), of "Nd 1 [Nd 0 []]"] cyclic_view_tree f(1) c by metis
qed

theorem extract_best_failure_witness: "extract_best cyclic_view 4 = Some (Inr (Inl (NoGroundTerm 4)))"
proof -
  have f: "ev_find cyclic_view 4 = 4" "4 < ev_len cyclic_view" by (simp_all add: cyclic_view_def)
  have n: "\<not> (\<forall>i < ev_len cyclic_view. ev_find cyclic_view i = ev_find cyclic_view 4 \<longrightarrow> oi_unextractable (node_info cyclic_view i))"
    by (auto simp: cyclic_view_def node_info_def intro!: exI [of _ 4])
  have "\<nexists>t. derives cyclic_view (ev_find cyclic_view 4) t" using cyclic_view_none f(1) by blast
  then show ?thesis using extract_best_failure [OF cyclic_view_ok f(2)] f(1) unfolding if_not_P [OF n] by auto
qed

end
