(* ===== verification/Colour_Sem.thy ===== *)
theory Colour_Sem
  imports Canon_Colour Extract_Props Monomial
begin

unbundle bit_operations_syntax

text \<open>
  What a round of the colouring computes, over representatives instead of positions: \<open>ecol k\<close> is the colour of a
  class after \<open>k\<close> rounds.  The loop of \<open>canon_colours\<close> walks through these functions.
\<close>

section \<open>Classes and members\<close>

definition shown :: "eg_view \<Rightarrow> nat \<Rightarrow> bool" where
  "shown V i \<longleftrightarrow> i < ev_len V \<and> ev_flags V i AND FLAG_CONGRUENT_DUP = 0"

definition class_nodes :: "eg_view \<Rightarrow> nat \<Rightarrow> nat list" where
  "class_nodes V r = filter (\<lambda>i. shown V i \<and> ev_find V i = r) [0..<ev_len V]"

definition rep_set :: "eg_view \<Rightarrow> nat set" where
  "rep_set V = ev_find V ` {i. shown V i}"

abbreviation reps :: "eg_view \<Rightarrow> nat list" where
  "reps V \<equiv> sorted_list_of_set (rep_set V)"

lemma finite_rep_set [simp]: "finite (rep_set V)"
  by (simp add: rep_set_def shown_def)

lemma class_entry_map:
  assumes "sorted_wrt (<) rs" and "r \<notin> set rs \<Longrightarrow> g r = []"
  shows "class_entry r i (map (\<lambda>s. (s, g s)) rs) = map (\<lambda>s. (s, if s = r then g s @ [i] else g s)) (if r \<in> set rs then rs else insort r rs)"
  using assms
proof (induction rs)
  case (Cons s rs)
  consider "r < s" | "r = s" | "s < r" by linarith
  then show ?case
  proof cases
    case 1
    then have "r \<notin> set (s # rs)" using Cons.prems(1) by auto
    then show ?thesis using 1 Cons.prems(2) by auto
  next
    case 2
    then show ?thesis using Cons.prems(1) by auto
  next
    case 3
    then show ?thesis using Cons.IH Cons.prems by auto
  qed
qed simp

lemma by_class_eq: "by_class V = map (\<lambda>r. (r, class_nodes V r)) (reps V)"
proof -
  let ?f = "\<lambda>i m. if ev_flags V i AND FLAG_CONGRUENT_DUP \<noteq> 0 then m else class_entry (ev_find V i) i m"
  let ?nodes = "\<lambda>n r. filter (\<lambda>i. shown V i \<and> ev_find V i = r) [0..<n]"
  let ?R = "\<lambda>n. ev_find V ` {i. i < n \<and> shown V i}"
  have "n \<le> ev_len V \<Longrightarrow> fold ?f [0..<n] [] = map (\<lambda>r. (r, ?nodes n r)) (sorted_list_of_set (?R n))" for n
  proof (induction n)
    case (Suc n)
    let ?r = "ev_find V n"
    have IH: "fold ?f [0..<n] [] = map (\<lambda>r. (r, ?nodes n r)) (sorted_list_of_set (?R n))" using Suc by simp
    show ?case
    proof (cases "shown V n")
      case False
      then have "?R (Suc n) = ?R n" by (auto simp: less_Suc_eq)
      then show ?thesis using False IH Suc.prems by (simp add: shown_def)
    next
      case True
      have R: "?R (Suc n) = insert ?r (?R n)" using True by (auto simp: less_Suc_eq)
      have fin: "finite (?R n)" by simp
      have e: "?r \<notin> set (sorted_list_of_set (?R n)) \<Longrightarrow> ?nodes n ?r = []" using fin by (auto simp: filter_empty_conv image_iff)
      have "class_entry ?r n (map (\<lambda>r. (r, ?nodes n r)) (sorted_list_of_set (?R n))) =
          map (\<lambda>s. (s, if s = ?r then ?nodes n s @ [n] else ?nodes n s)) (if ?r \<in> ?R n then sorted_list_of_set (?R n) else insort ?r (sorted_list_of_set (?R n)))"
        using class_entry_map [of "sorted_list_of_set (?R n)" ?r "?nodes n" n] e fin by simp
      also have "(if ?r \<in> ?R n then sorted_list_of_set (?R n) else insort ?r (sorted_list_of_set (?R n))) = sorted_list_of_set (?R (Suc n))"
        using fin unfolding R by (cases "?r \<in> ?R n") (simp_all add: insert_absorb del: sorted_list_of_set_insert_remove)
      also have "map (\<lambda>s. (s, if s = ?r then ?nodes n s @ [n] else ?nodes n s)) (sorted_list_of_set (?R (Suc n))) =
          map (\<lambda>s. (s, ?nodes (Suc n) s)) (sorted_list_of_set (?R (Suc n)))" using True by auto
      finally show ?thesis using IH True by (simp add: shown_def)
    qed
  qed simp
  moreover have "?R (ev_len V) = rep_set V" by (auto simp: rep_set_def shown_def)
  ultimately show ?thesis by (simp add: by_class_def class_nodes_def)
qed

definition lab :: "eg_view \<Rightarrow> nat \<Rightarrow> string" where
  "lab V i = (case ev_lit V i of Some v \<Rightarrow> v | None \<Rightarrow> oi_name (node_info V i))"

definition subsumed :: "eg_view \<Rightarrow> nat \<Rightarrow> bool" where
  "subsumed V i \<longleftrightarrow> ev_flags V i AND FLAG_SUBSUMED \<noteq> 0"

text \<open>The children as classes with counts; a child whose class has no shown member is skipped.\<close>

definition vkids :: "eg_view \<Rightarrow> nat \<Rightarrow> (nat \<times> nat) list" where
  "vkids V i = filter (\<lambda>k. fst k \<in> rep_set V) (map (\<lambda>k. (ev_find V (fst k), snd k)) (ev_kids V i))"

definition position :: "eg_view \<Rightarrow> nat \<Rightarrow> nat option" where
  "position V = map_of (zip (reps V) [0..<length (reps V)])"

definition member :: "rapid \<Rightarrow> eg_view \<Rightarrow> nat \<Rightarrow> cmember" where
  "member rapid V i = \<lparr>cm_id = i, cm_label = hash_bytes rapid (label_bytes (lab V i)), cm_unordered = unordered V i, cm_subsumed = subsumed V i,
     cm_kids = map (\<lambda>k. (the (position V (fst k)), Small (snd k))) (vkids V i)\<rparr>"

lemma class_position_None: "position V r = None \<longleftrightarrow> r \<notin> rep_set V"
  by (simp add: position_def map_of_zip_is_None)

lemma class_position_nth:
  assumes "r \<in> rep_set V"
  shows "\<exists>k. position V r = Some k \<and> k < length (reps V) \<and> reps V ! k = r"
proof -
  obtain k where k: "k < length (reps V)" "reps V ! k = r" using assms by (metis finite_rep_set in_set_conv_nth set_sorted_list_of_set)
  then have "position V r = Some k" unfolding position_def
    using map_of_zip_nth [of "reps V" "[0..<length (reps V)]" k] by simp
  then show ?thesis using k by blast
qed

lemma read_member_ok:
  assumes ok: "view_ok V" and i: "i < ev_len V"
  shows "read_member rapid V (position V) i = Inr (member rapid V i)"
proof -
  have op: "ev_op V i < length (ev_ops V)" using view_okD(3) [OF ok i] .
  have kids: "List.map_filter (\<lambda>(child, mult). map_option (\<lambda>k. (k, count_of mult)) (position V (ev_find V child))) ks =
      map (\<lambda>k. (the (position V (fst k)), Small (snd k))) (filter (\<lambda>k. fst k \<in> rep_set V) (map (\<lambda>k. (ev_find V (fst k), snd k)) ks))" for ks
  proof (induction ks)
    case (Cons k ks)
    then show ?case using class_position_None [of V "ev_find V (fst k)"] class_position_nth [of "ev_find V (fst k)" V]
      by (cases k) (auto simp: map_filter_simps count_of_def mult_to_u64_def split: option.splits)
  qed (simp add: map_filter_simps)
  show ?thesis using op kids
    by (simp add: read_member_def member_def is_unordered_def unordered_def lab_def subsumed_def vkids_def node_info_def split: option.splits)
qed

section \<open>Bytes\<close>

lemma length_le_bytes [simp]: "length (le_bytes w n) = w"
  by (simp add: le_bytes_def)

lemma le_bytes_inj: "m < 256 ^ w \<Longrightarrow> n < 256 ^ w \<Longrightarrow> le_bytes w m = le_bytes w n \<Longrightarrow> m = n"
proof (induction w arbitrary: m n)
  case (Suc w)
  have step: "le_bytes (Suc w) x = x mod 256 # le_bytes w (x div 256)" for x
    by (simp add: le_bytes_def upt_conv_Cons map_Suc_upt [symmetric] div_mult2_eq mult.commute o_def del: upt_Suc)
  have "m div 256 < 256 ^ w" "n div 256 < 256 ^ w" using Suc.prems(1,2) by (simp_all add: less_mult_imp_div_less mult.commute)
  then have "m div 256 = n div 256" "m mod 256 = n mod 256" using Suc.IH Suc.prems(3) step by auto
  then show ?case by (metis div_mult_mod_eq)
qed simp

lemma hash_bound: "hash_bytes rapid bs < 256 ^ 16"
proof -
  have "unat x < 2 ^ 128" for x :: "128 word" using unsigned_less [of x] by simp
  then show ?thesis by (simp add: hash_bytes_def Let_def)
qed

lemma fold_append: "fold (\<lambda>x b. b @ f x) xs b = b @ concat (map f xs)"
  by (induction xs arbitrary: b) auto

lemma push_colours_eq: "push_colours buf cs = push_len buf (length cs) @ concat (map (le_bytes 16) cs)"
  by (simp add: push_colours_def fold_append)

abbreviation small :: "nat \<times> nat \<Rightarrow> nat \<times> ccount" where
  "small p \<equiv> (fst p, Small (snd p))"

abbreviation pair_bytes :: "nat \<times> nat \<Rightarrow> nat list" where
  "pair_bytes p \<equiv> le_bytes 16 (fst p) @ le_bytes 16 (snd p)"

lemma push_counted_eq: "push_counted buf (map small ys) = push_len buf (length ys) @ concat (map pair_bytes ys)"
proof -
  have "fold (\<lambda>(c, m) b. push_count (b @ le_bytes 16 c) m) (map small ys) b = b @ concat (map pair_bytes ys)" for b
    by (induction ys arbitrary: b) auto
  then show ?thesis by (simp add: push_counted_def)
qed

lemma concat_blocks_inj:
  assumes "\<And>x y. x \<in> set xs \<Longrightarrow> y \<in> set ys \<Longrightarrow> f x = f y \<Longrightarrow> x = y" and "\<And>x. length (f x) = w" and "length xs = length ys"
    and "concat (map f xs) = concat (map f ys)"
  shows "xs = ys"
  using assms(3,1,4)
proof (induction rule: list_induct2)
  case (Cons x xs y ys)
  have "f x = f y \<and> concat (map f xs) = concat (map f ys)" using Cons.prems(2) assms(2) by (simp add: append_eq_append_conv)
  then show ?case using Cons by simp
qed simp

section \<open>Signatures\<close>

text \<open>What the multiplicities of an e-graph promise: they are at most 64 bits wide, and lists are shorter than \<open>2 ^ 64\<close>.\<close>

definition counts_ok :: "eg_view \<Rightarrow> bool" where
  "counts_ok V \<longleftrightarrow> (\<forall>i < ev_len V. length (ev_kids V i) < 2 ^ 64 \<and> list_all (\<lambda>k. snd k \<le> mult64_max) (ev_kids V i))"

definition kid_pairs :: "(nat \<Rightarrow> nat) \<Rightarrow> eg_view \<Rightarrow> nat \<Rightarrow> (nat \<times> nat) list" where
  "kid_pairs q V i = map (\<lambda>k. (q (fst k), snd k)) (vkids V i)"

definition enc :: "(nat \<Rightarrow> nat) \<Rightarrow> eg_view \<Rightarrow> nat \<Rightarrow> (nat \<times> nat) list" where
  "enc q V i = (if unordered V i then map (\<lambda>k. (fst k, count_big (snd k))) (merge_equal (sort_key fst (map small (kid_pairs q V i)))) else kid_pairs q V i)"

lemma sum_bound:
  assumes "length xs < 2 ^ 64" and "\<forall>x \<in> set xs. x \<le> mult64_max"
  shows "sum_list xs < 2 ^ 128"
proof -
  have "sum_list xs \<le> length xs * mult64_max" using assms(2) by (induction xs) auto
  also have "\<dots> \<le> (2 ^ 64 - 1) * (2 ^ 64 - 1)" by (rule mult_le_mono) (use assms(1) in \<open>auto simp: mult64_max_def\<close>)
  finally show ?thesis by simp
qed

lemma vkids_bounds:
  assumes "view_ok V" and "counts_ok V" and i: "i < ev_len V"
  shows "length (vkids V i) < 2 ^ 64" "\<And>k. k \<in> set (vkids V i) \<Longrightarrow> 0 < snd k \<and> snd k \<le> mult64_max \<and> fst k \<in> rep_set V"
    "sum_list (map snd (vkids V i)) < 2 ^ 128"
proof -
  show l: "length (vkids V i) < 2 ^ 64"
    using assms(2) i le_less_trans [OF length_filter_le] by (fastforce simp: vkids_def counts_ok_def)
  show k: "0 < snd k \<and> snd k \<le> mult64_max \<and> fst k \<in> rep_set V" if "k \<in> set (vkids V i)" for k
    using that assms(2) i view_okD(4) [OF assms(1) i] by (fastforce simp: vkids_def counts_ok_def list_all_iff Suc_le_eq)
  show "sum_list (map snd (vkids V i)) < 2 ^ 128" by (rule sum_bound) (use l k in auto)
qed

lemma sort_key_map: "sort_key f (map g xs) = map g (sort_key (f \<circ> g) xs)"
proof (induction xs)
  case (Cons x xs)
  have "insort_key f (g x) (map g ys) = map g (insort_key (f \<circ> g) x ys)" for ys by (induction ys) auto
  then show ?case using Cons by (simp add: comp_def)
qed simp

lemma merge_equal_ok:
  "sorted (map fst ps) \<Longrightarrow> \<forall>p \<in> set ps. 0 < snd p \<Longrightarrow> sum_list (map snd ps) < 2 ^ 128 \<Longrightarrow>
    \<exists>ys. merge_equal (map small ps) = map small ys \<and> canonical ys \<and> bag ys = bag ps \<and> length ys \<le> length ps \<and>
      (\<forall>y \<in> set ys. snd y < 2 ^ 128 \<and> fst y \<in> fst ` set ps)"
proof (induction "length ps" arbitrary: ps rule: less_induct)
  case less
  consider "ps = []" | p where "ps = [p]" | p q rest where "ps = p # q # rest" by (metis list.exhaust)
  then show ?case
  proof cases
    case 2
    then show ?thesis using less.prems by (intro exI [of _ ps]) (auto simp: canonical_def)
  next
    case (3 p q rest)
    show ?thesis
    proof (cases "fst q = fst p")
      case True
      let ?ps = "(fst p, snd p + snd q) # rest"
      have "merge_equal (map small ps) = merge_equal (map small ?ps)" using 3 True less.prems(3) by simp
      moreover have "\<exists>ys. merge_equal (map small ?ps) = map small ys \<and> canonical ys \<and> bag ys = bag ?ps \<and> length ys \<le> length ?ps \<and>
          (\<forall>y \<in> set ys. snd y < 2 ^ 128 \<and> fst y \<in> fst ` set ?ps)" by (rule less.hyps) (use 3 less.prems in auto)
      moreover have "bag ?ps = bag ps" using 3 True by (cases p; cases q) (auto simp: multiset_eq_iff)
      ultimately show ?thesis using 3 by (fastforce simp del: merge_equal.simps)
    next
      case False
      have "\<exists>ys. merge_equal (map small (q # rest)) = map small ys \<and> canonical ys \<and> bag ys = bag (q # rest) \<and> length ys \<le> length (q # rest) \<and>
          (\<forall>y \<in> set ys. snd y < 2 ^ 128 \<and> fst y \<in> fst ` set (q # rest))" by (rule less.hyps) (use 3 less.prems in auto)
      then obtain ys where ys: "merge_equal (map small (q # rest)) = map small ys" "canonical ys" "bag ys = bag (q # rest)" "length ys \<le> length (q # rest)"
        "\<forall>y \<in> set ys. snd y < 2 ^ 128 \<and> fst y \<in> fst ` set (q # rest)" by blast
      have lt: "fst p < fst x" if "x \<in> set (q # rest)" for x using that less.prems(1) 3 False by auto
      have "\<forall>y \<in> set ys. fst p < fst y" using ys(5) lt by (metis imageE)
      then have "canonical (p # ys)" using ys(2) less.prems(2) 3 by (simp add: canonical_def)
      moreover have "merge_equal (map small ps) = map small (p # ys)" using 3 False ys(1) by simp
      moreover have "bag (p # ys) = bag ps" using ys(3) 3 by (cases p) simp
      moreover have "\<forall>y \<in> set (p # ys). snd y < 2 ^ 128 \<and> fst y \<in> fst ` set ps" using ys(5) 3 less.prems(3) by auto
      ultimately show ?thesis using ys(4) 3 by (intro exI [of _ "p # ys"]) (simp only: length_Cons Suc_le_mono simp_thms)
    qed
  qed (simp add: canonical_def)
qed

lemma bag_perm: "mset xs = mset ys \<Longrightarrow> bag xs = bag ys"
  by (metis bag_def mset_map sum_mset_sum_list)

text \<open>The merged list depends on the multiset of children only.\<close>

lemma merge_equal_perm:
  assumes "sorted (map fst ps)" "sorted (map fst ps')" "mset ps = mset ps'" "\<forall>p \<in> set ps. 0 < snd p" "sum_list (map snd ps) < 2 ^ 128"
  shows "merge_equal (map small ps) = merge_equal (map small ps')"
proof -
  have s: "set ps = set ps'" "sum_list (map snd ps) = sum_list (map snd ps')" using assms(3) mset_eq_setD by (auto simp flip: sum_mset_sum_list)
  obtain ys where ys: "merge_equal (map small ps) = map small ys" "canonical ys" "bag ys = bag ps" using merge_equal_ok [OF assms(1,4,5)] by blast
  obtain zs where zs: "merge_equal (map small ps') = map small zs" "canonical zs" "bag zs = bag ps'"
    using merge_equal_ok [of ps'] assms(2,4,5) s by auto
  have "ys = zs" by (rule bag_inject [OF ys(2) zs(2)]) (simp add: ys(3) zs(3) bag_perm [OF assms(3)])
  then show ?thesis using ys(1) zs(1) by simp
qed

lemma enc_ok:
  assumes "view_ok V" "counts_ok V" "i < ev_len V"
  shows "coloured_kids (member rapid V i) (map q (reps V)) = Inr (map small (enc q V i))"
    "length (enc q V i) < 2 ^ 64" "\<And>y. y \<in> set (enc q V i) \<Longrightarrow> snd y < 256 ^ 16 \<and> fst y \<in> range q"
    "unordered V i \<Longrightarrow> canonical (enc q V i) \<and> bag (enc q V i) = bag (kid_pairs q V i)" "\<not> unordered V i \<Longrightarrow> enc q V i = kid_pairs q V i"
proof -
  note b = vkids_bounds [OF assms]
  have kids: "rmap (\<lambda>(k, c). rbind (nth_res (map q (reps V)) k) (\<lambda>x. Inr (x, c))) (cm_kids (member rapid V i)) = Inr (map small (kid_pairs q V i))"
  proof -
    have "rmap (\<lambda>(k, c). rbind (nth_res (map q (reps V)) k) (\<lambda>x. Inr (x, c))) (map (\<lambda>k. (the (position V (fst k)), Small (snd k))) ks) =
        Inr (map small (map (\<lambda>k. (q (fst k), snd k)) ks))" if "\<forall>k \<in> set ks. fst k \<in> rep_set V" for ks
      using that
    proof (induction ks)
      case (Cons k ks)
      obtain p where "position V (fst k) = Some p" "p < length (reps V)" "reps V ! p = fst k" using class_position_nth [of "fst k" V] Cons.prems by auto
      then show ?case using Cons by simp
    qed simp
    then show ?thesis using b(2) by (simp add: member_def kid_pairs_def)
  qed
  show "\<not> unordered V i \<Longrightarrow> enc q V i = kid_pairs q V i" by (simp add: enc_def)
  let ?ps = "sort_key fst (kid_pairs q V i)"
  have "sum_list (map snd ?ps) = sum_list (map snd (kid_pairs q V i))" by (simp flip: sum_mset_sum_list)
  then have st: "set ?ps = set (kid_pairs q V i)" "sum_list (map snd ?ps) = sum_list (map snd (vkids V i))"
    by (simp_all add: kid_pairs_def o_def)
  have "\<exists>ys. merge_equal (map small ?ps) = map small ys \<and> canonical ys \<and> bag ys = bag ?ps \<and> length ys \<le> length ?ps \<and>
      (\<forall>y \<in> set ys. snd y < 2 ^ 128 \<and> fst y \<in> fst ` set ?ps)"
    by (rule merge_equal_ok) (use b(2,3) st in \<open>auto simp: kid_pairs_def\<close>)
  then obtain ys where ys: "merge_equal (map small ?ps) = map small ys" "canonical ys" "bag ys = bag ?ps" "length ys \<le> length ?ps"
    "\<forall>y \<in> set ys. snd y < 2 ^ 128 \<and> fst y \<in> fst ` set ?ps" by blast
  have e: "enc q V i = ys" if "unordered V i" using that ys(1) by (simp add: enc_def sort_key_map o_def)
  show "coloured_kids (member rapid V i) (map q (reps V)) = Inr (map small (enc q V i))"
  proof (cases "unordered V i")
    case True
    then show ?thesis using kids ys(1) e by (simp add: coloured_kids_def sort_key_map o_def) (simp add: member_def)
  next
    case False
    then show ?thesis using kids by (simp add: coloured_kids_def enc_def) (simp add: member_def)
  qed
  have kl: "length (kid_pairs q V i) < 2 ^ 64" using b(1) by (simp add: kid_pairs_def)
  then show "length (enc q V i) < 2 ^ 64" using ys(4) e by (cases "unordered V i") (auto simp: enc_def)
  have sm: "snd y < 256 ^ 16 \<and> fst y \<in> range q" if "y \<in> set (kid_pairs q V i)" for y
    using that b(2) by (fastforce simp: kid_pairs_def mult64_max_def)
  show "snd y < 256 ^ 16 \<and> fst y \<in> range q" if "y \<in> set (enc q V i)" for y
  proof (cases "unordered V i")
    case True
    then show ?thesis using that e ys(5) st(1) sm by fastforce
  qed (use that sm in \<open>simp add: enc_def\<close>)
  show "unordered V i \<Longrightarrow> canonical (enc q V i) \<and> bag (enc q V i) = bag (kid_pairs q V i)"
    using e ys(2,3) bag_perm [of ?ps "kid_pairs q V i"] by simp
qed

definition mbytes :: "nat \<Rightarrow> nat \<Rightarrow> (nat \<times> nat) list \<Rightarrow> bool \<Rightarrow> nat list" where
  "mbytes tag label ys s = push_counted ([tag] @ le_bytes 16 label) (map small ys) @ [of_bool s]"

definition label_hash :: "rapid \<Rightarrow> eg_view \<Rightarrow> nat \<Rightarrow> nat" where
  "label_hash rapid V i = hash_bytes rapid (label_bytes (lab V i))"

definition esig :: "rapid \<Rightarrow> (nat \<Rightarrow> nat) \<Rightarrow> eg_view \<Rightarrow> nat \<Rightarrow> nat \<Rightarrow> nat" where
  "esig rapid q V tag i = hash_bytes rapid (mbytes tag (label_hash rapid V i) (enc q V i) (subsumed V i))"

lemma member_sig_ok:
  assumes "view_ok V" "counts_ok V" "i < ev_len V"
  shows "member_sig rapid (member rapid V i) (map q (reps V)) tag = Inr (esig rapid q V tag i)"
  using enc_ok(1) [OF assms] by (simp add: member_sig_def esig_def mbytes_def label_hash_def) (simp add: member_def)

definition sbytes :: "nat \<Rightarrow> nat \<Rightarrow> bool \<Rightarrow> nat list" where
  "sbytes label arity s = push_count ([TAG_SHALLOW] @ le_bytes 16 label) (Small arity) @ [of_bool s]"

definition arity :: "eg_view \<Rightarrow> nat \<Rightarrow> nat" where
  "arity V i = sum_list (map snd (vkids V i))"

lemma shallow_sig_ok:
  assumes "view_ok V" "counts_ok V" "i < ev_len V"
  shows "shallow_sig rapid (member rapid V i) = hash_bytes rapid (sbytes (label_hash rapid V i) (arity V i) (subsumed V i))"
proof -
  have f: "a + sum_list (map snd ks) < 2 ^ 128 \<Longrightarrow>
      fold (\<lambda>(_, c) acc. count_add acc c) (map (\<lambda>k. (p k, Small (snd k))) ks) (Small a) = Small (a + sum_list (map snd ks))"
    for p and ks :: "(nat \<times> nat) list" and a by (induction ks arbitrary: a) (simp_all add: add.assoc)
  from f [of 0 "vkids V i" "\<lambda>k. the (position V (fst k))"] vkids_bounds(3) [OF assms] show ?thesis
    by (simp add: shallow_sig_def sbytes_def arity_def member_def label_hash_def)
qed

section \<open>Rounds\<close>

fun ecol :: "rapid \<Rightarrow> eg_view \<Rightarrow> nat \<Rightarrow> nat \<Rightarrow> nat" where
  "ecol rapid V 0 r = class_hash rapid (map (\<lambda>i. hash_bytes rapid (sbytes (label_hash rapid V i) (arity V i) (subsumed V i))) (class_nodes V r))"
| "ecol rapid V (Suc k) r = class_hash rapid (map (esig rapid (ecol rapid V k) V TAG_MEMBER) (class_nodes V r))"

declare ecol.simps [simp del]

abbreviation the_members :: "rapid \<Rightarrow> eg_view \<Rightarrow> cmember list list" where
  "the_members rapid V \<equiv> map (\<lambda>r. map (member rapid V) (class_nodes V r)) (reps V)"

lemma class_nodes_less: "i \<in> set (class_nodes V r) \<Longrightarrow> i < ev_len V"
  by (simp add: class_nodes_def)

lemma members_ok:
  assumes ok: "view_ok V"
  shows "rmap (\<lambda>(_, ids). rmap (read_member rapid V (position V)) (sort ids)) (by_class V) = Inr (the_members rapid V)"
proof -
  have "rmap (read_member rapid V (position V)) (sort (class_nodes V r)) = Inr (map (member rapid V) (class_nodes V r))" for r
  proof -
    have "sort (class_nodes V r) = class_nodes V r" by (simp add: class_nodes_def sorted_sort_id sorted_filter [where f = "\<lambda>x. x", simplified])
    then show ?thesis using rmap_ok [of "class_nodes V r"] read_member_ok [OF ok class_nodes_less] by metis
  qed
  then have "rmap (\<lambda>(_, ids). rmap (read_member rapid V (position V)) (sort ids)) (map (\<lambda>r. (r, class_nodes V r)) rs) =
      Inr (map (\<lambda>r. map (member rapid V) (class_nodes V r)) rs)" for rs by (induction rs) auto
  then show ?thesis by (simp add: by_class_eq)
qed

lemma first_colours_ok:
  assumes "view_ok V" "counts_ok V"
  shows "first_colours rapid (the_members rapid V) = map (ecol rapid V 0) (reps V)"
  using shallow_sig_ok [OF assms class_nodes_less] by (auto simp: first_colours_def ecol.simps intro!: arg_cong [where f = "class_hash rapid"])

lemma next_colours_ok:
  assumes "view_ok V" "counts_ok V"
  shows "next_colours rapid (the_members rapid V) (map (ecol rapid V k) (reps V)) = Inr (map (ecol rapid V (Suc k)) (reps V))"
proof -
  have "rmap (\<lambda>m. member_sig rapid m (map (ecol rapid V k) (reps V)) TAG_MEMBER) (map (member rapid V) is) =
      Inr (map (esig rapid (ecol rapid V k) V TAG_MEMBER) is)" if "\<forall>i \<in> set is. i < ev_len V" for "is"
    using that member_sig_ok [OF assms] by (induction "is") auto
  then have "rmap (\<lambda>m. member_sig rapid m (map (ecol rapid V k) (reps V)) TAG_MEMBER) (map (member rapid V) (class_nodes V r)) =
      Inr (map (esig rapid (ecol rapid V k) V TAG_MEMBER) (class_nodes V r))" for r using class_nodes_less by blast
  then have "rmap (\<lambda>ms. rbind (rmap (\<lambda>m. member_sig rapid m (map (ecol rapid V k) (reps V)) TAG_MEMBER) ms) (\<lambda>sigs. Inr (class_hash rapid sigs)))
      (map (\<lambda>r. map (member rapid V) (class_nodes V r)) rs) = Inr (map (ecol rapid V (Suc k)) rs)" for rs
    by (induction rs) (auto simp: ecol.simps)
  then show ?thesis by (simp add: next_colours_def)
qed

section \<open>Partitions\<close>

definition same_kernel :: "nat set \<Rightarrow> (nat \<Rightarrow> nat) \<Rightarrow> (nat \<Rightarrow> nat) \<Rightarrow> bool" where
  "same_kernel A f g \<longleftrightarrow> (\<forall>a \<in> A. \<forall>b \<in> A. f a = f b \<longleftrightarrow> g a = g b)"

lemma partition_loop_blocks:
  assumes "map snd seen = rev [0..<length seen]" and "distinct (map fst seen)"
  shows "\<exists>h. partition_loop seen xs = map h xs \<and> (\<forall>p \<in> set seen. h (fst p) = snd p) \<and> inj_on h (fst ` set seen \<union> set xs)"
  using assms
proof (induction xs arbitrary: seen)
  case Nil
  have d: "distinct (map snd seen)" by (simp add: Nil.prems(1))
  have v: "the (map_of seen (fst p)) = snd p" if "p \<in> set seen" for p using map_of_is_SomeI [OF Nil.prems(2), of "fst p" "snd p"] that by simp
  have "inj_on (\<lambda>c. the (map_of seen c)) (fst ` set seen)"
  proof (rule inj_onI)
    fix x y assume "x \<in> fst ` set seen" "y \<in> fst ` set seen" and eq: "the (map_of seen x) = the (map_of seen y)"
    then obtain p p' where p: "p \<in> set seen" "x = fst p" "p' \<in> set seen" "y = fst p'" by blast
    then have "snd p = snd p'" using eq v by simp
    then show "x = y" using d p by (auto simp: distinct_map dest: inj_onD)
  qed
  moreover have "\<forall>p \<in> set seen. the (map_of seen (fst p)) = snd p" using v by blast
  ultimately show ?case by (intro exI [of _ "\<lambda>c. the (map_of seen c)"]) simp
next
  case (Cons c xs)
  show ?case
  proof (cases "map_of seen c")
    case None
    then have n: "c \<notin> fst ` set seen" by (simp add: map_of_eq_None_iff)
    have "\<exists>h. partition_loop ((c, length seen) # seen) xs = map h xs \<and> (\<forall>p \<in> set ((c, length seen) # seen). h (fst p) = snd p) \<and>
        inj_on h (fst ` set ((c, length seen) # seen) \<union> set xs)" by (rule Cons.IH) (use Cons.prems n in auto)
    then obtain h where h: "partition_loop ((c, length seen) # seen) xs = map h xs" "\<forall>p \<in> set ((c, length seen) # seen). h (fst p) = snd p"
      "inj_on h (fst ` set ((c, length seen) # seen) \<union> set xs)" by blast
    then show ?thesis using None by (intro exI [of _ h]) (simp add: Let_def)
  next
    case (Some b)
    then have m: "(c, b) \<in> set seen" by (rule map_of_SomeD)
    obtain h where h: "partition_loop seen xs = map h xs" "\<forall>p \<in> set seen. h (fst p) = snd p" "inj_on h (fst ` set seen \<union> set xs)" using Cons.IH [OF Cons.prems] by blast
    have "fst ` set seen \<union> set (c # xs) = fst ` set seen \<union> set xs" using m by force
    then show ?thesis using Some h m by (intro exI [of _ h]) (auto simp: Let_def)
  qed
qed

lemma partition_loop_cong:
  assumes "same_kernel A f g"
  shows "set as \<subseteq> A \<Longrightarrow> fst ` set seen \<subseteq> A \<Longrightarrow> partition_loop (map (\<lambda>(a, v). (f a, v)) seen) (map f as) = partition_loop (map (\<lambda>(a, v). (g a, v)) seen) (map g as)"
proof (induction as arbitrary: seen)
  case (Cons a as)
  have "map_of (map (\<lambda>(a, v). (f a, v)) seen) (f a) = map_of (map (\<lambda>(a, v). (g a, v)) seen) (g a)"
    using Cons.prems assms by (induction seen) (auto simp: same_kernel_def)
  then show ?case using Cons.IH [of seen] Cons.IH [of "(a, length seen) # seen"] Cons.prems by (auto simp: Let_def split: option.splits)
qed simp

lemma partition_eq_iff: "colour_partition (map f as) = colour_partition (map g as) \<longleftrightarrow> same_kernel (set as) f g"
proof
  assume eq: "colour_partition (map f as) = colour_partition (map g as)"
  have "\<exists>h. colour_partition (map f as) = map h (map f as) \<and> inj_on h (f ` set as)" for f :: "nat \<Rightarrow> nat"
    using partition_loop_blocks [of "[]" "map f as"] by (auto simp: colour_partition_def)
  then obtain h h' where h: "colour_partition (map f as) = map h (map f as)" "inj_on h (f ` set as)"
    "colour_partition (map g as) = map h' (map g as)" "inj_on h' (g ` set as)" by metis
  then have "h (f a) = h' (g a)" if "a \<in> set as" for a using eq that by simp
  then show "same_kernel (set as) f g" using h(2,4) unfolding same_kernel_def inj_on_def by (metis imageI)
next
  assume "same_kernel (set as) f g"
  then show "colour_partition (map f as) = colour_partition (map g as)" using partition_loop_cong [of "set as" f g as "[]"] by (simp add: colour_partition_def)
qed

section \<open>The result\<close>

text \<open>Rounds until \<open>P\<close> holds, at most \<open>left\<close> of them, and whether it ever did.\<close>

fun steps :: "(nat \<Rightarrow> bool) \<Rightarrow> nat \<Rightarrow> nat \<Rightarrow> nat \<times> bool" where
  "steps P 0 k = (k, False)"
| "steps P (Suc left) k = (if P k then (Suc k, True) else steps P left (Suc k))"

abbreviation stops :: "rapid \<Rightarrow> eg_view \<Rightarrow> nat \<Rightarrow> bool" where
  "stops rapid V k \<equiv> same_kernel (rep_set V) (ecol rapid V k) (ecol rapid V (Suc k))"

lemma same_kernel_sym: "same_kernel A f g \<longleftrightarrow> same_kernel A g f"
  by (auto simp: same_kernel_def)

lemma refine_loop_ok:
  assumes "view_ok V" "counts_ok V"
  shows "refine_loop rapid (the_members rapid V) left (map (ecol rapid V k) (reps V)) (colour_partition (map (ecol rapid V k) (reps V))) k =
    Inr (map (ecol rapid V (fst (steps (stops rapid V) left k))) (reps V), steps (stops rapid V) left k)"
proof (induction left arbitrary: k)
  case (Suc left)
  have "colour_partition (map (ecol rapid V (Suc k)) (reps V)) = colour_partition (map (ecol rapid V k) (reps V)) \<longleftrightarrow> stops rapid V k"
    using partition_eq_iff [of "ecol rapid V (Suc k)" "reps V" "ecol rapid V k"] by (simp add: same_kernel_sym [of _ "ecol rapid V (Suc k)"])
  then show ?case using next_colours_ok [OF assms] Suc by (simp add: Let_def)
qed simp

definition ncol :: "rapid \<Rightarrow> (nat \<Rightarrow> nat) \<Rightarrow> eg_view \<Rightarrow> nat \<Rightarrow> nat \<Rightarrow> nat" where
  "ncol rapid q V r i = hash_bytes rapid ([TAG_NODE] @ le_bytes 16 (q r) @ le_bytes 16 (esig rapid q V TAG_NODE i))"

definition rounds_of :: "rapid \<Rightarrow> eg_view \<Rightarrow> nat \<times> bool" where
  "rounds_of rapid V = steps (stops rapid V) (Suc (card (rep_set V))) 0"

abbreviation final :: "rapid \<Rightarrow> eg_view \<Rightarrow> nat \<Rightarrow> nat" where
  "final rapid V \<equiv> ecol rapid V (fst (rounds_of rapid V))"

definition colours_of :: "rapid \<Rightarrow> eg_view \<Rightarrow> colouring" where
  "colours_of rapid V = \<lparr>co_classes = reps V, co_members = map (class_nodes V) (reps V), co_class_colour = map (final rapid V) (reps V),
     co_node_colour = map (\<lambda>r. map (ncol rapid (final rapid V) V r) (class_nodes V r)) (reps V),
     co_rounds = fst (rounds_of rapid V), co_converged = snd (rounds_of rapid V), co_index = position V\<rparr>"

lemma card_rep_set: "view_ok V \<Longrightarrow> card (rep_set V) \<le> ev_len V"
proof -
  assume ok: "view_ok V"
  have "rep_set V \<subseteq> {..<ev_len V}" using view_okD(1) [OF ok] by (auto simp: rep_set_def shown_def)
  then show ?thesis using card_mono [of "{..<ev_len V}"] by fastforce
qed

lemma node_colours_ok:
  assumes "view_ok V" "counts_ok V"
  shows "rmap (\<lambda>(ci, ms). rmap (node_colour rapid (map q (reps V)) ci) ms) (zip [0..<length (the_members rapid V)] (the_members rapid V)) =
    Inr (map (\<lambda>r. map (ncol rapid q V r) (class_nodes V r)) (reps V))"
proof -
  have one: "rmap (node_colour rapid (map q (reps V)) ci) (map (member rapid V) (class_nodes V r)) = Inr (map (ncol rapid q V r) (class_nodes V r))"
    if "ci < length (reps V)" "reps V ! ci = r" for ci r
  proof -
    have "rmap (node_colour rapid (map q (reps V)) ci) (map (member rapid V) is) = Inr (map (ncol rapid q V r) is)" if "\<forall>i \<in> set is. i < ev_len V" for "is"
      using that member_sig_ok [OF assms] \<open>ci < length (reps V)\<close> \<open>reps V ! ci = r\<close> by (induction "is") (auto simp: node_colour_def ncol_def)
    then show ?thesis using class_nodes_less by blast
  qed
  let ?f = "\<lambda>(ci, ms). rmap (node_colour rapid (map q (reps V)) ci) ms"
  let ?g = "\<lambda>(ci, ms). map (ncol rapid q V (reps V ! ci)) (class_nodes V (reps V ! ci))"
  have "rmap ?f (zip [0..<length (the_members rapid V)] (the_members rapid V)) = Inr (map ?g (zip [0..<length (the_members rapid V)] (the_members rapid V)))"
    by (rule rmap_ok) (use one in \<open>auto simp: in_set_zip\<close>)
  also have "map ?g (zip [0..<length (the_members rapid V)] (the_members rapid V)) = map (\<lambda>r. map (ncol rapid q V r) (class_nodes V r)) (reps V)"
    by (rule nth_equalityI) auto
  finally show ?thesis .
qed

lemma canon_colours_ok:
  assumes "view_ok V" "counts_ok V"
  shows "canon_colours rapid V = Inr (colours_of rapid V)"
proof -
  have c: "map fst (by_class V) = reps V" "map_of (zip (reps V) [0..<length (reps V)]) = position V"
    by (simp_all add: by_class_eq o_def position_def)
  have "ev_len V < UNSET" using assms(1) by (simp add: view_ok_def)
  then have b: "sat_add (length (reps V)) 1 = Suc (card (rep_set V))" using card_rep_set [OF assms(1)] by (simp add: sat_add_def)
  have loop: "refine_loop rapid (the_members rapid V) (Suc (card (rep_set V))) (map (ecol rapid V 0) (reps V)) (colour_partition (map (ecol rapid V 0) (reps V))) 0 =
      Inr (map (final rapid V) (reps V), rounds_of rapid V)"
    unfolding rounds_of_def by (rule refine_loop_ok [OF assms])
  obtain n conv where n: "rounds_of rapid V = (n, conv)" by (cases "rounds_of rapid V")
  have m: "map (map cm_id) (the_members rapid V) = map (class_nodes V) (reps V)" by (simp add: member_def o_def)
  show ?thesis
    unfolding canon_colours_def Let_def c b members_ok [OF assms(1)] rbind_Inr first_colours_ok [OF assms] loop
    using node_colours_ok [OF assms, of rapid "ecol rapid V n"] by (simp only: n prod.case rbind_Inr m colours_of_def fst_conv snd_conv)
qed

end
