(* ===== verification/Colour_Props.thy ===== *)
theory Colour_Props
  imports Colour_Sem
begin

unbundle bit_operations_syntax

text \<open>
  What the colouring promises.  A colouring of the classes is stable when classes of one colour have the same members,
  children read up to colour.  Without collisions of the hash the rounds refine each other and stop at the coarsest
  stable colouring; whatever the hash, the result depends on the content of the e-graph and not on the identifiers.
\<close>

section \<open>Stable colourings\<close>

definition akids :: "(nat \<Rightarrow> nat) \<Rightarrow> eg_view \<Rightarrow> nat \<Rightarrow> nat multiset + (nat \<times> nat) list" where
  "akids q V i = (if unordered V i then Inl (bag (kid_pairs q V i)) else Inr (kid_pairs q V i))"

definition asig :: "(nat \<Rightarrow> nat) \<Rightarrow> eg_view \<Rightarrow> nat \<Rightarrow> string \<times> bool \<times> (nat multiset + (nat \<times> nat) list)" where
  "asig q V i = (lab V i, subsumed V i, akids q V i)"

definition class_sigs :: "(nat \<Rightarrow> nat) \<Rightarrow> eg_view \<Rightarrow> nat \<Rightarrow> (string \<times> bool \<times> (nat multiset + (nat \<times> nat) list)) multiset" where
  "class_sigs q V r = image_mset (asig q V) (mset (class_nodes V r))"

definition stable :: "eg_view \<Rightarrow> (nat \<Rightarrow> nat) \<Rightarrow> bool" where
  "stable V q \<longleftrightarrow> (\<forall>r \<in> rep_set V. \<forall>s \<in> rep_set V. q r = q s \<longrightarrow> class_sigs q V r = class_sigs q V s)"

text \<open>
  Two classes are bisimilar with members counted when some stable colouring gives them one colour: every signature has as
  many members in one as in the other.  The comment of \<open>canon_colour.rs\<close> forms sets of signatures instead;
  \<open>bisimilar\<close> is that relation, and it holds of more pairs.
\<close>

definition counting_bisimilar :: "eg_view \<Rightarrow> nat \<Rightarrow> nat \<Rightarrow> bool" where
  "counting_bisimilar V r s \<longleftrightarrow> (\<exists>q. stable V q \<and> q r = q s)"

definition bisimilar :: "eg_view \<Rightarrow> nat \<Rightarrow> nat \<Rightarrow> bool" where
  "bisimilar V r s \<longleftrightarrow> (\<exists>q. (\<forall>x \<in> rep_set V. \<forall>y \<in> rep_set V. q x = q y \<longrightarrow> set_mset (class_sigs q V x) = set_mset (class_sigs q V y)) \<and> q r = q s)"

lemma counting_bisimilar_bisimilar: "counting_bisimilar V r s \<Longrightarrow> bisimilar V r s"
proof -
  assume "counting_bisimilar V r s"
  then obtain q where q: "stable V q" "q r = q s" unfolding counting_bisimilar_def by blast
  have "set_mset (class_sigs q V x) = set_mset (class_sigs q V y)" if "x \<in> rep_set V" "y \<in> rep_set V" "q x = q y" for x y
  proof -
    have "class_sigs q V x = class_sigs q V y" using q(1) that unfolding stable_def by blast
    then show ?thesis by (simp only:)
  qed
  then show ?thesis unfolding bisimilar_def using q(2) by blast
qed

lemma image_mset_kernel:
  assumes "\<And>x y. x \<in># A \<Longrightarrow> y \<in># B \<Longrightarrow> f x = f y \<Longrightarrow> g x = g y" and "image_mset f A = image_mset f B"
  shows "image_mset g A = image_mset g B"
  using assms
proof (induction A arbitrary: B)
  case (add a A)
  have "f a \<in># image_mset f B" using add.prems(2) by (metis image_mset_add_mset union_single_eq_member)
  then obtain b where b: "b \<in># B" "f a = f b" by auto
  then obtain C where C: "B = add_mset b C" by (metis mset_add)
  have "image_mset f A = image_mset f C" using add.prems(2) b(2) C by simp
  then have "image_mset g A = image_mset g C" using add.IH add.prems(1) C by simp
  moreover have "g a = g b" using add.prems(1) b by simp
  ultimately show ?case using C by simp
qed simp

text \<open>A coarser colouring sees less.\<close>

lemma bag_map: "bag (map (\<lambda>k. (g (fst k), snd k)) ks) = image_mset g (bag ks)"
  by (induction ks) auto

lemma asig_coarser:
  assumes "view_ok V" "counts_ok V" "i < ev_len V" "j < ev_len V"
    and "\<And>a b. a \<in> rep_set V \<Longrightarrow> b \<in> rep_set V \<Longrightarrow> q a = q b \<Longrightarrow> q' a = q' b" and eq: "asig q V i = asig q V j"
  shows "asig q' V i = asig q' V j"
proof -
  obtain g where g: "\<And>a. a \<in> rep_set V \<Longrightarrow> q' a = g (q a)"
  proof
    fix a assume a: "a \<in> rep_set V"
    show "q' a = (\<lambda>x. q' (SOME b. b \<in> rep_set V \<and> q b = x)) (q a)"
      using assms(5) [OF a, of "SOME b. b \<in> rep_set V \<and> q b = q a"] someI [of "\<lambda>b. b \<in> rep_set V \<and> q b = q a" a] a by auto
  qed
  have kp: "kid_pairs q' V x = map (\<lambda>k. (g (fst k), snd k)) (kid_pairs q V x)" if "x < ev_len V" for x
    using vkids_bounds(2) [OF assms(1,2) that] g by (simp add: kid_pairs_def)
  show ?thesis using eq kp [OF assms(3)] kp [OF assms(4)] bag_map [of g]
    by (auto simp: asig_def akids_def split: if_splits)
qed

lemma class_sigs_coarser:
  assumes "view_ok V" "counts_ok V"
    and "\<And>a b. a \<in> rep_set V \<Longrightarrow> b \<in> rep_set V \<Longrightarrow> q a = q b \<Longrightarrow> q' a = q' b" and "class_sigs q V r = class_sigs q V s"
  shows "class_sigs q' V r = class_sigs q' V s"
  unfolding class_sigs_def
  by (rule image_mset_kernel [where f = "asig q V"]) (use asig_coarser [OF assms(1,2) _ _ assms(3)] class_nodes_less assms(4) in \<open>auto simp: class_sigs_def\<close>)

section \<open>Signatures and hashes\<close>

lemma class_hash_mset: "mset xs = mset ys \<Longrightarrow> class_hash rapid xs = class_hash rapid ys"
  unfolding class_hash_def by (metis properties_for_sort sorted_sort mset_sort)

lemma enc_akids:
  assumes "view_ok V" "counts_ok V" "i < ev_len V" "view_ok W" "counts_ok W" "j < ev_len W" and "akids q V i = akids p W j"
  shows "enc q V i = enc p W j"
proof (cases "unordered V i")
  case True
  then have u: "unordered W j" "bag (kid_pairs q V i) = bag (kid_pairs p W j)" using assms(7) by (auto simp: akids_def split: if_splits)
  show ?thesis by (rule bag_inject) (use enc_ok(4) [OF assms(1-3) True] enc_ok(4) [OF assms(4-6) u(1)] u(2) in auto)
next
  case False
  then show ?thesis using assms(7) by (auto simp: akids_def enc_def split: if_splits)
qed

lemma enc_inject:
  assumes "view_ok V" "counts_ok V" "i < ev_len V" "j < ev_len V" "unordered V i = unordered V j" "enc q V i = enc q V j"
  shows "akids q V i = akids q V j"
  using enc_ok(4,5) [OF assms(1,2,3), of q] enc_ok(4,5) [OF assms(1,2,4), of q] assms(5,6) by (metis akids_def)

lemma mbytes_inject:
  assumes "mbytes tag l ys s = mbytes tag l' zs s'" and "l < 256 ^ 16" "l' < 256 ^ 16" "length ys < 2 ^ 64" "length zs < 2 ^ 64"
    and "\<And>y. y \<in> set ys \<union> set zs \<Longrightarrow> fst y < 256 ^ 16 \<and> snd y < 256 ^ 16"
  shows "l = l' \<and> ys = zs \<and> s = s'"
proof -
  have e: "le_bytes 16 l @ le_bytes 8 (length ys) @ concat (map pair_bytes ys) @ [of_bool s] =
      le_bytes 16 l' @ le_bytes 8 (length zs) @ concat (map pair_bytes zs) @ [of_bool s']"
    using assms(1,4,5) by (simp add: mbytes_def push_counted_eq push_len_def)
  then have l: "le_bytes 16 l = le_bytes 16 l'" and r: "le_bytes 8 (length ys) @ concat (map pair_bytes ys) @ [of_bool s] =
      le_bytes 8 (length zs) @ concat (map pair_bytes zs) @ [of_bool s']" by (simp_all add: append_eq_append_conv)
  then have n: "le_bytes 8 (length ys) = le_bytes 8 (length zs)" and c: "concat (map pair_bytes ys) = concat (map pair_bytes zs)" and s: "of_bool s = (of_bool s' :: nat)"
    by (simp_all add: append_eq_append_conv)
  have "length ys < 256 ^ 8" "length zs < 256 ^ 8" using assms(4,5) by simp_all
  then have len: "length ys = length zs" using n by (rule le_bytes_inj)
  have "ys = zs"
  proof (rule concat_blocks_inj [OF _ _ len c])
    show "x = y" if "x \<in> set ys" "y \<in> set zs" "pair_bytes x = pair_bytes y" for x y
    proof -
      have "le_bytes 16 (fst x) = le_bytes 16 (fst y)" "le_bytes 16 (snd x) = le_bytes 16 (snd y)" using that(3) by (simp_all add: append_eq_append_conv)
      moreover have "fst x < 256 ^ 16" "snd x < 256 ^ 16" "fst y < 256 ^ 16" "snd y < 256 ^ 16" using that assms(6) [of x] assms(6) [of y] by auto
      ultimately show ?thesis using le_bytes_inj by (metis prod.expand)
    qed
  qed simp
  moreover have "l = l'" using l assms(2,3) by (metis le_bytes_inj)
  moreover have "s = s'" using s by (cases s; cases s') auto
  ultimately show ?thesis by blast
qed

lemma cbytes_inject:
  assumes "push_colours [TAG_CLASS] xs = push_colours [TAG_CLASS] ys" and "length xs < 2 ^ 64" "length ys < 2 ^ 64" and "\<forall>x \<in> set xs \<union> set ys. x < 256 ^ 16"
  shows "xs = ys"
proof -
  have n: "le_bytes 8 (length xs) = le_bytes 8 (length ys)" and c: "concat (map (le_bytes 16) xs) = concat (map (le_bytes 16) ys)"
    using assms(1-3) by (simp_all add: push_colours_eq push_len_def append_eq_append_conv)
  have "length xs < 256 ^ 8" "length ys < 256 ^ 8" using assms(2,3) by simp_all
  then have len: "length xs = length ys" using n by (rule le_bytes_inj)
  have "x = y" if "x \<in> set xs" "y \<in> set ys" "le_bytes 16 x = le_bytes 16 y" for x y
    by (rule le_bytes_inj [OF _ _ that(3)]) (use that assms(4) in blast)+
  then show ?thesis by (rule concat_blocks_inj [OF _ _ len c]) simp_all
qed

section \<open>Refinement\<close>

text \<open>
  No collisions of the hash, as far as the rounds depend on it: among the labels, and in each round among the
  signatures of members and among the classes.
\<close>

definition member_bytes :: "rapid \<Rightarrow> eg_view \<Rightarrow> nat \<Rightarrow> nat \<Rightarrow> nat list" where
  "member_bytes rapid V k i = mbytes TAG_MEMBER (label_hash rapid V i) (enc (ecol rapid V k) V i) (subsumed V i)"

definition class_bytes :: "rapid \<Rightarrow> eg_view \<Rightarrow> nat \<Rightarrow> nat \<Rightarrow> nat list" where
  "class_bytes rapid V k r = push_colours [TAG_CLASS] (sort (map (\<lambda>i. hash_bytes rapid (member_bytes rapid V k i)) (class_nodes V r)))"

definition collision_free :: "rapid \<Rightarrow> eg_view \<Rightarrow> bool" where
  "collision_free rapid V \<longleftrightarrow> inj_on (hash_bytes rapid) (label_bytes ` lab V ` {i. shown V i}) \<and>
    (\<forall>k \<le> card (rep_set V). inj_on (hash_bytes rapid) (member_bytes rapid V k ` {i. shown V i}) \<and> inj_on (hash_bytes rapid) (class_bytes rapid V k ` rep_set V))"

text \<open>The name of an operator tells whether it is unordered.\<close>

definition labels_ok :: "eg_view \<Rightarrow> bool" where
  "labels_ok V \<longleftrightarrow> (\<forall>i j. shown V i \<longrightarrow> shown V j \<longrightarrow> lab V i = lab V j \<longrightarrow> unordered V i = unordered V j)"

lemma ecol_Suc: "ecol rapid V (Suc k) r = hash_bytes rapid (class_bytes rapid V k r)"
  by (simp add: ecol.simps class_hash_def class_bytes_def member_bytes_def esig_def [abs_def])

lemma ecol_bound: "ecol rapid V k r < 256 ^ 16"
  using hash_bound by (cases k) (simp_all only: ecol.simps class_hash_def)

lemma class_nodes_shown: "i \<in> set (class_nodes V r) \<Longrightarrow> shown V i"
  by (simp add: class_nodes_def)

lemma label_bytes_inj: "label_bytes a = label_bytes b \<Longrightarrow> a = b"
  unfolding label_bytes_def by (rule map_injective [OF _ inj_of_char])

text \<open>Equal signatures give equal colours in the next round, whatever the hash.\<close>

lemma next_of_sigs:
  assumes "view_ok V" "counts_ok V" and "class_sigs (ecol rapid V k) V r = class_sigs (ecol rapid V k) V s"
  shows "ecol rapid V (Suc k) r = ecol rapid V (Suc k) s"
proof -
  have "image_mset (esig rapid (ecol rapid V k) V TAG_MEMBER) (mset (class_nodes V r)) = image_mset (esig rapid (ecol rapid V k) V TAG_MEMBER) (mset (class_nodes V s))"
  proof (rule image_mset_kernel)
    show "esig rapid (ecol rapid V k) V TAG_MEMBER x = esig rapid (ecol rapid V k) V TAG_MEMBER y"
      if "x \<in># mset (class_nodes V r)" "y \<in># mset (class_nodes V s)" "asig (ecol rapid V k) V x = asig (ecol rapid V k) V y" for x y
    proof -
      have "x < ev_len V" "y < ev_len V" using that(1,2) class_nodes_less by auto
      moreover have "akids (ecol rapid V k) V x = akids (ecol rapid V k) V y" using that(3) by (simp add: asig_def)
      ultimately have "enc (ecol rapid V k) V x = enc (ecol rapid V k) V y" by (intro enc_akids [OF assms(1,2) _ assms(1,2)])
      then show ?thesis using that(3) by (simp add: esig_def asig_def label_hash_def)
    qed
  qed (use assms(3) in \<open>simp add: class_sigs_def\<close>)
  then show ?thesis unfolding ecol.simps by (intro class_hash_mset) simp
qed

text \<open>And equal colours give equal signatures, where the hash has no collisions.\<close>

lemma sigs_of_next:
  assumes "view_ok V" "counts_ok V" "labels_ok V" "collision_free rapid V" "k \<le> card (rep_set V)" "r \<in> rep_set V" "s \<in> rep_set V"
    and eq: "ecol rapid V (Suc k) r = ecol rapid V (Suc k) s"
  shows "class_sigs (ecol rapid V k) V r = class_sigs (ecol rapid V k) V s"
proof -
  let ?h = "\<lambda>i. hash_bytes rapid (member_bytes rapid V k i)"
  have inj: "inj_on (hash_bytes rapid) (label_bytes ` lab V ` {i. shown V i})" "inj_on (hash_bytes rapid) (member_bytes rapid V k ` {i. shown V i})"
    "inj_on (hash_bytes rapid) (class_bytes rapid V k ` rep_set V)" using assms(4,5) by (auto simp: collision_free_def)
  have cb: "class_bytes rapid V k r = class_bytes rapid V k s" using eq inj(3) assms(6,7) unfolding ecol_Suc by (auto dest: inj_onD)
  have len: "length (class_nodes V x) < 2 ^ 64" for x
    using assms(1) length_filter_le [of "\<lambda>i. shown V i \<and> ev_find V i = x" "[0..<ev_len V]"] by (simp add: class_nodes_def view_ok_def usize_max_def)
  have hb: "\<forall>x \<in> set (sort (map ?h (class_nodes V r))) \<union> set (sort (map ?h (class_nodes V s))). x < 256 ^ 16"
    using hash_bound [of rapid] by (simp only: set_sort set_map) blast
  have "sort (map ?h (class_nodes V r)) = sort (map ?h (class_nodes V s))"
    by (rule cbytes_inject [OF cb [unfolded class_bytes_def] _ _ hb]) (use len in \<open>simp_all only: length_sort length_map\<close>)
  then have m: "image_mset ?h (mset (class_nodes V r)) = image_mset ?h (mset (class_nodes V s))" by (metis mset_map mset_sort)
  show ?thesis unfolding class_sigs_def
  proof (rule image_mset_kernel [OF _ m])
    fix x y assume xy: "x \<in># mset (class_nodes V r)" "y \<in># mset (class_nodes V s)" "?h x = ?h y"
    then have s: "shown V x" "shown V y" using class_nodes_shown by auto
    then have l: "x < ev_len V" "y < ev_len V" by (auto simp: shown_def)
    have small: "fst z < 256 ^ 16 \<and> snd z < 256 ^ 16" if "z \<in> set (enc (ecol rapid V k) V x) \<union> set (enc (ecol rapid V k) V y)" for z
      using that enc_ok(3) [OF assms(1,2) l(1)] enc_ok(3) [OF assms(1,2) l(2)] ecol_bound [of rapid V k] by (metis Un_iff rangeE)
    have "member_bytes rapid V k x = member_bytes rapid V k y" using xy(3) s inj(2) by (auto dest: inj_onD)
    then have e: "label_hash rapid V x = label_hash rapid V y \<and> enc (ecol rapid V k) V x = enc (ecol rapid V k) V y \<and> subsumed V x = subsumed V y"
      unfolding member_bytes_def
      by (rule mbytes_inject [OF _ _ _ enc_ok(2) [OF assms(1,2) l(1)] enc_ok(2) [OF assms(1,2) l(2)] small]) (simp_all only: label_hash_def hash_bound)
    then have "label_bytes (lab V x) = label_bytes (lab V y)" using s unfolding label_hash_def by (intro inj_onD [OF inj(1)]) auto
    then have lab: "lab V x = lab V y" by (rule label_bytes_inj)
    then have "unordered V x = unordered V y" using assms(3) s lab unfolding labels_ok_def by blast
    then have "akids (ecol rapid V k) V x = akids (ecol rapid V k) V y" using enc_inject [OF assms(1,2) l] e by blast
    then show "asig (ecol rapid V k) V x = asig (ecol rapid V k) V y" using e lab by (simp add: asig_def)
  qed
qed

lemma first_of_sigs:
  assumes "view_ok V" "counts_ok V" and "class_sigs q V r = class_sigs q V s"
  shows "ecol rapid V 0 r = ecol rapid V 0 s"
proof -
  let ?h = "\<lambda>i. hash_bytes rapid (sbytes (label_hash rapid V i) (arity V i) (subsumed V i))"
  have ar: "arity V i = (case akids q V i of Inl b \<Rightarrow> size b | Inr ks \<Rightarrow> sum_list (map snd ks))" for i
  proof -
    have "size (bag ks) = sum_list (map snd ks)" for ks :: "(nat \<times> nat) list" by (induction ks) auto
    then show ?thesis by (simp add: arity_def akids_def kid_pairs_def o_def)
  qed
  have "image_mset ?h (mset (class_nodes V r)) = image_mset ?h (mset (class_nodes V s))"
    by (rule image_mset_kernel [where f = "asig q V"]) (use assms(3) ar in \<open>auto simp: class_sigs_def asig_def label_hash_def\<close>)
  then show ?thesis unfolding ecol.simps by (intro class_hash_mset) simp
qed

lemma rounds_refine:
  assumes "view_ok V" "counts_ok V" "labels_ok V" "collision_free rapid V" and "k \<le> card (rep_set V)"
    and rs: "r \<in> rep_set V" "s \<in> rep_set V" "ecol rapid V (Suc k) r = ecol rapid V (Suc k) s"
  shows "ecol rapid V k r = ecol rapid V k s"
  using assms(5-8)
proof (induction k arbitrary: r s)
  case 0
  then show ?case using sigs_of_next [OF assms(1-4)] first_of_sigs [OF assms(1,2)] by blast
next
  case (Suc k)
  have "class_sigs (ecol rapid V (Suc k)) V r = class_sigs (ecol rapid V (Suc k)) V s" using sigs_of_next [OF assms(1-4) Suc.prems] .
  moreover have "ecol rapid V k a = ecol rapid V k b" if "a \<in> rep_set V" "b \<in> rep_set V" "ecol rapid V (Suc k) a = ecol rapid V (Suc k) b" for a b
    using Suc.IH [OF _ that] Suc.prems(1) by simp
  ultimately have "class_sigs (ecol rapid V k) V r = class_sigs (ecol rapid V k) V s" by (rule class_sigs_coarser [OF assms(1,2), of "ecol rapid V (Suc k)", rotated])
  then show ?case by (rule next_of_sigs [OF assms(1,2)])
qed

section \<open>Convergence\<close>

lemma finer_card:
  assumes "finite A" and finer: "\<And>a b. a \<in> A \<Longrightarrow> b \<in> A \<Longrightarrow> g a = g b \<Longrightarrow> f a = f b" and "\<not> same_kernel A f g"
  shows "card (f ` A) < card (g ` A)"
proof -
  obtain h where h: "\<And>a. a \<in> A \<Longrightarrow> f a = h (g a)"
  proof
    fix a assume a: "a \<in> A"
    show "f a = (\<lambda>x. f (SOME b. b \<in> A \<and> g b = x)) (g a)"
      using finer [OF a, of "SOME b. b \<in> A \<and> g b = g a"] someI [of "\<lambda>b. b \<in> A \<and> g b = g a" a] a by auto
  qed
  then have im: "f ` A = h ` g ` A" by (auto simp: image_iff)
  obtain a b where ab: "a \<in> A" "b \<in> A" "f a = f b" "g a \<noteq> g b" using assms(3) finer unfolding same_kernel_def by blast
  then have "\<not> inj_on h (g ` A)" using h unfolding inj_on_def by (metis imageI)
  then have "card (h ` g ` A) \<noteq> card (g ` A)" using assms(1) eq_card_imp_inj_on [of "g ` A" h] by blast
  moreover have "card (h ` g ` A) \<le> card (g ` A)" using assms(1) by (intro card_image_le) simp
  ultimately show ?thesis unfolding im by simp
qed

lemma steps_converge:
  assumes "\<And>k. k < left0 \<Longrightarrow> \<not> P k \<Longrightarrow> m k < (m (Suc k) :: nat)" and "\<And>k. m k \<le> n" and "n < left + m k" and "k + left \<le> left0"
  shows "\<exists>j. k \<le> j \<and> steps P left k = (Suc j, True) \<and> P j \<and> j + m k \<le> n + k"
  using assms(3,4)
proof (induction left arbitrary: k)
  case 0
  then show ?case using assms(2) [of k] by simp
next
  case (Suc left)
  show ?case
  proof (cases "P k")
    case True
    then show ?thesis using assms(2) [of k] by (intro exI [of _ k]) simp
  next
    case False
    then have "m k < m (Suc k)" using assms(1) Suc.prems(2) by simp
    then obtain j where "Suc k \<le> j" "steps P left (Suc k) = (Suc j, True)" "P j" "j + m (Suc k) \<le> n + Suc k" using Suc.IH [of "Suc k"] Suc.prems by auto
    then show ?thesis using False \<open>m k < m (Suc k)\<close> by (intro exI [of _ j]) simp
  qed
qed

lemma rounds_stop:
  assumes "view_ok V" "counts_ok V" "labels_ok V" "collision_free rapid V"
  shows "\<exists>j. rounds_of rapid V = (Suc j, True) \<and> stops rapid V j \<and> j \<le> card (rep_set V) - 1"
proof -
  let ?m = "\<lambda>k. card (ecol rapid V k ` rep_set V)"
  have "\<exists>j. 0 \<le> j \<and> steps (stops rapid V) (Suc (card (rep_set V))) 0 = (Suc j, True) \<and> stops rapid V j \<and> j + ?m 0 \<le> card (rep_set V) + 0"
  proof (rule steps_converge)
    show "?m k < ?m (Suc k)" if "k < Suc (card (rep_set V))" "\<not> stops rapid V k" for k
    proof (rule finer_card)
      show "ecol rapid V k a = ecol rapid V k b" if "a \<in> rep_set V" "b \<in> rep_set V" "ecol rapid V (Suc k) a = ecol rapid V (Suc k) b" for a b
        using rounds_refine [OF assms _ that] \<open>k < Suc (card (rep_set V))\<close> by simp
    qed (use that(2) in simp_all)
  qed (auto intro: card_image_le)
  then obtain j where j: "rounds_of rapid V = (Suc j, True)" "stops rapid V j" "j + ?m 0 \<le> card (rep_set V)" by (auto simp: rounds_of_def)
  have "j \<le> card (rep_set V) - 1"
  proof (cases "rep_set V = {}")
    case False
    then have "0 < ?m 0" by (simp add: card_gt_0_iff)
    then show ?thesis using j(3) by simp
  qed (use j(3) in simp)
  then show ?thesis using j by blast
qed

section \<open>Colours and bisimilarity\<close>

lemma stable_refines:
  assumes "view_ok V" "counts_ok V" "stable V q" and "r \<in> rep_set V" "s \<in> rep_set V" "q r = q s"
  shows "ecol rapid V k r = ecol rapid V k s"
  using assms(4-6)
proof (induction k arbitrary: r s)
  case 0
  then show ?case using first_of_sigs [OF assms(1,2)] assms(3) unfolding stable_def by blast
next
  case (Suc k)
  have "class_sigs q V r = class_sigs q V s" using Suc.prems assms(3) unfolding stable_def by blast
  then have "class_sigs (ecol rapid V k) V r = class_sigs (ecol rapid V k) V s"
    by (rule class_sigs_coarser [OF assms(1,2), of q, rotated]) (rule Suc.IH)
  then show ?case by (rule next_of_sigs [OF assms(1,2)])
qed

lemma final_stable:
  assumes "view_ok V" "counts_ok V" "labels_ok V" "collision_free rapid V"
  shows "stable V (final rapid V)"
proof -
  obtain j where j: "rounds_of rapid V = (Suc j, True)" "stops rapid V j" "j \<le> card (rep_set V) - 1" using rounds_stop [OF assms] by blast
  show ?thesis
    unfolding stable_def j(1) fst_conv
  proof (intro ballI impI)
    fix r s assume rs: "r \<in> rep_set V" "s \<in> rep_set V" "ecol rapid V (Suc j) r = ecol rapid V (Suc j) s"
    have "class_sigs (ecol rapid V j) V r = class_sigs (ecol rapid V j) V s" by (rule sigs_of_next [OF assms _ rs]) (use j(3) in simp)
    then show "class_sigs (ecol rapid V (Suc j)) V r = class_sigs (ecol rapid V (Suc j)) V s"
      by (rule class_sigs_coarser [OF assms(1,2), of "ecol rapid V j", rotated]) (use j(2) in \<open>simp add: same_kernel_def\<close>)
  qed
qed

section \<open>Renaming\<close>

text \<open>The two e-graphs are the same but for identifiers and the order of children of unordered nodes.\<close>

definition same_content :: "(nat \<Rightarrow> nat) \<Rightarrow> eg_view \<Rightarrow> eg_view \<Rightarrow> bool" where
  "same_content f V W \<longleftrightarrow> bij_betw f {..<ev_len V} {..<ev_len W} \<and> (\<forall>i < ev_len V.
     (ev_flags V i AND FLAG_CONGRUENT_DUP = 0) = (ev_flags W (f i) AND FLAG_CONGRUENT_DUP = 0) \<and> subsumed V i = subsumed W (f i) \<and>
     lab V i = lab W (f i) \<and> unordered V i = unordered W (f i) \<and>
     (\<forall>j < ev_len V. ev_find V i = ev_find V j \<longleftrightarrow> ev_find W (f i) = ev_find W (f j)) \<and>
     (let ks = map (\<lambda>k. (ev_find W (f (fst k)), snd k)) (ev_kids V i); ls = map (\<lambda>k. (ev_find W (fst k), snd k)) (ev_kids W (f i)) in
      if unordered V i then mset ks = mset ls else ks = ls))"

lemma same_contentD:
  assumes "same_content f V W" and "i < ev_len V"
  shows "f i < ev_len W" "shown V i = shown W (f i)" "subsumed V i = subsumed W (f i)" "lab V i = lab W (f i)" "unordered V i = unordered W (f i)"
    "\<And>j. j < ev_len V \<Longrightarrow> ev_find V i = ev_find V j \<longleftrightarrow> ev_find W (f i) = ev_find W (f j)"
    "mset (map (\<lambda>k. (ev_find W (f (fst k)), snd k)) (ev_kids V i)) = mset (map (\<lambda>k. (ev_find W (fst k), snd k)) (ev_kids W (f i)))"
    "\<not> unordered V i \<Longrightarrow> map (\<lambda>k. (ev_find W (f (fst k)), snd k)) (ev_kids V i) = map (\<lambda>k. (ev_find W (fst k), snd k)) (ev_kids W (f i))"
proof -
  have fi: "f i < ev_len W" using assms bij_betwE by (fastforce simp: same_content_def)
  then show "f i < ev_len W" .
  show "shown V i = shown W (f i)" using assms fi by (simp add: same_content_def shown_def)
  show "subsumed V i = subsumed W (f i)" "lab V i = lab W (f i)" "unordered V i = unordered W (f i)" using assms by (simp_all add: same_content_def)
  show "ev_find V i = ev_find V j \<longleftrightarrow> ev_find W (f i) = ev_find W (f j)" if "j < ev_len V" for j using assms that by (simp add: same_content_def)
  have k: "let ks = map (\<lambda>k. (ev_find W (f (fst k)), snd k)) (ev_kids V i); ls = map (\<lambda>k. (ev_find W (fst k), snd k)) (ev_kids W (f i)) in
      if unordered V i then mset ks = mset ls else ks = ls" using assms unfolding same_content_def by blast
  show "mset (map (\<lambda>k. (ev_find W (f (fst k)), snd k)) (ev_kids V i)) = mset (map (\<lambda>k. (ev_find W (fst k), snd k)) (ev_kids W (f i)))"
    using k unfolding Let_def by (cases "unordered V i") (simp_all only: if_True if_False)
  show "\<not> unordered V i \<Longrightarrow> map (\<lambda>k. (ev_find W (f (fst k)), snd k)) (ev_kids V i) = map (\<lambda>k. (ev_find W (fst k), snd k)) (ev_kids W (f i))"
    using k unfolding Let_def by (simp only: if_False)
qed

text \<open>The class that corresponds to a class.\<close>

definition partner :: "(nat \<Rightarrow> nat) \<Rightarrow> eg_view \<Rightarrow> nat \<Rightarrow> nat" where
  "partner f W r = ev_find W (f r)"

lemma partner_find:
  assumes "same_content f V W" "view_ok V" "i < ev_len V"
  shows "partner f W (ev_find V i) = ev_find W (f i)"
  using same_contentD(6) [OF assms(1,3), of "ev_find V i"] view_okD(1,2) [OF assms(2,3)] by (simp add: partner_def)

lemma partner_inj:
  assumes "same_content f V W" "view_ok V"
  shows "inj_on (partner f W) (ev_find V ` {..<ev_len V})"
proof (rule inj_onI)
  fix x y assume "x \<in> ev_find V ` {..<ev_len V}" "y \<in> ev_find V ` {..<ev_len V}" and eq: "partner f W x = partner f W y"
  then obtain i j where ij: "i < ev_len V" "x = ev_find V i" "j < ev_len V" "y = ev_find V j" by blast
  then show "x = y" using eq partner_find [OF assms] same_contentD(6) [OF assms(1) ij(1,3)] by simp
qed

lemma partner_rep_set:
  assumes sc: "same_content f V W" and ok: "view_ok V"
  shows "rep_set W = partner f W ` rep_set V" and "i < ev_len V \<Longrightarrow> ev_find W (f i) \<in> rep_set W \<longleftrightarrow> ev_find V i \<in> rep_set V"
proof -
  have "f ` {..<ev_len V} = {..<ev_len W}" using sc by (simp add: same_content_def bij_betw_def)
  then have onto: "\<exists>i < ev_len V. f i = x" if "x < ev_len W" for x using that by (metis imageE lessThan_iff)
  show r: "rep_set W = partner f W ` rep_set V"
  proof
    show "rep_set W \<subseteq> partner f W ` rep_set V"
    proof
      fix y assume "y \<in> rep_set W"
      then obtain x where x: "shown W x" "y = ev_find W x" by (auto simp: rep_set_def)
      then obtain i where i: "i < ev_len V" "f i = x" using onto by (auto simp: shown_def)
      then show "y \<in> partner f W ` rep_set V" using x same_contentD(2) [OF sc i(1)] partner_find [OF sc ok i(1)] unfolding rep_set_def by (metis image_eqI mem_Collect_eq)
    qed
    show "partner f W ` rep_set V \<subseteq> rep_set W"
      using same_contentD(2) [OF sc] partner_find [OF sc ok] by (auto simp: rep_set_def shown_def)
  qed
  assume i: "i < ev_len V"
  have sub: "rep_set V \<subseteq> ev_find V ` {..<ev_len V}" by (auto simp: rep_set_def shown_def)
  show "ev_find W (f i) \<in> rep_set W \<longleftrightarrow> ev_find V i \<in> rep_set V"
    unfolding r partner_find [OF sc ok i, symmetric] using inj_on_image_mem_iff [OF partner_inj [OF sc ok] _ sub] i by blast
qed

lemma class_nodes_partner:
  assumes sc: "same_content f V W" and ok: "view_ok V" and r: "r \<in> rep_set V"
  shows "mset (class_nodes W (partner f W r)) = image_mset f (mset (class_nodes V r))"
proof -
  have inj: "inj_on f {..<ev_len V}" and img: "f ` {..<ev_len V} = {..<ev_len W}" using sc by (auto simp: same_content_def bij_betw_def)
  have set: "set (class_nodes W (partner f W r)) = f ` set (class_nodes V r)"
  proof -
    obtain i0 where i0: "i0 < ev_len V" "ev_find V i0 = r" using r by (auto simp: rep_set_def shown_def)
    have "ev_find W (f i) = partner f W r \<longleftrightarrow> ev_find V i = r" if "i < ev_len V" for i
      using same_contentD(6) [OF sc that i0(1)] i0(2) partner_find [OF sc ok i0(1)] by metis
    then have "f ` set (class_nodes V r) = {x \<in> f ` {..<ev_len V}. shown W x \<and> ev_find W x = partner f W r}"
      using same_contentD(2) [OF sc] by (auto simp: class_nodes_def)
    then show ?thesis unfolding img by (auto simp: class_nodes_def)
  qed
  have d: "distinct (class_nodes W (partner f W r))" "distinct (class_nodes V r)" by (simp_all add: class_nodes_def)
  have "inj_on f (set (class_nodes V r))" by (rule inj_on_subset [OF inj]) (auto simp: class_nodes_def)
  then have "image_mset f (mset (class_nodes V r)) = mset_set (f ` set (class_nodes V r))"
    using d(2) by (metis image_mset_mset_set mset_set_set)
  then show ?thesis using d(1) set by (metis mset_set_set)
qed

lemma mset_map_cong: "mset xs = mset ys \<Longrightarrow> mset (map g xs) = mset (map g ys)"
  by simp

lemma vkids_partner:
  assumes sc: "same_content f V W" and ok: "view_ok V" and i: "i < ev_len V"
  shows "mset (map (\<lambda>k. (partner f W (fst k), snd k)) (vkids V i)) = mset (vkids W (f i))"
    and "\<not> unordered V i \<Longrightarrow> map (\<lambda>k. (partner f W (fst k), snd k)) (vkids V i) = vkids W (f i)"
proof -
  have "\<forall>k \<in> set ks. fst k < ev_len V \<Longrightarrow>
      map (\<lambda>k. (partner f W (fst k), snd k)) (filter (\<lambda>k. fst k \<in> rep_set V) (map (\<lambda>k. (ev_find V (fst k), snd k)) ks)) =
      filter (\<lambda>k. fst k \<in> rep_set W) (map (\<lambda>k. (ev_find W (f (fst k)), snd k)) ks)" for ks :: "(nat \<times> nat) list"
    using partner_find [OF sc ok] partner_rep_set(2) [OF sc ok] by (induction ks) auto
  then have e: "map (\<lambda>k. (partner f W (fst k), snd k)) (vkids V i) = filter (\<lambda>k. fst k \<in> rep_set W) (map (\<lambda>k. (ev_find W (f (fst k)), snd k)) (ev_kids V i))"
    using view_okD(4) [OF ok i] by (simp add: vkids_def)
  show "mset (map (\<lambda>k. (partner f W (fst k), snd k)) (vkids V i)) = mset (vkids W (f i))"
    unfolding e vkids_def [of W] mset_filter same_contentD(7) [OF sc i] ..
  show "\<not> unordered V i \<Longrightarrow> map (\<lambda>k. (partner f W (fst k), snd k)) (vkids V i) = vkids W (f i)"
    unfolding e vkids_def [of W] using same_contentD(8) [OF sc i] by simp
qed

lemma enc_partner:
  assumes sc: "same_content f V W" and okV: "view_ok V" "counts_ok V" and okW: "view_ok W" "counts_ok W" and i: "i < ev_len V"
    and pq: "\<And>r. r \<in> rep_set V \<Longrightarrow> p (partner f W r) = q r"
  shows "enc q V i = enc p W (f i)"
proof -
  let ?m = "\<lambda>ks. map (\<lambda>k. (p (fst k), snd k)) ks"
  have kp: "kid_pairs q V i = ?m (map (\<lambda>k. (partner f W (fst k), snd k)) (vkids V i))"
    using vkids_bounds(2) [OF okV i] pq by (simp add: kid_pairs_def)
  have m: "mset (kid_pairs q V i) = mset (kid_pairs p W (f i))"
    unfolding kp kid_pairs_def [of p] by (rule mset_map_cong [OF vkids_partner(1) [OF sc okV(1) i]])
  have l: "\<not> unordered V i \<Longrightarrow> kid_pairs q V i = kid_pairs p W (f i)"
    unfolding kp kid_pairs_def [of p] using vkids_partner(2) [OF sc okV(1) i] by simp
  have "akids q V i = akids p W (f i)" unfolding akids_def same_contentD(5) [OF sc i, symmetric] using bag_perm [OF m] l by simp
  then show ?thesis by (rule enc_akids [OF okV i okW same_contentD(1) [OF sc i]])
qed

lemma ecol_partner:
  assumes "same_content f V W" and "view_ok V" "counts_ok V" and "view_ok W" "counts_ok W"
  shows "r \<in> rep_set V \<Longrightarrow> ecol rapid W k (partner f W r) = ecol rapid V k r"
proof (induction k arbitrary: r)
  case 0
  let ?h = "\<lambda>V i. hash_bytes rapid (sbytes (label_hash rapid V i) (arity V i) (subsumed V i))"
  have "?h W (f i) = ?h V i" if "i < ev_len V" for i
  proof -
    have "arity V i = sum_list (map snd (map (\<lambda>k. (partner f W (fst k), snd k)) (vkids V i)))" by (simp add: arity_def o_def)
    also have "\<dots> = arity W (f i)" unfolding arity_def sum_mset_sum_list [symmetric] by (rule arg_cong [OF mset_map_cong [OF vkids_partner(1) [OF assms(1,2) that]]])
    finally show ?thesis using same_contentD(3,4) [OF assms(1) that] by (simp add: label_hash_def)
  qed
  then have "image_mset (?h W) (image_mset f (mset (class_nodes V r))) = image_mset (?h V) (mset (class_nodes V r))"
    unfolding image_mset.compositionality by (intro image_mset_cong) (use class_nodes_less in force)
  then show ?case unfolding ecol.simps using class_nodes_partner [OF assms(1,2) 0] by (intro class_hash_mset) simp
next
  case (Suc k)
  let ?h = "\<lambda>V i. esig rapid (ecol rapid V k) V TAG_MEMBER i"
  have "?h W (f i) = ?h V i" if "i < ev_len V" for i
    using enc_partner [OF assms that, of "ecol rapid W k" "ecol rapid V k"] Suc.IH same_contentD(3,4) [OF assms(1) that] by (simp add: esig_def label_hash_def)
  then have "image_mset (?h W) (image_mset f (mset (class_nodes V r))) = image_mset (?h V) (mset (class_nodes V r))"
    unfolding image_mset.compositionality by (intro image_mset_cong) (use class_nodes_less in force)
  then show ?case unfolding ecol.simps using class_nodes_partner [OF assms(1,2) Suc.prems] by (intro class_hash_mset) simp
qed

lemma rounds_partner:
  assumes "same_content f V W" and "view_ok V" "counts_ok V" and "view_ok W" "counts_ok W"
  shows "rounds_of rapid W = rounds_of rapid V"
proof -
  note r = partner_rep_set(1) [OF assms(1,2)]
  have "inj_on (partner f W) (rep_set V)" by (rule inj_on_subset [OF partner_inj [OF assms(1,2)]]) (auto simp: rep_set_def shown_def)
  then have "card (rep_set W) = card (rep_set V)" unfolding r by (rule card_image)
  moreover have "stops rapid W k = stops rapid V k" for k
    unfolding same_kernel_def r using ecol_partner [OF assms] by auto
  ultimately show ?thesis by (simp add: rounds_of_def)
qed

section \<open>Symmetric groups\<close>

lemma bump_counts:
  "sorted_wrt (<) (map fst t) \<Longrightarrow> sorted_wrt (<) (map fst (bump c t)) \<and> fst ` set (bump c t) = insert c (fst ` set t) \<and>
    (\<forall>d. (case map_of (bump c t) d of None \<Rightarrow> 0 | Some n \<Rightarrow> n) = (case map_of t d of None \<Rightarrow> 0 | Some n \<Rightarrow> n) + (if d = c then 1 else 0))"
proof (induction t)
  case (Cons p t)
  obtain e n where p: "p = (e, n)" by (cases p)
  have nin: "map_of t x = None" if "x \<le> e" for x using Cons.prems p that by (auto simp: map_of_eq_None_iff)
  show ?case using Cons p nin by (auto split: option.splits)
qed auto

lemma distinct_counts: "distinct xs \<longleftrightarrow> (\<forall>c. count_list xs c \<le> 1)"
proof (induction xs)
  case (Cons x xs)
  have "(\<forall>c. count_list (x # xs) c \<le> 1) \<longleftrightarrow> count_list xs x = 0 \<and> (\<forall>c. count_list xs c \<le> 1)"
  proof (intro iffI conjI allI)
    fix c assume a: "\<forall>c. count_list (x # xs) c \<le> 1"
    show "count_list xs x = 0" "count_list xs c \<le> 1" using spec [OF a, of x] spec [OF a, of c] by (auto split: if_splits)
  next
    fix c assume "count_list xs x = 0 \<and> (\<forall>c. count_list xs c \<le> 1)"
    then show "count_list (x # xs) c \<le> 1" by (cases "x = c") auto
  qed
  then show ?case using Cons by (simp add: count_list_0_iff)
qed simp

lemma distinct_nth_less: "distinct xs \<longleftrightarrow> (\<forall>a b. a < b \<longrightarrow> b < length xs \<longrightarrow> xs ! a \<noteq> xs ! b)"
proof
  assume r: "\<forall>a b. a < b \<longrightarrow> b < length xs \<longrightarrow> xs ! a \<noteq> xs ! b"
  then show "distinct xs" unfolding distinct_conv_nth by (metis linorder_neqE_nat)
qed (simp add: distinct_conv_nth)

lemma symmetric_groups_zero: "symmetric_groups K = 0 \<longleftrightarrow> distinct (co_class_colour K)"
proof -
  let ?c = "\<lambda>t d. case map_of t d of None \<Rightarrow> 0 | Some n \<Rightarrow> (n :: nat)"
  have "sorted_wrt (<) (map fst t) \<Longrightarrow> sorted_wrt (<) (map fst (fold bump cs t)) \<and> (\<forall>d. ?c (fold bump cs t) d = ?c t d + count_list cs d)" for cs t
  proof (induction cs arbitrary: t)
    case (Cons c cs)
    then show ?case using bump_counts [OF Cons.prems, of c] by (auto simp: add.assoc)
  qed simp
  from this [of "[]" "co_class_colour K"] have s: "sorted_wrt (<) (map fst (fold bump (co_class_colour K) []))"
    "\<And>d. ?c (fold bump (co_class_colour K) []) d = count_list (co_class_colour K) d" by auto
  let ?t = "fold bump (co_class_colour K) []"
  have d: "distinct (map fst ?t)" using s(1) strict_sorted_iff by blast
  have "symmetric_groups K = 0 \<longleftrightarrow> (\<forall>p \<in> set ?t. \<not> 1 < snd p)" by (auto simp: symmetric_groups_def filter_empty_conv)
  also have "\<dots> \<longleftrightarrow> (\<forall>c. count_list (co_class_colour K) c \<le> 1)"
    unfolding s(2) [symmetric]
  proof
    assume a: "\<forall>p \<in> set ?t. \<not> 1 < snd p"
    show "\<forall>c. ?c ?t c \<le> 1" using a by (auto split: option.splits dest!: map_of_SomeD)
  next
    assume a: "\<forall>c. ?c ?t c \<le> 1"
    show "\<forall>p \<in> set ?t. \<not> 1 < snd p"
    proof
      fix p assume "p \<in> set ?t"
      then have "map_of ?t (fst p) = Some (snd p)" using d by (simp add: map_of_is_SomeI)
      then show "\<not> 1 < snd p" using spec [OF a, of "fst p"] by simp
    qed
  qed
  also have "\<dots> \<longleftrightarrow> distinct (co_class_colour K)"
    by (rule distinct_counts [symmetric])
  finally show ?thesis .
qed

section \<open>Results\<close>

lemma distinct_class_nodes: "distinct rs \<Longrightarrow> distinct (concat (map (class_nodes V) rs))"
  by (induction rs) (auto simp: class_nodes_def)

text \<open>
  C29: on every e-graph \<open>canon_colours\<close> returns, within one round more than there are classes, and its answer is well
  formed: the lists are parallel, no class and no member is listed twice, the members are exactly the nodes that are not
  congruent duplicates, each under its representative alone, every member has a colour, and the extractor may read the
  colouring.
\<close>

theorem colouring_well_formed:
  assumes "view_ok V" and "counts_ok V"
  shows "\<exists>K. canon_colours rapid V = Inr K \<and> view_ok (V\<lparr>ev_colours := K\<rparr>) \<and> co_rounds K \<le> Suc (length (co_classes K)) \<and>
    length (co_members K) = length (co_classes K) \<and> length (co_class_colour K) = length (co_classes K) \<and>
    map length (co_node_colour K) = map length (co_members K) \<and>
    distinct (co_classes K) \<and> distinct (concat (co_members K)) \<and>
    (\<forall>i. shown V i \<longleftrightarrow> (\<exists>c < length (co_classes K). i \<in> set (co_members K ! c))) \<and>
    (\<forall>c < length (co_classes K). co_index K (co_classes K ! c) = Some c \<and> (\<forall>i. i \<in> set (co_members K ! c) \<longrightarrow> ev_find V i = co_classes K ! c))"
proof -
  let ?K = "colours_of rapid V"
  have n: "list_all (list_all (\<lambda>c. c < 2 ^ 128)) (co_node_colour ?K)"
  proof -
    have "ncol rapid q V r i < 2 ^ 128" for q r i using hash_bound by (simp add: ncol_def)
    then show ?thesis by (simp add: colours_of_def list_all_iff)
  qed
  then have "view_ok (V\<lparr>ev_colours := ?K\<rparr>)" using assms(1) by (simp add: view_ok_def node_info_def)
  moreover have "co_rounds ?K \<le> Suc (length (co_classes ?K))"
  proof -
    have "fst (steps P left k) \<le> k + left" for P left k
    proof (induction left arbitrary: k)
      case (Suc left)
      then show ?case using Suc.IH [of "Suc k"] by simp
    qed simp
    from this [of _ _ 0] show ?thesis by (simp add: colours_of_def rounds_of_def del: steps.simps)
  qed
  moreover have "shown V i \<longleftrightarrow> (\<exists>c < length (co_classes ?K). i \<in> set (co_members ?K ! c))" for i
  proof
    assume i: "shown V i"
    then have "ev_find V i \<in> rep_set V" by (auto simp: rep_set_def)
    then obtain c where "c < length (reps V)" "reps V ! c = ev_find V i" using class_position_nth by metis
    moreover have "i < ev_len V" using i by (simp add: shown_def)
    ultimately show "\<exists>c < length (co_classes ?K). i \<in> set (co_members ?K ! c)" using i by (auto simp: colours_of_def class_nodes_def)
  qed (auto simp: colours_of_def class_nodes_shown)
  moreover have "co_index ?K (co_classes ?K ! c) = Some c" if "c < length (co_classes ?K)" for c
    using that map_of_zip_nth [of "reps V" "[0..<length (reps V)]" c] by (simp add: colours_of_def position_def)
  moreover have "ev_find V i = co_classes ?K ! c" if "c < length (co_classes ?K)" "i \<in> set (co_members ?K ! c)" for c i
    using that by (simp add: colours_of_def class_nodes_def)
  moreover have "length (co_members ?K) = length (co_classes ?K)" "length (co_class_colour ?K) = length (co_classes ?K)"
    "map length (co_node_colour ?K) = map length (co_members ?K)" by (simp_all add: colours_of_def)
  moreover have "distinct (co_classes ?K)" by (simp add: colours_of_def)
  moreover have "distinct (concat (co_members ?K))" by (simp add: colours_of_def distinct_class_nodes)
  ultimately show ?thesis using canon_colours_ok [OF assms] by (intro exI [of _ ?K]) blast
qed

text \<open>
  C27: where the hash has no collisions, labels determine whether the children are ordered and the counts fit, the
  rounds stop within as many rounds as there are classes, and two classes share a colour exactly when they are bisimilar
  with members counted: when some colouring that is stable for multisets of signatures gives them the same colour.  Such
  classes are bisimilar for sets of signatures too.  \<open>symmetric_groups\<close> is zero exactly when no two classes are bisimilar
  with members counted.
\<close>

theorem colours_are_counting_bisimilarity:
  assumes "view_ok V" and "counts_ok V" and "labels_ok V" and "collision_free rapid V"
  shows "\<exists>K. canon_colours rapid V = Inr K \<and> co_converged K \<and> co_rounds K \<le> max 1 (length (co_classes K)) \<and>
    (\<forall>a b. a < length (co_classes K) \<longrightarrow> b < length (co_classes K) \<longrightarrow>
      (co_class_colour K ! a = co_class_colour K ! b \<longleftrightarrow> counting_bisimilar V (co_classes K ! a) (co_classes K ! b)) \<and>
      (co_class_colour K ! a = co_class_colour K ! b \<longrightarrow> bisimilar V (co_classes K ! a) (co_classes K ! b))) \<and>
    (symmetric_groups K = 0 \<longleftrightarrow> (\<forall>a b. a < b \<longrightarrow> b < length (co_classes K) \<longrightarrow> \<not> counting_bisimilar V (co_classes K ! a) (co_classes K ! b)))"
proof -
  let ?K = "colours_of rapid V"
  obtain j where j: "rounds_of rapid V = (Suc j, True)" "j \<le> card (rep_set V) - 1" using rounds_stop [OF assms] by blast
  have r: "co_converged ?K" "co_rounds ?K \<le> max 1 (length (co_classes ?K))" using j by (auto simp: colours_of_def)
  have iff: "co_class_colour ?K ! a = co_class_colour ?K ! b \<longleftrightarrow> counting_bisimilar V (co_classes ?K ! a) (co_classes ?K ! b)"
    if "a < length (co_classes ?K)" "b < length (co_classes ?K)" for a b
  proof -
    have l: "a < length (reps V)" "b < length (reps V)" using that by (simp_all add: colours_of_def)
    then have m: "reps V ! a \<in> rep_set V" "reps V ! b \<in> rep_set V" using nth_mem by (metis finite_rep_set set_sorted_list_of_set)+
    have "final rapid V (reps V ! a) = final rapid V (reps V ! b) \<longleftrightarrow> counting_bisimilar V (reps V ! a) (reps V ! b)"
      using final_stable [OF assms] stable_refines [OF assms(1,2) _ m] unfolding counting_bisimilar_def by blast
    then show ?thesis using l by (simp add: colours_of_def)
  qed
  have "symmetric_groups ?K = 0 \<longleftrightarrow> (\<forall>a b. a < b \<longrightarrow> b < length (co_classes ?K) \<longrightarrow> \<not> counting_bisimilar V (co_classes ?K ! a) (co_classes ?K ! b))"
  proof -
    have len: "length (co_class_colour ?K) = length (co_classes ?K)" by (simp add: colours_of_def)
    have "distinct (co_class_colour ?K) \<longleftrightarrow> (\<forall>a b. a < b \<longrightarrow> b < length (co_classes ?K) \<longrightarrow> co_class_colour ?K ! a \<noteq> co_class_colour ?K ! b)"
      unfolding len [symmetric] by (rule distinct_nth_less)
    moreover have "co_class_colour ?K ! a \<noteq> co_class_colour ?K ! b \<longleftrightarrow> \<not> counting_bisimilar V (co_classes ?K ! a) (co_classes ?K ! b)"
      if "a < b" "b < length (co_classes ?K)" for a b using iff [OF less_trans [OF that] that(2)] by blast
    ultimately show ?thesis unfolding symmetric_groups_zero by blast
  qed
  then show ?thesis using canon_colours_ok [OF assms(1,2)] r iff counting_bisimilar_bisimilar by (intro exI [of _ ?K]) blast
qed

text \<open>
  C28: colours depend on content only.  If two e-graphs differ in their identifiers and in the order of the children of
  unordered nodes alone, then, whatever the hash, both colourings take the same number of rounds, and corresponding
  classes have the same colour and members of the same colours.
\<close>

theorem colours_depend_on_content:
  assumes "same_content f V W" and "view_ok V" "counts_ok V" and "view_ok W" "counts_ok W"
  shows "\<exists>K L. canon_colours rapid V = Inr K \<and> canon_colours rapid W = Inr L \<and> co_rounds K = co_rounds L \<and> co_converged K = co_converged L \<and>
    (\<forall>i < ev_len V. rel_option (\<lambda>a b. co_class_colour K ! a = co_class_colour L ! b \<and> mset (co_node_colour K ! a) = mset (co_node_colour L ! b))
      (co_index K (ev_find V i)) (co_index L (ev_find W (f i))))"
proof -
  let ?K = "colours_of rapid V" and ?L = "colours_of rapid W"
  have r: "rounds_of rapid W = rounds_of rapid V" by (rule rounds_partner [OF assms])
  have "rel_option (\<lambda>a b. co_class_colour ?K ! a = co_class_colour ?L ! b \<and> mset (co_node_colour ?K ! a) = mset (co_node_colour ?L ! b))
      (co_index ?K (ev_find V i)) (co_index ?L (ev_find W (f i)))" if i: "i < ev_len V" for i
  proof (cases "ev_find V i \<in> rep_set V")
    case False
    then have "position V (ev_find V i) = None" "position W (ev_find W (f i)) = None"
      using partner_rep_set(2) [OF assms(1,2) i] by (simp_all add: class_position_None)
    then show ?thesis by (simp add: colours_of_def)
  next
    case True
    let ?q = "final rapid V" and ?p = "final rapid W"
    have t: "ev_find W (f i) \<in> rep_set W" "partner f W (ev_find V i) = ev_find W (f i)"
      using True partner_rep_set(2) [OF assms(1,2) i] partner_find [OF assms(1,2) i] by auto
    obtain a where a: "position V (ev_find V i) = Some a" "a < length (reps V)" "reps V ! a = ev_find V i" using class_position_nth [OF True] by blast
    obtain b where b: "position W (ev_find W (f i)) = Some b" "b < length (reps W)" "reps W ! b = ev_find W (f i)" using class_position_nth [OF t(1)] by blast
    have c: "?p (partner f W s) = ?q s" if "s \<in> rep_set V" for s using ecol_partner [OF assms that] r by simp
    have "ncol rapid ?p W (ev_find W (f i)) (f x) = ncol rapid ?q V (ev_find V i) x" if "x < ev_len V" for x
      using c [OF True] t(2) enc_partner [OF assms that, of ?p ?q] c same_contentD(3,4) [OF assms(1) that] by (simp add: ncol_def esig_def label_hash_def)
    then have "image_mset (ncol rapid ?p W (ev_find W (f i))) (mset (class_nodes W (ev_find W (f i)))) =
        image_mset (ncol rapid ?q V (ev_find V i)) (mset (class_nodes V (ev_find V i)))"
      unfolding class_nodes_partner [OF assms(1,2) True, unfolded t(2)] image_mset.compositionality
      by (intro image_mset_cong) (use class_nodes_less in force)
    then show ?thesis using a b c [OF True] t(2) by (simp add: colours_of_def)
  qed
  then show ?thesis using canon_colours_ok [OF assms(2,3)] canon_colours_ok [OF assms(4,5)] r
    by (intro exI [of _ ?K] exI [of _ ?L]) (simp add: colours_of_def)
qed

section \<open>The two forms of a count\<close>

text \<open>
  The marker byte does not by itself keep the two forms of a count apart: a small count may begin with it too, and its
  16 bytes may be the beginning of a big one.
\<close>

lemma count_forms_overlap:
  "\<exists>v b s. v < 2 ^ 128 \<and> 2 ^ 128 \<le> b \<and> push_count [] (Small v) @ s = push_count [] (Big b)"
  by (rule exI [of _ 4607], rule exI [of _ "2 ^ 128"], rule exI [of _ "[0, 0, 0, 0, 0, 0, 0, 0, 0, 1]"])
    (simp add: digits_le.simps push_len_def le_bytes_def upt_rec)

section \<open>Two e-graphs\<close>

text \<open>\<open>x\<close> and \<open>(ff x)\<close>, allocated in either order, and a hash that is enough to tell them apart.\<close>

definition two_nodes :: "(nat \<times> nat) list list \<Rightarrow> string option list \<Rightarrow> nat list \<Rightarrow> eg_view" where
  "two_nodes kids lits ops = \<lparr>ev_len = 2, ev_find = (\<lambda>i. i), ev_op = (\<lambda>i. ops ! i), ev_flags = (\<lambda>_. 0), ev_kids = (\<lambda>i. kids ! i), ev_lit = (\<lambda>i. lits ! i),
     ev_ops = [\<lparr>oi_name = ''lit'', oi_kind = OpLit, oi_cost = 1, oi_unextractable = False\<rparr>, \<lparr>oi_name = ''ff'', oi_kind = OpNormal, oi_cost = 1, oi_unextractable = False\<rparr>],
     ev_colours = \<lparr>co_classes = [], co_members = [], co_class_colour = [], co_node_colour = [], co_rounds = 0, co_converged = True, co_index = (\<lambda>_. None)\<rparr>\<rparr>"

definition leaf_first :: eg_view where
  "leaf_first = two_nodes [[], [(0, 1)]] [Some ''x'', None] [0, 1]"

definition leaf_last :: eg_view where
  "leaf_last = two_nodes [[(1, 1)], []] [None, Some ''x''] [1, 0]"

definition tiny_hash :: rapid where
  "tiny_hash seed bytes = (if bytes ! 0 = 2 then of_nat (bytes ! 9) else of_nat (length bytes))"

lemma all_less_2: "(\<forall>i < 2. P i) \<longleftrightarrow> P 0 \<and> P (1 :: nat)"
  by (auto simp: less_Suc_eq numeral_2_eq_2)

lemma two_nodes_ok:
  "view_ok leaf_first" "counts_ok leaf_first" "view_ok leaf_last" "counts_ok leaf_last"
proof -
  have l: "ev_len leaf_first = 2" "ev_len leaf_last = 2" by (simp_all add: leaf_first_def leaf_last_def two_nodes_def)
  show "view_ok leaf_first" "view_ok leaf_last"
    unfolding view_ok_def l by (simp_all only: all_less_2) (simp_all add: leaf_first_def leaf_last_def two_nodes_def usize_max_def)
  show "counts_ok leaf_first" "counts_ok leaf_last"
    unfolding counts_ok_def l by (simp_all only: all_less_2) (simp_all add: leaf_first_def leaf_last_def two_nodes_def mult64_max_def)
qed

lemma leaf_first_nodes:
  "shown leaf_first i \<longleftrightarrow> i = 0 \<or> i = 1" "rep_set leaf_first = {0, 1}" "unordered leaf_first 0 = False" "unordered leaf_first 1 = False"
  "lab leaf_first 0 = ''x''" "lab leaf_first 1 = ''ff''" "subsumed leaf_first i = False"
proof -
  show s: "shown leaf_first i \<longleftrightarrow> i = 0 \<or> i = 1" for i by (auto simp: shown_def leaf_first_def two_nodes_def)
  show "rep_set leaf_first = {0, 1}" unfolding rep_set_def s by (auto simp: leaf_first_def two_nodes_def)
qed (simp_all add: unordered_def lab_def subsumed_def node_info_def leaf_first_def two_nodes_def)

lemma leaf_first_enc: "enc q leaf_first 0 = []" "enc q leaf_first 1 = [(q 0, 1)]"
  by (simp_all add: enc_def kid_pairs_def vkids_def leaf_first_nodes) (simp_all add: leaf_first_def two_nodes_def)

lemma leaf_first_classes: "class_nodes leaf_first 0 = [0]" "class_nodes leaf_first 1 = [1]"
  by (simp_all add: class_nodes_def leaf_first_nodes) (simp_all add: leaf_first_def two_nodes_def upt_rec)

lemmas leaf_first_simps = leaf_first_nodes leaf_first_enc leaf_first_classes leaf_first_nodes [unfolded One_nat_def] leaf_first_enc [unfolded One_nat_def]
  leaf_first_classes [unfolded One_nat_def]

lemma tiny_hash_eq: "bs ! 0 \<noteq> 2 \<Longrightarrow> hash_bytes tiny_hash bs = unat (push_bit 64 (ucast (of_nat (length bs) :: 64 word) :: 128 word) OR ucast (of_nat (length bs) :: 64 word))"
  by (simp add: hash_bytes_def tiny_hash_def)

lemma tiny_members:
  "hash_bytes tiny_hash (member_bytes tiny_hash leaf_first k 0) = 26 * 2 ^ 64 + 26"
  "hash_bytes tiny_hash (member_bytes tiny_hash leaf_first k 1) = 58 * 2 ^ 64 + 58"
  by (simp_all add: tiny_hash_eq member_bytes_def mbytes_def push_counted_eq push_counted_eq [of _ "[]", simplified] push_counted_eq [of _ "[(c, Suc 0)]" for c, simplified] push_len_def leaf_first_simps TAG_MEMBER_def)

lemma tiny_classes:
  "class_bytes tiny_hash leaf_first k 0 ! 9 = 26" "class_bytes tiny_hash leaf_first k 0 ! 0 = 2"
  "class_bytes tiny_hash leaf_first k 1 ! 9 = 58" "class_bytes tiny_hash leaf_first k 1 ! 0 = 2"
  by (simp_all add: class_bytes_def leaf_first_simps tiny_members tiny_members [unfolded One_nat_def] push_colours_eq push_len_def TAG_CLASS_def le_bytes_def upt_rec nth_append)

lemma tiny_collision_free: "collision_free tiny_hash leaf_first"
proof -
  have l: "hash_bytes tiny_hash (label_bytes ''x'') \<noteq> hash_bytes tiny_hash (label_bytes ''ff'')"
    by (simp add: hash_bytes_def tiny_hash_def label_bytes_def)
  have c: "hash_bytes tiny_hash (class_bytes tiny_hash leaf_first k 0) \<noteq> hash_bytes tiny_hash (class_bytes tiny_hash leaf_first k 1)"
    "hash_bytes tiny_hash (class_bytes tiny_hash leaf_first k 1) \<noteq> hash_bytes tiny_hash (class_bytes tiny_hash leaf_first k 0)" for k
    by (simp_all add: hash_bytes_def tiny_hash_def tiny_classes tiny_classes [unfolded One_nat_def])
  have "{i. shown leaf_first i} = {0, 1}" using leaf_first_nodes(1) by auto
  then show ?thesis using l c tiny_members tiny_members [unfolded One_nat_def] by (simp add: collision_free_def leaf_first_simps inj_on_def)
qed

lemma two_nodes_labels: "labels_ok leaf_first"
  by (auto simp: labels_ok_def leaf_first_simps)

lemma two_nodes_same: "same_content (\<lambda>i. 1 - i) leaf_first leaf_last"
proof -
  have l: "ev_len leaf_first = 2" "ev_len leaf_last = 2" by (simp_all add: leaf_first_def leaf_last_def two_nodes_def)
  have "bij_betw (\<lambda>i. 1 - i) {..<2} {..<2 :: nat}" by (rule bij_betw_byWitness [where f' = "\<lambda>i. 1 - i"]) auto
  then show ?thesis unfolding same_content_def l
    by (simp only: all_less_2) (simp add: leaf_first_def leaf_last_def two_nodes_def subsumed_def lab_def unordered_def node_info_def)
qed

theorem colouring_well_formed_witness:
  "\<exists>K. canon_colours (\<lambda>_ _. 0) leaf_first = Inr K \<and> view_ok (leaf_first\<lparr>ev_colours := K\<rparr>) \<and> co_rounds K \<le> Suc (length (co_classes K))"
  using colouring_well_formed [OF two_nodes_ok(1,2), of "\<lambda>_ _. 0"] by blast

theorem colours_are_counting_bisimilarity_witness:
  "\<exists>K. canon_colours tiny_hash leaf_first = Inr K \<and> co_converged K \<and> co_rounds K \<le> max 1 (length (co_classes K))"
  using colours_are_counting_bisimilarity [OF two_nodes_ok(1,2) two_nodes_labels tiny_collision_free] by blast

theorem colours_depend_on_content_witness:
  "\<exists>K L. canon_colours tiny_hash leaf_first = Inr K \<and> canon_colours tiny_hash leaf_last = Inr L \<and> co_rounds K = co_rounds L"
  using colours_depend_on_content [OF two_nodes_same two_nodes_ok, of tiny_hash] by blast

end
