(* ===== verification/Abs_Domain.thy ===== *)
theory Abs_Domain
  imports "HOL-Library.Word"
begin

text \<open>
  The interfaces of \<open>abstract-domains\<close>: \<open>lattice.rs\<close> (the traits \<open>Domain\<close> and \<open>Canonical\<close> and the lift
  \<open>BotOr\<close>), \<open>semantics.rs\<close> (the concrete operators), \<open>transfer.rs\<close> (the transfer traits) and
  \<open>bool4.rs\<close>.  A trait is a record of its methods; its contract is a locale.  Values are immutable
  here, so \<open>dup\<close> is the identity and does not appear.
\<close>

section \<open>Domains\<close>

datatype 'd bot_or = Bot | Val 'd

record ('d, 'c) domain_ops =
  dm_wf :: "'d \<Rightarrow> bool"
  dm_gamma :: "'d \<Rightarrow> 'c \<Rightarrow> bool"
  dm_top :: 'd
  dm_leq :: "'d \<Rightarrow> 'd \<Rightarrow> bool"
  dm_join :: "'d \<Rightarrow> 'd \<Rightarrow> 'd"
  dm_meet :: "'d \<Rightarrow> 'd \<Rightarrow> 'd bot_or"
  dm_widen :: "'d \<Rightarrow> 'd \<Rightarrow> 'd"

subsection \<open>The lift \<open>BotOr\<close>\<close>

fun bot_wf :: "('d, 'c, 'z) domain_ops_scheme \<Rightarrow> 'd bot_or \<Rightarrow> bool" where
  "bot_wf D Bot = True"
| "bot_wf D (Val d) = dm_wf D d"

fun bot_gamma :: "('d, 'c, 'z) domain_ops_scheme \<Rightarrow> 'd bot_or \<Rightarrow> 'c \<Rightarrow> bool" where
  "bot_gamma D Bot c = False"
| "bot_gamma D (Val d) c = dm_gamma D d c"

fun is_bot :: "'d bot_or \<Rightarrow> bool" where
  "is_bot Bot = True"
| "is_bot (Val _) = False"

definition bot_top :: "('d, 'c, 'z) domain_ops_scheme \<Rightarrow> 'd bot_or" where
  "bot_top D = Val (dm_top D)"

fun bot_leq :: "('d, 'c, 'z) domain_ops_scheme \<Rightarrow> 'd bot_or \<Rightarrow> 'd bot_or \<Rightarrow> bool" where
  "bot_leq D Bot _ = True"
| "bot_leq D (Val _) Bot = False"
| "bot_leq D (Val a) (Val b) = dm_leq D a b"

fun bot_join :: "('d, 'c, 'z) domain_ops_scheme \<Rightarrow> 'd bot_or \<Rightarrow> 'd bot_or \<Rightarrow> 'd bot_or" where
  "bot_join D Bot o' = o'"
| "bot_join D s Bot = s"
| "bot_join D (Val a) (Val b) = Val (dm_join D a b)"

fun bot_meet :: "('d, 'c, 'z) domain_ops_scheme \<Rightarrow> 'd bot_or \<Rightarrow> 'd bot_or \<Rightarrow> 'd bot_or" where
  "bot_meet D (Val a) (Val b) = dm_meet D a b"
| "bot_meet D _ _ = Bot"

fun bot_widen :: "('d, 'c, 'z) domain_ops_scheme \<Rightarrow> 'd bot_or \<Rightarrow> 'd bot_or \<Rightarrow> 'd bot_or" where
  "bot_widen D Bot o' = o'"
| "bot_widen D s Bot = s"
| "bot_widen D (Val a) (Val b) = Val (dm_widen D a b)"

lemma is_bot_iff: "is_bot x \<longleftrightarrow> x = Bot"
  by (cases x) auto

lemma bot_gamma_iff: "bot_gamma D x c \<longleftrightarrow> (\<exists>d. x = Val d \<and> dm_gamma D d c)"
  by (cases x) auto

subsection \<open>The contracts of \<open>Domain\<close> and \<open>Canonical\<close>\<close>

locale abs_domain =
  fixes D :: "('d, 'c, 'z) domain_ops_scheme"
  assumes top_wf [simp]: "dm_wf D (dm_top D)"
    and top_gamma [simp]: "dm_gamma D (dm_top D) c"
    and leq_sound: "dm_wf D a \<Longrightarrow> dm_wf D b \<Longrightarrow> dm_leq D a b \<Longrightarrow> dm_gamma D a c \<Longrightarrow> dm_gamma D b c"
    and join_wf: "dm_wf D a \<Longrightarrow> dm_wf D b \<Longrightarrow> dm_wf D (dm_join D a b)"
    and join_sound: "dm_wf D a \<Longrightarrow> dm_wf D b \<Longrightarrow> dm_gamma D a c \<or> dm_gamma D b c \<Longrightarrow> dm_gamma D (dm_join D a b) c"
    and meet_wf: "dm_wf D a \<Longrightarrow> dm_wf D b \<Longrightarrow> bot_wf D (dm_meet D a b)"
    and meet_sound: "dm_wf D a \<Longrightarrow> dm_wf D b \<Longrightarrow> dm_gamma D a c \<Longrightarrow> dm_gamma D b c \<Longrightarrow> bot_gamma D (dm_meet D a b) c"
    and widen_wf: "dm_wf D a \<Longrightarrow> dm_wf D b \<Longrightarrow> dm_wf D (dm_widen D a b)"
    and widen_sound: "dm_wf D a \<Longrightarrow> dm_wf D b \<Longrightarrow> dm_gamma D a c \<or> dm_gamma D b c \<Longrightarrow> dm_gamma D (dm_widen D a b) c"
begin

lemma bot_top_all: "bot_wf D (bot_top D) \<and> bot_gamma D (bot_top D) c"
  by (simp add: bot_top_def)

lemma bot_leq_sound: "bot_wf D x \<Longrightarrow> bot_wf D y \<Longrightarrow> bot_leq D x y \<Longrightarrow> bot_gamma D x c \<Longrightarrow> bot_gamma D y c"
  by (cases x; cases y) (auto intro: leq_sound)

lemma bot_join_sound:
  "bot_wf D x \<Longrightarrow> bot_wf D y \<Longrightarrow> bot_wf D (bot_join D x y) \<and> (bot_gamma D x c \<or> bot_gamma D y c \<longrightarrow> bot_gamma D (bot_join D x y) c)"
  by (cases x; cases y) (auto intro: join_wf join_sound)

lemma bot_meet_sound:
  "bot_wf D x \<Longrightarrow> bot_wf D y \<Longrightarrow> bot_wf D (bot_meet D x y) \<and> (bot_gamma D x c \<and> bot_gamma D y c \<longrightarrow> bot_gamma D (bot_meet D x y) c)"
  by (cases x; cases y) (auto intro: meet_wf meet_sound)

lemma bot_widen_sound:
  "bot_wf D x \<Longrightarrow> bot_wf D y \<Longrightarrow> bot_wf D (bot_widen D x y) \<and> (bot_gamma D x c \<or> bot_gamma D y c \<longrightarrow> bot_gamma D (bot_widen D x y) c)"
  by (cases x; cases y) (auto intro: widen_wf widen_sound)

lemmas bot_sound = bot_leq_sound bot_join_sound bot_meet_sound bot_widen_sound

end

locale canonical_domain = abs_domain D for D :: "('d, 'c, 'z) domain_ops_scheme" +
  assumes nonempty: "dm_wf D a \<Longrightarrow> \<exists>c. dm_gamma D a c"
    and canonical: "dm_wf D a \<Longrightarrow> dm_wf D b \<Longrightarrow> (\<And>c. dm_gamma D a c = dm_gamma D b c) \<Longrightarrow> a = b"
begin

text \<open>Mutual \<open>leq\<close> is equality, so a fixpoint test by \<open>leq\<close> cannot miss stabilisation.\<close>

lemma leq_antisym: "dm_wf D a \<Longrightarrow> dm_wf D b \<Longrightarrow> dm_leq D a b \<Longrightarrow> dm_leq D b a \<Longrightarrow> a = b"
  using leq_sound canonical by blast

lemma bot_canonical:
  assumes "bot_wf D x" "bot_wf D y" "\<And>c. bot_gamma D x c = bot_gamma D y c"
  shows "x = y"
  using assms nonempty canonical by (cases x; cases y) fastforce+

end

text \<open>A record that wraps the values of a canonical domain is a canonical domain.\<close>

definition wraps :: "('e, 'c, 'y) domain_ops_scheme \<Rightarrow> ('d, 'c, 'z) domain_ops_scheme \<Rightarrow> ('e \<Rightarrow> 'd) \<Rightarrow> ('d \<Rightarrow> 'e) \<Rightarrow> bool" where
  "wraps E D f g \<longleftrightarrow> (\<forall>x. f (g x) = x) \<and> (\<forall>y. g (f y) = y) \<and> dm_wf E = (\<lambda>s. dm_wf D (f s)) \<and> dm_gamma E = (\<lambda>s. dm_gamma D (f s)) \<and>
    dm_top E = g (dm_top D) \<and> dm_leq E = (\<lambda>s t. dm_leq D (f s) (f t)) \<and> dm_join E = (\<lambda>s t. g (dm_join D (f s) (f t))) \<and>
    dm_meet E = (\<lambda>s t. map_bot_or g (dm_meet D (f s) (f t))) \<and> dm_widen E = (\<lambda>s t. g (dm_widen D (f s) (f t)))"

lemma wraps_bot:
  assumes "wraps E D f g"
  shows "bot_wf E (map_bot_or g x) = bot_wf D x" "bot_gamma E (map_bot_or g x) c = bot_gamma D x c"
  using assms by (cases x; simp add: wraps_def)+

lemma wraps_canonical:
  assumes "canonical_domain D" and w: "wraps E D f g"
  shows "canonical_domain E"
proof -
  note d = canonical_domain.axioms(1) [OF assms(1)]
  note e = w [unfolded wraps_def]
  show ?thesis
  proof
    fix a b c
    show "dm_wf E (dm_top E)" "dm_gamma E (dm_top E) c" using e abs_domain.top_wf [OF d] abs_domain.top_gamma [OF d] by simp_all
    assume a: "dm_wf E a"
    then show "\<exists>c. dm_gamma E a c" using e canonical_domain.nonempty [OF assms(1)] by simp
    assume b: "dm_wf E b"
    show "dm_wf E (dm_join E a b)" "dm_wf E (dm_widen E a b)"
      using a b e abs_domain.join_wf [OF d] abs_domain.widen_wf [OF d] by simp_all
    show "bot_wf E (dm_meet E a b)" using a b e wraps_bot(1) [OF w] abs_domain.meet_wf [OF d] by simp
    show "dm_gamma E a c \<Longrightarrow> dm_gamma E b c \<Longrightarrow> bot_gamma E (dm_meet E a b) c"
      using a b e wraps_bot(2) [OF w] abs_domain.meet_sound [OF d] by simp
    show "dm_leq E a b \<Longrightarrow> dm_gamma E a c \<Longrightarrow> dm_gamma E b c" using a b e abs_domain.leq_sound [OF d, of "f a" "f b" c] by simp
    show "dm_gamma E a c \<or> dm_gamma E b c \<Longrightarrow> dm_gamma E (dm_join E a b) c"
      using a b e abs_domain.join_sound [OF d, of "f a" "f b" c] by simp
    show "dm_gamma E a c \<or> dm_gamma E b c \<Longrightarrow> dm_gamma E (dm_widen E a b) c"
      using a b e abs_domain.widen_sound [OF d, of "f a" "f b" c] by simp
    show "a = b" if "\<And>c. dm_gamma E a c = dm_gamma E b c"
    proof -
      have "f a = f b" using a b e that by (intro canonical_domain.canonical [OF assms(1)]) simp_all
      then show ?thesis using e by metis
    qed
  qed
qed

text \<open>A sequence whose every change lowers a measure changes at most as often as the measure says.\<close>

lemma changes_bounded:
  fixes X :: "nat \<Rightarrow> 'd" and m :: "'d \<Rightarrow> nat"
  assumes "\<And>i. X (Suc i) \<noteq> X i \<Longrightarrow> m (X (Suc i)) < m (X i)"
  shows "card {i. i < n \<and> X (Suc i) \<noteq> X i} + m (X n) \<le> m (X 0)"
proof (induction n)
  case (Suc n)
  have s: "{i. i < Suc n \<and> X (Suc i) \<noteq> X i} = {i. i < n \<and> X (Suc i) \<noteq> X i} \<union> (if X (Suc n) \<noteq> X n then {n} else {})"
    by (auto simp: less_Suc_eq)
  show ?case using assms [of n] Suc by (cases "X (Suc n) = X n") (auto simp: s)
qed simp

section \<open>Concrete semantics\<close>

record 'v semantics =
  s_zero :: 'v
  s_is_zero :: "'v \<Rightarrow> bool"
  s_add :: "'v \<Rightarrow> 'v \<Rightarrow> 'v"
  s_sub :: "'v \<Rightarrow> 'v \<Rightarrow> 'v"
  s_neg :: "'v \<Rightarrow> 'v"
  s_mul :: "'v \<Rightarrow> 'v \<Rightarrow> 'v"
  s_div :: "'v \<Rightarrow> 'v \<Rightarrow> 'v"
  s_rem :: "'v \<Rightarrow> 'v \<Rightarrow> 'v"
  s_lt :: "'v \<Rightarrow> 'v \<Rightarrow> bool"
  s_le :: "'v \<Rightarrow> 'v \<Rightarrow> bool"

definition iabs :: "int \<Rightarrow> int" where
  "iabs a = (if a < 0 then - a else a)"

definition tdiv :: "int \<Rightarrow> int \<Rightarrow> int" where
  "tdiv a b = (let q = iabs a div iabs b in if (a < 0) \<noteq> (b < 0) then - q else q)"

definition trem :: "int \<Rightarrow> int \<Rightarrow> int" where
  "trem a b = a - b * tdiv a b"

text \<open>Verus divides integers the Euclidean way: the remainder is in \<open>[0, |b|)\<close>.\<close>

definition ediv :: "int \<Rightarrow> int \<Rightarrow> int" where
  "ediv a b = (if b < 0 then - (a div - b) else a div b)"

definition erem :: "int \<Rightarrow> int \<Rightarrow> int" where
  "erem a b = a mod iabs b"

text \<open>\<open>W::from_int\<close>, \<open>view\<close> and \<open>signed_view\<close> are \<open>word_of_int\<close>, \<open>uint\<close> and \<open>sint\<close>.\<close>

definition unsigned_sem :: "'w::len word semantics" where
  "unsigned_sem = \<lparr>s_zero = word_of_int 0, s_is_zero = (\<lambda>v. uint v = 0),
     s_add = (\<lambda>a b. word_of_int (uint a + uint b)), s_sub = (\<lambda>a b. word_of_int (uint a - uint b)),
     s_neg = (\<lambda>a. word_of_int (- uint a)), s_mul = (\<lambda>a b. word_of_int (uint a * uint b)),
     s_div = (\<lambda>a b. word_of_int (uint a div uint b)), s_rem = (\<lambda>a b. word_of_int (uint a mod uint b)),
     s_lt = (\<lambda>a b. uint a < uint b), s_le = (\<lambda>a b. uint a \<le> uint b)\<rparr>"

definition signed_sem :: "'w::len word semantics" where
  "signed_sem = \<lparr>s_zero = word_of_int 0, s_is_zero = (\<lambda>v. uint v = 0),
     s_add = (\<lambda>a b. word_of_int (sint a + sint b)), s_sub = (\<lambda>a b. word_of_int (sint a - sint b)),
     s_neg = (\<lambda>a. word_of_int (- sint a)), s_mul = (\<lambda>a b. word_of_int (sint a * sint b)),
     s_div = (\<lambda>a b. word_of_int (tdiv (sint a) (sint b))), s_rem = (\<lambda>a b. word_of_int (trem (sint a) (sint b))),
     s_lt = (\<lambda>a b. sint a < sint b), s_le = (\<lambda>a b. sint a \<le> sint b)\<rparr>"

definition euclid_sem :: "int semantics" where
  "euclid_sem = \<lparr>s_zero = 0, s_is_zero = (\<lambda>v. v = 0), s_add = (\<lambda>a b. a + b), s_sub = (\<lambda>a b. a - b),
     s_neg = (\<lambda>a. - a), s_mul = (\<lambda>a b. a * b), s_div = ediv, s_rem = erem, s_lt = (\<lambda>a b. a < b), s_le = (\<lambda>a b. a \<le> b)\<rparr>"

definition trunc_sem :: "int semantics" where
  "trunc_sem = \<lparr>s_zero = 0, s_is_zero = (\<lambda>v. v = 0), s_add = (\<lambda>a b. a + b), s_sub = (\<lambda>a b. a - b),
     s_neg = (\<lambda>a. - a), s_mul = (\<lambda>a b. a * b), s_div = tdiv, s_rem = trem, s_lt = (\<lambda>a b. a < b), s_le = (\<lambda>a b. a \<le> b)\<rparr>"

text \<open>The two integer divisions agree with their defining laws.\<close>

lemma ediv_erem: "b \<noteq> 0 \<Longrightarrow> a = b * ediv a b + erem a b \<and> 0 \<le> erem a b \<and> erem a b < iabs b"
proof (cases "b < 0")
  case True
  have "- b * (a div - b) + a mod - b = a" by (rule mult_div_mod_eq)
  then show ?thesis using True by (simp add: ediv_def erem_def iabs_def del: mod_minus_right div_minus_right)
qed (auto simp: ediv_def erem_def iabs_def)

lemma trem_eq: "trem a b = (if a < 0 then - (iabs a mod iabs b) else iabs a mod iabs b)"
proof -
  define q r where "q = iabs a div iabs b" and "r = iabs a mod iabs b"
  then have "iabs b * q + r = iabs a" by simp
  then have "a - b * (if (a < 0) \<noteq> (b < 0) then - q else q) = (if a < 0 then - r else r)"
    by (cases "a < 0"; cases "b < 0") (simp_all add: iabs_def)
  then show ?thesis unfolding trem_def tdiv_def Let_def q_def r_def .
qed

section \<open>\<open>Bool4\<close>\<close>

datatype bool4 = B4False | B4True | B4Top

fun bool4_gamma :: "bool4 \<Rightarrow> bool \<Rightarrow> bool" where
  "bool4_gamma B4False c = (\<not> c)"
| "bool4_gamma B4True c = c"
| "bool4_gamma B4Top c = True"

definition bool4_constant :: "bool \<Rightarrow> bool4" where
  "bool4_constant b = (if b then B4True else B4False)"

definition bool4_is_true :: "bool4 \<Rightarrow> bool" where
  "bool4_is_true s = (case s of B4True \<Rightarrow> True | _ \<Rightarrow> False)"

definition bool4_is_false :: "bool4 \<Rightarrow> bool" where
  "bool4_is_false s = (case s of B4False \<Rightarrow> True | _ \<Rightarrow> False)"

fun bool4_same :: "bool4 \<Rightarrow> bool4 \<Rightarrow> bool" where
  "bool4_same B4False B4False = True"
| "bool4_same B4True B4True = True"
| "bool4_same B4Top B4Top = True"
| "bool4_same _ _ = False"

fun bool4_not :: "bool4 \<Rightarrow> bool4" where
  "bool4_not B4False = B4True"
| "bool4_not B4True = B4False"
| "bool4_not B4Top = B4Top"

fun bool4_and :: "bool4 \<Rightarrow> bool4 \<Rightarrow> bool4" where
  "bool4_and B4False _ = B4False"
| "bool4_and _ B4False = B4False"
| "bool4_and B4True B4True = B4True"
| "bool4_and _ _ = B4Top"

fun bool4_or :: "bool4 \<Rightarrow> bool4 \<Rightarrow> bool4" where
  "bool4_or B4True _ = B4True"
| "bool4_or _ B4True = B4True"
| "bool4_or B4False B4False = B4False"
| "bool4_or _ _ = B4Top"

fun bool4_eq :: "bool4 \<Rightarrow> bool4 \<Rightarrow> bool4" where
  "bool4_eq B4Top _ = B4Top"
| "bool4_eq _ B4Top = B4Top"
| "bool4_eq a b = bool4_constant (bool4_same a b)"

definition bool4_leq :: "bool4 \<Rightarrow> bool4 \<Rightarrow> bool" where
  "bool4_leq s o' = (o' = B4Top \<or> bool4_same s o')"

definition bool4_join :: "bool4 \<Rightarrow> bool4 \<Rightarrow> bool4" where
  "bool4_join s o' = (if bool4_same s o' then s else B4Top)"

fun bool4_meet :: "bool4 \<Rightarrow> bool4 \<Rightarrow> bool4 bot_or" where
  "bool4_meet B4Top o' = Val o'"
| "bool4_meet s B4Top = Val s"
| "bool4_meet s o' = (if bool4_same s o' then Val s else Bot)"

definition bool4_widen :: "bool4 \<Rightarrow> bool4 \<Rightarrow> bool4" where
  "bool4_widen s o' = (if bool4_same s o' then s else B4Top)"

definition bool4_dom :: "(bool4, bool) domain_ops" where
  "bool4_dom = \<lparr>dm_wf = (\<lambda>_. True), dm_gamma = bool4_gamma, dm_top = B4Top, dm_leq = bool4_leq,
     dm_join = bool4_join, dm_meet = bool4_meet, dm_widen = bool4_widen\<rparr>"

lemma bool4_same_iff [simp]: "bool4_same a b \<longleftrightarrow> a = b"
  by (cases a; cases b) auto

interpretation b4: canonical_domain bool4_dom
proof
  fix a b c
  show "bot_wf bool4_dom (dm_meet bool4_dom a b)" by (cases "bool4_meet a b") (auto simp: bool4_dom_def)
  show "\<exists>c. dm_gamma bool4_dom a c" by (cases a) (auto simp: bool4_dom_def)
  show "bot_gamma bool4_dom (dm_meet bool4_dom a b) c" if "dm_gamma bool4_dom a c" "dm_gamma bool4_dom b c"
    using that by (cases a; cases b) (auto simp: bool4_dom_def)
  show "a = b" if "\<And>c. dm_gamma bool4_dom a c = dm_gamma bool4_dom b c"
    using that [of True] that [of False] by (cases a; cases b) (auto simp: bool4_dom_def)
qed (auto simp: bool4_dom_def bool4_leq_def bool4_join_def bool4_widen_def)

section \<open>Transfer functions\<close>

datatype div_zero = DzNever | DzMaybe | DzAlways

record 'd arith_ops =
  ar_add :: "'d \<Rightarrow> 'd \<Rightarrow> 'd"
  ar_sub :: "'d \<Rightarrow> 'd \<Rightarrow> 'd"
  ar_neg :: "'d \<Rightarrow> 'd"

record 'd divrem_ops =
  dr_contains_zero :: "'d \<Rightarrow> bool"
  dr_div :: "'d \<Rightarrow> 'd \<Rightarrow> 'd bot_or \<times> div_zero"
  dr_rem :: "'d \<Rightarrow> 'd \<Rightarrow> 'd bot_or \<times> div_zero"

record 'd compare_ops =
  cm_lt :: "'d \<Rightarrow> 'd \<Rightarrow> bool4"
  cm_le :: "'d \<Rightarrow> 'd \<Rightarrow> bool4"
  cm_eq :: "'d \<Rightarrow> 'd \<Rightarrow> bool4"
  cm_assume_lt :: "'d \<Rightarrow> 'd \<Rightarrow> bool \<Rightarrow> 'd bot_or \<times> 'd bot_or"
  cm_assume_le :: "'d \<Rightarrow> 'd \<Rightarrow> bool \<Rightarrow> 'd bot_or \<times> 'd bot_or"
  cm_assume_eq :: "'d \<Rightarrow> 'd \<Rightarrow> bool \<Rightarrow> 'd bot_or \<times> 'd bot_or"

text \<open>Soundness of an abstract operation against the concrete one.\<close>

definition sound1 :: "('d, 'c, 'z) domain_ops_scheme \<Rightarrow> ('d \<Rightarrow> 'd) \<Rightarrow> ('c \<Rightarrow> 'c) \<Rightarrow> bool" where
  "sound1 D f g \<longleftrightarrow> (\<forall>a. dm_wf D a \<longrightarrow> dm_wf D (f a) \<and> (\<forall>x. dm_gamma D a x \<longrightarrow> dm_gamma D (f a) (g x)))"

definition sound2 :: "('d, 'c, 'z) domain_ops_scheme \<Rightarrow> ('d \<Rightarrow> 'd \<Rightarrow> 'd) \<Rightarrow> ('c \<Rightarrow> 'c \<Rightarrow> 'c) \<Rightarrow> bool" where
  "sound2 D f g \<longleftrightarrow> (\<forall>a b. dm_wf D a \<longrightarrow> dm_wf D b \<longrightarrow> dm_wf D (f a b) \<and>
    (\<forall>x y. dm_gamma D a x \<longrightarrow> dm_gamma D b y \<longrightarrow> dm_gamma D (f a b) (g x y)))"

text \<open>What a quotient or remainder \<open>r\<close> of \<open>a\<close> by \<open>d\<close> promises.\<close>

definition div_ok :: "('d, 'c, 'z) domain_ops_scheme \<Rightarrow> 'c semantics \<Rightarrow> ('c \<Rightarrow> 'c \<Rightarrow> 'c) \<Rightarrow> 'd \<Rightarrow> 'd \<Rightarrow> 'd bot_or \<times> div_zero \<Rightarrow> bool" where
  "div_ok D S g a d r \<longleftrightarrow> bot_wf D (fst r) \<and>
    (\<forall>x y. dm_gamma D a x \<longrightarrow> dm_gamma D d y \<longrightarrow> \<not> s_is_zero S y \<longrightarrow> bot_gamma D (fst r) (g x y)) \<and>
    (snd r = DzNever \<longrightarrow> \<not> dm_gamma D d (s_zero S)) \<and>
    (snd r = DzAlways \<longrightarrow> (\<forall>y. dm_gamma D d y \<longrightarrow> s_is_zero S y)) \<and>
    (fst r = Bot \<longleftrightarrow> snd r = DzAlways)"

definition sound_div :: "('d, 'c, 'z) domain_ops_scheme \<Rightarrow> 'c semantics \<Rightarrow> ('d \<Rightarrow> 'd \<Rightarrow> 'd bot_or \<times> div_zero) \<Rightarrow> ('c \<Rightarrow> 'c \<Rightarrow> 'c) \<Rightarrow> bool" where
  "sound_div D S f g \<longleftrightarrow> (\<forall>a d. dm_wf D a \<longrightarrow> dm_wf D d \<longrightarrow> div_ok D S g a d (f a d))"

definition sound_cmp :: "('d, 'c, 'z) domain_ops_scheme \<Rightarrow> ('d \<Rightarrow> 'd \<Rightarrow> bool4) \<Rightarrow> ('c \<Rightarrow> 'c \<Rightarrow> bool) \<Rightarrow> bool" where
  "sound_cmp D f g \<longleftrightarrow> (\<forall>a b. dm_wf D a \<longrightarrow> dm_wf D b \<longrightarrow>
    (\<forall>x y. dm_gamma D a x \<longrightarrow> dm_gamma D b y \<longrightarrow> bool4_gamma (f a b) (g x y)))"

text \<open>What refining \<open>a\<close> and \<open>b\<close> by \<open>g x y = t\<close> to the pair \<open>r\<close> promises.\<close>

definition assume_ok :: "('d, 'c, 'z) domain_ops_scheme \<Rightarrow> ('c \<Rightarrow> 'c \<Rightarrow> bool) \<Rightarrow> 'd \<Rightarrow> 'd \<Rightarrow> bool \<Rightarrow> 'd bot_or \<times> 'd bot_or \<Rightarrow> bool" where
  "assume_ok D g a b t r \<longleftrightarrow> bot_wf D (fst r) \<and> bot_wf D (snd r) \<and>
    (\<forall>x y. dm_gamma D a x \<longrightarrow> dm_gamma D b y \<longrightarrow> g x y = t \<longrightarrow> bot_gamma D (fst r) x \<and> bot_gamma D (snd r) y) \<and>
    (\<forall>x. bot_gamma D (fst r) x \<longrightarrow> dm_gamma D a x) \<and> (\<forall>y. bot_gamma D (snd r) y \<longrightarrow> dm_gamma D b y)"

definition sound_assume :: "('d, 'c, 'z) domain_ops_scheme \<Rightarrow> ('d \<Rightarrow> 'd \<Rightarrow> bool \<Rightarrow> 'd bot_or \<times> 'd bot_or) \<Rightarrow> ('c \<Rightarrow> 'c \<Rightarrow> bool) \<Rightarrow> bool" where
  "sound_assume D f g \<longleftrightarrow> (\<forall>a b t. dm_wf D a \<longrightarrow> dm_wf D b \<longrightarrow> assume_ok D g a b t (f a b t))"

lemmas sound_defs = sound1_def sound2_def sound_div_def div_ok_def sound_cmp_def sound_assume_def assume_ok_def

locale arith_transfer = abs_domain D for D :: "('d, 'c, 'z) domain_ops_scheme" +
  fixes S :: "'c semantics" and A :: "'d arith_ops"
  assumes add: "sound2 D (ar_add A) (s_add S)"
    and sub: "sound2 D (ar_sub A) (s_sub S)"
    and neg: "sound1 D (ar_neg A) (s_neg S)"

locale mul_transfer = abs_domain D for D :: "('d, 'c, 'z) domain_ops_scheme" +
  fixes S :: "'c semantics" and mul :: "'d \<Rightarrow> 'd \<Rightarrow> 'd"
  assumes mul: "sound2 D mul (s_mul S)"

locale divrem_transfer = abs_domain D for D :: "('d, 'c, 'z) domain_ops_scheme" +
  fixes S :: "'c semantics" and A :: "'d divrem_ops"
  assumes contains_zero: "dm_wf D a \<Longrightarrow> dr_contains_zero A a = dm_gamma D a (s_zero S)"
    and div: "sound_div D S (dr_div A) (s_div S)"
    and rem: "sound_div D S (dr_rem A) (s_rem S)"

locale compare_transfer = abs_domain D for D :: "('d, 'c, 'z) domain_ops_scheme" +
  fixes S :: "'c semantics" and A :: "'d compare_ops"
  assumes lt: "sound_cmp D (cm_lt A) (s_lt S)"
    and le: "sound_cmp D (cm_le A) (s_le S)"
    and eq: "sound_cmp D (cm_eq A) (=)"
    and assume_lt: "sound_assume D (cm_assume_lt A) (s_lt S)"
    and assume_le: "sound_assume D (cm_assume_le A) (s_le S)"
    and assume_eq: "sound_assume D (cm_assume_eq A) (=)"

text \<open>
  The connectives of \<open>Bool4\<close> are exact: the result denotes precisely the truth values that the
  operands' truth values produce.
\<close>

lemma bool4_connectives_exact:
  "bool4_gamma (bool4_not a) z = (\<exists>x. bool4_gamma a x \<and> z = (\<not> x)) \<and>
   bool4_gamma (bool4_and a b) z = (\<exists>x y. bool4_gamma a x \<and> bool4_gamma b y \<and> z = (x \<and> y)) \<and>
   bool4_gamma (bool4_or a b) z = (\<exists>x y. bool4_gamma a x \<and> bool4_gamma b y \<and> z = (x \<or> y)) \<and>
   bool4_gamma (bool4_eq a b) z = (\<exists>x y. bool4_gamma a x \<and> bool4_gamma b y \<and> z = (x = y))"
  by (cases a; cases b; cases z) (simp_all add: ex_bool_eq bool4_constant_def)

end
