(* ===== verification/Abs_Reduce.thy ===== *)
theory Abs_Reduce
  imports Abs_Domain
begin

text \<open>
  Reduction through a channel of facts: \<open>abstract-domains/src/reduce.rs\<close>.  \<open>Channel\<close> and \<open>Refine\<close> are
  records extending \<open>Domain\<close>'s, with their contracts as locales; \<open>Product\<close> is a combinator on such
  records, so products nest.
\<close>

section \<open>Channels and refinement\<close>

record ('d, 'c) channel_ops = "('d, 'c) domain_ops" +
  ch_pre_wf :: "'d \<Rightarrow> bool"
  ch_meet_exact :: "'d \<Rightarrow> 'd \<Rightarrow> 'd bot_or"
  ch_normalize :: "'d \<Rightarrow> 'd bot_or"

record ('d, 'c, 'f) refine_ops = "('d, 'c) domain_ops" +
  rf_to_channel :: "'d \<Rightarrow> 'f bot_or"
  rf_refine :: "'d \<Rightarrow> 'f \<Rightarrow> 'd bot_or"

definition meet_normalize :: "('f, 'c) channel_ops \<Rightarrow> 'f \<Rightarrow> 'f \<Rightarrow> 'f bot_or" where
  "meet_normalize F f g = (case ch_meet_exact F f g of Bot \<Rightarrow> Bot | Val m \<Rightarrow> ch_normalize F m)"

fun meet_channels :: "('f, 'c) channel_ops \<Rightarrow> 'f bot_or \<Rightarrow> 'f bot_or \<Rightarrow> 'f bot_or" where
  "meet_channels F (Val f) (Val g) = meet_normalize F f g"
| "meet_channels F _ _ = Bot"

locale channel = canonical_domain F for F :: "('f, 'c) channel_ops" +
  assumes wf_pre: "dm_wf F f \<Longrightarrow> ch_pre_wf F f"
    and meet_exact_pre: "dm_wf F f \<Longrightarrow> dm_wf F g \<Longrightarrow> ch_meet_exact F f g = Val m \<Longrightarrow> ch_pre_wf F m"
    and meet_exact_gamma: "dm_wf F f \<Longrightarrow> dm_wf F g \<Longrightarrow> bot_gamma F (ch_meet_exact F f g) c = (dm_gamma F f c \<and> dm_gamma F g c)"
    and normalize_wf: "ch_pre_wf F f \<Longrightarrow> bot_wf F (ch_normalize F f)"
    and normalize_gamma: "ch_pre_wf F f \<Longrightarrow> bot_gamma F (ch_normalize F f) c = dm_gamma F f c"
begin

lemma meet_normalize_exact:
  assumes "dm_wf F f" "dm_wf F g"
  shows "bot_wf F (meet_normalize F f g) \<and> bot_gamma F (meet_normalize F f g) c = (dm_gamma F f c \<and> dm_gamma F g c)"
  using meet_exact_gamma [OF assms, of c] meet_exact_pre [OF assms] normalize_wf normalize_gamma
  by (cases "ch_meet_exact F f g") (auto simp: meet_normalize_def)

lemma meet_channels_exact:
  assumes "bot_wf F x" "bot_wf F y"
  shows "bot_wf F (meet_channels F x y) \<and> bot_gamma F (meet_channels F x y) c = (bot_gamma F x c \<and> bot_gamma F y c)"
  using assms meet_normalize_exact by (cases x; cases y) auto

end

locale refiner = abs_domain D + ch: channel F
  for D :: "('d, 'c, 'f) refine_ops" and F :: "('f, 'c) channel_ops" +
  assumes to_channel_wf: "dm_wf D a \<Longrightarrow> bot_wf F (rf_to_channel D a)"
    and to_channel_sound: "dm_wf D a \<Longrightarrow> dm_gamma D a x \<Longrightarrow> bot_gamma F (rf_to_channel D a) x"
    and refine_wf: "dm_wf D a \<Longrightarrow> dm_wf F f \<Longrightarrow> bot_wf D (rf_refine D a f)"
    and refine_keeps: "dm_wf D a \<Longrightarrow> dm_wf F f \<Longrightarrow> dm_gamma D a x \<Longrightarrow> dm_gamma F f x \<Longrightarrow> bot_gamma D (rf_refine D a f) x"
    and refine_shrinks: "dm_wf D a \<Longrightarrow> dm_wf F f \<Longrightarrow> bot_gamma D (rf_refine D a f) x \<Longrightarrow> dm_gamma D a x"

text \<open>\<open>Bool4\<close> is a channel, and its own refinement.\<close>

definition bool4_normalize :: "bool4 \<Rightarrow> bool4 bot_or" where
  "bool4_normalize s = Val s"

definition bool4_chan :: "(bool4, bool) channel_ops" where
  "bool4_chan = domain_ops.extend bool4_dom \<lparr>ch_pre_wf = (\<lambda>_. True), ch_meet_exact = bool4_meet, ch_normalize = bool4_normalize\<rparr>"

definition bool4_refine :: "bool4 \<Rightarrow> bool4 \<Rightarrow> bool4 bot_or" where
  "bool4_refine s f = meet_normalize bool4_chan s f"

definition bool4_refiner :: "(bool4, bool, bool4) refine_ops" where
  "bool4_refiner = domain_ops.extend bool4_dom \<lparr>rf_to_channel = Val, rf_refine = bool4_refine\<rparr>"

section \<open>\<open>Product\<close>\<close>

record ('a, 'b) product =
  pr_a :: 'a
  pr_b :: 'b

definition REDUCE_FUEL :: nat where
  "REDUCE_FUEL = 3"

definition prod_wf :: "('a, 'c, 'f) refine_ops \<Rightarrow> ('b, 'c, 'f) refine_ops \<Rightarrow> ('a, 'b) product \<Rightarrow> bool" where
  "prod_wf A B p = (dm_wf A (pr_a p) \<and> dm_wf B (pr_b p))"

definition prod_gamma :: "('a, 'c, 'f) refine_ops \<Rightarrow> ('b, 'c, 'f) refine_ops \<Rightarrow> ('a, 'b) product \<Rightarrow> 'c \<Rightarrow> bool" where
  "prod_gamma A B p c = (dm_gamma A (pr_a p) c \<and> dm_gamma B (pr_b p) c)"

definition prod_top :: "('a, 'c, 'f) refine_ops \<Rightarrow> ('b, 'c, 'f) refine_ops \<Rightarrow> ('a, 'b) product" where
  "prod_top A B = \<lparr>pr_a = dm_top A, pr_b = dm_top B\<rparr>"

definition prod_leq :: "('a, 'c, 'f) refine_ops \<Rightarrow> ('b, 'c, 'f) refine_ops \<Rightarrow> ('a, 'b) product \<Rightarrow> ('a, 'b) product \<Rightarrow> bool" where
  "prod_leq A B p q = (dm_leq A (pr_a p) (pr_a q) \<and> dm_leq B (pr_b p) (pr_b q))"

definition prod_join :: "('a, 'c, 'f) refine_ops \<Rightarrow> ('b, 'c, 'f) refine_ops \<Rightarrow> ('a, 'b) product \<Rightarrow> ('a, 'b) product \<Rightarrow> ('a, 'b) product" where
  "prod_join A B p q = \<lparr>pr_a = dm_join A (pr_a p) (pr_a q), pr_b = dm_join B (pr_b p) (pr_b q)\<rparr>"

text \<open>Pairs two results; \<open>Bot\<close> when either is.  \<open>meet\<close>, \<open>refine\<close> and \<open>pair_reduce\<close> share this match.\<close>

fun pair_reduce :: "'a bot_or \<Rightarrow> 'b bot_or \<Rightarrow> ('a, 'b) product bot_or" where
  "pair_reduce (Val a) (Val b) = Val \<lparr>pr_a = a, pr_b = b\<rparr>"
| "pair_reduce _ _ = Bot"

definition prod_meet :: "('a, 'c, 'f) refine_ops \<Rightarrow> ('b, 'c, 'f) refine_ops \<Rightarrow> ('a, 'b) product \<Rightarrow> ('a, 'b) product \<Rightarrow> ('a, 'b) product bot_or" where
  "prod_meet A B p q = (case (dm_meet A (pr_a p) (pr_a q), dm_meet B (pr_b p) (pr_b q)) of
      (Val a, Val b) \<Rightarrow> Val \<lparr>pr_a = a, pr_b = b\<rparr>
    | _ \<Rightarrow> Bot)"

definition prod_widen :: "('a, 'c, 'f) refine_ops \<Rightarrow> ('b, 'c, 'f) refine_ops \<Rightarrow> ('a, 'b) product \<Rightarrow> ('a, 'b) product \<Rightarrow> ('a, 'b) product" where
  "prod_widen A B p q = \<lparr>pr_a = dm_widen A (pr_a p) (pr_a q), pr_b = dm_widen B (pr_b p) (pr_b q)\<rparr>"

definition prod_to_channel :: "('f, 'c) channel_ops \<Rightarrow> ('a, 'c, 'f) refine_ops \<Rightarrow> ('b, 'c, 'f) refine_ops \<Rightarrow> ('a, 'b) product \<Rightarrow> 'f bot_or" where
  "prod_to_channel F A B p = meet_channels F (rf_to_channel A (pr_a p)) (rf_to_channel B (pr_b p))"

definition prod_refine :: "('a, 'c, 'f) refine_ops \<Rightarrow> ('b, 'c, 'f) refine_ops \<Rightarrow> ('a, 'b) product \<Rightarrow> 'f \<Rightarrow> ('a, 'b) product bot_or" where
  "prod_refine A B p f = (case (rf_refine A (pr_a p) f, rf_refine B (pr_b p) f) of
      (Val a, Val b) \<Rightarrow> Val \<lparr>pr_a = a, pr_b = b\<rparr>
    | _ \<Rightarrow> Bot)"

definition prod_refiner :: "('f, 'c) channel_ops \<Rightarrow> ('a, 'c, 'f) refine_ops \<Rightarrow> ('b, 'c, 'f) refine_ops \<Rightarrow> (('a, 'b) product, 'c, 'f) refine_ops" where
  "prod_refiner F A B = \<lparr>dm_wf = prod_wf A B, dm_gamma = prod_gamma A B, dm_top = prod_top A B, dm_leq = prod_leq A B,
     dm_join = prod_join A B, dm_meet = prod_meet A B, dm_widen = prod_widen A B,
     rf_to_channel = prod_to_channel F A B, rf_refine = prod_refine A B\<rparr>"

definition reduce_once :: "('f, 'c) channel_ops \<Rightarrow> ('a, 'c, 'f) refine_ops \<Rightarrow> ('b, 'c, 'f) refine_ops \<Rightarrow> ('a, 'b) product \<Rightarrow> ('a, 'b) product bot_or" where
  "reduce_once F A B p = (case meet_channels F (rf_to_channel A (pr_a p)) (rf_to_channel B (pr_b p)) of
      Bot \<Rightarrow> Bot
    | Val f \<Rightarrow> (case (rf_refine A (pr_a p) f, rf_refine B (pr_b p) f) of
        (Val a, Val b) \<Rightarrow> Val \<lparr>pr_a = a, pr_b = b\<rparr>
      | _ \<Rightarrow> Bot))"

fun reduce :: "('f, 'c) channel_ops \<Rightarrow> ('a, 'c, 'f) refine_ops \<Rightarrow> ('b, 'c, 'f) refine_ops \<Rightarrow> ('a, 'b) product \<Rightarrow> nat \<Rightarrow> ('a, 'b) product bot_or" where
  "reduce F A B p 0 = Val p"
| "reduce F A B p (Suc fuel) = (case reduce_once F A B p of
      Bot \<Rightarrow> Bot
    | Val q \<Rightarrow> if dm_leq A (pr_a p) (pr_a q) \<and> dm_leq B (pr_b p) (pr_b q) then Val q else reduce F A B q fuel)"

definition meet_reduce :: "('f, 'c) channel_ops \<Rightarrow> ('a, 'c, 'f) refine_ops \<Rightarrow> ('b, 'c, 'f) refine_ops \<Rightarrow> ('a, 'b) product \<Rightarrow> ('a, 'b) product \<Rightarrow> nat \<Rightarrow> ('a, 'b) product bot_or" where
  "meet_reduce F A B p q fuel = (case prod_meet A B p q of Bot \<Rightarrow> Bot | Val m \<Rightarrow> reduce F A B m fuel)"

subsection \<open>Transfers\<close>

definition prod_arith :: "'a arith_ops \<Rightarrow> 'b arith_ops \<Rightarrow> ('a, 'b) product arith_ops" where
  "prod_arith A B = \<lparr>ar_add = (\<lambda>p q. \<lparr>pr_a = ar_add A (pr_a p) (pr_a q), pr_b = ar_add B (pr_b p) (pr_b q)\<rparr>),
     ar_sub = (\<lambda>p q. \<lparr>pr_a = ar_sub A (pr_a p) (pr_a q), pr_b = ar_sub B (pr_b p) (pr_b q)\<rparr>),
     ar_neg = (\<lambda>p. \<lparr>pr_a = ar_neg A (pr_a p), pr_b = ar_neg B (pr_b p)\<rparr>)\<rparr>"

definition prod_mul :: "('a \<Rightarrow> 'a \<Rightarrow> 'a) \<Rightarrow> ('b \<Rightarrow> 'b \<Rightarrow> 'b) \<Rightarrow> ('a, 'b) product \<Rightarrow> ('a, 'b) product \<Rightarrow> ('a, 'b) product" where
  "prod_mul f g p q = \<lparr>pr_a = f (pr_a p) (pr_a q), pr_b = g (pr_b p) (pr_b q)\<rparr>"

definition combine_div :: "'a bot_or \<times> div_zero \<Rightarrow> 'b bot_or \<times> div_zero \<Rightarrow> ('a, 'b) product bot_or \<times> div_zero" where
  "combine_div x y = (case (fst x, fst y) of
      (Val a, Val b) \<Rightarrow> (Val \<lparr>pr_a = a, pr_b = b\<rparr>, if snd x = DzNever \<or> snd y = DzNever then DzNever else DzMaybe)
    | _ \<Rightarrow> (Bot, DzAlways))"

definition prod_divrem :: "'a divrem_ops \<Rightarrow> 'b divrem_ops \<Rightarrow> ('a, 'b) product divrem_ops" where
  "prod_divrem A B = \<lparr>dr_contains_zero = (\<lambda>p. dr_contains_zero A (pr_a p) \<and> dr_contains_zero B (pr_b p)),
     dr_div = (\<lambda>p d. combine_div (dr_div A (pr_a p) (pr_a d)) (dr_div B (pr_b p) (pr_b d))),
     dr_rem = (\<lambda>p d. combine_div (dr_rem A (pr_a p) (pr_a d)) (dr_rem B (pr_b p) (pr_b d)))\<rparr>"

definition meet_answer :: "bool4 \<Rightarrow> bool4 \<Rightarrow> bool4" where
  "meet_answer ra rb = (case bool4_meet ra rb of Val m \<Rightarrow> m | Bot \<Rightarrow> B4Top)"

definition pair_assume :: "'a bot_or \<times> 'a bot_or \<Rightarrow> 'b bot_or \<times> 'b bot_or \<Rightarrow> ('a, 'b) product bot_or \<times> ('a, 'b) product bot_or" where
  "pair_assume x y = (pair_reduce (fst x) (fst y), pair_reduce (snd x) (snd y))"

definition prod_compare :: "'a compare_ops \<Rightarrow> 'b compare_ops \<Rightarrow> ('a, 'b) product compare_ops" where
  "prod_compare A B = \<lparr>cm_lt = (\<lambda>p q. meet_answer (cm_lt A (pr_a p) (pr_a q)) (cm_lt B (pr_b p) (pr_b q))),
     cm_le = (\<lambda>p q. meet_answer (cm_le A (pr_a p) (pr_a q)) (cm_le B (pr_b p) (pr_b q))),
     cm_eq = (\<lambda>p q. meet_answer (cm_eq A (pr_a p) (pr_a q)) (cm_eq B (pr_b p) (pr_b q))),
     cm_assume_lt = (\<lambda>p q t. pair_assume (cm_assume_lt A (pr_a p) (pr_a q) t) (cm_assume_lt B (pr_b p) (pr_b q) t)),
     cm_assume_le = (\<lambda>p q t. pair_assume (cm_assume_le A (pr_a p) (pr_a q) t) (cm_assume_le B (pr_b p) (pr_b q) t)),
     cm_assume_eq = (\<lambda>p q t. pair_assume (cm_assume_eq A (pr_a p) (pr_a q) t) (cm_assume_eq B (pr_b p) (pr_b q) t))\<rparr>"

section \<open>\<open>Bool4\<close> as a channel\<close>

lemma bool4_chan_sel [simp]:
  "dm_wf bool4_chan = (\<lambda>_. True)" "dm_gamma bool4_chan = bool4_gamma" "dm_top bool4_chan = B4Top" "dm_leq bool4_chan = bool4_leq"
  "dm_join bool4_chan = bool4_join" "dm_meet bool4_chan = bool4_meet" "dm_widen bool4_chan = bool4_widen"
  "ch_pre_wf bool4_chan = (\<lambda>_. True)" "ch_meet_exact bool4_chan = bool4_meet" "ch_normalize bool4_chan = Val"
  by (auto simp: bool4_chan_def bool4_dom_def bool4_normalize_def domain_ops.defs)

lemma bool4_refiner_sel [simp]:
  "dm_wf bool4_refiner = (\<lambda>_. True)" "dm_gamma bool4_refiner = bool4_gamma" "dm_top bool4_refiner = B4Top" "dm_leq bool4_refiner = bool4_leq"
  "dm_join bool4_refiner = bool4_join" "dm_meet bool4_refiner = bool4_meet" "dm_widen bool4_refiner = bool4_widen"
  "rf_to_channel bool4_refiner = Val" "rf_refine bool4_refiner = bool4_refine"
  by (auto simp: bool4_refiner_def bool4_dom_def domain_ops.defs)

lemma bool4_bot [simp]:
  "bot_wf bool4_chan x" "bot_wf bool4_refiner x" "bot_gamma bool4_refiner x c = bot_gamma bool4_chan x c"
  by (cases x; simp)+

lemma bool4_meet_exact: "bot_gamma bool4_chan (bool4_meet a b) c = (bool4_gamma a c \<and> bool4_gamma b c)"
  by (cases a; cases b) auto

section \<open>A product of refining domains refines\<close>

lemma prod_meet_pair: "prod_meet A B p q = pair_reduce (dm_meet A (pr_a p) (pr_a q)) (dm_meet B (pr_b p) (pr_b q))"
  by (auto simp: prod_meet_def split: bot_or.splits)

lemma prod_refine_pair: "prod_refine A B p f = pair_reduce (rf_refine A (pr_a p) f) (rf_refine B (pr_b p) f)"
  by (auto simp: prod_refine_def split: bot_or.splits)

lemma reduce_once_channel:
  "reduce_once F A B p = (case prod_to_channel F A B p of Bot \<Rightarrow> Bot | Val f \<Rightarrow> prod_refine A B p f)"
  unfolding reduce_once_def prod_to_channel_def prod_refine_def ..

lemma pair_reduce_Bot: "pair_reduce x y = Bot \<longleftrightarrow> x = Bot \<or> y = Bot"
  by (cases x; cases y) auto

lemma meet_answer_sound: "bool4_gamma x z \<Longrightarrow> bool4_gamma y z \<Longrightarrow> bool4_gamma (meet_answer x y) z"
  using bool4_meet_exact [of x y z] by (cases "bool4_meet x y") (auto simp: meet_answer_def)

locale product_domain = a: refiner A F + b: refiner B F
  for A :: "('a, 'c, 'f) refine_ops" and B :: "('b, 'c, 'f) refine_ops" and F :: "('f, 'c) channel_ops"
begin

abbreviation "P \<equiv> prod_refiner F A B"

lemma prod_sel [simp]:
  "dm_wf P p \<longleftrightarrow> dm_wf A (pr_a p) \<and> dm_wf B (pr_b p)"
  "dm_gamma P p c \<longleftrightarrow> dm_gamma A (pr_a p) c \<and> dm_gamma B (pr_b p) c"
  "dm_top P = prod_top A B" "dm_leq P = prod_leq A B" "dm_join P = prod_join A B" "dm_meet P = prod_meet A B"
  "dm_widen P = prod_widen A B" "rf_to_channel P = prod_to_channel F A B" "rf_refine P = prod_refine A B"
  by (simp_all add: prod_refiner_def prod_wf_def prod_gamma_def)

lemma pair_wf [simp]: "bot_wf A x \<Longrightarrow> bot_wf B y \<Longrightarrow> bot_wf P (pair_reduce x y)"
  by (cases x; cases y) simp_all

lemma pair_gamma [simp]: "bot_gamma P (pair_reduce x y) c \<longleftrightarrow> bot_gamma A x c \<and> bot_gamma B y c"
  by (cases x; cases y) simp_all

lemma channel_sound:
  assumes "dm_wf P p"
  shows "bot_wf F (prod_to_channel F A B p) \<and> (dm_gamma P p c \<longrightarrow> bot_gamma F (prod_to_channel F A B p) c)"
  using a.ch.meet_channels_exact [OF a.to_channel_wf b.to_channel_wf] a.to_channel_sound b.to_channel_sound assms
  by (auto simp: prod_to_channel_def)

lemma prod_is_refiner: "refiner P F"
proof
  fix p q :: "('a, 'b) product" and c f
  show "dm_leq P p q \<Longrightarrow> dm_gamma P p c \<Longrightarrow> dm_gamma P q c" if "dm_wf P p" "dm_wf P q"
    using that a.leq_sound b.leq_sound by (auto simp: prod_leq_def)
  show "dm_wf P (dm_join P p q)" if "dm_wf P p" "dm_wf P q"
    using that a.join_wf b.join_wf by (auto simp: prod_join_def)
  show "dm_gamma P p c \<or> dm_gamma P q c \<Longrightarrow> dm_gamma P (dm_join P p q) c" if "dm_wf P p" "dm_wf P q"
    using that a.join_sound b.join_sound by (auto simp: prod_join_def)
  show "bot_wf P (dm_meet P p q)" if "dm_wf P p" "dm_wf P q"
    using that a.meet_wf b.meet_wf by (simp add: prod_meet_pair)
  show "dm_gamma P p c \<Longrightarrow> dm_gamma P q c \<Longrightarrow> bot_gamma P (dm_meet P p q) c" if "dm_wf P p" "dm_wf P q"
    using that a.meet_sound b.meet_sound by (simp add: prod_meet_pair)
  show "dm_wf P (dm_widen P p q)" if "dm_wf P p" "dm_wf P q"
    using that a.widen_wf b.widen_wf by (auto simp: prod_widen_def)
  show "dm_gamma P p c \<or> dm_gamma P q c \<Longrightarrow> dm_gamma P (dm_widen P p q) c" if "dm_wf P p" "dm_wf P q"
    using that a.widen_sound b.widen_sound by (auto simp: prod_widen_def)
  show "bot_wf F (rf_to_channel P p)" if "dm_wf P p" using that channel_sound by simp
  show "dm_gamma P p c \<Longrightarrow> bot_gamma F (rf_to_channel P p) c" if "dm_wf P p"
    using channel_sound [OF that, of c] by simp
  assume f: "dm_wf F f" and p: "dm_wf P p"
  show "bot_wf P (rf_refine P p f)" using f p a.refine_wf b.refine_wf by (simp add: prod_refine_pair)
  show "dm_gamma P p c \<Longrightarrow> dm_gamma F f c \<Longrightarrow> bot_gamma P (rf_refine P p f) c"
    using f p a.refine_keeps b.refine_keeps by (simp add: prod_refine_pair)
  show "bot_gamma P (rf_refine P p f) c \<Longrightarrow> dm_gamma P p c"
    using f p a.refine_shrinks b.refine_shrinks by (simp add: prod_refine_pair)
qed (simp_all add: prod_top_def)

end

sublocale product_domain \<subseteq> refiner "prod_refiner F A B" F
  by (rule prod_is_refiner)

context product_domain begin

lemma reduce_once_exact:
  assumes "dm_wf P p"
  shows "bot_wf P (reduce_once F A B p) \<and> bot_gamma P (reduce_once F A B p) c = dm_gamma P p c"
proof (cases "prod_to_channel F A B p")
  case Bot
  then show ?thesis using channel_sound [OF assms, of c] by (simp add: reduce_once_channel)
next
  case (Val f)
  then have f: "dm_wf F f" "dm_gamma P p c \<longrightarrow> dm_gamma F f c" using channel_sound [OF assms, of c] by simp_all
  then show ?thesis
    using refine_wf [OF assms f(1)] refine_keeps [OF assms f(1), of c] refine_shrinks [OF assms f(1), of c] Val
    by (auto simp: reduce_once_channel simp del: prod_sel(1,2))
qed

lemma reduce_exact:
  "dm_wf P p \<Longrightarrow> bot_wf P (reduce F A B p fuel) \<and> (\<forall>c. bot_gamma P (reduce F A B p fuel) c = dm_gamma P p c)"
proof (induction fuel arbitrary: p)
  case (Suc fuel)
  then show ?case
    using reduce_once_exact [OF Suc.prems] by (cases "reduce_once F A B p") (auto simp del: prod_sel(1,2))
qed simp

lemma meet_reduce_sound:
  assumes "dm_wf P p" "dm_wf P q"
  shows "bot_wf P (meet_reduce F A B p q fuel) \<and>
    (dm_gamma P p c \<and> dm_gamma P q c \<longrightarrow> bot_gamma P (meet_reduce F A B p q fuel) c)"
  using meet_wf [OF assms] meet_sound [OF assms] reduce_exact
  by (cases "prod_meet A B p q") (auto simp: meet_reduce_def simp del: prod_sel(1,2))

lemma sound2_pair:
  "sound2 A f g \<Longrightarrow> sound2 B f' g \<Longrightarrow> sound2 P (\<lambda>p q. \<lparr>pr_a = f (pr_a p) (pr_a q), pr_b = f' (pr_b p) (pr_b q)\<rparr>) g"
  by (simp add: sound2_def)

lemma sound1_pair: "sound1 A f g \<Longrightarrow> sound1 B f' g \<Longrightarrow> sound1 P (\<lambda>p. \<lparr>pr_a = f (pr_a p), pr_b = f' (pr_b p)\<rparr>) g"
  by (simp add: sound1_def)

lemma prod_arith_sound:
  assumes x: "arith_transfer A S X" and y: "arith_transfer B S Y"
  shows "arith_transfer P S (prod_arith X Y)"
  unfolding prod_arith_def
  by (intro arith_transfer.intro arith_transfer_axioms.intro abs_domain_axioms; unfold arith_ops.simps)
    (rule sound2_pair [OF arith_transfer.add [OF x] arith_transfer.add [OF y]]
      sound2_pair [OF arith_transfer.sub [OF x] arith_transfer.sub [OF y]]
      sound1_pair [OF arith_transfer.neg [OF x] arith_transfer.neg [OF y]])+

lemma prod_mul_sound: "mul_transfer A S f \<Longrightarrow> mul_transfer B S g \<Longrightarrow> mul_transfer P S (prod_mul f g)"
  unfolding mul_transfer_def mul_transfer_axioms_def prod_mul_def using abs_domain_axioms by (auto intro!: sound2_pair)

lemma div_ok_pair:
  assumes "div_ok A S g (pr_a p) (pr_a d) u" and "div_ok B S g (pr_b p) (pr_b d) v"
  shows "div_ok P S g p d (combine_div u v)"
proof (cases "fst u = Bot \<or> fst v = Bot")
  case True
  then have "combine_div u v = (Bot, DzAlways)" by (auto simp: combine_div_def split: bot_or.splits)
  then show ?thesis using True assms unfolding div_ok_def by (auto simp: is_bot_iff)
next
  case False
  then obtain a b where "fst u = Val a" "fst v = Val b" by (metis bot_or.exhaust)
  then show ?thesis using assms unfolding div_ok_def by (auto simp: combine_div_def split: if_splits)
qed

lemma sound_div_pair:
  "sound_div A S f g \<Longrightarrow> sound_div B S f' g \<Longrightarrow>
    sound_div P S (\<lambda>p d. combine_div (f (pr_a p) (pr_a d)) (f' (pr_b p) (pr_b d))) g"
  unfolding sound_div_def by (auto intro!: div_ok_pair)

lemma prod_divrem_sound:
  assumes x: "divrem_transfer A S X" and y: "divrem_transfer B S Y"
  shows "divrem_transfer P S (prod_divrem X Y)"
  unfolding prod_divrem_def
  by (intro divrem_transfer.intro divrem_transfer_axioms.intro abs_domain_axioms; unfold divrem_ops.simps)
    (simp add: divrem_transfer.contains_zero [OF x] divrem_transfer.contains_zero [OF y],
     rule sound_div_pair [OF divrem_transfer.div [OF x] divrem_transfer.div [OF y]],
     rule sound_div_pair [OF divrem_transfer.rem [OF x] divrem_transfer.rem [OF y]])

lemma sound_cmp_pair:
  "sound_cmp A f g \<Longrightarrow> sound_cmp B f' g \<Longrightarrow> sound_cmp P (\<lambda>p q. meet_answer (f (pr_a p) (pr_a q)) (f' (pr_b p) (pr_b q))) g"
  by (auto simp: sound_cmp_def intro: meet_answer_sound)

lemma assume_ok_pair:
  "assume_ok A g (pr_a p) (pr_a q) t u \<Longrightarrow> assume_ok B g (pr_b p) (pr_b q) t v \<Longrightarrow> assume_ok P g p q t (pair_assume u v)"
  by (auto simp: assume_ok_def pair_assume_def)

lemma sound_assume_pair:
  "sound_assume A f g \<Longrightarrow> sound_assume B f' g \<Longrightarrow>
    sound_assume P (\<lambda>p q t. pair_assume (f (pr_a p) (pr_a q) t) (f' (pr_b p) (pr_b q) t)) g"
  unfolding sound_assume_def by (auto intro!: assume_ok_pair)

lemma prod_compare_sound:
  assumes x: "compare_transfer A S X" and y: "compare_transfer B S Y"
  shows "compare_transfer P S (prod_compare X Y)"
  unfolding prod_compare_def
  by (intro compare_transfer.intro compare_transfer_axioms.intro abs_domain_axioms; unfold compare_ops.simps)
    (rule sound_cmp_pair [OF compare_transfer.lt [OF x] compare_transfer.lt [OF y]]
      sound_cmp_pair [OF compare_transfer.le [OF x] compare_transfer.le [OF y]]
      sound_cmp_pair [OF compare_transfer.eq [OF x] compare_transfer.eq [OF y]]
      sound_assume_pair [OF compare_transfer.assume_lt [OF x] compare_transfer.assume_lt [OF y]]
      sound_assume_pair [OF compare_transfer.assume_le [OF x] compare_transfer.assume_le [OF y]]
      sound_assume_pair [OF compare_transfer.assume_eq [OF x] compare_transfer.assume_eq [OF y]])+

end

interpretation b4c: channel bool4_chan
proof
  fix a b c
  show "a = b" if "\<And>c. dm_gamma bool4_chan a c = dm_gamma bool4_chan b c"
    using that b4.canonical [of a b] by (simp add: bool4_dom_def)
  show "\<exists>c. dm_gamma bool4_chan a c" using b4.nonempty [of a] by (simp add: bool4_dom_def)
qed (auto simp: bool4_leq_def bool4_join_def bool4_widen_def bool4_meet_exact)

lemma bool4_refine_meet: "bool4_refine a f = bool4_meet a f"
  by (cases "bool4_meet a f") (simp_all add: bool4_refine_def meet_normalize_def)

interpretation b4r: refiner bool4_refiner bool4_chan
  by unfold_locales (auto simp: bool4_leq_def bool4_join_def bool4_widen_def bool4_meet_exact bool4_refine_meet)

end
