(* ===== verification/Abs_Int.thy ===== *)
theory Abs_Int
  imports Abs_Reduce
begin

text \<open>
  Domains over the integers: \<open>interval_z.rs\<close>, the channel \<open>FactsZ\<close> (\<open>facts_z.rs\<close>) and \<open>sign.rs\<close> of
  \<open>abstract-domains\<close>.  \<open>IBig\<close> (\<open>ibig.rs\<close>), the wrapper of an arbitrary-precision library, is the type
  \<open>int\<close>: its contract says that \<open>view\<close> is injective and that every operation is the mathematical one.
\<close>

section \<open>\<open>IntervalZ\<close>\<close>

datatype lo_bound = NegInf | LoFin int

datatype hi_bound = HiFin int | PosInf

record interval_z =
  iz_lo :: lo_bound
  iz_hi :: hi_bound

fun lo_ok :: "lo_bound \<Rightarrow> int \<Rightarrow> bool" where
  "lo_ok NegInf c = True"
| "lo_ok (LoFin a) c = (a \<le> c)"

fun hi_ok :: "hi_bound \<Rightarrow> int \<Rightarrow> bool" where
  "hi_ok PosInf c = True"
| "hi_ok (HiFin b) c = (c \<le> b)"

fun lo_le :: "lo_bound \<Rightarrow> lo_bound \<Rightarrow> bool" where
  "lo_le NegInf _ = True"
| "lo_le (LoFin _) NegInf = False"
| "lo_le (LoFin x) (LoFin y) = (x \<le> y)"

fun hi_le :: "hi_bound \<Rightarrow> hi_bound \<Rightarrow> bool" where
  "hi_le _ PosInf = True"
| "hi_le PosInf (HiFin _) = False"
| "hi_le (HiFin x) (HiFin y) = (x \<le> y)"

text \<open>The test that \<open>new\<close>, \<open>meet\<close> and \<open>wf\<close> share: the bounds do not cross.\<close>

fun bounds_ok :: "lo_bound \<Rightarrow> hi_bound \<Rightarrow> bool" where
  "bounds_ok (LoFin a) (HiFin b) = (a \<le> b)"
| "bounds_ok _ _ = True"

definition intervalz_new :: "lo_bound \<Rightarrow> hi_bound \<Rightarrow> interval_z option" where
  "intervalz_new lo hi = (if bounds_ok lo hi then Some \<lparr>iz_lo = lo, iz_hi = hi\<rparr> else None)"

definition intervalz_constant :: "int \<Rightarrow> interval_z" where
  "intervalz_constant c = \<lparr>iz_lo = LoFin c, iz_hi = HiFin c\<rparr>"

definition sign_possibilities :: "interval_z \<Rightarrow> bool \<times> bool \<times> bool" where
  "sign_possibilities s = (
    let negative = (case iz_lo s of NegInf \<Rightarrow> True | LoFin lo \<Rightarrow> \<not> 0 \<le> lo);
        zero_possible = (case (iz_lo s, iz_hi s) of
            (NegInf, PosInf) \<Rightarrow> True
          | (NegInf, HiFin hi) \<Rightarrow> 0 \<le> hi
          | (LoFin lo, PosInf) \<Rightarrow> lo \<le> 0
          | (LoFin lo, HiFin hi) \<Rightarrow> lo \<le> 0 \<and> 0 \<le> hi);
        positive = (case iz_hi s of PosInf \<Rightarrow> True | HiFin hi \<Rightarrow> \<not> hi \<le> 0)
    in (negative, zero_possible, positive))"

definition intervalz_meet_exact :: "interval_z \<Rightarrow> interval_z \<Rightarrow> interval_z bot_or" where
  "intervalz_meet_exact s o' = (
    let lo = if lo_le (iz_lo s) (iz_lo o') then iz_lo o' else iz_lo s;
        hi = if hi_le (iz_hi s) (iz_hi o') then iz_hi s else iz_hi o'
    in if bounds_ok lo hi then Val \<lparr>iz_lo = lo, iz_hi = hi\<rparr> else Bot)"

definition intervalz_add :: "interval_z \<Rightarrow> interval_z \<Rightarrow> interval_z" where
  "intervalz_add s o' = \<lparr>
     iz_lo = (case (iz_lo s, iz_lo o') of (LoFin a, LoFin b) \<Rightarrow> LoFin (a + b) | _ \<Rightarrow> NegInf),
     iz_hi = (case (iz_hi s, iz_hi o') of (HiFin a, HiFin b) \<Rightarrow> HiFin (a + b) | _ \<Rightarrow> PosInf)\<rparr>"

definition intervalz_neg :: "interval_z \<Rightarrow> interval_z" where
  "intervalz_neg s = \<lparr>
     iz_lo = (case iz_hi s of HiFin b \<Rightarrow> LoFin (- b) | PosInf \<Rightarrow> NegInf),
     iz_hi = (case iz_lo s of LoFin a \<Rightarrow> HiFin (- a) | NegInf \<Rightarrow> PosInf)\<rparr>"

definition intervalz_sub :: "interval_z \<Rightarrow> interval_z \<Rightarrow> interval_z" where
  "intervalz_sub s o' = intervalz_add s (intervalz_neg o')"

definition intervalz_contains_zero :: "interval_z \<Rightarrow> bool" where
  "intervalz_contains_zero s = (
    let lo_ok0 = (case iz_lo s of NegInf \<Rightarrow> True | LoFin a \<Rightarrow> a \<le> 0);
        hi_ok0 = (case iz_hi s of PosInf \<Rightarrow> True | HiFin b \<Rightarrow> 0 \<le> b)
    in lo_ok0 \<and> hi_ok0)"

definition intervalz_top :: interval_z where
  "intervalz_top = \<lparr>iz_lo = NegInf, iz_hi = PosInf\<rparr>"

definition intervalz_div_flag :: "interval_z \<Rightarrow> interval_z bot_or \<times> div_zero" where
  "intervalz_div_flag d = (
    let zero_singleton = (case (iz_lo d, iz_hi d) of (LoFin a, HiFin b) \<Rightarrow> a = 0 \<and> b = 0 | _ \<Rightarrow> False)
    in if zero_singleton then (Bot, DzAlways)
       else if intervalz_contains_zero d then (Val intervalz_top, DzMaybe)
       else (Val intervalz_top, DzNever))"

definition intervalz_wf :: "interval_z \<Rightarrow> bool" where
  "intervalz_wf s = bounds_ok (iz_lo s) (iz_hi s)"

definition intervalz_gamma :: "interval_z \<Rightarrow> int \<Rightarrow> bool" where
  "intervalz_gamma s c = (lo_ok (iz_lo s) c \<and> hi_ok (iz_hi s) c)"

definition intervalz_leq :: "interval_z \<Rightarrow> interval_z \<Rightarrow> bool" where
  "intervalz_leq s o' = (lo_le (iz_lo o') (iz_lo s) \<and> hi_le (iz_hi s) (iz_hi o'))"

definition intervalz_join :: "interval_z \<Rightarrow> interval_z \<Rightarrow> interval_z" where
  "intervalz_join s o' = (
    let lo = if lo_le (iz_lo s) (iz_lo o') then iz_lo s else iz_lo o';
        hi = if hi_le (iz_hi s) (iz_hi o') then iz_hi o' else iz_hi s
    in \<lparr>iz_lo = lo, iz_hi = hi\<rparr>)"

definition intervalz_meet :: "interval_z \<Rightarrow> interval_z \<Rightarrow> interval_z bot_or" where
  "intervalz_meet s o' = (
    let lo = if lo_le (iz_lo s) (iz_lo o') then iz_lo o' else iz_lo s;
        hi = if hi_le (iz_hi s) (iz_hi o') then iz_hi s else iz_hi o'
    in if bounds_ok lo hi then Val \<lparr>iz_lo = lo, iz_hi = hi\<rparr> else Bot)"

definition intervalz_widen :: "interval_z \<Rightarrow> interval_z \<Rightarrow> interval_z" where
  "intervalz_widen s o' = (
    let lo = if lo_le (iz_lo s) (iz_lo o') then iz_lo s else NegInf;
        hi = if hi_le (iz_hi o') (iz_hi s) then iz_hi s else PosInf
    in \<lparr>iz_lo = lo, iz_hi = hi\<rparr>)"

definition intervalz_dom :: "(interval_z, int) domain_ops" where
  "intervalz_dom = \<lparr>dm_wf = intervalz_wf, dm_gamma = intervalz_gamma, dm_top = intervalz_top, dm_leq = intervalz_leq,
     dm_join = intervalz_join, dm_meet = intervalz_meet, dm_widen = intervalz_widen\<rparr>"

text \<open>The transfers are the same for the Euclidean and the truncated semantics.\<close>

definition intervalz_arith :: "interval_z arith_ops" where
  "intervalz_arith = \<lparr>ar_add = intervalz_add, ar_sub = intervalz_sub, ar_neg = intervalz_neg\<rparr>"

definition intervalz_divrem :: "interval_z divrem_ops" where
  "intervalz_divrem = \<lparr>dr_contains_zero = intervalz_contains_zero,
     dr_div = (\<lambda>s d. intervalz_div_flag d), dr_rem = (\<lambda>s d. intervalz_div_flag d)\<rparr>"

section \<open>\<open>FactsZ\<close>\<close>

record facts_z =
  fz_itv :: interval_z

definition factsz_from_interval :: "interval_z \<Rightarrow> facts_z" where
  "factsz_from_interval i = \<lparr>fz_itv = i\<rparr>"

definition factsz_interval :: "facts_z \<Rightarrow> interval_z" where
  "factsz_interval s = fz_itv s"

definition factsz_reduced :: "facts_z \<Rightarrow> bool" where
  "factsz_reduced s = True"

definition factsz_pre_wf :: "facts_z \<Rightarrow> bool" where
  "factsz_pre_wf s = intervalz_wf (fz_itv s)"

definition factsz_wf :: "facts_z \<Rightarrow> bool" where
  "factsz_wf s = (factsz_pre_wf s \<and> factsz_reduced s)"

definition factsz_gamma :: "facts_z \<Rightarrow> int \<Rightarrow> bool" where
  "factsz_gamma s c = intervalz_gamma (fz_itv s) c"

definition factsz_top :: facts_z where
  "factsz_top = \<lparr>fz_itv = intervalz_top\<rparr>"

definition factsz_leq :: "facts_z \<Rightarrow> facts_z \<Rightarrow> bool" where
  "factsz_leq s o' = intervalz_leq (fz_itv s) (fz_itv o')"

definition factsz_join :: "facts_z \<Rightarrow> facts_z \<Rightarrow> facts_z" where
  "factsz_join s o' = \<lparr>fz_itv = intervalz_join (fz_itv s) (fz_itv o')\<rparr>"

definition factsz_meet :: "facts_z \<Rightarrow> facts_z \<Rightarrow> facts_z bot_or" where
  "factsz_meet s o' = (case intervalz_meet (fz_itv s) (fz_itv o') of Bot \<Rightarrow> Bot | Val i \<Rightarrow> Val \<lparr>fz_itv = i\<rparr>)"

definition factsz_widen :: "facts_z \<Rightarrow> facts_z \<Rightarrow> facts_z" where
  "factsz_widen s o' = \<lparr>fz_itv = intervalz_widen (fz_itv s) (fz_itv o')\<rparr>"

definition factsz_meet_exact :: "facts_z \<Rightarrow> facts_z \<Rightarrow> facts_z bot_or" where
  "factsz_meet_exact s o' = (case intervalz_meet_exact (fz_itv s) (fz_itv o') of Bot \<Rightarrow> Bot | Val i \<Rightarrow> Val \<lparr>fz_itv = i\<rparr>)"

definition factsz_normalize :: "facts_z \<Rightarrow> facts_z bot_or" where
  "factsz_normalize s = Val s"

definition factsz_chan :: "(facts_z, int) channel_ops" where
  "factsz_chan = \<lparr>dm_wf = factsz_wf, dm_gamma = factsz_gamma, dm_top = factsz_top, dm_leq = factsz_leq,
     dm_join = factsz_join, dm_meet = factsz_meet, dm_widen = factsz_widen,
     ch_pre_wf = factsz_pre_wf, ch_meet_exact = factsz_meet_exact, ch_normalize = factsz_normalize\<rparr>"

definition factsz_refiner :: "(facts_z, int, facts_z) refine_ops" where
  "factsz_refiner = \<lparr>dm_wf = factsz_wf, dm_gamma = factsz_gamma, dm_top = factsz_top, dm_leq = factsz_leq,
     dm_join = factsz_join, dm_meet = factsz_meet, dm_widen = factsz_widen,
     rf_to_channel = Val, rf_refine = meet_normalize factsz_chan\<rparr>"

definition intervalz_to_channel :: "interval_z \<Rightarrow> facts_z bot_or" where
  "intervalz_to_channel s = Val (factsz_from_interval s)"

definition intervalz_refine :: "interval_z \<Rightarrow> facts_z \<Rightarrow> interval_z bot_or" where
  "intervalz_refine s f = intervalz_meet_exact s (factsz_interval f)"

definition intervalz_refiner :: "(interval_z, int, facts_z) refine_ops" where
  "intervalz_refiner = domain_ops.extend intervalz_dom \<lparr>rf_to_channel = intervalz_to_channel, rf_refine = intervalz_refine\<rparr>"

definition factsz_lift :: "interval_z \<Rightarrow> facts_z" where
  "factsz_lift i = (case factsz_normalize (factsz_from_interval i) of Val r \<Rightarrow> r | Bot \<Rightarrow> factsz_top)"

definition factsz_lift_div :: "interval_z bot_or \<times> div_zero \<Rightarrow> facts_z bot_or \<times> div_zero" where
  "factsz_lift_div q = (case fst q of Bot \<Rightarrow> (Bot, snd q) | Val i \<Rightarrow> (Val (factsz_lift i), snd q))"

definition factsz_arith :: "facts_z arith_ops" where
  "factsz_arith = \<lparr>ar_add = (\<lambda>s o'. factsz_lift (intervalz_add (factsz_interval s) (factsz_interval o'))),
     ar_sub = (\<lambda>s o'. factsz_lift (intervalz_sub (factsz_interval s) (factsz_interval o'))),
     ar_neg = (\<lambda>s. factsz_lift (intervalz_neg (factsz_interval s)))\<rparr>"

definition factsz_divrem :: "facts_z divrem_ops" where
  "factsz_divrem = \<lparr>dr_contains_zero = (\<lambda>s. intervalz_contains_zero (factsz_interval s)),
     dr_div = (\<lambda>s d. factsz_lift_div (dr_div intervalz_divrem (factsz_interval s) (factsz_interval d))),
     dr_rem = (\<lambda>s d. factsz_lift_div (dr_rem intervalz_divrem (factsz_interval s) (factsz_interval d)))\<rparr>"

definition factsz_compare :: "facts_z compare_ops" where
  "factsz_compare = \<lparr>cm_lt = (\<lambda>s o'. B4Top), cm_le = (\<lambda>s o'. B4Top), cm_eq = (\<lambda>s o'. B4Top),
     cm_assume_lt = (\<lambda>s o' t. (Val s, Val o')), cm_assume_le = (\<lambda>s o' t. (Val s, Val o')),
     cm_assume_eq = (\<lambda>s o' t. (Val s, Val o'))\<rparr>"

section \<open>\<open>Sign\<close>\<close>

datatype sign_kind = SNeg | SZero | SPos | SNegOrZero | SNonZero | SPosOrZero | STop

record sign =
  sg_kind :: sign_kind

fun allows :: "sign_kind \<Rightarrow> int \<Rightarrow> bool" where
  "allows SNeg x = (x < 0)"
| "allows SZero x = (x = 0)"
| "allows SPos x = (x > 0)"
| "allows SNegOrZero x = (x \<le> 0)"
| "allows SNonZero x = (x \<noteq> 0)"
| "allows SPosOrZero x = (x \<ge> 0)"
| "allows STop x = True"

fun categories :: "sign_kind \<Rightarrow> bool \<times> bool \<times> bool" where
  "categories SNeg = (True, False, False)"
| "categories SZero = (False, True, False)"
| "categories SPos = (False, False, True)"
| "categories SNegOrZero = (True, True, False)"
| "categories SNonZero = (True, False, True)"
| "categories SPosOrZero = (False, True, True)"
| "categories STop = (True, True, True)"

definition sign_from_kind :: "sign_kind \<Rightarrow> sign" where
  "sign_from_kind k = \<lparr>sg_kind = k\<rparr>"

definition sign_build :: "bool \<Rightarrow> bool \<Rightarrow> bool \<Rightarrow> sign bot_or" where
  "sign_build n z p =
    (if n then Val (sign_from_kind (if z then (if p then STop else SNegOrZero) else (if p then SNonZero else SNeg)))
     else if z then Val (sign_from_kind (if p then SPosOrZero else SZero))
     else if p then Val (sign_from_kind SPos)
     else Bot)"

definition sign_contains :: "sign \<Rightarrow> int \<Rightarrow> bool" where
  "sign_contains s x = (case sg_kind s of SNeg \<Rightarrow> x < 0 | SZero \<Rightarrow> x = 0 | SPos \<Rightarrow> x > 0 | SNegOrZero \<Rightarrow> x \<le> 0
     | SNonZero \<Rightarrow> x \<noteq> 0 | SPosOrZero \<Rightarrow> x \<ge> 0 | STop \<Rightarrow> True)"

definition sign_from_value :: "int \<Rightarrow> sign" where
  "sign_from_value x = sign_from_kind (if x < 0 then SNeg else if x = 0 then SZero else SPos)"

definition sign_gamma :: "sign \<Rightarrow> int \<Rightarrow> bool" where
  "sign_gamma s x = allows (sg_kind s) x"

definition sign_top :: sign where
  "sign_top = sign_from_kind STop"

definition sign_leq :: "sign \<Rightarrow> sign \<Rightarrow> bool" where
  "sign_leq s o' = (case (categories (sg_kind s), categories (sg_kind o')) of
     ((n, z, p), (nn, zz, pp)) \<Rightarrow> (\<not> n \<or> nn) \<and> (\<not> z \<or> zz) \<and> (\<not> p \<or> pp))"

definition sign_join :: "sign \<Rightarrow> sign \<Rightarrow> sign" where
  "sign_join s o' = (case (categories (sg_kind s), categories (sg_kind o')) of
     ((n, z, p), (nn, zz, pp)) \<Rightarrow> (case sign_build (n \<or> nn) (z \<or> zz) (p \<or> pp) of Val r \<Rightarrow> r | Bot \<Rightarrow> sign_top))"

definition sign_meet :: "sign \<Rightarrow> sign \<Rightarrow> sign bot_or" where
  "sign_meet s o' = (case (categories (sg_kind s), categories (sg_kind o')) of
     ((n, z, p), (nn, zz, pp)) \<Rightarrow> sign_build (n \<and> nn) (z \<and> zz) (p \<and> pp))"

definition sign_widen :: "sign \<Rightarrow> sign \<Rightarrow> sign" where
  "sign_widen s o' = sign_join s o'"

definition sign_nonempty :: "bool \<Rightarrow> bool \<Rightarrow> bool \<Rightarrow> sign" where
  "sign_nonempty n z p = (case sign_build n z p of Val r \<Rightarrow> r | Bot \<Rightarrow> sign_top)"

definition sign_neg_int :: "sign \<Rightarrow> sign" where
  "sign_neg_int s = (case categories (sg_kind s) of (n, z, p) \<Rightarrow> sign_nonempty p z n)"

definition sign_add_int :: "sign \<Rightarrow> sign \<Rightarrow> sign" where
  "sign_add_int s o' = (case (categories (sg_kind s), categories (sg_kind o')) of
     ((n, z, p), (nn, zz, pp)) \<Rightarrow> sign_nonempty (n \<or> nn) ((z \<and> zz) \<or> (n \<and> pp) \<or> (p \<and> nn)) (p \<or> pp))"

definition sign_sub_int :: "sign \<Rightarrow> sign \<Rightarrow> sign" where
  "sign_sub_int s o' = sign_add_int s (sign_neg_int o')"

definition sign_mul_int :: "sign \<Rightarrow> sign \<Rightarrow> sign" where
  "sign_mul_int s o' = (case (categories (sg_kind s), categories (sg_kind o')) of
     ((n, z, p), (nn, zz, pp)) \<Rightarrow> sign_nonempty ((n \<and> pp) \<or> (p \<and> nn)) (z \<or> zz) ((n \<and> nn) \<or> (p \<and> pp)))"

definition sign_interval_hull :: "sign \<Rightarrow> interval_z" where
  "sign_interval_hull s = (
    let (lo, hi) = (case sg_kind s of
        SNeg \<Rightarrow> (NegInf, HiFin (- 1))
      | SPos \<Rightarrow> (LoFin 1, PosInf)
      | SZero \<Rightarrow> (LoFin 0, HiFin 0)
      | SPosOrZero \<Rightarrow> (LoFin 0, PosInf)
      | SNegOrZero \<Rightarrow> (NegInf, HiFin 0)
      | _ \<Rightarrow> (NegInf, PosInf))
    in case intervalz_new lo hi of Some i \<Rightarrow> i | None \<Rightarrow> intervalz_top)"

definition sign_to_channel :: "sign \<Rightarrow> facts_z bot_or" where
  "sign_to_channel s = Val (factsz_from_interval (sign_interval_hull s))"

definition sign_refine :: "sign \<Rightarrow> facts_z \<Rightarrow> sign bot_or" where
  "sign_refine s f = (case sign_possibilities (factsz_interval f) of (fact_neg, fact_zero, fact_pos) \<Rightarrow>
     (case categories (sg_kind s) of (n, z, p) \<Rightarrow> sign_build (n \<and> fact_neg) (z \<and> fact_zero) (p \<and> fact_pos)))"

definition sign_refiner :: "(sign, int, facts_z) refine_ops" where
  "sign_refiner = \<lparr>dm_wf = (\<lambda>_. True), dm_gamma = sign_gamma, dm_top = sign_top, dm_leq = sign_leq,
     dm_join = sign_join, dm_meet = sign_meet, dm_widen = sign_widen,
     rf_to_channel = sign_to_channel, rf_refine = sign_refine\<rparr>"

definition sign_arith :: "sign arith_ops" where
  "sign_arith = \<lparr>ar_add = sign_add_int, ar_sub = sign_sub_int, ar_neg = sign_neg_int\<rparr>"

definition sign_div_flag :: "sign \<Rightarrow> div_zero" where
  "sign_div_flag d = (case sg_kind d of
       SNeg \<Rightarrow> DzNever | SPos \<Rightarrow> DzNever | SNonZero \<Rightarrow> DzNever
     | SZero \<Rightarrow> DzAlways
     | SNegOrZero \<Rightarrow> DzMaybe | SPosOrZero \<Rightarrow> DzMaybe | STop \<Rightarrow> DzMaybe)"

definition sign_contains_zero :: "sign \<Rightarrow> bool" where
  "sign_contains_zero s = (case sg_kind s of SZero \<Rightarrow> True | SNegOrZero \<Rightarrow> True | SPosOrZero \<Rightarrow> True | STop \<Rightarrow> True | _ \<Rightarrow> False)"

definition sign_euclid_div :: "sign \<Rightarrow> sign \<Rightarrow> sign bot_or \<times> div_zero" where
  "sign_euclid_div s d = (case sg_kind d of
      SZero \<Rightarrow> (Bot, DzAlways)
    | _ \<Rightarrow> (case (categories (sg_kind s), categories (sg_kind d)) of ((xn, xz, xp), (dn, _, dp)) \<Rightarrow>
        (Val (sign_nonempty ((xn \<and> dp) \<or> (xp \<and> dn)) (xz \<or> xp) ((xn \<and> dn) \<or> (xp \<and> dp))), sign_div_flag d)))"

definition sign_euclid_rem :: "sign \<Rightarrow> sign \<Rightarrow> sign bot_or \<times> div_zero" where
  "sign_euclid_rem s d = (case sg_kind d of
      SZero \<Rightarrow> (Bot, DzAlways)
    | _ \<Rightarrow> (case sg_kind s of
        SZero \<Rightarrow> (Val (sign_from_kind SZero), sign_div_flag d)
      | _ \<Rightarrow> (Val (sign_from_kind SPosOrZero), sign_div_flag d)))"

definition sign_trunc_div :: "sign \<Rightarrow> sign \<Rightarrow> sign bot_or \<times> div_zero" where
  "sign_trunc_div s d = (case sg_kind d of
      SZero \<Rightarrow> (Bot, DzAlways)
    | _ \<Rightarrow> (case (categories (sg_kind s), categories (sg_kind d)) of ((xn, xz, xp), (dn, _, dp)) \<Rightarrow>
        (sign_build ((xn \<and> dp) \<or> (xp \<and> dn)) (xz \<or> ((xn \<or> xp) \<and> (dn \<or> dp))) ((xn \<and> dn) \<or> (xp \<and> dp)), sign_div_flag d)))"

definition sign_trunc_rem :: "sign \<Rightarrow> sign \<Rightarrow> sign bot_or \<times> div_zero" where
  "sign_trunc_rem s d = (case sg_kind d of
      SZero \<Rightarrow> (Bot, DzAlways)
    | _ \<Rightarrow> (case categories (sg_kind s) of (xn, _, xp) \<Rightarrow> (Val (sign_nonempty xn True xp), sign_div_flag d)))"

definition sign_euclid :: "sign divrem_ops" where
  "sign_euclid = \<lparr>dr_contains_zero = sign_contains_zero, dr_div = sign_euclid_div, dr_rem = sign_euclid_rem\<rparr>"

definition sign_trunc :: "sign divrem_ops" where
  "sign_trunc = \<lparr>dr_contains_zero = sign_contains_zero, dr_div = sign_trunc_div, dr_rem = sign_trunc_rem\<rparr>"

section \<open>\<open>IntervalZ\<close> is a canonical domain\<close>

lemma intervalz_sel [simp]:
  "dm_wf intervalz_dom = intervalz_wf" "dm_gamma intervalz_dom = intervalz_gamma" "dm_top intervalz_dom = intervalz_top"
  "dm_leq intervalz_dom = intervalz_leq" "dm_join intervalz_dom = intervalz_join" "dm_meet intervalz_dom = intervalz_meet"
  "dm_widen intervalz_dom = intervalz_widen"
  by (simp_all add: intervalz_dom_def)

lemmas intervalz_base = intervalz_wf_def intervalz_gamma_def

lemma lo_le_iff: "lo_le a b \<longleftrightarrow> (\<forall>c. lo_ok b c \<longrightarrow> lo_ok a c)"
proof (cases a; cases b)
  fix x assume "a = LoFin x" "b = NegInf"
  then show ?thesis by (auto intro!: exI [of _ "x - 1"])
qed auto

lemma hi_le_iff: "hi_le a b \<longleftrightarrow> (\<forall>c. hi_ok a c \<longrightarrow> hi_ok b c)"
proof (cases a; cases b)
  fix y assume "a = PosInf" "b = HiFin y"
  then show ?thesis by (auto intro!: exI [of _ "y + 1"])
qed auto

lemma bounds_antisym: "lo_le a b \<Longrightarrow> lo_le b a \<Longrightarrow> a = b" "hi_le c d \<Longrightarrow> hi_le d c \<Longrightarrow> c = d"
  by (cases a; cases b; simp) (cases c; cases d; simp)

lemma lo_le_linear: "lo_le a b \<or> lo_le b a" "hi_le c d \<or> hi_le d c"
  by (cases a; cases b; auto) (cases c; cases d; auto)

lemma bounds_ok_iff: "bounds_ok l h \<longleftrightarrow> (\<exists>c. lo_ok l c \<and> hi_ok h c)"
proof (cases l; cases h)
  fix a b assume "l = LoFin a" "h = HiFin b"
  then show ?thesis by auto
qed auto

text \<open>A nonempty interval reaches as far down as its lower bound and as far up as its upper bound.\<close>

lemma intervalz_reach:
  assumes "bounds_ok l h"
  shows "lo_ok l c \<Longrightarrow> \<exists>c' \<le> c. lo_ok l c' \<and> hi_ok h c'" and "hi_ok h c \<Longrightarrow> \<exists>c' \<ge> c. lo_ok l c' \<and> hi_ok h c'"
proof -
  obtain d where d: "lo_ok l d" "hi_ok h d" using assms bounds_ok_iff by blast
  show "\<exists>c' \<le> c. lo_ok l c' \<and> hi_ok h c'" if "lo_ok l c"
    using d that by (intro exI [of _ "min c d"]) (cases l; cases h; auto)
  show "\<exists>c' \<ge> c. lo_ok l c' \<and> hi_ok h c'" if "hi_ok h c"
    using d that by (intro exI [of _ "max c d"]) (cases l; cases h; auto)
qed

lemma intervalz_leq_iff: "intervalz_wf s \<Longrightarrow> intervalz_leq s o' \<longleftrightarrow> (\<forall>c. intervalz_gamma s c \<longrightarrow> intervalz_gamma o' c)"
proof
  show "intervalz_leq s o' \<Longrightarrow> \<forall>c. intervalz_gamma s c \<longrightarrow> intervalz_gamma o' c"
    by (auto simp: intervalz_leq_def lo_le_iff hi_le_iff intervalz_gamma_def)
  assume w: "intervalz_wf s" and i: "\<forall>c. intervalz_gamma s c \<longrightarrow> intervalz_gamma o' c"
  have "lo_ok (iz_lo o') c" if c: "lo_ok (iz_lo s) c" for c
  proof -
    obtain c' where "c' \<le> c" "intervalz_gamma s c'" using intervalz_reach(1) [of _ _ c] w c by (auto simp: intervalz_base)
    then show ?thesis using i by (cases "iz_lo o'") (auto simp: intervalz_gamma_def)
  qed
  moreover have "hi_ok (iz_hi o') c" if c: "hi_ok (iz_hi s) c" for c
  proof -
    obtain c' where "c' \<ge> c" "intervalz_gamma s c'" using intervalz_reach(2) [of _ _ c] w c by (auto simp: intervalz_base)
    then show ?thesis using i by (cases "iz_hi o'") (auto simp: intervalz_gamma_def)
  qed
  ultimately show "intervalz_leq s o'" by (simp add: intervalz_leq_def lo_le_iff hi_le_iff)
qed

lemma intervalz_meet_gamma: "bot_gamma intervalz_dom (intervalz_meet s o') c \<longleftrightarrow> intervalz_gamma s c \<and> intervalz_gamma o' c"
proof -
  let ?lo = "if lo_le (iz_lo s) (iz_lo o') then iz_lo o' else iz_lo s" and ?hi = "if hi_le (iz_hi s) (iz_hi o') then iz_hi s else iz_hi o'"
  have "lo_ok ?lo c \<and> hi_ok ?hi c \<longleftrightarrow> intervalz_gamma s c \<and> intervalz_gamma o' c"
    using lo_le_linear(1) [of "iz_lo s" "iz_lo o'"] lo_le_linear(2) [of "iz_hi s" "iz_hi o'"] by (auto simp: intervalz_gamma_def lo_le_iff hi_le_iff)
  then show ?thesis using bounds_ok_iff [of ?lo ?hi] by (auto simp: intervalz_meet_def Let_def intervalz_gamma_def)
qed

lemma intervalz_meet_wf: "bot_wf intervalz_dom (intervalz_meet s o')"
  by (auto simp: intervalz_meet_def Let_def intervalz_wf_def)

lemma intervalz_meet_exact_eq: "intervalz_meet_exact = intervalz_meet"
  by (intro ext) (simp add: intervalz_meet_exact_def intervalz_meet_def)

lemma intervalz_nonempty: "intervalz_wf s \<longleftrightarrow> (\<exists>c. intervalz_gamma s c)"
  by (simp add: intervalz_base bounds_ok_iff)

lemma intervalz_upper:
  "intervalz_gamma s c \<or> intervalz_gamma o' c \<Longrightarrow> intervalz_gamma (intervalz_join s o') c"
  "intervalz_gamma s c \<or> intervalz_gamma o' c \<Longrightarrow> intervalz_gamma (intervalz_widen s o') c"
  using lo_le_linear(1) [of "iz_lo s" "iz_lo o'"] lo_le_linear(2) [of "iz_hi s" "iz_hi o'"]
  by (auto simp: intervalz_gamma_def intervalz_join_def intervalz_widen_def Let_def lo_le_iff hi_le_iff)

lemma intervalz_top_all [simp]: "intervalz_gamma intervalz_top c" "intervalz_wf intervalz_top"
  by (simp_all add: intervalz_base intervalz_top_def)

interpretation iz: canonical_domain intervalz_dom
proof
  fix a b c
  show "dm_leq intervalz_dom a b \<Longrightarrow> dm_gamma intervalz_dom a c \<Longrightarrow> dm_gamma intervalz_dom b c" if "dm_wf intervalz_dom a"
    using intervalz_leq_iff [of a b] that by simp
  show "dm_wf intervalz_dom (dm_join intervalz_dom a b)" "dm_wf intervalz_dom (dm_widen intervalz_dom a b)" if "dm_wf intervalz_dom a"
    using that intervalz_upper [of a _ b] by (auto simp: intervalz_nonempty)
  show "a = b" if w: "dm_wf intervalz_dom a" "dm_wf intervalz_dom b" and e: "\<And>c. dm_gamma intervalz_dom a c = dm_gamma intervalz_dom b c"
    using intervalz_leq_iff [of a b] intervalz_leq_iff [of b a] w e by (auto simp: intervalz_leq_def bounds_antisym intro!: interval_z.equality)
qed (auto simp: intervalz_upper intervalz_meet_gamma intervalz_meet_wf intervalz_nonempty)

section \<open>Its transfers\<close>

lemma intervalz_add_gamma: "intervalz_gamma s x \<Longrightarrow> intervalz_gamma o' y \<Longrightarrow> intervalz_gamma (intervalz_add s o') (x + y)"
  by (auto simp: intervalz_gamma_def intervalz_add_def split: lo_bound.splits hi_bound.splits)

lemma intervalz_neg_gamma: "intervalz_gamma s x \<Longrightarrow> intervalz_gamma (intervalz_neg s) (- x)"
  by (auto simp: intervalz_gamma_def intervalz_neg_def split: lo_bound.splits hi_bound.splits)

lemma intervalz_sub_gamma: "intervalz_gamma s x \<Longrightarrow> intervalz_gamma o' y \<Longrightarrow> intervalz_gamma (intervalz_sub s o') (x - y)"
  using intervalz_add_gamma [of s x "intervalz_neg o'" "- y"] intervalz_neg_gamma [of o' y] by (simp add: intervalz_sub_def)

lemma intervalz_contains_zero_iff: "intervalz_contains_zero s \<longleftrightarrow> intervalz_gamma s 0"
  by (auto simp: intervalz_contains_zero_def intervalz_gamma_def Let_def split: lo_bound.splits hi_bound.splits)

lemma int_sem_sel [simp]:
  "s_zero euclid_sem = 0" "s_is_zero euclid_sem v \<longleftrightarrow> v = 0" "s_zero trunc_sem = 0" "s_is_zero trunc_sem v \<longleftrightarrow> v = 0"
  "s_add euclid_sem = (+)" "s_sub euclid_sem = (-)" "s_neg euclid_sem = uminus" "s_mul euclid_sem = (*)"
  "s_add trunc_sem = (+)" "s_sub trunc_sem = (-)" "s_neg trunc_sem = uminus" "s_mul trunc_sem = (*)"
  "s_div euclid_sem = ediv" "s_rem euclid_sem = erem" "s_div trunc_sem = tdiv" "s_rem trunc_sem = trem"
  by (auto simp: euclid_sem_def trunc_sem_def)

lemma intervalz_div_flag_sound:
  assumes "\<And>v. s_is_zero S v \<longleftrightarrow> v = 0" "s_zero S = 0"
  shows "div_ok intervalz_dom S g a d (intervalz_div_flag d)"
proof -
  have "intervalz_gamma d y \<Longrightarrow> y = 0" if "iz_lo d = LoFin 0" "iz_hi d = HiFin 0" for y
    using that by (simp add: intervalz_gamma_def)
  then show ?thesis
    by (auto simp: div_ok_def intervalz_div_flag_def Let_def assms intervalz_contains_zero_iff split: lo_bound.splits hi_bound.splits if_splits)
qed

lemma intervalz_sound:
  "sound2 intervalz_dom intervalz_add (+)" "sound2 intervalz_dom intervalz_sub (-)" "sound1 intervalz_dom intervalz_neg uminus"
  using intervalz_add_gamma intervalz_sub_gamma intervalz_neg_gamma
  by (auto simp: sound2_def sound1_def intervalz_nonempty) blast+

interpretation iz_ae: arith_transfer intervalz_dom euclid_sem intervalz_arith
  by unfold_locales (simp_all add: intervalz_arith_def intervalz_sound)

interpretation iz_at: arith_transfer intervalz_dom trunc_sem intervalz_arith
  by unfold_locales (simp_all add: intervalz_arith_def intervalz_sound)

interpretation iz_de: divrem_transfer intervalz_dom euclid_sem intervalz_divrem
  by unfold_locales (auto simp: intervalz_divrem_def sound_div_def intervalz_contains_zero_iff intro!: intervalz_div_flag_sound)

interpretation iz_dt: divrem_transfer intervalz_dom trunc_sem intervalz_divrem
  by unfold_locales (auto simp: intervalz_divrem_def sound_div_def intervalz_contains_zero_iff intro!: intervalz_div_flag_sound)

section \<open>\<open>FactsZ\<close>: channel, refinement, transfers\<close>

lemma factsz_sel [simp]:
  "dm_wf factsz_chan = (\<lambda>s. intervalz_wf (fz_itv s))" "dm_gamma factsz_chan = (\<lambda>s. intervalz_gamma (fz_itv s))"
  "dm_wf factsz_refiner = (\<lambda>s. intervalz_wf (fz_itv s))" "dm_gamma factsz_refiner = (\<lambda>s. intervalz_gamma (fz_itv s))"
  "dm_meet factsz_chan = factsz_meet" "ch_pre_wf factsz_chan = (\<lambda>s. intervalz_wf (fz_itv s))" "ch_meet_exact factsz_chan = factsz_meet"
  "ch_normalize factsz_chan = Val" "rf_to_channel factsz_refiner = Val" "rf_refine factsz_refiner = meet_normalize factsz_chan"
  by (auto simp: factsz_chan_def factsz_refiner_def factsz_wf_def factsz_pre_wf_def factsz_reduced_def factsz_gamma_def
      factsz_normalize_def factsz_meet_exact_def factsz_meet_def intervalz_meet_exact_eq intro!: ext)

lemma intervalz_refiner_sel [simp]:
  "dm_wf intervalz_refiner = intervalz_wf" "dm_gamma intervalz_refiner = intervalz_gamma"
  "rf_to_channel intervalz_refiner = intervalz_to_channel" "rf_refine intervalz_refiner = intervalz_refine"
  by (simp_all add: intervalz_refiner_def intervalz_dom_def domain_ops.defs)

lemma factsz_meet_map: "factsz_meet s o' = map_bot_or (\<lambda>u. \<lparr>fz_itv = u\<rparr>) (intervalz_meet (fz_itv s) (fz_itv o'))"
  by (auto simp: factsz_meet_def split: bot_or.splits)

lemma factsz_wraps:
  "wraps factsz_chan intervalz_dom fz_itv (\<lambda>u. \<lparr>fz_itv = u\<rparr>)" "wraps factsz_refiner intervalz_dom fz_itv (\<lambda>u. \<lparr>fz_itv = u\<rparr>)"
  "wraps intervalz_refiner intervalz_dom id id"
  by (auto simp: wraps_def factsz_chan_def factsz_refiner_def intervalz_refiner_def intervalz_dom_def domain_ops.defs factsz_wf_def
      factsz_pre_wf_def factsz_reduced_def factsz_gamma_def factsz_top_def factsz_leq_def factsz_join_def factsz_widen_def
      factsz_meet_map bot_or.map_id intro!: ext)

lemma factsz_bot_iff:
  "bot_wf factsz_chan (factsz_meet s o')" "bot_gamma factsz_chan (factsz_meet s o') c \<longleftrightarrow> intervalz_gamma (fz_itv s) c \<and> intervalz_gamma (fz_itv o') c"
  "bot_wf factsz_refiner (factsz_meet s o')" "bot_gamma factsz_refiner (factsz_meet s o') c \<longleftrightarrow> intervalz_gamma (fz_itv s) c \<and> intervalz_gamma (fz_itv o') c"
  "bot_wf intervalz_refiner (intervalz_meet a b)" "bot_gamma intervalz_refiner (intervalz_meet a b) c \<longleftrightarrow> intervalz_gamma a c \<and> intervalz_gamma b c"
  using wraps_bot [OF factsz_wraps(3), of "intervalz_meet a b"]
  by (simp_all add: wraps_bot [OF factsz_wraps(1)] wraps_bot [OF factsz_wraps(2)] factsz_meet_map intervalz_meet_wf intervalz_meet_gamma bot_or.map_id)

interpretation fz_c: channel factsz_chan
proof (intro channel.intro wraps_canonical [OF iz.canonical_domain_axioms factsz_wraps(1)], unfold_locales)
  show "ch_meet_exact factsz_chan f g = Val m \<Longrightarrow> ch_pre_wf factsz_chan m" for f g m
    using factsz_bot_iff(1) [of f g] by simp
qed (simp_all add: factsz_bot_iff)

lemma meet_normalize_factsz: "meet_normalize factsz_chan f g = factsz_meet f g"
  by (cases "factsz_meet f g") (simp_all add: meet_normalize_def)

interpretation fz_r: refiner factsz_refiner factsz_chan
  by (intro refiner.intro canonical_domain.axioms(1) wraps_canonical [OF iz.canonical_domain_axioms factsz_wraps(2)]
      fz_c.channel_axioms, unfold_locales) (auto simp: meet_normalize_factsz factsz_bot_iff)

interpretation iz_r: refiner intervalz_refiner factsz_chan
  by (intro refiner.intro canonical_domain.axioms(1) wraps_canonical [OF iz.canonical_domain_axioms factsz_wraps(3)]
      fz_c.channel_axioms, unfold_locales)
    (auto simp: intervalz_to_channel_def intervalz_refine_def factsz_from_interval_def factsz_interval_def intervalz_meet_exact_eq factsz_bot_iff)

lemma factsz_lift_eq: "factsz_lift u = \<lparr>fz_itv = u\<rparr>"
  by (simp add: factsz_lift_def factsz_normalize_def factsz_from_interval_def)

lemma factsz_lift_div_eq: "factsz_lift_div q = (map_bot_or (\<lambda>u. \<lparr>fz_itv = u\<rparr>) (fst q), snd q)"
  by (auto simp: factsz_lift_div_def factsz_lift_eq split: bot_or.splits)

lemma factsz_arith_sound:
  assumes "s_add S = (+)" "s_sub S = (-)" "s_neg S = uminus"
  shows "arith_transfer factsz_refiner S factsz_arith"
  using intervalz_sound
  by unfold_locales (simp_all add: assms factsz_arith_def sound2_def sound1_def factsz_lift_eq factsz_interval_def)

lemma factsz_divrem_sound:
  assumes "divrem_transfer intervalz_dom S intervalz_divrem"
  shows "divrem_transfer factsz_refiner S factsz_divrem"
proof -
  have "map_bot_or (\<lambda>u. \<lparr>fz_itv = u\<rparr>) x = Bot \<longleftrightarrow> x = Bot" for x by (cases x) auto
  then show ?thesis
    using divrem_transfer.div [OF assms] divrem_transfer.rem [OF assms] divrem_transfer.contains_zero [OF assms]
    by unfold_locales
      (simp_all add: factsz_divrem_def sound_div_def div_ok_def factsz_lift_div_eq factsz_interval_def wraps_bot [OF factsz_wraps(2)],
        simp add: intervalz_divrem_def)
qed

interpretation fz_ae: arith_transfer factsz_refiner euclid_sem factsz_arith
  by (rule factsz_arith_sound) simp_all

interpretation fz_at: arith_transfer factsz_refiner trunc_sem factsz_arith
  by (rule factsz_arith_sound) simp_all

interpretation fz_de: divrem_transfer factsz_refiner euclid_sem factsz_divrem
  by (rule factsz_divrem_sound [OF iz_de.divrem_transfer_axioms])

interpretation fz_dt: divrem_transfer factsz_refiner trunc_sem factsz_divrem
  by (rule factsz_divrem_sound [OF iz_dt.divrem_transfer_axioms])

interpretation fz_cm: compare_transfer factsz_refiner S factsz_compare for S
  by unfold_locales (simp_all add: factsz_compare_def sound_cmp_def sound_assume_def assume_ok_def)

section \<open>\<open>Sign\<close> is canonical and refines\<close>

abbreviation sign_has :: "bool \<times> bool \<times> bool \<Rightarrow> int \<Rightarrow> bool" where
  "sign_has k x \<equiv> (x < 0 \<and> fst k) \<or> (x = 0 \<and> fst (snd k)) \<or> (x > 0 \<and> snd (snd k))"

lemma sign_gamma_iff: "sign_gamma s x \<longleftrightarrow> sign_has (categories (sg_kind s)) x"
  by (cases "sg_kind s") (auto simp: sign_gamma_def)

lemma sign_sel [simp]:
  "dm_wf sign_refiner = (\<lambda>_. True)" "dm_gamma sign_refiner = sign_gamma" "dm_top sign_refiner = sign_top" "dm_leq sign_refiner = sign_leq"
  "dm_join sign_refiner = sign_join" "dm_meet sign_refiner = sign_meet" "dm_widen sign_refiner = sign_widen"
  "rf_to_channel sign_refiner = sign_to_channel" "rf_refine sign_refiner = sign_refine"
  by (simp_all add: sign_refiner_def)

lemma sign_bot_wf [simp]: "bot_wf sign_refiner x"
  by (cases x) auto

lemma sign_build_gamma: "bot_gamma sign_refiner (sign_build n z p) x \<longleftrightarrow> sign_has (n, z, p) x"
  by (auto simp: sign_build_def sign_from_kind_def sign_gamma_def)

lemma sign_build_Bot: "sign_build n z p = Bot \<longleftrightarrow> \<not> n \<and> \<not> z \<and> \<not> p"
  by (auto simp: sign_build_def)

lemma sign_nonempty_gamma: "n \<or> z \<or> p \<Longrightarrow> sign_gamma (sign_nonempty n z p) x \<longleftrightarrow> sign_has (n, z, p) x"
  using sign_build_gamma [of n z p x] sign_build_Bot [of n z p] by (cases "sign_build n z p") (auto simp: sign_nonempty_def)

lemma categories_some: "fst (categories k) \<or> fst (snd (categories k)) \<or> snd (snd (categories k))"
  by (cases k) auto

lemma sign_join_gamma: "sign_gamma (sign_join s o') x \<longleftrightarrow> sign_gamma s x \<or> sign_gamma o' x"
proof -
  obtain n z p nn zz pp where c: "categories (sg_kind s) = (n, z, p)" "categories (sg_kind o') = (nn, zz, pp)" by (metis prod_cases3)
  have "sign_join s o' = sign_nonempty (n \<or> nn) (z \<or> zz) (p \<or> pp)" using c by (simp add: sign_join_def sign_nonempty_def)
  then show ?thesis
    using sign_nonempty_gamma [of "n \<or> nn" "z \<or> zz" "p \<or> pp" x] categories_some [of "sg_kind s"] c by (auto simp: sign_gamma_iff)
qed

lemma sign_meet_gamma: "bot_gamma sign_refiner (sign_meet s o') x \<longleftrightarrow> sign_gamma s x \<and> sign_gamma o' x"
  by (auto simp: sign_meet_def sign_build_gamma sign_gamma_iff split: prod.splits)

lemma sign_three: "(\<forall>x. sign_has k x \<longrightarrow> sign_has l x) \<longleftrightarrow> (\<forall>x \<in> {- 1, 0, 1}. sign_has k x \<longrightarrow> sign_has l x)"
proof
  show "\<forall>x. sign_has k x \<longrightarrow> sign_has l x \<Longrightarrow> \<forall>x \<in> {- 1, 0, 1}. sign_has k x \<longrightarrow> sign_has l x" by (intro ballI) (erule spec)
qed auto

lemma sign_leq_iff: "sign_leq s o' \<longleftrightarrow> (\<forall>x. sign_gamma s x \<longrightarrow> sign_gamma o' x)"
  unfolding sign_gamma_iff sign_three by (auto simp: sign_leq_def split: prod.splits)

lemma sign_categories_inj: "categories k = categories l \<Longrightarrow> k = l"
  by (cases k; cases l) auto

lemma sign_eqI: "(\<And>x. sign_gamma s x = sign_gamma o' x) \<Longrightarrow> s = o'"
proof -
  assume e: "\<And>x. sign_gamma s x = sign_gamma o' x"
  have "categories (sg_kind s) = categories (sg_kind o')"
    using e [of "- 1"] e [of 0] e [of 1] by (auto simp: sign_gamma_iff prod_eq_iff)
  then show ?thesis by (auto intro!: sign.equality sign_categories_inj)
qed

lemma sign_possibilities_sound: "intervalz_gamma i x \<Longrightarrow> sign_has (sign_possibilities i) x"
  by (auto simp: sign_possibilities_def Let_def intervalz_gamma_def split: lo_bound.splits hi_bound.splits)

lemma sign_hull_sound: "sign_gamma s x \<Longrightarrow> intervalz_gamma (sign_interval_hull s) x"
  by (cases "sg_kind s") (auto simp: sign_interval_hull_def intervalz_new_def sign_gamma_def intervalz_gamma_def intervalz_top_def)

lemma sign_hull_wf: "intervalz_wf (sign_interval_hull s)"
  by (cases "sg_kind s") (auto simp: sign_interval_hull_def intervalz_new_def intervalz_wf_def)

lemma sign_refine_gamma:
  "bot_gamma sign_refiner (sign_refine s f) x \<longleftrightarrow> sign_gamma s x \<and> sign_has (sign_possibilities (factsz_interval f)) x"
  by (auto simp: sign_refine_def sign_build_gamma sign_gamma_iff split: prod.splits)

interpretation sg: canonical_domain sign_refiner
proof
  show "\<exists>c. dm_gamma sign_refiner a c" for a
  proof -
    have "sign_gamma a (- 1) \<or> sign_gamma a 0 \<or> sign_gamma a 1" using categories_some [of "sg_kind a"] by (auto simp: sign_gamma_iff)
    then show ?thesis by auto
  qed
  show "a = b" if "\<And>c. dm_gamma sign_refiner a c = dm_gamma sign_refiner b c" for a b
    using that by (intro sign_eqI) simp
qed (auto simp: sign_top_def sign_from_kind_def sign_gamma_def [of "\<lparr>sg_kind = STop\<rparr>"] sign_leq_iff sign_join_gamma sign_meet_gamma sign_widen_def)

interpretation sg_r: refiner sign_refiner factsz_chan
  by unfold_locales
    (auto simp: sign_to_channel_def factsz_from_interval_def sign_hull_wf sign_hull_sound sign_refine_gamma factsz_interval_def
      dest: sign_possibilities_sound)

subsection \<open>Its transfers\<close>

lemma sign_neg_gamma: "sign_gamma s x \<Longrightarrow> sign_gamma (sign_neg_int s) (- x)"
proof -
  obtain n z p where c: "categories (sg_kind s) = (n, z, p)" by (metis prod_cases3)
  then show "sign_gamma s x \<Longrightarrow> ?thesis"
    using sign_nonempty_gamma [of p z n "- x"] categories_some [of "sg_kind s"] by (auto simp: sign_neg_int_def sign_gamma_iff)
qed

text \<open>A binary operation given by its sign table is sound when the table covers every pair of signs.\<close>

lemma sign_table_sound:
  assumes "sign_gamma s x" "sign_gamma o' y" and t: "\<And>n z p nn zz pp. categories (sg_kind s) = (n, z, p) \<Longrightarrow> categories (sg_kind o') = (nn, zz, pp) \<Longrightarrow>
      r = sign_nonempty (a n z p nn zz pp) (b n z p nn zz pp) (c n z p nn zz pp) \<and>
      (sign_has (n, z, p) x \<longrightarrow> sign_has (nn, zz, pp) y \<longrightarrow> sign_has (a n z p nn zz pp, b n z p nn zz pp, c n z p nn zz pp) v)"
  shows "sign_gamma r v"
proof -
  obtain n z p nn zz pp where k: "categories (sg_kind s) = (n, z, p)" "categories (sg_kind o') = (nn, zz, pp)" by (metis prod_cases3)
  have "sign_has (n, z, p) x" "sign_has (nn, zz, pp) y" using assms(1,2) k by (simp_all add: sign_gamma_iff)
  then have h: "sign_has (a n z p nn zz pp, b n z p nn zz pp, c n z p nn zz pp) v" using t [OF k] by blast
  then have "a n z p nn zz pp \<or> b n z p nn zz pp \<or> c n z p nn zz pp" by auto
  with sign_nonempty_gamma [OF this, of v] h t [OF k] show ?thesis by blast
qed

lemma sign_add_gamma: "sign_gamma s x \<Longrightarrow> sign_gamma o' y \<Longrightarrow> sign_gamma (sign_add_int s o') (x + y)"
  by (erule (1) sign_table_sound) (auto simp: sign_add_int_def)

lemma sign_sub_gamma: "sign_gamma s x \<Longrightarrow> sign_gamma o' y \<Longrightarrow> sign_gamma (sign_sub_int s o') (x - y)"
  using sign_add_gamma [of s x "sign_neg_int o'" "- y"] sign_neg_gamma [of o' y] by (simp add: sign_sub_int_def)

lemma sign_mul_gamma: "sign_gamma s x \<Longrightarrow> sign_gamma o' y \<Longrightarrow> sign_gamma (sign_mul_int s o') (x * y)"
  by (erule (1) sign_table_sound) (auto simp: sign_mul_int_def mult_less_0_iff zero_less_mult_iff)

lemma ediv_sign:
  assumes "y \<noteq> 0"
  shows "x = 0 \<Longrightarrow> ediv x y = 0" "x < 0 \<Longrightarrow> y > 0 \<Longrightarrow> ediv x y < 0" "x < 0 \<Longrightarrow> y < 0 \<Longrightarrow> ediv x y > 0"
    "x > 0 \<Longrightarrow> y > 0 \<Longrightarrow> ediv x y \<ge> 0" "x > 0 \<Longrightarrow> y < 0 \<Longrightarrow> ediv x y \<le> 0"
  using assms neg_imp_zdiv_neg_iff [of y x] neg_imp_zdiv_neg_iff [of "- y" x] pos_imp_zdiv_neg_iff [of y x] pos_imp_zdiv_neg_iff [of "- y" x]
    pos_imp_zdiv_nonneg_iff [of y x] pos_imp_zdiv_nonneg_iff [of "- y" x]
  by (auto simp: ediv_def simp del: div_minus_right)

lemma tdiv_sign:
  assumes "y \<noteq> 0"
  shows "x = 0 \<Longrightarrow> tdiv x y = 0" "x < 0 \<Longrightarrow> y > 0 \<Longrightarrow> tdiv x y \<le> 0" "x < 0 \<Longrightarrow> y < 0 \<Longrightarrow> tdiv x y \<ge> 0"
    "x > 0 \<Longrightarrow> y > 0 \<Longrightarrow> tdiv x y \<ge> 0" "x > 0 \<Longrightarrow> y < 0 \<Longrightarrow> tdiv x y \<le> 0"
proof -
  have "0 \<le> iabs x div iabs y" using assms by (simp add: pos_imp_zdiv_nonneg_iff iabs_def)
  then show "x = 0 \<Longrightarrow> tdiv x y = 0" "x < 0 \<Longrightarrow> y > 0 \<Longrightarrow> tdiv x y \<le> 0" "x < 0 \<Longrightarrow> y < 0 \<Longrightarrow> tdiv x y \<ge> 0"
    "x > 0 \<Longrightarrow> y > 0 \<Longrightarrow> tdiv x y \<ge> 0" "x > 0 \<Longrightarrow> y < 0 \<Longrightarrow> tdiv x y \<le> 0"
    unfolding tdiv_def Let_def by (auto simp: iabs_def [of 0])
qed

lemma trem_sign: "y \<noteq> 0 \<Longrightarrow> x < 0 \<Longrightarrow> trem x y \<le> 0" "y \<noteq> 0 \<Longrightarrow> x \<ge> 0 \<Longrightarrow> trem x y \<ge> 0" "trem 0 y = 0"
  using pos_mod_sign [of "iabs y" "iabs x"] by (auto simp: trem_eq iabs_def [of y] iabs_def [of 0] simp del: mod_minus_right)

text \<open>A zero divisor; and a divisor with a nonzero member, where the flag is right and only the quotient matters.\<close>

lemma sign_div_zero:
  assumes "\<And>v. s_is_zero S v \<longleftrightarrow> v = 0" and "sg_kind d = SZero"
  shows "div_ok sign_refiner S g s d (Bot, DzAlways)"
  using assms by (simp add: div_ok_def sign_gamma_def)

lemma sign_divI:
  assumes S: "\<And>v. s_is_zero S v \<longleftrightarrow> v = 0" "s_zero S = 0" and "sg_kind d \<noteq> SZero"
    and "\<And>x y. sign_gamma s x \<Longrightarrow> sign_gamma d y \<Longrightarrow> y \<noteq> 0 \<Longrightarrow> sign_gamma q (g x y)"
  shows "div_ok sign_refiner S g s d (Val q, sign_div_flag d)"
  using assms by (cases "sg_kind d") (auto simp: div_ok_def sign_div_flag_def sign_gamma_def [of d])

lemma sign_zero_or: "(sg_kind d = SZero \<Longrightarrow> r = (Bot, DzAlways)) \<Longrightarrow> (sg_kind d \<noteq> SZero \<Longrightarrow> div_ok sign_refiner S g s d r) \<Longrightarrow>
    (\<And>v. s_is_zero S v \<longleftrightarrow> v = 0) \<Longrightarrow> div_ok sign_refiner S g s d r"
  using sign_div_zero [of S d g s] by (cases "sg_kind d = SZero") auto

lemma sign_euclid_sound: "div_ok sign_refiner euclid_sem ediv s d (sign_euclid_div s d)" "div_ok sign_refiner euclid_sem erem s d (sign_euclid_rem s d)"
proof -
  show "div_ok sign_refiner euclid_sem ediv s d (sign_euclid_div s d)"
  proof (rule sign_zero_or)
    assume z: "sg_kind d \<noteq> SZero"
    obtain xn xz xp dn dz dp where c: "categories (sg_kind s) = (xn, xz, xp)" "categories (sg_kind d) = (dn, dz, dp)" by (metis prod_cases3)
    have "sign_euclid_div s d = (Val (sign_nonempty ((xn \<and> dp) \<or> (xp \<and> dn)) (xz \<or> xp) ((xn \<and> dn) \<or> (xp \<and> dp))), sign_div_flag d)" (is "_ = (Val ?q, _)")
      using z c by (cases "sg_kind d") (auto simp: sign_euclid_div_def)
    moreover have "sign_gamma ?q (ediv x y)" if "sign_gamma s x" "sign_gamma d y" "y \<noteq> 0" for x y
      using that ediv_sign [OF that(3), of x] c
      by (subst sign_nonempty_gamma) (auto simp: sign_gamma_iff not_less_iff_gr_or_eq)
    ultimately show "div_ok sign_refiner euclid_sem ediv s d (sign_euclid_div s d)" using z by (simp add: sign_divI)
  qed (simp_all add: sign_euclid_div_def)
  show "div_ok sign_refiner euclid_sem erem s d (sign_euclid_rem s d)"
  proof (rule sign_zero_or)
    assume z: "sg_kind d \<noteq> SZero"
    have "sign_euclid_rem s d = (Val (sign_from_kind (if sg_kind s = SZero then SZero else SPosOrZero)), sign_div_flag d)" (is "_ = (Val ?q, _)")
      using z by (cases "sg_kind d"; cases "sg_kind s") (auto simp: sign_euclid_rem_def)
    moreover have "sign_gamma ?q (erem x y)" if "sign_gamma s x" "sign_gamma d y" "y \<noteq> 0" for x y
      using that ediv_erem [OF that(3), of x] by (auto simp: sign_gamma_def sign_from_kind_def erem_def)
    ultimately show "div_ok sign_refiner euclid_sem erem s d (sign_euclid_rem s d)" using z by (simp add: sign_divI)
  qed (simp_all add: sign_euclid_rem_def)
qed

lemma sign_trunc_sound: "div_ok sign_refiner trunc_sem tdiv s d (sign_trunc_div s d)" "div_ok sign_refiner trunc_sem trem s d (sign_trunc_rem s d)"
proof -
  obtain xn xz xp dn dz dp where c: "categories (sg_kind s) = (xn, xz, xp)" "categories (sg_kind d) = (dn, dz, dp)" by (metis prod_cases3)
  show "div_ok sign_refiner trunc_sem tdiv s d (sign_trunc_div s d)"
  proof (rule sign_zero_or)
    assume z: "sg_kind d \<noteq> SZero"
    let ?n = "(xn \<and> dp) \<or> (xp \<and> dn)" and ?z = "xz \<or> ((xn \<or> xp) \<and> (dn \<or> dp))" and ?p = "(xn \<and> dn) \<or> (xp \<and> dp)"
    have "?n \<or> ?z \<or> ?p" using z c categories_some [of "sg_kind s"] by (cases "sg_kind d") auto
    then have "sign_build ?n ?z ?p = Val (sign_nonempty ?n ?z ?p)"
      using sign_build_Bot [of ?n ?z ?p] by (cases "sign_build ?n ?z ?p") (auto simp: sign_nonempty_def)
    then have "sign_trunc_div s d = (Val (sign_nonempty ?n ?z ?p), sign_div_flag d)" (is "_ = (Val ?q, _)")
      using z c by (cases "sg_kind d") (auto simp: sign_trunc_div_def)
    moreover have "sign_gamma ?q (tdiv x y)" if "sign_gamma s x" "sign_gamma d y" "y \<noteq> 0" for x y
      using that tdiv_sign [OF that(3), of x] c
      by (subst sign_nonempty_gamma) (auto simp: sign_gamma_iff not_less_iff_gr_or_eq)
    ultimately show "div_ok sign_refiner trunc_sem tdiv s d (sign_trunc_div s d)" using z by (simp add: sign_divI)
  qed (simp_all add: sign_trunc_div_def)
  show "div_ok sign_refiner trunc_sem trem s d (sign_trunc_rem s d)"
  proof (rule sign_zero_or)
    assume z: "sg_kind d \<noteq> SZero"
    have "sign_trunc_rem s d = (Val (sign_nonempty xn True xp), sign_div_flag d)" (is "_ = (Val ?q, _)")
      using z c by (cases "sg_kind d") (auto simp: sign_trunc_rem_def)
    moreover have "sign_gamma ?q (trem x y)" if "sign_gamma s x" "sign_gamma d y" "y \<noteq> 0" for x y
      using that trem_sign(1,2) [OF that(3), of x] trem_sign(3) [of y] c
      by (subst sign_nonempty_gamma) (auto simp: sign_gamma_iff not_less_iff_gr_or_eq)
    ultimately show "div_ok sign_refiner trunc_sem trem s d (sign_trunc_rem s d)" using z by (simp add: sign_divI)
  qed (simp_all add: sign_trunc_rem_def)
qed

lemma sign_contains_zero_iff: "sign_contains_zero s \<longleftrightarrow> sign_gamma s 0"
  by (cases "sg_kind s") (auto simp: sign_contains_zero_def sign_gamma_def)

lemma sign_arith_sound:
  "sound2 sign_refiner sign_add_int (+)" "sound2 sign_refiner sign_sub_int (-)" "sound1 sign_refiner sign_neg_int uminus"
  "sound2 sign_refiner sign_mul_int (*)"
  by (simp_all add: sound2_def sound1_def sign_add_gamma sign_sub_gamma sign_neg_gamma sign_mul_gamma)

interpretation sg_ae: arith_transfer sign_refiner euclid_sem sign_arith
  by unfold_locales (simp_all add: sign_arith_def sign_arith_sound)

interpretation sg_at: arith_transfer sign_refiner trunc_sem sign_arith
  by unfold_locales (simp_all add: sign_arith_def sign_arith_sound)

interpretation sg_me: mul_transfer sign_refiner euclid_sem sign_mul_int
  by unfold_locales (simp add: sign_arith_sound)

interpretation sg_mt: mul_transfer sign_refiner trunc_sem sign_mul_int
  by unfold_locales (simp add: sign_arith_sound)

interpretation sg_de: divrem_transfer sign_refiner euclid_sem sign_euclid
  by unfold_locales (simp_all add: sign_euclid_def sound_div_def sign_euclid_sound sign_contains_zero_iff)

interpretation sg_dt: divrem_transfer sign_refiner trunc_sem sign_trunc
  by unfold_locales (simp_all add: sign_trunc_def sound_div_def sign_trunc_sound sign_contains_zero_iff)

section \<open>The reduced product of signs and intervals\<close>

interpretation sg_iz: product_domain sign_refiner intervalz_refiner factsz_chan
  by unfold_locales

interpretation sg_fz: product_domain sign_refiner factsz_refiner factsz_chan
  by unfold_locales

interpretation sg_iz_fz: product_domain "prod_refiner factsz_chan sign_refiner intervalz_refiner" factsz_refiner factsz_chan
  by unfold_locales

section \<open>Properties\<close>

text \<open>
  C35: reduction changes the representation and never the meaning.  For every amount of fuel the reduced
  product of a sign and an interval denotes exactly the integers of the original, and is \<open>Bot\<close> only
  when there are none.
\<close>

theorem reduce_preserves_meaning:
  assumes "intervalz_wf (pr_b p)"
  shows "case reduce factsz_chan sign_refiner intervalz_refiner p fuel of
      Bot \<Rightarrow> \<forall>c. \<not> prod_gamma sign_refiner intervalz_refiner p c
    | Val q \<Rightarrow> intervalz_wf (pr_b q) \<and>
        (\<forall>c. prod_gamma sign_refiner intervalz_refiner q c = prod_gamma sign_refiner intervalz_refiner p c)"
  using sg_iz.reduce_exact [of p fuel] assms
  by (cases "reduce factsz_chan sign_refiner intervalz_refiner p fuel") (simp_all add: prod_gamma_def)

theorem reduce_preserves_meaning_witness:
  defines "p \<equiv> \<lparr>pr_a = sign_from_kind SNeg, pr_b = \<lparr>iz_lo = LoFin (- 5), iz_hi = HiFin 7\<rparr>\<rparr>"
    and "q \<equiv> \<lparr>pr_a = sign_from_kind SNeg, pr_b = \<lparr>iz_lo = LoFin (- 5), iz_hi = HiFin (- 1)\<rparr>\<rparr>"
  shows "reduce factsz_chan sign_refiner intervalz_refiner p REDUCE_FUEL = Val q \<and>
    (\<forall>c. prod_gamma sign_refiner intervalz_refiner q c = prod_gamma sign_refiner intervalz_refiner p c)"
proof -
  have r: "reduce factsz_chan sign_refiner intervalz_refiner p REDUCE_FUEL = Val q" unfolding p_def q_def by code_simp
  have w: "intervalz_wf (pr_b p)" by (simp add: p_def intervalz_wf_def)
  from reduce_preserves_meaning [OF w, of REDUCE_FUEL] show ?thesis by (simp add: r)
qed

definition finite_bounds :: "interval_z \<Rightarrow> nat" where
  "finite_bounds s = (if iz_lo s = NegInf then 0 else 1) + (if iz_hi s = PosInf then 0 else 1)"

lemma widen_fewer_bounds: "intervalz_widen s o' \<noteq> s \<Longrightarrow> finite_bounds (intervalz_widen s o') < finite_bounds s"
  by (cases "iz_lo s"; cases "iz_hi s"; cases s) (auto simp: intervalz_widen_def finite_bounds_def Let_def split: if_splits)

text \<open>
  C40: widening over unbounded integers stabilises.  However the new iterates \<open>Y\<close> grow, a sequence of
  \<open>IntervalZ\<close> widenings changes at most twice.
\<close>

theorem intervalz_widening_stabilises:
  assumes "\<And>i. X (Suc i) = intervalz_widen (X i) (Y i)"
  shows "card {i. i < n \<and> X (Suc i) \<noteq> X i} \<le> 2"
proof -
  have "card {i. i < n \<and> X (Suc i) \<noteq> X i} + finite_bounds (X n) \<le> finite_bounds (X 0)"
    by (rule changes_bounded) (metis assms widen_fewer_bounds)
  moreover have "finite_bounds (X 0) \<le> 2" by (simp add: finite_bounds_def)
  ultimately show ?thesis by linarith
qed

theorem intervalz_widening_stabilises_witness:
  "\<exists>X. (\<forall>i. X (Suc i) = intervalz_widen (X i) (intervalz_constant (int i))) \<and> X 0 = intervalz_constant 0 \<and>
    card {i. i < 100 \<and> X (Suc i) \<noteq> X i} \<le> 2"
proof -
  define X where "X = rec_nat (intervalz_constant 0) (\<lambda>i s. intervalz_widen s (intervalz_constant (int i)))"
  have s: "X (Suc i) = intervalz_widen (X i) (intervalz_constant (int i))" for i by (simp add: X_def)
  moreover have "X 0 = intervalz_constant 0" by (simp add: X_def)
  ultimately show ?thesis using intervalz_widening_stabilises [of X "\<lambda>i. intervalz_constant (int i)" 100] by blast
qed

text \<open>
  \<open>IntervalZ\<close> is a canonical domain with an exact order and an exact meet: \<open>leq\<close> decides inclusion,
  \<open>meet\<close> is the intersection, and two well-formed values with the same members are the same value.
\<close>

theorem intervalz_exact:
  assumes "intervalz_wf a" and "intervalz_wf b"
  shows "intervalz_leq a b = (\<forall>c. intervalz_gamma a c \<longrightarrow> intervalz_gamma b c) \<and>
    (a = b) = (\<forall>c. intervalz_gamma a c = intervalz_gamma b c) \<and>
    (case intervalz_meet a b of
       Bot \<Rightarrow> \<forall>c. \<not> (intervalz_gamma a c \<and> intervalz_gamma b c)
     | Val m \<Rightarrow> intervalz_wf m \<and> (\<forall>c. intervalz_gamma m c = (intervalz_gamma a c \<and> intervalz_gamma b c)))"
proof (intro conjI)
  show "intervalz_leq a b = (\<forall>c. intervalz_gamma a c \<longrightarrow> intervalz_gamma b c)" by (rule intervalz_leq_iff [OF assms(1)])
  show "(a = b) = (\<forall>c. intervalz_gamma a c = intervalz_gamma b c)" using iz.canonical [of a b] assms by auto
  show "case intervalz_meet a b of
       Bot \<Rightarrow> \<forall>c. \<not> (intervalz_gamma a c \<and> intervalz_gamma b c)
     | Val m \<Rightarrow> intervalz_wf m \<and> (\<forall>c. intervalz_gamma m c = (intervalz_gamma a c \<and> intervalz_gamma b c))"
    using intervalz_meet_gamma [of a b] intervalz_meet_wf [of a b] by (cases "intervalz_meet a b") simp_all
qed

theorem intervalz_exact_witness:
  "intervalz_meet \<lparr>iz_lo = LoFin 3, iz_hi = PosInf\<rparr> \<lparr>iz_lo = NegInf, iz_hi = HiFin 5\<rparr> = Val \<lparr>iz_lo = LoFin 3, iz_hi = HiFin 5\<rparr> \<and>
    (\<forall>c. intervalz_gamma \<lparr>iz_lo = LoFin 3, iz_hi = HiFin 5\<rparr> c =
      (intervalz_gamma \<lparr>iz_lo = LoFin 3, iz_hi = PosInf\<rparr> c \<and> intervalz_gamma \<lparr>iz_lo = NegInf, iz_hi = HiFin 5\<rparr> c))"
proof -
  let ?a = "\<lparr>iz_lo = LoFin 3, iz_hi = PosInf\<rparr>" and ?b = "\<lparr>iz_lo = NegInf, iz_hi = HiFin 5\<rparr>"
  have m: "intervalz_meet ?a ?b = Val \<lparr>iz_lo = LoFin 3, iz_hi = HiFin 5\<rparr>" by code_simp
  have w: "intervalz_wf ?a" "intervalz_wf ?b" by (simp_all add: intervalz_wf_def)
  from intervalz_exact [OF w, THEN conjunct2, THEN conjunct2] show ?thesis by (simp add: m)
qed

text \<open>
  Signs divide soundly under both readings of integer division.  For a nonzero divisor the quotient
  and the remainder lie in the computed signs, \<open>Never\<close> is answered only when zero is excluded, and
  \<open>Bot\<close> exactly when every divisor is zero.
\<close>

theorem sign_division_sound:
  "div_ok sign_refiner euclid_sem ediv s d (sign_euclid_div s d) \<and> div_ok sign_refiner euclid_sem erem s d (sign_euclid_rem s d) \<and>
   div_ok sign_refiner trunc_sem tdiv s d (sign_trunc_div s d) \<and> div_ok sign_refiner trunc_sem trem s d (sign_trunc_rem s d)"
  using sign_euclid_sound sign_trunc_sound by blast

text \<open>
  \<open>join\<close> of signs is exact union, \<open>meet\<close> exact intersection, and each sum, difference and product of
  members is a member of the corresponding abstract result.
\<close>

theorem sign_operations_exact:
  "sign_gamma (sign_join s o') x = (sign_gamma s x \<or> sign_gamma o' x) \<and>
   bot_gamma sign_refiner (sign_meet s o') x = (sign_gamma s x \<and> sign_gamma o' x) \<and>
   (sign_gamma s x \<and> sign_gamma o' y \<longrightarrow>
     sign_gamma (sign_add_int s o') (x + y) \<and> sign_gamma (sign_sub_int s o') (x - y) \<and> sign_gamma (sign_mul_int s o') (x * y) \<and>
     sign_gamma (sign_neg_int s) (- x))"
  by (simp add: sign_join_gamma sign_meet_gamma sign_add_gamma sign_sub_gamma sign_mul_gamma sign_neg_gamma)

theorem sign_operations_exact_witness:
  "sign_gamma (sign_mul_int (sign_from_kind SNeg) (sign_from_kind SPos)) (- 6)"
  using sign_operations_exact [of "sign_from_kind SNeg" "sign_from_kind SPos" "- 2" 3] by (simp add: sign_gamma_def sign_from_kind_def)

end
