(* ===== verification/Abs_Word.thy ===== *)
theory Abs_Word
  imports "HOL-Library.Word"
begin

text \<open>
  The trait \<open>Word\<close> of \<open>abstract-domains/src/word.rs\<close> on words of any width: the native implementations
  that \<open>impl_word!\<close> generates, and their readings as integers.  \<open>zero\<close>, \<open>one\<close>, \<open>le\<close>, \<open>lt\<close>, \<open>eq\<close>,
  \<open>udiv\<close> and \<open>urem\<close> are the operations of the word type.
\<close>

definition w_max :: "'w::len word" where
  "w_max = - 1"

definition w_checked_add :: "'w::len word \<Rightarrow> 'w word \<Rightarrow> 'w word option" where
  "w_checked_add s o' = (if s \<le> w_max - o' then Some (s + o') else None)"

definition w_checked_sub :: "'w::len word \<Rightarrow> 'w word \<Rightarrow> 'w word option" where
  "w_checked_sub s o' = (if o' \<le> s then Some (s - o') else None)"

definition neg_nonzero :: "'w::len word \<Rightarrow> 'w word" where
  "neg_nonzero s = w_max - (s - 1)"

definition half :: "'w::len word" where
  "half = w_max div 2 + 1"

definition wrapping_add :: "'w::len word \<Rightarrow> 'w word \<Rightarrow> 'w word" where
  "wrapping_add s o' = (if s \<le> w_max - o' then s + o' else s - (w_max - o') - 1)"

definition wrapping_sub :: "'w::len word \<Rightarrow> 'w word \<Rightarrow> 'w word" where
  "wrapping_sub s o' = (if o' \<le> s then s - o' else w_max - (o' - s - 1))"

text \<open>\<open>checked_mul\<close> is the one of \<open>std\<close>: \<open>None\<close> exactly when the product overflows.\<close>

definition w_checked_mul :: "'w::len word \<Rightarrow> 'w word \<Rightarrow> 'w word option" where
  "w_checked_mul s o' = (if uint s * uint o' < 2 ^ LENGTH('w) then Some (s * o') else None)"

section \<open>Readings\<close>

named_theorems word_views "integer readings of the word operations"

lemma uint_bounds: "0 \<le> uint (x :: 'w::len word)" "uint x < 2 ^ LENGTH('w)"
  using uint_lt2p [of x] by simp_all

lemma modulus_ge2: "(2 :: int) \<le> 2 ^ LENGTH('w::len)"
  using power_increasing [of 1 "LENGTH('w)" "2 :: int"] by simp

lemma w_le [word_views]: "s \<le> o' \<longleftrightarrow> uint s \<le> uint o'" for s o' :: "'w::len word"
  by (simp add: word_le_def)

lemma w_lt [word_views]: "s < o' \<longleftrightarrow> uint s < uint o'" for s o' :: "'w::len word"
  by (simp add: word_less_def)

lemma uint_w_max [simp]: "uint (w_max :: 'w::len word) = 2 ^ LENGTH('w) - 1"
  by (simp add: w_max_def unsigned_minus_1_eq_mask mask_eq_exp_minus_1)

lemma uint_eq_0 [simp]: "uint (x :: 'w::len word) = 0 \<longleftrightarrow> x = 0"
  by (simp add: uint_0_iff)

lemma from_small: "0 \<le> i \<Longrightarrow> i < 2 ^ LENGTH('w::len) \<Longrightarrow> uint (word_of_int i :: 'w word) = i"
  by (simp add: uint_word_of_int)

lemma from_over:
  assumes "2 ^ LENGTH('w) \<le> i" "i < 2 * 2 ^ LENGTH('w::len)"
  shows "uint (word_of_int i :: 'w word) = i - 2 ^ LENGTH('w)"
proof -
  have "(i - 2 ^ LENGTH('w)) mod 2 ^ LENGTH('w) = i - 2 ^ LENGTH('w)" using assms by (intro mod_pos_pos_trivial) auto
  then show ?thesis by (simp add: uint_word_of_int)
qed

lemma from_under:
  assumes "- (2 ^ LENGTH('w::len)) \<le> i" "i < 0"
  shows "uint (word_of_int i :: 'w word) = i + 2 ^ LENGTH('w)"
proof -
  have "(i + 2 ^ LENGTH('w)) mod 2 ^ LENGTH('w) = i + 2 ^ LENGTH('w)" using assms by (intro mod_pos_pos_trivial) auto
  then show ?thesis by (simp add: uint_word_of_int)
qed

lemma add_of_int: "s + o' = word_of_int (uint s + uint o')" for s o' :: "'w::len word"
  by simp

lemma sub_of_int: "s - o' = word_of_int (uint s - uint o')" for s o' :: "'w::len word"
  by simp

lemma uint_max_sub: "uint (w_max - o') = 2 ^ LENGTH('w) - 1 - uint o'" for o' :: "'w::len word"
proof -
  have "0 \<le> uint (w_max :: 'w word) - uint o'" "uint (w_max :: 'w word) - uint o' < 2 ^ LENGTH('w)"
    unfolding uint_w_max using uint_bounds [of o'] by linarith+
  from from_small [OF this] show ?thesis using uint_w_max [where 'w = 'w] by (simp add: w_max_def)
qed

lemma w_checked_add_view:
  "w_checked_add s o' = Some r \<longleftrightarrow> uint s + uint o' < 2 ^ LENGTH('w) \<and> uint r = uint s + uint o'" for s o' r :: "'w::len word"
proof -
  note m = uint_max_sub [of o']
  have "uint (s + o') = uint s + uint o'" if "uint s + uint o' < 2 ^ LENGTH('w)"
    using that uint_bounds [of s] uint_bounds [of o'] by (subst add_of_int, subst from_small) auto
  then show ?thesis using m by (auto simp: w_checked_add_def w_le word_uint_eq_iff)
qed

lemma w_checked_add_None: "w_checked_add s o' = None \<longleftrightarrow> 2 ^ LENGTH('w) \<le> uint s + uint o'" for s o' :: "'w::len word"
proof -
  note m = uint_max_sub [of o']
  then show ?thesis by (auto simp: w_checked_add_def w_le)
qed

lemma uint_sub_le: "uint o' \<le> uint s \<Longrightarrow> uint (s - o') = uint s - uint o'" for s o' :: "'w::len word"
  using uint_bounds [of s] uint_bounds [of o'] by (subst sub_of_int, subst from_small) auto

lemma w_checked_sub_view: "w_checked_sub s o' = Some r \<longleftrightarrow> uint o' \<le> uint s \<and> uint r = uint s - uint o'" for s o' r :: "'w::len word"
  using uint_sub_le [of o' s] by (auto simp: w_checked_sub_def w_le word_uint_eq_iff)

lemma w_checked_sub_None: "w_checked_sub s o' = None \<longleftrightarrow> uint s < uint o'" for s o' :: "'w::len word"
  by (auto simp: w_checked_sub_def w_le)

lemma w_checked_mul_view:
  "w_checked_mul s o' = Some r \<longleftrightarrow> uint s * uint o' < 2 ^ LENGTH('w) \<and> uint r = uint s * uint o'" for s o' r :: "'w::len word"
proof -
  have "uint (s * o') = uint s * uint o'" if "uint s * uint o' < 2 ^ LENGTH('w)"
    using that uint_bounds [of s] uint_bounds [of o'] by (simp add: uint_word_arith_bintrs(3) take_bit_eq_mod)
  then show ?thesis by (auto simp: w_checked_mul_def word_uint_eq_iff)
qed

lemma wrapping_add_eq: "wrapping_add s o' = s + o'"
  by (simp add: wrapping_add_def w_max_def)

lemma wrapping_sub_eq: "wrapping_sub s o' = s - o'"
  by (simp add: wrapping_sub_def w_max_def)

lemma neg_nonzero_eq: "neg_nonzero s = - s"
  by (simp add: neg_nonzero_def w_max_def)

lemma uint_neg: "s \<noteq> 0 \<Longrightarrow> uint (- s) = 2 ^ LENGTH('w) - uint s" for s :: "'w::len word"
proof -
  assume "s \<noteq> 0"
  then have "0 < uint s" using uint_bounds(1) [of s] by (metis order_le_imp_less_or_eq uint_eq_0)
  moreover have "- s = word_of_int (- uint s)" by simp
  ultimately show ?thesis using from_under [where 'w = 'w, of "- uint s"] uint_bounds [of s] by simp
qed

text \<open>Sums and differences that do not wrap, or that all wrap once.\<close>

lemma uint_add_small: "uint s + uint o' < 2 ^ LENGTH('w) \<Longrightarrow> uint (s + o') = uint s + uint o'" for s o' :: "'w::len word"
  using uint_bounds(1) [of s] uint_bounds(1) [of o'] from_small [where 'w = 'w, of "uint s + uint o'"] by simp

lemma uint_add_over:
  assumes "2 ^ LENGTH('w) \<le> uint s + uint (o' :: 'w::len word)"
  shows "uint (s + o') = uint s + uint o' - 2 ^ LENGTH('w)"
proof -
  have "uint s + uint o' < 2 * 2 ^ LENGTH('w)" using uint_bounds(2) [of s] uint_bounds(2) [of o'] by linarith
  from from_over [OF assms this] show ?thesis by simp
qed

lemma uint_sub_under:
  assumes "uint s < uint (o' :: 'w::len word)"
  shows "uint (s - o') = uint s - uint o' + 2 ^ LENGTH('w)"
proof -
  have "- (2 ^ LENGTH('w)) \<le> uint s - uint o'" "uint s - uint o' < 0"
    using assms uint_bounds [of s] uint_bounds [of o'] by linarith+
  from from_under [OF this] show ?thesis by simp
qed

lemma uint_mul_small: "uint s * uint o' < 2 ^ LENGTH('w) \<Longrightarrow> uint (s * o') = uint s * uint o'" for s o' :: "'w::len word"
  using w_checked_mul_view [of s o' "s * o'"] by (simp add: w_checked_mul_def)

lemma uint_pos: "0 < uint (x :: 'w::len word) \<longleftrightarrow> x \<noteq> 0"
  using uint_bounds(1) [of x] uint_eq_0 [of x] by linarith

end
