(* ===== verification/Abs_Interval.thy ===== *)
theory Abs_Interval
  imports Abs_Reduce Abs_Word
begin

text \<open>
  Unsigned intervals over machine words of any width (\<open>abstract-domains/src/interval.rs\<close>), the channel
  \<open>Facts\<close> of bit-vector classes (\<open>facts.rs\<close>) and its transfers (\<open>facts_ops.rs\<close>).
\<close>

section \<open>\<open>Interval\<close>\<close>

record 'W interval =
  iv_lo :: 'W
  iv_hi :: 'W

definition interval_new :: "'w::len word \<Rightarrow> 'w word \<Rightarrow> 'w word interval option" where
  "interval_new lo hi = (if lo \<le> hi then Some \<lparr>iv_lo = lo, iv_hi = hi\<rparr> else None)"

definition interval_constant :: "'w::len word \<Rightarrow> 'w word interval" where
  "interval_constant c = \<lparr>iv_lo = c, iv_hi = c\<rparr>"

definition interval_meet_exact :: "'w::len word interval \<Rightarrow> 'w word interval \<Rightarrow> 'w word interval bot_or" where
  "interval_meet_exact s o' = (
    let lo = if iv_lo s \<le> iv_lo o' then iv_lo o' else iv_lo s;
        hi = if iv_hi s \<le> iv_hi o' then iv_hi s else iv_hi o'
    in if lo \<le> hi then Val \<lparr>iv_lo = lo, iv_hi = hi\<rparr> else Bot)"

definition interval_bounds :: "'w::len word interval \<Rightarrow> 'w word \<times> 'w word" where
  "interval_bounds s = (iv_lo s, iv_hi s)"

definition interval_wf :: "'w::len word interval \<Rightarrow> bool" where
  "interval_wf s = (uint (iv_lo s) \<le> uint (iv_hi s))"

definition interval_gamma :: "'w::len word interval \<Rightarrow> 'w word \<Rightarrow> bool" where
  "interval_gamma s c = (uint (iv_lo s) \<le> uint c \<and> uint c \<le> uint (iv_hi s))"

definition interval_top :: "'w::len word interval" where
  "interval_top = \<lparr>iv_lo = 0, iv_hi = w_max\<rparr>"

definition interval_leq :: "'w::len word interval \<Rightarrow> 'w word interval \<Rightarrow> bool" where
  "interval_leq s o' = (iv_lo o' \<le> iv_lo s \<and> iv_hi s \<le> iv_hi o')"

definition interval_join :: "'w::len word interval \<Rightarrow> 'w word interval \<Rightarrow> 'w word interval" where
  "interval_join s o' = (
    let lo = if iv_lo s \<le> iv_lo o' then iv_lo s else iv_lo o';
        hi = if iv_hi s \<le> iv_hi o' then iv_hi o' else iv_hi s
    in \<lparr>iv_lo = lo, iv_hi = hi\<rparr>)"

definition interval_meet :: "'w::len word interval \<Rightarrow> 'w word interval \<Rightarrow> 'w word interval bot_or" where
  "interval_meet s o' = (
    let lo = if iv_lo s \<le> iv_lo o' then iv_lo o' else iv_lo s;
        hi = if iv_hi s \<le> iv_hi o' then iv_hi s else iv_hi o'
    in if lo \<le> hi then Val \<lparr>iv_lo = lo, iv_hi = hi\<rparr> else Bot)"

definition interval_widen :: "'w::len word interval \<Rightarrow> 'w word interval \<Rightarrow> 'w word interval" where
  "interval_widen s o' = (
    let lo = if iv_lo s \<le> iv_lo o' then iv_lo s else 0;
        hi = if iv_hi o' \<le> iv_hi s then iv_hi s else w_max
    in \<lparr>iv_lo = lo, iv_hi = hi\<rparr>)"

definition interval_dom :: "('w::len word interval, 'w word) domain_ops" where
  "interval_dom = \<lparr>dm_wf = interval_wf, dm_gamma = interval_gamma, dm_top = interval_top, dm_leq = interval_leq,
     dm_join = interval_join, dm_meet = interval_meet, dm_widen = interval_widen\<rparr>"

subsection \<open>Unsigned transfers\<close>

definition interval_add :: "'w::len word interval \<Rightarrow> 'w word interval \<Rightarrow> 'w word interval" where
  "interval_add s o' = (case w_checked_add (iv_hi s) (iv_hi o') of
      Some hi \<Rightarrow> (case w_checked_add (iv_lo s) (iv_lo o') of
          Some lo \<Rightarrow> \<lparr>iv_lo = lo, iv_hi = hi\<rparr>
        | None \<Rightarrow> interval_top)
    | None \<Rightarrow>
        if w_checked_add (iv_lo s) (iv_lo o') = None
        then \<lparr>iv_lo = wrapping_add (iv_lo s) (iv_lo o'), iv_hi = wrapping_add (iv_hi s) (iv_hi o')\<rparr>
        else interval_top)"

definition interval_sub :: "'w::len word interval \<Rightarrow> 'w word interval \<Rightarrow> 'w word interval" where
  "interval_sub s o' =
    (if iv_hi o' \<le> iv_lo s then
       (case w_checked_sub (iv_lo s) (iv_hi o') of
          None \<Rightarrow> interval_top
        | Some lo \<Rightarrow> (case w_checked_sub (iv_hi s) (iv_lo o') of
            None \<Rightarrow> interval_top
          | Some hi \<Rightarrow> \<lparr>iv_lo = lo, iv_hi = hi\<rparr>))
     else if iv_hi s < iv_lo o' then
       \<lparr>iv_lo = wrapping_sub (iv_lo s) (iv_hi o'), iv_hi = wrapping_sub (iv_hi s) (iv_lo o')\<rparr>
     else interval_top)"

definition interval_neg :: "'w::len word interval \<Rightarrow> 'w word interval" where
  "interval_neg s =
    (if iv_hi s = 0 then s
     else if iv_lo s = 0 then interval_top
     else \<lparr>iv_lo = neg_nonzero (iv_hi s), iv_hi = neg_nonzero (iv_lo s)\<rparr>)"

definition interval_contains_zero :: "'w::len word interval \<Rightarrow> bool" where
  "interval_contains_zero s = (iv_lo s = 0)"

definition interval_div :: "'w::len word interval \<Rightarrow> 'w word interval \<Rightarrow> 'w word interval bot_or \<times> div_zero" where
  "interval_div s d =
    (if iv_hi d = 0 then (Bot, DzAlways)
     else
       let dlo_pos = iv_lo d \<noteq> 0;
           q_lo = iv_lo s div iv_hi d;
           q_hi = if dlo_pos then iv_hi s div iv_lo d else iv_hi s
       in (Val \<lparr>iv_lo = q_lo, iv_hi = q_hi\<rparr>, if dlo_pos then DzNever else DzMaybe))"

definition interval_rem :: "'w::len word interval \<Rightarrow> 'w word interval \<Rightarrow> 'w word interval bot_or \<times> div_zero" where
  "interval_rem s d =
    (if iv_hi d = 0 then (Bot, DzAlways)
     else case w_checked_sub (iv_hi d) 1 of
       None \<Rightarrow> (Bot, DzAlways)
     | Some dm1 \<Rightarrow>
       let dlo1 = if iv_lo d = 0 then 1 else iv_lo d;
           flag = if iv_lo d = 0 then DzMaybe else DzNever;
           q = iv_lo s div iv_hi d;
           same_q = (q = iv_hi s div dlo1);
           other = (Val \<lparr>iv_lo = 0, iv_hi = if iv_hi s \<le> dm1 then iv_hi s else dm1\<rparr>, flag)
       in case (same_q, w_checked_mul q (iv_hi d), w_checked_mul q dlo1) of
            (True, Some qh, Some ql) \<Rightarrow>
              (case w_checked_sub (iv_lo s) qh of
                 None \<Rightarrow> (Val interval_top, flag)
               | Some lo_r \<Rightarrow> (case w_checked_sub (iv_hi s) ql of
                   None \<Rightarrow> (Val interval_top, flag)
                 | Some hi_q \<Rightarrow> (Val \<lparr>iv_lo = lo_r, iv_hi = if hi_q \<le> dm1 then hi_q else dm1\<rparr>, flag)))
          | _ \<Rightarrow> other)"

definition interval_mul :: "'w::len word interval \<Rightarrow> 'w word interval \<Rightarrow> 'w word interval" where
  "interval_mul s o' = (case (w_checked_mul (iv_lo s) (iv_lo o'), w_checked_mul (iv_hi s) (iv_hi o')) of
      (Some lo, Some hi) \<Rightarrow> \<lparr>iv_lo = lo, iv_hi = hi\<rparr>
    | _ \<Rightarrow> interval_top)"

definition signed_div_flag :: "'w::len word interval \<Rightarrow> 'w word interval bot_or \<times> div_zero" where
  "signed_div_flag d =
    (if iv_hi d = 0 then (Bot, DzAlways)
     else if iv_lo d = 0 then (Val interval_top, DzMaybe)
     else (Val interval_top, DzNever))"

definition interval_arith :: "'w::len word interval arith_ops" where
  "interval_arith = \<lparr>ar_add = interval_add, ar_sub = interval_sub, ar_neg = interval_neg\<rparr>"

definition interval_divrem :: "'w::len word interval divrem_ops" where
  "interval_divrem = \<lparr>dr_contains_zero = interval_contains_zero, dr_div = interval_div, dr_rem = interval_rem\<rparr>"

definition interval_signed_divrem :: "'w::len word interval divrem_ops" where
  "interval_signed_divrem = \<lparr>dr_contains_zero = interval_contains_zero,
     dr_div = (\<lambda>s d. signed_div_flag d), dr_rem = (\<lambda>s d. signed_div_flag d)\<rparr>"

section \<open>The domain laws\<close>

lemma interval_sel [simp]:
  "dm_wf interval_dom = interval_wf" "dm_gamma interval_dom = interval_gamma" "dm_top interval_dom = interval_top"
  "dm_leq interval_dom = interval_leq" "dm_join interval_dom = interval_join" "dm_meet interval_dom = interval_meet"
  "dm_widen interval_dom = interval_widen"
  by (simp_all add: interval_dom_def)

lemmas interval_base = interval_wf_def interval_gamma_def

lemma interval_top_gamma [simp]: "interval_gamma interval_top c" "interval_wf interval_top"
  using uint_bounds [of c] by (auto simp: interval_base interval_top_def)

lemma interval_mk [simp]:
  "interval_wf \<lparr>iv_lo = lo, iv_hi = hi\<rparr> \<longleftrightarrow> uint lo \<le> uint hi"
  "interval_gamma \<lparr>iv_lo = lo, iv_hi = hi\<rparr> c \<longleftrightarrow> uint lo \<le> uint c \<and> uint c \<le> uint hi"
  by (simp_all add: interval_base)

lemma interval_leq_iff: "interval_wf s \<Longrightarrow> interval_leq s o' \<longleftrightarrow> (\<forall>c. interval_gamma s c \<longrightarrow> interval_gamma o' c)"
  by (auto simp: interval_base interval_leq_def w_le)

lemma interval_join_least:
  "interval_wf s \<Longrightarrow> interval_wf o' \<Longrightarrow> interval_wf (interval_join s o') \<and>
    (\<forall>u. interval_leq (interval_join s o') u \<longleftrightarrow> interval_leq s u \<and> interval_leq o' u)"
  by (auto simp: interval_base interval_join_def interval_leq_def w_le Let_def)

lemma interval_meet_gamma: "bot_gamma interval_dom (interval_meet s o') c \<longleftrightarrow> interval_gamma s c \<and> interval_gamma o' c"
  by (auto simp: interval_base interval_meet_def w_le Let_def)

lemma interval_meet_wf: "bot_wf interval_dom (interval_meet s o')"
  by (auto simp: interval_base interval_meet_def w_le Let_def)

lemma interval_meet_exact_eq: "interval_meet_exact = interval_meet"
  by (intro ext) (simp add: interval_meet_exact_def interval_meet_def)

interpretation itv: canonical_domain "interval_dom :: ('w::len word interval, 'w word) domain_ops"
proof
  fix a b :: "'w word interval" and c :: "'w word"
  show "dm_wf interval_dom (dm_top interval_dom :: 'w word interval)" "dm_gamma interval_dom (dm_top interval_dom) c" by simp_all
  show "dm_gamma interval_dom a c \<or> dm_gamma interval_dom b c \<Longrightarrow> dm_gamma interval_dom (dm_widen interval_dom a b) c"
    using uint_bounds [of c] by (auto simp: interval_base interval_widen_def w_le Let_def)
  show "dm_wf interval_dom a \<Longrightarrow> dm_wf interval_dom b \<Longrightarrow> dm_wf interval_dom (dm_widen interval_dom a b)"
    using uint_bounds [of "iv_lo a"] uint_bounds [of "iv_hi a"] by (auto simp: interval_base interval_widen_def w_le Let_def)
  show "dm_wf interval_dom a \<Longrightarrow> \<exists>c. dm_gamma interval_dom a c" by (auto simp: interval_base)
  show "a = b" if w: "dm_wf interval_dom a" "dm_wf interval_dom b" and e: "\<And>c. dm_gamma interval_dom a c = dm_gamma interval_dom b c"
    using e [of "iv_lo a"] e [of "iv_hi a"] e [of "iv_lo b"] e [of "iv_hi b"] w
    by (cases a; cases b) (auto simp: interval_base word_uint_eq_iff)
qed (auto simp: interval_meet_wf interval_meet_gamma interval_join_def interval_leq_def interval_base w_le Let_def)

section \<open>The transfers are sound\<close>

lemma unsigned_sem_word:
  "s_add unsigned_sem = (\<lambda>a b. a + b :: 'w::len word)" "s_sub unsigned_sem = (\<lambda>a b. a - b :: 'w word)"
  "s_neg unsigned_sem = (\<lambda>a. - a :: 'w word)" "s_mul unsigned_sem = (\<lambda>a b. a * b :: 'w word)"
  "s_div unsigned_sem = (\<lambda>a b. a div b :: 'w word)" "s_rem unsigned_sem = (\<lambda>a b. a mod b :: 'w word)"
  "s_zero unsigned_sem = (0 :: 'w word)" "s_is_zero unsigned_sem = (\<lambda>v :: 'w word. v = 0)"
  by (auto simp: unsigned_sem_def word_div_def word_mod_def)

lemma interval_add_sound: "sound2 interval_dom interval_add (\<lambda>a b. a + b :: 'w::len word)"
proof -
  have "interval_wf (interval_add a b) \<and> (\<forall>x y. interval_gamma a x \<longrightarrow> interval_gamma b y \<longrightarrow> interval_gamma (interval_add a b) (x + y))"
    if w: "interval_wf a" "interval_wf b" for a b :: "'w word interval"
  proof (cases "uint (iv_hi a) + uint (iv_hi b) < 2 ^ LENGTH('w)")
    case True
    then have "uint (iv_lo a) + uint (iv_lo b) < 2 ^ LENGTH('w)" using w by (simp add: interval_wf_def)
    then have "w_checked_add (iv_lo a) (iv_lo b) = Some (iv_lo a + iv_lo b)" "w_checked_add (iv_hi a) (iv_hi b) = Some (iv_hi a + iv_hi b)"
      using True by (simp_all add: w_checked_add_view uint_add_small)
    then have "interval_add a b = \<lparr>iv_lo = iv_lo a + iv_lo b, iv_hi = iv_hi a + iv_hi b\<rparr>" by (simp add: interval_add_def)
    then show ?thesis using True w by (auto simp: interval_base uint_add_small)
  next
    case False
    then have n: "w_checked_add (iv_hi a) (iv_hi b) = None" by (simp add: w_checked_add_None)
    show ?thesis
    proof (cases "2 ^ LENGTH('w) \<le> uint (iv_lo a) + uint (iv_lo b)")
      case True
      then have "interval_add a b = \<lparr>iv_lo = iv_lo a + iv_lo b, iv_hi = iv_hi a + iv_hi b\<rparr>"
        using n True [folded w_checked_add_None] by (simp add: interval_add_def wrapping_add_eq)
      then show ?thesis using True w by (auto simp: interval_base uint_add_over)
    next
      case False
      then have "w_checked_add (iv_lo a) (iv_lo b) \<noteq> None" by (simp add: w_checked_add_None)
      then have "interval_add a b = interval_top" using n by (auto simp: interval_add_def)
      then show ?thesis by simp
    qed
  qed
  then show ?thesis by (simp add: sound2_def)
qed

lemma interval_sub_sound: "sound2 interval_dom interval_sub (\<lambda>a b. a - b :: 'w::len word)"
proof -
  have "interval_wf (interval_sub a b) \<and> (\<forall>x y. interval_gamma a x \<longrightarrow> interval_gamma b y \<longrightarrow> interval_gamma (interval_sub a b) (x - y))"
    if w: "interval_wf a" "interval_wf b" for a b :: "'w word interval"
  proof (cases "uint (iv_hi b) \<le> uint (iv_lo a)")
    case True
    then have "w_checked_sub (iv_lo a) (iv_hi b) = Some (iv_lo a - iv_hi b)" "w_checked_sub (iv_hi a) (iv_lo b) = Some (iv_hi a - iv_lo b)"
      using w by (simp_all add: w_checked_sub_view uint_sub_le interval_wf_def)
    then have "interval_sub a b = \<lparr>iv_lo = iv_lo a - iv_hi b, iv_hi = iv_hi a - iv_lo b\<rparr>" using True by (simp add: interval_sub_def w_le)
    then show ?thesis using True w by (auto simp: interval_base uint_sub_le)
  next
    case False
    then have "interval_sub a b = (if uint (iv_hi a) < uint (iv_lo b) then \<lparr>iv_lo = iv_lo a - iv_hi b, iv_hi = iv_hi a - iv_lo b\<rparr> else interval_top)"
      by (simp add: interval_sub_def w_le w_lt wrapping_sub_eq)
    then show ?thesis using w by (cases "uint (iv_hi a) < uint (iv_lo b)")
      (auto simp: interval_base [of a] interval_base [of b] uint_sub_under)
  qed
  then show ?thesis by (simp add: sound2_def)
qed

lemma interval_neg_sound: "sound1 interval_dom interval_neg (\<lambda>a. - a :: 'w::len word)"
proof -
  have "interval_wf (interval_neg a) \<and> (\<forall>x. interval_gamma a x \<longrightarrow> interval_gamma (interval_neg a) (- x))"
    if w: "interval_wf a" for a :: "'w word interval"
  proof (cases "iv_hi a = 0 \<or> iv_lo a = 0")
    case True
    have "x = 0" if "iv_hi a = 0" "interval_gamma a x" for x using that uint_pos [of x] by (simp add: interval_gamma_def)
    then have "interval_gamma a (- x)" if "iv_hi a = 0" "interval_gamma a x" for x using that by force
    then show ?thesis using True w by (cases "iv_hi a = 0") (auto simp: interval_neg_def)
  next
    case False
    then have "x \<noteq> 0" if "interval_gamma a x" for x
      using that uint_bounds(1) [of "iv_lo a"] uint_eq_0 [of "iv_lo a"] by (auto simp: interval_gamma_def)
    then show ?thesis using False w by (auto simp: interval_neg_def interval_base neg_nonzero_eq uint_neg)
  qed
  then show ?thesis by (simp add: sound1_def)
qed

lemma interval_mul_sound: "sound2 interval_dom interval_mul (\<lambda>a b. a * b :: 'w::len word)"
proof -
  have "interval_wf (interval_mul a b) \<and> (\<forall>x y. interval_gamma a x \<longrightarrow> interval_gamma b y \<longrightarrow> interval_gamma (interval_mul a b) (x * y))"
    if w: "interval_wf a" "interval_wf b" for a b :: "'w word interval"
  proof (cases "w_checked_mul (iv_lo a) (iv_lo b) = None \<or> w_checked_mul (iv_hi a) (iv_hi b) = None")
    case True
    then show ?thesis by (auto simp: interval_mul_def split: option.splits)
  next
    case False
    then obtain lo hi where m: "w_checked_mul (iv_lo a) (iv_lo b) = Some lo" "w_checked_mul (iv_hi a) (iv_hi b) = Some hi" by auto
    have "uint x * uint y \<le> uint (iv_hi a) * uint (iv_hi b)" "uint (iv_lo a) * uint (iv_lo b) \<le> uint x * uint y"
      if "interval_gamma a x" "interval_gamma b y" for x y
      using that by (auto simp: interval_gamma_def intro!: mult_mono)
    moreover have "uint (iv_lo a) * uint (iv_lo b) \<le> uint (iv_hi a) * uint (iv_hi b)"
      using w by (auto simp: interval_wf_def intro!: mult_mono)
    moreover have "interval_mul a b = \<lparr>iv_lo = lo, iv_hi = hi\<rparr>" using m by (simp add: interval_mul_def)
    ultimately show ?thesis using m by (fastforce simp: uint_mul_small w_checked_mul_view)
  qed
  then show ?thesis by (simp add: sound2_def)
qed

lemma div_between:
  assumes "0 \<le> l" "l \<le> x" "x \<le> h" "0 < k" "k \<le> y" "y \<le> (m :: int)"
  shows "l div m \<le> x div y" "x div y \<le> h div k"
proof -
  have "l div m \<le> l div y" using assms by (intro zdiv_mono2) auto
  also have "\<dots> \<le> x div y" using assms by (intro zdiv_mono1) auto
  finally show "l div m \<le> x div y" .
  have "x div y \<le> h div y" using assms by (intro zdiv_mono1) auto
  also have "\<dots> \<le> h div k" using assms by (intro zdiv_mono2) auto
  finally show "x div y \<le> h div k" .
qed

text \<open>The divisors of \<open>d\<close>: the least nonzero one and the greatest.\<close>

definition least_divisor :: "'w::len word interval \<Rightarrow> 'w word" where
  "least_divisor d = (if iv_lo d = 0 then 1 else iv_lo d)"

lemma divisor_bounds:
  assumes "interval_wf d" "iv_hi d \<noteq> 0"
  shows "0 < uint (least_divisor d)" "uint (least_divisor d) \<le> uint (iv_hi d)"
    "\<And>y. interval_gamma d y \<Longrightarrow> y \<noteq> 0 \<Longrightarrow> uint (least_divisor d) \<le> uint y \<and> uint y \<le> uint (iv_hi d)"
proof -
  have p: "0 < uint y" if "y \<noteq> 0" for y :: "'a word" using that uint_pos [of y] by simp
  show "0 < uint (least_divisor d)" using p by (simp add: least_divisor_def)
  show "uint (least_divisor d) \<le> uint (iv_hi d)" using assms p [of "iv_hi d"] by (simp add: least_divisor_def interval_wf_def)
  show "uint (least_divisor d) \<le> uint y \<and> uint y \<le> uint (iv_hi d)" if "interval_gamma d y" "y \<noteq> 0" for y
    using that p [of y] by (simp add: least_divisor_def interval_gamma_def)
qed

lemma gamma_zero_hi: "interval_gamma d y \<Longrightarrow> iv_hi d = 0 \<Longrightarrow> y = 0"
  using uint_pos [of y] by (simp add: interval_gamma_def)

lemma gamma_zero_lo: "interval_gamma d 0 \<longleftrightarrow> iv_lo d = 0"
  using uint_pos [of "iv_lo d"] uint_bounds(1) [of "iv_hi d"] by (auto simp: interval_gamma_def)

lemma interval_div_sound: "sound_div interval_dom unsigned_sem interval_div (\<lambda>a b. a div b :: 'w::len word)"
proof -
  have "div_ok interval_dom unsigned_sem (\<lambda>a b. a div b) a d (interval_div a d)" if w: "interval_wf a" "interval_wf d" for a d :: "'w word interval"
  proof (cases "iv_hi d = 0")
    case True
    then show ?thesis using gamma_zero_hi [of d] by (auto simp: div_ok_def interval_div_def unsigned_sem_word)
  next
    case False
    note k = divisor_bounds [OF w(2) False]
    let ?r = "\<lparr>iv_lo = iv_lo a div iv_hi d, iv_hi = iv_hi a div least_divisor d\<rparr>"
    have e: "interval_div a d = (Val ?r, if iv_lo d \<noteq> 0 then DzNever else DzMaybe)"
      using False by (simp add: interval_div_def least_divisor_def Let_def)
    have "uint (iv_lo a) div uint (iv_hi d) \<le> uint (iv_hi a) div uint (least_divisor d)"
      using div_between(1) [of "uint (iv_lo a)" "uint (iv_hi a)" "uint (iv_hi a)" "uint (least_divisor d)" "uint (least_divisor d)" "uint (iv_hi d)"] k w
      by (simp add: interval_wf_def)
    moreover have "interval_gamma ?r (x div y)" if "interval_gamma a x" "interval_gamma d y" "y \<noteq> 0" for x y
      using div_between [of "uint (iv_lo a)" "uint x" "uint (iv_hi a)" "uint (least_divisor d)" "uint y" "uint (iv_hi d)"] k(1) k(3) [OF that(2,3)] that(1)
      by (simp add: interval_gamma_def uint_div_distrib)
    ultimately show ?thesis
      using gamma_zero_lo [of d] e by (auto simp: div_ok_def unsigned_sem_word uint_div_distrib simp del: interval_mk(2))
  qed
  then show ?thesis by (simp add: sound_div_def)
qed

text \<open>When \<open>l div m = h div k\<close> every quotient is that \<open>q\<close>, and remainders are \<open>x - q * y\<close>.\<close>

lemma rem_same_quotient:
  assumes b: "0 \<le> l" "l \<le> x" "x \<le> h" "0 < k" "k \<le> y" "y \<le> (m :: int)" and q: "q = l div m" "q = h div k"
  shows "l - q * m \<le> x mod y" "x mod y \<le> h - q * k" "x mod y \<le> m - 1"
proof -
  have "x div y = q" using div_between [OF b] q by simp
  then have e: "x mod y = x - q * y" using div_mult_mod_eq [of x y] by simp
  have "0 \<le> q" using q(1) b by (simp add: pos_imp_zdiv_nonneg_iff)
  then have "q * y \<le> q * m" "q * k \<le> q * y" using b by (auto intro: mult_left_mono)
  then show "l - q * m \<le> x mod y" "x mod y \<le> h - q * k" using e b by linarith+
  show "x mod y \<le> m - 1" using pos_mod_bound [of y x] b by linarith
qed

lemma interval_rem_cases:
  assumes w: "interval_wf a" "interval_wf d" and nz: "iv_hi d \<noteq> 0"
  defines "m \<equiv> uint (iv_hi d)" and "k \<equiv> uint (least_divisor d)" and "l \<equiv> uint (iv_lo a)" and "h \<equiv> uint (iv_hi a)"
  obtains (same) lo hi where "l div m = h div k" "uint lo = l - l div m * m" "uint hi = min (h - l div m * k) (m - 1)"
      "fst (interval_rem a d) = Val \<lparr>iv_lo = lo, iv_hi = hi\<rparr>"
  | (other) hi where "uint hi = min h (m - 1)" "fst (interval_rem a d) = Val \<lparr>iv_lo = 0, iv_hi = hi\<rparr>"
proof -
  note k = divisor_bounds [OF w(2) nz]
  have dm1: "w_checked_sub (iv_hi d) 1 = Some (iv_hi d - 1)" "uint (iv_hi d - 1) = m - 1"
    using nz uint_pos [of "iv_hi d"] by (simp_all add: w_checked_sub_view uint_sub_le m_def)
  show thesis
  proof (cases "iv_lo a div iv_hi d = iv_hi a div least_divisor d \<and> (\<exists>qh. w_checked_mul (iv_lo a div iv_hi d) (iv_hi d) = Some qh) \<and>
      (\<exists>ql. w_checked_mul (iv_lo a div iv_hi d) (least_divisor d) = Some ql)")
    case True
    then obtain qh ql where c: "w_checked_mul (iv_lo a div iv_hi d) (iv_hi d) = Some qh" "w_checked_mul (iv_lo a div iv_hi d) (least_divisor d) = Some ql"
      and sq: "l div m = h div k" by (auto simp: m_def k_def l_def h_def simp flip: uint_div_distrib)
    then have qv: "uint qh = l div m * m" "uint ql = l div m * k"
      by (auto simp: w_checked_mul_view m_def k_def l_def h_def uint_div_distrib)
    have "0 < m" "0 < k" using k(1,2) unfolding m_def k_def by linarith+
    then have "l div m * m \<le> l" "h div k * k \<le> h"
      using pos_mod_sign [of m l] pos_mod_sign [of k h] unfolding minus_mod_eq_div_mult [symmetric] by linarith+
    then have "w_checked_sub (iv_lo a) qh = Some (iv_lo a - qh)" "w_checked_sub (iv_hi a) ql = Some (iv_hi a - ql)"
      "uint (iv_lo a - qh) = l - l div m * m" "uint (iv_hi a - ql) = h - l div m * k"
      using qv sq by (auto simp: w_checked_sub_view uint_sub_le l_def h_def)
    moreover from this(1,2) have "fst (interval_rem a d) =
        Val \<lparr>iv_lo = iv_lo a - qh, iv_hi = if iv_hi a - ql \<le> iv_hi d - 1 then iv_hi a - ql else iv_hi d - 1\<rparr>"
      using True c dm1(1) nz unfolding interval_rem_def Let_def least_divisor_def [symmetric] by simp
    ultimately show thesis using sq dm1(2) by (intro same [of "iv_lo a - qh"]) (auto simp: w_le min_def)
  next
    case False
    then have "fst (interval_rem a d) = Val \<lparr>iv_lo = 0, iv_hi = if iv_hi a \<le> iv_hi d - 1 then iv_hi a else iv_hi d - 1\<rparr>"
      using dm1(1) nz unfolding interval_rem_def Let_def least_divisor_def [symmetric] by (auto split: bool.splits option.splits)
    then show thesis using dm1(2) by (intro other) (auto simp: w_le min_def h_def)
  qed
qed

lemma interval_rem_sound: "sound_div interval_dom unsigned_sem interval_rem (\<lambda>a b. a mod b :: 'w::len word)"
proof -
  have "div_ok interval_dom unsigned_sem (\<lambda>a b. a mod b) a d (interval_rem a d)" if w: "interval_wf a" "interval_wf d" for a d :: "'w word interval"
  proof (cases "iv_hi d = 0")
    case True
    then show ?thesis using gamma_zero_hi [of d] by (auto simp: div_ok_def interval_rem_def unsigned_sem_word)
  next
    case False
    note k = divisor_bounds [OF w(2) False]
    have flag: "snd (interval_rem a d) = (if iv_lo d = 0 then DzMaybe else DzNever)"
      using False uint_pos [of "iv_hi d"]
      by (auto simp: interval_rem_def Let_def w_checked_sub_None split: option.splits bool.splits)
    have xy: "uint (iv_lo a) \<le> uint x \<and> uint x \<le> uint (iv_hi a)" if "interval_gamma a x" for x
      using that by (simp add: interval_gamma_def)
    note same_q = rem_same_quotient [of "uint (iv_lo a)" _ "uint (iv_hi a)" "uint (least_divisor d)" _ "uint (iv_hi d)"]
    from w False show ?thesis
    proof (cases rule: interval_rem_cases)
      case (same lo hi)
      have "uint lo \<le> uint hi"
        using same_q [OF uint_bounds(1) order_refl w(1) [unfolded interval_wf_def] k(1,2) order_refl refl same(1)] same(2,3)
        unfolding min_def by (auto split: if_splits)
      moreover have "uint lo \<le> uint (x mod y) \<and> uint (x mod y) \<le> uint hi" if "interval_gamma a x" "interval_gamma d y" "y \<noteq> 0" for x y
      proof -
        note b = xy [OF that(1)] k(3) [OF that(2,3)]
        from same_q [OF uint_bounds(1) conjunct1 [OF b(1)] conjunct2 [OF b(1)] k(1) conjunct1 [OF b(2)] conjunct2 [OF b(2)] refl same(1)]
        show ?thesis using same(2,3) by (simp add: uint_mod_distrib)
      qed
      ultimately show ?thesis using flag same(4) gamma_zero_lo [of d] by (auto simp: div_ok_def unsigned_sem_word)
    next
      case (other hi)
      have "0 \<le> uint hi" by simp
      moreover have "uint (x mod y) \<le> uint hi" if "interval_gamma a x" "interval_gamma d y" "y \<noteq> 0" for x y
      proof -
        have "uint x mod uint y \<le> uint x" "uint x mod uint y < uint y"
          using that(3) uint_pos [of y] by (simp_all add: zmod_le_nonneg_dividend)
        then show ?thesis using xy [OF that(1)] k(3) [OF that(2,3)] other(1) by (simp add: uint_mod_distrib)
      qed
      ultimately show ?thesis using flag other(2) gamma_zero_lo [of d] by (auto simp: div_ok_def unsigned_sem_word)
    qed
  qed
  then show ?thesis by (simp add: sound_div_def)
qed

lemma signed_sem_zero [simp]: "s_zero signed_sem = (0 :: 'w::len word)" "s_is_zero signed_sem v \<longleftrightarrow> v = (0 :: 'w word)"
  by (simp_all add: signed_sem_def)

lemma signed_div_flag_sound: "div_ok interval_dom signed_sem g a d (signed_div_flag d)"
  using gamma_zero_hi [of d] gamma_zero_lo [of d]
  by (auto simp: div_ok_def signed_div_flag_def)

interpretation itv_arith: arith_transfer "interval_dom :: ('w::len word interval, 'w word) domain_ops" unsigned_sem interval_arith
  by unfold_locales (simp_all add: interval_arith_def unsigned_sem_word interval_add_sound interval_sub_sound interval_neg_sound)

interpretation itv_mul: mul_transfer "interval_dom :: ('w::len word interval, 'w word) domain_ops" unsigned_sem interval_mul
  by unfold_locales (simp add: unsigned_sem_word interval_mul_sound)

interpretation itv_divrem: divrem_transfer "interval_dom :: ('w::len word interval, 'w word) domain_ops" unsigned_sem interval_divrem
  by unfold_locales (simp_all add: interval_divrem_def unsigned_sem_word interval_div_sound interval_rem_sound
    interval_contains_zero_def gamma_zero_lo)

interpretation itv_signed: divrem_transfer "interval_dom :: ('w::len word interval, 'w word) domain_ops" signed_sem interval_signed_divrem
  by unfold_locales (simp_all add: interval_signed_divrem_def sound_div_def interval_contains_zero_def gamma_zero_lo signed_div_flag_sound)

section \<open>Properties\<close>

text \<open>
  C36: wrapping arithmetic on machine words of any width stays inside the abstract result: for all members
  \<open>x\<close> and \<open>y\<close> the wrapped sum, difference, negation and product are members of the intervals that
  \<open>add\<close>, \<open>sub\<close>, \<open>neg\<close> and \<open>mul\<close> return.
\<close>

theorem interval_arithmetic_sound:
  fixes a b :: "'w::len word interval"
  assumes "interval_wf a" and "interval_wf b" and "interval_gamma a x" and "interval_gamma b y"
  shows "interval_gamma (interval_add a b) (x + y) \<and> interval_gamma (interval_sub a b) (x - y) \<and>
    interval_gamma (interval_neg a) (- x) \<and> interval_gamma (interval_mul a b) (x * y)"
proof (intro conjI)
  show "interval_gamma (interval_add a b) (x + y)" using interval_add_sound assms unfolding sound2_def interval_sel by blast
  show "interval_gamma (interval_sub a b) (x - y)" using interval_sub_sound assms unfolding sound2_def interval_sel by blast
  show "interval_gamma (interval_neg a) (- x)" using interval_neg_sound assms unfolding sound1_def interval_sel by blast
  show "interval_gamma (interval_mul a b) (x * y)" using interval_mul_sound assms unfolding sound2_def interval_sel by blast
qed

theorem interval_arithmetic_sound_witness:
  "interval_add \<lparr>iv_lo = 250, iv_hi = 255\<rparr> \<lparr>iv_lo = 10, iv_hi = (12 :: 8 word)\<rparr> = \<lparr>iv_lo = 4, iv_hi = 11\<rparr> \<and>
    interval_gamma (interval_add \<lparr>iv_lo = 250, iv_hi = 255\<rparr> \<lparr>iv_lo = 10, iv_hi = (12 :: 8 word)\<rparr>) (251 + 11)"
  using interval_arithmetic_sound [of "\<lparr>iv_lo = 250, iv_hi = 255\<rparr>" "\<lparr>iv_lo = 10, iv_hi = (12 :: 8 word)\<rparr>" 251 11]
  by (simp add: interval_add_def w_checked_add_def wrapping_add_eq w_max_def)

text \<open>
  Unsigned division and remainder of intervals.  For every dividend and every nonzero divisor the
  quotient and remainder are members of the result; the answer \<open>Never\<close> excludes a zero divisor, and
  \<open>Bot\<close> is returned exactly when zero is the only divisor.
\<close>

theorem interval_division_sound:
  fixes a d :: "'w::len word interval"
  assumes "interval_wf a" and "interval_wf d"
  shows "div_ok interval_dom unsigned_sem (\<lambda>x y. x div y) a d (interval_div a d) \<and>
    div_ok interval_dom unsigned_sem (\<lambda>x y. x mod y) a d (interval_rem a d)"
  using interval_div_sound interval_rem_sound assms unfolding sound_div_def interval_sel by blast

theorem interval_division_sound_witness:
  "interval_rem \<lparr>iv_lo = 23, iv_hi = 25\<rparr> \<lparr>iv_lo = 10, iv_hi = (11 :: 8 word)\<rparr> = (Val \<lparr>iv_lo = 1, iv_hi = 5\<rparr>, DzNever) \<and>
    div_ok interval_dom unsigned_sem (\<lambda>x y. x mod y) \<lparr>iv_lo = 23, iv_hi = 25\<rparr> \<lparr>iv_lo = 10, iv_hi = (11 :: 8 word)\<rparr>
      (Val \<lparr>iv_lo = 1, iv_hi = 5\<rparr>, DzNever)"
proof -
  have e: "interval_rem \<lparr>iv_lo = 23, iv_hi = 25\<rparr> \<lparr>iv_lo = 10, iv_hi = (11 :: 8 word)\<rparr> = (Val \<lparr>iv_lo = 1, iv_hi = 5\<rparr>, DzNever)"
    by (simp add: interval_rem_def w_checked_sub_def w_checked_mul_def Let_def)
  from interval_division_sound [of "\<lparr>iv_lo = 23, iv_hi = 25\<rparr>" "\<lparr>iv_lo = 10, iv_hi = (11 :: 8 word)\<rparr>"] show ?thesis by (simp add: e)
qed

definition unstable_bounds :: "'w::len word interval \<Rightarrow> nat" where
  "unstable_bounds s = (if iv_lo s = 0 then 0 else 1) + (if iv_hi s = w_max then 0 else 1)"

lemma interval_widen_fewer: "interval_widen s o' \<noteq> s \<Longrightarrow> unstable_bounds (interval_widen s o') < unstable_bounds s"
proof -
  have "iv_hi o' \<le> w_max" using uint_bounds(2) [of "iv_hi o'"] by (simp add: w_le)
  moreover have "0 \<le> iv_lo o'" by simp
  ultimately show "interval_widen s o' \<noteq> s \<Longrightarrow> ?thesis"
    by (cases s) (auto simp: interval_widen_def unstable_bounds_def Let_def split: if_splits)
qed

text \<open>
  \<open>join\<close> of word intervals is the least upper bound, \<open>leq\<close> decides inclusion, equal sets are equal
  values, and a widening sequence changes at most twice.
\<close>

theorem interval_lattice_exact:
  fixes a b :: "'w::len word interval"
  assumes "interval_wf a" and "interval_wf b"
  shows "interval_leq a b = (\<forall>c. interval_gamma a c \<longrightarrow> interval_gamma b c) \<and>
    (a = b) = (\<forall>c. interval_gamma a c = interval_gamma b c) \<and>
    (\<forall>u. interval_leq (interval_join a b) u = (interval_leq a u \<and> interval_leq b u)) \<and>
    (\<forall>X Y n. X 0 = a \<and> (\<forall>i. X (Suc i) = interval_widen (X i) (Y i)) \<longrightarrow> card {i. i < n \<and> X (Suc i) \<noteq> X i} \<le> 2)"
proof (intro conjI allI impI)
  show "interval_leq a b = (\<forall>c. interval_gamma a c \<longrightarrow> interval_gamma b c)" by (rule interval_leq_iff [OF assms(1)])
  show "(a = b) = (\<forall>c. interval_gamma a c = interval_gamma b c)" using itv.canonical [of a b] assms by auto
  show "interval_leq (interval_join a b) u = (interval_leq a u \<and> interval_leq b u)" for u using interval_join_least [OF assms] by blast
  show "card {i. i < n \<and> X (Suc i) \<noteq> X i} \<le> 2" if "X 0 = a \<and> (\<forall>i. X (Suc i) = interval_widen (X i) (Y i))" for X Y n
  proof -
    have "card {i. i < n \<and> X (Suc i) \<noteq> X i} + unstable_bounds (X n) \<le> unstable_bounds (X 0)"
      by (rule changes_bounded) (metis that interval_widen_fewer)
    moreover have "unstable_bounds (X 0) \<le> 2" by (simp add: unstable_bounds_def)
    ultimately show ?thesis by linarith
  qed
qed

theorem interval_lattice_exact_witness:
  "interval_leq (interval_join \<lparr>iv_lo = 1, iv_hi = 2\<rparr> \<lparr>iv_lo = 5, iv_hi = (9 :: 8 word)\<rparr>) \<lparr>iv_lo = 1, iv_hi = 9\<rparr>"
proof -
  have "interval_wf \<lparr>iv_lo = 1, iv_hi = (2 :: 8 word)\<rparr>" "interval_wf \<lparr>iv_lo = 5, iv_hi = (9 :: 8 word)\<rparr>" by simp_all
  from interval_lattice_exact [OF this, THEN conjunct2, THEN conjunct2, THEN conjunct1, THEN spec,
    of "\<lparr>iv_lo = 1, iv_hi = 9\<rparr>"] show ?thesis by (simp add: interval_leq_def)
qed

end
