(* ===== verification/Abs_Facts.thy ===== *)
theory Abs_Facts
  imports Abs_Interval
begin

text \<open>
  The channel of bit-vector classes, \<open>Facts<W>\<close> (\<open>abstract-domains/src/facts.rs\<close>), its transfers
  (\<open>facts_ops.rs\<close>), and \<open>Refine\<close> for intervals.
\<close>

record 'W facts =
  f_u :: "'W interval"

definition facts_from_interval :: "'w::len word interval \<Rightarrow> 'w word facts" where
  "facts_from_interval u = \<lparr>f_u = u\<rparr>"

definition facts_interval :: "'w::len word facts \<Rightarrow> 'w word interval" where
  "facts_interval s = f_u s"

definition facts_reduced :: "'w::len word facts \<Rightarrow> bool" where
  "facts_reduced s = True"

definition facts_pre_wf :: "'w::len word facts \<Rightarrow> bool" where
  "facts_pre_wf s = interval_wf (f_u s)"

definition facts_wf :: "'w::len word facts \<Rightarrow> bool" where
  "facts_wf s = (facts_pre_wf s \<and> facts_reduced s)"

definition facts_gamma :: "'w::len word facts \<Rightarrow> 'w word \<Rightarrow> bool" where
  "facts_gamma s c = interval_gamma (f_u s) c"

definition facts_top :: "'w::len word facts" where
  "facts_top = \<lparr>f_u = interval_top\<rparr>"

definition facts_leq :: "'w::len word facts \<Rightarrow> 'w word facts \<Rightarrow> bool" where
  "facts_leq s o' = interval_leq (f_u s) (f_u o')"

definition facts_join :: "'w::len word facts \<Rightarrow> 'w word facts \<Rightarrow> 'w word facts" where
  "facts_join s o' = \<lparr>f_u = interval_join (f_u s) (f_u o')\<rparr>"

definition facts_meet :: "'w::len word facts \<Rightarrow> 'w word facts \<Rightarrow> 'w word facts bot_or" where
  "facts_meet s o' = (case interval_meet (f_u s) (f_u o') of Bot \<Rightarrow> Bot | Val u \<Rightarrow> Val \<lparr>f_u = u\<rparr>)"

definition facts_widen :: "'w::len word facts \<Rightarrow> 'w word facts \<Rightarrow> 'w word facts" where
  "facts_widen s o' = \<lparr>f_u = interval_widen (f_u s) (f_u o')\<rparr>"

definition facts_dom :: "('w::len word facts, 'w word) domain_ops" where
  "facts_dom = \<lparr>dm_wf = facts_wf, dm_gamma = facts_gamma, dm_top = facts_top, dm_leq = facts_leq,
     dm_join = facts_join, dm_meet = facts_meet, dm_widen = facts_widen\<rparr>"

definition facts_meet_exact :: "'w::len word facts \<Rightarrow> 'w word facts \<Rightarrow> 'w word facts bot_or" where
  "facts_meet_exact s o' = (case interval_meet_exact (f_u s) (f_u o') of Bot \<Rightarrow> Bot | Val u \<Rightarrow> Val \<lparr>f_u = u\<rparr>)"

definition facts_normalize :: "'w::len word facts \<Rightarrow> 'w word facts bot_or" where
  "facts_normalize s = Val s"

definition facts_chan :: "('w::len word facts, 'w word) channel_ops" where
  "facts_chan = domain_ops.extend facts_dom
     \<lparr>ch_pre_wf = facts_pre_wf, ch_meet_exact = facts_meet_exact, ch_normalize = facts_normalize\<rparr>"

definition facts_refiner :: "('w::len word facts, 'w word, 'w word facts) refine_ops" where
  "facts_refiner = domain_ops.extend facts_dom \<lparr>rf_to_channel = Val, rf_refine = meet_normalize facts_chan\<rparr>"

definition interval_to_channel :: "'w::len word interval \<Rightarrow> 'w word facts bot_or" where
  "interval_to_channel s = Val (facts_from_interval s)"

definition interval_refine :: "'w::len word interval \<Rightarrow> 'w word facts \<Rightarrow> 'w word interval bot_or" where
  "interval_refine s f = interval_meet_exact s (facts_interval f)"

definition interval_refiner :: "('w::len word interval, 'w word, 'w word facts) refine_ops" where
  "interval_refiner = domain_ops.extend interval_dom \<lparr>rf_to_channel = interval_to_channel, rf_refine = interval_refine\<rparr>"

subsection \<open>Transfers\<close>

definition facts_lift :: "'w::len word interval \<Rightarrow> 'w word facts" where
  "facts_lift u = (case facts_normalize (facts_from_interval u) of Val r \<Rightarrow> r | Bot \<Rightarrow> facts_top)"

definition facts_lift_div :: "'w::len word interval bot_or \<times> div_zero \<Rightarrow> 'w word facts bot_or \<times> div_zero" where
  "facts_lift_div q = (case fst q of Bot \<Rightarrow> (Bot, snd q) | Val u \<Rightarrow> (Val (facts_lift u), snd q))"

definition facts_arith :: "'w::len word facts arith_ops" where
  "facts_arith = \<lparr>ar_add = (\<lambda>s o'. facts_lift (interval_add (facts_interval s) (facts_interval o'))),
     ar_sub = (\<lambda>s o'. facts_lift (interval_sub (facts_interval s) (facts_interval o'))),
     ar_neg = (\<lambda>s. facts_lift (interval_neg (facts_interval s)))\<rparr>"

definition facts_mul :: "'w::len word facts \<Rightarrow> 'w word facts \<Rightarrow> 'w word facts" where
  "facts_mul s o' = facts_lift (interval_mul (facts_interval s) (facts_interval o'))"

definition facts_divrem :: "'w::len word interval divrem_ops \<Rightarrow> 'w word facts divrem_ops" where
  "facts_divrem I = \<lparr>dr_contains_zero = (\<lambda>s. dr_contains_zero I (facts_interval s)),
     dr_div = (\<lambda>s d. facts_lift_div (dr_div I (facts_interval s) (facts_interval d))),
     dr_rem = (\<lambda>s d. facts_lift_div (dr_rem I (facts_interval s) (facts_interval d)))\<rparr>"

text \<open>The comparisons answer \<open>Top\<close> and keep both operands, for either semantics.\<close>

definition facts_compare :: "'w::len word facts compare_ops" where
  "facts_compare = \<lparr>cm_lt = (\<lambda>s o'. B4Top), cm_le = (\<lambda>s o'. B4Top), cm_eq = (\<lambda>s o'. B4Top),
     cm_assume_lt = (\<lambda>s o' t. (Val s, Val o')), cm_assume_le = (\<lambda>s o' t. (Val s, Val o')),
     cm_assume_eq = (\<lambda>s o' t. (Val s, Val o'))\<rparr>"

section \<open>The laws\<close>

lemma facts_sel [simp]:
  "dm_wf facts_dom = (\<lambda>s. interval_wf (f_u s))" "dm_gamma facts_dom = (\<lambda>s. interval_gamma (f_u s))"
  "dm_wf facts_chan = (\<lambda>s. interval_wf (f_u s))" "dm_gamma facts_chan = (\<lambda>s. interval_gamma (f_u s))"
  "dm_wf facts_refiner = (\<lambda>s. interval_wf (f_u s))" "dm_gamma facts_refiner = (\<lambda>s. interval_gamma (f_u s))"
  "dm_top facts_dom = \<lparr>f_u = interval_top\<rparr>" "dm_top facts_chan = \<lparr>f_u = interval_top\<rparr>" "dm_top facts_refiner = \<lparr>f_u = interval_top\<rparr>"
  "dm_leq facts_dom = facts_leq" "dm_leq facts_chan = facts_leq" "dm_leq facts_refiner = facts_leq"
  "dm_join facts_dom = facts_join" "dm_join facts_chan = facts_join" "dm_join facts_refiner = facts_join"
  "dm_meet facts_dom = facts_meet" "dm_meet facts_chan = facts_meet" "dm_meet facts_refiner = facts_meet"
  "dm_widen facts_dom = facts_widen" "dm_widen facts_chan = facts_widen" "dm_widen facts_refiner = facts_widen"
  "ch_pre_wf facts_chan = facts_pre_wf" "ch_meet_exact facts_chan = facts_meet_exact" "ch_normalize facts_chan = Val"
  "rf_to_channel facts_refiner = Val" "rf_refine facts_refiner = meet_normalize facts_chan"
  by (auto simp: facts_dom_def facts_chan_def facts_refiner_def domain_ops.defs facts_wf_def facts_pre_wf_def facts_reduced_def
      facts_gamma_def facts_top_def facts_normalize_def intro!: ext)

lemma interval_refiner_sel [simp]:
  "dm_wf interval_refiner = interval_wf" "dm_gamma interval_refiner = interval_gamma" "dm_top interval_refiner = interval_top"
  "dm_leq interval_refiner = interval_leq" "dm_join interval_refiner = interval_join" "dm_meet interval_refiner = interval_meet"
  "dm_widen interval_refiner = interval_widen" "rf_to_channel interval_refiner = interval_to_channel" "rf_refine interval_refiner = interval_refine"
  by (simp_all add: interval_refiner_def interval_dom_def domain_ops.defs)

lemma facts_meet_map: "facts_meet s o' = map_bot_or (\<lambda>u. \<lparr>f_u = u\<rparr>) (interval_meet (f_u s) (f_u o'))"
  by (auto simp: facts_meet_def split: bot_or.splits)

lemma facts_meet_exact_eq: "facts_meet_exact = facts_meet"
  by (intro ext) (simp add: facts_meet_exact_def facts_meet_def interval_meet_exact_eq)

lemma facts_wraps:
  "wraps facts_dom interval_dom f_u (\<lambda>u. \<lparr>f_u = u\<rparr>)" "wraps facts_chan interval_dom f_u (\<lambda>u. \<lparr>f_u = u\<rparr>)"
  "wraps facts_refiner interval_dom f_u (\<lambda>u. \<lparr>f_u = u\<rparr>)" "wraps interval_refiner interval_dom id id"
  by (auto simp: wraps_def facts_leq_def facts_join_def facts_widen_def facts_meet_map bot_or.map_id intro!: ext)

lemma facts_bot_iff:
  "bot_wf facts_chan (facts_meet s o')" "bot_gamma facts_chan (facts_meet s o') c \<longleftrightarrow> interval_gamma (f_u s) c \<and> interval_gamma (f_u o') c"
  "bot_wf facts_refiner (facts_meet s o')" "bot_gamma facts_refiner (facts_meet s o') c \<longleftrightarrow> interval_gamma (f_u s) c \<and> interval_gamma (f_u o') c"
  "bot_wf interval_refiner (interval_meet a b)" "bot_gamma interval_refiner (interval_meet a b) c \<longleftrightarrow> interval_gamma a c \<and> interval_gamma b c"
  using wraps_bot [OF facts_wraps(4), of "interval_meet a b"]
  by (simp_all add: wraps_bot [OF facts_wraps(2)] wraps_bot [OF facts_wraps(3)] facts_meet_map interval_meet_wf interval_meet_gamma bot_or.map_id)

interpretation facts_c: channel "facts_chan :: ('w::len word facts, 'w word) channel_ops"
proof (intro channel.intro wraps_canonical [OF itv.canonical_domain_axioms facts_wraps(2)], unfold_locales)
  fix f g m :: "'w word facts"
  show "ch_meet_exact facts_chan f g = Val m \<Longrightarrow> ch_pre_wf facts_chan m"
    using facts_bot_iff(1) [of f g] by (simp add: facts_meet_exact_eq facts_pre_wf_def)
qed (simp_all add: facts_pre_wf_def facts_meet_exact_eq facts_bot_iff)

lemma meet_normalize_facts: "meet_normalize facts_chan f g = facts_meet f g"
  by (cases "facts_meet f g") (simp_all add: meet_normalize_def facts_meet_exact_eq)

interpretation facts_r: refiner "facts_refiner :: ('w::len word facts, 'w word, 'w word facts) refine_ops" facts_chan
  by (intro refiner.intro canonical_domain.axioms(1) wraps_canonical [OF itv.canonical_domain_axioms facts_wraps(3)]
      facts_c.channel_axioms, unfold_locales) (auto simp: meet_normalize_facts facts_bot_iff)

interpretation itv_r: refiner "interval_refiner :: ('w::len word interval, 'w word, 'w word facts) refine_ops" facts_chan
  by (intro refiner.intro canonical_domain.axioms(1) wraps_canonical [OF itv.canonical_domain_axioms facts_wraps(4)]
      facts_c.channel_axioms, unfold_locales)
    (auto simp: interval_to_channel_def interval_refine_def facts_from_interval_def facts_interval_def interval_meet_exact_eq facts_bot_iff)

section \<open>The transfers of \<open>Facts\<close>\<close>

lemma facts_lift_eq: "facts_lift u = \<lparr>f_u = u\<rparr>"
  by (simp add: facts_lift_def facts_normalize_def facts_from_interval_def)

lemma facts_sound2: "sound2 interval_dom h g \<Longrightarrow> sound2 facts_refiner (\<lambda>s o'. facts_lift (h (facts_interval s) (facts_interval o'))) g"
  by (simp add: sound2_def facts_lift_eq facts_interval_def)

lemma facts_sound1: "sound1 interval_dom h g \<Longrightarrow> sound1 facts_refiner (\<lambda>s. facts_lift (h (facts_interval s))) g"
  by (simp add: sound1_def facts_lift_eq facts_interval_def)

lemma facts_sound_div:
  "sound_div interval_dom S h g \<Longrightarrow> sound_div facts_refiner S (\<lambda>s d. facts_lift_div (h (facts_interval s) (facts_interval d))) g"
proof -
  have "facts_lift_div q = (map_bot_or (\<lambda>u. \<lparr>f_u = u\<rparr>) (fst q), snd q)" for q :: "'a word interval bot_or \<times> div_zero"
    by (auto simp: facts_lift_div_def facts_lift_eq split: bot_or.splits)
  moreover have "map_bot_or (\<lambda>u. \<lparr>f_u = u\<rparr>) x = Bot \<longleftrightarrow> x = Bot" for x :: "'a word interval bot_or" by (cases x) auto
  moreover assume "sound_div interval_dom S h g"
  ultimately show ?thesis by (simp add: wraps_bot [OF facts_wraps(3)] sound_div_def div_ok_def facts_interval_def)
qed

interpretation facts_ar: arith_transfer "facts_refiner :: ('w::len word facts, 'w word, 'w word facts) refine_ops" unsigned_sem facts_arith
  by unfold_locales (simp_all add: facts_arith_def unsigned_sem_word facts_sound2 facts_sound1 interval_add_sound interval_sub_sound interval_neg_sound)

interpretation facts_ml: mul_transfer "facts_refiner :: ('w::len word facts, 'w word, 'w word facts) refine_ops" unsigned_sem facts_mul
  by unfold_locales (simp add: facts_mul_def [abs_def] unsigned_sem_word facts_sound2 interval_mul_sound)

lemma facts_divrem_sound:
  assumes "divrem_transfer interval_dom S I"
  shows "divrem_transfer facts_refiner S (facts_divrem I)"
  unfolding facts_divrem_def
  by (intro divrem_transfer.intro divrem_transfer_axioms.intro facts_r.abs_domain_axioms; unfold divrem_ops.simps)
    (simp add: facts_interval_def divrem_transfer.contains_zero [OF assms],
     rule facts_sound_div [OF divrem_transfer.div [OF assms]], rule facts_sound_div [OF divrem_transfer.rem [OF assms]])

interpretation facts_dr: divrem_transfer "facts_refiner :: ('w::len word facts, 'w word, 'w word facts) refine_ops" unsigned_sem "facts_divrem interval_divrem"
  by (rule facts_divrem_sound [OF itv_divrem.divrem_transfer_axioms])

interpretation facts_sdr: divrem_transfer "facts_refiner :: ('w::len word facts, 'w word, 'w word facts) refine_ops" signed_sem "facts_divrem interval_signed_divrem"
  by (rule facts_divrem_sound [OF itv_signed.divrem_transfer_axioms])

interpretation facts_cm: compare_transfer "facts_refiner :: ('w::len word facts, 'w word, 'w word facts) refine_ops" S facts_compare for S
  by unfold_locales (simp_all add: facts_compare_def sound_cmp_def sound_assume_def assume_ok_def)

text \<open>\<open>Product<Interval<W>, Facts<W>>\<close>, and a nested product.\<close>

interpretation itv_facts: product_domain interval_refiner facts_refiner "facts_chan :: ('w::len word facts, 'w word) channel_ops"
  by unfold_locales

interpretation nested: product_domain "prod_refiner facts_chan interval_refiner facts_refiner" interval_refiner
  "facts_chan :: ('w::len word facts, 'w word) channel_ops"
  by unfold_locales

end
