(* ===== verification/Abs_Tnum.thy ===== *)
theory Abs_Tnum
  imports Prelude Abs_Word
begin

unbundle bit_operations_syntax

text \<open>
  The executable bit-level domains of \<open>abstract-domains/src/exec_tnum.rs\<close>: tristate numbers (\<open>ExecTnum\<close>), additive
  numbers (\<open>ExecAnum\<close>) and intervals, over words of any width; the source fixes 64 bits, and \<open>domains.rs\<close> generates the
  same operations for the other widths.  Division by zero and a difference below zero are panics.
\<close>

section \<open>Tristate numbers\<close>

record 'a exec_tnum =
  tn_val :: 'a
  tn_mask :: 'a

text \<open>\<open>contains\<close>: the bits outside the mask are those of the value.\<close>

definition tn_wf :: "'w::len word exec_tnum \<Rightarrow> bool" where
  "tn_wf t \<longleftrightarrow> tn_val t AND tn_mask t = 0"

definition tn_contains :: "'w::len word exec_tnum \<Rightarrow> 'w word \<Rightarrow> bool" where
  "tn_contains t x \<longleftrightarrow> x AND NOT (tn_mask t) = tn_val t"

definition tn_constant :: "'w::len word \<Rightarrow> 'w word exec_tnum" where
  "tn_constant n = \<lparr>tn_val = n, tn_mask = 0\<rparr>"

definition tn_top :: "'w::len word exec_tnum" where
  "tn_top = \<lparr>tn_val = 0, tn_mask = NOT 0\<rparr>"

definition tn_or :: "'w::len word exec_tnum \<Rightarrow> 'w word exec_tnum \<Rightarrow> 'w word exec_tnum" where
  "tn_or s t = (let v = tn_val s OR tn_val t; m = (tn_mask s OR tn_mask t) AND NOT v in \<lparr>tn_val = v, tn_mask = m\<rparr>)"

definition tn_and :: "'w::len word exec_tnum \<Rightarrow> 'w word exec_tnum \<Rightarrow> 'w word exec_tnum" where
  "tn_and s t = \<lparr>tn_val = tn_val s AND tn_val t, tn_mask = tn_mask s OR tn_mask t\<rparr>"

definition tn_xor :: "'w::len word exec_tnum \<Rightarrow> 'w word exec_tnum \<Rightarrow> 'w word exec_tnum" where
  "tn_xor s t = (let v = tn_val s XOR tn_val t; m = tn_mask s OR tn_mask t in \<lparr>tn_val = v AND NOT m, tn_mask = m\<rparr>)"

definition tn_add :: "'w::len word exec_tnum \<Rightarrow> 'w word exec_tnum \<Rightarrow> 'w word exec_tnum" where
  "tn_add s t = (let lbv = tn_val s + tn_val t; lbm = tn_mask s + tn_mask t; ub = lbv + lbm;
     m = (ub XOR lbv) OR tn_mask s OR tn_mask t in \<lparr>tn_val = lbv AND NOT m, tn_mask = m\<rparr>)"

definition tn_neg :: "'w::len word exec_tnum \<Rightarrow> 'w word exec_tnum" where
  "tn_neg t = tn_add (tn_xor t \<lparr>tn_val = NOT 0, tn_mask = 0\<rparr>) (tn_constant 1)"

definition tn_sub :: "'w::len word exec_tnum \<Rightarrow> 'w word exec_tnum \<Rightarrow> 'w word exec_tnum" where
  "tn_sub s t = tn_add s (tn_neg t)"

definition tn_rsh :: "'w::len word exec_tnum \<Rightarrow> 'w word exec_tnum" where
  "tn_rsh t = \<lparr>tn_val = drop_bit 1 (tn_val t), tn_mask = drop_bit 1 (tn_mask t)\<rparr>"

definition tn_lsh :: "'w::len word exec_tnum \<Rightarrow> 'w word exec_tnum" where
  "tn_lsh t = \<lparr>tn_val = push_bit 1 (tn_val t), tn_mask = push_bit 1 (tn_mask t)\<rparr>"

definition tn_join :: "'w::len word exec_tnum \<Rightarrow> 'w word exec_tnum \<Rightarrow> 'w word exec_tnum" where
  "tn_join s t = (let v = tn_val s AND tn_val t; u = (tn_val s XOR tn_mask s) OR (tn_val t XOR tn_mask t); m = v XOR u in
     \<lparr>tn_val = v AND NOT m, tn_mask = m\<rparr>)"

definition tn_min_val :: "'w::len word exec_tnum \<Rightarrow> 'w word" where
  "tn_min_val t = tn_val t"

definition tn_max_val :: "'w::len word exec_tnum \<Rightarrow> 'w word" where
  "tn_max_val t = tn_val t OR tn_mask t"

definition tn_is_const :: "'w::len word exec_tnum \<Rightarrow> bool" where
  "tn_is_const t \<longleftrightarrow> tn_mask t = 0"

definition tn_not :: "'w::len word exec_tnum \<Rightarrow> 'w word exec_tnum" where
  "tn_not t = tn_xor t \<lparr>tn_val = NOT 0, tn_mask = 0\<rparr>"

definition tn_and_not :: "'w::len word exec_tnum \<Rightarrow> 'w word exec_tnum \<Rightarrow> 'w word exec_tnum" where
  "tn_and_not s t = tn_and s (tn_not t)"

definition tn_meet :: "'w::len word exec_tnum \<Rightarrow> 'w word exec_tnum \<Rightarrow> 'w word exec_tnum" where
  "tn_meet s t = (let v = tn_val s OR tn_val t; u = (tn_val s XOR tn_mask s) AND (tn_val t XOR tn_mask t); m = v XOR u in
     \<lparr>tn_val = v AND NOT m, tn_mask = m\<rparr>)"

fun tn_lshi :: "'w::len word exec_tnum \<Rightarrow> nat \<Rightarrow> 'w word exec_tnum" where
  "tn_lshi t i = (if i = 0 then t else tn_lsh (tn_lshi t (i - 1)))"

fun tn_rshi :: "'w::len word exec_tnum \<Rightarrow> nat \<Rightarrow> 'w word exec_tnum" where
  "tn_rshi t i = (if i = 0 then t else tn_rshi (tn_rsh t) (i - 1))"

declare tn_lshi.simps [simp del] tn_rshi.simps [simp del]

definition tn_mul_bit :: "'w::len word exec_tnum \<Rightarrow> bool \<Rightarrow> bool \<Rightarrow> 'w word exec_tnum" where
  "tn_mul_bit t bv bm = (if bv then t else if bm then \<lparr>tn_val = 0, tn_mask = tn_val t OR tn_mask t\<rparr> else tn_constant 0)"

text \<open>The loop of \<open>mul\<close>, with the number of rounds left.\<close>

fun tn_mul_loop :: "nat \<Rightarrow> 'w::len word exec_tnum \<Rightarrow> 'w word exec_tnum \<Rightarrow> 'w word \<Rightarrow> 'w word \<Rightarrow> 'w word exec_tnum" where
  "tn_mul_loop 0 acc multiplicand multiplier msk = acc"
| "tn_mul_loop (Suc n) acc multiplicand multiplier msk =
    (let bv = multiplier AND 1 = 1; bm = msk AND 1 = 1;
         acc = (if bv then tn_add acc multiplicand
                else if bm then tn_add acc (tn_mul_bit multiplicand False True)
                else acc) in
     tn_mul_loop n acc (tn_lsh multiplicand) (drop_bit 1 multiplier) (drop_bit 1 msk))"

definition tn_mul :: "'w::len word exec_tnum \<Rightarrow> 'w word exec_tnum \<Rightarrow> 'w word exec_tnum" where
  "tn_mul s t = tn_mul_loop LENGTH('w) (tn_constant 0) s (tn_val t) (tn_mask t)"

section \<open>Additive numbers\<close>

record 'a exec_anum =
  an_base :: 'a
  an_span :: 'a

definition an_has :: "'w::len word exec_anum \<Rightarrow> 'w word \<Rightarrow> bool" where
  "an_has a x \<longleftrightarrow> an_base a \<le> x \<and> (x - an_base a) AND NOT (an_span a) = 0"

definition an_constant :: "'w::len word \<Rightarrow> 'w word exec_anum" where
  "an_constant n = \<lparr>an_base = n, an_span = 0\<rparr>"

definition an_top :: "'w::len word exec_anum" where
  "an_top = \<lparr>an_base = 0, an_span = NOT 0\<rparr>"

definition an_add :: "'w::len word exec_anum \<Rightarrow> 'w word exec_anum \<Rightarrow> 'w word exec_anum" where
  "an_add a b =
    (let v = an_base a + an_base b; max1 = an_base a + an_span a; max2 = an_base b + an_span b; max_sum = max1 + max2;
         m1 = an_span a; m2 = an_span b; m = (m1 + m2) OR m1 OR m2 in
     if max1 < an_base a \<or> max2 < an_base b \<or> max_sum < max1 \<or> max_sum < max2 \<or> v < an_base a \<or> m < m1 then an_top
     else \<lparr>an_base = v, an_span = m\<rparr>)"

definition an_sub :: "'w::len word exec_anum \<Rightarrow> 'w word exec_anum \<Rightarrow> 'w word exec_anum" where
  "an_sub a b =
    (let max2 = an_base b + an_span b; v = an_base a - max2; m1 = an_span a; m2 = an_span b; m = (m1 + m2) OR m1 OR m2 in
     if max2 < an_base b \<or> an_base a < v \<or> m < m1 then an_top
     else \<lparr>an_base = v, an_span = m\<rparr>)"

text \<open>The loop of \<open>ones_mask\<close>, with the number of rounds left.\<close>

fun ones_loop :: "nat \<Rightarrow> 'w::len word \<Rightarrow> 'w word \<Rightarrow> 'w word" where
  "ones_loop 0 m n = m"
| "ones_loop (Suc k) m n = (if m < n then ones_loop k (push_bit 1 m OR 1) n else m)"

definition ones_mask :: "'w::len word \<Rightarrow> 'w word" where
  "ones_mask n = (if n = 0 then 0 else
     let m = ones_loop (LENGTH('w) - 1) 1 n in if n \<le> m then m else NOT 0)"

definition an_div_const :: "'w::len word exec_anum \<Rightarrow> 'w word \<Rightarrow> 'w word exec_anum res" where
  "an_div_const a d = rbind (rassert (d \<noteq> 0) DivideByZero) (\<lambda>_.
    let min_q = an_base a div d; max_v = an_base a + an_span a; max_q = max_v div d in
    Inr (if max_q < min_q \<or> max_v < an_base a then an_top else \<lparr>an_base = min_q, an_span = ones_mask (max_q - min_q)\<rparr>))"

definition an_to_etn :: "'w::len word exec_anum \<Rightarrow> 'w word exec_tnum" where
  "an_to_etn a = \<lparr>tn_val = an_base a AND NOT (an_span a), tn_mask = an_span a\<rparr>"

definition an_from_etn :: "'w::len word exec_tnum \<Rightarrow> 'w word exec_anum" where
  "an_from_etn t = \<lparr>an_base = tn_val t, an_span = tn_mask t\<rparr>"

definition an_min_val :: "'w::len word exec_anum \<Rightarrow> 'w word" where
  "an_min_val a = an_base a"

definition an_max_val :: "'w::len word exec_anum \<Rightarrow> 'w word" where
  "an_max_val a = an_base a + an_span a"

definition an_mul :: "'w::len word exec_anum \<Rightarrow> 'w word exec_anum \<Rightarrow> 'w word exec_anum" where
  "an_mul a b = an_from_etn (tn_mul (an_to_etn a) (an_to_etn b))"

definition tn_div_const :: "'w::len word exec_tnum \<Rightarrow> 'w word \<Rightarrow> 'w word exec_tnum res" where
  "tn_div_const t d = rbind (an_div_const (an_from_etn t) d) (\<lambda>a. Inr (an_to_etn a))"

definition tn_mod_const :: "'w::len word exec_tnum \<Rightarrow> 'w word \<Rightarrow> 'w word exec_tnum res" where
  "tn_mod_const t d = rbind (tn_div_const t d) (\<lambda>q. Inr (tn_sub t (tn_mul q (tn_constant d))))"

section \<open>Intervals\<close>

record 'a exec_interval =
  xi_lo :: 'a
  xi_hi :: 'a

definition xi_wf :: "'w::len word exec_interval \<Rightarrow> bool" where
  "xi_wf a \<longleftrightarrow> xi_lo a \<le> xi_hi a"

definition xi_has :: "'w::len word exec_interval \<Rightarrow> 'w word \<Rightarrow> bool" where
  "xi_has a x \<longleftrightarrow> xi_lo a \<le> x \<and> x \<le> xi_hi a"

definition xi_constant :: "'w::len word \<Rightarrow> 'w word exec_interval" where
  "xi_constant n = \<lparr>xi_lo = n, xi_hi = n\<rparr>"

definition xi_top :: "'w::len word exec_interval" where
  "xi_top = \<lparr>xi_lo = 0, xi_hi = NOT 0\<rparr>"

definition xi_add :: "'w::len word exec_interval \<Rightarrow> 'w word exec_interval \<Rightarrow> 'w word exec_interval" where
  "xi_add a b = (let lo = xi_lo a + xi_lo b; hi = xi_hi a + xi_hi b in
     if lo < xi_lo a \<or> hi < xi_hi a \<or> hi < lo then xi_top else \<lparr>xi_lo = lo, xi_hi = hi\<rparr>)"

definition xi_meet :: "'w::len word exec_interval \<Rightarrow> 'w word exec_interval \<Rightarrow> 'w word exec_interval" where
  "xi_meet a b = (let lo = (if xi_lo b < xi_lo a then xi_lo a else xi_lo b); hi = (if xi_hi a < xi_hi b then xi_hi a else xi_hi b) in
     if hi < lo then xi_top else \<lparr>xi_lo = lo, xi_hi = hi\<rparr>)"

definition xi_join :: "'w::len word exec_interval \<Rightarrow> 'w word exec_interval \<Rightarrow> 'w word exec_interval" where
  "xi_join a b = (let lo = (if xi_lo a < xi_lo b then xi_lo a else xi_lo b); hi = (if xi_hi b < xi_hi a then xi_hi a else xi_hi b) in
     \<lparr>xi_lo = lo, xi_hi = hi\<rparr>)"

definition xi_sub :: "'w::len word exec_interval \<Rightarrow> 'w word exec_interval \<Rightarrow> 'w word exec_interval" where
  "xi_sub a b = (if xi_hi b \<le> xi_lo a \<and> xi_lo b \<le> xi_hi a then \<lparr>xi_lo = xi_lo a - xi_hi b, xi_hi = xi_hi a - xi_lo b\<rparr> else xi_top)"

definition xi_div_const :: "'w::len word exec_interval \<Rightarrow> 'w word \<Rightarrow> 'w word exec_interval res" where
  "xi_div_const a d = rbind (rassert (d \<noteq> 0) DivideByZero) (\<lambda>_. Inr \<lparr>xi_lo = xi_lo a div d, xi_hi = xi_hi a div d\<rparr>)"

definition xi_mod_const :: "'w::len word exec_interval \<Rightarrow> 'w word \<Rightarrow> 'w word exec_interval res" where
  "xi_mod_const a d =
    rbind (rassert (xi_lo a \<le> xi_hi a) ArithOverflow) (\<lambda>_.
    if xi_hi a - xi_lo a < d then
      rbind (rassert (d \<noteq> 0) RemainderByZero) (\<lambda>_.
      if xi_lo a mod d \<le> xi_hi a mod d then Inr \<lparr>xi_lo = xi_lo a mod d, xi_hi = xi_hi a mod d\<rparr> else Inr \<lparr>xi_lo = 0, xi_hi = d - 1\<rparr>)
    else rbind (rassert (d \<noteq> 0) ArithOverflow) (\<lambda>_. Inr \<lparr>xi_lo = 0, xi_hi = d - 1\<rparr>))"

definition xi_mul :: "'w::len word exec_interval \<Rightarrow> 'w word exec_interval \<Rightarrow> 'w word exec_interval" where
  "xi_mul a b = (case (w_checked_mul (xi_lo a) (xi_lo b), w_checked_mul (xi_hi a) (xi_hi b)) of
      (Some l, Some h) \<Rightarrow> if l \<le> h then \<lparr>xi_lo = l, xi_hi = h\<rparr> else xi_top
    | _ \<Rightarrow> xi_top)"

end
