(* ===== verification/Abs_Tnum_Props.thy ===== *)
theory Abs_Tnum_Props
  imports Abs_Tnum
begin

unbundle bit_operations_syntax

text \<open>
  Containment of the executable bit-level domains, bit by bit: the bits of a sum are decided by the carries, and a carry
  is monotone in the operands, so a bit that is the same for the least and the greatest operands is the same for all.
\<close>

section \<open>Bits\<close>

lemma tn_contains_bits: "tn_contains t x \<longleftrightarrow> (\<forall>i < LENGTH('w). if bit (tn_mask t) i then \<not> bit (tn_val t) i else bit x i = bit (tn_val t) i)"
  for x :: "'w::len word"
  by (auto simp: tn_contains_def bit_eq_iff bit_simps)

lemma tn_wf_bits: "tn_wf t \<longleftrightarrow> (\<forall>i < LENGTH('w). \<not> (bit (tn_val t) i \<and> bit (tn_mask t) i))" for t :: "'w::len word exec_tnum"
  by (auto simp: tn_wf_def bit_eq_iff bit_simps)

lemma tn_contains_wf: "tn_contains t x \<Longrightarrow> tn_wf t"
  by (auto simp: tn_contains_bits tn_wf_bits split: if_splits)

lemma tn_wf_contains_val: "tn_wf t \<Longrightarrow> tn_contains t (tn_val t)"
  by (auto simp: tn_contains_bits tn_wf_bits)

text \<open>The carry into position \<open>i\<close>.\<close>

definition carry :: "nat \<Rightarrow> 'w::len word \<Rightarrow> 'w word \<Rightarrow> bool" where
  "carry i x y \<longleftrightarrow> 2 ^ i \<le> take_bit i (uint x) + take_bit i (uint y)"

lemma bit_sum_int:
  assumes "0 \<le> a" "0 \<le> b"
  shows "bit (a + b) i \<longleftrightarrow> (bit a i \<noteq> bit b i) \<noteq> (2 ^ i \<le> take_bit i a + take_bit i (b :: int))"
proof -
  let ?c = "(a mod 2 ^ i + b mod 2 ^ i) div 2 ^ i"
  have "(a + b) div 2 ^ i = a div 2 ^ i + b div 2 ^ i + ?c" by (rule div_add1_eq)
  moreover have "?c = (if 2 ^ i \<le> a mod 2 ^ i + b mod 2 ^ i then 1 else 0)"
  proof (cases "2 ^ i \<le> a mod 2 ^ i + b mod 2 ^ i")
    case True
    have "a mod 2 ^ i < 2 ^ i" "b mod 2 ^ i < 2 ^ i" by simp_all
    then have "a mod 2 ^ i + b mod 2 ^ i < 2 * 2 ^ i" by linarith
    then have "?c = 1" using True div_pos_geq [of "2 ^ i" "a mod 2 ^ i + b mod 2 ^ i"] by (simp add: div_pos_pos_trivial)
    then show ?thesis using True by simp
  qed (simp add: div_pos_pos_trivial)
  ultimately show ?thesis unfolding bit_iff_odd take_bit_eq_mod by auto
qed

lemma bit_sum: "i < LENGTH('w) \<Longrightarrow> bit (x + y) i \<longleftrightarrow> (bit x i \<noteq> bit y i) \<noteq> carry i x y" for x y :: "'w::len word"
proof -
  assume i: "i < LENGTH('w)"
  have "bit (x + y) i \<longleftrightarrow> bit (uint (x + y)) i" using i by (simp add: bit_uint_iff)
  also have "\<dots> \<longleftrightarrow> bit (uint x + uint y) i" using i unfolding uint_word_ariths by (simp add: bit_take_bit_iff flip: take_bit_eq_mod)
  finally have "bit (x + y) i \<longleftrightarrow> bit (uint x + uint y) i" .
  then show ?thesis using bit_sum_int [of "uint x" "uint y" i] i by (simp add: carry_def bit_uint_iff)
qed

definition subset_bits :: "'w::len word \<Rightarrow> 'w word \<Rightarrow> bool" where
  "subset_bits x y \<longleftrightarrow> x AND NOT y = 0"

lemma subset_bits_iff: "subset_bits x y \<longleftrightarrow> (\<forall>i < LENGTH('w). bit x i \<longrightarrow> bit y i)" for x y :: "'w::len word"
  by (auto simp: subset_bits_def bit_eq_iff bit_simps)

lemma subset_bits_take: "subset_bits x y \<Longrightarrow> take_bit i (uint x) \<le> take_bit i (uint y)" for x y :: "'w::len word"
proof -
  assume s: "subset_bits x y"
  have "take_bit i (uint x) = take_bit i (uint y) AND take_bit i (uint x)"
    using s by (auto simp: subset_bits_iff bit_eq_iff bit_simps bit_uint_iff dest: bit_imp_le_length)
  also have "\<dots> \<le> take_bit i (uint y)" by (rule AND_upper1) simp
  finally show ?thesis .
qed

lemma carry_mono: "subset_bits x x' \<Longrightarrow> subset_bits y y' \<Longrightarrow> carry i x y \<Longrightarrow> carry i x' y'"
  unfolding carry_def by (meson add_mono order.trans subset_bits_take)

section \<open>Tristate numbers\<close>

lemma tn_upper: "tn_wf t \<Longrightarrow> tn_val t + tn_mask t = tn_val t OR tn_mask t"
  by (simp add: tn_wf_def disjunctive_add_eq_or)

lemma tn_contains_between:
  "tn_contains t x \<Longrightarrow> subset_bits (tn_val t) x \<and> subset_bits x (tn_val t OR tn_mask t)"
  by (auto simp: tn_contains_bits subset_bits_iff bit_simps split: if_splits)

lemma tn_add_sound:
  fixes x y :: "'w::len word"
  assumes "tn_contains s x" "tn_contains t y"
  shows "tn_contains (tn_add s t) (x + y)"
proof -
  let ?lo = "tn_val s + tn_val t" and ?hi = "(tn_val s OR tn_mask s) + (tn_val t OR tn_mask t)"
  have wf: "tn_wf s" "tn_wf t" using assms tn_contains_wf by auto
  have hi: "tn_val s + tn_val t + (tn_mask s + tn_mask t) = ?hi"
    unfolding tn_upper [OF wf(1), symmetric] tn_upper [OF wf(2), symmetric] by (simp only: ac_simps)
  note b = tn_contains_between [OF assms(1)] tn_contains_between [OF assms(2)]
  have "bit (x + y) i = bit ?lo i" if i: "i < LENGTH('w)" "\<not> bit (tn_mask s) i" "\<not> bit (tn_mask t) i" "bit ?hi i = bit ?lo i" for i
  proof -
    have v: "bit x i = bit (tn_val s) i" "bit y i = bit (tn_val t) i" using assms i by (auto simp: tn_contains_bits)
    have "carry i (tn_val s) (tn_val t) = carry i (tn_val s OR tn_mask s) (tn_val t OR tn_mask t)"
      using i(4) unfolding bit_sum [OF i(1)] by (simp add: bit_or_iff i(2,3)) blast
    then have "carry i x y = carry i (tn_val s) (tn_val t)" using carry_mono b by blast
    then show ?thesis unfolding bit_sum [OF i(1)] v by simp
  qed
  then show ?thesis unfolding tn_add_def Let_def hi by (auto simp: tn_contains_bits bit_simps)
qed

lemma tn_bitwise_sound:
  assumes "tn_contains s x" "tn_contains t y"
  shows "tn_contains (tn_or s t) (x OR y)" "tn_contains (tn_and s t) (x AND y)" "tn_contains (tn_xor s t) (x XOR y)"
  using assms by (auto simp: tn_contains_bits tn_or_def tn_and_def tn_xor_def Let_def bit_simps split: if_splits)

lemma tn_constant_sound: "tn_contains (tn_constant n) x \<longleftrightarrow> x = n"
  by (simp add: tn_contains_def tn_constant_def)

lemma tn_not_sound: "tn_contains t x \<Longrightarrow> tn_contains (tn_not t) (NOT x)"
  using tn_bitwise_sound(3) [of t x "\<lparr>tn_val = NOT 0, tn_mask = 0\<rparr>" "NOT 0"] by (simp add: tn_not_def tn_contains_def)

lemma tn_neg_sound: "tn_contains t x \<Longrightarrow> tn_contains (tn_neg t) (- x)"
  unfolding tn_neg_def minus_eq_not_plus_1 tn_not_def [symmetric]
  by (rule tn_add_sound [OF tn_not_sound]) (simp_all only: tn_constant_sound)

lemma tn_sub_sound: "tn_contains s x \<Longrightarrow> tn_contains t y \<Longrightarrow> tn_contains (tn_sub s t) (x - y)"
  using tn_add_sound [OF _ tn_neg_sound, of s x t y] by (simp add: tn_sub_def)

lemma tn_lsh_sound: "tn_contains t x \<Longrightarrow> tn_contains (tn_lsh t) (push_bit 1 x)" for x :: "'w::len word"
proof -
  assume "tn_contains t x"
  moreover have "push_bit k x AND NOT (push_bit k m) = push_bit k (x AND NOT m)" for k m
    by (rule bit_eqI) (auto simp: bit_simps dest: bit_imp_le_length)
  ultimately show ?thesis unfolding tn_contains_def tn_lsh_def exec_tnum.simps by (simp only:)
qed

lemma tn_rsh_sound: "tn_contains t x \<Longrightarrow> tn_contains (tn_rsh t) (drop_bit 1 x)"
  by (auto simp: tn_contains_bits tn_rsh_def bit_simps split: if_splits dest: bit_imp_le_length)

lemma tn_join_sound: "tn_wf s \<Longrightarrow> tn_wf t \<Longrightarrow> tn_contains s x \<or> tn_contains t x \<Longrightarrow> tn_contains (tn_join s t) x"
  by (auto simp: tn_contains_bits tn_wf_bits tn_join_def Let_def bit_simps split: if_splits)

lemma tn_meet_sound: "tn_contains s x \<Longrightarrow> tn_contains t x \<Longrightarrow> tn_contains (tn_meet s t) x"
  by (auto simp: tn_contains_bits tn_meet_def Let_def bit_simps split: if_splits)

lemma tn_lshi_sound: "tn_contains t x \<Longrightarrow> tn_contains (tn_lshi t i) (push_bit i x)"
proof (induction i)
  case (Suc i)
  have "push_bit (Suc i) x = push_bit 1 (push_bit i x)" by (simp add: push_bit_push_bit)
  then show ?case using tn_lsh_sound [OF Suc.IH [OF Suc.prems]] by (simp add: tn_lshi.simps [of t "Suc i"])
qed (simp add: tn_lshi.simps)

lemma tn_rshi_sound: "tn_contains t x \<Longrightarrow> tn_contains (tn_rshi t i) (drop_bit i x)"
proof (induction i arbitrary: t x)
  case (Suc i)
  have "drop_bit (Suc i) x = drop_bit i (drop_bit 1 x)" by (simp add: drop_bit_drop_bit)
  then show ?case using Suc.IH [OF tn_rsh_sound [OF Suc.prems]] by (simp add: tn_rshi.simps [of t "Suc i"])
qed (simp add: tn_rshi.simps)

lemma tn_mul_bit_sound: "tn_contains t x \<Longrightarrow> tn_contains (tn_mul_bit t False True) x \<and> tn_contains (tn_mul_bit t False True) 0"
  by (auto simp: tn_contains_bits tn_mul_bit_def bit_simps split: if_splits)

text \<open>Every round of the multiplication moves one bit of the multiplier into the accumulator.\<close>

lemma tn_mul_loop_sound:
  fixes a p r :: "'w::len word"
  assumes "tn_contains acc a" "tn_contains mc p" "tn_contains \<lparr>tn_val = mv, tn_mask = mm\<rparr> r" "unat r < 2 ^ n"
  shows "tn_contains (tn_mul_loop n acc mc mv mm) (a + p * r)"
  using assms
proof (induction n arbitrary: acc mc mv mm a p r)
  case 0
  then have "r = 0" by (simp add: unat_eq_zero)
  then show ?case using 0 by simp
next
  case (Suc n)
  let ?b = "r AND 1"
  have r: "r = ?b + push_bit 1 (drop_bit 1 r)"
    by (simp add: and_one_eq push_bit_eq_mult drop_bit_Suc) (metis add.commute mult.commute mult_div_mod_eq)
  have e: "a + p * r = (a + p * ?b) + push_bit 1 p * drop_bit 1 r"
    by (subst r) (simp add: algebra_simps push_bit_eq_mult)
  have rb: "?b = (if bit r 0 then 1 else 0)" by (simp add: and_one_eq bit_0 odd_iff_mod_2_eq_one)
  have bits: "if bit mm 0 then \<not> bit mv 0 else bit r 0 = bit mv 0" using Suc.prems(3) by (auto simp: tn_contains_bits)
  have one: "w AND 1 = 1 \<longleftrightarrow> bit w 0" for w :: "'w word" by (simp add: and_one_eq bit_0 odd_iff_mod_2_eq_one)
  let ?acc = "if mv AND 1 = 1 then tn_add acc mc else if mm AND 1 = 1 then tn_add acc (tn_mul_bit mc False True) else acc"
  have "tn_contains ?acc (a + p * ?b)"
    using bits Suc.prems(1,2) tn_add_sound [OF Suc.prems(1,2)] tn_add_sound [OF Suc.prems(1)] tn_mul_bit_sound [OF Suc.prems(2)]
    unfolding one rb by (fastforce split: if_splits)
  moreover have "tn_contains \<lparr>tn_val = drop_bit 1 mv, tn_mask = drop_bit 1 mm\<rparr> (drop_bit 1 r)" using tn_rsh_sound [OF Suc.prems(3)] by (simp add: tn_rsh_def)
  moreover have "unat (drop_bit 1 r) < 2 ^ n" using Suc.prems(4)
    by (subst unat_drop_bit_eq, subst drop_bit_eq_div) (simp add: less_mult_imp_div_less mult.commute)
  ultimately show ?case unfolding e using Suc.IH tn_lsh_sound [OF Suc.prems(2)] by (simp add: Let_def)
qed

lemma tn_mul_sound: "tn_contains s x \<Longrightarrow> tn_contains t y \<Longrightarrow> tn_contains (tn_mul s t) (x * y)" for x y :: "'w::len word"
  using tn_mul_loop_sound [of "tn_constant 0" 0 s x "tn_val t" "tn_mask t" y "LENGTH('w)"] unsigned_less [of y]
  by (simp add: tn_mul_def tn_constant_sound) (simp add: tn_contains_def)

section \<open>Additive numbers\<close>

lemma mask_sum_covers: "subset_bits x m \<Longrightarrow> subset_bits y n \<Longrightarrow> subset_bits (x + y) ((m + n) OR m OR n)"
  using tn_add_sound [of "\<lparr>tn_val = 0, tn_mask = m\<rparr>" x "\<lparr>tn_val = 0, tn_mask = n\<rparr>" y]
  by (simp add: tn_contains_def subset_bits_def tn_add_def Let_def)

lemma subset_bits_le: "subset_bits x y \<Longrightarrow> uint x \<le> uint y" for x y :: "'w::len word"
  using subset_bits_take [of x y "LENGTH('w)"] by (simp add: take_bit_int_eq_self uint_lt2p)

lemma subset_bits_diff: "subset_bits x y \<Longrightarrow> subset_bits (y - x) y" for x y :: "'w::len word"
proof -
  assume s: "subset_bits x y"
  then have "y = x OR (y AND NOT x)" by (auto simp: subset_bits_iff bit_eq_iff bit_simps)
  also have "\<dots> = x + (y AND NOT x)" by (rule disjunctive_add_eq_or [symmetric]) (auto simp: bit_eq_iff bit_simps)
  finally have "y - x = y AND NOT x" by (simp add: algebra_simps)
  then show ?thesis by (auto simp: subset_bits_iff bit_simps)
qed

text \<open>A member lies between the base and the base plus the span, as integers when that sum does not wrap.\<close>

lemma an_hasE:
  assumes "an_has a x"
  obtains e where "subset_bits e (an_span a)" "x = an_base a + e" "uint x = uint (an_base a) + uint e" "uint e \<le> uint (an_span a)"
proof
  have "subset_bits (x - an_base a) (an_span a)" "an_base a \<le> x" using assms by (simp_all add: an_has_def subset_bits_def)
  then show "subset_bits (x - an_base a) (an_span a)" "x = an_base a + (x - an_base a)"
    "uint x = uint (an_base a) + uint (x - an_base a)" "uint (x - an_base a) \<le> uint (an_span a)"
    by (simp, simp, simp add: uint_sub_if' word_le_def, simp only: subset_bits_le)
qed

lemma an_hasI: "subset_bits e (an_span a) \<Longrightarrow> x = an_base a + e \<Longrightarrow> uint (an_base a) \<le> uint x \<Longrightarrow> an_has a x"
  by (simp add: an_has_def subset_bits_def word_le_def)

lemma an_top_sound: "an_has an_top x"
  by (simp add: an_has_def an_top_def)

lemma no_wrap: "\<not> a + b < a \<Longrightarrow> uint (a + b) = uint a + uint b" for a b :: "'w::len word"
  by (simp add: linorder_not_less uint_plus_simple_iff)

lemma an_add_sound:
  assumes x: "an_has a x" and y: "an_has b y"
  shows "an_has (an_add a b) (x + y)"
proof -
  obtain d where d: "subset_bits d (an_span a)" "x = an_base a + d" "uint x = uint (an_base a) + uint d" "uint d \<le> uint (an_span a)"
    using x by (rule an_hasE)
  obtain e where e: "subset_bits e (an_span b)" "y = an_base b + e" "uint y = uint (an_base b) + uint e" "uint e \<le> uint (an_span b)"
    using y by (rule an_hasE)
  let ?m1 = "an_base a + an_span a" and ?m2 = "an_base b + an_span b" and ?v = "an_base a + an_base b"
  have "an_has \<lparr>an_base = ?v, an_span = (an_span a + an_span b) OR an_span a OR an_span b\<rparr> (x + y)"
    if "\<not> ?m1 < an_base a" "\<not> ?m2 < an_base b" "\<not> ?m1 + ?m2 < ?m1" "\<not> ?v < an_base a"
  proof (rule an_hasI [where e = "d + e"])
    have m: "uint x \<le> uint ?m1" "uint y \<le> uint ?m2" using d e no_wrap [OF that(1)] no_wrap [OF that(2)] by simp_all
    have "uint x + uint y \<le> uint (?m1 + ?m2)" unfolding no_wrap [OF that(3)] using m by (rule add_mono)
    also have "\<dots> < 2 ^ LENGTH('a)" by (rule uint_lt2p)
    finally have xy: "uint (x + y) = uint x + uint y" by (simp only: uint_add_lem)
    have "uint ?v = uint (an_base a) + uint (an_base b)" using that(4) by (rule no_wrap)
    then show "uint (an_base \<lparr>an_base = ?v, an_span = (an_span a + an_span b) OR an_span a OR an_span b\<rparr>) \<le> uint (x + y)"
      unfolding xy d(3) e(3) by simp
  qed (use mask_sum_covers [OF d(1) e(1)] d(2) e(2) in \<open>simp_all add: algebra_simps\<close>)
  then show ?thesis by (simp add: an_add_def Let_def an_top_sound)
qed

lemma an_sub_sound:
  assumes x: "an_has a x" and y: "an_has b y"
  shows "an_has (an_sub a b) (x - y)"
proof -
  obtain d where d: "subset_bits d (an_span a)" "x = an_base a + d" "uint x = uint (an_base a) + uint d" "uint d \<le> uint (an_span a)"
    using x by (rule an_hasE)
  obtain e where e: "subset_bits e (an_span b)" "y = an_base b + e" "uint y = uint (an_base b) + uint e" "uint e \<le> uint (an_span b)"
    using y by (rule an_hasE)
  let ?m2 = "an_base b + an_span b"
  have "an_has \<lparr>an_base = an_base a - ?m2, an_span = (an_span a + an_span b) OR an_span a OR an_span b\<rparr> (x - y)"
    if "\<not> ?m2 < an_base b" "\<not> an_base a < an_base a - ?m2"
  proof (rule an_hasI [where e = "d + (an_span b - e)"])
    have "uint ?m2 \<le> uint (an_base a)" using that(2) unfolding linorder_not_less no_ulen_sub .
    moreover have "uint ?m2 = uint (an_base b) + uint (an_span b)" using that(1) by (rule no_wrap)
    moreover have "0 \<le> uint d" by simp
    ultimately have "uint (x - y) = uint x - uint y" "uint (an_base a - ?m2) = uint (an_base a) - uint ?m2" "uint (an_base a) - uint ?m2 \<le> uint x - uint y"
      using d(3) e(3,4) by (linarith | subst uint_sub_le)+
    then show "uint (an_base \<lparr>an_base = an_base a - ?m2, an_span = (an_span a + an_span b) OR an_span a OR an_span b\<rparr>) \<le> uint (x - y)" by simp
  qed (use mask_sum_covers [OF d(1) subset_bits_diff [OF e(1)]] d(2) e(2) in \<open>simp_all add: algebra_simps\<close>)
  then show ?thesis by (simp add: an_sub_def Let_def an_top_sound)
qed

section \<open>Division of additive numbers\<close>

lemma mask_step: "push_bit 1 (mask j) OR 1 = (mask (Suc j) :: 'w::len word)"
  by (simp add: mask_Suc_double or.commute mult.commute)

text \<open>The loop stops at the least mask that is at least \<open>n\<close>, or at the mask of all its rounds.\<close>

lemma ones_loop_mask:
  fixes n :: "'w::len word"
  assumes "\<forall>i < j. mask i < n"
  shows "\<exists>l. ones_loop k (mask j) n = mask l \<and> (\<forall>i < l. mask i < n) \<and> (n \<le> mask l \<or> l = j + k)"
  using assms
proof (induction k arbitrary: j)
  case (Suc k)
  show ?case
  proof (cases "mask j < n")
    case True
    have "\<forall>i < Suc j. mask i < n" using True Suc.prems by (auto simp: less_Suc_eq)
    from Suc.IH [OF this] show ?thesis unfolding ones_loop.simps mask_step using True by simp
  qed (use Suc.prems in auto)
qed auto

lemma ones_mask_least:
  fixes n :: "'w::len word"
  obtains l where "ones_mask n = mask l" "n \<le> mask l" "\<And>i. n \<le> mask i \<Longrightarrow> l \<le> i"
proof (cases "n = 0")
  case True
  then show ?thesis using that [of 0] by (simp add: ones_mask_def)
next
  case False
  then have "\<forall>i < 1. mask i < n" by (simp add: word_gt_0)
  from ones_loop_mask [OF this, where k = "LENGTH('w) - 1"] obtain l
    where l: "ones_loop (LENGTH('w) - 1) (mask 1) n = mask l" "\<forall>i < l. mask i < n" "n \<le> mask l \<or> l = LENGTH('w)" by auto
  have ge: "n \<le> mask l" using l(3) by auto
  have "ones_mask n = mask l" using False ge l(1) by (simp add: ones_mask_def Let_def)
  moreover have "l \<le> i" if "n \<le> mask i" for i using that l(2) by (meson leD linorder_not_less)
  ultimately show ?thesis using ge that by blast
qed

lemma le_mask_subset: "e \<le> mask j \<Longrightarrow> subset_bits e (mask j)" for e :: "'w::len word"
proof -
  assume e: "e \<le> mask j"
  have "\<not> bit e i" if "i < LENGTH('w)" "j \<le> i" for i
  proof -
    have "uint e \<le> uint (mask j :: 'w word)" using e by (simp only: word_le_def)
    also have "\<dots> = mask j" using that by (simp add: uint_mask_eq min_def)
    finally have "take_bit j (uint e) = uint e" by (simp add: take_bit_int_eq_self mask_eq_exp_minus_1)
    then have "\<not> bit (uint e) i" using that(2) by (metis bit_take_bit_iff linorder_not_less)
    then show ?thesis using that(1) by (simp add: bit_uint_iff)
  qed
  then show ?thesis by (auto simp: subset_bits_iff bit_mask_iff) (meson linorder_not_less)
qed

lemma uint_div_mono: "uint x \<le> uint y \<Longrightarrow> uint (x div d) \<le> uint (y div d)" for x y d :: "'w::len word"
proof (cases "uint d = 0")
  case False
  then have "0 < uint d" using uint_ge_0 [of d] by linarith
  then show "uint x \<le> uint y \<Longrightarrow> ?thesis" unfolding uint_div_distrib by (rule zdiv_mono1 [rotated])
qed (simp add: uint_div_distrib)

lemma an_div_const_sound:
  assumes x: "an_has a x" and "an_div_const a d = Inr q"
  shows "an_has q (x div d)"
proof -
  obtain e where e: "x = an_base a + e" "uint x = uint (an_base a) + uint e" "uint e \<le> uint (an_span a)" using x by (rule an_hasE)
  let ?max = "an_base a + an_span a"
  have "an_has \<lparr>an_base = an_base a div d, an_span = ones_mask (?max div d - an_base a div d)\<rparr> (x div d)"
    if "\<not> ?max < an_base a" "\<not> ?max div d < an_base a div d"
  proof -
    have "uint (an_base a) \<le> uint x" "uint x \<le> uint ?max" using e no_wrap [OF that(1)] by simp_all
    then have q: "uint (an_base a div d) \<le> uint (x div d)" "uint (x div d) \<le> uint (?max div d)" by (simp_all only: uint_div_mono)
    then have "uint (x div d - an_base a div d) \<le> uint (?max div d - an_base a div d)" by (simp add: uint_sub_le)
    then have le: "x div d - an_base a div d \<le> ?max div d - an_base a div d" by (simp only: word_le_def)
    obtain l where "ones_mask (?max div d - an_base a div d) = mask l" "?max div d - an_base a div d \<le> mask l" by (rule ones_mask_least)
    then have "subset_bits (x div d - an_base a div d) (ones_mask (?max div d - an_base a div d))" using le_mask_subset le order.trans by metis
    then show ?thesis using q(1) by (simp add: an_has_def subset_bits_def word_le_def)
  qed
  then show ?thesis using assms(2) by (auto simp: an_div_const_def Let_def an_top_sound rassert_def rbind_def split: if_splits)
qed

section \<open>Intervals\<close>

lemma xi_has_uint: "xi_has a x \<longleftrightarrow> uint (xi_lo a) \<le> uint x \<and> uint x \<le> uint (xi_hi a)"
  by (simp add: xi_has_def word_le_def)

lemma xi_top_sound: "xi_has xi_top x"
  by (simp add: xi_has_def xi_top_def)

lemma xi_add_sound: "xi_has a x \<Longrightarrow> xi_has b y \<Longrightarrow> xi_has (xi_add a b) (x + y)" for x y :: "'w::len word"
proof -
  assume h: "xi_has a x" "xi_has b y"
  have "xi_has \<lparr>xi_lo = xi_lo a + xi_lo b, xi_hi = xi_hi a + xi_hi b\<rparr> (x + y)"
    if "\<not> xi_lo a + xi_lo b < xi_lo a" "\<not> xi_hi a + xi_hi b < xi_hi a"
  proof -
    note n = no_wrap [OF that(1)] no_wrap [OF that(2)]
    have "uint x + uint y < 2 ^ LENGTH('w)" using h uint_lt2p [of "xi_hi a + xi_hi b"] unfolding xi_has_uint n by linarith
    then show ?thesis using h n unfolding xi_has_uint by (simp add: uint_add_lem)
  qed
  then show ?thesis by (simp add: xi_add_def Let_def xi_top_sound)
qed

lemma xi_sub_sound: "xi_has a x \<Longrightarrow> xi_has b y \<Longrightarrow> xi_has (xi_sub a b) (x - y)"
proof -
  assume h: "xi_has a x" "xi_has b y"
  have "xi_has \<lparr>xi_lo = xi_lo a - xi_hi b, xi_hi = xi_hi a - xi_lo b\<rparr> (x - y)" if "xi_hi b \<le> xi_lo a" "xi_lo b \<le> xi_hi a"
    using h that unfolding xi_has_uint word_le_def by (simp add: uint_sub_le)
  then show ?thesis by (simp add: xi_sub_def xi_top_sound)
qed

lemma xi_meet_sound: "xi_has a x \<Longrightarrow> xi_has b x \<Longrightarrow> xi_has (xi_meet a b) x"
  by (auto simp: xi_meet_def Let_def xi_top_sound xi_has_def)

lemma xi_join_sound: "xi_has a x \<or> xi_has b x \<Longrightarrow> xi_has (xi_join a b) x"
  by (auto simp: xi_join_def Let_def xi_has_def)

lemma xi_mul_sound: "xi_has a x \<Longrightarrow> xi_has b y \<Longrightarrow> xi_has (xi_mul a b) (x * y)" for x y :: "'w::len word"
proof -
  assume h: "xi_has a x" "xi_has b y"
  have "xi_has \<lparr>xi_lo = l, xi_hi = u\<rparr> (x * y)"
    if "w_checked_mul (xi_lo a) (xi_lo b) = Some l" "w_checked_mul (xi_hi a) (xi_hi b) = Some u" for l u
  proof -
    have "uint (xi_lo a) * uint (xi_lo b) \<le> uint x * uint y" "uint x * uint y \<le> uint (xi_hi a) * uint (xi_hi b)"
      using h unfolding xi_has_uint by (auto intro!: mult_mono)
    moreover from this have "uint (x * y) = uint x * uint y" using that unfolding w_checked_mul_view uint_mult_lem [symmetric] by linarith
    ultimately show ?thesis using that unfolding w_checked_mul_view xi_has_uint by simp
  qed
  then show ?thesis by (auto simp: xi_mul_def xi_top_sound split: option.splits)
qed

lemma xi_div_const_sound: "xi_has a x \<Longrightarrow> xi_div_const a d = Inr q \<Longrightarrow> xi_has q (x div d)"
  by (auto simp: xi_div_const_def rbind_def rassert_def xi_has_uint uint_div_mono split: if_splits)

text \<open>An interval shorter than the divisor whose ends keep their order modulo it lies in one multiple.\<close>

lemma mod_monotone_in_window:
  fixes l u x d :: int
  assumes d: "0 < d" and lx: "l \<le> x" and xu: "x \<le> u" and "u - l < d" "l mod d \<le> u mod d"
  shows "l mod d \<le> x mod d \<and> x mod d \<le> u mod d"
proof -
  have q: "l div d \<le> x div d" "x div d \<le> u div d" using d lx xu by (simp_all add: zdiv_mono1)
  have "u div d = l div d"
  proof (rule ccontr)
    assume "u div d \<noteq> l div d"
    then have "d \<le> d * (u div d - l div d)" using q d by simp
    then show False using assms(4,5) mult_div_mod_eq [of d u] mult_div_mod_eq [of d l] by (simp add: algebra_simps)
  qed
  then have "x div d = l div d" "u div d = l div d" using q by simp_all
  then show ?thesis using lx xu by (simp add: minus_mult_div_eq_mod [symmetric])
qed

lemma xi_mod_const_sound:
  fixes x :: "'w::len word"
  assumes h: "xi_has a x" and r: "xi_mod_const a d = Inr q"
  shows "xi_has q (x mod d)"
proof (cases "d = 0")
  case True
  then show ?thesis using r by (auto simp: xi_mod_const_def rbind_def rassert_def split: if_splits)
next
  case False
  then have d: "0 < uint d" using uint_ge_0 [of d] by (simp add: order_less_le)
  have le: "uint (xi_lo a) \<le> uint (xi_hi a)" using h unfolding xi_has_uint by linarith
  have dm: "uint (d - 1) = uint d - 1" using d by (subst uint_sub_le) simp_all
  have "xi_has \<lparr>xi_lo = 0, xi_hi = d - 1\<rparr> (x mod d)" using d dm by (simp add: xi_has_uint uint_mod_distrib)
  moreover have "xi_has \<lparr>xi_lo = xi_lo a mod d, xi_hi = xi_hi a mod d\<rparr> (x mod d)"
    if "xi_hi a - xi_lo a < d" "xi_lo a mod d \<le> xi_hi a mod d"
    using mod_monotone_in_window [OF d, of "uint (xi_lo a)" "uint x" "uint (xi_hi a)"] that h le
    by (simp add: xi_has_uint word_le_def word_less_def uint_mod_distrib uint_sub_le)
  ultimately show ?thesis using r by (auto simp: xi_mod_const_def rbind_def rassert_def split: if_splits)
qed

lemma exec_interval_sound:
  assumes "xi_has a x" "xi_has b y"
  shows "xi_has (xi_add a b) (x + y)" "xi_has (xi_sub a b) (x - y)" "xi_has (xi_mul a b) (x * y)" "xi_has (xi_join a b) x" "xi_has (xi_join a b) y"
    and "xi_has b x \<Longrightarrow> xi_has (xi_meet a b) x" "d \<noteq> 0 \<Longrightarrow> \<exists>q. xi_div_const a d = Inr q \<and> xi_has q (x div d)"
    and "d \<noteq> 0 \<Longrightarrow> \<exists>q. xi_mod_const a d = Inr q \<and> xi_has q (x mod d)"
proof -
  assume d: "d \<noteq> 0"
  have "xi_lo a \<le> xi_hi a" using assms(1) by (auto simp: xi_has_def)
  then obtain q where "xi_mod_const a d = Inr q" using d by (cases "xi_hi a - xi_lo a < d"; cases "xi_lo a mod d \<le> xi_hi a mod d") (simp_all add: xi_mod_const_def rassert_def)
  then show "\<exists>q. xi_mod_const a d = Inr q \<and> xi_has q (x mod d)" using xi_mod_const_sound assms(1) by blast
next
  assume "d \<noteq> 0"
  then obtain q where "xi_div_const a d = Inr q" by (auto simp: xi_div_const_def rassert_def)
  then show "\<exists>q. xi_div_const a d = Inr q \<and> xi_has q (x div d)" using xi_div_const_sound assms(1) by blast
qed (use assms in \<open>simp_all add: xi_add_sound xi_sub_sound xi_mul_sound xi_join_sound xi_meet_sound\<close>)

section \<open>Back to tristate numbers\<close>

text \<open>
  \<open>to_etn\<close> clears the bits of the base that the span also has, and forgets the carries they cause: it keeps every member
  exactly when there are none.
\<close>

lemma to_etn_disjoint:
  assumes "an_base a AND an_span a = 0" "an_has a x"
  shows "tn_contains (an_to_etn a) x"
proof -
  have b: "an_base a AND NOT (an_span a) = an_base a" using assms(1) by (auto simp: bit_eq_iff bit_simps)
  obtain e where e: "subset_bits e (an_span a)" "x = an_base a + e" using assms(2) by (rule an_hasE)
  have "an_base a AND e = 0" using assms(1) e(1) by (auto simp: subset_bits_iff bit_eq_iff bit_simps)
  then have "x = an_base a OR e" unfolding e(2) by (rule disjunctive_add_eq_or)
  then show ?thesis using e(1) assms(1) unfolding tn_contains_def an_to_etn_def exec_tnum.simps
    by (auto simp: subset_bits_iff bit_eq_iff bit_simps)
qed

lemma to_etn_max:
  fixes a :: "'w::len word exec_anum"
  assumes n: "an_base a \<le> an_base a + an_span a" and c: "tn_contains (an_to_etn a) (an_base a + an_span a)"
  shows "an_base a AND an_span a = 0"
proof -
  let ?b = "an_base a" and ?s = "an_span a"
  let ?x = "?b + ?s"
  have split: "w = (w AND NOT ?s) + (w AND ?s)" for w :: "'w word"
  proof -
    have "(w AND NOT ?s) + (w AND ?s) = (w AND NOT ?s) OR (w AND ?s)" by (rule disjunctive_add_eq_or) (auto simp: bit_eq_iff bit_simps)
    then show ?thesis by (auto simp: bit_eq_iff bit_simps)
  qed
  have "?x AND NOT ?s = ?b AND NOT ?s" using c by (simp add: tn_contains_def an_to_etn_def)
  then have "?x = (?b AND NOT ?s) + (?x AND ?s)" using split [of ?x] by simp
  moreover have "?x = (?b AND NOT ?s) + (?b AND ?s) + ?s" using split [of ?b] by simp
  ultimately have eq: "?x AND ?s = (?b AND ?s) + ?s" by (simp add: algebra_simps)
  have x: "uint ?x = uint ?b + uint ?s" using n by (simp only: uint_plus_simple_iff)
  have "uint (?b AND ?s) \<le> uint ?b" by (metis word_and_le2 word_le_def)
  then have "uint (?b AND ?s) + uint ?s < 2 ^ LENGTH('w)" using x uint_lt2p [of ?x] by linarith
  then have "uint (?x AND ?s) = uint (?b AND ?s) + uint ?s" unfolding eq uint_add_lem .
  moreover have "uint (?x AND ?s) \<le> uint ?s" by (metis word_and_le1 word_le_def)
  ultimately have "uint (?b AND ?s) \<le> 0" by linarith
  then show ?thesis by simp
qed

lemma an_has_max: "an_base a \<le> an_base a + an_span a \<Longrightarrow> an_has a (an_base a + an_span a)"
  by (simp add: an_has_def)

lemma to_etn_keeps_iff:
  "an_base a \<le> an_base a + an_span a \<Longrightarrow> (\<forall>x. an_has a x \<longrightarrow> tn_contains (an_to_etn a) x) \<longleftrightarrow> an_base a AND an_span a = 0"
  using to_etn_disjoint to_etn_max an_has_max by blast

section \<open>The properties\<close>

lemma tn_bounds: "tn_contains t x \<Longrightarrow> tn_min_val t \<le> x \<and> x \<le> tn_max_val t"
  using tn_contains_between [of t x] by (auto simp: tn_min_val_def tn_max_val_def word_le_def subset_bits_le)

text \<open>
  C37: the bitwise operations, addition, subtraction, negation, multiplication, the shifts, join and meet of tristate
  numbers are sound at every word width: when \<open>s\<close> contains \<open>x\<close> and \<open>t\<close> contains \<open>y\<close>, the results contain the bitwise
  combinations, the wrapped sum, difference, negation and product, the shifts by one and by any number, and both operands of
  a join; a meet contains every common member, and a member lies between the minimum and the maximum.  Division and
  remainder by a constant are not among them.
\<close>
theorem tnum_transfers_sound:
  fixes s t :: "'w::len word exec_tnum"
  assumes "tn_contains s x" "tn_contains t y"
  shows "tn_contains (tn_or s t) (x OR y) \<and> tn_contains (tn_and s t) (x AND y) \<and> tn_contains (tn_xor s t) (x XOR y)
    \<and> tn_contains (tn_not s) (NOT x) \<and> tn_contains (tn_and_not s t) (x AND NOT y)
    \<and> tn_contains (tn_add s t) (x + y) \<and> tn_contains (tn_sub s t) (x - y) \<and> tn_contains (tn_neg s) (- x)
    \<and> tn_contains (tn_mul s t) (x * y)
    \<and> tn_contains (tn_lsh s) (push_bit 1 x) \<and> tn_contains (tn_rsh s) (drop_bit 1 x)
    \<and> (\<forall>i. tn_contains (tn_lshi s i) (push_bit i x) \<and> tn_contains (tn_rshi s i) (drop_bit i x))
    \<and> tn_contains (tn_join s t) x \<and> tn_contains (tn_join s t) y \<and> (tn_contains t x \<longrightarrow> tn_contains (tn_meet s t) x)
    \<and> tn_min_val s \<le> x \<and> x \<le> tn_max_val s"
  by (intro conjI impI allI)
    (use assms in \<open>simp_all only: tn_bitwise_sound tn_not_sound tn_and_not_def tn_add_sound tn_sub_sound tn_neg_sound tn_mul_sound
      tn_lsh_sound tn_rsh_sound tn_lshi_sound tn_rshi_sound tn_join_sound tn_contains_wf tn_meet_sound tn_bounds simp_thms\<close>)

theorem tnum_transfers_sound_witness:
  "tn_contains \<lparr>tn_val = 4, tn_mask = 3\<rparr> (6 :: 64 word) \<and> tn_contains \<lparr>tn_val = 1, tn_mask = 4\<rparr> (5 :: 64 word)
    \<and> tn_contains (tn_add \<lparr>tn_val = 4, tn_mask = 3\<rparr> \<lparr>tn_val = 1, tn_mask = 4\<rparr>) (11 :: 64 word)"
proof -
  have h: "tn_contains \<lparr>tn_val = 4, tn_mask = 3\<rparr> (6 :: 64 word)" "tn_contains \<lparr>tn_val = 1, tn_mask = 4\<rparr> (5 :: 64 word)"
    by (simp_all add: tn_contains_def)
  then show ?thesis using tnum_transfers_sound [OF h] by simp
qed

text \<open>
  C38: addition, subtraction and division of additive numbers are sound: sums and differences of members, as words that
  wrap, and quotients by a constant are members of the results; a division by zero panics.
\<close>
theorem anum_arithmetic_sound:
  fixes a b :: "'w::len word exec_anum"
  assumes "an_has a x" "an_has b y"
  shows "an_has (an_add a b) (x + y) \<and> an_has (an_sub a b) (x - y)
    \<and> (case an_div_const a d of Inl e \<Rightarrow> d = 0 \<and> e = DivideByZero | Inr q \<Rightarrow> d \<noteq> 0 \<and> an_has q (x div d))"
proof (intro conjI)
  show "case an_div_const a d of Inl e \<Rightarrow> d = 0 \<and> e = DivideByZero | Inr q \<Rightarrow> d \<noteq> 0 \<and> an_has q (x div d)"
  proof (cases "an_div_const a d")
    case (Inl e)
    then show ?thesis by (auto simp: an_div_const_def Let_def rassert_def split: if_splits)
  next
    case (Inr q)
    then show ?thesis using an_div_const_sound [OF assms(1) Inr] by (auto simp: an_div_const_def rassert_def split: if_splits)
  qed
qed (use assms in \<open>simp_all add: an_add_sound an_sub_sound\<close>)

theorem anum_arithmetic_sound_witness:
  "an_has \<lparr>an_base = 7, an_span = 5\<rparr> (11 :: 64 word) \<and> an_div_const \<lparr>an_base = 7, an_span = 5\<rparr> (3 :: 64 word) = Inr \<lparr>an_base = 2, an_span = 3\<rparr>
    \<and> an_has \<lparr>an_base = 2, an_span = 3\<rparr> (11 div 3 :: 64 word)
    \<and> an_has (an_sub \<lparr>an_base = 7, an_span = 5\<rparr> (an_constant 2)) (9 :: 64 word)"
proof -
  have h: "an_has \<lparr>an_base = 7, an_span = 5\<rparr> (11 :: 64 word)" "an_has (an_constant 2) (2 :: 64 word)"
    by (simp_all add: an_has_def an_constant_def)
  moreover have "an_div_const \<lparr>an_base = 7, an_span = 5\<rparr> (3 :: 64 word) = Inr \<lparr>an_base = 2, an_span = 3\<rparr>" by code_simp
  ultimately show ?thesis using anum_arithmetic_sound [OF h, of 3] by simp
qed

text \<open>
  The quotient of a tristate number: the members are between the quotients of the least and the greatest member, and the
  conversion keeps all of them when it keeps the greatest, because the mask of \<open>div_const\<close> has no gaps.
\<close>

lemma high_bits_div: "uint (w AND NOT (mask l)) = 2 ^ l * (uint w div 2 ^ l)" for w :: "'w::len word"
proof -
  have "uint (w AND NOT (mask l)) = uint w AND NOT (mask l)"
    by (rule bit_eqI) (auto simp: bit_uint_iff bit_simps dest: bit_imp_le_length)
  also have "\<dots> = push_bit l (drop_bit l (uint w))"
    by (rule bit_eqI) (auto simp: bit_simps)
  finally show ?thesis by (simp add: push_bit_eq_mult drop_bit_eq_div mult.commute)
qed

lemma high_bits_between:
  fixes u w z :: "'w::len word"
  assumes "uint u \<le> uint w" "uint w \<le> uint z" "u AND NOT (mask l) = z AND NOT (mask l)"
  shows "w AND NOT (mask l) = u AND NOT (mask l)"
proof -
  have "uint u div 2 ^ l = uint z div 2 ^ l" using arg_cong [OF assms(3), of uint] unfolding high_bits_div by simp
  moreover have "uint u div 2 ^ l \<le> uint w div 2 ^ l" "uint w div 2 ^ l \<le> uint z div 2 ^ l" using assms(1,2) by (simp_all add: zdiv_mono1)
  ultimately have "uint w div 2 ^ l = uint u div 2 ^ l" by linarith
  then have "uint (w AND NOT (mask l)) = uint (u AND NOT (mask l))" unfolding high_bits_div by (simp only:)
  then show ?thesis by (simp only: word_uint_eq_iff)
qed

lemma tn_max_contained: "tn_wf t \<Longrightarrow> tn_contains t (tn_max_val t)"
  by (auto simp: tn_contains_bits tn_wf_bits tn_max_val_def bit_simps)

lemma tn_div_const_keeps_iff:
  fixes t :: "'w::len word exec_tnum"
  assumes t: "tn_wf t" and d: "d \<noteq> 0"
  obtains r where "tn_div_const t d = Inr r"
    "(\<forall>x. tn_contains t x \<longrightarrow> tn_contains r (x div d)) \<longleftrightarrow> tn_contains r (tn_max_val t div d)"
proof -
  let ?u = "tn_val t div d" and ?z = "tn_max_val t div d"
  obtain l where l: "ones_mask (?z - ?u) = mask l" by (rule ones_mask_least)
  let ?r = "\<lparr>tn_val = ?u AND NOT (mask l), tn_mask = mask l\<rparr>"
  have m: "tn_val t + tn_mask t = tn_max_val t" using tn_upper [OF t] by (simp add: tn_max_val_def)
  have b: "uint ?u \<le> uint (x div d)" "uint (x div d) \<le> uint ?z" if "tn_contains t x" for x
    using tn_bounds [OF that] by (simp_all add: tn_min_val_def word_le_def uint_div_mono)
  have "\<not> tn_max_val t < tn_val t" "\<not> ?z < ?u"
    using tn_bounds [OF tn_max_contained [OF t]] b [OF tn_max_contained [OF t]] by (simp_all add: tn_min_val_def word_less_def word_le_def)
  then have r: "tn_div_const t d = Inr ?r"
    using d by (simp add: tn_div_const_def an_div_const_def an_from_etn_def an_to_etn_def rassert_def m l Let_def)
  have c: "tn_contains ?r w \<longleftrightarrow> w AND NOT (mask l) = ?u AND NOT (mask l)" for w by (simp add: tn_contains_def)
  have "tn_contains ?r (x div d)" if "tn_contains ?r ?z" "tn_contains t x" for x
    using high_bits_between [OF b [OF that(2)]] that(1) unfolding c by simp
  then show thesis using that [OF r] tn_max_contained [OF t] by blast
qed

text \<open>
  C39: \<open>to_etn\<close> forgets carries.  It keeps every member of an additive number whose greatest member does not wrap exactly
  when base and span share no bit.  \<open>ExecTnum::div_const\<close> ends with this conversion, and its result contains the quotients of
  all members exactly when it contains the quotient of the greatest one.
\<close>
theorem to_etn_loses_carries:
  fixes a :: "'w::len word exec_anum" and t :: "'w word exec_tnum"
  assumes "an_base a \<le> an_base a + an_span a" and "tn_wf t" and "d \<noteq> 0"
  shows "((\<forall>x. an_has a x \<longrightarrow> tn_contains (an_to_etn a) x) \<longleftrightarrow> an_base a AND an_span a = 0)
    \<and> (\<exists>r. tn_div_const t d = Inr r \<and>
        ((\<forall>x. tn_contains t x \<longrightarrow> tn_contains r (x div d)) \<longleftrightarrow> tn_contains r (tn_max_val t div d)))"
  using to_etn_keeps_iff [OF assms(1)] tn_div_const_keeps_iff [OF assms(2,3)] by metis

text \<open>The members 4 and 6 divided by 3 are 1 and 2, and the result of the division contains 0 and 1.\<close>

theorem to_etn_loses_carries_witness:
  "tn_contains \<lparr>tn_val = 4, tn_mask = 2\<rparr> (6 :: 64 word)
    \<and> tn_div_const \<lparr>tn_val = 4, tn_mask = 2\<rparr> (3 :: 64 word) = Inr \<lparr>tn_val = 0, tn_mask = 1\<rparr>
    \<and> \<not> (\<forall>x. tn_contains \<lparr>tn_val = 4, tn_mask = 2\<rparr> x \<longrightarrow> tn_contains \<lparr>tn_val = 0, tn_mask = 1\<rparr> (x div 3 :: 64 word))
    \<and> \<not> (\<forall>x. an_has \<lparr>an_base = 1, an_span = 1\<rparr> x \<longrightarrow> tn_contains (an_to_etn \<lparr>an_base = 1, an_span = 1\<rparr>) (x :: 64 word))"
proof -
  have "an_div_const (an_from_etn \<lparr>tn_val = 4, tn_mask = 2\<rparr>) (3 :: 64 word) = Inr \<lparr>an_base = 1, an_span = 1\<rparr>" by code_simp
  then have d: "tn_div_const \<lparr>tn_val = 4, tn_mask = 2\<rparr> (3 :: 64 word) = Inr \<lparr>tn_val = 0, tn_mask = 1\<rparr>"
    by (simp add: tn_div_const_def an_to_etn_def)
  then show ?thesis using to_etn_loses_carries [of "\<lparr>an_base = 1, an_span = 1 :: 64 word\<rparr>" "\<lparr>tn_val = 4, tn_mask = 2\<rparr>" 3]
    by (simp add: tn_wf_def tn_max_val_def tn_contains_def)
qed

end
