(* ===== verification/Spec2Isabelle.thy ===== *)
theory Spec2Isabelle
  imports Vec_Refine Sp_Map Sparse_Set List_Arena Union_Find Lca_Props EClasses_Props Bplus_Props Nary_Props Colour_Props Abs_Int Abs_Facts Abs_Tnum_Props
begin

text \<open>
  Verification of the semi-persistent containers, of the join layer that reads them, of the rewriting of
  multisets of children in the e-graph, of the extraction of terms from it and of the abstract domains of this repository.

  \<^bold>\<open>The program.\<close>  A semi-persistent container is mutable and has \<open>mark()\<close>, which returns a token, and
  \<open>restore(token)\<close>, which brings back the contents at the mark.  The crate \<open>containers\<close> builds everything on one
  structure, the vector with an undo log (\<open>vec.rs\<close>), stored in one of two layouts (\<open>diff_store.rs\<close>) and guarded
  by a genealogy of tokens (\<open>token.rs\<close>).  The map, the sparse set, the list arena, the union-find, the
  equivalence classes and the B+ tree hold several vectors and mark and restore them in lockstep.  The e-matcher
  (\<open>egraph/src/leapfrog.rs\<close>) joins sorted cursors, among them those of the B+ tree.  The e-graph keeps the
  children of an associative and commutative operator as a sorted list of classes with multiplicities; it orders,
  combines and rewrites such monomials (\<open>multiset.rs\<close>) and canonizes the children of a new node from them
  (\<open>nary_canon.rs\<close>, \<open>canon.rs\<close>).  \<open>extract.rs\<close> reads a cheapest term out of a class, with ties
  broken by colours that depend on content only (\<open>canon_colour.rs\<close>).  The crate
  \<open>abstract-domains\<close> is independent: lattices of sets of machine words and integers, with a reduced product that
  exchanges facts through a channel.

  \<^bold>\<open>Conventions.\<close>  Every panic of the code (failed \<open>assert!\<close>, \<open>expect\<close>, index out of bounds, exhausted
  identifiers) is \<open>Inl\<close> of the type \<open>panic + 'a\<close> of \<open>Prelude\<close>; \<open>rbind\<close> sequences.  A method with \<open>&mut self\<close>
  takes the record and returns it.  Type parameters with trait bounds (\<open>IndexLike\<close>, \<open>Tagged\<close>, \<open>DiffStore\<close>,
  \<open>SortedCursor\<close>, \<open>Domain\<close>, \<open>Channel\<close>) are records of the trait's methods, which the operations take as an
  argument; the documented laws of a trait are a locale, and each implementation in the source is an
  interpretation of it.  Index words are natural numbers below the bound of their word, with the checked and
  wrapping operations written out; the abstract domains use machine words of any width.

  \<^bold>\<open>Theories.\<close>
  \<^item> \<open>Prelude\<close>: panics as values, the operations of slices and vectors, generic lemmas.
  \<^item> \<open>Index_Like\<close> (\<open>dense_id.rs\<close>, \<open>id.rs\<close>): the trait \<open>IndexLike\<close>, the primitive words, the identifiers of
    \<open>define_id!\<close> and \<open>IdFactory\<close>; the laws of an index word, the exact number of identifiers.
  \<^item> \<open>Tagged_Repr\<close> (\<open>tagged.rs\<close>): representations that carry one control bit, \<open>Opt\<close> in that bit; round trips.
  \<^item> \<open>Token\<close> (\<open>token.rs\<close>): tokens, \<open>ContainerId\<close>, \<open>ForkHistory\<close>.  \<open>lim\<close> describes the depths of a branch that
    \<open>is_valid\<close> accepts; the locale \<open>checkpointed\<close> is the contract of a container with marks, and its sessions are
    everything a client can do with one.  \<open>live_token_restores\<close> and \<open>accepted_token_live\<close> are proved once there.
  \<^item> \<open>Diff_Store\<close> (\<open>bitset.rs\<close>, \<open>diff_store.rs\<close>): the trait \<open>DiffStore\<close>, \<open>ParallelStore\<close>, \<open>InlineStore\<close>.
  \<^item> \<open>Semi_Vec\<close>, \<open>Vec_Refine\<close> (\<open>vec.rs\<close>): every operation over any store that keeps the contract; undo segments and
    the invariant; the refinement of a specification that keeps a copy per mark, and the equality of layouts.
  \<^item> \<open>Append_Only\<close> (\<open>append_only_vec.rs\<close>), \<open>Sp_Map\<close> (\<open>map.rs\<close>): the log and the index over it.  The hash table is a
    third-party crate and is the parameter \<open>hash_ops\<close> with its documented behaviour as the locale \<open>hash_index\<close>.
  \<^item> \<open>Lockstep\<close>: containers made of several checkpointed parts are checkpointed.
  \<^item> \<open>Sparse_Set\<close> (\<open>sparse_set.rs\<close>), \<open>List_Arena\<close> (\<open>list.rs\<close>): the maps and lists that the vectors represent, and
    the operations on them.
  \<^item> \<open>Forest\<close>, \<open>Union_Find\<close> (\<open>union_find.rs\<close>): parent arrays, path compression, re-rooting of the proof forest,
    \<open>explain\<close>.
  \<^item> \<open>Ring\<close>, \<open>EClasses\<close>, \<open>EClasses_Inv\<close>, \<open>EClasses_Props\<close> (\<open>eclasses.rs\<close>): union-find, rings of members, keys and
    use-lists together.
  \<^item> \<open>Lca\<close> (\<open>egraph/src/lca.rs\<close>, \<open>explain_with_lca\<close> of \<open>containers-verus/src/union_find.rs\<close>): the tour of the proof
    forest and the tables over it.  \<open>Lca_Tour\<close>: the tour as a transition system and its invariants.  \<open>Lca_Rmq\<close>: minima
    of a sequence whose neighbours differ by one.  \<open>Lca_Tables\<close>, \<open>Lca_Props\<close>: both tables answer with lowest common
    ancestors, and explanations read from them.
  \<^item> \<open>Cursor\<close> (\<open>sorted_cursor.rs\<close>, the slice cursor of \<open>containers-verus/src/sorted_vec_cursor.rs\<close>): two contracts,
    \<open>join_cursor\<close>, which is all a join asks for, and the stronger \<open>sorted_cursor\<close>, whose \<open>seek\<close> takes every target
    after the keys already passed.
  \<^item> \<open>Leapfrog\<close> (\<open>egraph/src/leapfrog.rs\<close>, the candidate loop of \<open>ematch.rs\<close>): the difference of two cursors is a
    cursor; the join computes the intersection.
  \<^item> \<open>Bplus_Node\<close>, \<open>Bplus\<close> (\<open>bplus.rs\<close>): layouts, node edits, bulk loading, insertion, cursors, marks.
    \<open>Bplus_Shape\<close>, \<open>Bplus_Steps\<close>, \<open>Bplus_Fill\<close>: the tree that an arena represents, edits of nodes, occupancy.
    \<open>Bplus_Ops\<close>, \<open>Bplus_Insert\<close>, \<open>Bplus_Set\<close>, \<open>Bplus_Bulk\<close>, \<open>Bplus_Cursor\<close>: the operations keep it, inside the
    locale \<open>bp_ops\<close>, which five of the six layouts meet (\<open>bp_supported\<close>: all but \<open>Layout128U64\<close>).  \<open>Bplus_Session\<close>, \<open>Bplus_Props\<close>: sessions with marks.
  \<^item> \<open>Multiplicity\<close> (\<open>egraph/src/multiplicity.rs\<close>), \<open>Monomial\<close> (\<open>multiset.rs\<close>): the checked and clamped
    multiplicities; the algebra of sorted lists of classes with multiplicities, \<open>bag\<close> as their meaning, and the
    order of degrees and keys.
  \<^item> \<open>Nf_Rules\<close>, \<open>Nf_Props\<close> (\<open>multiset.rs\<close>): rules, the index by first class, the search for an applicable rule and the
    three normalizers; the locales \<open>rewriter\<close> and \<open>terminating_rewriter\<close> hold what the three have in common.
  \<^item> \<open>Nary_Canon\<close>, \<open>Nary_Props\<close> (\<open>nary_canon.rs\<close>, \<open>canon.rs\<close>): canonization of children under identity,
    idempotence, nilpotence and inverses.
  \<^item> \<open>Extract\<close> (\<open>extract.rs\<close>, \<open>Term\<close> of \<open>ast.rs\<close>): the fixpoint of costs, reconstruction and the reasons for failure,
    over the record \<open>eg_view\<close> of what the accessors of the e-graph answer; \<open>view_ok\<close> is what they promise.
    \<open>Extract_Inv\<close>: derivation trees, the invariant of the fixpoint, its end.  \<open>Extract_Props\<close>: the term of a cheapest tree.
  \<^item> \<open>Canon_Colour\<close> (\<open>canon_colour.rs\<close>): the encodings, the rounds of refinement and the colouring.  The hash is a
    third-party function and the parameter \<open>rapid\<close>.  \<open>Colour_Sem\<close>: what a round computes, over representatives.
    \<open>Colour_Props\<close>: stable colourings, convergence, renaming; \<open>collision_free\<close> is the assumption on the hash where one
    is needed.
  \<^item> \<open>Abs_Domain\<close> (\<open>lattice.rs\<close>, \<open>semantics.rs\<close>, \<open>bool4.rs\<close>, \<open>transfer.rs\<close>), \<open>Abs_Reduce\<close> (\<open>reduce.rs\<close>), \<open>Abs_Word\<close>
    (\<open>word.rs\<close>), \<open>Abs_Interval\<close> (\<open>interval.rs\<close>), \<open>Abs_Facts\<close> (\<open>facts.rs\<close>, \<open>facts_ops.rs\<close>), \<open>Abs_Int\<close>
    (\<open>interval_z.rs\<close>, \<open>facts_z.rs\<close>, \<open>sign.rs\<close>): domains, channels, transfers and their soundness.
  \<^item> \<open>Abs_Tnum\<close> (\<open>exec_tnum.rs\<close>): tristate numbers, additive numbers and intervals of machine words.
    \<open>Abs_Tnum_Props\<close>: bits of sums by their carries, soundness of the operations, and what the conversion from additive to
    tristate numbers loses.

  \<^bold>\<open>What is shown.\<close>  For every state that a client can reach, by updates, marks and restores in any order:
  a live token restores exactly the contents at its mark, and for the composite containers all parts of it; a
  token that was never restored is accepted only while it is live; the operations never panic but where stated,
  end, and do on the abstract contents (list, map, equivalence, set of keys) what their names say.
  \<open>consumed_token_accepted\<close> shows the one case the genealogy does not detect: a token that was already restored is
  accepted again after the next mark, and restores the contents at that mark.
  A table of lowest common ancestors answers for every proof forest a client can build, and the explanation read
  from it is the one \<open>explain\<close> gives.  Joins end and visit exactly the common keys.  Rewriting of monomials reaches a normal form, along equal values
  in every commutative monoid in which the rules hold, and the index only makes it faster; canonization depends on
  the classes of the children alone and keeps the value of the node.  Extraction ends on cyclic
  e-graphs too, with the term of a cheapest derivation tree or with the reason why there is none.  Colours are stable under
  renaming for every hash, and for a hash without collisions they are the bisimilarity that counts members, which is finer than the one over sets.  Abstract transfers contain every concrete result at every word
  width; widening stabilises; reduction never changes the meaning.  The exception is what goes through \<open>to_etn\<close>: division and
  remainder of tristate numbers and multiplication of additive ones.  \<open>to_etn_loses_carries\<close> says when that conversion
  keeps every member and when the division does.

  \<^bold>\<open>Fuel and bounds.\<close>  Loops over links (\<open>find\<close>, list and class iteration, the path to a leaf) get the capacity of
  their vector as fuel, and the tour of \<open>n\<close> nodes gets \<open>2 n + 2\<close>: the theorems show that the invariant makes them end within it, so that running out is never
  the reason for a result.  The leapfrog loops get more fuel than there are keys left in the cursors, and the
  theorems state that this is enough.  Galloping halves or advances within the length of the slice.
  The two loops of extraction are partial functions, whose \<open>None\<close> is a loop that never ends; the theorems show
  that they return.  \<open>reduce\<close> has the fuel of the source.  The rewriting of monomials has the bound \<open>max_rewrites\<close> of the source and
  panics beyond it; the theorems show that a bound exists from which on no call panics, and that below it the guard is the only panic.  The path of \<open>insert\<close> in the B+ tree has 24 slots; \<open>bp_supported\<close> is the
  arithmetic condition on layout and identifier width under which half-full nodes keep the tree lower.

  \<^bold>\<open>Not modelled.\<close>  Sizes of heap allocations, \<open>Debug\<close>, \<open>Display\<close> and \<open>Hash\<close>; \<open>debug_assert!\<close>; iteration counters
  of the join.  \<open>containers-verus\<close> has the same interfaces as \<open>containers\<close> and consists mostly of its own ghost
  code.  The remaining abstract domains, the e-graph engine (parser, resolver, e-matching programs, saturation,
  anti-unification) and the procedural macro of \<open>traversals\<close> are clients of what is modelled or
  manipulate the compiler's token streams.
\<close>

end
